(* ===== verification/Prelude.thy ===== *)
theory Prelude
  imports Main "HOL-Library.Word" "HOL-Library.Multiset"
begin

text \<open>
  Shared names and facts of the development: the integer types of
  src/lustre/lustre.h (lines 193 to 200) at their widths, the collections of
  facts the component theories extend, and the generic lemmas on functions
  used as arrays, on multisets of array cells and on words.
\<close>

unbundle bit_operations_syntax

type_synonym u32 = "32 word"
type_synonym u64 = "64 word"

text \<open>The clock and durations of the simulator: cfs_time_t and
  cfs_duration_t are both uint64_t, and so are obd_count, obd_id and
  obd_off.\<close>

type_synonym cfs_time = "64 word"

named_theorems heap_simps "facts about array cells of the binary heaps"
named_theorems sched_simps "facts that unfold the request schedulers"
named_theorems clock_simps "facts about 64 bit times"

section \<open>Arrays as functions\<close>

abbreviation cells :: "nat \<Rightarrow> (nat \<Rightarrow> 'a) \<Rightarrow> 'a list" where
  "cells n a \<equiv> map a [0..<n]"

lemma cells_upd [heap_simps]:
  "i < n \<Longrightarrow> cells n (a(i := x)) = (cells n a)[i := x]"
  by (rule nth_equalityI) (auto simp: nth_list_update)

lemma cells_cong: "(\<And>j. j < n \<Longrightarrow> a j = b j) \<Longrightarrow> cells n a = cells n b"
  by simp

lemma cells_shift:
  assumes "i < n" "p < n" "i \<noteq> p"
  shows "mset (cells n (a(i := a p, p := e))) = mset (cells n (a(i := e)))"
proof -
  let ?xs = "cells n (a(i := e))"
  have "mset (?xs[p := ?xs ! i, i := ?xs ! p]) = mset ?xs"
    using assms by (intro mset_swap) auto
  moreover have "?xs[p := ?xs ! i, i := ?xs ! p] = cells n (a(i := a p, p := e))"
    using assms by (intro nth_equalityI) (auto simp: nth_list_update)
  ultimately show ?thesis by simp
qed

lemma mset_cells_upd:
  "i < n \<Longrightarrow> mset (cells n (a(i := x))) = add_mset x (mset (cells n a) - {#a i#})"
  by (simp add: cells_upd mset_update)

lemma set_cells [simp]: "set (cells n a) = a ` {..<n}"
  by (auto simp: lessThan_atLeast0)

lemma mset_cells_Suc: "mset (cells (Suc n) a) = add_mset (a n) (mset (cells n a))"
  by simp

section \<open>Words\<close>

lemma unat_add_no_overflow [clock_simps]:
  "unat a + unat b < 2 ^ 64 \<Longrightarrow> unat (a + b) = unat a + unat (b :: u64)"
  by (simp add: unat_add_lem [symmetric])

lemma unat_u64_lt [simp]: "unat (w :: u64) < 18446744073709551616"
  using unsigned_less [of w] by simp

lemma unat_of_nat_u64: "n < 2 ^ 64 \<Longrightarrow> unat (of_nat n :: u64) = n"
  by (simp add: unat_of_nat)

lemma of_nat_u64_eq_0: "n < 2 ^ 64 \<Longrightarrow> (of_nat n :: u64) = 0 \<longleftrightarrow> n = 0"
  using unat_of_nat_u64 [of n] by auto

lemma word_pred:
  fixes w :: u64
  assumes "h < w"
  shows "h \<le> w - 1" "w - 1 < w" "w \<le> v \<Longrightarrow> w - 1 \<le> v - 1"
proof -
  have "w \<noteq> 0" using assms by auto
  then have w: "unat (w - 1) = unat w - 1" "0 < unat w" by (rule unat_minus_one) (use assms in \<open>simp add: word_less_nat_alt\<close>)
  then show "h \<le> w - 1" "w - 1 < w" using assms by (auto simp: word_le_nat_alt word_less_nat_alt)
  assume "w \<le> v"
  moreover then have "v \<noteq> 0" using assms by auto
  then have "unat (v - 1) = unat v - 1" by (rule unat_minus_one)
  ultimately show "w - 1 \<le> v - 1" using w by (simp add: word_le_nat_alt)
qed

lemma word_succ:
  fixes w :: u64
  assumes "w < h"
  shows "w < w + 1" "w + 1 \<le> h"
proof -
  have "unat w < unat h" using assms by (simp add: word_less_nat_alt)
  then have "unat w + 1 < 18446744073709551616" using unat_u64_lt [of h] by linarith
  then have "unat w + unat (1 :: u64) < 2 ^ 64" by simp
  from unat_add_no_overflow [OF this] have "unat (w + 1) = unat w + 1" by simp
  then show "w < w + 1" "w + 1 \<le> h" using \<open>unat w < unat h\<close> by (simp_all add: word_less_nat_alt word_le_nat_alt)
qed

section \<open>Rounding with bit masks\<close>

lemma unat_and_not_mask: "unat (x AND NOT (mask k) :: u64) = unat x div 2 ^ k * 2 ^ k"
proof -
  have "x AND NOT (mask k) = push_bit k (drop_bit k x)"
    by (rule bit_word_eqI) (auto simp: bit_simps)
  moreover have "unat (push_bit k (drop_bit k x)) = push_bit k (drop_bit k (unat x))"
  proof -
    have "push_bit k (drop_bit k (unat x)) \<le> unat x" by (simp add: push_bit_eq_mult drop_bit_eq_div)
    then have "push_bit k (drop_bit k (unat x)) < 2 ^ 64" by (rule le_less_trans) simp
    then show ?thesis by (simp add: unsigned_push_bit_eq unsigned_drop_bit_eq take_bit_nat_eq_self)
  qed
  ultimately show ?thesis by (simp add: push_bit_eq_mult drop_bit_eq_div)
qed

lemma unat_or_mask:
  assumes "k < 64"
  shows "unat (x OR mask k :: u64) = unat x div 2 ^ k * 2 ^ k + (2 ^ k - 1)"
proof -
  have "x OR mask k = (x AND NOT (mask k)) OR mask k"
    by (rule bit_word_eqI) (auto simp: bit_simps)
  also have "\<dots> = (x AND NOT (mask k)) + mask k"
    by (rule disjunctive_add_eq_or [symmetric]) (rule bit_word_eqI, auto simp: bit_simps)
  finally have e: "x OR mask k = (x AND NOT (mask k)) + mask k" .
  have m: "unat (mask k :: u64) = 2 ^ k - 1" using assms 
  proof -
    have "(2 :: nat) ^ k < 2 ^ 64" using assms by (intro power_strict_increasing) auto
    then have "unat (of_nat (2 ^ k) :: u64) = 2 ^ k" by (rule unat_of_nat_u64)
    then have p: "unat ((2 :: u64) ^ k) = 2 ^ k" by simp
    have "(mask k :: u64) = 2 ^ k - 1" by (simp add: mask_eq_exp_minus_1)
    moreover have "(2 :: u64) ^ k \<noteq> 0" using assms by simp
    ultimately show ?thesis using p by (simp add: unat_minus_one)
  qed
  define q where "q = unat x div 2 ^ k"
  have "(2 :: nat) ^ 64 = 2 ^ k * 2 ^ (64 - k)" using assms by (simp flip: power_add)
  moreover have "unat x < 2 ^ 64" by simp
  ultimately have "q < 2 ^ (64 - k)" by (simp add: q_def less_mult_imp_div_less mult.commute del: unat_u64_lt)
  then have "(q + 1) * 2 ^ k \<le> (2 :: nat) ^ (64 - k) * 2 ^ k" by (intro mult_right_mono) auto
  also have "\<dots> = 2 ^ 64" using assms by (simp flip: power_add)
  finally have "q * 2 ^ k + (2 ^ k - 1) < (2 :: nat) ^ 64" by (simp add: algebra_simps)
  then have "unat (x AND NOT (mask k)) + unat (mask k :: u64) < 2 ^ 64"
    using unat_and_not_mask [of x k] m by (simp add: q_def)
  from unat_add_no_overflow [OF this] show ?thesis unfolding e using unat_and_not_mask [of x k] m by simp
qed

end
