(* ===== verification/SchedIf.thy ===== *)
theory SchedIf
  imports Prelude
begin

text \<open>
  The abstract class Scheduler of src/lustre/scheduler.h and scheduler.cpp:
  the state all request schedulers share, and the contract that the users of
  a scheduler rely on (locale \<open>scheduler\<close>), with two stronger contracts: a
  scheduler that serves by rank, and one that serves in order of arrival.
  The schedulers of the simulator interpret these locales in their own
  theories.
\<close>

section \<open>The base class\<close>

record scheduler_base =
  sch_size :: u64
  sch_throttling :: bool

definition Scheduler_Size :: "'a scheduler_base_scheme \<Rightarrow> u64" where
  "Scheduler_Size s = sch_size s"

definition Scheduler_Empty :: "'a scheduler_base_scheme \<Rightarrow> bool" where
  "Scheduler_Empty s \<longleftrightarrow> sch_size s = 0"

definition Scheduler_Throttling :: "'a scheduler_base_scheme \<Rightarrow> bool" where
  "Scheduler_Throttling s \<longleftrightarrow> sch_throttling s"

section \<open>Histories of operations\<close>

datatype 'e sched_op = Op_enqueue 'e | Op_dequeue

text \<open>Running a history against a scheduler; the result lists the requests
  dequeued, in order.\<close>

fun run_ops :: "('e \<Rightarrow> 's \<Rightarrow> 's) \<Rightarrow> ('s \<Rightarrow> 'e option \<times> 's) \<Rightarrow> 'e sched_op list \<Rightarrow> 's \<Rightarrow> 'e list \<times> 's" where
  "run_ops enq deq [] s = ([], s)"
| "run_ops enq deq (Op_enqueue e # ops) s = run_ops enq deq ops (enq e s)"
| "run_ops enq deq (Op_dequeue # ops) s =
     (case deq s of
        (None, s') \<Rightarrow> run_ops enq deq ops s'
      | (Some e, s') \<Rightarrow> (case run_ops enq deq ops s' of (out, s'') \<Rightarrow> (e # out, s'')))"

fun enqueued :: "'e sched_op list \<Rightarrow> 'e list" where
  "enqueued [] = []"
| "enqueued (Op_enqueue e # ops) = e # enqueued ops"
| "enqueued (Op_dequeue # ops) = enqueued ops"

abbreviation "enq_all es \<equiv> map Op_enqueue es"
abbreviation "deq_times n \<equiv> replicate n Op_dequeue"

lemma enqueued_simps [simp]:
  "enqueued (xs @ ys) = enqueued xs @ enqueued ys"
  "enqueued (enq_all es) = es" "enqueued (deq_times n) = []"
  by (induction xs rule: enqueued.induct, auto) (induction es, auto, induction n, auto)

lemma run_ops_append:
  "run_ops enq deq (xs @ ys) s =
     (case run_ops enq deq xs s of (o1, s1) \<Rightarrow> case run_ops enq deq ys s1 of (o2, s2) \<Rightarrow> (o1 @ o2, s2))"
  by (induction enq deq xs s rule: run_ops.induct) (auto split: option.splits prod.splits)

section \<open>The contract\<close>

text \<open>\<open>bag\<close> are the queued requests, \<open>inv\<close> the representation
  invariant, \<open>fits\<close> what a request must satisfy to be enqueued.\<close>

locale scheduler =
  fixes inv :: "'s \<Rightarrow> bool"
    and bag :: "'s \<Rightarrow> 'e multiset"
    and fits :: "'e \<Rightarrow> 's \<Rightarrow> bool"
    and enq :: "'e \<Rightarrow> 's \<Rightarrow> 's"
    and deq :: "'s \<Rightarrow> 'e option \<times> 's"
  assumes enq_law: "inv s \<Longrightarrow> fits e s \<Longrightarrow> inv (enq e s) \<and> bag (enq e s) = add_mset e (bag s)"
    and deq_empty: "inv s \<Longrightarrow> bag s = {#} \<Longrightarrow> \<exists>s'. deq s = (None, s') \<and> inv s' \<and> bag s' = {#}"
    and deq_some: "inv s \<Longrightarrow> bag s \<noteq> {#} \<Longrightarrow>
      \<exists>e s'. deq s = (Some e, s') \<and> inv s' \<and> bag s = add_mset e (bag s')"
begin

text \<open>A history is admissible when each enqueued request fits at its turn.\<close>

fun admissible :: "'e sched_op list \<Rightarrow> 's \<Rightarrow> bool" where
  "admissible [] s = True"
| "admissible (Op_enqueue e # ops) s = (fits e s \<and> admissible ops (enq e s))"
| "admissible (Op_dequeue # ops) s = admissible ops (snd (deq s))"

lemma conservation:
  assumes "inv s" "admissible ops s" "run_ops enq deq ops s = (out, s')"
  shows "inv s'" "bag s + mset (enqueued ops) = mset out + bag s'"
proof -
  have "inv s' \<and> bag s + mset (enqueued ops) = mset out + bag s'"
    using assms
  proof (induction ops arbitrary: s out)
    case (Cons op ops)
    show ?case
    proof (cases op)
      case (Op_enqueue e)
      then show ?thesis using Cons.prems Cons.IH [of "enq e s" out] enq_law [of s e] by auto
    next
      case Op_dequeue
      show ?thesis
      proof (cases "bag s = {#}")
        case True
        then obtain s1 where s1: "deq s = (None, s1)" "inv s1" "bag s1 = {#}"
          using deq_empty Cons.prems(1) by blast
        then show ?thesis using Op_dequeue Cons.prems Cons.IH [of s1 out] True by simp
      next
        case False
        then obtain e s1 where s1: "deq s = (Some e, s1)" "inv s1" "bag s = add_mset e (bag s1)"
          using deq_some Cons.prems(1) by blast
        moreover obtain out1 where "run_ops enq deq ops s1 = (out1, s')" "out = e # out1"
          using Op_dequeue Cons.prems(3) s1 by (auto split: prod.splits)
        ultimately show ?thesis using Op_dequeue Cons.prems Cons.IH [of s1 out1] by simp
      qed
    qed
  qed simp
  then show "inv s'" "bag s + mset (enqueued ops) = mset out + bag s'" by auto
qed

lemma admissible_deq_times [simp]: "admissible (deq_times n) s"
  by (induction n arbitrary: s) auto

text \<open>Work conservation: as many dequeues as there are requests serve them
  all.\<close>

lemma drain:
  assumes "inv s" "size (bag s) \<le> n" "run_ops enq deq (deq_times n) s = (out, s')"
  shows "bag s' = {#}" "mset out = bag s" "inv s'"
proof -
  have "bag s' = {#}" using assms
  proof (induction n arbitrary: s out)
    case (Suc n)
    show ?case
    proof (cases "bag s = {#}")
      case True
      then obtain s1 where s1: "deq s = (None, s1)" "inv s1" "bag s1 = {#}"
        using deq_empty Suc.prems(1) by blast
      then show ?thesis using Suc.prems Suc.IH [of s1 out] by simp
    next
      case False
      then obtain e s1 where s1: "deq s = (Some e, s1)" "inv s1" "bag s = add_mset e (bag s1)"
        using deq_some Suc.prems(1) by blast
      moreover obtain out1 where "run_ops enq deq (deq_times n) s1 = (out1, s')"
        using Suc.prems(3) s1 by (auto split: prod.splits)
      ultimately show ?thesis using Suc.prems Suc.IH [of s1 out1] by simp
    qed
  qed simp
  then show "bag s' = {#}" "mset out = bag s" "inv s'"
    using conservation [OF assms(1) admissible_deq_times assms(3)] by simp_all
qed

text \<open>When only the number of waiting requests limits what fits.\<close>

lemma admissible_bounded:
  assumes "\<And>e s. e \<in> A \<Longrightarrow> Suc (size (bag s)) < B \<Longrightarrow> fits e s"
    and "inv s" "set (enqueued ops) \<subseteq> A" "length ops + size (bag s) < B"
  shows "admissible ops s"
  using assms(2-4)
proof (induction ops arbitrary: s)
  case (Cons op ops)
  show ?case
  proof (cases op)
    case (Op_enqueue e)
    then have f: "fits e s" using Cons.prems assms(1) [of e s] by simp
    then show ?thesis using Cons.prems Cons.IH [of "enq e s"] enq_law [of s e] Op_enqueue by simp
  next
    case Op_dequeue
    show ?thesis
    proof (cases "bag s = {#}")
      case True
      then obtain s1 where "deq s = (None, s1)" "inv s1" "bag s1 = {#}"
        using deq_empty Cons.prems(1) by blast
      then show ?thesis using Op_dequeue Cons.prems Cons.IH [of s1] True by simp
    next
      case False
      then obtain e s1 where "deq s = (Some e, s1)" "inv s1" "bag s = add_mset e (bag s1)"
        using deq_some Cons.prems(1) by blast
      then show ?thesis using Op_dequeue Cons.prems Cons.IH [of s1] by simp
    qed
  qed
qed simp

lemma deq_cases:
  assumes "inv s"
  obtains s' where "deq s = (None, s')" "inv s'" "bag s = {#}" "bag s' = {#}"
  | e s' where "deq s = (Some e, s')" "inv s'" "bag s = add_mset e (bag s')"
  using deq_empty [OF assms] deq_some [OF assms] by blast

end

text \<open>A scheduler that always serves a request of least rank.\<close>

locale ranked_scheduler = scheduler inv bag fits enq deq
  for inv :: "'s \<Rightarrow> bool" and bag :: "'s \<Rightarrow> 'e multiset" and fits enq deq +
  fixes rank :: "'e \<Rightarrow> 'k::linorder"
  assumes deq_least: "inv s \<Longrightarrow> deq s = (Some e, s') \<Longrightarrow> x \<in># bag s \<Longrightarrow> rank e \<le> rank x"
begin

lemma drain_sorted:
  assumes "inv s" "run_ops enq deq (deq_times n) s = (out, s')"
  shows "sorted (map rank out)"
  using assms
proof (induction n arbitrary: s out)
  case (Suc n)
  show ?case
    using Suc.prems(1)
  proof (cases rule: deq_cases)
    case (1 s1)
    then show ?thesis using Suc by auto
  next
    case (2 e s1)
    obtain out1 where o1: "run_ops enq deq (deq_times n) s1 = (out1, s')" "out = e # out1"
      using Suc.prems(2) 2 by (auto split: prod.splits)
    have "mset out1 \<subseteq># bag s1"
      using conservation(2) [OF 2(2) admissible_deq_times o1(1)] by simp
    then have "rank e \<le> rank x" if "x \<in> set out1" for x
      using deq_least [OF Suc.prems(1) 2(1)] 2(3) that by (auto dest: mset_subset_eqD)
    then show ?thesis using Suc.IH [OF 2(2) o1(1)] o1(2) by simp
  qed
qed simp

end

text \<open>A scheduler that serves in the order of arrival; \<open>line\<close> is the
  waiting line, first come first.\<close>

locale fifo_scheduler = scheduler inv bag fits enq deq
  for inv :: "'s \<Rightarrow> bool" and bag :: "'s \<Rightarrow> 'e multiset" and fits enq deq +
  fixes line :: "'s \<Rightarrow> 'e list"
  assumes bag_line: "bag s = mset (line s)"
    and enq_line: "inv s \<Longrightarrow> fits e s \<Longrightarrow> line (enq e s) = line s @ [e]"
    and deq_line: "inv s \<Longrightarrow> deq s = (Some e, s') \<Longrightarrow> line s = e # line s'"
begin

lemma served_in_order:
  assumes "inv s" "admissible ops s" "run_ops enq deq ops s = (out, s')"
  shows "line s @ enqueued ops = out @ line s'"
  using assms
proof (induction ops arbitrary: s out)
  case (Cons op ops)
  show ?case
  proof (cases op)
    case (Op_enqueue e)
    then show ?thesis
      using Cons.prems Cons.IH [of "enq e s" out] enq_law [of s e] enq_line [of s e] by auto
  next
    case Op_dequeue
    from Cons.prems(1) show ?thesis
    proof (cases rule: deq_cases)
      case (1 s1)
      then show ?thesis using Op_dequeue Cons.prems Cons.IH [of s1 out] by (simp add: bag_line)
    next
      case (2 e s1)
      moreover obtain out1 where "run_ops enq deq ops s1 = (out1, s')" "out = e # out1"
        using Op_dequeue Cons.prems(3) 2 by (auto split: prod.splits)
      ultimately show ?thesis
        using Op_dequeue Cons.prems Cons.IH [of s1 out1] deq_line [of s e s1] by simp
    qed
  qed
qed simp

end

text \<open>A scheduler that serves each class of requests in the order of
  arrival; \<open>cline c\<close> is the waiting line of class \<open>c\<close>.\<close>

locale class_scheduler = scheduler inv bag fits enq deq
  for inv :: "'s \<Rightarrow> bool" and bag :: "'s \<Rightarrow> 'e multiset" and fits enq deq +
  fixes cls :: "'e \<Rightarrow> 'c" and cline :: "'c \<Rightarrow> 's \<Rightarrow> 'e list"
  assumes enq_cline: "inv s \<Longrightarrow> fits e s \<Longrightarrow> cline c (enq e s) = cline c s @ (if cls e = c then [e] else [])"
    and deq_cline: "inv s \<Longrightarrow> deq s = (Some e, s') \<Longrightarrow> cline c s = (if cls e = c then [e] else []) @ cline c s'"
    and idle_cline: "inv s \<Longrightarrow> deq s = (None, s') \<Longrightarrow> cline c s' = cline c s"
begin

lemma class_in_order:
  assumes "inv s" "admissible ops s" "run_ops enq deq ops s = (out, s')"
  shows "cline c s @ filter (\<lambda>e. cls e = c) (enqueued ops) = filter (\<lambda>e. cls e = c) out @ cline c s'"
  using assms
proof (induction ops arbitrary: s out)
  case (Cons op ops)
  show ?case
  proof (cases op)
    case (Op_enqueue e)
    then have "fits e s" using Cons.prems(2) by simp
    then show ?thesis
      using Cons.prems Op_enqueue Cons.IH [of "enq e s" out] enq_law [of s e] enq_cline [of s e c] by auto
  next
    case Op_dequeue
    from Cons.prems(1) show ?thesis
    proof (cases rule: deq_cases)
      case (1 s1)
      then show ?thesis
        using Op_dequeue Cons.prems Cons.IH [of s1 out] idle_cline [OF Cons.prems(1) 1(1), of c] by simp
    next
      case (2 e s1)
      moreover obtain out1 where "run_ops enq deq ops s1 = (out1, s')" "out = e # out1"
        using Op_dequeue Cons.prems(3) 2 by (auto split: prod.splits)
      ultimately show ?thesis
        using Op_dequeue Cons.prems Cons.IH [of s1 out1] deq_cline [OF Cons.prems(1) 2(1), of c] by simp
    qed
  qed
qed simp

end

end
