(* ===== verification/NrsFifo.thy ===== *)
theory NrsFifo
  imports SchedIf
begin

text \<open>
  The first come first served scheduler of src/lustre/nrsfifo.cpp, a
  std::list used from its front (enqueue) and its back (dequeue).
\<close>

record 'e nrs_fifo = scheduler_base +
  fifo_Q :: "'e list"

definition NrsFifo_new :: "'e nrs_fifo" where
  "NrsFifo_new = \<lparr>sch_size = 0, sch_throttling = False, fifo_Q = []\<rparr>"

definition NrsFifo_Enqueue :: "'e \<Rightarrow> 'e nrs_fifo \<Rightarrow> 'e nrs_fifo" where
  "NrsFifo_Enqueue e s = s\<lparr>sch_size := sch_size s + 1, fifo_Q := e # fifo_Q s\<rparr>"

definition NrsFifo_Requeue :: "'e \<Rightarrow> 'e nrs_fifo \<Rightarrow> 'e nrs_fifo" where
  "NrsFifo_Requeue e s = s\<lparr>sch_size := sch_size s + 1, fifo_Q := fifo_Q s @ [e]\<rparr>"

text \<open>std::list::remove drops every element equal to \<open>e\<close>.\<close>

definition NrsFifo_Erase :: "'e \<Rightarrow> 'e nrs_fifo \<Rightarrow> 'e nrs_fifo" where
  "NrsFifo_Erase e s = s\<lparr>sch_size := sch_size s - 1, fifo_Q := removeAll e (fifo_Q s)\<rparr>"

definition NrsFifo_Dequeue :: "'e nrs_fifo \<Rightarrow> 'e option \<times> 'e nrs_fifo" where
  "NrsFifo_Dequeue s =
     (if fifo_Q s = [] then (None, s)
      else (Some (last (fifo_Q s)), s\<lparr>fifo_Q := butlast (fifo_Q s), sch_size := sch_size s - 1\<rparr>))"

definition NrsFifo_First :: "'e nrs_fifo \<Rightarrow> 'e option" where
  "NrsFifo_First s = (if fifo_Q s = [] then None else Some (last (fifo_Q s)))"

definition NrsFifo_Last :: "'e nrs_fifo \<Rightarrow> 'e option" where
  "NrsFifo_Last s = (if fifo_Q s = [] then None else Some (hd (fifo_Q s)))"

lemmas fifo_defs [sched_simps] = NrsFifo_Enqueue_def NrsFifo_Requeue_def NrsFifo_Erase_def
  NrsFifo_Dequeue_def NrsFifo_First_def NrsFifo_Last_def

section \<open>The count and the contract\<close>

definition fifo_ok :: "'e nrs_fifo \<Rightarrow> bool" where
  "fifo_ok s \<longleftrightarrow> sch_size s = of_nat (length (fifo_Q s)) \<and> length (fifo_Q s) < 2 ^ 64"

definition fifo_bag :: "'e nrs_fifo \<Rightarrow> 'e multiset" where
  "fifo_bag s = mset (fifo_Q s)"

definition fifo_line :: "'e nrs_fifo \<Rightarrow> 'e list" where
  "fifo_line s = rev (fifo_Q s)"

text \<open>The count must not wrap.\<close>

definition fifo_fits :: "'e \<Rightarrow> 'e nrs_fifo \<Rightarrow> bool" where
  "fifo_fits e s \<longleftrightarrow> Suc (size (fifo_bag s)) < 2 ^ 64"

lemma fifo_ok_new [simp]: "fifo_ok NrsFifo_new" "fifo_bag NrsFifo_new = {#}" "fifo_line NrsFifo_new = []"
  by (simp_all add: fifo_ok_def NrsFifo_new_def fifo_bag_def fifo_line_def)

lemma fifo_enq:
  "fifo_ok s \<Longrightarrow> fifo_fits e s \<Longrightarrow> fifo_ok (NrsFifo_Enqueue e s)"
  "fifo_ok s \<Longrightarrow> fifo_fits e s \<Longrightarrow> fifo_ok (NrsFifo_Requeue e s)"
  "fifo_bag (NrsFifo_Enqueue e s) = add_mset e (fifo_bag s)"
  "fifo_bag (NrsFifo_Requeue e s) = add_mset e (fifo_bag s)"
  "fifo_line (NrsFifo_Enqueue e s) = fifo_line s @ [e]"
  "fifo_line (NrsFifo_Requeue e s) = e # fifo_line s"
  by (simp_all add: fifo_ok_def fifo_fits_def fifo_bag_def fifo_line_def sched_simps add.commute)

lemma fifo_deq_line:
  "NrsFifo_Dequeue s = (Some e, s') \<Longrightarrow> fifo_line s = e # fifo_line s'"
  by (cases "fifo_Q s" rule: rev_cases) (auto simp: sched_simps fifo_line_def)

lemma fifo_deq:
  assumes "fifo_ok s" "fifo_bag s \<noteq> {#}"
  shows "\<exists>e s'. NrsFifo_Dequeue s = (Some e, s') \<and> fifo_ok s' \<and> fifo_bag s = add_mset e (fifo_bag s')"
proof -
  obtain xs x where q: "fifo_Q s = xs @ [x]"
    using assms(2) by (metis fifo_bag_def mset.simps(1) rev_exhaust)
  then show ?thesis using assms(1)
    by (simp add: sched_simps fifo_ok_def fifo_bag_def)
qed

lemma fifo_erase:
  assumes "fifo_ok s" "count (fifo_bag s) e = 1"
  shows "fifo_ok (NrsFifo_Erase e s)" "fifo_bag s = add_mset e (fifo_bag (NrsFifo_Erase e s))"
proof -
  have "e \<in># fifo_bag s" using assms(2) by (metis count_inI zero_neq_one)
  then obtain xs ys where q: "fifo_Q s = xs @ e # ys" by (auto simp: fifo_bag_def dest: split_list)
  with assms(2) have "e \<notin> set xs" "e \<notin> set ys" by (auto simp: fifo_bag_def count_eq_zero_iff)
  then show "fifo_ok (NrsFifo_Erase e s)" "fifo_bag s = add_mset e (fifo_bag (NrsFifo_Erase e s))"
    using q assms(1) by (simp_all add: sched_simps fifo_ok_def fifo_bag_def)
qed

interpretation fifo: fifo_scheduler fifo_ok fifo_bag fifo_fits NrsFifo_Enqueue NrsFifo_Dequeue fifo_line
proof
  show "\<exists>s'. NrsFifo_Dequeue s = (None, s') \<and> fifo_ok s' \<and> fifo_bag s' = {#}"
    if "fifo_ok s" "fifo_bag s = {#}" for s :: "'a nrs_fifo"
    using that by (simp add: sched_simps fifo_bag_def)
qed (simp_all add: fifo_enq fifo_deq fifo_deq_line, simp add: fifo_bag_def fifo_line_def)

lemma fifo_first: "NrsFifo_First s = fst (NrsFifo_Dequeue s)"
  by (simp add: sched_simps)

lemma fifo_empty: "fifo_ok s \<Longrightarrow> Scheduler_Empty s \<longleftrightarrow> fifo_bag s = {#}"
  by (simp add: fifo_ok_def Scheduler_Empty_def fifo_bag_def of_nat_u64_eq_0)

section \<open>Properties\<close>

lemma fifo_admissible:
  "fifo_ok s \<Longrightarrow> length ops + size (fifo_bag s) < 2 ^ 64 \<Longrightarrow> fifo.admissible ops s"
  by (rule fifo.admissible_bounded [of UNIV "2 ^ 64"]) (simp_all add: fifo_fits_def)

text \<open>C18 First come, first served: whatever the history of enqueues and
  dequeues of the FIFO scheduler, the requests come out in the order in which
  they went in, none lost or repeated, and Size() counts those waiting.\<close>

theorem fifo_serves_in_order:
  assumes "length ops < 2 ^ 64" "run_ops NrsFifo_Enqueue NrsFifo_Dequeue ops NrsFifo_new = (out, s)"
  shows "enqueued ops = out @ rev (fifo_Q s) \<and> Scheduler_Size s = of_nat (length (fifo_Q s))
    \<and> (Scheduler_Empty s \<longleftrightarrow> out = enqueued ops)"
proof -
  have a: "fifo.admissible ops NrsFifo_new" using assms(1) by (intro fifo_admissible) simp_all
  have "fifo_ok s" using fifo.conservation(1) [OF _ a assms(2)] by simp
  moreover have "enqueued ops = out @ rev (fifo_Q s)"
    using fifo.served_in_order [OF fifo_ok_new(1) a assms(2)] by (simp add: fifo_line_def NrsFifo_new_def)
  ultimately show ?thesis using fifo_empty [of s] by (auto simp: fifo_ok_def Scheduler_Size_def fifo_bag_def)
qed

theorem fifo_serves_in_order_witness:
  "\<exists>s. run_ops NrsFifo_Enqueue NrsFifo_Dequeue [Op_enqueue (7::nat), Op_enqueue 8, Op_dequeue, Op_enqueue 9] NrsFifo_new
     = ([7], s) \<and> fifo_Q s = [9, 8]"
  using fifo_serves_in_order [of "[Op_enqueue (7::nat), Op_enqueue 8, Op_dequeue, Op_enqueue 9]" "[7]"]
  by (simp add: sched_simps NrsFifo_new_def)

text \<open>Erasing a queued request (as the priority scheduler does on a
  deadline) removes exactly that request, wherever it waits, and keeps the
  order of the others and the count.\<close>

theorem fifo_erase_keeps_others:
  assumes "fifo_ok s" "count (fifo_bag s) e = 1"
  shows "fifo_ok (NrsFifo_Erase e s) \<and> fifo_line (NrsFifo_Erase e s) = remove1 e (fifo_line s)
    \<and> NrsFifo_Requeue e (NrsFifo_Erase e s) = s\<lparr>fifo_Q := removeAll e (fifo_Q s) @ [e]\<rparr>"
proof -
  have "e \<in># fifo_bag s" using assms(2) by (metis count_inI zero_neq_one)
  then obtain xs ys where q: "fifo_Q s = xs @ e # ys" by (auto simp: fifo_bag_def dest: split_list)
  with assms(2) have "e \<notin> set xs" "e \<notin> set ys" by (auto simp: fifo_bag_def count_eq_zero_iff)
  then have "fifo_line (NrsFifo_Erase e s) = remove1 e (fifo_line s)"
    using q by (simp add: sched_simps fifo_line_def remove1_append)
  then show ?thesis using fifo_erase [OF assms] by (simp add: sched_simps)
qed

theorem fifo_erase_keeps_others_witness:
  "fifo_line (NrsFifo_Erase 8 (\<lparr>sch_size = 3, sch_throttling = False, fifo_Q = [9, 8, 7 :: nat]\<rparr>)) = [7, 9]"
  using fifo_erase_keeps_others [of "\<lparr>sch_size = 3, sch_throttling = False, fifo_Q = [9, 8, 7 :: nat]\<rparr>" 8]
  by (simp add: fifo_ok_def fifo_bag_def fifo_line_def)

end
