(* ===== verification/HeapCore.thy ===== *)
theory HeapCore
  imports Prelude
begin

text \<open>
  The two sift loops that both binary heaps of the simulator run
  (src/lustre/heap.cpp and src/lustre/nrsbinheap.cpp), stated once over an
  array seen as a function from indices to elements.  The component theories
  BinHeap and NrsBinHeap model the loops of the code over their own memory
  layout and show that they simulate these two; the heap order and the
  preservation of the contents are proved here.
\<close>

section \<open>Reference loops\<close>

text \<open>The index of the parent in the implicit tree.\<close>

definition par :: "nat \<Rightarrow> nat" where
  "par i = (i - 1) div 2"

lemma par_less [simp]: "0 < i \<Longrightarrow> par i < i"
  by (simp add: par_def)

lemma par_le: "par i \<le> i"
  by (simp add: par_def)

text \<open>Moving a hole up: \<open>e\<close> is the element to be put down; the
  result is the new array and the index the element ends at.\<close>

function sift_up :: "('e \<Rightarrow> 'e \<Rightarrow> bool) \<Rightarrow> 'e \<Rightarrow> nat \<Rightarrow> (nat \<Rightarrow> 'e) \<Rightarrow> (nat \<Rightarrow> 'e) \<times> nat" where
  "sift_up lt e i a =
     (if i = 0 \<or> lt (a (par i)) e then (a(i := e), i)
      else sift_up lt e (par i) (a(i := a (par i))))"
  by pat_completeness auto
termination by (relation "measure (\<lambda>(_, _, i, _). i)") auto

declare sift_up.simps [simp del]

lemma sift_up_stop: "i = 0 \<or> lt (a (par i)) e \<Longrightarrow> sift_up lt e i a = (a(i := e), i)"
  by (simp add: sift_up.simps)

lemma sift_up_step:
  "\<not> (i = 0 \<or> lt (a (par i)) e) \<Longrightarrow> sift_up lt e i a = sift_up lt e (par i) (a(i := a (par i)))"
  by (subst sift_up.simps) (rule if_not_P)

text \<open>The child the hole moves to: the second one when it compares below the
  first.\<close>

definition min_child :: "('e \<Rightarrow> 'e \<Rightarrow> bool) \<Rightarrow> nat \<Rightarrow> nat \<Rightarrow> (nat \<Rightarrow> 'e) \<Rightarrow> nat" where
  "min_child lt n i a =
     (if 2 * i + 2 < n \<and> lt (a (2 * i + 2)) (a (2 * i + 1)) then 2 * i + 2 else 2 * i + 1)"

lemma min_child_gt [simp]: "i < min_child lt n i a"
  by (simp add: min_child_def)

lemma par_min_child [simp]: "par (min_child lt n i a) = i"
  by (simp add: min_child_def par_def)

lemma min_child_less: "2 * i + 1 < n \<Longrightarrow> min_child lt n i a < n"
  by (simp add: min_child_def)

function sift_down :: "('e \<Rightarrow> 'e \<Rightarrow> bool) \<Rightarrow> nat \<Rightarrow> 'e \<Rightarrow> nat \<Rightarrow> (nat \<Rightarrow> 'e) \<Rightarrow> (nat \<Rightarrow> 'e) \<times> nat" where
  "sift_down lt n e i a =
     (if 2 * i + 1 < n \<and> \<not> lt e (a (min_child lt n i a))
      then sift_down lt n e (min_child lt n i a) (a(i := a (min_child lt n i a)))
      else (a(i := e), i))"
  by pat_completeness auto
termination
proof (relation "measure (\<lambda>(_, n, _, i, _). n - i)")
  fix lt :: "'e \<Rightarrow> 'e \<Rightarrow> bool" and n i :: nat and e :: 'e and a :: "nat \<Rightarrow> 'e"
  assume "2 * i + 1 < n \<and> \<not> lt e (a (min_child lt n i a))"
  then show "((lt, n, e, min_child lt n i a, a(i := a (min_child lt n i a))), lt, n, e, i, a)
      \<in> measure (\<lambda>(_, n, _, i, _). n - i)"
    using diff_less_mono2 [OF min_child_gt [of i lt n a], of n] by simp
qed simp

declare sift_down.simps [simp del]

lemma sift_down_step:
  "2 * i + 1 < n \<and> \<not> lt e (a (min_child lt n i a)) \<Longrightarrow>
   sift_down lt n e i a = sift_down lt n e (min_child lt n i a) (a(i := a (min_child lt n i a)))"
  by (subst sift_down.simps) (rule if_P)

lemma sift_down_stop:
  "\<not> (2 * i + 1 < n \<and> \<not> lt e (a (min_child lt n i a))) \<Longrightarrow> sift_down lt n e i a = (a(i := e), i)"
  by (subst sift_down.simps) (rule if_not_P)

section \<open>Comparison functions and the heap order\<close>

text \<open>What the heaps ask of their comparison: it never contradicts a rank
  function with values in a linear order.  Both readings of ties (0 or 1) are
  allowed.\<close>

definition ranked :: "('e \<Rightarrow> 'e \<Rightarrow> bool) \<Rightarrow> ('e \<Rightarrow> 'k::linorder) \<Rightarrow> bool" where
  "ranked lt k \<longleftrightarrow> (\<forall>x y. (lt x y \<longrightarrow> k x \<le> k y) \<and> (\<not> lt x y \<longrightarrow> k y \<le> k x))"

lemma rankedD1: "ranked lt k \<Longrightarrow> lt x y \<Longrightarrow> k x \<le> k y"
  by (simp add: ranked_def)

lemma rankedD2: "ranked lt k \<Longrightarrow> \<not> lt x y \<Longrightarrow> k y \<le> k x"
  by (simp add: ranked_def)

definition heap_upto :: "('e \<Rightarrow> 'k::linorder) \<Rightarrow> nat \<Rightarrow> (nat \<Rightarrow> 'e) \<Rightarrow> bool" where
  "heap_upto k n a \<longleftrightarrow> (\<forall>j<n. 0 < j \<longrightarrow> k (a (par j)) \<le> k (a j))"

text \<open>The order everywhere but around a hole at \<open>i\<close>: the children of
  the hole still rank above the hole's parent.\<close>

definition heap_hole :: "('e \<Rightarrow> 'k::linorder) \<Rightarrow> nat \<Rightarrow> (nat \<Rightarrow> 'e) \<Rightarrow> nat \<Rightarrow> bool" where
  "heap_hole k n a i \<longleftrightarrow>
     (\<forall>j<n. 0 < j \<and> j \<noteq> i \<and> par j \<noteq> i \<longrightarrow> k (a (par j)) \<le> k (a j)) \<and>
     (\<forall>c<n. 0 < c \<and> par c = i \<and> 0 < i \<longrightarrow> k (a (par i)) \<le> k (a c))"

lemma heap_hole_of_heap: "heap_upto k n a \<Longrightarrow> i < n \<Longrightarrow> heap_hole k n a i"
  unfolding heap_upto_def heap_hole_def
  by (metis (no_types, lifting) less_trans order.trans par_less)

lemma heap_hole_end: "heap_upto k n a \<Longrightarrow> heap_hole k (Suc n) a n"
  unfolding heap_upto_def heap_hole_def
  by (metis less_Suc_eq less_antisym par_less not_less_iff_gr_or_eq)

lemma heap_fill:
  assumes "heap_hole k n a i" "0 < i \<Longrightarrow> k (a (par i)) \<le> k e"
    and "\<And>c. c < n \<Longrightarrow> 0 < c \<Longrightarrow> par c = i \<Longrightarrow> k e \<le> k (a c)"
  shows "heap_upto k n (a(i := e))"
  unfolding heap_upto_def
proof (intro allI impI)
  fix j assume j: "j < n" "0 < j"
  then have "par j < j" by simp
  then show "k ((a(i := e)) (par j)) \<le> k ((a(i := e)) j)"
    using assms j unfolding heap_hole_def by (cases "j = i"; cases "par j = i") auto
qed

lemma heap_root_least:
  assumes "heap_upto k n a" "j < n"
  shows "k (a 0) \<le> k (a j)"
  using assms(2)
proof (induction j rule: less_induct)
  case (less j)
  show ?case
  proof (cases "j = 0")
    case False
    then have "k (a 0) \<le> k (a (par j))" using less by (metis less_trans neq0_conv par_less)
    also have "\<dots> \<le> k (a j)" using assms(1) less.prems False by (simp add: heap_upto_def)
    finally show ?thesis .
  qed simp
qed

lemma heap_upto_mono: "heap_upto k n a \<Longrightarrow> m \<le> n \<Longrightarrow> heap_upto k m a"
  by (simp add: heap_upto_def)

lemma heap_upto_cong:
  "(\<And>j. j < n \<Longrightarrow> a j = b j) \<Longrightarrow> heap_upto k n a = heap_upto k n b"
  unfolding heap_upto_def by (metis less_trans par_less)

section \<open>Moving up\<close>

lemma hole_up_step:
  assumes "heap_hole k n a i" "i < n" "0 < i" "k e \<le> k (a (par i))"
  shows "heap_hole k n (a(i := a (par i))) (par i)"
    and "\<And>c. c < n \<Longrightarrow> 0 < c \<Longrightarrow> par c = par i \<Longrightarrow> k e \<le> k ((a(i := a (par i))) c)"
proof -
  have lt: "par i < i" using assms(3) by simp
  have ord: "k (a (par j)) \<le> k (a j)" if "j < n" "0 < j" "j \<noteq> i" "par j \<noteq> i" for j
    using assms(1) that unfolding heap_hole_def by blast
  have kid: "k (a (par i)) \<le> k (a c)" if "c < n" "0 < c" "par c = i" for c
    using assms(1,3) that unfolding heap_hole_def by blast
  have up: "k (a (par (par i))) \<le> k (a (par i))" if "0 < par i"
    using ord [of "par i"] that lt assms(2) by (metis less_trans not_less_iff_gr_or_eq par_less)
  have sib: "k (a (par i)) \<le> k (a c)" if "c < n" "0 < c" "par c = par i" "c \<noteq> i" for c
    using ord [of c] that lt by auto
  show "k e \<le> k ((a(i := a (par i))) c)" if "c < n" "0 < c" "par c = par i" for c
    using sib [OF that] assms(4) by (cases "c = i") auto
  show "heap_hole k n (a(i := a (par i))) (par i)"
    unfolding heap_hole_def
  proof (intro conjI allI impI)
    fix j assume j: "j < n" "0 < j \<and> j \<noteq> par i \<and> par j \<noteq> par i"
    then show "k ((a(i := a (par i))) (par j)) \<le> k ((a(i := a (par i))) j)"
      using ord [of j] kid [of j] lt by (cases "j = i"; cases "par j = i") simp_all
  next
    fix c assume c: "c < n" "0 < c \<and> par c = par i \<and> 0 < par i"
    have "par (par i) \<noteq> i" using c lt by (metis less_trans not_less_iff_gr_or_eq par_less)
    then show "k ((a(i := a (par i))) (par (par i))) \<le> k ((a(i := a (par i))) c)"
      using c sib [of c] up order.trans by (cases "c = i") auto
  qed
qed

lemma sift_up_heap:
  assumes "ranked lt k" "heap_hole k n a i" "i < n"
    and "\<And>c. c < n \<Longrightarrow> 0 < c \<Longrightarrow> par c = i \<Longrightarrow> k e \<le> k (a c)"
  shows "heap_upto k n (fst (sift_up lt e i a))"
  using assms
proof (induction lt e i a rule: sift_up.induct)
  case (1 lt e i a)
  show ?case
  proof (cases "i = 0 \<or> lt (a (par i)) e")
    case True
    have "heap_upto k n (a(i := e))"
    proof (rule heap_fill [OF 1(3)])
      assume "0 < i"
      then show "k (a (par i)) \<le> k e" using True by (intro rankedD1 [OF 1(2)]) simp
    qed (rule 1(5))
    then show ?thesis by (simp del: fun_upd_apply add: sift_up_stop [of i lt a e, OF True])
  next
    case False
    then have ke: "k e \<le> k (a (par i))" by (intro rankedD2 [OF 1(2)]) simp
    have pn: "par i < n" using False 1(4) by (metis less_trans neq0_conv par_less)
    have "heap_upto k n (fst (sift_up lt e (par i) (a(i := a (par i)))))"
    proof (rule 1(1) [OF False 1(2)])
      have i: "0 < i" using False by simp
      note step = hole_up_step [OF 1(3,4) i ke]
      show "heap_hole k n (a(i := a (par i))) (par i)" by (rule step)
      show "k e \<le> k ((a(i := a (par i))) c)" if "c < n" "0 < c" "par c = par i" for c
        using that by (rule step)
    qed (rule pn)
    then show ?thesis by (simp add: sift_up_step [of i lt a e, OF False])
  qed
qed

lemma sift_up_mset:
  "i < n \<Longrightarrow> mset (cells n (fst (sift_up lt e i a))) = mset (cells n (a(i := e)))"
proof (induction lt e i a rule: sift_up.induct)
  case (1 lt e i a)
  show ?case
  proof (cases "i = 0 \<or> lt (a (par i)) e")
    case False
    then have pn: "par i < i" "par i < n" using 1(2) by (auto intro: less_trans [OF par_less])
    have "mset (cells n (fst (sift_up lt e (par i) (a(i := a (par i)))))) =
        mset (cells n (a(i := a (par i), par i := e)))"
      by (rule 1(1) [OF False pn(2)])
    also have "\<dots> = mset (cells n (a(i := e)))" using 1(2) pn by (intro cells_shift) auto
    finally show ?thesis by (simp del: fun_upd_apply add: sift_up_step [of i lt a e, OF False])
  qed (simp add: sift_up_stop)
qed

lemma sift_up_index: "snd (sift_up lt e i a) \<le> i"
proof (induction lt e i a rule: sift_up.induct)
  case (1 lt e i a)
  show ?case
  proof (cases "i = 0 \<or> lt (a (par i)) e")
    case False
    then have "snd (sift_up lt e (par i) (a(i := a (par i)))) \<le> i"
      using order.trans [OF 1 par_le] by blast
    then show ?thesis by (simp add: sift_up_step [of i lt a e, OF False])
  qed (simp add: sift_up_stop)
qed

lemma sift_up_frame: "j > i \<Longrightarrow> fst (sift_up lt e i a) j = a j"
proof (induction lt e i a rule: sift_up.induct)
  case (1 lt e i a)
  show ?case
  proof (cases "i = 0 \<or> lt (a (par i)) e")
    case False
    have "fst (sift_up lt e (par i) (a(i := a (par i)))) j = (a(i := a (par i))) j"
      using 1(2) par_le [of i] by (intro 1(1) [OF False]) simp
    then show ?thesis using 1(2) by (simp add: sift_up_step [of i lt a e, OF False])
  qed (use 1(2) in \<open>simp add: sift_up_stop\<close>)
qed

lemma sift_up_stays:
  "snd (sift_up lt e i a) = i \<longleftrightarrow> i = 0 \<or> lt (a (par i)) e"
proof (cases "i = 0 \<or> lt (a (par i)) e")
  case False
  have "snd (sift_up lt e (par i) (a(i := a (par i)))) < i"
    using sift_up_index [of lt e "par i" "a(i := a (par i))"] par_less [of i] False
    by (meson le_less_trans neq0_conv)
  then show ?thesis using False by (simp add: sift_up_step [of i lt a e, OF False])
qed (simp add: sift_up_stop)

section \<open>Moving down\<close>

lemma children_of: "0 < c \<Longrightarrow> par c = i \<longleftrightarrow> c = 2 * i + 1 \<or> c = 2 * i + 2"
  unfolding par_def by presburger

lemma min_child_least:
  assumes "ranked lt k" "c < n" "0 < c" "par c = i"
  shows "k (a (min_child lt n i a)) \<le> k (a c)"
proof -
  have c: "c = 2 * i + 1 \<or> c = 2 * i + 2" using assms(3,4) children_of by blast
  show ?thesis
  proof (cases "2 * i + 2 < n \<and> lt (a (2 * i + 2)) (a (2 * i + 1))")
    case True
    then have "k (a (2 * i + 2)) \<le> k (a (2 * i + 1))" by (intro rankedD1 [OF assms(1)]) simp
    moreover have "min_child lt n i a = 2 * i + 2" using True by (simp add: min_child_def)
    ultimately show ?thesis using c by (elim disjE) simp_all
  next
    case False
    then have "2 * i + 2 < n \<Longrightarrow> k (a (2 * i + 1)) \<le> k (a (2 * i + 2))"
      by (intro rankedD2 [OF assms(1)]) simp
    moreover have "min_child lt n i a = 2 * i + 1" using False by (simp add: min_child_def)
    ultimately show ?thesis using c assms(2) by (elim disjE) simp_all
  qed
qed

lemma hole_down_step:
  assumes "ranked lt k" "heap_hole k n a i" "2 * i + 1 < n"
    and "m = min_child lt n i a"
  shows "heap_hole k n (a(i := a m)) m"
proof -
  have m: "m < n" "i < m" "par m = i" using assms min_child_less by auto
  have ord: "k (a (par j)) \<le> k (a j)" if "j < n" "0 < j" "j \<noteq> i" "par j \<noteq> i" for j
    using assms(2) that unfolding heap_hole_def by blast
  have up: "k (a (par i)) \<le> k (a m)" if "0 < i"
    using assms(2) that m unfolding heap_hole_def by auto
  have least: "k (a m) \<le> k (a c)" if "c < n" "0 < c" "par c = i" for c
    using min_child_least [OF assms(1) that] assms(4) by simp
  show ?thesis
    unfolding heap_hole_def
  proof (intro conjI allI impI)
    fix j assume j: "j < n" "0 < j \<and> j \<noteq> m \<and> par j \<noteq> m"
    then have "par j < j" by simp
    then show "k ((a(i := a m)) (par j)) \<le> k ((a(i := a m)) j)"
      using j ord [of j] least [of j] up by (cases "j = i"; cases "par j = i") simp_all
  next
    fix c assume c: "c < n" "0 < c \<and> par c = m \<and> 0 < m"
    then have "c \<noteq> i" "par c \<noteq> i" using m par_less [of c] by auto
    then show "k ((a(i := a m)) (par m)) \<le> k ((a(i := a m)) c)"
      using c ord [of c] m by auto
  qed
qed

lemma sift_down_heap:
  assumes "ranked lt k" "heap_hole k n a i" "i < n" "0 < i \<Longrightarrow> k (a (par i)) \<le> k e"
  shows "heap_upto k n (fst (sift_down lt n e i a))"
  using assms
proof (induction lt n e i a rule: sift_down.induct)
  case (1 lt n e i a)
  let ?m = "min_child lt n i a"
  show ?case
  proof (cases "2 * i + 1 < n \<and> \<not> lt e (a ?m)")
    case True
    have "heap_upto k n (fst (sift_down lt n e ?m (a(i := a ?m))))"
    proof (rule 1(1) [OF True 1(2)])
      show "heap_hole k n (a(i := a ?m)) ?m"
        using hole_down_step [OF 1(2,3) _ refl] True by blast
      show "?m < n" using True by (simp add: min_child_less)
      show "k ((a(i := a ?m)) (par ?m)) \<le> k e" 
        using True by (simp add: rankedD2 [OF 1(2)])
    qed
    then show ?thesis by (simp add: sift_down_step [of i n lt e a, OF True])
  next
    case False
    have "heap_upto k n (a(i := e))"
    proof (rule heap_fill [OF 1(3)])
      fix c assume c: "c < n" "0 < c" "par c = i"
      then have "2 * i + 1 < n" using children_of [of c i] by linarith
      then have "k e \<le> k (a ?m)" using False by (intro rankedD1 [OF 1(2)]) simp
      also have "\<dots> \<le> k (a c)" using min_child_least [OF 1(2) c] .
      finally show "k e \<le> k (a c)" .
    qed (rule 1(5))
    then show ?thesis by (simp del: fun_upd_apply add: sift_down_stop [of i n lt e a, OF False])
  qed
qed

lemma sift_down_mset:
  "i < n \<Longrightarrow> mset (cells n (fst (sift_down lt n e i a))) = mset (cells n (a(i := e)))"
proof (induction lt n e i a rule: sift_down.induct)
  case (1 lt n e i a)
  let ?m = "min_child lt n i a"
  show ?case
  proof (cases "2 * i + 1 < n \<and> \<not> lt e (a ?m)")
    case True
    then have mn: "?m < n" by (simp add: min_child_less)
    have "mset (cells n (fst (sift_down lt n e ?m (a(i := a ?m))))) =
        mset (cells n (a(i := a ?m, ?m := e)))"
      by (rule 1(1) [OF True mn])
    also have "\<dots> = mset (cells n (a(i := e)))"
      using 1(2) mn by (intro cells_shift) (simp_all add: less_imp_neq)
    finally show ?thesis by (simp del: fun_upd_apply add: sift_down_step [of i n lt e a, OF True])
  next
    case False
    then show ?thesis by (simp del: fun_upd_apply add: sift_down_stop [of i n lt e a, OF False])
  qed
qed

lemma sift_down_frame: "n \<le> j \<Longrightarrow> i < n \<Longrightarrow> fst (sift_down lt n e i a) j = a j"
proof (induction lt n e i a rule: sift_down.induct)
  case (1 lt n e i a)
  let ?m = "min_child lt n i a"
  show ?case
  proof (cases "2 * i + 1 < n \<and> \<not> lt e (a ?m)")
    case True
    have "fst (sift_down lt n e ?m (a(i := a ?m))) j = (a(i := a ?m)) j"
      using True by (intro 1(1) [OF True 1(2)]) (simp add: min_child_less)
    then show ?thesis using 1(2,3) by (simp add: sift_down_step [of i n lt e a, OF True])
  qed (use 1(2,3) in \<open>simp add: sift_down_stop\<close>)
qed

section \<open>Three levels of pointer tables\<close>

text \<open>Both heaps keep their cells in a single, a double and a triple
  indirect table of \<open>s\<close> pointers each.\<close>

datatype cell_addr =
    Elem1 nat            \<comment> \<open>\<open>single[i]\<close>\<close>
  | Elem2 nat nat        \<comment> \<open>\<open>double[i][j]\<close>\<close>
  | Elem3 nat nat nat    \<comment> \<open>\<open>triple[i][j][k]\<close>\<close>

definition addr3 :: "nat \<Rightarrow> nat \<Rightarrow> cell_addr" where
  "addr3 s i =
     (if i < s then Elem1 i
      else if i - s < s * s then Elem2 ((i - s) div s) ((i - s) mod s)
      else let j = i - s - s * s in Elem3 (j div (s * s)) (j div s mod s) (j mod s))"

text \<open>The index an address stands for.\<close>

fun addr3_index :: "nat \<Rightarrow> cell_addr \<Rightarrow> nat" where
  "addr3_index s (Elem1 i) = i"
| "addr3_index s (Elem2 i j) = s + (i * s + j)"
| "addr3_index s (Elem3 i j l) = s + s * s + ((i * s + j) * s + l)"

lemma addr3_index_addr3 [simp]: "addr3_index s (addr3 s i) = i"
proof -
  have 2: "a div (s * s) * s + a div s mod s = a div s" for a s :: nat
    by (metis div_mult2_eq div_mult_mod_eq)
  show ?thesis
    by (simp add: addr3_def Let_def 2)
qed

lemma addr3_inject [simp]: "addr3 s i = addr3 s j \<longleftrightarrow> i = j"
  by (metis addr3_index_addr3)

end
