(* ===== verification/BinHeap.thy ===== *)
theory BinHeap
  imports HeapCore SchedIf
begin

text \<open>
  The intrusive binary heap of src/lustre/heap.cpp and heap.h.  Elements are
  identified by their node (the address of the embedded
  cfs_binheap_node); \<open>chn_index\<close> is the index stored in each node,
  \<open>cbh_slot\<close> the pointer cells reached through the single, double and
  triple indirect tables.  A NULL dereference or a failing LASSERT makes an
  operation return \<open>None\<close>.
\<close>

section \<open>Memory layout\<close>

definition CBH_SHIFT :: nat where "CBH_SHIFT = 9"
definition CBH_SIZE :: nat where "CBH_SIZE = 2 ^ CBH_SHIFT"
definition CBH_MASK :: nat where "CBH_MASK = CBH_SIZE - 1"
definition CBH_POISON :: nat where "CBH_POISON = 0xdeadbeef"

definition cfs_binheap_pointer :: "nat \<Rightarrow> cell_addr" where
  "cfs_binheap_pointer idx =
     (if idx < CBH_SIZE then Elem1 idx
      else let idx = idx - CBH_SIZE in
        if idx < CBH_SIZE * CBH_SIZE
        then Elem2 (drop_bit CBH_SHIFT idx) (idx AND CBH_MASK)
        else let idx = idx - CBH_SIZE * CBH_SIZE in
          Elem3 (drop_bit (2 * CBH_SHIFT) idx) (drop_bit CBH_SHIFT idx AND CBH_MASK)
                (idx AND CBH_MASK))"

text \<open>The heap object: which tables and fragments are allocated, the
  pointer cells, the node indices, the element count and the high water mark.
  \<open>cbh_frag2\<close> holds the second level tables present in
  \<open>cbh_elements2\<close>; \<open>cbh_frag3\<close> and \<open>cbh_frag33\<close> the
  tables present in \<open>cbh_elements3\<close> and below it.\<close>

record 'e cfs_binheap =
  cbh_elements1 :: bool
  cbh_elements2 :: bool
  cbh_elements3 :: bool
  cbh_frag2 :: "nat \<Rightarrow> bool"
  cbh_frag3 :: "nat \<Rightarrow> bool"
  cbh_frag33 :: "nat \<Rightarrow> nat \<Rightarrow> bool"
  cbh_slot :: "cell_addr \<Rightarrow> 'e option"
  chn_index :: "'e \<Rightarrow> nat"
  cbh_nelements :: nat
  cbh_hwm :: nat

text \<open>Whether a cell lies in an allocated fragment.\<close>

fun cbh_allocated :: "'e cfs_binheap \<Rightarrow> cell_addr \<Rightarrow> bool" where
  "cbh_allocated h (Elem1 i) \<longleftrightarrow> cbh_elements1 h \<and> i < CBH_SIZE"
| "cbh_allocated h (Elem2 i j) \<longleftrightarrow> cbh_elements2 h \<and> i < CBH_SIZE \<and> cbh_frag2 h i \<and> j < CBH_SIZE"
| "cbh_allocated h (Elem3 i j l) \<longleftrightarrow>
     cbh_elements3 h \<and> i < CBH_SIZE \<and> cbh_frag3 h i \<and> j < CBH_SIZE \<and> cbh_frag33 h i j \<and> l < CBH_SIZE"

text \<open>The result code of growing and inserting: 0, -ENOMEM, or the
  error of the user's hop_enter.\<close>

datatype cbh_rc = Rc_ok | Rc_nomem | Rc_enter

text \<open>\<open>mem k\<close> tells whether the k-th CBH_ALLOC of the call succeeds.
  The LASSERT failures are \<open>None\<close>.\<close>

definition cfs_binheap_grow :: "(nat \<Rightarrow> bool) \<Rightarrow> 'e cfs_binheap \<Rightarrow> (cbh_rc \<times> 'e cfs_binheap) option" where
  "cfs_binheap_grow mem h =
     (let hwm = cbh_hwm h; done = (\<lambda>h. Some (Rc_ok, h\<lparr>cbh_hwm := cbh_hwm h + CBH_SIZE\<rparr>)) in
      if hwm AND CBH_MASK \<noteq> 0 then None
      else if hwm = 0 then
        (if \<not> mem 0 then Some (Rc_nomem, h) else done (h\<lparr>cbh_elements1 := True\<rparr>))
      else let hwm = hwm - CBH_SIZE in
      if hwm < CBH_SIZE * CBH_SIZE then
        (if \<not> mem 0 then Some (Rc_nomem, h)
         else if hwm = 0 \<and> \<not> mem 1 then Some (Rc_nomem, h\<lparr>cbh_elements2 := False\<rparr>)
         else let h1 = (if hwm = 0 then h\<lparr>cbh_elements2 := True\<rparr> else h) in
           done (h1\<lparr>cbh_frag2 := (cbh_frag2 h1)(drop_bit CBH_SHIFT hwm := True)\<rparr>))
      else let hwm = hwm - CBH_SIZE * CBH_SIZE in
      if hwm \<ge> CBH_SIZE * CBH_SIZE * CBH_SIZE then Some (Rc_nomem, h)
      else if \<not> mem 0 then Some (Rc_nomem, h)
      else let new1 = (drop_bit CBH_SHIFT hwm AND CBH_MASK = 0); i = drop_bit (2 * CBH_SHIFT) hwm in
      if new1 \<and> \<not> mem 1 then Some (Rc_nomem, h)
      else if hwm = 0 \<and> \<not> mem 2 then Some (Rc_nomem, h\<lparr>cbh_elements3 := False\<rparr>)
      else let h1 = (if hwm = 0 then h\<lparr>cbh_elements3 := True\<rparr> else h) in
      if new1 = cbh_frag3 h1 i then None
      else let h2 = h1\<lparr>cbh_frag3 := (cbh_frag3 h1)(i := True)\<rparr> in
        done (h2\<lparr>cbh_frag33 := (cbh_frag33 h2)(i := (cbh_frag33 h2 i)(drop_bit CBH_SHIFT hwm AND CBH_MASK := True))\<rparr>))"

section \<open>The sift loops\<close>

abbreviation put_node :: "nat \<Rightarrow> 'e \<Rightarrow> 'e cfs_binheap \<Rightarrow> 'e cfs_binheap" where
  "put_node i e h \<equiv> h\<lparr>chn_index := (chn_index h)(e := i),
     cbh_slot := (cbh_slot h)(cfs_binheap_pointer i := Some e)\<rparr>"

function bubble_loop :: "('e \<Rightarrow> 'e \<Rightarrow> bool) \<Rightarrow> 'e \<Rightarrow> nat \<Rightarrow> bool \<Rightarrow> 'e cfs_binheap \<Rightarrow> (bool \<times> 'e cfs_binheap) option" where
  "bubble_loop hop_compare e cur_idx did_sth h =
     (if cur_idx = 0 then Some (did_sth, put_node cur_idx e h)
      else let parent_idx = drop_bit 1 (cur_idx - 1) in
        (case cbh_slot h (cfs_binheap_pointer parent_idx) of
          None \<Rightarrow> None
        | Some p \<Rightarrow>
            (if chn_index h p \<noteq> parent_idx then None
             else if hop_compare p e then Some (did_sth, put_node cur_idx e h)
             else bubble_loop hop_compare e parent_idx True (put_node cur_idx p h))))"
  by pat_completeness auto
termination
  by (relation "measure (\<lambda>(_, _, i, _, _). i)") (auto simp: drop_bit_nat_def)

declare bubble_loop.simps [simp del]

definition cfs_binheap_bubble :: "('e \<Rightarrow> 'e \<Rightarrow> bool) \<Rightarrow> 'e \<Rightarrow> 'e cfs_binheap \<Rightarrow> (bool \<times> 'e cfs_binheap) option" where
  "cfs_binheap_bubble hop_compare e h =
     (if cbh_slot h (cfs_binheap_pointer (chn_index h e)) \<noteq> Some e then None
      else bubble_loop hop_compare e (chn_index h e) False h)"

function sink_loop :: "('e \<Rightarrow> 'e \<Rightarrow> bool) \<Rightarrow> nat \<Rightarrow> 'e \<Rightarrow> nat \<Rightarrow> bool \<Rightarrow> 'e cfs_binheap \<Rightarrow> (bool \<times> 'e cfs_binheap) option" where
  "sink_loop hop_compare n e cur_idx did_sth h =
     (if n \<le> cur_idx then Some (did_sth, put_node cur_idx e h)
      else let child_idx = push_bit 1 cur_idx + 1 in
      if n \<le> child_idx then Some (did_sth, put_node cur_idx e h)
      else (case cbh_slot h (cfs_binheap_pointer child_idx) of
        None \<Rightarrow> None
      | Some child \<Rightarrow>
          (let child2_idx = child_idx + 1 in
           case (if child2_idx < n then cbh_slot h (cfs_binheap_pointer child2_idx) else Some child) of
             None \<Rightarrow> None
           | Some child2 \<Rightarrow>
               (let (child_idx, child) =
                  (if child2_idx < n \<and> hop_compare child2 child then (child2_idx, child2)
                   else (child_idx, child)) in
                if chn_index h child \<noteq> child_idx then None
                else if hop_compare e child then Some (did_sth, put_node cur_idx e h)
                else sink_loop hop_compare n e child_idx True (put_node cur_idx child h)))))"
  by pat_completeness auto
termination
  by (relation "measure (\<lambda>(_, n, _, i, _, _). n - i)")
     (auto simp: push_bit_eq_mult split: if_splits)

declare sink_loop.simps [simp del]

definition cfs_binheap_sink :: "('e \<Rightarrow> 'e \<Rightarrow> bool) \<Rightarrow> 'e \<Rightarrow> 'e cfs_binheap \<Rightarrow> (bool \<times> 'e cfs_binheap) option" where
  "cfs_binheap_sink hop_compare e h =
     (if cbh_slot h (cfs_binheap_pointer (chn_index h e)) \<noteq> Some e then None
      else sink_loop hop_compare (cbh_nelements h) e (chn_index h e) False h)"

section \<open>The operations\<close>

definition cfs_binheap_relocate :: "('e \<Rightarrow> 'e \<Rightarrow> bool) \<Rightarrow> 'e \<Rightarrow> 'e cfs_binheap \<Rightarrow> 'e cfs_binheap option" where
  "cfs_binheap_relocate hop_compare e h =
     (case cfs_binheap_bubble hop_compare e h of
        None \<Rightarrow> None
      | Some (True, h1) \<Rightarrow> Some h1
      | Some (False, h1) \<Rightarrow> map_option snd (cfs_binheap_sink hop_compare e h1))"

text \<open>\<open>enter\<close> is the optional hop_enter of the user (\<open>True\<close>: it
  returns 0 or is absent).\<close>

definition cfs_binheap_insert ::
    "('e \<Rightarrow> 'e \<Rightarrow> bool) \<Rightarrow> (nat \<Rightarrow> bool) \<Rightarrow> ('e \<Rightarrow> bool) \<Rightarrow> 'e \<Rightarrow> 'e cfs_binheap \<Rightarrow> (cbh_rc \<times> 'e cfs_binheap) option" where
  "cfs_binheap_insert hop_compare mem enter e h =
     (let new_idx = cbh_nelements h in
      case (if new_idx = cbh_hwm h then cfs_binheap_grow mem h else Some (Rc_ok, h)) of
        None \<Rightarrow> None
      | Some (rc, h1) \<Rightarrow>
          if rc \<noteq> Rc_ok then Some (rc, h1)
          else if \<not> enter e then Some (Rc_enter, h1)
          else map_option (\<lambda>(_, h2). (Rc_ok, h2))
            (cfs_binheap_bubble hop_compare e
               ((put_node new_idx e h1)\<lparr>cbh_nelements := new_idx + 1\<rparr>)))"

definition cfs_binheap_remove :: "('e \<Rightarrow> 'e \<Rightarrow> bool) \<Rightarrow> 'e \<Rightarrow> 'e cfs_binheap \<Rightarrow> 'e cfs_binheap option" where
  "cfs_binheap_remove hop_compare e h =
     (let n = cbh_nelements h; cur_idx = chn_index h e in
      if cur_idx = CBH_POISON \<or> n \<le> cur_idx \<or> cbh_slot h (cfs_binheap_pointer cur_idx) \<noteq> Some e then None
      else case cbh_slot h (cfs_binheap_pointer (n - 1)) of
        None \<Rightarrow> None
      | Some e_last \<Rightarrow>
          let h1 = h\<lparr>cbh_nelements := n - 1\<rparr> in
          if e_last = e then Some h1
          else map_option (\<lambda>h2. h2\<lparr>chn_index := (chn_index h2)(e := CBH_POISON)\<rparr>)
            (cfs_binheap_relocate hop_compare e_last (put_node cur_idx e_last h1)))"

definition cfs_binheap_find :: "'e cfs_binheap \<Rightarrow> nat \<Rightarrow> 'e option" where
  "cfs_binheap_find h idx =
     (if cbh_nelements h \<le> idx then None else cbh_slot h (cfs_binheap_pointer idx))"

definition cfs_binheap_root :: "'e cfs_binheap \<Rightarrow> 'e option" where
  "cfs_binheap_root h = cfs_binheap_find h 0"

definition cfs_binheap_is_empty :: "'e cfs_binheap \<Rightarrow> bool" where
  "cfs_binheap_is_empty h \<longleftrightarrow> cbh_nelements h = 0"

definition cfs_binheap_remove_root :: "('e \<Rightarrow> 'e \<Rightarrow> bool) \<Rightarrow> 'e cfs_binheap \<Rightarrow> ('e option \<times> 'e cfs_binheap) option" where
  "cfs_binheap_remove_root hop_compare h =
     (case cfs_binheap_find h 0 of
        None \<Rightarrow> Some (None, h)
      | Some e \<Rightarrow> map_option (\<lambda>h'. (Some e, h')) (cfs_binheap_remove hop_compare e h))"

definition cbh_new :: "'e cfs_binheap" where
  "cbh_new = \<lparr>cbh_elements1 = False, cbh_elements2 = False, cbh_elements3 = False,
     cbh_frag2 = (\<lambda>_. False), cbh_frag3 = (\<lambda>_. False), cbh_frag33 = (\<lambda>_ _. False),
     cbh_slot = (\<lambda>_. None), chn_index = (\<lambda>_. 0), cbh_nelements = 0, cbh_hwm = 0\<rparr>"

text \<open>The preallocation loop of cfs_binheap_create; \<open>mem r k\<close> is the
  k-th allocation of round \<open>r\<close>.  A failed round destroys the heap and
  returns NULL.\<close>

function create_loop :: "(nat \<Rightarrow> nat \<Rightarrow> bool) \<Rightarrow> nat \<Rightarrow> nat \<Rightarrow> 'e cfs_binheap \<Rightarrow> 'e cfs_binheap option option" where
  "create_loop mem r cnt h =
     (if cbh_hwm h < cnt then
        (case cfs_binheap_grow (mem r) h of
           None \<Rightarrow> None
         | Some (rc, h1) \<Rightarrow>
             if rc \<noteq> Rc_ok then Some None
             else if cbh_hwm h < cbh_hwm h1 then create_loop mem (r + 1) cnt h1
             else None)
      else Some (Some h))"
  by pat_completeness auto
termination
  by (relation "measure (\<lambda>(_, _, cnt, h). cnt - cbh_hwm h)") auto

definition cfs_binheap_create :: "(nat \<Rightarrow> nat \<Rightarrow> bool) \<Rightarrow> nat \<Rightarrow> 'e cfs_binheap option option" where
  "cfs_binheap_create mem cnt = create_loop mem 0 cnt cbh_new"

section \<open>Addressing\<close>

lemma cbh_size_pos [simp]: "0 < CBH_SIZE"
  by (simp add: CBH_SIZE_def)

lemma and_cbh_mask [heap_simps]: "i AND CBH_MASK = i mod CBH_SIZE"
  unfolding CBH_MASK_def CBH_SIZE_def
  by (metis take_bit_eq_mask mask_eq_exp_minus_1 take_bit_eq_mod)

lemma drop_cbh_shift [heap_simps]:
  "drop_bit CBH_SHIFT i = i div CBH_SIZE"
  "drop_bit (2 * CBH_SHIFT) i = i div (CBH_SIZE * CBH_SIZE)"
  by (simp_all add: CBH_SIZE_def drop_bit_eq_div power_add mult_2)

lemma pointer_addr3: "cfs_binheap_pointer i = addr3 CBH_SIZE i"
  by (simp add: cfs_binheap_pointer_def addr3_def heap_simps Let_def)

lemmas pointer_def2 = pointer_addr3 addr3_def

lemma pointer_inject [simp]: "cfs_binheap_pointer i = cfs_binheap_pointer j \<longleftrightarrow> i = j"
  by (simp add: pointer_addr3)

section \<open>Invariant and contents\<close>

definition cbh_arr :: "'e cfs_binheap \<Rightarrow> nat \<Rightarrow> 'e" where
  "cbh_arr h i = the (cbh_slot h (cfs_binheap_pointer i))"

definition cbh_bag :: "'e cfs_binheap \<Rightarrow> 'e multiset" where
  "cbh_bag h = mset (cells (cbh_nelements h) (cbh_arr h))"

text \<open>Every cell below the count holds a node that records that cell's
  index, and the nodes are ordered.\<close>

definition cbh_indexed :: "'e cfs_binheap \<Rightarrow> bool" where
  "cbh_indexed h \<longleftrightarrow> (\<forall>i<cbh_nelements h.
     \<exists>e. cbh_slot h (cfs_binheap_pointer i) = Some e \<and> chn_index h e = i)"

text \<open>The tables are allocated exactly up to the high water mark, which
  counts whole fragments; \<open>CBH_MAX\<close> is the number of cells the three
  levels can address.\<close>

definition CBH_MAX :: nat where
  "CBH_MAX = CBH_SIZE + CBH_SIZE * CBH_SIZE + CBH_SIZE * CBH_SIZE * CBH_SIZE"

definition cbh_tables :: "nat \<Rightarrow> 'e cfs_binheap \<Rightarrow> bool" where
  "cbh_tables q h \<longleftrightarrow>
     (cbh_elements1 h \<longleftrightarrow> 0 < q) \<and> (cbh_elements2 h \<longleftrightarrow> 1 < q) \<and> (cbh_elements3 h \<longleftrightarrow> 1 + CBH_SIZE < q)
     \<and> (\<forall>i. cbh_frag2 h i \<longleftrightarrow> i < CBH_SIZE \<and> 1 + i < q)
     \<and> (\<forall>i. cbh_frag3 h i \<longleftrightarrow> 1 + CBH_SIZE + i * CBH_SIZE < q)
     \<and> (\<forall>i j. cbh_frag33 h i j \<longleftrightarrow> j < CBH_SIZE \<and> 1 + CBH_SIZE + i * CBH_SIZE + j < q)"

definition cbh_mem_ok :: "'e cfs_binheap \<Rightarrow> bool" where
  "cbh_mem_ok h \<longleftrightarrow> CBH_SIZE dvd cbh_hwm h \<and> cbh_hwm h \<le> CBH_MAX
     \<and> cbh_tables (cbh_hwm h div CBH_SIZE) h"

definition cbh_ok :: "('e \<Rightarrow> 'k::linorder) \<Rightarrow> 'e cfs_binheap \<Rightarrow> bool" where
  "cbh_ok k h \<longleftrightarrow> cbh_indexed h \<and> heap_upto k (cbh_nelements h) (cbh_arr h)
     \<and> cbh_nelements h \<le> cbh_hwm h \<and> cbh_mem_ok h"

text \<open>The heap while \<open>e\<close> is being moved: all cells but \<open>i\<close> hold
  the array \<open>a\<close>.\<close>

definition hole_view :: "nat \<Rightarrow> (nat \<Rightarrow> 'e) \<Rightarrow> nat \<Rightarrow> 'e \<Rightarrow> 'e cfs_binheap \<Rightarrow> bool" where
  "hole_view n a i e h \<longleftrightarrow> i < n \<and> (\<forall>j<n. j \<noteq> i \<longrightarrow>
     cbh_slot h (cfs_binheap_pointer j) = Some (a j) \<and> chn_index h (a j) = j \<and> a j \<noteq> e)"

definition full_view :: "nat \<Rightarrow> (nat \<Rightarrow> 'e) \<Rightarrow> 'e cfs_binheap \<Rightarrow> bool" where
  "full_view n a h \<longleftrightarrow> (\<forall>j<n.
     cbh_slot h (cfs_binheap_pointer j) = Some (a j) \<and> chn_index h (a j) = j)"

text \<open>What the loops leave alone.\<close>

definition cbh_frame :: "'e cfs_binheap \<Rightarrow> 'e cfs_binheap \<Rightarrow> bool" where
  "cbh_frame h h' \<longleftrightarrow> h' = h\<lparr>chn_index := chn_index h', cbh_slot := cbh_slot h'\<rparr>"

lemma frame_refl [simp]: "cbh_frame h h"
  by (simp add: cbh_frame_def)

lemma frame_elim:
  "cbh_frame h h' \<Longrightarrow> (\<And>f g. h' = h\<lparr>chn_index := f, cbh_slot := g\<rparr> \<Longrightarrow> P) \<Longrightarrow> P"
  unfolding cbh_frame_def by blast

lemma frame_trans: "cbh_frame h h' \<Longrightarrow> cbh_frame h' h'' \<Longrightarrow> cbh_frame h h''"
  by (elim frame_elim) (simp add: cbh_frame_def)

lemma frame_put [simp]: "cbh_frame h (put_node i e h)"
  by (simp add: cbh_frame_def)

lemma frame_nelements: "cbh_frame h h' \<Longrightarrow> cbh_nelements h' = cbh_nelements h"
  by (auto elim: frame_elim)

lemma frame_hwm: "cbh_frame h h' \<Longrightarrow> cbh_hwm h' = cbh_hwm h"
  by (auto elim: frame_elim)

lemma frame_allocated: "cbh_frame h h' \<Longrightarrow> cbh_allocated h' ad = cbh_allocated h ad"
  by (cases ad) (auto elim: frame_elim)

lemma hole_view_put:
  assumes "hole_view n a i e h" "m < n" "m \<noteq> i"
  shows "hole_view n (a(i := a m)) m e (put_node i (a m) h)"
  unfolding hole_view_def
proof (intro conjI allI impI)
  have v: "cbh_slot h (cfs_binheap_pointer j) = Some (a j)" "chn_index h (a j) = j" "a j \<noteq> e"
    if "j < n" "j \<noteq> i" for j
    using assms(1) that by (auto simp: hole_view_def)
  fix j assume j: "j < n" "j \<noteq> m"
  have "a j \<noteq> a m" if "j \<noteq> i" using v(2) [of j] v(2) [of m] j assms(2,3) that by auto
  then show "cbh_slot (put_node i (a m) h) (cfs_binheap_pointer j) = Some ((a(i := a m)) j)"
    "chn_index (put_node i (a m) h) ((a(i := a m)) j) = j"
    "(a(i := a m)) j \<noteq> e"
    using v [of j] v [of m] j assms(2,3) by auto
qed (rule assms(2))

lemma full_view_put:
  "hole_view n a i e h \<Longrightarrow> full_view n (a(i := e)) (put_node i e h)"
  unfolding hole_view_def full_view_def by auto

lemma full_view_hole:
  "full_view n a h \<Longrightarrow> i < n \<Longrightarrow> hole_view n a i (a i) h"
  unfolding hole_view_def full_view_def by metis

lemma indexed_full_view: "cbh_indexed h \<longleftrightarrow> full_view (cbh_nelements h) (cbh_arr h) h"
  unfolding cbh_indexed_def full_view_def cbh_arr_def by auto

lemma full_view_arr: "full_view n a h \<Longrightarrow> j < n \<Longrightarrow> cbh_arr h j = a j"
  by (simp add: full_view_def cbh_arr_def)

section \<open>The loops simulate the reference loops\<close>

lemma bubble_stop:
  assumes "hole_view n a i e h" "i = 0 \<or> lt (a (par i)) e"
  shows "bubble_loop lt e i d h = Some (d, put_node i e h)"
proof (cases "i = 0")
  case False
  then have "par i < n" "par i \<noteq> i" "drop_bit 1 (i - 1) = par i"
    using assms(1) by (auto simp: hole_view_def par_def drop_bit_eq_div intro: less_trans [OF par_less])
  then show ?thesis
    using assms False by (subst bubble_loop.simps) (simp add: hole_view_def Let_def)
qed (subst bubble_loop.simps, simp)

lemma bubble_step:
  assumes "hole_view n a i e h" "\<not> (i = 0 \<or> lt (a (par i)) e)"
  shows "bubble_loop lt e i d h = bubble_loop lt e (par i) True (put_node i (a (par i)) h)"
proof -
  have "par i < n" "par i \<noteq> i" "drop_bit 1 (i - 1) = par i"
    using assms by (auto simp: hole_view_def par_def drop_bit_eq_div intro: less_trans [OF par_less])
  then show ?thesis
    using assms by (subst bubble_loop.simps) (simp add: hole_view_def Let_def)
qed

lemma bubble_loop_sim:
  "hole_view n a i e h \<Longrightarrow> \<exists>h'. bubble_loop lt e i d h = Some (d \<or> snd (sift_up lt e i a) \<noteq> i, h')
     \<and> full_view n (fst (sift_up lt e i a)) h' \<and> cbh_frame h h'"
proof (induction lt e i a arbitrary: h d rule: sift_up.induct)
  case (1 lt e i a)
  show ?case
  proof (cases "i = 0 \<or> lt (a (par i)) e")
    case True
    then show ?thesis
      using bubble_stop [of n a i e h lt d, OF 1(2)] full_view_put [OF 1(2)]
      by (simp del: fun_upd_apply add: sift_up_stop [of i lt a e, OF True])
  next
    case False
    let ?h = "put_node i (a (par i)) h"
    have p: "par i < n" "par i < i"
      using False 1(2) by (auto simp: hole_view_def intro: less_trans [OF par_less])
    then have "hole_view n (a(i := a (par i))) (par i) e ?h"
      using hole_view_put [OF 1(2)] by simp
    then obtain h' where h': "bubble_loop lt e (par i) True ?h = Some (True, h')"
      "full_view n (fst (sift_up lt e (par i) (a(i := a (par i))))) h'" "cbh_frame ?h h'"
      using 1(1) [OF False, of ?h True] by (auto simp del: fun_upd_apply)
    moreover have "snd (sift_up lt e i a) \<noteq> i" using False by (simp add: sift_up_stays)
    ultimately show ?thesis
      using bubble_step [of n a i e h lt d, OF 1(2) False] frame_trans [OF frame_put h'(3)]
      by (simp add: sift_up_step [of i lt a e, OF False])
  qed
qed

lemma sink_child:
  assumes "hole_view n a i e h" "2 * i + 1 < n"
  shows "sink_loop lt n e i d h =
    (if lt e (a (min_child lt n i a)) then Some (d, put_node i e h)
     else sink_loop lt n e (min_child lt n i a) True (put_node i (a (min_child lt n i a)) h))"
proof -
  have m: "cbh_slot h (cfs_binheap_pointer j) = Some (a j) \<and> chn_index h (a j) = j"
    if "j < n" "j \<noteq> i" for j
    using assms(1) that by (simp add: hole_view_def)
  have 1: "i * 2 = 2 * i" by simp
  have 2: "\<not> n \<le> i" "\<not> n \<le> 2 * i + 1" using assms(2) by auto
  note c1 = m [OF assms(2)]
  show ?thesis
  proof (cases "2 * i + 2 < n \<and> lt (a (2 * i + 2)) (a (2 * i + 1))")
    case True
    then show ?thesis using m [of "2 * i + 2"] c1 2
      by (subst sink_loop.simps) (simp add: 1 min_child_def Let_def)
  next
    case False
    then have mc: "min_child lt n i a = 2 * i + 1" by (simp add: min_child_def)
    show ?thesis
    proof (cases "2 * i + 2 < n")
      case True
      then show ?thesis using False m [of "2 * i + 2"] c1 2
        by (subst sink_loop.simps) (simp add: 1 mc Let_def)
    next
      case False
      then show ?thesis using c1 2
        by (subst sink_loop.simps) (simp add: 1 mc Let_def)
    qed
  qed
qed

lemma sink_leaf:
  "i < n \<Longrightarrow> \<not> 2 * i + 1 < n \<Longrightarrow> sink_loop lt n e i d h = Some (d, put_node i e h)"
  by (subst sink_loop.simps) (simp add: push_bit_eq_mult Let_def)

lemma sink_loop_sim:
  "hole_view n a i e h \<Longrightarrow> \<exists>d' h'. sink_loop lt n e i d h = Some (d', h')
     \<and> full_view n (fst (sift_down lt n e i a)) h' \<and> cbh_frame h h'"
proof (induction lt n e i a arbitrary: h d rule: sift_down.induct)
  case (1 lt n e i a)
  let ?m = "min_child lt n i a"
  have i: "i < n" using 1(2) by (simp add: hole_view_def)
  show ?case
  proof (cases "2 * i + 1 < n \<and> \<not> lt e (a ?m)")
    case True
    let ?h = "put_node i (a ?m) h"
    have "?m < n" "?m \<noteq> i"
      using True min_child_less [of i n lt a] min_child_gt [of i lt n a] by (blast, metis less_irrefl)
    then have "hole_view n (a(i := a ?m)) ?m e ?h" by (rule hole_view_put [OF 1(2)])
    then obtain d' h' where h': "sink_loop lt n e ?m True ?h = Some (d', h')"
      "full_view n (fst (sift_down lt n e ?m (a(i := a ?m)))) h'" "cbh_frame ?h h'"
      using 1(1) [OF True, of ?h True] by blast
    then show ?thesis
      using sink_child [OF 1(2), of lt d] True frame_trans [OF frame_put h'(3)]
      by (simp add: sift_down_step [of i n lt e a, OF True])
  next
    case False
    then have "sink_loop lt n e i d h = Some (d, put_node i e h)"
      using sink_child [OF 1(2), of lt d] sink_leaf [OF i] by (cases "2 * i + 1 < n") auto
    then show ?thesis using full_view_put [OF 1(2)]
      by (simp del: fun_upd_apply add: sift_down_stop [of i n lt e a, OF False])
  qed
qed

section \<open>Growing\<close>

lemma cbh_size_eq: "CBH_SIZE = 512"
  by (simp add: CBH_SIZE_def CBH_SHIFT_def)

lemma cbh_max_eq: "CBH_MAX = 134480384"
  by (simp add: CBH_MAX_def cbh_size_eq)

lemma cbh_poison_eq: "CBH_POISON = 3735928559"
  by (simp add: CBH_POISON_def)

lemma mem_ok_new: "cbh_mem_ok cbh_new"
  by (simp add: cbh_mem_ok_def cbh_tables_def cbh_new_def)

lemma mem_okE:
  assumes "cbh_mem_ok h"
  obtains q where "cbh_hwm h = 512 * q" "q \<le> 262657" "cbh_tables q h"
  using assms unfolding cbh_mem_ok_def cbh_size_eq cbh_max_eq by auto

lemma mem_okI: "cbh_hwm h = 512 * q \<Longrightarrow> q \<le> 262657 \<Longrightarrow> cbh_tables q h \<Longrightarrow> cbh_mem_ok h"
  by (simp add: cbh_mem_ok_def cbh_size_eq cbh_max_eq)

lemma mem_ok_bound: "cbh_mem_ok h \<Longrightarrow> cbh_hwm h < CBH_POISON"
  by (auto simp: cbh_mem_ok_def cbh_max_eq cbh_poison_eq)

lemma mem_ok_allocated:
  assumes "cbh_mem_ok h" "i < cbh_hwm h"
  shows "cbh_allocated h (cfs_binheap_pointer i)"
proof -
  obtain q where qt: "cbh_hwm h = 512 * q" "q \<le> 262657" "cbh_tables q h"
    using assms(1) by (rule mem_okE)
  note q = qt(1,2) qt(3) [unfolded cbh_tables_def cbh_size_eq, simplified]
  consider "i < 512" | "512 \<le> i" "i - 512 < 262144" | "262656 \<le> i" by linarith
  then show ?thesis
  proof cases
    case 1
    then show ?thesis using assms(2) q by (simp add: pointer_def2 cbh_size_eq)
  next
    case 2
    moreover have "(i - 512) div 512 < 512" "1 + (i - 512) div 512 < q"
      using 2 assms(2) q(1) by (simp_all add: div_less_iff_less_mult less_mult_imp_div_less)
    ultimately show ?thesis using q by (simp add: pointer_def2 cbh_size_eq)
  next
    case 3
    define r where "r = i - 262656"
    have r: "r < 134217728" "262656 + r < 512 * q" using 3 assms(2) q(1,2) by (auto simp: r_def)
    have d: "r div 512 div 512 < 512" using r(1) by (simp add: less_mult_imp_div_less)
    have "513 + r div 512 < q" using r(2) by (simp add: div_less_iff_less_mult)
    moreover have "r div 512 = r div 512 div 512 * 512 + r div 512 mod 512" by simp
    ultimately have e: "513 + r div 512 div 512 * 512 + r div 512 mod 512 < q" by linarith
    have "cfs_binheap_pointer i = Elem3 (r div 512 div 512) (r div 512 mod 512) (r mod 512)"
      using 3 by (simp add: pointer_def2 cbh_size_eq r_def Let_def div_mult2_eq [symmetric])
    moreover have "513 < q" "513 + r div 512 div 512 * 512 < q" using e by auto
    ultimately show ?thesis using q e d by (simp add: cbh_size_eq)
  qed
qed

text \<open>Growing either fails and changes nothing, or adds one fragment; its
  assertions hold.\<close>

definition grown :: "'e cfs_binheap \<Rightarrow> 'e cfs_binheap \<Rightarrow> bool" where
  "grown h h' \<longleftrightarrow> cbh_mem_ok h' \<and> cbh_hwm h' = cbh_hwm h + CBH_SIZE \<and> cbh_nelements h' = cbh_nelements h
     \<and> cbh_slot h' = cbh_slot h \<and> chn_index h' = chn_index h"

lemma grownI:
  assumes "cbh_hwm h = 512 * q" "q < 262657" "cbh_tables (q + 1) h'" "cbh_hwm h' = cbh_hwm h + 512"
    "cbh_nelements h' = cbh_nelements h" "cbh_slot h' = cbh_slot h" "chn_index h' = chn_index h"
  shows "grown h h'"
  unfolding grown_def using assms by (auto simp: cbh_size_eq intro!: mem_okI [of h' "q + 1"])

lemma no_frag2: "cbh_tables q h \<Longrightarrow> q \<le> 1 \<Longrightarrow> h\<lparr>cbh_elements2 := False\<rparr> = h"
  by (cases h) (simp add: cbh_tables_def)

lemma no_frag3: "cbh_tables q h \<Longrightarrow> q \<le> 1 + CBH_SIZE \<Longrightarrow> h\<lparr>cbh_elements3 := False\<rparr> = h"
  by (cases h) (simp add: cbh_tables_def)

lemma pair512:
  assumes "(v :: nat) < 512" "j < 512"
  shows "u * 512 + v = i * 512 + j \<longleftrightarrow> u = i \<and> v = j"
proof
  assume e: "u * 512 + v = i * 512 + j"
  have "(u * 512 + v) div 512 = u" "(i * 512 + j) div 512 = i" using assms by simp_all
  then show "u = i \<and> v = j" using e by simp
qed simp

lemma one_513: "(1 :: nat) + 512 = 513"
  by simp

lemma grow_cases:
  assumes "cbh_mem_ok h"
  shows "cfs_binheap_grow mem h = Some (Rc_nomem, h) \<and> (\<not> (\<forall>k. mem k) \<or> cbh_hwm h = CBH_MAX) \<or>
    (\<exists>h'. cfs_binheap_grow mem h = Some (Rc_ok, h') \<and> grown h h')"
proof -
  obtain q where q: "cbh_hwm h = 512 * q" "q \<le> 262657" "cbh_tables q h"
    using assms(1) by (rule mem_okE)
  note simps = cfs_binheap_grow_def Let_def heap_simps cbh_size_eq q(1)
  consider "q = 0" | "1 \<le> q" "q \<le> 512" | "513 \<le> q" "q < 262657" | "q = 262657"
    using q(1,2) by linarith
  then show ?thesis
  proof cases
    case 1
    then show ?thesis using q(3)
      by (cases "mem 0") (auto simp: simps cbh_tables_def intro!: grownI [of h q])
  next
    case 2
    have d: "(512 * q - 512) div 512 = q - 1" using 2 by (simp add: right_diff_distrib' [symmetric])
    show ?thesis
    proof (cases "mem 0 \<and> (q = 1 \<longrightarrow> mem 1)")
      case True
      then show ?thesis using 2 q(3)
        by (auto simp: simps d cbh_tables_def intro!: grownI [of h q])
    next
      case False
      then show ?thesis using 2 no_frag2 [OF q(3)]
        by (auto simp: simps)
    qed
  next
    case 3
    define r where "r = q - 513"
    have r: "q = r + 513" "r < 262144" using 3 by (auto simp: r_def)
    have d: "512 * q - 512 - 262144 = 512 * r" "512 * r div 512 = r" "512 * r div 262144 = r div 512"
      using r(1) by (simp_all add: div_mult2_eq [of "512 * r" 512 512, simplified])
    define u v where "u = r div 512" and "v = r mod 512"
    have uv: "r div 512 = u" "r mod 512 = v" "r = u * 512 + v" "v < 512"
      by (simp_all add: u_def v_def)
    have new: "r mod 512 = 0 \<longleftrightarrow> \<not> cbh_frag3 h (r div 512)"
      unfolding uv(1,2) using q(3) r(1) uv(3,4) by (auto simp: cbh_tables_def cbh_size_eq)
    show ?thesis
    proof (cases "mem 0 \<and> (r mod 512 = 0 \<longrightarrow> mem 1) \<and> (r = 0 \<longrightarrow> mem 2)")
      case True
      define h1 where "h1 = (if r = 0 then h\<lparr>cbh_elements3 := True\<rparr> else h)"
      define h2 where "h2 = h1\<lparr>cbh_frag3 := (cbh_frag3 h1)(r div 512 := True)\<rparr>"
      define h3 where "h3 = h2\<lparr>cbh_frag33 := (cbh_frag33 h2)(r div 512 := (cbh_frag33 h2 (r div 512))(r mod 512 := True))\<rparr>"
      have f1: "cbh_frag3 h1 = cbh_frag3 h" "cbh_hwm h3 = cbh_hwm h" by (simp_all add: h1_def h2_def h3_def)
      have "cfs_binheap_grow mem h = Some (Rc_ok, h3\<lparr>cbh_hwm := cbh_hwm h + 512\<rparr>)"
        using True new r f1 by (auto simp add: simps d h1_def h2_def h3_def)
      moreover have "grown h (h3\<lparr>cbh_hwm := cbh_hwm h + 512\<rparr>)"
      proof (rule grownI [of h q])
        have i3: "513 + i * 512 < q + 1 \<longleftrightarrow> 513 + i * 512 < q \<or> i = r div 512" for i
          unfolding uv(1,2) using r(1) uv(3,4) by (cases i u rule: linorder_cases) auto
        have i33: "j < 512 \<and> 513 + i * 512 + j < q + 1 \<longleftrightarrow>
            j < 512 \<and> 513 + i * 512 + j < q \<or> i = r div 512 \<and> j = r mod 512" for i j
        proof -
          have "q = u * 512 + v + 513" using r(1) uv(3) by simp
          moreover have "u * 512 + v = i * 512 + j \<longleftrightarrow> i = u \<and> j = v" if "j < 512"
            using pair512 [OF uv(4) that] by auto
          ultimately show ?thesis unfolding uv(1,2) using uv(4) by (auto simp: less_Suc_eq)
        qed
        show "cbh_tables (q + 1) (h3\<lparr>cbh_hwm := cbh_hwm h + 512\<rparr>)"
        proof -
          note t = q(3) [unfolded cbh_tables_def cbh_size_eq]
          let ?h = "h3\<lparr>cbh_hwm := cbh_hwm h + 512\<rparr>"
          have f: "cbh_elements1 ?h = cbh_elements1 h" "cbh_elements2 ?h = cbh_elements2 h"
            "cbh_elements3 ?h \<longleftrightarrow> r = 0 \<or> cbh_elements3 h" "cbh_frag2 ?h = cbh_frag2 h"
            "\<And>i. cbh_frag3 ?h i \<longleftrightarrow> cbh_frag3 h i \<or> i = r div 512"
            "\<And>i j. cbh_frag33 ?h i j \<longleftrightarrow> cbh_frag33 h i j \<or> i = r div 512 \<and> j = r mod 512"
            by (simp_all add: h1_def h2_def h3_def)
          have t': "cbh_elements1 h" "cbh_elements2 h" "cbh_elements3 h \<longleftrightarrow> 513 < q"
            "\<And>i. cbh_frag2 h i \<longleftrightarrow> i < 512 \<and> 1 + i < q" "\<And>i. cbh_frag3 h i \<longleftrightarrow> 513 + i * 512 < q"
            "\<And>i j. cbh_frag33 h i j \<longleftrightarrow> j < 512 \<and> 513 + i * 512 + j < q"
            using t 3 by simp_all
          have g1: "(r = 0 \<or> 513 < q) = (513 < q + 1)" using r(1) by auto
          have g2: "(i < 512 \<and> 1 + i < q) = (i < 512 \<and> 1 + i < q + 1)" for i using r(1) by auto
          show ?thesis
            unfolding cbh_tables_def cbh_size_eq one_513 f t' i3 i33
            by (intro conjI allI) (use t'(1) in simp, use r(1) t'(2) in simp, rule g1, rule g2, rule refl, rule refl)
        qed
      qed (use 3 q(1) in \<open>simp_all add: h1_def h2_def h3_def\<close>)
      ultimately show ?thesis by blast
    next
      case False
      have e3: "h\<lparr>cbh_elements3 := False\<rparr> = h" if "r = 0"
        using no_frag3 [OF q(3)] r(1) that by (simp add: cbh_size_eq)
      consider "\<not> mem 0" | "mem 0" "r mod 512 = 0" "\<not> mem 1"
        | "mem 0" "r mod 512 = 0 \<longrightarrow> mem 1" "r = 0" "\<not> mem 2"
        using False by metis
      then have "cfs_binheap_grow mem h = Some (Rc_nomem, h)"
        using r e3 by cases (simp_all add: simps d)
      then show ?thesis using False by blast
    qed
  next
    case 4
    then show ?thesis using q by (simp add: simps cbh_max_eq)
  qed
qed

section \<open>The operations keep the heap\<close>

lemma bubble_sim:
  assumes "hole_view n a (chn_index h e) e h" "cbh_slot h (cfs_binheap_pointer (chn_index h e)) = Some e"
  shows "\<exists>h'. cfs_binheap_bubble lt e h = Some (snd (sift_up lt e (chn_index h e) a) \<noteq> chn_index h e, h')
     \<and> full_view n (fst (sift_up lt e (chn_index h e) a)) h' \<and> cbh_frame h h'"
  using bubble_loop_sim [OF assms(1), of lt False] assms(2) by (simp add: cfs_binheap_bubble_def)

lemma full_view_ok:
  assumes "full_view n a h" "cbh_nelements h = n" "heap_upto k n a" "n \<le> cbh_hwm h" "cbh_mem_ok h"
  shows "cbh_ok k h" "cbh_bag h = mset (cells n a)"
proof -
  have eq: "cbh_arr h j = a j" if "j < n" for j using full_view_arr [OF assms(1) that] .
  then have "heap_upto k n (cbh_arr h)" using assms(3) heap_upto_cong [of n a "cbh_arr h" k] by simp
  moreover have "cbh_indexed h" using assms(1,2) by (auto simp: cbh_indexed_def full_view_def)
  ultimately show "cbh_ok k h" using assms(2,4,5) by (simp add: cbh_ok_def)
  have "cells n (cbh_arr h) = cells n a" using eq by (intro cells_cong)
  then show "cbh_bag h = mset (cells n a)" unfolding cbh_bag_def assms(2) by (rule arg_cong)
qed

lemma frame_mem_ok: "cbh_frame h h' \<Longrightarrow> cbh_mem_ok h' = cbh_mem_ok h"
  by (elim frame_elim) (simp add: cbh_mem_ok_def cbh_tables_def)

lemma cbh_bag_iff: "e \<in># cbh_bag h \<longleftrightarrow> (\<exists>j<cbh_nelements h. cbh_arr h j = e)"
  by (auto simp: cbh_bag_def)

lemma insert_put:
  assumes "ranked lt k" "cbh_indexed h" "heap_upto k (cbh_nelements h) (cbh_arr h)"
    and "cbh_nelements h < cbh_hwm h" "cbh_mem_ok h" "e \<notin># cbh_bag h"
  shows "\<exists>d h'. cfs_binheap_bubble lt e ((put_node (cbh_nelements h) e h)\<lparr>cbh_nelements := cbh_nelements h + 1\<rparr>) = Some (d, h')
     \<and> cbh_ok k h' \<and> cbh_bag h' = add_mset e (cbh_bag h) \<and> cbh_nelements h' = cbh_nelements h + 1"
proof -
  let ?n = "cbh_nelements h" and ?a = "cbh_arr h"
  let ?h = "(put_node ?n e h)\<lparr>cbh_nelements := ?n + 1\<rparr>"
  have ne: "?a j \<noteq> e" if "j < ?n" for j using assms(6) that by (auto simp: cbh_bag_iff)
  have "full_view ?n ?a h" using assms(2) by (simp add: indexed_full_view)
  then have hv: "hole_view (?n + 1) ?a ?n e ?h"
    using ne by (auto simp: hole_view_def full_view_def)
  have ix: "chn_index ?h e = ?n" "cbh_slot ?h (cfs_binheap_pointer (chn_index ?h e)) = Some e" by simp_all
  obtain d h' where h': "cfs_binheap_bubble lt e ?h = Some (d, h')"
    "full_view (?n + 1) (fst (sift_up lt e ?n ?a)) h'" "cbh_frame ?h h'"
    using bubble_sim [of "?n + 1" ?a ?h e lt] hv ix by auto
  have "heap_upto k (?n + 1) (fst (sift_up lt e ?n ?a))"
  proof (rule sift_up_heap [OF assms(1)])
    show "heap_hole k (?n + 1) ?a ?n" using heap_hole_end [OF assms(3)] by simp
    show "k e \<le> k (?a c)" if "c < ?n + 1" "0 < c" "par c = ?n" for c
      using that par_less [of c] by simp
  qed simp
  moreover have "mset (cells (?n + 1) (fst (sift_up lt e ?n ?a))) = add_mset e (cbh_bag h)"
  proof -
    have "mset (cells (?n + 1) (fst (sift_up lt e ?n ?a))) = mset (cells (?n + 1) (?a(?n := e)))"
      by (rule sift_up_mset) simp
    also have "\<dots> = add_mset e (mset (cells ?n (?a(?n := e))))" by simp
    also have "cells ?n (?a(?n := e)) = cells ?n ?a" by (rule cells_cong) simp
    finally show ?thesis by (simp add: cbh_bag_def)
  qed
  moreover have "cbh_nelements h' = ?n + 1" "cbh_hwm h' = cbh_hwm h" "cbh_mem_ok h'"
    using frame_nelements [OF h'(3)] frame_hwm [OF h'(3)] frame_mem_ok [OF h'(3)] assms(5)
    by (simp_all add: cbh_mem_ok_def cbh_tables_def)
  ultimately show ?thesis
    using full_view_ok [OF h'(2), of k] h'(1) assms(4) by auto
qed

lemma grown_ok:
  assumes "grown h h'" "cbh_indexed h" "heap_upto k (cbh_nelements h) (cbh_arr h)"
  shows "cbh_indexed h'" "heap_upto k (cbh_nelements h') (cbh_arr h')" "cbh_bag h' = cbh_bag h" "cbh_mem_ok h'"
    "cbh_hwm h' = cbh_hwm h + CBH_SIZE" "cbh_nelements h' = cbh_nelements h"
  using assms by (simp_all add: grown_def cbh_indexed_def cbh_arr_def [abs_def] cbh_bag_def)

text \<open>Every outcome of an insertion: either the node is added, or a named
  error leaves the contents as they were.\<close>

lemma insert_cases:
  assumes "ranked lt k" "cbh_ok k h" "e \<notin># cbh_bag h"
  shows "\<exists>rc h'. cfs_binheap_insert lt mem enter e h = Some (rc, h') \<and> cbh_ok k h'
     \<and> (rc = Rc_ok \<and> enter e \<and> cbh_bag h' = add_mset e (cbh_bag h)
        \<or> rc = Rc_nomem \<and> (\<not> (\<forall>j. mem j) \<or> cbh_nelements h = CBH_MAX) \<and> h' = h
        \<or> rc = Rc_enter \<and> \<not> enter e \<and> cbh_bag h' = cbh_bag h)"
proof -
  let ?n = "cbh_nelements h"
  have ok: "cbh_indexed h" "heap_upto k ?n (cbh_arr h)" "?n \<le> cbh_hwm h" "cbh_mem_ok h"
    using assms(2) by (simp_all add: cbh_ok_def)
  show ?thesis
  proof (cases "?n = cbh_hwm h")
    case False
    then have "?n < cbh_hwm h" using ok(3) by simp
    from insert_put [OF assms(1) ok(1,2) this ok(4) assms(3)]
    show ?thesis using False assms(2)
      by (auto simp: cfs_binheap_insert_def Let_def split: prod.split)
  next
    case True
    from grow_cases [OF ok(4), of mem] show ?thesis
    proof (elim disjE exE conjE)
      assume "cfs_binheap_grow mem h = Some (Rc_nomem, h)" "\<not> (\<forall>k. mem k)"
      then show ?thesis using True assms(2) by (simp add: cfs_binheap_insert_def)
    next
      assume "cfs_binheap_grow mem h = Some (Rc_nomem, h)" "cbh_hwm h = CBH_MAX"
      then show ?thesis using True assms(2) by (simp add: cfs_binheap_insert_def)
    next
      fix h1 assume g: "cfs_binheap_grow mem h = Some (Rc_ok, h1)" "grown h h1"
      note h1 = grown_ok [OF g(2) ok(1,2)]
      have "?n < cbh_hwm h1" using True h1(5) by simp
      from insert_put [OF assms(1) h1(1,2) _ h1(4), of e] this h1(3,6) assms(3)
      obtain d h' where "cfs_binheap_bubble lt e ((put_node ?n e h1)\<lparr>cbh_nelements := ?n + 1\<rparr>) = Some (d, h')"
        "cbh_ok k h'" "cbh_bag h' = add_mset e (cbh_bag h)" by auto
      moreover have "cbh_ok k h1" using h1 True by (simp add: cbh_ok_def)
      ultimately show ?thesis using True g(1) h1(3)
        by (auto simp: cfs_binheap_insert_def Let_def)
    qed
  qed
qed

lemma heap_hole_upd: "heap_hole k n (a(i := x)) i = heap_hole k n a i"
proof -
  have "par i = i \<longleftrightarrow> i = 0" using par_less [of i] by (cases "i = 0") (auto simp: par_def)
  then show ?thesis unfolding heap_hole_def by (intro conj_cong all_cong imp_cong refl) auto
qed

lemma relocate_sim:
  assumes "ranked lt k" "heap_hole k n a i" "hole_view n a i e h" "cbh_nelements h = n"
    and "cbh_slot h (cfs_binheap_pointer i) = Some e" "chn_index h e = i"
  shows "\<exists>h' b. cfs_binheap_relocate lt e h = Some h' \<and> full_view n b h' \<and> cbh_frame h h'
     \<and> heap_upto k n b \<and> mset (cells n b) = mset (cells n (a(i := e)))"
proof -
  have i: "i < n" using assms(3) by (simp add: hole_view_def)
  obtain h1 where h1: "cfs_binheap_bubble lt e h = Some (snd (sift_up lt e i a) \<noteq> i, h1)"
    "full_view n (fst (sift_up lt e i a)) h1" "cbh_frame h h1"
    using bubble_sim [of n a h e lt] assms(3,5,6) by auto
  show ?thesis
  proof (cases "i = 0 \<or> lt (a (par i)) e")
    case True
    note stop = sift_up_stop [of i lt a e, OF True]
    have b: "cfs_binheap_bubble lt e h = Some (False, h1)" "full_view n (a(i := e)) h1"
      using h1(1,2) unfolding stop by simp_all
    then have hv: "hole_view n (a(i := e)) i e h1" using full_view_hole [OF b(2) i] by simp
    have s: "cbh_slot h1 (cfs_binheap_pointer i) = Some e" "chn_index h1 e = i"
      using b(2) i by (auto simp: full_view_def)
    obtain d h2 where h2: "sink_loop lt n e i False h1 = Some (d, h2)"
      "full_view n (fst (sift_down lt n e i (a(i := e)))) h2" "cbh_frame h1 h2"
      using sink_loop_sim [OF hv, of lt False] by blast
    have "heap_upto k n (fst (sift_down lt n e i (a(i := e))))"
    proof (rule sift_down_heap [OF assms(1) _ i])
      show "heap_hole k n (a(i := e)) i" using assms(2) by (simp only: heap_hole_upd)
      show "k ((a(i := e)) (par i)) \<le> k e" if "0 < i"
        using True that rankedD1 [OF assms(1), of "a (par i)" e] by auto
    qed
    moreover have "mset (cells n (fst (sift_down lt n e i (a(i := e))))) = mset (cells n (a(i := e)))"
      using sift_down_mset [OF i, of lt e "a(i := e)"] by simp
    moreover have "cfs_binheap_sink lt e h1 = Some (d, h2)"
      using h2(1) s frame_nelements [OF h1(3)] assms(4) by (simp add: cfs_binheap_sink_def)
    ultimately show ?thesis using b(1) h2(2) frame_trans [OF h1(3) h2(3)]
      by (auto simp: cfs_binheap_relocate_def simp del: fun_upd_apply)
  next
    case False
    then have "k e \<le> k (a (par i))" by (intro rankedD2 [OF assms(1)]) simp
    moreover have "k (a (par i)) \<le> k (a c)" if "c < n" "0 < c" "par c = i" for c
      using assms(2) that False unfolding heap_hole_def by simp
    ultimately have "k e \<le> k (a c)" if "c < n" "0 < c" "par c = i" for c
      using that order.trans by blast
    then have "heap_upto k n (fst (sift_up lt e i a))"
      using sift_up_heap [OF assms(1,2) i] by blast
    moreover have "cfs_binheap_relocate lt e h = Some h1"
      using h1(1) False by (simp add: cfs_binheap_relocate_def sift_up_stays)
    ultimately show ?thesis using h1(2,3) sift_up_mset [OF i, of lt e a] by blast
  qed
qed

text \<open>The order depends only on the ranks of the elements below the count,
  and around a hole only on those outside the hole.\<close>

lemma heap_upto_rank: "(\<And>j. j < n \<Longrightarrow> k' (a j) = k (a j)) \<Longrightarrow> heap_upto k' n a = heap_upto k n a"
  unfolding heap_upto_def by (metis less_trans par_less)

lemma heap_hole_rank:
  assumes "\<And>j. j < n \<Longrightarrow> j \<noteq> i \<Longrightarrow> k' (a j) = k (a j)"
  shows "i < n \<Longrightarrow> heap_hole k' n a i = heap_hole k n a i"
proof -
  assume i: "i < n"
  have a1: "k' (a (par j)) \<le> k' (a j) \<longleftrightarrow> k (a (par j)) \<le> k (a j)"
    if "j < n" "0 < j \<and> j \<noteq> i \<and> par j \<noteq> i" for j
    using assms [of "par j"] assms [of j] less_trans [OF par_less [of j] that(1)] that by simp
  have a2: "k' (a (par i)) \<le> k' (a c) \<longleftrightarrow> k (a (par i)) \<le> k (a c)"
    if "c < n" "0 < c \<and> par c = i \<and> 0 < i" for c
    using assms [of "par i"] assms [of c] less_trans [OF par_less [of i] i] par_less [of i] par_less [of c] that by fastforce
  show ?thesis unfolding heap_hole_def using a1 a2 by blast
qed

lemma cbh_ok_rank:
  assumes "cbh_ok k h" "\<And>x. x \<in># cbh_bag h \<Longrightarrow> k' x = k x"
  shows "cbh_ok k' h"
  using assms heap_upto_rank [of "cbh_nelements h" k' "cbh_arr h" k]
  by (auto simp: cbh_ok_def cbh_bag_iff)

lemma cbh_bag_once: "cbh_ok k h \<Longrightarrow> add_mset e B = cbh_bag h \<Longrightarrow> e \<notin># B"
proof
  assume ok: "cbh_ok k h" and b: "add_mset e B = cbh_bag h" and e: "e \<in># B"
  have "inj_on (cbh_arr h) {..<cbh_nelements h}"
    using ok by (intro inj_onI) (auto simp: cbh_ok_def indexed_full_view full_view_def, metis)
  then have "distinct (cells (cbh_nelements h) (cbh_arr h))"
    by (simp add: distinct_map lessThan_atLeast0)
  then have "count (cbh_bag h) e \<le> 1" by (simp add: cbh_bag_def distinct_count_atmost_1)
  then show False using b e by (metis One_nat_def add_le_same_cancel1 count_add_mset count_eq_zero_iff le_zero_eq plus_1_eq_Suc)
qed

text \<open>Moving a node whose rank has changed.\<close>

lemma relocate_changed:
  assumes "ranked lt k'" "cbh_ok k h" "e \<in># cbh_bag h" "\<And>x. x \<in># cbh_bag h \<Longrightarrow> x \<noteq> e \<Longrightarrow> k' x = k x"
  shows "\<exists>h'. cfs_binheap_relocate lt e h = Some h' \<and> cbh_ok k' h' \<and> cbh_bag h' = cbh_bag h"
proof -
  let ?n = "cbh_nelements h" and ?a = "cbh_arr h"
  have ok: "cbh_indexed h" "heap_upto k ?n ?a" "?n \<le> cbh_hwm h" "cbh_mem_ok h"
    using assms(2) by (simp_all add: cbh_ok_def)
  have fv: "full_view ?n ?a h" using ok(1) by (simp add: indexed_full_view)
  obtain i where i: "i < ?n" "?a i = e" using assms(3) by (auto simp: cbh_bag_iff)
  then have ie: "chn_index h e = i" "cbh_slot h (cfs_binheap_pointer i) = Some e"
    using fv by (auto simp: full_view_def)
  have ne: "?a j \<noteq> e" if "j < ?n" "j \<noteq> i" for j
    using fv that ie(1) by (auto simp: full_view_def)
  have hv: "hole_view ?n ?a i e h" using fv i(1) ne by (auto simp: hole_view_def full_view_def)
  have "k' (?a j) = k (?a j)" if "j < ?n" "j \<noteq> i" for j
    using assms(4) [of "?a j"] ne [OF that] that(1) by (auto simp: cbh_bag_iff)
  then have hh: "heap_hole k' ?n ?a i"
    using heap_hole_rank [of ?n i k' ?a k] i(1) heap_hole_of_heap [OF ok(2) i(1)] by simp
  obtain h' b where h': "cfs_binheap_relocate lt e h = Some h'" "full_view ?n b h'" "cbh_frame h h'"
    "heap_upto k' ?n b" "mset (cells ?n b) = mset (cells ?n (?a(i := e)))"
    using relocate_sim [OF assms(1) hh hv refl ie(2,1)] by blast
  have e: "?a(i := e) = ?a" using i(2) by auto
  have n: "cbh_nelements h' = ?n" "cbh_hwm h' = cbh_hwm h" "cbh_mem_ok h'"
    using frame_nelements [OF h'(3)] frame_hwm [OF h'(3)] frame_mem_ok [OF h'(3)] ok(4) by simp_all
  have "cbh_ok k' h'" "cbh_bag h' = mset (cells ?n b)"
    using full_view_ok [OF h'(2) _ h'(4)] n ok(3) by simp_all
  then show ?thesis using h'(1,5) e by (auto simp: cbh_bag_def)
qed

text \<open>Removing a node whose rank has changed since it was placed.\<close>

lemma remove_changed:
  assumes "ranked lt k'" "cbh_ok k h" "e \<in># cbh_bag h" "\<And>x. x \<in># cbh_bag h \<Longrightarrow> x \<noteq> e \<Longrightarrow> k' x = k x"
  shows "\<exists>h'. cfs_binheap_remove lt e h = Some h' \<and> cbh_ok k' h' \<and> add_mset e (cbh_bag h') = cbh_bag h
     \<and> chn_index h' e = (if chn_index h e = cbh_nelements h - 1 then chn_index h e else CBH_POISON)"
proof -
  let ?n = "cbh_nelements h" and ?a = "cbh_arr h"
  have ok: "cbh_indexed h" "heap_upto k ?n ?a" "?n \<le> cbh_hwm h" "cbh_mem_ok h"
    using assms(2) by (simp_all add: cbh_ok_def)
  have fv: "full_view ?n ?a h" using ok(1) by (simp add: indexed_full_view)
  obtain i where i: "i < ?n" "?a i = e" using assms(3) by (auto simp: cbh_bag_iff)
  then have ie: "chn_index h e = i" "cbh_slot h (cfs_binheap_pointer i) = Some e"
    using fv by (auto simp: full_view_def)
  have np: "i \<noteq> CBH_POISON" using i(1) ok(3) mem_ok_bound [OF ok(4)] by simp
  define m where "m = ?n - 1"
  have m: "?n = Suc m" using i(1) by (simp add: m_def)
  have lst: "cbh_slot h (cfs_binheap_pointer m) = Some (?a m)" "chn_index h (?a m) = m"
    using fv m by (simp_all add: full_view_def)
  let ?h1 = "h\<lparr>cbh_nelements := m\<rparr>"
  have bag: "cbh_bag h = add_mset (?a m) (mset (cells m ?a))" by (simp add: cbh_bag_def m)
  have mem1: "cbh_mem_ok ?h1" using ok(4) by (simp add: cbh_mem_ok_def cbh_tables_def)
  have inb: "?a j \<in># cbh_bag h" if "j < ?n" for j using that by (auto simp: cbh_bag_iff)
  show ?thesis
  proof (cases "i = m")
    case True
    have ag: "k' (?a j) = k (?a j)" if "j < m" for j
    proof -
      have "chn_index h (?a j) = j" "j < ?n" using fv m that by (simp_all add: full_view_def)
      then have "?a j \<noteq> e" using ie(1) True that by auto
      then show ?thesis using assms(4) inb [OF \<open>j < ?n\<close>] by simp
    qed
    have "full_view m ?a ?h1" using fv m by (simp add: full_view_def)
    moreover have "heap_upto k m ?a" using ok(2) m heap_upto_mono [of k ?n ?a m] by simp
    then have "heap_upto k' m ?a" using heap_upto_rank [of m k' ?a k] ag by simp
    ultimately have "cbh_ok k' ?h1" "cbh_bag ?h1 = mset (cells m ?a)"
      using full_view_ok [of m ?a ?h1 k'] ok(3) m mem1 by simp_all
    moreover have "cfs_binheap_remove lt e h = Some ?h1"
      using np ie lst i m True by (simp add: cfs_binheap_remove_def Let_def)
    ultimately show ?thesis using bag i(2) True ie m by simp
  next
    case False
    then have im: "i < m" using i(1) m by simp
    let ?l = "?a m" and ?h2 = "put_node i (?a m) ?h1"
    have ne: "?l \<noteq> e" using lst(2) ie(1) False by auto
    have dist: "?a j \<noteq> ?l" "?a j = e \<longleftrightarrow> j = i" if "j < m" for j
    proof -
      have "chn_index h (?a j) = j" using fv m that by (simp add: full_view_def)
      then show "?a j \<noteq> ?l" "?a j = e \<longleftrightarrow> j = i" using lst(2) ie(1) i(2) that by auto
    qed
    have "hole_view m ?a i ?l ?h2"
      using fv m im dist(1) by (auto simp: hole_view_def full_view_def)
    moreover have "heap_hole k' m ?a i"
    proof -
      have "k' (?a j) = k (?a j)" if "j < m" "j \<noteq> i" for j
        using assms(4) inb [of j] dist(2) [OF that(1)] that m by simp
      moreover have "heap_hole k m ?a i"
        using ok(2) m heap_upto_mono [of k ?n ?a m] im by (intro heap_hole_of_heap) simp_all
      ultimately show ?thesis using heap_hole_rank [of m i k' ?a k] im by simp
    qed
    ultimately obtain h' b where h': "cfs_binheap_relocate lt ?l ?h2 = Some h'" "full_view m b h'"
      "cbh_frame ?h2 h'" "heap_upto k' m b" "mset (cells m b) = mset (cells m (?a(i := ?l)))"
      using relocate_sim [OF assms(1), of m ?a i ?l ?h2] by auto
    have "e \<notin> set (cells m b)"
    proof -
      have "(?a(i := ?l)) x \<noteq> e" if "x < m" for x
        using ne dist(2) [OF that] by (cases "x = i") simp_all
      then have "e \<notin> set (cells m (?a(i := ?l)))" unfolding set_cells by blast
      then show ?thesis using h'(5) by (metis set_mset_mset)
    qed
    then have fv': "full_view m b (h'\<lparr>chn_index := (chn_index h')(e := CBH_POISON)\<rparr>)"
      using h'(2) by (auto simp: full_view_def)
    have fr: "cbh_nelements h' = m" "cbh_hwm h' = cbh_hwm h" "cbh_mem_ok h'"
      using frame_nelements [OF h'(3)] frame_hwm [OF h'(3)] frame_mem_ok [OF h'(3)] mem1
      by (simp_all add: cbh_mem_ok_def cbh_tables_def)
    let ?r = "h'\<lparr>chn_index := (chn_index h')(e := CBH_POISON)\<rparr>"
    have "cbh_mem_ok ?r" using fr(3) by (simp add: cbh_mem_ok_def cbh_tables_def)
    then have "cbh_ok k' ?r" "cbh_bag ?r = mset (cells m b)"
      using full_view_ok [OF fv' _ h'(4)] fr ok(3) m by simp_all
    moreover have "mset (cells m (?a(i := ?l))) = add_mset ?l (mset (cells m ?a) - {#e#})"
      using mset_cells_upd [OF im, of ?a ?l] i(2) by simp
    moreover have "e \<in># mset (cells m ?a)" using i im by (auto simp del: mset_map)
    ultimately have "cbh_ok k' ?r" "add_mset e (cbh_bag ?r) = cbh_bag h"
      using h'(5) bag by simp_all
    moreover have "cfs_binheap_remove lt e h = Some ?r"
      using np ie lst i m ne h'(1) by (simp add: cfs_binheap_remove_def Let_def)
    ultimately show ?thesis using ie(1) False m by simp
  qed
qed

lemma remove_cases:
  assumes "ranked lt k" "cbh_ok k h" "e \<in># cbh_bag h"
  shows "\<exists>h'. cfs_binheap_remove lt e h = Some h' \<and> cbh_ok k h' \<and> add_mset e (cbh_bag h') = cbh_bag h
     \<and> chn_index h' e = (if chn_index h e = cbh_nelements h - 1 then chn_index h e else CBH_POISON)"
  using remove_changed [OF assms] by simp

lemma root_least:
  assumes "cbh_ok k h" "0 < cbh_nelements h"
  shows "\<exists>e. cfs_binheap_root h = Some e \<and> e \<in># cbh_bag h \<and> (\<forall>x\<in>#cbh_bag h. k e \<le> k x)"
proof -
  have "full_view (cbh_nelements h) (cbh_arr h) h" "heap_upto k (cbh_nelements h) (cbh_arr h)"
    using assms(1) by (simp_all add: cbh_ok_def indexed_full_view)
  then show ?thesis
    using assms(2) heap_root_least [of k "cbh_nelements h" "cbh_arr h"]
    by (auto simp: cfs_binheap_root_def cfs_binheap_find_def full_view_def cbh_bag_iff)
qed

section \<open>Properties\<close>

lemma cbh_ok_new: "cbh_ok k cbh_new" "cbh_bag cbh_new = {#}"
  using mem_ok_new by (simp_all add: cbh_ok_def cbh_indexed_def heap_upto_def cbh_bag_def cbh_new_def)

lemma ranked_nat: "ranked (<) (id :: nat \<Rightarrow> nat)"
  by (auto simp: ranked_def)

text \<open>C5 Insertion into the intrusive heap, on every branch: with a node that
  is not yet in it, no assertion fails and no NULL is dereferenced; either the
  node is added, or the error is -ENOMEM (an allocation failed or the table is
  full) with the heap untouched, or the user's hop_enter refused; the heap
  order, the index stored in each node and the pointer tables stay right.\<close>

theorem binheap_insert_outcomes:
  assumes "ranked lt k" "cbh_ok k h" "e \<notin># cbh_bag h"
  shows "\<exists>rc h'. cfs_binheap_insert lt mem enter e h = Some (rc, h') \<and> cbh_ok k h'
     \<and> (rc = Rc_ok \<and> enter e \<and> cbh_bag h' = add_mset e (cbh_bag h)
        \<or> rc = Rc_nomem \<and> (\<not> (\<forall>j. mem j) \<or> cbh_nelements h = CBH_MAX) \<and> h' = h
        \<or> rc = Rc_enter \<and> \<not> enter e \<and> cbh_bag h' = cbh_bag h)"
  by (rule insert_cases [OF assms])

theorem binheap_insert_outcomes_witness:
  "\<exists>h'. cfs_binheap_insert (<) (\<lambda>_. True) (\<lambda>_. True) (5 :: nat) cbh_new = Some (Rc_ok, h') \<and> cbh_bag h' = {#5#}"
proof -
  have "cbh_nelements cbh_new \<noteq> CBH_MAX" by (simp add: cbh_new_def cbh_max_eq)
  then show ?thesis
    using binheap_insert_outcomes [OF ranked_nat cbh_ok_new(1), of 5 "\<lambda>_. True" "\<lambda>_. True"]
    by (auto simp: cbh_ok_new)
qed

text \<open>C6 Removal of any node of the heap: exactly that node leaves, the heap
  order and the stored indices hold again, and the node's index is poisoned,
  except when the node was the last one of the array: the early return
  leaves its index as it was (and skips hop_exit).\<close>

theorem binheap_remove_exact:
  assumes "ranked lt k" "cbh_ok k h" "e \<in># cbh_bag h"
  shows "\<exists>h'. cfs_binheap_remove lt e h = Some h' \<and> cbh_ok k h' \<and> add_mset e (cbh_bag h') = cbh_bag h
     \<and> chn_index h' e = (if chn_index h e = cbh_nelements h - 1 then chn_index h e else CBH_POISON)"
  by (rule remove_cases [OF assms])

theorem binheap_remove_exact_witness:
  "\<exists>h h'. cfs_binheap_insert (<) (\<lambda>_. True) (\<lambda>_. True) (5 :: nat) cbh_new = Some (Rc_ok, h)
     \<and> cfs_binheap_remove (<) 5 h = Some h' \<and> cbh_bag h' = {#}"
proof -
  have "cbh_nelements cbh_new \<noteq> CBH_MAX" by (simp add: cbh_new_def cbh_max_eq)
  then obtain h where h: "cfs_binheap_insert (<) (\<lambda>_. True) (\<lambda>_. True) (5 :: nat) cbh_new = Some (Rc_ok, h)"
    "cbh_ok id h" "cbh_bag h = {#5#}"
    using insert_cases [OF ranked_nat cbh_ok_new(1), of 5 "\<lambda>_. True" "\<lambda>_. True"]
    by (auto simp: cbh_ok_new)
  then show ?thesis using binheap_remove_exact [OF ranked_nat h(2), of 5] by auto
qed

text \<open>C30 The root of a heap that is not empty is an element of least rank,
  and removing the root serves it.\<close>

theorem binheap_root_serves_least:
  assumes "ranked lt k" "cbh_ok k h" "\<not> cfs_binheap_is_empty h"
  shows "\<exists>e h'. cfs_binheap_root h = Some e \<and> cfs_binheap_remove_root lt h = Some (Some e, h')
    \<and> cbh_ok k h' \<and> cbh_bag h = add_mset e (cbh_bag h') \<and> (\<forall>x\<in>#cbh_bag h. k e \<le> k x)"
proof -
  obtain e where e: "cfs_binheap_root h = Some e" "e \<in># cbh_bag h" "\<forall>x\<in>#cbh_bag h. k e \<le> k x"
    using root_least [OF assms(2)] assms(3) by (auto simp: cfs_binheap_is_empty_def)
  obtain h' where "cfs_binheap_remove lt e h = Some h'" "cbh_ok k h'" "add_mset e (cbh_bag h') = cbh_bag h"
    using remove_cases [OF assms(1,2) e(2)] by blast
  then show ?thesis using e by (auto simp: cfs_binheap_remove_root_def cfs_binheap_root_def)
qed

theorem binheap_root_serves_least_witness:
  "\<exists>h. cbh_bag h = {#5 :: nat#} \<and> cfs_binheap_root h = Some 5"
proof -
  have "cbh_nelements cbh_new \<noteq> CBH_MAX" by (simp add: cbh_new_def cbh_max_eq)
  then obtain h where h: "cbh_ok id h" "cbh_bag h = {#5 :: nat#}"
    using insert_cases [OF ranked_nat cbh_ok_new(1), of 5 "\<lambda>_. True" "\<lambda>_. True"]
    by (auto simp: cbh_ok_new)
  have "\<not> cfs_binheap_is_empty h"
  proof
    assume "cfs_binheap_is_empty h"
    then have "cbh_bag h = {#}" by (simp add: cfs_binheap_is_empty_def cbh_bag_def)
    then show False using h(2) by simp
  qed
  from binheap_root_serves_least [OF ranked_nat h(1) this] h(2) show ?thesis
    by (metis add_mset_eq_single)
qed

text \<open>C31 Memory safety of the three level table: below the high water mark
  every index addresses an allocated fragment and no two indices share a cell;
  growing keeps this, and a failed growth leaves the heap as it was.\<close>

theorem binheap_memory_safe:
  assumes "cbh_mem_ok h"
  shows "(\<forall>i. i < cbh_hwm h \<longrightarrow> cbh_allocated h (cfs_binheap_pointer i))
    \<and> inj cfs_binheap_pointer
    \<and> (\<exists>rc h'. cfs_binheap_grow mem h = Some (rc, h') \<and> cbh_mem_ok h'
      \<and> (rc = Rc_ok \<and> cbh_hwm h' = cbh_hwm h + CBH_SIZE \<and> cbh_slot h' = cbh_slot h \<or> rc = Rc_nomem \<and> h' = h))"
proof (intro conjI allI impI)
  show "cbh_allocated h (cfs_binheap_pointer i)" if "i < cbh_hwm h" for i
    using mem_ok_allocated [OF assms that] .
  show "inj cfs_binheap_pointer" by (rule injI) simp
  show "\<exists>rc h'. cfs_binheap_grow mem h = Some (rc, h') \<and> cbh_mem_ok h'
      \<and> (rc = Rc_ok \<and> cbh_hwm h' = cbh_hwm h + CBH_SIZE \<and> cbh_slot h' = cbh_slot h \<or> rc = Rc_nomem \<and> h' = h)"
    using grow_cases [OF assms, of mem] assms by (auto simp: grown_def)
qed

theorem binheap_memory_safe_witness:
  "\<exists>rc h'. cfs_binheap_grow (\<lambda>_. False) (cbh_new :: nat cfs_binheap) = Some (rc, h') \<and> cbh_mem_ok h'"
  using binheap_memory_safe [OF mem_ok_new, of "\<lambda>_. False"] by blast

end
