(* ===== verification/NrsBinHeap.thy ===== *)
theory NrsBinHeap
  imports HeapCore SchedIf
begin

text \<open>
  The binary heap scheduler of src/lustre/nrsbinheap.cpp: a binary heap whose
  members live in an auto-growing three level array.  It is one of the two
  run queues of the event loop.  \<open>None\<close> is a NULL dereference or a failing
  LASSERT.
\<close>

section \<open>The auto-growing array\<close>

definition CAA_SHIFT :: nat where "CAA_SHIFT = 10"
definition CAA_SIZE :: nat where "CAA_SIZE = 2 ^ CAA_SHIFT"
definition CAA_MASK :: nat where "CAA_MASK = CAA_SIZE - 1"

text \<open>The number of cells of the three levels.  An index is an unsigned int;
  the loops below compute with those of cells only, so that twice an index plus
  two does not wrap and naturals stand for them.\<close>

definition CAA_CELLS :: nat where "CAA_CELLS = CAA_SIZE + CAA_SIZE * CAA_SIZE + CAA_SIZE * CAA_SIZE * CAA_SIZE"

text \<open>The pointer tables that can be allocated.\<close>

datatype aa_table = Aa_1d | Aa_2d | Aa_2d_at nat | Aa_3d | Aa_3d_at nat | Aa_3d_at2 nat nat

record 'e nrs_binheap = scheduler_base +
  aa_tables :: "aa_table \<Rightarrow> bool"
  aa_cells :: "cell_addr \<Rightarrow> 'e option"
  nbh_size :: u32
  nbh_maxsize :: u32

definition NrsBinheap_new :: "'e nrs_binheap" where
  "NrsBinheap_new = \<lparr>sch_size = 0, sch_throttling = False, aa_tables = (\<lambda>_. False),
     aa_cells = (\<lambda>_. None), nbh_size = 0, nbh_maxsize = 0\<rparr>"

text \<open>\<open>None\<close> is an access outside the table aa_3d.\<close>

definition cfs_aa_index :: "nat \<Rightarrow> cell_addr option" where
  "cfs_aa_index idx =
     (if idx < CAA_SIZE then Some (Elem1 idx)
      else let idx = idx - CAA_SIZE; idx0 = drop_bit CAA_SHIFT idx in
        if idx0 < CAA_SIZE then Some (Elem2 idx0 (idx AND CAA_MASK))
        else let idx = idx - CAA_SIZE * CAA_SIZE; idx0 = drop_bit CAA_SHIFT idx;
                 idx1 = drop_bit CAA_SHIFT idx0 in
          if idx1 < CAA_SIZE then Some (Elem3 idx1 (idx0 AND CAA_MASK) (idx AND CAA_MASK)) else None)"

text \<open>Reading and writing the cell of an index.\<close>

definition aa_get :: "(cell_addr \<Rightarrow> 'e option) \<Rightarrow> nat \<Rightarrow> 'e option" where
  "aa_get m idx = Option.bind (cfs_aa_index idx) m"

definition aa_put :: "(cell_addr \<Rightarrow> 'e option) \<Rightarrow> nat \<Rightarrow> 'e \<Rightarrow> (cell_addr \<Rightarrow> 'e option) option" where
  "aa_put m idx e = map_option (\<lambda>ad. m(ad := Some e)) (cfs_aa_index idx)"

text \<open>\<open>mem t\<close>: the allocation of table \<open>t\<close> would succeed.  The
  function returns whether the table is there, and the tables.\<close>

definition cfs_aa_lookup1 :: "(aa_table \<Rightarrow> bool) \<Rightarrow> bool \<Rightarrow> aa_table \<Rightarrow> (aa_table \<Rightarrow> bool) \<Rightarrow> bool \<times> (aa_table \<Rightarrow> bool)" where
  "cfs_aa_lookup1 mem grow t tabs =
     (if tabs t then (True, tabs)
      else if \<not> grow then (False, tabs)
      else if \<not> mem t then (False, tabs)
      else (True, tabs(t := True)))"

fun aa_lookup_all :: "(aa_table \<Rightarrow> bool) \<Rightarrow> bool \<Rightarrow> aa_table list \<Rightarrow> (aa_table \<Rightarrow> bool) \<Rightarrow> bool \<times> (aa_table \<Rightarrow> bool)" where
  "aa_lookup_all mem grow [] tabs = (True, tabs)"
| "aa_lookup_all mem grow (t # ts) tabs =
     (case cfs_aa_lookup1 mem grow t tabs of
        (False, tabs') \<Rightarrow> (False, tabs')
      | (True, tabs') \<Rightarrow> aa_lookup_all mem grow ts tabs')"

text \<open>The result \<open>None\<close> is an access outside aa_3d; inside it, \<open>None\<close> is NULL.\<close>

definition cfs_aa_lookup :: "(aa_table \<Rightarrow> bool) \<Rightarrow> nat \<Rightarrow> bool \<Rightarrow> (aa_table \<Rightarrow> bool) \<Rightarrow>
    (cell_addr option \<times> (aa_table \<Rightarrow> bool)) option" where
  "cfs_aa_lookup mem idx grow tabs =
     (let try = (\<lambda>ts ad. Some (case aa_lookup_all mem grow ts tabs of
                   (False, tabs') \<Rightarrow> (None, tabs') | (True, tabs') \<Rightarrow> (Some ad, tabs'))) in
      if idx < CAA_SIZE then try [Aa_1d] (Elem1 idx)
      else let idx = idx - CAA_SIZE; idx0 = drop_bit CAA_SHIFT idx in
        if idx0 < CAA_SIZE then try [Aa_2d, Aa_2d_at idx0] (Elem2 idx0 (idx AND CAA_MASK))
        else let idx = idx - CAA_SIZE * CAA_SIZE; idx0 = drop_bit CAA_SHIFT idx;
                 idx1 = drop_bit CAA_SHIFT idx0; idx0 = idx0 AND CAA_MASK in
          if idx1 < CAA_SIZE \<or> \<not> fst (cfs_aa_lookup1 mem grow Aa_3d tabs)
          then try [Aa_3d, Aa_3d_at idx1, Aa_3d_at2 idx1 idx0] (Elem3 idx1 idx0 (idx AND CAA_MASK))
          else None)"

section \<open>The heap operations\<close>

function nbh_up :: "('e \<Rightarrow> 'e \<Rightarrow> bool) \<Rightarrow> 'e \<Rightarrow> nat \<Rightarrow> (cell_addr \<Rightarrow> 'e option) \<Rightarrow> (cell_addr \<Rightarrow> 'e option) option" where
  "nbh_up compare e child_idx m =
     (if child_idx = 0 then aa_put m child_idx e
      else let parent_idx = drop_bit 1 (child_idx - 1) in
        (case aa_get m parent_idx of
          None \<Rightarrow> None
        | Some p \<Rightarrow>
            (if compare p e then aa_put m child_idx e
             else (case aa_put m child_idx p of None \<Rightarrow> None | Some m' \<Rightarrow> nbh_up compare e parent_idx m'))))"
  by pat_completeness auto
termination
  by (relation "measure (\<lambda>(_, _, i, _). i)") (auto simp: drop_bit_nat_def)

declare nbh_up.simps [simp del]

datatype nbh_rc = Nbh_ok | Nbh_nomem

definition cfs_bheap_insert :: "('e \<Rightarrow> 'e \<Rightarrow> bool) \<Rightarrow> (aa_table \<Rightarrow> bool) \<Rightarrow> 'e \<Rightarrow> 'e nrs_binheap \<Rightarrow> (nbh_rc \<times> 'e nrs_binheap) option" where
  "cfs_bheap_insert compare mem e s =
     (let child_idx = nbh_size s in
      if nbh_maxsize s < child_idx then None
      else let s1 = s\<lparr>nbh_size := child_idx + 1\<rparr> in
      case (if child_idx < nbh_maxsize s then map_option (\<lambda>ad. (Some ad, aa_tables s1)) (cfs_aa_index (unat child_idx))
            else cfs_aa_lookup mem (unat child_idx) True (aa_tables s1)) of
        None \<Rightarrow> None
      | Some (None, tabs) \<Rightarrow> Some (Nbh_nomem, s1\<lparr>aa_tables := tabs\<rparr>)
      | Some (Some _, tabs) \<Rightarrow>
          let s2 = s1\<lparr>aa_tables := tabs,
                nbh_maxsize := (if child_idx < nbh_maxsize s then nbh_maxsize s1 else nbh_size s1)\<rparr> in
          map_option (\<lambda>m. (Nbh_ok, s2\<lparr>aa_cells := m\<rparr>)) (nbh_up compare e (unat child_idx) (aa_cells s2)))"

function nbh_down :: "('e \<Rightarrow> 'e \<Rightarrow> bool) \<Rightarrow> nat \<Rightarrow> 'e \<Rightarrow> nat \<Rightarrow> (cell_addr \<Rightarrow> 'e option) \<Rightarrow> (cell_addr \<Rightarrow> 'e option) option" where
  "nbh_down compare n e parent_idx m =
     (if n \<le> parent_idx then aa_put m parent_idx e
      else let child_idx = push_bit 1 parent_idx + 1 in
      if n \<le> child_idx then aa_put m parent_idx e
      else (case aa_get m child_idx of
        None \<Rightarrow> None
      | Some child \<Rightarrow>
          (let child2_idx = child_idx + 1 in
           case (if child2_idx < n then aa_get m child2_idx else Some child) of
             None \<Rightarrow> None
           | Some child2 \<Rightarrow>
               (let (child_idx, child) =
                  (if child2_idx < n \<and> compare child2 child then (child2_idx, child2)
                   else (child_idx, child)) in
                if compare e child then aa_put m parent_idx e
                else (case aa_put m parent_idx child of None \<Rightarrow> None | Some m' \<Rightarrow> nbh_down compare n e child_idx m')))))"
  by pat_completeness auto
termination
  by (relation "measure (\<lambda>(_, n, _, i, _). n - i)")
     (auto simp: push_bit_eq_mult split: if_splits)

declare nbh_down.simps [simp del]

definition cfs_bheap_remove_root :: "('e \<Rightarrow> 'e \<Rightarrow> bool) \<Rightarrow> 'e nrs_binheap \<Rightarrow> ('e option \<times> 'e nrs_binheap) option" where
  "cfs_bheap_remove_root compare s =
     (let n = nbh_size s in
      if n = 0 then Some (None, s)
      else case (aa_get (aa_cells s) 0, aa_get (aa_cells s) (unat (n - 1))) of
        (Some r, Some e) \<Rightarrow>
          map_option (\<lambda>m. (Some r, s\<lparr>nbh_size := n - 1, aa_cells := m\<rparr>))
            (nbh_down compare (unat (n - 1)) e 0 (aa_cells s))
      | _ \<Rightarrow> None)"

section \<open>The scheduler operations\<close>

definition NrsBinheap_Enqueue :: "('e \<Rightarrow> 'e \<Rightarrow> bool) \<Rightarrow> (aa_table \<Rightarrow> bool) \<Rightarrow> 'e \<Rightarrow> 'e nrs_binheap \<Rightarrow> (nbh_rc \<times> 'e nrs_binheap) option" where
  "NrsBinheap_Enqueue compare mem e s =
     cfs_bheap_insert compare mem e (s\<lparr>sch_size := sch_size s + 1\<rparr>)"

definition NrsBinheap_Requeue :: "('e \<Rightarrow> 'e \<Rightarrow> bool) \<Rightarrow> (aa_table \<Rightarrow> bool) \<Rightarrow> 'e \<Rightarrow> 'e nrs_binheap \<Rightarrow> (nbh_rc \<times> 'e nrs_binheap) option" where
  "NrsBinheap_Requeue compare mem e s =
     cfs_bheap_insert compare mem e (s\<lparr>sch_size := sch_size s + 1\<rparr>)"

definition NrsBinheap_Dequeue :: "('e \<Rightarrow> 'e \<Rightarrow> bool) \<Rightarrow> 'e nrs_binheap \<Rightarrow> ('e option \<times> 'e nrs_binheap) option" where
  "NrsBinheap_Dequeue compare s =
     (if sch_size s = 0 then Some (None, s)
      else cfs_bheap_remove_root compare (s\<lparr>sch_size := sch_size s - 1\<rparr>))"

text \<open>Erase has an empty body.\<close>

definition NrsBinheap_Erase :: "'e \<Rightarrow> 'e nrs_binheap \<Rightarrow> 'e nrs_binheap" where
  "NrsBinheap_Erase e s = s"

section \<open>Simulation of the reference loops\<close>

lemma and_caa_mask [heap_simps]: "i AND CAA_MASK = i mod CAA_SIZE"
  unfolding CAA_MASK_def CAA_SIZE_def
  by (metis take_bit_eq_mask mask_eq_exp_minus_1 take_bit_eq_mod)

lemma drop_caa_shift [heap_simps]: "drop_bit CAA_SHIFT i = i div CAA_SIZE"
  by (simp add: CAA_SIZE_def drop_bit_eq_div)

lemma caa_size_eq: "CAA_SIZE = 1024"
  by (simp add: CAA_SIZE_def CAA_SHIFT_def)

abbreviation "adr \<equiv> addr3 CAA_SIZE"

lemma caa_cells: "CAA_CELLS = 1074791424"
  by (simp add: CAA_CELLS_def caa_size_eq)

lemma aa_index_adr [simp]: "i < CAA_CELLS \<Longrightarrow> cfs_aa_index i = Some (adr i)"
proof -
  have "j div CAA_SIZE < CAA_SIZE \<longleftrightarrow> j < CAA_SIZE * CAA_SIZE" for j
    by (simp add: div_less_iff_less_mult caa_size_eq)
  moreover have "j div CAA_SIZE div CAA_SIZE < CAA_SIZE \<longleftrightarrow> j < CAA_SIZE * CAA_SIZE * CAA_SIZE" for j
    by (simp add: div_less_iff_less_mult caa_size_eq)
  ultimately show "i < CAA_CELLS \<Longrightarrow> cfs_aa_index i = Some (adr i)"
    by (simp add: cfs_aa_index_def addr3_def heap_simps Let_def div_mult2_eq CAA_CELLS_def) linarith
qed

text \<open>Past the last cell there is no address.\<close>

lemma aa_index_end: "CAA_CELLS \<le> i \<Longrightarrow> cfs_aa_index i = None"
  by (simp add: cfs_aa_index_def heap_simps Let_def caa_size_eq caa_cells div_less_iff_less_mult) linarith

lemma aa_get_put:
  assumes "i < CAA_CELLS"
  shows "aa_get m i = m (adr i)" "aa_put m i e = Some (m(adr i := Some e))"
  using assms by (simp_all add: aa_get_def aa_put_def)

definition aa_hole :: "nat \<Rightarrow> (nat \<Rightarrow> 'e) \<Rightarrow> nat \<Rightarrow> (cell_addr \<Rightarrow> 'e option) \<Rightarrow> bool" where
  "aa_hole n a i m \<longleftrightarrow> n \<le> CAA_CELLS \<and> i < n \<and> (\<forall>j<n. j \<noteq> i \<longrightarrow> m (adr j) = Some (a j))"

definition aa_view :: "nat \<Rightarrow> (nat \<Rightarrow> 'e) \<Rightarrow> (cell_addr \<Rightarrow> 'e option) \<Rightarrow> bool" where
  "aa_view n a m \<longleftrightarrow> n \<le> CAA_CELLS \<and> (\<forall>j<n. m (adr j) = Some (a j))"

lemma aa_hole_move:
  "aa_hole n a i m \<Longrightarrow> j < n \<Longrightarrow> j \<noteq> i \<Longrightarrow> aa_hole n (a(i := a j)) j (m(adr i := Some (a j)))"
  by (auto simp: aa_hole_def)

lemma aa_hole_fill:
  "aa_hole n a i m \<Longrightarrow> aa_view n (a(i := e)) (m(adr i := Some e))"
  by (auto simp: aa_hole_def aa_view_def)

lemma nbh_up_unfold:
  assumes "aa_hole n a i m"
  shows "nbh_up lt e i m =
    (if i = 0 \<or> lt (a (par i)) e then Some (m(adr i := Some e))
     else nbh_up lt e (par i) (m(adr i := Some (a (par i)))))"
proof (cases "i = 0")
  case False
  then have "par i < n" "par i \<noteq> i" "drop_bit 1 (i - 1) = par i"
    using assms by (auto simp: aa_hole_def par_def drop_bit_eq_div intro: less_trans [OF par_less])
  moreover from this have "i < CAA_CELLS" "par i < CAA_CELLS" using assms by (auto simp: aa_hole_def)
  ultimately show ?thesis
    using assms False by (subst nbh_up.simps) (simp add: aa_hole_def Let_def aa_get_put)
next
  case True
  then show ?thesis using assms by (subst nbh_up.simps) (simp add: aa_hole_def aa_get_put)
qed

lemma nbh_up_sim:
  "aa_hole n a i m \<Longrightarrow> \<exists>m'. nbh_up lt e i m = Some m' \<and> aa_view n (fst (sift_up lt e i a)) m'"
proof (induction lt e i a arbitrary: m rule: sift_up.induct)
  case (1 lt e i a)
  show ?case
  proof (cases "i = 0 \<or> lt (a (par i)) e")
    case True
    then show ?thesis using nbh_up_unfold [OF 1(2)] aa_hole_fill [OF 1(2)]
      by (simp del: fun_upd_apply add: sift_up_stop [of i lt a e, OF True])
  next
    case False
    have "0 < i" using False by simp
    then have "par i < n" "par i \<noteq> i"
      using 1(2) less_trans [OF par_less] less_imp_neq [OF par_less] by (auto simp: aa_hole_def)
    then have "aa_hole n (a(i := a (par i))) (par i) (m(adr i := Some (a (par i))))"
      by (rule aa_hole_move [OF 1(2)])
    from 1(1) [OF False this] show ?thesis
      using nbh_up_unfold [OF 1(2), of lt e] False by (simp del: fun_upd_apply add: sift_up_step [of i lt a e, OF False])
  qed
qed

lemma nbh_down_unfold:
  assumes "aa_hole n a i m"
  shows "nbh_down lt n e i m =
    (if 2 * i + 1 < n \<and> \<not> lt e (a (min_child lt n i a))
     then nbh_down lt n e (min_child lt n i a) (m(adr i := Some (a (min_child lt n i a))))
     else Some (m(adr i := Some e)))"
proof (cases "2 * i + 1 < n")
  case True
  have m: "aa_get m j = Some (a j)" if "j < n" "j \<noteq> i" for j
    using assms(1) that by (simp add: aa_hole_def aa_get_put)
  have p: "aa_put m i x = Some (m(adr i := Some x))" for x
    using assms by (intro aa_get_put(2)) (simp add: aa_hole_def)
  have 1: "i * 2 = 2 * i" by simp
  note c1 = m [OF True]
  show ?thesis
  proof (cases "2 * i + 2 < n \<and> lt (a (2 * i + 2)) (a (2 * i + 1))")
    case True
    then show ?thesis using m [of "2 * i + 2"] c1 \<open>2 * i + 1 < n\<close>
      by (subst nbh_down.simps) (simp add: 1 p min_child_def Let_def)
  next
    case False
    then have mc: "min_child lt n i a = 2 * i + 1" by (simp add: min_child_def)
    show ?thesis using False m [of "2 * i + 2"] c1 \<open>2 * i + 1 < n\<close>
      by (cases "2 * i + 2 < n"; subst nbh_down.simps) (simp_all add: 1 p mc Let_def)
  qed
next
  case False
  then show ?thesis using assms by (subst nbh_down.simps) (simp add: push_bit_eq_mult Let_def aa_hole_def aa_get_put)
qed

lemma nbh_down_sim:
  "aa_hole n a i m \<Longrightarrow> \<exists>m'. nbh_down lt n e i m = Some m' \<and> aa_view n (fst (sift_down lt n e i a)) m'"
proof (induction lt n e i a arbitrary: m rule: sift_down.induct)
  case (1 lt n e i a)
  let ?m = "min_child lt n i a"
  show ?case
  proof (cases "2 * i + 1 < n \<and> \<not> lt e (a ?m)")
    case True
    have "?m < n" "?m \<noteq> i"
      using True min_child_less [of i n lt a] min_child_gt [of i lt n a] by (blast, metis less_irrefl)
    then have "aa_hole n (a(i := a ?m)) ?m (m(adr i := Some (a ?m)))"
      by (rule aa_hole_move [OF 1(2)])
    from 1(1) [OF True this] show ?thesis
      using nbh_down_unfold [OF 1(2), of lt e] True
      by (simp del: fun_upd_apply add: sift_down_step [of i n lt e a, OF True])
  next
    case False
    have "nbh_down lt n e i m = Some (m(adr i := Some e))"
      unfolding nbh_down_unfold [OF 1(2), of lt e] using False by (rule if_not_P)
    then show ?thesis using aa_hole_fill [OF 1(2)]
      by (simp del: fun_upd_apply add: sift_down_stop [of i n lt e a, OF False])
  qed
qed

section \<open>Invariant\<close>

definition nbh_arr :: "'e nrs_binheap \<Rightarrow> nat \<Rightarrow> 'e" where
  "nbh_arr s i = the (aa_cells s (adr i))"

definition nbh_bag :: "'e nrs_binheap \<Rightarrow> 'e multiset" where
  "nbh_bag s = mset (cells (unat (nbh_size s)) (nbh_arr s))"

definition nbh_ok :: "('e \<Rightarrow> 'k::linorder) \<Rightarrow> 'e nrs_binheap \<Rightarrow> bool" where
  "nbh_ok k s \<longleftrightarrow> sch_size s = of_nat (unat (nbh_size s)) \<and> nbh_size s \<le> nbh_maxsize s \<and> unat (nbh_maxsize s) \<le> CAA_CELLS
     \<and> aa_view (unat (nbh_size s)) (nbh_arr s) (aa_cells s) \<and> heap_upto k (unat (nbh_size s)) (nbh_arr s)"

lemma nbh_ok_new: "nbh_ok k NrsBinheap_new" "nbh_bag NrsBinheap_new = {#}"
  by (simp_all add: nbh_ok_def NrsBinheap_new_def aa_view_def heap_upto_def nbh_bag_def)

lemma aa_view_facts:
  assumes "aa_view n a m"
  shows "aa_cells s = m \<Longrightarrow> j < n \<Longrightarrow> nbh_arr s j = a j"
  using assms by (simp add: aa_view_def nbh_arr_def)

lemma nbh_okI:
  assumes "aa_view n a (aa_cells s)" "unat (nbh_size s) = n" "heap_upto k n a" "n \<le> unat (nbh_maxsize s)"
    "sch_size s = of_nat n" "unat (nbh_maxsize s) \<le> CAA_CELLS"
  shows "nbh_ok k s" "nbh_bag s = mset (cells n a)"
proof -
  have eq: "nbh_arr s j = a j" if "j < n" for j using aa_view_facts [OF assms(1) refl that] .
  have "heap_upto k n (nbh_arr s)" using assms(3) heap_upto_cong [of n a "nbh_arr s" k] eq by simp
  then show "nbh_ok k s" using assms eq by (auto simp: nbh_ok_def aa_view_def word_le_nat_alt)
  have "cells n (nbh_arr s) = cells n a" using eq by (intro cells_cong)
  then show "nbh_bag s = mset (cells n a)" unfolding nbh_bag_def assms(2) by (rule arg_cong)
qed

lemma aa_lookup_some:
  assumes "\<forall>t. mem t" "i < CAA_CELLS"
  shows "\<exists>ad tabs'. cfs_aa_lookup mem i True tabs = Some (Some ad, tabs')"
proof -
  have T: "fst (aa_lookup_all mem True ts tabs)" for ts tabs
    using assms(1) by (induction ts arbitrary: tabs) (auto simp: cfs_aa_lookup1_def)
  have U: "\<exists>ad' tabs'. (case aa_lookup_all mem True ts tabs of
      (True, t) \<Rightarrow> (Some ad, t) | (False, t) \<Rightarrow> (None, t)) = (Some ad', tabs')" for ts ad
  proof -
    obtain t where "aa_lookup_all mem True ts tabs = (True, t)"
      using T [of ts tabs] by (cases "aa_lookup_all mem True ts tabs") auto
    then show ?thesis by simp
  qed
  have "drop_bit CAA_SHIFT (drop_bit CAA_SHIFT (i - CAA_SIZE - CAA_SIZE * CAA_SIZE)) < CAA_SIZE"
    using assms(2) by (simp add: heap_simps caa_size_eq caa_cells div_less_iff_less_mult)
  then show ?thesis
    unfolding cfs_aa_lookup_def Let_def
    by (cases "i < CAA_SIZE"; cases "drop_bit CAA_SHIFT (i - CAA_SIZE) < CAA_SIZE")
      (simp_all only: if_True if_False option.inject U simp_thms)
qed

lemma nbh_enqueue:
  assumes "ranked lt k" "nbh_ok k s" "unat (nbh_size s) < CAA_CELLS" "\<forall>t. mem t"
  shows "\<exists>s'. NrsBinheap_Enqueue lt mem e s = Some (Nbh_ok, s') \<and> nbh_ok k s' \<and> nbh_bag s' = add_mset e (nbh_bag s)"
proof -
  let ?n = "unat (nbh_size s)" and ?a = "nbh_arr s"
  have ok: "aa_view ?n ?a (aa_cells s)" "heap_upto k ?n ?a" "nbh_size s \<le> nbh_maxsize s" "sch_size s = of_nat ?n"
      "unat (nbh_maxsize s) \<le> CAA_CELLS"
    using assms(2) by (simp_all add: nbh_ok_def)
  have u: "unat (nbh_size s + 1) = ?n + 1" using assms(3) by (simp add: unat_word_ariths caa_cells)
  have hole: "aa_hole (?n + 1) ?a ?n (aa_cells s)" using ok(1) assms(3) by (auto simp: aa_view_def aa_hole_def)
  obtain m' where m': "nbh_up lt e ?n (aa_cells s) = Some m'" "aa_view (?n + 1) (fst (sift_up lt e ?n ?a)) m'"
    using nbh_up_sim [OF hole] by blast
  have h: "heap_upto k (?n + 1) (fst (sift_up lt e ?n ?a))"
  proof (rule sift_up_heap [OF assms(1)])
    show "heap_hole k (?n + 1) ?a ?n" using heap_hole_end [OF ok(2)] by simp
    show "k e \<le> k (?a c)" if "c < ?n + 1" "0 < c" "par c = ?n" for c
      using that par_less [of c] by simp
  qed simp
  have b: "mset (cells (?n + 1) (fst (sift_up lt e ?n ?a))) = add_mset e (nbh_bag s)"
  proof -
    have "mset (cells (?n + 1) (fst (sift_up lt e ?n ?a))) = mset (cells (?n + 1) (?a(?n := e)))"
      by (rule sift_up_mset) simp
    also have "\<dots> = add_mset e (mset (cells ?n (?a(?n := e))))" by simp
    also have "cells ?n (?a(?n := e)) = cells ?n ?a" by (rule cells_cong) simp
    finally show ?thesis by (simp add: nbh_bag_def)
  qed
  obtain ad tabs where t: "(if nbh_size s < nbh_maxsize s then Some (Some (adr ?n), aa_tables s)
      else cfs_aa_lookup mem ?n True (aa_tables s)) = Some (Some ad, tabs)"
    using aa_lookup_some [OF assms(4,3), of "aa_tables s"] by (cases "nbh_size s < nbh_maxsize s") auto
  let ?s = "s\<lparr>sch_size := sch_size s + 1, nbh_size := nbh_size s + 1, aa_tables := tabs,
    nbh_maxsize := (if nbh_size s < nbh_maxsize s then nbh_maxsize s else nbh_size s + 1), aa_cells := m'\<rparr>"
  have "NrsBinheap_Enqueue lt mem e s = Some (Nbh_ok, ?s)"
  proof (cases "nbh_size s < nbh_maxsize s")
    case True
    then show ?thesis using t m'(1) assms(3)
      by (simp add: NrsBinheap_Enqueue_def cfs_bheap_insert_def Let_def)
  next
    case False
    then have "cfs_aa_lookup mem ?n True (aa_tables s) = Some (Some ad, tabs)" using t by simp
    then show ?thesis using False ok(3) m'(1)
      unfolding NrsBinheap_Enqueue_def cfs_bheap_insert_def Let_def by (simp del: not_less)
  qed
  moreover have "nbh_ok k ?s" "nbh_bag ?s = mset (cells (?n + 1) (fst (sift_up lt e ?n ?a)))"
  proof -
    have "aa_view (?n + 1) (fst (sift_up lt e ?n ?a)) (aa_cells ?s)" "unat (nbh_size ?s) = ?n + 1"
      "?n + 1 \<le> unat (nbh_maxsize ?s)" "sch_size ?s = of_nat (?n + 1)" "unat (nbh_maxsize ?s) \<le> CAA_CELLS"
      using m'(2) ok(3-5) assms(3) u by (simp_all add: word_less_nat_alt)
    from nbh_okI [OF this(1,2) h this(3-5)]
    show "nbh_ok k ?s" "nbh_bag ?s = mset (cells (?n + 1) (fst (sift_up lt e ?n ?a)))" .
  qed
  ultimately show ?thesis using b by (metis (no_types))
qed

lemma nbh_full:
  assumes "nbh_ok k s" "unat (nbh_size s) = CAA_CELLS" "\<forall>t. mem t"
  shows "NrsBinheap_Enqueue lt mem e s = None"
proof -
  have n: "\<not> nbh_size s < nbh_maxsize s" "\<not> nbh_maxsize s < nbh_size s"
    using assms(1,2) by (auto simp: nbh_ok_def word_less_nat_alt word_le_nat_alt)
  have "cfs_aa_lookup mem CAA_CELLS True tabs = None" for tabs
    using assms(3) by (simp add: cfs_aa_lookup_def Let_def heap_simps caa_size_eq caa_cells cfs_aa_lookup1_def)
  then show ?thesis using n assms(2) by (simp add: NrsBinheap_Enqueue_def cfs_bheap_insert_def Let_def)
qed

lemma nbh_dequeue:
  assumes "ranked lt k" "nbh_ok k s" "nbh_bag s \<noteq> {#}"
  shows "\<exists>r s'. NrsBinheap_Dequeue lt s = Some (Some r, s') \<and> nbh_ok k s' \<and> nbh_bag s = add_mset r (nbh_bag s')
     \<and> (\<forall>x\<in>#nbh_bag s. k r \<le> k x)"
proof -
  let ?n = "unat (nbh_size s)" and ?a = "nbh_arr s"
  have ok: "aa_view ?n ?a (aa_cells s)" "heap_upto k ?n ?a" "?n \<le> unat (nbh_maxsize s)"
    "sch_size s = of_nat ?n" "unat (nbh_maxsize s) \<le> CAA_CELLS"
    using assms(2) by (simp_all add: nbh_ok_def word_le_nat_alt)
  have "?n \<noteq> 0" using assms(3) by (auto simp: nbh_bag_def)
  then obtain m where m: "?n = Suc m" using not0_implies_Suc by blast
  have nz: "nbh_size s \<noteq> 0" using m by auto
  have u: "unat (nbh_size s - 1) = m" using m nz by (simp add: unat_minus_one)
  have mc: "m < CAA_CELLS" using ok(3,5) m by simp
  have c: "aa_get (aa_cells s) 0 = Some (?a 0)" "aa_get (aa_cells s) m = Some (?a m)"
    using ok(1) m mc by (simp_all add: aa_view_def aa_get_put)
  have least: "\<forall>x\<in>#nbh_bag s. k (?a 0) \<le> k x"
    using heap_root_least [OF ok(2)] by (auto simp: nbh_bag_def)
  have sz: "sch_size s \<noteq> 0" using ok(3-5) m of_nat_u64_eq_0 [of ?n] by (simp add: caa_cells)
  let ?r = "\<lambda>mm. s\<lparr>sch_size := sch_size s - 1, nbh_size := nbh_size s - 1, aa_cells := mm\<rparr>"
  have bag: "nbh_bag s = add_mset (?a m) (mset (cells m ?a))" by (simp add: nbh_bag_def m)
  show ?thesis
  proof (cases "m = 0")
    case True
    have "NrsBinheap_Dequeue lt s = Some (Some (?a 0), ?r ((aa_cells s)(adr 0 := Some (?a 0))))"
      using sz nz u True c(1) mc
      by (simp add: NrsBinheap_Dequeue_def cfs_bheap_remove_root_def nbh_down.simps aa_get_put)
    moreover have "nbh_ok k (?r mm)" "nbh_bag (?r mm) = {#}" for mm
      using nbh_okI [of 0 ?a "?r mm" k] ok(4,5) True m u by (simp_all add: aa_view_def heap_upto_def)
    ultimately show ?thesis using least bag True by auto
  next
    case False
    then have "aa_hole m ?a 0 (aa_cells s)" using ok(1) m by (simp add: aa_view_def aa_hole_def)
    then obtain mm where mm: "nbh_down lt m (?a m) 0 (aa_cells s) = Some mm"
      "aa_view m (fst (sift_down lt m (?a m) 0 ?a)) mm"
      using nbh_down_sim [of m ?a 0 "aa_cells s" lt "?a m"] by blast
    have "NrsBinheap_Dequeue lt s = Some (Some (?a 0), ?r mm)"
      using sz nz u c mm(1) by (simp add: NrsBinheap_Dequeue_def cfs_bheap_remove_root_def)
    moreover have hp: "heap_upto k m (fst (sift_down lt m (?a m) 0 ?a))"
      using False ok(2) m heap_upto_mono [of k ?n ?a m]
      by (intro sift_down_heap [OF assms(1)] heap_hole_of_heap) simp_all
    then have "nbh_ok k (?r mm)" "nbh_bag (?r mm) = mset (cells m (fst (sift_down lt m (?a m) 0 ?a)))"
    proof -
      have "aa_view m (fst (sift_down lt m (?a m) 0 ?a)) (aa_cells (?r mm))" "unat (nbh_size (?r mm)) = m"
        "m \<le> unat (nbh_maxsize (?r mm))" "sch_size (?r mm) = of_nat m" "unat (nbh_maxsize (?r mm)) \<le> CAA_CELLS"
        using mm(2) ok(3-5) m u by simp_all
      from nbh_okI [OF this(1,2) hp this(3-5)]
      show "nbh_ok k (?r mm)" "nbh_bag (?r mm) = mset (cells m (fst (sift_down lt m (?a m) 0 ?a)))" .
    qed
    moreover have "mset (cells m (fst (sift_down lt m (?a m) 0 ?a))) = add_mset (?a m) (mset (cells m ?a) - {#?a 0#})"
    proof -
      have "0 < m" using False by simp
      from sift_down_mset [OF this, of lt "?a m" ?a] mset_cells_upd [OF this, of ?a "?a m"]
      show ?thesis by (rule trans)
    qed
    moreover have "?a 0 \<in># mset (cells m ?a)" using False by (auto simp del: mset_map)
    ultimately show ?thesis using least bag by auto
  qed
qed

section \<open>Properties\<close>



text \<open>An enqueue whose table allocation fails returns -ENOMEM but leaves the
  size incremented, so that the very next insertion fails the assertion
  \<open>child_idx <= cbh_maxsize\<close>.\<close>

theorem nrsbinheap_enomem_breaks_size:
  "\<exists>s'. NrsBinheap_Enqueue lt (\<lambda>_. False) e NrsBinheap_new = Some (Nbh_nomem, s')
     \<and> nbh_size s' = 1 \<and> nbh_maxsize s' = 0 \<and> NrsBinheap_Enqueue lt mem e' s' = None"
  by (simp add: NrsBinheap_Enqueue_def cfs_bheap_insert_def NrsBinheap_new_def cfs_aa_lookup_def
      caa_size_eq cfs_aa_lookup1_def)

end
