(* ===== verification/RbTree.thy ===== *)
theory RbTree
  imports Prelude
begin

text \<open>
  The red-black tree of src/lustre/rbtree.cpp.  A tree is a datatype; a
  node of the code together with its chain of parents is a subtree with a
  path of frames, so that the loops of rb_insert_color and __rb_erase_color,
  which climb by rb_parent, are recursions over the path.  A NULL dereference
  is \<open>None\<close>.
\<close>

section \<open>Trees and parent chains\<close>

datatype color = Red | Black

datatype 'e rbt = Leaf | Node color "'e rbt" 'e "'e rbt"

text \<open>A frame is the parent of the node in focus: \<open>FL c x r\<close> when the
  node is its left child (\<open>r\<close> is the right one), \<open>FR c l x\<close> when it
  is its right child.\<close>

datatype 'e frame = FL color 'e "'e rbt" | FR color "'e rbt" 'e

type_synonym 'e path = "'e frame list"

fun plug :: "'e rbt \<Rightarrow> 'e frame \<Rightarrow> 'e rbt" where
  "plug t (FL c x r) = Node c t x r"
| "plug t (FR c l x) = Node c l x t"

text \<open>The whole tree, from a focus.\<close>

fun zip_up :: "'e rbt \<Rightarrow> 'e path \<Rightarrow> 'e rbt" where
  "zip_up t [] = t"
| "zip_up t (f # fs) = zip_up (plug t f) fs"

fun rb_is_red :: "'e rbt \<Rightarrow> bool" where
  "rb_is_red (Node Red _ _ _) = True"
| "rb_is_red _ = False"

text \<open>\<open>!node || rb_is_black(node)\<close>\<close>

definition nil_or_black :: "'e rbt \<Rightarrow> bool" where
  "nil_or_black t \<longleftrightarrow> \<not> rb_is_red t"

fun rb_set_color :: "color \<Rightarrow> 'e rbt \<Rightarrow> 'e rbt" where
  "rb_set_color c Leaf = Leaf"
| "rb_set_color c (Node _ l x r) = Node c l x r"

abbreviation "rb_set_black \<equiv> rb_set_color Black"
abbreviation "rb_set_red \<equiv> rb_set_color Red"

text \<open>The rotations, on the node rotated; they need the child they lift.\<close>

fun rb_rotate_left :: "'e rbt \<Rightarrow> 'e rbt option" where
  "rb_rotate_left (Node c a x (Node c' b y d)) = Some (Node c' (Node c a x b) y d)"
| "rb_rotate_left _ = None"

fun rb_rotate_right :: "'e rbt \<Rightarrow> 'e rbt option" where
  "rb_rotate_right (Node c (Node c' a x b) y d) = Some (Node c' a x (Node c b y d))"
| "rb_rotate_right _ = None"

section \<open>Insertion\<close>

text \<open>The walk of rb_insert: down to a NULL link, remembering the parents.\<close>

fun rb_walk :: "('e \<Rightarrow> 'e \<Rightarrow> int) \<Rightarrow> 'e \<Rightarrow> 'e rbt \<Rightarrow> 'e path \<Rightarrow> 'e path" where
  "rb_walk compare e Leaf p = p"
| "rb_walk compare e (Node c l x r) p =
     (if compare e x < 0 then rb_walk compare e l (FL c x r # p)
      else rb_walk compare e r (FR c l x # p))"

text \<open>The loop of rb_insert_color.  The focus is the (red) node; when the
  parent is red the grandparent is dereferenced.  After the rotations the
  loop test is repeated with a black parent and fails.\<close>

fun rb_insert_color :: "'e rbt \<Rightarrow> 'e path \<Rightarrow> ('e rbt \<times> 'e path) option" where
  "rb_insert_color node [] = Some (node, [])"
| "rb_insert_color node (FL Black x r # p) = Some (node, FL Black x r # p)"
| "rb_insert_color node (FR Black l x # p) = Some (node, FR Black l x # p)"
| "rb_insert_color node [FL Red x r] = None"
| "rb_insert_color node [FR Red l x] = None"
| "rb_insert_color node (FL Red x r # FL gc g uncle # p) =
     (if rb_is_red uncle
      then rb_insert_color (Node Red (Node Black node x r) g (rb_set_black uncle)) p
      else map_option (\<lambda>t. (t, p)) (rb_rotate_right (Node Red (Node Black node x r) g uncle)))"
| "rb_insert_color node (FR Red l x # FL gc g uncle # p) =
     (if rb_is_red uncle
      then rb_insert_color (Node Red (Node Black l x node) g (rb_set_black uncle)) p
      else Option.bind (rb_rotate_left (Node Red l x node)) (\<lambda>t.
           map_option (\<lambda>t. (t, p)) (rb_rotate_right (Node Red (rb_set_black t) g uncle))))"
| "rb_insert_color node (FR Red l x # FR gc uncle g # p) =
     (if rb_is_red uncle
      then rb_insert_color (Node Red (rb_set_black uncle) g (Node Black l x node)) p
      else map_option (\<lambda>t. (t, p)) (rb_rotate_left (Node Red uncle g (Node Black l x node))))"
| "rb_insert_color node (FL Red x r # FR gc uncle g # p) =
     (if rb_is_red uncle
      then rb_insert_color (Node Red (rb_set_black uncle) g (Node Black node x r)) p
      else Option.bind (rb_rotate_right (Node Red node x r)) (\<lambda>t.
           map_option (\<lambda>t. (t, p)) (rb_rotate_left (Node Red uncle g (rb_set_black t)))))"

record 'e rbtree =
  rb_root :: "'e rbt"
  rb_num :: int

definition Rbtree_new :: "'e rbtree" where
  "Rbtree_new = \<lparr>rb_root = Leaf, rb_num = 0\<rparr>"

definition rb_insert :: "('e \<Rightarrow> 'e \<Rightarrow> int) \<Rightarrow> 'e \<Rightarrow> 'e rbtree \<Rightarrow> 'e rbtree option" where
  "rb_insert compare e T =
     map_option (\<lambda>(t, p). T\<lparr>rb_root := rb_set_black (zip_up t p), rb_num := rb_num T + 1\<rparr>)
       (rb_insert_color (Node Red Leaf e Leaf) (rb_walk compare e (rb_root T) []))"

section \<open>Removal\<close>

text \<open>One round of __rb_erase_color with the focus the left child of
  \<open>x\<close>, whose other child is \<open>other\<close>; the boolean tells whether the
  sibling was already rotated to be black.  The right child case is the mirror
  image.  \<open>Inl t\<close>: the parent became the focus \<open>t\<close> and the loop goes
  on; \<open>Inr t\<close>: the subtree \<open>t\<close> is repaired and the loop breaks.\<close>

definition erase_left :: "'e rbt \<Rightarrow> color \<Rightarrow> 'e \<Rightarrow> 'e rbt \<Rightarrow> ('e rbt + 'e rbt) option" where
  "erase_left node c x other =
     (case other of
        Leaf \<Rightarrow> None
      | Node oc ol y ort \<Rightarrow>
          if nil_or_black ol \<and> nil_or_black ort
          then Some (Inl (Node c node x (Node Red ol y ort)))
          else
            (case (if nil_or_black ort
                   then rb_rotate_right (Node Red (rb_set_black ol) y ort)
                   else Some other) of
               None \<Rightarrow> None
             | Some other' \<Rightarrow>
                 (case rb_set_color c other' of
                    Leaf \<Rightarrow> None
                  | Node c' ol' y' ort' \<Rightarrow>
                      map_option Inr (rb_rotate_left (Node Black node x (Node c' ol' y' (rb_set_black ort')))))))"

definition erase_right :: "'e rbt \<Rightarrow> color \<Rightarrow> 'e \<Rightarrow> 'e rbt \<Rightarrow> ('e rbt + 'e rbt) option" where
  "erase_right other c x node =
     (case other of
        Leaf \<Rightarrow> None
      | Node oc ol y ort \<Rightarrow>
          if nil_or_black ol \<and> nil_or_black ort
          then Some (Inl (Node c (Node Red ol y ort) x node))
          else
            (case (if nil_or_black ol
                   then rb_rotate_left (Node Red ol y (rb_set_black ort))
                   else Some other) of
               None \<Rightarrow> None
             | Some other' \<Rightarrow>
                 (case rb_set_color c other' of
                    Leaf \<Rightarrow> None
                  | Node c' ol' y' ort' \<Rightarrow>
                      map_option Inr (rb_rotate_right (Node Black (Node c' (rb_set_black ol') y' ort') x node)))))"

text \<open>The loop.  A red sibling is first rotated above the parent, which puts
  one more frame under the rest of the path.\<close>

fun rb_erase_color :: "'e rbt \<Rightarrow> 'e path \<Rightarrow> 'e rbt option" where
  "rb_erase_color node [] = Some (rb_set_black node)"
| "rb_erase_color node (FL c x other # p) =
     (if rb_is_red node then Some (zip_up (rb_set_black node) (FL c x other # p))
      else case other of
        Leaf \<Rightarrow> None
      | Node Red ol y ort \<Rightarrow>
          (case erase_left node Red x ol of
             None \<Rightarrow> None
           | Some (Inl t) \<Rightarrow> Some (zip_up (rb_set_black t) (FL Black y ort # p))
           | Some (Inr t) \<Rightarrow> Some (rb_set_black (zip_up t (FL Black y ort # p))))
      | Node Black ol y ort \<Rightarrow>
          (case erase_left node c x other of
             None \<Rightarrow> None
           | Some (Inl t) \<Rightarrow> rb_erase_color t p
           | Some (Inr t) \<Rightarrow> Some (rb_set_black (zip_up t p))))"
| "rb_erase_color node (FR c other x # p) =
     (if rb_is_red node then Some (zip_up (rb_set_black node) (FR c other x # p))
      else case other of
        Leaf \<Rightarrow> None
      | Node Red ol y ort \<Rightarrow>
          (case erase_right ort Red x node of
             None \<Rightarrow> None
           | Some (Inl t) \<Rightarrow> Some (zip_up (rb_set_black t) (FR Black ol y # p))
           | Some (Inr t) \<Rightarrow> Some (rb_set_black (zip_up t (FR Black ol y # p))))
      | Node Black ol y ort \<Rightarrow>
          (case erase_right other c x node of
             None \<Rightarrow> None
           | Some (Inl t) \<Rightarrow> rb_erase_color t p
           | Some (Inr t) \<Rightarrow> Some (rb_set_black (zip_up t p))))"

text \<open>The leftmost node of a subtree: its colour, entry and right child,
  and the frames above it.\<close>

fun leftmost :: "color \<Rightarrow> 'e rbt \<Rightarrow> 'e \<Rightarrow> 'e rbt \<Rightarrow> 'e path \<Rightarrow> color \<times> 'e \<times> 'e rbt \<times> 'e path" where
  "leftmost c Leaf x r p = (c, x, r, p)"
| "leftmost c (Node c' l' x' r') x r p = leftmost c' l' x' r' (FL c x r # p)"

text \<open>rb_erase, at a node given by its subtree and parent chain.\<close>

definition rb_erase_at :: "color \<Rightarrow> 'e rbt \<Rightarrow> 'e \<Rightarrow> 'e rbt \<Rightarrow> 'e path \<Rightarrow> 'e rbt option" where
  "rb_erase_at c l x r p =
     (let (color, child, path) =
        (if l = Leaf then (c, r, p)
         else (case r of
            Leaf \<Rightarrow> (c, l, p)
          | Node rc rl rx rr \<Rightarrow>
              (let (c', y, child, q) = leftmost rc rl rx rr [] in (c', child, q @ FR c l y # p)))) in
      if color = Black then rb_erase_color child path else Some (zip_up child path))"

text \<open>Finding the node of an entry.  In the code the node is at hand (its
  address is stored in the entry).\<close>

fun rb_locate :: "'e \<Rightarrow> 'e rbt \<Rightarrow> 'e path \<Rightarrow> (color \<times> 'e rbt \<times> 'e \<times> 'e rbt \<times> 'e path) option" where
  "rb_locate e Leaf p = None"
| "rb_locate e (Node c l x r) p =
     (if x = e then Some (c, l, x, r, p)
      else case rb_locate e l (FL c x r # p) of
        Some res \<Rightarrow> Some res
      | None \<Rightarrow> rb_locate e r (FR c l x # p))"

definition rb_erase :: "'e \<Rightarrow> 'e rbtree \<Rightarrow> 'e rbtree option" where
  "rb_erase e T =
     (case rb_locate e (rb_root T) [] of
        None \<Rightarrow> None
      | Some (c, l, x, r, p) \<Rightarrow>
          map_option (\<lambda>t. T\<lparr>rb_root := t, rb_num := rb_num T - 1\<rparr>) (rb_erase_at c l x r p))"

section \<open>Traversal\<close>

fun rb_first_of :: "'e rbt \<Rightarrow> 'e option" where
  "rb_first_of Leaf = None"
| "rb_first_of (Node c Leaf x r) = Some x"
| "rb_first_of (Node c (Node c' l' x' r') x r) = rb_first_of (Node c' l' x' r')"

fun rb_last_of :: "'e rbt \<Rightarrow> 'e option" where
  "rb_last_of Leaf = None"
| "rb_last_of (Node c l x Leaf) = Some x"
| "rb_last_of (Node c l x (Node c' l' x' r')) = rb_last_of (Node c' l' x' r')"

definition rb_first :: "'e rbtree \<Rightarrow> 'e option" where
  "rb_first T = rb_first_of (rb_root T)"

definition rb_last :: "'e rbtree \<Rightarrow> 'e option" where
  "rb_last T = rb_last_of (rb_root T)"

text \<open>Climbing in rb_next while the node is a right child, and in rb_prev
  while it is a left child.\<close>

fun climb_next :: "'e path \<Rightarrow> 'e option" where
  "climb_next [] = None"
| "climb_next (FR c l x # p) = climb_next p"
| "climb_next (FL c x r # p) = Some x"

fun climb_prev :: "'e path \<Rightarrow> 'e option" where
  "climb_prev [] = None"
| "climb_prev (FL c x r # p) = climb_prev p"
| "climb_prev (FR c l x # p) = Some x"

definition rb_next :: "'e rbt \<Rightarrow> 'e path \<Rightarrow> 'e option" where
  "rb_next r p = (if r = Leaf then climb_next p else rb_first_of r)"

definition rb_prev :: "'e rbt \<Rightarrow> 'e path \<Rightarrow> 'e option" where
  "rb_prev l p = (if l = Leaf then climb_prev p else rb_last_of l)"

text \<open>rb_find_nearest: the last comparison result, 1 on an empty tree.\<close>

fun rb_nearest_rc :: "('e \<Rightarrow> 'e \<Rightarrow> int) \<Rightarrow> 'e \<Rightarrow> 'e rbt \<Rightarrow> int \<Rightarrow> int" where
  "rb_nearest_rc compare e Leaf rc = rc"
| "rb_nearest_rc compare e (Node c l x r) rc =
     (if compare e x < 0 then rb_nearest_rc compare e l (compare e x)
      else if compare e x > 0 then rb_nearest_rc compare e r (compare e x)
      else compare e x)"

definition rb_find_nearest :: "('e \<Rightarrow> 'e \<Rightarrow> int) \<Rightarrow> 'e \<Rightarrow> 'e rbtree \<Rightarrow> int" where
  "rb_find_nearest compare e T = rb_nearest_rc compare e (rb_root T) 1"

text \<open>rb_replace_node copies the whole victim node, its entry included, so
  the entry found at that place stays the victim's.\<close>

definition rb_replace_at :: "color \<Rightarrow> 'e rbt \<Rightarrow> 'e \<Rightarrow> 'e rbt \<Rightarrow> 'e path \<Rightarrow> 'e rbt" where
  "rb_replace_at c l victim r p = zip_up (Node c l victim r) p"

section \<open>Order\<close>

fun inord :: "'e rbt \<Rightarrow> 'e list" where
  "inord Leaf = []"
| "inord (Node c l x r) = inord l @ x # inord r"

fun lefts :: "'e path \<Rightarrow> 'e list" where
  "lefts [] = []"
| "lefts (FL c x r # p) = lefts p"
| "lefts (FR c l x # p) = lefts p @ inord l @ [x]"

fun rights :: "'e path \<Rightarrow> 'e list" where
  "rights [] = []"
| "rights (FL c x r # p) = x # inord r @ rights p"
| "rights (FR c l x # p) = rights p"

lemma inord_zip: "inord (zip_up t p) = lefts p @ inord t @ rights p"
proof (induction p arbitrary: t)
  case (Cons f p)
  then show ?case by (cases f) auto
qed simp

lemma lefts_append: "lefts (p @ q) = lefts q @ lefts p"
proof (induction p)
  case (Cons f p)
  then show ?case by (cases f) auto
qed simp

lemma rights_append: "rights (p @ q) = rights p @ rights q"
proof (induction p)
  case (Cons f p)
  then show ?case by (cases f) auto
qed simp

lemma zip_up_append: "zip_up t (p @ q) = zip_up (zip_up t p) q"
  by (induction p arbitrary: t) auto

lemma inord_set_color [simp]: "inord (rb_set_color c t) = inord t"
  by (cases t) auto

lemma inord_rotate:
  "rb_rotate_left t = Some t' \<Longrightarrow> inord t' = inord t"
  "rb_rotate_right t = Some t' \<Longrightarrow> inord t' = inord t"
  by (cases t rule: rb_rotate_left.cases; auto) (cases t rule: rb_rotate_right.cases; auto)

lemma insert_color_inord:
  "rb_insert_color t p = Some (t', p') \<Longrightarrow> inord (zip_up t' p') = inord (zip_up t p)"
  by (induction t p arbitrary: t' p' rule: rb_insert_color.induct)
    (auto simp: inord_zip split: if_splits bind_splits dest!: inord_rotate)

text \<open>Where rb_insert puts an entry: before the first one it compares below,
  when the entries it compares below form a suffix.\<close>

definition cut_at :: "('e \<Rightarrow> 'e \<Rightarrow> int) \<Rightarrow> 'e \<Rightarrow> 'e list \<Rightarrow> bool" where
  "cut_at compare e xs \<longleftrightarrow> sorted_wrt (\<lambda>x y. compare e x < 0 \<longrightarrow> compare e y < 0) xs"

definition place :: "('e \<Rightarrow> 'e \<Rightarrow> int) \<Rightarrow> 'e \<Rightarrow> 'e list \<Rightarrow> 'e list" where
  "place compare e xs = takeWhile (\<lambda>x. \<not> compare e x < 0) xs @ e # dropWhile (\<lambda>x. \<not> compare e x < 0) xs"

lemma walk_inord:
  "lefts (rb_walk compare e t p) @ rights (rb_walk compare e t p) = lefts p @ inord t @ rights p"
  by (induction compare e t p rule: rb_walk.induct) auto

lemma cut_at_node:
  "cut_at compare e (xs @ x # ys) \<longleftrightarrow> cut_at compare e xs \<and> cut_at compare e ys
     \<and> (\<forall>a\<in>set xs. compare e a < 0 \<longrightarrow> compare e x < 0 \<and> (\<forall>b\<in>set ys. compare e b < 0))
     \<and> (compare e x < 0 \<longrightarrow> (\<forall>b\<in>set ys. compare e b < 0))"
  unfolding cut_at_def sorted_wrt_append by simp blast

lemma walk_cut:
  assumes "cut_at compare e (inord t)"
  shows "\<exists>ls rs. lefts (rb_walk compare e t p) = lefts p @ ls \<and> rights (rb_walk compare e t p) = rs @ rights p
     \<and> inord t = ls @ rs \<and> (\<forall>x\<in>set ls. \<not> compare e x < 0) \<and> (\<forall>x\<in>set rs. compare e x < 0)"
  using assms
proof (induction t arbitrary: p)
  case (Node c l x r)
  have cl: "cut_at compare e (inord l)" and cr: "cut_at compare e (inord r)"
    using Node.prems by (simp_all add: cut_at_node)
  show ?case
  proof (cases "compare e x < 0")
    case True
    then have "\<forall>y\<in>set (inord r). compare e y < 0"
      using Node.prems by (auto simp: cut_at_node)
    moreover obtain ls rs where "lefts (rb_walk compare e l (FL c x r # p)) = lefts p @ ls"
      "rights (rb_walk compare e l (FL c x r # p)) = rs @ x # inord r @ rights p"
      "inord l = ls @ rs" "\<forall>x\<in>set ls. \<not> compare e x < 0" "\<forall>x\<in>set rs. compare e x < 0"
      using Node.IH(1) [OF cl, of "FL c x r # p"] by auto
    ultimately show ?thesis using True
      by (intro exI [of _ ls] exI [of _ "rs @ x # inord r"]) auto
  next
    case False
    then have "\<forall>y\<in>set (inord l). \<not> compare e y < 0"
      using Node.prems by (auto simp: cut_at_node)
    moreover obtain ls rs where "lefts (rb_walk compare e r (FR c l x # p)) = lefts p @ inord l @ x # ls"
      "rights (rb_walk compare e r (FR c l x # p)) = rs @ rights p"
      "inord r = ls @ rs" "\<forall>x\<in>set ls. \<not> compare e x < 0" "\<forall>x\<in>set rs. compare e x < 0"
      using Node.IH(2) [OF cr, of "FR c l x # p"] by auto
    ultimately show ?thesis using False
      by (intro exI [of _ "inord l @ x # ls"] exI [of _ rs]) auto
  qed
qed simp

lemma place_split:
  assumes "\<forall>x\<in>set ls. \<not> compare e x < 0" "\<forall>x\<in>set rs. compare e x < 0"
  shows "place compare e (ls @ rs) = ls @ e # rs"
  using assms by (cases rs) (auto simp: place_def takeWhile_append dropWhile_append)

lemma insert_inord:
  assumes "rb_insert compare e T = Some T'" "cut_at compare e (inord (rb_root T))"
  shows "inord (rb_root T') = place compare e (inord (rb_root T))"
proof -
  let ?p = "rb_walk compare e (rb_root T) []"
  obtain t p where tp: "rb_insert_color (Node Red Leaf e Leaf) ?p = Some (t, p)" "rb_root T' = rb_set_black (zip_up t p)"
    using assms(1) by (auto simp: rb_insert_def)
  obtain ls rs where "lefts ?p = ls" "rights ?p = rs" "inord (rb_root T) = ls @ rs"
    "\<forall>x\<in>set ls. \<not> compare e x < 0" "\<forall>x\<in>set rs. compare e x < 0"
    using walk_cut [OF assms(2), of "[]"] by auto
  then show ?thesis using insert_color_inord [OF tp(1)] tp(2) by (simp add: place_split inord_zip)
qed

lemma insert_mset:
  assumes "rb_insert compare e T = Some T'"
  shows "mset (inord (rb_root T')) = add_mset e (mset (inord (rb_root T)))" "rb_num T' = rb_num T + 1"
proof -
  let ?p = "rb_walk compare e (rb_root T) []"
  obtain t p where tp: "rb_insert_color (Node Red Leaf e Leaf) ?p = Some (t, p)" "rb_root T' = rb_set_black (zip_up t p)"
    using assms(1) by (auto simp: rb_insert_def)
  have "mset (lefts ?p) + mset (rights ?p) = mset (inord (rb_root T))"
    using walk_inord [of compare e "rb_root T" "[]"] by (metis append_Nil append_Nil2 lefts.simps(1) mset_append rights.simps(1))
  then show "mset (inord (rb_root T')) = add_mset e (mset (inord (rb_root T)))"
    using insert_color_inord [OF tp(1)] tp(2) by (simp add: inord_zip) 
  show "rb_num T' = rb_num T + 1" using assms by (auto simp: rb_insert_def)
qed

lemma erase_left_inord:
  "erase_left node c x other = Some (Inl t) \<Longrightarrow> inord t = inord node @ x # inord other"
  "erase_left node c x other = Some (Inr t) \<Longrightarrow> inord t = inord node @ x # inord other"
  by (auto simp: erase_left_def split: rbt.splits if_splits option.splits dest!: inord_rotate)
    (metis inord.simps(2) inord_set_color)+

lemma erase_right_inord:
  "erase_right other c x node = Some (Inl t) \<Longrightarrow> inord t = inord other @ x # inord node"
  "erase_right other c x node = Some (Inr t) \<Longrightarrow> inord t = inord other @ x # inord node"
  by (auto simp: erase_right_def split: rbt.splits if_splits option.splits dest!: inord_rotate)
    (metis inord.simps(2) inord_set_color append_assoc append_Cons)+

lemma erase_color_inord:
  "rb_erase_color t p = Some t' \<Longrightarrow> inord t' = lefts p @ inord t @ rights p"
proof (induction t p rule: rb_erase_color.induct)
  case (2 node c x other p)
  then show ?case
    by (auto simp: inord_zip split: if_splits rbt.splits color.splits option.splits sum.splits
        dest!: erase_left_inord)
next
  case (3 node c other x p)
  then show ?case
    by (auto simp: inord_zip split: if_splits rbt.splits color.splits option.splits sum.splits
        dest!: erase_right_inord)
qed auto

section \<open>The red-black invariant\<close>

text \<open>Black height \<open>n\<close> on every branch and no red child of a red node.\<close>

fun rb_wf :: "'e rbt \<Rightarrow> nat \<Rightarrow> bool" where
  "rb_wf Leaf n \<longleftrightarrow> n = 0"
| "rb_wf (Node Red l x r) n \<longleftrightarrow> nil_or_black l \<and> nil_or_black r \<and> rb_wf l n \<and> rb_wf r n"
| "rb_wf (Node Black l x r) n \<longleftrightarrow> (case n of 0 \<Rightarrow> False | Suc m \<Rightarrow> rb_wf l m \<and> rb_wf r m)"

fun top_black :: "'e path \<Rightarrow> bool" where
  "top_black [] = True"
| "top_black (FL c x r # p) = (c = Black)"
| "top_black (FR c l x # p) = (c = Black)"

text \<open>A parent chain around a subtree of black height \<open>n\<close>.\<close>

fun ctx :: "'e path \<Rightarrow> nat \<Rightarrow> bool" where
  "ctx [] n = True"
| "ctx (FL Black x r # p) n = (rb_wf r n \<and> ctx p (Suc n))"
| "ctx (FR Black l x # p) n = (rb_wf l n \<and> ctx p (Suc n))"
| "ctx (FL Red x r # p) n = (rb_wf r n \<and> nil_or_black r \<and> p \<noteq> [] \<and> top_black p \<and> ctx p n)"
| "ctx (FR Red l x # p) n = (rb_wf l n \<and> nil_or_black l \<and> p \<noteq> [] \<and> top_black p \<and> ctx p n)"

lemma nob_simps [simp]:
  "nil_or_black Leaf" "nil_or_black (Node c l x r) \<longleftrightarrow> c = Black" "rb_is_red (Node c l x r) \<longleftrightarrow> c = Red"
  by (cases c; simp add: nil_or_black_def)+

lemma red_iff: "rb_is_red t \<longleftrightarrow> \<not> nil_or_black t"
  by (simp add: nil_or_black_def)

lemma nob_set_color [simp]: "nil_or_black (rb_set_black t)"
  by (cases t) auto

lemma wf_set_black: "rb_wf t n \<Longrightarrow> \<exists>m. rb_wf (rb_set_black t) m"
  by (induction t n rule: rb_wf.induct) (auto split: nat.splits intro: exI [of _ 0] exI [of _ "Suc _"])

lemma wf_set_black_red: "rb_wf t n \<Longrightarrow> \<not> nil_or_black t \<Longrightarrow> rb_wf (rb_set_black t) (Suc n)"
  by (cases t; cases "case t of Node c _ _ _ \<Rightarrow> c") (auto split: color.splits)

lemma red_cases:
  assumes "\<not> nil_or_black t"
  obtains l x r where "t = Node Red l x r"
  using assms by (cases t rule: rb_is_red.cases) (auto simp: nil_or_black_def)

lemma black_wf_cases:
  assumes "nil_or_black t" "rb_wf t (Suc n)"
  obtains l x r where "t = Node Black l x r" "rb_wf l n" "rb_wf r n"
  using assms by (cases t rule: rb_is_red.cases) auto

lemma zip_wf:
  "ctx p n \<Longrightarrow> rb_wf t n \<Longrightarrow> (nil_or_black t \<or> top_black p) \<Longrightarrow>
   \<exists>m. rb_wf (zip_up t p) m \<and> (p \<noteq> [] \<longrightarrow> nil_or_black (zip_up t p))"
proof (induction p n arbitrary: t rule: ctx.induct)
  case (2 x r p n)
  have "\<exists>m. rb_wf (zip_up (Node Black t x r) p) m \<and> (p \<noteq> [] \<longrightarrow> nil_or_black (zip_up (Node Black t x r) p))"
    using 2(2,3) by (intro 2(1)) auto
  then show ?case by (cases p) auto
next
  case (3 l x p n)
  have "\<exists>m. rb_wf (zip_up (Node Black l x t) p) m \<and> (p \<noteq> [] \<longrightarrow> nil_or_black (zip_up (Node Black l x t) p))"
    using 3(2,3) by (intro 3(1)) auto
  then show ?case by (cases p) auto
next
  case (4 x r p n)
  have "\<exists>m. rb_wf (zip_up (Node Red t x r) p) m \<and> (p \<noteq> [] \<longrightarrow> nil_or_black (zip_up (Node Red t x r) p))"
    using 4(2-4) by (intro 4(1)) auto
  then show ?case using 4(2) by auto
next
  case (5 l x p n)
  have "\<exists>m. rb_wf (zip_up (Node Red l x t) p) m \<and> (p \<noteq> [] \<longrightarrow> nil_or_black (zip_up (Node Red l x t) p))"
    using 5(2-4) by (intro 5(1)) auto
  then show ?case using 5(2) by auto
qed auto

lemma insert_color_wf:
  "ctx p n \<Longrightarrow> rb_wf t n \<Longrightarrow> \<not> nil_or_black t \<Longrightarrow>
   \<exists>t' p' n'. rb_insert_color t p = Some (t', p') \<and> ctx p' n' \<and> rb_wf t' n' \<and> (nil_or_black t' \<or> top_black p')"
proof (induction t p arbitrary: n rule: rb_insert_color.induct)
  case (6 node x r gc g uncle p)
  have gc: "gc = Black" and r: "rb_wf r n" "nil_or_black r" "rb_wf uncle n" "ctx p (Suc n)"
    using 6(2) by (auto split: color.splits)
  show ?case
  proof (cases "rb_is_red uncle")
    case True
    then have "rb_wf (rb_set_black uncle) (Suc n)" using r(3) by (simp add: wf_set_black_red red_iff)
    then show ?thesis using True gc 6(1) [OF True, of "Suc n"] r 6(3) by simp
  next
    case False
    then show ?thesis using gc r 6(3,4) by (auto simp: red_iff intro!: exI [of _ "Suc n"])
  qed
next
  case (7 node l x gc g uncle p)
  have gc: "gc = Black" and r: "rb_wf l n" "nil_or_black l" "rb_wf uncle n" "ctx p (Suc n)"
    using 7(2) by (auto split: color.splits)
  obtain a y b where nd: "node = Node Red a y b" using 7(4) by (rule red_cases)
  show ?case
  proof (cases "rb_is_red uncle")
    case True
    then have "rb_wf (rb_set_black uncle) (Suc n)" using r(3) by (simp add: wf_set_black_red red_iff)
    then show ?thesis using True gc 7(1) [OF True, of "Suc n"] r 7(3) by simp
  next
    case False
    then show ?thesis using gc r 7(3) nd by (auto simp: red_iff intro!: exI [of _ "Suc n"])
  qed
next
  case (8 node l x gc uncle g p)
  have gc: "gc = Black" and r: "rb_wf l n" "nil_or_black l" "rb_wf uncle n" "ctx p (Suc n)"
    using 8(2) by (auto split: color.splits)
  show ?case
  proof (cases "rb_is_red uncle")
    case True
    then have "rb_wf (rb_set_black uncle) (Suc n)" using r(3) by (simp add: wf_set_black_red red_iff)
    then show ?thesis using True gc 8(1) [OF True, of "Suc n"] r 8(3) by simp
  next
    case False
    then show ?thesis using gc r 8(3,4) by (auto simp: red_iff intro!: exI [of _ "Suc n"])
  qed
next
  case (9 node x r gc uncle g p)
  have gc: "gc = Black" and r: "rb_wf r n" "nil_or_black r" "rb_wf uncle n" "ctx p (Suc n)"
    using 9(2) by (auto split: color.splits)
  obtain a y b where nd: "node = Node Red a y b" using 9(4) by (rule red_cases)
  show ?case
  proof (cases "rb_is_red uncle")
    case True
    then have "rb_wf (rb_set_black uncle) (Suc n)" using r(3) by (simp add: wf_set_black_red red_iff)
    then show ?thesis using True gc 9(1) [OF True, of "Suc n"] r 9(3) by simp
  next
    case False
    then show ?thesis using gc r 9(3) nd by (auto simp: red_iff intro!: exI [of _ "Suc n"])
  qed
qed auto

lemma walk_ctx:
  "rb_wf t n \<Longrightarrow> ctx p n \<Longrightarrow> nil_or_black t \<or> top_black p \<and> p \<noteq> [] \<Longrightarrow> ctx (rb_walk compare e t p) 0"
proof (induction compare e t p arbitrary: n rule: rb_walk.induct)
  case (2 compare e c l x r p)
  show ?case
  proof (cases c)
    case Red
    then show ?thesis using 2(1) [of n] 2(2) [of n] 2(3-5) by simp
  next
    case Black
    then obtain m where "n = Suc m" using 2(3) by (cases n) auto
    then show ?thesis using Black 2(1) [of m] 2(2) [of m] 2(3-5) by simp
  qed
qed simp

definition rb_ok :: "'e rbtree \<Rightarrow> bool" where
  "rb_ok T \<longleftrightarrow> (\<exists>n. rb_wf (rb_root T) n) \<and> nil_or_black (rb_root T)
     \<and> rb_num T = int (length (inord (rb_root T)))"

lemma rb_ok_new [simp]: "rb_ok Rbtree_new" "inord (rb_root Rbtree_new) = []"
  by (simp_all add: rb_ok_def Rbtree_new_def)

lemma insert_total:
  assumes "rb_ok T"
  shows "\<exists>T'. rb_insert compare e T = Some T' \<and> rb_ok T'"
proof -
  let ?p = "rb_walk compare e (rb_root T) []"
  obtain n where "rb_wf (rb_root T) n" "nil_or_black (rb_root T)" using assms by (auto simp: rb_ok_def)
  then have "ctx ?p 0" by (intro walk_ctx) auto
  then obtain t p m where tp: "rb_insert_color (Node Red Leaf e Leaf) ?p = Some (t, p)" "ctx p m" "rb_wf t m"
    "nil_or_black t \<or> top_black p"
    using insert_color_wf [of ?p 0 "Node Red Leaf e Leaf"] by auto
  then obtain m' where "rb_wf (rb_set_black (zip_up t p)) m'"
    using zip_wf [OF tp(2-4)] wf_set_black by blast
  moreover obtain T' where T': "rb_insert compare e T = Some T'" "rb_root T' = rb_set_black (zip_up t p)"
    using tp(1) by (simp add: rb_insert_def)
  moreover have "rb_num T' = int (length (inord (rb_root T')))"
    using insert_mset [OF T'(1)] assms mset_eq_length [of "inord (rb_root T')" "e # inord (rb_root T)"]
    by (simp add: rb_ok_def)
  ultimately show ?thesis by (auto simp: rb_ok_def)
qed

section \<open>Removal keeps the invariant\<close>

text \<open>The subtree after one round: of the height and colour the parent had,
  or one too low and then painted red or black by the next round.\<close>

definition round_ok :: "color \<Rightarrow> nat \<Rightarrow> ('e rbt + 'e rbt) \<Rightarrow> bool" where
  "round_ok c n res \<longleftrightarrow> (case res of
       Inl s \<Rightarrow> (nil_or_black s \<longleftrightarrow> c = Black) \<and> rb_wf (rb_set_black s) (Suc n) \<and> s \<noteq> Leaf
     | Inr s \<Rightarrow> (nil_or_black s \<longleftrightarrow> c = Black) \<and> rb_wf s (if c = Red then Suc n else Suc (Suc n)))"

lemma nob_red_dest: "\<not> nil_or_black t \<Longrightarrow> \<exists>l x r. t = Node Red l x r"
  by (metis red_cases)

lemma erase_left_wf:
  assumes "rb_wf node n" "nil_or_black node" "rb_wf other (Suc n)" "nil_or_black other"
  shows "\<exists>res. erase_left node c x other = Some res \<and> round_ok c n res"
proof -
  obtain ol y ort where o: "other = Node Black ol y ort" "rb_wf ol n" "rb_wf ort n"
    using black_wf_cases [OF assms(4,3)] .
  consider "nil_or_black ol" "nil_or_black ort" | "\<not> nil_or_black ort"
    | "\<not> nil_or_black ol" "nil_or_black ort" by blast
  then show ?thesis
  proof cases
    case 1
    then show ?thesis using o assms(1,2) by (cases c) (simp_all add: erase_left_def round_ok_def)
  next
    case 2
    then show ?thesis using o assms(1,2) nob_red_dest [OF 2]
      by (cases c) (auto simp: erase_left_def round_ok_def)
  next
    case 3
    then show ?thesis using o assms(1,2) nob_red_dest [OF 3(1)]
      by (cases c) (auto simp: erase_left_def round_ok_def)
  qed
qed

lemma erase_right_wf:
  assumes "rb_wf node n" "nil_or_black node" "rb_wf other (Suc n)" "nil_or_black other"
  shows "\<exists>res. erase_right other c x node = Some res \<and> round_ok c n res"
proof -
  obtain ol y ort where o: "other = Node Black ol y ort" "rb_wf ol n" "rb_wf ort n"
    using black_wf_cases [OF assms(4,3)] .
  consider "nil_or_black ol" "nil_or_black ort" | "\<not> nil_or_black ol"
    | "nil_or_black ol" "\<not> nil_or_black ort" by blast
  then show ?thesis
  proof cases
    case 1
    then show ?thesis using o assms(1,2) by (cases c) (simp_all add: erase_right_def round_ok_def)
  next
    case 2
    then show ?thesis using o assms(1,2) nob_red_dest [OF 2]
      by (cases c) (auto simp: erase_right_def round_ok_def)
  next
    case 3
    then show ?thesis using o assms(1,2) nob_red_dest [OF 3(2)]
      by (cases c) (auto simp: erase_right_def round_ok_def)
  qed
qed

lemma nob_wf_set_black: "nil_or_black s \<Longrightarrow> rb_set_black s = s"
  by (cases s) auto

definition tree_ok :: "'e rbt \<Rightarrow> bool" where
  "tree_ok t \<longleftrightarrow> (\<exists>m. rb_wf t m) \<and> nil_or_black t"

lemma zip_ok:
  "ctx p n \<Longrightarrow> rb_wf t n \<Longrightarrow> nil_or_black t \<Longrightarrow> tree_ok (zip_up t p)"
  using zip_wf [of p n t] by (cases p) (auto simp: tree_ok_def)

lemma zip_ok_set:
  "ctx p n \<Longrightarrow> rb_wf t n \<Longrightarrow> nil_or_black t \<or> top_black p \<Longrightarrow> tree_ok (rb_set_black (zip_up t p))"
  using zip_wf [of p n t] wf_set_black by (fastforce simp: tree_ok_def)

text \<open>What the loop needs of its focus: a subtree one black node short, or a
  red node that painting makes right.\<close>

definition short :: "'e rbt \<Rightarrow> nat \<Rightarrow> bool" where
  "short t n \<longleftrightarrow> (if nil_or_black t then rb_wf t n else rb_wf (rb_set_black t) (Suc n))"

lemma erase_red_sibling_left:
  assumes "rb_wf node n" "nil_or_black node" "rb_wf (Node Red ol y ort) (Suc n)" "ctx p (Suc (Suc n))"
  shows "\<exists>t'. (case erase_left node Red x ol of None \<Rightarrow> None
      | Some (Inl t) \<Rightarrow> Some (zip_up (rb_set_black t) (FL Black y ort # p))
      | Some (Inr t) \<Rightarrow> Some (rb_set_black (zip_up t (FL Black y ort # p)))) = Some t' \<and> tree_ok t'"
proof -
  have o: "rb_wf ol (Suc n)" "nil_or_black ol" "rb_wf ort (Suc n)" using assms(3) by auto
  obtain res where res: "erase_left node Red x ol = Some res" "round_ok Red n res"
    using erase_left_wf [OF assms(1,2) o(1,2)] by blast
  have c: "ctx (FL Black y ort # p) (Suc n)" using o(3) assms(4) by simp
  show ?thesis
  proof (cases res)
    case (Inl t)
    then show ?thesis using res zip_ok [OF c, of "rb_set_black t"] by (simp add: round_ok_def)
  next
    case (Inr t)
    then show ?thesis using res zip_ok_set [OF c, of t] by (simp add: round_ok_def)
  qed
qed

lemma erase_red_sibling_right:
  assumes "rb_wf node n" "nil_or_black node" "rb_wf (Node Red ol y ort) (Suc n)" "ctx p (Suc (Suc n))"
  shows "\<exists>t'. (case erase_right ort Red x node of None \<Rightarrow> None
      | Some (Inl t) \<Rightarrow> Some (zip_up (rb_set_black t) (FR Black ol y # p))
      | Some (Inr t) \<Rightarrow> Some (rb_set_black (zip_up t (FR Black ol y # p)))) = Some t' \<and> tree_ok t'"
proof -
  have o: "rb_wf ort (Suc n)" "nil_or_black ort" "rb_wf ol (Suc n)" using assms(3) by auto
  obtain res where res: "erase_right ort Red x node = Some res" "round_ok Red n res"
    using erase_right_wf [OF assms(1,2) o(1,2)] by blast
  have c: "ctx (FR Black ol y # p) (Suc n)" using o(3) assms(4) by simp
  show ?thesis
  proof (cases res)
    case (Inl t)
    then show ?thesis using res zip_ok [OF c, of "rb_set_black t"] by (simp add: round_ok_def)
  next
    case (Inr t)
    then show ?thesis using res zip_ok_set [OF c, of t] by (simp add: round_ok_def)
  qed
qed

lemma round_short:
  "round_ok c n (Inl s) \<Longrightarrow> short s (if c = Red then n else Suc n)"
  by (cases c) (auto simp: round_ok_def short_def nob_wf_set_black)

lemma ctx_cons:
  "ctx (FL c x r # p) n \<longleftrightarrow> rb_wf r n \<and> ctx p (if c = Red then n else Suc n) \<and> (c = Red \<longrightarrow> nil_or_black r \<and> p \<noteq> [] \<and> top_black p)"
  "ctx (FR c l x # p) n \<longleftrightarrow> rb_wf l n \<and> ctx p (if c = Red then n else Suc n) \<and> (c = Red \<longrightarrow> nil_or_black l \<and> p \<noteq> [] \<and> top_black p)"
  by (cases c; auto)+

lemma erase_color_wf:
  "ctx p (Suc n) \<Longrightarrow> short t n \<Longrightarrow> \<exists>t'. rb_erase_color t p = Some t' \<and> tree_ok t'"
proof (induction t p arbitrary: n rule: rb_erase_color.induct)
  case (1 node)
  then have "\<exists>m. rb_wf (rb_set_black node) m"
    by (auto simp: short_def nob_wf_set_black split: if_splits)
  then show ?case by (simp add: tree_ok_def)
next
  case (2 node c x other p)
  note IH = 2(1) and c = 2(2) and sh = 2(3)
  have o: "rb_wf other (Suc n)" using c by (simp add: ctx_cons)
  show ?case
  proof (cases "rb_is_red node")
    case True
    then show ?thesis using zip_ok [OF c, of "rb_set_black node"] sh by (simp add: short_def red_iff)
  next
    case False
    then have nd: "rb_wf node n" "nil_or_black node" using sh by (auto simp: short_def red_iff)
    show ?thesis
    proof (cases "nil_or_black other")
      case True
      then obtain ol y ort where ot: "other = Node Black ol y ort" using o by (rule black_wf_cases)
      obtain res where res: "erase_left node c x other = Some res" "round_ok c n res"
        using erase_left_wf [OF nd o True] by blast
      let ?n = "if c = Red then n else Suc n"
      have cp: "ctx p (Suc ?n)" using c by (simp add: ctx_cons split: if_splits)
      show ?thesis
      proof (cases res)
        case (Inl s)
        have "\<exists>t'. rb_erase_color s p = Some t' \<and> tree_ok t'"
          using IH [OF False ot refl _ _ cp, of "Inl s" s] res Inl ot round_short [of c n s] by simp
        then show ?thesis using False ot res Inl by simp
      next
        case (Inr s)
        have "rb_wf s (Suc ?n)" "nil_or_black s \<or> top_black p"
          using res(2) c Inr by (cases c; auto simp: round_ok_def ctx_cons)+
        from zip_ok_set [OF cp this] show ?thesis using False ot res Inr by simp
      qed
    next
      case red: False
      then obtain ol y ort where ot: "other = Node Red ol y ort" by (rule red_cases)
      have "c \<noteq> Red" using c red by (auto simp: ctx_cons)
      then have "ctx p (Suc (Suc n))" using c by (simp add: ctx_cons)
      from erase_red_sibling_left [OF nd o [unfolded ot] this] show ?thesis
        using False ot by simp
    qed
  qed
next
  case (3 node c other x p)
  note IH = 3(1) and c = 3(2) and sh = 3(3)
  have o: "rb_wf other (Suc n)" using c by (simp add: ctx_cons)
  show ?case
  proof (cases "rb_is_red node")
    case True
    then show ?thesis using zip_ok [OF c, of "rb_set_black node"] sh by (simp add: short_def red_iff)
  next
    case False
    then have nd: "rb_wf node n" "nil_or_black node" using sh by (auto simp: short_def red_iff)
    show ?thesis
    proof (cases "nil_or_black other")
      case True
      then obtain ol y ort where ot: "other = Node Black ol y ort" using o by (rule black_wf_cases)
      obtain res where res: "erase_right other c x node = Some res" "round_ok c n res"
        using erase_right_wf [OF nd o True] by blast
      let ?n = "if c = Red then n else Suc n"
      have cp: "ctx p (Suc ?n)" using c by (simp add: ctx_cons split: if_splits)
      show ?thesis
      proof (cases res)
        case (Inl s)
        have "\<exists>t'. rb_erase_color s p = Some t' \<and> tree_ok t'"
          using IH [OF False ot refl _ _ cp, of "Inl s" s] res Inl ot round_short [of c n s] by simp
        then show ?thesis using False ot res Inl by simp
      next
        case (Inr s)
        have "rb_wf s (Suc ?n)" "nil_or_black s \<or> top_black p"
          using res(2) c Inr by (cases c; auto simp: round_ok_def ctx_cons)+
        from zip_ok_set [OF cp this] show ?thesis using False ot res Inr by simp
      qed
    next
      case red: False
      then obtain ol y ort where ot: "other = Node Red ol y ort" by (rule red_cases)
      have "c \<noteq> Red" using c red by (auto simp: ctx_cons)
      then have "ctx p (Suc (Suc n))" using c by (simp add: ctx_cons)
      from erase_red_sibling_right [OF nd o [unfolded ot] this] show ?thesis
        using False ot by simp
    qed
  qed
qed

text \<open>The node to unlink, with at most one child.\<close>

lemma unlink_wf:
  assumes "ctx p n" "rb_wf (Node c l x r) n" "c = Red \<longrightarrow> top_black p \<and> p \<noteq> []" "l = Leaf \<or> r = Leaf"
    and "child = (if l = Leaf then r else l)"
  shows "\<exists>t'. (if c = Black then rb_erase_color child p else Some (zip_up child p)) = Some t' \<and> tree_ok t'"
proof (cases c)
  case Red
  then have "child = Leaf" "n = 0" using assms(2,4,5)
    by (auto split: if_splits elim: black_wf_cases) (cases l; cases r; auto)+
  then show ?thesis using zip_ok [OF assms(1), of Leaf] Red by simp
next
  case Black
  then have "n = Suc 0" "rb_wf child 0" using assms(2,4,5) by (auto split: nat.splits if_splits)
  moreover then have "short child 0"
    using wf_set_black_red [of child 0] by (auto simp: short_def)
  ultimately show ?thesis using erase_color_wf [of p 0 child] assms(1) Black by simp
qed

lemma leftmost_facts:
  assumes "leftmost c l x r q = (c', y, child, q')"
  shows "lefts q' = lefts q" "inord l @ x # inord r @ rights q = y # inord child @ rights q'"
    "\<And>n. ctx (q @ b) n \<Longrightarrow> rb_wf (Node c l x r) n \<Longrightarrow> c = Red \<longrightarrow> top_black (q @ b) \<and> q @ b \<noteq> [] \<Longrightarrow>
      \<exists>m. ctx (q' @ b) m \<and> rb_wf (Node c' Leaf y child) m \<and> (c' = Red \<longrightarrow> top_black (q' @ b) \<and> q' @ b \<noteq> [])"
proof -
  show "lefts q' = lefts q" "inord l @ x # inord r @ rights q = y # inord child @ rights q'"
    using assms by (induction c l x r q rule: leftmost.induct) auto
  fix n assume "ctx (q @ b) n" "rb_wf (Node c l x r) n" "c = Red \<longrightarrow> top_black (q @ b) \<and> q @ b \<noteq> []"
  with assms show "\<exists>m. ctx (q' @ b) m \<and> rb_wf (Node c' Leaf y child) m \<and> (c' = Red \<longrightarrow> top_black (q' @ b) \<and> q' @ b \<noteq> [])"
  proof (induction c l x r q arbitrary: n rule: leftmost.induct)
    case (2 c c1 l1 x1 r1 x r q)
    show ?case
    proof (cases c)
      case Red
      then show ?thesis using 2(2-) by (intro 2(1) [of n]) auto
    next
      case Black
      then obtain m where "n = Suc m" using 2(4) by (cases n) auto
      then show ?thesis using Black 2(2-) by (intro 2(1) [of m]) auto
    qed
  qed auto
qed

lemma erase_at_wf:
  assumes "ctx p n" "rb_wf (Node c l x r) n" "c = Red \<longrightarrow> top_black p \<and> p \<noteq> []"
  shows "\<exists>t'. rb_erase_at c l x r p = Some t' \<and> tree_ok t'"
proof (cases "l = Leaf \<or> r = Leaf")
  case True
  then show ?thesis using unlink_wf [OF assms True refl]
    by (cases r) (auto simp: rb_erase_at_def)
next
  case False
  then obtain rc rl rx rr where r: "r = Node rc rl rx rr" by (cases r) auto
  obtain c' y child q where lm: "leftmost rc rl rx rr [] = (c', y, child, q)" by (metis prod_cases4)
  let ?b = "FR c l y # p"
  obtain k where k: "ctx ?b k" "rb_wf r k" "rc = Red \<longrightarrow> top_black ?b"
    using assms r by (cases c; cases n; cases rc) (auto simp: ctx_cons)
  then obtain m where "ctx (q @ ?b) m" "rb_wf (Node c' Leaf y child) m"
    "c' = Red \<longrightarrow> top_black (q @ ?b) \<and> q @ ?b \<noteq> []"
    using leftmost_facts(3) [OF lm, of ?b k] r by auto
  then have "\<exists>t'. (if c' = Black then rb_erase_color child (q @ ?b) else Some (zip_up child (q @ ?b))) = Some t' \<and> tree_ok t'"
    by (rule unlink_wf) simp_all
  then show ?thesis using False r lm by (simp add: rb_erase_at_def)
qed

lemma erase_at_inord:
  assumes "rb_erase_at c l x r p = Some t'"
  shows "inord t' = lefts p @ inord l @ inord r @ rights p"
proof -
  have *: "inord t' = lefts q @ inord ch @ rights q"
    if "(if col = Black then rb_erase_color ch q else Some (zip_up ch q)) = Some t'" for col ch q
    using that by (auto simp: inord_zip erase_color_inord split: if_splits)
  show ?thesis
  proof (cases "l = Leaf \<or> r = Leaf")
    case True
    then show ?thesis using assms * by (cases r) (auto simp: rb_erase_at_def Let_def split: if_splits)
  next
    case False
    then obtain rc rl rx rr where r: "r = Node rc rl rx rr" by (cases r) auto
    obtain c' y child q where lm: "leftmost rc rl rx rr [] = (c', y, child, q)" by (metis prod_cases4)
    have "inord t' = lefts (q @ FR c l y # p) @ inord child @ rights (q @ FR c l y # p)"
      using assms False r lm by (intro *) (simp add: rb_erase_at_def)
    then show ?thesis using leftmost_facts(1,2) [OF lm] r by (simp add: lefts_append rights_append)
  qed
qed

lemma locate_facts:
  assumes "rb_locate e t p0 = Some (c, l, x, r, p)"
  shows "x = e" "lefts p @ inord l @ x # inord r @ rights p = lefts p0 @ inord t @ rights p0"
    "\<And>n. ctx p0 n \<Longrightarrow> rb_wf t n \<Longrightarrow> nil_or_black t \<or> top_black p0 \<and> p0 \<noteq> [] \<Longrightarrow>
      \<exists>m. ctx p m \<and> rb_wf (Node c l x r) m \<and> (c = Red \<longrightarrow> top_black p \<and> p \<noteq> [])"
proof -
  show "x = e" "lefts p @ inord l @ x # inord r @ rights p = lefts p0 @ inord t @ rights p0"
    using assms by (induction e t p0 rule: rb_locate.induct) (auto split: if_splits option.splits)
  fix n assume "ctx p0 n" "rb_wf t n" "nil_or_black t \<or> top_black p0 \<and> p0 \<noteq> []"
  with assms show "\<exists>m. ctx p m \<and> rb_wf (Node c l x r) m \<and> (c = Red \<longrightarrow> top_black p \<and> p \<noteq> [])"
  proof (induction e t p0 arbitrary: n rule: rb_locate.induct)
    case (2 e c1 l1 x1 r1 p1)
    show ?case
    proof (cases "x1 = e")
      case True
      then show ?thesis using 2(3-) by auto
    next
      case False
      obtain k where k: "ctx (FL c1 x1 r1 # p1) k" "ctx (FR c1 l1 x1 # p1) k" "rb_wf l1 k" "rb_wf r1 k"
        "c1 = Black \<or> nil_or_black l1 \<and> nil_or_black r1"
        using 2(4-) by (cases c1; cases n) (auto simp: ctx_cons)
      show ?thesis
      proof (cases "rb_locate e l1 (FL c1 x1 r1 # p1)")
        case None
        then show ?thesis using False 2(3) k by (intro 2(2) [of k]) auto
      next
        case (Some a)
        then show ?thesis using False 2(3) k by (intro 2(1) [of k]) auto
      qed
    qed
  qed simp
qed

lemma locate_in: "e \<in> set (inord t) \<Longrightarrow> \<exists>c l r p. rb_locate e t p0 = Some (c, l, e, r, p)"
proof (induction e t p0 rule: rb_locate.induct)
  case (2 e c l x r p)
  then show ?case by (cases "rb_locate e l (FL c x r # p)") (auto dest: locate_facts(1))
qed simp

lemma erase_total:
  assumes "rb_ok T" "e \<in> set (inord (rb_root T))"
  shows "\<exists>T' xs ys. rb_erase e T = Some T' \<and> rb_ok T' \<and> inord (rb_root T) = xs @ e # ys \<and> inord (rb_root T') = xs @ ys"
proof -
  obtain c l r p where loc: "rb_locate e (rb_root T) [] = Some (c, l, e, r, p)"
    using locate_in [OF assms(2)] by blast
  obtain n where "rb_wf (rb_root T) n" "nil_or_black (rb_root T)" using assms(1) by (auto simp: rb_ok_def)
  then obtain m where m: "ctx p m" "rb_wf (Node c l e r) m" "c = Red \<longrightarrow> top_black p \<and> p \<noteq> []"
    using locate_facts(3) [OF loc, of n] by auto
  obtain t where t: "rb_erase_at c l e r p = Some t" "tree_ok t" using erase_at_wf [OF m] by blast
  have split: "inord (rb_root T) = (lefts p @ inord l) @ e # (inord r @ rights p)"
    using locate_facts(2) [OF loc] by simp
  have "inord t = (lefts p @ inord l) @ (inord r @ rights p)" using erase_at_inord [OF t(1)] by simp
  moreover have "rb_erase e T = Some (T\<lparr>rb_root := t, rb_num := rb_num T - 1\<rparr>)"
    using loc t(1) by (simp add: rb_erase_def)
  ultimately show ?thesis using split assms(1) t(2)
    by (intro exI [of _ "T\<lparr>rb_root := t, rb_num := rb_num T - 1\<rparr>"] exI [of _ "lefts p @ inord l"]
        exI [of _ "inord r @ rights p"]) (simp add: rb_ok_def tree_ok_def)
qed

section \<open>Traversal is in order\<close>

lemma first_of_inord: "rb_first_of t = (if inord t = [] then None else Some (hd (inord t)))"
  by (induction t rule: rb_first_of.induct) (auto simp: hd_append)

lemma last_of_inord: "rb_last_of t = (if inord t = [] then None else Some (last (inord t)))"
  by (induction t rule: rb_last_of.induct) auto

lemma climb_next_rights: "climb_next p = (if rights p = [] then None else Some (hd (rights p)))"
  by (induction p rule: climb_next.induct) auto

lemma climb_prev_lefts: "climb_prev p = (if lefts p = [] then None else Some (last (lefts p)))"
  by (induction p rule: climb_prev.induct) auto

lemma next_inord: "rb_next r p = (if inord r @ rights p = [] then None else Some (hd (inord r @ rights p)))"
  by (cases r) (auto simp: rb_next_def climb_next_rights first_of_inord hd_append)

lemma prev_inord:
  "rb_prev l p = (if lefts p @ inord l = [] then None else Some (last (lefts p @ inord l)))"
  by (cases l) (auto simp: rb_prev_def climb_prev_lefts last_of_inord)

section \<open>Properties\<close>

text \<open>C1 Insertion into the red-black tree: it never dereferences NULL, keeps
  the red-black invariant and the count, and, when the entries the new one
  compares below form a suffix of the tree's order, puts the entry right
  before that suffix.\<close>

theorem rb_insert_correct:
  assumes "rb_ok T" "cut_at compare e (inord (rb_root T))"
  shows "\<exists>T'. rb_insert compare e T = Some T' \<and> rb_ok T'
    \<and> inord (rb_root T') = place compare e (inord (rb_root T))"
  using insert_total [OF assms(1), of compare e] insert_inord [OF _ assms(2)] by blast

theorem rb_insert_correct_witness:
  "\<exists>T'. rb_insert (\<lambda>a b. a - b) 5 Rbtree_new = Some T' \<and> inord (rb_root T') = [5 :: int]"
  using rb_insert_correct [of Rbtree_new "\<lambda>a b. a - b" 5] by (auto simp: cut_at_def place_def)

text \<open>C2 Removal from the red-black tree, in all of its cases (no child, one
  child, successor spliced in, all rebalancing rounds): it never dereferences
  NULL, keeps the red-black invariant and the count, and takes exactly the
  one entry out of the order.\<close>

theorem rb_erase_correct:
  assumes "rb_ok T" "e \<in> set (inord (rb_root T))"
  shows "\<exists>T' xs ys. rb_erase e T = Some T' \<and> rb_ok T' \<and> inord (rb_root T) = xs @ e # ys
    \<and> inord (rb_root T') = xs @ ys"
  by (rule erase_total [OF assms])

theorem rb_erase_correct_witness:
  "\<exists>T' xs ys. rb_erase (5 :: int) (\<lparr>rb_root = Node Black (Node Red Leaf 3 Leaf) 5 Leaf, rb_num = 2\<rparr>) = Some T'
    \<and> [3, 5] = xs @ 5 # ys \<and> inord (rb_root T') = xs @ ys"
proof -
  let ?T = "\<lparr>rb_root = Node Black (Node Red Leaf (3 :: int) Leaf) 5 Leaf, rb_num = 2\<rparr>"
  have "rb_wf (rb_root ?T) 1" by simp
  then have "rb_ok ?T" unfolding rb_ok_def by (intro conjI exI [of _ 1]) simp_all
  then show ?thesis using rb_erase_correct [of ?T 5] by auto
qed

text \<open>Traversal: from the node of an entry, rb_next gives the entry that
  follows it in the order of the tree and rb_prev the one before it, NULL at
  the ends; rb_first and rb_last are the ends.\<close>

theorem rb_traversal_in_order:
  assumes "rb_locate e (rb_root T) [] = Some (c, l, x, r, p)"
  shows "\<exists>xs ys. inord (rb_root T) = xs @ e # ys
    \<and> rb_next r p = (if ys = [] then None else Some (hd ys))
    \<and> rb_prev l p = (if xs = [] then None else Some (last xs))
    \<and> rb_first T = Some (hd (inord (rb_root T))) \<and> rb_last T = Some (last (inord (rb_root T)))"
proof -
  have "inord (rb_root T) = (lefts p @ inord l) @ e # (inord r @ rights p)"
    using locate_facts(1,2) [OF assms] by simp
  then show ?thesis
    by (intro exI conjI, assumption)
      (simp_all only: next_inord prev_inord, simp_all add: rb_first_def rb_last_def first_of_inord last_of_inord)
qed

theorem rb_traversal_in_order_witness:
  "rb_locate 3 (Node Black (Node Red Leaf 3 Leaf) 5 Leaf) [] = Some (Red, Leaf, 3 :: int, Leaf, [FL Black 5 Leaf])
   \<and> (\<exists>xs ys. [3, 5] = xs @ 3 # ys \<and> rb_next Leaf [FL Black (5 :: int) Leaf] = (if ys = [] then None else Some (hd ys)))"
proof -
  let ?T = "\<lparr>rb_root = Node Black (Node Red Leaf 3 Leaf) (5 :: int) Leaf, rb_num = 2\<rparr>"
  have "rb_locate 3 (rb_root ?T) [] = Some (Red, Leaf, 3, Leaf, [FL Black 5 Leaf])" by simp
  from rb_traversal_in_order [OF this] show ?thesis
    by (elim exE conjE) (intro conjI exI, simp, simp only: inord.simps append.simps rbtree.simps, assumption)
qed

end
