(* ===== verification/NrsRbTree.thy ===== *)
theory NrsRbTree
  imports RbTree SchedIf HeapCore
begin

text \<open>
  The red-black tree scheduler of src/lustre/nrsrbtree.cpp, over the tree of
  RbTree.  A request stands for its embedded rb_node; \<open>None\<close> is a NULL
  dereference in the tree.
\<close>

record 'e nrs_rbtree = scheduler_base +
  nrb_tree :: "'e rbtree"

definition NrsRbtree_new :: "'e nrs_rbtree" where
  "NrsRbtree_new = \<lparr>sch_size = 0, sch_throttling = False, nrb_tree = Rbtree_new\<rparr>"

definition NrsRbtree_Enqueue :: "('e \<Rightarrow> 'e \<Rightarrow> int) \<Rightarrow> 'e \<Rightarrow> 'e nrs_rbtree \<Rightarrow> 'e nrs_rbtree option" where
  "NrsRbtree_Enqueue compare e s =
     map_option (\<lambda>t. s\<lparr>nrb_tree := t, sch_size := sch_size s + 1\<rparr>) (rb_insert compare e (nrb_tree s))"

text \<open>Requeue only counts: it is marked as not implemented.\<close>

definition NrsRbtree_Requeue :: "'e \<Rightarrow> 'e nrs_rbtree \<Rightarrow> 'e nrs_rbtree" where
  "NrsRbtree_Requeue e s = s\<lparr>sch_size := sch_size s + 1\<rparr>"

definition NrsRbtree_Erase :: "'e \<Rightarrow> 'e nrs_rbtree \<Rightarrow> 'e nrs_rbtree option" where
  "NrsRbtree_Erase e s =
     map_option (\<lambda>t. s\<lparr>sch_size := sch_size s - 1, nrb_tree := t\<rparr>) (rb_erase e (nrb_tree s))"

definition NrsRbtree_Dequeue :: "'e nrs_rbtree \<Rightarrow> ('e option \<times> 'e nrs_rbtree) option" where
  "NrsRbtree_Dequeue s =
     (case rb_first (nrb_tree s) of
        None \<Rightarrow> Some (None, s)
      | Some e \<Rightarrow> map_option (\<lambda>t. (Some e, s\<lparr>nrb_tree := t, sch_size := sch_size s - 1\<rparr>))
                     (rb_erase e (nrb_tree s)))"

definition NrsRbtree_First :: "'e nrs_rbtree \<Rightarrow> 'e option" where
  "NrsRbtree_First s = rb_first (nrb_tree s)"

text \<open>In Last the test for NULL ends with a semicolon, so the function
  returns NULL whatever the tree holds.\<close>

definition NrsRbtree_Last :: "'e nrs_rbtree \<Rightarrow> 'e option" where
  "NrsRbtree_Last s = (let node = rb_last (nrb_tree s) in None)"

section \<open>Invariant and contract\<close>

definition nrb_line :: "'e nrs_rbtree \<Rightarrow> 'e list" where
  "nrb_line s = inord (rb_root (nrb_tree s))"

definition nrb_bag :: "'e nrs_rbtree \<Rightarrow> 'e multiset" where
  "nrb_bag s = mset (nrb_line s)"

definition nrb_ok :: "('e \<Rightarrow> 'k::linorder) \<Rightarrow> 'e nrs_rbtree \<Rightarrow> bool" where
  "nrb_ok k s \<longleftrightarrow> rb_ok (nrb_tree s) \<and> sorted (map k (nrb_line s)) \<and> distinct (nrb_line s)
     \<and> sch_size s = of_nat (length (nrb_line s)) \<and> length (nrb_line s) < 2 ^ 64"

definition nrb_fits :: "'e \<Rightarrow> 'e nrs_rbtree \<Rightarrow> bool" where
  "nrb_fits e s \<longleftrightarrow> e \<notin># nrb_bag s \<and> Suc (size (nrb_bag s)) < 2 ^ 64"

lemma nrb_new [simp]: "nrb_ok k NrsRbtree_new" "nrb_bag NrsRbtree_new = {#}" "nrb_line NrsRbtree_new = []"
  by (simp_all add: nrb_ok_def NrsRbtree_new_def nrb_line_def nrb_bag_def)

lemma place_sorted:
  assumes "ranked (\<lambda>a b. compare a b < 0) k" "sorted (map k xs)"
  shows "sorted (map k (place compare e xs))"
proof -
  let ?P = "\<lambda>x. \<not> compare e x < 0"
  have split: "xs = takeWhile ?P xs @ dropWhile ?P xs" by simp
  have "sorted (map k (takeWhile ?P xs @ dropWhile ?P xs))" using assms(2) by simp
  then have s: "sorted (map k (takeWhile ?P xs))" "sorted (map k (dropWhile ?P xs))"
    "\<forall>x\<in>set (takeWhile ?P xs). \<forall>y\<in>set (dropWhile ?P xs). k x \<le> k y"
    unfolding map_append sorted_append by auto
  have le: "k x \<le> k e" if "x \<in> set (takeWhile ?P xs)" for x
    using rankedD2 [OF assms(1)] set_takeWhileD [OF that] by simp
  have ge: "k e \<le> k y" if y: "y \<in> set (dropWhile ?P xs)" for y
  proof -
    obtain z zs where z: "dropWhile ?P xs = z # zs" 
      using y by (cases "dropWhile ?P xs") auto
    then have "compare e z < 0" using hd_dropWhile [of ?P xs] by simp
    then have "k e \<le> k z" by (rule rankedD1 [OF assms(1)])
    moreover have "k z \<le> k y" using s(2) y z by auto
    ultimately show ?thesis by simp
  qed
  show ?thesis
    unfolding place_def map_append list.map sorted_append sorted_simps using s le ge by auto
qed

text \<open>With several requests of the same rank the cut is still well defined,
  when the comparison only looks at ranks.\<close>

definition by_rank :: "('e \<Rightarrow> 'e \<Rightarrow> int) \<Rightarrow> ('e \<Rightarrow> 'k::linorder) \<Rightarrow> bool" where
  "by_rank compare k \<longleftrightarrow> (\<forall>a b. compare a b < 0 \<longleftrightarrow> k a \<le> k b) \<or> (\<forall>a b. compare a b < 0 \<longleftrightarrow> k a < k b)"

lemma by_rank_ranked: "by_rank compare k \<Longrightarrow> ranked (\<lambda>a b. compare a b < 0) k"
  unfolding by_rank_def ranked_def by auto

lemma by_rank_cut: "by_rank compare k \<Longrightarrow> sorted (map k xs) \<Longrightarrow> cut_at compare e xs"
  unfolding by_rank_def cut_at_def sorted_map
  by (elim disjE; erule sorted_wrt_mono_rel [rotated]) auto

lemma nrb_enqueue:
  assumes "by_rank compare k" "nrb_ok k s" "nrb_fits e s"
  shows "\<exists>s'. NrsRbtree_Enqueue compare e s = Some s' \<and> nrb_ok k s' \<and> nrb_bag s' = add_mset e (nrb_bag s)
    \<and> nrb_line s' = place compare e (nrb_line s)"
proof -
  obtain T where T: "rb_insert compare e (nrb_tree s) = Some T" "rb_ok T"
    using insert_total [of "nrb_tree s" compare e] assms(2) by (auto simp: nrb_ok_def)
  have cut: "cut_at compare e (nrb_line s)"
    using by_rank_cut [OF assms(1)] assms(2) by (simp add: nrb_ok_def)
  then have pl: "inord (rb_root T) = place compare e (nrb_line s)"
    using insert_inord [OF T(1)] by (simp add: nrb_line_def)
  have ms: "mset (inord (rb_root T)) = add_mset e (nrb_bag s)"
    using insert_mset(1) [OF T(1)] by (simp add: nrb_bag_def nrb_line_def)
  have "sorted (map k (inord (rb_root T)))"
    using place_sorted [OF by_rank_ranked [OF assms(1)]] assms(2) pl by (simp add: nrb_ok_def)
  moreover have "length (inord (rb_root T)) = Suc (length (nrb_line s))"
    using arg_cong [OF ms, of size] by (simp add: nrb_bag_def)
  moreover have "distinct (inord (rb_root T))"
  proof -
    have "mset (inord (rb_root T)) = mset (e # nrb_line s)" using ms by (simp add: nrb_bag_def)
    moreover have "distinct (e # nrb_line s)" using assms(2,3) by (auto simp: nrb_ok_def nrb_fits_def nrb_bag_def)
    ultimately show ?thesis using mset_eq_imp_distinct_iff by blast
  qed
  ultimately show ?thesis using T assms(2,3) pl ms
    by (auto simp: NrsRbtree_Enqueue_def nrb_ok_def nrb_fits_def nrb_line_def nrb_bag_def)
qed

lemma nrb_erase:
  assumes "nrb_ok k s" "e \<in># nrb_bag s"
  shows "\<exists>s'. NrsRbtree_Erase e s = Some s' \<and> nrb_ok k s' \<and> nrb_bag s = add_mset e (nrb_bag s')
    \<and> nrb_line s' = remove1 e (nrb_line s)"
proof -
  obtain T xs ys where T: "rb_erase e (nrb_tree s) = Some T" "rb_ok T"
    "nrb_line s = xs @ e # ys" "inord (rb_root T) = xs @ ys"
    using erase_total [of "nrb_tree s" e] assms by (auto simp: nrb_ok_def nrb_bag_def nrb_line_def)
  moreover have "e \<notin> set xs" using assms(1) T(3) by (simp add: nrb_ok_def)
  ultimately show ?thesis using assms(1)
    by (auto simp: NrsRbtree_Erase_def nrb_ok_def nrb_line_def nrb_bag_def sorted_append remove1_append)
qed

lemma nrb_dequeue:
  assumes "nrb_ok k s" "nrb_bag s \<noteq> {#}"
  shows "\<exists>e s'. NrsRbtree_Dequeue s = Some (Some e, s') \<and> nrb_ok k s' \<and> nrb_line s = e # nrb_line s'"
proof -
  obtain e l where l: "nrb_line s = e # l" using assms(2) by (cases "nrb_line s") (auto simp: nrb_bag_def)
  then have f: "rb_first (nrb_tree s) = Some e" by (simp add: rb_first_def first_of_inord nrb_line_def)
  obtain s' where s': "NrsRbtree_Erase e s = Some s'" "nrb_ok k s'" "nrb_line s' = remove1 e (nrb_line s)"
    using nrb_erase [OF assms(1), of e] l by (auto simp: nrb_bag_def)
  then have "NrsRbtree_Dequeue s = Some (Some e, s')"
    using f by (auto simp: NrsRbtree_Dequeue_def NrsRbtree_Erase_def)
  then show ?thesis using s' l by auto
qed

lemma nrb_dequeue_empty:
  "nrb_bag s = {#} \<Longrightarrow> NrsRbtree_Dequeue s = Some (None, s)"
  by (simp add: NrsRbtree_Dequeue_def rb_first_def first_of_inord nrb_line_def nrb_bag_def)

text \<open>The total forms of the operations, as the users of the scheduler see
  them.\<close>

definition nrb_enq :: "('e \<Rightarrow> 'e \<Rightarrow> int) \<Rightarrow> 'e \<Rightarrow> 'e nrs_rbtree \<Rightarrow> 'e nrs_rbtree" where
  "nrb_enq compare e s = (case NrsRbtree_Enqueue compare e s of Some s' \<Rightarrow> s' | None \<Rightarrow> s)"

definition nrb_deq :: "'e nrs_rbtree \<Rightarrow> 'e option \<times> 'e nrs_rbtree" where
  "nrb_deq s = (case NrsRbtree_Dequeue s of Some r \<Rightarrow> r | None \<Rightarrow> (None, s))"

text \<open>A comparison function with its rank makes the tree a scheduler that
  serves by rank.\<close>

locale rb_queue =
  fixes compare :: "'e \<Rightarrow> 'e \<Rightarrow> int" and k :: "'e \<Rightarrow> 'k::linorder"
  assumes compare_rank: "by_rank compare k"

sublocale rb_queue \<subseteq> ranked_scheduler "nrb_ok k" nrb_bag nrb_fits "nrb_enq compare" nrb_deq k
proof
  show "nrb_ok k (nrb_enq compare e s) \<and> nrb_bag (nrb_enq compare e s) = add_mset e (nrb_bag s)"
    if "nrb_ok k s" "nrb_fits e s" for s e
    using nrb_enqueue [OF compare_rank that] by (auto simp: nrb_enq_def)
  show "\<exists>s'. nrb_deq s = (None, s') \<and> nrb_ok k s' \<and> nrb_bag s' = {#}" if "nrb_ok k s" "nrb_bag s = {#}" for s
    using that nrb_dequeue_empty [OF that(2)] by (simp add: nrb_deq_def)
  show "\<exists>e s'. nrb_deq s = (Some e, s') \<and> nrb_ok k s' \<and> nrb_bag s = add_mset e (nrb_bag s')"
    if "nrb_ok k s" "nrb_bag s \<noteq> {#}" for s
    using nrb_dequeue [OF that] by (auto simp: nrb_deq_def nrb_bag_def)
  show "k e \<le> k x" if a: "nrb_ok k s" "nrb_deq s = (Some e, s')" "x \<in># nrb_bag s" for s e s' x
  proof -
    obtain e' s1 where "NrsRbtree_Dequeue s = Some (Some e', s1)" "nrb_line s = e' # nrb_line s1"
      using nrb_dequeue [OF a(1)] a(3) by fastforce
    then show ?thesis using a by (auto simp: nrb_deq_def nrb_ok_def nrb_bag_def)
  qed
qed

section \<open>Histories and properties\<close>

context rb_queue
begin

lemma admissible_distinct:
  "nrb_ok k s \<Longrightarrow> length ops + size (nrb_bag s) < 2 ^ 64 \<Longrightarrow> distinct (enqueued ops) \<Longrightarrow>
   set (enqueued ops) \<inter> set_mset (nrb_bag s) = {} \<Longrightarrow> admissible ops s"
proof (induction ops arbitrary: s)
  case (Cons op ops)
  show ?case
  proof (cases op)
    case (Op_enqueue e)
    have f: "nrb_fits e s" using Cons.prems(2,4) Op_enqueue by (simp add: nrb_fits_def)
    then have "nrb_ok k (nrb_enq compare e s)" "nrb_bag (nrb_enq compare e s) = add_mset e (nrb_bag s)"
      using enq_law [OF Cons.prems(1)] by auto
    then have "admissible ops (nrb_enq compare e s)"
      using Cons.prems(2-4) Op_enqueue by (intro Cons.IH) auto
    then show ?thesis using f Op_enqueue by simp
  next
    case Op_dequeue
    from Cons.prems(1) show ?thesis
    proof (cases rule: deq_cases)
      case (1 s')
      then show ?thesis using Op_dequeue Cons.prems Cons.IH [of s'] by simp
    next
      case (2 e s')
      then show ?thesis using Op_dequeue Cons.prems Cons.IH [of s'] by auto
    qed
  qed
qed simp

lemma history:
  assumes "length ops < 2 ^ 64" "distinct (enqueued ops)"
    and "run_ops (nrb_enq compare) nrb_deq ops NrsRbtree_new = (out, s)"
    and "run_ops (nrb_enq compare) nrb_deq (deq_times (size (nrb_bag s))) s = (rest, s')"
  shows "mset (enqueued ops) = mset out + mset rest \<and> sorted (map k rest)
    \<and> Scheduler_Size s = of_nat (length rest) \<and> nrb_bag s' = {#}"
proof -
  have a: "admissible ops NrsRbtree_new" using assms(1,2) by (intro admissible_distinct) simp_all
  have s: "nrb_ok k s" "mset (enqueued ops) = mset out + nrb_bag s"
    using conservation [OF nrb_new(1) a assms(3)] by simp_all
  have d: "nrb_bag s' = {#}" "mset rest = nrb_bag s" "sorted (map k rest)"
    using drain [OF s(1) order_refl assms(4)] drain_sorted [OF s(1) assms(4)] by auto
  then have "length rest = length (nrb_line s)" by (metis nrb_bag_def size_mset)
  then show ?thesis using s d by (auto simp: nrb_ok_def Scheduler_Size_def)
qed

end

text \<open>C7 The tree scheduler conserves requests and serves by rank: whatever the
  history of enqueues (of distinct requests) and dequeues, every request is
  either served once or still queued, Size() counts the queued ones, and
  draining the queue serves the rest in the order of their ranks.\<close>

theorem nrsrbtree_conserves_and_sorts:
  assumes "by_rank compare k" "length ops < 2 ^ 64" "distinct (enqueued ops)"
    and "run_ops (nrb_enq compare) nrb_deq ops NrsRbtree_new = (out, s)"
    and "run_ops (nrb_enq compare) nrb_deq (deq_times (size (nrb_bag s))) s = (rest, s')"
  shows "mset (enqueued ops) = mset out + mset rest \<and> sorted (map k rest)
    \<and> Scheduler_Size s = of_nat (length rest) \<and> nrb_bag s' = {#}"
  using rb_queue.history [OF rb_queue.intro [OF assms(1)] assms(2-5)] .

theorem nrsrbtree_conserves_and_sorts_witness:
  "let ops = [Op_enqueue (5 :: int), Op_enqueue 3, Op_dequeue, Op_enqueue 9]; run = run_ops (nrb_enq (\<lambda>a b. a - b)) nrb_deq;
       (out, s) = run ops NrsRbtree_new; (rest, s') = run (deq_times (size (nrb_bag s))) s in
   {#5, 3, 9#} = mset out + mset rest \<and> sorted rest"
proof -
  have r: "by_rank (\<lambda>a b. a - b :: int) id" by (auto simp: by_rank_def)
  show ?thesis
    using nrsrbtree_conserves_and_sorts [OF r, of "[Op_enqueue 5, Op_enqueue 3, Op_dequeue, Op_enqueue 9]"]
    by (auto simp: Let_def split: prod.split)
qed

end
