(* ===== verification/EventLoop.thy ===== *)
theory EventLoop
  imports NrsRbTree NrsBinHeap
begin

text \<open>
  The discrete event loop of src/lustre/event.cpp and the timers of
  src/lustre/timer.cpp.  An event is known by a number; the state holds each
  event's \<open>run\<close> flag and \<open>runTime\<close>.  What an event's function
  does is a parameter, the handler: from the clock and the state of the
  simulated system it computes the new state and the calls it makes back into
  the event system.  A failing assert is an \<open>Inl\<close>.
\<close>

section \<open>The run queue\<close>

record ev =
  ev_id :: nat
  ev_time :: cfs_time

definition RunTimeCompare :: "ev \<Rightarrow> ev \<Rightarrow> int" where
  "RunTimeCompare a b = (if ev_time a > ev_time b then 1 else -1)"

definition BinheapRunTimeCompare :: "ev \<Rightarrow> ev \<Rightarrow> bool" where
  "BinheapRunTimeCompare a b \<longleftrightarrow> ev_time b \<ge> ev_time a"

text \<open>\<open>Event::runQ\<close> is a pointer to a Scheduler; its virtual functions.\<close>

record 'q runq_ops =
  rq_enqueue :: "ev \<Rightarrow> 'q \<Rightarrow> 'q"
  rq_dequeue :: "'q \<Rightarrow> ev option \<times> 'q"
  rq_erase :: "ev \<Rightarrow> 'q \<Rightarrow> 'q"

definition rbtree_runq :: "ev nrs_rbtree runq_ops" where
  "rbtree_runq = \<lparr>rq_enqueue = nrb_enq RunTimeCompare, rq_dequeue = nrb_deq,
     rq_erase = (\<lambda>e q. case NrsRbtree_Erase e q of Some q' \<Rightarrow> q' | None \<Rightarrow> q)\<rparr>"

definition binheap_runq :: "ev nrs_binheap runq_ops" where
  "binheap_runq = \<lparr>
     rq_enqueue = (\<lambda>e q. case NrsBinheap_Enqueue BinheapRunTimeCompare (\<lambda>_. True) e q of
        Some (_, q') \<Rightarrow> q' | None \<Rightarrow> q),
     rq_dequeue = (\<lambda>q. case NrsBinheap_Dequeue BinheapRunTimeCompare q of
        Some r \<Rightarrow> r | None \<Rightarrow> (None, q)),
     rq_erase = NrsBinheap_Erase\<rparr>"

section \<open>Events\<close>

record ('q, 'u) sim =
  now :: cfs_time
  maxRunTicks :: cfs_time
  runQ :: 'q
  run :: "nat \<Rightarrow> bool"
  runTime :: "nat \<Rightarrow> cfs_time"
  user :: 'u

datatype ev_error = Already_running | Not_in_future | Not_running | Time_went_back

type_synonym ('q, 'u) res = "ev_error + ('q, 'u) sim"

abbreviation entry :: "('q, 'u) sim \<Rightarrow> nat \<Rightarrow> ev" where
  "entry s i \<equiv> \<lparr>ev_id = i, ev_time = runTime s i\<rparr>"

definition InsertRunQ :: "'q runq_ops \<Rightarrow> nat \<Rightarrow> ('q, 'u) sim \<Rightarrow> ('q, 'u) res" where
  "InsertRunQ Q i s =
     (if run s i then Inl Already_running
      else Inr (s\<lparr>runQ := rq_enqueue Q (entry s i) (runQ s), run := (run s)(i := True)\<rparr>))"

definition RemoveFromRunQ :: "'q runq_ops \<Rightarrow> nat \<Rightarrow> ('q, 'u) sim \<Rightarrow> ('q, 'u) res" where
  "RemoveFromRunQ Q i s =
     (if \<not> run s i then Inl Not_running
      else Inr (s\<lparr>runQ := rq_erase Q (entry s i) (runQ s), run := (run s)(i := False)\<rparr>))"

definition RunAfter :: "'q runq_ops \<Rightarrow> nat \<Rightarrow> cfs_time \<Rightarrow> ('q, 'u) sim \<Rightarrow> ('q, 'u) res" where
  "RunAfter Q i ticks s =
     (if run s i then Inl Already_running
      else InsertRunQ Q i (s\<lparr>runTime := (runTime s)(i := now s + ticks)\<rparr>))"

definition RunAt :: "'q runq_ops \<Rightarrow> nat \<Rightarrow> cfs_time \<Rightarrow> ('q, 'u) sim \<Rightarrow> ('q, 'u) res" where
  "RunAt Q i time s =
     (if run s i then Inl Already_running
      else if \<not> time > now s then Inl Not_in_future
      else InsertRunQ Q i (s\<lparr>runTime := (runTime s)(i := time)\<rparr>))"

definition NextRunEvent :: "'q runq_ops \<Rightarrow> ('q, 'u) sim \<Rightarrow> ev option \<times> ('q, 'u) sim" where
  "NextRunEvent Q s =
     (case rq_dequeue Q (runQ s) of
        (None, q) \<Rightarrow> (None, s\<lparr>runQ := q\<rparr>)
      | (Some e, q) \<Rightarrow> (Some e, s\<lparr>runQ := q, run := (run s)(ev_id e := False)\<rparr>))"

text \<open>Thread::Signal runs the thread after a random delay, whose value is
  drawn from rand(); Thread::Sleep is RunAfter.\<close>

definition Thread_Signal :: "'q runq_ops \<Rightarrow> nat \<Rightarrow> cfs_time \<Rightarrow> ('q, 'u) sim \<Rightarrow> ('q, 'u) res" where
  "Thread_Signal Q i rand s =
     (if run s i then Inl Already_running
      else InsertRunQ Q i (s\<lparr>runTime := (runTime s)(i := now s + rand)\<rparr>))"

definition DelTimer :: "'q runq_ops \<Rightarrow> nat \<Rightarrow> ('q, 'u) sim \<Rightarrow> ('q, 'u) res" where
  "DelTimer Q i s = (if run s i then RemoveFromRunQ Q i s else Inr s)"

definition ModTimer :: "'q runq_ops \<Rightarrow> nat \<Rightarrow> cfs_time \<Rightarrow> ('q, 'u) sim \<Rightarrow> ('q, 'u) res" where
  "ModTimer Q i expire s =
     (if run s i
      then if expire = runTime s i then Inr s
           else (case RemoveFromRunQ Q i s of Inl e \<Rightarrow> Inl e | Inr s' \<Rightarrow> RunAt Q i expire s')
      else RunAt Q i expire s)"

section \<open>The loop\<close>

datatype act = Act_after nat cfs_time | Act_at nat cfs_time | Act_signal nat cfs_time
  | Act_mod nat cfs_time | Act_del nat

fun perform :: "'q runq_ops \<Rightarrow> act \<Rightarrow> ('q, 'u) sim \<Rightarrow> ('q, 'u) res" where
  "perform Q (Act_after i t) s = RunAfter Q i t s"
| "perform Q (Act_at i t) s = RunAt Q i t s"
| "perform Q (Act_signal i t) s = Thread_Signal Q i t s"
| "perform Q (Act_mod i t) s = ModTimer Q i t s"
| "perform Q (Act_del i) s = DelTimer Q i s"

fun perform_all :: "'q runq_ops \<Rightarrow> act list \<Rightarrow> ('q, 'u) sim \<Rightarrow> ('q, 'u) res" where
  "perform_all Q [] s = Inr s"
| "perform_all Q (a # as) s =
     (case perform Q a s of Inl e \<Rightarrow> Inl e | Inr s' \<Rightarrow> perform_all Q as s')"

type_synonym 'u handler = "nat \<Rightarrow> cfs_time \<Rightarrow> 'u \<Rightarrow> 'u \<times> act list"

text \<open>Event::Run calls the event's function.\<close>

definition Event_Run :: "'q runq_ops \<Rightarrow> 'u handler \<Rightarrow> nat \<Rightarrow> ('q, 'u) sim \<Rightarrow> ('q, 'u) res" where
  "Event_Run Q h i s = (let (u, acts) = h i (now s) (user s) in perform_all Q acts (s\<lparr>user := u\<rparr>))"

datatype ('q, 'u) outcome =
    Aborted ev_error
  | Drained "('q, 'u) sim"        \<comment> \<open>the queue ran empty\<close>
  | Broke "('q, 'u) sim"          \<comment> \<open>the maximal run time was passed\<close>
  | Running "('q, 'u) sim"        \<comment> \<open>the fuel ended\<close>

text \<open>The first loop of Event::Schedule, for at most \<open>fuel\<close> rounds, with
  the events run.\<close>

fun schedule_loop :: "'q runq_ops \<Rightarrow> 'u handler \<Rightarrow> nat \<Rightarrow> ('q, 'u) sim \<Rightarrow> ev list \<times> ('q, 'u) outcome" where
  "schedule_loop Q h 0 s = ([], Running s)"
| "schedule_loop Q h (Suc fuel) s =
     (case NextRunEvent Q s of
        (None, s1) \<Rightarrow> ([], Drained s1)
      | (Some e, s1) \<Rightarrow>
          if \<not> now s1 \<le> ev_time e then ([], Aborted Time_went_back)
          else (case Event_Run Q h (ev_id e) (s1\<lparr>now := ev_time e\<rparr>) of
              Inl err \<Rightarrow> ([e], Aborted err)
            | Inr s2 \<Rightarrow>
                if now s2 > maxRunTicks s2 then ([e], Broke s2)
                else (let (tr, out) = schedule_loop Q h fuel s2 in (e # tr, out))))"

text \<open>The second loop empties the queue.\<close>

fun drain_loop :: "'q runq_ops \<Rightarrow> nat \<Rightarrow> ('q, 'u) sim \<Rightarrow> ('q, 'u) sim option" where
  "drain_loop Q 0 s = None"
| "drain_loop Q (Suc fuel) s =
     (case NextRunEvent Q s of (None, s1) \<Rightarrow> Some s1 | (Some _, s1) \<Rightarrow> drain_loop Q fuel s1)"

definition Schedule :: "'q runq_ops \<Rightarrow> 'u handler \<Rightarrow> nat \<Rightarrow> ('q, 'u) sim \<Rightarrow> ev list \<times> ('q, 'u) outcome" where
  "Schedule Q h fuel s =
     (case schedule_loop Q h fuel (s\<lparr>now := 0\<rparr>) of
        (tr, Drained s') \<Rightarrow> (tr, case drain_loop Q fuel s' of None \<Rightarrow> Running s' | Some s'' \<Rightarrow> Drained s'')
      | (tr, Broke s') \<Rightarrow> (tr, case drain_loop Q fuel s' of None \<Rightarrow> Running s' | Some s'' \<Rightarrow> Drained s'')
      | r \<Rightarrow> r)"

definition SetRunTicks :: "cfs_time \<Rightarrow> ('q, 'u) sim \<Rightarrow> ('q, 'u) sim" where
  "SetRunTicks ticks s = s\<lparr>maxRunTicks := (if ticks \<noteq> 0 then ticks else maxRunTicks s)\<rparr>"

text \<open>Event::CurrentSeconds; the quotient is returned as 32 bits.\<close>

definition CurrentSeconds :: "u64 \<Rightarrow> ('q, 'u) sim \<Rightarrow> u32" where
  "CurrentSeconds TimeUnit s = ucast (now s div TimeUnit)"

section \<open>What the loop asks of its queue\<close>

abbreviation armed :: "('q, 'u) sim \<Rightarrow> nat set" where
  "armed s \<equiv> {i. run s i}"

text \<open>The queue holds one entry for each event whose \<open>run\<close> flag is set;
  events are numbered below \<open>N\<close>.\<close>

definition sim_ok :: "('q \<Rightarrow> bool) \<Rightarrow> ('q \<Rightarrow> ev multiset) \<Rightarrow> nat \<Rightarrow> ('q, 'u) sim \<Rightarrow> bool" where
  "sim_ok qinv bag N s \<longleftrightarrow> qinv (runQ s) \<and> armed s \<subseteq> {..<N}
     \<and> bag (runQ s) = image_mset (entry s) (mset_set (armed s))"

definition times_in :: "nat \<Rightarrow> nat \<Rightarrow> ('q, 'u) sim \<Rightarrow> bool" where
  "times_in lo hi s \<longleftrightarrow> (\<forall>i. run s i \<longrightarrow> lo \<le> unat (runTime s i) \<and> unat (runTime s i) \<le> hi)"

text \<open>Bounds on the calls of the handlers: events below \<open>N\<close>, delays up to
  \<open>D\<close> and absolute times up to \<open>T\<close>.\<close>

fun act_ok :: "nat \<Rightarrow> nat \<Rightarrow> nat \<Rightarrow> act \<Rightarrow> bool" where
  "act_ok N D T (Act_after i t) \<longleftrightarrow> i < N \<and> unat t \<le> D"
| "act_ok N D T (Act_signal i t) \<longleftrightarrow> i < N \<and> unat t \<le> D"
| "act_ok N D T (Act_at i t) \<longleftrightarrow> i < N \<and> unat t \<le> T"
| "act_ok N D T (Act_mod i t) \<longleftrightarrow> i < N \<and> unat t \<le> T"
| "act_ok N D T (Act_del i) \<longleftrightarrow> True"

definition handler_ok :: "nat \<Rightarrow> nat \<Rightarrow> nat \<Rightarrow> 'u handler \<Rightarrow> bool" where
  "handler_ok N D T h \<longleftrightarrow> (\<forall>i t u. \<forall>a\<in>set (snd (h i t u)). act_ok N D T a)"

lemma entry_inj: "inj (entry s)"
  by (rule injI) simp

locale event_queue = ranked_scheduler inv bag fits "rq_enqueue Q" "rq_dequeue Q" ev_time
  for inv :: "'q \<Rightarrow> bool" and bag fits and Q :: "'q runq_ops" +
  assumes fitsI: "inv q \<Longrightarrow> e \<notin># bag q \<Longrightarrow> Suc (size (bag q)) < 2 ^ 64 \<Longrightarrow> fits e q"
    and erase_law: "inv q \<Longrightarrow> e \<in># bag q \<Longrightarrow>
      inv (rq_erase Q e q) \<and> bag q = add_mset e (bag (rq_erase Q e q))"
begin

lemma armed_finite: "sim_ok inv bag N s \<Longrightarrow> finite (armed s)"
  unfolding sim_ok_def by (blast intro: finite_subset [of _ "{..<N}"])

lemma insert_ok:
  assumes "sim_ok inv bag N s" "\<not> run s i" "i < N" "N < 2 ^ 64"
  shows "\<exists>q. InsertRunQ Q i (s\<lparr>runTime := (runTime s)(i := t)\<rparr>) =
      Inr (s\<lparr>runTime := (runTime s)(i := t), runQ := q, run := (run s)(i := True)\<rparr>)
    \<and> sim_ok inv bag N (s\<lparr>runTime := (runTime s)(i := t), runQ := q, run := (run s)(i := True)\<rparr>)"
proof -
  let ?e = "\<lparr>ev_id = i, ev_time = t\<rparr>" and ?q = "rq_enqueue Q \<lparr>ev_id = i, ev_time = t\<rparr> (runQ s)"
  have fin: "finite (armed s)" by (rule armed_finite [OF assms(1)])
  have bg: "inv (runQ s)" "bag (runQ s) = image_mset (entry s) (mset_set (armed s))" "armed s \<subseteq> {..<N}"
    using assms(1) by (auto simp: sim_ok_def)
  have "?e \<notin># bag (runQ s)" using bg(2) fin assms(2) by auto
  moreover have "Suc (size (bag (runQ s))) < 2 ^ 64"
  proof -
    have "insert i (armed s) \<subseteq> {..<N}" using bg(3) assms(3) by auto
    then have "card (insert i (armed s)) \<le> N" using card_mono [of "{..<N}"] by fastforce
    then show ?thesis using bg(2) fin assms(2,4) by simp
  qed
  ultimately have eq: "inv ?q" "bag ?q = add_mset ?e (bag (runQ s))"
    using enq_law [OF bg(1) fitsI [OF bg(1)]] by auto
  have arm: "armed (s\<lparr>runTime := (runTime s)(i := t), runQ := ?q, run := (run s)(i := True)\<rparr>) = insert i (armed s)"
    by auto
  have "image_mset (entry (s\<lparr>runTime := (runTime s)(i := t), runQ := ?q, run := (run s)(i := True)\<rparr>)) (mset_set (armed s))
      = image_mset (entry s) (mset_set (armed s))"
    using fin assms(2) by (intro image_mset_cong) auto
  then have "sim_ok inv bag N (s\<lparr>runTime := (runTime s)(i := t), runQ := ?q, run := (run s)(i := True)\<rparr>)"
    using eq bg fin assms(2,3) unfolding sim_ok_def arm by auto
  then show ?thesis using assms(2) by (intro exI [of _ ?q]) (simp add: InsertRunQ_def)
qed

lemma remove_ok:
  assumes "sim_ok inv bag N s" "run s i"
  shows "\<exists>q. RemoveFromRunQ Q i s = Inr (s\<lparr>runQ := q, run := (run s)(i := False)\<rparr>)
    \<and> sim_ok inv bag N (s\<lparr>runQ := q, run := (run s)(i := False)\<rparr>)"
proof -
  let ?q = "rq_erase Q (entry s i) (runQ s)"
  have fin: "finite (armed s)" by (rule armed_finite [OF assms(1)])
  have bg: "inv (runQ s)" "bag (runQ s) = image_mset (entry s) (mset_set (armed s))" "armed s \<subseteq> {..<N}"
    using assms(1) by (auto simp: sim_ok_def)
  have "entry s i \<in># bag (runQ s)" using bg(2) fin assms(2) by auto
  then have eq: "inv ?q" "bag (runQ s) = add_mset (entry s i) (bag ?q)" using erase_law [OF bg(1)] by auto
  have arm: "armed (s\<lparr>runQ := ?q, run := (run s)(i := False)\<rparr>) = armed s - {i}" by auto
  have "mset_set (armed s) = add_mset i (mset_set (armed s - {i}))"
    using mset_set.remove [OF fin, of i] assms(2) by simp
  then have "bag ?q = image_mset (entry s) (mset_set (armed s - {i}))" using eq(2) bg(2) by simp
  then have "sim_ok inv bag N (s\<lparr>runQ := ?q, run := (run s)(i := False)\<rparr>)"
    using eq(1) bg(3) unfolding sim_ok_def arm by auto
  then show ?thesis using assms(2) by (intro exI [of _ ?q]) (simp add: RemoveFromRunQ_def)
qed

lemma next_ok:
  assumes "sim_ok inv bag N s"
  obtains q where "NextRunEvent Q s = (None, s\<lparr>runQ := q\<rparr>)" "armed s = {}" "sim_ok inv bag N (s\<lparr>runQ := q\<rparr>)"
  | i q where "NextRunEvent Q s = (Some (entry s i), s\<lparr>runQ := q, run := (run s)(i := False)\<rparr>)"
    "run s i" "\<And>j. run s j \<Longrightarrow> runTime s i \<le> runTime s j"
    "sim_ok inv bag N (s\<lparr>runQ := q, run := (run s)(i := False)\<rparr>)"
proof -
  have fin: "finite (armed s)" by (rule armed_finite [OF assms(1)])
  have bg: "inv (runQ s)" "bag (runQ s) = image_mset (entry s) (mset_set (armed s))" "armed s \<subseteq> {..<N}"
    using assms(1) by (auto simp: sim_ok_def)
  from bg(1) show thesis
  proof (cases rule: deq_cases)
    case (1 q)
    then have "armed s = {}" using bg(2) fin by (simp add: mset_set_empty_iff)
    then show ?thesis using 1 bg by (intro that(1) [of q]) (simp_all add: NextRunEvent_def sim_ok_def)
  next
    case (2 e q)
    have "e \<in># bag (runQ s)" using 2(3) by simp
    then obtain i where i: "run s i" "e = entry s i" using bg(2) fin by auto
    have le: "runTime s i \<le> runTime s j" if "run s j" for j
    proof -
      have "entry s j \<in># bag (runQ s)" using bg(2) fin that by auto
      from deq_least [OF bg(1) 2(1) this] show ?thesis by (simp add: i(2))
    qed
    have arm: "armed (s\<lparr>runQ := q, run := (run s)(i := False)\<rparr>) = armed s - {i}" by auto
    have "mset_set (armed s) = add_mset i (mset_set (armed s - {i}))"
      using mset_set.remove [OF fin, of i] i(1) by simp
    then have "bag q = image_mset (entry s) (mset_set (armed s - {i}))" using 2(3) i(2) bg(2) by simp
    then have "sim_ok inv bag N (s\<lparr>runQ := q, run := (run s)(i := False)\<rparr>)"
      using 2(2) bg(3) unfolding sim_ok_def arm by auto
    then show ?thesis using 2(1) i le by (intro that(2) [of i q]) (simp_all add: NextRunEvent_def)
  qed
qed

text \<open>One call made by a handler.\<close>

lemma arm_ok:
  assumes "sim_ok inv bag N s" "\<not> run s i" "i < N" "N < 2 ^ 64" "times_in lo hi s" "lo \<le> unat t" "unat t \<le> hi"
  shows "\<exists>s'. InsertRunQ Q i (s\<lparr>runTime := (runTime s)(i := t)\<rparr>) = Inr s' \<and> sim_ok inv bag N s'
    \<and> times_in lo hi s' \<and> now s' = now s \<and> maxRunTicks s' = maxRunTicks s"
  using insert_ok [OF assms(1-4), of t] assms(5-7)
  by (elim exE conjE) (intro exI conjI, assumption+, auto simp: times_in_def)

lemma perform_ok:
  assumes "sim_ok inv bag N s" "N < 2 ^ 64" "act_ok N D T a" "times_in (unat (now s)) hi s"
    and "unat (now s) + D \<le> hi" "T \<le> hi" "hi < 2 ^ 64"
  shows "case perform Q a s of Inl e \<Rightarrow> e \<noteq> Time_went_back
    | Inr s' \<Rightarrow> sim_ok inv bag N s' \<and> times_in (unat (now s')) hi s' \<and> now s' = now s \<and> maxRunTicks s' = maxRunTicks s"
proof -
  have after: "\<exists>s'. InsertRunQ Q i (s\<lparr>runTime := (runTime s)(i := now s + t)\<rparr>) = Inr s' \<and> sim_ok inv bag N s'
      \<and> times_in (unat (now s')) hi s' \<and> now s' = now s \<and> maxRunTicks s' = maxRunTicks s"
    if "\<not> run s i" "i < N" "unat t \<le> D" for i t
  proof -
    have "unat (now s + t) = unat (now s) + unat t" using that(3) assms(5,7) by (intro clock_simps) simp
    then show ?thesis
      using arm_ok [OF assms(1) that(1,2) assms(2,4), of "now s + t"] that(3) assms(5) by auto
  qed
  have at: "case RunAt Q i t s' of Inl e \<Rightarrow> e \<noteq> Time_went_back
    | Inr s'' \<Rightarrow> sim_ok inv bag N s'' \<and> times_in (unat (now s'')) hi s'' \<and> now s'' = now s' \<and> maxRunTicks s'' = maxRunTicks s'"
    if "sim_ok inv bag N s'" "times_in (unat (now s')) hi s'" "i < N" "unat t \<le> T" for i t s'
  proof (cases "run s' i \<or> \<not> now s' < t")
    case False
    then have "unat (now s') \<le> unat t" "unat t \<le> hi" using that(4) assms(6) by (auto simp: word_less_nat_alt)
    from arm_ok [OF that(1) _ that(3) assms(2) that(2) this] False show ?thesis by (auto simp: RunAt_def)
  qed (auto simp: RunAt_def)
  show ?thesis
  proof (cases a)
    case (Act_after i t)
    then show ?thesis using assms(3) after [of i t] by (cases "run s i") (auto simp: RunAfter_def)
  next
    case (Act_signal i t)
    then show ?thesis using assms(3) after [of i t] by (cases "run s i") (auto simp: Thread_Signal_def)
  next
    case (Act_at i t)
    then show ?thesis using assms(3) at [OF assms(1,4)] by simp
  next
    case (Act_mod i t)
    show ?thesis
    proof (cases "run s i")
      case True
      then obtain q where q: "RemoveFromRunQ Q i s = Inr (s\<lparr>runQ := q, run := (run s)(i := False)\<rparr>)"
        "sim_ok inv bag N (s\<lparr>runQ := q, run := (run s)(i := False)\<rparr>)"
        using remove_ok [OF assms(1)] by blast
      have "times_in (unat (now s)) hi (s\<lparr>runQ := q, run := (run s)(i := False)\<rparr>)"
        using assms(4) by (simp add: times_in_def)
      then show ?thesis using True Act_mod q at [OF q(2), of i t] assms(1,3,4)
        by (auto simp: ModTimer_def split: sum.splits)
    qed (use Act_mod assms(3) at [OF assms(1,4)] in \<open>simp add: ModTimer_def\<close>)
  next
    case (Act_del i)
    show ?thesis
    proof (cases "run s i")
      case True
      then obtain q where q: "RemoveFromRunQ Q i s = Inr (s\<lparr>runQ := q, run := (run s)(i := False)\<rparr>)"
        "sim_ok inv bag N (s\<lparr>runQ := q, run := (run s)(i := False)\<rparr>)"
        using remove_ok [OF assms(1)] by blast
      then show ?thesis using True Act_del assms(4) by (simp add: DelTimer_def times_in_def)
    qed (use Act_del assms(1,4) in \<open>simp add: DelTimer_def\<close>)
  qed
qed

lemma perform_all_ok:
  assumes "N < 2 ^ 64" "T \<le> hi" "hi < 2 ^ 64"
  shows "sim_ok inv bag N s \<Longrightarrow> \<forall>a\<in>set as. act_ok N D T a \<Longrightarrow> times_in (unat (now s)) hi s \<Longrightarrow>
    unat (now s) + D \<le> hi \<Longrightarrow> case perform_all Q as s of Inl e \<Rightarrow> e \<noteq> Time_went_back
    | Inr s' \<Rightarrow> sim_ok inv bag N s' \<and> times_in (unat (now s')) hi s' \<and> now s' = now s \<and> maxRunTicks s' = maxRunTicks s"
proof (induction as arbitrary: s)
  case (Cons a as)
  have a: "act_ok N D T a" "\<forall>a\<in>set as. act_ok N D T a" using Cons.prems(2) by auto
  note p = perform_ok [OF Cons.prems(1) assms(1) a(1) Cons.prems(3,4) assms(2,3)]
  show ?case
  proof (cases "perform Q a s")
    case (Inr s')
    then show ?thesis using p Cons.IH [of s'] a(2) Cons.prems(4) by (auto split: sum.splits)
  qed (use p in simp)
qed simp

lemma event_run_ok:
  assumes "N < 2 ^ 64" "T \<le> hi" "hi < 2 ^ 64" "handler_ok N D T h"
    and "sim_ok inv bag N s" "times_in (unat (now s)) hi s" "unat (now s) + D \<le> hi"
  shows "case Event_Run Q h i s of Inl e \<Rightarrow> e \<noteq> Time_went_back
    | Inr s' \<Rightarrow> sim_ok inv bag N s' \<and> times_in (unat (now s')) hi s' \<and> now s' = now s \<and> maxRunTicks s' = maxRunTicks s"
proof -
  obtain u acts where ua: "h i (now s) (user s) = (u, acts)" by fastforce
  then have "\<forall>a\<in>set acts. act_ok N D T a" using assms(4) unfolding handler_ok_def by (metis snd_conv)
  moreover have "sim_ok inv bag N (s\<lparr>user := u\<rparr>)" "times_in (unat (now (s\<lparr>user := u\<rparr>))) hi (s\<lparr>user := u\<rparr>)"
    "unat (now (s\<lparr>user := u\<rparr>)) + D \<le> hi"
    using assms(5-7) by (simp_all add: sim_ok_def times_in_def)
  ultimately have "case perform_all Q acts (s\<lparr>user := u\<rparr>) of Inl e \<Rightarrow> e \<noteq> Time_went_back
    | Inr s' \<Rightarrow> sim_ok inv bag N s' \<and> times_in (unat (now s')) hi s' \<and> now s' = now (s\<lparr>user := u\<rparr>)
        \<and> maxRunTicks s' = maxRunTicks (s\<lparr>user := u\<rparr>)"
    using perform_all_ok [OF assms(1-3)] by blast
  then show ?thesis by (auto simp: Event_Run_def ua split: sum.splits)
qed

text \<open>The clock never goes back, whatever the handlers do within their
  bounds: the assertion of the loop holds, the events run in the order of
  their times, and none is run before the clock it was found at.\<close>

lemma loop_ok:
  assumes "N < 2 ^ 64" "handler_ok N D T h" "unat m + D \<le> B" "T \<le> B" "B + D < 2 ^ 64"
  shows "sim_ok inv bag N s \<Longrightarrow> times_in (unat (now s)) B s \<Longrightarrow> now s \<le> m \<Longrightarrow> maxRunTicks s = m \<Longrightarrow>
    schedule_loop Q h fuel s = (tr, out) \<Longrightarrow>
    out \<noteq> Aborted Time_went_back \<and> sorted (map ev_time tr) \<and> (\<forall>e\<in>set tr. now s \<le> ev_time e)
    \<and> (\<forall>s'. out \<in> {Drained s', Broke s', Running s'} \<longrightarrow>
         sim_ok inv bag N s' \<and> now s' = last (now s # map ev_time tr) \<and> (now s' > m \<longleftrightarrow> out = Broke s'))"
proof (induction fuel arbitrary: s tr out)
  case (Suc fuel)
  from Suc.prems(1) show ?case
  proof (cases rule: next_ok)
    case (1 q)
    then show ?thesis using Suc.prems by (auto simp: not_less)
  next
    case (2 i q)
    define s1 where "s1 = s\<lparr>runQ := q, run := (run s)(i := False)\<rparr>"
    define s2 where "s2 = s1\<lparr>now := runTime s i\<rparr>"
    have nle: "now s \<le> runTime s i" using Suc.prems(2) 2(2) by (simp add: times_in_def word_le_nat_alt)
    have leB: "unat (runTime s i) \<le> B" using Suc.prems(2) 2(2) by (simp add: times_in_def)
    have ok2: "sim_ok inv bag N s2" using 2(4) by (simp add: s1_def s2_def sim_ok_def)
    have t2: "times_in (unat (now s2)) (B + D) s2"
      using Suc.prems(2) 2(3) by (auto simp: s1_def s2_def times_in_def word_le_nat_alt trans_le_add1)
    have t2B: "times_in (unat (now s2)) B s2"
      using Suc.prems(2) 2(3) by (auto simp: s1_def s2_def times_in_def word_le_nat_alt)
    have n2: "now s2 = runTime s i" "maxRunTicks s2 = m" using Suc.prems(4) by (simp_all add: s1_def s2_def)
    have step: "schedule_loop Q h (Suc fuel) s =
      (case Event_Run Q h i s2 of Inl err \<Rightarrow> ([entry s i], Aborted err)
       | Inr s3 \<Rightarrow> if now s3 > maxRunTicks s3 then ([entry s i], Broke s3)
          else (let (tr, out) = schedule_loop Q h fuel s3 in (entry s i # tr, out)))"
      using 2(1) nle by (simp add: s1_def s2_def)
    have run2: "case Event_Run Q h i s2 of Inl e \<Rightarrow> e \<noteq> Time_went_back
      | Inr s' \<Rightarrow> sim_ok inv bag N s' \<and> times_in (unat (now s')) (B + D) s' \<and> now s' = now s2 \<and> maxRunTicks s' = maxRunTicks s2"
      using leB assms(4,5) n2(1) by (intro event_run_ok [OF assms(1) _ _ assms(2) ok2 t2]) simp_all
    show ?thesis
    proof (cases "Event_Run Q h i s2")
      case (Inl e)
      then show ?thesis using run2 Suc.prems(5) unfolding step by (auto simp: nle)
    next
      case (Inr s3)
      then have s3: "sim_ok inv bag N s3" "now s3 = runTime s i" "maxRunTicks s3 = m" using run2 n2 by auto
      show ?thesis
      proof (cases "runTime s i > m")
        case True
        then show ?thesis using Suc.prems(5) Inr s3 unfolding step by (auto simp: nle)
      next
        case False
        have "unat (now s2) + D \<le> B" using False assms(3) n2(1) by (simp add: word_less_nat_alt)
        then have "case Event_Run Q h i s2 of Inl e \<Rightarrow> e \<noteq> Time_went_back
          | Inr s' \<Rightarrow> sim_ok inv bag N s' \<and> times_in (unat (now s')) B s' \<and> now s' = now s2 \<and> maxRunTicks s' = maxRunTicks s2"
          using assms(4,5) by (intro event_run_ok [OF assms(1) _ _ assms(2) ok2 t2B]) simp_all
        then have t3: "times_in (unat (now s3)) B s3" using Inr by auto
        obtain tr' where tr': "schedule_loop Q h fuel s3 = (tr', out)" "tr = entry s i # tr'"
          using Suc.prems(5) Inr s3 False unfolding step by (auto split: prod.splits)
        have "now s3 \<le> m" using False s3(2) by simp
        from Suc.IH [OF s3(1) t3 this s3(3) tr'(1)] s3(2) nle tr'(2)
        show ?thesis by (auto intro: order.trans)
      qed
    qed
  qed
qed (auto simp: not_less)

text \<open>Emptying the queue ends once every armed event was dequeued.\<close>

lemma drain_ok:
  "sim_ok inv bag N s \<Longrightarrow> card (armed s) < fuel \<Longrightarrow>
   \<exists>s'. drain_loop Q fuel s = Some s' \<and> sim_ok inv bag N s' \<and> armed s' = {} \<and> now s' = now s"
proof (induction fuel arbitrary: s)
  case (Suc fuel)
  from Suc.prems(1) show ?case
  proof (cases rule: next_ok)
    case (1 q)
    then show ?thesis by auto
  next
    case (2 i q)
    let ?s = "s\<lparr>runQ := q, run := (run s)(i := False)\<rparr>"
    have a: "armed ?s = armed s - {i}" by auto
    have "card (armed s - {i}) < card (armed s)"
      using armed_finite [OF Suc.prems(1)] 2(2) by (intro psubset_card_mono) auto
    then have "card (armed ?s) < fuel" using Suc.prems(2) unfolding a by simp
    from Suc.IH [OF 2(4) this] 2(1) show ?thesis by auto
  qed
qed simp

end

section \<open>The red-black tree as run queue\<close>

lemma RunTime_by_rank: "by_rank RunTimeCompare ev_time"
  by (auto simp: by_rank_def RunTimeCompare_def)

interpretation run_rb: rb_queue RunTimeCompare ev_time
  by unfold_locales (rule RunTime_by_rank)

interpretation rb_loop: event_queue "nrb_ok ev_time" nrb_bag nrb_fits rbtree_runq
proof -
  have eq: "rq_enqueue rbtree_runq = nrb_enq RunTimeCompare" "rq_dequeue rbtree_runq = nrb_deq"
    by (simp_all add: rbtree_runq_def)
  show "event_queue (nrb_ok ev_time) nrb_bag nrb_fits rbtree_runq"
    unfolding event_queue_def event_queue_axioms_def eq
  proof (intro conjI allI impI)
    show "ranked_scheduler (nrb_ok ev_time) nrb_bag nrb_fits (nrb_enq RunTimeCompare) nrb_deq ev_time"
      by (rule run_rb.ranked_scheduler_axioms)
    fix q and e :: ev assume "nrb_ok ev_time q" "e \<in># nrb_bag q"
    from nrb_erase [OF this]
    show "nrb_ok ev_time (rq_erase rbtree_runq e q)"
      "nrb_bag q = add_mset e (nrb_bag (rq_erase rbtree_runq e q))"
      by (auto simp: rbtree_runq_def)
  qed (simp add: nrb_fits_def)
qed

text \<open>The initial state: nothing armed, the default run time limit.\<close>

definition sim_start :: "'q \<Rightarrow> 'u \<Rightarrow> ('q, 'u) sim" where
  "sim_start q u = \<lparr>now = 0, maxRunTicks = -1, runQ = q, run = (\<lambda>_. False), runTime = (\<lambda>_. 0), user = u\<rparr>"

lemma start_ok: "sim_ok (nrb_ok ev_time) nrb_bag N (sim_start NrsRbtree_new u)"
  by (simp add: sim_ok_def sim_start_def)

text \<open>Arming the first events before Schedule is called.\<close>

lemma start_armed:
  assumes "N < 2 ^ 64" "\<forall>a\<in>set as. act_ok N D T a" "D \<le> B" "T \<le> B" "B < 2 ^ 64" "m \<noteq> 0"
    and "perform_all rbtree_runq as (SetRunTicks m (sim_start NrsRbtree_new u)) = Inr s"
  shows "sim_ok (nrb_ok ev_time) nrb_bag N s" "times_in 0 B s" "now s = 0" "maxRunTicks s = m"
proof -
  obtain s0 :: "(ev nrs_rbtree, 'a) sim" where s0: "s0 = SetRunTicks m (sim_start NrsRbtree_new u)"
    by simp
  then have "sim_ok (nrb_ok ev_time) nrb_bag N s0" "times_in 0 B s0" "now s0 = 0" "maxRunTicks s0 = m"
    using assms(6) by (simp_all add: SetRunTicks_def sim_ok_def sim_start_def times_in_def)
  then show "sim_ok (nrb_ok ev_time) nrb_bag N s" "times_in 0 B s" "now s = 0" "maxRunTicks s = m"
    using rb_loop.perform_all_ok [OF assms(1,4,5), of s0 as D] assms(2,3,7) s0 by auto
qed

section \<open>The binary heap as run queue\<close>

lemma BinheapRunTime_ranked: "ranked BinheapRunTimeCompare ev_time"
  by (auto simp: ranked_def BinheapRunTimeCompare_def)

definition nbh_fits :: "'e \<Rightarrow> 'e nrs_binheap \<Rightarrow> bool" where
  "nbh_fits e s \<longleftrightarrow> unat (nbh_size s) < CAA_CELLS"

interpretation run_bh: ranked_scheduler "nbh_ok ev_time" nbh_bag nbh_fits
  "rq_enqueue binheap_runq" "rq_dequeue binheap_runq" ev_time
proof
  fix s :: "ev nrs_binheap" and e :: ev
  note simps = binheap_runq_def nbh_fits_def
  show "nbh_ok ev_time (rq_enqueue binheap_runq e s) \<and> nbh_bag (rq_enqueue binheap_runq e s) = add_mset e (nbh_bag s)"
    if "nbh_ok ev_time s" "nbh_fits e s"
    using nbh_enqueue [OF BinheapRunTime_ranked that(1), of "\<lambda>_. True" e] that(2) by (auto simp: simps)
  show "\<exists>s'. rq_dequeue binheap_runq s = (None, s') \<and> nbh_ok ev_time s' \<and> nbh_bag s' = {#}"
    if "nbh_ok ev_time s" "nbh_bag s = {#}"
  proof -
    have "unat (nbh_size s) = 0" using arg_cong [OF that(2), of size] by (simp add: nbh_bag_def)
    then have "nbh_size s = 0" by (simp add: word_unat_eq_iff)
    then show ?thesis using that by (simp add: simps NrsBinheap_Dequeue_def nbh_ok_def)
  qed
  show "\<exists>e s'. rq_dequeue binheap_runq s = (Some e, s') \<and> nbh_ok ev_time s' \<and> nbh_bag s = add_mset e (nbh_bag s')"
    if "nbh_ok ev_time s" "nbh_bag s \<noteq> {#}"
    using nbh_dequeue [OF BinheapRunTime_ranked that] by (auto simp: simps)
  show "ev_time e \<le> ev_time x"
    if a: "nbh_ok ev_time s" "rq_dequeue binheap_runq s = (Some e, s')" "x \<in># nbh_bag s" for s' x
  proof -
    have "nbh_bag s \<noteq> {#}" using a(3) by auto
    from nbh_dequeue [OF BinheapRunTime_ranked a(1) this] show ?thesis using a(2,3) by (auto simp: simps)
  qed
qed

section \<open>Properties\<close>

text \<open>C3 The event loop never goes back in time.  Events are numbered below
  \<open>N\<close>, delays are at most \<open>D\<close>, absolute times at most \<open>T\<close>, the run
  is limited to \<open>m\<close> ticks, and \<open>B + D\<close>, with \<open>B\<close> the larger of
  \<open>m + D\<close> and \<open>T\<close>, does not wrap 64 bits.  Then, whatever the event
  functions do, the assertion \<open>now <= runTime\<close> holds in every round, the
  events run in the order of their times, and when the loop has ended the clock
  is the time of the last event and the queue is empty.\<close>

theorem schedule_clock_monotone:
  assumes "N < 2 ^ 64" "handler_ok N D T h" "\<forall>a\<in>set as. act_ok N D T a" "m \<noteq> 0"
    and "unat m + D \<le> B" "T \<le> B" "B + D < 2 ^ 64" "N < fuel"
    and "perform_all rbtree_runq as (SetRunTicks m (sim_start NrsRbtree_new u)) = Inr s"
    and "Schedule rbtree_runq h fuel s = (tr, out)"
  shows "out \<noteq> Aborted Time_went_back \<and> sorted (map ev_time tr)
    \<and> (\<forall>s'. out = Drained s' \<longrightarrow> now s' = last (0 # map ev_time tr) \<and> (\<forall>i. \<not> run s' i))"
proof -
  note st = start_armed [OF assms(1,3) _ assms(6) _ assms(4,9)]
  have ok: "sim_ok (nrb_ok ev_time) nrb_bag N s" "times_in 0 B s" "now s = 0" "maxRunTicks s = m"
    using st assms(5,7) by auto
  have s0: "s\<lparr>now := 0\<rparr> = s" using ok(3) by simp
  obtain tr' out' where l: "schedule_loop rbtree_runq h fuel s = (tr', out')" by fastforce
  have loop: "out' \<noteq> Aborted Time_went_back \<and> sorted (map ev_time tr') \<and> (\<forall>e\<in>set tr'. now s \<le> ev_time e)
    \<and> (\<forall>s'. out' \<in> {Drained s', Broke s', Running s'} \<longrightarrow>
         sim_ok (nrb_ok ev_time) nrb_bag N s' \<and> now s' = last (now s # map ev_time tr') \<and> (now s' > m \<longleftrightarrow> out' = Broke s'))"
    using ok by (intro rb_loop.loop_ok [OF assms(1,2,5,6,7) ok(1) _ _ ok(4) l]) simp_all
  have drain: "\<exists>s''. drain_loop rbtree_runq fuel s' = Some s'' \<and> armed s'' = {} \<and> now s'' = now s'"
    if "sim_ok (nrb_ok ev_time) nrb_bag N s'" for s' :: "(ev nrs_rbtree, 'a) sim"
  proof -
    have "card (armed s') \<le> N"
      using that card_mono [of "{..<N}" "armed s'"] by (simp add: sim_ok_def)
    then show ?thesis using rb_loop.drain_ok [OF that, of fuel] assms(8) by auto
  qed
  have srt: "sorted (map ev_time tr')" using loop by blast
  have res: "Schedule rbtree_runq h fuel s = (case (tr', out') of
        (tr, Drained s') \<Rightarrow> (tr, case drain_loop rbtree_runq fuel s' of None \<Rightarrow> Running s' | Some s'' \<Rightarrow> Drained s'')
      | (tr, Broke s') \<Rightarrow> (tr, case drain_loop rbtree_runq fuel s' of None \<Rightarrow> Running s' | Some s'' \<Rightarrow> Drained s'')
      | r \<Rightarrow> r)"
    by (simp only: Schedule_def s0 l)
  have ended: "out \<noteq> Aborted Time_went_back \<and> sorted (map ev_time tr)
    \<and> (\<forall>s'. out = Drained s' \<longrightarrow> now s' = last (0 # map ev_time tr) \<and> (\<forall>i. \<not> run s' i))"
    if o: "out' = Drained s1 \<or> out' = Broke s1" for s1
  proof -
    have "sim_ok (nrb_ok ev_time) nrb_bag N s1" "now s1 = last (0 # map ev_time tr')"
      using loop o ok(3) by auto
    moreover obtain s2 where s2: "drain_loop rbtree_runq fuel s1 = Some s2" "armed s2 = {}" "now s2 = now s1"
      using drain [OF calculation(1)] by blast
    moreover have "(tr, out) = (tr', Drained s2)"
      using res assms(10) o s2(1) by auto
    ultimately show ?thesis using srt by auto
  qed
  show ?thesis
  proof (cases out')
    case (Aborted e)
    then have "e \<noteq> Time_went_back" "(tr, out) = (tr', Aborted e)" using loop res assms(10) by auto
    then show ?thesis using srt by simp
  next
    case (Drained s1)
    then show ?thesis by (intro ended [of s1]) simp
  next
    case (Broke s1)
    then show ?thesis by (intro ended [of s1]) simp
  next
    case (Running s1)
    then have "(tr, out) = (tr', Running s1)" using res assms(10) by auto
    then show ?thesis using srt by simp
  qed
qed

text \<open>Two events that arm each other every 5 ticks, for a run of 12.\<close>

theorem schedule_clock_monotone_witness:
  "case perform_all rbtree_runq [Act_after 0 5] (SetRunTicks 12 (sim_start NrsRbtree_new ())) of
     Inl _ \<Rightarrow> False
   | Inr s \<Rightarrow> sorted (map ev_time (fst (Schedule rbtree_runq (\<lambda>i t u. (u, [Act_after (1 - i) 5])) 9 s)))"
proof -
  have h: "handler_ok 2 5 0 (\<lambda>i t (u :: unit). (u, [Act_after (1 - i) 5]))" by (auto simp: handler_ok_def)
  have "\<exists>s. perform_all rbtree_runq [Act_after 0 5] (SetRunTicks 12 (sim_start NrsRbtree_new ())) = Inr s"
    by (simp add: RunAfter_def InsertRunQ_def SetRunTicks_def sim_start_def)
  then obtain s where s: "perform_all rbtree_runq [Act_after 0 5] (SetRunTicks 12 (sim_start NrsRbtree_new ())) = Inr s"
    by blast
  have "sorted (map ev_time (fst (Schedule rbtree_runq (\<lambda>i t u. (u, [Act_after (1 - i) 5])) 9 s)))"
    using schedule_clock_monotone [OF _ h _ _ _ _ _ _ s surjective_pairing, of 17 9] by simp
  then show ?thesis using s by simp
qed

text \<open>Events armed for the same tick run in the reverse order of their
  arming: the comparison reports equal times as "before", so a new event goes
  in front of those of its own time and behind the earlier ones.\<close>

theorem same_tick_runs_last_armed_first:
  assumes "nrb_ok ev_time q" "nrb_fits e q"
  shows "nrb_line (rq_enqueue rbtree_runq e q) =
      takeWhile (\<lambda>x. ev_time x < ev_time e) (nrb_line q) @ e # dropWhile (\<lambda>x. ev_time x < ev_time e) (nrb_line q)
    \<and> (\<exists>q'. rq_dequeue rbtree_runq (rq_enqueue rbtree_runq e q) =
        (Some (hd (nrb_line (rq_enqueue rbtree_runq e q))), q'))"
proof -
  obtain q1 where q1: "NrsRbtree_Enqueue RunTimeCompare e q = Some q1" "nrb_ok ev_time q1"
    "nrb_bag q1 = add_mset e (nrb_bag q)" "nrb_line q1 = place RunTimeCompare e (nrb_line q)"
    using nrb_enqueue [OF RunTime_by_rank assms] by blast
  have eq: "rq_enqueue rbtree_runq e q = q1" using q1(1) by (simp add: rbtree_runq_def nrb_enq_def)
  have "(\<lambda>x. \<not> RunTimeCompare e x < 0) = (\<lambda>x. ev_time x < ev_time e)" by (auto simp: RunTimeCompare_def)
  moreover obtain e' q' where "NrsRbtree_Dequeue q1 = Some (Some e', q')" "nrb_line q1 = e' # nrb_line q'"
    using nrb_dequeue [OF q1(2)] q1(3) by auto
  ultimately show ?thesis using q1(4) unfolding eq by (simp add: place_def rbtree_runq_def nrb_deq_def)
qed

theorem same_tick_runs_last_armed_first_witness:
  "nrb_line (rq_enqueue rbtree_runq \<lparr>ev_id = 1, ev_time = 5\<rparr> (NrsRbtree_new :: ev nrs_rbtree))
    = [\<lparr>ev_id = 1, ev_time = 5\<rparr>]"
  using same_tick_runs_last_armed_first [of NrsRbtree_new "\<lparr>ev_id = 1, ev_time = 5\<rparr>"]
  by (simp add: nrb_fits_def)

text \<open>With the binary heap as run queue (ALGO_BINHEAP), whose Erase is not
  implemented, a deleted timer still fires: DelTimer clears the flag but the
  event stays in the queue and is the next one run.\<close>

theorem binheap_runq_fires_deleted_timer:
  "\<exists>s1 s2. RunAfter binheap_runq i t (sim_start NrsBinheap_new u) = Inr s1 \<and> DelTimer binheap_runq i s1 = Inr s2
     \<and> \<not> run s2 i \<and> fst (NextRunEvent binheap_runq s2) = Some \<lparr>ev_id = i, ev_time = t\<rparr>"
proof -
  let ?e = "\<lparr>ev_id = i, ev_time = t\<rparr>" and ?q = "rq_enqueue binheap_runq \<lparr>ev_id = i, ev_time = t\<rparr> NrsBinheap_new"
  have "nbh_ok ev_time ?q" "nbh_bag ?q = {#?e#}"
    using run_bh.enq_law [OF nbh_ok_new(1), of ?e] nbh_ok_new(2) by (simp_all add: nbh_fits_def NrsBinheap_new_def caa_cells)
  then have "fst (rq_dequeue binheap_runq ?q) = Some ?e"
    using run_bh.deq_some [of ?q] by (auto simp: single_is_union)
  then have "fst (NextRunEvent binheap_runq ((sim_start ?q u)\<lparr>runTime := r, run := f\<rparr>)) = Some ?e" for r f
    by (auto simp: NextRunEvent_def sim_start_def split: prod.splits option.splits)
  then show ?thesis
    by (simp add: RunAfter_def InsertRunQ_def DelTimer_def RemoveFromRunQ_def sim_start_def
        binheap_runq_def [THEN arg_cong, of rq_erase] NrsBinheap_Erase_def)
qed

end
