(* ===== verification/IntervalTree.thy ===== *)
theory IntervalTree
  imports RbTree
begin

text \<open>
  The augmented red-black tree of extents of src/lustre/intervaltree.cpp,
  which the lock manager keeps its granted extent locks in.  Trees and parent
  chains are those of RbTree; the entry of a node carries its extent, the
  cached upper bound \<open>in_max_high\<close> of the ends below it, and an
  identity.  \<open>None\<close> is a NULL dereference or a failing LASSERT.
\<close>

section \<open>Nodes and extents\<close>

record extent =
  ext_start :: u64
  ext_end :: u64

record inode =
  in_extent :: extent
  in_max_high :: u64
  in_intree :: bool
  in_id :: nat

type_synonym itree = "inode rbt"
type_synonym ipath = "inode path"

definition interval_low :: "inode \<Rightarrow> u64" where
  "interval_low n = ext_start (in_extent n)"

definition interval_high :: "inode \<Rightarrow> u64" where
  "interval_high n = ext_end (in_extent n)"

definition interval_set :: "u64 \<Rightarrow> u64 \<Rightarrow> inode \<Rightarrow> inode option" where
  "interval_set s e n =
     (if s \<le> e then Some (n\<lparr>in_extent := \<lparr>ext_start = s, ext_end = e\<rparr>, in_max_high := e\<rparr>) else None)"

definition extent_compare :: "extent \<Rightarrow> extent \<Rightarrow> int" where
  "extent_compare e1 e2 =
     (if ext_start e1 = ext_start e2
      then if ext_end e1 < ext_end e2 then -1 else if ext_end e1 > ext_end e2 then 1 else 0
      else if ext_start e1 < ext_start e2 then -1 else 1)"

definition extent_equal :: "extent \<Rightarrow> extent \<Rightarrow> bool" where
  "extent_equal e1 e2 \<longleftrightarrow> ext_start e1 = ext_start e2 \<and> ext_end e1 = ext_end e2"

definition extent_overlapped :: "extent \<Rightarrow> extent \<Rightarrow> bool" where
  "extent_overlapped e1 e2 \<longleftrightarrow> ext_start e1 \<le> ext_end e2 \<and> ext_start e2 \<le> ext_end e1"

definition node_compare :: "inode \<Rightarrow> inode \<Rightarrow> int" where
  "node_compare a b = extent_compare (in_extent a) (in_extent b)"

fun max_high_of :: "itree \<Rightarrow> u64" where
  "max_high_of Leaf = 0"
| "max_high_of (Node _ _ x _) = in_max_high x"

text \<open>The value every update of the field computes.\<close>

definition refresh :: "itree \<Rightarrow> inode \<Rightarrow> itree \<Rightarrow> inode" where
  "refresh l x r = x\<lparr>in_max_high := max (interval_high x) (max (max_high_of l) (max_high_of r))\<rparr>"

section \<open>Rotations and insertion\<close>

fun it_rotate_left :: "itree \<Rightarrow> itree option" where
  "it_rotate_left (Node c a x (Node c' b y d)) =
     Some (Node c' (Node c a (refresh a x b) b) (y\<lparr>in_max_high := in_max_high x\<rparr>) d)"
| "it_rotate_left _ = None"

fun it_rotate_right :: "itree \<Rightarrow> itree option" where
  "it_rotate_right (Node c (Node c' a x b) y d) =
     Some (Node c' a (x\<lparr>in_max_high := in_max_high y\<rparr>) (Node c b (refresh b y d) d))"
| "it_rotate_right _ = None"

fun interval_insert_color :: "itree \<Rightarrow> ipath \<Rightarrow> (itree \<times> ipath) option" where
  "interval_insert_color node [] = Some (node, [])"
| "interval_insert_color node (FL Black x r # p) = Some (node, FL Black x r # p)"
| "interval_insert_color node (FR Black l x # p) = Some (node, FR Black l x # p)"
| "interval_insert_color node [FL Red x r] = None"
| "interval_insert_color node [FR Red l x] = None"
| "interval_insert_color node (FL Red x r # FL gc g uncle # p) =
     (if rb_is_red uncle
      then interval_insert_color (Node Red (Node Black node x r) g (rb_set_black uncle)) p
      else map_option (\<lambda>t. (t, p)) (it_rotate_right (Node Red (Node Black node x r) g uncle)))"
| "interval_insert_color node (FR Red l x # FL gc g uncle # p) =
     (if rb_is_red uncle
      then interval_insert_color (Node Red (Node Black l x node) g (rb_set_black uncle)) p
      else Option.bind (it_rotate_left (Node Red l x node)) (\<lambda>t.
           map_option (\<lambda>t. (t, p)) (it_rotate_right (Node Red (rb_set_black t) g uncle))))"
| "interval_insert_color node (FR Red l x # FR gc uncle g # p) =
     (if rb_is_red uncle
      then interval_insert_color (Node Red (rb_set_black uncle) g (Node Black l x node)) p
      else map_option (\<lambda>t. (t, p)) (it_rotate_left (Node Red uncle g (Node Black l x node))))"
| "interval_insert_color node (FL Red x r # FR gc uncle g # p) =
     (if rb_is_red uncle
      then interval_insert_color (Node Red (rb_set_black uncle) g (Node Black node x r)) p
      else Option.bind (it_rotate_right (Node Red node x r)) (\<lambda>t.
           map_option (\<lambda>t. (t, p)) (it_rotate_left (Node Red uncle g (rb_set_black t)))))"

text \<open>The walk of interval_insert: it stops at a node of equal extent, and
  raises \<open>in_max_high\<close> of every node it passes.\<close>

fun it_walk :: "inode \<Rightarrow> itree \<Rightarrow> ipath \<Rightarrow> itree \<times> ipath" where
  "it_walk n Leaf p = (Leaf, p)"
| "it_walk n (Node c l x r) p =
     (if extent_equal (in_extent x) (in_extent n) then (Node c l x r, p)
      else let x' = (if in_max_high x < interval_high n then x\<lparr>in_max_high := interval_high n\<rparr> else x) in
        if node_compare n x' < 0 then it_walk n l (FL c x' r # p)
        else it_walk n r (FR c l x' # p))"

text \<open>The result is the node of equal extent that was found, if any, and the
  tree.\<close>

definition interval_insert :: "inode \<Rightarrow> itree \<Rightarrow> (inode option \<times> itree) option" where
  "interval_insert n t =
     (if in_intree n then None
      else case it_walk n t [] of
        (Node c l x r, p) \<Rightarrow> Some (Some x, zip_up (Node c l x r) p)
      | (Leaf, p) \<Rightarrow>
          map_option (\<lambda>(s, q). (None, rb_set_black (zip_up s q)))
            (interval_insert_color (Node Red Leaf (n\<lparr>in_intree := True\<rparr>) Leaf) p))"

section \<open>Removal\<close>

definition it_erase_left :: "itree \<Rightarrow> color \<Rightarrow> inode \<Rightarrow> itree \<Rightarrow> (itree + itree) option" where
  "it_erase_left node c x other =
     (case other of
        Leaf \<Rightarrow> None
      | Node oc ol y ort \<Rightarrow>
          if nil_or_black ol \<and> nil_or_black ort
          then Some (Inl (Node c node x (Node Red ol y ort)))
          else
            (case (if nil_or_black ort
                   then it_rotate_right (Node Red (rb_set_black ol) y ort)
                   else Some other) of
               None \<Rightarrow> None
             | Some other' \<Rightarrow>
                 (case rb_set_color c other' of
                    Leaf \<Rightarrow> None
                  | Node c' ol' y' ort' \<Rightarrow>
                      map_option Inr (it_rotate_left (Node Black node x (Node c' ol' y' (rb_set_black ort')))))))"

definition it_erase_right :: "itree \<Rightarrow> color \<Rightarrow> inode \<Rightarrow> itree \<Rightarrow> (itree + itree) option" where
  "it_erase_right other c x node =
     (case other of
        Leaf \<Rightarrow> None
      | Node oc ol y ort \<Rightarrow>
          if nil_or_black ol \<and> nil_or_black ort
          then Some (Inl (Node c (Node Red ol y ort) x node))
          else
            (case (if nil_or_black ol
                   then it_rotate_left (Node Red ol y (rb_set_black ort))
                   else Some other) of
               None \<Rightarrow> None
             | Some other' \<Rightarrow>
                 (case rb_set_color c other' of
                    Leaf \<Rightarrow> None
                  | Node c' ol' y' ort' \<Rightarrow>
                      map_option Inr (it_rotate_right (Node Black (Node c' (rb_set_black ol') y' ort') x node)))))"

text \<open>A red sibling is rotated above the parent first; the rotation
  recomputes the bounds of the two nodes.\<close>

fun interval_erase_color :: "itree \<Rightarrow> ipath \<Rightarrow> itree option" where
  "interval_erase_color node [] = Some (rb_set_black node)"
| "interval_erase_color node (FL c x other # p) =
     (if rb_is_red node then Some (zip_up (rb_set_black node) (FL c x other # p))
      else case other of
        Leaf \<Rightarrow> None
      | Node Red ol y ort \<Rightarrow>
          (case it_erase_left node Red (refresh node x ol) ol of
             None \<Rightarrow> None
           | Some (Inl t) \<Rightarrow> Some (zip_up (rb_set_black t) (FL Black (y\<lparr>in_max_high := in_max_high x\<rparr>) ort # p))
           | Some (Inr t) \<Rightarrow> Some (rb_set_black (zip_up t (FL Black (y\<lparr>in_max_high := in_max_high x\<rparr>) ort # p))))
      | Node Black ol y ort \<Rightarrow>
          (case it_erase_left node c x other of
             None \<Rightarrow> None
           | Some (Inl t) \<Rightarrow> interval_erase_color t p
           | Some (Inr t) \<Rightarrow> Some (rb_set_black (zip_up t p))))"
| "interval_erase_color node (FR c other x # p) =
     (if rb_is_red node then Some (zip_up (rb_set_black node) (FR c other x # p))
      else case other of
        Leaf \<Rightarrow> None
      | Node Red ol y ort \<Rightarrow>
          (case it_erase_right ort Red (refresh ort x node) node of
             None \<Rightarrow> None
           | Some (Inl t) \<Rightarrow> Some (zip_up (rb_set_black t) (FR Black ol (y\<lparr>in_max_high := in_max_high x\<rparr>) # p))
           | Some (Inr t) \<Rightarrow> Some (rb_set_black (zip_up t (FR Black ol (y\<lparr>in_max_high := in_max_high x\<rparr>) # p))))
      | Node Black ol y ort \<Rightarrow>
          (case it_erase_right other c x node of
             None \<Rightarrow> None
           | Some (Inl t) \<Rightarrow> interval_erase_color t p
           | Some (Inr t) \<Rightarrow> Some (rb_set_black (zip_up t p))))"

text \<open>update_maxhigh climbs from a node, and does nothing when called with
  NULL.\<close>

fun upd_frames :: "itree \<Rightarrow> ipath \<Rightarrow> u64 \<Rightarrow> ipath" where
  "upd_frames t [] old = []"
| "upd_frames t (FL c x r # p) old =
     (let x' = refresh t x r in
      FL c x' r # (if in_max_high x' \<ge> old then p else upd_frames (Node c t x' r) p old))"
| "upd_frames t (FR c l x # p) old =
     (let x' = refresh l x t in
      FR c l x' # (if in_max_high x' \<ge> old then p else upd_frames (Node c l x' t) p old))"

fun update_maxhigh :: "itree \<Rightarrow> ipath \<Rightarrow> u64 \<Rightarrow> itree \<times> ipath" where
  "update_maxhigh Leaf p old = (Leaf, p)"
| "update_maxhigh (Node c l x r) p old =
     (let x' = refresh l x r; t = Node c l x' r in
      (t, if in_max_high x' \<ge> old then p else upd_frames t p old))"

text \<open>interval_erase at a node.  With two children the successor \<open>y\<close> is
  moved to the node's place, \<open>update_maxhigh\<close> is called from the child it
  left behind and then from its new place, \<open>length q\<close> frames up.\<close>

definition interval_erase_at :: "color \<Rightarrow> itree \<Rightarrow> inode \<Rightarrow> itree \<Rightarrow> ipath \<Rightarrow> itree option" where
  "interval_erase_at c l x r p =
     (let (color, child, path) =
        (if l = Leaf then let (ch, p') = update_maxhigh r p (in_max_high x) in (c, ch, p')
         else (case r of
            Leaf \<Rightarrow> let (ch, p') = update_maxhigh l p (in_max_high x) in (c, ch, p')
          | Node rc rl rx rr \<Rightarrow>
              (let (c', y, child, q) = leftmost rc rl rx rr [];
                   (ch, path) = update_maxhigh child (q @ FR c l y # p) (in_max_high y);
                   below = take (length q) path; above = drop (length q) path in
               (c', ch, below @ upd_frames (zip_up ch below) above (in_max_high x))))) in
      if color = Black then interval_erase_color child path else Some (zip_up child path))"

definition interval_erase :: "inode \<Rightarrow> itree \<Rightarrow> itree option" where
  "interval_erase n t =
     (if \<not> in_intree n then None
      else case rb_locate n t [] of
        None \<Rightarrow> None
      | Some (c, l, x, r, p) \<Rightarrow> interval_erase_at c l x r p)"

section \<open>Search\<close>

datatype iter = ITER_CONT | ITER_STOP

type_synonym 'd callback = "inode \<Rightarrow> 'd \<Rightarrow> iter \<times> 'd"

definition interval_may_overlap :: "inode \<Rightarrow> extent \<Rightarrow> bool" where
  "interval_may_overlap n ext \<longleftrightarrow> ext_start ext \<le> in_max_high n \<and> ext_end ext \<ge> interval_low n"

text \<open>The inner loop: up to the first ancestor reached from the left that has a
  right child; that ancestor, the child, and its parent chain.\<close>

fun it_climb :: "itree \<Rightarrow> ipath \<Rightarrow> (inode \<times> itree \<times> ipath) option" where
  "it_climb t [] = None"
| "it_climb t (FL c x r # p) =
     (if r \<noteq> Leaf then Some (x, r, FR c t x # p) else it_climb (Node c t x r) p)"
| "it_climb t (FR c l x # p) = it_climb (Node c l x t) p"

fun rb_size :: "'e rbt \<Rightarrow> nat" where
  "rb_size Leaf = 0"
| "rb_size (Node c l x r) = rb_size l + rb_size r + 1"

fun pending_size :: "ipath \<Rightarrow> nat" where
  "pending_size [] = 0"
| "pending_size (FL c x r # p) = rb_size r + pending_size p"
| "pending_size (FR c l x # p) = pending_size p"

lemma climb_size:
  "it_climb t p = Some (x, s, q) \<Longrightarrow> rb_size s + pending_size q = pending_size p"
  by (induction t p rule: it_climb.induct) (auto split: if_splits)

function it_search :: "'d callback \<Rightarrow> extent \<Rightarrow> itree \<Rightarrow> ipath \<Rightarrow> 'd \<Rightarrow> iter \<times> 'd" where
  "it_search f ext Leaf p d = (ITER_CONT, d)"
| "it_search f ext (Node c l x r) p d =
     (if ext_end ext < interval_low x then
        if l \<noteq> Leaf then it_search f ext l (FL c x r # p) d
        else (case it_climb (Node c l x r) p of
            None \<Rightarrow> (ITER_CONT, d)
          | Some (y, s, q) \<Rightarrow> if \<not> interval_may_overlap y ext then (ITER_CONT, d) else it_search f ext s q d)
      else if interval_may_overlap x ext then
        (let (rc, d') = (if extent_overlapped ext (in_extent x) then f x d else (ITER_CONT, d)) in
         if rc = ITER_STOP then (ITER_STOP, d')
         else if l \<noteq> Leaf then it_search f ext l (FL c x r # p) d'
         else if r \<noteq> Leaf then it_search f ext r (FR c l x # p) d'
         else (case it_climb (Node c l x r) p of
            None \<Rightarrow> (ITER_CONT, d')
          | Some (y, s, q) \<Rightarrow> if \<not> interval_may_overlap y ext then (ITER_CONT, d') else it_search f ext s q d'))
      else (case it_climb (Node c l x r) p of
            None \<Rightarrow> (ITER_CONT, d)
          | Some (y, s, q) \<Rightarrow> if \<not> interval_may_overlap y ext then (ITER_CONT, d) else it_search f ext s q d))"
  by pat_completeness auto
termination
  by (relation "measure (\<lambda>(f, ext, t, p, d). rb_size t + pending_size p)") (auto dest: climb_size)

definition interval_search :: "'d callback \<Rightarrow> extent \<Rightarrow> itree \<Rightarrow> 'd \<Rightarrow> iter \<times> 'd" where
  "interval_search f ext t d = it_search f ext t [] d"

definition interval_overlap_cb :: "bool callback" where
  "interval_overlap_cb n has = (ITER_STOP, True)"

definition interval_is_overlapped :: "itree \<Rightarrow> extent \<Rightarrow> bool" where
  "interval_is_overlapped t ext = snd (interval_search interval_overlap_cb ext t False)"

fun fold_cb :: "'d callback \<Rightarrow> inode list \<Rightarrow> 'd \<Rightarrow> iter \<times> 'd" where
  "fold_cb f [] d = (ITER_CONT, d)"
| "fold_cb f (x # xs) d =
     (case f x d of (ITER_STOP, d') \<Rightarrow> (ITER_STOP, d') | (ITER_CONT, d') \<Rightarrow> fold_cb f xs d')"

text \<open>A node with its parent chain is a position.  interval_first and
  interval_next move along the order of the tree, interval_last and
  interval_prev against it.\<close>

type_synonym ipos = "itree \<times> ipath"

fun interval_first :: "itree \<Rightarrow> ipath \<Rightarrow> ipos option" where
  "interval_first Leaf p = None"
| "interval_first (Node c Leaf x r) p = Some (Node c Leaf x r, p)"
| "interval_first (Node c (Node c' l' y r') x r) p = interval_first (Node c' l' y r') (FL c x r # p)"

fun interval_last :: "itree \<Rightarrow> ipath \<Rightarrow> ipos option" where
  "interval_last Leaf p = None"
| "interval_last (Node c l x Leaf) p = Some (Node c l x Leaf, p)"
| "interval_last (Node c l x (Node c' l' y r')) p = interval_last (Node c' l' y r') (FR c l x # p)"

fun climb_right :: "itree \<Rightarrow> ipath \<Rightarrow> ipos option" where
  "climb_right t [] = None"
| "climb_right t (FR c l x # p) = climb_right (Node c l x t) p"
| "climb_right t (FL c x r # p) = Some (Node c t x r, p)"

fun climb_left :: "itree \<Rightarrow> ipath \<Rightarrow> ipos option" where
  "climb_left t [] = None"
| "climb_left t (FL c x r # p) = climb_left (Node c t x r) p"
| "climb_left t (FR c l x # p) = Some (Node c l x t, p)"

fun interval_next :: "ipos \<Rightarrow> ipos option" where
  "interval_next (Leaf, p) = None"
| "interval_next (Node c l x r, p) =
     (if r \<noteq> Leaf then interval_first r (FR c l x # p) else climb_right (Node c l x r) p)"

fun interval_prev :: "ipos \<Rightarrow> ipos option" where
  "interval_prev (Leaf, p) = None"
| "interval_prev (Node c l x r, p) =
     (if l \<noteq> Leaf then interval_last l (FL c x r # p) else climb_left (Node c l x r) p)"

text \<open>The entries from a position on, in either direction.\<close>

fun ahead :: "ipos \<Rightarrow> inode list" where
  "ahead (Leaf, p) = []"
| "ahead (Node c l x r, p) = x # inord r @ rights p"

fun behind :: "ipos \<Rightarrow> inode list" where
  "behind (Leaf, p) = []"
| "behind (Node c l x r, p) = x # rev (inord l) @ rev (lefts p)"

abbreviation reach_opt :: "(ipos \<Rightarrow> inode list) \<Rightarrow> ipos option \<Rightarrow> inode list" where
  "reach_opt g z \<equiv> (case z of None \<Rightarrow> [] | Some q \<Rightarrow> g q)"

lemma first_ahead: "t \<noteq> Leaf \<Longrightarrow> reach_opt ahead (interval_first t p) = inord t @ rights p"
  by (induction t p rule: interval_first.induct) auto

lemma last_behind: "t \<noteq> Leaf \<Longrightarrow> reach_opt behind (interval_last t p) = rev (inord t) @ rev (lefts p)"
  by (induction t p rule: interval_last.induct) auto

lemma climb_ahead: "reach_opt ahead (climb_right t p) = rights p"
  by (induction t p rule: climb_right.induct) auto

lemma climb_behind: "reach_opt behind (climb_left t p) = rev (lefts p)"
  by (induction t p rule: climb_left.induct) auto

lemma next_ahead: "reach_opt ahead (interval_next z) = tl (ahead z)"
  by (cases z rule: interval_next.cases) (auto simp: climb_ahead first_ahead)

lemma prev_behind: "reach_opt behind (interval_prev z) = tl (behind z)"
  by (cases z rule: interval_prev.cases) (auto simp: climb_behind last_behind)

function iterate_from :: "'d callback \<Rightarrow> ipos \<Rightarrow> 'd \<Rightarrow> iter \<times> 'd" where
  "iterate_from f (Leaf, p) d = (ITER_CONT, d)"
| "iterate_from f (Node c l x r, p) d =
     (case f x d of
        (ITER_STOP, d') \<Rightarrow> (ITER_STOP, d')
      | (ITER_CONT, d') \<Rightarrow>
          (case interval_next (Node c l x r, p) of None \<Rightarrow> (ITER_CONT, d') | Some z \<Rightarrow> iterate_from f z d'))"
  by pat_completeness auto
termination
proof (relation "measure (\<lambda>(f, z, d). length (ahead z))", goal_cases)
  case (2 f c l x r p d a d' z)
  then show ?case using next_ahead [of "(Node c l x r, p)"] by simp
qed simp

function iterate_back :: "'d callback \<Rightarrow> ipos \<Rightarrow> 'd \<Rightarrow> iter \<times> 'd" where
  "iterate_back f (Leaf, p) d = (ITER_CONT, d)"
| "iterate_back f (Node c l x r, p) d =
     (case f x d of
        (ITER_STOP, d') \<Rightarrow> (ITER_STOP, d')
      | (ITER_CONT, d') \<Rightarrow>
          (case interval_prev (Node c l x r, p) of None \<Rightarrow> (ITER_CONT, d') | Some z \<Rightarrow> iterate_back f z d'))"
  by pat_completeness auto
termination
proof (relation "measure (\<lambda>(f, z, d). length (behind z))", goal_cases)
  case (2 f c l x r p d a d' z)
  then show ?case using prev_behind [of "(Node c l x r, p)"] by simp
qed simp

definition interval_iterate :: "'d callback \<Rightarrow> itree \<Rightarrow> 'd \<Rightarrow> iter \<times> 'd" where
  "interval_iterate f t d =
     (case interval_first t [] of None \<Rightarrow> (ITER_CONT, d) | Some z \<Rightarrow> iterate_from f z d)"

definition interval_iterate_reverse :: "'d callback \<Rightarrow> itree \<Rightarrow> 'd \<Rightarrow> iter \<times> 'd" where
  "interval_iterate_reverse f t d =
     (case interval_last t [] of None \<Rightarrow> (ITER_CONT, d) | Some z \<Rightarrow> iterate_back f z d)"

lemma iterate_from_fold: "iterate_from f z d = fold_cb f (ahead z) d"
proof (induction f z d rule: iterate_from.induct)
  case (2 f c l x r p d)
  obtain rc d' where fx: "f x d = (rc, d')" by fastforce
  show ?case
  proof (cases rc)
    case ITER_CONT
    then show ?thesis using fx 2 next_ahead [of "(Node c l x r, p)"]
      by (cases "interval_next (Node c l x r, p)") (auto simp del: interval_next.simps)
  qed (simp add: fx)
qed simp

lemma iterate_back_fold: "iterate_back f z d = fold_cb f (behind z) d"
proof (induction f z d rule: iterate_back.induct)
  case (2 f c l x r p d)
  obtain rc d' where fx: "f x d = (rc, d')" by fastforce
  show ?case
  proof (cases rc)
    case ITER_CONT
    then show ?thesis using fx 2 prev_behind [of "(Node c l x r, p)"]
      by (cases "interval_prev (Node c l x r, p)") (auto simp del: interval_prev.simps)
  qed (simp add: fx)
qed simp

lemma iterate_fold:
  "interval_iterate f t d = fold_cb f (inord t) d" "interval_iterate_reverse f t d = fold_cb f (rev (inord t)) d"
  using first_ahead [of t "[]"] last_behind [of t "[]"]
  by (cases "t = Leaf"; auto simp: interval_iterate_def interval_iterate_reverse_def iterate_from_fold iterate_back_fold split: option.splits)+

fun interval_find :: "itree \<Rightarrow> extent \<Rightarrow> inode option" where
  "interval_find Leaf ex = None"
| "interval_find (Node c l x r) ex =
     (let rc = extent_compare ex (in_extent x) in
      if rc = 0 then Some x else if rc < 0 then interval_find l ex else interval_find r ex)"

section \<open>Expansion\<close>

definition interval_expand_low :: "itree \<Rightarrow> u64 \<Rightarrow> u64" where
  "interval_expand_low t low = (if t = Leaf then 0 else low)"

fun expand_high_loop :: "itree \<Rightarrow> u64 \<Rightarrow> u64 \<Rightarrow> u64" where
  "expand_high_loop Leaf high result = result"
| "expand_high_loop (Node c l x r) high result =
     (if in_max_high x < high then result
      else if interval_low x > high then expand_high_loop l high (interval_low x - 1)
      else expand_high_loop r high result)"

definition interval_expand_high :: "itree \<Rightarrow> u64 \<Rightarrow> u64" where
  "interval_expand_high t high = expand_high_loop t high (-1)"

definition interval_expand :: "itree \<Rightarrow> extent \<Rightarrow> extent option \<Rightarrow> extent option" where
  "interval_expand t ext limiter =
     (if interval_is_overlapped t ext then None
      else let ext1 = (if (case limiter of None \<Rightarrow> True | Some m \<Rightarrow> ext_start m < ext_start ext)
                       then ext\<lparr>ext_start := interval_expand_low t (ext_start ext)\<rparr> else ext);
               ext2 = (if (case limiter of None \<Rightarrow> True | Some m \<Rightarrow> ext_end m > ext_end ext1)
                       then ext1\<lparr>ext_end := interval_expand_high t (ext_end ext1)\<rparr> else ext1) in
           if interval_is_overlapped t ext2 then None else Some ext2)"

section \<open>The structure is that of a red-black tree\<close>

text \<open>Forgetting \<open>in_max_high\<close> and \<open>in_intree\<close>, the operations are those
  of RbTree, and inherit their order and balance.\<close>

definition ikey :: "inode \<Rightarrow> extent \<times> nat" where
  "ikey n = (in_extent n, in_id n)"

abbreviation skel :: "itree \<Rightarrow> (extent \<times> nat) rbt" where
  "skel t \<equiv> map_rbt ikey t"

abbreviation skelp :: "ipath \<Rightarrow> (extent \<times> nat) path" where
  "skelp p \<equiv> map (map_frame ikey) p"

lemma ikey_upd [simp]: "ikey (x\<lparr>in_max_high := m\<rparr>) = ikey x" "ikey (refresh l x r) = ikey x"
  "ikey (x\<lparr>in_intree := b\<rparr>) = ikey x"
  by (simp_all add: ikey_def refresh_def)

lemma extent_refresh [simp]: "in_extent (refresh l x r) = in_extent x" "in_id (refresh l x r) = in_id x"
  "in_intree (refresh l x r) = in_intree x"
  by (simp_all add: refresh_def)

lemma skel_leaf [simp]: "skel t = Leaf \<longleftrightarrow> t = Leaf" "Leaf = skel t \<longleftrightarrow> t = Leaf"
  by (cases t; simp)+

lemma skel_red [simp]: "rb_is_red (skel t) = rb_is_red t" "nil_or_black (skel t) = nil_or_black t"
  by (cases t; simp add: nil_or_black_def)+

lemma skel_color [simp]: "rb_set_color c (skel t) = skel (rb_set_color c t)"
  by (cases t) auto

lemma skel_plug: "plug (skel t) (map_frame ikey fr) = skel (plug t fr)"
  by (cases fr) auto

lemma skel_zip [simp]: "zip_up (skel t) (skelp p) = skel (zip_up t p)"
  by (induction p arbitrary: t) (auto simp: skel_plug)

lemma skel_wf [simp]: "rb_wf (skel t) n = rb_wf t n"
  by (induction t n rule: rb_wf.induct) (auto split: nat.splits)

lemma skel_top_black [simp]: "top_black (skelp p) = top_black p"
  by (cases p rule: top_black.cases) auto

lemma skel_ctx [simp]: "ctx (skelp p) n = ctx p n"
proof (induction p arbitrary: n)
  case (Cons f p)
  then show ?case by (cases f) (auto simp: ctx_cons split: nat.splits)
qed simp

lemma inord_skel [simp]: "inord (skel t) = map ikey (inord t)"
  by (induction t) auto

lemma skel_lefts: "lefts (skelp p) = map ikey (lefts p)"
  by (induction p rule: lefts.induct) auto

lemma skel_rights: "rights (skelp p) = map ikey (rights p)"
  by (induction p rule: rights.induct) auto

lemma skel_rotate:
  "rb_rotate_left (skel t) = map_option skel (it_rotate_left t)"
  "rb_rotate_right (skel t) = map_option skel (it_rotate_right t)"
  by (cases t rule: it_rotate_left.cases; simp) (cases t rule: it_rotate_right.cases; simp)

lemma skel_rotate_node:
  "rb_rotate_left (Node c (skel a) (ikey x) (skel b)) = map_option skel (it_rotate_left (Node c a x b))"
  "rb_rotate_right (Node c (skel a) (ikey x) (skel b)) = map_option skel (it_rotate_right (Node c a x b))"
  using skel_rotate [of "Node c a x b"] by simp_all

lemma skel_rotate_black:
  "rb_rotate_right (Node Red (skel (rb_set_black t)) g' u') = rb_rotate_right (Node Red (rb_set_black (skel t)) g' u')"
  by simp

abbreviation "skel2 \<equiv> map_option (\<lambda>(t, p). (skel t, skelp p))"

lemma skel_insert_color:
  "rb_insert_color (skel t) (skelp p) = skel2 (interval_insert_color t p)"
proof (induction t p rule: interval_insert_color.induct)
  case (6 node x r gc g uncle p)
  then show ?case using skel_rotate_node(2) [of Red "Node Black node x r" g uncle]
    by (simp add: option.map_comp comp_def)
next
  case (7 node l x gc g uncle p)
  show ?case
  proof (cases "rb_is_red uncle")
    case False
    then show ?thesis using skel_rotate_node(1) [of Red l x node]
      by (cases "it_rotate_left (Node Red l x node)")
        (simp_all add: option.map_comp comp_def skel_rotate_node(2) [of Red "rb_set_black _" g uncle, simplified])
  qed (use 7 in simp)
next
  case (8 node l x gc uncle g p)
  then show ?case using skel_rotate_node(1) [of Red uncle g "Node Black l x node"]
    by (simp add: option.map_comp comp_def)
next
  case (9 node x r gc uncle g p)
  show ?case
  proof (cases "rb_is_red uncle")
    case False
    then show ?thesis using skel_rotate_node(2) [of Red node x r]
      by (cases "it_rotate_right (Node Red node x r)")
        (simp_all add: option.map_comp comp_def skel_rotate_node(1) [of Red uncle g "rb_set_black _", simplified])
  qed (use 9 in simp)
qed auto

text \<open>The walk is the walk of rb_insert by this comparison, when no node has
  the same extent.\<close>

definition key_compare :: "extent \<times> nat \<Rightarrow> extent \<times> nat \<Rightarrow> int" where
  "key_compare a b = extent_compare (fst a) (fst b)"

lemma node_compare_key: "node_compare a b = key_compare (ikey a) (ikey b)"
  by (simp add: node_compare_def key_compare_def ikey_def)

lemma it_walk_skel:
  "it_walk n t p = (Leaf, q) \<Longrightarrow> rb_walk key_compare (ikey n) (skel t) (skelp p) = skelp q"
  by (induction n t p rule: it_walk.induct)
    (auto simp: Let_def node_compare_key split: if_splits)

lemma it_walk_found:
  "it_walk n t p = (Node c l x r, q) \<Longrightarrow> in_extent x = in_extent n \<and> x \<in> set (inord t)
    \<and> skel (zip_up (Node c l x r) q) = skel (zip_up t p)"
proof (induction n t p rule: it_walk.induct)
  case (2 n c1 l1 x1 r1 p)
  let ?x = "if in_max_high x1 < interval_high n then x1\<lparr>in_max_high := interval_high n\<rparr> else x1"
  have z: "skel (zip_up t (FL c1 ?x r1 # p)) = skel (zip_up t (FL c1 x1 r1 # p))"
    "skel (zip_up t (FR c1 l1 ?x # p)) = skel (zip_up t (FR c1 l1 x1 # p))" for t
    by (simp_all del: zip_up.simps skel_zip add: skel_zip [symmetric])
  show ?case
  proof (cases "extent_equal (in_extent x1) (in_extent n)")
    case True
    then show ?thesis using 2(3) by (auto simp: extent_equal_def intro: extent.equality)
  next
    case False
    then show ?thesis using 2 z by (auto simp: Let_def split: if_splits)
  qed
qed simp

abbreviation skel_sum :: "(itree + itree) \<Rightarrow> ((extent \<times> nat) rbt + (extent \<times> nat) rbt)" where
  "skel_sum \<equiv> map_sum skel skel"

lemma skel_erase_left:
  "ikey x' = ikey x \<Longrightarrow>
   erase_left (skel node) c (ikey x) (skel other) = map_option skel_sum (it_erase_left node c x' other)"
proof (cases other)
  case (Node oc ol y ort)
  assume k: "ikey x' = ikey x"
  have r: "rb_rotate_left (Node Black (skel node) (ikey x) (Node c' (skel a) (ikey b) (skel (rb_set_black d))))
      = map_option skel (it_rotate_left (Node Black node x' (Node c' a b (rb_set_black d))))" for c' a b d
    using skel_rotate_node(1) [of Black node x' "Node c' a b (rb_set_black d)"] k by simp
  show ?thesis
  proof (cases "nil_or_black ol \<and> nil_or_black ort")
    case True
    then show ?thesis using Node k by (simp add: erase_left_def it_erase_left_def)
  next
    case False
    show ?thesis
    proof (cases "nil_or_black ort")
      case True
      then obtain a x1 b where ol: "ol = Node Red a x1 b" using False by (auto elim: red_cases)
      show ?thesis using Node False True r [of c a "x1\<lparr>in_max_high := in_max_high y\<rparr>" "Node Red b (refresh b y ort) ort"]
        by (simp add: ol erase_left_def it_erase_left_def option.map_comp comp_def)
    next
      case nb: False
      then show ?thesis using Node False r [of c ol y ort]
        by (simp add: erase_left_def it_erase_left_def option.map_comp comp_def)
    qed
  qed
qed (simp add: erase_left_def it_erase_left_def)

lemma skel_erase_right:
  "ikey x' = ikey x \<Longrightarrow>
   erase_right (skel other) c (ikey x) (skel node) = map_option skel_sum (it_erase_right other c x' node)"
proof (cases other)
  case (Node oc ol y ort)
  assume k: "ikey x' = ikey x"
  have r: "rb_rotate_right (Node Black (Node c' (skel (rb_set_black a)) (ikey b) (skel d)) (ikey x) (skel node))
      = map_option skel (it_rotate_right (Node Black (Node c' (rb_set_black a) b d) x' node))" for c' a b d
    using skel_rotate_node(2) [of Black "Node c' (rb_set_black a) b d" x' node] k by simp
  show ?thesis
  proof (cases "nil_or_black ol \<and> nil_or_black ort")
    case True
    then show ?thesis using Node k by (simp add: erase_right_def it_erase_right_def)
  next
    case False
    show ?thesis
    proof (cases "nil_or_black ol")
      case True
      then obtain a x1 b where o: "ort = Node Red a x1 b" using False by (auto elim: red_cases)
      show ?thesis using Node False True r [of c "Node Red ol (refresh ol y a) a" "x1\<lparr>in_max_high := in_max_high y\<rparr>" b]
        by (simp add: o erase_right_def it_erase_right_def option.map_comp comp_def)
    next
      case nb: False
      then show ?thesis using Node False r [of c ol y ort]
        by (simp add: erase_right_def it_erase_right_def option.map_comp comp_def)
    qed
  qed
qed (simp add: erase_right_def it_erase_right_def)

lemma skel_zip_cons:
  "zip_up (skel t) (FL c (ikey x) (skel r) # skelp p) = skel (zip_up t (FL c x r # p))"
  "zip_up (skel t) (FR c (skel l) (ikey x) # skelp p) = skel (zip_up t (FR c l x # p))"
  using skel_zip [of t "FL c x r # p"] skel_zip [of t "FR c l x # p"] by simp_all

lemma skel_erase_color:
  "rb_erase_color (skel t) (skelp p) = map_option skel (interval_erase_color t p)"
proof (induction t p rule: interval_erase_color.induct)
  case (2 node c x other p)
  show ?case
  proof (cases "rb_is_red node")
    case True
    then show ?thesis using skel_zip_cons(1) [of "rb_set_black node"] by simp
  next
    case nr: False
    show ?thesis
    proof (cases other)
      case (Node oc ol y ort)
      show ?thesis
      proof (cases oc)
        case Red
        have e: "erase_left (skel node) Red (ikey x) (skel ol)
            = map_option skel_sum (it_erase_left node Red (refresh node x ol) ol)"
          by (rule skel_erase_left) simp
        show ?thesis using nr Node Red e skel_zip_cons(1) [of _ Black "y\<lparr>in_max_high := in_max_high x\<rparr>" ort p]
          by (auto split: option.splits sum.splits)
      next
        case Black
        have e: "erase_left (skel node) c (ikey x) (skel other) = map_option skel_sum (it_erase_left node c x other)"
          by (rule skel_erase_left) simp
        show ?thesis using nr Node Black e 2 [OF nr Node Black]
          by (auto split: option.splits sum.splits)
      qed
    qed (use nr in simp)
  qed
next
  case (3 node c other x p)
  show ?case
  proof (cases "rb_is_red node")
    case True
    then show ?thesis using skel_zip_cons(2) [of "rb_set_black node"] by simp
  next
    case nr: False
    show ?thesis
    proof (cases other)
      case (Node oc ol y ort)
      show ?thesis
      proof (cases oc)
        case Red
        have e: "erase_right (skel ort) Red (ikey x) (skel node)
            = map_option skel_sum (it_erase_right ort Red (refresh ort x node) node)"
          by (rule skel_erase_right) simp
        show ?thesis using nr Node Red e skel_zip_cons(2) [of _ Black ol "y\<lparr>in_max_high := in_max_high x\<rparr>" p]
          by (auto split: option.splits sum.splits)
      next
        case Black
        have e: "erase_right (skel other) c (ikey x) (skel node) = map_option skel_sum (it_erase_right other c x node)"
          by (rule skel_erase_right) simp
        show ?thesis using nr Node Black e 3 [OF nr Node Black]
          by (auto split: option.splits sum.splits)
      qed
    qed (use nr in simp)
  qed
qed simp

lemma upd_frames_skel [simp]: "skelp (upd_frames t p old) = skelp p"
  by (induction t p old rule: upd_frames.induct) (auto simp: Let_def)

lemma upd_frames_length [simp]: "length (upd_frames t p old) = length p"
  by (induction t p old rule: upd_frames.induct) (auto simp: Let_def)

lemma update_maxhigh_skel:
  "update_maxhigh t p old = (t', p') \<Longrightarrow> skel t' = skel t \<and> skelp p' = skelp p \<and> length p' = length p"
  by (cases t) (auto simp: Let_def split: if_splits)

lemma leftmost_skel:
  "leftmost c (skel l) (ikey x) (skel r) (skelp q) =
     (case leftmost c l x r q of (c', y, ch, q') \<Rightarrow> (c', ikey y, skel ch, skelp q'))"
  by (induction c l x r q rule: leftmost.induct) (auto split: prod.splits)

lemma skel_erase_at:
  "rb_erase_at c (skel l) (ikey x) (skel r) (skelp p) = map_option skel (interval_erase_at c l x r p)"
proof -
  have fin: "(if col = Black then rb_erase_color (skel ch) (skelp pa) else Some (zip_up (skel ch) (skelp pa))) =
      map_option skel (if col = Black then interval_erase_color ch pa else Some (zip_up ch pa))" for col ch pa
    by (simp add: skel_erase_color)
  show ?thesis
  proof (cases "l = Leaf \<or> r = Leaf")
    case True
    let ?ch = "if l = Leaf then r else l"
    obtain ch p' where u: "update_maxhigh ?ch p (in_max_high x) = (ch, p')" by fastforce
    have "interval_erase_at c l x r p = (if c = Black then interval_erase_color ch p' else Some (zip_up ch p'))"
      using True u by (cases r) (auto simp: interval_erase_at_def)
    moreover have "rb_erase_at c (skel l) (ikey x) (skel r) (skelp p) =
        (if c = Black then rb_erase_color (skel ?ch) (skelp p) else Some (zip_up (skel ?ch) (skelp p)))"
      using True skel_zip [of Leaf p] by (cases r) (auto simp: rb_erase_at_def Let_def)
    ultimately show ?thesis using update_maxhigh_skel [OF u] fin [of c ch p'] by (simp only:)
  next
    case False
    then obtain rc rl rx rr where r: "r = Node rc rl rx rr" by (cases r) auto
    obtain c' y child q where lm: "leftmost rc rl rx rr [] = (c', y, child, q)" by (metis prod_cases4)
    obtain ch path where u: "update_maxhigh child (q @ FR c l y # p) (in_max_high y) = (ch, path)" by fastforce
    define pa where "pa = take (length q) path @
      upd_frames (zip_up ch (take (length q) path)) (drop (length q) path) (in_max_high x)"
    have e: "interval_erase_at c l x r p = (if c' = Black then interval_erase_color ch pa else Some (zip_up ch pa))"
      using False r lm u by (simp add: interval_erase_at_def pa_def Let_def)
    have lm': "leftmost rc (skel rl) (ikey rx) (skel rr) [] = (c', ikey y, skel child, skelp q)"
      using leftmost_skel [of rc rl rx rr "[]"] lm by simp
    have "skelp pa = take (length q) (skelp path) @ drop (length q) (skelp path)"
      by (simp add: pa_def take_map drop_map)
    then have "skelp pa = skelp path" by (simp only: append_take_drop_id)
    then have "skelp pa = skelp q @ FR c (skel l) (ikey y) # skelp p" "skel ch = skel child"
      using update_maxhigh_skel [OF u] by simp_all
    then have "rb_erase_at c (skel l) (ikey x) (skel r) (skelp p) =
        (if c' = Black then rb_erase_color (skel ch) (skelp pa) else Some (zip_up (skel ch) (skelp pa)))"
      using False r lm' by (simp add: rb_erase_at_def)
    then show ?thesis using e fin [of c' ch pa] by simp
  qed
qed

section \<open>The bound of the ends\<close>

text \<open>\<open>in_max_high\<close> is at least the end of the node and the bounds of its
  children.  It need not be the maximum: after an erase it may be too large.\<close>

fun mh_ok :: "itree \<Rightarrow> bool" where
  "mh_ok Leaf = True"
| "mh_ok (Node c l x r) \<longleftrightarrow> mh_ok l \<and> mh_ok r \<and> interval_high x \<le> in_max_high x
     \<and> max_high_of l \<le> in_max_high x \<and> max_high_of r \<le> in_max_high x"

text \<open>A parent chain around a subtree whose bound is at most \<open>v\<close>.\<close>

fun mh_ctx :: "ipath \<Rightarrow> u64 \<Rightarrow> bool" where
  "mh_ctx [] v = True"
| "mh_ctx (FL c x r # p) v \<longleftrightarrow> mh_ok r \<and> interval_high x \<le> in_max_high x \<and> max_high_of r \<le> in_max_high x
     \<and> v \<le> in_max_high x \<and> mh_ctx p (in_max_high x)"
| "mh_ctx (FR c l x # p) v \<longleftrightarrow> mh_ok l \<and> interval_high x \<le> in_max_high x \<and> max_high_of l \<le> in_max_high x
     \<and> v \<le> in_max_high x \<and> mh_ctx p (in_max_high x)"

lemma mh_ctx_mono: "mh_ctx p v \<Longrightarrow> w \<le> v \<Longrightarrow> mh_ctx p w"
proof (cases p)
  case (Cons f q)
  assume "mh_ctx p v" "w \<le> v"
  then show ?thesis using Cons by (cases f) (auto intro: order.trans)
qed simp

lemma mh_zip: "mh_ok t \<Longrightarrow> mh_ctx p (max_high_of t) \<Longrightarrow> mh_ok (zip_up t p)"
proof (induction p arbitrary: t)
  case (Cons f p)
  then show ?case by (cases f) auto
qed simp

lemma mh_set_color [simp]: "mh_ok (rb_set_color c t) = mh_ok t" "max_high_of (rb_set_color c t) = max_high_of t"
  by (cases t; simp)+

lemma high_refresh [simp]: "interval_high (refresh l x r) = interval_high x"
  "interval_high (x\<lparr>in_max_high := m\<rparr>) = interval_high x" "interval_low (refresh l x r) = interval_low x"
  "interval_low (x\<lparr>in_max_high := m\<rparr>) = interval_low x"
  by (simp_all add: refresh_def interval_high_def interval_low_def)

lemma mh_refresh [simp]: "in_max_high (refresh l x r) = max (interval_high x) (max (max_high_of l) (max_high_of r))"
  by (simp add: refresh_def)

lemma mh_rotate_left:
  assumes "mh_ok t" "it_rotate_left t = Some t'"
  shows "mh_ok t' \<and> max_high_of t' = max_high_of t"
proof (cases t rule: it_rotate_left.cases)
  case (1 c a x c' b y d)
  then have m: "interval_high y \<le> in_max_high y" "max_high_of b \<le> in_max_high y" "max_high_of d \<le> in_max_high y"
    "in_max_high y \<le> in_max_high x" using assms(1) by simp_all
  note le = m(1-3) [THEN order.trans, OF m(4)]
  show ?thesis using 1 assms le by (auto simp: le_max_iff_disj)
qed (use assms in auto)

lemma mh_rotate_right:
  assumes "mh_ok t" "it_rotate_right t = Some t'"
  shows "mh_ok t' \<and> max_high_of t' = max_high_of t"
proof (cases t rule: it_rotate_right.cases)
  case (1 c c' a x b y d)
  then have m: "interval_high x \<le> in_max_high x" "max_high_of a \<le> in_max_high x" "max_high_of b \<le> in_max_high x"
    "in_max_high x \<le> in_max_high y" using assms(1) by simp_all
  note le = m(1-3) [THEN order.trans, OF m(4)]
  show ?thesis using 1 assms le by (auto simp: le_max_iff_disj)
qed (use assms in auto)

lemma mh_all: "mh_ok t \<Longrightarrow> n \<in> set (inord t) \<Longrightarrow> interval_high n \<le> max_high_of t"
proof (induction t)
  case (Node c l x r)
  then show ?case by (auto intro: order.trans)
qed simp

lemma insert_color_mh:
  "mh_ok t \<Longrightarrow> mh_ctx p (max_high_of t) \<Longrightarrow> interval_insert_color t p = Some (t', p') \<Longrightarrow>
   mh_ok t' \<and> mh_ctx p' (max_high_of t')"
proof (induction t p arbitrary: t' p' rule: interval_insert_color.induct)
  case (6 node x r gc g uncle p)
  show ?case
  proof (cases "rb_is_red uncle")
    case True
    then show ?thesis using 6(2-4) by (intro 6(1) [OF True]) auto
  next
    case False
    then have rot: "it_rotate_right (Node Red (Node Black node x r) g uncle) = Some t'" "p' = p" using 6(4) by auto
    have "mh_ok (Node Red (Node Black node x r) g uncle)" using 6(2,3) by simp
    from mh_rotate_right [OF this rot(1)] show ?thesis using 6(3) rot(2) by simp
  qed
next
  case (7 node l x gc g uncle p)
  show ?case
  proof (cases "rb_is_red uncle")
    case True
    then show ?thesis using 7(2-4) by (intro 7(1) [OF True]) auto
  next
    case False
    then obtain t1 where t1: "it_rotate_left (Node Red l x node) = Some t1"
      "it_rotate_right (Node Red (rb_set_black t1) g uncle) = Some t'" "p' = p"
      using 7(4) by (auto split: bind_splits)
    have m1: "mh_ok t1" "max_high_of t1 = in_max_high x" using mh_rotate_left [OF _ t1(1)] 7(2,3) by auto
    have "mh_ok (Node Red (rb_set_black t1) g uncle)" using m1 7(3) by simp
    from mh_rotate_right [OF this t1(2)] show ?thesis using t1(3) 7(3) by simp
  qed
next
  case (8 node l x gc uncle g p)
  show ?case
  proof (cases "rb_is_red uncle")
    case True
    then show ?thesis using 8(2-4) by (intro 8(1) [OF True]) auto
  next
    case False
    then have rot: "it_rotate_left (Node Red uncle g (Node Black l x node)) = Some t'" "p' = p" using 8(4) by auto
    have "mh_ok (Node Red uncle g (Node Black l x node))" using 8(2,3) by simp
    from mh_rotate_left [OF this rot(1)] show ?thesis using 8(3) rot(2) by simp
  qed
next
  case (9 node x r gc uncle g p)
  show ?case
  proof (cases "rb_is_red uncle")
    case True
    then show ?thesis using 9(2-4) by (intro 9(1) [OF True]) auto
  next
    case False
    then obtain t1 where t1: "it_rotate_right (Node Red node x r) = Some t1"
      "it_rotate_left (Node Red uncle g (rb_set_black t1)) = Some t'" "p' = p"
      using 9(4) by (auto split: bind_splits)
    have m1: "mh_ok t1" "max_high_of t1 = in_max_high x" using mh_rotate_right [OF _ t1(1)] 9(2,3) by auto
    have "mh_ok (Node Red uncle g (rb_set_black t1))" using m1 9(3) by simp
    from mh_rotate_left [OF this t1(2)] show ?thesis using t1(3) 9(3) by simp
  qed
qed auto

lemma walk_mh:
  "mh_ok t \<Longrightarrow> mh_ctx p (max (max_high_of t) (interval_high n)) \<Longrightarrow> it_walk n t p = (s, q) \<Longrightarrow>
   mh_ok s \<and> mh_ctx q (max_high_of s) \<and> (s = Leaf \<longrightarrow> mh_ctx q (interval_high n))"
proof (induction n t p rule: it_walk.induct)
  case (1 n p)
  then show ?case by (auto intro: mh_ctx_mono)
next
  case (2 n c l x r p)
  let ?x = "if in_max_high x < interval_high n then x\<lparr>in_max_high := interval_high n\<rparr> else x"
  have m: "in_max_high ?x = max (in_max_high x) (interval_high n)" "interval_high ?x = interval_high x"
    by (auto simp: max_def)
  have ok: "mh_ok l" "mh_ok r" "interval_high x \<le> in_max_high x" "max_high_of l \<le> in_max_high x"
    "max_high_of r \<le> in_max_high x" using 2(3) by auto
  have cl: "mh_ctx (FL c ?x r # p) (max (max_high_of l) (interval_high n))"
    using ok m 2(4) by (auto simp: le_max_iff_disj)
  have cr: "mh_ctx (FR c l ?x # p) (max (max_high_of r) (interval_high n))"
    using ok m 2(4) by (auto simp: le_max_iff_disj)
  show ?case
  proof (cases "extent_equal (in_extent x) (in_extent n)")
    case True
    then show ?thesis using 2(3-5) by (auto intro: mh_ctx_mono)
  next
    case False
    show ?thesis
    proof (cases "node_compare n ?x < 0")
      case True
      then show ?thesis using 2(1) [OF False refl True ok(1) cl] 2(5) False by (simp add: Let_def)
    next
      case ge: False
      then show ?thesis using 2(2) [OF False refl ge ok(2) cr] 2(5) False by (simp add: Let_def)
    qed
  qed
qed

lemma interval_insert_mh:
  assumes "mh_ok t" "interval_insert n t = Some (found, t')" "in_max_high n = interval_high n"
  shows "mh_ok t'"
proof -
  obtain s q where w: "it_walk n t [] = (s, q)" by fastforce
  have m: "mh_ok s" "mh_ctx q (max_high_of s)" "s = Leaf \<longrightarrow> mh_ctx q (interval_high n)"
    using walk_mh [OF assms(1) _ w] by auto
  show ?thesis
  proof (cases s)
    case Leaf
    have ni: "\<not> in_intree n" using assms(2) by (auto simp: interval_insert_def)
    obtain s' q' where s': "interval_insert_color (Node Red Leaf (n\<lparr>in_intree := True\<rparr>) Leaf) q = Some (s', q')"
      "t' = rb_set_black (zip_up s' q')"
      using assms(2) ni w Leaf by (auto simp: interval_insert_def)
    have "interval_high (n\<lparr>in_intree := True\<rparr>) = interval_high n" by (simp add: interval_high_def)
    then have "mh_ok s' \<and> mh_ctx q' (max_high_of s')"
      using m(3) Leaf assms(3) by (intro insert_color_mh [OF _ _ s'(1)]) simp_all
    then show ?thesis using s'(2) mh_zip by simp
  next
    case (Node c l x r)
    then show ?thesis using assms(2) w m mh_zip by (auto simp: interval_insert_def split: if_splits)
  qed
qed

section \<open>The bound under removal\<close>

lemma mh_ctx_zip:
  "mh_ok t \<Longrightarrow> mh_ctx (q @ b) (max_high_of t) \<Longrightarrow> mh_ok (zip_up t q) \<and> mh_ctx b (max_high_of (zip_up t q))"
proof (induction q arbitrary: t)
  case (Cons f q)
  then show ?case by (cases f) auto
qed simp

lemma upd_frames_mh: "mh_ok t \<Longrightarrow> mh_ctx p (max_high_of t) \<Longrightarrow> mh_ctx (upd_frames t p old) (max_high_of t)"
proof (induction t p old rule: upd_frames.induct)
  case (2 t c x r p old)
  have "mh_ctx p (in_max_high (refresh t x r))" using 2(3) by (auto intro: mh_ctx_mono)
  then show ?case using 2 by (auto simp: Let_def le_max_iff_disj)
next
  case (3 t c l x p old)
  have "mh_ctx p (in_max_high (refresh l x t))" using 3(3) by (auto intro: mh_ctx_mono)
  then show ?case using 3 by (auto simp: Let_def le_max_iff_disj)
qed simp

text \<open>The climb of update_maxhigh through a prefix of the chain.\<close>

lemma upd_prefix:
  "\<exists>q' b'. upd_frames t (q @ b) old = q' @ b' \<and> length q' = length q
     \<and> (b' = b \<or> b' = upd_frames (zip_up t q') b old)
     \<and> (\<forall>b. mh_ok t \<longrightarrow> mh_ctx (q @ b) (max_high_of t) \<longrightarrow> mh_ctx (q' @ b) (max_high_of t))"
proof (induction q arbitrary: t)
  case (Cons f q)
  show ?case
  proof (cases f)
    case (FL c x r)
    let ?x = "refresh t x r"
    show ?thesis
    proof (cases "in_max_high ?x \<ge> old")
      case True
      have "mh_ctx (FL c ?x r # q @ b) (max_high_of t)" if "mh_ctx (FL c x r # q @ b) (max_high_of t)" for b
        using that by (auto simp: le_max_iff_disj intro: mh_ctx_mono)
      then show ?thesis using True FL by - (rule exI [of _ "FL c ?x r # q"], rule exI [of _ b], auto simp: Let_def le_max_iff_disj)
    next
      case False
      obtain q' b' where IH: "upd_frames (Node c t ?x r) (q @ b) old = q' @ b'" "length q' = length q"
        "b' = b \<or> b' = upd_frames (zip_up (Node c t ?x r) q') b old"
        "\<And>b. mh_ok (Node c t ?x r) \<Longrightarrow> mh_ctx (q @ b) (in_max_high ?x) \<Longrightarrow> mh_ctx (q' @ b) (in_max_high ?x)"
        using Cons [of "Node c t ?x r"] by (auto simp del: mh_refresh)
      have "mh_ctx (FL c ?x r # q' @ b) (max_high_of t)" if a: "mh_ok t" "mh_ctx (FL c x r # q @ b) (max_high_of t)" for b
      proof -
        have "mh_ok (Node c t ?x r)" "mh_ctx (q @ b) (in_max_high ?x)"
          using a by (auto simp: le_max_iff_disj intro: mh_ctx_mono)
        from IH(4) [OF this] show ?thesis using a by (auto simp: le_max_iff_disj)
      qed
      then show ?thesis using False FL IH(1-3)
        by - (rule exI [of _ "FL c ?x r # q'"], rule exI [of _ b'], auto simp: Let_def le_max_iff_disj)
    qed
  next
    case (FR c l x)
    let ?x = "refresh l x t"
    show ?thesis
    proof (cases "in_max_high ?x \<ge> old")
      case True
      have "mh_ctx (FR c l ?x # q @ b) (max_high_of t)" if "mh_ctx (FR c l x # q @ b) (max_high_of t)" for b
        using that by (auto simp: le_max_iff_disj intro: mh_ctx_mono)
      then show ?thesis using True FR by - (rule exI [of _ "FR c l ?x # q"], rule exI [of _ b], auto simp: Let_def le_max_iff_disj)
    next
      case False
      obtain q' b' where IH: "upd_frames (Node c l ?x t) (q @ b) old = q' @ b'" "length q' = length q"
        "b' = b \<or> b' = upd_frames (zip_up (Node c l ?x t) q') b old"
        "\<And>b. mh_ok (Node c l ?x t) \<Longrightarrow> mh_ctx (q @ b) (in_max_high ?x) \<Longrightarrow> mh_ctx (q' @ b) (in_max_high ?x)"
        using Cons [of "Node c l ?x t"] by (auto simp del: mh_refresh)
      have "mh_ctx (FR c l ?x # q' @ b) (max_high_of t)" if a: "mh_ok t" "mh_ctx (FR c l x # q @ b) (max_high_of t)" for b
      proof -
        have "mh_ok (Node c l ?x t)" "mh_ctx (q @ b) (in_max_high ?x)"
          using a by (auto simp: le_max_iff_disj intro: mh_ctx_mono)
        from IH(4) [OF this] show ?thesis using a by (auto simp: le_max_iff_disj)
      qed
      then show ?thesis using False FR IH(1-3)
        by - (rule exI [of _ "FR c l ?x # q'"], rule exI [of _ b'], auto simp: Let_def le_max_iff_disj)
    qed
  qed
qed (auto intro: exI [of _ "[]"])

lemma refresh_ok:
  "interval_high x \<le> in_max_high (refresh l x r)" "max_high_of l \<le> in_max_high (refresh l x r)"
  "max_high_of r \<le> in_max_high (refresh l x r)"
  by (simp_all add: le_max_iff_disj)

lemma it_erase_left_mh:
  assumes "mh_ok node" "mh_ok other" "interval_high x \<le> in_max_high x" "max_high_of node \<le> in_max_high x"
    "max_high_of other \<le> in_max_high x" "it_erase_left node c x other = Some res"
  shows "case res of Inl t \<Rightarrow> mh_ok t \<and> max_high_of t = in_max_high x | Inr t \<Rightarrow> mh_ok t \<and> max_high_of t = in_max_high x"
proof -
  obtain oc ol y ort where o: "other = Node oc ol y ort"
    using assms(6) by (cases other) (auto simp: it_erase_left_def)
  show ?thesis
  proof (cases "nil_or_black ol \<and> nil_or_black ort")
    case True
    then have "res = Inl (Node c node x (Node Red ol y ort))" using assms(6) o by (simp add: it_erase_left_def)
    then show ?thesis using assms(1-5) o by simp
  next
    case False
    obtain o1 where o1: "(if nil_or_black ort then it_rotate_right (Node Red (rb_set_black ol) y ort) else Some other) = Some o1"
      using assms(6) o False by (auto simp: it_erase_left_def split: option.splits)
    have m1: "mh_ok o1 \<and> max_high_of o1 = max_high_of other"
    proof (cases "nil_or_black ort")
      case True
      have "mh_ok (Node Red (rb_set_black ol) y ort)" using assms(2) o by simp
      from mh_rotate_right [OF this] show ?thesis using o1 True o by simp
    qed (use o1 assms(2) in simp)
    obtain c' a z b where z: "rb_set_color c o1 = Node c' a z b"
      using assms(6) o False o1 by (cases "rb_set_color c o1") (auto simp: it_erase_left_def)
    obtain t where t: "it_rotate_left (Node Black node x (Node c' a z (rb_set_black b))) = Some t" "res = Inr t"
      using assms(6) o False o1 z by (auto simp: it_erase_left_def)
    have "mh_ok (rb_set_color c o1)" "max_high_of (rb_set_color c o1) = max_high_of other" using m1 by simp_all
    then have "mh_ok (Node c' a z b)" "in_max_high z = max_high_of other" unfolding z by simp_all
    then have "mh_ok (Node Black node x (Node c' a z (rb_set_black b)))" using assms(1,3-5) by simp
    from mh_rotate_left [OF this t(1)] t(2) show ?thesis by simp
  qed
qed

lemma it_erase_right_mh:
  assumes "mh_ok node" "mh_ok other" "interval_high x \<le> in_max_high x" "max_high_of node \<le> in_max_high x"
    "max_high_of other \<le> in_max_high x" "it_erase_right other c x node = Some res"
  shows "case res of Inl t \<Rightarrow> mh_ok t \<and> max_high_of t = in_max_high x | Inr t \<Rightarrow> mh_ok t \<and> max_high_of t = in_max_high x"
proof -
  obtain oc ol y ort where o: "other = Node oc ol y ort"
    using assms(6) by (cases other) (auto simp: it_erase_right_def)
  show ?thesis
  proof (cases "nil_or_black ol \<and> nil_or_black ort")
    case True
    then have "res = Inl (Node c (Node Red ol y ort) x node)" using assms(6) o by (simp add: it_erase_right_def)
    then show ?thesis using assms(1-5) o by simp
  next
    case False
    obtain o1 where o1: "(if nil_or_black ol then it_rotate_left (Node Red ol y (rb_set_black ort)) else Some other) = Some o1"
      using assms(6) o False by (auto simp: it_erase_right_def split: option.splits)
    have m1: "mh_ok o1 \<and> max_high_of o1 = max_high_of other"
    proof (cases "nil_or_black ol")
      case True
      have "mh_ok (Node Red ol y (rb_set_black ort))" using assms(2) o by simp
      from mh_rotate_left [OF this] show ?thesis using o1 True o by simp
    qed (use o1 assms(2) in simp)
    obtain c' a z b where z: "rb_set_color c o1 = Node c' a z b"
      using assms(6) o False o1 by (cases "rb_set_color c o1") (auto simp: it_erase_right_def)
    obtain t where t: "it_rotate_right (Node Black (Node c' (rb_set_black a) z b) x node) = Some t" "res = Inr t"
      using assms(6) o False o1 z by (auto simp: it_erase_right_def)
    have "mh_ok (rb_set_color c o1)" "max_high_of (rb_set_color c o1) = max_high_of other" using m1 by simp_all
    then have "mh_ok (Node c' a z b)" "in_max_high z = max_high_of other" unfolding z by simp_all
    then have "mh_ok (Node Black (Node c' (rb_set_black a) z b) x node)" using assms(1,3-5) by simp
    from mh_rotate_right [OF this t(1)] t(2) show ?thesis by simp
  qed
qed

lemma erase_color_mh:
  "mh_ok t \<Longrightarrow> mh_ctx p (max_high_of t) \<Longrightarrow> interval_erase_color t p = Some t' \<Longrightarrow> mh_ok t'"
proof (induction t p rule: interval_erase_color.induct)
  case (2 node c x other p)
  have cx: "mh_ok other" "interval_high x \<le> in_max_high x" "max_high_of other \<le> in_max_high x"
    "max_high_of node \<le> in_max_high x" "mh_ctx p (in_max_high x)" using 2(3) by auto
  show ?case
  proof (cases "rb_is_red node")
    case True
    then have "t' = zip_up (rb_set_black node) (FL c x other # p)" using 2(4) by simp
    then show ?thesis using mh_zip [of "rb_set_black node" "FL c x other # p"] 2(2,3) by simp
  next
    case nr: False
    obtain oc ol y ort where o: "other = Node oc ol y ort" using 2(4) nr by (cases other) auto
    show ?thesis
    proof (cases oc)
      case Red
      let ?y = "y\<lparr>in_max_high := in_max_high x\<rparr>"
      obtain res where res: "it_erase_left node Red (refresh node x ol) ol = Some res"
        using 2(4) nr o Red by (auto split: option.splits)
      have oy: "mh_ok ol" "mh_ok ort" "max_high_of ol \<le> in_max_high x" "max_high_of ort \<le> in_max_high x"
        "interval_high y \<le> in_max_high x"
        using cx(1,3) o by (auto intro: order.trans)
      have "case res of Inl t \<Rightarrow> mh_ok t \<and> max_high_of t = in_max_high (refresh node x ol)
        | Inr t \<Rightarrow> mh_ok t \<and> max_high_of t = in_max_high (refresh node x ol)"
        using it_erase_left_mh [OF 2(2) oy(1) _ _ _ res] refresh_ok [where x = x and l = node and r = ol] by simp
      moreover have "in_max_high (refresh node x ol) \<le> in_max_high x" using cx oy by simp
      then have "mh_ctx (FL Black ?y ort # p) (in_max_high (refresh node x ol))"
        using cx(5) oy by simp
      ultimately show ?thesis
        using 2(4) nr o Red res mh_zip [of _ "FL Black ?y ort # p"]
        by (cases res) (auto simp del: zip_up.simps mh_ctx.simps mh_refresh)
    next
      case Black
      obtain res where res: "it_erase_left node c x other = Some res"
        using 2(4) nr o Black by (auto split: option.splits)
      note m = it_erase_left_mh [OF 2(2) cx(1,2,4,3) res]
      show ?thesis
      proof (cases res)
        case (Inl t)
        then have "interval_erase_color t p = Some t'" using 2(4) nr o Black res by simp
        then show ?thesis using 2(1) [OF nr o Black res Inl] Inl m cx(5) o res by simp
      next
        case (Inr t)
        then have "t' = rb_set_black (zip_up t p)" using 2(4) nr o Black res by simp
        then show ?thesis using m Inr cx(5) mh_zip [of t p] by simp
      qed
    qed
  qed
next
  case (3 node c other x p)
  have cx: "mh_ok other" "interval_high x \<le> in_max_high x" "max_high_of other \<le> in_max_high x"
    "max_high_of node \<le> in_max_high x" "mh_ctx p (in_max_high x)" using 3(3) by auto
  show ?case
  proof (cases "rb_is_red node")
    case True
    then have "t' = zip_up (rb_set_black node) (FR c other x # p)" using 3(4) by simp
    then show ?thesis using mh_zip [of "rb_set_black node" "FR c other x # p"] 3(2,3) by simp
  next
    case nr: False
    obtain oc ol y ort where o: "other = Node oc ol y ort" using 3(4) nr by (cases other) auto
    show ?thesis
    proof (cases oc)
      case Red
      let ?y = "y\<lparr>in_max_high := in_max_high x\<rparr>"
      obtain res where res: "it_erase_right ort Red (refresh ort x node) node = Some res"
        using 3(4) nr o Red by (auto split: option.splits)
      have oy: "mh_ok ort" "mh_ok ol" "max_high_of ort \<le> in_max_high x" "max_high_of ol \<le> in_max_high x"
        "interval_high y \<le> in_max_high x"
        using cx(1,3) o by (auto intro: order.trans)
      have "case res of Inl t \<Rightarrow> mh_ok t \<and> max_high_of t = in_max_high (refresh ort x node)
        | Inr t \<Rightarrow> mh_ok t \<and> max_high_of t = in_max_high (refresh ort x node)"
        using it_erase_right_mh [OF 3(2) oy(1) _ _ _ res] refresh_ok [where x = x and l = ort and r = node] by simp
      moreover have "in_max_high (refresh ort x node) \<le> in_max_high x" using cx oy by simp
      then have "mh_ctx (FR Black ol ?y # p) (in_max_high (refresh ort x node))"
        using cx(5) oy by simp
      ultimately show ?thesis
        using 3(4) nr o Red res mh_zip [of _ "FR Black ol ?y # p"]
        by (cases res) (auto simp del: zip_up.simps mh_ctx.simps mh_refresh)
    next
      case Black
      obtain res where res: "it_erase_right other c x node = Some res"
        using 3(4) nr o Black by (auto split: option.splits)
      note m = it_erase_right_mh [OF 3(2) cx(1,2,4,3) res]
      show ?thesis
      proof (cases res)
        case (Inl t)
        then have "interval_erase_color t p = Some t'" using 3(4) nr o Black res by simp
        then show ?thesis using 3(1) [OF nr o Black res Inl] Inl m cx(5) o res by simp
      next
        case (Inr t)
        then have "t' = rb_set_black (zip_up t p)" using 3(4) nr o Black res by simp
        then show ?thesis using m Inr cx(5) mh_zip [of t p] by simp
      qed
    qed
  qed
qed auto

lemma update_maxhigh_mh:
  assumes "mh_ok t" "mh_ctx p (max_high_of t)" "update_maxhigh t p old = (t', p')"
  shows "mh_ok t' \<and> mh_ctx p' (max_high_of t')"
proof (cases t)
  case (Node c l x r)
  let ?t = "Node c l (refresh l x r) r"
  have t: "mh_ok ?t" "max_high_of ?t \<le> max_high_of t" using assms(1) Node by (auto simp: le_max_iff_disj)
  then have "mh_ctx p (max_high_of ?t)" using assms(2) mh_ctx_mono by blast
  then show ?thesis using t(1) upd_frames_mh [of ?t p old] assms(3) Node
    by (auto simp: Let_def simp del: mh_refresh mh_ok.simps split: if_splits)
qed (use assms in auto)

lemma leftmost_mh:
  assumes "leftmost c l x r q = (c', y, ch, q')"
  shows "mh_ok (Node c l x r) \<Longrightarrow> mh_ctx (q @ b) (in_max_high x) \<Longrightarrow>
    mh_ok ch \<and> mh_ctx (q' @ b) (max_high_of ch)"
  using assms
proof (induction c l x r q rule: leftmost.induct)
  case (1 c x r p)
  then show ?case by (auto intro: mh_ctx_mono)
next
  case (2 c c' l' x' r' x r p)
  then show ?case by simp
qed

lemma mh_ctx_swap:
  "mh_ctx (q @ b1) (max_high_of t) \<Longrightarrow> mh_ok t \<Longrightarrow> mh_ctx b (max_high_of (zip_up t q)) \<Longrightarrow> mh_ctx (q @ b) (max_high_of t)"
proof (induction q arbitrary: t)
  case (Cons f q)
  show ?case
  proof (cases f)
    case (FL c x r)
    then show ?thesis using Cons.IH [of "Node c t x r"] Cons.prems by simp
  next
    case (FR c l x)
    then show ?thesis using Cons.IH [of "Node c l x t"] Cons.prems by simp
  qed
qed simp

lemma erase_at_mh:
  assumes "mh_ok (Node c l x r)" "mh_ctx p (in_max_high x)" "interval_erase_at c l x r p = Some t'"
  shows "mh_ok t'"
proof -
  have ok: "mh_ok l" "mh_ok r" "interval_high x \<le> in_max_high x" "max_high_of l \<le> in_max_high x"
    "max_high_of r \<le> in_max_high x" using assms(1) by auto
  have fin: "mh_ok t'"
    if "mh_ok ch" "mh_ctx pa (max_high_of ch)"
      "(if col = Black then interval_erase_color ch pa else Some (zip_up ch pa)) = Some t'" for col ch pa
    using that erase_color_mh [OF that(1,2)] mh_zip by (auto split: if_splits)
  show ?thesis
  proof (cases "l = Leaf \<or> r = Leaf")
    case True
    let ?ch = "if l = Leaf then r else l"
    obtain ch p' where u: "update_maxhigh ?ch p (in_max_high x) = (ch, p')" by fastforce
    have "(if c = Black then interval_erase_color ch p' else Some (zip_up ch p')) = Some t'"
      using assms(3) True u by (cases "l = Leaf"; cases r) (auto simp: interval_erase_at_def Let_def)
    moreover have "mh_ok ?ch" "mh_ctx p (max_high_of ?ch)"
      using ok mh_ctx_mono [OF assms(2)] by auto
    then have "mh_ok ch" "mh_ctx p' (max_high_of ch)" using update_maxhigh_mh [OF _ _ u] by auto
    ultimately show ?thesis using fin by blast
  next
    case False
    then obtain rc rl rx rr where r: "r = Node rc rl rx rr" by (cases r) auto
    obtain c' y child q where lm: "leftmost rc rl rx rr [] = (c', y, child, q)" by (metis prod_cases4)
    obtain ch path where u: "update_maxhigh child (q @ FR c l y # p) (in_max_high y) = (ch, path)" by fastforce
    define below where "below = take (length q) path"
    define above where "above = drop (length q) path"
    have e: "(if c' = Black then interval_erase_color ch (below @ upd_frames (zip_up ch below) above (in_max_high x))
        else Some (zip_up ch (below @ upd_frames (zip_up ch below) above (in_max_high x)))) = Some t'"
      using assms(3) False r lm u unfolding below_def above_def by (simp add: interval_erase_at_def Let_def)
    text \<open>Before the move: the chain with the old node in its place.\<close>
    have old: "mh_ok child" "mh_ctx (q @ FR c l x # p) (max_high_of child)"
      using leftmost_mh [OF lm, of "FR c l x # p"] ok assms(2) r by auto
    have yr: "y \<in> set (inord r)" using leftmost_facts(2) [OF lm] r by auto
    have hy: "interval_high y \<le> in_max_high x" using mh_all [OF ok(2) yr] ok(5) by (rule order.trans)
    obtain b' where pa: "path = below @ b'" "mh_ok ch" "mh_ctx (below @ FR c l x # p) (max_high_of ch)"
      "b' = FR c l y # p \<or> b' = upd_frames (zip_up ch below) (FR c l y # p) (in_max_high y)" "above = b'"
    proof (cases child)
      case Leaf
      then have "ch = Leaf" "path = q @ FR c l y # p" using u by simp_all
      then show ?thesis using that [of "FR c l y # p"] old Leaf by (simp add: below_def above_def)
    next
      case (Node cc cl cx cr)
      let ?t = "Node cc cl (refresh cl cx cr) cr"
      have t: "mh_ok ?t" "max_high_of ?t \<le> max_high_of child" using old(1) Node by (auto simp: le_max_iff_disj)
      then have cx: "mh_ctx (q @ FR c l x # p) (max_high_of ?t)" using old(2) mh_ctx_mono by blast
      show ?thesis
      proof (cases "in_max_high (refresh cl cx cr) \<ge> in_max_high y")
        case True
        then have "ch = ?t" "path = q @ FR c l y # p" using u Node by (simp_all add: Let_def del: mh_refresh)
        then show ?thesis using that [of "FR c l y # p"] t(1) cx by (simp add: below_def above_def)
      next
        case nle: False
        then have chp: "ch = ?t" "path = upd_frames ?t (q @ FR c l y # p) (in_max_high y)"
          using u Node nle by (auto simp: Let_def simp del: mh_refresh)
        obtain q' b' where q': "upd_frames ?t (q @ FR c l y # p) (in_max_high y) = q' @ b'" "length q' = length q"
          "b' = FR c l y # p \<or> b' = upd_frames (zip_up ?t q') (FR c l y # p) (in_max_high y)"
          "mh_ctx (q' @ FR c l x # p) (max_high_of ?t)"
          using upd_prefix [of ?t q "FR c l y # p" "in_max_high y"] t(1) cx by metis
        have "below = q'" "above = b'" using chp q'(1,2) by (simp_all add: below_def above_def)
        then show ?thesis using that [of b'] chp q' t(1) by simp
      qed
    qed
    define sub where "sub = zip_up ch below"
    have sub: "mh_ok sub" "max_high_of sub \<le> in_max_high x"
      using mh_ctx_zip [OF pa(2,3)] by (simp_all add: sub_def)
    let ?y = "refresh l y sub"
    have my: "in_max_high ?y \<le> in_max_high x" using hy sub(2) ok(4) by simp
    then have pm: "mh_ctx p (in_max_high ?y)" using assms(2) mh_ctx_mono by blast
    have fr: "mh_ctx (FR c l ?y # p1) (max_high_of sub)" if "mh_ctx p1 (in_max_high ?y)" for p1
      using that ok(1) refresh_ok [where x = y and l = l and r = sub] by simp
    have "mh_ctx (upd_frames sub above (in_max_high x)) (max_high_of sub)"
    proof -
      have node: "mh_ok (Node c l ?y sub)"
        using ok(1) sub(1) refresh_ok [where x = y and l = l and r = sub] by simp
      have up: "mh_ctx (upd_frames (Node c l ?y sub) p1 v) (in_max_high ?y)" if "mh_ctx p1 (in_max_high ?y)" for p1 v
        using upd_frames_mh [OF node, of p1 v] that by simp
      obtain y1 p1 where ab: "above = FR c l y1 # p1" "refresh l y1 sub = ?y" "mh_ctx p1 (in_max_high ?y)"
      proof (cases "b' = FR c l y # p")
        case True
        then show ?thesis using that [of y p] pa(5) pm by simp
      next
        case nb: False
        then have "b' = FR c l ?y # (if in_max_high ?y \<ge> in_max_high y then p
            else upd_frames (Node c l ?y sub) p (in_max_high y))"
          using pa(4) by (simp add: sub_def Let_def del: mh_refresh)
        then show ?thesis using that [of ?y] pa(5) pm up [OF pm] by (simp add: refresh_def)
      qed
      show ?thesis unfolding ab(1) using ab(2) fr [of p1] fr [of "upd_frames (Node c l ?y sub) p1 (in_max_high x)"] up [OF ab(3)] ab(3)
        by (simp add: Let_def del: mh_refresh mh_ctx.simps)
    qed
    moreover have "mh_ctx (below @ b) (max_high_of ch)" if "mh_ctx b (max_high_of (zip_up ch below))" for b
      using mh_ctx_swap [OF pa(3,2) that] .
    ultimately have "mh_ctx (below @ upd_frames sub above (in_max_high x)) (max_high_of ch)"
      by (simp add: sub_def)
    then show ?thesis using fin [OF pa(2) _ e] by (simp add: sub_def)
  qed
qed

section \<open>The invariant of the tree\<close>

abbreviation extent_less :: "inode \<Rightarrow> inode \<Rightarrow> bool" where
  "extent_less x y \<equiv> extent_compare (in_extent x) (in_extent y) < 0"

definition it_ok :: "itree \<Rightarrow> bool" where
  "it_ok t \<longleftrightarrow> tree_ok t \<and> mh_ok t \<and> sorted_wrt extent_less (inord t)
     \<and> (\<forall>x\<in>set (inord t). interval_low x \<le> interval_high x)"

lemma extent_compare_simps [simp]:
  "extent_compare e e = 0" "extent_compare a b = 0 \<longleftrightarrow> a = b"
  by (auto simp: extent_compare_def intro: extent.equality)

lemma extent_compare_trans: "extent_compare a b < 0 \<Longrightarrow> extent_compare b d < 0 \<Longrightarrow> extent_compare a d < 0"
  by (auto simp: extent_compare_def split: if_splits)

lemma extent_compare_flip: "\<not> extent_compare a b < 0 \<longleftrightarrow> a = b \<or> extent_compare b a < 0"
  by (auto simp: extent_compare_def intro: extent.equality split: if_splits)

lemma extent_less_low: "extent_less x y \<Longrightarrow> interval_low x \<le> interval_low y"
  by (auto simp: extent_compare_def interval_low_def split: if_splits)

lemma tree_ok_skel [simp]: "tree_ok (skel t) = tree_ok t"
  by (simp add: tree_ok_def)

abbreviation key_less :: "extent \<times> nat \<Rightarrow> extent \<times> nat \<Rightarrow> bool" where
  "key_less a b \<equiv> key_compare a b < 0"

lemma sorted_keys: "sorted_wrt extent_less xs = sorted_wrt key_less (map ikey xs)"
  by (simp add: sorted_wrt_map key_compare_def ikey_def)

lemma fst_ikey [simp]: "fst (ikey x) = in_extent x"
  by (simp add: ikey_def)

lemma walk_misses:
  "it_walk n t p = (Leaf, q) \<Longrightarrow> sorted_wrt extent_less (inord t) \<Longrightarrow> x \<in> set (inord t) \<Longrightarrow> in_extent x \<noteq> in_extent n"
proof (induction n t p rule: it_walk.induct)
  case (2 n c l y r p)
  let ?y = "if in_max_high y < interval_high n then y\<lparr>in_max_high := interval_high n\<rparr> else y"
  have ne: "\<not> extent_equal (in_extent y) (in_extent n)" using 2(3) by auto
  then have ny: "in_extent y \<noteq> in_extent n" by (auto simp: extent_equal_def)
  have y: "node_compare n ?y = extent_compare (in_extent n) (in_extent y)" by (simp add: node_compare_def)
  have srt: "sorted_wrt extent_less (inord l)" "sorted_wrt extent_less (inord r)"
    "\<And>a. a \<in> set (inord l) \<Longrightarrow> extent_less a y" "\<And>b. b \<in> set (inord r) \<Longrightarrow> extent_less y b"
    using 2(4) by (auto simp: sorted_wrt_append)
  show ?case
  proof (cases "node_compare n ?y < 0")
    case True
    then have w: "it_walk n l (FL c ?y r # p) = (Leaf, q)" using 2(3) ne by (simp add: Let_def)
    have "in_extent b \<noteq> in_extent n" if "b \<in> set (inord r)" for b
      using extent_compare_trans [OF _ srt(4) [OF that]] True y by fastforce
    then show ?thesis using 2(1) [OF ne refl True w srt(1)] 2(5) ny by auto
  next
    case False
    then have w: "it_walk n r (FR c l ?y # p) = (Leaf, q)" using 2(3) ne by (simp add: Let_def)
    have "in_extent a \<noteq> in_extent n" if "a \<in> set (inord l)" for a
      using srt(3) [OF that] False y by auto
    then show ?thesis using 2(2) [OF ne refl False w srt(2)] 2(5) ny by auto
  qed
qed simp

lemma key_cut: "sorted_wrt key_less xs \<Longrightarrow> cut_at key_compare k xs"
  unfolding cut_at_def key_compare_def
  by (erule sorted_wrt_mono_rel [rotated]) (auto dest: extent_compare_trans)

text \<open>Inserting into the skeleton is what rb_insert does there.\<close>

lemma insert_skel:
  assumes "interval_insert n t = Some (None, t')"
  shows "\<exists>T. rb_insert key_compare (ikey n) \<lparr>rb_root = skel t, rb_num = int (length (inord t))\<rparr> = Some T \<and> rb_root T = skel t'
    \<and> it_walk n t [] = (Leaf, snd (it_walk n t []))"
proof -
  have ni: "\<not> in_intree n" using assms by (auto simp: interval_insert_def)
  obtain s q where w: "it_walk n t [] = (s, q)" by fastforce
  have s: "s = Leaf" using assms ni w by (cases s) (auto simp: interval_insert_def)
  obtain s' q' where s': "interval_insert_color (Node Red Leaf (n\<lparr>in_intree := True\<rparr>) Leaf) q = Some (s', q')"
    "t' = rb_set_black (zip_up s' q')"
    using assms ni w s by (auto simp: interval_insert_def)
  have "rb_walk key_compare (ikey n) (skel t) [] = skelp q" using it_walk_skel [of n t "[]" q] w s by simp
  moreover have "rb_insert_color (Node Red Leaf (ikey n) Leaf) (skelp q) = Some (skel s', skelp q')"
    using skel_insert_color [of "Node Red Leaf (n\<lparr>in_intree := True\<rparr>) Leaf" q] s'(1) by simp
  ultimately show ?thesis using s'(2) w s by (auto simp: rb_insert_def)
qed

lemma range_keys: "(\<forall>x\<in>set xs. interval_low x \<le> interval_high x)
    = (\<forall>k\<in>set (map ikey xs). ext_start (fst k) \<le> ext_end (fst k))"
  by (simp add: interval_low_def interval_high_def)

lemma in_place: "set (place compare e xs) = insert e (set xs)"
proof -
  have "set xs = set (takeWhile P xs @ dropWhile P xs)" for P :: "'a \<Rightarrow> bool" by simp
  then show ?thesis unfolding place_def by (simp only: set_append list.set) blast
qed

lemma key_place_sorted:
  assumes "sorted_wrt key_less xs" "\<forall>x\<in>set xs. fst x \<noteq> fst k"
  shows "sorted_wrt key_less (place key_compare k xs)"
proof -
  let ?P = "\<lambda>x. \<not> key_compare k x < 0"
  have sp: "sorted_wrt key_less (takeWhile ?P xs @ dropWhile ?P xs)" using assms(1) by simp
  have 1: "key_less x k" if "x \<in> set (takeWhile ?P xs)" for x
  proof -
    have "?P x" "x \<in> set xs" using that by (auto dest: set_takeWhileD)
    then show ?thesis using assms(2) extent_compare_flip [of "fst k" "fst x"] by (auto simp: key_compare_def)
  qed
  have 2: "key_less k x" if "x \<in> set (dropWhile ?P xs)" for x
  proof (cases "dropWhile ?P xs")
    case (Cons y ys)
    then have "key_less k y" using hd_dropWhile [of ?P xs] by auto
    moreover have "x = y \<or> key_less y x" using sp that Cons by (auto simp: sorted_wrt_append)
    ultimately show ?thesis using extent_compare_trans by (auto simp: key_compare_def)
  next
    case Nil
    then show ?thesis using that by (simp only: list.set empty_iff)
  qed
  have "sorted_wrt key_less (ls @ k # rs)"
    if "sorted_wrt key_less (ls @ rs)" "\<forall>x\<in>set ls. key_less x k" "\<forall>x\<in>set rs. key_less k x" for ls rs
    using that by (simp add: sorted_wrt_append)
  from this [OF sp] show ?thesis unfolding place_def using 1 2 by blast
qed

lemma color_some: "rb_insert_color (skel t) (skelp p) \<noteq> None \<Longrightarrow> interval_insert_color t p \<noteq> None"
  by (simp add: skel_insert_color)

lemma insert_runs:
  assumes "it_ok t" "\<not> in_intree n"
  shows "\<exists>found t'. interval_insert n t = Some (found, t')"
proof -
  obtain s q where w: "it_walk n t [] = (s, q)" by fastforce
  show ?thesis
  proof (cases s)
    case Leaf
    let ?T = "\<lparr>rb_root = skel t, rb_num = int (length (inord t))\<rparr>"
    have "tree_ok t" using assms(1) by (simp add: it_ok_def)
    then have "rb_ok ?T" by (simp add: tree_ok_def rb_ok_def)
    from insert_total [OF this, of key_compare "ikey n"]
    obtain T where "rb_insert key_compare (ikey n) ?T = Some T" by (elim exE conjE)
    then have "rb_insert_color (Node Red Leaf (ikey n) Leaf) (rb_walk key_compare (ikey n) (skel t) []) \<noteq> None"
      by (cases "rb_insert_color (Node Red Leaf (ikey n) Leaf) (rb_walk key_compare (ikey n) (skel t) [])")
        (simp_all add: rb_insert_def)
    then have "rb_insert_color (skel (Node Red Leaf (n\<lparr>in_intree := True\<rparr>) Leaf)) (skelp q) \<noteq> None"
      using it_walk_skel [of n t "[]" q] w Leaf by simp
    then show ?thesis using color_some [of "Node Red Leaf (n\<lparr>in_intree := True\<rparr>) Leaf" q] assms(2) w Leaf by (auto simp: interval_insert_def)
  qed (use assms(2) w in \<open>simp add: interval_insert_def\<close>)
qed

lemma it_insert_ok:
  assumes "it_ok t" "in_max_high n = interval_high n" "interval_low n \<le> interval_high n"
    "interval_insert n t = Some (None, t')"
  shows "it_ok t' \<and> set (map ikey (inord t')) = insert (ikey n) (set (map ikey (inord t)))
    \<and> in_extent n \<notin> in_extent ` set (inord t)"
proof -
  let ?T = "\<lparr>rb_root = skel t, rb_num = int (length (inord t))\<rparr>"
  obtain T where T: "rb_insert key_compare (ikey n) ?T = Some T" "rb_root T = skel t'"
    and w: "it_walk n t [] = (Leaf, snd (it_walk n t []))"
    using insert_skel [OF assms(4)] by blast
  have ok: "tree_ok t" "mh_ok t" "sorted_wrt extent_less (inord t)" "\<forall>x\<in>set (inord t). interval_low x \<le> interval_high x"
    using assms(1) by (simp_all add: it_ok_def)
  have "rb_ok ?T" using ok(1) by (auto simp: tree_ok_def rb_ok_def)
  then have tk: "tree_ok t'" using insert_total [of ?T key_compare "ikey n"] T by (auto simp: rb_ok_def tree_ok_def)
  have srt: "sorted_wrt key_less (map ikey (inord t))" using ok(3) by (simp only: sorted_keys)
  have pl: "map ikey (inord t') = place key_compare (ikey n) (map ikey (inord t))"
    using insert_inord [OF T(1)] T(2) key_cut [OF srt] by simp
  have miss: "in_extent x \<noteq> in_extent n" if "x \<in> set (inord t)" for x
    using walk_misses [OF w ok(3) that] .
  have "sorted_wrt key_less (map ikey (inord t'))" unfolding pl
    by (rule key_place_sorted [OF srt]) (use miss in auto)
  then have so: "sorted_wrt extent_less (inord t')" by (simp only: sorted_keys)
  have keys: "set (map ikey (inord t')) = insert (ikey n) (set (map ikey (inord t)))"
    unfolding pl by (rule in_place)
  have "\<forall>k\<in>set (map ikey (inord t)). ext_start (fst k) \<le> ext_end (fst k)"
    using ok(4) by (simp only: range_keys)
  then have "\<forall>x\<in>set (inord t'). interval_low x \<le> interval_high x"
    unfolding range_keys keys using assms(3) by (auto simp: interval_low_def interval_high_def)
  then have "it_ok t'" using tk interval_insert_mh [OF ok(2) assms(4,2)] so by (simp add: it_ok_def)
  moreover have "in_extent n \<notin> in_extent ` set (inord t)" using miss by force
  ultimately show ?thesis using keys by blast
qed

lemma insert_found:
  assumes "it_ok t" "in_max_high n = interval_high n" "interval_insert n t = Some (Some x, t')"
  shows "it_ok t' \<and> map ikey (inord t') = map ikey (inord t) \<and> x \<in> set (inord t) \<and> in_extent x = in_extent n"
proof -
  obtain s q where w: "it_walk n t [] = (s, q)" by fastforce
  obtain c l r where s: "s = Node c l x r" "t' = zip_up s q"
    using assms(3) w by (cases s) (auto simp: interval_insert_def split: if_splits)
  have f: "in_extent x = in_extent n" "x \<in> set (inord t)" "skel t' = skel t"
    using it_walk_found [of n t "[]" c l x r q] w s by simp_all
  have keys: "map ikey (inord t') = map ikey (inord t)" using f(3) by (metis inord_skel)
  have "\<forall>y\<in>set (inord t'). interval_low y \<le> interval_high y"
    using assms(1) unfolding it_ok_def range_keys keys by simp
  moreover have "tree_ok t'" using assms(1) f(3) by (metis it_ok_def tree_ok_skel)
  moreover have "sorted_wrt extent_less (inord t')" using assms(1) keys unfolding it_ok_def sorted_keys by simp
  moreover have "mh_ok t'" using interval_insert_mh [OF _ assms(3,2)] assms(1) by (simp add: it_ok_def)
  ultimately show ?thesis using f keys by (simp add: it_ok_def)
qed

section \<open>Removal of a node\<close>

lemma locate_mh:
  assumes "rb_locate e t p0 = Some (c, l, x, r, p)" "mh_ok t" "mh_ctx p0 (max_high_of t)"
  shows "mh_ok (Node c l x r) \<and> mh_ctx p (in_max_high x)"
  using assms
proof (induction e t p0 rule: rb_locate.induct)
  case (2 e c1 l1 x1 r1 p1)
  show ?case
  proof (cases "x1 = e")
    case True
    then show ?thesis using 2(3-) by simp
  next
    case False
    show ?thesis
    proof (cases "rb_locate e l1 (FL c1 x1 r1 # p1)")
      case None
      then show ?thesis using False 2(3-) by (intro 2(2)) auto
    next
      case (Some a)
      then show ?thesis using False 2(3-) by (intro 2(1)) auto
    qed
  qed
qed simp

lemma interval_erase_ok:
  assumes "it_ok t" "n \<in> set (inord t)" "in_intree n"
  shows "\<exists>t' xs ys. interval_erase n t = Some t' \<and> it_ok t' \<and> inord t = xs @ n # ys
    \<and> map ikey (inord t') = map ikey (xs @ ys)"
proof -
  obtain c l r p where loc: "rb_locate n t [] = Some (c, l, n, r, p)" using locate_in [OF assms(2)] by blast
  obtain k where "rb_wf t k" "nil_or_black t" using assms(1) by (auto simp: it_ok_def tree_ok_def)
  then obtain m where m: "ctx p m" "rb_wf (Node c l n r) m" "c = Red \<longrightarrow> top_black p \<and> p \<noteq> []"
    using locate_facts(3) [OF loc, of k] by auto
  have m': "ctx (skelp p) m" "rb_wf (Node c (skel l) (ikey n) (skel r)) m" "c = Red \<longrightarrow> top_black (skelp p) \<and> skelp p \<noteq> []"
    using m skel_ctx skel_wf [of "Node c l n r" m] skel_top_black by simp_all
  obtain s where s: "rb_erase_at c (skel l) (ikey n) (skel r) (skelp p) = Some s" "tree_ok s"
    using erase_at_wf [OF m'] by blast
  then obtain t' where t': "interval_erase_at c l n r p = Some t'" "skel t' = s" by (auto simp: skel_erase_at)
  have split: "inord t = (lefts p @ inord l) @ n # (inord r @ rights p)" using locate_facts(2) [OF loc] by simp
  have keys: "map ikey (inord t') = map ikey ((lefts p @ inord l) @ (inord r @ rights p))"
    using erase_at_inord [OF s(1)] t'(2) by (metis inord_skel skel_lefts skel_rights map_append append_assoc)
  have "mh_ok t'"
    using locate_mh [OF loc] erase_at_mh [OF _ _ t'(1)] assms(1) by (simp add: it_ok_def)
  moreover have "tree_ok t'" using s(2) t'(2) by (metis tree_ok_skel)
  moreover have "sorted_wrt extent_less (inord t')"
  proof -
    have "sorted_wrt extent_less ((lefts p @ inord l) @ (inord r @ rights p))"
      using assms(1) split by (auto simp: it_ok_def sorted_wrt_append)
    then show ?thesis unfolding sorted_keys keys .
  qed
  moreover have "\<forall>y\<in>set (inord t'). interval_low y \<le> interval_high y"
    unfolding range_keys keys using assms(1) split by (auto simp: it_ok_def interval_low_def interval_high_def)
  ultimately have "it_ok t'" by (simp add: it_ok_def)
  moreover have "interval_erase n t = Some t'" using assms(3) loc t'(1) by (simp add: interval_erase_def)
  ultimately show ?thesis using split keys by blast
qed

section \<open>Search and expansion are exact\<close>

text \<open>interval_search reports nodes in preorder.  \<open>pend\<close> lists what is still
  to be visited outside the current subtree; a chain is \<open>searchable\<close> when the
  walk took each left branch for one of its two reasons.\<close>

fun preord :: "itree \<Rightarrow> inode list" where
  "preord Leaf = []"
| "preord (Node c l x r) = x # preord l @ preord r"

fun pend :: "ipath \<Rightarrow> inode list" where
  "pend [] = []"
| "pend (FL c x r # p) = preord r @ pend p"
| "pend (FR c l x # p) = pend p"

fun searchable :: "extent \<Rightarrow> ipath \<Rightarrow> bool" where
  "searchable ext [] = True"
| "searchable ext (FL c x r # p) \<longleftrightarrow> mh_ok r \<and> searchable ext p
     \<and> (ext_end ext < interval_low x \<or> interval_may_overlap x ext)"
| "searchable ext (FR c l x # p) = searchable ext p"

lemma set_preord [simp]: "set (preord t) = set (inord t)"
  by (induction t) auto

lemma set_pend: "set (pend p) \<subseteq> set (rights p)"
  by (induction p rule: pend.induct) auto

abbreviation hits :: "extent \<Rightarrow> inode list \<Rightarrow> inode list" where
  "hits ext xs \<equiv> [x \<leftarrow> xs. extent_overlapped ext (in_extent x)]"

lemma no_hits: "(\<And>x. x \<in> set xs \<Longrightarrow> \<not> extent_overlapped ext (in_extent x)) \<Longrightarrow> hits ext xs = []"
  by (simp add: filter_empty_conv)

lemma above_no_hit: "ext_end ext < interval_low y \<Longrightarrow> interval_low y \<le> interval_low x \<Longrightarrow> \<not> extent_overlapped ext (in_extent x)"
  by (auto simp: extent_overlapped_def interval_low_def)

lemma below_no_hit: "interval_high x < ext_start ext \<Longrightarrow> \<not> extent_overlapped ext (in_extent x)"
  by (auto simp: extent_overlapped_def interval_high_def)

abbreviation low_sorted :: "inode list \<Rightarrow> bool" where
  "low_sorted xs \<equiv> sorted_wrt (\<lambda>x y. interval_low x \<le> interval_low y) xs"

lemma climb_facts:
  assumes "searchable ext p" "low_sorted (rights p)"
  shows "case it_climb t p of
      None \<Rightarrow> pend p = []
    | Some (y, s, q) \<Rightarrow> pend p = preord s @ pend q \<and> mh_ok s \<and> searchable ext q \<and> low_sorted (inord s @ rights q)
        \<and> (ext_end ext < interval_low y \<or> interval_may_overlap y ext)
        \<and> (\<forall>x\<in>set (pend p). interval_low y \<le> interval_low x)"
  using assms
proof (induction t p rule: it_climb.induct)
  case (2 t c x r p)
  show ?case
  proof (cases "r = Leaf")
    case True
    have e: "pend (FL c x r # p) = pend p" "it_climb t (FL c x r # p) = it_climb (Node c t x r) p" using True by simp_all
    show ?thesis unfolding e using 2(1) 2(2,3) True by simp
  next
    case False
    have "low_sorted (inord r @ rights p)" "\<forall>y\<in>set (inord r) \<union> set (rights p). interval_low x \<le> interval_low y"
      using 2(3) by (auto simp: sorted_wrt_append)
    then show ?thesis using False 2(2) set_pend [of p] by auto
  qed
next
  case (3 t c l x p)
  have e: "pend (FR c l x # p) = pend p" "it_climb t (FR c l x # p) = it_climb (Node c l x t) p" by simp_all
  show ?case unfolding e using 3 by simp
qed simp

lemma climb_nonleaf: "it_climb t p = Some (y, s, q) \<Longrightarrow> s \<noteq> Leaf"
  by (induction t p rule: it_climb.induct) (auto split: if_splits)

text \<open>What the climb of the loop, with its early exit, still finds.\<close>

lemma climb_rest:
  assumes "searchable ext p" "low_sorted (rights p)"
    and "\<And>y s q d. it_climb t p = Some (y, s, q) \<Longrightarrow> interval_may_overlap y ext \<Longrightarrow> mh_ok s \<Longrightarrow> searchable ext q \<Longrightarrow>
      low_sorted (inord s @ rights q) \<Longrightarrow> it_search f ext s q d = fold_cb f (hits ext (preord s @ pend q)) d"
  shows "(case it_climb t p of None \<Rightarrow> (ITER_CONT, d)
      | Some (y, s, q) \<Rightarrow> if \<not> interval_may_overlap y ext then (ITER_CONT, d) else it_search f ext s q d)
    = fold_cb f (hits ext (pend p)) d"
proof (cases "it_climb t p")
  case None
  then show ?thesis using climb_facts [OF assms(1,2), of t] by simp
next
  case (Some a)
  obtain y s q where a: "a = (y, s, q)" by (cases a)
  have f: "pend p = preord s @ pend q" "mh_ok s" "searchable ext q" "low_sorted (inord s @ rights q)"
    "ext_end ext < interval_low y \<or> interval_may_overlap y ext" "\<forall>x\<in>set (pend p). interval_low y \<le> interval_low x"
    using climb_facts [OF assms(1,2), of t] Some a by simp_all
  show ?thesis
  proof (cases "interval_may_overlap y ext")
    case True
    then show ?thesis using assms(3) [of y s q d] Some a f by simp
  next
    case False
    then have "ext_end ext < interval_low y" using f(5) by simp
    then have "hits ext (pend p) = []" using f(6) by (intro no_hits) (blast dest: above_no_hit)
    then show ?thesis using Some a False by simp
  qed
qed

lemma it_search_hits:
  assumes "mh_ok t" "searchable ext p" "low_sorted (inord t @ rights p)" "t \<noteq> Leaf \<or> p = []"
  shows "it_search f ext t p d = fold_cb f (hits ext (preord t @ pend p)) d"
  using assms
proof (induction "rb_size t + pending_size p" arbitrary: t p d rule: less_induct)
  case less
  show ?case
  proof (cases t)
    case Leaf
    then show ?thesis using less.prems(4) by simp
  next
    case (Node c l x r)
    have srt: "low_sorted (inord l @ x # inord r @ rights p)" using less.prems(3) Node by simp
    have right: "interval_low x \<le> interval_low y" if "y \<in> set (inord r) \<or> y \<in> set (rights p)" for y
      using srt that by (auto simp: sorted_wrt_append)
    have sp: "low_sorted (rights p)" "low_sorted (inord r @ rights p)" using srt by (auto simp: sorted_wrt_append)
    have ok: "mh_ok l" "mh_ok r" "interval_high x \<le> in_max_high x" "max_high_of l \<le> in_max_high x" "max_high_of r \<le> in_max_high x"
      using less.prems(1) Node by simp_all
    have rest: "(case it_climb (Node c l x r) p of None \<Rightarrow> (ITER_CONT, d')
        | Some (y, s, q) \<Rightarrow> if \<not> interval_may_overlap y ext then (ITER_CONT, d') else it_search f ext s q d')
      = fold_cb f (hits ext (pend p)) d'" for d'
    proof (rule climb_rest [OF less.prems(2) sp(1)])
      fix y s q d assume a: "it_climb (Node c l x r) p = Some (y, s, q)" "interval_may_overlap y ext"
        "mh_ok s" "searchable ext q" "low_sorted (inord s @ rights q)"
      have "s \<noteq> Leaf" using a(1) by (rule climb_nonleaf)
      moreover have "rb_size s + pending_size q < rb_size t + pending_size p" using climb_size [OF a(1)] Node by simp
      ultimately show "it_search f ext s q d = fold_cb f (hits ext (preord s @ pend q)) d"
        using a by (intro less.hyps) simp_all
    qed
    have goleft: "it_search f ext l (FL c x r # p) d' = fold_cb f (hits ext (preord l @ preord r @ pend p)) d'"
      if "l \<noteq> Leaf" "ext_end ext < interval_low x \<or> interval_may_overlap x ext" for d'
      using less.hyps [of l "FL c x r # p" d'] that ok less.prems(2) srt Node by simp
    have goright: "it_search f ext r (FR c l x # p) d' = fold_cb f (hits ext (preord r @ pend p)) d'"
      if "r \<noteq> Leaf" for d'
      using less.hyps [of r "FR c l x # p" d'] that ok less.prems(2) sp(2) Node by simp
    consider (low) "ext_end ext < interval_low x" | (may) "\<not> ext_end ext < interval_low x" "interval_may_overlap x ext"
      | (high) "\<not> ext_end ext < interval_low x" "in_max_high x < ext_start ext"
      by (fastforce simp: interval_may_overlap_def)
    then show ?thesis
    proof cases
      case low
      have nx: "\<not> extent_overlapped ext (in_extent x)" using above_no_hit [OF low order.refl] .
      have nr: "hits ext (preord r) = []" using above_no_hit [OF low right] by (intro no_hits) simp
      show ?thesis
      proof (cases "l = Leaf")
        case True
        then show ?thesis using Node low nx nr rest [of d] by simp
      next
        case False
        then show ?thesis using Node low nx goleft [of d] by simp
      qed
    next
      case may
      have below: "(if l \<noteq> Leaf then it_search f ext l (FL c x r # p) d'
         else if r \<noteq> Leaf then it_search f ext r (FR c l x # p) d'
         else (case it_climb (Node c l x r) p of None \<Rightarrow> (ITER_CONT, d')
          | Some (y, s, q) \<Rightarrow> if \<not> interval_may_overlap y ext then (ITER_CONT, d') else it_search f ext s q d'))
        = fold_cb f (hits ext (preord l @ preord r @ pend p)) d'" for d'
        using goleft [of d'] goright [of d'] rest [of d'] may(2) by (cases "l = Leaf"; cases "r = Leaf") simp_all
      obtain rc d' where fx: "(if extent_overlapped ext (in_extent x) then f x d else (ITER_CONT, d)) = (rc, d')" by fastforce
      have "it_search f ext t p d = (if rc = ITER_STOP then (ITER_STOP, d') else fold_cb f (hits ext (preord l @ preord r @ pend p)) d')"
        unfolding below [symmetric] Node using may fx by simp
      then show ?thesis using Node fx by (cases rc) (auto split: if_splits)
    next
      case high
      have nx: "\<not> extent_overlapped ext (in_extent x)" using below_no_hit ok(3) high(2) by (meson order.strict_trans1)
      have sub: "hits ext (preord s) = []" if "mh_ok s" "max_high_of s \<le> in_max_high x" for s
        using that high(2) by (intro no_hits below_no_hit) (metis mh_all set_preord order.strict_trans1 order.trans)
      have "\<not> interval_may_overlap x ext" using high(2) unfolding interval_may_overlap_def by (meson not_le)
      then show ?thesis using Node high nx sub [OF ok(1,4)] sub [OF ok(2,5)] rest [of d] by simp
    qed
  qed
qed

lemma low_sorted_ok: "it_ok t \<Longrightarrow> low_sorted (inord t)"
  unfolding it_ok_def by (elim conjE, erule sorted_wrt_mono_rel [rotated]) (auto dest: extent_less_low)

lemma search_hits: "it_ok t \<Longrightarrow> interval_search f ext t d = fold_cb f (hits ext (preord t)) d"
  using it_search_hits [of t ext "[]" f d] low_sorted_ok [of t] by (simp add: interval_search_def it_ok_def)

lemma fold_overlap_cb: "snd (fold_cb interval_overlap_cb xs b) = (b \<or> xs \<noteq> [])"
  by (cases xs) (simp_all add: interval_overlap_cb_def)

lemma overlapped_iff: "it_ok t \<Longrightarrow> interval_is_overlapped t ext \<longleftrightarrow> (\<exists>x\<in>set (inord t). extent_overlapped ext (in_extent x))"
  using search_hits [of t interval_overlap_cb ext False]
  by (simp add: interval_is_overlapped_def fold_overlap_cb filter_empty_conv Bex_def)

lemma find_exact:
  "sorted_wrt extent_less (inord t) \<Longrightarrow> interval_find t ex = Some x \<longleftrightarrow> x \<in> set (inord t) \<and> in_extent x = ex"
proof (induction t)
  case (Node c l y r)
  have s: "sorted_wrt extent_less (inord l)" "sorted_wrt extent_less (inord r)"
    "\<And>a. a \<in> set (inord l) \<Longrightarrow> extent_less a y" "\<And>b. b \<in> set (inord r) \<Longrightarrow> extent_less y b"
    using Node.prems by (auto simp: sorted_wrt_append)
  have irr: "\<not> extent_compare e e < 0" for e by simp
  have asym: "extent_compare a b < 0 \<Longrightarrow> \<not> extent_compare b a < 0" for a b
    using extent_compare_trans [of a b a] irr by blast
  consider (eq) "ex = in_extent y" | (lt) "extent_compare ex (in_extent y) < 0" | (gt) "extent_compare (in_extent y) ex < 0" "ex \<noteq> in_extent y"
    using extent_compare_flip by blast
  then show ?case
  proof cases
    case eq
    then have "in_extent a \<noteq> ex" if "a \<in> set (inord l) \<or> a \<in> set (inord r)" for a
      using that s(3,4) irr by metis
    then show ?thesis using eq by auto
  next
    case lt
    then have "in_extent a \<noteq> ex" if "a = y \<or> a \<in> set (inord r)" for a
      using that s(4) asym irr by metis
    then show ?thesis using lt Node.IH(1) [OF s(1)] by auto
  next
    case gt
    have nl: "\<not> extent_compare ex (in_extent y) < 0" "extent_compare ex (in_extent y) \<noteq> 0"
      using gt asym by auto
    have "in_extent a \<noteq> ex" if "a = y \<or> a \<in> set (inord l)" for a
      using that gt s(3) asym irr by metis
    then show ?thesis using nl Node.IH(2) [OF s(2)] by auto
  qed
qed simp

text \<open>Expanding upwards stops one below the next extent.\<close>

lemma expand_high_facts:
  assumes "mh_ok t" "low_sorted (inord t)" "\<forall>x\<in>set (inord t). interval_low x \<le> interval_high x"
    and "\<forall>x\<in>set (inord t). interval_low x > high \<longrightarrow> interval_low x - 1 \<le> res" "high \<le> res"
  shows "high \<le> expand_high_loop t high res \<and> expand_high_loop t high res \<le> res
    \<and> (\<forall>x\<in>set (inord t). interval_low x > high \<longrightarrow> interval_low x > expand_high_loop t high res)
    \<and> (expand_high_loop t high res = res \<or> (\<exists>x\<in>set (inord t). interval_low x > high \<and> interval_low x = expand_high_loop t high res + 1))"
  using assms
proof (induction t high res rule: expand_high_loop.induct)
  case (2 c l x r high res)
  have sl: "low_sorted (inord l)" "low_sorted (inord r)" "\<And>y. y \<in> set (inord l) \<Longrightarrow> interval_low y \<le> interval_low x"
    "\<And>y. y \<in> set (inord r) \<Longrightarrow> interval_low x \<le> interval_low y" using 2(4) by (auto simp: sorted_wrt_append)
  show ?case
  proof (cases "in_max_high x < high")
    case True
    have "\<not> interval_low y > high" if "y \<in> set (inord (Node c l x r))" for y
    proof -
      have "interval_high y \<le> in_max_high x" "interval_low y \<le> interval_high y" using mh_all [OF 2(3) that] 2(5) that by (simp, blast)
      from le_less_trans [OF order.trans [OF this(2,1)] True] show ?thesis by simp
    qed
    then show ?thesis using True 2(7) by auto
  next
    case nm: False
    show ?thesis
    proof (cases "interval_low x > high")
      case True
      note w = word_pred [OF True]
      have "interval_low y - 1 \<le> interval_low x - 1" if "y \<in> set (inord l)" "interval_low y > high" for y
        using word_pred(3) [OF that(2) sl(3) [OF that(1)]] .
      then have IH: "high \<le> expand_high_loop l high (interval_low x - 1) \<and> expand_high_loop l high (interval_low x - 1) \<le> interval_low x - 1
        \<and> (\<forall>y\<in>set (inord l). interval_low y > high \<longrightarrow> interval_low y > expand_high_loop l high (interval_low x - 1))
        \<and> (expand_high_loop l high (interval_low x - 1) = interval_low x - 1
          \<or> (\<exists>y\<in>set (inord l). interval_low y > high \<and> interval_low y = expand_high_loop l high (interval_low x - 1) + 1))"
        using 2(1) [OF nm True] 2(3,5) sl(1) w(1) by simp
      have e: "expand_high_loop (Node c l x r) high res = expand_high_loop l high (interval_low x - 1)" using nm True by simp
      have lt: "expand_high_loop l high (interval_low x - 1) < interval_low x" using IH w(2) by (meson order.strict_trans1)
      have "expand_high_loop l high (interval_low x - 1) \<le> res" using IH 2(6) True by (auto intro: order.trans)
      moreover have "\<forall>y\<in>set (inord r). expand_high_loop l high (interval_low x - 1) < interval_low y"
        using lt sl(4) by (auto intro: order.strict_trans2)
      moreover have "\<exists>y\<in>set (inord (Node c l x r)). interval_low y > high \<and> interval_low y = expand_high_loop l high (interval_low x - 1) + 1"
        using IH True by auto
      ultimately show ?thesis unfolding e using IH lt by auto
    next
      case False
      have "\<not> interval_low y > high" if "y \<in> set (inord l)" for y using sl(3) [OF that] False by auto
      then show ?thesis using nm False 2(2) [OF nm False] 2(3,5-7) sl(2) by auto
    qed
  qed
qed simp

text \<open>interval_expand: nothing in the tree overlaps the grown extent.\<close>

lemma expand_facts:
  assumes "it_ok t" "\<not> interval_is_overlapped t ext" "ext_start ext \<le> ext_end ext"
  shows "\<exists>e. interval_expand t ext lim = Some e \<and> \<not> interval_is_overlapped t e
    \<and> ext_start e \<le> ext_start ext \<and> ext_end ext \<le> ext_end e
    \<and> (ext_end e \<in> {ext_end ext, -1} \<or> (\<exists>x\<in>set (inord t). interval_low x = ext_end e + 1))"
proof -
  let ?hi = "interval_expand_high t (ext_end ext)"
  have hi: "ext_end ext \<le> ?hi" "\<forall>x\<in>set (inord t). interval_low x > ext_end ext \<longrightarrow> interval_low x > ?hi"
    "?hi = -1 \<or> (\<exists>x\<in>set (inord t). interval_low x = ?hi + 1)"
    using expand_high_facts [of t "ext_end ext" "-1"] low_sorted_ok [OF assms(1)] assms(1)
    by (auto simp: it_ok_def interval_expand_high_def)
  define e1 where "e1 = (if (case lim of None \<Rightarrow> True | Some m \<Rightarrow> ext_start m < ext_start ext)
    then ext\<lparr>ext_start := interval_expand_low t (ext_start ext)\<rparr> else ext)"
  define e2 where "e2 = (if (case lim of None \<Rightarrow> True | Some m \<Rightarrow> ext_end m > ext_end e1)
    then e1\<lparr>ext_end := interval_expand_high t (ext_end e1)\<rparr> else e1)"
  have e1: "ext_end e1 = ext_end ext" "ext_start e1 = ext_start ext \<or> t = Leaf \<and> ext_start e1 = 0"
    by (auto simp: e1_def interval_expand_low_def split: option.splits)
  have e2: "ext_start e2 = ext_start e1" "ext_end e2 = ext_end ext \<or> ext_end e2 = ?hi"
    using e1(1) by (auto simp: e2_def split: option.splits)
  have start: "ext_start e2 \<le> ext_start ext" using e1(2) e2(1) by auto
  have "\<not> extent_overlapped e2 (in_extent x)" if "x \<in> set (inord t)" for x
  proof -
    have s: "ext_start e2 = ext_start ext" using that e1(2) e2(1) by auto
    have "\<not> extent_overlapped ext (in_extent x)" using assms(2) that overlapped_iff [OF assms(1)] by blast
    then consider "ext_end (in_extent x) < ext_start ext" | "ext_end ext < interval_low x"
      by (fastforce simp: extent_overlapped_def interval_low_def)
    then show ?thesis
    proof cases
      case 2
      then have "?hi < interval_low x" using hi(2) that by blast
      then have "ext_end e2 < interval_low x" using e2(2) 2 by auto
      then show ?thesis by (auto simp: extent_overlapped_def interval_low_def)
    qed (auto simp: extent_overlapped_def s)
  qed
  then have "\<not> interval_is_overlapped t e2" using overlapped_iff [OF assms(1)] by blast
  moreover have "interval_expand t ext lim = (if interval_is_overlapped t ext then None
      else if interval_is_overlapped t e2 then None else Some e2)"
    by (simp only: interval_expand_def Let_def e1_def e2_def)
  then have "interval_expand t ext lim = Some e2" using assms(2) calculation by (simp only: if_False)
  ultimately show ?thesis using start e2(2) hi(1,3) by (intro exI [of _ e2]) auto
qed

section \<open>Properties\<close>

lemma it_ok_leaf [simp]: "it_ok Leaf"
  unfolding it_ok_def tree_ok_def by (auto simp: nil_or_black_def)

abbreviation mk_node :: "u64 \<Rightarrow> u64 \<Rightarrow> nat \<Rightarrow> inode" where
  "mk_node s e i \<equiv> \<lparr>in_extent = \<lparr>ext_start = s, ext_end = e\<rparr>, in_max_high = e, in_intree = False, in_id = i\<rparr>"

abbreviation small_tree :: itree where
  "small_tree \<equiv> Node Black Leaf ((mk_node 0 1 0)\<lparr>in_max_high := 9, in_intree := True\<rparr>)
     (Node Red Leaf ((mk_node 5 9 1)\<lparr>in_intree := True\<rparr>) Leaf)"

lemma small_tree_ok: "it_ok small_tree"
proof -
  have "rb_wf small_tree 1" by simp
  then have "tree_ok small_tree" unfolding tree_ok_def by (intro exI [of _ 1] conjI) simp_all
  then show ?thesis by (auto simp: it_ok_def interval_low_def interval_high_def extent_compare_def)
qed

text \<open>After an erase the bound of an ancestor may be too large: update_maxhigh
  is called on a NULL child and does nothing.\<close>

lemma erase_leaves_stale_bound:
  "map_option (\<lambda>t. (max_high_of t, map interval_high (inord t)))
     (interval_erase ((mk_node 5 9 1)\<lparr>in_intree := True\<rparr>) small_tree) = Some (9, [1])"
  by code_simp

text \<open>C10 Insertion of an extent into the interval tree: it never dereferences
  NULL or fails an assertion; a node of equal extent is returned and nothing
  is added, otherwise the node is added; red-black balance, the order of the
  extents and the upper bounds of the ends are kept.\<close>

theorem interval_insert_correct:
  assumes "it_ok t" "\<not> in_intree n" "in_max_high n = interval_high n" "interval_low n \<le> interval_high n"
  shows "\<exists>found t'. interval_insert n t = Some (found, t') \<and> it_ok t' \<and>
    (case found of
       Some x \<Rightarrow> x \<in> set (inord t) \<and> in_extent x = in_extent n \<and> map ikey (inord t') = map ikey (inord t)
     | None \<Rightarrow> in_extent n \<notin> in_extent ` set (inord t)
         \<and> ikey ` set (inord t') = insert (ikey n) (ikey ` set (inord t)))"
proof -
  obtain found t' where i: "interval_insert n t = Some (found, t')" using insert_runs [OF assms(1,2)] by blast
  show ?thesis
  proof (cases found)
    case None
    then show ?thesis using it_insert_ok [OF assms(1,3,4)] i by simp
  next
    case (Some x)
    then show ?thesis using insert_found [OF assms(1,3)] i by simp
  qed
qed

theorem interval_insert_correct_witness:
  "\<exists>found t'. interval_insert (mk_node 3 4 2) small_tree = Some (found, t') \<and> it_ok t'"
  using interval_insert_correct [OF small_tree_ok, of "mk_node 3 4 2"]
  by (fastforce simp: interval_low_def interval_high_def)

text \<open>C13 Removal of a node from the interval tree, in all of its cases: it
  never dereferences NULL, removes exactly that node from the order, and
  keeps balance, order and the upper bounds of the ends.\<close>

theorem interval_erase_correct:
  assumes "it_ok t" "n \<in> set (inord t)" "in_intree n"
  shows "\<exists>t' xs ys. interval_erase n t = Some t' \<and> it_ok t' \<and> inord t = xs @ n # ys
    \<and> map ikey (inord t') = map ikey (xs @ ys)"
  by (rule interval_erase_ok [OF assms])

theorem interval_erase_correct_witness:
  "\<exists>t' xs ys. interval_erase ((mk_node 5 9 1)\<lparr>in_intree := True\<rparr>) small_tree = Some t' \<and> it_ok t'"
  using interval_erase_correct [OF small_tree_ok, of "(mk_node 5 9 1)\<lparr>in_intree := True\<rparr>"] by auto

text \<open>C15 Search: interval_search calls the function on exactly the nodes that
  overlap the extent, in preorder, until one call says stop;
  interval_is_overlapped answers whether there is one, and interval_find
  finds the node of an extent.  The bounds may be stale, the answers are not.\<close>

theorem interval_search_exact:
  assumes "it_ok t"
  shows "interval_search f ext t d = fold_cb f [x \<leftarrow> preord t. extent_overlapped ext (in_extent x)] d
    \<and> interval_is_overlapped t ext = (\<exists>x\<in>set (inord t). extent_overlapped ext (in_extent x))
    \<and> (interval_find t ext = Some x) = (x \<in> set (inord t) \<and> in_extent x = ext)"
proof -
  have "sorted_wrt extent_less (inord t)" using assms by (simp add: it_ok_def)
  then show ?thesis using search_hits [OF assms] overlapped_iff [OF assms] find_exact by (intro conjI)
qed

theorem interval_search_exact_witness:
  "interval_is_overlapped small_tree \<lparr>ext_start = 6, ext_end = 7\<rparr>
   = (\<exists>x\<in>set (inord small_tree). extent_overlapped \<lparr>ext_start = 6, ext_end = 7\<rparr> (in_extent x))"
  using interval_search_exact [OF small_tree_ok, of "\<lambda>n d. (ITER_CONT, d)" _ "()"] by blast

text \<open>Iteration: interval_iterate calls the function on every node in the
  order of the extents and interval_iterate_reverse in the opposite order,
  until one call says stop; both loops end.\<close>

theorem interval_iterate_visits_in_order:
  "interval_iterate f t d = fold_cb f (inord t) d
   \<and> interval_iterate_reverse f t d = fold_cb f (rev (inord t)) d"
  by (intro conjI iterate_fold)



end
