(* ===== verification/LdlmExtent.thy ===== *)
theory LdlmExtent
  imports IntervalTree
begin

text \<open>
  The lock modes and the extent policy of the lock manager,
  src/lustre/ldlm.cpp and ldlm.h: which modes are compatible, and how far
  the extent of a lock is grown before it is granted
  (ldlm_extent_policy and the three functions it is made of).  Locks are
  known by numbers; a store maps them to their fields.  \<open>None\<close> is a
  failing LASSERT, a NULL dereference, or a loop that does not end.
\<close>

section \<open>Modes\<close>

datatype ldlm_mode = LCK_MINMODE | LCK_EX | LCK_PW | LCK_PR | LCK_CW | LCK_CR | LCK_NL | LCK_GROUP

fun mode_bits :: "ldlm_mode \<Rightarrow> u32" where
  "mode_bits LCK_MINMODE = 0"
| "mode_bits LCK_EX = 1"
| "mode_bits LCK_PW = 2"
| "mode_bits LCK_PR = 4"
| "mode_bits LCK_CW = 8"
| "mode_bits LCK_CR = 16"
| "mode_bits LCK_NL = 32"
| "mode_bits LCK_GROUP = 64"

definition LCK_COMPAT_EX :: u32 where "LCK_COMPAT_EX = mode_bits LCK_NL"
definition LCK_COMPAT_PW :: u32 where "LCK_COMPAT_PW = LCK_COMPAT_EX OR mode_bits LCK_CR"
definition LCK_COMPAT_PR :: u32 where "LCK_COMPAT_PR = LCK_COMPAT_PW OR mode_bits LCK_PR"
definition LCK_COMPAT_CW :: u32 where "LCK_COMPAT_CW = LCK_COMPAT_PW OR mode_bits LCK_CW"
definition LCK_COMPAT_CR :: u32 where "LCK_COMPAT_CR = LCK_COMPAT_CW OR mode_bits LCK_PR OR mode_bits LCK_PW"
definition LCK_COMPAT_NL :: u32 where "LCK_COMPAT_NL = LCK_COMPAT_CR OR mode_bits LCK_EX OR mode_bits LCK_GROUP"
definition LCK_COMPAT_GROUP :: u32 where "LCK_COMPAT_GROUP = mode_bits LCK_GROUP OR mode_bits LCK_NL"

text \<open>The table the constructor of class LDLM fills; its other entries are
  those of a static array.\<close>

fun lck_compat_array :: "ldlm_mode \<Rightarrow> u32" where
  "lck_compat_array LCK_EX = LCK_COMPAT_EX"
| "lck_compat_array LCK_PW = LCK_COMPAT_PW"
| "lck_compat_array LCK_PR = LCK_COMPAT_PR"
| "lck_compat_array LCK_CW = LCK_COMPAT_CW"
| "lck_compat_array LCK_CR = LCK_COMPAT_CR"
| "lck_compat_array LCK_NL = LCK_COMPAT_NL"
| "lck_compat_array LCK_GROUP = LCK_COMPAT_GROUP"
| "lck_compat_array LCK_MINMODE = 0"

definition lockmode_compat :: "ldlm_mode \<Rightarrow> ldlm_mode \<Rightarrow> bool" where
  "lockmode_compat exist newmode \<longleftrightarrow> lck_compat_array exist AND mode_bits newmode \<noteq> 0"

definition lockmode_verify :: "ldlm_mode \<Rightarrow> bool" where
  "lockmode_verify mode \<longleftrightarrow> mode \<noteq> LCK_MINMODE"

text \<open>\<open>LCK_MODE_NUM\<close> trees, one for each mode; the index is the position of
  the mode's bit.\<close>

definition LCK_MODE_NUM :: nat where "LCK_MODE_NUM = 7"

fun mode_index_loop :: "nat \<Rightarrow> int \<Rightarrow> int" where
  "mode_index_loop tmp index = (if tmp = 0 then index else mode_index_loop (tmp div 2) (index + 1))"

declare mode_index_loop.simps [simp del]

definition lock_mode_to_index :: "ldlm_mode \<Rightarrow> nat option" where
  "lock_mode_to_index mode =
     (let tmp = unat (mode_bits mode); index = mode_index_loop tmp (-1) in
      if tmp \<noteq> 0 \<and> index < int LCK_MODE_NUM then Some (nat index) else None)"

section \<open>Locks and resources\<close>

record ldlm_extent =
  le_start :: u64
  le_end :: u64
  le_gid :: u64

text \<open>The fields of struct ldlm_lock the extent lock code uses.  Callbacks
  are known by being set or not; \<open>l_tree_node\<close> is the number of the
  interval node, \<open>l_res_link\<close> says whether the lock is on a list of its
  resource, \<open>l_bl_ast\<close> and \<open>l_cp_ast\<close> whether it is on a work list.\<close>

record ldlm_lock =
  l_refc :: int
  l_req_mode :: ldlm_mode
  l_granted_mode :: ldlm_mode
  l_extent :: ldlm_extent
  l_req_extent :: ldlm_extent
  l_flags :: u64
  l_readers :: u32
  l_writers :: u32
  l_destroyed :: bool
  l_export :: "nat option"
  l_tree_node :: "nat option"
  l_res_link :: bool
  l_lru :: bool
  l_bl_ast :: bool
  l_cp_ast :: bool
  l_bl_ast_run :: nat
  l_blocking_ast :: bool
  l_completion_ast :: bool
  l_blocking_lock :: "nat option"

record ldlm_interval_tree =
  lit_size :: int
  lit_mode :: ldlm_mode
  lit_root :: itree

definition OBD_OBJECT_EOF :: u64 where "OBD_OBJECT_EOF = 0xffffffffffffffff"

definition LDLM_MAX_GROWN_EXTENT :: u64 where "LDLM_MAX_GROWN_EXTENT = 32 * 1024 * 1024 - 1"

definition ldlm_extent_overlap :: "ldlm_extent \<Rightarrow> ldlm_extent \<Rightarrow> bool" where
  "ldlm_extent_overlap e1 e2 \<longleftrightarrow> le_start e1 \<le> le_end e2 \<and> le_start e2 \<le> le_end e1"

section \<open>The policy\<close>

text \<open>The loop that doubles the alignment mask; it does not end when no bit
  from the twelfth on is set.\<close>

partial_function (option) align_loop :: "u64 \<Rightarrow> u64 \<Rightarrow> u64 option" where
  "align_loop req_align msk = (if req_align AND msk = 0 then align_loop req_align (push_bit 1 msk) else Some msk)"

definition ldlm_extent_internal_policy_fixup :: "ldlm_lock \<Rightarrow> ldlm_extent \<Rightarrow> int \<Rightarrow> ldlm_extent option" where
  "ldlm_extent_internal_policy_fixup req new_ex conflicting =
     (let req_start = le_start (l_req_extent req); req_end = le_end (l_req_extent req);
          new_ex =
            (if conflicting > 32 \<and> (l_req_mode req = LCK_PW \<or> l_req_mode req = LCK_CW)
                \<and> req_end < req_start + LDLM_MAX_GROWN_EXTENT
             then new_ex\<lparr>le_end := min (req_start + LDLM_MAX_GROWN_EXTENT) (le_end new_ex)\<rparr> else new_ex) in
      if le_start new_ex = 0 \<and> le_end new_ex = OBD_OBJECT_EOF then Some new_ex
      else
        let req_align = (req_end + 1) OR req_start in
        case (if req_align \<noteq> 0 then align_loop req_align 0x1000 else Some 0x1000) of
          None \<Rightarrow> None
        | Some m \<Rightarrow>
            let msk = m - 1;
                new_ex = new_ex\<lparr>le_start := ((le_start new_ex - 1) OR msk) + 1,
                                le_end := ((le_end new_ex + 1) AND NOT msk) - 1\<rparr> in
            if le_start new_ex \<le> req_start \<and> le_end new_ex \<ge> req_end then Some new_ex else None)"

text \<open>The granted locks: the limit shrinks tree by tree.\<close>

fun granted_loop :: "(nat \<Rightarrow> ldlm_interval_tree) \<Rightarrow> ldlm_lock \<Rightarrow> nat list \<Rightarrow> extent \<Rightarrow> int \<Rightarrow> (extent \<times> int) option" where
  "granted_loop itree req [] limiter conflicting = Some (limiter, conflicting)"
| "granted_loop itree req (idx # rest) limiter conflicting =
     (let tree = itree idx; req_start = le_start (l_req_extent req); req_end = le_end (l_req_extent req) in
      if lockmode_compat (lit_mode tree) (l_req_mode req) then granted_loop itree req rest limiter conflicting
      else
        let conflicting = conflicting + lit_size tree;
            limiter = (if conflicting > 4 then limiter\<lparr>ext_start := req_start\<rparr> else limiter) in
        case interval_expand (lit_root tree) \<lparr>ext_start = req_start, ext_end = req_end\<rparr> (Some limiter) of
          None \<Rightarrow> None
        | Some ext \<Rightarrow>
            let limiter = \<lparr>ext_start = max (ext_start limiter) (ext_start ext),
                           ext_end = min (ext_end limiter) (ext_end ext)\<rparr> in
            if ext_start limiter = req_start \<and> ext_end limiter = req_end then Some (limiter, conflicting)
            else granted_loop itree req rest limiter conflicting)"

definition ldlm_extent_internal_policy_granted ::
  "(nat \<Rightarrow> ldlm_interval_tree) \<Rightarrow> ldlm_lock \<Rightarrow> ldlm_extent \<Rightarrow> ldlm_extent option" where
  "ldlm_extent_internal_policy_granted itree req new_ex =
     (if \<not> lockmode_verify (l_req_mode req) then None
      else case granted_loop itree req [0..<LCK_MODE_NUM]
             \<lparr>ext_start = le_start new_ex, ext_end = le_end new_ex\<rparr> 0 of
        None \<Rightarrow> None
      | Some (limiter, conflicting) \<Rightarrow>
          let new_ex = new_ex\<lparr>le_start := ext_start limiter, le_end := ext_end limiter\<rparr> in
          if le_start new_ex \<le> le_start (l_req_extent req) \<and> le_end new_ex \<ge> le_end (l_req_extent req)
          then ldlm_extent_internal_policy_fixup req new_ex conflicting else None)"

text \<open>The waiting locks.  The third component says that the loop returned
  early, without the fix-up.\<close>

fun waiting_loop :: "(nat \<Rightarrow> ldlm_lock) \<Rightarrow> nat \<Rightarrow> nat list \<Rightarrow> ldlm_extent \<Rightarrow> int \<Rightarrow> ldlm_extent \<times> int \<times> bool" where
  "waiting_loop L r [] new_ex conflicting = (new_ex, conflicting, False)"
| "waiting_loop L r (w # rest) new_ex conflicting =
     (let req = L r; lock = L w;
          req_start = le_start (l_req_extent req); req_end = le_end (l_req_extent req) in
      if le_start new_ex = req_start \<and> le_end new_ex = req_end then (new_ex, conflicting, True)
      else if r = w then waiting_loop L r rest new_ex conflicting
      else if lockmode_compat (l_req_mode lock) (l_req_mode req) \<and> l_export lock \<noteq> l_export req
      then waiting_loop L r rest new_ex conflicting
      else
        let conflicting = conflicting + 1;
            new_ex = (if conflicting > 4 then new_ex\<lparr>le_start := req_start\<rparr> else new_ex) in
        if \<not> ldlm_extent_overlap (l_extent lock) new_ex then waiting_loop L r rest new_ex conflicting
        else if ldlm_extent_overlap (l_req_extent lock) (l_req_extent req)
        then waiting_loop L r rest new_ex conflicting
        else
          let new_ex = (if le_start (l_extent lock) < req_start \<and> le_start new_ex \<noteq> req_start
                then new_ex\<lparr>le_start := (if le_end (l_extent lock) \<ge> req_start then req_start
                       else min (le_end (l_extent lock) + 1) req_start)\<rparr> else new_ex);
              new_ex = (if le_end (l_extent lock) > req_end
                then new_ex\<lparr>le_end := (if le_start (l_extent lock) \<le> req_end
                       then max (le_start (l_req_extent lock) - 1) req_end
                       else max (le_start (l_extent lock) - 1) req_end)\<rparr> else new_ex) in
          waiting_loop L r rest new_ex conflicting)"

definition ldlm_extent_internal_policy_waiting ::
  "(nat \<Rightarrow> ldlm_lock) \<Rightarrow> nat list \<Rightarrow> nat \<Rightarrow> ldlm_extent \<Rightarrow> ldlm_extent option" where
  "ldlm_extent_internal_policy_waiting L waiting r new_ex =
     (if \<not> lockmode_verify (l_req_mode (L r)) then None
      else case waiting_loop L r waiting new_ex 0 of
        (new_ex, conflicting, True) \<Rightarrow> Some new_ex
      | (new_ex, conflicting, False) \<Rightarrow> ldlm_extent_internal_policy_fixup (L r) new_ex conflicting)"

definition LDLM_FL_LOCK_CHANGED :: u64 where "LDLM_FL_LOCK_CHANGED = 0x000001"

definition ldlm_extent_policy ::
  "(nat \<Rightarrow> ldlm_lock) \<Rightarrow> (nat \<Rightarrow> ldlm_interval_tree) \<Rightarrow> nat list \<Rightarrow> nat \<Rightarrow> u64 \<Rightarrow> (ldlm_lock \<times> u64) option" where
  "ldlm_extent_policy L itree waiting r flags =
     (let lock = L r in
      if l_export lock = None then Some (lock, flags)
      else if le_start (l_extent lock) = 0 \<and> le_end (l_extent lock) = OBD_OBJECT_EOF then Some (lock, flags)
      else case ldlm_extent_internal_policy_granted itree lock \<lparr>le_start = 0, le_end = OBD_OBJECT_EOF, le_gid = 0\<rparr> of
        None \<Rightarrow> None
      | Some new_ex \<Rightarrow>
          (case ldlm_extent_internal_policy_waiting L waiting r new_ex of
             None \<Rightarrow> None
           | Some new_ex \<Rightarrow>
               if le_start new_ex \<noteq> le_start (l_extent lock) \<or> le_end new_ex \<noteq> le_end (l_extent lock)
               then Some (lock\<lparr>l_extent := (l_extent lock)\<lparr>le_start := le_start new_ex, le_end := le_end new_ex\<rparr>\<rparr>,
                          flags OR LDLM_FL_LOCK_CHANGED)
               else Some (lock, flags)))"

section \<open>Modes: facts\<close>

lemmas compat_defs = LCK_COMPAT_EX_def LCK_COMPAT_PW_def LCK_COMPAT_PR_def LCK_COMPAT_CW_def
  LCK_COMPAT_CR_def LCK_COMPAT_NL_def LCK_COMPAT_GROUP_def

lemma compat_table [simp]:
  "LCK_COMPAT_EX = 32" "LCK_COMPAT_PW = 48" "LCK_COMPAT_PR = 52" "LCK_COMPAT_CW = 56"
  "LCK_COMPAT_CR = 62" "LCK_COMPAT_NL = 127" "LCK_COMPAT_GROUP = 96"
  by (simp_all add: compat_defs)

lemma compat_sym: "lockmode_compat a b = lockmode_compat b a"
  by (cases a; cases b; simp add: lockmode_compat_def)

lemma index_of_mode:
  "lock_mode_to_index LCK_MINMODE = None" "lock_mode_to_index LCK_EX = Some 0" "lock_mode_to_index LCK_PW = Some 1"
  "lock_mode_to_index LCK_PR = Some 2" "lock_mode_to_index LCK_CW = Some 3" "lock_mode_to_index LCK_CR = Some 4"
  "lock_mode_to_index LCK_NL = Some 5" "lock_mode_to_index LCK_GROUP = Some 6"
  by (simp_all add: lock_mode_to_index_def LCK_MODE_NUM_def mode_index_loop.simps)

lemma mode_index:
  "m \<noteq> LCK_MINMODE \<Longrightarrow> \<exists>i<LCK_MODE_NUM. lock_mode_to_index m = Some i \<and> mode_bits m = 2 ^ i"
  by (cases m) (auto simp: index_of_mode LCK_MODE_NUM_def)

section \<open>The fix-up\<close>

lemma align_loop_from:
  assumes "n \<le> k" "bit (al :: u64) k" "\<And>i. n \<le> i \<Longrightarrow> i < k \<Longrightarrow> \<not> bit al i"
  shows "align_loop al (push_bit n 1) = Some (push_bit k 1)"
  using assms(1,3)
proof (induction rule: inc_induct)
  case base
  have "al AND push_bit k 1 \<noteq> 0" using assms(2) bit_iff_and_push_bit_not_eq_0 by blast
  then show ?case by (subst align_loop.simps) (erule if_not_P)
next
  case (step n)
  have z: "al AND push_bit n 1 = 0" using step(4) [OF order.refl step(2)] by (simp only: bit_iff_and_push_bit_not_eq_0 not_not)
  have e: "push_bit 1 (push_bit n (1 :: u64)) = push_bit (Suc n) 1" by (simp only: push_bit_push_bit plus_1_eq_Suc)
  show ?case unfolding align_loop.simps [of al "push_bit n 1"] z e using step(3,4) by simp
qed

lemma mask12: "(0xFFF :: u64) = mask 12" by (simp add: mask_eq_exp_minus_1)

lemma align_loop_aligned:
  assumes "(al :: u64) \<noteq> 0" "al AND 0xFFF = 0"
  obtains k where "k < 64" "align_loop al 0x1000 = Some (2 ^ k)" "take_bit k al = 0" "mask k = (2 :: u64) ^ k - 1"
proof -
  define k where "k = (LEAST i. bit al i)"
  obtain i where "bit al i" using assms(1) by (auto simp: bit_eq_iff)
  then have k: "bit al k" unfolding k_def by (rule LeastI)
  have less: "\<not> bit al i" if "i < k" for i using not_less_Least that unfolding k_def by blast
  have "take_bit 12 al = 0" using assms(2) by (simp add: mask12 take_bit_eq_mask)
  then have "\<not> bit al i" if "i < 12" for i using that by (metis bit_0_eq bit_take_bit_iff bot_apply bot_bool_def)
  then have "12 \<le> k" using k by (meson not_less)
  have "align_loop al (push_bit 12 1) = Some (push_bit k 1)" by (rule align_loop_from [OF \<open>12 \<le> k\<close> k less])
  moreover have "take_bit k al = 0" using less by (auto simp: bit_eq_iff bit_take_bit_iff)
  moreover have "k < 64" using k bit_imp_le_length [of al k] by simp
  ultimately show ?thesis using that [of k] by (simp add: push_bit_eq_mult mask_eq_exp_minus_1)
qed

text \<open>When no bit from the twelfth on is set the loop runs for ever.\<close>

lemma align_loop_hit:
  assumes "align_loop al m = Some r"
  shows "\<exists>i. al AND push_bit i m \<noteq> 0"
proof (rule align_loop.raw_induct [where P = "\<lambda>al m r. \<exists>i. al AND push_bit i m \<noteq> 0", OF _ assms])
  fix f :: "u64 \<Rightarrow> u64 \<Rightarrow> u64 option" and al m r
  assume 1: "\<And>al m r. f al m = Some r \<Longrightarrow> \<exists>i. al AND push_bit i m \<noteq> 0"
    "(if al AND m = 0 then f al (push_bit 1 m) else Some m) = Some r"
  show "\<exists>i. al AND push_bit i m \<noteq> 0"
  proof (cases "al AND m = 0")
    case True
    then have f: "f al (push_bit 1 m) = Some r" using 1(2) by simp
    from 1(1) [OF f] obtain i where "al AND push_bit i (push_bit 1 m) \<noteq> 0" by blast
    then have "al AND push_bit (i + 1) m \<noteq> 0" by (simp only: push_bit_push_bit not_False_eq_True)
    then show ?thesis by blast
  qed (auto intro: exI [of _ 0])
qed

lemma align_loop_diverges:
  assumes "\<And>i. 12 \<le> i \<Longrightarrow> \<not> bit (al :: u64) i"
  shows "align_loop al 0x1000 = None"
proof (rule ccontr)
  assume "align_loop al 0x1000 \<noteq> None"
  then obtain r where "align_loop al 0x1000 = Some r" by blast
  from align_loop_hit [OF this] obtain i where "al AND push_bit i 0x1000 \<noteq> 0" by blast
  moreover have "push_bit i (0x1000 :: u64) = push_bit (i + 12) 1"
    by (simp add: push_bit_eq_mult power_add)
  ultimately have "bit al (i + 12)" by (simp only: bit_iff_and_push_bit_not_eq_0 not_False_eq_True)
  then show False using assms [of "i + 12"] by simp
qed

section \<open>Rounding\<close>

lemma round_up:
  fixes s t :: u64
  assumes "k < 64" "s \<le> t" "take_bit k t = 0"
  shows "s \<le> ((s - 1) OR mask k) + 1 \<and> ((s - 1) OR mask k) + 1 \<le> t"
proof (cases "s = 0")
  case True
  have "(-1 :: u64) OR mask k = -1" by simp
  then show ?thesis using True by simp
next
  case False
  define A :: nat where "A = 2 ^ k"
  define q where "q = (unat s - 1) div A"
  have A: "0 < A" by (simp add: A_def)
  have s1: "unat (s - 1) = unat s - 1" using False by (rule unat_minus_one)
  have pos: "0 < unat s" using False by (simp add: unat_gt_0)
  have "unat (take_bit k t) = unat t mod A" by (simp only: unsigned_take_bit_eq) (simp add: take_bit_eq_mod A_def)
  then have "A dvd unat t" using assms(3) by (simp add: mod_eq_0_iff_dvd)
  then obtain p where p: "unat t = p * A" by (metis dvd_def mult.commute)
  have st: "unat s \<le> p * A" using assms(2) p by (simp add: word_le_nat_alt)
  have "unat s - 1 < p * A" using st pos by simp
  then have "q < p" unfolding q_def using A by (simp add: div_less_iff_less_mult)
  then have "(q + 1) * A \<le> p * A" by (intro mult_right_mono) auto
  then have qp: "q * A + (A - 1) + 1 \<le> p * A" using A by (simp add: algebra_simps)
  have o: "unat ((s - 1) OR mask k) = q * A + (A - 1)"
    using unat_or_mask [OF assms(1), of "s - 1"] s1 by (simp add: q_def A_def)
  have "unat ((s - 1) OR mask k) + unat (1 :: u64) < 2 ^ 64"
    using o qp p unat_u64_lt [of t] by simp
  from unat_add_no_overflow [OF this] have u: "unat (((s - 1) OR mask k) + 1) = q * A + (A - 1) + 1" using o by simp
  have "unat s - 1 < (q + 1) * A" unfolding q_def using A by (metis dividend_less_times_div mult.commute Suc_eq_plus1 mult_Suc)
  then have "unat s \<le> q * A + (A - 1) + 1" using A pos by (simp add: algebra_simps)
  then show ?thesis using u qp p by (simp add: word_le_nat_alt)
qed

lemma round_down:
  fixes e t :: u64
  assumes "k < 64" "t \<le> e" "take_bit k (t + 1) = 0"
  shows "t \<le> ((e + 1) AND NOT (mask k)) - 1 \<and> ((e + 1) AND NOT (mask k)) - 1 \<le> e"
proof (cases "e = -1")
  case True
  then show ?thesis by simp
next
  case False
  define A :: nat where "A = 2 ^ k"
  have A: "0 < A" by (simp add: A_def)
  have ne: "unat (w + 1) = unat w + 1" if "w \<noteq> -1" for w :: u64
    using unatSuc [of w] that by (simp add: add.commute add_eq_0_iff)
  have tn: "t \<noteq> -1" using assms(2) False by (metis word_n1_ge order_antisym)
  have u1: "unat (e + 1) = unat e + 1" "unat (t + 1) = unat t + 1"
    using ne [OF False] ne [OF tn] by simp_all
  have "unat (take_bit k (t + 1)) = (unat t + 1) mod A"
    by (simp only: unsigned_take_bit_eq u1) (simp add: take_bit_eq_mod A_def)
  then have "A dvd unat t + 1" using assms(3) by (simp add: mod_eq_0_iff_dvd)
  then obtain p where p: "unat t + 1 = p * A" by (metis dvd_def mult.commute)
  define q where "q = (unat e + 1) div A"
  have "p * A \<le> unat e + 1" using assms(2) p by (simp add: word_le_nat_alt)
  then have "p \<le> q" unfolding q_def using A by (simp add: less_eq_div_iff_mult_less_eq)
  then have pq: "p * A \<le> q * A" by simp
  have o: "unat ((e + 1) AND NOT (mask k)) = q * A"
    using unat_and_not_mask [of "e + 1" k] u1 by (simp add: q_def A_def)
  then have "(e + 1) AND NOT (mask k) \<noteq> 0" using pq p by (metis add_is_0 le_zero_eq unsigned_0 zero_neq_one)
  from unat_minus_one [OF this] have u: "unat (((e + 1) AND NOT (mask k)) - 1) = q * A - 1" using o by simp
  have "q * A \<le> unat e + 1" unfolding q_def by simp
  then have "unat t \<le> q * A - 1" "q * A - 1 \<le> unat e" using pq p by linarith+
  then show ?thesis using u by (simp add: word_le_nat_alt)
qed

section \<open>The policy keeps the request and only shrinks\<close>

abbreviation req_aligned :: "ldlm_lock \<Rightarrow> bool" where
  "req_aligned q \<equiv> le_start (l_req_extent q) AND 0xFFF = 0 \<and> (le_end (l_req_extent q) + 1) AND 0xFFF = 0"

text \<open>\<open>within\<close>: the extent contains the request and lies inside the other one.\<close>

definition within :: "ldlm_lock \<Rightarrow> ldlm_extent \<Rightarrow> ldlm_extent \<Rightarrow> bool" where
  "within q outer e \<longleftrightarrow> le_start outer \<le> le_start e \<and> le_start e \<le> le_start (l_req_extent q)
     \<and> le_end (l_req_extent q) \<le> le_end e \<and> le_end e \<le> le_end outer"

lemma within_trans: "within q a b \<Longrightarrow> within q b c \<Longrightarrow> within q a c"
  by (auto simp: within_def)

lemma within_refl: "within q a a \<longleftrightarrow> le_start a \<le> le_start (l_req_extent q) \<and> le_end (l_req_extent q) \<le> le_end a"
  by (simp add: within_def)

lemma take_bit_or_0: "take_bit k (a OR b :: u64) = 0 \<Longrightarrow> take_bit k a = 0 \<and> take_bit k b = 0"
  by (auto simp: bit_eq_iff bit_take_bit_iff bit_or_iff)

lemma word_or_0: "(a :: u64) OR b = 0 \<Longrightarrow> a = 0 \<and> b = 0"
  by (auto simp: bit_eq_iff bit_or_iff)

lemma fixup_shrinks:
  assumes "req_aligned q" "le_start (l_req_extent q) \<le> le_end (l_req_extent q)" "within q e e"
  shows "\<exists>e'. ldlm_extent_internal_policy_fixup q e conflicting = Some e' \<and> within q e e'"
proof -
  let ?s = "le_start (l_req_extent q)" and ?t = "le_end (l_req_extent q)"
  define e1 where "e1 = (if conflicting > 32 \<and> (l_req_mode q = LCK_PW \<or> l_req_mode q = LCK_CW) \<and> ?t < ?s + LDLM_MAX_GROWN_EXTENT
    then e\<lparr>le_end := min (?s + LDLM_MAX_GROWN_EXTENT) (le_end e)\<rparr> else e)"
  have e1: "within q e e1" using assms(3) by (auto simp: e1_def within_def)
  have rng: "le_start e1 \<le> ?s" "?t \<le> le_end e1" using e1 by (auto simp: within_def)
  have f: "ldlm_extent_internal_policy_fixup q e conflicting =
     (if le_start e1 = 0 \<and> le_end e1 = OBD_OBJECT_EOF then Some e1
      else case (if (?t + 1) OR ?s \<noteq> 0 then align_loop ((?t + 1) OR ?s) 0x1000 else Some 0x1000) of
          None \<Rightarrow> None
        | Some m \<Rightarrow>
            let e2 = e1\<lparr>le_start := ((le_start e1 - 1) OR (m - 1)) + 1, le_end := ((le_end e1 + 1) AND NOT (m - 1)) - 1\<rparr> in
            if le_start e2 \<le> ?s \<and> le_end e2 \<ge> ?t then Some e2 else None)"
    unfolding ldlm_extent_internal_policy_fixup_def Let_def e1_def by (rule refl)
  show ?thesis
  proof (cases "le_start e1 = 0 \<and> le_end e1 = OBD_OBJECT_EOF")
    case True
    then show ?thesis using f e1 by simp
  next
    case False
    have "\<exists>k<64. (if (?t + 1) OR ?s \<noteq> 0 then align_loop ((?t + 1) OR ?s) 0x1000 else Some 0x1000) = Some (2 ^ k)
       \<and> take_bit k ?s = 0 \<and> take_bit k (?t + 1) = 0 \<and> mask k = (2 :: u64) ^ k - 1"
    proof (cases "(?t + 1) OR ?s = 0")
      case True
      then have "?s = 0" "?t + 1 = 0" using word_or_0 by blast+
      then show ?thesis using True by (intro exI [of _ 12]) (simp add: mask_eq_exp_minus_1)
    next
      case nz: False
      have "((?t + 1) OR ?s) AND 0xFFF = 0" using assms(1) by (simp only: bit.conj_disj_distrib2) simp
      then obtain k where "k < 64" "align_loop ((?t + 1) OR ?s) 0x1000 = Some (2 ^ k)" "take_bit k ((?t + 1) OR ?s) = 0"
        "mask k = (2 :: u64) ^ k - 1" by (rule align_loop_aligned [OF nz])
      moreover from this(3) have "take_bit k (?t + 1) = 0 \<and> take_bit k ?s = 0" by (rule take_bit_or_0)
      ultimately show ?thesis using nz by (intro exI [of _ k] conjI) simp_all
    qed
    then obtain k where k: "k < 64" "(if (?t + 1) OR ?s \<noteq> 0 then align_loop ((?t + 1) OR ?s) 0x1000 else Some 0x1000) = Some (2 ^ k)"
       "take_bit k ?s = 0" "take_bit k (?t + 1) = 0" "mask k = (2 :: u64) ^ k - 1" by blast
    let ?e2 = "e1\<lparr>le_start := ((le_start e1 - 1) OR mask k) + 1, le_end := ((le_end e1 + 1) AND NOT (mask k)) - 1\<rparr>"
    have "within q e1 ?e2"
      using round_up [OF k(1) rng(1) k(3)] round_down [OF k(1) rng(2) k(4)] by (simp add: within_def)
    moreover from this have "ldlm_extent_internal_policy_fixup q e conflicting = Some ?e2"
      unfolding f if_not_P [OF False] k(2) by (simp add: within_def k(5))
    ultimately show ?thesis using within_trans [OF e1] by blast
  qed
qed

text \<open>Without alignment the fix-up need not return: a request inside the
  first page of a file makes the loop run for ever.\<close>

lemma fixup_unaligned_hangs:
  "ldlm_extent_internal_policy_fixup
     (q\<lparr>l_req_mode := LCK_PR, l_req_extent := \<lparr>le_start = 0, le_end = 99, le_gid = 0\<rparr>\<rparr>)
     \<lparr>le_start = 0, le_end = 8191, le_gid = 0\<rparr> 0 = None"
proof -
  have "\<not> bit (100 :: u64) i" if "12 \<le> i" for i
  proof -
    have "take_bit 12 (100 :: u64) = 100" by simp
    then show ?thesis using that by (metis bit_take_bit_iff leD)
  qed
  then have "align_loop 100 0x1000 = None" by (rule align_loop_diverges)
  then show ?thesis by (simp add: ldlm_extent_internal_policy_fixup_def OBD_OBJECT_EOF_def)
qed

text \<open>The granted locks.\<close>

abbreviation req_extent :: "ldlm_lock \<Rightarrow> extent" where
  "req_extent q \<equiv> \<lparr>ext_start = le_start (l_req_extent q), ext_end = le_end (l_req_extent q)\<rparr>"

abbreviation clash :: "(nat \<Rightarrow> ldlm_interval_tree) \<Rightarrow> ldlm_lock \<Rightarrow> nat \<Rightarrow> bool" where
  "clash T q idx \<equiv> \<not> lockmode_compat (lit_mode (T idx)) (l_req_mode q)"

definition clear_of :: "(nat \<Rightarrow> ldlm_interval_tree) \<Rightarrow> ldlm_lock \<Rightarrow> nat set \<Rightarrow> extent \<Rightarrow> bool" where
  "clear_of T q I e \<longleftrightarrow> (\<forall>idx\<in>I. clash T q idx \<longrightarrow> \<not> interval_is_overlapped (lit_root (T idx)) e)"

lemma overlapped_mono:
  assumes "it_ok t" "\<not> interval_is_overlapped t e" "ext_start e \<le> ext_start e'" "ext_end e' \<le> ext_end e"
  shows "\<not> interval_is_overlapped t e'"
  using assms unfolding overlapped_iff [OF assms(1)] extent_overlapped_def by (meson order.trans)

lemma granted_loop_clear:
  assumes "\<forall>idx\<in>set is. it_ok (lit_root (T idx))" "clear_of T q (set is) (req_extent q)"
    "le_start (l_req_extent q) \<le> le_end (l_req_extent q)"
    "ext_start lim \<le> le_start (l_req_extent q)" "le_end (l_req_extent q) \<le> ext_end lim"
  shows "\<exists>lim' c'. granted_loop T q is lim c = Some (lim', c') \<and> clear_of T q (set is) lim'
    \<and> ext_start lim \<le> ext_start lim' \<and> ext_start lim' \<le> le_start (l_req_extent q)
    \<and> le_end (l_req_extent q) \<le> ext_end lim' \<and> ext_end lim' \<le> ext_end lim"
  using assms
proof (induction "is" arbitrary: lim c)
  case (Cons i "is")
  let ?s = "le_start (l_req_extent q)" and ?t = "le_end (l_req_extent q)"
  have rest: "\<forall>idx\<in>set is. it_ok (lit_root (T idx))" "clear_of T q (set is) (req_extent q)"
    using Cons.prems(1,2) by (auto simp: clear_of_def)
  show ?case
  proof (cases "clash T q i")
    case False
    then show ?thesis using Cons.IH [OF rest Cons.prems(3-5)] by (auto simp: clear_of_def)
  next
    case True
    define c1 where "c1 = c + lit_size (T i)"
    define lim1 where "lim1 = (if c1 > 4 then lim\<lparr>ext_start := ?s\<rparr> else lim)"
    have lim1: "ext_start lim \<le> ext_start lim1" "ext_start lim1 \<le> ?s" "ext_end lim1 = ext_end lim"
      using Cons.prems(4) by (auto simp: lim1_def)
    have ok: "it_ok (lit_root (T i))" "\<not> interval_is_overlapped (lit_root (T i)) (req_extent q)"
      using Cons.prems(1,2) True by (auto simp: clear_of_def)
    obtain e where e: "interval_expand (lit_root (T i)) (req_extent q) (Some lim1) = Some e"
      "\<not> interval_is_overlapped (lit_root (T i)) e" "ext_start e \<le> ?s" "?t \<le> ext_end e"
      using expand_facts [OF ok, of "Some lim1"] Cons.prems(3) by auto
    define lim2 where "lim2 = \<lparr>ext_start = max (ext_start lim1) (ext_start e), ext_end = min (ext_end lim1) (ext_end e)\<rparr>"
    have lim2: "ext_start lim \<le> ext_start lim2" "ext_start lim2 \<le> ?s" "?t \<le> ext_end lim2" "ext_end lim2 \<le> ext_end lim"
      "ext_start e \<le> ext_start lim2" "ext_end lim2 \<le> ext_end e"
      using lim1 e(3,4) Cons.prems(5) by (auto simp: lim2_def le_max_iff_disj)
    have g: "granted_loop T q (i # is) lim c =
      (if ext_start lim2 = ?s \<and> ext_end lim2 = ?t then Some (lim2, c1) else granted_loop T q is lim2 c1)"
      using True e(1) by (simp add: lim1_def c1_def lim2_def Let_def)
    show ?thesis
    proof (cases "ext_start lim2 = ?s \<and> ext_end lim2 = ?t")
      case exact: True
      then have "lim2 = req_extent q" by (intro extent.equality) simp_all
      then have "clear_of T q (set (i # is)) lim2" using Cons.prems(2) by simp
      moreover have "granted_loop T q (i # is) lim c = Some (lim2, c1)" using g exact by simp
      ultimately show ?thesis using lim2(1-4) by blast
    next
      case False
      obtain lim' c' where r: "granted_loop T q is lim2 c1 = Some (lim', c')" "clear_of T q (set is) lim'"
        "ext_start lim2 \<le> ext_start lim'" "ext_start lim' \<le> ?s" "?t \<le> ext_end lim'" "ext_end lim' \<le> ext_end lim2"
        using Cons.IH [OF rest Cons.prems(3) lim2(2,3), of c1] by blast
      have "\<not> interval_is_overlapped (lit_root (T i)) lim'"
        using overlapped_mono [OF ok(1) e(2)] r(3,6) lim2(5,6) by (meson order.trans)
      then have "clear_of T q (set (i # is)) lim'" using r(2) by (auto simp: clear_of_def)
      moreover have "granted_loop T q (i # is) lim c = Some (lim', c')" using g False r(1) by simp
      ultimately show ?thesis using r(3-6) lim2(1,4) by (meson order.trans)
    qed
  qed
qed (auto simp: clear_of_def)

text \<open>A waiting lock that has the extent it asked for only shrinks the
  new extent.\<close>

lemma waiting_loop_shrinks:
  assumes "le_start (l_req_extent (L r)) \<le> le_end (l_req_extent (L r))"
    and "\<forall>w\<in>set ws. l_extent (L w) = l_req_extent (L w)" "within (L r) e e"
  shows "case waiting_loop L r ws e c of (e', c', early) \<Rightarrow> within (L r) e e'"
  using assms(2-)
proof (induction ws arbitrary: e c)
  case (Cons w ws)
  let ?q = "L r" and ?w = "L w"
  let ?s = "le_start (l_req_extent ?q)" and ?t = "le_end (l_req_extent ?q)"
  have ws: "\<forall>w\<in>set ws. l_extent (L w) = l_req_extent (L w)" and we: "l_req_extent ?w = l_extent ?w" using Cons.prems(1) by auto
  define e1 where "e1 = (if c + 1 > 4 then e\<lparr>le_start := ?s\<rparr> else e)"
  define e2 where "e2 = (if le_start (l_extent ?w) < ?s \<and> le_start e1 \<noteq> ?s
    then e1\<lparr>le_start := (if le_end (l_extent ?w) \<ge> ?s then ?s else min (le_end (l_extent ?w) + 1) ?s)\<rparr> else e1)"
  define e3 where "e3 = (if le_end (l_extent ?w) > ?t then e2\<lparr>le_end := (if le_start (l_extent ?w) \<le> ?t
    then max (le_start (l_req_extent ?w) - 1) ?t else max (le_start (l_extent ?w) - 1) ?t)\<rparr> else e2)"
  have step: "waiting_loop L r (w # ws) e c =
    (if le_start e = ?s \<and> le_end e = ?t then (e, c, True)
     else if r = w then waiting_loop L r ws e c
     else if lockmode_compat (l_req_mode ?w) (l_req_mode ?q) \<and> l_export ?w \<noteq> l_export ?q then waiting_loop L r ws e c
     else if \<not> ldlm_extent_overlap (l_extent ?w) e1 then waiting_loop L r ws e1 (c + 1)
     else if ldlm_extent_overlap (l_req_extent ?w) (l_req_extent ?q) then waiting_loop L r ws e1 (c + 1)
     else waiting_loop L r ws e3 (c + 1))"
    unfolding waiting_loop.simps Let_def e1_def e2_def e3_def by (rule refl)
  have e1: "within ?q e e1" "within ?q e1 e1" using Cons.prems(2) by (auto simp: e1_def within_def)
  have e3: "within ?q e e3" "within ?q e3 e3"
    if ov: "ldlm_extent_overlap (l_extent ?w) e1" and no': "\<not> ldlm_extent_overlap (l_req_extent ?w) (l_req_extent ?q)"
  proof -
    have no: "le_end (l_extent ?w) < ?s \<or> ?t < le_start (l_extent ?w)"
      using no' we by (auto simp: ldlm_extent_overlap_def not_le)
    have st: "le_start (l_extent ?w) - 1 \<le> le_end e1" if "?t < le_start (l_extent ?w)"
      using word_pred(2) [OF that] ov by (auto simp: ldlm_extent_overlap_def)
    have up: "le_start e1 \<le> le_end (l_extent ?w) + 1" if "le_end (l_extent ?w) < ?s"
      using word_succ(1) [OF that] ov by (auto simp: ldlm_extent_overlap_def)
    have e2: "within ?q e1 e2" using e1(2) up by (auto simp: e2_def within_def min_def)
    have e2e: "le_end e2 = le_end e1" by (simp add: e2_def)
    have "le_end (l_extent ?w) > ?t \<Longrightarrow> ?t < le_start (l_extent ?w)" using no assms(1) by (meson order.trans leD less_imp_le)
    then have "e3 = e2 \<or> e3 = e2\<lparr>le_end := max (le_start (l_extent ?w) - 1) ?t\<rparr> \<and> le_start (l_extent ?w) - 1 \<le> le_end e1"
      using st by (auto simp: e3_def)
    then have "within ?q e2 e3" using e2 e2e by (elim disjE conjE) (simp_all add: within_def)
    then show w: "within ?q e e3" by (rule within_trans [OF within_trans [OF e1(1) e2]])
    from w show "within ?q e3 e3" by (simp add: within_def)
  qed
  have go: "case waiting_loop L r ws x d of (e', c', early) \<Rightarrow> within ?q e e'" if "within ?q e x" "within ?q x x" for x d
    using Cons.IH [OF ws that(2), of d] within_trans [OF that(1)] by (auto split: prod.splits)
  define P where "P = (\<lambda>z. case z of (e', c' :: int, early :: bool) \<Rightarrow> within ?q e e')"
  have P: "P (e, c, True)" "P (waiting_loop L r ws e c)" "P (waiting_loop L r ws e1 (c + 1))"
    "ldlm_extent_overlap (l_extent ?w) e1 \<Longrightarrow> \<not> ldlm_extent_overlap (l_req_extent ?w) (l_req_extent ?q)
      \<Longrightarrow> P (waiting_loop L r ws e3 (c + 1))"
    using go [OF Cons.prems(2,2), of c] go [OF e1, of "c + 1"] go [OF e3, of "c + 1"] Cons.prems(2) by (simp_all add: P_def)
  have ifI: "P (if b then x else y)" if "b \<Longrightarrow> P x" "\<not> b \<Longrightarrow> P y" for b x y using that by simp
  have "P (waiting_loop L r (w # ws) e c)" unfolding step
    by (intro ifI P) simp_all
  then show ?case by (simp only: P_def)
qed simp

lemma eof_max [simp]: "w \<le> OBD_OBJECT_EOF"
proof -
  have "OBD_OBJECT_EOF = -1" by (simp add: OBD_OBJECT_EOF_def)
  then show ?thesis unfolding \<open>OBD_OBJECT_EOF = -1\<close> by (intro word_n1_ge)
qed

lemma within_whole: "within q \<lparr>le_start = 0, le_end = OBD_OBJECT_EOF, le_gid = 0\<rparr> e \<longleftrightarrow>
    le_start e \<le> le_start (l_req_extent q) \<and> le_end (l_req_extent q) \<le> le_end e"
  by (auto simp: within_def)

lemma clear_of_mono:
  assumes "\<forall>idx\<in>I. it_ok (lit_root (T idx))" "clear_of T q I \<lparr>ext_start = le_start a, ext_end = le_end a\<rparr>" "within q a b"
  shows "clear_of T q I \<lparr>ext_start = le_start b, ext_end = le_end b\<rparr>"
  using assms overlapped_mono unfolding clear_of_def within_def by (metis extent.select_convs)

lemma granted_policy_clear:
  assumes "lockmode_verify (l_req_mode q)" "req_aligned q" "le_start (l_req_extent q) \<le> le_end (l_req_extent q)"
    and "\<forall>idx<LCK_MODE_NUM. it_ok (lit_root (T idx))" "clear_of T q {..<LCK_MODE_NUM} (req_extent q)" "within q e e"
  shows "\<exists>e'. ldlm_extent_internal_policy_granted T q e = Some e' \<and> within q e e'
    \<and> clear_of T q {..<LCK_MODE_NUM} \<lparr>ext_start = le_start e', ext_end = le_end e'\<rparr>"
proof -
  let ?lim = "\<lparr>ext_start = le_start e, ext_end = le_end e\<rparr>"
  have s: "set [0..<LCK_MODE_NUM] = {..<LCK_MODE_NUM}" by auto
  obtain lim c where l: "granted_loop T q [0..<LCK_MODE_NUM] ?lim 0 = Some (lim, c)" "clear_of T q {..<LCK_MODE_NUM} lim"
    "le_start e \<le> ext_start lim" "ext_start lim \<le> le_start (l_req_extent q)"
    "le_end (l_req_extent q) \<le> ext_end lim" "ext_end lim \<le> le_end e"
    using granted_loop_clear [of "[0..<LCK_MODE_NUM]" T q ?lim 0] assms(3-6) unfolding s
    by (auto simp: within_def)
  define e1 where "e1 = e\<lparr>le_start := ext_start lim, le_end := ext_end lim\<rparr>"
  have e1: "within q e e1" "within q e1 e1" "lim = \<lparr>ext_start = le_start e1, ext_end = le_end e1\<rparr>"
    using l(3-6) by (auto simp: within_def e1_def)
  obtain e' where e': "ldlm_extent_internal_policy_fixup q e1 c = Some e'" "within q e1 e'"
    using fixup_shrinks [OF assms(2,3) e1(2)] by blast
  have "ldlm_extent_internal_policy_granted T q e = Some e'"
    using assms(1) l(1,4,5) e'(1) by (simp add: ldlm_extent_internal_policy_granted_def e1_def Let_def)
  moreover have "clear_of T q {..<LCK_MODE_NUM} \<lparr>ext_start = le_start e', ext_end = le_end e'\<rparr>"
    using clear_of_mono [OF _ _ e'(2)] assms(4) l(2) e1(3) by (metis lessThan_iff)
  ultimately show ?thesis using within_trans [OF e1(1) e'(2)] by blast
qed

lemma waiting_policy_within:
  assumes "lockmode_verify (l_req_mode (L r))" "req_aligned (L r)"
    and "le_start (l_req_extent (L r)) \<le> le_end (l_req_extent (L r))"
    and "\<forall>w\<in>set ws. l_extent (L w) = l_req_extent (L w)" "within (L r) e e"
  shows "\<exists>e'. ldlm_extent_internal_policy_waiting L ws r e = Some e' \<and> within (L r) e e'"
proof -
  obtain e1 c b where w: "waiting_loop L r ws e 0 = (e1, c, b)" by (metis prod_cases3)
  have e1: "within (L r) e e1" using waiting_loop_shrinks [where c = 0, OF assms(3-5)] w by simp
  show ?thesis
  proof (cases b)
    case True
    then show ?thesis using w e1 assms(1) by (simp add: ldlm_extent_internal_policy_waiting_def)
  next
    case False
    have "within (L r) e1 e1" using e1 by (auto simp: within_def)
    from fixup_shrinks [OF assms(2,3) this, of c] obtain e' where
      "ldlm_extent_internal_policy_fixup (L r) e1 c = Some e'" "within (L r) e1 e'" by blast
    then show ?thesis using w False assms(1) within_trans [OF e1]
      by (auto simp: ldlm_extent_internal_policy_waiting_def)
  qed
qed

text \<open>The whole policy: what it may assume, and what it gives.\<close>

definition policy_ready :: "(nat \<Rightarrow> ldlm_lock) \<Rightarrow> (nat \<Rightarrow> ldlm_interval_tree) \<Rightarrow> nat list \<Rightarrow> nat \<Rightarrow> bool" where
  "policy_ready L T ws r \<longleftrightarrow> lockmode_verify (l_req_mode (L r)) \<and> req_aligned (L r)
     \<and> le_start (l_req_extent (L r)) \<le> le_end (l_req_extent (L r))
     \<and> l_extent (L r) = l_req_extent (L r) \<and> (\<forall>w\<in>set ws. l_extent (L w) = l_req_extent (L w))
     \<and> (\<forall>idx<LCK_MODE_NUM. it_ok (lit_root (T idx)))"

lemma policy_facts:
  assumes "policy_ready L T ws r" "clear_of T (L r) {..<LCK_MODE_NUM} (req_extent (L r))"
  shows "\<exists>q flags'. ldlm_extent_policy L T ws r flags = Some (q, flags')
    \<and> (\<exists>s e. q = (L r)\<lparr>l_extent := (l_extent (L r))\<lparr>le_start := s, le_end := e\<rparr>\<rparr>
        \<and> s \<le> le_start (l_req_extent (L r)) \<and> le_end (l_req_extent (L r)) \<le> e
        \<and> clear_of T (L r) {..<LCK_MODE_NUM} \<lparr>ext_start = s, ext_end = e\<rparr>)"
proof -
  have r: "lockmode_verify (l_req_mode (L r))" "req_aligned (L r)" "le_start (l_req_extent (L r)) \<le> le_end (l_req_extent (L r))"
    "l_extent (L r) = l_req_extent (L r)" "\<forall>w\<in>set ws. l_extent (L w) = l_req_extent (L w)"
    "\<forall>idx<LCK_MODE_NUM. it_ok (lit_root (T idx))"
    using assms(1) by (simp_all add: policy_ready_def)
  have same: "(L r)\<lparr>l_extent := (l_extent (L r))\<lparr>le_start := le_start (l_extent (L r)), le_end := le_end (l_extent (L r))\<rparr>\<rparr> = L r"
    by simp
  let ?W = "\<lparr>le_start = 0, le_end = OBD_OBJECT_EOF, le_gid = 0\<rparr>"
  consider (plain) "l_export (L r) = None \<or> le_start (l_extent (L r)) = 0 \<and> le_end (l_extent (L r)) = OBD_OBJECT_EOF"
    | (grow) "l_export (L r) \<noteq> None" "\<not> (le_start (l_extent (L r)) = 0 \<and> le_end (l_extent (L r)) = OBD_OBJECT_EOF)"
    by blast
  then show ?thesis
  proof cases
    case plain
    then have "ldlm_extent_policy L T ws r flags = Some (L r, flags)" by (auto simp: ldlm_extent_policy_def Let_def)
    then show ?thesis using same assms(2) r(4) by (intro exI conjI) (assumption, rule sym, rule same, simp_all)
  next
    case grow
    have "within (L r) ?W ?W" by (simp add: within_def)
    from granted_policy_clear [OF r(1-3,6) assms(2) this] obtain e1 where
      e1: "ldlm_extent_internal_policy_granted T (L r) ?W = Some e1" "within (L r) ?W e1"
      "clear_of T (L r) {..<LCK_MODE_NUM} \<lparr>ext_start = le_start e1, ext_end = le_end e1\<rparr>" by blast
    have "within (L r) e1 e1" using e1(2) by (auto simp: within_def)
    from waiting_policy_within [OF r(1-3,5) this] obtain e2 where
      e2: "ldlm_extent_internal_policy_waiting L ws r e1 = Some e2" "within (L r) e1 e2" by blast
    have cl: "clear_of T (L r) {..<LCK_MODE_NUM} \<lparr>ext_start = le_start e2, ext_end = le_end e2\<rparr>"
      using clear_of_mono [OF _ e1(3) e2(2)] r(6) by blast
    have p: "ldlm_extent_policy L T ws r flags =
        (if le_start e2 \<noteq> le_start (l_extent (L r)) \<or> le_end e2 \<noteq> le_end (l_extent (L r))
         then Some ((L r)\<lparr>l_extent := (l_extent (L r))\<lparr>le_start := le_start e2, le_end := le_end e2\<rparr>\<rparr>, flags OR LDLM_FL_LOCK_CHANGED)
         else Some (L r, flags))"
      using grow e1(1) e2(1) by (auto simp: ldlm_extent_policy_def Let_def)
    have "fst (the (ldlm_extent_policy L T ws r flags)) = (L r)\<lparr>l_extent := (l_extent (L r))\<lparr>le_start := le_start e2, le_end := le_end e2\<rparr>\<rparr>"
      unfolding p using same by auto
    moreover have "\<exists>q f. ldlm_extent_policy L T ws r flags = Some (q, f)" unfolding p by simp
    ultimately obtain f where "ldlm_extent_policy L T ws r flags =
        Some ((L r)\<lparr>l_extent := (l_extent (L r))\<lparr>le_start := le_start e2, le_end := le_end e2\<rparr>\<rparr>, f)" by auto
    moreover have "le_start e2 \<le> le_start (l_req_extent (L r))" "le_end (l_req_extent (L r)) \<le> le_end e2"
      using e2(2) by (simp_all add: within_def)
    ultimately show ?thesis using cl by blast
  qed
qed

end
