(* ===== verification/Ldlm.thy ===== *)
theory Ldlm
  imports LdlmExtent
begin

text \<open>
  The queues of the lock manager, src/lustre/ldlm.cpp: the locks of one
  resource, granted (in an interval tree for each mode, and in a list) or
  waiting; enqueueing, granting, matching and destroying them.  Locks and
  interval nodes are known by numbers.  \<open>None\<close> is a failing LASSERT.
  The functions of the callbacks (blocking and completion ASTs, which the
  code calls through pointers) are parameters.
\<close>

section \<open>State\<close>

definition LDLM_FL_BLOCK_GRANTED :: u64 where "LDLM_FL_BLOCK_GRANTED = 0x000002"
definition LDLM_FL_BLOCK_CONV :: u64 where "LDLM_FL_BLOCK_CONV = 0x000004"
definition LDLM_FL_BLOCK_WAIT :: u64 where "LDLM_FL_BLOCK_WAIT = 0x000008"
definition LDLM_FL_CBPENDING :: u64 where "LDLM_FL_CBPENDING = 0x000010"
definition LDLM_FL_AST_SENT :: u64 where "LDLM_FL_AST_SENT = 0x000020"
definition LDLM_FL_REPLAY :: u64 where "LDLM_FL_REPLAY = 0x000100"
definition LDLM_FL_LOCAL_ONLY :: u64 where "LDLM_FL_LOCAL_ONLY = 0x000400"
definition LDLM_FL_FAILED :: u64 where "LDLM_FL_FAILED = 0x000800"
definition LDLM_FL_LOCAL :: u64 where "LDLM_FL_LOCAL = 0x004000"
definition LDLM_FL_DISCARD_DATA :: u64 where "LDLM_FL_DISCARD_DATA = 0x010000"
definition LDLM_FL_NO_TIMEOUT :: u64 where "LDLM_FL_NO_TIMEOUT = 0x020000"
definition LDLM_FL_BLOCK_NOWAIT :: u64 where "LDLM_FL_BLOCK_NOWAIT = 0x040000"
definition LDLM_FL_TEST_LOCK :: u64 where "LDLM_FL_TEST_LOCK = 0x080000"
definition LDLM_FL_CP_REQD :: u64 where "LDLM_FL_CP_REQD = 0x1000000"
definition LDLM_FL_DENY_ON_CONTENTION :: u64 where "LDLM_FL_DENY_ON_CONTENTION = 0x40000000"
definition LDLM_AST_DISCARD_DATA :: u64 where "LDLM_AST_DISCARD_DATA = 0x80000000"

lemmas flag_defs = LDLM_FL_BLOCK_GRANTED_def LDLM_FL_BLOCK_CONV_def LDLM_FL_BLOCK_WAIT_def LDLM_FL_CBPENDING_def
  LDLM_FL_AST_SENT_def LDLM_FL_REPLAY_def LDLM_FL_LOCAL_ONLY_def LDLM_FL_FAILED_def LDLM_FL_LOCAL_def
  LDLM_FL_DISCARD_DATA_def LDLM_FL_NO_TIMEOUT_def LDLM_FL_BLOCK_NOWAIT_def LDLM_FL_TEST_LOCK_def
  LDLM_FL_CP_REQD_def LDLM_FL_DENY_ON_CONTENTION_def LDLM_AST_DISCARD_DATA_def LDLM_FL_LOCK_CHANGED_def

abbreviation has :: "u64 \<Rightarrow> u64 \<Rightarrow> bool" where
  "has flags f \<equiv> flags AND f \<noteq> 0"

abbreviation ENOMEM :: int where "ENOMEM \<equiv> 12"
abbreviation EAGAIN :: int where "EAGAIN \<equiv> 11"
abbreviation EWOULDBLOCK :: int where "EWOULDBLOCK \<equiv> 11"
abbreviation EUSERS :: int where "EUSERS \<equiv> 87"

text \<open>A resource of type LDLM_EXTENT with its namespace; \<open>li_group\<close> and \<open>li_intree\<close> are
  the fields of struct ldlm_interval.\<close>

record ldlm_resource =
  locks :: "nat \<Rightarrow> ldlm_lock"
  lr_granted :: "nat list"
  lr_converting :: "nat list"
  lr_waiting :: "nat list"
  lr_most_restr :: ldlm_mode
  lr_itree :: "nat \<Rightarrow> ldlm_interval_tree"
  li_group :: "nat \<Rightarrow> nat list"
  li_intree :: "nat \<Rightarrow> bool"
  lr_contention_time :: cfs_time
  lr_refcount :: int
  ns_contended_locks :: u32
  ns_contention_time :: u32
  ns_max_nolock_size :: u32
  ns_locks :: int
  ns_unused_list :: "nat list"
  ns_nr_unused :: int
  ns_client :: bool
  clock :: cfs_time
  time_unit :: cfs_time

text \<open>ldlm_resource_new: the fields are zeroed, and the loop that would set the
  mode of each interval tree is compiled out.  The locks and the namespace are
  those of \<open>s\<close>.\<close>

definition ldlm_resource_new :: "ldlm_resource \<Rightarrow> ldlm_resource" where
  "ldlm_resource_new s = s\<lparr>lr_granted := [], lr_converting := [], lr_waiting := [], lr_most_restr := LCK_MINMODE,
     lr_itree := (\<lambda>i. \<lparr>lit_size = 0, lit_mode = LCK_MINMODE, lit_root = Leaf\<rparr>), lr_contention_time := 0, lr_refcount := 1\<rparr>"

definition mod_lock :: "nat \<Rightarrow> (ldlm_lock \<Rightarrow> ldlm_lock) \<Rightarrow> ldlm_resource \<Rightarrow> ldlm_resource" where
  "mod_lock l f s = s\<lparr>locks := (locks s)(l := f (locks s l))\<rparr>"

definition mod_tree :: "nat \<Rightarrow> (ldlm_interval_tree \<Rightarrow> ldlm_interval_tree) \<Rightarrow> ldlm_resource \<Rightarrow> ldlm_resource" where
  "mod_tree i f s = s\<lparr>lr_itree := (lr_itree s)(i := f (lr_itree s i))\<rparr>"

section \<open>References\<close>

definition ldlm_resource_putref :: "ldlm_resource \<Rightarrow> ldlm_resource option" where
  "ldlm_resource_putref s =
     (let s = s\<lparr>lr_refcount := lr_refcount s - 1\<rparr> in
      if lr_refcount s = 0 \<and> (lr_granted s \<noteq> [] \<or> lr_converting s \<noteq> [] \<or> lr_waiting s \<noteq> []) then None
      else Some s)"

definition ldlm_lock_get :: "nat \<Rightarrow> ldlm_resource \<Rightarrow> ldlm_resource" where
  "ldlm_lock_get l s = mod_lock l (\<lambda>k. k\<lparr>l_refc := l_refc k + 1\<rparr>) s"

definition ldlm_lock_put :: "nat \<Rightarrow> ldlm_resource \<Rightarrow> ldlm_resource option" where
  "ldlm_lock_put l s =
     (if \<not> l_refc (locks s l) > 0 then None
      else let s = mod_lock l (\<lambda>k. k\<lparr>l_refc := l_refc k - 1\<rparr>) s in
        if l_refc (locks s l) = 0
        then if \<not> l_destroyed (locks s l) \<or> l_res_link (locks s l) then None
             else ldlm_resource_putref (s\<lparr>ns_locks := ns_locks s - 1\<rparr>)
        else Some s)"

definition ldlm_lock_add_to_lru :: "nat \<Rightarrow> ldlm_resource \<Rightarrow> ldlm_resource option" where
  "ldlm_lock_add_to_lru l s =
     (if l_lru (locks s l)  \<or> \<not> ns_nr_unused s \<ge> 0 then None
      else Some (mod_lock l (\<lambda>k. k\<lparr>l_lru := True\<rparr>)
             (s\<lparr>ns_unused_list := ns_unused_list s @ [l], ns_nr_unused := ns_nr_unused s + 1\<rparr>)))"

definition ldlm_lock_remove_from_lru :: "nat \<Rightarrow> ldlm_resource \<Rightarrow> ldlm_resource option" where
  "ldlm_lock_remove_from_lru l s =
     (if \<not> l_lru (locks s l) then Some s
      else if \<not> ns_nr_unused s > 0 then None
      else Some (mod_lock l (\<lambda>k. k\<lparr>l_lru := False\<rparr>)
             (s\<lparr>ns_unused_list := remove1 l (ns_unused_list s), ns_nr_unused := ns_nr_unused s - 1\<rparr>)))"

definition ldlm_lock_touch_in_lru :: "nat \<Rightarrow> ldlm_resource \<Rightarrow> ldlm_resource option" where
  "ldlm_lock_touch_in_lru l s =
     (if l_lru (locks s l) then Option.bind (ldlm_lock_remove_from_lru l s) (ldlm_lock_add_to_lru l) else Some s)"

definition ldlm_lock_addref_internal :: "nat \<Rightarrow> ldlm_mode \<Rightarrow> ldlm_resource \<Rightarrow> ldlm_resource option" where
  "ldlm_lock_addref_internal l mode s =
     map_option (\<lambda>s.
       let s = (if mode \<in> {LCK_NL, LCK_CR, LCK_PR} then mod_lock l (\<lambda>k. k\<lparr>l_readers := l_readers k + 1\<rparr>) s else s);
           s = (if mode \<in> {LCK_EX, LCK_CW, LCK_PW, LCK_GROUP} then mod_lock l (\<lambda>k. k\<lparr>l_writers := l_writers k + 1\<rparr>) s else s)
       in ldlm_lock_get l s) (ldlm_lock_remove_from_lru l s)"

definition ldlm_lock_destroy :: "nat \<Rightarrow> ldlm_resource \<Rightarrow> ldlm_resource option" where
  "ldlm_lock_destroy l s =
     (if l_destroyed (locks s l) then (if l_lru (locks s l) then None else Some s)
      else Option.bind (ldlm_lock_remove_from_lru l (mod_lock l (\<lambda>k. k\<lparr>l_destroyed := True\<rparr>) s)) (ldlm_lock_put l))"

section \<open>Matching\<close>

text \<open>search_queue for extent locks, over the locks of a queue; the result
  is the lock found, with the new state.\<close>

fun search_queue ::
  "nat list \<Rightarrow> u32 \<Rightarrow> ldlm_extent \<Rightarrow> nat option \<Rightarrow> u64 \<Rightarrow> ldlm_resource \<Rightarrow> (nat option \<times> ldlm_resource) option" where
  "search_queue [] mode policy old_lock flags s = Some (None, s)"
| "search_queue (l # q) mode policy old_lock flags s =
     (let lock = locks s l in
      if old_lock = Some l then Some (None, s)
      else if has (l_flags lock) LDLM_FL_CBPENDING \<and> \<not> has flags LDLM_FL_CBPENDING
           \<or> has (l_flags lock) LDLM_FL_CBPENDING \<and> l_readers lock = 0 \<and> l_writers lock = 0
           \<or> mode_bits (l_req_mode lock) AND mode = 0
           \<or> le_start (l_extent lock) > le_start policy \<or> le_end (l_extent lock) < le_end policy
           \<or> l_req_mode lock = LCK_GROUP \<and> le_gid (l_extent lock) \<noteq> le_gid policy
           \<or> l_destroyed lock \<or> has (l_flags lock) LDLM_FL_FAILED
           \<or> has flags LDLM_FL_LOCAL_ONLY \<and> \<not> has (l_flags lock) LDLM_FL_LOCAL
      then search_queue q mode policy old_lock flags s
      else map_option (\<lambda>s. (Some l, s))
        (if has flags LDLM_FL_TEST_LOCK then ldlm_lock_touch_in_lru l (ldlm_lock_get l s)
         else ldlm_lock_addref_internal l (l_req_mode lock) s))"

text \<open>ldlm_lock_match on a resource that was found.  The code returns the mode
  of the lock it found, or 0, and has a reference of the lock (the handle that
  would tell it is compiled out); here the result is the lock itself.\<close>

definition ldlm_lock_match ::
  "u64 \<Rightarrow> ldlm_extent \<Rightarrow> u32 \<Rightarrow> ldlm_resource \<Rightarrow> (nat option \<times> ldlm_resource) option" where
  "ldlm_lock_match flags policy mode s =
     Option.bind (search_queue (lr_granted s) mode policy None flags s) (\<lambda>(f, s).
     Option.bind
       (if f \<noteq> None then Some (f, s)
        else if has flags LDLM_FL_BLOCK_GRANTED then Some (None, s)
        else Option.bind (search_queue (lr_converting s) mode policy None flags s) (\<lambda>(f, s).
          if f \<noteq> None then Some (f, s) else search_queue (lr_waiting s) mode policy None flags s))
       (\<lambda>(f, s). case f of
            None \<Rightarrow> Some (None, s)
          | Some l \<Rightarrow> if has flags LDLM_FL_TEST_LOCK then map_option (\<lambda>s. (f, s)) (ldlm_lock_put l s) else Some (f, s)))"

section \<open>Linking into lists and trees\<close>

definition ldlm_resource_add_granted :: "nat \<Rightarrow> ldlm_resource \<Rightarrow> ldlm_resource option" where
  "ldlm_resource_add_granted l s =
     (if l_destroyed (locks s l) then Some s
      else if l_res_link (locks s l) then None
      else Some (mod_lock l (\<lambda>k. k\<lparr>l_res_link := True\<rparr>) (s\<lparr>lr_granted := lr_granted s @ [l]\<rparr>)))"

definition ldlm_resource_add_waiting :: "nat \<Rightarrow> ldlm_resource \<Rightarrow> ldlm_resource option" where
  "ldlm_resource_add_waiting l s =
     (if l_destroyed (locks s l) then Some s
      else if l_res_link (locks s l) then None
      else Some (mod_lock l (\<lambda>k. k\<lparr>l_res_link := True\<rparr>) (s\<lparr>lr_waiting := lr_waiting s @ [l]\<rparr>)))"

definition ldlm_resource_add_converting :: "nat \<Rightarrow> ldlm_resource \<Rightarrow> ldlm_resource option" where
  "ldlm_resource_add_converting l s =
     (if l_destroyed (locks s l) then Some s
      else if l_res_link (locks s l) then None
      else Some (mod_lock l (\<lambda>k. k\<lparr>l_res_link := True\<rparr>) (s\<lparr>lr_converting := lr_converting s @ [l]\<rparr>)))"

definition list_del_res :: "nat \<Rightarrow> ldlm_resource \<Rightarrow> ldlm_resource" where
  "list_del_res l s =
     mod_lock l (\<lambda>k. k\<lparr>l_res_link := False\<rparr>)
       (s\<lparr>lr_granted := remove1 l (lr_granted s), lr_converting := remove1 l (lr_converting s),
          lr_waiting := remove1 l (lr_waiting s)\<rparr>)"

fun insert_after :: "nat \<Rightarrow> nat \<Rightarrow> nat list \<Rightarrow> nat list" where
  "insert_after x y [] = []"
| "insert_after x y (z # zs) = (if z = x then z # y # zs else z # insert_after x y zs)"

definition ldlm_resource_insert_lock_after :: "nat \<Rightarrow> nat \<Rightarrow> ldlm_resource \<Rightarrow> ldlm_resource option" where
  "ldlm_resource_insert_lock_after original newlock s =
     (if l_destroyed (locks s newlock) then Some s
      else if l_res_link (locks s newlock) then None
      else Some (mod_lock newlock (\<lambda>k. k\<lparr>l_res_link := True\<rparr>)
             (s\<lparr>lr_waiting := insert_after original newlock (lr_waiting s)\<rparr>)))"

definition ldlm_interval_attach :: "nat \<Rightarrow> nat \<Rightarrow> ldlm_resource \<Rightarrow> ldlm_resource option" where
  "ldlm_interval_attach n l s =
     (if l_tree_node (locks s l) \<noteq> None then None
      else Some (mod_lock l (\<lambda>k. k\<lparr>l_tree_node := Some n\<rparr>)
             (s\<lparr>li_group := (li_group s)(n := li_group s n @ [l])\<rparr>)))"

text \<open>The first component is the node, when its group became empty.\<close>

definition ldlm_interval_detach :: "nat \<Rightarrow> ldlm_resource \<Rightarrow> (nat option \<times> ldlm_resource) option" where
  "ldlm_interval_detach l s =
     (case l_tree_node (locks s l) of
        None \<Rightarrow> Some (None, s)
      | Some n \<Rightarrow>
          if li_group s n = [] then None
          else let g = remove1 l (li_group s n);
                   s = mod_lock l (\<lambda>k. k\<lparr>l_tree_node := None\<rparr>) (s\<lparr>li_group := (li_group s)(n := g)\<rparr>) in
            Some (if g = [] then Some n else None, s))"

definition ldlm_interval_free :: "nat \<Rightarrow> ldlm_resource \<Rightarrow> ldlm_resource option" where
  "ldlm_interval_free n s = (if li_group s n \<noteq> [] \<or> li_intree s n then None else Some s)"

definition node_in :: "nat \<Rightarrow> itree \<Rightarrow> inode option" where
  "node_in n t = find (\<lambda>x. in_id x = n) (inord t)"

definition ldlm_extent_unlink_lock :: "nat \<Rightarrow> ldlm_resource \<Rightarrow> ldlm_resource option" where
  "ldlm_extent_unlink_lock l s =
     (case l_tree_node (locks s l) of
        None \<Rightarrow> Some s
      | Some n \<Rightarrow>
          if \<not> li_intree s n then Some s
          else case lock_mode_to_index (l_granted_mode (locks s l)) of
            None \<Rightarrow> None
          | Some idx \<Rightarrow>
              if lit_root (lr_itree s idx) = Leaf then None
              else
                let s = mod_tree idx (\<lambda>t. t\<lparr>lit_size := lit_size t - 1\<rparr>) s in
                Option.bind (ldlm_interval_detach l s) (\<lambda>(node, s).
                  case node of
                    None \<Rightarrow> Some s
                  | Some n \<Rightarrow>
                      (case node_in n (lit_root (lr_itree s idx)) of
                         None \<Rightarrow> None
                       | Some x \<Rightarrow>
                           (case interval_erase x (lit_root (lr_itree s idx)) of
                              None \<Rightarrow> None
                            | Some t \<Rightarrow>
                                ldlm_interval_free n
                                  ((mod_tree idx (\<lambda>k. k\<lparr>lit_root := t\<rparr>) s)\<lparr>li_intree := (li_intree s)(n := False)\<rparr>)))))"

definition ldlm_resource_unlink_lock :: "nat \<Rightarrow> ldlm_resource \<Rightarrow> ldlm_resource option" where
  "ldlm_resource_unlink_lock l s =
     map_option (list_del_res l) (ldlm_extent_unlink_lock l s)"

definition ldlm_extent_add_lock :: "nat \<Rightarrow> ldlm_resource \<Rightarrow> ldlm_resource option" where
  "ldlm_extent_add_lock l s =
     (let lock = locks s l in
      if l_granted_mode lock \<noteq> l_req_mode lock then None
      else case l_tree_node lock of
        None \<Rightarrow> None
      | Some n \<Rightarrow>
          if li_intree s n then None
          else case lock_mode_to_index (l_granted_mode lock) of
            None \<Rightarrow> None
          | Some idx \<Rightarrow>
              if l_granted_mode lock \<noteq> lit_mode (lr_itree s idx) then None
              else if \<not> le_start (l_extent lock) \<le> le_end (l_extent lock) then None
              else
                let x = \<lparr>in_extent = \<lparr>ext_start = le_start (l_extent lock), ext_end = le_end (l_extent lock)\<rparr>,
                         in_max_high = le_end (l_extent lock), in_intree = False, in_id = n\<rparr> in
                case interval_insert x (lit_root (lr_itree s idx)) of
                  None \<Rightarrow> None
                | Some (found, t) \<Rightarrow>
                    let s = mod_tree idx (\<lambda>k. k\<lparr>lit_root := t, lit_size := lit_size k + 1\<rparr>) s in
                    Option.bind
                      (case found of
                         None \<Rightarrow> Some (s\<lparr>li_intree := (li_intree s)(n := True)\<rparr>)
                       | Some y \<Rightarrow>
                           Option.bind (ldlm_interval_detach l s) (\<lambda>(tmp, s).
                             case tmp of
                               None \<Rightarrow> None
                             | Some m \<Rightarrow> Option.bind (ldlm_interval_free m s) (ldlm_interval_attach (in_id y) l)))
                      (ldlm_resource_add_granted l))"

section \<open>Work lists\<close>

definition ldlm_add_bl_work_item :: "nat \<Rightarrow> nat \<Rightarrow> ldlm_resource \<Rightarrow> nat list \<Rightarrow> (ldlm_resource \<times> nat list) option" where
  "ldlm_add_bl_work_item l newlock s work =
     (if has (l_flags (locks s l)) LDLM_FL_AST_SENT then Some (s, work)
      else
        let s = mod_lock l (\<lambda>k. k\<lparr>l_flags := l_flags k OR LDLM_FL_AST_SENT\<rparr>) s;
            s = (if has (l_flags (locks s newlock)) LDLM_AST_DISCARD_DATA
                 then mod_lock l (\<lambda>k. k\<lparr>l_flags := l_flags k OR LDLM_FL_DISCARD_DATA\<rparr>) s else s) in
        if l_bl_ast (locks s l) then None
        else
          let s = ldlm_lock_get l (mod_lock l (\<lambda>k. k\<lparr>l_bl_ast := True\<rparr>) s) in
          if l_blocking_lock (locks s l) \<noteq> None then None
          else Some (mod_lock l (\<lambda>k. k\<lparr>l_blocking_lock := Some newlock\<rparr>) (ldlm_lock_get newlock s), l # work))"

definition ldlm_add_cp_work_item :: "nat \<Rightarrow> ldlm_resource \<Rightarrow> nat list \<Rightarrow> (ldlm_resource \<times> nat list) option" where
  "ldlm_add_cp_work_item l s work =
     (if has (l_flags (locks s l)) LDLM_FL_CP_REQD then Some (s, work)
      else if l_cp_ast (locks s l) then None
      else Some (ldlm_lock_get l (mod_lock l (\<lambda>k. k\<lparr>l_flags := l_flags k OR LDLM_FL_CP_REQD, l_cp_ast := True\<rparr>) s), l # work))"

fun discard_bl_list :: "nat list \<Rightarrow> ldlm_resource \<Rightarrow> ldlm_resource option" where
  "discard_bl_list [] s = Some s"
| "discard_bl_list (l # work) s =
     (let lock = locks s l in
      if \<not> has (l_flags lock) LDLM_FL_AST_SENT \<or> l_bl_ast_run lock \<noteq> 0 then None
      else case l_blocking_lock lock of
        None \<Rightarrow> None
      | Some b \<Rightarrow>
          Option.bind (ldlm_lock_put b (mod_lock l (\<lambda>k. k\<lparr>l_bl_ast := False, l_flags := l_flags k AND NOT LDLM_FL_AST_SENT\<rparr>) s))
            (\<lambda>s. Option.bind (ldlm_lock_put l (mod_lock l (\<lambda>k. k\<lparr>l_blocking_lock := None\<rparr>) s)) (discard_bl_list work)))"

text \<open>The blocking callbacks are run one after the other.  What a callback
  does to the resource, and whether it asks for a restart, is a parameter.\<close>

fun ldlm_run_bl_ast_work ::
  "(nat \<Rightarrow> nat \<Rightarrow> ldlm_resource \<Rightarrow> ldlm_resource \<times> bool) \<Rightarrow> nat list \<Rightarrow> ldlm_resource \<Rightarrow> (bool \<times> ldlm_resource) option" where
  "ldlm_run_bl_ast_work ast [] s = Some (False, s)"
| "ldlm_run_bl_ast_work ast (l # work) s =
     (let lock = locks s l in
      if \<not> has (l_flags lock) LDLM_FL_AST_SENT \<or> l_bl_ast_run lock \<noteq> 0 then None
      else case l_blocking_lock lock of
        None \<Rightarrow> None
      | Some b \<Rightarrow>
          Option.bind (ldlm_lock_put b (mod_lock l (\<lambda>k. k\<lparr>l_bl_ast := False, l_bl_ast_run := l_bl_ast_run k + 1\<rparr>) s))
            (\<lambda>s. case ast l b (mod_lock l (\<lambda>k. k\<lparr>l_blocking_lock := None\<rparr>) s) of
               (s, restart) \<Rightarrow>
                 Option.bind (ldlm_lock_put l s) (\<lambda>s.
                   map_option (\<lambda>(again, s). (again \<or> restart, s)) (ldlm_run_bl_ast_work ast work s))))"

section \<open>Granting\<close>

definition ldlm_grant_lock :: "nat \<Rightarrow> nat list option \<Rightarrow> ldlm_resource \<Rightarrow> (ldlm_resource \<times> nat list option) option" where
  "ldlm_grant_lock l work s =
     (let s = mod_lock l (\<lambda>k. k\<lparr>l_granted_mode := l_req_mode k\<rparr>) s in
      Option.bind (ldlm_extent_add_lock l s) (\<lambda>s.
        let s = (if mode_bits (l_granted_mode (locks s l)) < mode_bits (lr_most_restr s)
                 then s\<lparr>lr_most_restr := l_granted_mode (locks s l)\<rparr> else s) in
        case work of
          None \<Rightarrow> Some (s, None)
        | Some w \<Rightarrow> if l_completion_ast (locks s l)
                    then map_option (\<lambda>(s, w). (s, Some w)) (ldlm_add_cp_work_item l s w) else Some (s, Some w)))"

section \<open>Compatibility with the queues\<close>

text \<open>The callback of the searches: its data are the resource, the work
  list, the contended locks counted, and \<open>compat\<close>.\<close>

type_synonym compat_data = "(ldlm_resource \<times> nat list \<times> int \<times> int) option"

fun group_items :: "nat \<Rightarrow> nat list \<Rightarrow> ldlm_resource \<Rightarrow> nat list \<Rightarrow> (ldlm_resource \<times> nat list) option" where
  "group_items enq [] s work = Some (s, work)"
| "group_items enq (l # g) s work =
     (if l_blocking_ast (locks s l)
      then Option.bind (ldlm_add_bl_work_item l enq s work) (\<lambda>(s, work). group_items enq g s work)
      else group_items enq g s work)"

definition ldlm_extent_compat_cb :: "nat \<Rightarrow> ldlm_mode \<Rightarrow> compat_data callback" where
  "ldlm_extent_compat_cb enq mode n data =
     (ITER_CONT,
      Option.bind data (\<lambda>(s, work, locks_seen, cmpt).
        let g = li_group s (in_id n) in
        if g = [] then None
        else map_option (\<lambda>(s, work).
          let ext = l_extent (locks s (hd g)) in
          (s, work,
           if mode = LCK_PR \<and> le_start ext = 0 \<and> le_end ext = OBD_OBJECT_EOF then locks_seen
           else locks_seen + int (length g), 0)) (group_items enq g s work)))"

datatype compat_exit = Return int | Destroylock int | Checked

text \<open>What the loops over the queues hand on: the flags, the resource, the
  work list (NULL is \<open>None\<close>), the contended locks and \<open>compat\<close>; a
  step leaves the loop (\<open>Inl\<close>) or goes on.\<close>

type_synonym loop_state = "u64 \<times> ldlm_resource \<times> nat list option \<times> int \<times> int"

definition granted_step :: "nat \<Rightarrow> nat \<Rightarrow> loop_state \<Rightarrow> (compat_exit \<times> loop_state + loop_state) option" where
  "granted_step r idx st =
     (case st of (flags, s, work, contended, cmpt) \<Rightarrow>
      let req = locks s r; tree = lr_itree s idx; mode = lit_mode tree;
          ex = \<lparr>ext_start = le_start (l_req_extent req), ext_end = le_end (l_req_extent req)\<rparr> in
      case lit_root tree of
        Leaf \<Rightarrow> Some (Inr st)
      | Node c a x b \<Rightarrow>
          if lockmode_compat (l_req_mode req) mode \<and> l_req_mode req \<noteq> LCK_GROUP then Some (Inr st)
          else if lockmode_compat (l_req_mode req) mode \<and> li_group s (in_id x) = [] then None
          else if lockmode_compat (l_req_mode req) mode
              \<and> le_gid (l_extent req) = le_gid (l_extent (locks s (hd (li_group s (in_id x)))))
          then Some (Inl (Return 2, st))
          else if mode = LCK_GROUP then
            if has flags LDLM_FL_BLOCK_NOWAIT
            then Some (Inl (Destroylock (- EWOULDBLOCK), st))
            else
              let flags = flags OR LDLM_FL_NO_TIMEOUT in
              (case work of
                 None \<Rightarrow> Some (Inl (Return 0, (flags, s, work, contended, cmpt)))
               | Some w \<Rightarrow>
                   map_option (\<lambda>(s, w, contended, cmpt). Inr (flags, s, Some w, contended, cmpt))
                     (snd (interval_iterate (ldlm_extent_compat_cb r mode) (lit_root tree) (Some (s, w, contended, 0)))))
          else
            (case work of
               None \<Rightarrow>
                 if interval_is_overlapped (lit_root tree) ex then Some (Inl (Return 0, st)) else Some (Inr st)
             | Some w \<Rightarrow>
                 map_option (\<lambda>(s, w, contended, cmpt). Inr (flags, s, Some w, contended, if w \<noteq> [] \<and> cmpt \<noteq> 0 then 0 else cmpt))
                   (snd (interval_search (ldlm_extent_compat_cb r mode) ex (lit_root tree) (Some (s, w, contended, cmpt))))))"

text \<open>Putting a request in front of a lock of the waiting queue.\<close>

definition insert_before :: "nat \<Rightarrow> nat \<Rightarrow> ldlm_resource \<Rightarrow> ldlm_resource option" where
  "insert_before w r s =
     Option.bind (ldlm_resource_insert_lock_after w r s) (\<lambda>s. ldlm_resource_insert_lock_after r w (list_del_res w s))"

text \<open>A step of the loop over the waiting queue; the flag is \<open>scan\<close>.\<close>

definition waiting_step ::
  "nat \<Rightarrow> nat \<Rightarrow> bool \<Rightarrow> loop_state \<Rightarrow> (compat_exit \<times> loop_state + bool \<times> loop_state) option" where
  "waiting_step r w scan st =
     (case st of (flags, s, work, contended, cmpt) \<Rightarrow>
      let req = locks s r; lock = locks s w; req_mode = l_req_mode req;
          req_start = le_start (l_req_extent req); req_end = le_end (l_req_extent req);
          same_gid = (le_gid (l_extent req) = le_gid (l_extent lock));
          leave = (\<lambda>e cmpt s. Inl (e, (flags, s, work, contended, cmpt))) in
      if r = w then Some (Inl (Checked, st))
      else if scan then
        if l_req_mode lock \<noteq> LCK_GROUP then map_option (leave Checked 0) (insert_before w r s)
        else if same_gid then map_option (leave Checked 0) (ldlm_resource_insert_lock_after w r s)
        else Some (Inr (scan, st))
      else if lockmode_compat (l_req_mode lock) req_mode \<and> req_mode = LCK_PR
           \<and> le_start (l_extent lock) \<le> le_start (l_extent req) \<and> le_end (l_extent lock) \<ge> le_end (l_extent req)
           \<and> \<not> has (l_flags lock) LDLM_FL_AST_SENT
      then Some (Inl (Return cmpt, st))
      else if lockmode_compat (l_req_mode lock) req_mode \<and> req_mode \<noteq> LCK_GROUP then Some (Inr (scan, st))
      else if lockmode_compat (l_req_mode lock) req_mode \<and> same_gid then
        if l_req_mode lock = l_granted_mode lock then Some (Inl (Return 2, st))
        else if has flags LDLM_FL_BLOCK_NOWAIT then Some (Inl (Destroylock (- EWOULDBLOCK), st))
        else map_option (leave (Return 0) cmpt) (ldlm_resource_insert_lock_after w r s)
      else if req_mode = LCK_GROUP \<and> l_req_mode lock \<noteq> l_granted_mode lock then
        if l_req_mode lock \<noteq> LCK_GROUP then map_option (leave Checked 0) (insert_before w r s)
        else if same_gid then map_option (leave Checked 0) (ldlm_resource_insert_lock_after w r s)
        else Some (Inr (True, (flags, s, work, contended, 0)))
      else if l_req_mode lock = LCK_GROUP \<and> has flags LDLM_FL_BLOCK_NOWAIT
      then Some (Inl (Destroylock (- EWOULDBLOCK), st))
      else if l_req_mode lock \<noteq> LCK_GROUP \<and> (le_end (l_extent lock) < req_start \<or> le_start (l_extent lock) > req_end)
      then Some (Inr (scan, st))
      else
        let flags = (if l_req_mode lock = LCK_GROUP then flags OR LDLM_FL_NO_TIMEOUT else flags);
            check_contention = (if l_req_mode lock \<noteq> LCK_GROUP
                \<and> (le_end (l_req_extent lock) < req_start \<or> le_start (l_req_extent lock) > req_end)
              then 0 else 1 :: int);
            check_contention = (if l_req_mode lock = LCK_PR \<and> le_start (l_extent lock) = 0
                \<and> le_end (l_extent lock) = OBD_OBJECT_EOF
              then 0 else check_contention) in
        (case work of
           None \<Rightarrow> Some (Inl (Return 0, (flags, s, work, contended, cmpt)))
         | Some wl \<Rightarrow>
             map_option (\<lambda>(s, wl). Inr (scan, (flags, s, Some wl, contended + check_contention, 0)))
               (if l_blocking_ast lock then ldlm_add_bl_work_item w r s wl else Some (s, wl))))"

fun compat_granted :: "nat \<Rightarrow> nat list \<Rightarrow> loop_state \<Rightarrow> (compat_exit \<times> loop_state) option" where
  "compat_granted r [] st = Some (Checked, st)"
| "compat_granted r (idx # rest) st =
     (case granted_step r idx st of
        None \<Rightarrow> None
      | Some (Inl out) \<Rightarrow> Some out
      | Some (Inr st) \<Rightarrow> compat_granted r rest st)"

fun compat_waiting :: "nat \<Rightarrow> nat list \<Rightarrow> bool \<Rightarrow> loop_state \<Rightarrow> (compat_exit \<times> loop_state) option" where
  "compat_waiting r [] scan st = Some (Checked, st)"
| "compat_waiting r (w # rest) scan st =
     (case waiting_step r w scan st of
        None \<Rightarrow> None
      | Some (Inl out) \<Rightarrow> Some out
      | Some (Inr (scan, st)) \<Rightarrow> compat_waiting r rest scan st)"

definition cfs_time_before :: "cfs_time \<Rightarrow> cfs_time \<Rightarrow> bool" where
  "cfs_time_before t1 t2 \<longleftrightarrow> sint t1 - sint t2 < 0"

text \<open>The count is compared as an unsigned.\<close>

definition ldlm_check_contention :: "int \<Rightarrow> ldlm_resource \<Rightarrow> bool \<times> ldlm_resource" where
  "ldlm_check_contention contended s =
     (let s = (if (word_of_int contended :: u32) > ns_contended_locks s then s\<lparr>lr_contention_time := clock s\<rparr> else s) in
      (cfs_time_before (clock s) (lr_contention_time s + ucast (ns_contention_time s) * time_unit s), s))"

datatype ldlm_queue = Q_granted | Q_waiting

text \<open>The result: the return code, flags, resource, work list, contended
  locks, and whether the lock was destroyed (then the code is also the
  error).\<close>

definition ldlm_extent_compat_queue ::
  "ldlm_queue \<Rightarrow> nat \<Rightarrow> u64 \<Rightarrow> ldlm_resource \<Rightarrow> nat list option \<Rightarrow> int \<Rightarrow>
   (int \<times> u64 \<times> ldlm_resource \<times> nat list option \<times> int \<times> bool) option" where
  "ldlm_extent_compat_queue queue r flags s work contended =
     (if \<not> lockmode_verify (l_req_mode (locks s r)) then None
      else
        Option.bind (case queue of
            Q_granted \<Rightarrow> compat_granted r [0..<LCK_MODE_NUM] (flags, s, work, contended, 1)
          | Q_waiting \<Rightarrow> compat_waiting r (lr_waiting s) False (flags, s, work, contended, 1))
          (\<lambda>(exit, flags, s, work, contended, cmpt).
            let destroy = (\<lambda>rc s. map_option (\<lambda>s. (rc, flags, s, work, contended, True)) (ldlm_lock_destroy r (list_del_res r s))) in
            case exit of
              Return rc \<Rightarrow> Some (rc, flags, s, work, contended, False)
            | Destroylock rc \<Rightarrow> destroy rc s
            | Checked \<Rightarrow>
                let (busy, s) = ldlm_check_contention contended s; req = locks s r in
                if busy \<and> cmpt = 0 \<and> has flags LDLM_FL_DENY_ON_CONTENTION \<and> l_req_mode req \<noteq> LCK_GROUP
                   \<and> le_end (l_req_extent req) - le_start (l_req_extent req) \<le> ucast (ns_max_nolock_size s)
                then destroy (- EUSERS) s
                else Some (cmpt, flags, s, work, contended, False)))"

section \<open>Processing a request\<close>

datatype ldlm_outcome =
    Stop ldlm_resource                    \<comment> \<open>LDLM_ITER_STOP\<close>
  | Continue ldlm_resource "nat list option"   \<comment> \<open>LDLM_ITER_CONTINUE\<close>
  | Done int u64 ldlm_resource            \<comment> \<open>the return code, the flags\<close>
  | Failed_assert
  | Out_of_fuel                           \<comment> \<open>the callbacks kept asking for a restart\<close>

text \<open>A lock that is processed again when the resource changes.\<close>

definition ldlm_reprocess_extent_lock :: "nat \<Rightarrow> u64 \<Rightarrow> nat list option \<Rightarrow> ldlm_resource \<Rightarrow> ldlm_outcome" where
  "ldlm_reprocess_extent_lock l flags work s =
     (if lr_converting s \<noteq> []
         \<or> has flags LDLM_FL_DENY_ON_CONTENTION \<and> has (l_flags (locks s l)) LDLM_AST_DISCARD_DATA
         \<or> flags \<noteq> 0
      then Failed_assert
      else case ldlm_extent_compat_queue Q_granted l flags s None 0 of
        None \<Rightarrow> Failed_assert
      | Some (rc, flags, s, _, contended, _) \<Rightarrow>
          (case (if rc = 1 then ldlm_extent_compat_queue Q_waiting l flags s None contended
                 else Some (rc, flags, s, None, contended, False)) of
             None \<Rightarrow> Failed_assert
           | Some (rc, flags, s, _, _, _) \<Rightarrow>
               if rc = 0 then Stop s
               else
                 (case ldlm_resource_unlink_lock l s of
                    None \<Rightarrow> Failed_assert
                  | Some s \<Rightarrow>
                      (case ldlm_extent_policy (locks s) (lr_itree s) (lr_waiting s) l flags of
                         None \<Rightarrow> Failed_assert
                       | Some (q, flags) \<Rightarrow>
                           (case ldlm_grant_lock l work (mod_lock l (\<lambda>_. q) s) of
                              None \<Rightarrow> Failed_assert
                            | Some (s, work) \<Rightarrow> Continue s work)))))"

definition grant_now :: "nat \<Rightarrow> u64 \<Rightarrow> ldlm_resource \<Rightarrow> ldlm_outcome" where
  "grant_now l flags s =
     (case ldlm_extent_policy (locks s) (lr_itree s) (lr_waiting s) l flags of
        None \<Rightarrow> Failed_assert
      | Some (q, flags) \<Rightarrow>
          (case Option.bind (ldlm_resource_unlink_lock l (mod_lock l (\<lambda>_. q) s)) (ldlm_grant_lock l None) of
             None \<Rightarrow> Failed_assert
           | Some (s, _) \<Rightarrow> Done 0 flags s))"

definition failed_out :: "nat \<Rightarrow> int \<Rightarrow> u64 \<Rightarrow> nat list \<Rightarrow> ldlm_resource \<Rightarrow> ldlm_outcome" where
  "failed_out l rc flags rpc_list s =
     (if rpc_list = [] then Done rc flags s
      else if has (l_flags (locks s l)) LDLM_AST_DISCARD_DATA then Failed_assert
      else case discard_bl_list rpc_list s of None \<Rightarrow> Failed_assert | Some s \<Rightarrow> Done rc flags s)"

text \<open>The first processing.  \<open>fuel\<close> bounds the restarts the blocking
  callbacks ask for; the work list is empty again at each restart.\<close>

fun process_loop ::
  "(nat \<Rightarrow> nat \<Rightarrow> ldlm_resource \<Rightarrow> ldlm_resource \<times> bool) \<Rightarrow> nat \<Rightarrow> nat \<Rightarrow> u64 \<Rightarrow> ldlm_resource \<Rightarrow> ldlm_outcome" where
  "process_loop ast 0 l flags s = Out_of_fuel"
| "process_loop ast (Suc fuel) l flags s =
     (case ldlm_extent_compat_queue Q_granted l flags s (Some []) 0 of
        None \<Rightarrow> Failed_assert
      | Some (rc, flags, s, work, contended, _) \<Rightarrow>
          let rpc = (case work of None \<Rightarrow> [] | Some w \<Rightarrow> w) in
          if rc < 0 then failed_out l rc flags rpc s
          else if rc = 2 then grant_now l flags s
          else case ldlm_extent_compat_queue Q_waiting l flags s (Some rpc) contended of
            None \<Rightarrow> Failed_assert
          | Some (rc2, flags, s, work, _, _) \<Rightarrow>
              let rpc = (case work of None \<Rightarrow> [] | Some w \<Rightarrow> w) in
              if rc2 < 0 then failed_out l rc2 flags rpc s
              else if rc + rc2 = 2 then grant_now l flags s
              else
                (case (if l_res_link (locks s l) then Some s else ldlm_resource_add_waiting l s) of
                   None \<Rightarrow> Failed_assert
                 | Some s \<Rightarrow>
                     (case ldlm_run_bl_ast_work ast rpc s of
                        None \<Rightarrow> Failed_assert
                      | Some (False, s) \<Rightarrow> Done 0 (flags OR LDLM_FL_BLOCK_GRANTED OR LDLM_FL_NO_TIMEOUT) s
                      | Some (True, s) \<Rightarrow>
                          if l_destroyed (locks s l) then Done (- EAGAIN) flags s
                          else if l_granted_mode (locks s l) = l_req_mode (locks s l)
                          then Done 0 (flags AND NOT (LDLM_FL_BLOCK_GRANTED OR LDLM_FL_BLOCK_CONV OR LDLM_FL_BLOCK_WAIT)) s
                          else process_loop ast fuel l flags s)))"

definition ldlm_process_extent_lock ::
  "(nat \<Rightarrow> nat \<Rightarrow> ldlm_resource \<Rightarrow> ldlm_resource \<times> bool) \<Rightarrow> nat \<Rightarrow> nat \<Rightarrow> u64 \<Rightarrow> ldlm_resource \<Rightarrow> ldlm_outcome" where
  "ldlm_process_extent_lock ast fuel l flags s =
     (if lr_converting s \<noteq> []
         \<or> has flags LDLM_FL_DENY_ON_CONTENTION \<and> has (l_flags (locks s l)) LDLM_AST_DISCARD_DATA
      then Failed_assert else process_loop ast fuel l flags s)"

text \<open>ldlm_lock_enqueue for an extent lock.  The interval node it would
  attach is a local variable that is never set, so a lock without one is
  destroyed.\<close>

definition ldlm_lock_enqueue ::
  "(nat \<Rightarrow> nat \<Rightarrow> ldlm_resource \<Rightarrow> ldlm_resource \<times> bool) \<Rightarrow> nat \<Rightarrow> nat \<Rightarrow> u64 \<Rightarrow> ldlm_resource \<Rightarrow> ldlm_outcome" where
  "ldlm_lock_enqueue ast fuel l flags s =
     (let done = (\<lambda>r. case r of None \<Rightarrow> Failed_assert | Some s \<Rightarrow> Done 0 flags s);
          local = ns_client s in
      if local \<and> l_req_mode (locks s l) = l_granted_mode (locks s l)
      then Done 0 (flags AND NOT (LDLM_FL_BLOCK_GRANTED OR LDLM_FL_BLOCK_CONV OR LDLM_FL_BLOCK_WAIT)) s
      else case ldlm_resource_unlink_lock l s of
        None \<Rightarrow> Failed_assert
      | Some s \<Rightarrow>
          if l_tree_node (locks s l) = None
          then (case ldlm_lock_destroy l s of None \<Rightarrow> Failed_assert | Some s \<Rightarrow> Done (- ENOMEM) flags s)
          else
            let s = mod_lock l (\<lambda>k. k\<lparr>l_flags := l_flags k OR flags AND LDLM_AST_DISCARD_DATA\<rparr>) s in
            if local then
              if has flags LDLM_FL_BLOCK_CONV then done (ldlm_resource_add_converting l s)
              else if has flags (LDLM_FL_BLOCK_WAIT OR LDLM_FL_BLOCK_GRANTED) then done (ldlm_resource_add_waiting l s)
              else done (map_option fst (ldlm_grant_lock l None s))
            else if has flags LDLM_FL_REPLAY \<and> has flags LDLM_FL_BLOCK_CONV then done (ldlm_resource_add_converting l s)
            else if has flags LDLM_FL_REPLAY \<and> has flags LDLM_FL_BLOCK_WAIT then done (ldlm_resource_add_waiting l s)
            else if has flags LDLM_FL_REPLAY \<and> has flags LDLM_FL_BLOCK_GRANTED
            then done (map_option fst (ldlm_grant_lock l None s))
            else ldlm_process_extent_lock ast fuel l flags s)"

section \<open>The invariant of a resource\<close>

definition mode_at :: "nat \<Rightarrow> ldlm_mode" where
  "mode_at i = [LCK_EX, LCK_PW, LCK_PR, LCK_CW, LCK_CR, LCK_NL, LCK_GROUP] ! i"

definition range_of :: "ldlm_extent \<Rightarrow> extent" where
  "range_of e = \<lparr>ext_start = le_start e, ext_end = le_end e\<rparr>"

text \<open>A node of a tree: its group are granted locks of the tree's mode and
  the node's extent.\<close>

definition node_ok :: "ldlm_resource \<Rightarrow> ldlm_mode \<Rightarrow> extent \<times> nat \<Rightarrow> bool" where
  "node_ok s m k \<longleftrightarrow> li_intree s (snd k) \<and> li_group s (snd k) \<noteq> []
     \<and> (\<forall>l\<in>set (li_group s (snd k)). l \<in> set (lr_granted s) \<and> l_tree_node (locks s l) = Some (snd k)
          \<and> l_req_mode (locks s l) = m \<and> l_granted_mode (locks s l) = m \<and> range_of (l_extent (locks s l)) = fst k)"

abbreviation keys :: "ldlm_resource \<Rightarrow> nat \<Rightarrow> (extent \<times> nat) set" where
  "keys s i \<equiv> ikey ` set (inord (lit_root (lr_itree s i)))"

text \<open>A lock that waits, or is about to be granted.\<close>

definition lock_ready :: "ldlm_resource \<Rightarrow> nat \<Rightarrow> bool" where
  "lock_ready s l \<longleftrightarrow> (let k = locks s l in \<not> l_destroyed k \<and> l_extent k = l_req_extent k
     \<and> le_start (l_req_extent k) \<le> le_end (l_req_extent k) \<and> req_aligned k \<and> l_req_mode k \<noteq> LCK_MINMODE
     \<and> (\<exists>n. l_tree_node k = Some n \<and> \<not> li_intree s n \<and> li_group s n = [l]))"

definition overlap_free :: "ldlm_resource \<Rightarrow> bool" where
  "overlap_free s \<longleftrightarrow> (\<forall>a\<in>set (lr_granted s). \<forall>b\<in>set (lr_granted s). a \<noteq> b \<longrightarrow>
     \<not> lockmode_compat (l_granted_mode (locks s a)) (l_granted_mode (locks s b)) \<longrightarrow>
     \<not> ldlm_extent_overlap (l_extent (locks s a)) (l_extent (locks s b)))"

text \<open>A tree that holds nodes has the mode of its index.  The mode of an empty
  tree may be unset, as ldlm_resource_new leaves it.\<close>

definition trees_ok :: "ldlm_resource \<Rightarrow> bool" where
  "trees_ok s \<longleftrightarrow> (\<forall>i<LCK_MODE_NUM. it_ok (lit_root (lr_itree s i)) \<and> (lit_root (lr_itree s i) \<noteq> Leaf \<longrightarrow> lit_mode (lr_itree s i) = mode_at i)
     \<and> (\<forall>k\<in>keys s i. node_ok s (mode_at i) k))"

definition ldlm_ok :: "ldlm_resource \<Rightarrow> bool" where
  "ldlm_ok s \<longleftrightarrow> trees_ok s \<and> overlap_free s \<and> lr_converting s = []
     \<and> distinct (lr_granted s @ lr_waiting s)
     \<and> (\<forall>l\<in>set (lr_granted s). \<exists>i<LCK_MODE_NUM. \<exists>k\<in>keys s i. l \<in> set (li_group s (snd k)))
     \<and> (\<forall>n. li_intree s n \<longrightarrow> (\<exists>i<LCK_MODE_NUM. n \<in> snd ` keys s i))
     \<and> (\<forall>l\<in>set (lr_waiting s). lock_ready s l \<and> l_res_link (locks s l))"

lemma granted_node:
  "ldlm_ok s \<Longrightarrow> l \<in> set (lr_granted s) \<Longrightarrow> \<exists>i<LCK_MODE_NUM. \<exists>k\<in>keys s i. l \<in> set (li_group s (snd k))"
  unfolding ldlm_ok_def by blast

lemma intree_node: "ldlm_ok s \<Longrightarrow> li_intree s n \<Longrightarrow> \<exists>i<LCK_MODE_NUM. n \<in> snd ` keys s i"
  unfolding ldlm_ok_def by blast

lemma waiting_ready: "ldlm_ok s \<Longrightarrow> l \<in> set (lr_waiting s) \<Longrightarrow> lock_ready s l \<and> l_res_link (locks s l)"
  unfolding ldlm_ok_def by blast

lemma node_member: "node_ok s m k \<Longrightarrow> \<exists>b. b \<in> set (li_group s (snd k))"
  unfolding node_ok_def by (meson hd_in_set)

lemma mode_at_inj: "i < LCK_MODE_NUM \<Longrightarrow> j < LCK_MODE_NUM \<Longrightarrow> mode_at i = mode_at j \<Longrightarrow> i = j"
proof -
  have "distinct [LCK_EX, LCK_PW, LCK_PR, LCK_CW, LCK_CR, LCK_NL, LCK_GROUP]" by simp
  then show "i < LCK_MODE_NUM \<Longrightarrow> j < LCK_MODE_NUM \<Longrightarrow> mode_at i = mode_at j \<Longrightarrow> i = j"
    by (simp add: mode_at_def LCK_MODE_NUM_def nth_eq_iff_index_eq)
qed

lemma mode_at_index: "m \<noteq> LCK_MINMODE \<Longrightarrow> \<exists>i<LCK_MODE_NUM. lock_mode_to_index m = Some i \<and> mode_at i = m"
  by (cases m) (auto simp: index_of_mode LCK_MODE_NUM_def mode_at_def)

lemma overlapped_keys:
  "it_ok t \<Longrightarrow> interval_is_overlapped t e \<longleftrightarrow> (\<exists>k\<in>ikey ` set (inord t). extent_overlapped e (fst k))"
  by (simp add: overlapped_iff)

lemma range_overlap: "extent_overlapped (range_of a) (range_of b) = ldlm_extent_overlap a b"
  by (simp add: extent_overlapped_def ldlm_extent_overlap_def range_of_def)

text \<open>What the trees say is what the granted locks say.\<close>

lemma clear_of_granted:
  assumes "ldlm_ok s"
  shows "clear_of (lr_itree s) q {..<LCK_MODE_NUM} e \<longleftrightarrow>
    (\<forall>b\<in>set (lr_granted s). \<not> lockmode_compat (l_granted_mode (locks s b)) (l_req_mode q) \<longrightarrow>
       \<not> extent_overlapped e (range_of (l_extent (locks s b))))"
proof -
  have t: "it_ok (lit_root (lr_itree s i))" "lit_root (lr_itree s i) \<noteq> Leaf \<Longrightarrow> lit_mode (lr_itree s i) = mode_at i"
      "\<And>k. k \<in> keys s i \<Longrightarrow> node_ok s (mode_at i) k"
    if "i < LCK_MODE_NUM" for i using assms that unfolding ldlm_ok_def trees_ok_def by blast+
  have ne: "lit_root (lr_itree s i) \<noteq> Leaf" if "k \<in> keys s i" for i k using that by auto
  show ?thesis
  proof (intro iffI ballI impI)
    fix b assume c: "clear_of (lr_itree s) q {..<LCK_MODE_NUM} e" and b: "b \<in> set (lr_granted s)"
      "\<not> lockmode_compat (l_granted_mode (locks s b)) (l_req_mode q)"
    obtain i k where i: "i < LCK_MODE_NUM" "k \<in> keys s i" "b \<in> set (li_group s (snd k))"
      using assms b(1) unfolding ldlm_ok_def by blast
    then have "l_granted_mode (locks s b) = mode_at i" "range_of (l_extent (locks s b)) = fst k"
      using t(3) by (auto simp: node_ok_def)
    then show "\<not> extent_overlapped e (range_of (l_extent (locks s b)))"
      using c i(1,2) b(2) t(2) [OF i(1) ne [OF i(2)]] overlapped_keys [OF t(1) [OF i(1)], of e] unfolding clear_of_def
      by (metis lessThan_iff)
  next
    assume g: "\<forall>b\<in>set (lr_granted s). \<not> lockmode_compat (l_granted_mode (locks s b)) (l_req_mode q) \<longrightarrow>
       \<not> extent_overlapped e (range_of (l_extent (locks s b)))"
    show "clear_of (lr_itree s) q {..<LCK_MODE_NUM} e" unfolding clear_of_def
    proof (intro ballI impI)
      fix i assume i: "i \<in> {..<LCK_MODE_NUM}" "clash (lr_itree s) q i"
      show "\<not> interval_is_overlapped (lit_root (lr_itree s i)) e"
      proof
        assume "interval_is_overlapped (lit_root (lr_itree s i)) e"
        then obtain k where k: "k \<in> keys s i" "extent_overlapped e (fst k)"
          using overlapped_keys t(1) i(1) by (metis lessThan_iff)
        then have n: "node_ok s (mode_at i) k" using t(3) i(1) by simp
        then obtain b where "b \<in> set (li_group s (snd k))" using node_member by blast
        then have "b \<in> set (lr_granted s)" "l_granted_mode (locks s b) = mode_at i" "range_of (l_extent (locks s b)) = fst k"
          using n by (auto simp: node_ok_def)
        then show False using g k(2) i t(2) [OF _ ne [OF k(1)]] by auto
      qed
    qed
  qed
qed

section \<open>Adding a granted lock\<close>

lemma mod_lock_simps [simp]:
  "locks (mod_lock l f s) = (locks s)(l := f (locks s l))" "lr_granted (mod_lock l f s) = lr_granted s"
  "lr_waiting (mod_lock l f s) = lr_waiting s" "lr_converting (mod_lock l f s) = lr_converting s"
  "lr_itree (mod_lock l f s) = lr_itree s" "li_group (mod_lock l f s) = li_group s" "li_intree (mod_lock l f s) = li_intree s"
  "lr_most_restr (mod_lock l f s) = lr_most_restr s"
  by (simp_all add: mod_lock_def)

lemma mod_tree_simps [simp]:
  "locks (mod_tree i g s) = locks s" "lr_granted (mod_tree i g s) = lr_granted s"
  "lr_waiting (mod_tree i g s) = lr_waiting s" "lr_converting (mod_tree i g s) = lr_converting s"
  "lr_itree (mod_tree i g s) = (lr_itree s)(i := g (lr_itree s i))" "li_group (mod_tree i g s) = li_group s"
  "li_intree (mod_tree i g s) = li_intree s"
  by (simp_all add: mod_tree_def)

text \<open>A lock that is off all lists and whose extent is free of conflicts.\<close>

definition grantable :: "ldlm_resource \<Rightarrow> nat \<Rightarrow> bool" where
  "grantable s l \<longleftrightarrow> (let k = locks s l in \<not> l_destroyed k \<and> \<not> l_res_link k \<and> l_req_mode k \<noteq> LCK_MINMODE
     \<and> l_granted_mode k = l_req_mode k \<and> le_start (l_extent k) \<le> le_end (l_extent k)
     \<and> l \<notin> set (lr_granted s) \<and> l \<notin> set (lr_waiting s)
     \<and> (\<exists>n. l_tree_node k = Some n \<and> \<not> li_intree s n \<and> li_group s n = [l])
     \<and> (\<forall>b\<in>set (lr_granted s). \<not> lockmode_compat (l_granted_mode (locks s b)) (l_req_mode k) \<longrightarrow>
          \<not> ldlm_extent_overlap (l_extent k) (l_extent (locks s b))))"

text \<open>The key of a node decides the tree it is in.\<close>

lemma keys_unique:
  assumes "trees_ok s" "i < LCK_MODE_NUM" "j < LCK_MODE_NUM" "k \<in> keys s i" "k' \<in> keys s j" "snd k = snd k'"
  shows "i = j \<and> k = k'"
proof -
  have n: "node_ok s (mode_at i) k" "node_ok s (mode_at j) k'" using assms unfolding trees_ok_def by blast+
  then obtain l where l: "l \<in> set (li_group s (snd k))" using node_member by blast
  have "mode_at i = mode_at j" "fst k = fst k'" using n l assms(6) unfolding node_ok_def by metis+
  then show ?thesis using mode_at_inj assms(2,3,6) by (auto simp: prod_eq_iff)
qed

lemma overlap_sym: "ldlm_extent_overlap a b = ldlm_extent_overlap b a"
  by (auto simp: ldlm_extent_overlap_def)

text \<open>The invariant is established from the old one, when the new lock joins
  the node \<open>m\<close>, with all other locks, groups and nodes as before.\<close>

lemma ldlm_ok_add:
  assumes ok: "ldlm_ok s" and gr: "grantable s l" and i: "i < LCK_MODE_NUM" "mode_at i = l_req_mode (locks s l)"
    and q: "lr_granted s' = lr_granted s @ [l]" "lr_waiting s' = lr_waiting s" "lr_converting s' = []"
    and old: "\<And>b. b \<noteq> l \<Longrightarrow> locks s' b = locks s b"
    and new: "l_req_mode (locks s' l) = l_req_mode (locks s l)" "l_granted_mode (locks s' l) = l_req_mode (locks s l)"
      "l_extent (locks s' l) = l_extent (locks s l)" "l_tree_node (locks s' l) = Some m"
    and tr: "\<And>j. j \<noteq> i \<Longrightarrow> lr_itree s' j = lr_itree s j"
      "it_ok (lit_root (lr_itree s' i))" "lit_mode (lr_itree s' i) = mode_at i"
      "keys s' i = insert (range_of (l_extent (locks s l)), m) (keys s i)"
    and li: "li_intree s' = (li_intree s)(m := True)"
      "\<And>x. l_tree_node (locks s l) \<noteq> Some x \<Longrightarrow> x \<noteq> m \<Longrightarrow> li_group s' x = li_group s x"
    and grp: "(range_of (l_extent (locks s l)), m) \<in> keys s i \<and> set (li_group s' m) = insert l (set (li_group s m))
      \<or> l_tree_node (locks s l) = Some m \<and> set (li_group s' m) = {l}"
  shows "ldlm_ok s'"
proof -
  let ?e = "range_of (l_extent (locks s l))"
  obtain n where n: "l_tree_node (locks s l) = Some n" "\<not> li_intree s n" "li_group s n = [l]"
    using gr by (auto simp: grantable_def Let_def)
  have lfresh: "l \<notin> set (lr_granted s)" "l \<notin> set (lr_waiting s)" using gr by (auto simp: grantable_def Let_def)
  have T: "trees_ok s" using ok by (simp add: ldlm_ok_def)
  have N: "node_ok s (mode_at j) k" if "j < LCK_MODE_NUM" "k \<in> keys s j" for j k
    using T that unfolding trees_ok_def by blast
  have in_tree: "li_intree s (snd k)" if "j < LCK_MODE_NUM" "k \<in> keys s j" for j k
    using N [OF that] by (simp add: node_ok_def)
  have old_node: "node_ok s' (mode_at j) k" if j: "j < LCK_MODE_NUM" "k \<in> keys s j" and ne: "snd k \<noteq> m" for j k
  proof -
    have "snd k \<noteq> n" using in_tree [OF j] n(2) by auto
    then have g: "li_group s' (snd k) = li_group s (snd k)" using li(2) ne n(1) by auto
    have "b \<noteq> l" if "b \<in> set (li_group s (snd k))" for b
      using N [OF j] that lfresh(1) by (auto simp: node_ok_def)
    then show ?thesis using N [OF j] g old li(1) q(1) by (auto simp: node_ok_def)
  qed
  have joined: "node_ok s' (mode_at i) (?e, m)"
    using grp
  proof
    assume a: "(?e, m) \<in> keys s i \<and> set (li_group s' m) = insert l (set (li_group s m))"
    then have o: "node_ok s (mode_at i) (?e, m)" using N [OF i(1)] by blast
    have "b \<noteq> l" if "b \<in> set (li_group s m)" for b using o that lfresh(1) by (auto simp: node_ok_def)
    moreover have "li_group s' m \<noteq> []" using a by auto
    ultimately show ?thesis using o a old new li(1) q(1) i(2) by (auto simp: node_ok_def)
  next
    assume "l_tree_node (locks s l) = Some m \<and> set (li_group s' m) = {l}"
    moreover from this have "li_group s' m \<noteq> []" by auto
    ultimately show ?thesis using new li(1) q(1) i(2) by (auto simp: node_ok_def)
  qed
  have key_m: "k = (?e, m) \<and> j = i" if "j < LCK_MODE_NUM" "k \<in> keys s j" "snd k = m" for j k
  proof -
    have "m \<noteq> n" using in_tree [OF that(1,2)] n(2) that(3) by auto
    then have "(?e, m) \<in> keys s i" using grp n(1) by auto
    then show ?thesis using keys_unique [OF T that(1) i(1) that(2), of "(?e, m)"] that(3) by auto
  qed
  have mono: "keys s j \<subseteq> keys s' j" for j
  proof (cases "j = i")
    case True
    then show ?thesis using tr(4) by blast
  next
    case False
    then show ?thesis by (simp only: tr(1) [OF False])
  qed
  have nodes: "node_ok s' (mode_at j) k" if j: "j < LCK_MODE_NUM" "k \<in> keys s' j" for j k
  proof (cases "k \<in> keys s j \<and> snd k \<noteq> m")
    case True
    then show ?thesis using old_node j(1) by blast
  next
    case False
    have "k = (?e, m) \<and> j = i"
    proof (cases "j = i")
      case True
      then have "k \<in> insert (?e, m) (keys s i)" using j(2) tr(4) by blast
      then consider "k = (?e, m)" | "k \<in> keys s i" by blast
      then show ?thesis using True False key_m [of i k] i(1) by cases blast+
    next
      case ne: False
      then have "k \<in> keys s j" using j(2) by (simp only: tr(1) [OF ne])
      then show ?thesis using False key_m [of j k] j(1) by blast
    qed
    then show ?thesis using joined by blast
  qed
  have "trees_ok s'" unfolding trees_ok_def
  proof (intro allI impI conjI ballI)
    fix j assume j: "j < LCK_MODE_NUM"
    have o: "it_ok (lit_root (lr_itree s j)) \<and> (lit_root (lr_itree s j) \<noteq> Leaf \<longrightarrow> lit_mode (lr_itree s j) = mode_at j)"
      using T j unfolding trees_ok_def by blast
    have e: "j = i \<or> lr_itree s' j = lr_itree s j" using tr(1) by blast
    show "it_ok (lit_root (lr_itree s' j))" using o e tr(2) by metis
    show "lit_mode (lr_itree s' j) = mode_at j" if "lit_root (lr_itree s' j) \<noteq> Leaf" using o e tr(3) that by metis
  qed (rule nodes)
  moreover have "overlap_free s'" unfolding overlap_free_def
  proof (intro ballI impI)
    fix a b assume ab: "a \<in> set (lr_granted s')" "b \<in> set (lr_granted s')" "a \<noteq> b"
      "\<not> lockmode_compat (l_granted_mode (locks s' a)) (l_granted_mode (locks s' b))"
    have G: "\<not> ldlm_extent_overlap (l_extent (locks s l)) (l_extent (locks s c))"
      if "c \<in> set (lr_granted s)" "\<not> lockmode_compat (l_granted_mode (locks s c)) (l_req_mode (locks s l))" for c
      using gr that by (auto simp: grantable_def Let_def)
    consider "a = l" "b \<in> set (lr_granted s)" "b \<noteq> l" | "b = l" "a \<in> set (lr_granted s)" "a \<noteq> l"
      | "a \<in> set (lr_granted s)" "b \<in> set (lr_granted s)" "a \<noteq> l" "b \<noteq> l"
      using ab(1-3) q(1) lfresh by auto
    then show "\<not> ldlm_extent_overlap (l_extent (locks s' a)) (l_extent (locks s' b))"
    proof cases
      case 1
      then show ?thesis using G [of b] ab(4) old new compat_sym by auto
    next
      case 2
      then show ?thesis using G [of a] ab(4) old new overlap_sym by auto
    next
      case 3
      then show ?thesis using ok ab(3,4) old unfolding ldlm_ok_def overlap_free_def by auto
    qed
  qed
  moreover have "distinct (lr_granted s' @ lr_waiting s')" using ok q(1,2) lfresh by (auto simp: ldlm_ok_def)
  moreover have "\<exists>j<LCK_MODE_NUM. \<exists>k\<in>keys s' j. b \<in> set (li_group s' (snd k))" if b: "b \<in> set (lr_granted s')" for b
  proof (cases "b = l")
    case True
    then show ?thesis using i(1) tr(4) grp by (intro exI [of _ i] conjI bexI [of _ "(?e, m)"]) auto
  next
    case False
    then have "b \<in> set (lr_granted s)" using b q(1) by simp
    then obtain j k where jk: "j < LCK_MODE_NUM" "k \<in> keys s j" "b \<in> set (li_group s (snd k))"
      using granted_node [OF ok] by blast
    have "k \<in> keys s' j" using jk(2) mono by blast
    moreover have "b \<in> set (li_group s' (snd k))"
    proof (cases "snd k = m")
      case True
      then have "(?e, m) \<in> keys s i" using key_m [OF jk(1,2)] jk(2) by auto
      then have "m \<noteq> n" using in_tree [OF i(1)] n(2) by fastforce
      then show ?thesis using grp n(1) jk(3) True by auto
    next
      case ne: False
      have "snd k \<noteq> n" using in_tree [OF jk(1,2)] n(2) by auto
      then show ?thesis using li(2) ne n(1) jk(3) by auto
    qed
    ultimately show ?thesis using jk(1) by blast
  qed
  moreover have "\<exists>j<LCK_MODE_NUM. x \<in> snd ` keys s' j" if x: "li_intree s' x" for x
  proof (cases "x = m")
    case True
    then show ?thesis using i(1) tr(4) by (intro exI [of _ i]) force
  next
    case False
    then have "li_intree s x" using x li(1) by simp
    then obtain j where j: "j < LCK_MODE_NUM" "x \<in> snd ` keys s j" using intree_node [OF ok] by blast
    then have "x \<in> snd ` keys s' j" using mono by blast
    then show ?thesis using j(1) by blast
  qed
  moreover have "lock_ready s' w \<and> l_res_link (locks s' w)" if w: "w \<in> set (lr_waiting s')" for w
  proof -
    have r: "lock_ready s w" "l_res_link (locks s w)" "w \<noteq> l" using waiting_ready [OF ok, of w] w q(2) lfresh by auto
    then obtain x where x: "l_tree_node (locks s w) = Some x" "\<not> li_intree s x" "li_group s x = [w]"
      by (auto simp: lock_ready_def Let_def)
    have "x \<noteq> n" using x(3) n(3) r(3) by auto
    moreover have "x \<noteq> m" using grp in_tree [OF i(1), of "(?e, m)"] x(2) n(1) \<open>x \<noteq> n\<close> by auto
    ultimately have "\<not> li_intree s' x" "li_group s' x = [w]" using x li n(1) by auto
    then show ?thesis using r x(1) old unfolding lock_ready_def Let_def by auto
  qed
  ultimately show ?thesis using q(3) unfolding ldlm_ok_def by blast
qed

end
