(* ===== verification/LdlmSafe.thy ===== *)
theory LdlmSafe
  imports Ldlm
begin

text \<open>
  Correctness of the extent lock queues of theory Ldlm: adding a lock to the
  granted ones keeps the resource in order, the checks against the queues are
  exact, and processing a lock grants it only when it may be.
\<close>

section \<open>Adding\<close>

text \<open>The interval tree for the mode of a lock has that mode.  ldlm_extent_add_lock
  asserts it; a resource is in order without it as long as the tree is empty.\<close>

definition tree_has_mode :: "ldlm_resource \<Rightarrow> nat \<Rightarrow> bool" where
  "tree_has_mode s l \<longleftrightarrow> (\<forall>i. lock_mode_to_index (l_req_mode (locks s l)) = Some i
     \<longrightarrow> lit_mode (lr_itree s i) = l_req_mode (locks s l))"

lemma add_lock_fails:
  assumes "l_granted_mode (locks s l) = l_req_mode (locks s l)" "\<not> tree_has_mode s l"
  shows "ldlm_extent_add_lock l s = None"
  using assms by (auto simp: ldlm_extent_add_lock_def Let_def tree_has_mode_def split: option.split)

lemma add_lock_ok:
  assumes "ldlm_ok s" "grantable s l" "tree_has_mode s l"
  shows "\<exists>s'. ldlm_extent_add_lock l s = Some s' \<and> ldlm_ok s' \<and> lr_granted s' = lr_granted s @ [l]
    \<and> lr_waiting s' = lr_waiting s \<and> l_extent (locks s' l) = l_extent (locks s l)
    \<and> l_flags (locks s' l) = l_flags (locks s l) \<and> l_cp_ast (locks s' l) = l_cp_ast (locks s l)
    \<and> l_granted_mode (locks s' l) = l_granted_mode (locks s l)"
proof -
  obtain n where n: "l_tree_node (locks s l) = Some n" "\<not> li_intree s n" "li_group s n = [l]"
    using assms(2) by (auto simp: grantable_def Let_def)
  have k: "\<not> l_destroyed (locks s l)" "\<not> l_res_link (locks s l)" "l_req_mode (locks s l) \<noteq> LCK_MINMODE"
    "l_granted_mode (locks s l) = l_req_mode (locks s l)" "le_start (l_extent (locks s l)) \<le> le_end (l_extent (locks s l))"
    using assms(2) by (auto simp: grantable_def Let_def)
  obtain i where i: "i < LCK_MODE_NUM" "lock_mode_to_index (l_req_mode (locks s l)) = Some i" "mode_at i = l_req_mode (locks s l)"
    using mode_at_index [OF k(3)] by blast
  have "it_ok (lit_root (lr_itree s i))" and N: "\<forall>k\<in>keys s i. node_ok s (mode_at i) k"
    using assms(1) i(1) unfolding ldlm_ok_def trees_ok_def by blast+
  then have T: "it_ok (lit_root (lr_itree s i)) \<and> lit_mode (lr_itree s i) = mode_at i" "\<forall>k\<in>keys s i. node_ok s (mode_at i) k"
    using assms(3) i(2,3) by (auto simp: tree_has_mode_def)
  have conv: "lr_converting s = []" using assms(1) unfolding ldlm_ok_def by blast
  let ?e = "range_of (l_extent (locks s l))"
  let ?x = "\<lparr>in_extent = ?e, in_max_high = le_end (l_extent (locks s l)), in_intree = False, in_id = n\<rparr>"
  have x: "in_max_high ?x = interval_high ?x" "interval_low ?x \<le> interval_high ?x" "\<not> in_intree ?x" "ikey ?x = (?e, n)"
    using k(5) by (simp_all add: range_of_def interval_high_def interval_low_def ikey_def)
  obtain found t where ins: "interval_insert ?x (lit_root (lr_itree s i)) = Some (found, t)"
    using insert_runs [OF conjunct1 [OF T(1)] x(3)] by blast
  show ?thesis
  proof (cases found)
    case None
    note r = it_insert_ok [OF conjunct1 [OF T(1)] x(1,2) ins [unfolded None]]
    define s1 where "s1 = (mod_tree i (\<lambda>k. k\<lparr>lit_root := t, lit_size := lit_size k + 1\<rparr>) s)\<lparr>li_intree := (li_intree s)(n := True)\<rparr>"
    define s' where "s' = mod_lock l (\<lambda>k. k\<lparr>l_res_link := True\<rparr>) (s1\<lparr>lr_granted := lr_granted s1 @ [l]\<rparr>)"
    have s1: "locks s1 = locks s" "lr_granted s1 = lr_granted s" "lr_waiting s1 = lr_waiting s" "lr_converting s1 = []"
      "lr_itree s1 = (lr_itree s)(i := (lr_itree s i)\<lparr>lit_root := t, lit_size := lit_size (lr_itree s i) + 1\<rparr>)"
      "li_group s1 = li_group s" "li_intree s1 = (li_intree s)(n := True)"
      using conv by (simp_all add: s1_def)
    have "ldlm_extent_add_lock l s = Some s'"
      using n k i T(1) ins None
      by (simp add: ldlm_extent_add_lock_def Let_def range_of_def s1_def s'_def ldlm_resource_add_granted_def)
    moreover have "ldlm_ok s'"
      by (rule ldlm_ok_add [OF assms(1,2) i(1,3), where m = n])
        (use n s1 r T(1) k(4) i(3) x(4) in \<open>auto simp: s'_def\<close>)
    ultimately show ?thesis using s1 by (intro exI [of _ s']) (simp add: s'_def)
  next
    case (Some y)
    note r = insert_found [OF conjunct1 [OF T(1)] x(1) ins [unfolded Some]]
    have "y \<in> set (inord (lit_root (lr_itree s i)))" using r by simp
    then have ky2: "ikey y \<in> keys s i" by (rule imageI)
    have ky1: "ikey y = (?e, in_id y)" using r by (simp add: ikey_def)
    note ky = ky1 ky2
    have iy: "li_intree s (in_id y)" using T(2) ky by (metis node_ok_def snd_conv)
    then have ny: "in_id y \<noteq> n" using n(2) by auto
    define s1 where "s1 = mod_tree i (\<lambda>k. k\<lparr>lit_root := t, lit_size := lit_size k + 1\<rparr>) s"
    define s2 where "s2 = mod_lock l (\<lambda>k. k\<lparr>l_tree_node := None\<rparr>) (s1\<lparr>li_group := (li_group s1)(n := [])\<rparr>)"
    define s3 where "s3 = mod_lock l (\<lambda>k. k\<lparr>l_tree_node := Some (in_id y)\<rparr>)
      (s2\<lparr>li_group := (li_group s2)(in_id y := li_group s2 (in_id y) @ [l])\<rparr>)"
    define s' where "s' = mod_lock l (\<lambda>k. k\<lparr>l_res_link := True\<rparr>) (s3\<lparr>lr_granted := lr_granted s3 @ [l]\<rparr>)"
    have "ldlm_interval_detach l s1 = Some (Some n, s2)"
      using n by (simp add: ldlm_interval_detach_def s1_def s2_def Let_def)
    moreover have "ldlm_interval_free n s2 = Some s2" using n by (simp add: ldlm_interval_free_def s1_def s2_def)
    moreover have "ldlm_interval_attach (in_id y) l s2 = Some s3" by (simp add: ldlm_interval_attach_def s2_def s3_def)
    moreover have "ldlm_resource_add_granted l s3 = Some s'"
      using k by (simp add: ldlm_resource_add_granted_def s1_def s2_def s3_def s'_def)
    ultimately have "ldlm_extent_add_lock l s = Some s'"
      using n k i T(1) ins Some by (simp add: ldlm_extent_add_lock_def Let_def range_of_def s1_def [symmetric])
    moreover have "ldlm_ok s'"
    proof (rule ldlm_ok_add [OF assms(1,2) i(1,3), where m = "in_id y"])
      have kt: "ikey ` set (inord t) = keys s i" using r by (metis set_map)
      have "keys s' i = ikey ` set (inord t)" by (simp add: s1_def s2_def s3_def s'_def)
      then show "keys s' i = insert (?e, in_id y) (keys s i)" using ky2 kt unfolding ky1 by (simp only: insert_absorb)
      have "(li_intree s)(in_id y := True) = li_intree s" using iy by (intro fun_upd_idem) simp
      then show "li_intree s' = (li_intree s)(in_id y := True)" by (simp add: s1_def s2_def s3_def s'_def)
      show "(?e, in_id y) \<in> keys s i \<and> set (li_group s' (in_id y)) = insert l (set (li_group s (in_id y)))
          \<or> l_tree_node (locks s l) = Some (in_id y) \<and> set (li_group s' (in_id y)) = {l}"
        using ky2 ny unfolding ky1 by (simp add: s1_def s2_def s3_def s'_def)
      show "it_ok (lit_root (lr_itree s' i))" using r by (simp add: s1_def s2_def s3_def s'_def)
      show "lit_mode (lr_itree s' i) = mode_at i" using T(1) by (simp add: s1_def s2_def s3_def s'_def)
    qed (use n k(4) conv in \<open>simp_all add: s1_def s2_def s3_def s'_def\<close>)
    ultimately show ?thesis by (intro exI [of _ s']) (simp add: s1_def s2_def s3_def s'_def)
  qed
qed

section \<open>What the invariant depends on\<close>

definition lock_core :: "ldlm_lock \<Rightarrow> ldlm_mode \<times> ldlm_mode \<times> ldlm_extent \<times> ldlm_extent \<times> nat option \<times> bool \<times> bool" where
  "lock_core k = (l_req_mode k, l_granted_mode k, l_extent k, l_req_extent k, l_tree_node k, l_destroyed k, l_res_link k)"

text \<open>Locks that are on no queue, and the other fields, do not matter; a
  lock may leave the waiting queue.\<close>

lemma ldlm_ok_cong:
  assumes ok: "ldlm_ok s" and q: "lr_granted s' = lr_granted s" "lr_converting s' = []" "distinct (lr_waiting s')"
      "set (lr_waiting s') \<subseteq> set (lr_waiting s)"
    and t: "lr_itree s' = lr_itree s" "li_group s' = li_group s" "li_intree s' = li_intree s"
    and l: "\<And>b. b \<in> set (lr_granted s) \<or> b \<in> set (lr_waiting s') \<Longrightarrow> lock_core (locks s' b) = lock_core (locks s b)"
  shows "ldlm_ok s'"
proof -
  have f: "l_req_mode (locks s' b) = l_req_mode (locks s b)" "l_granted_mode (locks s' b) = l_granted_mode (locks s b)"
    "l_extent (locks s' b) = l_extent (locks s b)" "l_req_extent (locks s' b) = l_req_extent (locks s b)"
    "l_tree_node (locks s' b) = l_tree_node (locks s b)" "l_destroyed (locks s' b) = l_destroyed (locks s b)"
    "l_res_link (locks s' b) = l_res_link (locks s b)"
    if "b \<in> set (lr_granted s) \<or> b \<in> set (lr_waiting s')" for b
    using l [OF that] by (simp_all add: lock_core_def)
  have n: "node_ok s' m k" if "node_ok s m k" for m k
    using that f q(1) t unfolding node_ok_def by auto
  have "trees_ok s'" using ok n t unfolding ldlm_ok_def trees_ok_def by auto
  moreover have "overlap_free s'" using ok f q(1) unfolding ldlm_ok_def overlap_free_def by auto
  moreover have "lock_ready s' w \<and> l_res_link (locks s' w)" if "w \<in> set (lr_waiting s')" for w
  proof -
    have "lock_ready s w" "l_res_link (locks s w)" using waiting_ready [OF ok, of w] that q(4) by auto
    then show ?thesis using f [OF disjI2 [OF that]] t unfolding lock_ready_def Let_def by auto
  qed
  moreover have "distinct (lr_granted s' @ lr_waiting s')" using ok q unfolding ldlm_ok_def by auto
  ultimately show ?thesis using ok q t unfolding ldlm_ok_def by auto
qed

section \<open>The checks without a work list\<close>

text \<open>Nothing is changed but the flags; a non-GROUP request passes the granted
  locks exactly when nothing is in its way.\<close>

definition group_free :: "ldlm_resource \<Rightarrow> nat \<Rightarrow> nat list \<Rightarrow> bool" where
  "group_free s r is \<longleftrightarrow> (\<forall>i\<in>set is. lit_mode (lr_itree s i) = LCK_GROUP \<longrightarrow>
     lockmode_compat (l_req_mode (locks s r)) LCK_GROUP \<or> lit_root (lr_itree s i) = Leaf)"

lemma compat_granted_plain:
  assumes "l_req_mode (locks s r) \<noteq> LCK_GROUP"
  shows "if group_free s r is \<and> clear_of (lr_itree s) (locks s r) (set is) (req_extent (locks s r))
    then compat_granted r is (0, s, None, c, 1) = Some (Checked, 0, s, None, c, 1)
    else \<exists>f. compat_granted r is (0, s, None, c, 1) = Some (Return 0, f, s, None, c, 1)"
proof (induction "is")
  case Nil
  then show ?case by (simp add: group_free_def clear_of_def)
next
  case (Cons i rest)
  let ?m = "lit_mode (lr_itree s i)" and ?t = "lit_root (lr_itree s i)" and ?q = "locks s r"
  let ?ex = "req_extent ?q"
  have leaf: "\<not> interval_is_overlapped Leaf ?ex" by (simp add: interval_is_overlapped_def interval_search_def)
  have st: "granted_step r i (0, s, None, c, 1) =
    (if ?t = Leaf \<or> lockmode_compat (l_req_mode ?q) ?m then Some (Inr (0, s, None, c, 1))
     else if ?m = LCK_GROUP then Some (Inl (Return 0, 0 OR LDLM_FL_NO_TIMEOUT, s, None, c, 1))
     else if interval_is_overlapped ?t ?ex then Some (Inl (Return 0, 0, s, None, c, 1))
     else Some (Inr (0, s, None, c, 1)))"
    using assms by (cases ?t) (simp_all add: granted_step_def Let_def)
  have g: "group_free s r (i # rest) \<longleftrightarrow> (?m = LCK_GROUP \<longrightarrow> lockmode_compat (l_req_mode ?q) LCK_GROUP \<or> ?t = Leaf) \<and> group_free s r rest"
    by (simp add: group_free_def)
  have cl: "clear_of (lr_itree s) ?q (set (i # rest)) ?ex \<longleftrightarrow>
      (\<not> lockmode_compat (l_req_mode ?q) ?m \<longrightarrow> \<not> interval_is_overlapped ?t ?ex) \<and> clear_of (lr_itree s) ?q (set rest) ?ex"
    by (auto simp: clear_of_def compat_sym)
  consider "?t = Leaf \<or> lockmode_compat (l_req_mode ?q) ?m" | "?t \<noteq> Leaf" "\<not> lockmode_compat (l_req_mode ?q) ?m" by blast
  then show ?case
  proof cases
    case 1
    then have "compat_granted r (i # rest) (0, s, None, c, 1) = compat_granted r rest (0, s, None, c, 1)"
      unfolding compat_granted.simps st by simp
    moreover have "group_free s r (i # rest) = group_free s r rest" using 1 unfolding g by auto
    moreover have "clear_of (lr_itree s) ?q (set (i # rest)) ?ex = clear_of (lr_itree s) ?q (set rest) ?ex"
      using 1 leaf unfolding cl by auto
    ultimately show ?thesis using Cons.IH by simp
  next
    case 2
    show ?thesis
    proof (cases "?m = LCK_GROUP \<or> interval_is_overlapped ?t ?ex")
      case True
      then have "\<not> (group_free s r (i # rest) \<and> clear_of (lr_itree s) ?q (set (i # rest)) ?ex)"
        using 2 unfolding g cl by auto
      moreover have "\<exists>f. compat_granted r (i # rest) (0, s, None, c, 1) = Some (Return 0, f, s, None, c, 1)"
        using True 2 unfolding compat_granted.simps st by auto
      ultimately show ?thesis by (simp only: if_False)
    next
      case False
      then have "compat_granted r (i # rest) (0, s, None, c, 1) = compat_granted r rest (0, s, None, c, 1)"
        using 2 unfolding compat_granted.simps st by simp
      moreover have "group_free s r (i # rest) = group_free s r rest" using False unfolding g by auto
      moreover have "clear_of (lr_itree s) ?q (set (i # rest)) ?ex = clear_of (lr_itree s) ?q (set rest) ?ex"
        using False unfolding cl by auto
      ultimately show ?thesis using Cons.IH by simp
    qed
  qed
qed

lemma compat_waiting_plain:
  assumes "l_req_mode (locks s r) \<noteq> LCK_GROUP"
  shows "(\<exists>x. compat_waiting r ws False (0, s, None, c, 1) = Some (x, 0, s, None, c, 1) \<and> (x = Checked \<or> x = Return 1))
    \<or> (\<exists>f. compat_waiting r ws False (0, s, None, c, 1) = Some (Return 0, f, s, None, c, 1))"
proof (induction ws)
  case (Cons w ws)
  have st: "waiting_step r w False (0, s, None, c, 1) = Some (Inr (False, 0, s, None, c, 1))
    \<or> waiting_step r w False (0, s, None, c, 1) = Some (Inl (Checked, 0, s, None, c, 1))
    \<or> waiting_step r w False (0, s, None, c, 1) = Some (Inl (Return 1, 0, s, None, c, 1))
    \<or> (\<exists>f. waiting_step r w False (0, s, None, c, 1) = Some (Inl (Return 0, f, s, None, c, 1)))"
    using assms unfolding waiting_step_def by (auto simp: Let_def)
  then show ?case using Cons.IH unfolding compat_waiting.simps by (elim disjE exE) simp_all
qed simp

text \<open>The two checks, as they are called when a lock is processed again.\<close>

lemma no_contention:
  "ldlm_check_contention c s = (b, s') \<Longrightarrow> s' = s\<lparr>lr_contention_time := lr_contention_time s'\<rparr>"
  by (auto simp: ldlm_check_contention_def Let_def split: if_splits)

lemma queue_granted_plain:
  assumes "l_req_mode (locks s r) \<noteq> LCK_GROUP" "lockmode_verify (l_req_mode (locks s r))"
  shows "if group_free s r [0..<LCK_MODE_NUM] \<and> clear_of (lr_itree s) (locks s r) {..<LCK_MODE_NUM} (req_extent (locks s r))
    then \<exists>t. ldlm_extent_compat_queue Q_granted r 0 s None 0 = Some (1, 0, s\<lparr>lr_contention_time := t\<rparr>, None, 0, False)
    else \<exists>f. ldlm_extent_compat_queue Q_granted r 0 s None 0 = Some (0, f, s, None, 0, False)"
proof -
  have set: "set [0..<LCK_MODE_NUM] = {..<LCK_MODE_NUM}" by auto
  obtain b s1 where cc: "ldlm_check_contention 0 s = (b, s1)" by fastforce
  note c1 = no_contention [OF cc]
  show ?thesis
  proof (cases "group_free s r [0..<LCK_MODE_NUM] \<and> clear_of (lr_itree s) (locks s r) {..<LCK_MODE_NUM} (req_extent (locks s r))")
    case True
    then have "compat_granted r [0..<LCK_MODE_NUM] (0, s, None, 0, 1) = Some (Checked, 0, s, None, 0, 1)"
      using compat_granted_plain [OF assms(1), of "[0..<LCK_MODE_NUM]" 0] unfolding set by simp
    then have "ldlm_extent_compat_queue Q_granted r 0 s None 0 = Some (1, 0, s1, None, 0, False)"
      using assms(2) by (simp add: ldlm_extent_compat_queue_def Let_def cc)
    then have "\<exists>t. ldlm_extent_compat_queue Q_granted r 0 s None 0 = Some (1, 0, s\<lparr>lr_contention_time := t\<rparr>, None, 0, False)"
      using c1 by metis
    then show ?thesis unfolding if_P [OF True] .
  next
    case False
    then obtain f where "compat_granted r [0..<LCK_MODE_NUM] (0, s, None, 0, 1) = Some (Return 0, f, s, None, 0, 1)"
      using compat_granted_plain [OF assms(1), of "[0..<LCK_MODE_NUM]" 0] unfolding set by auto
    then have "ldlm_extent_compat_queue Q_granted r 0 s None 0 = Some (0, f, s, None, 0, False)"
      using assms(2) by (simp add: ldlm_extent_compat_queue_def Let_def)
    then show ?thesis unfolding if_not_P [OF False] by blast
  qed
qed

lemma queue_waiting_plain:
  assumes "l_req_mode (locks s r) \<noteq> LCK_GROUP" "lockmode_verify (l_req_mode (locks s r))"
  shows "(\<exists>t. ldlm_extent_compat_queue Q_waiting r 0 s None 0 = Some (1, 0, s\<lparr>lr_contention_time := t\<rparr>, None, 0, False))
    \<or> (\<exists>f. ldlm_extent_compat_queue Q_waiting r 0 s None 0 = Some (0, f, s, None, 0, False))"
proof -
  obtain b s1 where cc: "ldlm_check_contention 0 s = (b, s1)" by fastforce
  have same: "\<exists>t. s1 = s\<lparr>lr_contention_time := t\<rparr>" "\<exists>t. s = s\<lparr>lr_contention_time := t\<rparr>"
    using no_contention [OF cc] by (blast, intro exI [of _ "lr_contention_time s"]) simp
  from compat_waiting_plain [OF assms(1), of "lr_waiting s" 0] show ?thesis
  proof (elim disjE exE conjE)
    fix x assume "compat_waiting r (lr_waiting s) False (0, s, None, 0, 1) = Some (x, 0, s, None, 0, 1)" "x = Checked"
    then have "ldlm_extent_compat_queue Q_waiting r 0 s None 0 = Some (1, 0, s1, None, 0, False)"
      using assms(2) by (simp add: ldlm_extent_compat_queue_def Let_def cc)
    then show ?thesis using same(1) by metis
  next
    fix x assume "compat_waiting r (lr_waiting s) False (0, s, None, 0, 1) = Some (x, 0, s, None, 0, 1)" "x = Return 1"
    then have "ldlm_extent_compat_queue Q_waiting r 0 s None 0 = Some (1, 0, s, None, 0, False)"
      using assms(2) by (simp add: ldlm_extent_compat_queue_def Let_def)
    then show ?thesis using same(2) by metis
  next
    fix f assume "compat_waiting r (lr_waiting s) False (0, s, None, 0, 1) = Some (Return 0, f, s, None, 0, 1)"
    then have "ldlm_extent_compat_queue Q_waiting r 0 s None 0 = Some (0, f, s, None, 0, False)"
      using assms(2) by (simp add: ldlm_extent_compat_queue_def Let_def)
    then show ?thesis by blast
  qed
qed

text \<open>At the head of the queue nothing waits in front.\<close>

lemma queue_waiting_head:
  assumes "lockmode_verify (l_req_mode (locks s r))" "lr_waiting s = r # ws"
  shows "\<exists>t. ldlm_extent_compat_queue Q_waiting r 0 s None 0 = Some (1, 0, s\<lparr>lr_contention_time := t\<rparr>, None, 0, False)"
proof -
  obtain b s1 where cc: "ldlm_check_contention 0 s = (b, s1)" by fastforce
  have "ldlm_extent_compat_queue Q_waiting r 0 s None 0 = Some (1, 0, s1, None, 0, False)"
    using assms by (simp add: ldlm_extent_compat_queue_def waiting_step_def Let_def cc)
  then show ?thesis using no_contention [OF cc] by metis
qed

section \<open>Granting\<close>

lemma ok_free:
  assumes "ldlm_ok s" "l \<notin> set (lr_granted s)" "l \<notin> set (lr_waiting s)"
  shows "ldlm_ok (mod_lock l f s)"
  by (rule ldlm_ok_cong [OF assms(1)]) (use assms in \<open>auto simp: ldlm_ok_def\<close>)

lemma ok_same_core:
  assumes "ldlm_ok s" "\<And>k. lock_core (f k) = lock_core k"
  shows "ldlm_ok (mod_lock l f s)"
  by (rule ldlm_ok_cong [OF assms(1)]) (use assms in \<open>auto simp: ldlm_ok_def\<close>)

lemma grant_fails: "\<not> tree_has_mode s l \<Longrightarrow> ldlm_grant_lock l work s = None"
  by (simp add: ldlm_grant_lock_def Let_def add_lock_fails tree_has_mode_def)

lemma grant_ok:
  assumes "ldlm_ok s" "grantable (mod_lock l (\<lambda>k. k\<lparr>l_granted_mode := l_req_mode k\<rparr>) s) l"
    and "work \<noteq> None \<Longrightarrow> \<not> l_cp_ast (locks s l)" and tm: "tree_has_mode s l"
  shows "\<exists>s' work'. ldlm_grant_lock l work s = Some (s', work') \<and> ldlm_ok s' \<and> lr_granted s' = lr_granted s @ [l]
    \<and> lr_waiting s' = lr_waiting s \<and> l_extent (locks s' l) = l_extent (locks s l)
    \<and> l_granted_mode (locks s' l) = l_req_mode (locks s l)"
proof -
  let ?s0 = "mod_lock l (\<lambda>k. k\<lparr>l_granted_mode := l_req_mode k\<rparr>) s"
  have "ldlm_ok ?s0" by (rule ok_free [OF assms(1)]) (use assms(2) in \<open>auto simp: grantable_def Let_def\<close>)
  moreover have "tree_has_mode ?s0 l" using tm by (simp add: tree_has_mode_def)
  ultimately obtain s1 where s1: "ldlm_extent_add_lock l ?s0 = Some s1" "ldlm_ok s1"
    "lr_granted s1 = lr_granted s @ [l]" "lr_waiting s1 = lr_waiting s" "l_extent (locks s1 l) = l_extent (locks s l)"
    "l_cp_ast (locks s1 l) = l_cp_ast (locks s l)" "l_granted_mode (locks s1 l) = l_req_mode (locks s l)"
    using add_lock_ok [OF _ assms(2)] by auto
  define s2 where "s2 = (if mode_bits (l_granted_mode (locks s1 l)) < mode_bits (lr_most_restr s1)
      then s1\<lparr>lr_most_restr := l_granted_mode (locks s1 l)\<rparr> else s1)"
  have s2: "ldlm_ok s2" by (rule ldlm_ok_cong [OF s1(2)]) (use s1(2) in \<open>auto simp: s2_def ldlm_ok_def\<close>)
  have s2f: "locks s2 = locks s1" "lr_granted s2 = lr_granted s1" "lr_waiting s2 = lr_waiting s1" by (simp_all add: s2_def)
  have g: "ldlm_grant_lock l work s = (case work of None \<Rightarrow> Some (s2, None)
      | Some w \<Rightarrow> if l_completion_ast (locks s2 l) then map_option (\<lambda>(s, w). (s, Some w)) (ldlm_add_cp_work_item l s2 w)
          else Some (s2, Some w))"
    unfolding ldlm_grant_lock_def Let_def s1(1) s2_def by simp
  define s3 where "s3 = ldlm_lock_get l (mod_lock l (\<lambda>k. k\<lparr>l_flags := l_flags k OR LDLM_FL_CP_REQD, l_cp_ast := True\<rparr>) s2)"
  have s3: "ldlm_ok s3" unfolding s3_def ldlm_lock_get_def by (intro ok_same_core s2) (simp_all add: lock_core_def)
  have s3f: "lr_granted s3 = lr_granted s2" "lr_waiting s3 = lr_waiting s2" "l_extent (locks s3 l) = l_extent (locks s2 l)"
    "l_granted_mode (locks s3 l) = l_granted_mode (locks s2 l)"
    by (simp_all add: s3_def ldlm_lock_get_def)
  have "work = None \<Longrightarrow> ldlm_grant_lock l work s = Some (s2, None)" unfolding g by simp
  moreover have "ldlm_grant_lock l work s = Some (s2, Some w) \<or> (\<exists>w'. ldlm_grant_lock l work s = Some (s3, Some w'))"
    if "work = Some w" for w
    using assms(3) that s1(6) s2f(1) unfolding g by (simp add: ldlm_add_cp_work_item_def s3_def)
  ultimately consider w where "ldlm_grant_lock l work s = Some (s2, w)" | w where "ldlm_grant_lock l work s = Some (s3, w)"
    by (cases work) blast+
  then show ?thesis
  proof cases
    case 1
    then show ?thesis using s2 s2f s1(3-5,7) by (intro exI [of _ s2] exI [of _ w]) simp
  next
    case 2
    then show ?thesis using s3 s3f s2f s1(3-5,7) by (intro exI [of _ s3] exI [of _ w]) simp
  qed
qed

section \<open>Processing a waiting lock again\<close>

text \<open>When both checks passed: the lock leaves the waiting queue, its extent
  is grown, and it is granted if its tree has a mode.\<close>

lemma granted_after_checks:
  assumes ok: "ldlm_ok s" and l: "l \<in> set (lr_waiting s)"
    and cl: "clear_of (lr_itree s) (locks s l) {..<LCK_MODE_NUM} (req_extent (locks s l))"
    and cp: "work \<noteq> None \<Longrightarrow> \<not> l_cp_ast (locks s l)"
  shows "\<exists>s2 q f. ldlm_resource_unlink_lock l s = Some s2
    \<and> ldlm_extent_policy (locks s2) (lr_itree s2) (lr_waiting s2) l flags = Some (q, f)
    \<and> (\<not> tree_has_mode s l \<longrightarrow> ldlm_grant_lock l work (mod_lock l (\<lambda>_. q) s2) = None)
    \<and> (tree_has_mode s l \<longrightarrow> (\<exists>s' work'. ldlm_grant_lock l work (mod_lock l (\<lambda>_. q) s2) = Some (s', work') \<and> ldlm_ok s'
    \<and> lr_granted s' = lr_granted s @ [l] \<and> lr_waiting s' = remove1 l (lr_waiting s)
    \<and> l_granted_mode (locks s' l) = l_req_mode (locks s l)
    \<and> le_start (l_extent (locks s' l)) \<le> le_start (l_req_extent (locks s l))
    \<and> le_end (l_req_extent (locks s l)) \<le> le_end (l_extent (locks s' l))))"
proof -
  have r: "lock_ready s l" using waiting_ready [OF ok l] by simp
  then obtain n where n: "l_tree_node (locks s l) = Some n" "\<not> li_intree s n" "li_group s n = [l]"
    by (auto simp: lock_ready_def Let_def)
  have d: "distinct (lr_granted s @ lr_waiting s)" and conv: "lr_converting s = []" using ok unfolding ldlm_ok_def by blast+
  have lg: "l \<notin> set (lr_granted s)" using d l by auto
  have lw: "l \<notin> set (remove1 l (lr_waiting s))" using d by auto
  define s2 where "s2 = list_del_res l s"
  have u: "ldlm_resource_unlink_lock l s = Some s2"
    using n by (simp add: ldlm_resource_unlink_lock_def ldlm_extent_unlink_lock_def s2_def)
  have s2: "lr_granted s2 = lr_granted s" "lr_waiting s2 = remove1 l (lr_waiting s)" "lr_converting s2 = []"
    "lr_itree s2 = lr_itree s" "li_group s2 = li_group s" "li_intree s2 = li_intree s"
    "locks s2 = (locks s)(l := (locks s l)\<lparr>l_res_link := False\<rparr>)"
    using lg conv by (simp_all add: s2_def list_del_res_def remove1_idem)
  have ok2: "ldlm_ok s2"
  proof (rule ldlm_ok_cong [OF ok])
    show "distinct (lr_waiting s2)" "set (lr_waiting s2) \<subseteq> set (lr_waiting s)"
      using d s2(2) by (simp_all add: set_remove1_subset)
    fix b assume "b \<in> set (lr_granted s) \<or> b \<in> set (lr_waiting s2)"
    then have "b \<noteq> l" using lg lw s2(2) by auto
    then show "lock_core (locks s2 b) = lock_core (locks s b)" using s2(7) by simp
  qed (use s2 in simp_all)
  have trees: "\<forall>i<LCK_MODE_NUM. it_ok (lit_root (lr_itree s2 i))" using ok2 unfolding ldlm_ok_def trees_ok_def by blast
  have waits: "l_extent (locks s2 w) = l_req_extent (locks s2 w)" if "w \<in> set (lr_waiting s2)" for w
    using waiting_ready [OF ok2 that] by (simp add: lock_ready_def Let_def)
  have k: "locks s2 l = (locks s l)\<lparr>l_res_link := False\<rparr>" using s2(7) by simp
  have ready: "policy_ready (locks s2) (lr_itree s2) (lr_waiting s2) l"
    unfolding policy_ready_def k using r trees waits by (simp add: lock_ready_def Let_def lockmode_verify_def)
  have clash_same: "clear_of (lr_itree s2) (locks s2 l) I e = clear_of (lr_itree s) (locks s l) I e" for I e
    using s2(4) k by (simp add: clear_of_def)
  have "clear_of (lr_itree s2) (locks s2 l) {..<LCK_MODE_NUM} (req_extent (locks s2 l))" using cl unfolding clash_same by (simp add: k)
  from policy_facts [OF ready this, of flags] obtain q f x y where
    p: "ldlm_extent_policy (locks s2) (lr_itree s2) (lr_waiting s2) l flags = Some (q, f)"
      "q = (locks s2 l)\<lparr>l_extent := (l_extent (locks s2 l))\<lparr>le_start := x, le_end := y\<rparr>\<rparr>"
      "x \<le> le_start (l_req_extent (locks s2 l))" "le_end (l_req_extent (locks s2 l)) \<le> y"
      "clear_of (lr_itree s2) (locks s2 l) {..<LCK_MODE_NUM} \<lparr>ext_start = x, ext_end = y\<rparr>" by blast
  define s3 where "s3 = mod_lock l (\<lambda>_. q) s2"
  have ok3: "ldlm_ok s3" unfolding s3_def by (rule ok_free [OF ok2]) (use s2 lg lw in simp_all)
  have q: "l_req_mode q = l_req_mode (locks s l)" "l_tree_node q = Some n" "\<not> l_destroyed q" "\<not> l_res_link q"
    "l_req_mode q \<noteq> LCK_MINMODE" "l_cp_ast q = l_cp_ast (locks s l)" "le_start (l_extent q) = x" "le_end (l_extent q) = y" "x \<le> y"
    using p(2-4) k n(1) r by (auto simp: lock_ready_def Let_def)
  have "grantable (mod_lock l (\<lambda>k. k\<lparr>l_granted_mode := l_req_mode k\<rparr>) s3) l"
    unfolding grantable_def Let_def
  proof (intro conjI ballI impI)
    fix b assume "b \<in> set (lr_granted (mod_lock l (\<lambda>k. k\<lparr>l_granted_mode := l_req_mode k\<rparr>) s3))"
    then have b: "b \<in> set (lr_granted s)" "b \<in> set (lr_granted s2)" "b \<noteq> l" using lg by (auto simp: s3_def s2)
    assume "\<not> lockmode_compat (l_granted_mode (locks (mod_lock l (\<lambda>k. k\<lparr>l_granted_mode := l_req_mode k\<rparr>) s3) b))
      (l_req_mode (locks (mod_lock l (\<lambda>k. k\<lparr>l_granted_mode := l_req_mode k\<rparr>) s3) l))"
    then have "\<not> lockmode_compat (l_granted_mode (locks s2 b)) (l_req_mode (locks s2 l))"
      using b(3) q(1) k by (simp add: s3_def)
    then have "\<not> extent_overlapped \<lparr>ext_start = x, ext_end = y\<rparr> (range_of (l_extent (locks s2 b)))"
      using clear_of_granted [OF ok2] p(5) b(2) by blast
    then show "\<not> ldlm_extent_overlap (l_extent (locks (mod_lock l (\<lambda>k. k\<lparr>l_granted_mode := l_req_mode k\<rparr>) s3) l))
        (l_extent (locks (mod_lock l (\<lambda>k. k\<lparr>l_granted_mode := l_req_mode k\<rparr>) s3) b))"
      using b(3) q(7,8) range_overlap [of "l_extent q"] by (simp add: s3_def range_of_def)
  qed (use q n lg lw s2 in \<open>simp_all add: s3_def\<close>)
  note gr = grant_ok [OF ok3 this, of work]
  have tm: "tree_has_mode s3 l = tree_has_mode s l" using q(1) s2(4) by (simp add: tree_has_mode_def s3_def)
  have yes: "\<exists>s' w'. ldlm_grant_lock l work s3 = Some (s', w') \<and> ldlm_ok s'
    \<and> lr_granted s' = lr_granted s @ [l] \<and> lr_waiting s' = remove1 l (lr_waiting s)
    \<and> l_granted_mode (locks s' l) = l_req_mode (locks s l)
    \<and> le_start (l_extent (locks s' l)) \<le> le_start (l_req_extent (locks s l))
    \<and> le_end (l_req_extent (locks s l)) \<le> le_end (l_extent (locks s' l))" if t: "tree_has_mode s l"
  proof -
    obtain s' w' where g: "ldlm_grant_lock l work s3 = Some (s', w')" "ldlm_ok s'"
      "lr_granted s' = lr_granted s3 @ [l]" "lr_waiting s' = lr_waiting s3" "l_extent (locks s' l) = l_extent (locks s3 l)"
      "l_granted_mode (locks s' l) = l_req_mode (locks s3 l)"
      using gr cp q(6) t tm by (auto simp: s3_def)
    then show ?thesis using p(3,4) q k s2 by (intro exI [of _ s'] exI [of _ w']) (simp add: s3_def)
  qed
  have no: "\<not> tree_has_mode s l \<longrightarrow> ldlm_grant_lock l work s3 = None" using grant_fails [of s3 l] tm by simp
  show ?thesis by (intro exI [of _ s2] exI [of _ q] exI [of _ f] conjI u p(1) no [unfolded s3_def] impI yes [unfolded s3_def])
qed

section \<open>Processing a waiting lock: both outcomes\<close>

lemma ok_overlap_free: "ldlm_ok s \<Longrightarrow> overlap_free s"
  unfolding ldlm_ok_def by blast

lemma ok_contention: "ldlm_ok s \<Longrightarrow> ldlm_ok (s\<lparr>lr_contention_time := t\<rparr>)"
  by (rule ldlm_ok_cong) (auto simp: ldlm_ok_def)

lemma group_free_granted:
  assumes "ldlm_ok s"
    and "\<forall>b\<in>set (lr_granted s). \<not> lockmode_compat (l_granted_mode (locks s b)) (l_req_mode (locks s l)) \<longrightarrow> l_granted_mode (locks s b) \<noteq> LCK_GROUP"
  shows "group_free s l [0..<LCK_MODE_NUM]"
  unfolding group_free_def
proof (intro ballI impI)
  fix i assume i: "i \<in> set [0..<LCK_MODE_NUM]" "lit_mode (lr_itree s i) = LCK_GROUP"
  show "lockmode_compat (l_req_mode (locks s l)) LCK_GROUP \<or> lit_root (lr_itree s i) = Leaf"
  proof (cases "lit_root (lr_itree s i)")
    case (Node c a x b)
    then have k: "ikey x \<in> keys s i" by (intro imageI) simp
    have t: "lit_mode (lr_itree s i) = mode_at i" "\<forall>k\<in>keys s i. node_ok s (mode_at i) k"
      using assms(1) i(1) Node unfolding ldlm_ok_def trees_ok_def by auto
    then have n: "node_ok s LCK_GROUP (ikey x)" using i(2) k by metis
    then obtain g where "g \<in> set (li_group s (snd (ikey x)))" using node_member by blast
    then have "g \<in> set (lr_granted s)" "l_granted_mode (locks s g) = LCK_GROUP" using n by (auto simp: node_ok_def)
    then show ?thesis using assms(2) compat_sym by metis
  qed simp
qed

lemma reprocess_granted:
  assumes ok: "ldlm_ok s" and l: "l \<in> set (lr_waiting s)" and m: "l_req_mode (locks s l) \<noteq> LCK_GROUP"
    and cp: "work \<noteq> None \<Longrightarrow> \<not> l_cp_ast (locks s l)"
    and g: "ldlm_extent_compat_queue Q_granted l 0 s None 0 = Some (1, 0, s\<lparr>lr_contention_time := t\<rparr>, None, 0, False)"
    and w: "ldlm_extent_compat_queue Q_waiting l 0 (s\<lparr>lr_contention_time := t\<rparr>) None 0
      = Some (1, 0, s\<lparr>lr_contention_time := u\<rparr>, None, 0, False)"
    and cl: "clear_of (lr_itree s) (locks s l) {..<LCK_MODE_NUM} (req_extent (locks s l))"
  shows "tree_has_mode s l \<Longrightarrow> \<exists>s' w. ldlm_reprocess_extent_lock l 0 work s = Continue s' w \<and> ldlm_ok s' \<and> lr_granted s' = lr_granted s @ [l]
    \<and> lr_waiting s' = remove1 l (lr_waiting s) \<and> l_granted_mode (locks s' l) = l_req_mode (locks s l)
    \<and> le_start (l_extent (locks s' l)) \<le> le_start (l_req_extent (locks s l))
    \<and> le_end (l_req_extent (locks s l)) \<le> le_end (l_extent (locks s' l))"
    "\<not> tree_has_mode s l \<Longrightarrow> ldlm_reprocess_extent_lock l 0 work s = Failed_assert"
proof -
  let ?s = "s\<lparr>lr_contention_time := u\<rparr>"
  have "ldlm_ok ?s" "l \<in> set (lr_waiting ?s)" "clear_of (lr_itree ?s) (locks ?s l) {..<LCK_MODE_NUM} (req_extent (locks ?s l))"
    "work \<noteq> None \<Longrightarrow> \<not> l_cp_ast (locks ?s l)"
    using ok_contention [OF ok] l cl cp by simp_all
  from granted_after_checks [OF this, where flags = 0] obtain s2 q f where
    a: "ldlm_resource_unlink_lock l ?s = Some s2" "ldlm_extent_policy (locks s2) (lr_itree s2) (lr_waiting s2) l 0 = Some (q, f)"
      "\<not> tree_has_mode ?s l \<longrightarrow> ldlm_grant_lock l work (mod_lock l (\<lambda>_. q) s2) = None" and
    b: "tree_has_mode ?s l \<longrightarrow> (\<exists>s' work'. ldlm_grant_lock l work (mod_lock l (\<lambda>_. q) s2) = Some (s', work') \<and> ldlm_ok s'
    \<and> lr_granted s' = lr_granted ?s @ [l] \<and> lr_waiting s' = remove1 l (lr_waiting ?s)
    \<and> l_granted_mode (locks s' l) = l_req_mode (locks ?s l)
    \<and> le_start (l_extent (locks s' l)) \<le> le_start (l_req_extent (locks ?s l))
    \<and> le_end (l_req_extent (locks ?s l)) \<le> le_end (l_extent (locks s' l)))" by blast
  have tm: "tree_has_mode ?s l = tree_has_mode s l" by (simp add: tree_has_mode_def)
  have "lr_converting s = []" using ok by (simp add: ldlm_ok_def)
  then have e: "ldlm_reprocess_extent_lock l 0 work s = (case ldlm_grant_lock l work (mod_lock l (\<lambda>_. q) s2) of
      None \<Rightarrow> Failed_assert | Some (s, work) \<Rightarrow> Continue s work)"
    using g w a(1,2) by (simp add: ldlm_reprocess_extent_lock_def)
  show "\<exists>s' w. ldlm_reprocess_extent_lock l 0 work s = Continue s' w \<and> ldlm_ok s' \<and> lr_granted s' = lr_granted s @ [l]
    \<and> lr_waiting s' = remove1 l (lr_waiting s) \<and> l_granted_mode (locks s' l) = l_req_mode (locks s l)
    \<and> le_start (l_extent (locks s' l)) \<le> le_start (l_req_extent (locks s l))
    \<and> le_end (l_req_extent (locks s l)) \<le> le_end (l_extent (locks s' l))" if "tree_has_mode s l"
    using b that unfolding e tm by auto
  show "ldlm_reprocess_extent_lock l 0 work s = Failed_assert" if "\<not> tree_has_mode s l"
    using a(3) that unfolding e tm by simp
qed

lemma waiting_verify: "ldlm_ok s \<Longrightarrow> l \<in> set (lr_waiting s) \<Longrightarrow> lockmode_verify (l_req_mode (locks s l))"
  using waiting_ready [of s l] by (simp add: lock_ready_def lockmode_verify_def Let_def)

lemma reprocess_cases:
  assumes ok: "ldlm_ok s" and l: "l \<in> set (lr_waiting s)" and m: "l_req_mode (locks s l) \<noteq> LCK_GROUP"
    and w: "work \<noteq> None \<longrightarrow> \<not> l_cp_ast (locks s l)"
  shows "(\<exists>s'. ldlm_reprocess_extent_lock l 0 work s = Stop s' \<and> ldlm_ok s' \<and> lr_granted s' = lr_granted s \<and> lr_waiting s' = lr_waiting s)
    \<or> tree_has_mode s l \<and> (\<exists>s' w. ldlm_reprocess_extent_lock l 0 work s = Continue s' w \<and> ldlm_ok s' \<and> lr_granted s' = lr_granted s @ [l]
    \<and> lr_waiting s' = remove1 l (lr_waiting s) \<and> l_granted_mode (locks s' l) = l_req_mode (locks s l)
    \<and> le_start (l_extent (locks s' l)) \<le> le_start (l_req_extent (locks s l))
    \<and> le_end (l_req_extent (locks s l)) \<le> le_end (l_extent (locks s' l)))
    \<or> \<not> tree_has_mode s l \<and> ldlm_reprocess_extent_lock l 0 work s = Failed_assert
      \<and> group_free s l [0..<LCK_MODE_NUM] \<and> clear_of (lr_itree s) (locks s l) {..<LCK_MODE_NUM} (req_extent (locks s l))"
proof -
  have cp: "work \<noteq> None \<Longrightarrow> \<not> l_cp_ast (locks s l)" using w by blast
  note v = waiting_verify [OF ok l]
  have conv: "lr_converting s = []" using ok by (simp add: ldlm_ok_def)
  note g = queue_granted_plain [OF m v]
  show ?thesis
  proof (cases "group_free s l [0..<LCK_MODE_NUM] \<and> clear_of (lr_itree s) (locks s l) {..<LCK_MODE_NUM} (req_extent (locks s l))")
    case True
    obtain t where t: "ldlm_extent_compat_queue Q_granted l 0 s None 0 = Some (1, 0, s\<lparr>lr_contention_time := t\<rparr>, None, 0, False)"
      using g unfolding if_P [OF True] by blast
    let ?s = "s\<lparr>lr_contention_time := t\<rparr>"
    from queue_waiting_plain [of ?s l] m v
    consider u where "ldlm_extent_compat_queue Q_waiting l 0 ?s None 0 = Some (1, 0, s\<lparr>lr_contention_time := u\<rparr>, None, 0, False)"
      | f where "ldlm_extent_compat_queue Q_waiting l 0 ?s None 0 = Some (0, f, ?s, None, 0, False)"
      by auto
    then show ?thesis
    proof cases
      case 1
      from reprocess_granted [OF ok l m cp t 1] True show ?thesis by (cases "tree_has_mode s l") blast+
    next
      case 2
      then have "ldlm_reprocess_extent_lock l 0 work s = Stop ?s"
        using t conv by (simp add: ldlm_reprocess_extent_lock_def)
      then show ?thesis using ok_contention [OF ok, of t] by (intro disjI1 exI [of _ ?s]) simp
    qed
  next
    case False
    obtain f where "ldlm_extent_compat_queue Q_granted l 0 s None 0 = Some (0, f, s, None, 0, False)"
      using g unfolding if_not_P [OF False] by blast
    then have "ldlm_reprocess_extent_lock l 0 work s = Stop s"
      using conv by (simp add: ldlm_reprocess_extent_lock_def)
    then show ?thesis using ok by blast
  qed
qed

lemma head_granted:
  assumes ok: "ldlm_ok s" and h: "lr_waiting s = l # ws" and m: "l_req_mode (locks s l) \<noteq> LCK_GROUP"
    and cp: "work \<noteq> None \<Longrightarrow> \<not> l_cp_ast (locks s l)"
    and free: "\<forall>b\<in>set (lr_granted s). \<not> lockmode_compat (l_granted_mode (locks s b)) (l_req_mode (locks s l)) \<longrightarrow>
      \<not> ldlm_extent_overlap (l_req_extent (locks s l)) (l_extent (locks s b)) \<and> l_granted_mode (locks s b) \<noteq> LCK_GROUP"
  shows "if tree_has_mode s l
    then \<exists>s' w. ldlm_reprocess_extent_lock l 0 work s = Continue s' w \<and> lr_granted s' = lr_granted s @ [l] \<and> lr_waiting s' = ws
    else ldlm_reprocess_extent_lock l 0 work s = Failed_assert"
proof -
  have l: "l \<in> set (lr_waiting s)" using h by simp
  note v = waiting_verify [OF ok l]
  have "range_of (l_req_extent (locks s l)) = req_extent (locks s l)" by (simp add: range_of_def)
  then have cl: "clear_of (lr_itree s) (locks s l) {..<LCK_MODE_NUM} (req_extent (locks s l))"
    using clear_of_granted [OF ok, of "locks s l" "req_extent (locks s l)"] free range_overlap by metis
  have gf: "group_free s l [0..<LCK_MODE_NUM]" by (rule group_free_granted [OF ok]) (use free in blast)
  obtain t where t: "ldlm_extent_compat_queue Q_granted l 0 s None 0 = Some (1, 0, s\<lparr>lr_contention_time := t\<rparr>, None, 0, False)"
    using queue_granted_plain [OF m v] unfolding if_P [OF conjI [OF gf cl]] by blast
  have "lockmode_verify (l_req_mode (locks (s\<lparr>lr_contention_time := t\<rparr>) l))" "lr_waiting (s\<lparr>lr_contention_time := t\<rparr>) = l # ws"
    using v h by simp_all
  from queue_waiting_head [OF this] obtain u where
    "ldlm_extent_compat_queue Q_waiting l 0 (s\<lparr>lr_contention_time := t\<rparr>) None 0 = Some (1, 0, s\<lparr>lr_contention_time := u\<rparr>, None, 0, False)"
    by auto
  from reprocess_granted [where work = work, OF ok l m cp t this cl] show ?thesis using h by auto
qed

section \<open>A concrete resource\<close>

text \<open>Lock 0 reads the third page, lock 1 waits to write the first one.\<close>

definition demo_lock :: "ldlm_mode \<Rightarrow> ldlm_mode \<Rightarrow> u64 \<Rightarrow> u64 \<Rightarrow> nat \<Rightarrow> ldlm_lock" where
  "demo_lock m g a b n = \<lparr>l_refc = 3, l_req_mode = m, l_granted_mode = g, l_extent = \<lparr>le_start = a, le_end = b, le_gid = 0\<rparr>,
     l_req_extent = \<lparr>le_start = a, le_end = b, le_gid = 0\<rparr>, l_flags = 0, l_readers = 0, l_writers = 0, l_destroyed = False,
     l_export = Some 0, l_tree_node = Some n, l_res_link = True, l_lru = False, l_bl_ast = False, l_cp_ast = False,
     l_bl_ast_run = 0, l_blocking_ast = True, l_completion_ast = True, l_blocking_lock = None\<rparr>"

definition demo_resource :: ldlm_resource where
  "demo_resource = \<lparr>locks = (\<lambda>l. if l = 0 then demo_lock LCK_PR LCK_PR 8192 12287 0 else demo_lock LCK_PW LCK_MINMODE 0 4095 l),
     lr_granted = [0], lr_converting = [], lr_waiting = [1], lr_most_restr = LCK_PR,
     lr_itree = (\<lambda>i. \<lparr>lit_size = (if i = 2 then 1 else 0), lit_mode = mode_at i,
       lit_root = (if i = 2 then Node Black Leaf \<lparr>in_extent = \<lparr>ext_start = 8192, ext_end = 12287\<rparr>, in_max_high = 12287,
         in_intree = True, in_id = 0\<rparr> Leaf else Leaf)\<rparr>),
     li_group = (\<lambda>n. [n]), li_intree = (\<lambda>n. n = 0), lr_contention_time = 0, lr_refcount = 3,
     ns_contended_locks = 32, ns_contention_time = 2, ns_max_nolock_size = 0, ns_locks = 2, ns_unused_list = [],
     ns_nr_unused = 0, ns_client = False, clock = 1000, time_unit = 1\<rparr>"

lemma demo_ok: "ldlm_ok demo_resource"
proof -
  have k: "keys demo_resource i = (if i = 2 then {(\<lparr>ext_start = 8192, ext_end = 12287\<rparr>, 0)} else {})" for i
    by (simp add: demo_resource_def ikey_def)
  have "it_ok (Node Black Leaf x Leaf)" if "interval_low x \<le> interval_high x" "in_max_high x = interval_high x" for x
    using that by (auto simp: it_ok_def tree_ok_def intro!: exI [of _ "Suc 0"])
  moreover have "it_ok Leaf" by (auto simp: it_ok_def tree_ok_def)
  ultimately have "it_ok (lit_root (lr_itree demo_resource i))" for i
    by (simp add: demo_resource_def interval_low_def interval_high_def)
  moreover have "node_ok demo_resource LCK_PR (\<lparr>ext_start = 8192, ext_end = 12287\<rparr>, 0)"
    by (simp add: node_ok_def demo_resource_def demo_lock_def range_of_def)
  ultimately have "trees_ok demo_resource" unfolding trees_ok_def k by (simp add: mode_at_def) (simp add: demo_resource_def mode_at_def)
  moreover have "overlap_free demo_resource" by (simp add: overlap_free_def demo_resource_def)
  moreover have "lock_ready demo_resource 1 \<and> l_res_link (locks demo_resource 1)"
    by (simp add: lock_ready_def demo_resource_def demo_lock_def)
  moreover have "\<forall>l\<in>set (lr_granted demo_resource). \<exists>i<LCK_MODE_NUM. \<exists>k\<in>keys demo_resource i. l \<in> set (li_group demo_resource (snd k))"
    unfolding k by (simp add: demo_resource_def LCK_MODE_NUM_def)
  moreover have "\<forall>n. li_intree demo_resource n \<longrightarrow> (\<exists>i<LCK_MODE_NUM. n \<in> snd ` keys demo_resource i)"
    unfolding k by (simp add: demo_resource_def LCK_MODE_NUM_def)
  ultimately show ?thesis unfolding ldlm_ok_def by (simp add: demo_resource_def)
qed

text \<open>A resource as ldlm_resource_new makes it, with lock 1 waiting: it is in
  order, and no tree of it has a mode.\<close>

definition demo_new :: ldlm_resource where
  "demo_new = (ldlm_resource_new (demo_resource\<lparr>li_intree := (\<lambda>n. False)\<rparr>))\<lparr>lr_waiting := [1]\<rparr>"

lemma new_has_no_mode: "l_req_mode (locks s l) \<noteq> LCK_MINMODE \<Longrightarrow> \<not> tree_has_mode (ldlm_resource_new s) l"
  using mode_at_index [of "l_req_mode (locks s l)"] by (auto simp: tree_has_mode_def ldlm_resource_new_def)

lemma new_resource_ok:
  assumes "\<And>n. \<not> li_intree s n"
  shows "ldlm_ok (ldlm_resource_new s)"
proof -
  have "it_ok Leaf" by (auto simp: it_ok_def tree_ok_def)
  then show ?thesis using assms by (simp add: ldlm_ok_def trees_ok_def overlap_free_def ldlm_resource_new_def)
qed

lemma demo_new_ok: "ldlm_ok demo_new"
proof -
  have "ldlm_ok (ldlm_resource_new (demo_resource\<lparr>li_intree := (\<lambda>n. False)\<rparr>))" by (rule new_resource_ok) simp
  then show ?thesis
    by (simp add: ldlm_ok_def demo_new_def trees_ok_def overlap_free_def ldlm_resource_new_def lock_ready_def node_ok_def)
      (simp add: demo_resource_def demo_lock_def)
qed

lemma demo_modes: "tree_has_mode demo_resource 1" "\<not> tree_has_mode demo_new 1"
  by (simp_all add: tree_has_mode_def demo_new_def ldlm_resource_new_def)
    (simp_all add: demo_resource_def demo_lock_def index_of_mode mode_at_def)

section \<open>Properties of the queues\<close>





section \<open>Matching and enqueueing\<close>

text \<open>What ldlm_lock_match looks for: a lock that still may be used, of one of
  the modes, that covers the extent.\<close>

definition usable :: "u32 \<Rightarrow> ldlm_extent \<Rightarrow> u64 \<Rightarrow> ldlm_lock \<Rightarrow> bool" where
  "usable mode policy flags k \<longleftrightarrow>
     (has (l_flags k) LDLM_FL_CBPENDING \<longrightarrow> has flags LDLM_FL_CBPENDING \<and> \<not> (l_readers k = 0 \<and> l_writers k = 0))
     \<and> mode_bits (l_req_mode k) AND mode \<noteq> 0
     \<and> le_start (l_extent k) \<le> le_start policy \<and> le_end policy \<le> le_end (l_extent k)
     \<and> (l_req_mode k = LCK_GROUP \<longrightarrow> le_gid (l_extent k) = le_gid policy)
     \<and> \<not> l_destroyed k \<and> \<not> has (l_flags k) LDLM_FL_FAILED
     \<and> (has flags LDLM_FL_LOCAL_ONLY \<longrightarrow> has (l_flags k) LDLM_FL_LOCAL)"

lemma search_queue_find:
  "search_queue q mode policy None flags s = Some (f, s') \<Longrightarrow>
    f = find (\<lambda>l. usable mode policy flags (locks s l)) q \<and> (f = None \<longrightarrow> s' = s)"
proof (induction q)
  case (Cons l q)
  have c: "(has (l_flags (locks s l)) LDLM_FL_CBPENDING \<and> \<not> has flags LDLM_FL_CBPENDING
           \<or> has (l_flags (locks s l)) LDLM_FL_CBPENDING \<and> l_readers (locks s l) = 0 \<and> l_writers (locks s l) = 0
           \<or> mode_bits (l_req_mode (locks s l)) AND mode = 0
           \<or> le_start (l_extent (locks s l)) > le_start policy \<or> le_end (l_extent (locks s l)) < le_end policy
           \<or> l_req_mode (locks s l) = LCK_GROUP \<and> le_gid (l_extent (locks s l)) \<noteq> le_gid policy
           \<or> l_destroyed (locks s l) \<or> has (l_flags (locks s l)) LDLM_FL_FAILED
           \<or> has flags LDLM_FL_LOCAL_ONLY \<and> \<not> has (l_flags (locks s l)) LDLM_FL_LOCAL)
      = (\<not> usable mode policy flags (locks s l))"
    by (auto simp: usable_def not_le)
  have e: "search_queue (l # q) mode policy None flags s =
    (if \<not> usable mode policy flags (locks s l) then search_queue q mode policy None flags s
     else map_option (\<lambda>s. (Some l, s))
        (if has flags LDLM_FL_TEST_LOCK then ldlm_lock_touch_in_lru l (ldlm_lock_get l s)
         else ldlm_lock_addref_internal l (l_req_mode (locks s l)) s))"
    unfolding search_queue.simps Let_def c by simp
  show ?case
  proof (cases "usable mode policy flags (locks s l)")
    case True
    then show ?thesis using Cons.prems unfolding e by (auto split: if_splits)
  next
    case False
    then show ?thesis using Cons.IH Cons.prems unfolding e by simp
  qed
qed simp

lemma find_append: "find P (xs @ ys) = (case find P xs of None \<Rightarrow> find P ys | Some x \<Rightarrow> Some x)"
  by (induction xs) auto

text \<open>C35 The answer of ldlm_lock_match is the first usable lock in the
  order granted, converting, waiting (only the granted ones with
  LDLM_FL_BLOCK_GRANTED): it covers the extent, has one of the modes and is
  neither destroyed nor failed; and when there is none, no lock is found.\<close>

theorem lock_match_first_usable:
  assumes "ldlm_lock_match flags policy mode s = Some (f, s')"
  shows "f = find (\<lambda>l. usable mode policy flags (locks s l))
    (if has flags LDLM_FL_BLOCK_GRANTED then lr_granted s else lr_granted s @ lr_converting s @ lr_waiting s)"
proof -
  obtain f1 s1 where 1: "search_queue (lr_granted s) mode policy None flags s = Some (f1, s1)"
    using assms by (auto simp: ldlm_lock_match_def Option.bind_eq_Some_conv)
  note f1 = search_queue_find [OF 1]
  have out: "f = f2" if "(case f2 of None \<Rightarrow> Some (None, s2)
     | Some l \<Rightarrow> if has flags LDLM_FL_TEST_LOCK then map_option (\<lambda>s. (f2, s)) (ldlm_lock_put l s2) else Some (f2, s2)) = Some (f, s')" for f2 s2
    using that by (auto split: option.splits if_splits)
  show ?thesis
  proof (cases "f1 = None")
    case False
    then obtain l where l: "f1 = Some l" by blast
    have "f = f1" using assms 1 l by (intro out [of s1 f1]) (auto simp: ldlm_lock_match_def split: if_splits)
    moreover have "find (\<lambda>l. usable mode policy flags (locks s l)) (lr_granted s) = Some l" using f1 l by simp
    ultimately show ?thesis using l by (simp add: find_append)
  next
    case none: True
    then have s1: "s1 = s" using f1 by simp
    show ?thesis
    proof (cases "has flags LDLM_FL_BLOCK_GRANTED")
      case True
      then have "f = None" using assms 1 none by (simp add: ldlm_lock_match_def)
      then show ?thesis using True none f1 by simp
    next
      case False
      obtain f2 s2 where 2: "search_queue (lr_converting s) mode policy None flags s = Some (f2, s2)"
        using assms 1 none s1 False by (auto simp: ldlm_lock_match_def Option.bind_eq_Some_conv)
      note f2 = search_queue_find [OF 2]
      have "find (\<lambda>l. usable mode policy flags (locks s l)) (lr_granted s) = None" using f1 none by simp
      then have fa: "find (\<lambda>l. usable mode policy flags (locks s l)) (lr_granted s @ lr_converting s @ lr_waiting s)
        = (case f2 of None \<Rightarrow> find (\<lambda>l. usable mode policy flags (locks s l)) (lr_waiting s) | Some x \<Rightarrow> Some x)"
        using f2 by (simp add: find_append)
      show ?thesis
      proof (cases f2)
        case (Some l)
        have "f = f2" using assms 1 2 none s1 False Some by (intro out [of s2 f2]) (auto simp: ldlm_lock_match_def split: if_splits)
        then show ?thesis using fa False Some by simp
      next
        case f2n: None
        then have s2: "s2 = s" using f2 by simp
        obtain f3 s3 where 3: "search_queue (lr_waiting s) mode policy None flags s = Some (f3, s3)"
          using assms 1 2 none f2n s1 s2 False by (auto simp: ldlm_lock_match_def Option.bind_eq_Some_conv)
        have "f = f3" using assms 1 2 3 none f2n s1 s2 False by (intro out [of s3 f3]) (auto simp: ldlm_lock_match_def split: if_splits)
        then show ?thesis using fa False f2n search_queue_find [OF 3] by simp
      qed
    qed
  qed
qed

theorem lock_match_first_usable_witness:
  "map_option fst (ldlm_lock_match 0 \<lparr>le_start = 9000, le_end = 9999, le_gid = 0\<rparr> 4 demo_resource) = Some (Some 0)"
proof -
  let ?r = "ldlm_lock_match 0 \<lparr>le_start = 9000, le_end = 9999, le_gid = 0\<rparr> 4 demo_resource"
  have u: "usable 4 \<lparr>le_start = 9000, le_end = 9999, le_gid = 0\<rparr> 0 (locks demo_resource 0)"
    by (simp add: usable_def demo_resource_def demo_lock_def)
  have "?r \<noteq> None"
    by (simp add: ldlm_lock_match_def demo_resource_def demo_lock_def ldlm_lock_addref_internal_def
      ldlm_lock_remove_from_lru_def flag_defs)
  then obtain f s' where r: "?r = Some (f, s')" by auto
  then show ?thesis using lock_match_first_usable [OF r] u by (simp add: demo_resource_def)
qed

text \<open>Enqueueing an extent lock that has no interval node does not queue
  it: the lock is taken off its lists, destroyed, loses a reference, and the
  caller gets ENOMEM.  (The node the function would attach is never set.)\<close>

theorem enqueue_without_node:
  assumes "l_tree_node (locks s l) = None" "\<not> (ns_client s \<and> l_req_mode (locks s l) = l_granted_mode (locks s l))"
    and "\<not> l_destroyed (locks s l)" "\<not> l_lru (locks s l)" "1 < l_refc (locks s l)"
  shows "\<exists>s'. ldlm_lock_enqueue ast fuel l flags s = Done (- ENOMEM) flags s' \<and> l_destroyed (locks s' l)
    \<and> l_refc (locks s' l) = l_refc (locks s l) - 1 \<and> lr_waiting s' = remove1 l (lr_waiting s)
    \<and> lr_granted s' = remove1 l (lr_granted s) \<and> lr_itree s' = lr_itree s"
  using assms by (simp add: ldlm_lock_enqueue_def ldlm_resource_unlink_lock_def ldlm_extent_unlink_lock_def list_del_res_def
    ldlm_lock_destroy_def ldlm_lock_remove_from_lru_def ldlm_lock_put_def Let_def)

theorem enqueue_without_node_witness:
  "\<exists>s'. ldlm_lock_enqueue (\<lambda>l b s. (s, False)) 1 1 0
     (mod_lock 1 (\<lambda>k. k\<lparr>l_tree_node := None\<rparr>) demo_resource) = Done (- ENOMEM) 0 s' \<and> l_destroyed (locks s' 1)"
  using enqueue_without_node [of "mod_lock 1 (\<lambda>k. k\<lparr>l_tree_node := None\<rparr>) demo_resource" 1 "\<lambda>l b s. (s, False)" 1 0]
  by (auto simp: demo_resource_def demo_lock_def mod_lock_def)

section \<open>Properties of modes and of the policy\<close>

text \<open>The compatibility of modes is symmetric, every mode but
  LCK_MINMODE is compatible with LCK_NL, exclusive locks are compatible with
  nothing else, and the index of a mode is the position of its bit, below
  LCK_MODE_NUM and different for different modes.\<close>

theorem lock_modes_table:
  "(\<forall>a b. lockmode_compat a b = lockmode_compat b a)
   \<and> (\<forall>a. lockmode_compat a LCK_NL = lockmode_verify a) \<and> (\<forall>a. lockmode_compat LCK_EX a = (a = LCK_NL))
   \<and> (\<forall>a. lockmode_compat LCK_GROUP a = (a = LCK_GROUP \<or> a = LCK_NL))
   \<and> (\<forall>a. lock_mode_to_index a = None \<longleftrightarrow> a = LCK_MINMODE)
   \<and> (\<forall>a i. lock_mode_to_index a = Some i \<longrightarrow> i < LCK_MODE_NUM \<and> mode_bits a = 2 ^ i)"
proof (intro conjI allI)
  fix a b :: ldlm_mode and i
  show "lockmode_compat a b = lockmode_compat b a" by (rule compat_sym)
  show "lockmode_compat a LCK_NL = lockmode_verify a" by (cases a) (simp_all add: lockmode_compat_def lockmode_verify_def)
  show "lockmode_compat LCK_EX a = (a = LCK_NL)" by (cases a) (simp_all add: lockmode_compat_def)
  show "lockmode_compat LCK_GROUP a = (a = LCK_GROUP \<or> a = LCK_NL)" by (cases a) (simp_all add: lockmode_compat_def)
  show "lock_mode_to_index a = None \<longleftrightarrow> a = LCK_MINMODE" by (cases a) (simp_all add: index_of_mode)
  show "lock_mode_to_index a = Some i \<longrightarrow> i < LCK_MODE_NUM \<and> mode_bits a = 2 ^ i"
    by (cases a) (auto simp: index_of_mode LCK_MODE_NUM_def)
qed

theorem lock_modes_table_witness:
  "lockmode_compat LCK_PR LCK_CR = lockmode_compat LCK_CR LCK_PR \<and> lock_mode_to_index LCK_PW = Some 1
    \<and> 1 < LCK_MODE_NUM \<and> mode_bits LCK_PW = 2 ^ 1"
proof -
  have i: "lock_mode_to_index LCK_PW = Some 1" by (simp add: index_of_mode)
  show ?thesis using lock_modes_table i by blast
qed

lemma clear_of_nodes:
  assumes "\<forall>i<LCK_MODE_NUM. it_ok (lit_root (T i))" "clear_of T q {..<LCK_MODE_NUM} e"
    and "i < LCK_MODE_NUM" "\<not> lockmode_compat (lit_mode (T i)) (l_req_mode q)" "x \<in> set (inord (lit_root (T i)))"
  shows "\<not> extent_overlapped e (in_extent x)"
proof -
  have "it_ok (lit_root (T i))" "\<not> interval_is_overlapped (lit_root (T i)) e" using assms by (auto simp: clear_of_def)
  then show ?thesis using overlapped_iff assms(5) by blast
qed

text \<open>C20 The extent policy never fails an assertion for a page-aligned
  request that overlaps no granted lock of an incompatible mode.  It changes
  only the extent of the lock, which still contains the request, and the grown
  extent still overlaps no granted lock of an incompatible mode.\<close>

theorem extent_policy_safe:
  assumes "policy_ready L T ws r" "clear_of T (L r) {..<LCK_MODE_NUM} (req_extent (L r))"
  shows "\<exists>s e flags'. ldlm_extent_policy L T ws r flags =
      Some ((L r)\<lparr>l_extent := (l_extent (L r))\<lparr>le_start := s, le_end := e\<rparr>\<rparr>, flags')
    \<and> s \<le> le_start (l_req_extent (L r)) \<and> le_end (l_req_extent (L r)) \<le> e
    \<and> (\<forall>i<LCK_MODE_NUM. \<not> lockmode_compat (lit_mode (T i)) (l_req_mode (L r)) \<longrightarrow>
        (\<forall>x\<in>set (inord (lit_root (T i))). \<not> extent_overlapped \<lparr>ext_start = s, ext_end = e\<rparr> (in_extent x)))"
proof -
  obtain q f s e where p: "ldlm_extent_policy L T ws r flags = Some (q, f)"
    "q = (L r)\<lparr>l_extent := (l_extent (L r))\<lparr>le_start := s, le_end := e\<rparr>\<rparr>"
    "s \<le> le_start (l_req_extent (L r))" "le_end (l_req_extent (L r)) \<le> e"
    "clear_of T (L r) {..<LCK_MODE_NUM} \<lparr>ext_start = s, ext_end = e\<rparr>"
    using policy_facts [OF assms, of flags] by blast
  have "\<forall>i<LCK_MODE_NUM. it_ok (lit_root (T i))" using assms(1) by (simp add: policy_ready_def)
  then show ?thesis using p(1-4) clear_of_nodes [OF _ p(5)] by (intro exI [of _ s] exI [of _ e] exI [of _ f]) blast
qed

theorem extent_policy_safe_witness:
  "\<exists>s e flags'. ldlm_extent_policy (\<lambda>l. demo_lock LCK_PW LCK_MINMODE 0 4095 l)
      (\<lambda>i. \<lparr>lit_size = 0, lit_mode = mode_at i, lit_root = Leaf\<rparr>) [1] 1 0 =
      Some ((demo_lock LCK_PW LCK_MINMODE 0 4095 1)\<lparr>l_extent := \<lparr>le_start = s, le_end = e, le_gid = 0\<rparr>\<rparr>, flags')
    \<and> s \<le> 0 \<and> 4095 \<le> e"
proof -
  let ?L = "\<lambda>l. demo_lock LCK_PW LCK_MINMODE 0 4095 l"
  let ?T = "\<lambda>i. \<lparr>lit_size = 0, lit_mode = mode_at i, lit_root = Leaf\<rparr>"
  have "it_ok Leaf" by (auto simp: it_ok_def tree_ok_def)
  moreover from this have "\<not> interval_is_overlapped Leaf ex" for ex using overlapped_iff by simp
  ultimately have a: "policy_ready ?L ?T [1] 1" "clear_of ?T (?L 1) {..<LCK_MODE_NUM} (req_extent (?L 1))"
    by (simp_all add: policy_ready_def clear_of_def lockmode_verify_def demo_lock_def)
  show ?thesis using extent_policy_safe [OF a, of 0] by (auto simp: demo_lock_def)
qed

text \<open>C36 The loop of the fix-up that looks for the alignment of a request
  ends exactly when some bit of it from the twelfth on is set.  For a request
  inside the first page of a file it runs for ever.\<close>

theorem align_loop_ends_iff:
  "align_loop al 0x1000 \<noteq> None \<longleftrightarrow> al AND NOT 0xFFF \<noteq> 0"
proof
  assume a: "align_loop al 0x1000 \<noteq> None"
  have "\<exists>i. 12 \<le> i \<and> bit al i"
  proof (rule ccontr)
    assume n: "\<nexists>i. 12 \<le> i \<and> bit al i"
    have "\<not> bit al i" if "12 \<le> i" for i using n that by blast
    from align_loop_diverges [OF this] a show False by contradiction
  qed
  then obtain i where i: "12 \<le> i" "bit al i" by (elim exE conjE)
  have "bit al i \<Longrightarrow> i < 64" using bit_imp_le_length [of al i] by simp
  then have "bit (al AND NOT 0xFFF) i" using i by (simp add: mask12 bit_and_iff bit_not_iff bit_mask_iff)
  then show "al AND NOT 0xFFF \<noteq> 0" by (metis bit_0_eq bot_apply bot_bool_def)
next
  assume "al AND NOT 0xFFF \<noteq> 0"
  then obtain j where "bit (al AND NOT (mask 12)) j" unfolding mask12 by (auto simp: bit_eq_iff)
  then have j: "bit al j" "12 \<le> j" by (auto simp: bit_and_iff bit_not_iff bit_mask_iff not_less)
  define k where "k = (LEAST i. 12 \<le> i \<and> bit al i)"
  have k: "12 \<le> k" "bit al k" using LeastI [of "\<lambda>i. 12 \<le> i \<and> bit al i" j] j unfolding k_def by auto
  have less: "\<not> bit al i" if "12 \<le> i" "i < k" for i using not_less_Least [of i "\<lambda>i. 12 \<le> i \<and> bit al i"] that unfolding k_def by blast
  have "align_loop al (push_bit n 1) = Some (push_bit k 1)" if "12 \<le> n" "n \<le> k" for n
    using that(2,1) less k by (intro align_loop_from) auto
  from this [of 12] have "align_loop al 0x1000 = Some (push_bit k 1)" using k(1) by simp
  then show "align_loop al 0x1000 \<noteq> None" by simp
qed

end
