(* ===== verification/Elevator.thy ===== *)
theory Elevator
  imports RbTree
begin

text \<open>
  The request elevator of a disk, src/lustre/elevator.cpp: the base class that
  merges I/O requests, hashes them by their end and hands them to a concrete
  elevator.  The virtual methods are the fields of a record; the two concrete
  elevators are in theory ElvKinds.  Requests are known by numbers, their
  fields are in a store.  \<open>None\<close> is a failing assertion, a dereference of
  a pointer that is not set, or a loop that does not end.
\<close>

section \<open>Requests\<close>

datatype rw = READ | WRITE

record ioreq =
  io_id :: nat
  io_cmd :: rw
  io_off :: u64
  io_count :: u64

text \<open>\<open>rq_hashed\<close> is ELV_ON_HASH.  The completion function is the one
  Enqueue sets.\<close>

record request =
  rq_cmd :: rw
  rq_off :: u64
  rq_count :: u64
  rq_time :: cfs_time
  rq_flags :: u32
  rq_batch :: "ioreq list"
  rq_hashed :: bool

definition REQ_SORTED :: u32 where "REQ_SORTED = 1"
definition REQ_SOFTBARRIER :: u32 where "REQ_SOFTBARRIER = 2"
definition REQ_HARDBARRIER :: u32 where "REQ_HARDBARRIER = 4"
definition REQ_STARTED :: u32 where "REQ_STARTED = 8"

definition rq_hash_key :: "request \<Rightarrow> u64" where
  "rq_hash_key rq = rq_off rq + rq_count rq"

text \<open>The macro of elevator.h adds the offset twice.\<close>

definition rq_end_pos :: "request \<Rightarrow> u64" where
  "rq_end_pos rq = rq_off rq + rq_off rq"

text \<open>hash_long of hash.h, with 64 bit longs.\<close>

definition hash_long :: "u64 \<Rightarrow> nat \<Rightarrow> u64" where
  "hash_long val bits =
     (let hash = val; n = hash;
          n = push_bit 18 n; hash = hash - n;
          n = push_bit 33 n; hash = hash - n;
          n = push_bit 3 n;  hash = hash + n;
          n = push_bit 3 n;  hash = hash - n;
          n = push_bit 4 n;  hash = hash + n;
          n = push_bit 2 n;  hash = hash + n
      in drop_bit (64 - bits) hash)"

section \<open>State\<close>

record elevator =
  reqs :: "nat \<Rightarrow> request"
  fresh_rq :: nat                  \<comment> \<open>the next number for \<open>new request\<close>\<close>
  elv_hash :: "u64 \<Rightarrow> nat list"
  disp :: "nat list"               \<comment> \<open>Queue\<close>
  elv_count :: "rw \<Rightarrow> int"
  elv_sorted :: u64
  inflight :: u64
  unplug_threshold :: u64
  maxsize :: u64
  endpos :: u64
  boundary :: "nat option"
  last_rq :: "nat option"
  hash_shift :: nat

definition mod_rq :: "nat \<Rightarrow> (request \<Rightarrow> request) \<Rightarrow> 'a elevator_scheme \<Rightarrow> 'a elevator_scheme" where
  "mod_rq r f e = e\<lparr>reqs := (reqs e)(r := f (reqs e r))\<rparr>"

definition GetPendingNum :: "'a elevator_scheme \<Rightarrow> u64" where
  "GetPendingNum e = word_of_int (elv_count e READ) + word_of_int (elv_count e WRITE) - inflight e"

section \<open>The hash of request ends\<close>

definition ELV_HASH_FN :: "'a elevator_scheme \<Rightarrow> u64 \<Rightarrow> u64" where
  "ELV_HASH_FN e off = hash_long off (hash_shift e)"

definition elv_rqhash_find :: "u64 \<Rightarrow> 'a elevator_scheme \<Rightarrow> nat option" where
  "elv_rqhash_find off e = find (\<lambda>r. rq_hash_key (reqs e r) = off) (elv_hash e (ELV_HASH_FN e off))"

definition elv_rqhash_del :: "nat \<Rightarrow> 'a elevator_scheme \<Rightarrow> 'a elevator_scheme" where
  "elv_rqhash_del r e =
     (if rq_hashed (reqs e r)
      then (mod_rq r (\<lambda>q. q\<lparr>rq_hashed := False\<rparr>) e)\<lparr>elv_hash := (\<lambda>b. remove1 r (elv_hash e b))\<rparr> else e)"

definition elv_rqhash_add :: "nat \<Rightarrow> 'a elevator_scheme \<Rightarrow> 'a elevator_scheme option" where
  "elv_rqhash_add r e =
     (if rq_hashed (reqs e r) then None
      else let b = ELV_HASH_FN e (rq_hash_key (reqs e r)) in
        Some ((mod_rq r (\<lambda>q. q\<lparr>rq_hashed := True\<rparr>) e)\<lparr>elv_hash := (elv_hash e)(b := r # elv_hash e b)\<rparr>))"

definition elv_rqhash_reposition :: "nat \<Rightarrow> 'a elevator_scheme \<Rightarrow> 'a elevator_scheme option" where
  "elv_rqhash_reposition r e = elv_rqhash_add r (elv_rqhash_del r e)"

section \<open>Trees of requests sorted by offset\<close>

text \<open>The walk of elv_rb_add and elv_rb_find: an entry with the offset, or the
  place for a new one.\<close>

fun elv_rb_walk :: "(nat \<Rightarrow> request) \<Rightarrow> u64 \<Rightarrow> nat rbt \<Rightarrow> nat path \<Rightarrow> nat + nat path" where
  "elv_rb_walk R off Leaf p = Inr p"
| "elv_rb_walk R off (Node c l x r) p =
     (if off < rq_off (R x) then elv_rb_walk R off l (FL c x r # p)
      else if off > rq_off (R x) then elv_rb_walk R off r (FR c l x # p)
      else Inl x)"

text \<open>The first component is the entry with the same offset, and then the
  tree is as it was.\<close>

definition elv_rb_add :: "(nat \<Rightarrow> request) \<Rightarrow> nat \<Rightarrow> nat rbtree \<Rightarrow> (nat option \<times> nat rbtree) option" where
  "elv_rb_add R rq T =
     (case elv_rb_walk R (rq_off (R rq)) (rb_root T) [] of
        Inl x \<Rightarrow> Some (Some x, T)
      | Inr p \<Rightarrow>
          map_option (\<lambda>(t, p). (None, T\<lparr>rb_root := rb_set_black (zip_up t p)\<rparr>))
            (rb_insert_color (Node Red Leaf rq Leaf) p))"

definition elv_rb_del :: "nat \<Rightarrow> nat rbtree \<Rightarrow> nat rbtree option" where
  "elv_rb_del rq T = rb_erase rq T"

definition elv_rb_find :: "(nat \<Rightarrow> request) \<Rightarrow> u64 \<Rightarrow> nat rbtree \<Rightarrow> nat option" where
  "elv_rb_find R off T = (case elv_rb_walk R off (rb_root T) [] of Inl x \<Rightarrow> Some x | Inr p \<Rightarrow> None)"

section \<open>Merging\<close>

datatype merge = NO_MERGE | FRONT_MERGE | BACK_MERGE

text \<open>The virtual methods; AddRequest is given the clock.\<close>

record 'a elv_ops =
  v_merge :: "ioreq \<Rightarrow> 'a elevator_scheme \<Rightarrow> merge \<times> nat option"
  v_dispatch :: "'a elevator_scheme \<Rightarrow> (bool \<times> 'a elevator_scheme) option"
  v_add :: "cfs_time \<Rightarrow> nat \<Rightarrow> 'a elevator_scheme \<Rightarrow> 'a elevator_scheme option"
  v_empty :: "'a elevator_scheme \<Rightarrow> bool"
  v_former :: "nat \<Rightarrow> 'a elevator_scheme \<Rightarrow> nat option option"
  v_latter :: "nat \<Rightarrow> 'a elevator_scheme \<Rightarrow> nat option option"
  v_merge_requests :: "nat \<Rightarrow> nat \<Rightarrow> 'a elevator_scheme \<Rightarrow> 'a elevator_scheme option"
  v_merged_request :: "nat \<Rightarrow> merge \<Rightarrow> 'a elevator_scheme \<Rightarrow> 'a elevator_scheme option"

definition elv_dispatch_add_tail :: "nat \<Rightarrow> 'a elevator_scheme \<Rightarrow> 'a elevator_scheme" where
  "elv_dispatch_add_tail rq e =
     (let e = (if last_rq e = Some rq then e\<lparr>last_rq := None\<rparr> else e);
          e = elv_rqhash_del rq e in
      e\<lparr>elv_sorted := elv_sorted e - 1, endpos := rq_end_pos (reqs e rq), boundary := Some rq, disp := disp e @ [rq]\<rparr>)"

text \<open>ll_front_merge_fn and ll_back_merge_fn, which are the same.\<close>

definition ll_merge_fn :: "nat \<Rightarrow> ioreq \<Rightarrow> 'a elevator_scheme \<Rightarrow> bool \<times> 'a elevator_scheme" where
  "ll_merge_fn rq req e =
     (if rq_count (reqs e rq) + io_count req > maxsize e
      then (False, if last_rq e = Some rq then e\<lparr>last_rq := None\<rparr> else e) else (True, e))"

definition ElvMergeOK :: "nat \<Rightarrow> ioreq \<Rightarrow> 'a elevator_scheme \<Rightarrow> bool" where
  "ElvMergeOK rq req e \<longleftrightarrow> rq_cmd (reqs e rq) = io_cmd req"

definition ElvMerge :: "ioreq \<Rightarrow> 'a elevator_scheme \<Rightarrow> merge \<times> nat option" where
  "ElvMerge req e =
     (let rc = (case last_rq e of
                  None \<Rightarrow> NO_MERGE
                | Some l \<Rightarrow>
                    if rq_off (reqs e l) + rq_count (reqs e l) = io_off req then BACK_MERGE
                    else if rq_off (reqs e l) - io_count req = io_off req then FRONT_MERGE else NO_MERGE) in
      if rc \<noteq> NO_MERGE then (rc, last_rq e)
      else case elv_rqhash_find (io_off req) e of
             Some rq \<Rightarrow> if ElvMergeOK rq req e then (BACK_MERGE, Some rq) else (NO_MERGE, None)
           | None \<Rightarrow> (NO_MERGE, None))"

definition base_merge_requests :: "nat \<Rightarrow> nat \<Rightarrow> 'a elevator_scheme \<Rightarrow> 'a elevator_scheme option" where
  "base_merge_requests rq next e =
     map_option (\<lambda>e. let e = elv_rqhash_del next e in e\<lparr>elv_sorted := elv_sorted e - 1, last_rq := Some rq\<rparr>)
       (elv_rqhash_reposition rq e)"

definition base_merged_request :: "nat \<Rightarrow> merge \<Rightarrow> 'a elevator_scheme \<Rightarrow> 'a elevator_scheme option" where
  "base_merged_request rq type e =
     map_option (\<lambda>e. e\<lparr>last_rq := Some rq\<rparr>) (if type = BACK_MERGE then elv_rqhash_reposition rq e else Some e)"

text \<open>The second component tells whether the requests were merged;
  \<open>next\<close> is deleted then.  SpliceIoreq asserts that both batches hold
  something.\<close>

definition AttemptMerge :: "'a elv_ops \<Rightarrow> nat \<Rightarrow> nat \<Rightarrow> 'a elevator_scheme \<Rightarrow> (bool \<times> 'a elevator_scheme) option" where
  "AttemptMerge ops rq next e =
     (let q = reqs e rq; n = reqs e next in
      if rq_off q + rq_count q \<noteq> rq_off n \<or> rq_cmd q \<noteq> rq_cmd n \<or> rq_count q + rq_count n > maxsize e
      then Some (False, e)
      else if rq_batch q = [] \<or> rq_batch n = [] then None
      else map_option (\<lambda>e. (True, e\<lparr>elv_count := (elv_count e)(rq_cmd n := elv_count e (rq_cmd n) - 1)\<rparr>))
        (v_merge_requests ops rq next
          (mod_rq rq (\<lambda>q. q\<lparr>rq_count := rq_count q + rq_count n, rq_batch := rq_batch q @ rq_batch n\<rparr>) e)))"

definition AttemptBackMerge :: "'a elv_ops \<Rightarrow> nat \<Rightarrow> 'a elevator_scheme \<Rightarrow> (bool \<times> 'a elevator_scheme) option" where
  "AttemptBackMerge ops rq e =
     (case v_latter ops rq e of
        None \<Rightarrow> None
      | Some None \<Rightarrow> Some (False, e)
      | Some (Some next) \<Rightarrow> AttemptMerge ops rq next e)"

definition AttemptFrontMerge :: "'a elv_ops \<Rightarrow> nat \<Rightarrow> 'a elevator_scheme \<Rightarrow> (bool \<times> 'a elevator_scheme) option" where
  "AttemptFrontMerge ops rq e =
     (case v_former ops rq e of
        None \<Rightarrow> None
      | Some None \<Rightarrow> Some (False, e)
      | Some (Some prev) \<Rightarrow> AttemptMerge ops prev rq e)"

text \<open>The two merging cases of Enqueue: the boolean is false when the request
  would be too big, and then a new one is made.\<close>

definition merge_back :: "'a elv_ops \<Rightarrow> nat \<Rightarrow> ioreq \<Rightarrow> 'a elevator_scheme \<Rightarrow> (bool \<times> 'a elevator_scheme) option" where
  "merge_back ops rq req e =
     (let (ok, e) = ll_merge_fn rq req e in
      if \<not> ok then Some (False, e)
      else Option.bind
        (AttemptBackMerge ops rq (mod_rq rq (\<lambda>q. q\<lparr>rq_batch := rq_batch q @ [req], rq_count := rq_count q + io_count req\<rparr>) e))
        (\<lambda>(merged, e). map_option (\<lambda>e. (True, e)) (if merged then Some e else v_merged_request ops rq BACK_MERGE e)))"

definition merge_front :: "'a elv_ops \<Rightarrow> nat \<Rightarrow> ioreq \<Rightarrow> 'a elevator_scheme \<Rightarrow> (bool \<times> 'a elevator_scheme) option" where
  "merge_front ops rq req e =
     (let (ok, e) = ll_merge_fn rq req e in
      if \<not> ok then Some (False, e)
      else Option.bind
        (AttemptFrontMerge ops rq
          (mod_rq rq (\<lambda>q. q\<lparr>rq_batch := req # rq_batch q, rq_count := rq_count q + io_count req, rq_off := io_off req\<rparr>) e))
        (\<lambda>(merged, e). map_option (\<lambda>e. (True, e)) (if merged then Some e else v_merged_request ops rq FRONT_MERGE e)))"

definition merge_ioreq :: "'a elv_ops \<Rightarrow> ioreq \<Rightarrow> 'a elevator_scheme \<Rightarrow> (bool \<times> 'a elevator_scheme) option" where
  "merge_ioreq ops req e =
     (case v_merge ops req e of
        (BACK_MERGE, Some rq) \<Rightarrow> merge_back ops rq req e
      | (FRONT_MERGE, Some rq) \<Rightarrow> merge_front ops rq req e
      | (NO_MERGE, _) \<Rightarrow> Some (False, e)
      | (_, None) \<Rightarrow> None)"

section \<open>Adding a request\<close>

definition new_request :: "ioreq \<Rightarrow> 'a elevator_scheme \<Rightarrow> nat \<times> 'a elevator_scheme" where
  "new_request req e =
     (let r = fresh_rq e in
      (r, e\<lparr>fresh_rq := r + 1, elv_count := (elv_count e)(io_cmd req := elv_count e (io_cmd req) + 1),
            reqs := (reqs e)(r := \<lparr>rq_cmd = io_cmd req, rq_off = io_off req, rq_count = io_count req, rq_time = 0,
              rq_flags = 0, rq_batch = [req], rq_hashed = False\<rparr>)\<rparr>))"

definition ElvQueueEmpty :: "'a elv_ops \<Rightarrow> 'a elevator_scheme \<Rightarrow> bool" where
  "ElvQueueEmpty ops e \<longleftrightarrow> disp e = [] \<and> v_empty ops e"

datatype insert_where = INSERT_FRONT | INSERT_BACK | INSERT_SORT | INSERT_REQUEUE

text \<open>ElvInsertRequest without its last test, which may unplug the disk (in
  theory Disk).\<close>

definition insert_request ::
  "'a elv_ops \<Rightarrow> cfs_time \<Rightarrow> nat \<Rightarrow> insert_where \<Rightarrow> 'a elevator_scheme \<Rightarrow> 'a elevator_scheme option" where
  "insert_request ops now rq whr e =
     (case whr of
        INSERT_FRONT \<Rightarrow> let e = mod_rq rq (\<lambda>q. q\<lparr>rq_flags := rq_flags q OR REQ_SOFTBARRIER\<rparr>) e in Some (e\<lparr>disp := disp e @ [rq]\<rparr>)
      | INSERT_BACK \<Rightarrow> let e = mod_rq rq (\<lambda>q. q\<lparr>rq_flags := rq_flags q OR REQ_SOFTBARRIER\<rparr>) e in Some (e\<lparr>disp := rq # disp e\<rparr>)
      | INSERT_SORT \<Rightarrow>
          Option.bind (elv_rqhash_add rq (mod_rq rq (\<lambda>q. q\<lparr>rq_flags := rq_flags q OR REQ_SORTED\<rparr>) e)) (\<lambda>e.
            v_add ops now rq (if last_rq e = None then e\<lparr>last_rq := Some rq\<rparr> else e))
      | INSERT_REQUEUE \<Rightarrow> Some e)"

section \<open>Taking a request out\<close>

text \<open>The place ElvDispatchSort finds, walking back from the end of the queue:
  the index of the entry it breaks at.\<close>

fun dispatch_pos :: "(nat \<Rightarrow> request) \<Rightarrow> u64 \<Rightarrow> request \<Rightarrow> nat list \<Rightarrow> nat option" where
  "dispatch_pos R ep q [] = None"
| "dispatch_pos R ep q (x # rest) =
     (if rq_cmd q \<noteq> rq_cmd (R x)
         \<or> rq_flags (R x) AND (REQ_SOFTBARRIER OR REQ_HARDBARRIER OR REQ_STARTED) \<noteq> 0
         \<or> rq_off q < ep \<and> rq_off (R x) \<ge> ep
      then Some (length rest) else dispatch_pos R ep q rest)"

text \<open>\<open>if (last = rq) last = NULL\<close> always clears \<open>last\<close>.\<close>

definition ElvDispatchSort :: "nat \<Rightarrow> 'a elevator_scheme \<Rightarrow> 'a elevator_scheme" where
  "ElvDispatchSort rq e =
     (let e = elv_rqhash_del rq (e\<lparr>last_rq := None\<rparr>); e = e\<lparr>elv_sorted := elv_sorted e - 1\<rparr> in
      e\<lparr>disp := (case dispatch_pos (reqs e) (endpos e) (reqs e rq) (rev (disp e)) of
           None \<Rightarrow> disp e @ [rq]
         | Some i \<Rightarrow> take i (disp e) @ rq # drop i (disp e))\<rparr>)"

partial_function (option) ElvNextRequest :: "'a elv_ops \<Rightarrow> 'a elevator_scheme \<Rightarrow> (nat option \<times> 'a elevator_scheme) option" where
  "ElvNextRequest ops e =
     (case disp e of
        rq # rest \<Rightarrow> Some (Some rq, e\<lparr>disp := rest\<rparr>)
      | [] \<Rightarrow> (case v_dispatch ops e of
               None \<Rightarrow> None
             | Some (again, e) \<Rightarrow> if again then ElvNextRequest ops e else Some (None, e)))"

definition ElvDequeue :: "'a elv_ops \<Rightarrow> 'a elevator_scheme \<Rightarrow> (nat option \<times> 'a elevator_scheme) option" where
  "ElvDequeue ops e =
     map_option (\<lambda>(r, e). case r of
         None \<Rightarrow> (None, e)
       | Some rq \<Rightarrow>
           let e = mod_rq rq (\<lambda>q. q\<lparr>rq_flags := rq_flags q OR REQ_STARTED\<rparr>) e;
               e = (if boundary e = None \<or> boundary e = Some rq
                    then e\<lparr>endpos := rq_end_pos (reqs e rq), boundary := None\<rparr> else e)
           in (Some rq, e\<lparr>inflight := inflight e + 1\<rparr>)) (ElvNextRequest ops e)"

text \<open>PutRequest, run when a request completes.\<close>

definition PutRequest :: "nat \<Rightarrow> 'a elevator_scheme \<Rightarrow> 'a elevator_scheme option" where
  "PutRequest rq e =
     (let c = rq_cmd (reqs e rq);
          e = e\<lparr>inflight := inflight e - 1, elv_count := (elv_count e)(c := elv_count e c - 1)\<rparr> in
      if elv_count e c \<ge> 0 then Some e else None)"

section \<open>The interface of the virtual methods\<close>

text \<open>What the base class keeps for the set \<open>E\<close> of requests that the
  elevator holds: every request is on the hash under its end, its batch is not
  empty and lies end to end on the disk from its offset, and \<open>last\<close> is one
  of them.\<close>

fun contiguous :: "u64 \<Rightarrow> ioreq list \<Rightarrow> bool" where
  "contiguous off [] = True"
| "contiguous off (i # is) \<longleftrightarrow> io_off i = off \<and> contiguous (off + io_count i) is"

definition batch_ok :: "request \<Rightarrow> bool" where
  "batch_ok q \<longleftrightarrow> rq_batch q \<noteq> [] \<and> contiguous (rq_off q) (rq_batch q)
     \<and> rq_count q = sum_list (map io_count (rq_batch q))"

text \<open>The hash, with the place of \<open>x\<close> left open.\<close>

definition hash_but :: "nat set \<Rightarrow> nat set \<Rightarrow> 'a elevator_scheme \<Rightarrow> bool" where
  "hash_but X E e \<longleftrightarrow> (\<forall>b. distinct (elv_hash e b) \<and> set (elv_hash e b) \<subseteq> E)
     \<and> (\<forall>r\<in>E. rq_hashed (reqs e r))
     \<and> (\<forall>r\<in>E - X. \<forall>b. r \<in> set (elv_hash e b) \<longleftrightarrow> b = ELV_HASH_FN e (rq_hash_key (reqs e r)))"

definition base_ok :: "nat set \<Rightarrow> 'a elevator_scheme \<Rightarrow> bool" where
  "base_ok E e \<longleftrightarrow> finite E \<and> (\<forall>r\<in>E. r < fresh_rq e) \<and> disp e = [] \<and> (\<forall>r. last_rq e = Some r \<longrightarrow> r \<in> E)
     \<and> hash_but {} E e \<and> (\<forall>r\<in>E. batch_ok (reqs e r))"

text \<open>The I/O requests held, and the number of requests of a direction.\<close>

definition held :: "nat set \<Rightarrow> (nat \<Rightarrow> request) \<Rightarrow> ioreq multiset" where
  "held E R = (\<Sum>r\<in>E. mset (rq_batch (R r)))"

definition of_cmd :: "nat set \<Rightarrow> (nat \<Rightarrow> request) \<Rightarrow> rw \<Rightarrow> int" where
  "of_cmd E R c = int (card {r \<in> E. rq_cmd (R r) = c})"

text \<open>A method of the concrete elevator changes its own part and the times of
  requests.\<close>

definition similar :: "'a elevator_scheme \<Rightarrow> 'a elevator_scheme \<Rightarrow> bool" where
  "similar e e' \<longleftrightarrow> (\<exists>m t. e' = e\<lparr>elevator.more := m, reqs := \<lambda>r. (reqs e r)\<lparr>rq_time := t r\<rparr>\<rparr>)"

section \<open>Facts of the base class\<close>

lemma mod_rq_simps [simp]:
  "reqs (mod_rq r f e) = (reqs e)(r := f (reqs e r))" "elv_hash (mod_rq r f e) = elv_hash e" "disp (mod_rq r f e) = disp e"
  "last_rq (mod_rq r f e) = last_rq e" "fresh_rq (mod_rq r f e) = fresh_rq e" "inflight (mod_rq r f e) = inflight e"
  "elv_count (mod_rq r f e) = elv_count e" "elevator.more (mod_rq r f e) = elevator.more e" "maxsize (mod_rq r f e) = maxsize e"
  "hash_shift (mod_rq r f e) = hash_shift e" "unplug_threshold (mod_rq r f e) = unplug_threshold e"
  "boundary (mod_rq r f e) = boundary e"
  by (simp_all add: mod_rq_def)

lemma contiguous_append:
  "contiguous off (xs @ ys) \<longleftrightarrow> contiguous off xs \<and> contiguous (off + sum_list (map io_count xs)) ys"
  by (induction xs arbitrary: off) (auto simp: add.assoc)

lemma hash_fn [simp]: "ELV_HASH_FN (mod_rq r f e) = ELV_HASH_FN e"
  by (simp add: ELV_HASH_FN_def fun_eq_iff)

lemma hash_del:
  assumes "hash_but X E e"
  shows "hash_but (X - {n}) (E - {n}) (elv_rqhash_del n e)"
proof -
  have d: "set (remove1 n (elv_hash e b)) = set (elv_hash e b) - {n}" for b
    using assms by (simp add: hash_but_def)
  show ?thesis
  proof (cases "rq_hashed (reqs e n)")
    case True
    then show ?thesis using assms d by (auto simp: hash_but_def elv_rqhash_del_def ELV_HASH_FN_def rq_hash_key_def distinct_remove1)
  next
    case False
    then have "n \<notin> E" using assms by (auto simp: hash_but_def)
    then show ?thesis using assms False by (auto simp: hash_but_def elv_rqhash_del_def)
  qed
qed

lemma hash_add:
  assumes "hash_but X E e" "r \<notin> E" "\<not> rq_hashed (reqs e r)"
  shows "\<exists>e'. elv_rqhash_add r e = Some e' \<and> hash_but (X - {r}) (insert r E) e'
    \<and> (\<exists>h. e' = (mod_rq r (\<lambda>q. q\<lparr>rq_hashed := True\<rparr>) e)\<lparr>elv_hash := h\<rparr>)"
  using assms by (auto simp: hash_but_def elv_rqhash_add_def ELV_HASH_FN_def rq_hash_key_def Let_def)

text \<open>What a change of the hash leaves alone.\<close>

definition hash_step :: "'a elevator_scheme \<Rightarrow> 'a elevator_scheme \<Rightarrow> bool" where
  "hash_step e e' \<longleftrightarrow> (\<exists>h b. e' = e\<lparr>elv_hash := h, reqs := \<lambda>r. (reqs e r)\<lparr>rq_hashed := b r\<rparr>\<rparr>)"

lemma hash_stepI: "e' = e\<lparr>elv_hash := h, reqs := \<lambda>r. (reqs e r)\<lparr>rq_hashed := b r\<rparr>\<rparr> \<Longrightarrow> hash_step e e'"
  unfolding hash_step_def by (rule exI [of _ h], rule exI [of _ b])

lemma hash_del_step: "hash_step e (elv_rqhash_del n e)"
proof -
  have "reqs (elv_rqhash_del n e) = (\<lambda>r. (reqs e r)\<lparr>rq_hashed := rq_hashed (reqs (elv_rqhash_del n e) r)\<rparr>)"
    by (auto simp: elv_rqhash_del_def fun_eq_iff)
  then have "elv_rqhash_del n e = e\<lparr>elv_hash := elv_hash (elv_rqhash_del n e),
      reqs := \<lambda>r. (reqs e r)\<lparr>rq_hashed := rq_hashed (reqs (elv_rqhash_del n e) r)\<rparr>\<rparr>"
    by (auto simp: elv_rqhash_del_def mod_rq_def fun_eq_iff)
  then show ?thesis by (rule hash_stepI)
qed

lemma hash_stepD:
  assumes "hash_step e e'"
  shows "disp e' = disp e" "last_rq e' = last_rq e" "fresh_rq e' = fresh_rq e" "inflight e' = inflight e"
    "elv_count e' = elv_count e" "elevator.more e' = elevator.more e" "maxsize e' = maxsize e" "unplug_threshold e' = unplug_threshold e"
    "boundary e' = boundary e" "hash_shift e' = hash_shift e" "elv_sorted e' = elv_sorted e" "endpos e' = endpos e"
    "rq_off (reqs e' r) = rq_off (reqs e r)" "rq_count (reqs e' r) = rq_count (reqs e r)" "rq_cmd (reqs e' r) = rq_cmd (reqs e r)"
    "rq_batch (reqs e' r) = rq_batch (reqs e r)" "rq_flags (reqs e' r) = rq_flags (reqs e r)"
  using assms by (auto simp: hash_step_def)

lemma hash_step_trans: "hash_step a b \<Longrightarrow> hash_step b c \<Longrightarrow> hash_step a c"
  unfolding hash_step_def by (elim exE) (simp, blast)

lemma hash_reposition:
  assumes "hash_but X E e" "r \<in> E"
  shows "\<exists>e'. elv_rqhash_reposition r e = Some e' \<and> hash_but (X - {r}) E e' \<and> hash_step e e'"
proof -
  let ?d = "elv_rqhash_del r e"
  have "rq_hashed (reqs e r)" using assms by (auto simp: hash_but_def)
  then have "\<not> rq_hashed (reqs ?d r)" by (simp add: elv_rqhash_del_def)
  from hash_add [OF hash_del [OF assms(1)] _ this] obtain e' h where e': "elv_rqhash_add r ?d = Some e'"
    "hash_but (X - {r} - {r}) (insert r (E - {r})) e'" "e' = (mod_rq r (\<lambda>q. q\<lparr>rq_hashed := True\<rparr>) ?d)\<lparr>elv_hash := h\<rparr>" by blast
  have "e' = ?d\<lparr>elv_hash := h, reqs := \<lambda>x. (reqs ?d x)\<lparr>rq_hashed := (x = r \<or> rq_hashed (reqs ?d x))\<rparr>\<rparr>"
    unfolding e'(3) by (auto simp: mod_rq_def fun_eq_iff)
  then have "hash_step ?d e'" by (rule hash_stepI)
  then have "hash_step e e'" using hash_step_trans [OF hash_del_step] by blast
  moreover have "insert r (E - {r}) = E" using assms(2) by blast
  ultimately show ?thesis using e' by (simp add: elv_rqhash_reposition_def)
qed

lemma hash_mod: "hash_but X E e \<Longrightarrow> (\<And>q. rq_hashed (f q) = rq_hashed q) \<Longrightarrow> hash_but (insert r X) E (mod_rq r f e)"
  by (auto simp: hash_but_def)

lemma hash_find:
  assumes "hash_but {} E e" "elv_rqhash_find off e = Some r"
  shows "r \<in> E \<and> rq_off (reqs e r) + rq_count (reqs e r) = off"
  using assms by (auto simp: hash_but_def elv_rqhash_find_def find_Some_iff rq_hash_key_def) (metis nth_mem subsetD)

lemma similarD:
  assumes "similar e e'"
  shows "disp e' = disp e" "last_rq e' = last_rq e" "fresh_rq e' = fresh_rq e" "inflight e' = inflight e"
    "elv_count e' = elv_count e" "maxsize e' = maxsize e" "unplug_threshold e' = unplug_threshold e"
    "boundary e' = boundary e" "hash_shift e' = hash_shift e" "elv_hash e' = elv_hash e"
    "rq_off (reqs e' r) = rq_off (reqs e r)" "rq_count (reqs e' r) = rq_count (reqs e r)" "rq_cmd (reqs e' r) = rq_cmd (reqs e r)"
    "rq_batch (reqs e' r) = rq_batch (reqs e r)" "rq_flags (reqs e' r) = rq_flags (reqs e r)" "rq_hashed (reqs e' r) = rq_hashed (reqs e r)"
  using assms by (auto simp: similar_def)

lemma similarI:
  assumes "disp e' = disp e" "last_rq e' = last_rq e" "fresh_rq e' = fresh_rq e" "inflight e' = inflight e"
    "elv_count e' = elv_count e" "elv_sorted e' = elv_sorted e" "maxsize e' = maxsize e" "unplug_threshold e' = unplug_threshold e"
    "boundary e' = boundary e" "hash_shift e' = hash_shift e" "elv_hash e' = elv_hash e" "endpos e' = endpos e"
    "\<And>r. reqs e' r = (reqs e r)\<lparr>rq_time := t r\<rparr>"
  shows "similar e e'"
  unfolding similar_def
  by (rule exI [of _ "elevator.more e'"], rule exI [of _ t], rule elevator.equality) (use assms in \<open>simp_all add: fun_eq_iff\<close>)

lemma similar_hash: "similar e e' \<Longrightarrow> hash_but X E e' = hash_but X E e"
  by (auto simp: hash_but_def similarD ELV_HASH_FN_def rq_hash_key_def)

lemma similar_refl [simp]: "similar e e"
  unfolding similar_def by (rule exI [of _ "elevator.more e"], rule exI [of _ "\<lambda>r. rq_time (reqs e r)"]) simp

lemma batch_cong: "rq_batch q = rq_batch p \<Longrightarrow> rq_off q = rq_off p \<Longrightarrow> rq_count q = rq_count p \<Longrightarrow> batch_ok q = batch_ok p"
  by (simp add: batch_ok_def)

lemma held_cong: "(\<And>r. r \<in> E \<Longrightarrow> rq_batch (R' r) = rq_batch (R r)) \<Longrightarrow> held E R' = held E R"
  by (simp add: held_def)

lemma of_cmd_cong: "(\<And>r. r \<in> E \<Longrightarrow> rq_cmd (R' r) = rq_cmd (R r)) \<Longrightarrow> of_cmd E R' c = of_cmd E R c"
  unfolding of_cmd_def by (intro arg_cong [of _ _ "\<lambda>S. int (card S)"]) auto

lemma held_insert: "finite E \<Longrightarrow> r \<notin> E \<Longrightarrow> held (insert r E) R = mset (rq_batch (R r)) + held E R"
  by (simp add: held_def)

lemma of_cmd_insert: "finite E \<Longrightarrow> r \<notin> E \<Longrightarrow> of_cmd (insert r E) R c = of_cmd E R c + (if rq_cmd (R r) = c then 1 else 0)"
proof -
  assume a: "finite E" "r \<notin> E"
  have "{x \<in> insert r E. rq_cmd (R x) = c} = (if rq_cmd (R r) = c then insert r {x \<in> E. rq_cmd (R x) = c} else {x \<in> E. rq_cmd (R x) = c})"
    by auto
  then show ?thesis using a by (simp add: of_cmd_def)
qed

lemma ll_cases:
  obtains "ll_merge_fn r req e = (False, e)" | "ll_merge_fn r req e = (False, e\<lparr>last_rq := None\<rparr>)" | "ll_merge_fn r req e = (True, e)"
  unfolding ll_merge_fn_def by presburger

section \<open>The contract of the virtual methods\<close>

text \<open>\<open>elems m\<close> are the requests in the structures \<open>m\<close> of the concrete
  elevator; \<open>okm R m\<close> says they are in order for the offsets and
  directions \<open>R\<close> gives, \<open>okx r R m\<close> that they are but for the place of
  \<open>r\<close>.\<close>

locale elevator_methods =
  fixes ops :: "'a elv_ops" and elems :: "'a \<Rightarrow> nat set"
    and okm :: "(nat \<Rightarrow> request) \<Rightarrow> 'a \<Rightarrow> bool" and okx :: "nat \<Rightarrow> (nat \<Rightarrow> request) \<Rightarrow> 'a \<Rightarrow> bool"
  assumes merge_kind: "fst (v_merge ops req e) = fst (ElvMerge req e)"
    and merge_which: "fst (ElvMerge req e) \<noteq> NO_MERGE \<Longrightarrow> snd (v_merge ops req e) = snd (ElvMerge req e)"
    and okm_cong: "okm R m \<Longrightarrow> (\<And>r. r \<in> elems m \<Longrightarrow> rq_off (R' r) = rq_off (R r) \<and> rq_cmd (R' r) = rq_cmd (R r)) \<Longrightarrow> okm R' m"
    and okm_okx: "okm R m \<Longrightarrow> r \<in> elems m \<Longrightarrow> okx r R m"
    and okx_cong: "okx r R m \<Longrightarrow>
      (\<And>x. x \<in> elems m \<Longrightarrow> rq_cmd (R' x) = rq_cmd (R x) \<and> (x \<noteq> r \<longrightarrow> rq_off (R' x) = rq_off (R x))) \<Longrightarrow> okx r R' m"
    and empty_iff: "okm (reqs e) (elevator.more e) \<Longrightarrow> v_empty ops e \<longleftrightarrow> elems (elevator.more e) = {}"
    and latter: "okx r (reqs e) (elevator.more e) \<Longrightarrow> r \<in> elems (elevator.more e) \<Longrightarrow>
      \<exists>n. v_latter ops r e = Some n \<and> (\<forall>x. n = Some x \<longrightarrow> x \<in> elems (elevator.more e) - {r})"
    and former: "okx r (reqs e) (elevator.more e) \<Longrightarrow> r \<in> elems (elevator.more e) \<Longrightarrow>
      \<exists>n. v_former ops r e = Some n \<and> (\<forall>x. n = Some x \<longrightarrow> x \<in> elems (elevator.more e) - {r})"
    and merge_requests: "okx n (reqs e) (elevator.more e) \<Longrightarrow> n \<in> elems (elevator.more e) \<Longrightarrow>
      \<exists>e'. similar e e' \<and> v_merge_requests ops r n e = base_merge_requests r n e'
        \<and> elems (elevator.more e') = elems (elevator.more e) - {n} \<and> okm (reqs e') (elevator.more e')"
    and merged_back: "v_merged_request ops r BACK_MERGE e = base_merged_request r BACK_MERGE e"
    and merged_front: "okx r (reqs e) (elevator.more e) \<Longrightarrow> r \<in> elems (elevator.more e) \<Longrightarrow>
      (\<And>x. x \<in> elems (elevator.more e) - {r} \<Longrightarrow> rq_off (reqs e x) \<noteq> rq_off (reqs e r)) \<Longrightarrow>
      \<exists>e'. similar e e' \<and> v_merged_request ops r FRONT_MERGE e = base_merged_request r FRONT_MERGE e'
        \<and> elems (elevator.more e') = elems (elevator.more e) \<and> okm (reqs e') (elevator.more e')"
    and add: "okm (reqs e) (elevator.more e) \<Longrightarrow> r \<notin> elems (elevator.more e) \<Longrightarrow>
      (\<And>x. x \<in> elems (elevator.more e) \<Longrightarrow> rq_off (reqs e x) \<noteq> rq_off (reqs e r)) \<Longrightarrow>
      \<exists>e'. similar e e' \<and> v_add ops now r e = Some e' \<and> elems (elevator.more e') = insert r (elems (elevator.more e))
        \<and> okm (reqs e') (elevator.more e')"
    and dispatch_empty: "okm (reqs e) (elevator.more e) \<Longrightarrow> elems (elevator.more e) = {} \<Longrightarrow> v_dispatch ops e = Some (False, e)"
    and dispatch: "okm (reqs e) (elevator.more e) \<Longrightarrow> elems (elevator.more e) \<noteq> {} \<Longrightarrow>
      \<exists>e' r. similar e e' \<and> r \<in> elems (elevator.more e) \<and> elems (elevator.more e') = elems (elevator.more e) - {r}
        \<and> okm (reqs e') (elevator.more e')
        \<and> (v_dispatch ops e = Some (True, elv_dispatch_add_tail r e') \<or> v_dispatch ops e = Some (True, ElvDispatchSort r e'))"
begin

abbreviation els :: "'a elevator_scheme \<Rightarrow> nat set" where
  "els e \<equiv> elems (elevator.more e)"

definition elv_ok :: "'a elevator_scheme \<Rightarrow> bool" where
  "elv_ok e \<longleftrightarrow> base_ok (els e) e \<and> okm (reqs e) (elevator.more e)"

text \<open>What the operations on held requests keep of everything else.\<close>

definition kept :: "'a elevator_scheme \<Rightarrow> 'a elevator_scheme \<Rightarrow> bool" where
  "kept e e' \<longleftrightarrow> fresh_rq e \<le> fresh_rq e' \<and> inflight e' = inflight e \<and> unplug_threshold e' = unplug_threshold e
     \<and> (\<forall>c. elv_count e' c - of_cmd (els e') (reqs e') c = elv_count e c - of_cmd (els e) (reqs e) c)
     \<and> (\<forall>r<fresh_rq e. r \<notin> els e \<longrightarrow> r \<notin> els e' \<and> rq_cmd (reqs e' r) = rq_cmd (reqs e r) \<and> rq_batch (reqs e' r) = rq_batch (reqs e r))"

text \<open>A state in the middle of a merge: \<open>x\<close> has grown and its hash entry is
  stale, \<open>y\<close> may be at a wrong place.\<close>

definition merging :: "nat set \<Rightarrow> nat \<Rightarrow> 'a elevator_scheme \<Rightarrow> bool" where
  "merging X y e \<longleftrightarrow> finite (els e) \<and> (\<forall>r\<in>els e. r < fresh_rq e) \<and> disp e = [] \<and> (\<forall>r. last_rq e = Some r \<longrightarrow> r \<in> els e)
     \<and> hash_but X (els e) e \<and> (\<forall>r\<in>els e. batch_ok (reqs e r)) \<and> okx y (reqs e) (elevator.more e) \<and> y \<in> els e"

lemma attempt_merge:
  assumes m: "merging {z} n e" "z = x \<or> z = n" and x: "x \<in> els e" "x \<noteq> n"
  shows "AttemptMerge ops x n e = Some (False, e)
    \<or> (\<exists>e'. AttemptMerge ops x n e = Some (True, e') \<and> elv_ok e' \<and> els e' = els e - {n}
        \<and> held (els e') (reqs e') = held (els e) (reqs e) \<and> kept e e')"
proof -
  let ?q = "reqs e x" and ?n = "reqs e n" and ?E = "els e"
  have M: "finite ?E" "\<forall>r\<in>?E. r < fresh_rq e" "disp e = []" "hash_but {z} ?E e" "\<forall>r\<in>?E. batch_ok (reqs e r)"
    "okx n (reqs e) (elevator.more e)" "n \<in> ?E" using m(1) unfolding merging_def by blast+
  have b: "batch_ok ?q" "batch_ok ?n" using M(5,7) x(1) by blast+
  define f :: "request \<Rightarrow> request" where "f = (\<lambda>q. q\<lparr>rq_count := rq_count q + rq_count ?n, rq_batch := rq_batch q @ rq_batch ?n\<rparr>)"
  define e1 where "e1 = mod_rq x f e"
  show ?thesis
  proof (cases "rq_off ?q + rq_count ?q \<noteq> rq_off ?n \<or> rq_cmd ?q \<noteq> rq_cmd ?n \<or> rq_count ?q + rq_count ?n > maxsize e")
    case True
    then show ?thesis by (simp add: AttemptMerge_def)
  next
    case False
    have nb: "\<not> (rq_batch ?q = [] \<or> rq_batch ?n = [])" using b by (auto simp: batch_ok_def)
    have am: "AttemptMerge ops x n e = map_option
        (\<lambda>e. (True, e\<lparr>elv_count := (elv_count e)(rq_cmd ?n := elv_count e (rq_cmd ?n) - 1)\<rparr>)) (v_merge_requests ops x n e1)"
      unfolding AttemptMerge_def Let_def if_not_P [OF False] if_not_P [OF nb] e1_def f_def by (rule refl)
    have fk: "rq_off (f q) = rq_off q" "rq_cmd (f q) = rq_cmd q" "rq_hashed (f q) = rq_hashed q" for q by (simp_all add: f_def)
    have bx: "batch_ok (f ?q)" using b False by (auto simp: batch_ok_def f_def contiguous_append)
    have "okx n (reqs e1) (elevator.more e1)"
      using okx_cong [OF M(6), of "reqs e1"] fk by (simp add: e1_def)
    from merge_requests [OF this, of x] M(7) obtain e2 where
      e2: "similar e1 e2" "v_merge_requests ops x n e1 = base_merge_requests x n e2" "els e2 = ?E - {n}" "okm (reqs e2) (elevator.more e2)"
      by (auto simp: e1_def)
    have "hash_but (insert x {z}) ?E e1" unfolding e1_def by (rule hash_mod [OF M(4)]) (simp add: fk)
    then have "hash_but (insert x {z}) ?E e2" using similar_hash [OF e2(1)] by blast
    from hash_reposition [OF this x(1)] obtain e3 where
      e3: "elv_rqhash_reposition x e2 = Some e3" "hash_but (insert x {z} - {x}) ?E e3" "hash_step e2 e3" by blast
    define e4 where "e4 = elv_rqhash_del n e3"
    have none: "insert x {z} - {x} - {n} = {}" using m(2) by blast
    have e4: "hash_but {} (?E - {n}) e4" using hash_del [OF e3(2), of n] unfolding none e4_def .
    have st: "hash_step e2 e4" unfolding e4_def by (rule hash_step_trans [OF e3(3) hash_del_step])
    define e5 where "e5 = e4\<lparr>elv_sorted := elv_sorted e4 - 1, last_rq := Some x,
        elv_count := (elv_count e4)(rq_cmd ?n := elv_count e4 (rq_cmd ?n) - 1)\<rparr>"
    have res: "AttemptMerge ops x n e = Some (True, e5)"
      unfolding am e2(2) base_merge_requests_def e3(1) by (simp add: e5_def e4_def [symmetric] Let_def)
    have f5: "disp e5 = []" "last_rq e5 = Some x" "fresh_rq e5 = fresh_rq e" "inflight e5 = inflight e"
      "unplug_threshold e5 = unplug_threshold e" "elv_count e5 = (elv_count e)(rq_cmd ?n := elv_count e (rq_cmd ?n) - 1)"
      "elevator.more e5 = elevator.more e2" "els e5 = ?E - {n}" "reqs e5 = reqs e4" "hash_but {} (?E - {n}) e5"
      using hash_stepD [OF st] similarD [OF e2(1)] M(3) e2(3) e4 by (simp_all add: e5_def e1_def hash_but_def ELV_HASH_FN_def rq_hash_key_def)
    have r5: "rq_off (reqs e5 r) = rq_off (reqs e r)" "rq_cmd (reqs e5 r) = rq_cmd (reqs e r)"
      "rq_count (reqs e5 r) = rq_count (if r = x then f ?q else reqs e r)" "rq_batch (reqs e5 r) = rq_batch (if r = x then f ?q else reqs e r)" for r
      using hash_stepD [OF st] similarD [OF e2(1)] fk by (simp_all add: f5(9) e1_def)
    have "batch_ok (reqs e5 r)" if "r \<in> ?E - {n}" for r
      using batch_cong [of "reqs e5 r" "if r = x then f ?q else reqs e r"] r5 fk bx M(5) that by auto
    then have "base_ok (els e5) e5" using f5 M(1,2) x by (auto simp: base_ok_def)
    moreover have "okm (reqs e5) (elevator.more e5)" unfolding f5(7)
      by (rule okm_cong [OF e2(4)]) (use hash_stepD [OF st] f5(9) in simp)
    moreover have "held (els e5) (reqs e5) = held (els e) (reqs e)"
    proof -
      define S where "S = ?E - {n, x}"
      have S: "finite S" "x \<notin> S" "n \<notin> S" "?E = insert n (insert x S)" "?E - {n} = insert x S"
        using M(1,7) x by (auto simp: S_def)
      have "held S (reqs e5) = held S (reqs e)" using r5(4) S(2) by (intro held_cong) auto
      then show ?thesis unfolding f5(8) S(5) unfolding S(4)
        using S(1-3) x(2) r5(4) [of x] by (simp add: held_insert f_def)
    qed
    moreover have "kept e e5" unfolding kept_def
    proof (intro conjI allI impI)
      fix c
      have "of_cmd ?E (reqs e) c = of_cmd (?E - {n}) (reqs e) c + (if rq_cmd ?n = c then 1 else 0)"
        using of_cmd_insert [of "?E - {n}" n] M(1,7) by (simp add: insert_absorb)
      moreover have "of_cmd (?E - {n}) (reqs e5) c = of_cmd (?E - {n}) (reqs e) c" using r5(2) by (intro of_cmd_cong)
      ultimately show "elv_count e5 c - of_cmd (els e5) (reqs e5) c = elv_count e c - of_cmd (els e) (reqs e) c"
        using f5(6,8) by simp
    next
      fix r assume "r \<notin> els e"
      then show "r \<notin> els e5" "rq_cmd (reqs e5 r) = rq_cmd (reqs e r)" "rq_batch (reqs e5 r) = rq_batch (reqs e r)"
        using f5(8) r5(2,4) x(1) by auto
    qed (use f5 in simp_all)
    ultimately show ?thesis using res f5(8) unfolding elv_ok_def by blast
  qed
qed

text \<open>The request \<open>r\<close> has taken the I/O request: the state before the
  neighbours are looked at.\<close>

lemma elv_okD:
  assumes "elv_ok e"
  shows "finite (els e)" "\<forall>r\<in>els e. r < fresh_rq e" "disp e = []" "\<forall>r. last_rq e = Some r \<longrightarrow> r \<in> els e"
    "hash_but {} (els e) e" "\<forall>r\<in>els e. batch_ok (reqs e r)" "okm (reqs e) (elevator.more e)"
  using assms unfolding elv_ok_def base_ok_def by blast+

lemma kept_trans: "kept a b \<Longrightarrow> kept b c \<Longrightarrow> kept a c"
  unfolding kept_def by (auto dest: less_le_trans)

lemma hash_but_mono: "hash_but X E e \<Longrightarrow> X \<subseteq> Y \<Longrightarrow> hash_but Y E e"
  unfolding hash_but_def by blast

lemma took:
  assumes e: "elv_ok e" and r: "r \<in> els e" and f: "rq_cmd (f (reqs e r)) = rq_cmd (reqs e r)"
      "mset (rq_batch (f (reqs e r))) = add_mset req (mset (rq_batch (reqs e r)))"
  shows "held (els e) (reqs (mod_rq r f e)) = add_mset req (held (els e) (reqs e)) \<and> kept e (mod_rq r f e)"
proof
  define S where "S = els e - {r}"
  have S: "finite S" "r \<notin> S" "els e = insert r S" using elv_okD(1) [OF e] r by (auto simp: S_def)
  have "held S (reqs (mod_rq r f e)) = held S (reqs e)" using S(2) by (intro held_cong) auto
  then show "held (els e) (reqs (mod_rq r f e)) = add_mset req (held (els e) (reqs e))"
    unfolding S(3) using S(1,2) f(2) by (simp add: held_insert)
  have "of_cmd (els e) (reqs (mod_rq r f e)) c = of_cmd (els e) (reqs e) c" for c
    using f(1) by (intro of_cmd_cong) auto
  then show "kept e (mod_rq r f e)" using r by (auto simp: kept_def)
qed

lemma finish_merge:
  assumes e: "elv_ok e" and r: "r \<in> els e" and e2: "fresh_rq e2 = fresh_rq e" "disp e2 = []" "last_rq e2 = Some r"
      "els e2 = els e" "hash_but {} (els e) e2" "okm (reqs e2) (elevator.more e2)" "inflight e2 = inflight e"
      "unplug_threshold e2 = unplug_threshold e" "elv_count e2 = elv_count e"
    and k: "\<And>x. rq_batch (reqs e2 x) = (if x = r then B else rq_batch (reqs e x))" "\<And>x. rq_cmd (reqs e2 x) = rq_cmd (reqs e x)"
      "\<And>x. x \<noteq> r \<Longrightarrow> rq_off (reqs e2 x) = rq_off (reqs e x) \<and> rq_count (reqs e2 x) = rq_count (reqs e x)"
    and B: "mset B = add_mset req (mset (rq_batch (reqs e r)))" "batch_ok (reqs e2 r)"
  shows "elv_ok e2 \<and> held (els e2) (reqs e2) = add_mset req (held (els e) (reqs e)) \<and> kept e e2"
proof (intro conjI)
  have "batch_ok (reqs e2 x)" if "x \<in> els e" for x
    using B(2) k that elv_okD(6) [OF e] batch_cong [of "reqs e2 x" "reqs e x"] by (cases "x = r") auto
  then show "elv_ok e2" using elv_okD [OF e] r e2 by (simp add: elv_ok_def base_ok_def)
  define S where "S = els e - {r}"
  have S: "finite S" "r \<notin> S" "els e = insert r S" using elv_okD(1) [OF e] r by (auto simp: S_def)
  have "held S (reqs e2) = held S (reqs e)" using S(2) k(1) by (intro held_cong) auto
  then show "held (els e2) (reqs e2) = add_mset req (held (els e) (reqs e))"
    unfolding e2(4) unfolding S(3) using S(1,2) B(1) k(1) by (simp add: held_insert)
  have "of_cmd (els e) (reqs e2) c = of_cmd (els e) (reqs e) c" for c using k(2) by (intro of_cmd_cong)
  then show "kept e e2" using r e2 k by (auto simp: kept_def)
qed

lemma merge_back_ok:
  assumes e: "elv_ok e" and r: "r \<in> els e" and j: "rq_off (reqs e r) + rq_count (reqs e r) = io_off req"
  shows "merge_back ops r req e = Some (False, e) \<or> merge_back ops r req e = Some (False, e\<lparr>last_rq := None\<rparr>)
    \<or> (\<exists>e'. merge_back ops r req e = Some (True, e') \<and> elv_ok e' \<and> els e' \<noteq> {}
        \<and> held (els e') (reqs e') = add_mset req (held (els e) (reqs e)) \<and> kept e e')"
proof (rule ll_cases [of r req e])
  assume "ll_merge_fn r req e = (False, e)"
  then show ?thesis by (simp add: merge_back_def)
next
  assume "ll_merge_fn r req e = (False, e\<lparr>last_rq := None\<rparr>)"
  then show ?thesis by (simp add: merge_back_def)
next
  assume ll: "ll_merge_fn r req e = (True, e)"
  define f :: "request \<Rightarrow> request" where "f = (\<lambda>q. q\<lparr>rq_batch := rq_batch q @ [req], rq_count := rq_count q + io_count req\<rparr>)"
  have f: "rq_cmd (f q) = rq_cmd q" "rq_off (f q) = rq_off q" "rq_hashed (f q) = rq_hashed q" for q by (simp_all add: f_def)
  define e1 where "e1 = mod_rq r f e"
  note E = elv_okD [OF e]
  have mb: "merge_back ops r req e = Option.bind (AttemptBackMerge ops r e1)
      (\<lambda>(merged, e). map_option (\<lambda>e. (True, e)) (if merged then Some e else v_merged_request ops r BACK_MERGE e))"
    unfolding merge_back_def ll by (simp add: e1_def f_def)
  have els1: "els e1 = els e" by (simp add: e1_def)
  have okm1: "okm (reqs e1) (elevator.more e1)" using okm_cong [OF E(7), of "reqs e1"] f by (simp add: e1_def)
  have hash1: "hash_but {r} (els e) e1" unfolding e1_def by (rule hash_mod [OF E(5)]) (simp add: f)
  have b1: "batch_ok (f (reqs e r))" using E(6) r j by (auto simp: batch_ok_def f_def contiguous_append)
  have batch1: "\<forall>x\<in>els e. batch_ok (reqs e1 x)" using E(6) b1 by (simp add: e1_def)
  have t: "held (els e) (reqs e1) = add_mset req (held (els e) (reqs e))" "kept e e1"
    using took [OF e r, of f req] f by (simp_all add: e1_def) (simp_all add: f_def)
  from hash_reposition [OF hash1 r] obtain e2 where e2: "elv_rqhash_reposition r e1 = Some e2" "hash_but {} (els e) e2" "hash_step e1 e2"
    by auto
  have stay: ?thesis if "AttemptBackMerge ops r e1 = Some (False, e1)"
  proof -
    have "merge_back ops r req e = Some (True, e2\<lparr>last_rq := Some r\<rparr>)"
      unfolding mb that by (simp add: merged_back base_merged_request_def e2(1))
    moreover have "elv_ok (e2\<lparr>last_rq := Some r\<rparr>) \<and> held (els (e2\<lparr>last_rq := Some r\<rparr>)) (reqs (e2\<lparr>last_rq := Some r\<rparr>))
        = add_mset req (held (els e) (reqs e)) \<and> kept e (e2\<lparr>last_rq := Some r\<rparr>)"
    proof (rule finish_merge [OF e r, where B = "rq_batch (reqs e r) @ [req]"])
      show "hash_but {} (els e) (e2\<lparr>last_rq := Some r\<rparr>)" using e2(2) by (simp add: hash_but_def ELV_HASH_FN_def)
      show "okm (reqs (e2\<lparr>last_rq := Some r\<rparr>)) (elevator.more (e2\<lparr>last_rq := Some r\<rparr>))"
        using okm_cong [OF okm1, of "reqs e2"] hash_stepD [OF e2(3)] by simp
      show "batch_ok (reqs (e2\<lparr>last_rq := Some r\<rparr>) r)"
        using b1 batch_cong [of "reqs e2 r" "reqs e1 r"] hash_stepD [OF e2(3)] by (simp add: e1_def)
    qed (simp_all add: hash_stepD [OF e2(3)] E(3) els1, simp_all add: e1_def f_def E(3))
    moreover have "els e2 = els e" using hash_stepD [OF e2(3)] els1 by simp
    ultimately show ?thesis using r by auto
  qed
  have "okx r (reqs e1) (elevator.more e1)" using okm_okx [OF okm1] r els1 by simp
  from latter [OF this] r els1 obtain n where n: "v_latter ops r e1 = Some n" "\<forall>x. n = Some x \<longrightarrow> x \<in> els e - {r}" by auto
  show ?thesis
  proof (cases n)
    case None
    then show ?thesis using n(1) by (intro stay) (simp add: AttemptBackMerge_def)
  next
    case (Some x)
    then have x: "x \<in> els e" "x \<noteq> r" using n(2) by auto
    have am: "AttemptBackMerge ops r e1 = AttemptMerge ops r x e1" using n(1) Some by (simp add: AttemptBackMerge_def)
    have "merging {r} x e1" using E(1-4) hash1 batch1 okm_okx [OF okm1, of x] x els1 unfolding merging_def by (simp add: e1_def)
    from attempt_merge [OF this, of r] r x els1
    consider "AttemptMerge ops r x e1 = Some (False, e1)"
      | e' where "AttemptMerge ops r x e1 = Some (True, e')" "elv_ok e'" "els e' = els e - {x}"
        "held (els e') (reqs e') = held (els e) (reqs e1)" "kept e1 e'" by auto
    then show ?thesis
    proof cases
      case 1
      then show ?thesis using am by (intro stay) simp
    next
      case 2
      then have "merge_back ops r req e = Some (True, e')" unfolding mb am by simp
      moreover have "els e' \<noteq> {}" using 2(3) r x by blast
      ultimately show ?thesis using 2(2,4,5) t kept_trans by auto
    qed
  qed
qed

lemma merge_front_ok:
  assumes e: "elv_ok e" and r: "r \<in> els e" and j: "rq_off (reqs e r) - io_count req = io_off req"
    and fresh: "\<And>x. x \<in> els e \<Longrightarrow> rq_off (reqs e x) \<noteq> io_off req"
  shows "merge_front ops r req e = Some (False, e) \<or> merge_front ops r req e = Some (False, e\<lparr>last_rq := None\<rparr>)
    \<or> (\<exists>e'. merge_front ops r req e = Some (True, e') \<and> elv_ok e' \<and> els e' \<noteq> {}
        \<and> held (els e') (reqs e') = add_mset req (held (els e) (reqs e)) \<and> kept e e')"
proof (rule ll_cases [of r req e])
  assume "ll_merge_fn r req e = (False, e)"
  then show ?thesis by (simp add: merge_front_def)
next
  assume "ll_merge_fn r req e = (False, e\<lparr>last_rq := None\<rparr>)"
  then show ?thesis by (simp add: merge_front_def)
next
  assume ll: "ll_merge_fn r req e = (True, e)"
  define f :: "request \<Rightarrow> request" where
    "f = (\<lambda>q. q\<lparr>rq_batch := req # rq_batch q, rq_count := rq_count q + io_count req, rq_off := io_off req\<rparr>)"
  have f: "rq_cmd (f q) = rq_cmd q" "rq_hashed (f q) = rq_hashed q" for q by (simp_all add: f_def)
  define e1 where "e1 = mod_rq r f e"
  note E = elv_okD [OF e]
  have mb: "merge_front ops r req e = Option.bind (AttemptFrontMerge ops r e1)
      (\<lambda>(merged, e). map_option (\<lambda>e. (True, e)) (if merged then Some e else v_merged_request ops r FRONT_MERGE e))"
    unfolding merge_front_def ll by (simp add: e1_def f_def)
  have els1: "els e1 = els e" by (simp add: e1_def)
  have okx1: "okx r (reqs e1) (elevator.more e1)"
    using okx_cong [OF okm_okx [OF E(7) r], of "reqs e1"] f by (simp add: e1_def)
  have j': "io_off req + io_count req = rq_off (reqs e r)" using j by (simp flip: j)
  have "rq_hash_key (f (reqs e r)) = rq_hash_key (reqs e r)"
    unfolding rq_hash_key_def j' [symmetric] by (simp add: f_def)
  then have hash1: "hash_but {} (els e) e1" using E(5) f by (auto simp: hash_but_def e1_def)
  have b1: "batch_ok (f (reqs e r))" using E(6) r j' by (simp add: batch_ok_def f_def add.commute)
  have batch1: "\<forall>x\<in>els e. batch_ok (reqs e1 x)" using E(6) b1 by (simp add: e1_def)
  have t: "held (els e) (reqs e1) = add_mset req (held (els e) (reqs e))" "kept e e1"
    using took [OF e r, of f req] f by (simp_all add: e1_def) (simp_all add: f_def)
  have off1: "rq_off (reqs e1 x) \<noteq> rq_off (reqs e1 r)" if "x \<in> els e1 - {r}" for x
    using fresh [of x] that els1 by (auto simp: e1_def f_def)
  have "r \<in> els e1" using r els1 by simp
  from merged_front [OF okx1 this off1] obtain e2 where
    e2: "similar e1 e2" "v_merged_request ops r FRONT_MERGE e1 = base_merged_request r FRONT_MERGE e2"
      "els e2 = els e1" "okm (reqs e2) (elevator.more e2)" by auto
  have stay: ?thesis if "AttemptFrontMerge ops r e1 = Some (False, e1)"
  proof -
    have "merge_front ops r req e = Some (True, e2\<lparr>last_rq := Some r\<rparr>)"
      unfolding mb that by (simp add: base_merged_request_def e2(2))
    moreover have "elv_ok (e2\<lparr>last_rq := Some r\<rparr>) \<and> held (els (e2\<lparr>last_rq := Some r\<rparr>)) (reqs (e2\<lparr>last_rq := Some r\<rparr>))
        = add_mset req (held (els e) (reqs e)) \<and> kept e (e2\<lparr>last_rq := Some r\<rparr>)"
    proof (rule finish_merge [OF e r, where B = "req # rq_batch (reqs e r)"])
      have "hash_but {} (els e) e2" using hash1 similar_hash [OF e2(1)] by blast
      then show "hash_but {} (els e) (e2\<lparr>last_rq := Some r\<rparr>)" by (simp add: hash_but_def ELV_HASH_FN_def)
      show "batch_ok (reqs (e2\<lparr>last_rq := Some r\<rparr>) r)"
        using b1 batch_cong [of "reqs e2 r" "reqs e1 r"] similarD [OF e2(1)] by (simp add: e1_def)
    qed (simp_all add: similarD [OF e2(1)] E(3) els1 e2(3,4), simp_all add: e1_def f_def E(3))
    moreover have "els e2 \<noteq> {}" using e2(3) els1 r by blast
    ultimately show ?thesis by auto
  qed
  from former [OF okx1] r els1 obtain n where n: "v_former ops r e1 = Some n" "\<forall>x. n = Some x \<longrightarrow> x \<in> els e - {r}" by auto
  show ?thesis
  proof (cases n)
    case None
    then show ?thesis using n(1) by (intro stay) (simp add: AttemptFrontMerge_def)
  next
    case (Some x)
    then have x: "x \<in> els e" "x \<noteq> r" using n(2) by auto
    have am: "AttemptFrontMerge ops r e1 = AttemptMerge ops x r e1" using n(1) Some by (simp add: AttemptFrontMerge_def)
    have "merging {r} r e1" using E(1-4) hash_but_mono [OF hash1, of "{r}"] batch1 okx1 r els1 unfolding merging_def by (simp add: e1_def)
    from attempt_merge [OF this, of x] r x els1
    consider "AttemptMerge ops x r e1 = Some (False, e1)"
      | e' where "AttemptMerge ops x r e1 = Some (True, e')" "elv_ok e'" "els e' = els e - {r}"
        "held (els e') (reqs e') = held (els e) (reqs e1)" "kept e1 e'" by auto
    then show ?thesis
    proof cases
      case 1
      then show ?thesis using am by (intro stay) simp
    next
      case 2
      then have "merge_front ops r req e = Some (True, e')" unfolding mb am by simp
      moreover have "els e' \<noteq> {}" using 2(3) r x by blast
      ultimately show ?thesis using 2(2,4,5) t kept_trans by auto
    qed
  qed
qed

lemma merge_ioreq_ok:
  assumes e: "elv_ok e" and fresh: "\<And>x. x \<in> els e \<Longrightarrow> rq_off (reqs e x) \<noteq> io_off req"
  shows "merge_ioreq ops req e = Some (False, e) \<or> merge_ioreq ops req e = Some (False, e\<lparr>last_rq := None\<rparr>)
    \<or> (\<exists>e'. merge_ioreq ops req e = Some (True, e') \<and> elv_ok e' \<and> els e' \<noteq> {}
        \<and> held (els e') (reqs e') = add_mset req (held (els e) (reqs e)) \<and> kept e e')"
proof -
  note E = elv_okD [OF e]
  obtain k o' where m: "ElvMerge req e = (k, o')" by fastforce
  have none: "(k = NO_MERGE \<and> o' = None) \<or> (\<exists>r. o' = Some r \<and> r \<in> els e \<and> (
      k = BACK_MERGE \<and> rq_off (reqs e r) + rq_count (reqs e r) = io_off req \<or> k = FRONT_MERGE \<and> rq_off (reqs e r) - io_count req = io_off req))"
  proof (cases "\<exists>l. last_rq e = Some l \<and> (rq_off (reqs e l) + rq_count (reqs e l) = io_off req
      \<or> rq_off (reqs e l) - io_count req = io_off req)")
    case True
    then obtain l where l: "last_rq e = Some l" "rq_off (reqs e l) + rq_count (reqs e l) = io_off req
      \<or> rq_off (reqs e l) - io_count req = io_off req" by blast
    then have "l \<in> els e" using E(4) by blast
    then show ?thesis using m l by (intro disjI2 exI [of _ l]) (auto simp: ElvMerge_def split: if_splits)
  next
    case False
    then have "ElvMerge req e = (case elv_rqhash_find (io_off req) e of
        Some rq \<Rightarrow> if ElvMergeOK rq req e then (BACK_MERGE, Some rq) else (NO_MERGE, None) | None \<Rightarrow> (NO_MERGE, None))"
      by (auto simp: ElvMerge_def split: option.splits)
    then show ?thesis using m hash_find [OF E(5), of "io_off req"]
      by (cases "elv_rqhash_find (io_off req) e") (auto split: if_splits)
  qed
  show ?thesis
  proof (cases "k = NO_MERGE")
    case True
    then have "fst (v_merge ops req e) = NO_MERGE" using merge_kind m by simp
    then show ?thesis by (cases "v_merge ops req e") (simp add: merge_ioreq_def)
  next
    case False
    then obtain r where r: "o' = Some r" "r \<in> els e" "k = BACK_MERGE \<and> rq_off (reqs e r) + rq_count (reqs e r) = io_off req
        \<or> k = FRONT_MERGE \<and> rq_off (reqs e r) - io_count req = io_off req" using none by auto
    have v: "v_merge ops req e = (k, Some r)"
      using merge_kind [of req e] merge_which [of req e] m r(1) False by (simp add: prod_eq_iff)
    show ?thesis using r(3)
    proof
      assume "k = BACK_MERGE \<and> rq_off (reqs e r) + rq_count (reqs e r) = io_off req"
      then show ?thesis using merge_back_ok [OF e r(2), of req] by (simp add: merge_ioreq_def v)
    next
      assume "k = FRONT_MERGE \<and> rq_off (reqs e r) - io_count req = io_off req"
      then show ?thesis using merge_front_ok [OF e r(2) _ fresh] by (simp add: merge_ioreq_def v)
    qed
  qed
qed

text \<open>A new request.\<close>

lemma elv_ok_last: "elv_ok e \<Longrightarrow> elv_ok (e\<lparr>last_rq := None\<rparr>)"
  by (simp add: elv_ok_def base_ok_def hash_but_def ELV_HASH_FN_def)

lemma insert_ok:
  assumes e: "elv_ok e" and fresh: "\<And>x. x \<in> els e \<Longrightarrow> rq_off (reqs e x) \<noteq> io_off req"
  shows "\<exists>e'. insert_request ops now (fresh_rq e) INSERT_SORT (snd (new_request req e)) = Some e' \<and> elv_ok e'
    \<and> els e' = insert (fresh_rq e) (els e) \<and> held (els e') (reqs e') = add_mset req (held (els e) (reqs e)) \<and> kept e e'"
proof -
  note E = elv_okD [OF e]
  define r where "r = fresh_rq e"
  have rn: "r \<notin> els e" using E(2) by (auto simp: r_def)
  define q where "q = \<lparr>rq_cmd = io_cmd req, rq_off = io_off req, rq_count = io_count req, rq_time = 0,
      rq_flags = 0 OR REQ_SORTED, rq_batch = [req], rq_hashed = False\<rparr>"
  define e1 where "e1 = e\<lparr>fresh_rq := r + 1, elv_count := (elv_count e)(io_cmd req := elv_count e (io_cmd req) + 1),
      reqs := (reqs e)(r := q)\<rparr>"
  have e1: "mod_rq r (\<lambda>q. q\<lparr>rq_flags := rq_flags q OR REQ_SORTED\<rparr>) (snd (new_request req e)) = e1"
    by (simp add: new_request_def mod_rq_def e1_def q_def r_def Let_def)
  have "hash_but {} (els e) e1" using E(5) rn by (auto simp: hash_but_def e1_def ELV_HASH_FN_def)
  moreover have "\<not> rq_hashed (reqs e1 r)" by (simp add: e1_def q_def)
  ultimately obtain e2 h where e2: "elv_rqhash_add r e1 = Some e2" "hash_but {} (insert r (els e)) e2"
    "e2 = (mod_rq r (\<lambda>q. q\<lparr>rq_hashed := True\<rparr>) e1)\<lparr>elv_hash := h\<rparr>" using hash_add [of "{}" "els e" e1 r] rn by auto
  define e3 where "e3 = (if last_rq e2 = None then e2\<lparr>last_rq := Some r\<rparr> else e2)"
  have e3: "els e3 = els e" "reqs e3 = (reqs e)(r := q\<lparr>rq_hashed := True\<rparr>)" "disp e3 = []" "fresh_rq e3 = r + 1"
    "elv_count e3 = (elv_count e)(io_cmd req := elv_count e (io_cmd req) + 1)" "inflight e3 = inflight e"
    "unplug_threshold e3 = unplug_threshold e" "elevator.more e3 = elevator.more e" "hash_but {} (insert r (els e)) e3"
    "last_rq e3 = Some r \<or> last_rq e3 = last_rq e"
    using E(3) e2(2) by (auto simp: e3_def e2(3) e1_def hash_but_def ELV_HASH_FN_def)
  have ok3: "okm (reqs e3) (elevator.more e3)" unfolding e3(8) by (rule okm_cong [OF E(7)]) (use rn e3(2) in auto)
  have rn3: "r \<notin> els e3" using rn e3(1) by simp
  have off3: "rq_off (reqs e3 x) \<noteq> rq_off (reqs e3 r)" if "x \<in> els e3" for x
    using fresh that e3(1,2) rn by (auto simp: q_def)
  from add [OF ok3 rn3 off3, of now] obtain e4 where
    e4: "similar e3 e4" "v_add ops now r e3 = Some e4" "els e4 = insert r (els e3)" "okm (reqs e4) (elevator.more e4)" by blast
  have res: "insert_request ops now r INSERT_SORT (snd (new_request req e)) = Some e4"
    using e2(1) e4(2) by (simp add: insert_request_def e1 e3_def)
  note S = similarD [OF e4(1)]
  have els4: "els e4 = insert r (els e)" using e4(3) e3(1) by simp
  have "batch_ok (reqs e4 r)" using S by (simp add: batch_ok_def e3(2) q_def)
  moreover have "batch_ok (reqs e4 x)" if x: "x \<in> els e" for x
  proof -
    have "x \<noteq> r" using x rn by blast
    then have "batch_ok (reqs e4 x) = batch_ok (reqs e x)" by (intro batch_cong) (simp_all add: S e3(2))
    then show ?thesis using E(6) x by simp
  qed
  moreover have "hash_but {} (els e4) e4" using e3(9) similar_hash [OF e4(1)] els4 by simp
  moreover have "\<forall>x. last_rq e4 = Some x \<longrightarrow> x \<in> els e4" using E(4) S(2) e3(10) els4 by auto
  ultimately have "elv_ok e4" using E(1,2) S(1,3) e3(3,4) e4(4) els4 by (auto simp: elv_ok_def base_ok_def r_def)
  moreover have "held (els e4) (reqs e4) = add_mset req (held (els e) (reqs e))"
  proof -
    have "held (els e) (reqs e4) = held (els e) (reqs e)" using rn S(14) e3(2) by (intro held_cong) auto
    then show ?thesis unfolding els4 using E(1) rn S(14) by (simp add: held_insert e3(2) q_def)
  qed
  moreover have "kept e e4" unfolding kept_def
  proof (intro conjI allI impI)
    fix c
    have "of_cmd (els e) (reqs e4) c = of_cmd (els e) (reqs e) c" using rn S(13) e3(2) by (intro of_cmd_cong) auto
    then show "elv_count e4 c - of_cmd (els e4) (reqs e4) c = elv_count e c - of_cmd (els e) (reqs e) c"
      unfolding els4 using E(1) rn S(5,13) by (simp add: of_cmd_insert e3(2,5) q_def)
  next
    fix x assume "x < fresh_rq e" "x \<notin> els e"
    then show "x \<notin> els e4" "rq_cmd (reqs e4 x) = rq_cmd (reqs e x)" "rq_batch (reqs e4 x) = rq_batch (reqs e x)"
      using S(13,14) els4 by (auto simp: e3(2) r_def)
  qed (use S e3(4,6,7) in \<open>simp_all add: r_def\<close>)
  ultimately show ?thesis using res els4 unfolding r_def by blast
qed

text \<open>Taking the next request.\<close>

lemma dequeue_empty: "elv_ok e \<Longrightarrow> els e = {} \<Longrightarrow> ElvDequeue ops e = Some (None, e)"
  using dispatch_empty [of e] elv_okD [of e] by (simp add: ElvDequeue_def ElvNextRequest.simps [of ops e])

lemma dispatched:
  assumes "d = elv_dispatch_add_tail r e \<or> d = ElvDispatchSort r e" "disp e = []" "hash_but {} E e"
  shows "disp d = [r] \<and> hash_but {} (E - {r}) d \<and> last_rq d \<noteq> Some r \<and> (last_rq d = None \<or> last_rq d = last_rq e)
    \<and> elevator.more d = elevator.more e \<and> fresh_rq d = fresh_rq e \<and> inflight d = inflight e \<and> elv_count d = elv_count e
    \<and> unplug_threshold d = unplug_threshold e
    \<and> (\<forall>x. rq_off (reqs d x) = rq_off (reqs e x) \<and> rq_count (reqs d x) = rq_count (reqs e x)
         \<and> rq_cmd (reqs d x) = rq_cmd (reqs e x) \<and> rq_batch (reqs d x) = rq_batch (reqs e x))"
proof -
  define e0 where "e0 = (if d = elv_dispatch_add_tail r e \<and> last_rq e \<noteq> Some r then e else e\<lparr>last_rq := None\<rparr>)"
  have h0: "hash_but {} E e0" using assms(3) by (simp add: e0_def hash_but_def ELV_HASH_FN_def)
  define h where "h = elv_rqhash_del r e0"
  have st: "hash_step e0 h" unfolding h_def by (rule hash_del_step)
  have hh: "hash_but {} (E - {r}) h" using hash_del [OF h0, of r] by (simp add: h_def)
  have "\<exists>p b. d = h\<lparr>elv_sorted := elv_sorted h - 1, endpos := p, boundary := b, disp := [r]\<rparr>"
  proof (cases "d = elv_dispatch_add_tail r e")
    case True
    have e0: "(if last_rq e = Some r then e\<lparr>last_rq := None\<rparr> else e) = e0" using True by (simp add: e0_def)
    have "disp h = []" using hash_stepD [OF st] assms(2) by (simp add: e0_def)
    then have "elv_dispatch_add_tail r e = h\<lparr>elv_sorted := elv_sorted h - 1, endpos := rq_end_pos (reqs h r), boundary := Some r, disp := [r]\<rparr>"
      unfolding elv_dispatch_add_tail_def Let_def e0 h_def [symmetric] by simp
    then show ?thesis using True by blast
  next
    case False
    then have e0: "e0 = e\<lparr>last_rq := None\<rparr>" by (simp add: e0_def)
    have "disp h = []" using hash_stepD [OF st] assms(2) by (simp add: e0_def)
    then have "ElvDispatchSort r e = h\<lparr>elv_sorted := elv_sorted h - 1, endpos := endpos h, boundary := boundary h, disp := [r]\<rparr>"
      unfolding ElvDispatchSort_def Let_def e0 [symmetric] h_def [symmetric] by simp
    then show ?thesis using False assms(1) by blast
  qed
  then obtain p b where d: "d = h\<lparr>elv_sorted := elv_sorted h - 1, endpos := p, boundary := b, disp := [r]\<rparr>" by blast
  have "hash_but {} (E - {r}) d" using hh by (simp add: d hash_but_def ELV_HASH_FN_def)
  then show ?thesis using hash_stepD [OF st] by (simp add: d) (simp add: e0_def)
qed

lemma dequeue_some:
  assumes e: "elv_ok e" and ne: "els e \<noteq> {}"
  shows "\<exists>r e'. ElvDequeue ops e = Some (Some r, e') \<and> r \<in> els e \<and> elv_ok e' \<and> els e' = els e - {r}
    \<and> held (els e) (reqs e) = mset (rq_batch (reqs e r)) + held (els e') (reqs e') \<and> fresh_rq e' = fresh_rq e
    \<and> inflight e' = inflight e + 1 \<and> elv_count e' = elv_count e \<and> unplug_threshold e' = unplug_threshold e
    \<and> (\<forall>x. rq_off (reqs e' x) = rq_off (reqs e x) \<and> rq_count (reqs e' x) = rq_count (reqs e x)
         \<and> rq_cmd (reqs e' x) = rq_cmd (reqs e x) \<and> rq_batch (reqs e' x) = rq_batch (reqs e x))"
proof -
  note E = elv_okD [OF e]
  obtain e1 r d where e1: "similar e e1" "r \<in> els e" "els e1 = els e - {r}" "okm (reqs e1) (elevator.more e1)"
    "v_dispatch ops e = Some (True, d)" "d = elv_dispatch_add_tail r e1 \<or> d = ElvDispatchSort r e1"
    using dispatch [OF E(7) ne] by blast
  note S = similarD [OF e1(1)]
  have "disp e1 = []" "hash_but {} (els e) e1" using S(1) E(3,5) similar_hash [OF e1(1)] by simp_all
  note D = dispatched [OF e1(6) this]
  define d1 where "d1 = mod_rq r (\<lambda>q. q\<lparr>rq_flags := rq_flags q OR REQ_STARTED\<rparr>) (d\<lparr>disp := []\<rparr>)"
  define d2 where "d2 = (if boundary d1 = None \<or> boundary d1 = Some r then d1\<lparr>endpos := rq_end_pos (reqs d1 r), boundary := None\<rparr> else d1)"
  define e' where "e' = d2\<lparr>inflight := inflight d2 + 1\<rparr>"
  have "ElvNextRequest ops d = Some (Some r, d\<lparr>disp := []\<rparr>)" using D by (subst ElvNextRequest.simps) simp
  then have "ElvNextRequest ops e = Some (Some r, d\<lparr>disp := []\<rparr>)" using E(3) e1(5) by (subst ElvNextRequest.simps) simp
  then have res: "ElvDequeue ops e = Some (Some r, e')" unfolding ElvDequeue_def Let_def e'_def d2_def d1_def by simp
  have f: "disp e' = []" "last_rq e' = last_rq d" "elevator.more e' = elevator.more d" "fresh_rq e' = fresh_rq d" "inflight e' = inflight d + 1"
    "elv_count e' = elv_count d" "unplug_threshold e' = unplug_threshold d" "elv_hash e' = elv_hash d" "hash_shift e' = hash_shift d"
    by (simp_all add: e'_def d2_def d1_def)
  have g: "rq_off (reqs e' x) = rq_off (reqs d x)" "rq_count (reqs e' x) = rq_count (reqs d x)" "rq_cmd (reqs e' x) = rq_cmd (reqs d x)"
    "rq_batch (reqs e' x) = rq_batch (reqs d x)" "rq_hashed (reqs e' x) = rq_hashed (reqs d x)" for x
    by (simp_all add: e'_def d2_def d1_def)
  have same: "rq_off (reqs e' x) = rq_off (reqs e x)" "rq_count (reqs e' x) = rq_count (reqs e x)" "rq_cmd (reqs e' x) = rq_cmd (reqs e x)"
    "rq_batch (reqs e' x) = rq_batch (reqs e x)" for x using g D S by simp_all
  have els': "els e' = els e - {r}" using f(3) D e1(3) by simp
  have hash: "hash_but {} (els e - {r}) e'"
    using D f(8,9) g by (simp add: hash_but_def ELV_HASH_FN_def rq_hash_key_def)
  have "okm (reqs e') (elevator.more e')" using okm_cong [OF e1(4), of "reqs e'"] D f(3) same S by simp
  moreover have "\<forall>x\<in>els e - {r}. batch_ok (reqs e' x)" using E(6) same batch_cong [of "reqs e' _" "reqs e _"] by blast
  moreover have "\<forall>x. last_rq e' = Some x \<longrightarrow> x \<in> els e - {r}" using D E(4) S(2) f(2) by auto
  moreover have "\<forall>x\<in>els e - {r}. x < fresh_rq e'" using E(2) D S(3) f(4) by auto
  ultimately have "elv_ok e'" using E(1) f(1) hash unfolding elv_ok_def base_ok_def els' by simp
  moreover have "held (els e) (reqs e) = mset (rq_batch (reqs e r)) + held (els e') (reqs e')"
  proof -
    have "held (els e - {r}) (reqs e') = held (els e - {r}) (reqs e)" using same(4) by (intro held_cong)
    moreover have "held (insert r (els e - {r})) (reqs e) = mset (rq_batch (reqs e r)) + held (els e - {r}) (reqs e)"
      using E(1) by (intro held_insert) auto
    moreover have "insert r (els e - {r}) = els e" using e1(2) by blast
    ultimately show ?thesis using els' by simp
  qed
  moreover have "fresh_rq e' = fresh_rq e" "inflight e' = inflight e + 1" "elv_count e' = elv_count e" "unplug_threshold e' = unplug_threshold e"
    using D S f by simp_all
  ultimately show ?thesis using res e1(2) els' same by blast
qed

end

section \<open>The hash function\<close>

lemma hash_long_mult: "hash_long val bits = drop_bit (64 - bits) (val * 0x9e37fffffffc0001)"
  by (simp add: hash_long_def Let_def push_bit_eq_mult algebra_simps)

text \<open>The shifts and additions of hash_long are the multiplication by the
  golden ratio prime that the code for other word sizes writes, and the hash
  of \<open>bits\<close> bits indexes a table of 2 to the power \<open>bits\<close>.\<close>

theorem hash_long_is_multiplicative:
  assumes "0 < bits" "bits \<le> 32"
  shows "hash_long val bits = drop_bit (64 - bits) (val * 0x9e37fffffffc0001) \<and> unat (hash_long val bits) < 2 ^ bits"
proof -
  have "unat (drop_bit (64 - bits) x) < 2 ^ bits" for x :: u64
  proof -
    have "unat (drop_bit (64 - bits) x) = unat x div 2 ^ (64 - bits)" by (subst unat_drop_bit_eq) (simp add: drop_bit_eq_div)
    also have "\<dots> < 2 ^ bits"
    proof -
      have "(2::nat) ^ bits * 2 ^ (64 - bits) = 2 ^ 64" using assms by (simp flip: power_add)
      moreover have "unat x < 2 ^ 64" using unsigned_less [of x] by simp
      ultimately show ?thesis by (simp add: less_mult_imp_div_less)
    qed
    finally show ?thesis .
  qed
  then show ?thesis by (simp add: hash_long_mult)
qed

theorem hash_long_is_multiplicative_witness: "hash_long 4096 6 = 0x1f \<and> unat (hash_long 4096 6) < 2 ^ 6"
  using hash_long_is_multiplicative [of 6 4096] by simp
end
