(* ===== verification/ElvKinds.thy ===== *)
theory ElvKinds
  imports Elevator NrsRbTree
begin

text \<open>
  The two elevators of src/lustre/elvdeadline.cpp and elvnoop.cpp, as tables of
  the virtual methods of theory Elevator.
\<close>

section \<open>The deadline elevator\<close>

record deadline = elevator +
  sort_list :: "rw \<Rightarrow> nat rbtree"
  fifo_list :: "rw \<Rightarrow> nat list"
  next_rq :: "rw \<Rightarrow> nat option"
  fifo_expire :: "rw \<Rightarrow> u64"
  batching :: u32
  front_merges :: bool
  dl_headpos :: u64

text \<open>rb_next and rb_prev at the node of a request; the outer \<open>None\<close> is a
  request that is not in the tree.\<close>

definition elv_next :: "nat \<Rightarrow> nat rbtree \<Rightarrow> nat option option" where
  "elv_next rq T = map_option (\<lambda>(c, l, x, r, p). rb_next r p) (rb_locate rq (rb_root T) [])"

definition elv_prev :: "nat \<Rightarrow> nat rbtree \<Rightarrow> nat option option" where
  "elv_prev rq T = map_option (\<lambda>(c, l, x, r, p). rb_prev l p) (rb_locate rq (rb_root T) [])"

definition set_sort :: "rw \<Rightarrow> nat rbtree \<Rightarrow> deadline \<Rightarrow> deadline" where
  "set_sort c T e = e\<lparr>sort_list := (sort_list e)(c := T)\<rparr>"

text \<open>A request with the same offset in the tree runs into the assertion.\<close>

definition deadline_add_rq_rb :: "nat \<Rightarrow> deadline \<Rightarrow> deadline option" where
  "deadline_add_rq_rb rq e =
     (let c = rq_cmd (reqs e rq) in
      case elv_rb_add (reqs e) rq (sort_list e c) of
        None \<Rightarrow> None
      | Some (Some alias, T) \<Rightarrow> None
      | Some (None, T) \<Rightarrow> Some (set_sort c T e))"

definition deadline_del_rq_rb :: "nat \<Rightarrow> deadline \<Rightarrow> deadline option" where
  "deadline_del_rq_rb rq e =
     (let c = rq_cmd (reqs e rq) in
      Option.bind
        (if next_rq e c = Some rq
         then map_option (\<lambda>n. e\<lparr>next_rq := (next_rq e)(c := n)\<rparr>) (elv_next rq (sort_list e c)) else Some e)
        (\<lambda>e. map_option (\<lambda>T. set_sort c T e) (elv_rb_del rq (sort_list e c))))"

definition deadline_remove_request :: "nat \<Rightarrow> deadline \<Rightarrow> deadline option" where
  "deadline_remove_request rq e =
     (let e = e\<lparr>fifo_list := (\<lambda>c. remove1 rq (fifo_list e c))\<rparr> in
      deadline_del_rq_rb rq (mod_rq rq (\<lambda>q. q\<lparr>rq_time := 0\<rparr>) e))"

definition deadline_move_to_dispatch :: "nat \<Rightarrow> deadline \<Rightarrow> deadline option" where
  "deadline_move_to_dispatch rq e = map_option (elv_dispatch_add_tail rq) (deadline_remove_request rq e)"

definition deadline_move_request :: "nat \<Rightarrow> deadline \<Rightarrow> deadline option" where
  "deadline_move_request rq e =
     (let c = rq_cmd (reqs e rq) in
      Option.bind (elv_next rq (sort_list e c)) (\<lambda>n.
        deadline_move_to_dispatch rq
          (e\<lparr>next_rq := (\<lambda>_. None)(c := n), dl_headpos := rq_off (reqs e rq) + rq_count (reqs e rq)\<rparr>)))"

definition deadline_check_fifo :: "cfs_time \<Rightarrow> rw \<Rightarrow> deadline \<Rightarrow> bool" where
  "deadline_check_fifo clock c e \<longleftrightarrow> (case fifo_list e c of [] \<Rightarrow> False | r # _ \<Rightarrow> clock \<ge> rq_time (reqs e r))"

text \<open>When a request that could be merged in front is found, the method sets
  \<open>*rq\<close> but returns 0, ELEVATOR_NO_MERGE.\<close>

definition DeadlineMerge :: "ioreq \<Rightarrow> deadline \<Rightarrow> merge \<times> nat option" where
  "DeadlineMerge req e =
     (let (rc, rq) = ElvMerge req e in
      if rc \<noteq> NO_MERGE then (rc, rq)
      else if front_merges e
      then (case elv_rb_find (reqs e) (io_off req + io_count req) (sort_list e (io_cmd req)) of
              Some r \<Rightarrow> if ElvMergeOK r req e then (NO_MERGE, Some r) else (NO_MERGE, None)
            | None \<Rightarrow> (NO_MERGE, None))
      else (NO_MERGE, None))"

text \<open>The request of the lowest offset of a direction.\<close>

definition dispatch_simple :: "rw \<Rightarrow> deadline \<Rightarrow> (bool \<times> deadline) option" where
  "dispatch_simple c e =
     (case rb_first (sort_list e c) of
        None \<Rightarrow> None
      | Some rq \<Rightarrow> map_option (\<lambda>e. (True, e)) (deadline_move_request rq (e\<lparr>batching := 0 + 1\<rparr>)))"

text \<open>The jump to \<open>dispatch_simple\<close> leaves out the code that would serve
  batches and expired requests.\<close>

definition DeadlineDispatch :: "deadline \<Rightarrow> (bool \<times> deadline) option" where
  "DeadlineDispatch e =
     (if fifo_list e WRITE \<noteq> [] then dispatch_simple WRITE e
      else if fifo_list e READ \<noteq> [] then dispatch_simple READ e
      else Some (False, e))"

definition DeadlineFormer :: "nat \<Rightarrow> deadline \<Rightarrow> nat option option" where
  "DeadlineFormer rq e = elv_prev rq (sort_list e (rq_cmd (reqs e rq)))"

definition DeadlineLatter :: "nat \<Rightarrow> deadline \<Rightarrow> nat option option" where
  "DeadlineLatter rq e = elv_next rq (sort_list e (rq_cmd (reqs e rq)))"

definition DeadlineMergeRequests :: "nat \<Rightarrow> nat \<Rightarrow> deadline \<Rightarrow> deadline option" where
  "DeadlineMergeRequests rq next e = Option.bind (deadline_remove_request next e) (base_merge_requests rq next)"

definition DeadlineAddRequest :: "cfs_time \<Rightarrow> nat \<Rightarrow> deadline \<Rightarrow> deadline option" where
  "DeadlineAddRequest clock rq e =
     map_option (\<lambda>e. let c = rq_cmd (reqs e rq);
                       e = mod_rq rq (\<lambda>q. q\<lparr>rq_time := clock + fifo_expire e c\<rparr>) e in
                   e\<lparr>fifo_list := (fifo_list e)(c := fifo_list e c @ [rq])\<rparr>) (deadline_add_rq_rb rq e)"

definition DeadlineQueueEmpty :: "deadline \<Rightarrow> bool" where
  "DeadlineQueueEmpty e \<longleftrightarrow> fifo_list e READ = [] \<and> fifo_list e WRITE = []"

definition DeadlineMergedRequest :: "nat \<Rightarrow> merge \<Rightarrow> deadline \<Rightarrow> deadline option" where
  "DeadlineMergedRequest rq type e =
     Option.bind
       (if type = FRONT_MERGE
        then Option.bind (elv_rb_del rq (sort_list e (rq_cmd (reqs e rq)))) (\<lambda>T.
               deadline_add_rq_rb rq (set_sort (rq_cmd (reqs e rq)) T e))
        else Some e) (base_merged_request rq type)"

definition ElvDeadline :: "unit deadline_ext elv_ops" where
  "ElvDeadline = \<lparr>v_merge = DeadlineMerge, v_dispatch = DeadlineDispatch, v_add = DeadlineAddRequest,
     v_empty = DeadlineQueueEmpty, v_former = DeadlineFormer, v_latter = DeadlineLatter,
     v_merge_requests = DeadlineMergeRequests, v_merged_request = DeadlineMergedRequest\<rparr>"

section \<open>The no-op elevator\<close>

record noop = elevator +
  nq :: "nat list"

definition NoopDispatch :: "noop \<Rightarrow> (bool \<times> noop) option" where
  "NoopDispatch e =
     (case nq e of
        [] \<Rightarrow> Some (False, e)
      | rq # rest \<Rightarrow> Some (True, ElvDispatchSort rq (e\<lparr>nq := rest\<rparr>)))"

definition NoopAddRequest :: "cfs_time \<Rightarrow> nat \<Rightarrow> noop \<Rightarrow> noop option" where
  "NoopAddRequest clock rq e = Some (e\<lparr>nq := nq e @ [rq]\<rparr>)"

definition NoopQueueEmpty :: "noop \<Rightarrow> bool" where
  "NoopQueueEmpty e \<longleftrightarrow> nq e = []"

text \<open>The neighbours of a request in the queue.\<close>

definition NoopFormer :: "nat \<Rightarrow> noop \<Rightarrow> nat option option" where
  "NoopFormer rq e =
     (if rq \<notin> set (nq e) then None
      else Some (case rev (takeWhile (\<lambda>x. x \<noteq> rq) (nq e)) of [] \<Rightarrow> None | x # _ \<Rightarrow> Some x))"

definition NoopLatter :: "nat \<Rightarrow> noop \<Rightarrow> nat option option" where
  "NoopLatter rq e =
     (case dropWhile (\<lambda>x. x \<noteq> rq) (nq e) of
        [] \<Rightarrow> None
      | _ # rest \<Rightarrow> Some (case rest of [] \<Rightarrow> None | x # _ \<Rightarrow> Some x))"

definition NoopMergeRequests :: "nat \<Rightarrow> nat \<Rightarrow> noop \<Rightarrow> noop option" where
  "NoopMergeRequests rq next e = base_merge_requests rq next (e\<lparr>nq := remove1 next (nq e)\<rparr>)"

definition ElvNoop :: "unit noop_ext elv_ops" where
  "ElvNoop = \<lparr>v_merge = ElvMerge, v_dispatch = NoopDispatch, v_add = NoopAddRequest,
     v_empty = NoopQueueEmpty, v_former = NoopFormer, v_latter = NoopLatter,
     v_merge_requests = NoopMergeRequests, v_merged_request = base_merged_request\<rparr>"

section \<open>The trees of requests\<close>

definition off_cmp :: "(nat \<Rightarrow> request) \<Rightarrow> nat \<Rightarrow> nat \<Rightarrow> int" where
  "off_cmp R a b = (if rq_off (R a) < rq_off (R b) then -1 else 1)"

abbreviation by_off :: "(nat \<Rightarrow> request) \<Rightarrow> nat list \<Rightarrow> bool" where
  "by_off R xs \<equiv> sorted_wrt (\<lambda>x y. rq_off (R x) < rq_off (R y)) xs"

lemma walk_new:
  "\<forall>x\<in>set (inord t). rq_off (R x) \<noteq> rq_off (R rq) \<Longrightarrow> elv_rb_walk R (rq_off (R rq)) t p = Inr (rb_walk (off_cmp R) rq t p)"
  by (induction t arbitrary: p) (auto simp: off_cmp_def)

lemma off_rank: "by_rank (off_cmp R) (\<lambda>x. rq_off (R x))"
  by (auto simp: by_rank_def off_cmp_def)

lemma by_off_iff: "by_off R xs \<longleftrightarrow> sorted (map (\<lambda>x. rq_off (R x)) xs) \<and> distinct (map (\<lambda>x. rq_off (R x)) xs)"
  by (metis strict_sorted_iff sorted_wrt_map)

text \<open>The tree operations on balanced trees whose counter is not kept.\<close>

lemma tree_count: "tree_ok (rb_root T) \<longleftrightarrow> rb_ok (T\<lparr>rb_num := int (length (inord (rb_root T)))\<rparr>)"
  by (simp add: tree_ok_def rb_ok_def)

lemma rb_add_ok:
  assumes "tree_ok (rb_root T)" "by_off R (inord (rb_root T))" "\<forall>x\<in>set (inord (rb_root T)). rq_off (R x) \<noteq> rq_off (R rq)"
  shows "\<exists>T'. elv_rb_add R rq T = Some (None, T') \<and> tree_ok (rb_root T') \<and> by_off R (inord (rb_root T'))
    \<and> mset (inord (rb_root T')) = add_mset rq (mset (inord (rb_root T)))"
proof -
  let ?T = "T\<lparr>rb_num := int (length (inord (rb_root T)))\<rparr>" and ?c = "off_cmp R" and ?k = "\<lambda>x. rq_off (R x)"
  obtain T1 where T1: "rb_insert ?c rq ?T = Some T1" "rb_ok T1" using insert_total [of ?T ?c rq] assms(1) tree_count by blast
  have srt: "sorted (map ?k (inord (rb_root T)))" "distinct (map ?k (inord (rb_root T)))" using assms(2) by_off_iff by blast+
  have "cut_at ?c rq (inord (rb_root ?T))" using by_rank_cut [OF off_rank srt(1)] by simp
  from insert_inord [OF T1(1) this] have "inord (rb_root T1) = place ?c rq (inord (rb_root T))" by simp
  then have s1: "sorted (map ?k (inord (rb_root T1)))" using place_sorted [OF by_rank_ranked [OF off_rank] srt(1), of rq] by simp
  have ms: "mset (inord (rb_root T1)) = add_mset rq (mset (inord (rb_root T)))" using insert_mset(1) [OF T1(1)] by simp
  have "mset (map ?k (inord (rb_root T1))) = mset (map ?k (rq # inord (rb_root T)))" using ms by simp
  moreover have "distinct (map ?k (rq # inord (rb_root T)))" using srt(2) assms(3) by auto
  ultimately have "distinct (map ?k (inord (rb_root T1)))" using mset_eq_imp_distinct_iff by blast
  then have "by_off R (inord (rb_root T1))" using s1 by_off_iff by blast
  moreover obtain t p where tp: "rb_insert_color (Node Red Leaf rq Leaf) (rb_walk ?c rq (rb_root T) []) = Some (t, p)"
    "rb_root T1 = rb_set_black (zip_up t p)" using T1(1) by (auto simp: rb_insert_def)
  moreover have "elv_rb_add R rq T = Some (None, T\<lparr>rb_root := rb_root T1\<rparr>)"
    using tp walk_new [OF assms(3), of "[]"] by (simp add: elv_rb_add_def)
  moreover have "tree_ok (rb_root T1)" using T1(2) by (simp add: rb_ok_def tree_ok_def)
  ultimately show ?thesis using ms by (intro exI [of _ "T\<lparr>rb_root := rb_root T1\<rparr>"]) simp
qed

lemma rb_del_ok:
  assumes "tree_ok (rb_root T)" "x \<in> set (inord (rb_root T))"
  shows "\<exists>T' xs ys. elv_rb_del x T = Some T' \<and> tree_ok (rb_root T') \<and> inord (rb_root T) = xs @ x # ys \<and> inord (rb_root T') = xs @ ys"
proof -
  let ?T = "T\<lparr>rb_num := int (length (inord (rb_root T)))\<rparr>"
  have "rb_ok ?T" using assms(1) tree_count by blast
  from erase_total [OF this, of x] assms(2) obtain T1 xs ys where T1: "rb_erase x ?T = Some T1" "rb_ok T1"
    "inord (rb_root ?T) = xs @ x # ys" "inord (rb_root T1) = xs @ ys" by auto
  obtain T' where "rb_erase x T = Some T'" "rb_root T' = rb_root T1"
    using T1(1) by (auto simp: rb_erase_def split: option.splits)
  moreover have "tree_ok (rb_root T1)" "inord (rb_root T) = xs @ x # ys" using T1(2,3) by (simp_all add: rb_ok_def tree_ok_def)
  ultimately show ?thesis using T1(4) unfolding elv_rb_del_def by metis
qed

lemma neighbours:
  assumes "x \<in> set (inord (rb_root T))" "distinct (inord (rb_root T))"
  shows "\<exists>n. elv_next x T = Some n \<and> (\<forall>y. n = Some y \<longrightarrow> y \<in> set (inord (rb_root T)) - {x})"
    "\<exists>n. elv_prev x T = Some n \<and> (\<forall>y. n = Some y \<longrightarrow> y \<in> set (inord (rb_root T)) - {x})"
proof -
  obtain c l r p where loc: "rb_locate x (rb_root T) [] = Some (c, l, x, r, p)" using locate_in [OF assms(1)] by blast
  have i: "inord (rb_root T) = (lefts p @ inord l) @ x # (inord r @ rights p)" using locate_facts(2) [OF loc] by simp
  show "\<exists>n. elv_next x T = Some n \<and> (\<forall>y. n = Some y \<longrightarrow> y \<in> set (inord (rb_root T)) - {x})"
  proof (cases "inord r @ rights p")
    case Nil
    then show ?thesis using loc by (simp add: elv_next_def next_inord)
  next
    case (Cons y ys)
    have "elv_next x T = Some (if inord r @ rights p = [] then None else Some (hd (inord r @ rights p)))"
      by (simp only: elv_next_def loc next_inord option.map prod.case)
    then have "elv_next x T = Some (Some y)" unfolding Cons by simp
    moreover have "y \<noteq> x" using assms(2) unfolding i Cons by auto
    ultimately show ?thesis unfolding i Cons by auto
  qed
  show "\<exists>n. elv_prev x T = Some n \<and> (\<forall>y. n = Some y \<longrightarrow> y \<in> set (inord (rb_root T)) - {x})"
  proof (cases "lefts p @ inord l" rule: rev_cases)
    case Nil
    then show ?thesis using loc by (simp add: elv_prev_def prev_inord)
  next
    case (snoc ys y)
    have "elv_prev x T = Some (if lefts p @ inord l = [] then None else Some (last (lefts p @ inord l)))"
      by (simp only: elv_prev_def loc prev_inord option.map prod.case)
    then have "elv_prev x T = Some (Some y)" unfolding snoc by simp
    moreover have "y \<noteq> x" using assms(2) unfolding i snoc by auto
    ultimately show ?thesis unfolding i snoc by auto
  qed
qed

section \<open>The invariant of the deadline elevator\<close>

definition dl_tree :: "unit deadline_ext \<Rightarrow> rw \<Rightarrow> nat rbtree" where
  "dl_tree m = sort_list (elevator.extend undefined m)"

definition dl_fifo :: "unit deadline_ext \<Rightarrow> rw \<Rightarrow> nat list" where
  "dl_fifo m = fifo_list (elevator.extend undefined m)"

abbreviation dl_line :: "unit deadline_ext \<Rightarrow> rw \<Rightarrow> nat list" where
  "dl_line m c \<equiv> inord (rb_root (dl_tree m c))"

definition dl_elems :: "unit deadline_ext \<Rightarrow> nat set" where
  "dl_elems m = set (dl_line m READ) \<union> set (dl_line m WRITE)"

definition dl_struct :: "(nat \<Rightarrow> request) \<Rightarrow> unit deadline_ext \<Rightarrow> bool" where
  "dl_struct R m \<longleftrightarrow> (\<forall>c. tree_ok (rb_root (dl_tree m c)) \<and> distinct (dl_line m c) \<and> (\<forall>x\<in>set (dl_line m c). rq_cmd (R x) = c)
     \<and> distinct (dl_fifo m c) \<and> set (dl_fifo m c) = set (dl_line m c))"

definition dl_ok :: "(nat \<Rightarrow> request) \<Rightarrow> unit deadline_ext \<Rightarrow> bool" where
  "dl_ok R m \<longleftrightarrow> dl_struct R m \<and> (\<forall>c. by_off R (dl_line m c))"

definition dl_okx :: "nat \<Rightarrow> (nat \<Rightarrow> request) \<Rightarrow> unit deadline_ext \<Rightarrow> bool" where
  "dl_okx r R m \<longleftrightarrow> dl_struct R m \<and> (\<forall>c. by_off R (remove1 r (dl_line m c)))"

lemma dl_more [simp]: "dl_tree (elevator.more e) = sort_list e" "dl_fifo (elevator.more e) = fifo_list e"
  by (cases e; simp add: dl_tree_def dl_fifo_def elevator.extend_def)+

lemma dl_elems_cmd: "dl_struct R m \<Longrightarrow> x \<in> dl_elems m \<Longrightarrow> x \<in> set (dl_line m (rq_cmd (R x)))"
  unfolding dl_struct_def dl_elems_def by (metis UnE)

lemma dl_line_elems: "x \<in> set (dl_line m c) \<Longrightarrow> x \<in> dl_elems m"
  by (cases c) (auto simp: dl_elems_def)

lemma dl_struct_cong:
  "dl_struct R m \<Longrightarrow> (\<And>x. x \<in> dl_elems m \<Longrightarrow> rq_cmd (R' x) = rq_cmd (R x)) \<Longrightarrow> dl_struct R' m"
  unfolding dl_struct_def using dl_line_elems by simp

lemma by_off_cong: "by_off R xs \<Longrightarrow> (\<And>x. x \<in> set xs \<Longrightarrow> rq_off (R' x) = rq_off (R x)) \<Longrightarrow> by_off R' xs"
  by (erule sorted_wrt_mono_rel [rotated]) simp

lemma sorted_wrt_remove1: "sorted_wrt P xs \<Longrightarrow> sorted_wrt P (remove1 x xs)"
  by (induction xs) (auto dest: notin_set_remove1)

lemma dl_okx_okm: "dl_ok R m \<Longrightarrow> dl_okx r R m"
  unfolding dl_ok_def dl_okx_def by (simp add: sorted_wrt_remove1)

section \<open>The methods keep the contract\<close>

lemma set_sort_more [simp]:
  "sort_list (set_sort c T e) = (sort_list e)(c := T)" "fifo_list (set_sort c T e) = fifo_list e" "reqs (set_sort c T e) = reqs e"
  by (simp_all add: set_sort_def)

lemma similar_set_sort: "similar e e' \<Longrightarrow> similar e (set_sort c T e')"
  unfolding similar_def [of e e'] by (elim exE) (rule similarI, simp_all add: set_sort_def)

text \<open>Taking a request out of the tree and the queue of its direction.\<close>

lemma del_rq_ok:
  assumes s: "dl_struct (reqs e) (elevator.more e)" and x: "x \<in> dl_elems (elevator.more e)"
  shows "\<exists>e' T' xs ys. deadline_remove_request x e = Some e' \<and> similar e e' \<and> tree_ok (rb_root T')
    \<and> inord (rb_root (sort_list e (rq_cmd (reqs e x)))) = xs @ x # ys \<and> inord (rb_root T') = xs @ ys
    \<and> sort_list e' = (sort_list e)(rq_cmd (reqs e x) := T') \<and> fifo_list e' = (\<lambda>c. remove1 x (fifo_list e c))"
proof -
  let ?c = "rq_cmd (reqs e x)"
  have xl: "x \<in> set (inord (rb_root (sort_list e ?c)))" using dl_elems_cmd [OF s x] by simp
  have st: "tree_ok (rb_root (sort_list e ?c))" "distinct (inord (rb_root (sort_list e ?c)))" using s by (auto simp: dl_struct_def)
  obtain T' xs ys where T': "elv_rb_del x (sort_list e ?c) = Some T'" "tree_ok (rb_root T')"
    "inord (rb_root (sort_list e ?c)) = xs @ x # ys" "inord (rb_root T') = xs @ ys" using rb_del_ok [OF st(1) xl] by blast
  define e1 where "e1 = mod_rq x (\<lambda>q. q\<lparr>rq_time := 0\<rparr>) (e\<lparr>fifo_list := (\<lambda>c. remove1 x (fifo_list e c))\<rparr>)"
  have e1: "sort_list e1 = sort_list e" "rq_cmd (reqs e1 x) = ?c" "next_rq e1 = next_rq e" "fifo_list e1 = (\<lambda>c. remove1 x (fifo_list e c))"
    by (simp_all add: e1_def mod_rq_def)
  obtain n where n: "elv_next x (sort_list e ?c) = Some n" using neighbours(1) [OF xl st(2)] by blast
  define e2 where "e2 = (if next_rq e ?c = Some x then e1\<lparr>next_rq := (next_rq e)(?c := n)\<rparr> else e1)"
  have rem: "deadline_remove_request x e = Some (set_sort ?c T' e2)"
  proof -
    have "deadline_remove_request x e = deadline_del_rq_rb x e1" by (simp add: deadline_remove_request_def e1_def Let_def)
    also have "\<dots> = Some (set_sort ?c T' e2)"
      unfolding deadline_del_rq_rb_def Let_def e1 n e2_def using T'(1) e1(1) by simp
    finally show ?thesis .
  qed
  have "similar e e2"
    by (rule similarI [where t = "\<lambda>r. if r = x then 0 else rq_time (reqs e r)"]) (simp_all add: e2_def e1_def mod_rq_def)
  then have "similar e (set_sort ?c T' e2)" by (rule similar_set_sort)
  moreover have "sort_list (set_sort ?c T' e2) = (sort_list e)(?c := T')" "fifo_list (set_sort ?c T' e2) = (\<lambda>c. remove1 x (fifo_list e c))"
    using e1 by (simp_all add: e2_def)
  ultimately show ?thesis using rem T' by blast
qed

lemma removed_ok:
  assumes x: "dl_okx x (reqs e) (elevator.more e)" "x \<in> dl_elems (elevator.more e)"
  shows "\<exists>e'. deadline_remove_request x e = Some e' \<and> similar e e' \<and> dl_elems (elevator.more e') = dl_elems (elevator.more e) - {x}
    \<and> dl_ok (reqs e') (elevator.more e')"
proof -
  have s: "dl_struct (reqs e) (elevator.more e)" using x(1) by (simp add: dl_okx_def)
  let ?c = "rq_cmd (reqs e x)"
  obtain e' T' xs ys where r: "deadline_remove_request x e = Some e'" "similar e e'" "tree_ok (rb_root T')"
    "inord (rb_root (sort_list e ?c)) = xs @ x # ys" "inord (rb_root T') = xs @ ys"
    "sort_list e' = (sort_list e)(?c := T')" "fifo_list e' = (\<lambda>c. remove1 x (fifo_list e c))" using del_rq_ok [OF s x(2)] by blast
  have S: "tree_ok (rb_root (sort_list e c))" "distinct (inord (rb_root (sort_list e c)))" "distinct (fifo_list e c)"
    "set (fifo_list e c) = set (inord (rb_root (sort_list e c)))" for c using s by (simp_all add: dl_struct_def)
  have cmd: "\<forall>y\<in>set (inord (rb_root (sort_list e c))). rq_cmd (reqs e y) = c" for c using s by (simp add: dl_struct_def)
  have xs: "x \<notin> set xs" "x \<notin> set ys" "distinct (xs @ ys)" using S(2) [of ?c] unfolding r(4) by auto
  have line: "inord (rb_root (sort_list e' c)) = remove1 x (inord (rb_root (sort_list e c)))" for c
  proof (cases "c = ?c")
    case True
    then show ?thesis using r(4-6) xs(1) by (simp add: remove1_append)
  next
    case False
    then have "x \<notin> set (inord (rb_root (sort_list e c)))" using cmd [of c] False by metis
    then show ?thesis using False r(6) by (simp add: remove1_idem)
  qed
  have sets: "set (inord (rb_root (sort_list e' c))) = set (inord (rb_root (sort_list e c))) - {x}" for c
    unfolding line using S(2) by simp
  have "dl_elems (elevator.more e') = dl_elems (elevator.more e) - {x}" using sets by (auto simp: dl_elems_def)
  moreover have "dl_struct (reqs e') (elevator.more e')" unfolding dl_struct_def
  proof (intro allI conjI)
    fix c
    show "tree_ok (rb_root (dl_tree (elevator.more e') c))" using S(1) r(3,6) by simp
    show "distinct (dl_line (elevator.more e') c)" using S(2) by (simp add: line distinct_remove1)
    show "\<forall>y\<in>set (dl_line (elevator.more e') c). rq_cmd (reqs e' y) = c" using cmd sets similarD(13) [OF r(2)] by simp
    show "distinct (dl_fifo (elevator.more e') c)" using S(3) r(7) by (simp add: distinct_remove1)
    show "set (dl_fifo (elevator.more e') c) = set (dl_line (elevator.more e') c)" using S(3,4) sets r(7) by simp
  qed
  moreover have "by_off (reqs e') (dl_line (elevator.more e') c)" for c
  proof -
    have "by_off (reqs e) (remove1 x (inord (rb_root (sort_list e c))))" using x(1) by (simp add: dl_okx_def)
    then show ?thesis using line similarD(11) [OF r(2)] by simp
  qed
  ultimately show ?thesis using r(1,2) by (auto simp: dl_ok_def)
qed

text \<open>Putting one in.\<close>

lemma added_ok:
  assumes s: "dl_ok (reqs e) (elevator.more e)" and new: "rq \<notin> dl_elems (elevator.more e)"
    and off: "\<And>x. x \<in> dl_elems (elevator.more e) \<Longrightarrow> rq_off (reqs e x) \<noteq> rq_off (reqs e rq)"
  shows "\<exists>T. deadline_add_rq_rb rq e = Some (set_sort (rq_cmd (reqs e rq)) T e) \<and> tree_ok (rb_root T) \<and> by_off (reqs e) (inord (rb_root T))
    \<and> mset (inord (rb_root T)) = add_mset rq (mset (inord (rb_root (sort_list e (rq_cmd (reqs e rq))))))"
proof -
  let ?c = "rq_cmd (reqs e rq)"
  have "tree_ok (rb_root (sort_list e ?c))" "by_off (reqs e) (inord (rb_root (sort_list e ?c)))"
    using s by (simp_all add: dl_ok_def dl_struct_def)
  moreover have "\<forall>x\<in>set (inord (rb_root (sort_list e ?c))). rq_off (reqs e x) \<noteq> rq_off (reqs e rq)"
    using off dl_line_elems [of _ "elevator.more e" ?c] by simp
  ultimately obtain T where "elv_rb_add (reqs e) rq (sort_list e ?c) = Some (None, T)" "tree_ok (rb_root T)"
    "by_off (reqs e) (inord (rb_root T))" "mset (inord (rb_root T)) = add_mset rq (mset (inord (rb_root (sort_list e ?c))))"
    using rb_add_ok by blast
  then show ?thesis by (auto simp: deadline_add_rq_rb_def Let_def)
qed

lemma deadline_add:
  assumes s: "dl_ok (reqs e) (elevator.more e)" and new: "rq \<notin> dl_elems (elevator.more e)"
    and off: "\<And>x. x \<in> dl_elems (elevator.more e) \<Longrightarrow> rq_off (reqs e x) \<noteq> rq_off (reqs e rq)"
  shows "\<exists>e'. similar e e' \<and> DeadlineAddRequest now rq e = Some e' \<and> dl_elems (elevator.more e') = insert rq (dl_elems (elevator.more e))
    \<and> dl_ok (reqs e') (elevator.more e')"
proof -
  let ?c = "rq_cmd (reqs e rq)"
  obtain T where T: "deadline_add_rq_rb rq e = Some (set_sort ?c T e)" "tree_ok (rb_root T)" "by_off (reqs e) (inord (rb_root T))"
    "mset (inord (rb_root T)) = add_mset rq (mset (inord (rb_root (sort_list e ?c))))" using added_ok [OF s new off] by blast
  define e' where "e' = (let e = mod_rq rq (\<lambda>q. q\<lparr>rq_time := now + fifo_expire e ?c\<rparr>) (set_sort ?c T e) in
      e\<lparr>fifo_list := (fifo_list e)(?c := fifo_list e ?c @ [rq])\<rparr>)"
  have res: "DeadlineAddRequest now rq e = Some e'" by (simp add: DeadlineAddRequest_def T(1) e'_def Let_def set_sort_def)
  have f: "sort_list e' = (sort_list e)(?c := T)" "fifo_list e' = (fifo_list e)(?c := fifo_list e ?c @ [rq])"
    by (simp_all add: e'_def Let_def mod_rq_def)
  have sim: "similar e e'"
    by (rule similarI [where t = "\<lambda>r. if r = rq then now + fifo_expire e ?c else rq_time (reqs e r)"])
      (simp_all add: e'_def Let_def mod_rq_def set_sort_def)
  note S = similarD [OF sim]
  have D: "tree_ok (rb_root (sort_list e c))" "distinct (inord (rb_root (sort_list e c)))" "distinct (fifo_list e c)"
    "set (fifo_list e c) = set (inord (rb_root (sort_list e c)))" "\<forall>x\<in>set (inord (rb_root (sort_list e c))). rq_cmd (reqs e x) = c"
    "by_off (reqs e) (inord (rb_root (sort_list e c)))" for c using s by (simp_all add: dl_ok_def dl_struct_def)
  have nl: "rq \<notin> set (inord (rb_root (sort_list e c)))" for c using new dl_line_elems [of rq "elevator.more e" c] by auto
  have Ts: "set (inord (rb_root T)) = insert rq (set (inord (rb_root (sort_list e ?c))))" using arg_cong [OF T(4), of set_mset] by simp
  have "mset (inord (rb_root T)) = mset (rq # inord (rb_root (sort_list e ?c)))" using T(4) by simp
  moreover have "distinct (rq # inord (rb_root (sort_list e ?c)))" using D(2) nl by simp
  ultimately have Td: "distinct (inord (rb_root T))" using mset_eq_imp_distinct_iff by blast
  have el: "dl_elems (elevator.more e') = insert rq (dl_elems (elevator.more e))"
  proof (cases ?c)
    case READ
    then show ?thesis using Ts by (simp add: dl_elems_def f)
  next
    case WRITE
    then show ?thesis using Ts by (simp add: dl_elems_def f)
  qed
  have "dl_struct (reqs e') (elevator.more e')" unfolding dl_struct_def
  proof (intro allI conjI)
    fix c
    show "tree_ok (rb_root (dl_tree (elevator.more e') c))" using D(1) T(2) by (simp add: f)
    show "distinct (dl_line (elevator.more e') c)" using D(2) Td by (simp add: f)
    show "\<forall>x\<in>set (dl_line (elevator.more e') c). rq_cmd (reqs e' x) = c" using D(5) Ts S(13) by (simp add: f)
    show "distinct (dl_fifo (elevator.more e') c)" using D(3,4) nl by (simp add: f)
    show "set (dl_fifo (elevator.more e') c) = set (dl_line (elevator.more e') c)" using D(4) Ts by (simp add: f)
  qed
  moreover have "by_off (reqs e') (dl_line (elevator.more e') c)" for c using T(3) D(6) S(11) by (simp add: f)
  ultimately show ?thesis using res sim el by (auto simp: dl_ok_def)
qed

text \<open>After its offset has changed, a request is taken out of the tree and put
  at its new place.\<close>

lemma deadline_moved:
  assumes x: "dl_okx r (reqs e) (elevator.more e)" "r \<in> dl_elems (elevator.more e)"
    and off: "\<And>y. y \<in> dl_elems (elevator.more e) - {r} \<Longrightarrow> rq_off (reqs e y) \<noteq> rq_off (reqs e r)"
  shows "\<exists>e'. similar e e' \<and> DeadlineMergedRequest r FRONT_MERGE e = base_merged_request r FRONT_MERGE e'
    \<and> dl_elems (elevator.more e') = dl_elems (elevator.more e) \<and> dl_ok (reqs e') (elevator.more e')"
proof -
  let ?c = "rq_cmd (reqs e r)"
  have s: "dl_struct (reqs e) (elevator.more e)" using x(1) by (simp add: dl_okx_def)
  have D: "tree_ok (rb_root (sort_list e c))" "distinct (inord (rb_root (sort_list e c)))" "distinct (fifo_list e c)"
    "set (fifo_list e c) = set (inord (rb_root (sort_list e c)))" "\<forall>x\<in>set (inord (rb_root (sort_list e c))). rq_cmd (reqs e x) = c"
    "by_off (reqs e) (remove1 r (inord (rb_root (sort_list e c))))" for c using s x(1) by (simp_all add: dl_struct_def dl_okx_def)
  have rl: "r \<in> set (inord (rb_root (sort_list e ?c)))" using dl_elems_cmd [OF s x(2)] by simp
  obtain T1 xs ys where T1: "elv_rb_del r (sort_list e ?c) = Some T1" "tree_ok (rb_root T1)"
    "inord (rb_root (sort_list e ?c)) = xs @ r # ys" "inord (rb_root T1) = xs @ ys" using rb_del_ok [OF D(1) rl] by blast
  have rn: "r \<notin> set xs" "r \<notin> set ys" "distinct (xs @ ys)" using D(2) [of ?c] unfolding T1(3) by auto
  have b1: "by_off (reqs e) (inord (rb_root T1))" using D(6) [of ?c] rn(1) unfolding T1(3,4) by (simp add: remove1_append)
  have o1: "\<forall>y\<in>set (inord (rb_root T1)). rq_off (reqs e y) \<noteq> rq_off (reqs e r)"
  proof
    fix y assume "y \<in> set (inord (rb_root T1))"
    then have "y \<in> set (inord (rb_root (sort_list e ?c)))" "y \<noteq> r" using rn unfolding T1(3,4) by auto
    then show "rq_off (reqs e y) \<noteq> rq_off (reqs e r)" using off dl_line_elems [of y "elevator.more e" ?c] by simp
  qed
  obtain T2 where T2: "elv_rb_add (reqs e) r T1 = Some (None, T2)" "tree_ok (rb_root T2)" "by_off (reqs e) (inord (rb_root T2))"
    "mset (inord (rb_root T2)) = add_mset r (mset (inord (rb_root T1)))" using rb_add_ok [OF T1(2) b1 o1] by blast
  define e' where "e' = set_sort ?c T2 e"
  have "deadline_add_rq_rb r (set_sort ?c T1 e) = Some e'"
    using T2(1) by (simp add: deadline_add_rq_rb_def Let_def e'_def set_sort_def)
  then have res: "DeadlineMergedRequest r FRONT_MERGE e = base_merged_request r FRONT_MERGE e'"
    by (simp add: DeadlineMergedRequest_def T1(1))
  have sim: "similar e e'" unfolding e'_def by (rule similar_set_sort) simp
  have ms: "mset (inord (rb_root T2)) = mset (inord (rb_root (sort_list e ?c)))" using T2(4) unfolding T1(3,4) by simp
  have st: "set (inord (rb_root T2)) = set (inord (rb_root (sort_list e ?c)))" using mset_eq_setD [OF ms] .
  have dt: "distinct (inord (rb_root T2))" using D(2) ms mset_eq_imp_distinct_iff by blast
  have sets: "set (dl_line (elevator.more e') c) = set (dl_line (elevator.more e) c)" for c using st by (simp add: e'_def)
  have "dl_struct (reqs e') (elevator.more e')" unfolding dl_struct_def
    using D T2(2) dt sets by (simp add: e'_def)
  moreover have "by_off (reqs e') (dl_line (elevator.more e') c)" for c
  proof (cases "c = ?c")
    case True
    then show ?thesis using T2(3) by (simp add: e'_def)
  next
    case False
    then have "r \<notin> set (inord (rb_root (sort_list e c)))" using D(5) [of c] by metis
    then show ?thesis using D(6) [of c] False by (simp add: e'_def remove1_idem)
  qed
  moreover have "dl_elems (elevator.more e') = dl_elems (elevator.more e)" unfolding dl_elems_def sets ..
  ultimately show ?thesis using res sim by (auto simp: dl_ok_def)
qed

lemma deadline_dispatch:
  assumes s: "dl_ok (reqs e) (elevator.more e)" and ne: "dl_elems (elevator.more e) \<noteq> {}"
  shows "\<exists>e' r c. similar e e' \<and> r \<in> dl_elems (elevator.more e) \<and> dl_elems (elevator.more e') = dl_elems (elevator.more e) - {r}
    \<and> dl_ok (reqs e') (elevator.more e') \<and> DeadlineDispatch e = Some (True, elv_dispatch_add_tail r e')
    \<and> (c = WRITE \<or> dl_line (elevator.more e) WRITE = []) \<and> dl_line (elevator.more e) c \<noteq> [] \<and> r = hd (dl_line (elevator.more e) c)"
proof -
  have st: "dl_struct (reqs e) (elevator.more e)" using s by (simp add: dl_ok_def)
  have F: "fifo_list e c = [] \<longleftrightarrow> inord (rb_root (sort_list e c)) = []" for c
  proof -
    have "set (fifo_list e c) = set (inord (rb_root (sort_list e c)))" using st by (simp add: dl_struct_def)
    then show ?thesis by (metis set_empty)
  qed
  define c where "c = (if inord (rb_root (sort_list e WRITE)) \<noteq> [] then WRITE else READ)"
  have cl: "inord (rb_root (sort_list e c)) \<noteq> []" using ne by (auto simp: c_def dl_elems_def)
  define r where "r = hd (inord (rb_root (sort_list e c)))"
  have rl: "r \<in> set (inord (rb_root (sort_list e c)))" using cl by (simp add: r_def)
  have rc: "rq_cmd (reqs e r) = c" using st rl by (simp add: dl_struct_def)
  have re: "r \<in> dl_elems (elevator.more e)" using rl dl_line_elems [of r "elevator.more e" c] by simp
  have d: "DeadlineDispatch e = dispatch_simple c e" using cl unfolding DeadlineDispatch_def c_def F by auto
  have first: "rb_first (sort_list e c) = Some r" using cl by (simp add: rb_first_def first_of_inord r_def)
  have dis: "distinct (inord (rb_root (sort_list e c)))" using st by (simp add: dl_struct_def)
  obtain n where n: "elv_next r (sort_list e c) = Some n" using neighbours(1) [OF rl dis] by blast
  define e1 where "e1 = e\<lparr>batching := 0 + 1, next_rq := (\<lambda>_. None)(c := n), dl_headpos := rq_off (reqs e r) + rq_count (reqs e r)\<rparr>"
  have e1: "sort_list e1 = sort_list e" "reqs e1 = reqs e" "fifo_list e1 = fifo_list e" by (simp_all add: e1_def)
  have s1: "similar e e1" by (rule similarI [where t = "\<lambda>r. rq_time (reqs e r)"]) (simp_all add: e1_def)
  have more1: "dl_tree (elevator.more e1) = dl_tree (elevator.more e)" "dl_fifo (elevator.more e1) = dl_fifo (elevator.more e)" by (simp_all add: e1)
  have x1: "dl_okx r (reqs e1) (elevator.more e1)" "r \<in> dl_elems (elevator.more e1)"
    using dl_okx_okm [OF s, of r] re by (simp_all add: dl_okx_def dl_struct_def dl_elems_def more1 e1)
  obtain e2 where e2: "deadline_remove_request r e1 = Some e2" "similar e1 e2" "dl_elems (elevator.more e2) = dl_elems (elevator.more e1) - {r}"
    "dl_ok (reqs e2) (elevator.more e2)" using removed_ok [OF x1] by blast
  have "dispatch_simple c e = Some (True, elv_dispatch_add_tail r e2)"
    unfolding dispatch_simple_def first deadline_move_request_def deadline_move_to_dispatch_def Let_def
    using n e2(1) rc by (simp add: e1_def)
  moreover have "similar e e2"
  proof -
    obtain m t where "e2 = e1\<lparr>elevator.more := m, reqs := \<lambda>r. (reqs e1 r)\<lparr>rq_time := t r\<rparr>\<rparr>" using e2(2) unfolding similar_def by blast
    then show ?thesis by (intro similarI [where t = t]) (simp_all add: e1_def)
  qed
  moreover have "dl_elems (elevator.more e1) = dl_elems (elevator.more e)" by (simp add: dl_elems_def e1)
  ultimately show ?thesis using d e2(3,4) re cl by (intro exI [of _ e2] exI [of _ r] exI [of _ c]) (auto simp: r_def c_def)
qed

interpretation deadline: elevator_methods ElvDeadline dl_elems dl_ok dl_okx
proof
  fix req :: ioreq and e :: deadline
  show "fst (v_merge ElvDeadline req e) = fst (ElvMerge req e)"
    by (simp add: ElvDeadline_def DeadlineMerge_def split_beta split: option.splits)
  show "fst (ElvMerge req e) \<noteq> NO_MERGE \<Longrightarrow> snd (v_merge ElvDeadline req e) = snd (ElvMerge req e)"
    by (simp add: ElvDeadline_def DeadlineMerge_def split_beta)
next
  fix R R' :: "nat \<Rightarrow> request" and m r
  assume "dl_ok R m" "\<And>r. r \<in> dl_elems m \<Longrightarrow> rq_off (R' r) = rq_off (R r) \<and> rq_cmd (R' r) = rq_cmd (R r)"
  then show "dl_ok R' m" unfolding dl_ok_def
    using dl_struct_cong [of R m R'] by_off_cong [of R "dl_line m _" R'] dl_line_elems [of _ m] by metis
next
  fix R m r
  assume "dl_ok R m"
  then show "dl_okx r R m" by (rule dl_okx_okm)
next
  fix R R' :: "nat \<Rightarrow> request" and m r
  assume a: "dl_okx r R m" "\<And>x. x \<in> dl_elems m \<Longrightarrow> rq_cmd (R' x) = rq_cmd (R x) \<and> (x \<noteq> r \<longrightarrow> rq_off (R' x) = rq_off (R x))"
  have "by_off R' (remove1 r (dl_line m c))" for c
  proof (rule by_off_cong)
    show "by_off R (remove1 r (dl_line m c))" using a(1) by (simp add: dl_okx_def)
    fix x assume "x \<in> set (remove1 r (dl_line m c))"
    moreover have "distinct (dl_line m c)" using a(1) by (simp add: dl_okx_def dl_struct_def)
    ultimately have "x \<in> set (dl_line m c)" "x \<noteq> r" by simp_all
    then show "rq_off (R' x) = rq_off (R x)" using a(2) dl_line_elems by blast
  qed
  then show "dl_okx r R' m" using a dl_struct_cong [of R m R'] unfolding dl_okx_def by blast
next
  fix e :: deadline
  assume s: "dl_ok (reqs e) (elevator.more e)"
  then have "set (fifo_list e c) = set (inord (rb_root (sort_list e c)))" for c by (simp add: dl_ok_def dl_struct_def)
  then show "v_empty ElvDeadline e \<longleftrightarrow> dl_elems (elevator.more e) = {}"
    by (simp add: ElvDeadline_def DeadlineQueueEmpty_def dl_elems_def flip: set_empty)
  show "dl_elems (elevator.more e) = {} \<Longrightarrow> v_dispatch ElvDeadline e = Some (False, e)"
    using \<open>\<And>c. set (fifo_list e c) = set (inord (rb_root (sort_list e c)))\<close>
    by (simp add: ElvDeadline_def DeadlineDispatch_def dl_elems_def flip: set_empty)
  show "dl_elems (elevator.more e) \<noteq> {} \<Longrightarrow> \<exists>e' r. similar e e' \<and> r \<in> dl_elems (elevator.more e)
      \<and> dl_elems (elevator.more e') = dl_elems (elevator.more e) - {r} \<and> dl_ok (reqs e') (elevator.more e')
      \<and> (v_dispatch ElvDeadline e = Some (True, elv_dispatch_add_tail r e') \<or> v_dispatch ElvDeadline e = Some (True, ElvDispatchSort r e'))"
    using deadline_dispatch [OF s] unfolding ElvDeadline_def elv_ops.simps by blast
next
  fix e :: deadline and r
  assume a: "dl_okx r (reqs e) (elevator.more e)" "r \<in> dl_elems (elevator.more e)"
  then have s: "dl_struct (reqs e) (elevator.more e)" by (simp add: dl_okx_def)
  have "distinct (dl_line (elevator.more e) c)" for c using s by (simp add: dl_struct_def)
  then have l: "r \<in> set (inord (rb_root (sort_list e (rq_cmd (reqs e r)))))" "distinct (inord (rb_root (sort_list e (rq_cmd (reqs e r)))))"
    using dl_elems_cmd [OF s a(2)] by simp_all
  have i: "set (inord (rb_root (sort_list e (rq_cmd (reqs e r))))) - {r} \<subseteq> dl_elems (elevator.more e) - {r}"
    using dl_line_elems [of _ "elevator.more e" "rq_cmd (reqs e r)"] by auto
  show "\<exists>n. v_latter ElvDeadline r e = Some n \<and> (\<forall>x. n = Some x \<longrightarrow> x \<in> dl_elems (elevator.more e) - {r})"
    using neighbours(1) [OF l] i unfolding ElvDeadline_def elv_ops.simps DeadlineLatter_def by blast
  show "\<exists>n. v_former ElvDeadline r e = Some n \<and> (\<forall>x. n = Some x \<longrightarrow> x \<in> dl_elems (elevator.more e) - {r})"
    using neighbours(2) [OF l] i unfolding ElvDeadline_def elv_ops.simps DeadlineFormer_def by blast
next
  fix n r and e :: deadline
  assume a: "dl_okx n (reqs e) (elevator.more e)" "n \<in> dl_elems (elevator.more e)"
  have m: "v_merge_requests ElvDeadline r n e = base_merge_requests r n e'" if "deadline_remove_request n e = Some e'" for e'
    by (simp add: ElvDeadline_def DeadlineMergeRequests_def that)
  show "\<exists>e'. similar e e' \<and> v_merge_requests ElvDeadline r n e = base_merge_requests r n e'
      \<and> dl_elems (elevator.more e') = dl_elems (elevator.more e) - {n} \<and> dl_ok (reqs e') (elevator.more e')"
    using removed_ok [OF a] m by blast
next
  fix r and e :: deadline
  show "v_merged_request ElvDeadline r BACK_MERGE e = base_merged_request r BACK_MERGE e"
    by (simp add: ElvDeadline_def DeadlineMergedRequest_def)
  show "dl_okx r (reqs e) (elevator.more e) \<Longrightarrow> r \<in> dl_elems (elevator.more e) \<Longrightarrow>
      (\<And>x. x \<in> dl_elems (elevator.more e) - {r} \<Longrightarrow> rq_off (reqs e x) \<noteq> rq_off (reqs e r)) \<Longrightarrow>
      \<exists>e'. similar e e' \<and> v_merged_request ElvDeadline r FRONT_MERGE e = base_merged_request r FRONT_MERGE e'
        \<and> dl_elems (elevator.more e') = dl_elems (elevator.more e) \<and> dl_ok (reqs e') (elevator.more e')"
    unfolding ElvDeadline_def elv_ops.simps by (rule deadline_moved)
  show "dl_ok (reqs e) (elevator.more e) \<Longrightarrow> r \<notin> dl_elems (elevator.more e) \<Longrightarrow>
      (\<And>x. x \<in> dl_elems (elevator.more e) \<Longrightarrow> rq_off (reqs e x) \<noteq> rq_off (reqs e r)) \<Longrightarrow>
      \<exists>e'. similar e e' \<and> v_add ElvDeadline now r e = Some e' \<and> dl_elems (elevator.more e') = insert r (dl_elems (elevator.more e))
        \<and> dl_ok (reqs e') (elevator.more e')" for now
    unfolding ElvDeadline_def elv_ops.simps by (rule deadline_add)
qed

section \<open>The no-op elevator keeps the contract\<close>

definition no_line :: "unit noop_ext \<Rightarrow> nat list" where
  "no_line m = nq (elevator.extend undefined m)"

definition no_elems :: "unit noop_ext \<Rightarrow> nat set" where
  "no_elems m = set (no_line m)"

definition no_ok :: "(nat \<Rightarrow> request) \<Rightarrow> unit noop_ext \<Rightarrow> bool" where
  "no_ok R m \<longleftrightarrow> distinct (no_line m)"

lemma no_more [simp]: "no_line (elevator.more e) = nq e"
  by (cases e) (simp add: no_line_def elevator.extend_def)

lemma noop_neighbours:
  assumes "r \<in> set (nq e)" "distinct (nq e)"
  shows "\<exists>n. NoopLatter r e = Some n \<and> (\<forall>x. n = Some x \<longrightarrow> x \<in> set (nq e) - {r})"
    "\<exists>n. NoopFormer r e = Some n \<and> (\<forall>x. n = Some x \<longrightarrow> x \<in> set (nq e) - {r})"
proof -
  obtain xs ys where i: "nq e = xs @ r # ys" using assms(1) by (meson split_list)
  have n: "r \<notin> set xs" "r \<notin> set ys" using assms(2) unfolding i by auto
  have "dropWhile (\<lambda>x. x \<noteq> r) (nq e) = r # ys" "takeWhile (\<lambda>x. x \<noteq> r) (nq e) = xs"
    unfolding i using n(1) by (auto simp: dropWhile_append takeWhile_append)
  then have "NoopLatter r e = Some (case ys of [] \<Rightarrow> None | x # _ \<Rightarrow> Some x)"
    "NoopFormer r e = Some (case rev xs of [] \<Rightarrow> None | x # _ \<Rightarrow> Some x)"
    using assms(1) by (simp_all add: NoopLatter_def NoopFormer_def)
  moreover have "(case ys of [] \<Rightarrow> None | x # _ \<Rightarrow> Some x) = Some x \<Longrightarrow> x \<in> set ys" for x by (cases ys) auto
  moreover have "(case rev xs of [] \<Rightarrow> None | x # _ \<Rightarrow> Some x) = Some x \<Longrightarrow> x \<in> set xs" for x
    using set_rev [of xs] by (cases "rev xs") auto
  ultimately show "\<exists>n. NoopLatter r e = Some n \<and> (\<forall>x. n = Some x \<longrightarrow> x \<in> set (nq e) - {r})"
    "\<exists>n. NoopFormer r e = Some n \<and> (\<forall>x. n = Some x \<longrightarrow> x \<in> set (nq e) - {r})"
    using n unfolding i by (auto intro!: exI)
qed

lemma similar_nq: "similar e (e\<lparr>nq := q\<rparr>)"
  by (rule similarI [where t = "\<lambda>r. rq_time (reqs e r)"]) simp_all

interpretation noop: elevator_methods ElvNoop no_elems no_ok "\<lambda>r. no_ok"
proof
  fix req :: ioreq and e :: noop
  show "fst (v_merge ElvNoop req e) = fst (ElvMerge req e)" by (simp add: ElvNoop_def)
  show "snd (v_merge ElvNoop req e) = snd (ElvMerge req e)" by (simp add: ElvNoop_def)
next
  fix e :: noop
  assume s: "no_ok (reqs e) (elevator.more e)"
  show "v_empty ElvNoop e \<longleftrightarrow> no_elems (elevator.more e) = {}"
    by (simp add: ElvNoop_def NoopQueueEmpty_def no_elems_def)
  show "no_elems (elevator.more e) = {} \<Longrightarrow> v_dispatch ElvNoop e = Some (False, e)"
    by (simp add: ElvNoop_def NoopDispatch_def no_elems_def)
  assume "no_elems (elevator.more e) \<noteq> {}"
  then obtain r q where q: "nq e = r # q" by (cases "nq e") (auto simp: no_elems_def)
  have "v_dispatch ElvNoop e = Some (True, ElvDispatchSort r (e\<lparr>nq := q\<rparr>))" using q by (simp add: ElvNoop_def NoopDispatch_def)
  moreover have "r \<in> no_elems (elevator.more e)" "no_elems (elevator.more (e\<lparr>nq := q\<rparr>)) = no_elems (elevator.more e) - {r}"
    "no_ok (reqs (e\<lparr>nq := q\<rparr>)) (elevator.more (e\<lparr>nq := q\<rparr>))" using s unfolding no_elems_def no_ok_def no_more q by auto
  ultimately show "\<exists>e' r. similar e e' \<and> r \<in> no_elems (elevator.more e) \<and> no_elems (elevator.more e') = no_elems (elevator.more e) - {r}
        \<and> no_ok (reqs e') (elevator.more e')
        \<and> (v_dispatch ElvNoop e = Some (True, elv_dispatch_add_tail r e') \<or> v_dispatch ElvNoop e = Some (True, ElvDispatchSort r e'))"
    using similar_nq by blast
next
  fix e :: noop and r
  assume "no_ok (reqs e) (elevator.more e)" "r \<in> no_elems (elevator.more e)"
  then have l: "r \<in> set (nq e)" "distinct (nq e)" by (simp_all add: no_ok_def no_elems_def)
  show "\<exists>n. v_latter ElvNoop r e = Some n \<and> (\<forall>x. n = Some x \<longrightarrow> x \<in> no_elems (elevator.more e) - {r})"
    using noop_neighbours(1) [OF l] by (simp add: ElvNoop_def no_elems_def)
  show "\<exists>n. v_former ElvNoop r e = Some n \<and> (\<forall>x. n = Some x \<longrightarrow> x \<in> no_elems (elevator.more e) - {r})"
    using noop_neighbours(2) [OF l] by (simp add: ElvNoop_def no_elems_def)
next
  fix n r and e :: noop
  assume "no_ok (reqs e) (elevator.more e)" "n \<in> no_elems (elevator.more e)"
  then have "no_elems (elevator.more (e\<lparr>nq := remove1 n (nq e)\<rparr>)) = no_elems (elevator.more e) - {n}"
    "no_ok (reqs (e\<lparr>nq := remove1 n (nq e)\<rparr>)) (elevator.more (e\<lparr>nq := remove1 n (nq e)\<rparr>))"
    by (simp_all add: no_elems_def no_ok_def distinct_remove1)
  moreover have "v_merge_requests ElvNoop r n e = base_merge_requests r n (e\<lparr>nq := remove1 n (nq e)\<rparr>)"
    by (simp add: ElvNoop_def NoopMergeRequests_def)
  ultimately show "\<exists>e'. similar e e' \<and> v_merge_requests ElvNoop r n e = base_merge_requests r n e'
        \<and> no_elems (elevator.more e') = no_elems (elevator.more e) - {n} \<and> no_ok (reqs e') (elevator.more e')"
    using similar_nq by blast
next
  fix r and e :: noop
  show "v_merged_request ElvNoop r BACK_MERGE e = base_merged_request r BACK_MERGE e" by (simp add: ElvNoop_def)
  have "v_merged_request ElvNoop r FRONT_MERGE e = base_merged_request r FRONT_MERGE e" by (simp add: ElvNoop_def)
  then show "no_ok (reqs e) (elevator.more e) \<Longrightarrow> r \<in> no_elems (elevator.more e) \<Longrightarrow>
      (\<And>x. x \<in> no_elems (elevator.more e) - {r} \<Longrightarrow> rq_off (reqs e x) \<noteq> rq_off (reqs e r)) \<Longrightarrow>
      \<exists>e'. similar e e' \<and> v_merged_request ElvNoop r FRONT_MERGE e = base_merged_request r FRONT_MERGE e'
        \<and> no_elems (elevator.more e') = no_elems (elevator.more e) \<and> no_ok (reqs e') (elevator.more e')"
    using similar_refl by blast
  show "no_ok (reqs e) (elevator.more e) \<Longrightarrow> r \<notin> no_elems (elevator.more e) \<Longrightarrow>
      (\<And>x. x \<in> no_elems (elevator.more e) \<Longrightarrow> rq_off (reqs e x) \<noteq> rq_off (reqs e r)) \<Longrightarrow>
      \<exists>e'. similar e e' \<and> v_add ElvNoop now r e = Some e' \<and> no_elems (elevator.more e') = insert r (no_elems (elevator.more e))
        \<and> no_ok (reqs e') (elevator.more e')" for now
    by (intro exI [of _ "e\<lparr>nq := nq e @ [r]\<rparr>"])
      (simp add: similar_nq ElvNoop_def NoopAddRequest_def no_elems_def no_ok_def)
qed (simp_all add: no_ok_def)

end
