(* ===== verification/Disk.thy ===== *)
theory Disk
  imports ElvKinds
begin

text \<open>
  The disk of src/lustre/disk.cpp on top of an elevator: plugging, the plug
  timer, and the state machine of the disk thread.  A pending event of the
  thread or the timer is its time.  The random parts of the times are
  parameters.  Statistics and the self benchmarks are left out.
\<close>

section \<open>State\<close>

datatype diskState = disk_IdleState | disk_WorkState | disk_ReqFinishedState | disk_LastState

text \<open>The requests are those of the elevator's store; \<open>done_io\<close> lists the I/O
  requests whose completion function was called.\<close>

record 'a disk =
  elv :: "'a elevator_scheme"
  pluged :: bool
  plug_timer :: "cfs_time option"
  ready_q :: "nat list"
  disk_state :: diskState
  curq :: "nat option"
  dk_headpos :: u64
  seeknr :: u32
  thread_at :: "cfs_time option"
  delay :: u64
  done_io :: "ioreq list"

text \<open>\<open>ctx_switch\<close>, \<open>latency\<close> and \<open>seek\<close> are the values drawn for
  Rand(CtxSwitchTicks), the latency and the seek time.\<close>

record disk_params =
  ctx_switch :: u64
  latency :: u64
  seek :: u64
  read_bandwidth :: u64
  write_bandwidth :: u64
  disk_unit :: u64

definition DT :: "disk_params \<Rightarrow> u64 \<Rightarrow> u64" where
  "DT p t = t * disk_unit p"

section \<open>Plugging\<close>

text \<open>Plug, with ModTimer and the assertion of RunAt that the time is not past.\<close>

definition Plug :: "cfs_time \<Rightarrow> 'a disk \<Rightarrow> 'a disk option" where
  "Plug now d =
     (if pluged d then Some d
      else let d = d\<lparr>pluged := True\<rparr>; expire = now + delay d in
        if plug_timer d = Some expire then Some d
        else if expire > now then Some (d\<lparr>plug_timer := Some expire\<rparr>) else None)"

definition RemovePlug :: "'a disk \<Rightarrow> bool \<times> 'a disk" where
  "RemovePlug d = (if \<not> pluged d then (False, d) else (True, d\<lparr>plug_timer := None, pluged := False\<rparr>))"

text \<open>SubmitRq; Signal asserts that the thread has no event.\<close>

definition SubmitRq :: "disk_params \<Rightarrow> cfs_time \<Rightarrow> nat \<Rightarrow> 'a disk \<Rightarrow> 'a disk option" where
  "SubmitRq p now r d =
     (let d = d\<lparr>ready_q := ready_q d @ [r]\<rparr> in
      if disk_state d = disk_IdleState
      then if thread_at d \<noteq> None then None
           else Some (d\<lparr>thread_at := Some (now + ctx_switch p), disk_state := disk_WorkState\<rparr>)
      else Some d)"

partial_function (option) disk_Request :: "'a elv_ops \<Rightarrow> disk_params \<Rightarrow> cfs_time \<Rightarrow> 'a disk \<Rightarrow> 'a disk option" where
  "disk_Request ops p now d =
     (case ElvDequeue ops (elv d) of
        None \<Rightarrow> None
      | Some (None, e) \<Rightarrow> Some (d\<lparr>elv := e\<rparr>)
      | Some (Some r, e) \<Rightarrow>
          Option.bind (SubmitRq p now r (d\<lparr>elv := e\<rparr>)) (disk_Request ops p now))"

definition Unplug :: "'a elv_ops \<Rightarrow> disk_params \<Rightarrow> cfs_time \<Rightarrow> 'a disk \<Rightarrow> 'a disk option" where
  "Unplug ops p now d = (let (was, d) = RemovePlug d in if was then disk_Request ops p now d else Some d)"

section \<open>Submitting\<close>

definition ElvInsertRequest :: "'a elv_ops \<Rightarrow> disk_params \<Rightarrow> cfs_time \<Rightarrow> nat \<Rightarrow> insert_where \<Rightarrow> 'a disk \<Rightarrow> 'a disk option" where
  "ElvInsertRequest ops p now r whr d =
     Option.bind (insert_request ops now r whr (elv d)) (\<lambda>e.
       let d = d\<lparr>elv := e\<rparr> in
       if pluged d \<and> GetPendingNum e \<ge> unplug_threshold e then Unplug ops p now d else Some d)"

text \<open>Elevator::Enqueue, which Disk::SubmitIoreq calls.\<close>

definition Enqueue :: "'a elv_ops \<Rightarrow> disk_params \<Rightarrow> cfs_time \<Rightarrow> ioreq \<Rightarrow> 'a disk \<Rightarrow> 'a disk option" where
  "Enqueue ops p now req d =
     Option.bind (merge_ioreq ops req (elv d)) (\<lambda>(merged, e).
       if merged then Some (d\<lparr>elv := e\<rparr>)
       else
         let (r, e) = new_request req e in
         Option.bind (if ElvQueueEmpty ops e then Plug now (d\<lparr>elv := e\<rparr>) else Some (d\<lparr>elv := e\<rparr>))
           (ElvInsertRequest ops p now r INSERT_SORT))"

section \<open>The disk thread\<close>

text \<open>EndRequest: the I/O requests of the batch complete one by one, then the
  request, which is deleted.\<close>

definition EndRequest :: "nat \<Rightarrow> 'a disk \<Rightarrow> 'a disk option" where
  "EndRequest r d =
     map_option (\<lambda>e. d\<lparr>elv := e, done_io := done_io d @ rq_batch (reqs (elv d) r)\<rparr>)
       (PutRequest r (mod_rq r (\<lambda>q. q\<lparr>rq_batch := []\<rparr>) (elv d)))"

definition service_ticks :: "disk_params \<Rightarrow> u64 \<Rightarrow> request \<Rightarrow> u64" where
  "service_ticks p head q =
     (if head \<noteq> rq_off q then seek p else latency p)
     + DT p (rq_count q div (if rq_cmd q = READ then read_bandwidth p else write_bandwidth p))"

definition work_state :: "disk_params \<Rightarrow> cfs_time \<Rightarrow> 'a disk \<Rightarrow> 'a disk" where
  "work_state p now d =
     (case ready_q d of
        [] \<Rightarrow> d\<lparr>curq := None, disk_state := disk_IdleState\<rparr>
      | r # rest \<Rightarrow>
          let q = reqs (elv d) r in
          d\<lparr>ready_q := rest, curq := Some r, seeknr := (if dk_headpos d \<noteq> rq_off q then seeknr d + 1 else seeknr d),
            thread_at := Some (now + service_ticks p (dk_headpos d) q), disk_state := disk_ReqFinishedState\<rparr>)"

definition DiskStateMachine :: "disk_params \<Rightarrow> cfs_time \<Rightarrow> 'a disk \<Rightarrow> 'a disk option" where
  "DiskStateMachine p now d =
     (case disk_state d of
        disk_WorkState \<Rightarrow> Some (work_state p now d)
      | disk_ReqFinishedState \<Rightarrow>
          (case curq d of
             None \<Rightarrow> None
           | Some r \<Rightarrow>
               let q = reqs (elv d) r in
               map_option (\<lambda>d. if pluged d then d\<lparr>disk_state := disk_IdleState\<rparr>
                              else work_state p now (d\<lparr>disk_state := disk_WorkState\<rparr>))
                 (EndRequest r (d\<lparr>dk_headpos := rq_off q + rq_count q\<rparr>)))
      | _ \<Rightarrow> Some d)"

text \<open>A pending event fires: of the thread or of the plug timer.\<close>

inductive disk_fires :: "'a elv_ops \<Rightarrow> disk_params \<Rightarrow> 'a disk \<Rightarrow> 'a disk \<Rightarrow> bool" for ops p where
  thread_fires: "thread_at d \<noteq> None \<Longrightarrow> DiskStateMachine p now (d\<lparr>thread_at := None\<rparr>) = Some d' \<Longrightarrow> disk_fires ops p d d'"
| timer_fires: "plug_timer d \<noteq> None \<Longrightarrow> Unplug ops p now (d\<lparr>plug_timer := None\<rparr>) = Some d' \<Longrightarrow> disk_fires ops p d d'"

section \<open>The invariant\<close>

text \<open>The requests that left the elevator and are not complete.\<close>

definition rqs_out :: "'a disk \<Rightarrow> nat list" where
  "rqs_out d = (if disk_state d = disk_ReqFinishedState then (case curq d of None \<Rightarrow> [] | Some r \<Rightarrow> [r]) else []) @ ready_q d"

definition disk_core :: "('a \<Rightarrow> nat set) \<Rightarrow> ((nat \<Rightarrow> request) \<Rightarrow> 'a \<Rightarrow> bool) \<Rightarrow> 'a disk \<Rightarrow> bool" where
  "disk_core elems okm d \<longleftrightarrow> (let e = elv d; E = elems (elevator.more e) in
     base_ok E e \<and> okm (reqs e) (elevator.more e)
     \<and> distinct (rqs_out d) \<and> (\<forall>r\<in>set (rqs_out d). r < fresh_rq e \<and> r \<notin> E)
     \<and> (\<forall>c. elv_count e c = of_cmd E (reqs e) c + int (length (filter (\<lambda>r. rq_cmd (reqs e r) = c) (rqs_out d))))
     \<and> (disk_state d = disk_IdleState \<longleftrightarrow> thread_at d = None)
     \<and> (disk_state d = disk_ReqFinishedState \<longrightarrow> curq d \<noteq> None) \<and> disk_state d \<noteq> disk_LastState)"

text \<open>The disk is plugged exactly while the elevator holds requests, and then
  the timer runs; an idle disk with requests in its queue is plugged.\<close>

definition disk_ok :: "('a \<Rightarrow> nat set) \<Rightarrow> ((nat \<Rightarrow> request) \<Rightarrow> 'a \<Rightarrow> bool) \<Rightarrow> 'a disk \<Rightarrow> bool" where
  "disk_ok elems okm d \<longleftrightarrow> disk_core elems okm d \<and> (pluged d \<longleftrightarrow> elems (elevator.more (elv d)) \<noteq> {})
     \<and> (pluged d \<longleftrightarrow> plug_timer d \<noteq> None) \<and> (disk_state d = disk_IdleState \<longrightarrow> ready_q d \<noteq> [] \<longrightarrow> pluged d)"

definition batches :: "'a disk \<Rightarrow> ioreq multiset" where
  "batches d = mset (concat (map (\<lambda>r. rq_batch (reqs (elv d) r)) (rqs_out d)))"

text \<open>All I/O requests: in the elevator, on their way, and complete.\<close>

definition disk_total :: "('a \<Rightarrow> nat set) \<Rightarrow> 'a disk \<Rightarrow> ioreq multiset" where
  "disk_total elems d = held (elems (elevator.more (elv d))) (reqs (elv d)) + batches d + mset (done_io d)"

text \<open>A bound on the events that can fire.\<close>

definition work_left :: "('a \<Rightarrow> nat set) \<Rightarrow> 'a disk \<Rightarrow> nat" where
  "work_left elems d = 5 * card (elems (elevator.more (elv d))) + 3 * length (ready_q d)
     + (if disk_state d = disk_IdleState then 0 else 1)"

lemma filter_map_cong: "(\<And>x. x \<in> set xs \<Longrightarrow> f x = g x) \<Longrightarrow> length (filter (\<lambda>x. f x = c) xs) = length (filter (\<lambda>x. g x = c) xs)"
  by (induction xs) auto

lemma batches_cong: "rqs_out d' = rqs_out d \<Longrightarrow> (\<And>r. r \<in> set (rqs_out d) \<Longrightarrow> rq_batch (reqs (elv d') r) = rq_batch (reqs (elv d) r)) \<Longrightarrow> batches d' = batches d"
  unfolding batches_def by (simp cong: map_cong)

context elevator_methods
begin

abbreviation E :: "'a disk \<Rightarrow> nat set" where
  "E d \<equiv> els (elv d)"

lemma coreD:
  assumes "disk_core elems okm d"
  shows "elv_ok (elv d)" "distinct (rqs_out d)" "\<And>r. r \<in> set (rqs_out d) \<Longrightarrow> r < fresh_rq (elv d) \<and> r \<notin> E d"
    "\<And>c. elv_count (elv d) c = of_cmd (E d) (reqs (elv d)) c + int (length (filter (\<lambda>r. rq_cmd (reqs (elv d) r) = c) (rqs_out d)))"
    "disk_state d = disk_IdleState \<longleftrightarrow> thread_at d = None" "disk_state d = disk_ReqFinishedState \<Longrightarrow> curq d \<noteq> None"
    "disk_state d \<noteq> disk_LastState"
  using assms unfolding disk_core_def elv_ok_def Let_def by blast+

lemma coreI:
  assumes "elv_ok (elv d)" "distinct (rqs_out d)" "\<And>r. r \<in> set (rqs_out d) \<Longrightarrow> r < fresh_rq (elv d) \<and> r \<notin> E d"
    "\<And>c. elv_count (elv d) c = of_cmd (E d) (reqs (elv d)) c + int (length (filter (\<lambda>r. rq_cmd (reqs (elv d) r) = c) (rqs_out d)))"
    "disk_state d = disk_IdleState \<longleftrightarrow> thread_at d = None" "disk_state d = disk_ReqFinishedState \<Longrightarrow> curq d \<noteq> None"
    "disk_state d \<noteq> disk_LastState"
  shows "disk_core elems okm d"
  using assms unfolding disk_core_def elv_ok_def Let_def by blast

text \<open>Moving one request from the elevator to the queue of the disk.\<close>

lemma submit_one:
  assumes d: "disk_core elems okm d" and ne: "E d \<noteq> {}"
  shows "\<exists>r e d'. ElvDequeue ops (elv d) = Some (Some r, e) \<and> SubmitRq p now r (d\<lparr>elv := e\<rparr>) = Some d' \<and> disk_core elems okm d'
    \<and> E d' \<subseteq> E d \<and> card (E d) = Suc (card (E d')) \<and> disk_total elems d' = disk_total elems d \<and> pluged d' = pluged d \<and> plug_timer d' = plug_timer d
    \<and> length (ready_q d') = Suc (length (ready_q d)) \<and> disk_state d' \<noteq> disk_IdleState"
proof -
  note D = coreD [OF d]
  obtain r e where r: "ElvDequeue ops (elv d) = Some (Some r, e)" "r \<in> E d" "elv_ok e" "els e = E d - {r}"
    "held (E d) (reqs (elv d)) = mset (rq_batch (reqs (elv d) r)) + held (els e) (reqs e)" "fresh_rq e = fresh_rq (elv d)"
    "elv_count e = elv_count (elv d)"
    "\<And>x. rq_cmd (reqs e x) = rq_cmd (reqs (elv d) x)" "\<And>x. rq_batch (reqs e x) = rq_batch (reqs (elv d) x)"
    using dequeue_some [OF D(1) ne] by blast
  define d' where "d' = (if disk_state d = disk_IdleState
     then d\<lparr>elv := e, ready_q := ready_q d @ [r], thread_at := Some (now + ctx_switch p), disk_state := disk_WorkState\<rparr>
     else d\<lparr>elv := e, ready_q := ready_q d @ [r]\<rparr>)"
  have sub: "SubmitRq p now r (d\<lparr>elv := e\<rparr>) = Some d'" using D(5) by (simp add: SubmitRq_def d'_def Let_def)
  have out: "rqs_out d' = rqs_out d @ [r]" by (simp add: rqs_out_def d'_def)
  have e': "elv d' = e" by (simp add: d'_def)
  have rn: "r \<notin> set (rqs_out d)" using D(3) r(2) by blast
  have fin: "finite (E d)" using elv_okD(1) [OF D(1)] .
  have "disk_core elems okm d'"
  proof (rule coreI)
    show "elv_ok (elv d')" using r(3) e' by simp
    show "distinct (rqs_out d')" using D(2) rn out by simp
    show "x < fresh_rq (elv d') \<and> x \<notin> E d'" if "x \<in> set (rqs_out d')" for x
      using that D(3) r(2,4,6) elv_okD(2) [OF D(1)] out e' by auto
    show "elv_count (elv d') c = of_cmd (E d') (reqs (elv d')) c + int (length (filter (\<lambda>r. rq_cmd (reqs (elv d') r) = c) (rqs_out d')))" for c
    proof -
      have "of_cmd (E d) (reqs (elv d)) c = of_cmd (E d - {r}) (reqs (elv d)) c + (if rq_cmd (reqs (elv d) r) = c then 1 else 0)"
        using of_cmd_insert [of "E d - {r}" r] fin r(2) by (simp add: insert_absorb)
      moreover have "of_cmd (E d - {r}) (reqs e) c = of_cmd (E d - {r}) (reqs (elv d)) c" using r(8) by (intro of_cmd_cong)
      ultimately show ?thesis using D(4) [of c] r(4,7,8) by (simp add: e' out)
    qed
    show "disk_state d' = disk_IdleState \<longleftrightarrow> thread_at d' = None" using D(5) by (simp add: d'_def)
    show "disk_state d' = disk_ReqFinishedState \<Longrightarrow> curq d' \<noteq> None" using D(6) by (simp add: d'_def split: if_splits)
    show "disk_state d' \<noteq> disk_LastState" using D(7) by (simp add: d'_def)
  qed
  moreover have "disk_total elems d' = disk_total elems d"
    using r(5,9) by (simp add: disk_total_def batches_def out e') (simp add: d'_def)
  moreover have "card (E d) = Suc (card (E d'))" using card.remove [OF fin r(2)] by (simp add: e' r(4))
  ultimately show ?thesis using r(1,4) sub e' by (intro exI [of _ r] exI [of _ e] exI [of _ d']) (auto simp: d'_def)
qed

lemma request_all:
  "disk_core elems okm d \<Longrightarrow> \<exists>d'. disk_Request ops p now d = Some d' \<and> disk_core elems okm d' \<and> E d' = {}
    \<and> disk_total elems d' = disk_total elems d \<and> pluged d' = pluged d \<and> plug_timer d' = plug_timer d
    \<and> length (ready_q d') = length (ready_q d) + card (E d)
    \<and> (E d \<noteq> {} \<longrightarrow> disk_state d' \<noteq> disk_IdleState) \<and> (E d = {} \<longrightarrow> d' = d)"
proof (induction "card (E d)" arbitrary: d)
  case 0
  then have "E d = {}" using elv_okD(1) [OF coreD(1) [OF 0(2)]] by simp
  moreover have "disk_Request ops p now d = Some d"
    using dequeue_empty [OF coreD(1) [OF 0(2)] calculation] by (subst disk_Request.simps) simp
  ultimately show ?case using 0(2) by simp
next
  case (Suc n)
  then have ne: "E d \<noteq> {}" by auto
  obtain r e d1 where d1: "ElvDequeue ops (elv d) = Some (Some r, e)" "SubmitRq p now r (d\<lparr>elv := e\<rparr>) = Some d1" "disk_core elems okm d1"
    "card (E d) = Suc (card (E d1))" "disk_total elems d1 = disk_total elems d" "pluged d1 = pluged d" "plug_timer d1 = plug_timer d"
    "length (ready_q d1) = Suc (length (ready_q d))" "disk_state d1 \<noteq> disk_IdleState"
    using submit_one [OF Suc(3) ne, of p now] by blast
  have "n = card (E d1)" using d1(4) Suc(2) by simp
  from Suc(1) [OF this d1(3)] obtain d' where d': "disk_Request ops p now d1 = Some d'" "disk_core elems okm d'" "E d' = {}"
    "disk_total elems d' = disk_total elems d1" "pluged d' = pluged d1" "plug_timer d' = plug_timer d1"
    "length (ready_q d') = length (ready_q d1) + card (E d1)" "E d1 \<noteq> {} \<longrightarrow> disk_state d' \<noteq> disk_IdleState" "E d1 = {} \<longrightarrow> d' = d1" by blast
  have "disk_Request ops p now d = Some d'" using d1(1,2) d'(1) by (subst disk_Request.simps) simp
  moreover have "disk_state d' \<noteq> disk_IdleState" using d'(8,9) d1(9) by blast
  ultimately show ?case using d' d1 ne by (intro exI [of _ d']) simp
qed

text \<open>Changing only the elevator, and the plug.\<close>

lemma core_elv:
  assumes d: "disk_core elems okm d" and e: "elv_ok e" "kept (elv d) e"
    and d': "elv d' = e" "ready_q d' = ready_q d" "disk_state d' = disk_state d" "curq d' = curq d" "thread_at d' = thread_at d"
  shows "disk_core elems okm d' \<and> batches d' = batches d"
proof
  note D = coreD [OF d]
  have out: "rqs_out d' = rqs_out d" using d' by (simp add: rqs_out_def)
  have k: "fresh_rq (elv d) \<le> fresh_rq e" "\<And>c. elv_count e c - of_cmd (els e) (reqs e) c = elv_count (elv d) c - of_cmd (E d) (reqs (elv d)) c"
    using e(2) unfolding kept_def by blast+
  have r: "r \<notin> els e \<and> rq_cmd (reqs e r) = rq_cmd (reqs (elv d) r) \<and> rq_batch (reqs e r) = rq_batch (reqs (elv d) r)"
    if "r \<in> set (rqs_out d)" for r using D(3) [OF that] e(2) unfolding kept_def by blast
  show "disk_core elems okm d'"
  proof (rule coreI)
    show "r < fresh_rq (elv d') \<and> r \<notin> E d'" if "r \<in> set (rqs_out d')" for r
      using that r D(3) k(1) unfolding out d'(1) by fastforce
    have "length (filter (\<lambda>r. rq_cmd (reqs e r) = c) (rqs_out d)) = length (filter (\<lambda>r. rq_cmd (reqs (elv d) r) = c) (rqs_out d))" for c
      using r by (intro filter_map_cong) blast
    then show "elv_count (elv d') c = of_cmd (E d') (reqs (elv d')) c + int (length (filter (\<lambda>r. rq_cmd (reqs (elv d') r) = c) (rqs_out d')))" for c
      using D(4) [of c] k(2) [of c] unfolding out d'(1) by simp
  qed (use D e(1) out d' in simp_all)
  show "batches d' = batches d" by (rule batches_cong [OF out]) (use r d'(1) in simp)
qed

lemma unplug_ok:
  assumes d: "disk_core elems okm d" and p: "pluged d" "E d \<noteq> {}"
  shows "\<exists>d'. Unplug ops p now d = Some d' \<and> disk_ok elems okm d' \<and> disk_total elems d' = disk_total elems d \<and> E d' = {}
    \<and> length (ready_q d') = length (ready_q d) + card (E d) \<and> disk_state d' \<noteq> disk_IdleState"
proof -
  let ?d = "d\<lparr>plug_timer := None, pluged := False\<rparr>"
  have "kept (elv d) (elv d)" by (simp add: kept_def)
  then have "disk_core elems okm ?d" using core_elv [OF d coreD(1) [OF d], of ?d] by simp
  note r = request_all [OF this, of p now]
  obtain d' where d': "disk_Request ops p now ?d = Some d'" "disk_core elems okm d'" "E d' = {}"
    "disk_total elems d' = disk_total elems ?d" "pluged d' = pluged ?d" "plug_timer d' = plug_timer ?d"
    "length (ready_q d') = length (ready_q ?d) + card (E ?d)" "E ?d \<noteq> {} \<longrightarrow> disk_state d' \<noteq> disk_IdleState"
    using r by blast
  have "disk_total elems ?d = disk_total elems d" by (simp add: disk_total_def batches_def rqs_out_def)
  then show ?thesis using d' p by (intro exI [of _ d']) (simp add: Unplug_def RemovePlug_def disk_ok_def)
qed

lemma merged_nonempty:
  assumes "elv_ok e" "merge_ioreq ops req e = Some (True, e')"
  shows "els e \<noteq> {}"
proof
  assume "els e = {}"
  then have "last_rq e = None" "elv_hash e b = []" for b
    using elv_okD(4,5) [OF assms(1)] by (auto simp: hash_but_def)
  then have "ElvMerge req e = (NO_MERGE, None)" by (simp add: ElvMerge_def elv_rqhash_find_def)
  then have "fst (v_merge ops req e) = NO_MERGE" using merge_kind by simp
  then show False using assms(2) by (cases "v_merge ops req e") (simp add: merge_ioreq_def)
qed

lemma total_step:
  "held (E d') (reqs (elv d')) = add_mset req (held (E d) (reqs (elv d))) \<Longrightarrow> batches d' = batches d \<Longrightarrow> done_io d' = done_io d
    \<Longrightarrow> disk_total elems d' = add_mset req (disk_total elems d)"
  by (simp add: disk_total_def)

lemma enqueue_ok:
  assumes d: "disk_ok elems okm d" and fresh: "\<And>x. x \<in> E d \<Longrightarrow> rq_off (reqs (elv d) x) \<noteq> io_off req" and t: "now + delay d > now"
  shows "\<exists>d'. Enqueue ops p now req d = Some d' \<and> disk_ok elems okm d' \<and> disk_total elems d' = add_mset req (disk_total elems d)"
proof -
  have core: "disk_core elems okm d" and plug: "pluged d \<longleftrightarrow> E d \<noteq> {}" "pluged d \<longleftrightarrow> plug_timer d \<noteq> None"
    using d unfolding disk_ok_def by blast+
  note e = coreD(1) [OF core]
  let ?e = "elv d"
  have new: ?thesis if m: "merge_ioreq ops req ?e = Some (False, e1)" and e1: "e1 = ?e \<or> e1 = ?e\<lparr>last_rq := None\<rparr>" for e1
  proof -
    have ok1: "elv_ok e1" using e1 e elv_ok_last by auto
    have f1: "els e1 = E d" "reqs e1 = reqs ?e" "elv_count e1 = elv_count ?e" "fresh_rq e1 = fresh_rq ?e" "inflight e1 = inflight ?e"
      "unplug_threshold e1 = unplug_threshold ?e" using e1 by auto
    obtain e2 where e2: "new_request req e1 = (fresh_rq e1, e2)" by (simp add: new_request_def Let_def)
    have e2f: "els e2 = E d" "disp e2 = []" "\<And>x. x \<in> E d \<Longrightarrow> reqs e2 x = reqs ?e x" "elevator.more e2 = elevator.more e1"
      using e2 f1 elv_okD(2,3) [OF ok1] by (auto simp: new_request_def Let_def)
    have "okm (reqs e2) (elevator.more e2)" unfolding e2f(4)
      by (rule okm_cong [OF elv_okD(7) [OF ok1]]) (use e2f(3) f1(1,2) in simp)
    then have qe: "ElvQueueEmpty ops e2 \<longleftrightarrow> E d = {}" using empty_iff e2f(1,2) by (simp add: ElvQueueEmpty_def)
    from insert_ok [OF ok1, of req now] fresh f1(1,2) obtain e3 where
      e3: "insert_request ops now (fresh_rq e1) INSERT_SORT e2 = Some e3" "elv_ok e3" "els e3 = insert (fresh_rq e1) (E d)"
        "held (els e3) (reqs e3) = add_mset req (held (E d) (reqs ?e))" "kept e1 e3"
      by (auto simp: e2)
    have k: "kept ?e e3" using e3(5) e1 by (auto simp: kept_def)
    define d2 where "d2 = (if E d = {} then d\<lparr>elv := e2, pluged := True, plug_timer := Some (now + delay d)\<rparr> else d\<lparr>elv := e2\<rparr>)"
    have p2: "(if ElvQueueEmpty ops e2 then Plug now (d\<lparr>elv := e2\<rparr>) else Some (d\<lparr>elv := e2\<rparr>)) = Some d2"
      using plug t by (simp add: qe Plug_def d2_def Let_def)
    define d3 where "d3 = d2\<lparr>elv := e3\<rparr>"
    have d3: "elv d3 = e3" "ready_q d3 = ready_q d" "disk_state d3 = disk_state d" "curq d3 = curq d" "thread_at d3 = thread_at d"
      "pluged d3" "plug_timer d3 \<noteq> None" "done_io d3 = done_io d"
      using plug by (simp_all add: d3_def d2_def)
    have c3: "disk_core elems okm d3" "batches d3 = batches d" using core_elv [OF core e3(2) k d3(1-5)] by blast+
    have ne: "E d3 \<noteq> {}" using e3(3) d3(1) by simp
    have tot: "disk_total elems d3 = add_mset req (disk_total elems d)"
      using e3(4) d3(1) c3(2) d3(8) by (intro total_step) simp_all
    have ok3: "disk_ok elems okm d3" using c3(1) d3 ne by (simp add: disk_ok_def)
    have enq: "Enqueue ops p now req d = (if pluged d3 \<and> GetPendingNum e3 \<ge> unplug_threshold e3 then Unplug ops p now d3 else Some d3)"
      unfolding Enqueue_def m using p2 e3(1) by (simp add: e2 ElvInsertRequest_def d2_def d3_def Let_def)
    show ?thesis
    proof (cases "GetPendingNum e3 \<ge> unplug_threshold e3")
      case True
      then show ?thesis using unplug_ok [OF c3(1) d3(6) ne, of p now] enq d3(6) tot by auto
    next
      case False
      then show ?thesis using enq ok3 tot by simp
    qed
  qed
  from merge_ioreq_ok [OF e fresh]
  consider "merge_ioreq ops req ?e = Some (False, ?e)" | "merge_ioreq ops req ?e = Some (False, ?e\<lparr>last_rq := None\<rparr>)"
    | e' where "merge_ioreq ops req ?e = Some (True, e')" "elv_ok e'" "els e' \<noteq> {}"
      "held (els e') (reqs e') = add_mset req (held (E d) (reqs ?e))" "kept ?e e'" by blast
  then show ?thesis
  proof cases
    case 3
    let ?d = "d\<lparr>elv := e'\<rparr>"
    have c: "disk_core elems okm ?d" "batches ?d = batches d" using core_elv [OF core 3(2,5), of ?d] by simp_all
    have "E d \<noteq> {}" by (rule merged_nonempty [OF e 3(1)])
    then have "disk_ok elems okm ?d" using c(1) plug 3(3) by (simp add: disk_ok_def)
    moreover have "disk_total elems ?d = add_mset req (disk_total elems d)" using 3(4) c(2) by (intro total_step) simp_all
    ultimately show ?thesis using 3(1) by (simp add: Enqueue_def)
  qed (use new in blast)+
qed

text \<open>The thread takes the next request, or goes idle.\<close>

lemma work_ok:
  assumes d: "disk_core elems okm (d\<lparr>thread_at := Some t\<rparr>)" and w: "disk_state d = disk_WorkState" "thread_at d = None"
  shows "disk_core elems okm (work_state p now d) \<and> elv (work_state p now d) = elv d \<and> pluged (work_state p now d) = pluged d
    \<and> plug_timer (work_state p now d) = plug_timer d \<and> disk_total elems (work_state p now d) = disk_total elems d
    \<and> (disk_state (work_state p now d) = disk_IdleState \<longrightarrow> ready_q (work_state p now d) = [])
    \<and> work_left elems (work_state p now d) < work_left elems d"
proof -
  let ?d = "work_state p now d"
  note D = coreD [OF d]
  have e: "elv ?d = elv d" "pluged ?d = pluged d" "plug_timer ?d = plug_timer d" "done_io ?d = done_io d"
    by (simp_all add: work_state_def Let_def split: list.splits)
  have out: "rqs_out ?d = rqs_out (d\<lparr>thread_at := Some t\<rparr>)" "rqs_out ?d = rqs_out d"
    using w by (auto simp: rqs_out_def work_state_def Let_def split: list.splits)
  have "disk_core elems okm ?d"
  proof (rule coreI)
    show "disk_state ?d = disk_IdleState \<longleftrightarrow> thread_at ?d = None" using w by (simp add: work_state_def Let_def split: list.splits)
    show "disk_state ?d = disk_ReqFinishedState \<Longrightarrow> curq ?d \<noteq> None" by (simp add: work_state_def Let_def split: list.splits)
    show "disk_state ?d \<noteq> disk_LastState" by (simp add: work_state_def Let_def split: list.splits)
  qed (use D(1-4) out(1) e(1) in simp_all)
  moreover have "disk_total elems ?d = disk_total elems d" using out(2) e by (simp add: disk_total_def batches_def)
  moreover have "disk_state ?d = disk_IdleState \<longrightarrow> ready_q ?d = []" by (simp add: work_state_def Let_def split: list.splits)
  moreover have "work_left elems ?d < work_left elems d"
    using w e(1) by (auto simp: work_left_def work_state_def Let_def split: list.splits)
  ultimately show ?thesis using e by blast
qed

text \<open>A request completes: all of its I/O requests are done.\<close>

lemma end_ok:
  assumes d: "disk_core elems okm d" and s: "disk_state d = disk_ReqFinishedState" "curq d = Some r"
  shows "\<exists>e'. EndRequest r (d\<lparr>thread_at := None, dk_headpos := h\<rparr>) =
      Some (d\<lparr>thread_at := None, dk_headpos := h, elv := e', done_io := done_io d @ rq_batch (reqs (elv d) r)\<rparr>)
    \<and> els e' = E d \<and> (\<forall>d'. elv d' = e' \<longrightarrow> rqs_out d' = ready_q d \<longrightarrow> (disk_state d' = disk_IdleState \<longleftrightarrow> thread_at d' = None)
      \<longrightarrow> (disk_state d' = disk_ReqFinishedState \<longrightarrow> curq d' \<noteq> None) \<longrightarrow> disk_state d' \<noteq> disk_LastState
      \<longrightarrow> disk_core elems okm d' \<and> (done_io d' = done_io d @ rq_batch (reqs (elv d) r) \<longrightarrow> disk_total elems d' = disk_total elems d))"
proof -
  note D = coreD [OF d]
  have out: "rqs_out d = r # ready_q d" using s by (simp add: rqs_out_def)
  have r: "r \<notin> E d" "r \<notin> set (ready_q d)" using D(2,3) out by auto
  let ?e = "mod_rq r (\<lambda>q. q\<lparr>rq_batch := []\<rparr>) (elv d)" and ?c = "rq_cmd (reqs (elv d) r)"
  define e' where "e' = ?e\<lparr>inflight := inflight (elv d) - 1, elv_count := (elv_count (elv d))(?c := elv_count (elv d) ?c - 1)\<rparr>"
  have "elv_count (elv d) ?c \<ge> 1" using D(4) [of ?c] out by (simp add: of_cmd_def)
  then have "PutRequest r ?e = Some e'" by (simp add: PutRequest_def e'_def Let_def)
  then have "EndRequest r (d\<lparr>thread_at := None, dk_headpos := h\<rparr>) =
      Some (d\<lparr>thread_at := None, dk_headpos := h, elv := e', done_io := done_io d @ rq_batch (reqs (elv d) r)\<rparr>)"
    by (simp add: EndRequest_def)
  moreover have els': "els e' = E d" by (simp add: e'_def)
  moreover have "disk_core elems okm d' \<and> (done_io d' = done_io d @ rq_batch (reqs (elv d) r) \<longrightarrow> disk_total elems d' = disk_total elems d)"
    if d': "elv d' = e'" "rqs_out d' = ready_q d" "disk_state d' = disk_IdleState \<longleftrightarrow> thread_at d' = None"
      "disk_state d' = disk_ReqFinishedState \<longrightarrow> curq d' \<noteq> None" "disk_state d' \<noteq> disk_LastState" for d'
  proof
    have same: "reqs e' x = reqs (elv d) x" if "x \<in> E d \<or> x \<in> set (ready_q d)" for x using that r by (auto simp: e'_def)
    have cmd: "rq_cmd (reqs e' x) = rq_cmd (reqs (elv d) x)" for x by (simp add: e'_def)
    note O = elv_okD [OF D(1)]
    have "okm (reqs e') (elevator.more e')" using okm_cong [OF O(7), of "reqs e'"] same by (simp add: e'_def)
    moreover have "hash_but {} (E d) e'" using O(5) same by (simp add: hash_but_def e'_def ELV_HASH_FN_def rq_hash_key_def)
    moreover have "\<forall>x\<in>E d. batch_ok (reqs e' x)" using O(6) same by simp
    moreover have "disp e' = disp (elv d)" "last_rq e' = last_rq (elv d)" "fresh_rq e' = fresh_rq (elv d)" by (simp_all add: e'_def)
    ultimately have "elv_ok e'" using O(1-4) unfolding elv_ok_def base_ok_def els' by simp
    then show "disk_core elems okm d'"
    proof (intro coreI)
      show "elv_count (elv d') c = of_cmd (E d') (reqs (elv d')) c + int (length (filter (\<lambda>r. rq_cmd (reqs (elv d') r) = c) (rqs_out d')))" for c
        using D(4) [of c] of_cmd_cong [of "E d" "reqs e'" "reqs (elv d)" c] cmd unfolding d'(1,2) els' out by (cases "c = ?c") (simp_all add: e'_def)
      show "x < fresh_rq (elv d') \<and> x \<notin> E d'" if "x \<in> set (rqs_out d')" for x
        using that D(3) [of x] out unfolding d'(1,2) els' by (simp add: e'_def)
    qed (use d' D(2) out in simp_all)
    have "held (E d) (reqs e') = held (E d) (reqs (elv d))" using same by (intro held_cong) simp
    moreover have "batches d' = mset (concat (map (\<lambda>r. rq_batch (reqs (elv d) r)) (ready_q d)))"
      unfolding batches_def d'(1,2) using same by (simp cong: map_cong)
    ultimately show "done_io d' = done_io d @ rq_batch (reqs (elv d) r) \<longrightarrow> disk_total elems d' = disk_total elems d"
      unfolding disk_total_def d'(1) els' batches_def [of d] out by simp
  qed
  ultimately show ?thesis by blast
qed

lemma thread_ok:
  assumes d: "disk_ok elems okm d" and t: "thread_at d \<noteq> None"
  shows "\<exists>d'. DiskStateMachine p now (d\<lparr>thread_at := None\<rparr>) = Some d' \<and> disk_ok elems okm d' \<and> disk_total elems d' = disk_total elems d
    \<and> work_left elems d' < work_left elems d"
proof -
  have core: "disk_core elems okm d" and plug: "pluged d \<longleftrightarrow> E d \<noteq> {}" "pluged d \<longleftrightarrow> plug_timer d \<noteq> None"
    using d unfolding disk_ok_def by blast+
  note D = coreD [OF core]
  consider "disk_state d = disk_WorkState" | "disk_state d = disk_ReqFinishedState"
    using D(5,7) t by (cases "disk_state d") auto
  then show ?thesis
  proof cases
    case 1
    let ?d = "d\<lparr>thread_at := None\<rparr>"
    obtain u where "thread_at d = Some u" using t by blast
    then have "d = ?d\<lparr>thread_at := Some u\<rparr>" by simp
    then have "disk_core elems okm (?d\<lparr>thread_at := Some u\<rparr>)" using core by simp
    note w = work_ok [OF this, of p now]
    have m: "DiskStateMachine p now ?d = Some (work_state p now ?d)" using 1 by (simp add: DiskStateMachine_def)
    have "disk_total elems ?d = disk_total elems d" "work_left elems ?d = work_left elems d"
      by (simp_all add: disk_total_def batches_def rqs_out_def work_left_def)
    then show ?thesis using w 1 m plug by (intro exI [of _ "work_state p now ?d"]) (simp add: disk_ok_def)
  next
    case 2
    then obtain r where r: "curq d = Some r" using D(6) by blast
    let ?h = "rq_off (reqs (elv d) r) + rq_count (reqs (elv d) r)"
    obtain e' where e': "EndRequest r (d\<lparr>thread_at := None, dk_headpos := ?h\<rparr>) =
        Some (d\<lparr>thread_at := None, dk_headpos := ?h, elv := e', done_io := done_io d @ rq_batch (reqs (elv d) r)\<rparr>)" "els e' = E d"
      and E: "\<And>d'. elv d' = e' \<Longrightarrow> rqs_out d' = ready_q d \<Longrightarrow> (disk_state d' = disk_IdleState \<longleftrightarrow> thread_at d' = None)
      \<Longrightarrow> (disk_state d' = disk_ReqFinishedState \<longrightarrow> curq d' \<noteq> None) \<Longrightarrow> disk_state d' \<noteq> disk_LastState
      \<Longrightarrow> disk_core elems okm d' \<and> (done_io d' = done_io d @ rq_batch (reqs (elv d) r) \<longrightarrow> disk_total elems d' = disk_total elems d)"
      using end_ok [OF core 2 r, of ?h] by blast
    define d1 where "d1 = d\<lparr>thread_at := None, dk_headpos := ?h, elv := e', done_io := done_io d @ rq_batch (reqs (elv d) r)\<rparr>"
    have d1: "EndRequest r (d\<lparr>thread_at := None, dk_headpos := ?h\<rparr>) = Some d1" using e'(1) unfolding d1_def .
    have f: "elv d1 = e'" "ready_q d1 = ready_q d" "pluged d1 = pluged d" "plug_timer d1 = plug_timer d" "thread_at d1 = None"
      "done_io d1 = done_io d @ rq_batch (reqs (elv d) r)" by (simp_all add: d1_def)
    have m: "DiskStateMachine p now (d\<lparr>thread_at := None\<rparr>) =
        Some (if pluged d1 then d1\<lparr>disk_state := disk_IdleState\<rparr> else work_state p now (d1\<lparr>disk_state := disk_WorkState\<rparr>))"
      using 2 r d1 by (simp add: DiskStateMachine_def Let_def)
    show ?thesis
    proof (cases "pluged d")
      case True
      let ?d = "d1\<lparr>disk_state := disk_IdleState\<rparr>"
      have "disk_core elems okm ?d \<and> (done_io ?d = done_io d @ rq_batch (reqs (elv d) r) \<longrightarrow> disk_total elems ?d = disk_total elems d)"
        by (rule E) (simp_all add: f rqs_out_def)
      then have "disk_core elems okm ?d" "disk_total elems ?d = disk_total elems d" using f(6) by simp_all
      moreover have "work_left elems ?d < work_left elems d" using 2 e'(2) f by (simp add: work_left_def)
      ultimately show ?thesis using m True f plug e'(2) by (intro exI [of _ ?d]) (simp add: disk_ok_def)
    next
      case False
      let ?d = "d1\<lparr>disk_state := disk_WorkState\<rparr>" and ?t = "Some (0 :: cfs_time)"
      have "disk_core elems okm (?d\<lparr>thread_at := ?t\<rparr>) \<and> (done_io (?d\<lparr>thread_at := ?t\<rparr>) = done_io d @ rq_batch (reqs (elv d) r)
          \<longrightarrow> disk_total elems (?d\<lparr>thread_at := ?t\<rparr>) = disk_total elems d)"
        by (rule E) (simp_all add: f rqs_out_def)
      then have c: "disk_core elems okm (?d\<lparr>thread_at := ?t\<rparr>)" "disk_total elems (?d\<lparr>thread_at := ?t\<rparr>) = disk_total elems d" using f(6) by simp_all
      note w = work_ok [OF c(1), of p now]
      have "disk_total elems (?d\<lparr>thread_at := ?t\<rparr>) = disk_total elems ?d" by (simp add: disk_total_def batches_def rqs_out_def)
      moreover have "work_left elems ?d = work_left elems d" using 2 e'(2) f by (simp add: work_left_def)
      ultimately show ?thesis using w f plug e'(2) False m c(2) by (intro exI [of _ "work_state p now ?d"]) (simp add: disk_ok_def)
    qed
  qed
qed

lemma timer_ok:
  assumes d: "disk_ok elems okm d" and t: "plug_timer d \<noteq> None"
  shows "\<exists>d'. Unplug ops p now (d\<lparr>plug_timer := None\<rparr>) = Some d' \<and> disk_ok elems okm d' \<and> disk_total elems d' = disk_total elems d
    \<and> work_left elems d' < work_left elems d"
proof -
  have core: "disk_core elems okm d" and plug: "pluged d" "E d \<noteq> {}" using d t unfolding disk_ok_def by blast+
  have "kept (elv d) (elv d)" by (simp add: kept_def)
  then have c: "disk_core elems okm (d\<lparr>plug_timer := None\<rparr>)" "batches (d\<lparr>plug_timer := None\<rparr>) = batches d"
    using core_elv [OF core coreD(1) [OF core], of "d\<lparr>plug_timer := None\<rparr>"] by simp_all
  have "pluged (d\<lparr>plug_timer := None\<rparr>)" "E (d\<lparr>plug_timer := None\<rparr>) \<noteq> {}" using plug by simp_all
  from unplug_ok [OF c(1) this, of p now] obtain d' where d': "Unplug ops p now (d\<lparr>plug_timer := None\<rparr>) = Some d'" "disk_ok elems okm d'"
    "disk_total elems d' = disk_total elems (d\<lparr>plug_timer := None\<rparr>)" "E d' = {}" "length (ready_q d') = length (ready_q d) + card (E d)" by auto
  have "0 < card (E d)" using plug(2) elv_okD(1) [OF coreD(1) [OF core]] by (simp add: card_gt_0_iff)
  then have "work_left elems d' < work_left elems d" using d'(4,5) by (simp add: work_left_def)
  moreover have "disk_total elems (d\<lparr>plug_timer := None\<rparr>) = disk_total elems d" using c(2) by (simp add: disk_total_def)
  ultimately show ?thesis using d' by auto
qed

lemma fires_ok:
  assumes "disk_ok elems okm d"
  shows "disk_fires ops p d d' \<Longrightarrow> disk_ok elems okm d' \<and> disk_total elems d' = disk_total elems d \<and> work_left elems d' < work_left elems d"
    "thread_at d \<noteq> None \<or> plug_timer d \<noteq> None \<Longrightarrow> \<exists>d'. disk_fires ops p d d'"
proof -
  show "disk_ok elems okm d' \<and> disk_total elems d' = disk_total elems d \<and> work_left elems d' < work_left elems d" if "disk_fires ops p d d'"
    using that
  proof cases
    case (thread_fires now)
    then show ?thesis using thread_ok [OF assms, of p now] by auto
  next
    case (timer_fires now)
    then show ?thesis using timer_ok [OF assms, of p now] by auto
  qed
  show "\<exists>d'. disk_fires ops p d d'" if "thread_at d \<noteq> None \<or> plug_timer d \<noteq> None"
    using that thread_ok [OF assms, of p 0] timer_ok [OF assms, of p 0] disk_fires.intros by metis
qed

text \<open>When nothing is pending everything is complete.\<close>

lemma quiet_done:
  assumes d: "disk_ok elems okm d" and q: "thread_at d = None" "plug_timer d = None"
  shows "disk_total elems d = mset (done_io d)"
proof -
  have "disk_state d = disk_IdleState" using coreD(5) [of d] d q(1) unfolding disk_ok_def by blast
  moreover from this have "E d = {}" "ready_q d = []" using d q unfolding disk_ok_def by blast+
  ultimately show ?thesis by (simp add: disk_total_def held_def batches_def rqs_out_def)
qed

lemma runs_ok:
  "disk_ok elems okm d \<Longrightarrow> (disk_fires ops p ^^ n) d d' \<Longrightarrow>
    disk_ok elems okm d' \<and> disk_total elems d' = disk_total elems d \<and> work_left elems d' + n \<le> work_left elems d"
proof (induction n arbitrary: d')
  case (Suc n)
  then obtain d1 where d1: "(disk_fires ops p ^^ n) d d1" "disk_fires ops p d1 d'" by auto
  then show ?case using Suc.IH [OF Suc.prems(1) d1(1)] fires_ok(1) [of d1 p d'] by auto
qed simp

lemma drains:
  "disk_ok elems okm d \<Longrightarrow> \<exists>n d'. (disk_fires ops p ^^ n) d d' \<and> thread_at d' = None \<and> plug_timer d' = None"
proof (induction "work_left elems d" arbitrary: d rule: less_induct)
  case less
  show ?case
  proof (cases "thread_at d = None \<and> plug_timer d = None")
    case True
    then show ?thesis by (intro exI [of _ 0] exI [of _ d]) simp
  next
    case False
    then obtain d1 where d1: "disk_fires ops p d d1" using fires_ok(2) [OF less(2)] by blast
    obtain n d' where "(disk_fires ops p ^^ n) d1 d'" "thread_at d' = None" "plug_timer d' = None"
      using less(1) [of d1] fires_ok(1) [OF less(2) d1] by blast
    then show ?thesis using relpowp_Suc_I2 [where P = "disk_fires ops p" and x = d and y = d1 and z = d', OF d1] by blast
  qed
qed

end

section \<open>A new disk\<close>

text \<open>The constructors; the sizes come from the parameters.  (next_rq is not
  initialised in the code; it is NULL here.)\<close>

definition deadline_new :: "u64 \<Rightarrow> u64 \<Rightarrow> nat \<Rightarrow> deadline" where
  "deadline_new threshold maxsz shift =
     \<lparr>reqs = (\<lambda>_. \<lparr>rq_cmd = READ, rq_off = 0, rq_count = 0, rq_time = 0, rq_flags = 0, rq_batch = [], rq_hashed = False\<rparr>),
      fresh_rq = 0, elv_hash = (\<lambda>_. []), disp = [], elv_count = (\<lambda>_. 0), elv_sorted = 0, inflight = 0,
      unplug_threshold = threshold, maxsize = maxsz, endpos = 0, boundary = None, last_rq = None, hash_shift = shift,
      sort_list = (\<lambda>_. Rbtree_new), fifo_list = (\<lambda>_. []), next_rq = (\<lambda>_. None), fifo_expire = (\<lambda>_. 0), batching = 0,
      front_merges = True, dl_headpos = 0\<rparr>"

definition noop_new :: "u64 \<Rightarrow> u64 \<Rightarrow> nat \<Rightarrow> noop" where
  "noop_new threshold maxsz shift =
     \<lparr>reqs = (\<lambda>_. \<lparr>rq_cmd = READ, rq_off = 0, rq_count = 0, rq_time = 0, rq_flags = 0, rq_batch = [], rq_hashed = False\<rparr>),
      fresh_rq = 0, elv_hash = (\<lambda>_. []), disp = [], elv_count = (\<lambda>_. 0), elv_sorted = 0, inflight = 0,
      unplug_threshold = threshold, maxsize = maxsz, endpos = 0, boundary = None, last_rq = None, hash_shift = shift, nq = []\<rparr>"

definition Disk_new :: "'a elevator_scheme \<Rightarrow> u64 \<Rightarrow> 'a disk" where
  "Disk_new e unplug_delay =
     \<lparr>elv = e, pluged = False, plug_timer = None, ready_q = [], disk_state = disk_IdleState, curq = None, dk_headpos = 0,
      seeknr = 0, thread_at = None, delay = unplug_delay, done_io = []\<rparr>"

lemma deadline_new_ok: "disk_ok dl_elems dl_ok (Disk_new (deadline_new t m s) dl)" "disk_total dl_elems (Disk_new (deadline_new t m s) dl) = {#}"
proof -
  have el: "dl_elems (elevator.more (deadline_new t m s)) = {}" by (simp add: dl_elems_def) (simp add: deadline_new_def)
  moreover have "dl_ok (reqs (deadline_new t m s)) (elevator.more (deadline_new t m s))"
  proof -
    have T: "dl_tree (elevator.more (deadline_new t m s)) = (\<lambda>_. Rbtree_new)"
      "dl_fifo (elevator.more (deadline_new t m s)) = (\<lambda>_. [])"
      by (simp_all only: dl_more) (simp_all add: deadline_new_def)
    have "tree_ok (rb_root Rbtree_new)" "inord (rb_root Rbtree_new) = []" by (simp_all add: tree_ok_def Rbtree_new_def)
    then show ?thesis unfolding dl_ok_def dl_struct_def T by simp
  qed
  ultimately show "disk_ok dl_elems dl_ok (Disk_new (deadline_new t m s) dl)"
    unfolding disk_ok_def disk_core_def base_ok_def hash_but_def Let_def
    by (simp add: Disk_new_def rqs_out_def of_cmd_def) (simp add: deadline_new_def)
  show "disk_total dl_elems (Disk_new (deadline_new t m s) dl) = {#}"
    using el by (simp add: disk_total_def Disk_new_def held_def batches_def rqs_out_def)
qed

lemma noop_new_ok: "disk_ok no_elems no_ok (Disk_new (noop_new t m s) dl)" "disk_total no_elems (Disk_new (noop_new t m s) dl) = {#}"
proof -
  have el: "no_elems (elevator.more (noop_new t m s)) = {}" by (simp add: no_elems_def) (simp add: noop_new_def)
  then show "disk_ok no_elems no_ok (Disk_new (noop_new t m s) dl)"
    unfolding disk_ok_def disk_core_def base_ok_def hash_but_def Let_def
    by (simp add: Disk_new_def rqs_out_def of_cmd_def no_ok_def) (simp add: noop_new_def)
  show "disk_total no_elems (Disk_new (noop_new t m s) dl) = {#}"
    using el by (simp add: disk_total_def Disk_new_def held_def batches_def rqs_out_def)
qed

section \<open>Properties\<close>


definition demo_params :: disk_params where
  "demo_params = \<lparr>ctx_switch = 1, latency = 5, seek = 10, read_bandwidth = 4096, write_bandwidth = 2048, disk_unit = 1\<rparr>"

definition demo_io :: ioreq where
  "demo_io = \<lparr>io_id = 1, io_cmd = WRITE, io_off = 4096, io_count = 8192\<rparr>"


text \<open>C23 A disk with the deadline elevator drains: however its thread and its
  plug timer fire, every firing runs through, there are at most
  \<open>work_left\<close> of them, and when none is pending any more every I/O request
  submitted is complete, exactly once.\<close>

theorem deadline_disk_drains:
  assumes "disk_ok dl_elems dl_ok d" "(disk_fires ElvDeadline p ^^ n) d d'"
  shows "n \<le> work_left dl_elems d \<and>
    ((\<exists>d''. disk_fires ElvDeadline p d' d'') \<or> mset (done_io d') = disk_total dl_elems d)"
proof -
  have r: "disk_ok dl_elems dl_ok d'" "disk_total dl_elems d' = disk_total dl_elems d" "work_left dl_elems d' + n \<le> work_left dl_elems d"
    using deadline.runs_ok [OF assms] by blast+
  then show ?thesis using deadline.fires_ok(2) [OF r(1), of p] deadline.quiet_done [OF r(1)] by (metis le_add2 le_trans)
qed

theorem deadline_disk_drains_witness:
  "\<exists>d n d'. Enqueue ElvDeadline demo_params 100 demo_io (Disk_new (deadline_new 4 65536 6) 50) = Some d
    \<and> (disk_fires ElvDeadline demo_params ^^ n) d d' \<and> n \<le> work_left dl_elems d \<and> mset (done_io d') = {#demo_io#}"
proof -
  let ?d = "Disk_new (deadline_new 4 65536 6) 50"
  have "dl_elems (elevator.more (elv ?d)) = {}" by (simp add: Disk_new_def dl_elems_def) (simp add: deadline_new_def)
  moreover have "(100 :: u64) + delay ?d > 100" by (simp add: Disk_new_def)
  ultimately obtain d where d: "Enqueue ElvDeadline demo_params 100 demo_io ?d = Some d" "disk_ok dl_elems dl_ok d"
    "disk_total dl_elems d = {#demo_io#}"
    using deadline.enqueue_ok [OF deadline_new_ok(1), of 4 65536 6 50 demo_io 100 demo_params] deadline_new_ok(2) by auto
  obtain n d' where n: "(disk_fires ElvDeadline demo_params ^^ n) d d'" "thread_at d' = None" "plug_timer d' = None"
    using deadline.drains [OF d(2)] by blast
  have "\<not> disk_fires ElvDeadline demo_params d' d''" for d'' using n(2,3) by (auto elim: disk_fires.cases)
  then show ?thesis using deadline_disk_drains [OF d(2) n(1)] d(1,3) n(1) by auto
qed

text \<open>The same for the no-op elevator: an I/O request is taken without loss,
  and the disk drains.\<close>

theorem noop_disk_conserves_and_drains:
  assumes "disk_ok no_elems no_ok d"
  shows "(now + delay d > now \<longrightarrow> (\<forall>x\<in>no_elems (elevator.more (elv d)). rq_off (reqs (elv d) x) \<noteq> io_off req) \<longrightarrow>
      (\<exists>d'. Enqueue ElvNoop p now req d = Some d' \<and> disk_ok no_elems no_ok d' \<and> disk_total no_elems d' = add_mset req (disk_total no_elems d)))
    \<and> (\<forall>n d'. (disk_fires ElvNoop p ^^ n) d d' \<longrightarrow> n \<le> work_left no_elems d \<and>
      ((\<exists>d''. disk_fires ElvNoop p d' d'') \<or> mset (done_io d') = disk_total no_elems d))"
proof (intro conjI impI allI)
  assume "now + delay d > now" "\<forall>x\<in>no_elems (elevator.more (elv d)). rq_off (reqs (elv d) x) \<noteq> io_off req"
  then show "\<exists>d'. Enqueue ElvNoop p now req d = Some d' \<and> disk_ok no_elems no_ok d' \<and> disk_total no_elems d' = add_mset req (disk_total no_elems d)"
    using noop.enqueue_ok [OF assms, of req now p] by blast
next
  fix n d' assume n: "(disk_fires ElvNoop p ^^ n) d d'"
  have r: "disk_ok no_elems no_ok d'" "disk_total no_elems d' = disk_total no_elems d" "work_left no_elems d' + n \<le> work_left no_elems d"
    using noop.runs_ok [OF assms n] by blast+
  then show "n \<le> work_left no_elems d" "(\<exists>d''. disk_fires ElvNoop p d' d'') \<or> mset (done_io d') = disk_total no_elems d"
    using noop.fires_ok(2) [OF r(1), of p] noop.quiet_done [OF r(1)] by (metis le_add2 le_trans)+
qed

theorem noop_disk_conserves_and_drains_witness:
  "\<exists>d'. Enqueue ElvNoop demo_params 100 demo_io (Disk_new (noop_new 4 65536 6) 50) = Some d'
    \<and> disk_total no_elems d' = {#demo_io#}"
proof -
  let ?d = "Disk_new (noop_new 4 65536 6) 50"
  have "no_elems (elevator.more (elv ?d)) = {}" by (simp add: Disk_new_def no_elems_def) (simp add: noop_new_def)
  moreover have "(100 :: u64) + delay ?d > 100" by (simp add: Disk_new_def)
  ultimately show ?thesis
    using noop_disk_conserves_and_drains [OF noop_new_ok(1), of 100 4 65536 6 50 demo_io demo_params] noop_new_ok(2) by auto
qed

lemma deadline_serves:
  assumes e: "deadline.elv_ok e" and ne: "dl_elems (elevator.more e) \<noteq> {}"
  shows "\<exists>r e'. ElvDequeue ElvDeadline e = Some (Some r, e') \<and> r \<in> dl_elems (elevator.more e)
    \<and> dl_elems (elevator.more e') = dl_elems (elevator.more e) - {r}
    \<and> (\<forall>x\<in>dl_elems (elevator.more e). rq_cmd (reqs e x) = WRITE \<longrightarrow> rq_cmd (reqs e r) = WRITE)
    \<and> (\<forall>x\<in>dl_elems (elevator.more e). rq_cmd (reqs e x) = rq_cmd (reqs e r) \<longrightarrow> rq_off (reqs e r) \<le> rq_off (reqs e x))"
proof -
  let ?m = "elevator.more e"
  have ok: "dl_ok (reqs e) ?m" and d0: "disp e = []" using deadline.elv_okD [OF e] by blast+
  then have st: "dl_struct (reqs e) ?m" by (simp add: dl_ok_def)
  obtain r0 e0 where 0: "ElvDequeue ElvDeadline e = Some (Some r0, e0)" "dl_elems (elevator.more e0) = dl_elems ?m - {r0}"
    using deadline.dequeue_some [OF e ne] by blast
  obtain e1 r c where 1: "similar e e1" "r \<in> dl_elems ?m" "DeadlineDispatch e = Some (True, elv_dispatch_add_tail r e1)"
    "c = WRITE \<or> dl_line ?m WRITE = []" "dl_line ?m c \<noteq> []" "r = hd (dl_line ?m c)"
    using deadline_dispatch [OF ok ne] by blast
  have "disp (elv_dispatch_add_tail r e1) = [r]" using similarD(1) [OF 1(1)] d0 by (simp add: elv_dispatch_add_tail_def elv_rqhash_del_def Let_def)
  moreover have "v_dispatch ElvDeadline e = Some (True, elv_dispatch_add_tail r e1)" using 1(3) by (simp add: ElvDeadline_def)
  ultimately have "\<exists>x. ElvNextRequest ElvDeadline e = Some (Some r, x)"
    using d0 by (subst ElvNextRequest.simps) (simp add: ElvNextRequest.simps [of _ "elv_dispatch_add_tail r e1"])
  then have "r0 = r" using 0(1) by (auto simp: ElvDequeue_def Let_def)
  moreover have cmd: "x \<in> set (dl_line ?m (rq_cmd (reqs e x)))" if "x \<in> dl_elems ?m" for x using dl_elems_cmd [OF st that] .
  moreover have rc: "rq_cmd (reqs e r) = c" using 1(5,6) st unfolding dl_struct_def by simp
  moreover have "rq_cmd (reqs e x) = WRITE \<Longrightarrow> c = WRITE" if "x \<in> dl_elems ?m" for x using cmd [OF that] 1(4) by auto
  moreover have "rq_off (reqs e r) \<le> rq_off (reqs e x)" if "x \<in> dl_elems ?m" "rq_cmd (reqs e x) = c" for x
  proof -
    have "by_off (reqs e) (dl_line ?m c)" using ok by (simp add: dl_ok_def)
    moreover have "x \<in> set (dl_line ?m c)" using cmd [OF that(1)] that(2) by simp
    ultimately show ?thesis using 1(6) by (cases "dl_line ?m c") auto
  qed
  ultimately show ?thesis using 0 1(2) by blast
qed

text \<open>The order of the deadline elevator: the next request is a write when
  one waits, otherwise a read, and of that direction the one at the lowest
  offset; it leaves the elevator.\<close>

theorem deadline_serves_lowest_write_first:
  assumes "deadline.elv_ok e" "dl_elems (elevator.more e) \<noteq> {}"
  shows "\<exists>r e'. ElvDequeue ElvDeadline e = Some (Some r, e') \<and> r \<in> dl_elems (elevator.more e)
    \<and> dl_elems (elevator.more e') = dl_elems (elevator.more e) - {r}
    \<and> (\<forall>x\<in>dl_elems (elevator.more e). rq_cmd (reqs e x) = WRITE \<longrightarrow> rq_cmd (reqs e r) = WRITE)
    \<and> (\<forall>x\<in>dl_elems (elevator.more e). rq_cmd (reqs e x) = rq_cmd (reqs e r) \<longrightarrow> rq_off (reqs e r) \<le> rq_off (reqs e x))"
  using deadline_serves [OF assms] by blast

theorem deadline_serves_lowest_write_first_witness:
  "\<exists>e e'. insert_request ElvDeadline 100 0 INSERT_SORT (snd (new_request demo_io (deadline_new 4 65536 6))) = Some e
    \<and> ElvDequeue ElvDeadline e = Some (Some 0, e') \<and> dl_elems (elevator.more e') = {}"
proof -
  let ?n = "deadline_new 4 65536 6"
  have "disk_core dl_elems dl_ok (Disk_new ?n 50)" using deadline_new_ok(1) unfolding disk_ok_def by blast
  then have n: "deadline.elv_ok ?n" using deadline.coreD(1) by (fastforce simp: Disk_new_def)
  have el: "dl_elems (elevator.more ?n) = {}" by (simp add: dl_elems_def) (simp add: deadline_new_def)
  have "fresh_rq ?n = 0" by (simp add: deadline_new_def)
  then obtain e where e: "insert_request ElvDeadline 100 0 INSERT_SORT (snd (new_request demo_io ?n)) = Some e"
    "deadline.elv_ok e" "dl_elems (elevator.more e) = {0}"
    using deadline.insert_ok [OF n, of demo_io 100] el by auto
  then show ?thesis using deadline_serves_lowest_write_first [OF e(2)] by auto
qed

end
