(* ===== verification/Striping.thy ===== *)
theory Striping
  imports Elevator
begin

text \<open>
  Striping: the RAID-0 device of src/lustre/raid0device.cpp, which cuts I/O
  requests for its disks, and the LOV of src/lustre/lov.cpp, which cuts file
  I/O for the objects of a file, with struct Layout of src/lustre/event.h.
  Divisors are positive in every theorem; the machine traps on zero.
\<close>

section \<open>RAID-0\<close>

record raid0 =
  devcnt :: int
  chunk :: u64

definition do_div :: "u64 \<Rightarrow> u64 \<Rightarrow> u64 \<times> u64" where
  "do_div a b = (a mod b, a div b)"

text \<open>A 64 bit value returned as int.\<close>

definition to_int32 :: "u64 \<Rightarrow> int" where
  "to_int32 x = sint (ucast x :: u32)"

definition raid_width :: "raid0 \<Rightarrow> u64" where
  "raid_width R = of_int (devcnt R) * chunk R"

definition StripeNumber :: "raid0 \<Rightarrow> u64 \<Rightarrow> int" where
  "StripeNumber R offset =
     (let (stripe_off, _) = do_div offset (raid_width R) in to_int32 (stripe_off div chunk R))"

text \<open>The side (0 when the offset falls into the stripe, -1 before it, 1
  behind it) and the offset on the device.\<close>

definition StripeOffset :: "raid0 \<Rightarrow> int \<Rightarrow> u64 \<Rightarrow> int \<times> u64" where
  "StripeOffset R stripeno roff =
     (let (stripe_off, roff) = do_div roff (raid_width R);
          this_stripe = of_int stripeno * chunk R;
          (ret, stripe_off) =
            (if stripe_off < this_stripe then (-1, 0)
             else let stripe_off = stripe_off - this_stripe in
               if stripe_off \<ge> chunk R then (1, chunk R) else (0, stripe_off))
      in (ret, roff * chunk R + stripe_off))"

definition RAID_OBJECT_EOF :: u64 where "RAID_OBJECT_EOF = 0xffffffffffffffff"

text \<open>The result, the offset on the device and the count.\<close>

definition StripeIntersect :: "raid0 \<Rightarrow> int \<Rightarrow> u64 \<Rightarrow> u64 \<Rightarrow> (int \<times> u64 \<times> u64) option" where
  "StripeIntersect R stripeno start cnt =
     (if start = RAID_OBJECT_EOF \<or> cnt = RAID_OBJECT_EOF then None
      else
        let (start_side, dstart) = StripeOffset R stripeno start;
            (end_side, dcount) = StripeOffset R stripeno (start + cnt) in
        if start_side \<noteq> 0 \<and> end_side \<noteq> 0 \<and> dstart = dcount then Some (0, dstart, dcount)
        else Some (1, dstart, dcount - dstart))"

text \<open>The loop of SubmitIoreq; \<open>ref\<close> is the reference count of the
  request, which no device lowers before the loop is over, and the pieces go
  to the devices in order.\<close>

partial_function (option) raid_submit_loop ::
  "raid0 \<Rightarrow> ioreq \<Rightarrow> int \<Rightarrow> int \<Rightarrow> u64 \<Rightarrow> (int \<times> ioreq) list \<Rightarrow> (int \<times> (int \<times> ioreq) list) option" where
  "raid_submit_loop R req ref stripe left subs =
     (if left = 0 then Some (ref, subs)
      else if ref \<noteq> 0 then None
      else case StripeIntersect R stripe (io_off req) (io_count req) of
          None \<Rightarrow> None
        | Some (rc, o', n) \<Rightarrow>
            if rc \<noteq> 1 then None
            else raid_submit_loop R req (ref + 1) ((stripe + 1) mod devcnt R) (left - n)
                   (subs @ [(stripe, req\<lparr>io_off := o', io_count := n\<rparr>)]))"

definition raid_SubmitIoreq :: "raid0 \<Rightarrow> ioreq \<Rightarrow> int \<Rightarrow> (int \<times> (int \<times> ioreq) list) option" where
  "raid_SubmitIoreq R req ref =
     raid_submit_loop R req ref (StripeNumber R (io_off req)) (io_count req) []"

text \<open>Completion: the reference count of the parent and whether the parent is
  complete.\<close>

definition raid_Completion :: "int \<Rightarrow> int \<times> bool" where
  "raid_Completion ref = (ref - 1, ref - 1 = 0)"

section \<open>The LOV\<close>

record layout =
  stripe_size :: u64
  stripe_count :: u32
  stripe_pattern :: u32

definition StripeAlign :: "layout \<Rightarrow> u64 \<Rightarrow> bool" where
  "StripeAlign l off \<longleftrightarrow> off AND (stripe_size l - 1) = 0"

text \<open>\<open>None\<close> is a division by zero; the second one is only reached when the
  first test is false.\<close>

definition layout_Check :: "layout \<Rightarrow> u64 \<Rightarrow> bool option" where
  "layout_Check l cnt =
     (if cnt = 0 then None
      else if stripe_size l mod cnt = 0 then Some True
      else if stripe_size l = 0 then None
      else Some (cnt mod stripe_size l = 0))"

definition lov_StripeOffset :: "layout \<Rightarrow> u64 \<Rightarrow> u64" where
  "lov_StripeOffset l off =
     (let ssize = stripe_size l; (stripe_off, off) = do_div off (ssize * ucast (stripe_count l)) in off * ssize + stripe_off)"

text \<open>A piece: the index of the object, the offset in it, and the count.\<close>

record sub_io =
  sio_cmd :: rw
  sio_idx :: nat
  sio_off :: u64
  sio_count :: u64

text \<open>\<open>dev\<close> is the result of Read or Write of the device of the object.
  The result holds the pieces submitted, whose number is the reference count
  of the I/O.\<close>

partial_function (option) lov_loop ::
  "(sub_io \<Rightarrow> int) \<Rightarrow> layout \<Rightarrow> rw \<Rightarrow> nat \<Rightarrow> u64 \<Rightarrow> u64 \<Rightarrow> sub_io list \<Rightarrow> (int \<times> sub_io list) option" where
  "lov_loop dev l cmd idx off left subs =
     (if left = 0 then Some (0, subs)
      else
        let n = min left (stripe_size l);
            s = \<lparr>sio_cmd = cmd, sio_idx = idx, sio_off = lov_StripeOffset l off, sio_count = n\<rparr>;
            rc = dev s in
        if rc \<noteq> 0 then Some (rc, subs @ [s])
        else lov_loop dev l cmd ((idx + 1) mod unat (stripe_count l)) (off + n) (left - n) (subs @ [s]))"

definition lov_ReadWrite :: "(sub_io \<Rightarrow> int) \<Rightarrow> layout \<Rightarrow> rw \<Rightarrow> u64 \<Rightarrow> u64 \<Rightarrow> (int \<times> sub_io list) option" where
  "lov_ReadWrite dev l cmd off cnt =
     (if layout_Check l cnt \<noteq> Some True \<or> stripe_size l = 0 \<or> stripe_count l = 0 then None
      else lov_loop dev l cmd (unat ((off div stripe_size l) mod ucast (stripe_count l))) off cnt [])"

text \<open>Setup: the default layout for \<open>num\<close> targets; zero parameters stand
  for defaults.\<close>

definition lov_default_layout :: "u64 \<Rightarrow> u32 \<Rightarrow> u32 \<Rightarrow> int \<Rightarrow> layout option" where
  "lov_default_layout p_size p_count p_pattern num =
     (if num \<le> 0 then None
      else Some \<lparr>stripe_size = (if p_size \<noteq> 0 then p_size else 1048576),
        stripe_count = (let c = (if p_count \<noteq> 0 then p_count else of_int (num - 1)) in if c \<noteq> 0 then c else 1),
        stripe_pattern = p_pattern\<rparr>)"

text \<open>Create: the targets of the objects of a file, from the one of the node on.\<close>

fun lov_create_loop :: "int \<Rightarrow> nat \<Rightarrow> int \<Rightarrow> int list option" where
  "lov_create_loop num 0 start = Some []"
| "lov_create_loop num (Suc n) start =
     (if 0 \<le> start \<and> start < num then map_option ((#) start) (lov_create_loop num n ((start + 1) mod num)) else None)"

definition lov_Create :: "int \<Rightarrow> int \<Rightarrow> layout \<Rightarrow> int \<Rightarrow> int list option" where
  "lov_Create num p_count l nid =
     (if p_count \<le> num then lov_create_loop num (unat (stripe_count l)) (nid mod num) else None)"

section \<open>Addresses\<close>

text \<open>The byte of the device at offset \<open>x\<close> of disk \<open>s\<close>, for chunks of \<open>C\<close>
  bytes on \<open>D\<close> disks; the disk of a byte; and the number of bytes below
  \<open>y\<close> that lie on disk \<open>s\<close>.\<close>

definition raid_byte :: "nat \<Rightarrow> nat \<Rightarrow> nat \<Rightarrow> nat \<Rightarrow> nat" where
  "raid_byte C D s x = x div C * (C * D) + s * C + x mod C"

definition raid_disk :: "nat \<Rightarrow> nat \<Rightarrow> nat \<Rightarrow> nat" where
  "raid_disk C D b = b mod (C * D) div C"

definition raid_cut :: "nat \<Rightarrow> nat \<Rightarrow> nat \<Rightarrow> nat \<Rightarrow> nat" where
  "raid_cut C D s y = y div (C * D) * C + min C (y mod (C * D) - s * C)"

lemma mul_add_div: "t < W \<Longrightarrow> (k * W + t) div W = (k :: nat)"
  by simp

lemma raid_cut_byte:
  assumes s: "s < D" and C: "0 < C"
  shows "x < raid_cut C D s y \<longleftrightarrow> raid_byte C D s x < y"
proof -
  let ?W = "C * D"
  define q r Q R where "q = x div C" "r = x mod C" "Q = y div ?W" "R = y mod ?W"
  have W: "0 < ?W" using s C by simp
  have r: "r < C" "R < ?W" using C W by (simp_all add: q_r_Q_R_def)
  have "(s + 1) * C \<le> D * C" using s by (intro mult_right_mono) auto
  then have sC: "s * C + C \<le> ?W" by (simp add: algebra_simps)
  have x: "x = q * C + r" "y = Q * ?W + R" by (simp_all only: q_r_Q_R_def div_mult_mod_eq)
  have b: "raid_byte C D s x = q * ?W + s * C + r" by (simp add: raid_byte_def q_r_Q_R_def)
  have c: "raid_cut C D s y = Q * C + min C (R - s * C)" by (simp add: raid_cut_def q_r_Q_R_def)
  consider "q < Q" | "q = Q" | "Q < q" by linarith
  then show ?thesis
  proof cases
    case 1
    then have "(q + 1) * ?W \<le> Q * ?W" "(q + 1) * C \<le> Q * C" by (intro mult_right_mono; simp)+
    then have "q * ?W + ?W \<le> Q * ?W" "q * C + C \<le> Q * C" by (simp_all add: algebra_simps)
    then show ?thesis using x b c r sC by linarith
  next
    case 2
    then show ?thesis using x b c r by auto
  next
    case 3
    then have "(Q + 1) * ?W \<le> q * ?W" "(Q + 1) * C \<le> q * C" by (intro mult_right_mono; simp)+
    then have "Q * ?W + ?W \<le> q * ?W" "Q * C + C \<le> q * C" by (simp_all add: algebra_simps)
    then show ?thesis using x b c r by linarith
  qed
qed

lemma raid_byte_disk:
  assumes "s < D" "0 < C"
  shows "raid_disk C D (raid_byte C D s x) = s" "raid_cut C D s (raid_byte C D s x) = x" 
proof -
  have "(s + 1) * C \<le> D * C" using assms by (intro mult_right_mono) auto
  moreover have "x mod C < C" using assms by simp
  ultimately have l: "s * C + x mod C < C * D" by (simp add: algebra_simps)
  have m: "raid_byte C D s x mod (C * D) = s * C + x mod C" "raid_byte C D s x div (C * D) = x div C"
    using l mul_add_div [of "s * C + x mod C" "C * D" "x div C"] by (simp_all add: raid_byte_def add.assoc)
  then show "raid_disk C D (raid_byte C D s x) = s" using assms by (simp add: raid_disk_def)
  show "raid_cut C D s (raid_byte C D s x) = x" using assms by (simp add: raid_cut_def m min.absorb2)
qed

lemma raid_disk_lt: "0 < D \<Longrightarrow> 0 < C \<Longrightarrow> raid_disk C D b < D"
  by (simp add: raid_disk_def less_mult_imp_div_less mult.commute)

lemma raid_byte_of_cut:
  assumes "0 < D" "0 < C"
  shows "raid_byte C D (raid_disk C D b) (raid_cut C D (raid_disk C D b) b) = b"
proof -
  let ?R = "b mod (C * D)"
  have "?R - ?R div C * C = ?R mod C" by (metis minus_div_mult_eq_mod)
  then have "raid_cut C D (raid_disk C D b) b = b div (C * D) * C + ?R mod C"
    using assms by (simp add: raid_cut_def raid_disk_def)
  moreover have "?R mod C < C" using assms by simp
  moreover have "b div (C * D) * (C * D) + (?R div C * C + ?R mod C) = b" by (simp only: div_mult_mod_eq)
  ultimately show ?thesis using assms by (simp add: raid_byte_def raid_disk_def)
qed


section \<open>The device computes these addresses\<close>

definition raid_ok :: "raid0 \<Rightarrow> bool" where
  "raid_ok R \<longleftrightarrow> 0 < devcnt R \<and> devcnt R < 2 ^ 31 \<and> 0 < chunk R \<and> nat (devcnt R) * unat (chunk R) < 2 ^ 64"

abbreviation rC :: "raid0 \<Rightarrow> nat" where "rC R \<equiv> unat (chunk R)"
abbreviation rD :: "raid0 \<Rightarrow> nat" where "rD R \<equiv> nat (devcnt R)"

lemma unat_mult_no_overflow: "unat a * unat b < 2 ^ 64 \<Longrightarrow> unat (a * b) = unat a * unat (b :: u64)"
  by (simp add: unat_mult_lem [symmetric])

lemma unat_of_int_u64: "0 \<le> i \<Longrightarrow> i < 2 ^ 64 \<Longrightarrow> unat (of_int i :: u64) = nat i"
  using unat_of_nat_u64 [of "nat i"] by simp

lemma raid_okD:
  assumes "raid_ok R"
  shows "0 < rC R" "0 < rD R" "rC R * rD R < 2 ^ 64" "unat (raid_width R) = rC R * rD R"
    "s < rD R \<Longrightarrow> unat (of_int (int s) * chunk R) = s * rC R" "rC R \<le> rC R * rD R"
proof -
  note R = assms [unfolded raid_ok_def]
  show C: "0 < rC R" and D: "0 < rD R" using R by (auto simp: word_less_nat_alt)
  show W: "rC R * rD R < 2 ^ 64" using R by (simp add: mult.commute)
  have "unat (of_int (devcnt R) :: u64) = rD R" using R by (intro unat_of_int_u64) auto
  then show "unat (raid_width R) = rC R * rD R"
    using W unat_mult_no_overflow [of "of_int (devcnt R)" "chunk R"] by (simp add: raid_width_def mult.commute)
  have "1 \<le> rD R" using D by linarith
  then show "rC R \<le> rC R * rD R" using mult_le_mono2 [of 1 "rD R" "rC R"] by linarith
  show "unat (of_int (int s) * chunk R) = s * rC R" if s: "s < rD R"
  proof -
    have "rD R < 2 ^ 31" using R by (simp add: nat_less_iff)
    then have "s < 2 ^ 64" using s by simp
    then have u: "unat (of_nat s :: u64) = s" by (rule unat_of_nat_u64)
    have "s * rC R \<le> rD R * rC R" using s by (intro mult_right_mono) auto
    moreover have "rD R * rC R < 2 ^ 64" using R by blast
    ultimately have "s * rC R < 2 ^ 64" by (rule le_less_trans)
    then show ?thesis using unat_mult_no_overflow [of "of_nat s" "chunk R"] u by simp
  qed
qed

lemma to_int32_small: "unat x < 2 ^ 31 \<Longrightarrow> to_int32 x = int (unat x)"
proof -
  assume x: "unat x < 2 ^ 31"
  then have "unat (ucast x :: u32) = unat x" by (simp add: unsigned_ucast_eq take_bit_nat_eq_self)
  then have "uint (ucast x :: u32) = int (unat x)" by (metis uint_nat)
  moreover have "uint x < 2 ^ 31" using x by (metis uint_nat of_nat_less_iff of_nat_numeral of_nat_power)
  moreover have "- (2 ^ 31) \<le> uint x" by (rule order_trans [of _ 0]) simp_all
  ultimately show ?thesis by (simp add: to_int32_def sint_uint signed_take_bit_int_eq_self)
qed

lemma StripeNumber_disk:
  assumes "raid_ok R"
  shows "StripeNumber R b = int (raid_disk (rC R) (rD R) (unat b))"
proof -
  note R = raid_okD [OF assms]
  have u: "unat (b mod raid_width R div chunk R) = raid_disk (rC R) (rD R) (unat b)"
    by (simp add: raid_disk_def unat_div unat_mod R(4))
  have "rD R < 2 ^ 31" using assms by (simp add: raid_ok_def nat_less_iff)
  then have "raid_disk (rC R) (rD R) (unat b) < 2 ^ 31" using raid_disk_lt [OF R(2,1), of "unat b"] by linarith
  then have "to_int32 (b mod raid_width R div chunk R) = int (unat (b mod raid_width R div chunk R))"
    unfolding u [symmetric] by (rule to_int32_small)
  then show ?thesis by (simp add: StripeNumber_def do_div_def u)
qed

lemma StripeOffset_cut:
  assumes R: "raid_ok R" and s: "s < rD R"
  shows "unat (snd (StripeOffset R (int s) y)) = raid_cut (rC R) (rD R) s (unat y)"
    "fst (StripeOffset R (int s) y) = 0 \<longleftrightarrow> raid_disk (rC R) (rD R) (unat y) = s"
proof -
  note r = raid_okD [OF R]
  let ?C = "rC R" and ?W = "rC R * rD R" and ?o = "y mod raid_width R" and ?q = "y div raid_width R"
  have o: "unat ?o = unat y mod ?W" "unat ?q = unat y div ?W" by (simp_all add: unat_mod unat_div r(4))
  note t = r(5) [OF s]
  have W: "0 < ?W" using r by simp
  have "(s + 1) * ?C \<le> rD R * ?C" using s by (intro mult_right_mono) auto
  then have sC: "s * ?C + ?C \<le> ?W" by (simp add: algebra_simps)
  define m where "m = (if ?o < of_int (int s) * chunk R then 0 else if ?o - of_int (int s) * chunk R \<ge> chunk R then chunk R else ?o - of_int (int s) * chunk R)"
  have snd: "snd (StripeOffset R (int s) y) = ?q * chunk R + m"
    by (simp add: StripeOffset_def do_div_def m_def Let_def)
  have sub: "unat (?o - of_int (int s) * chunk R) = unat ?o - s * ?C" if "\<not> ?o < of_int (int s) * chunk R"
    using that t by (simp add: unat_sub not_less)
  have lt: "?o < of_int (int s) * chunk R \<longleftrightarrow> unat ?o < s * ?C" using t by (simp add: word_less_nat_alt)
  have m: "unat m = min ?C (unat ?o - s * ?C)"
    using sub lt by (auto simp: m_def word_le_nat_alt not_less)
  have mle: "unat m \<le> unat ?o" using m by simp
  have "unat ?q * ?C \<le> unat ?q * ?W" using r(6) by (rule mult_left_mono) simp
  moreover have "unat ?q * ?W + unat ?o = unat y" unfolding o by (simp only: div_mult_mod_eq)
  ultimately have "unat ?q * ?C + unat m \<le> unat y" using mle by linarith
  from order.strict_trans1 [OF this unat_u64_lt] have nb: "unat ?q * ?C + unat m < 2 ^ 64" by simp
  then have "unat (?q * chunk R) = unat ?q * ?C" by (intro unat_mult_no_overflow) linarith
  moreover from this have "unat (?q * chunk R + m) = unat (?q * chunk R) + unat m" using nb by (intro unat_add_no_overflow) simp
  ultimately show "unat (snd (StripeOffset R (int s) y)) = raid_cut ?C (rD R) s (unat y)"
    unfolding snd by (simp add: m raid_cut_def o)
  have "fst (StripeOffset R (int s) y) = 0 \<longleftrightarrow> \<not> unat ?o < s * ?C \<and> unat ?o - s * ?C < ?C"
    using sub lt by (auto simp: StripeOffset_def do_div_def Let_def word_le_nat_alt not_less)
  also have "\<dots> \<longleftrightarrow> unat ?o div ?C = s"
  proof
    assume a: "\<not> unat ?o < s * ?C \<and> unat ?o - s * ?C < ?C"
    then have "unat ?o = s * ?C + (unat ?o - s * ?C)" by simp
    then show "unat ?o div ?C = s" using a mul_add_div [of "unat ?o - s * ?C" ?C s] by metis
  next
    assume "unat ?o div ?C = s"
    then have "unat ?o = s * ?C + unat ?o mod ?C" "unat ?o mod ?C < ?C" using r(1) by auto
    then show "\<not> unat ?o < s * ?C \<and> unat ?o - s * ?C < ?C" by linarith
  qed
  finally show "fst (StripeOffset R (int s) y) = 0 \<longleftrightarrow> raid_disk ?C (rD R) (unat y) = s"
    by (simp add: raid_disk_def o)
qed


section \<open>Properties of the RAID-0 device\<close>

text \<open>C24 The addresses of a RAID-0 device can be computed back: the byte of the
  disk and the offset that the code computes for it is the byte again, and
  every offset on every disk comes from one byte.\<close>

theorem raid0_address_roundtrip:
  assumes "raid_ok R"
  shows "raid_byte (rC R) (rD R) (nat (StripeNumber R b)) (unat (snd (StripeOffset R (StripeNumber R b) b))) = unat b
    \<and> (s < rD R \<longrightarrow> raid_byte (rC R) (rD R) s (unat x) = unat b \<longrightarrow>
        StripeNumber R b = int s \<and> StripeOffset R (int s) b = (0, x))"
proof (intro conjI impI)
  note r = raid_okD [OF assms]
  let ?s = "raid_disk (rC R) (rD R) (unat b)"
  have "?s < rD R" using raid_disk_lt [OF r(2,1)] .
  from StripeOffset_cut(1) [OF assms this, of b]
  show "raid_byte (rC R) (rD R) (nat (StripeNumber R b)) (unat (snd (StripeOffset R (StripeNumber R b) b))) = unat b"
    using raid_byte_of_cut [OF r(2,1), of "unat b"] by (simp add: StripeNumber_disk [OF assms])
next
  note r = raid_okD [OF assms]
  assume s: "s < rD R" and b: "raid_byte (rC R) (rD R) s (unat x) = unat b"
  have d: "raid_disk (rC R) (rD R) (unat b) = s" using raid_byte_disk(1) [OF s r(1), of "unat x"] b by simp
  then show "StripeNumber R b = int s" by (simp add: StripeNumber_disk [OF assms])
  have "fst (StripeOffset R (int s) b) = 0" using StripeOffset_cut(2) [OF assms s, of b] d by simp
  moreover have "unat (snd (StripeOffset R (int s) b)) = unat x"
    using StripeOffset_cut(1) [OF assms s, of b] raid_byte_disk(2) [OF s r(1), of "unat x"] b by simp
  ultimately show "StripeOffset R (int s) b = (0, x)" by (metis prod.collapse unsigned_word_eqI)
qed

definition demo_raid :: raid0 where "demo_raid = \<lparr>devcnt = 3, chunk = 4096\<rparr>"

lemma demo_raid_ok: "raid_ok demo_raid"
  by (simp add: raid_ok_def demo_raid_def)

theorem raid0_address_roundtrip_witness:
  "raid_byte 4096 3 (nat (StripeNumber demo_raid 21000)) (unat (snd (StripeOffset demo_raid (StripeNumber demo_raid 21000) 21000))) = 21000"
  using raid0_address_roundtrip [OF demo_raid_ok, of 21000 0 0] by (simp add: demo_raid_def)

text \<open>The bytes of a request on a disk.\<close>

lemma intersect_bytes:
  assumes R: "raid_ok R" and s: "s < rD R" and lim: "unat start + unat cnt < 2 ^ 64 - 1"
  obtains rc d n where "StripeIntersect R (int s) start cnt = Some (rc, d, n)"
    "rc = 0 \<or> rc = 1" "unat d = raid_cut (rC R) (rD R) s (unat start)"
    "rc = 1 \<Longrightarrow> unat d + unat n = raid_cut (rC R) (rD R) s (unat start + unat cnt)"
    "rc = 0 \<Longrightarrow> raid_cut (rC R) (rD R) s (unat start) = raid_cut (rC R) (rD R) s (unat start + unat cnt)"
    "raid_disk (rC R) (rD R) (unat start) = s \<Longrightarrow> rc = 1"
proof -
  note r = raid_okD [OF R]
  have e: "unat (start + cnt) = unat start + unat cnt" using lim by (intro unat_add_no_overflow) simp
  have "unat RAID_OBJECT_EOF = 2 ^ 64 - 1" by (simp add: RAID_OBJECT_EOF_def)
  then have a: "start \<noteq> RAID_OBJECT_EOF" "cnt \<noteq> RAID_OBJECT_EOF" using lim by auto
  obtain ss ds where S: "StripeOffset R (int s) start = (ss, ds)" by (rule prod.exhaust)
  obtain es de where E: "StripeOffset R (int s) (start + cnt) = (es, de)" by (rule prod.exhaust)
  have d: "unat ds = raid_cut (rC R) (rD R) s (unat start)" "ss = 0 \<longleftrightarrow> raid_disk (rC R) (rD R) (unat start) = s"
    "unat de = raid_cut (rC R) (rD R) s (unat start + unat cnt)"
    using StripeOffset_cut [OF R s, of start] StripeOffset_cut [OF R s, of "start + cnt"] S E e by simp_all
  have "raid_cut (rC R) (rD R) s (unat start) \<le> raid_cut (rC R) (rD R) s (unat start + unat cnt)"
  proof (rule ccontr)
    assume "\<not> ?thesis"
    then have "raid_byte (rC R) (rD R) s (raid_cut (rC R) (rD R) s (unat start + unat cnt)) < unat start"
      by (simp only: not_le raid_cut_byte [OF s r(1)])
    then have "raid_byte (rC R) (rD R) s (raid_cut (rC R) (rD R) s (unat start + unat cnt)) < unat start + unat cnt" by linarith
    then show False using raid_cut_byte [OF s r(1)] by blast
  qed
  then have le: "ds \<le> de" by (simp add: word_le_nat_alt d)
  have i: "StripeIntersect R (int s) start cnt = (if ss \<noteq> 0 \<and> es \<noteq> 0 \<and> ds = de then Some (0, ds, de) else Some (1, ds, de - ds))"
    using a by (simp add: StripeIntersect_def S E)
  show thesis
  proof (cases "ss \<noteq> 0 \<and> es \<noteq> 0 \<and> ds = de")
    case True
    then show thesis using i d by (intro that [of 0 ds de]) auto
  next
    case False
    have "unat ds + unat (de - ds) = unat de" using le by (simp add: unat_sub word_le_nat_alt)
    then show thesis using i d False by (intro that [of 1 ds "de - ds"]) auto
  qed
qed

text \<open>The part of a request on a disk is exact: the offsets of the part are
  exactly those whose bytes the request holds, and a part is refused (the
  result is 0) only when there is none.\<close>

theorem raid0_intersect_exact:
  assumes "raid_ok R" "s < rD R" "unat start + unat cnt < 2 ^ 64 - 1"
  shows "\<exists>rc d n. StripeIntersect R (int s) start cnt = Some (rc, d, n) \<and>
    {x. unat start \<le> raid_byte (rC R) (rD R) s x \<and> raid_byte (rC R) (rD R) s x < unat start + unat cnt}
      = (if rc = 1 then {unat d ..< unat d + unat n} else {})"
proof -
  note r = raid_okD [OF assms(1)]
  obtain rc d n where i: "StripeIntersect R (int s) start cnt = Some (rc, d, n)"
    "rc = 0 \<or> rc = 1" "unat d = raid_cut (rC R) (rD R) s (unat start)"
    "rc = 1 \<Longrightarrow> unat d + unat n = raid_cut (rC R) (rD R) s (unat start + unat cnt)"
    "rc = 0 \<Longrightarrow> raid_cut (rC R) (rD R) s (unat start) = raid_cut (rC R) (rD R) s (unat start + unat cnt)"
    using intersect_bytes [OF assms] by metis
  have "{x. unat start \<le> raid_byte (rC R) (rD R) s x \<and> raid_byte (rC R) (rD R) s x < unat start + unat cnt}
    = {x. raid_cut (rC R) (rD R) s (unat start) \<le> x \<and> x < raid_cut (rC R) (rD R) s (unat start + unat cnt)}"
    by (simp only: not_less [symmetric] raid_cut_byte [OF assms(2) r(1)])
  also have "\<dots> = (if rc = 1 then {unat d ..< unat d + unat n} else {})" using i(2-5) by auto
  finally show ?thesis using i(1) by blast
qed

theorem raid0_intersect_exact_witness:
  "\<exists>rc d n. StripeIntersect demo_raid 1 4000 20000 = Some (rc, d, n) \<and>
    {x. 4000 \<le> raid_byte 4096 3 1 x \<and> raid_byte 4096 3 1 x < 24000} = (if rc = 1 then {unat d ..< unat d + unat n} else {})"
  using raid0_intersect_exact [OF demo_raid_ok, of 1 4000 20000] by (simp add: demo_raid_def)


text \<open>The number of bytes of disk \<open>s\<close> below an address.\<close>

lemma raid_cut_card:
  assumes "s < D" "0 < C"
  shows "card {b. b < y \<and> raid_disk C D b = s} = raid_cut C D s y"
proof -
  have "{b. b < y \<and> raid_disk C D b = s} = raid_byte C D s ` {..<raid_cut C D s y}"
  proof (intro equalityI subsetI)
    fix b assume b: "b \<in> {b. b < y \<and> raid_disk C D b = s}"
    then have e: "raid_byte C D s (raid_cut C D s b) = b" using raid_byte_of_cut [of D C b] assms by auto
    then have "raid_cut C D s b < raid_cut C D s y" using raid_cut_byte [OF assms, of "raid_cut C D s b" y] b by simp
    then show "b \<in> raid_byte C D s ` {..<raid_cut C D s y}" using e by (metis image_eqI lessThan_iff)
  next
    fix b assume "b \<in> raid_byte C D s ` {..<raid_cut C D s y}"
    then show "b \<in> {b. b < y \<and> raid_disk C D b = s}"
      using raid_cut_byte [OF assms] raid_byte_disk(1) [OF assms] by auto
  qed
  moreover have "inj_on (raid_byte C D s) X" for X
    by (rule inj_on_inverseI [of _ "raid_cut C D s"]) (rule raid_byte_disk(2) [OF assms])
  ultimately show ?thesis by (simp add: card_image)
qed

lemma raid_cut_all:
  assumes "s < D" "0 < C"
  shows "raid_cut C D s (a + n) = raid_cut C D s a + n \<longleftrightarrow> (\<forall>b\<in>{a..<a + n}. raid_disk C D b = s)"
proof -
  let ?P = "\<lambda>b. raid_disk C D b = s"
  let ?A = "{b. b < a \<and> ?P b}" and ?B = "{b\<in>{a..<a + n}. ?P b}"
  have u: "{b. b < a + n \<and> ?P b} = ?A \<union> ?B" by auto
  have "finite ?A" "finite ?B" "?A \<inter> ?B = {}" by auto
  then have "card (?A \<union> ?B) = card ?A + card ?B" by (rule card_Un_disjoint)
  then have c: "raid_cut C D s (a + n) = raid_cut C D s a + card ?B"
    using raid_cut_card [OF assms, of "a + n"] raid_cut_card [OF assms, of a] u by argo
  have n: "card {a..<a + n} = n" by simp
  have "card ?B = n \<longleftrightarrow> ?B = {a..<a + n}"
  proof
    assume "card ?B = n"
    then have "card ?B = card {a..<a + n}" using n by argo
    then show "?B = {a..<a + n}" by (intro card_subset_eq) auto
  next
    assume "?B = {a..<a + n}"
    then show "card ?B = n" using n by argo
  qed
  also have "\<dots> \<longleftrightarrow> (\<forall>b\<in>{a..<a + n}. ?P b)" by blast
  finally show ?thesis unfolding c by simp
qed

text \<open>C37 A RAID-0 device takes exactly the requests whose bytes all lie on one
  disk, and hands that disk one request of the same length: the loop asserts
  that the request has no reference yet, so every request that needs a second
  disk runs into the assertion.\<close>

theorem raid0_submit_single_disk:
  assumes "raid_ok R" "io_count req \<noteq> 0" "unat (io_off req) + unat (io_count req) < 2 ^ 64 - 1"
  shows "raid_SubmitIoreq R req 0 =
    (if \<forall>b\<in>{unat (io_off req) ..< unat (io_off req) + unat (io_count req)}. raid_disk (rC R) (rD R) b = raid_disk (rC R) (rD R) (unat (io_off req))
     then Some (1, [(StripeNumber R (io_off req), req\<lparr>io_off := snd (StripeOffset R (StripeNumber R (io_off req)) (io_off req))\<rparr>)])
     else None)"
proof -
  note r = raid_okD [OF assms(1)]
  let ?b = "io_off req" and ?n = "io_count req"
  define s where "s = raid_disk (rC R) (rD R) (unat ?b)"
  have s: "s < rD R" unfolding s_def using raid_disk_lt [OF r(2,1)] .
  have S: "StripeNumber R ?b = int s" by (simp add: StripeNumber_disk [OF assms(1)] s_def)
  obtain rc d n where i: "StripeIntersect R (int s) ?b ?n = Some (rc, d, n)" "unat d = raid_cut (rC R) (rD R) s (unat ?b)"
    "rc = 1 \<Longrightarrow> unat d + unat n = raid_cut (rC R) (rD R) s (unat ?b + unat ?n)" "rc = 1"
    using intersect_bytes [OF assms(1) s assms(3)] s_def by metis
  have d: "d = snd (StripeOffset R (int s) ?b)"
    using i(2) StripeOffset_cut(1) [OF assms(1) s, of ?b] by (simp add: word_unat_eq_iff)
  have "raid_SubmitIoreq R req 0 = raid_submit_loop R req 1 ((int s + 1) mod devcnt R) (?n - n) [(int s, req\<lparr>io_off := d, io_count := n\<rparr>)]"
    unfolding raid_SubmitIoreq_def S by (subst raid_submit_loop.simps) (use assms(2) i(1,4) in simp)
  also have "\<dots> = (if ?n - n = 0 then Some (1, [(int s, req\<lparr>io_off := d, io_count := n\<rparr>)]) else None)"
    by (subst raid_submit_loop.simps) simp
  also have "?n - n = 0 \<longleftrightarrow> ?n = n" by simp
  also have "?n = n \<longleftrightarrow> raid_cut (rC R) (rD R) s (unat ?b + unat ?n) = raid_cut (rC R) (rD R) s (unat ?b) + unat ?n"
    using i(2,3,4) by (auto simp: word_unat_eq_iff)
  also have "\<dots> \<longleftrightarrow> (\<forall>b\<in>{unat ?b..<unat ?b + unat ?n}. raid_disk (rC R) (rD R) b = s)" by (rule raid_cut_all [OF s r(1)])
  finally have res: "raid_SubmitIoreq R req 0 =
    (if \<forall>b\<in>{unat ?b..<unat ?b + unat ?n}. raid_disk (rC R) (rD R) b = s then Some (1, [(int s, req\<lparr>io_off := d, io_count := n\<rparr>)]) else None)" .
  have q: "(if P then Some (1 :: int, [(int s, req\<lparr>io_off := d, io_count := n\<rparr>)]) else None)
      = (if P then Some (1, [(int s, req\<lparr>io_off := d\<rparr>)]) else None)" if "P \<Longrightarrow> n = ?n" for P
    using that by simp
  have "n = ?n" if "\<forall>b\<in>{unat ?b..<unat ?b + unat ?n}. raid_disk (rC R) (rD R) b = s"
  proof -
    have "raid_cut (rC R) (rD R) s (unat ?b + unat ?n) = raid_cut (rC R) (rD R) s (unat ?b) + unat ?n"
      using raid_cut_all [OF s r(1)] that by blast
    then show ?thesis using i(2,3,4) by (simp add: word_unat_eq_iff)
  qed
  then show ?thesis unfolding S s_def [symmetric] d [symmetric] res by (rule q)
qed

theorem raid0_submit_single_disk_witness:
  "raid_SubmitIoreq demo_raid \<lparr>io_id = 7, io_cmd = WRITE, io_off = 4000, io_count = 200\<rparr> 0 = None"
proof -
  have "raid_disk 4096 3 4000 \<noteq> raid_disk 4096 3 4100" by (simp add: raid_disk_def)
  moreover have "(4100 :: nat) \<in> {4000..<4200}" by simp
  ultimately have "\<not> (\<forall>b\<in>{4000..<4200}. raid_disk 4096 3 b = raid_disk 4096 3 4000)" by metis
  then show ?thesis
    using raid0_submit_single_disk [OF demo_raid_ok, of "\<lparr>io_id = 7, io_cmd = WRITE, io_off = 4000, io_count = 200\<rparr>"]
    by (simp add: demo_raid_def)
qed

section \<open>Properties of the LOV\<close>

text \<open>The object of a byte of a file and its offset there, for stripes of
  \<open>S\<close> bytes over \<open>N\<close> objects: the first byte of object \<open>i\<close> is at \<open>i * S\<close>.\<close>

definition obj_addr :: "nat \<Rightarrow> nat \<Rightarrow> nat \<Rightarrow> nat \<times> nat" where
  "obj_addr S N b = (b div S mod N, b div (S * N) * S + b div S mod N * S + b mod S)"

definition piece_bytes :: "sub_io \<Rightarrow> (nat \<times> nat) list" where
  "piece_bytes s = map (\<lambda>k. (sio_idx s, unat (sio_off s) + k)) [0..<unat (sio_count s)]"

lemma mod_stripes: "(b :: nat) mod (S * N) = b div S mod N * S + b mod S"
  by (metis mod_mult2_eq mult.commute)

lemma obj_addr_inj:
  assumes "0 < S" "0 < N"
  shows "inj (obj_addr S N)"
proof (rule injI)
  fix a b assume e: "obj_addr S N a = obj_addr S N b"
  then have i: "a div S mod N = b div S mod N" by (simp add: obj_addr_def)
  with e have o: "a div (S * N) * S + a mod S = b div (S * N) * S + b mod S" by (simp add: obj_addr_def)
  have m: "a mod S < S" "b mod S < S" using assms by simp_all
  have "a div (S * N) = b div (S * N)"
    using o m mul_add_div [of "a mod S" S "a div (S * N)"] mul_add_div [of "b mod S" S "b div (S * N)"] by metis
  moreover from this have "a mod S = b mod S" using o by simp
  ultimately have "a div (S * N) * (S * N) + a mod (S * N) = b div (S * N) * (S * N) + b mod (S * N)"
    using i by (simp add: mod_stripes)
  then show "a = b" by (simp only: div_mult_mod_eq)
qed

lemma obj_addr_within:
  assumes "0 < S" "0 < N" "b mod S + k < S"
  shows "obj_addr S N (b + k) = (fst (obj_addr S N b), snd (obj_addr S N b) + k)"
proof -
  have "b + k = b div S * S + (b mod S + k)" by (simp add: add.assoc [symmetric])
  then have d: "(b + k) div S = b div S" "(b + k) mod S = b mod S + k" using assms(3) by (metis mul_add_div, metis mod_mult_self3 mod_less)
  have "(b + k) div (S * N) = b div (S * N)" using d(1) by (simp add: div_mult2_eq)
  then show ?thesis by (simp add: obj_addr_def d)
qed

definition layout_ok :: "layout \<Rightarrow> bool" where
  "layout_ok l \<longleftrightarrow> 0 < stripe_size l \<and> 0 < stripe_count l \<and> unat (stripe_size l) * unat (stripe_count l) < 2 ^ 64"

abbreviation lS :: "layout \<Rightarrow> nat" where "lS l \<equiv> unat (stripe_size l)"
abbreviation lN :: "layout \<Rightarrow> nat" where "lN l \<equiv> unat (stripe_count l)"

lemma layout_okD:
  assumes "layout_ok l"
  shows "0 < lS l" "0 < lN l" "unat (stripe_size l * ucast (stripe_count l)) = lS l * lN l"
    "unat (ucast (stripe_count l) :: u64) = lN l"
proof -
  show "0 < lS l" "0 < lN l" using assms by (auto simp: layout_ok_def word_less_nat_alt)
  have "lN l < 2 ^ 32" using unsigned_less [of "stripe_count l"] by simp
  then show u: "unat (ucast (stripe_count l) :: u64) = lN l" by (simp add: unsigned_ucast_eq take_bit_nat_eq_self)
  show "unat (stripe_size l * ucast (stripe_count l)) = lS l * lN l"
    using unat_mult_no_overflow [of "stripe_size l" "ucast (stripe_count l)"] assms u by (simp add: layout_ok_def)
qed

lemma lov_StripeOffset_addr:
  assumes "layout_ok l"
  shows "unat (lov_StripeOffset l b) = snd (obj_addr (lS l) (lN l) (unat b))"
proof -
  note r = layout_okD [OF assms]
  let ?W = "stripe_size l * ucast (stripe_count l)"
  have d: "unat (b div ?W) = unat b div (lS l * lN l)" "unat (b mod ?W) = unat b mod (lS l * lN l)"
    by (simp_all add: unat_div unat_mod r(3))
  have "unat b div (lS l * lN l) * lS l \<le> unat b div (lS l * lN l) * (lS l * lN l)" using r(2) by (intro mult_left_mono) auto
  then have le: "unat b div (lS l * lN l) * lS l + unat b mod (lS l * lN l) \<le> unat b"
    by (metis add_le_mono1 div_mult_mod_eq)
  from order.strict_trans1 [OF this unat_u64_lt]
  have lt: "unat (b div ?W) * lS l + unat (b mod ?W) < 2 ^ 64" unfolding d by simp
  then have m: "unat (b div ?W * stripe_size l) = unat (b div ?W) * lS l" by (intro unat_mult_no_overflow) linarith
  have "unat (b div ?W * stripe_size l + b mod ?W) = unat (b div ?W * stripe_size l) + unat (b mod ?W)"
    using lt m by (intro unat_add_no_overflow) simp
  then have "unat (lov_StripeOffset l b) = unat b div (lS l * lN l) * lS l + unat b mod (lS l * lN l)"
    using m d by (simp add: lov_StripeOffset_def do_div_def Let_def)
  then show ?thesis by (simp add: obj_addr_def mod_stripes add.assoc)
qed

lemma piece_bytes_addr:
  assumes l: "layout_ok l" and n: "unat b mod lS l + unat n \<le> lS l"
  shows "piece_bytes \<lparr>sio_cmd = c, sio_idx = unat b div lS l mod lN l, sio_off = lov_StripeOffset l b, sio_count = n\<rparr>
    = map (obj_addr (lS l) (lN l)) [unat b ..< unat b + unat n]"
proof -
  note r = layout_okD [OF l]
  have "[unat b ..< unat b + unat n] = map (\<lambda>k. unat b + k) [0..<unat n]"
    by (rule nth_equalityI) auto
  moreover have "obj_addr (lS l) (lN l) (unat b + k) = (unat b div lS l mod lN l, unat (lov_StripeOffset l b) + k)" if "k < unat n" for k
  proof -
    have "fst (obj_addr (lS l) (lN l) (unat b)) = unat b div lS l mod lN l" by (simp add: obj_addr_def)
    then show ?thesis
      using obj_addr_within [OF r(1,2), of "unat b" k] n that lov_StripeOffset_addr [OF l, of b] by simp
  qed
  ultimately show ?thesis by (simp add: piece_bytes_def)
qed

lemma lov_loop_pieces:
  assumes l: "layout_ok l" and dev: "\<And>s. dev s = 0"
  shows "unat b + unat left < 2 ^ 64 \<Longrightarrow> unat b mod lS l = 0 \<or> unat b mod lS l + unat left \<le> lS l \<Longrightarrow>
    \<exists>ps. lov_loop dev l c (unat b div lS l mod lN l) b left subs = Some (0, subs @ ps)
      \<and> concat (map piece_bytes ps) = map (obj_addr (lS l) (lN l)) [unat b ..< unat b + unat left]
      \<and> (\<forall>p\<in>set ps. sio_cmd p = c \<and> 0 < sio_count p \<and> sio_count p \<le> stripe_size l)"
proof (induction "unat left" arbitrary: b left subs rule: less_induct)
  case less
  note r = layout_okD [OF l]
  show ?case
  proof (cases "left = 0")
    case True
    then show ?thesis by (subst lov_loop.simps) simp
  next
    case False
    define n where "n = min left (stripe_size l)"
    define p where "p = \<lparr>sio_cmd = c, sio_idx = unat b div lS l mod lN l, sio_off = lov_StripeOffset l b, sio_count = n\<rparr>"
    have un: "unat n = min (unat left) (lS l)" by (simp add: n_def min_def word_le_nat_alt)
    have n0: "0 < unat n" "0 < n" using False r(1) un by (auto simp: word_less_nat_alt unat_gt_0)
    have uleft: "unat (left - n) = unat left - unat n" by (simp add: unat_sub n_def)
    have ub: "unat (b + n) = unat b + unat n" using less(2) un by (intro unat_add_no_overflow) linarith
    have fit: "unat b mod lS l + unat n \<le> lS l" using less(3) un by linarith
    have n': "unat n = lS l \<and> unat b mod lS l = 0 \<or> unat (left - n) = 0" using less(3) un uleft by linarith
    have idx: "(unat b div lS l mod lN l + 1) mod lN l = unat (b + n) div lS l mod lN l" if "unat n = lS l"
    proof -
      have "(unat b + lS l) div lS l = unat b div lS l + 1" using r(1) by (intro div_add_self2) linarith
      then show ?thesis using that by (simp add: ub mod_Suc_eq)
    qed
    have step: "lov_loop dev l c (unat b div lS l mod lN l) b left subs =
      lov_loop dev l c ((unat b div lS l mod lN l + 1) mod lN l) (b + n) (left - n) (subs @ [p])"
      by (subst lov_loop.simps) (simp add: False n_def [symmetric] p_def [symmetric] dev Let_def)
    have pb: "piece_bytes p = map (obj_addr (lS l) (lN l)) [unat b ..< unat b + unat n]" unfolding p_def by (rule piece_bytes_addr [OF l fit])
    have ok: "sio_cmd p = c \<and> 0 < sio_count p \<and> sio_count p \<le> stripe_size l" using n0 by (simp add: p_def) (simp add: n_def)
    show ?thesis
    proof (cases "left - n = 0")
      case True
      then have "left = n" by simp
      then show ?thesis using pb ok True by (intro exI [of _ "[p]"]) (subst step, subst lov_loop.simps, simp)
    next
      case lf: False
      then have a: "unat n = lS l" "unat b mod lS l = 0" using n' by (auto simp: unat_eq_0)
      have m: "unat (left - n) < unat left" "unat (b + n) + unat (left - n) < 2 ^ 64"
        using uleft n0 un less(2) ub by linarith+
      have al: "unat (b + n) mod lS l = 0" using a ub by simp
      from less(1) [OF m disjI1 [OF al], of "subs @ [p]"] obtain ps where ps: "lov_loop dev l c (unat (b + n) div lS l mod lN l) (b + n) (left - n) (subs @ [p]) = Some (0, (subs @ [p]) @ ps)"
        "concat (map piece_bytes ps) = map (obj_addr (lS l) (lN l)) [unat (b + n) ..< unat (b + n) + unat (left - n)]"
        "\<forall>p\<in>set ps. sio_cmd p = c \<and> 0 < sio_count p \<and> sio_count p \<le> stripe_size l"
        by (elim exE conjE)
      have "unat b + unat left = unat (b + n) + unat (left - n)" using ub uleft un by linarith
      then have "[unat b ..< unat b + unat left] = [unat b ..< unat b + unat n] @ [unat (b + n) ..< unat (b + n) + unat (left - n)]"
        using upt_add_eq_append [of "unat b" "unat b + unat n" "unat (left - n)"] ub by (simp add: add.assoc)
      then have "concat (map piece_bytes (p # ps)) = map (obj_addr (lS l) (lN l)) [unat b ..< unat b + unat left]"
        using ps(2) pb by simp
      moreover have "lov_loop dev l c (unat b div lS l mod lN l) b left subs = Some (0, subs @ (p # ps))"
        unfolding step idx [OF a(1)] ps(1) by simp
      moreover have "\<forall>q\<in>set (p # ps). sio_cmd q = c \<and> 0 < sio_count q \<and> sio_count q \<le> stripe_size l"
        using ps(3) ok by simp
      ultimately show ?thesis by blast
    qed
  qed
qed

text \<open>C25 The LOV cuts an I/O that starts at a stripe boundary or lies within a
  stripe into pieces of at most a stripe, one reference per piece; the pieces
  cover every byte of the I/O exactly once, in order, each at the object and
  offset that the layout gives it, and no two bytes of a file share a place;
  this when every device accepts its piece.  An I/O whose length neither
  divides nor is a multiple of the stripe size fails the assertion, and an I/O
  of length 0 never gets there: the check divides by the length.\<close>

theorem lov_pieces_cover:
  assumes "layout_ok l" "\<And>s. dev s = 0" "unat off + unat cnt < 2 ^ 64"
    "off mod stripe_size l = 0 \<or> unat (off mod stripe_size l) + unat cnt \<le> unat (stripe_size l)"
  shows "(cnt = 0 \<longrightarrow> lov_ReadWrite dev l c off cnt = None) \<and>
    (layout_Check l cnt \<noteq> Some True \<longrightarrow> lov_ReadWrite dev l c off cnt = None) \<and>
    (layout_Check l cnt = Some True \<longrightarrow> (\<exists>ps. lov_ReadWrite dev l c off cnt = Some (0, ps)
      \<and> concat (map piece_bytes ps) = map (obj_addr (lS l) (lN l)) [unat off ..< unat off + unat cnt]
      \<and> (\<forall>p\<in>set ps. sio_cmd p = c \<and> 0 < sio_count p \<and> sio_count p \<le> stripe_size l)))
    \<and> inj (obj_addr (lS l) (lN l))"
proof -
  note r = layout_okD [OF assms(1)]
  have "unat off mod lS l = 0 \<or> unat off mod lS l + unat cnt \<le> lS l"
    using assms(4) by (metis unat_mod unat_0)
  moreover have "unat ((off div stripe_size l) mod ucast (stripe_count l)) = unat off div lS l mod lN l"
    by (simp add: unat_div unat_mod r(4))
  moreover have nz: "stripe_size l \<noteq> 0" "stripe_count l \<noteq> 0" using assms(1) by (auto simp: layout_ok_def)
  ultimately show ?thesis
    using lov_loop_pieces [OF assms(1,2,3), where subs = "[]" and c = c] obj_addr_inj [OF r(1,2)] nz
    by (simp add: lov_ReadWrite_def layout_Check_def)
qed

definition demo_layout :: layout where
  "demo_layout = \<lparr>stripe_size = 4, stripe_count = 3, stripe_pattern = 0\<rparr>"

theorem lov_pieces_cover_witness:
  "\<exists>ps. lov_ReadWrite (\<lambda>_. 0) demo_layout WRITE 8 8 = Some (0, ps)
    \<and> concat (map piece_bytes ps) = [(2, 8), (2, 9), (2, 10), (2, 11), (0, 4), (0, 5), (0, 6), (0, 7)]"
proof -
  have l: "layout_ok demo_layout" by (simp add: layout_ok_def demo_layout_def)
  have "layout_Check demo_layout 8 = Some True" by (simp add: layout_Check_def demo_layout_def)
  moreover have "map (obj_addr 4 3) [8..<16] = [(2, 8), (2, 9), (2, 10), (2, 11), (0, 4), (0, 5), (0, 6), (0, 7)]"
    by (simp add: obj_addr_def upt_rec)
  ultimately show ?thesis
    using lov_pieces_cover [OF l, of "\<lambda>_. 0" 8 8 WRITE] by (auto simp: demo_layout_def)
qed

end
