(* ===== verification/FileMap.thy ===== *)
theory FileMap
  imports RbTree
begin

text \<open>
  Block mapping of src/lustre/filesystem.cpp: the extent tree of a file, the
  stream allocator and the multi-block allocator with its preallocated
  spaces, and the loop that cuts a file I/O into disk requests.
\<close>

section \<open>State\<close>

record fs_extent =
  foff :: u64
  doff :: u64
  ecount :: u64

record prealloc_space =
  pa_deleted :: bool
  pa_lstart :: u64
  pa_pstart :: u64
  pa_len :: u64
  pa_free :: u64

text \<open>\<open>prealloc\<close> is the list of preallocated spaces from the newest on.\<close>

record fs_file =
  fsize :: u64
  ext_tree :: "fs_extent rbtree"
  prealloc :: "prealloc_space list"

text \<open>\<open>fs_curoff\<close> is the allocation cursor of the block device;
  \<open>reserve_pa\<close> is params.fs.ReservePA.\<close>

record filesystem =
  fs_curoff :: u64
  mballoc :: bool
  bsbit :: nat
  reserve_pa :: bool

record mreq =
  mr_off :: u64
  mr_count :: u64
  mr_from_pa :: bool

definition AllocBlock :: "u64 \<Rightarrow> filesystem \<Rightarrow> u64 \<times> filesystem" where
  "AllocBlock sz fs = (fs_curoff fs, fs\<lparr>fs_curoff := fs_curoff fs + sz\<rparr>)"

section \<open>The multi-block allocator\<close>

text \<open>\<open>None\<close> is a failed assertion or BUG_ON.\<close>

definition MbUseInodePA :: "prealloc_space \<Rightarrow> mreq \<Rightarrow> (prealloc_space \<times> mreq) option" where
  "MbUseInodePA pa req =
     (if \<not> pa_lstart pa \<le> mr_off req then None
      else
        let off = pa_pstart pa + (mr_off req - pa_lstart pa);
            end' = min (pa_pstart pa + pa_len pa) (off + mr_count req);
            cnt = end' - off in
        if pa_free pa < cnt then None
        else Some (pa\<lparr>pa_free := pa_free pa - cnt\<rparr>, req\<lparr>mr_off := off, mr_count := cnt\<rparr>))"

definition pa_usable :: "u64 \<Rightarrow> prealloc_space \<Rightarrow> bool" where
  "pa_usable off pa \<longleftrightarrow> \<not> (off < pa_lstart pa \<or> off \<ge> pa_lstart pa + pa_len pa) \<and> \<not> pa_deleted pa \<and> pa_free pa \<noteq> 0"

text \<open>The first preallocated space that can be used, with those before and
  after it.\<close>

fun find_pa :: "u64 \<Rightarrow> prealloc_space list \<Rightarrow> (prealloc_space list \<times> prealloc_space \<times> prealloc_space list) option" where
  "find_pa off [] = None"
| "find_pa off (pa # ps) =
     (if pa_usable off pa then Some ([], pa, ps)
      else map_option (\<lambda>(pre, q, post). (pa # pre, q, post)) (find_pa off ps))"

text \<open>MbReleaseContext: a space that is used up is deleted.\<close>

definition MbReleaseContext :: "filesystem \<Rightarrow> prealloc_space list \<Rightarrow> prealloc_space \<Rightarrow> prealloc_space list \<Rightarrow> prealloc_space list" where
  "MbReleaseContext fs pre pa post = (if reserve_pa fs \<and> pa_free pa = 0 then pre @ post else pre @ pa # post)"

text \<open>The goal: start and size for the request, where \<open>size\<close> is the larger of
  its end and the file size; \<open>None\<close> when the request is too large.\<close>

definition mb_goal :: "nat \<Rightarrow> mreq \<Rightarrow> u64 \<Rightarrow> (u64 \<times> u64) option" where
  "mb_goal b req sz =
     (let off = mr_off req in
      if sz \<le> 64 * 1024 then Some (0, 64 * 1024)
      else if sz \<le> 128 * 1024 then Some (0, 128 * 1024)
      else if sz \<le> 256 * 1024 then Some (0, 256 * 1024)
      else if sz \<le> 512 * 1024 then Some (0, 512 * 1024)
      else if sz \<le> 1024 * 1024 then Some (0, 1024 * 1024)
      else if sz \<le> 4 * 1024 * 1024 then Some (push_bit 21 (drop_bit (21 - b) off), 2 * 1024 * 1024)
      else if sz \<le> 8 * 1024 * 1024 then Some (push_bit 22 (drop_bit (22 - b) off), 4 * 1024 * 1024)
      else if mr_count req \<le> 8 * 1024 * 1024 then Some (push_bit 23 (drop_bit (23 - b) off), 8 * 1024 * 1024)
      else None)"

text \<open>The loop that keeps the new space off the others.\<close>

fun mb_trim :: "u64 \<Rightarrow> prealloc_space list \<Rightarrow> u64 \<Rightarrow> u64 \<Rightarrow> (u64 \<times> u64) option" where
  "mb_trim off [] start end' = Some (start, end')"
| "mb_trim off (pa # ps) start end' =
     (if pa_deleted pa then mb_trim off ps start end'
      else
        let pa_end = pa_lstart pa + pa_len pa in
        if \<not> (off \<ge> pa_end \<or> off < pa_lstart pa) then None
        else if pa_lstart pa \<ge> end' \<or> pa_end \<le> start then mb_trim off ps start end'
        else if pa_lstart pa \<le> start \<and> pa_end \<ge> end' then None
        else if pa_end \<le> off \<and> \<not> pa_end \<ge> start then None
        else
          let start = (if pa_end \<le> off then pa_end else start) in
          if pa_lstart pa > off \<and> \<not> pa_lstart pa \<le> end' then None
          else mb_trim off ps start (if pa_lstart pa > off then pa_lstart pa else end'))"

definition MbNewPreallocation :: "filesystem \<Rightarrow> u64 \<Rightarrow> u64 \<Rightarrow> u64 \<Rightarrow> mreq \<Rightarrow> prealloc_space list \<Rightarrow> (mreq \<times> prealloc_space list) option" where
  "MbNewPreallocation fs lstart pstart len req ps =
     (if \<not> (lstart \<le> mr_off req \<or> len > mr_count req) then None
      else map_option (\<lambda>(pa, req). (req, MbReleaseContext fs [] pa ps))
        (MbUseInodePA \<lparr>pa_deleted = False, pa_lstart = lstart, pa_pstart = pstart, pa_len = len, pa_free = len\<rparr> req))"

text \<open>The part of MbAllocBlock behind the search for a preallocated space.\<close>

definition mb_new_space :: "filesystem \<Rightarrow> fs_file \<Rightarrow> mreq \<Rightarrow> (int \<times> fs_file \<times> mreq \<times> filesystem) option" where
  "mb_new_space fs f req =
     (let sz = mr_off req + mr_count req; sz = (if sz < fsize f then fsize f else sz) in
      if bsbit fs = 0 then None
      else case mb_goal (bsbit fs) req sz of
          None \<Rightarrow> Some (1, f, req, fs)
        | Some (start, sz) \<Rightarrow>
            let start = drop_bit (bsbit fs) start in
            Option.bind (mb_trim (mr_off req) (prealloc f) start (start + sz)) (\<lambda>(start, end').
              let sz = end' - start in
              if start + sz \<le> mr_off req \<and> start > mr_off req then None
              else
                let (pstart, fs) = AllocBlock sz fs in
                if \<not> reserve_pa fs \<and> start = mr_off req \<and> sz \<le> mr_count req
                then Some (0, f, req\<lparr>mr_off := pstart, mr_count := sz\<rparr>, fs)
                else map_option (\<lambda>(req, ps). (0, f\<lparr>prealloc := ps\<rparr>, req, fs))
                  (MbNewPreallocation fs start pstart sz req (prealloc f))))"

definition MbAllocBlock :: "filesystem \<Rightarrow> fs_file \<Rightarrow> mreq \<Rightarrow> (int \<times> fs_file \<times> mreq \<times> filesystem) option" where
  "MbAllocBlock fs f req =
     (case find_pa (mr_off req) (prealloc f) of
        Some (pre, pa, post) \<Rightarrow>
          map_option (\<lambda>(pa, req). (0, f\<lparr>prealloc := MbReleaseContext fs pre pa post\<rparr>, req\<lparr>mr_from_pa := True\<rparr>, fs))
            (MbUseInodePA pa req)
      | None \<Rightarrow> mb_new_space fs f req)"

section \<open>The extent tree\<close>

definition FsExtentCompare :: "fs_extent \<Rightarrow> fs_extent \<Rightarrow> int" where
  "FsExtentCompare e1 e2 =
     (if foff e1 + ecount e1 < foff e2 then -1
      else if foff e1 \<ge> foff e2 + ecount e2 then 1 else 0)"

text \<open>The walk of Map: an extent that compares equal, or the NULL link
  reached.\<close>

fun map_walk :: "fs_extent \<Rightarrow> fs_extent rbt \<Rightarrow> fs_extent path \<Rightarrow> fs_extent + fs_extent path" where
  "map_walk c Leaf p = Inr p"
| "map_walk c (Node col l e r) p =
     (let rc = FsExtentCompare c e in
      if rc < 0 then map_walk c l (FL col e r # p)
      else if rc > 0 then map_walk c r (FR col l e # p)
      else Inl e)"

text \<open>The last node of the walk, with its comparison, and its update.\<close>

fun path_near :: "fs_extent path \<Rightarrow> (int \<times> fs_extent) option" where
  "path_near [] = None"
| "path_near (FL c x r # p) = Some (-1, x)"
| "path_near (FR c l x # p) = Some (1, x)"

fun path_set :: "fs_extent \<Rightarrow> fs_extent path \<Rightarrow> fs_extent path" where
  "path_set y [] = []"
| "path_set y (FL c x r # p) = FL c y r # p"
| "path_set y (FR c l x # p) = FR c l y # p"

text \<open>The end of Map: the new blocks extend the last node or become a node.\<close>

definition map_insert :: "fs_extent path \<Rightarrow> u64 \<Rightarrow> mreq \<Rightarrow> fs_file \<Rightarrow> fs_file option" where
  "map_insert p off req f =
     (let grow = (case path_near p of
            None \<Rightarrow> None
          | Some (_, near) \<Rightarrow>
              if off = foff near + ecount near \<and> mr_off req = doff near + ecount near then Some near else None) in
      case grow of
        Some near \<Rightarrow> Some (f\<lparr>ext_tree := (ext_tree f)\<lparr>rb_root := zip_up Leaf (path_set (near\<lparr>ecount := ecount near + mr_count req\<rparr>) p)\<rparr>\<rparr>)
      | None \<Rightarrow>
          map_option (\<lambda>(t, p). f\<lparr>ext_tree := (ext_tree f)\<lparr>rb_root := rb_set_black (zip_up t p)\<rparr>\<rparr>)
            (rb_insert_color (Node Red Leaf \<lparr>foff = off, doff = mr_off req, ecount = mr_count req\<rparr> Leaf) p))"

definition fs_Map :: "filesystem \<Rightarrow> fs_file \<Rightarrow> mreq \<Rightarrow> bool \<Rightarrow> (int \<times> fs_file \<times> mreq \<times> filesystem) option" where
  "fs_Map fs f req alloc =
     (let cache = \<lparr>foff = mr_off req, doff = 0, ecount = 0\<rparr> in
      case map_walk cache (rb_root (ext_tree f)) [] of
        Inl near \<Rightarrow>
          let delta = mr_off req - foff near; cnt = min (mr_count req) (ecount near - delta) in
          if cnt > 0 then Some (0, f, req\<lparr>mr_off := doff near + delta, mr_count := cnt\<rparr>, fs) else None
      | Inr p \<Rightarrow>
          if \<not> alloc then Some (-1, f, req, fs)
          else
            let cnt = (case path_near p of
                  Some (rc, near) \<Rightarrow> if rc < 0 then min (mr_count req) (foff near - mr_off req) else mr_count req
                | None \<Rightarrow> mr_count req);
                req' = req\<lparr>mr_count := cnt\<rparr> in
            Option.bind
              (if \<not> mballoc fs then (let (off, fs) = AllocBlock cnt fs in Some (0, f, req'\<lparr>mr_off := off\<rparr>, fs))
               else MbAllocBlock fs f req')
              (\<lambda>(rc, f, req', fs).
                if rc < 0 then Some (rc, f, req', fs)
                else map_option (\<lambda>f. (0, f, req', fs)) (map_insert p (mr_off req) req' f)))"

text \<open>The loop of ReadWrite: the requests for the disk, each with the file
  offset it is for.  A failed mapping exits the program.\<close>

partial_function (option) fs_ReadWrite ::
  "bool \<Rightarrow> filesystem \<Rightarrow> fs_file \<Rightarrow> u64 \<Rightarrow> u64 \<Rightarrow> (u64 \<times> mreq) list \<Rightarrow> (fs_file \<times> filesystem \<times> (u64 \<times> mreq) list) option" where
  "fs_ReadWrite write fs f off cnt out =
     (if cnt = 0 then Some (f, fs, out)
      else case fs_Map fs f \<lparr>mr_off = off, mr_count = cnt, mr_from_pa = False\<rparr> write of
          None \<Rightarrow> None
        | Some (rc, f, req, fs) \<Rightarrow>
            if rc < 0 then None
            else fs_ReadWrite write fs f (off + mr_count req) (cnt - mr_count req) (out @ [(off, req)]))"

section \<open>Extents of a file\<close>

definition ext_end :: "fs_extent \<Rightarrow> nat" where
  "ext_end e = unat (foff e) + unat (ecount e)"

definition ext_ok :: "fs_extent \<Rightarrow> bool" where
  "ext_ok e \<longleftrightarrow> 0 < unat (ecount e) \<and> ext_end e < 2 ^ 64"

definition exts :: "fs_file \<Rightarrow> fs_extent list" where
  "exts f = inord (rb_root (ext_tree f))"

text \<open>The extents lie apart, in order.\<close>

abbreviation apart :: "fs_extent list \<Rightarrow> bool" where
  "apart xs \<equiv> sorted_wrt (\<lambda>x y. ext_end x \<le> unat (foff y)) xs"

definition file_ok :: "fs_file \<Rightarrow> bool" where
  "file_ok f \<longleftrightarrow> tree_ok (rb_root (ext_tree f)) \<and> (\<forall>e\<in>set (exts f). ext_ok e)"

definition holds :: "fs_extent \<Rightarrow> nat \<Rightarrow> bool" where
  "holds e b \<longleftrightarrow> unat (foff e) \<le> b \<and> b < ext_end e"

lemma compare_point:
  assumes "ext_ok e"
  shows "FsExtentCompare \<lparr>foff = off, doff = d, ecount = 0\<rparr> e =
    (if unat off < unat (foff e) then -1 else if ext_end e \<le> unat off then 1 else 0)"
proof -
  have "unat (foff e + ecount e) = ext_end e"
    using assms by (simp add: ext_ok_def ext_end_def unat_add_no_overflow)
  then show ?thesis by (simp add: FsExtentCompare_def word_less_nat_alt word_le_nat_alt)
qed

lemma walk_found:
  assumes "\<forall>e\<in>set (inord t). ext_ok e"
  shows "map_walk \<lparr>foff = off, doff = d, ecount = 0\<rparr> t p = Inl e \<Longrightarrow> e \<in> set (inord t) \<and> holds e (unat off)"
  using assms
proof (induction t arbitrary: p)
  case (Node c l x r)
  then have "ext_ok x" by simp
  then show ?case using Node
    by (auto simp: compare_point holds_def Let_def split: if_splits)
qed simp

text \<open>Without an extent at the offset, the walk ends between the extents
  before and behind it.\<close>

lemma walk_missed:
  assumes "\<forall>e\<in>set (inord t). ext_ok e" "apart (inord t)"
    "map_walk \<lparr>foff = off, doff = d, ecount = 0\<rparr> t p = Inr q"
  shows "\<exists>ls rs. lefts q = lefts p @ ls \<and> rights q = rs @ rights p \<and> inord t = ls @ rs
    \<and> (\<forall>e\<in>set ls. ext_end e \<le> unat off) \<and> (\<forall>e\<in>set rs. unat off < unat (foff e))"
  using assms
proof (induction t arbitrary: p)
  case (Node c l x r)
  have ok: "ext_ok x" "\<forall>e\<in>set (inord l). ext_ok e" "\<forall>e\<in>set (inord r). ext_ok e" using Node.prems(1) by simp_all
  have s: "apart (inord l)" "apart (inord r)" "\<forall>e\<in>set (inord l). ext_end e \<le> unat (foff x)" "\<forall>e\<in>set (inord r). ext_end x \<le> unat (foff e)"
    using Node.prems(2) by (auto simp: sorted_wrt_append)
  have x: "unat (foff x) < ext_end x" using ok(1) by (simp add: ext_ok_def ext_end_def)
  consider "unat off < unat (foff x)" | "ext_end x \<le> unat off" | "unat (foff x) \<le> unat off" "unat off < ext_end x" by linarith
  then show ?case
  proof cases
    case 1
    then have "map_walk \<lparr>foff = off, doff = d, ecount = 0\<rparr> l (FL c x r # p) = Inr q"
      using Node.prems(3) by (simp add: compare_point [OF ok(1)])
    from Node.IH(1) [OF ok(2) s(1) this] obtain ls rs where "lefts q = lefts p @ ls" "rights q = rs @ x # inord r @ rights p"
      "inord l = ls @ rs" "\<forall>e\<in>set ls. ext_end e \<le> unat off" "\<forall>e\<in>set rs. unat off < unat (foff e)" by auto
    moreover have "\<forall>e\<in>set (inord r). unat off < unat (foff e)" using 1 s(4) x by fastforce
    ultimately show ?thesis using 1 by (intro exI [of _ ls] exI [of _ "rs @ x # inord r"]) auto
  next
    case 2
    then have n: "\<not> unat off < unat (foff x)" using x by linarith
    then have "map_walk \<lparr>foff = off, doff = d, ecount = 0\<rparr> r (FR c l x # p) = Inr q"
      using Node.prems(3) 2 by (simp add: compare_point [OF ok(1)])
    from Node.IH(2) [OF ok(3) s(2) this] obtain ls rs where "lefts q = lefts p @ inord l @ x # ls" "rights q = rs @ rights p"
      "inord r = ls @ rs" "\<forall>e\<in>set ls. ext_end e \<le> unat off" "\<forall>e\<in>set rs. unat off < unat (foff e)" by auto
    moreover have "\<forall>e\<in>set (inord l). ext_end e \<le> unat off" using 2 s(3) x by fastforce
    ultimately show ?thesis using 2 by (intro exI [of _ "inord l @ x # ls"] exI [of _ rs]) auto
  next
    case 3
    then show ?thesis using Node.prems(3) by (simp add: compare_point [OF ok(1)])
  qed
qed simp

lemma walk_rb: "map_walk c t p = Inr q \<Longrightarrow> q = rb_walk FsExtentCompare c t p"
  by (induction t arbitrary: p) (auto simp: Let_def split: if_splits)

lemma walk_path:
  assumes "tree_ok t" "map_walk c t [] = Inr q"
  shows "ctx q 0"
  using assms walk_ctx [of t _ "[]"] walk_rb [OF assms(2)] by (auto simp: tree_ok_def)

lemma path_set_ctx: "ctx (path_set y p) n = ctx p n"
proof (cases p)
  case (Cons f q)
  then show ?thesis by (cases f; cases "case f of FL c _ _ \<Rightarrow> c | FR c _ _ \<Rightarrow> c") auto
qed simp

text \<open>The end of Map keeps the tree balanced and puts the new blocks between
  the nodes on both sides.\<close>

lemma map_insert_node:
  assumes "ctx p 0" "map_insert p off req f = Some f'" 
    "\<not> (\<exists>rc x. path_near p = Some (rc, x) \<and> off = foff x + ecount x \<and> mr_off req = doff x + ecount x)"
  shows "exts f' = lefts p @ \<lparr>foff = off, doff = mr_off req, ecount = mr_count req\<rparr> # rights p"
proof -
  have "(case path_near p of None \<Rightarrow> None
      | Some (_, near) \<Rightarrow> if off = foff near + ecount near \<and> mr_off req = doff near + ecount near then Some near else None) = None"
    using assms(3) by (auto split: option.splits)
  then show ?thesis using assms(2)
    by (auto simp: map_insert_def exts_def inord_zip dest!: insert_color_inord)
qed

lemma map_insert_grow:
  assumes "path_near p = Some (rc, x)" "off = foff x + ecount x" "mr_off req = doff x + ecount x"
  shows "map_insert p off req f =
    Some (f\<lparr>ext_tree := (ext_tree f)\<lparr>rb_root := zip_up Leaf (path_set (x\<lparr>ecount := ecount x + mr_count req\<rparr>) p)\<rparr>\<rparr>)"
  using assms by (simp add: map_insert_def)

lemma map_insert_total:
  assumes "ctx p 0"
  shows "\<exists>f'. map_insert p off req f = Some f' \<and> tree_ok (rb_root (ext_tree f')) \<and> prealloc f' = prealloc f \<and> fsize f' = fsize f"
proof (cases "\<exists>rc x. path_near p = Some (rc, x) \<and> off = foff x + ecount x \<and> mr_off req = doff x + ecount x")
  case True
  then obtain rc x where x: "path_near p = Some (rc, x)" "off = foff x + ecount x" "mr_off req = doff x + ecount x" by blast
  have "tree_ok (zip_up Leaf (path_set y p))" for y
    using assms by (intro zip_ok [of _ 0]) (simp_all add: path_set_ctx)
  then show ?thesis using map_insert_grow [OF x] by simp
next
  case False
  then have "(case path_near p of None \<Rightarrow> None
      | Some (_, near) \<Rightarrow> if off = foff near + ecount near \<and> mr_off req = doff near + ecount near then Some near else None) = None"
    by (auto split: option.splits)
  moreover obtain t q n where "rb_insert_color (Node Red Leaf \<lparr>foff = off, doff = mr_off req, ecount = mr_count req\<rparr> Leaf) p = Some (t, q)"
    "ctx q n" "rb_wf t n" "nil_or_black t \<or> top_black q"
    using insert_color_wf [OF assms, of "Node Red Leaf \<lparr>foff = off, doff = mr_off req, ecount = mr_count req\<rparr> Leaf"] by auto
  moreover from this have "tree_ok (rb_set_black (zip_up t q))" by (intro zip_ok_set)
  ultimately show ?thesis by (simp add: map_insert_def)
qed

lemma path_near_cases:
  assumes "path_near p = Some (rc, x)"
  shows "rc = -1 \<and> (\<exists>rs. rights p = x # rs \<and> (\<forall>y. lefts (path_set y p) = lefts p \<and> rights (path_set y p) = y # rs))
    \<or> rc = 1 \<and> (\<exists>ls. lefts p = ls @ [x] \<and> (\<forall>y. rights (path_set y p) = rights p \<and> lefts (path_set y p) = ls @ [y]))"
proof (cases p)
  case (Cons f q)
  then show ?thesis using assms by (cases f) auto
qed (use assms in simp)

section \<open>Reading the map\<close>

text \<open>The place on the device of a byte of the file.\<close>

definition place_of :: "fs_extent list \<Rightarrow> u64 \<Rightarrow> u64 option" where
  "place_of xs b = map_option (\<lambda>e. doff e + (b - foff e)) (find (\<lambda>e. holds e (unat b)) xs)"

lemma holds_unique:
  assumes "apart xs" "x \<in> set xs" "y \<in> set xs" "holds x b" "holds y b"
  shows "x = y"
  using assms by (induction xs) (auto simp: holds_def)

lemma place_of_unique:
  assumes "apart xs" "e \<in> set xs" "holds e (unat b)"
  shows "place_of xs b = Some (doff e + (b - foff e))"
proof -
  obtain y where y: "find (\<lambda>e. holds e (unat b)) xs = Some y" "y \<in> set xs" "holds y (unat b)"
    using assms(2,3) by (metis (mono_tags, lifting) find_None_iff find_Some_iff not_None_eq nth_mem)
  then have "y = e" using holds_unique [OF assms(1) y(2) assms(2) y(3) assms(3)] by simp
  then show ?thesis using y(1) by (simp add: place_of_def)
qed

lemma place_of_none: "\<forall>e\<in>set xs. \<not> holds e (unat b) \<Longrightarrow> place_of xs b = None"
  by (auto simp: place_of_def find_None_iff)

lemma walk_hit:
  assumes ok: "file_ok f" "apart (exts f)" and e: "e \<in> set (exts f)" "holds e (unat off)"
  shows "map_walk \<lparr>foff = off, doff = d, ecount = 0\<rparr> (rb_root (ext_tree f)) [] = Inl e"
proof -
  have E: "\<forall>e\<in>set (inord (rb_root (ext_tree f))). ext_ok e" and A: "apart (inord (rb_root (ext_tree f)))"
    using ok by (simp_all add: file_ok_def exts_def)
  show ?thesis
  proof (cases "map_walk \<lparr>foff = off, doff = d, ecount = 0\<rparr> (rb_root (ext_tree f)) []")
    case (Inl y)
    from walk_found [OF E Inl] have "y \<in> set (exts f)" "holds y (unat off)" by (simp_all add: exts_def)
    then show ?thesis using holds_unique [OF ok(2) _ e(1) _ e(2)] Inl by metis
  next
    case (Inr q)
    from walk_missed [OF E A Inr] obtain ls rs where "exts f = ls @ rs" "\<forall>e\<in>set ls. ext_end e \<le> unat off" "\<forall>e\<in>set rs. unat off < unat (foff e)"
      by (auto simp: exts_def)
    then show ?thesis using e by (auto simp: holds_def)
  qed
qed

lemma map_hit:
  assumes ok: "file_ok f" "apart (exts f)" and e: "e \<in> set (exts f)" "holds e (unat (mr_off req))" and n: "mr_count req \<noteq> 0"
  shows "fs_Map fs f req alloc = Some (0, f, req\<lparr>mr_off := doff e + (mr_off req - foff e),
    mr_count := min (mr_count req) (ecount e - (mr_off req - foff e))\<rparr>, fs)"
proof -
  let ?d = "mr_off req - foff e"
  have le: "foff e \<le> mr_off req" and lt: "unat (mr_off req) < unat (foff e) + unat (ecount e)"
    using e(2) by (simp_all add: holds_def ext_end_def word_le_nat_alt)
  then have "unat ?d < unat (ecount e)" by (simp add: unat_sub word_le_nat_alt)
  then have "unat (ecount e - ?d) = unat (ecount e) - unat ?d" by (intro unat_sub) (simp add: word_le_nat_alt)
  then have "ecount e - ?d \<noteq> 0" using \<open>unat ?d < unat (ecount e)\<close> by (metis unat_0 zero_less_diff less_irrefl)
  then have "min (mr_count req) (ecount e - ?d) > 0" using n by (simp add: min_def word_greater_zero_iff)
  then show ?thesis using walk_hit [OF ok e, of 0] by (simp add: fs_Map_def Let_def)
qed

lemma walk_miss:
  assumes ok: "file_ok f" "apart (exts f)" and e: "\<forall>e\<in>set (exts f). \<not> holds e (unat off)"
  shows "\<exists>q. map_walk \<lparr>foff = off, doff = d, ecount = 0\<rparr> (rb_root (ext_tree f)) [] = Inr q \<and> ctx q 0 \<and> exts f = lefts q @ rights q
    \<and> (\<forall>e\<in>set (lefts q). ext_end e \<le> unat off) \<and> (\<forall>e\<in>set (rights q). unat off < unat (foff e))"
proof -
  have E: "\<forall>e\<in>set (inord (rb_root (ext_tree f))). ext_ok e" and A: "apart (inord (rb_root (ext_tree f)))"
    using ok by (simp_all add: file_ok_def exts_def)
  show ?thesis
  proof (cases "map_walk \<lparr>foff = off, doff = d, ecount = 0\<rparr> (rb_root (ext_tree f)) []")
    case (Inl y)
    from walk_found [OF E Inl] show ?thesis using e by (auto simp: exts_def)
  next
    case (Inr q)
    have "tree_ok (rb_root (ext_tree f))" using ok(1) by (simp add: file_ok_def)
    from walk_path [OF this Inr] walk_missed [OF E A Inr] Inr show ?thesis by (auto simp: exts_def)
  qed
qed

text \<open>Map without allocation is \<open>place_of\<close>.\<close>

lemma map_read:
  assumes ok: "file_ok f" "apart (exts f)" and n: "mr_count req \<noteq> 0"
  shows "\<exists>rc r. fs_Map fs f req False = Some (rc, f, r, fs) \<and> (rc = 0 \<or> rc = -1)
    \<and> place_of (exts f) (mr_off req) = (if rc = 0 then Some (mr_off r) else None) \<and> (rc = 0 \<longrightarrow> 0 < mr_count r \<and> mr_count r \<le> mr_count req)"
proof (cases "\<exists>e\<in>set (exts f). holds e (unat (mr_off req))")
  case True
  then obtain e where e: "e \<in> set (exts f)" "holds e (unat (mr_off req))" by blast
  have h: "fs_Map fs f req False = Some (0, f, req\<lparr>mr_off := doff e + (mr_off req - foff e),
    mr_count := min (mr_count req) (ecount e - (mr_off req - foff e))\<rparr>, fs)" by (rule map_hit [OF ok e n])
  then have "min (mr_count req) (ecount e - (mr_off req - foff e)) > 0"
    using walk_hit [OF ok e, of 0] by (auto simp: fs_Map_def Let_def split: if_splits)
  then show ?thesis using h place_of_unique [OF ok(2) e] by simp
next
  case False
  then obtain q where "map_walk \<lparr>foff = mr_off req, doff = 0, ecount = 0\<rparr> (rb_root (ext_tree f)) [] = Inr q"
    using walk_miss [OF ok, of "mr_off req" 0] by blast
  then show ?thesis using place_of_none [of "exts f" "mr_off req"] False by (simp add: fs_Map_def Let_def)
qed

text \<open>Replacing or adding one extent \<open>y\<close> for the bytes from \<open>off\<close> on.\<close>

lemma place_of_upd:
  assumes A: "apart xs" "apart xs'" and y: "y \<in> set xs'" "set xs' \<subseteq> insert y (set xs)"
    and keep: "\<And>e. e \<in> set xs \<Longrightarrow> e \<notin> set xs' \<Longrightarrow> foff e = foff y \<and> doff e = doff y \<and> (\<forall>b. holds e b \<longrightarrow> holds y b)"
    and new: "\<And>b. holds y b \<longleftrightarrow> (off \<le> b \<and> b < off + n) \<or> (\<exists>e\<in>set xs. e \<notin> set xs' \<and> holds e b)"
    and free: "\<And>e b. e \<in> set xs \<Longrightarrow> holds e b \<Longrightarrow> \<not> (off \<le> b \<and> b < off + n)"
    and dev: "\<And>b :: u64. off \<le> unat b \<Longrightarrow> unat b < off + n \<Longrightarrow> doff y + (b - foff y) = dd + (b - word_of_nat off)"
  shows "place_of xs' b = (if off \<le> unat b \<and> unat b < off + n then Some (dd + (b - word_of_nat off)) else place_of xs b)"
proof (cases "off \<le> unat b \<and> unat b < off + n")
  case True
  then have "holds y (unat b)" using new by blast
  from place_of_unique [OF A(2) y(1) this] show ?thesis using True dev by simp
next
  case out: False
  show ?thesis
  proof (cases "\<exists>e\<in>set xs. holds e (unat b)")
    case True
    then obtain e where e: "e \<in> set xs" "holds e (unat b)" by blast
    have p: "place_of xs b = Some (doff e + (b - foff e))" by (rule place_of_unique [OF A(1) e])
    have "place_of xs' b = Some (doff e + (b - foff e))"
    proof (cases "e \<in> set xs'")
      case True
      then show ?thesis using place_of_unique [OF A(2) True e(2)] by simp
    next
      case False
      from keep [OF e(1) False] e(2) have "holds y (unat b)" "foff e = foff y" "doff e = doff y" by blast+
      then show ?thesis using place_of_unique [OF A(2) y(1), of b] by simp
    qed
    then show ?thesis using p out by auto
  next
    case False
    then have "\<not> holds y (unat b)" using new out by blast
    then have "\<forall>e\<in>set xs'. \<not> holds e (unat b)" using y(2) False by blast
    then show ?thesis using place_of_none [of xs b] place_of_none [of xs' b] False out by auto
  qed
qed

lemma map_write:
  assumes ok: "file_ok f" "apart (exts f)" and fs: "\<not> mballoc fs" and n: "mr_count req \<noteq> 0"
    and lim: "unat (mr_off req) + unat (mr_count req) < 2 ^ 64"
    and free: "\<forall>e\<in>set (exts f). ext_end e \<le> unat (mr_off req) \<or> unat (mr_off req) + unat (mr_count req) \<le> unat (foff e)"
  shows "\<exists>f'. fs_Map fs f req True = Some (0, f', req\<lparr>mr_off := fs_curoff fs\<rparr>, fs\<lparr>fs_curoff := fs_curoff fs + mr_count req\<rparr>)
    \<and> file_ok f' \<and> apart (exts f') \<and> (\<forall>b. place_of (exts f') b =
      (if unat (mr_off req) \<le> unat b \<and> unat b < unat (mr_off req) + unat (mr_count req)
       then Some (fs_curoff fs + (b - mr_off req)) else place_of (exts f) b))"
proof -
  let ?o = "mr_off req" and ?n = "mr_count req" and ?d = "fs_curoff fs"
  have n0: "0 < unat ?n" using n by (simp add: unat_gt_0)
  have E: "\<forall>e\<in>set (exts f). ext_ok e" using ok(1) by (simp add: file_ok_def)
  have nh: "\<forall>e\<in>set (exts f). \<not> holds e (unat ?o)" using free n0 by (auto simp: holds_def)
  obtain q where q: "map_walk \<lparr>foff = ?o, doff = 0, ecount = 0\<rparr> (rb_root (ext_tree f)) [] = Inr q" "ctx q 0" "exts f = lefts q @ rights q"
    "\<forall>e\<in>set (lefts q). ext_end e \<le> unat ?o" "\<forall>e\<in>set (rights q). unat ?o < unat (foff e)"
    using walk_miss [OF ok nh, of 0] by blast
  have after: "unat ?o + unat ?n \<le> unat (foff e)" if "e \<in> set (rights q)" for e
  proof -
    have "e \<in> set (exts f)" "unat ?o < unat (foff e)" using that q(3,5) by auto
    moreover from this E have "unat (foff e) < ext_end e" by (auto simp: ext_ok_def ext_end_def)
    ultimately show ?thesis using free by fastforce
  qed
  have cnt: "(case path_near q of Some (rc, near) \<Rightarrow> if rc < 0 then min ?n (foff near - ?o) else ?n | None \<Rightarrow> ?n) = ?n"
  proof (cases "path_near q")
    case (Some r)
    then obtain rc x where r: "path_near q = Some (rc, x)" by (cases r) simp
    show ?thesis
    proof (cases "rc < 0")
      case True
      then have "x \<in> set (rights q)" using path_near_cases [OF r] by auto
      from after [OF this] have "unat ?n \<le> unat (foff x - ?o)" by (subst unat_sub) (auto simp: word_le_nat_alt)
      then show ?thesis using r True by (simp add: min_def word_le_nat_alt)
    qed (use r in simp)
  qed simp
  define r' where "r' = req\<lparr>mr_count := ?n, mr_off := ?d\<rparr>"
  have r': "mr_off r' = ?d" "mr_count r' = ?n" "r' = req\<lparr>mr_off := ?d\<rparr>" by (simp_all add: r'_def)
  obtain f' where f': "map_insert q ?o r' f = Some f'" "tree_ok (rb_root (ext_tree f'))" using map_insert_total [OF q(2)] by blast
  have res: "fs_Map fs f req True = Some (0, f', r', fs\<lparr>fs_curoff := ?d + ?n\<rparr>)"
    using q(1) fs f'(1) by (simp add: fs_Map_def Let_def cnt AllocBlock_def r'_def)
  have end': "unat (foff e + ecount e) = ext_end e" if "e \<in> set (exts f)" for e
    using E that by (simp add: ext_ok_def ext_end_def unat_add_no_overflow)
  have A: "apart (lefts q)" "apart (rights q)" "\<forall>a\<in>set (lefts q). \<forall>b\<in>set (rights q). ext_end a \<le> unat (foff b)"
    using ok(2) q(3) by (auto simp: sorted_wrt_append)
  have goal: ?thesis if y: "apart (exts f')" "\<forall>e\<in>set (exts f'). ext_ok e"
    "\<And>b. place_of (exts f') b = (if unat ?o \<le> unat b \<and> unat b < unat ?o + unat ?n then Some (?d + (b - word_of_nat (unat ?o))) else place_of (exts f) b)"
    using res y f'(2) r'(3) by (auto simp: file_ok_def)
  show ?thesis
  proof (cases "\<exists>rc x. path_near q = Some (rc, x) \<and> ?o = foff x + ecount x \<and> mr_off r' = doff x + ecount x")
    case True
    then obtain rc x where x: "path_near q = Some (rc, x)" "?o = foff x + ecount x" "mr_off r' = doff x + ecount x" by blast
    have "\<not> (\<exists>rs. rights q = x # rs)"
    proof
      assume "\<exists>rs. rights q = x # rs"
      then have xr: "x \<in> set (exts f)" "unat ?o < unat (foff x)" using q(3,5) by auto
      then show False using end' [OF xr(1)] x(2) by (simp add: ext_end_def)
    qed
    then obtain ls where ls: "lefts q = ls @ [x]" "\<And>y. rights (path_set y q) = rights q \<and> lefts (path_set y q) = ls @ [y]"
      using path_near_cases [OF x(1)] by blast
    have xe: "x \<in> set (exts f)" using ls(1) q(3) by simp
    have ex: "ext_end x = unat ?o" using end' [OF xe] x(2) by simp
    define y where "y = x\<lparr>ecount := ecount x + ?n\<rparr>"
    have "unat (ecount x) + unat ?n < 2 ^ 64" using ex lim by (simp add: ext_end_def)
    then have ye: "ext_end y = unat ?o + unat ?n" "foff y = foff x" "doff y = doff x"
      using ex by (simp_all add: y_def ext_end_def unat_add_no_overflow)
    have f2: "exts f' = ls @ y # rights q"
      using f'(1) map_insert_grow [OF x(1,2,3), of f] ls(2) by (auto simp: exts_def inord_zip y_def r'(2))
    have xs: "exts f = ls @ x # rights q" using q(3) ls(1) by simp
    have lx: "\<forall>a\<in>set ls. ext_end a \<le> unat (foff x)" using A(1) ls(1) by (auto simp: sorted_wrt_append)
    have ap: "apart (exts f')" using A ls(1) lx ye after unfolding f2 by (auto simp: sorted_wrt_append)
    have eo: "\<forall>e\<in>set (exts f'). ext_ok e"
    proof -
      have "unat (foff y) + unat (ecount y) = unat ?o + unat ?n" "unat (foff y) \<le> unat ?o" using ye ex by (simp_all add: ext_end_def)
      then have "0 < unat (ecount y)" using n0 by linarith
      then have "ext_ok y" using ye(1) lim by (simp add: ext_ok_def)
      then show ?thesis using E unfolding f2 xs by auto
    qed
    have hx: "holds x b \<longleftrightarrow> unat (foff x) \<le> b \<and> b < unat ?o" for b using ex by (simp add: holds_def)
    have fx: "unat (foff x) \<le> unat ?o" using ex by (simp add: ext_end_def)
    have hy: "holds y b \<longleftrightarrow> unat (foff x) \<le> b \<and> b < unat ?o + unat ?n" for b using ye by (simp add: holds_def)
    have xn: "x \<notin> set (exts f')"
    proof
      assume "x \<in> set (exts f')"
      moreover have "x \<noteq> y" using ye ex n0 by auto
      moreover have "unat (foff x) < ext_end x" using E xe by (simp add: ext_ok_def ext_end_def)
      then have "x \<notin> set ls" using lx by fastforce
      moreover have "x \<notin> set (rights q)" using fx q(5) by force
      ultimately show False unfolding f2 by simp
    qed
    show ?thesis
    proof (rule goal [OF ap eo])
      fix b
      show "place_of (exts f') b = (if unat ?o \<le> unat b \<and> unat b < unat ?o + unat ?n
        then Some (?d + (b - word_of_nat (unat ?o))) else place_of (exts f) b)"
      proof (rule place_of_upd [where y = y, OF ok(2) ap])
        show "y \<in> set (exts f')" "set (exts f') \<subseteq> insert y (set (exts f))" unfolding f2 xs by auto
        show "foff e = foff y \<and> doff e = doff y \<and> (\<forall>b. holds e b \<longrightarrow> holds y b)" if "e \<in> set (exts f)" "e \<notin> set (exts f')" for e
          using that ye hx hy unfolding f2 xs by auto
        show "holds y b \<longleftrightarrow> unat ?o \<le> b \<and> b < unat ?o + unat ?n \<or> (\<exists>e\<in>set (exts f). e \<notin> set (exts f') \<and> holds e b)" for b
        proof -
          have "e = x" if "e \<in> set (exts f)" "e \<notin> set (exts f')" for e using that unfolding xs f2 by auto
          then have "(\<exists>e\<in>set (exts f). e \<notin> set (exts f') \<and> holds e b) \<longleftrightarrow> holds x b" using xn xe by blast
          then show ?thesis unfolding hx hy using fx by linarith
        qed
        show "\<not> (unat ?o \<le> b \<and> b < unat ?o + unat ?n)" if "e \<in> set (exts f)" "holds e b" for e b
          using that free by (fastforce simp: holds_def)
        show "doff y + (b - foff y) = ?d + (b - word_of_nat (unat ?o))" if "unat ?o \<le> unat b" for b
          using x(2,3) r'(1) ye by (simp add: algebra_simps)
      qed
    qed
  next
    case False
    define y where "y = \<lparr>foff = ?o, doff = ?d, ecount = ?n\<rparr>"
    have f2: "exts f' = lefts q @ y # rights q"
      using map_insert_node [OF q(2) f'(1) False] by (simp add: y_def r')
    have ye: "ext_end y = unat ?o + unat ?n" "foff y = ?o" "doff y = ?d" by (simp_all add: y_def ext_end_def)
    have ap: "apart (exts f')" using A q(4) ye after unfolding f2 by (auto simp: sorted_wrt_append)
    have "ext_ok y" using ye lim n0 by (simp add: ext_ok_def y_def)
    then have eo: "\<forall>e\<in>set (exts f'). ext_ok e" using E q(3) unfolding f2 by auto
    have hy: "holds y b \<longleftrightarrow> unat ?o \<le> b \<and> b < unat ?o + unat ?n" for b using ye by (simp add: holds_def)
    show ?thesis
    proof (rule goal [OF ap eo])
      fix b
      show "place_of (exts f') b = (if unat ?o \<le> unat b \<and> unat b < unat ?o + unat ?n
        then Some (?d + (b - word_of_nat (unat ?o))) else place_of (exts f) b)"
      proof (rule place_of_upd [where y = y, OF ok(2) ap])
        show "y \<in> set (exts f')" "set (exts f') \<subseteq> insert y (set (exts f))" unfolding f2 q(3) by auto
        show "foff e = foff y \<and> doff e = doff y \<and> (\<forall>b. holds e b \<longrightarrow> holds y b)" if "e \<in> set (exts f)" "e \<notin> set (exts f')" for e
          using that unfolding f2 q(3) by auto
        show "holds y b \<longleftrightarrow> unat ?o \<le> b \<and> b < unat ?o + unat ?n \<or> (\<exists>e\<in>set (exts f). e \<notin> set (exts f') \<and> holds e b)" for b
          using hy unfolding f2 q(3) by auto
        show "\<not> (unat ?o \<le> b \<and> b < unat ?o + unat ?n)" if "e \<in> set (exts f)" "holds e b" for e b
          using that free by (fastforce simp: holds_def)
        show "doff y + (b - foff y) = ?d + (b - word_of_nat (unat ?o))" for b
          using ye by simp
      qed
    qed
  qed
qed

section \<open>The loop of ReadWrite\<close>

lemma walk_near:
  "map_walk c t p = Inr q \<Longrightarrow> path_near q = path_near p \<or>
    (\<exists>rc x. path_near q = Some (rc, x) \<and> x \<in> set (inord t) \<and> (rc < 0 \<longrightarrow> FsExtentCompare c x < 0))"
proof (induction t arbitrary: p)
  case (Node col l x r)
  show ?case
  proof (cases "FsExtentCompare c x < 0")
    case True
    then have "map_walk c l (FL col x r # p) = Inr q" using Node.prems by (simp add: Let_def)
    from Node.IH(1) [OF this] show ?thesis using True by auto
  next
    case False
    then have "map_walk c r (FR col l x # p) = Inr q" using Node.prems by (simp add: Let_def split: if_splits)
    from Node.IH(2) [OF this] show ?thesis using False by auto
  qed
qed simp

lemma hit_count:
  assumes "holds e (unat off)" "n \<noteq> 0"
  shows "0 < min n (ecount e - (off - foff e))" "unat (ecount e - (off - foff e)) = ext_end e - unat off"
proof -
  let ?d = "off - foff e"
  have le: "foff e \<le> off" and lt: "unat off < unat (foff e) + unat (ecount e)"
    using assms(1) by (simp_all add: holds_def ext_end_def word_le_nat_alt)
  have d: "unat ?d = unat off - unat (foff e)" using le by (simp add: unat_sub)
  have "unat (ecount e - ?d) = unat (ecount e) - unat ?d" using d lt le by (intro unat_sub) (simp add: word_le_nat_alt)
  then show e: "unat (ecount e - ?d) = ext_end e - unat off" using d le by (simp add: ext_end_def word_le_nat_alt)
  have "0 < unat (ecount e - ?d)" using e lt by (simp add: ext_end_def)
  then have "ecount e - ?d \<noteq> 0" by (simp add: unat_gt_0)
  then show "0 < min n (ecount e - ?d)" using assms(2) by (simp add: min_def word_greater_zero_iff)
qed

text \<open>Byte b of the file has block d: some extent says so.  A mapping of the
  bytes of a request adds those bytes, keeps what is mapped, and adds no other.\<close>

definition maps :: "fs_file \<Rightarrow> u64 \<Rightarrow> u64 \<Rightarrow> bool" where
  "maps f b d \<longleftrightarrow> (\<exists>e\<in>set (exts f). holds e (unat b) \<and> d = doff e + (b - foff e))"

definition map_adds :: "fs_file \<Rightarrow> fs_file \<Rightarrow> u64 \<Rightarrow> mreq \<Rightarrow> bool" where
  "map_adds f f' off r \<longleftrightarrow> (\<forall>k<unat (mr_count r). maps f' (off + of_nat k) (mr_off r + of_nat k))
     \<and> (\<forall>b d. maps f b d \<longrightarrow> maps f' b d)
     \<and> (\<forall>b d. maps f' b d \<longrightarrow> maps f b d \<or> unat off \<le> unat b \<and> unat b < unat off + unat (mr_count r))"

lemma piece_byte:
  assumes "k < unat c" "unat off + unat c < 2 ^ 64"
  shows "unat (off + of_nat k :: u64) = unat off + k"
proof -
  have "k < 2 ^ 64" using assms by linarith
  then have "unat (of_nat k :: u64) = k" by (rule unat_of_nat_u64)
  then show ?thesis using assms unat_add_no_overflow [of off "of_nat k"] by simp
qed

lemma map_adds_hit:
  assumes e: "e \<in> set (exts f)" "holds e (unat off)" and c: "unat (mr_count r) \<le> ext_end e - unat off"
    and o: "mr_off r = doff e + (off - foff e)" and lim: "unat off + unat (mr_count r) < 2 ^ 64"
  shows "map_adds f f off r"
proof -
  have "maps f (off + of_nat k) (mr_off r + of_nat k)" if k: "k < unat (mr_count r)" for k
    unfolding maps_def
  proof (intro bexI [OF _ e(1)] conjI)
    show "holds e (unat (off + of_nat k))" using piece_byte [OF k lim] e(2) c k by (simp add: holds_def)
    show "mr_off r + of_nat k = doff e + (off + of_nat k - foff e)" using o by (simp add: algebra_simps)
  qed
  then show ?thesis by (simp add: map_adds_def)
qed

text \<open>An extent y put in, at a place of its own or in the place of a shorter x.\<close>

lemma map_adds_put:
  assumes y: "y \<in> set (exts f')" "set (exts f') \<subseteq> insert y (set (exts f))"
    and old: "\<And>x. x \<in> set (exts f) \<Longrightarrow> x \<in> set (exts f') \<or> foff x = foff y \<and> doff x = doff y \<and> ext_end x \<le> ext_end y"
    and new: "\<And>b. holds y b \<Longrightarrow> unat off \<le> b \<and> b < unat off + unat (mr_count r)
      \<or> (\<exists>x\<in>set (exts f). foff x = foff y \<and> doff x = doff y \<and> holds x b)"
    and at: "unat (foff y) \<le> unat off" "ext_end y = unat off + unat (mr_count r)" "mr_off r - off = doff y - foff y"
    and lim: "unat off + unat (mr_count r) < 2 ^ 64"
  shows "map_adds f f' off r"
  unfolding map_adds_def
proof (intro conjI allI impI)
  fix k assume k: "k < unat (mr_count r)"
  have "holds y (unat (off + of_nat k))" using piece_byte [OF k lim] at k by (simp add: holds_def)
  moreover have "mr_off r + of_nat k = doff y + (off + of_nat k - foff y)" using at(3) by (simp add: algebra_simps)
  ultimately show "maps f' (off + of_nat k) (mr_off r + of_nat k)" using y(1) unfolding maps_def by blast
next
  fix b d assume "maps f b d"
  then obtain x where x: "x \<in> set (exts f)" "holds x (unat b)" "d = doff x + (b - foff x)" unfolding maps_def by blast
  from old [OF x(1)] show "maps f' b d"
  proof (elim disjE conjE)
    assume "x \<in> set (exts f')" then show ?thesis using x unfolding maps_def by blast
  next
    assume "foff x = foff y" "doff x = doff y" "ext_end x \<le> ext_end y"
    then have "holds y (unat b)" "d = doff y + (b - foff y)" using x by (auto simp: holds_def)
    then show ?thesis using y(1) unfolding maps_def by blast
  qed
next
  fix b d assume "maps f' b d"
  then obtain x where x: "x \<in> set (exts f')" "holds x (unat b)" "d = doff x + (b - foff x)" unfolding maps_def by blast
  show "maps f b d \<or> unat off \<le> unat b \<and> unat b < unat off + unat (mr_count r)"
  proof (cases "x = y")
    case True
    then show ?thesis using new [of "unat b"] x(2,3) unfolding maps_def by metis
  next
    case False
    then show ?thesis using x y(2) unfolding maps_def by blast
  qed
qed

text \<open>With the stream allocator Map always maps at least a byte of the
  request, and puts it into the tree with the blocks that it returns.\<close>

lemma map_progress:
  assumes ok: "file_ok f" and fs: "\<not> mballoc fs" and n: "mr_count req \<noteq> 0"
    and lim: "unat (mr_off req) + unat (mr_count req) < 2 ^ 64"
  shows "\<exists>f' r fs'. fs_Map fs f req True = Some (0, f', r, fs') \<and> file_ok f' \<and> \<not> mballoc fs'
    \<and> 0 < mr_count r \<and> mr_count r \<le> mr_count req \<and> map_adds f f' (mr_off req) r"
proof -
  let ?o = "mr_off req" and ?n = "mr_count req" and ?c = "\<lparr>foff = mr_off req, doff = 0, ecount = 0\<rparr>"
  have E: "\<forall>e\<in>set (inord (rb_root (ext_tree f))). ext_ok e" and T: "tree_ok (rb_root (ext_tree f))"
    using ok by (simp_all add: file_ok_def exts_def)
  show ?thesis
  proof (cases "map_walk ?c (rb_root (ext_tree f)) []")
    case (Inl e)
    have h: "e \<in> set (exts f)" "holds e (unat ?o)" using walk_found [OF E Inl] by (simp_all add: exts_def)
    note hc = hit_count [OF h(2) n]
    define r where "r = req\<lparr>mr_off := doff e + (?o - foff e), mr_count := min ?n (ecount e - (?o - foff e))\<rparr>"
    have "unat (mr_count r) \<le> ext_end e - unat ?o" "unat (mr_count r) \<le> unat ?n"
      using hc(2) by (simp_all add: r_def min_def word_le_nat_alt)
    then have "map_adds f f ?o r" using lim by (intro map_adds_hit [OF h]) (simp_all add: r_def)
    then show ?thesis using Inl ok fs hc(1) by (simp add: fs_Map_def Let_def r_def)
  next
    case (Inr q)
    note cq = walk_path [OF T Inr]
    have xq: "x \<in> set (exts f) \<and> (rc < 0 \<longrightarrow> unat ?o < unat (foff x))" if r: "path_near q = Some (rc, x)" for rc x
    proof -
      have x: "x \<in> set (inord (rb_root (ext_tree f)))" "rc < 0 \<longrightarrow> FsExtentCompare ?c x < 0"
        using walk_near [OF Inr] r by auto
      then have "ext_ok x" using E by blast
      then show ?thesis using x compare_point [of x ?o 0] by (auto simp: exts_def split: if_splits)
    qed
    define cnt where "cnt = (case path_near q of Some (rc, near) \<Rightarrow> if rc < 0 then min ?n (foff near - ?o) else ?n | None \<Rightarrow> ?n)"
    have cnt: "0 < cnt" "cnt \<le> ?n"
    proof -
      have "0 < cnt \<and> cnt \<le> ?n"
      proof (cases "path_near q")
        case None
        then show ?thesis using n by (simp add: cnt_def word_greater_zero_iff)
      next
        case (Some a)
        then obtain rc x where r: "path_near q = Some (rc, x)" by (cases a) simp
        show ?thesis
        proof (cases "rc < 0")
          case True
          then have "?o < foff x" using xq [OF r] by (simp add: word_less_nat_alt)
          then have "foff x - ?o \<noteq> 0" by auto
          then show ?thesis using r True n by (auto simp: cnt_def min_def word_greater_zero_iff)
        qed (use r n in \<open>simp add: cnt_def word_greater_zero_iff\<close>)
      qed
      then show "0 < cnt" "cnt \<le> ?n" by blast+
    qed
    define r' where "r' = req\<lparr>mr_count := cnt, mr_off := fs_curoff fs\<rparr>"
    obtain f' where f': "map_insert q ?o r' f = Some f'" "tree_ok (rb_root (ext_tree f'))" using map_insert_total [OF cq] by blast
    have res: "fs_Map fs f req True = Some (0, f', r', fs\<lparr>fs_curoff := fs_curoff fs + cnt\<rparr>)"
      using Inr fs f'(1) by (simp add: fs_Map_def Let_def cnt_def [symmetric] AllocBlock_def r'_def)
    have c0: "0 < unat cnt" "unat ?o + unat cnt < 2 ^ 64" using cnt lim by (auto simp: unat_gt_0 word_le_nat_alt word_greater_zero_iff)
    have ex: "set (exts f) = set (lefts q) \<union> set (rights q)"
      using walk_inord [of FsExtentCompare ?c "rb_root (ext_tree f)" "[]"] walk_rb [OF Inr] by (metis append_Nil append_Nil2 exts_def lefts.simps(1) rights.simps(1) set_append)
    have "(\<forall>e\<in>set (exts f'). ext_ok e) \<and> map_adds f f' ?o r'"
    proof (cases "\<exists>rc x. path_near q = Some (rc, x) \<and> ?o = foff x + ecount x \<and> mr_off r' = doff x + ecount x")
      case True
      then obtain rc x where x: "path_near q = Some (rc, x)" "?o = foff x + ecount x" "mr_off r' = doff x + ecount x" by blast
      have xo: "x \<in> set (exts f)" "ext_ok x" using xq [OF x(1)] E by (auto simp: exts_def)
      then have "unat (foff x + ecount x) = ext_end x" by (simp add: ext_ok_def ext_end_def unat_add_no_overflow)
      then have ee: "unat (foff x) + unat (ecount x) = unat ?o" using x(2) by (simp add: ext_end_def)
      define y where "y = x\<lparr>ecount := ecount x + cnt\<rparr>"
      have ycount: "unat (ecount x + cnt) = unat (ecount x) + unat cnt" using ee c0 by (intro unat_add_no_overflow) linarith
      then have "ext_ok y" using ee c0 by (simp add: ext_ok_def ext_end_def y_def)
      moreover have "exts f' = lefts (path_set y q) @ rights (path_set y q)"
        using f'(1) map_insert_grow [OF x, of f] by (auto simp: exts_def inord_zip y_def r'_def)
      then have sets: "y \<in> set (exts f')" "set (exts f') \<subseteq> insert y (set (exts f))" "set (exts f) \<subseteq> insert x (set (exts f'))"
        using path_near_cases [OF x(1)] ex by auto
      moreover have "map_adds f f' ?o r'"
      proof (rule map_adds_put [OF sets(1,2)])
        show "z \<in> set (exts f') \<or> foff z = foff y \<and> doff z = doff y \<and> ext_end z \<le> ext_end y" if "z \<in> set (exts f)" for z
          using that sets(3) ycount by (auto simp: y_def ext_end_def)
        show "unat ?o \<le> b \<and> b < unat ?o + unat (mr_count r') \<or> (\<exists>z\<in>set (exts f). foff z = foff y \<and> doff z = doff y \<and> holds z b)"
          if "holds y b" for b
          using that xo(1) ycount ee by (auto simp: y_def r'_def holds_def ext_end_def)
        show "unat (foff y) \<le> unat ?o" "ext_end y = unat ?o + unat (mr_count r')" using ycount ee by (simp_all add: y_def ext_end_def r'_def)
        show "mr_off r' - ?o = doff y - foff y" unfolding x(2,3) by (simp add: y_def)
        show "unat ?o + unat (mr_count r') < 2 ^ 64" using c0 by (simp add: r'_def)
      qed
      ultimately show ?thesis using E unfolding exts_def by blast
    next
      case False
      define y where "y = \<lparr>foff = ?o, doff = mr_off r', ecount = mr_count r'\<rparr>"
      have "exts f' = lefts q @ y # rights q" unfolding y_def by (rule map_insert_node [OF cq f'(1) False])
      then have sets: "set (exts f') = insert y (set (exts f))" using ex by auto
      moreover have "ext_ok y" using c0 by (simp add: ext_ok_def ext_end_def r'_def y_def)
      moreover have "map_adds f f' ?o r'"
        by (rule map_adds_put [of y]) (use c0 in \<open>auto simp: sets\<close>, simp_all add: y_def r'_def ext_end_def holds_def)
      ultimately show ?thesis using E by (auto simp: exts_def)
    qed
    then have "file_ok f'" "map_adds f f' ?o r'" using f'(2) by (simp_all add: file_ok_def)
    then show ?thesis using res cnt fs by (simp add: r'_def)
  qed
qed

text \<open>The pieces follow each other from the offset on, none empty.\<close>

fun pieces_cover :: "u64 \<Rightarrow> u64 \<Rightarrow> (u64 \<times> mreq) list \<Rightarrow> bool" where
  "pieces_cover off cnt [] \<longleftrightarrow> cnt = 0"
| "pieces_cover off cnt ((o', r) # ps) \<longleftrightarrow> o' = off \<and> 0 < mr_count r \<and> mr_count r \<le> cnt
     \<and> pieces_cover (off + mr_count r) (cnt - mr_count r) ps"

lemma piece_step:
  assumes "0 < m" "m \<le> (cnt :: u64)" "unat off + unat cnt < 2 ^ 64"
  shows "unat (cnt - m) = unat cnt - unat m" "unat (cnt - m) < unat cnt" "unat (off + m) + unat (cnt - m) < 2 ^ 64" "unat (off + m) = unat off + unat m"
proof -
  have m: "0 < unat m" "unat m \<le> unat cnt" using assms by (auto simp: unat_gt_0 word_le_nat_alt word_greater_zero_iff)
  show u: "unat (cnt - m) = unat cnt - unat m" using assms(2) by (rule unat_sub)
  then show "unat (cnt - m) < unat cnt" using m by linarith
  show a: "unat (off + m) = unat off + unat m" using m assms(3) by (intro unat_add_no_overflow) linarith
  then show "unat (off + m) + unat (cnt - m) < 2 ^ 64" using u m assms(3) by linarith
qed

text \<open>What a write of the bytes from off on has done: it has added those bytes to
  the map, kept what was mapped and added no other, and its pieces go to the
  blocks of the map.\<close>

definition wrote :: "fs_file \<Rightarrow> fs_file \<Rightarrow> u64 \<Rightarrow> u64 \<Rightarrow> (u64 \<times> mreq) list \<Rightarrow> bool" where
  "wrote f f' off cnt ps \<longleftrightarrow> (\<forall>(o', r)\<in>set ps. \<forall>k<unat (mr_count r). maps f' (o' + of_nat k) (mr_off r + of_nat k))
     \<and> (\<forall>b. unat off \<le> unat b \<and> unat b < unat off + unat cnt \<longrightarrow> (\<exists>d. maps f' b d))
     \<and> (\<forall>b d. maps f b d \<longrightarrow> maps f' b d)
     \<and> (\<forall>b d. maps f' b d \<longrightarrow> maps f b d \<or> unat off \<le> unat b \<and> unat b < unat off + unat cnt)"

lemma wrote_nil: "wrote f f off 0 []"
  by (auto simp: wrote_def)

lemma wrote_cons:
  assumes one: "map_adds f f1 off r" and rest: "wrote f1 f' (off + mr_count r) (cnt - mr_count r) ps"
    and c: "0 < mr_count r" "mr_count r \<le> cnt" "unat off + unat cnt < 2 ^ 64"
  shows "wrote f f' off cnt ((off, r) # ps)"
proof -
  note st = piece_step [OF c]
  have le: "unat (mr_count r) \<le> unat cnt" using c(2) by (simp add: word_le_nat_alt)
  have keep: "maps f1 b d \<Longrightarrow> maps f' b d" for b d using rest by (simp add: wrote_def)
  have here: "maps f' (off + of_nat k) (mr_off r + of_nat k)" if "k < unat (mr_count r)" for k
    using one that by (intro keep) (simp add: map_adds_def)
  have byte: "\<exists>d. maps f' b d" if b: "unat off \<le> unat b" "unat b < unat off + unat cnt" for b
  proof (cases "unat b < unat off + unat (mr_count r)")
    case True
    define k where "k = unat b - unat off"
    have k: "k < unat (mr_count r)" using True b(1) by (simp add: k_def)
    have "unat (off + of_nat k) = unat b" using piece_byte [OF k] le c(3) b(1) by (simp add: k_def)
    then have "off + of_nat k = b" by (rule word_unat_eq_iff [THEN iffD2])
    then show ?thesis using here [OF k] by auto
  next
    case False
    then have "unat (off + mr_count r) \<le> unat b" "unat b < unat (off + mr_count r) + unat (cnt - mr_count r)"
      using b(2) le st(1,4) by simp_all
    then show ?thesis using rest unfolding wrote_def by blast
  qed
  have old: "maps f' b d" if "maps f b d" for b d using one that by (intro keep) (simp add: map_adds_def)
  have only: "maps f b d \<or> unat off \<le> unat b \<and> unat b < unat off + unat cnt" if "maps f' b d" for b d
  proof -
    have "maps f1 b d \<or> unat (off + mr_count r) \<le> unat b \<and> unat b < unat (off + mr_count r) + unat (cnt - mr_count r)"
      using rest that by (simp add: wrote_def)
    moreover have "maps f1 b d \<Longrightarrow> maps f b d \<or> unat off \<le> unat b \<and> unat b < unat off + unat (mr_count r)"
      using one by (simp add: map_adds_def)
    ultimately show ?thesis using st(1,4) le by auto
  qed
  have "\<forall>(o', r')\<in>set ps. \<forall>k<unat (mr_count r'). maps f' (o' + of_nat k) (mr_off r' + of_nat k)"
    using rest by (simp add: wrote_def)
  then have "\<forall>(o', r')\<in>set ((off, r) # ps). \<forall>k<unat (mr_count r'). maps f' (o' + of_nat k) (mr_off r' + of_nat k)"
    using here by simp
  then show ?thesis unfolding wrote_def using byte old only by blast
qed

lemma write_loop:
  "file_ok f \<Longrightarrow> \<not> mballoc fs \<Longrightarrow> unat off + unat cnt < 2 ^ 64 \<Longrightarrow>
    \<exists>f' fs' ps. fs_ReadWrite True fs f off cnt out = Some (f', fs', out @ ps) \<and> file_ok f' \<and> pieces_cover off cnt ps
      \<and> wrote f f' off cnt ps"
proof (induction "unat cnt" arbitrary: f fs off cnt out rule: less_induct)
  case less
  show ?case
  proof (cases "cnt = 0")
    case True
    then show ?thesis using less(2) by (subst fs_ReadWrite.simps) (auto simp: wrote_nil)
  next
    case False
    let ?q = "\<lparr>mr_off = off, mr_count = cnt, mr_from_pa = False\<rparr>"
    obtain f1 r fs1 where 1: "fs_Map fs f ?q True = Some (0, f1, r, fs1)" "file_ok f1" "\<not> mballoc fs1" "0 < mr_count r" "mr_count r \<le> cnt"
      "map_adds f f1 off r"
      using map_progress [OF less(2,3), of ?q] False less(4) by auto
    note st = piece_step [OF 1(4,5) less(4)]
    from less(1) [OF st(2) 1(2,3) st(3), of "out @ [(off, r)]"] obtain f' fs' ps where
      p: "fs_ReadWrite True fs1 f1 (off + mr_count r) (cnt - mr_count r) (out @ [(off, r)]) = Some (f', fs', (out @ [(off, r)]) @ ps)"
      "file_ok f'" "pieces_cover (off + mr_count r) (cnt - mr_count r) ps" "wrote f1 f' (off + mr_count r) (cnt - mr_count r) ps" by blast
    have "fs_ReadWrite True fs f off cnt out = Some (f', fs', out @ ((off, r) # ps))"
      by (subst fs_ReadWrite.simps) (simp add: False 1(1) p(1))
    then show ?thesis using p(2,3) 1(4,5) wrote_cons [OF 1(6) p(4) 1(4,5) less(4)]
      by (intro exI [of _ f'] exI [of _ fs'] exI [of _ "(off, r) # ps"]) simp
  qed
qed

lemma read_loop:
  assumes ok: "file_ok f" "apart (exts f)"
  shows "unat off + unat cnt < 2 ^ 64 \<Longrightarrow>
    (if \<forall>b\<in>{unat off..<unat off + unat cnt}. \<exists>e\<in>set (exts f). holds e b
     then \<exists>ps. fs_ReadWrite False fs f off cnt out = Some (f, fs, out @ ps) \<and> pieces_cover off cnt ps
       \<and> (\<forall>(o', r)\<in>set ps. \<forall>k<unat (mr_count r). place_of (exts f) (o' + of_nat k) = Some (mr_off r + of_nat k))
     else fs_ReadWrite False fs f off cnt out = None)"
proof (induction "unat cnt" arbitrary: off cnt out rule: less_induct)
  case less
  show ?case
  proof (cases "cnt = 0")
    case True
    then show ?thesis by (subst (1 2) fs_ReadWrite.simps) simp
  next
    case False
    let ?q = "\<lparr>mr_off = off, mr_count = cnt, mr_from_pa = False\<rparr>"
    have c: "0 < unat cnt" using False by (simp add: unat_gt_0)
    show ?thesis
    proof (cases "\<exists>e\<in>set (exts f). holds e (unat off)")
      case nh: False
      then obtain q where "map_walk \<lparr>foff = off, doff = 0, ecount = 0\<rparr> (rb_root (ext_tree f)) [] = Inr q"
        using walk_miss [OF ok, of off 0] by blast
      then have "fs_Map fs f ?q False = Some (-1, f, ?q, fs)" by (simp add: fs_Map_def Let_def)
      then have "fs_ReadWrite False fs f off cnt out = None" by (subst fs_ReadWrite.simps) (simp add: False)
      moreover have "unat off \<in> {unat off..<unat off + unat cnt}" using c by simp
      then have "\<not> (\<forall>b\<in>{unat off..<unat off + unat cnt}. \<exists>e\<in>set (exts f). holds e b)" using nh by blast
      ultimately show ?thesis by (simp only: if_False)
    next
      case True
      then obtain e where e: "e \<in> set (exts f)" "holds e (unat off)" by blast
      define r where "r = ?q\<lparr>mr_off := doff e + (off - foff e), mr_count := min cnt (ecount e - (off - foff e))\<rparr>"
      have m: "fs_Map fs f ?q False = Some (0, f, r, fs)" using map_hit [OF ok e(1), of ?q fs False] e(2) False by (simp add: r_def)
      have h: "0 < mr_count r" "unat (ecount e - (off - foff e)) = ext_end e - unat off" using hit_count [OF e(2) False] by (simp_all add: r_def)
      have le: "mr_count r \<le> cnt" by (simp add: r_def)
      have ur: "unat (mr_count r) \<le> ext_end e - unat off"
        using h(2) by (simp add: r_def min_def word_le_nat_alt)
      have inr: "holds e b" if "unat off \<le> b" "b < unat off + unat (mr_count r)" for b
        using that ur e(2) by (auto simp: holds_def)
      note st = piece_step [OF h(1) le less(2)]
      have pl: "place_of (exts f) (off + of_nat k) = Some (mr_off r + of_nat k)" if k: "k < unat (mr_count r)" for k
      proof -
        have "k < 2 ^ 64" using order.strict_trans [OF k unat_u64_lt] by simp
        then have uk: "unat (of_nat k :: u64) = k" by (rule unat_of_nat_u64)
        have "unat off + k < 2 ^ 64" using k st le less(2) by (simp add: word_le_nat_alt)
        then have "unat (off + of_nat k) = unat off + k" using uk by (simp add: unat_add_no_overflow)
        then have "holds e (unat (off + of_nat k))" using inr [of "unat off + k"] k by simp
        from place_of_unique [OF ok(2) e(1) this] show ?thesis by (simp add: r_def algebra_simps)
      qed
      have ivl: "{unat off..<unat off + unat cnt} = {unat off..<unat off + unat (mr_count r)} \<union> {unat (off + mr_count r)..<unat (off + mr_count r) + unat (cnt - mr_count r)}"
        using st le by (auto simp: word_le_nat_alt)
      have all: "(\<forall>b\<in>{unat off..<unat off + unat cnt}. \<exists>e\<in>set (exts f). holds e b) \<longleftrightarrow>
        (\<forall>b\<in>{unat (off + mr_count r)..<unat (off + mr_count r) + unat (cnt - mr_count r)}. \<exists>e\<in>set (exts f). holds e b)"
      proof -
        have "\<forall>b\<in>{unat off..<unat off + unat (mr_count r)}. \<exists>e\<in>set (exts f). holds e b"
          using inr e(1) by (auto intro!: bexI [of _ e])
        then show ?thesis unfolding ivl ball_Un by blast
      qed
      have step: "fs_ReadWrite False fs f off cnt out = fs_ReadWrite False fs f (off + mr_count r) (cnt - mr_count r) (out @ [(off, r)])"
        by (subst fs_ReadWrite.simps) (simp add: False m)
      note IH = less(1) [OF st(2,3), of "out @ [(off, r)]"]
      show ?thesis
      proof (cases "\<forall>b\<in>{unat (off + mr_count r)..<unat (off + mr_count r) + unat (cnt - mr_count r)}. \<exists>e\<in>set (exts f). holds e b")
        case T: True
        from IH [unfolded if_P [OF T]] obtain ps where ps: "fs_ReadWrite False fs f (off + mr_count r) (cnt - mr_count r) (out @ [(off, r)]) = Some (f, fs, (out @ [(off, r)]) @ ps)"
          "pieces_cover (off + mr_count r) (cnt - mr_count r) ps"
          "\<forall>(o', r)\<in>set ps. \<forall>k<unat (mr_count r). place_of (exts f) (o' + of_nat k) = Some (mr_off r + of_nat k)"
          by (elim exE conjE)
        have 1: "fs_ReadWrite False fs f off cnt out = Some (f, fs, out @ ((off, r) # ps))" using step ps(1) by simp
        have 2: "pieces_cover off cnt ((off, r) # ps)" using ps(2) h(1) le by simp
        have 3: "\<forall>(o', r)\<in>set ((off, r) # ps). \<forall>k<unat (mr_count r). place_of (exts f) (o' + of_nat k) = Some (mr_off r + of_nat k)"
          using ps(3) pl by simp
        show ?thesis unfolding all if_P [OF T] using 1 2 3 by blast
      next
        case F: False
        from IH [unfolded if_not_P [OF F]]
        have "fs_ReadWrite False fs f (off + mr_count r) (cnt - mr_count r) (out @ [(off, r)]) = None" .
        then show ?thesis unfolding all if_not_P [OF F] using step by simp
      qed
    qed
  qed
qed

section \<open>The multi-block allocator\<close>

text \<open>With ReservePA the list holds only spaces with free blocks; they lie
  apart in the file and on the device, below the allocation cursor.\<close>

abbreviation pa_log :: "prealloc_space \<Rightarrow> nat set" where
  "pa_log pa \<equiv> {unat (pa_lstart pa) ..< unat (pa_lstart pa) + unat (pa_len pa)}"

abbreviation pa_phys :: "prealloc_space \<Rightarrow> nat set" where
  "pa_phys pa \<equiv> {unat (pa_pstart pa) ..< unat (pa_pstart pa) + unat (pa_len pa)}"

definition pa_ok :: "u64 \<Rightarrow> prealloc_space \<Rightarrow> bool" where
  "pa_ok cur pa \<longleftrightarrow> \<not> pa_deleted pa \<and> 0 < pa_free pa \<and> pa_free pa \<le> pa_len pa
     \<and> unat (pa_lstart pa) + unat (pa_len pa) < 2 ^ 64 \<and> unat (pa_pstart pa) + unat (pa_len pa) \<le> unat cur"

definition pa_apart :: "prealloc_space \<Rightarrow> prealloc_space \<Rightarrow> bool" where
  "pa_apart x y \<longleftrightarrow> pa_log x \<inter> pa_log y = {} \<and> pa_phys x \<inter> pa_phys y = {}"

definition pas_ok :: "u64 \<Rightarrow> prealloc_space list \<Rightarrow> bool" where
  "pas_ok cur ps \<longleftrightarrow> (\<forall>pa\<in>set ps. pa_ok cur pa)
     \<and> sorted_wrt pa_apart ps"

lemma find_pa_some:
  "find_pa off ps = Some (pre, pa, post) \<Longrightarrow> ps = pre @ pa # post \<and> pa_usable off pa"
  by (induction ps arbitrary: pre) (auto split: if_splits)

lemma find_pa_none: "find_pa off ps = None \<Longrightarrow> pa \<in> set ps \<Longrightarrow> \<not> pa_usable off pa"
  by (induction ps) (auto split: if_splits)

lemma pa_end: "pa_ok cur pa \<Longrightarrow> unat (pa_lstart pa + pa_len pa) = unat (pa_lstart pa) + unat (pa_len pa)"
  by (simp add: pa_ok_def unat_add_no_overflow)

lemma usable_iff: "pa_ok cur pa \<Longrightarrow> pa_usable off pa \<longleftrightarrow> unat off \<in> pa_log pa"
  using pa_end [of cur pa] by (auto simp: pa_usable_def pa_ok_def word_less_nat_alt word_le_nat_alt)

text \<open>Using a space: the blocks are those of the offset, up to the end of the
  space.\<close>

lemma use_pa:
  assumes pa: "unat (pa_lstart pa) + unat (pa_len pa) < 2 ^ 64" "unat (pa_pstart pa) + unat (pa_len pa) < 2 ^ 64"
    and off: "unat (mr_off req) \<in> pa_log pa" and n: "0 < mr_count req"
    and lim: "unat (pa_pstart pa) + unat (pa_len pa) + unat (mr_count req) < 2 ^ 64"
  defines "m \<equiv> min (unat (mr_count req)) (unat (pa_lstart pa) + unat (pa_len pa) - unat (mr_off req))"
  shows "MbUseInodePA pa req = (if unat (pa_free pa) < m then None else
      Some (pa\<lparr>pa_free := pa_free pa - of_nat m\<rparr>, req\<lparr>mr_off := pa_pstart pa + (mr_off req - pa_lstart pa), mr_count := of_nat m\<rparr>))"
    "0 < m" "unat (of_nat m :: u64) = m"
    "unat (pa_pstart pa + (mr_off req - pa_lstart pa)) = unat (pa_pstart pa) + (unat (mr_off req) - unat (pa_lstart pa))"
proof -
  let ?o = "pa_pstart pa + (mr_off req - pa_lstart pa)"
  have o: "pa_lstart pa \<le> mr_off req" "unat (mr_off req) < unat (pa_lstart pa) + unat (pa_len pa)" using off by (simp_all add: word_le_nat_alt)
  have d: "unat (mr_off req - pa_lstart pa) = unat (mr_off req) - unat (pa_lstart pa)" using o(1) by (rule unat_sub)
  have "unat (pa_pstart pa) + unat (mr_off req - pa_lstart pa) < 2 ^ 64" using d o pa(2) by (simp add: word_le_nat_alt)
  then show uo: "unat ?o = unat (pa_pstart pa) + (unat (mr_off req) - unat (pa_lstart pa))" using d by (simp add: unat_add_no_overflow)
  have up: "unat (pa_pstart pa + pa_len pa) = unat (pa_pstart pa) + unat (pa_len pa)" using pa(2) by (rule unat_add_no_overflow)
  have "unat ?o + unat (mr_count req) < 2 ^ 64" using uo o lim by (simp add: word_le_nat_alt)
  then have ue: "unat (?o + mr_count req) = unat ?o + unat (mr_count req)" by (rule unat_add_no_overflow)
  have "min (pa_pstart pa + pa_len pa) (?o + mr_count req) \<ge> ?o" using up ue uo o by (simp add: word_le_nat_alt)
  then have "unat (min (pa_pstart pa + pa_len pa) (?o + mr_count req) - ?o) = unat (min (pa_pstart pa + pa_len pa) (?o + mr_count req)) - unat ?o"
    by (rule unat_sub)
  also have "unat (min (pa_pstart pa + pa_len pa) (?o + mr_count req)) = min (unat (pa_pstart pa) + unat (pa_len pa)) (unat ?o + unat (mr_count req))"
    using up ue by (simp add: min_def word_le_nat_alt)
  finally have c: "unat (min (pa_pstart pa + pa_len pa) (?o + mr_count req) - ?o) = m" using uo o by (auto simp: m_def word_le_nat_alt min_def)
  have "m < 2 ^ 64" using o pa(1) by (simp add: m_def)
  then show um: "unat (of_nat m :: u64) = m" by (rule unat_of_nat_u64)
  have cw: "min (pa_pstart pa + pa_len pa) (?o + mr_count req) - ?o = of_nat m" using c um by (metis unsigned_word_eqI)
  show "MbUseInodePA pa req = (if unat (pa_free pa) < m then None else
      Some (pa\<lparr>pa_free := pa_free pa - of_nat m\<rparr>, req\<lparr>mr_off := ?o, mr_count := of_nat m\<rparr>))"
    using o(1) cw um by (simp add: MbUseInodePA_def Let_def word_less_nat_alt)
  show "0 < m" using n o by (simp add: m_def word_less_nat_alt)
qed

text \<open>The trimmed goal holds the offset and meets no space of the list.\<close>

lemma trim_ok:
  assumes "\<forall>pa\<in>set ps. pa_ok cur pa" "\<forall>pa\<in>set ps. unat off \<notin> pa_log pa" "start \<le> off" "off < end'"
  shows "\<exists>s e. mb_trim off ps start end' = Some (s, e) \<and> start \<le> s \<and> s \<le> off \<and> off < e \<and> e \<le> end'
    \<and> (\<forall>pa\<in>set ps. pa_log pa \<inter> {unat s..<unat e} = {})"
  using assms
proof (induction ps arbitrary: start end')
  case (Cons pa ps)
  have pa: "pa_ok cur pa" "unat off \<notin> pa_log pa" using Cons.prems by simp_all
  note pe = pa_end [OF pa(1)]
  let ?e = "pa_lstart pa + pa_len pa"
  have nd: "\<not> pa_deleted pa" using pa(1) by (simp add: pa_ok_def)
  have out: "off \<ge> ?e \<or> off < pa_lstart pa" using pa(2) pe by (auto simp: word_le_nat_alt word_less_nat_alt)
  have len: "pa_lstart pa < ?e" using pa(1) pe by (auto simp: pa_ok_def word_less_nat_alt word_le_nat_alt)
  define s1 where "s1 = (if pa_lstart pa \<ge> end' \<or> ?e \<le> start then start else if ?e \<le> off then ?e else start)"
  define e1 where "e1 = (if pa_lstart pa \<ge> end' \<or> ?e \<le> start then end' else if pa_lstart pa > off then pa_lstart pa else end')"
  have n1: "\<not> (pa_lstart pa \<le> start \<and> ?e \<ge> end')" using out len Cons.prems(3,4) by auto
  have step: "mb_trim off (pa # ps) start end' = mb_trim off ps s1 e1"
    using nd out n1 by (auto simp: s1_def e1_def Let_def)
  have se: "start \<le> s1" "s1 \<le> off" "off < e1" "e1 \<le> end'" using Cons.prems(3,4) out by (auto simp: s1_def e1_def)
  obtain s e where r: "mb_trim off ps s1 e1 = Some (s, e)" "s1 \<le> s" "s \<le> off" "off < e" "e \<le> e1"
    "\<forall>pa\<in>set ps. pa_log pa \<inter> {unat s..<unat e} = {}"
    using Cons.IH [of s1 e1] Cons.prems(1,2) se by auto
  have "?e \<le> s1 \<or> e1 \<le> pa_lstart pa" using out by (auto simp: s1_def e1_def)
  then have "?e \<le> s \<or> e \<le> pa_lstart pa" using r(2,5) by auto
  then have "pa_log pa \<inter> {unat s..<unat e} = {}" using pe by (auto simp: word_le_nat_alt)
  then show ?case using step r se by auto
qed simp

lemma goal_start:
  assumes "0 < b" "b \<le> k" "k \<le> 23" "unat off < 2 ^ (64 - b)"
  shows "unat (drop_bit b (push_bit k (drop_bit (k - b) off)) :: u64) = unat off div 2 ^ (k - b) * 2 ^ (k - b)"
proof -
  have d: "unat (drop_bit (k - b) off) = unat off div 2 ^ (k - b)" by (subst unat_drop_bit_eq) (simp add: drop_bit_eq_div)
  have k: "(2 :: nat) ^ k = 2 ^ (k - b) * 2 ^ b" using assms(2) by (simp flip: power_add)
  have "unat off div 2 ^ (k - b) * 2 ^ k = unat off div 2 ^ (k - b) * 2 ^ (k - b) * 2 ^ b" unfolding k by (simp only: mult.assoc)
  also have "\<dots> \<le> unat off * 2 ^ b" by (intro mult_right_mono) auto
  also have "\<dots> < 2 ^ (64 - b) * 2 ^ b" using assms(4) by simp
  also have "\<dots> = 2 ^ 64" using assms(2,3) by (simp flip: power_add)
  finally have "unat (drop_bit (k - b) off) * 2 ^ k < 2 ^ 64" unfolding d .
  then have "unat (push_bit k (drop_bit (k - b) off)) = unat off div 2 ^ (k - b) * 2 ^ k"
    by (subst unsigned_push_bit_eq) (simp add: push_bit_eq_mult take_bit_nat_eq_self d)
  then have "unat (drop_bit b (push_bit k (drop_bit (k - b) off))) = (unat off div 2 ^ (k - b) * 2 ^ (k - b) * 2 ^ b) div 2 ^ b"
    by (subst unat_drop_bit_eq) (simp add: drop_bit_eq_div k mult.assoc)
  then show ?thesis by simp
qed

lemma goal_ok:
  assumes b: "0 < b" "b \<le> 21" and n: "0 < mr_count req" "mr_count req \<le> 8 * 1024 * 1024"
    and lim: "unat (mr_off req) + unat (mr_count req) < 2 ^ (64 - b)" and sz: "mr_off req + mr_count req \<le> sz"
  shows "\<exists>start sz'. mb_goal b req sz = Some (start, sz') \<and> unat sz' \<le> 2 ^ 23 \<and> unat (drop_bit b start) \<le> unat (mr_off req)
    \<and> unat (mr_off req) < unat (drop_bit b start) + unat sz'"
proof -
  let ?o = "mr_off req"
  have "(2 :: nat) ^ (64 - b) \<le> 2 ^ 64" by (rule power_increasing) auto
  then have "unat ?o + unat (mr_count req) < 2 ^ 64" using lim by linarith
  then have "unat (?o + mr_count req) = unat ?o + unat (mr_count req)" by (rule unat_add_no_overflow)
  then have o: "unat ?o < unat sz" using sz n(1) by (simp add: word_le_nat_alt word_less_nat_alt)
  have lo: "unat ?o < 2 ^ (64 - b)" using lim by linarith
  have low: ?thesis if "mb_goal b req sz = Some (0, c)" "sz \<le> c" "unat c \<le> 2 ^ 23" for c
    using that o by (auto simp: word_le_nat_alt)
  have high: ?thesis if g: "mb_goal b req sz = Some (push_bit k (drop_bit (k - b) ?o), c)" and k: "21 \<le> k" "k \<le> 23"
    and c: "unat c \<le> 2 ^ 23" "2 ^ (k - 1) \<le> unat c" for k c
  proof -
    have st: "unat (drop_bit b (push_bit k (drop_bit (k - b) ?o)) :: u64) = unat ?o div 2 ^ (k - b) * 2 ^ (k - b)"
      using b k lo by (intro goal_start) auto
    have "unat ?o mod 2 ^ (k - b) < 2 ^ (k - b)" by simp
    also have "(2 :: nat) ^ (k - b) \<le> 2 ^ (k - 1)" using b(1) by (intro power_increasing) auto
    finally have "unat ?o mod 2 ^ (k - b) < unat c" using c(2) by linarith
    moreover have "unat ?o div 2 ^ (k - b) * 2 ^ (k - b) + unat ?o mod 2 ^ (k - b) = unat ?o" by (rule div_mult_mod_eq)
    ultimately show ?thesis using g c(1) st by (intro exI [of _ "push_bit k (drop_bit (k - b) ?o)"] exI [of _ c]) linarith
  qed
  consider "sz \<le> 64 * 1024"
    | "\<not> sz \<le> 64 * 1024" "sz \<le> 128 * 1024"
    | "\<not> sz \<le> 64 * 1024" "\<not> sz \<le> 128 * 1024" "sz \<le> 256 * 1024"
    | "\<not> sz \<le> 64 * 1024" "\<not> sz \<le> 128 * 1024" "\<not> sz \<le> 256 * 1024" "sz \<le> 512 * 1024"
    | "\<not> sz \<le> 64 * 1024" "\<not> sz \<le> 128 * 1024" "\<not> sz \<le> 256 * 1024" "\<not> sz \<le> 512 * 1024" "sz \<le> 1024 * 1024"
    | "\<not> sz \<le> 64 * 1024" "\<not> sz \<le> 128 * 1024" "\<not> sz \<le> 256 * 1024" "\<not> sz \<le> 512 * 1024" "\<not> sz \<le> 1024 * 1024" "sz \<le> 4 * 1024 * 1024"
    | "\<not> sz \<le> 64 * 1024" "\<not> sz \<le> 128 * 1024" "\<not> sz \<le> 256 * 1024" "\<not> sz \<le> 512 * 1024" "\<not> sz \<le> 1024 * 1024" "\<not> sz \<le> 4 * 1024 * 1024" "sz \<le> 8 * 1024 * 1024"
    | "\<not> sz \<le> 64 * 1024" "\<not> sz \<le> 128 * 1024" "\<not> sz \<le> 256 * 1024" "\<not> sz \<le> 512 * 1024" "\<not> sz \<le> 1024 * 1024" "\<not> sz \<le> 4 * 1024 * 1024" "\<not> sz \<le> 8 * 1024 * 1024" by blast
  then show ?thesis
  proof cases
    case 1
    then show ?thesis by (intro low [of "64 * 1024"]) (simp_all add: mb_goal_def)
  next
    case 2
    then show ?thesis by (intro low [of "128 * 1024"]) (simp_all add: mb_goal_def)
  next
    case 3
    then show ?thesis by (intro low [of "256 * 1024"]) (auto simp: mb_goal_def)
  next
    case 4
    then show ?thesis by (intro low [of "512 * 1024"]) (auto simp: mb_goal_def)
  next
    case 5
    then show ?thesis by (intro low [of "1024 * 1024"]) (auto simp: mb_goal_def)
  next
    case 6
    then show ?thesis by (intro high [of 21 "2 * 1024 * 1024"]) (auto simp: mb_goal_def Let_def)
  next
    case 7
    then show ?thesis by (intro high [of 22 "4 * 1024 * 1024"]) (auto simp: mb_goal_def Let_def)
  next
    case 8
    then show ?thesis using n(2) by (intro high [of 23 "8 * 1024 * 1024"]) (auto simp: mb_goal_def Let_def)
  qed
qed

text \<open>The list after a space was used.\<close>

lemma release_ok:
  assumes "pas_ok cur (pre @ pa # post)" "reserve_pa fs"
    "pa_free pa' \<le> pa_free pa" "pa' = pa\<lparr>pa_free := pa_free pa'\<rparr>"
  shows "pas_ok cur (MbReleaseContext fs pre pa' post)"
proof -
  have "pa_log pa' = pa_log pa" "pa_phys pa' = pa_phys pa" by (subst assms(4), simp)+
  then have l: "pa_apart pa' y = pa_apart pa y" "pa_apart y pa' = pa_apart y pa" for y by (simp_all add: pa_apart_def)
  have s: "sorted_wrt pa_apart (pre @ pa # post)"
    and ok: "\<forall>pa\<in>set (pre @ pa # post). pa_ok cur pa" using assms(1) by (simp_all add: pas_ok_def)
  show ?thesis
  proof (cases "pa_free pa' = 0")
    case True
    then show ?thesis using s ok assms(2) by (simp add: MbReleaseContext_def pas_ok_def sorted_wrt_append)
  next
    case False
    have "pa_ok cur pa" using ok by simp
    then have "pa_free pa' \<le> pa_len pa" using assms(3) by (auto simp: pa_ok_def)
    then have "pa_ok cur (pa\<lparr>pa_free := pa_free pa'\<rparr>)" using False \<open>pa_ok cur pa\<close> by (simp add: pa_ok_def word_greater_zero_iff)
    then have "pa_ok cur pa'" using assms(4) by simp
    then show ?thesis using s ok l False by (simp add: MbReleaseContext_def pas_ok_def sorted_wrt_append)
  qed
qed

lemma pas_ok_mono: "pas_ok cur ps \<Longrightarrow> cur \<le> cur' \<Longrightarrow> pas_ok cur' ps"
  by (fastforce simp: pas_ok_def pa_ok_def word_le_nat_alt)

lemma mb_new_space_ok:
  assumes r: "reserve_pa fs" and b: "0 < bsbit fs" "bsbit fs \<le> 21" and ok: "pas_ok (fs_curoff fs) (prealloc f)"
    and n: "0 < mr_count req" "mr_count req \<le> 8 * 1024 * 1024"
    and lim: "unat (mr_off req) + unat (mr_count req) < 2 ^ (64 - bsbit fs)" "unat (fs_curoff fs) + 2 ^ 24 < 2 ^ 64"
    and none: "find_pa (mr_off req) (prealloc f) = None"
  shows "\<exists>f' r fs'. mb_new_space fs f req = Some (0, f', r, fs') \<and> pas_ok (fs_curoff fs') (prealloc f') \<and> fs_curoff fs \<le> fs_curoff fs'
    \<and> 0 < mr_count r \<and> mr_count r \<le> mr_count req
    \<and> unat (fs_curoff fs) \<le> unat (mr_off r) \<and> unat (mr_off r) + unat (mr_count r) \<le> unat (fs_curoff fs')"
proof -
  let ?o = "mr_off req" and ?cur = "fs_curoff fs"
  define sz where "sz = (if ?o + mr_count req < fsize f then fsize f else ?o + mr_count req)"
  have "?o + mr_count req \<le> sz" by (auto simp: sz_def)
  from goal_ok [OF b n lim(1) this] obtain g c where g: "mb_goal (bsbit fs) req sz = Some (g, c)" "unat c \<le> 2 ^ 23"
    "unat (drop_bit (bsbit fs) g) \<le> unat ?o" "unat ?o < unat (drop_bit (bsbit fs) g) + unat c" by blast
  let ?s = "drop_bit (bsbit fs) g"
  have "(2 :: nat) ^ (64 - bsbit fs) \<le> 2 ^ 63" using b(1) by (intro power_increasing) auto
  then have o63: "unat ?o < 2 ^ 63" using lim(1) by linarith
  then have "unat ?s + unat c < 2 ^ 64" using g(2,3) by simp
  then have us: "unat (?s + c) = unat ?s + unat c" by (rule unat_add_no_overflow)
  have pas: "\<forall>pa\<in>set (prealloc f). pa_ok ?cur pa" using ok by (simp add: pas_ok_def)
  moreover have out: "\<forall>pa\<in>set (prealloc f). unat ?o \<notin> pa_log pa"
    using find_pa_none [OF none] usable_iff pas by blast
  moreover have "?s \<le> ?o" "?o < ?s + c" using g(3,4) us by (simp_all add: word_le_nat_alt word_less_nat_alt)
  ultimately obtain s e where t: "mb_trim ?o (prealloc f) ?s (?s + c) = Some (s, e)" "?s \<le> s" "s \<le> ?o" "?o < e" "e \<le> ?s + c"
    "\<forall>pa\<in>set (prealloc f). pa_log pa \<inter> {unat s..<unat e} = {}" using trim_ok by blast
  define len where "len = e - s"
  have "s \<le> e" using t(3,4) by auto
  then have len: "unat len = unat e - unat s" unfolding len_def by (rule unat_sub)
  have se: "unat s \<le> unat ?o" "unat ?o < unat e" "unat e \<le> unat ?s + unat c" "unat ?s \<le> unat s"
    using t(2-5) us by (simp_all add: word_le_nat_alt word_less_nat_alt)
  have len2: "unat len \<le> 2 ^ 23" "unat s + unat len = unat e" using len se g(2) by linarith+
  have sl: "s + len = e" by (simp add: len_def)
  define cur' where "cur' = ?cur + len"
  have cl: "unat ?cur + unat len < 2 ^ 64" using lim(2) len2(1) by simp
  then have cur': "unat cur' = unat ?cur + unat len" unfolding cur'_def by (rule unat_add_no_overflow)
  define pa where "pa = \<lparr>pa_deleted = False, pa_lstart = s, pa_pstart = ?cur, pa_len = len, pa_free = len\<rparr>"
  have "unat (mr_count req) \<le> 2 ^ 23" using n(2) by (simp add: word_le_nat_alt)
  then have lim3: "unat (pa_pstart pa) + unat (pa_len pa) + unat (mr_count req) < 2 ^ 64"
    using lim(2) len2(1) by (simp add: pa_def)
  have "unat e < 2 ^ 64" using se g(2) us by simp
  then have p1: "unat (pa_lstart pa) + unat (pa_len pa) < 2 ^ 64" "unat (pa_pstart pa) + unat (pa_len pa) < 2 ^ 64"
    using len2(2) cl by (simp_all add: pa_def)
  have p2: "unat ?o \<in> pa_log pa" using se len2 by (simp add: pa_def)
  define m where "m = min (unat (mr_count req)) (unat (pa_lstart pa) + unat (pa_len pa) - unat ?o)"
  note use = use_pa [OF p1 p2 n(1) lim3, folded m_def]
  have mf: "m \<le> unat (pa_free pa)" using se len2(2) by (simp add: m_def pa_def)
  define pa' where "pa' = pa\<lparr>pa_free := len - of_nat m\<rparr>"
  define r where "r = req\<lparr>mr_off := pa_pstart pa + (?o - pa_lstart pa), mr_count := of_nat m\<rparr>"
  have useres: "MbUseInodePA pa req = Some (pa', r)"
    using use(1) mf by (simp add: pa'_def r_def) (simp add: pa_def)
  define ps where "ps = MbReleaseContext fs [] pa' (prealloc f)"
  have "mb_new_space fs f req = Some (0, f\<lparr>prealloc := ps\<rparr>, r, fs\<lparr>fs_curoff := cur'\<rparr>)"
  proof -
    have np: "MbNewPreallocation (fs\<lparr>fs_curoff := cur'\<rparr>) s ?cur len req (prealloc f) = Some (r, ps)"
      using useres t(3) by (simp add: MbNewPreallocation_def pa_def [symmetric] ps_def MbReleaseContext_def)
    have chk: "\<not> (s + len \<le> ?o \<and> ?o < s)" "\<not> (e \<le> ?o \<and> ?o < s)" using t(3) by auto
    have "mb_new_space fs f req = Option.bind (mb_trim ?o (prealloc f) ?s (?s + c)) (\<lambda>(start, end').
      let sz = end' - start in if start + sz \<le> ?o \<and> start > ?o then None
      else let (pstart, fs) = AllocBlock sz fs in
        if \<not> reserve_pa fs \<and> start = ?o \<and> sz \<le> mr_count req then Some (0, f, req\<lparr>mr_off := pstart, mr_count := sz\<rparr>, fs)
        else map_option (\<lambda>(req, ps). (0, f\<lparr>prealloc := ps\<rparr>, req, fs)) (MbNewPreallocation fs start pstart sz req (prealloc f)))"
      unfolding mb_new_space_def Let_def sz_def [symmetric] using b(1) g(1) by simp
    also have "\<dots> = Some (0, f\<lparr>prealloc := ps\<rparr>, r, fs\<lparr>fs_curoff := cur'\<rparr>)"
      using t(1) chk np r by (simp add: AllocBlock_def len_def [symmetric] cur'_def [symmetric] Let_def)
    finally show ?thesis .
  qed
  moreover have "pas_ok cur' ps"
  proof -
    have "?cur \<le> cur'" using cur' by (simp add: word_le_nat_alt)
    then have old: "pas_ok cur' (prealloc f)" by (rule pas_ok_mono [OF ok])
    have "pa_ok cur' pa" using p1 cur' se len2(2) by (auto simp: pa_ok_def pa_def word_less_nat_alt)
    moreover have "pa_apart pa q" if "q \<in> set (prealloc f)" for q
    proof -
      have "pa_log q \<inter> {unat s..<unat e} = {}" using t(6) that by blast
      moreover have "pa_log pa = {unat s..<unat e}" using len2(2) by (simp add: pa_def)
      moreover have "unat (pa_pstart q) + unat (pa_len q) \<le> unat ?cur" using pas that by (simp add: pa_ok_def)
      then have "pa_phys pa \<inter> pa_phys q = {}" by (auto simp: pa_def)
      ultimately show ?thesis unfolding pa_apart_def by blast
    qed
    ultimately have "pas_ok cur' ([] @ pa # prealloc f)" using old by (simp add: pas_ok_def)
    moreover have "len - of_nat m \<le> len"
    proof -
      have "(of_nat m :: u64) \<le> len" using mf use(3) by (simp add: pa_def word_le_nat_alt)
      from unat_sub [OF this] show ?thesis by (simp add: word_le_nat_alt)
    qed
    then have "pa_free pa' \<le> pa_free pa" "pa' = pa\<lparr>pa_free := pa_free pa'\<rparr>" by (simp_all add: pa'_def pa_def)
    ultimately show ?thesis unfolding ps_def using release_ok [OF _ \<open>reserve_pa fs\<close>] by metis
  qed
  moreover have "0 < mr_count r" "mr_count r \<le> mr_count req"
    using use(2,3) by (simp_all add: r_def word_less_nat_alt word_le_nat_alt) (simp add: m_def)
  moreover have "unat (mr_off r) = unat ?cur + (unat ?o - unat s)" using use(4) by (simp add: r_def) (simp add: pa_def)
  then have "unat ?cur \<le> unat (mr_off r)" "unat (mr_off r) + unat (mr_count r) \<le> unat cur'"
    using use(3) cur' len2(2) se by (simp_all add: r_def m_def) (simp add: pa_def)
  ultimately show ?thesis using cur' by (intro exI [of _ "f\<lparr>prealloc := ps\<rparr>"] exI [of _ r] exI [of _ "fs\<lparr>fs_curoff := cur'\<rparr>"]) (simp add: word_le_nat_alt)
qed

text \<open>The blocks that a request wants of a space that holds its offset.\<close>

definition pa_share :: "prealloc_space \<Rightarrow> mreq \<Rightarrow> nat" where
  "pa_share pa req = min (unat (mr_count req)) (unat (pa_lstart pa) + unat (pa_len pa) - unat (mr_off req))"

text \<open>The space found is the only one that holds the offset.\<close>

lemma pa_only:
  assumes "find_pa off ps = Some (pre, pa, post)" "pas_ok cur ps"
  shows "q \<in> set ps \<and> unat off \<in> pa_log q \<longleftrightarrow> q = pa"
proof -
  note sp = find_pa_some [OF assms(1)]
  have "pa_ok cur pa" using sp assms(2) by (simp add: pas_ok_def)
  then have inl: "unat off \<in> pa_log pa" using usable_iff sp by blast
  have "\<forall>x\<in>set pre \<union> set post. pa_log x \<inter> pa_log pa = {}"
    using assms(2) sp by (auto simp: pas_ok_def pa_apart_def sorted_wrt_append)
  then have "\<forall>x\<in>set pre \<union> set post. unat off \<notin> pa_log x" using inl by blast
  moreover have "set ps = set pre \<union> {pa} \<union> set post" using sp by auto
  ultimately show ?thesis using inl by blast
qed

lemma mb_use_space:
  assumes t: "find_pa (mr_off req) (prealloc f) = Some (pre, pa, post)" and res: "reserve_pa fs"
    and ok: "pas_ok (fs_curoff fs) (prealloc f)" and n: "0 < mr_count req" "mr_count req \<le> 8 * 1024 * 1024"
    and lim: "unat (fs_curoff fs) + 2 ^ 24 < 2 ^ 64"
  shows "unat (pa_free pa) < pa_share pa req \<Longrightarrow> MbAllocBlock fs f req = None"
    "\<not> unat (pa_free pa) < pa_share pa req \<Longrightarrow> \<exists>f' r. MbAllocBlock fs f req = Some (0, f', r, fs)
      \<and> pas_ok (fs_curoff fs) (prealloc f') \<and> 0 < mr_count r \<and> mr_count r \<le> mr_count req \<and> unat (mr_count r) = pa_share pa req
      \<and> unat (mr_off r) = unat (pa_pstart pa) + (unat (mr_off req) - unat (pa_lstart pa))"
proof -
  note sp = find_pa_some [OF t]
  have pok: "pa_ok (fs_curoff fs) pa" using ok sp by (simp add: pas_ok_def)
  have inl: "unat (mr_off req) \<in> pa_log pa" using usable_iff [OF pok] sp by blast
  have p: "unat (pa_lstart pa) + unat (pa_len pa) < 2 ^ 64" "unat (pa_pstart pa) + unat (pa_len pa) \<le> unat (fs_curoff fs)"
    using pok by (simp_all add: pa_ok_def)
  have "unat (mr_count req) \<le> 2 ^ 23" using n(2) by (simp add: word_le_nat_alt)
  then have p3: "unat (pa_pstart pa) + unat (pa_len pa) < 2 ^ 64" "unat (pa_pstart pa) + unat (pa_len pa) + unat (mr_count req) < 2 ^ 64"
    using p(2) lim by simp_all
  note use = use_pa [OF p(1) p3(1) inl n(1) p3(2), folded pa_share_def]
  show "MbAllocBlock fs f req = None" if "unat (pa_free pa) < pa_share pa req"
    using t use(1) that by (simp add: MbAllocBlock_def)
  assume free: "\<not> unat (pa_free pa) < pa_share pa req"
  let ?m = "pa_share pa req"
  define pa' where "pa' = pa\<lparr>pa_free := pa_free pa - of_nat ?m\<rparr>"
  define r where "r = req\<lparr>mr_off := pa_pstart pa + (mr_off req - pa_lstart pa), mr_count := of_nat ?m\<rparr>"
  define ps where "ps = MbReleaseContext fs pre pa' post"
  have "MbUseInodePA pa req = Some (pa', r)" using use(1) free by (simp add: pa'_def r_def)
  then have "MbAllocBlock fs f req = Some (0, f\<lparr>prealloc := ps\<rparr>, r\<lparr>mr_from_pa := True\<rparr>, fs)"
    using t by (simp add: MbAllocBlock_def ps_def)
  moreover have "pas_ok (fs_curoff fs) ps"
  proof -
    have "(of_nat ?m :: u64) \<le> pa_free pa" using free use(3) by (simp add: word_le_nat_alt)
    from unat_sub [OF this] have "pa_free pa' \<le> pa_free pa" by (simp add: pa'_def word_le_nat_alt)
    moreover have "pa' = pa\<lparr>pa_free := pa_free pa'\<rparr>" by (simp add: pa'_def)
    moreover have "pas_ok (fs_curoff fs) (pre @ pa # post)" using ok sp by simp
    ultimately show ?thesis unfolding ps_def using release_ok [OF _ res] by metis
  qed
  moreover have "unat (mr_count r) = ?m" "0 < mr_count r" "mr_count r \<le> mr_count req"
    using use(2,3) by (simp_all add: r_def word_less_nat_alt word_le_nat_alt) (simp add: pa_share_def)
  moreover have "unat (mr_off r) = unat (pa_pstart pa) + (unat (mr_off req) - unat (pa_lstart pa))" using use(4) by (simp add: r_def)
  ultimately show "\<exists>f' r. MbAllocBlock fs f req = Some (0, f', r, fs)
      \<and> pas_ok (fs_curoff fs) (prealloc f') \<and> 0 < mr_count r \<and> mr_count r \<le> mr_count req \<and> unat (mr_count r) = ?m
      \<and> unat (mr_off r) = unat (pa_pstart pa) + (unat (mr_off req) - unat (pa_lstart pa))"
    by (intro exI [of _ "f\<lparr>prealloc := ps\<rparr>"] exI [of _ "r\<lparr>mr_from_pa := True\<rparr>"]) simp
qed

section \<open>Properties\<close>

text \<open>C26 Map refines a partial function from the bytes of the file to the
  blocks of the device.  Without allocation it returns the function's value and a
  length of at least a byte, or -1 where there is none; with the stream
  allocator, a request for unmapped bytes maps exactly those bytes to fresh
  blocks, in order, changes no other byte, and the tree stays balanced with its
  extents apart.\<close>

theorem fs_map_refines:
  assumes "file_ok f" "apart (exts f)" "mr_count req \<noteq> 0"
  shows "(\<exists>rc r. fs_Map fs f req False = Some (rc, f, r, fs) \<and> (rc = 0 \<or> rc = -1)
      \<and> place_of (exts f) (mr_off req) = (if rc = 0 then Some (mr_off r) else None)
      \<and> (rc = 0 \<longrightarrow> 0 < mr_count r \<and> mr_count r \<le> mr_count req))
    \<and> (\<not> mballoc fs \<longrightarrow> unat (mr_off req) + unat (mr_count req) < 2 ^ 64 \<longrightarrow>
      (\<forall>e\<in>set (exts f). ext_end e \<le> unat (mr_off req) \<or> unat (mr_off req) + unat (mr_count req) \<le> unat (foff e)) \<longrightarrow>
      (\<exists>f'. fs_Map fs f req True = Some (0, f', req\<lparr>mr_off := fs_curoff fs\<rparr>, fs\<lparr>fs_curoff := fs_curoff fs + mr_count req\<rparr>)
        \<and> file_ok f' \<and> apart (exts f') \<and> (\<forall>b. place_of (exts f') b =
          (if unat (mr_off req) \<le> unat b \<and> unat b < unat (mr_off req) + unat (mr_count req)
           then Some (fs_curoff fs + (b - mr_off req)) else place_of (exts f) b))))"
  using map_read [OF assms] map_write [OF assms(1,2) _ assms(3)] by blast

definition demo_file :: fs_file where
  "demo_file = \<lparr>fsize = 0, ext_tree = \<lparr>rb_root = Node Black Leaf \<lparr>foff = 100, doff = 5000, ecount = 50\<rparr> Leaf, rb_num = 1\<rparr>, prealloc = []\<rparr>"

definition demo_fs :: filesystem where
  "demo_fs = \<lparr>fs_curoff = 9000, mballoc = False, bsbit = 12, reserve_pa = True\<rparr>"

lemma demo_file_ok: "file_ok demo_file" "apart (exts demo_file)"
proof -
  show "file_ok demo_file" unfolding file_ok_def tree_ok_def
    by (auto simp: demo_file_def exts_def ext_ok_def ext_end_def intro!: exI [of _ 1])
qed (simp add: demo_file_def exts_def)

theorem fs_map_refines_witness:
  "\<exists>f'. fs_Map demo_fs demo_file \<lparr>mr_off = 150, mr_count = 20, mr_from_pa = False\<rparr> True =
      Some (0, f', \<lparr>mr_off = 9000, mr_count = 20, mr_from_pa = False\<rparr>, demo_fs\<lparr>fs_curoff := 9020\<rparr>)
    \<and> place_of (exts f') 155 = Some 9005 \<and> place_of (exts f') 101 = Some 5001"
proof -
  let ?q = "\<lparr>mr_off = 150, mr_count = 20, mr_from_pa = False\<rparr>"
  have "\<forall>e\<in>set (exts demo_file). ext_end e \<le> unat (mr_off ?q) \<or> unat (mr_off ?q) + unat (mr_count ?q) \<le> unat (foff e)"
    by (simp add: demo_file_def exts_def ext_end_def)
  moreover have "place_of (exts demo_file) 101 = Some 5001" by (simp add: demo_file_def exts_def place_of_def holds_def ext_end_def)
  ultimately show ?thesis
    using fs_map_refines [OF demo_file_ok, of ?q demo_fs] by (auto simp: demo_fs_def)
qed



text \<open>A read exits when some byte of it is not mapped, and otherwise returns
  pieces that follow each other through the whole I/O; every byte of a piece
  is the one that the file maps there.\<close>

theorem fs_read_exact:
  assumes "file_ok f" "apart (exts f)" "unat off + unat cnt < 2 ^ 64"
  shows "if \<forall>b\<in>{unat off..<unat off + unat cnt}. \<exists>e\<in>set (exts f). holds e b
    then \<exists>ps. fs_ReadWrite False fs f off cnt [] = Some (f, fs, ps) \<and> pieces_cover off cnt ps
      \<and> (\<forall>(o', r)\<in>set ps. \<forall>k<unat (mr_count r). place_of (exts f) (o' + of_nat k) = Some (mr_off r + of_nat k))
    else fs_ReadWrite False fs f off cnt [] = None"
  using read_loop [OF assms, where out = "[]" and fs = fs] unfolding append_Nil .

theorem fs_read_exact_witness: "fs_ReadWrite False demo_fs demo_file 140 20 [] = None"
proof -
  have "\<not> (\<exists>e\<in>set (exts demo_file). holds e 155)" by (simp add: demo_file_def exts_def holds_def ext_end_def)
  moreover have "(155 :: nat) \<in> {unat (140 :: u64)..<unat (140 :: u64) + unat (20 :: u64)}" by simp
  ultimately have "\<not> (\<forall>b\<in>{unat (140 :: u64)..<unat (140 :: u64) + unat (20 :: u64)}. \<exists>e\<in>set (exts demo_file). holds e b)" by blast
  then show ?thesis using fs_read_exact [OF demo_file_ok, of 140 20 demo_fs] by simp
qed

text \<open>C28 The multi-block allocator with reserved spaces, for requests of at
  most 8 MB.  The check of the free blocks in MbUseInodePA is the only assertion that
  can fail: the allocator stops exactly when a preallocated space holds the
  offset and has fewer free blocks than the request wants of it.  Otherwise it
  returns: from the space that holds the offset, at the offset's place in it,
  the blocks up to the end of the request or of the space; or, when no space
  holds it, at least one and at most as many fresh blocks as asked for.  The
  spaces stay apart, in the file and on the device.\<close>

theorem mballoc_safe:
  assumes "reserve_pa fs" "0 < bsbit fs" "bsbit fs \<le> 21" "pas_ok (fs_curoff fs) (prealloc f)"
    "0 < mr_count req" "mr_count req \<le> 8 * 1024 * 1024"
    "unat (mr_off req) + unat (mr_count req) < 2 ^ (64 - bsbit fs)" "unat (fs_curoff fs) + 2 ^ 24 < 2 ^ 64"
  shows "if \<exists>pa\<in>set (prealloc f). unat (mr_off req) \<in> pa_log pa \<and> unat (pa_free pa) < pa_share pa req
    then MbAllocBlock fs f req = None
    else \<exists>f' r fs'. MbAllocBlock fs f req = Some (0, f', r, fs') \<and> pas_ok (fs_curoff fs') (prealloc f') \<and> fs_curoff fs \<le> fs_curoff fs'
    \<and> 0 < mr_count r \<and> mr_count r \<le> mr_count req
    \<and> (\<forall>pa\<in>set (prealloc f). unat (mr_off req) \<in> pa_log pa \<longrightarrow> fs' = fs \<and> unat (mr_count r) = pa_share pa req
        \<and> unat (mr_off r) = unat (pa_pstart pa) + (unat (mr_off req) - unat (pa_lstart pa)))
    \<and> ((\<forall>pa\<in>set (prealloc f). unat (mr_off req) \<notin> pa_log pa) \<longrightarrow>
        unat (fs_curoff fs) \<le> unat (mr_off r) \<and> unat (mr_off r) + unat (mr_count r) \<le> unat (fs_curoff fs'))"
proof (cases "find_pa (mr_off req) (prealloc f)")
  case None
  then have "MbAllocBlock fs f req = mb_new_space fs f req" by (simp add: MbAllocBlock_def)
  moreover have no: "\<forall>pa\<in>set (prealloc f). unat (mr_off req) \<notin> pa_log pa"
    using find_pa_none [OF None] usable_iff assms(4) unfolding pas_ok_def by blast
  ultimately show ?thesis using mb_new_space_ok [OF assms(1-8) None] by auto
next
  case (Some t)
  then obtain pre pa post where t: "find_pa (mr_off req) (prealloc f) = Some (pre, pa, post)" by (cases t) auto
  note use = mb_use_space [OF t assms(1,4-6,8)]
  have only: "q \<in> set (prealloc f) \<and> unat (mr_off req) \<in> pa_log q \<longleftrightarrow> q = pa" for q
    using pa_only [OF t assms(4)] .
  show ?thesis
  proof (cases "unat (pa_free pa) < pa_share pa req")
    case True
    then show ?thesis using use(1) only by auto
  next
    case False
    then have "unat (pa_free q) \<ge> pa_share q req" if "q \<in> set (prealloc f)" "unat (mr_off req) \<in> pa_log q" for q
      using iffD1 [OF only conjI [OF that]] by (simp only: not_less)
    then have neg: "\<not> (\<exists>pa\<in>set (prealloc f). unat (mr_off req) \<in> pa_log pa \<and> unat (pa_free pa) < pa_share pa req)"
      by (meson not_less)
    obtain f' r where r: "MbAllocBlock fs f req = Some (0, f', r, fs)" "pas_ok (fs_curoff fs) (prealloc f')"
      "0 < mr_count r" "mr_count r \<le> mr_count req" "unat (mr_count r) = pa_share pa req"
      "unat (mr_off r) = unat (pa_pstart pa) + (unat (mr_off req) - unat (pa_lstart pa))"
      using use(2) False by blast
    have own: "\<forall>q\<in>set (prealloc f). unat (mr_off req) \<in> pa_log q \<longrightarrow> fs = fs \<and> unat (mr_count r) = pa_share q req
      \<and> unat (mr_off r) = unat (pa_pstart q) + (unat (mr_off req) - unat (pa_lstart q))"
    proof (intro ballI impI)
      fix q assume "q \<in> set (prealloc f)" "unat (mr_off req) \<in> pa_log q"
      from iffD1 [OF only conjI [OF this]] show "fs = fs \<and> unat (mr_count r) = pa_share q req
        \<and> unat (mr_off r) = unat (pa_pstart q) + (unat (mr_off req) - unat (pa_lstart q))" using r(5,6) by (simp only:)
    qed
    have one: "\<not> (\<forall>q\<in>set (prealloc f). unat (mr_off req) \<notin> pa_log q)" using iffD2 [OF only refl] by blast
    show ?thesis unfolding if_not_P [OF neg]
      by (intro exI [of _ f'] exI [of _ r] exI [of _ fs] conjI r(1-4) order_refl own) (rule impI, erule notE [OF one])
  qed
qed

definition demo_spaces :: fs_file where
  "demo_spaces = demo_file\<lparr>prealloc := [
     \<lparr>pa_deleted = False, pa_lstart = 8192, pa_pstart = 1000, pa_len = 512, pa_free = 500\<rparr>,
     \<lparr>pa_deleted = False, pa_lstart = 9000, pa_pstart = 2000, pa_len = 64, pa_free = 4\<rparr>]\<rparr>"

text \<open>A space with blocks left is used up to its end, a space with too few
  stops the allocator, and outside every space the blocks are fresh.\<close>

theorem mballoc_safe_witness:
  "(\<exists>f' r. MbAllocBlock demo_fs demo_spaces \<lparr>mr_off = 8392, mr_count = 400, mr_from_pa = False\<rparr> = Some (0, f', r, demo_fs)
      \<and> unat (mr_off r) = 1200 \<and> unat (mr_count r) = 312 \<and> pas_ok 9000 (prealloc f'))
    \<and> MbAllocBlock demo_fs demo_spaces \<lparr>mr_off = 9010, mr_count = 20, mr_from_pa = False\<rparr> = None
    \<and> (\<exists>f' r fs'. MbAllocBlock demo_fs demo_spaces \<lparr>mr_off = 8800, mr_count = 30, mr_from_pa = False\<rparr> = Some (0, f', r, fs')
      \<and> 9000 \<le> unat (mr_off r) \<and> pas_ok (fs_curoff fs') (prealloc f'))"
proof -
  have pre: "reserve_pa demo_fs" "0 < bsbit demo_fs" "bsbit demo_fs \<le> 21" "pas_ok (fs_curoff demo_fs) (prealloc demo_spaces)"
    "unat (fs_curoff demo_fs) + 2 ^ 24 < 2 ^ 64"
    by (simp_all add: demo_fs_def demo_spaces_def demo_file_def pas_ok_def pa_ok_def pa_apart_def)
  note S = mballoc_safe [OF pre(1-4) _ _ _ pre(5)]
  let ?q = "\<lparr>mr_off = 8392, mr_count = 400, mr_from_pa = False\<rparr>" and ?r = "\<lparr>mr_off = 9010, mr_count = 20, mr_from_pa = False\<rparr>"
    and ?s = "\<lparr>mr_off = 8800, mr_count = 30, mr_from_pa = False\<rparr>"
  have "\<exists>f' r. MbAllocBlock demo_fs demo_spaces ?q = Some (0, f', r, demo_fs)
      \<and> unat (mr_off r) = 1200 \<and> unat (mr_count r) = 312 \<and> pas_ok 9000 (prealloc f')"
    using S [of ?q] by (simp add: demo_fs_def demo_spaces_def pa_share_def) (auto simp: demo_fs_def)
  moreover have "MbAllocBlock demo_fs demo_spaces ?r = None"
    using S [of ?r] by (simp add: demo_fs_def demo_spaces_def pa_share_def)
  moreover have "\<exists>f' r fs'. MbAllocBlock demo_fs demo_spaces ?s = Some (0, f', r, fs')
      \<and> 9000 \<le> unat (mr_off r) \<and> pas_ok (fs_curoff fs') (prealloc f')"
    using S [of ?s] by (simp add: demo_fs_def demo_spaces_def pa_share_def) auto
  ultimately show ?thesis by blast
qed

end
