(* ===== verification/NrsPrio.thy ===== *)
theory NrsPrio
  imports NrsFifo
begin

text \<open>
  The priority scheduler of src/lustre/nrsprio.h and nrsprio.cpp: two FIFO
  queues, one per I/O priority, and the four flavours of Dequeue. A request
  message is identified by \<open>pm_id\<close>; the deadline that Enqueue writes into its
  I/O is kept in the state. The flavour is fixed to PRIO_STRICT in the code;
  the other three are modelled as they are written.
\<close>

section \<open>State\<close>

record pmsg =
  pm_id :: nat
  pm_prio :: nat
  pm_count :: u64

record prio_queue =
  pq_dynamic :: bool
  pq_prio :: nat
  pq_quantum :: int
  pq :: "pmsg nrs_fifo"
  pq_wt :: cfs_time

record nrs_prio = scheduler_base +
  np_bw :: u64
  np_num_serviced :: u64
  np_num_queued :: u64
  np_io_queued :: u64
  np_io_serviced :: u64
  np_Q :: "nat \<Rightarrow> prio_queue"
  np_wq :: "nat option"
  np_idx :: int
  np_deadline :: "nat \<Rightarrow> cfs_time"

datatype prio_flavor = PRIO_STRICT | PRIO_QUANTUM_ONLY | PRIO_DEADLINE_ONLY | PRIO_DQPS

definition np_flavor :: prio_flavor where "np_flavor = PRIO_STRICT"

abbreviation "QUANTUM_L0 \<equiv> 1 :: int"
abbreviation "QUANTUM_L1 \<equiv> 10 :: int"

definition InitPrioQueues :: "nat \<Rightarrow> prio_queue" where
  "InitPrioQueues = (\<lambda>i. if i = 0
     then \<lparr>pq_dynamic = True, pq_prio = 0, pq_quantum = QUANTUM_L0, pq = NrsFifo_new, pq_wt = 0\<rparr>
     else \<lparr>pq_dynamic = False, pq_prio = 1, pq_quantum = QUANTUM_L1, pq = NrsFifo_new, pq_wt = 5000000000\<rparr>)"

definition NrsPrio_new :: "u64 \<Rightarrow> nrs_prio" where
  "NrsPrio_new ReadBandwidth =
     \<lparr>sch_size = 0, sch_throttling = False, np_bw = ReadBandwidth * 1 div 2,
      np_num_serviced = 0, np_num_queued = 0, np_io_queued = 0, np_io_serviced = 0,
      np_Q = InitPrioQueues, np_wq = None, np_idx = 1, np_deadline = (\<lambda>_. 0)\<rparr>"

abbreviation "pq_at s i \<equiv> pq (np_Q s i)"

definition set_pq :: "nat \<Rightarrow> pmsg nrs_fifo \<Rightarrow> nrs_prio \<Rightarrow> nrs_prio" where
  "set_pq i q s = s\<lparr>np_Q := (np_Q s)(i := np_Q s i\<lparr>pq := q\<rparr>)\<rparr>"

section \<open>Enqueue\<close>

text \<open>The static float coef is never assigned, so it is 0 and so is every
  product with it; delta is 0 as well.\<close>

definition coef_times :: "u64 \<Rightarrow> cfs_time" where "coef_times v = 0"

definition GetDynamicMaxDeadline :: "nrs_prio \<Rightarrow> cfs_time" where
  "GetDynamicMaxDeadline s =
     (case NrsFifo_Last (pq_at s 0) of None \<Rightarrow> 0 | Some m \<Rightarrow> np_deadline s (pm_id m))"

definition GetDynamicDeadline :: "u64 \<Rightarrow> cfs_time \<Rightarrow> nrs_prio \<Rightarrow> cfs_time" where
  "GetDynamicDeadline TimeUnit clk s =
     (let dl = coef_times ((np_io_queued s + np_io_serviced s) div np_bw s * TimeUnit) + clk;
          max_dl = GetDynamicMaxDeadline s
      in if max_dl > dl then max_dl + 0 else dl)"

datatype prio_fault = Bad_priority | Div_by_zero | Null_msg

definition NrsPrio_Enqueue :: "u64 \<Rightarrow> cfs_time \<Rightarrow> pmsg \<Rightarrow> nrs_prio \<Rightarrow> prio_fault + nrs_prio" where
  "NrsPrio_Enqueue TimeUnit clk m s =
     (if \<not> pm_prio m < 2 then Inl Bad_priority
      else let q = np_Q s (pm_prio m) in
        if pq_dynamic q \<and> np_bw s = 0 then Inl Div_by_zero
        else let dl = (if pq_dynamic q then GetDynamicDeadline TimeUnit clk s else clk + pq_wt q) in
          Inr ((set_pq (pm_prio m) (NrsFifo_Enqueue m (pq q)) s)
                \<lparr>np_deadline := (np_deadline s)(pm_id m := dl),
                 np_num_queued := np_num_queued s + 1,
                 np_io_queued := np_io_queued s + pm_count m,
                 sch_size := sch_size s + 1\<rparr>))"

section \<open>The flavours of Dequeue\<close>

definition GetMessageFromPQ :: "nat \<Rightarrow> nrs_prio \<Rightarrow> pmsg option \<times> nrs_prio" where
  "GetMessageFromPQ i s = (case NrsFifo_Dequeue (pq_at s i) of (m, q) \<Rightarrow> (m, set_pq i q s))"

definition StrictPrioDequeue :: "nrs_prio \<Rightarrow> pmsg option \<times> nrs_prio" where
  "StrictPrioDequeue s =
     (if \<not> Scheduler_Empty (pq_at s 1) then GetMessageFromPQ 1 s
      else if \<not> Scheduler_Empty (pq_at s 0) then GetMessageFromPQ 0 s
      else (None, s))"

text \<open>The loop through the label repeat; None when it never ends.\<close>

partial_function (option) QuantumPrioDequeue :: "nrs_prio \<Rightarrow> (pmsg option \<times> nrs_prio) option" where
  "QuantumPrioDequeue s =
     (let w = (case np_wq s of None \<Rightarrow> nat (np_idx s mod 2) | Some i \<Rightarrow> i) in
      if Scheduler_Empty (pq_at s w)
      then QuantumPrioDequeue (s\<lparr>np_wq := Some w,
             np_Q := (np_Q s)(w := np_Q s w\<lparr>pq_quantum := (if pq_prio (np_Q s w) \<noteq> 0 then QUANTUM_L1 else QUANTUM_L0)\<rparr>),
             np_idx := np_idx s + 1\<rparr>)
      else (case GetMessageFromPQ w s of
              (m, s1) \<Rightarrow>
                let k = pq_quantum (np_Q s1 w) - 1;
                    s2 = s1\<lparr>np_Q := (np_Q s1)(w := np_Q s1 w\<lparr>pq_quantum := k\<rparr>)\<rparr>
                in Some (m, if k = 0 then s2\<lparr>np_wq := None, np_idx := (np_idx s + 1) mod 2\<rparr>
                            else s2\<lparr>np_wq := Some w\<rparr>)))"

definition DeadlineCheckDequeue :: "cfs_time \<Rightarrow> nrs_prio \<Rightarrow> prio_fault + pmsg option" where
  "DeadlineCheckDequeue clk s =
     (case NrsFifo_First (pq_at s 1) of
        None \<Rightarrow> Inl Null_msg
      | Some m \<Rightarrow>
          if np_deadline s (pm_id m) \<ge> clk then Inr (Some m)
          else (case NrsFifo_First (pq_at s 0) of
                  None \<Rightarrow> Inl Null_msg
                | Some m \<Rightarrow> if np_deadline s (pm_id m) \<ge> clk then Inr (Some m) else Inr None))"

type_synonym prio_res = "(prio_fault + pmsg option \<times> nrs_prio) option"

definition DLPrioDequeue :: "cfs_time \<Rightarrow> nrs_prio \<Rightarrow> prio_res" where
  "DLPrioDequeue clk s =
     (case DeadlineCheckDequeue clk s of
        Inl f \<Rightarrow> Some (Inl f)
      | Inr (Some m) \<Rightarrow> Some (Inr (Some m, s))
      | Inr None \<Rightarrow> Some (Inr (StrictPrioDequeue s)))"

definition DQPSDequeue :: "cfs_time \<Rightarrow> nrs_prio \<Rightarrow> prio_res" where
  "DQPSDequeue clk s =
     (case DeadlineCheckDequeue clk s of
        Inl f \<Rightarrow> Some (Inl f)
      | Inr (Some m) \<Rightarrow> Some (Inr (Some m, s))
      | Inr None \<Rightarrow> map_option Inr (QuantumPrioDequeue s))"

definition prio_pick :: "prio_flavor \<Rightarrow> cfs_time \<Rightarrow> nrs_prio \<Rightarrow> prio_res" where
  "prio_pick fl clk s =
     (case fl of
        PRIO_STRICT \<Rightarrow> Some (Inr (StrictPrioDequeue s))
      | PRIO_QUANTUM_ONLY \<Rightarrow> map_option Inr (QuantumPrioDequeue s)
      | PRIO_DEADLINE_ONLY \<Rightarrow> DLPrioDequeue clk s
      | PRIO_DQPS \<Rightarrow> DQPSDequeue clk s)"

definition prio_tally :: "pmsg \<Rightarrow> nrs_prio \<Rightarrow> nrs_prio" where
  "prio_tally m s = s\<lparr>np_num_queued := np_num_queued s - 1,
     np_num_serviced := np_num_serviced s + 1,
     np_io_queued := np_io_queued s - pm_count m,
     np_io_serviced := np_io_serviced s + pm_count m,
     sch_size := sch_size s - 1\<rparr>"

definition NrsPrio_Dequeue :: "prio_flavor \<Rightarrow> cfs_time \<Rightarrow> nrs_prio \<Rightarrow> prio_res" where
  "NrsPrio_Dequeue fl clk s =
     (if Scheduler_Empty s then Some (Inr (None, s))
      else case prio_pick fl clk s of
        None \<Rightarrow> None
      | Some (Inl f) \<Rightarrow> Some (Inl f)
      | Some (Inr (None, s')) \<Rightarrow> Some (Inl Null_msg)
      | Some (Inr (Some m, s')) \<Rightarrow> Some (Inr (Some m, prio_tally m s')))"

definition NrsPrio_Finish :: "pmsg \<Rightarrow> nrs_prio \<Rightarrow> nrs_prio" where
  "NrsPrio_Finish m s = s\<lparr>np_num_serviced := np_num_serviced s - 1,
     np_io_serviced := np_io_serviced s - pm_count m\<rparr>"

definition NrsPrio_GetFlavor :: "prio_flavor \<Rightarrow> string" where
  "NrsPrio_GetFlavor fl = (case fl of
      PRIO_STRICT \<Rightarrow> ''Strict priority scheduler''
    | PRIO_QUANTUM_ONLY \<Rightarrow> ''Quantum based priority scheduler''
    | PRIO_DEADLINE_ONLY \<Rightarrow> ''Priority scheduler only with deadline''
    | PRIO_DQPS \<Rightarrow> ''Quantum base priority scheduler with deadline'')"

lemmas prio_defs = set_pq_def NrsPrio_Enqueue_def GetMessageFromPQ_def StrictPrioDequeue_def
  prio_pick_def prio_tally_def NrsPrio_Dequeue_def Let_def

section \<open>The invariant and the contract\<close>

definition np_bag :: "nrs_prio \<Rightarrow> pmsg multiset" where
  "np_bag s = fifo_bag (pq_at s 0) + fifo_bag (pq_at s 1)"

definition np_ok :: "nrs_prio \<Rightarrow> bool" where
  "np_ok s \<longleftrightarrow> fifo_ok (pq_at s 0) \<and> fifo_ok (pq_at s 1)
    \<and> sch_size s = of_nat (size (np_bag s)) \<and> size (np_bag s) < 2 ^ 64
    \<and> (\<forall>m \<in># fifo_bag (pq_at s 0). pm_prio m = 0) \<and> (\<forall>m \<in># fifo_bag (pq_at s 1). pm_prio m = 1)
    \<and> np_bw s \<noteq> 0"

definition np_fits :: "pmsg \<Rightarrow> nrs_prio \<Rightarrow> bool" where
  "np_fits m s \<longleftrightarrow> pm_prio m < 2 \<and> Suc (size (np_bag s)) < 2 ^ 64"

text \<open>The operations as total functions; \<open>clk\<close> gives the time at which each
  message arrives.\<close>

definition np_enq :: "u64 \<Rightarrow> (pmsg \<Rightarrow> cfs_time) \<Rightarrow> pmsg \<Rightarrow> nrs_prio \<Rightarrow> nrs_prio" where
  "np_enq TimeUnit clk m s = (case NrsPrio_Enqueue TimeUnit (clk m) m s of Inl _ \<Rightarrow> s | Inr s' \<Rightarrow> s')"

definition np_deq :: "nrs_prio \<Rightarrow> pmsg option \<times> nrs_prio" where
  "np_deq s = (case NrsPrio_Dequeue np_flavor 0 s of Some (Inr r) \<Rightarrow> r | _ \<Rightarrow> (None, s))"

lemma np_new: "1 < bw \<Longrightarrow> np_ok (NrsPrio_new bw)" "np_bag (NrsPrio_new bw) = {#}"
proof -
  show "np_bag (NrsPrio_new bw) = {#}" by (simp add: np_bag_def NrsPrio_new_def InitPrioQueues_def)
  assume "1 < bw"
  then have "unat (bw div 2) \<noteq> 0" by (simp add: word_less_nat_alt unat_div)
  then have "bw div 2 \<noteq> 0" by auto
  then show "np_ok (NrsPrio_new bw)" by (simp add: np_ok_def np_bag_def NrsPrio_new_def InitPrioQueues_def)
qed

lemma np_enq_eq:
  assumes "np_ok s" "np_fits m s"
  obtains s' where "np_enq u clk m s = s'"
    "np_Q s' = (np_Q s)(pm_prio m := np_Q s (pm_prio m)\<lparr>pq := NrsFifo_Enqueue m (pq_at s (pm_prio m))\<rparr>)"
    "sch_size s' = sch_size s + 1" "np_bw s' = np_bw s"
  using assms by (auto simp: np_enq_def prio_defs np_ok_def np_fits_def)

lemma prio_cases: "np_fits m s \<Longrightarrow> pm_prio m = 0 \<or> pm_prio m = 1"
  by (auto simp: np_fits_def)

lemma np_enq_law:
  assumes "np_ok s" "np_fits m s"
  shows "np_ok (np_enq u clk m s) \<and> np_bag (np_enq u clk m s) = add_mset m (np_bag s)"
proof -
  obtain s' where s': "np_enq u clk m s = s'"
    "np_Q s' = (np_Q s)(pm_prio m := np_Q s (pm_prio m)\<lparr>pq := NrsFifo_Enqueue m (pq_at s (pm_prio m))\<rparr>)"
    "sch_size s' = sch_size s + 1" "np_bw s' = np_bw s"
    using np_enq_eq [OF assms] .
  have b: "np_bag s' = add_mset m (np_bag s)"
    using prio_cases [OF assms(2)] s'(2) by (auto simp: np_bag_def fifo_enq)
  have f: "fifo_fits m (pq_at s 0)" "fifo_fits m (pq_at s 1)"
    using assms(2) by (simp_all add: fifo_fits_def np_fits_def np_bag_def)
  have "np_ok s'"
    using prio_cases [OF assms(2)] assms s' b f by (auto simp: np_ok_def np_fits_def fifo_enq)
  with b s'(1) show ?thesis by simp
qed

lemma np_deq_empty:
  assumes "np_ok s" "np_bag s = {#}"
  shows "np_deq s = (None, s)"
  using assms by (simp add: np_deq_def NrsPrio_Dequeue_def np_ok_def Scheduler_Empty_def)

text \<open>Which queue a strict Dequeue serves.\<close>

definition np_turn :: "nrs_prio \<Rightarrow> nat" where
  "np_turn s = (if fifo_bag (pq_at s 1) \<noteq> {#} then 1 else 0)"

lemma np_deq_some:
  assumes "np_ok s" "np_bag s \<noteq> {#}"
  obtains m q s' where "np_deq s = (Some m, s')" "NrsFifo_Dequeue (pq_at s (np_turn s)) = (Some m, q)"
    "fifo_ok q" "fifo_bag (pq_at s (np_turn s)) = add_mset m (fifo_bag q)"
    "np_Q s' = (np_Q s)(np_turn s := np_Q s (np_turn s)\<lparr>pq := q\<rparr>)"
    "sch_size s' = sch_size s - 1" "np_bw s' = np_bw s"
proof -
  define i where "i = np_turn s"
  have ok: "fifo_ok (pq_at s 0)" "fifo_ok (pq_at s 1)" using assms(1) by (simp_all add: np_ok_def)
  have ne: "fifo_bag (pq_at s i) \<noteq> {#}" using assms(2) by (auto simp: i_def np_turn_def np_bag_def)
  have "fifo_ok (pq_at s i)" using ok by (simp add: i_def np_turn_def)
  from fifo_deq [OF this ne] obtain m q where q: "NrsFifo_Dequeue (pq_at s i) = (Some m, q)"
    "fifo_ok q" "fifo_bag (pq_at s i) = add_mset m (fifo_bag q)" by blast
  have "StrictPrioDequeue s = GetMessageFromPQ i s"
    using ne ok by (auto simp: StrictPrioDequeue_def fifo_empty i_def np_turn_def)
  then have st: "StrictPrioDequeue s = (Some m, set_pq i q s)"
    using q(1) by (simp add: GetMessageFromPQ_def)
  have "\<not> Scheduler_Empty s"
    using assms by (simp add: Scheduler_Empty_def np_ok_def of_nat_u64_eq_0)
  then have "np_deq s = (Some m, prio_tally m (set_pq i q s))"
    using st by (simp add: np_deq_def NrsPrio_Dequeue_def prio_pick_def np_flavor_def)
  then show thesis
    using that [of m "prio_tally m (set_pq i q s)" q] q by (simp add: i_def prio_tally_def set_pq_def)
qed

lemma np_turn_lt: "np_turn s < 2" by (simp add: np_turn_def)

lemma np_deq_law:
  assumes "np_ok s" "np_bag s \<noteq> {#}"
  shows "\<exists>m s'. np_deq s = (Some m, s') \<and> np_ok s' \<and> np_bag s = add_mset m (np_bag s')"
proof -
  obtain m q s' where d: "np_deq s = (Some m, s')" "NrsFifo_Dequeue (pq_at s (np_turn s)) = (Some m, q)"
    "fifo_ok q" "fifo_bag (pq_at s (np_turn s)) = add_mset m (fifo_bag q)"
    "np_Q s' = (np_Q s)(np_turn s := np_Q s (np_turn s)\<lparr>pq := q\<rparr>)"
    "sch_size s' = sch_size s - 1" "np_bw s' = np_bw s" using np_deq_some [OF assms] .
  have b: "np_bag s = add_mset m (np_bag s')"
    using d(4) unfolding np_bag_def d(5) by (simp add: np_turn_def split: if_splits)
  have "np_ok s'"
    using assms(1) d(3,4,6,7) b unfolding np_ok_def d(5)
    by (simp add: np_turn_def split: if_splits)
  then show ?thesis using d(1) b by blast
qed

lemma np_deq_least:
  assumes "np_ok s" "np_deq s = (Some m, s')" "x \<in># np_bag s"
  shows "1 - pm_prio m \<le> 1 - pm_prio x"
proof -
  have ne: "np_bag s \<noteq> {#}" using assms(3) by auto
  show ?thesis
    using np_deq_some [OF assms(1) ne]
  proof cases
    case (1 m1 q s1)
    then have "m = m1" using assms(2) by simp
    then have "m \<in># fifo_bag (pq_at s (np_turn s))" using 1(4) by simp
    then show ?thesis using assms(1,3) by (auto simp: np_ok_def np_turn_def np_bag_def split: if_splits)
  qed
qed

interpretation prio: ranked_scheduler np_ok np_bag np_fits "np_enq u clk" np_deq "\<lambda>m. 1 - pm_prio m"
  for u clk
proof
  show "\<exists>s'. np_deq s = (None, s') \<and> np_ok s' \<and> np_bag s' = {#}" if "np_ok s" "np_bag s = {#}" for s
    using np_deq_empty that by blast
qed (use np_enq_law np_deq_law np_deq_least in blast)+

section \<open>Arrival order inside a class\<close>

abbreviation of_class :: "nat \<Rightarrow> pmsg list \<Rightarrow> pmsg list" where
  "of_class c \<equiv> filter (\<lambda>m. pm_prio m = c)"

definition np_line :: "nat \<Rightarrow> nrs_prio \<Rightarrow> pmsg list" where
  "np_line c s = (if c < 2 then fifo_line (pq_at s c) else [])"

lemma np_line_deq:
  assumes "np_ok s" "np_deq s = (Some m, s')"
  shows "np_line c s = (if pm_prio m = c then [m] else []) @ np_line c s'"
proof -
  have ne: "np_bag s \<noteq> {#}" using assms np_deq_empty by auto
  from np_deq_some [OF assms(1) ne] obtain q where d:
    "NrsFifo_Dequeue (pq_at s (np_turn s)) = (Some m, q)"
    "fifo_bag (pq_at s (np_turn s)) = add_mset m (fifo_bag q)"
    "np_Q s' = (np_Q s)(np_turn s := np_Q s (np_turn s)\<lparr>pq := q\<rparr>)"
    using assms(2) by (metis Pair_inject option.inject)
  then have "m \<in># fifo_bag (pq_at s (np_turn s))" by simp
  then have "pm_prio m = np_turn s"
    using assms(1) by (auto simp: np_ok_def np_turn_def split: if_splits)
  then show ?thesis using fifo_deq_line [OF d(1)] np_turn_lt [of s]
    by (cases "np_turn s = c") (simp_all add: np_line_def d(3))
qed

lemma np_line_enq:
  assumes "np_ok s" "np_fits m s"
  shows "np_line c (np_enq u clk m s) = np_line c s @ (if pm_prio m = c then [m] else [])"
  using np_enq_eq [OF assms, of u clk]
proof cases
  case (1 s')
  then show ?thesis using assms(2) by (auto simp: np_line_def fifo_enq np_fits_def)
qed

lemma np_line_idle: "np_ok s \<Longrightarrow> np_deq s = (None, s') \<Longrightarrow> np_line c s' = np_line c s"
  using np_deq_law [of s] np_deq_empty [of s] by fastforce

interpretation prio_class: class_scheduler np_ok np_bag np_fits "np_enq u clk" np_deq pm_prio np_line
  for u clk
  by unfold_locales (blast intro: np_line_enq np_line_deq np_line_idle)+

lemma prio_admissible:
  "np_ok s \<Longrightarrow> list_all (\<lambda>m. pm_prio m < 2) (enqueued ops) \<Longrightarrow>
    length ops + size (np_bag s) < 2 ^ 64 \<Longrightarrow> prio.admissible u clk ops s"
  by (rule prio.admissible_bounded [of "{m. pm_prio m < 2}" "2 ^ 64"]) (auto simp: np_fits_def list_all_iff)

section \<open>Properties\<close>

text \<open>C27 The strict flavour, the one the simulator uses: whatever the
  history and the arrival times, no request is lost or repeated, each
  priority class is served in the order of arrival, and a request of the low
  class is served only when none of the high class waits.\<close>

theorem prio_strict_by_class:
  assumes "1 < bandwidth" "length ops < 2 ^ 64" "list_all (\<lambda>m. pm_prio m < 2) (enqueued ops)"
    and "run_ops (np_enq u clk) np_deq ops (NrsPrio_new bandwidth) = (out, s)"
  shows "of_class 0 (enqueued ops) = of_class 0 out @ np_line 0 s
    \<and> of_class 1 (enqueued ops) = of_class 1 out @ np_line 1 s
    \<and> mset (enqueued ops) = mset out + np_bag s \<and> Scheduler_Size s = of_nat (size (np_bag s))
    \<and> (\<forall>m s'. np_deq s = (Some m, s') \<and> pm_prio m = 0 \<longrightarrow> np_line 1 s = [])"
proof -
  note new = np_new(1) [OF assms(1)] np_new(2) [of bandwidth]
  have a: "prio.admissible u clk ops (NrsPrio_new bandwidth)"
    using new assms(2,3) by (intro prio_admissible) simp_all
  have ok: "np_ok s" using prio.conservation(1) [OF new(1) a assms(4)] .
  have l: "np_line c (NrsPrio_new bandwidth) = []" for c
    by (simp add: np_line_def NrsPrio_new_def InitPrioQueues_def)
  have "np_line 1 s = []" if "np_deq s = (Some m, s')" "pm_prio m = 0" for m s'
  proof (rule ccontr)
    assume "np_line 1 s \<noteq> []"
    then obtain x where x: "x \<in># fifo_bag (pq_at s 1)"
      by (auto simp: np_line_def fifo_line_def fifo_bag_def) (metis last_in_set)
    then have "pm_prio x = 1" "x \<in># np_bag s" using ok by (auto simp: np_ok_def np_bag_def)
    then show False using np_deq_least [OF ok that(1), of x] that(2) by simp
  qed
  then show ?thesis
    using prio_class.class_in_order [OF new(1) a assms(4), of 0] prio_class.class_in_order [OF new(1) a assms(4), of 1]
      prio.conservation(2) [OF new(1) a assms(4)] new(2) ok
    by (simp add: l np_ok_def Scheduler_Size_def)
qed

text \<open>A concrete history for the witnesses.\<close>

abbreviation "low i \<equiv> \<lparr>pm_id = i, pm_prio = 0, pm_count = 4\<rparr>"
abbreviation "high i \<equiv> \<lparr>pm_id = i, pm_prio = 1, pm_count = 4\<rparr>"

lemmas prio_eval = np_enq_def np_deq_def prio_defs NrsPrio_new_def InitPrioQueues_def sched_simps
  Scheduler_Empty_def np_flavor_def GetDynamicDeadline_def GetDynamicMaxDeadline_def coef_times_def NrsFifo_new_def
  unat_div word_less_nat_alt

theorem prio_strict_by_class_witness:
  "\<exists>s. run_ops (np_enq 1 (\<lambda>_. 5)) np_deq
      [Op_enqueue (low 1), Op_enqueue (high 2), Op_enqueue (high 3), Op_dequeue] (NrsPrio_new 8) = ([high 2], s)
    \<and> np_line 0 s = [low 1] \<and> np_line 1 s = [high 3]"
proof -
  define r where "r = run_ops (np_enq 1 (\<lambda>_. 5)) np_deq
      [Op_enqueue (low 1), Op_enqueue (high 2), Op_enqueue (high 3), Op_dequeue] (NrsPrio_new 8)"
  have bw: "(4 :: u64) \<noteq> 0" by simp
  have "fst r = [high 2]" by (simp add: r_def prio_eval)
  then obtain s where s: "r = ([high 2], s)" by (cases r) simp
  then show ?thesis
    using prio_strict_by_class [OF _ _ _ s [unfolded r_def]] unfolding r_def by simp
qed

text \<open>The quantum flavour: when the queue whose turn it is is empty, the
  branch to repeat keeps that queue, so Dequeue never returns, although the
  other queue may hold requests.\<close>

lemma quantum_never_returns:
  assumes "np_wq s = Some i" "Scheduler_Empty (pq_at s i)"
  shows "QuantumPrioDequeue s = None"
proof -
  let ?P = "\<lambda>s (_ :: pmsg option \<times> nrs_prio). \<not> (np_wq s = Some i \<and> Scheduler_Empty (pq_at s i))"
  have "?P s r" if "QuantumPrioDequeue s = Some r" for s r
  proof (rule QuantumPrioDequeue.raw_induct [of ?P, OF _ that])
    fix f :: "nrs_prio \<Rightarrow> (pmsg option \<times> nrs_prio) option" and s r
    assume IH: "\<And>s r. f s = Some r \<Longrightarrow> ?P s r"
    assume body: "(let w = (case np_wq s of None \<Rightarrow> nat (np_idx s mod 2) | Some i \<Rightarrow> i) in
      if Scheduler_Empty (pq_at s w)
      then f (s\<lparr>np_wq := Some w,
             np_Q := (np_Q s)(w := np_Q s w\<lparr>pq_quantum := (if pq_prio (np_Q s w) \<noteq> 0 then QUANTUM_L1 else QUANTUM_L0)\<rparr>),
             np_idx := np_idx s + 1\<rparr>)
      else (case GetMessageFromPQ w s of
              (m, s1) \<Rightarrow>
                let k = pq_quantum (np_Q s1 w) - 1;
                    s2 = s1\<lparr>np_Q := (np_Q s1)(w := np_Q s1 w\<lparr>pq_quantum := k\<rparr>)\<rparr>
                in Some (m, if k = 0 then s2\<lparr>np_wq := None, np_idx := (np_idx s + 1) mod 2\<rparr>
                            else s2\<lparr>np_wq := Some w\<rparr>))) = Some r"
    show "?P s r"
    proof
      assume a: "np_wq s = Some i \<and> Scheduler_Empty (pq_at s i)"
      define s1 where "s1 = s\<lparr>np_wq := Some i,
             np_Q := (np_Q s)(i := np_Q s i\<lparr>pq_quantum := (if pq_prio (np_Q s i) \<noteq> 0 then QUANTUM_L1 else QUANTUM_L0)\<rparr>),
             np_idx := np_idx s + 1\<rparr>"
      have "f s1 = Some r" using body a unfolding Let_def s1_def by simp
      then have "?P s1 r" by (rule IH)
      then show False using a by (simp add: s1_def)
    qed
  qed
  then show ?thesis using assms by (cases "QuantumPrioDequeue s") auto
qed

text \<open>A request can wait for ever under the quantum flavour: with an empty
  high class and any number of requests in the low class, Dequeue on a fresh
  scheduler does not return.\<close>

theorem prio_quantum_hangs:
  assumes "np_ok s" "np_wq s = None" "np_idx s mod 2 = 1" "np_line 1 s = []" "np_line 0 s \<noteq> []"
  shows "NrsPrio_Dequeue PRIO_QUANTUM_ONLY clk s = None \<and> fst (np_deq s) = Some (hd (np_line 0 s))"
proof -
  have e: "Scheduler_Empty (pq_at s 1)" "np_bag s \<noteq> {#}" "fifo_bag (pq_at s 1) = {#}"
    using assms by (auto simp: np_ok_def fifo_empty fifo_bag_def np_line_def fifo_line_def np_bag_def)
  then have ne: "\<not> Scheduler_Empty s"
    using assms by (simp add: Scheduler_Empty_def np_ok_def of_nat_u64_eq_0)
  define s1 where "s1 = s\<lparr>np_wq := Some 1,
             np_Q := (np_Q s)(1 := np_Q s 1\<lparr>pq_quantum := (if pq_prio (np_Q s 1) \<noteq> 0 then QUANTUM_L1 else QUANTUM_L0)\<rparr>),
             np_idx := np_idx s + 1\<rparr>"
  have "QuantumPrioDequeue s = QuantumPrioDequeue s1"
    using assms(2,3) e by (subst QuantumPrioDequeue.simps) (simp add: s1_def Let_def)
  also have "\<dots> = None" using e by (intro quantum_never_returns [of _ 1]) (simp_all add: s1_def)
  finally have "QuantumPrioDequeue s = None" .
  moreover have "fst (np_deq s) = Some (hd (np_line 0 s))"
    using np_deq_some [OF assms(1) e(2)]
  proof cases
    case (1 m q s')
    then show ?thesis using e fifo_deq_line [OF 1(2)] by (simp add: np_turn_def np_line_def)
  qed
  ultimately show ?thesis using ne by (simp add: NrsPrio_Dequeue_def prio_pick_def)
qed

theorem prio_quantum_hangs_witness:
  "NrsPrio_Dequeue PRIO_QUANTUM_ONLY 9 (np_enq 1 (\<lambda>_. 5) (low 1) (NrsPrio_new 8)) = None"
proof -
  define s where "s = np_enq 1 (\<lambda>_. 5) (low 1) (NrsPrio_new 8)"
  have "np_ok s"
    unfolding s_def using np_enq_law [OF np_new(1), of 8 "low 1"] by (simp add: np_fits_def np_new)
  moreover have "np_wq s = None" "np_idx s mod 2 = 1" "np_line 1 s = []" "np_line 0 s = [low 1]"
    by (simp_all add: s_def prio_eval np_line_def fifo_line_def)
  ultimately show ?thesis using prio_quantum_hangs [of s 9] by (simp add: s_def)
qed

text \<open>The deadline flavours hand out the first request of a queue whose
  deadline is not yet over, and leave it in the queue.\<close>

lemma prio_deadline_serves_twice:
  assumes "\<not> Scheduler_Empty s" "NrsFifo_First (pq_at s 1) = Some m" "np_deadline s (pm_id m) \<ge> clk"
  shows "NrsPrio_Dequeue PRIO_DEADLINE_ONLY clk s = Some (Inr (Some m, prio_tally m s))
    \<and> np_bag (prio_tally m s) = np_bag s"
  using assms by (simp add: NrsPrio_Dequeue_def prio_pick_def DLPrioDequeue_def DeadlineCheckDequeue_def
      np_bag_def prio_tally_def)

end
