(* ===== verification/NrsEpoch.thy ===== *)
theory NrsEpoch
  imports NrsFifo
begin

text \<open>
  The epoch scheduler of src/lustre/nrsepoch.h and nrsepoch.cpp: one FIFO per
  class of clients, a time slice per class and a timer that moves the service
  from class to class. The timer is the time for which it is armed; its
  expiry is a step of its own.
\<close>

section \<open>State\<close>

record emsg =
  em_id :: nat
  em_cid :: nat

record queue_class =
  qc_c :: nat
  qc_quota :: cfs_time
  qc_start :: cfs_time
  qc_q :: "emsg nrs_fifo"

record nrs_epoch = scheduler_base +
  ep_qvec :: "nat \<Rightarrow> queue_class"
  ep_num :: nat
  ep_cur :: nat
  ep_on :: bool
  ep_timer :: "cfs_time option"
  ep_nrs :: nat
  ep_ClientCount :: nat

text \<open>Init fills the first two time slices and leaves the others as they are
  on the stack; with a single class it writes past the array.\<close>

definition epoch_quota :: "(nat \<Rightarrow> cfs_time) \<Rightarrow> nat \<Rightarrow> cfs_time" where
  "epoch_quota stack = stack(0 := 700000000, 1 := 300000000)"

definition NrsEpoch_Init :: "(nat \<Rightarrow> cfs_time) \<Rightarrow> cfs_time \<Rightarrow> nat \<Rightarrow> nat \<Rightarrow> nrs_epoch option" where
  "NrsEpoch_Init stack clk ClientSet ClientCount =
     (if ClientSet < 2 then None
      else Some \<lparr>sch_size = 0, sch_throttling = False,
        ep_qvec = (\<lambda>i. \<lparr>qc_c = i, qc_quota = epoch_quota stack i, qc_start = clk, qc_q = NrsFifo_new\<rparr>),
        ep_num = ClientSet, ep_cur = 0, ep_on = False, ep_timer = None, ep_nrs = 0,
        ep_ClientCount = ClientCount\<rparr>)"

abbreviation "ep_q s c \<equiv> qc_q (ep_qvec s c)"

definition set_epq :: "nat \<Rightarrow> emsg nrs_fifo \<Rightarrow> nrs_epoch \<Rightarrow> nrs_epoch" where
  "set_epq c q s = s\<lparr>ep_qvec := (ep_qvec s)(c := ep_qvec s c\<lparr>qc_q := q\<rparr>)\<rparr>"

section \<open>The timer and the time slices\<close>

datatype epoch_fault = Not_in_future | No_request | Div_by_zero

definition ep_ModTimer :: "cfs_time \<Rightarrow> cfs_time \<Rightarrow> nrs_epoch \<Rightarrow> epoch_fault + nrs_epoch" where
  "ep_ModTimer clk expire s =
     (if ep_timer s = Some expire then Inr s
      else if \<not> expire > clk then Inl Not_in_future
      else Inr (s\<lparr>ep_timer := Some expire\<rparr>))"

definition SwitchQueue :: "cfs_time \<Rightarrow> nrs_epoch \<Rightarrow> epoch_fault + nrs_epoch" where
  "SwitchQueue clk s =
     (let c = (ep_cur s + 1) mod ep_num s;
          s1 = s\<lparr>ep_timer := None, ep_cur := c, ep_nrs := c,
                 ep_qvec := (ep_qvec s)(c := ep_qvec s c\<lparr>qc_start := clk\<rparr>)\<rparr>
      in if sch_size s > 0
         then (case ep_ModTimer clk (clk + qc_quota (ep_qvec s1 c)) s1 of
                 Inl f \<Rightarrow> Inl f | Inr s2 \<Rightarrow> Inr (s2\<lparr>ep_on := True\<rparr>))
         else Inr s1)"

definition StartTimer :: "cfs_time \<Rightarrow> nrs_epoch \<Rightarrow> epoch_fault + nrs_epoch" where
  "StartTimer clk s =
     (if ep_on s then Inr s
      else if \<not> sch_size s > 0 then Inl No_request
      else let qc = ep_qvec s (ep_cur s); used = clk - qc_start qc in
        if used > qc_quota qc then SwitchQueue clk s
        else ep_ModTimer clk (clk + qc_quota qc - used) s)"

text \<open>The timer has fired; the event loop takes it out of the run queue
  before it calls the handler.\<close>

definition TimeSliceExpire :: "cfs_time \<Rightarrow> nrs_epoch \<Rightarrow> epoch_fault + nrs_epoch" where
  "TimeSliceExpire clk s = SwitchQueue clk (s\<lparr>ep_timer := None\<rparr>)"

section \<open>Requests\<close>

definition GetQueueClass :: "emsg \<Rightarrow> nrs_epoch \<Rightarrow> nat" where
  "GetQueueClass m s = em_cid m div (ep_ClientCount s div ep_num s) mod ep_num s"

definition NrsEpoch_Enqueue :: "cfs_time \<Rightarrow> emsg \<Rightarrow> nrs_epoch \<Rightarrow> epoch_fault + nrs_epoch" where
  "NrsEpoch_Enqueue clk m s =
     (if ep_num s = 0 \<or> ep_ClientCount s div ep_num s = 0 then Inl Div_by_zero
      else let c = GetQueueClass m s;
               s1 = (set_epq c (NrsFifo_Enqueue m (ep_q s c)) s)\<lparr>sch_size := sch_size s + 1\<rparr>
           in if sch_size s1 = 1 then StartTimer clk s1 else Inr s1)"

text \<open>The loop over the other classes; \<open>n\<close> bounds the turns.\<close>

fun epoch_scan :: "nat \<Rightarrow> nat \<Rightarrow> nrs_epoch \<Rightarrow> emsg option \<times> nrs_epoch" where
  "epoch_scan 0 idx s = (None, s)"
| "epoch_scan (Suc n) idx s =
     (if idx = ep_cur s then (None, s)
      else case NrsFifo_Dequeue (ep_q s idx) of
             (Some m, q) \<Rightarrow> (Some m, set_epq idx q s)
           | (None, q) \<Rightarrow> epoch_scan n ((idx + 1) mod ep_num s) (set_epq idx q s))"

definition NrsEpoch_Dequeue :: "nrs_epoch \<Rightarrow> emsg option \<times> nrs_epoch" where
  "NrsEpoch_Dequeue s =
     (if sch_size s = 0 then (None, s)
      else case NrsFifo_Dequeue (ep_q s (ep_nrs s)) of
             (Some m, q) \<Rightarrow> (Some m, (set_epq (ep_nrs s) q s)\<lparr>sch_size := sch_size s - 1\<rparr>)
           | (None, q) \<Rightarrow> (case epoch_scan (ep_num s) ((ep_cur s + 1) mod ep_num s) (set_epq (ep_nrs s) q s) of
                              (m, s1) \<Rightarrow> (m, s1\<lparr>sch_size := sch_size s - 1\<rparr>)))"

definition NrsEpoch_Erase :: "emsg \<Rightarrow> nrs_epoch \<Rightarrow> nrs_epoch" where
  "NrsEpoch_Erase m s =
     (let c = GetQueueClass m s in (set_epq c (NrsFifo_Erase m (ep_q s c)) s)\<lparr>sch_size := sch_size s - 1\<rparr>)"

definition NrsEpoch_Requeue :: "emsg \<Rightarrow> nrs_epoch \<Rightarrow> nrs_epoch" where
  "NrsEpoch_Requeue m s =
     (let c = GetQueueClass m s in (set_epq c (NrsFifo_Requeue m (ep_q s c)) s)\<lparr>sch_size := sch_size s + 1\<rparr>)"

section \<open>The invariant\<close>

definition ep_bag :: "nrs_epoch \<Rightarrow> emsg multiset" where
  "ep_bag s = (\<Sum>c<ep_num s. fifo_bag (ep_q s c))"

definition ep_ok :: "nrs_epoch \<Rightarrow> bool" where
  "ep_ok s \<longleftrightarrow> 1 < ep_num s \<and> ep_ClientCount s div ep_num s \<noteq> 0 \<and> ep_cur s < ep_num s \<and> ep_nrs s = ep_cur s
    \<and> (\<forall>c<ep_num s. fifo_ok (ep_q s c) \<and> (\<forall>m\<in>#fifo_bag (ep_q s c). GetQueueClass m s = c))
    \<and> sch_size s = of_nat (size (ep_bag s)) \<and> size (ep_bag s) < 2 ^ 64"

definition ep_line :: "nat \<Rightarrow> nrs_epoch \<Rightarrow> emsg list" where
  "ep_line c s = (if c < ep_num s then fifo_line (ep_q s c) else [])"

text \<open>What a change of the timer and the turn leaves alone.\<close>

definition same_queues :: "nrs_epoch \<Rightarrow> nrs_epoch \<Rightarrow> bool" where
  "same_queues s s' \<longleftrightarrow> ep_num s' = ep_num s \<and> ep_ClientCount s' = ep_ClientCount s \<and> sch_size s' = sch_size s
     \<and> (\<forall>c. ep_q s' c = ep_q s c)"

lemma same_queues:
  assumes "same_queues s s'"
  shows "ep_bag s' = ep_bag s" "GetQueueClass m s' = GetQueueClass m s" "ep_line c s' = ep_line c s"
  using assms by (simp_all add: same_queues_def ep_bag_def GetQueueClass_def ep_line_def)

lemma same_queues_ok:
  "same_queues s s' \<Longrightarrow> ep_ok s \<Longrightarrow> ep_cur s' < ep_num s \<Longrightarrow> ep_nrs s' = ep_cur s' \<Longrightarrow> ep_ok s'"
  unfolding ep_ok_def using same_queues(1,2) [of s s'] by (simp add: same_queues_def)

lemma SwitchQueue_same:
  assumes "SwitchQueue clk s = Inr s'" "0 < ep_num s"
  shows "same_queues s s'" "ep_cur s' = (ep_cur s + 1) mod ep_num s" "ep_nrs s' = ep_cur s'"
  using assms by (auto simp: SwitchQueue_def ep_ModTimer_def Let_def same_queues_def split: if_splits)

lemma StartTimer_same:
  assumes "StartTimer clk s = Inr s'" "0 < ep_num s" "ep_cur s < ep_num s" "ep_nrs s = ep_cur s"
  shows "same_queues s s' \<and> ep_cur s' < ep_num s \<and> ep_nrs s' = ep_cur s'"
proof (cases "ep_on s \<or> sch_size s = 0 \<or> \<not> clk - qc_start (ep_qvec s (ep_cur s)) > qc_quota (ep_qvec s (ep_cur s))")
  case True
  then show ?thesis using assms
    by (auto simp: StartTimer_def ep_ModTimer_def Let_def same_queues_def word_gt_0 split: if_splits)
next
  case False
  then have "SwitchQueue clk s = Inr s'" using assms(1) by (simp add: StartTimer_def Let_def word_gt_0)
  from SwitchQueue_same [OF this assms(2)] show ?thesis using assms(2) by simp
qed

lemma expire_ok:
  assumes "ep_ok s" "TimeSliceExpire clk s = Inr s'"
  shows "ep_ok s'" "ep_bag s' = ep_bag s" "ep_line c s' = ep_line c s"
proof -
  define s0 where "s0 = s\<lparr>ep_timer := None\<rparr>"
  have q0: "same_queues s s0" by (simp add: same_queues_def s0_def)
  have n: "0 < ep_num s0" "ep_num s0 = ep_num s" using assms(1) by (simp_all add: ep_ok_def s0_def)
  have "SwitchQueue clk s0 = Inr s'" using assms(2) by (simp add: TimeSliceExpire_def s0_def)
  note sw = SwitchQueue_same [OF this n(1)]
  have q: "same_queues s s'" using q0 sw(1) by (simp add: same_queues_def)
  then show "ep_bag s' = ep_bag s" "ep_line c s' = ep_line c s" by (rule same_queues)+
  show "ep_ok s'" using same_queues_ok [OF q assms(1)] sw(2,3) n by simp
qed

section \<open>Enqueue and Dequeue keep the requests\<close>

lemma set_epq_simps [simp]:
  "ep_num (set_epq c q s) = ep_num s" "ep_ClientCount (set_epq c q s) = ep_ClientCount s"
  "ep_cur (set_epq c q s) = ep_cur s" "ep_nrs (set_epq c q s) = ep_nrs s" "sch_size (set_epq c q s) = sch_size s"
  "ep_q (set_epq c q s) d = (if d = c then q else ep_q s d)" "set_epq c (ep_q s c) s = s"
  "GetQueueClass m (set_epq c q s) = GetQueueClass m s"
  by (auto simp: set_epq_def GetQueueClass_def)

lemma size_upd [simp]:
  "ep_bag (s\<lparr>sch_size := n\<rparr>) = ep_bag s"
  "GetQueueClass m (s\<lparr>sch_size := n\<rparr>) = GetQueueClass m s"
  by (simp_all add: ep_bag_def GetQueueClass_def)

lemma ep_bag_split:
  "c < ep_num s \<Longrightarrow> ep_bag s = fifo_bag (ep_q s c) + (\<Sum>d\<in>{..<ep_num s} - {c}. fifo_bag (ep_q s d))"
  unfolding ep_bag_def by (rule sum.remove) auto

lemma ep_bag_set: "c < ep_num s \<Longrightarrow> ep_bag (set_epq c q s) + fifo_bag (ep_q s c) = ep_bag s + fifo_bag q"
  using ep_bag_split [of c s] ep_bag_split [of c "set_epq c q s"] by simp

lemma ep_bag_sub: "c < ep_num s \<Longrightarrow> fifo_bag (ep_q s c) \<subseteq># ep_bag s"
  using ep_bag_split [of c s] by simp

lemma ep_bag_empty: "ep_bag s = {#} \<longleftrightarrow> (\<forall>c<ep_num s. fifo_bag (ep_q s c) = {#})"
proof
  show "\<forall>c<ep_num s. fifo_bag (ep_q s c) = {#}" if "ep_bag s = {#}"
    using that ep_bag_split by fastforce
qed (simp add: ep_bag_def)

lemma class_lt: "ep_ok s \<Longrightarrow> GetQueueClass m s < ep_num s"
  by (simp add: ep_ok_def GetQueueClass_def)

definition ep_fits :: "(emsg \<Rightarrow> cfs_time) \<Rightarrow> emsg \<Rightarrow> nrs_epoch \<Rightarrow> bool" where
  "ep_fits clk m s \<longleftrightarrow> Suc (size (ep_bag s)) < 2 ^ 64
     \<and> (case NrsEpoch_Enqueue (clk m) m s of Inl _ \<Rightarrow> False | Inr _ \<Rightarrow> True)"

definition ep_enq :: "(emsg \<Rightarrow> cfs_time) \<Rightarrow> emsg \<Rightarrow> nrs_epoch \<Rightarrow> nrs_epoch" where
  "ep_enq clk m s = (case NrsEpoch_Enqueue (clk m) m s of Inl _ \<Rightarrow> s | Inr s' \<Rightarrow> s')"

lemma ep_enqueue_ok:
  assumes "ep_ok s" "Suc (size (ep_bag s)) < 2 ^ 64" "NrsEpoch_Enqueue clk m s = Inr s'"
  shows "ep_ok s'" "ep_bag s' = add_mset m (ep_bag s)"
    "ep_line c s' = ep_line c s @ (if GetQueueClass m s = c then [m] else [])"
    "GetQueueClass x s' = GetQueueClass x s"
proof -
  define k where "k = GetQueueClass m s"
  define s1 where "s1 = (set_epq k (NrsFifo_Enqueue m (ep_q s k)) s)\<lparr>sch_size := sch_size s + 1\<rparr>"
  have k: "k < ep_num s" using class_lt [OF assms(1)] by (simp add: k_def)
  have b: "ep_bag s1 = add_mset m (ep_bag s)"
    using ep_bag_set [OF k, of "NrsFifo_Enqueue m (ep_q s k)"] by (simp add: s1_def fifo_enq)
  have "fifo_fits m (ep_q s k)"
  proof -
    have "fifo_bag (ep_q s k) \<subseteq># ep_bag s" using k by (rule ep_bag_sub)
    then show ?thesis using assms(2) size_mset_mono by (fastforce simp: fifo_fits_def)
  qed
  then have ok: "ep_ok s1"
    using assms(1,2) k b by (auto simp: ep_ok_def s1_def fifo_enq k_def)
  have r: "(if sch_size s1 = 1 then StartTimer clk s1 else Inr s1) = Inr s'"
    using assms(1,3) by (auto simp: NrsEpoch_Enqueue_def Let_def s1_def k_def ep_ok_def)
  have n: "0 < ep_num s1" "ep_cur s1 < ep_num s1" "ep_nrs s1 = ep_cur s1"
    using ok by (simp_all add: ep_ok_def)
  have q: "same_queues s1 s' \<and> ep_cur s' < ep_num s1 \<and> ep_nrs s' = ep_cur s'"
    using r StartTimer_same [OF _ n] n by (auto simp: same_queues_def split: if_splits)
  then show "ep_ok s'" using same_queues_ok ok by blast
  from q have sq: "same_queues s1 s'" by simp
  show "ep_bag s' = add_mset m (ep_bag s)" using same_queues(1) [OF sq] b by simp
  show "GetQueueClass x s' = GetQueueClass x s" using same_queues(2) [OF sq] by (simp add: s1_def)
  show "ep_line c s' = ep_line c s @ (if GetQueueClass m s = c then [m] else [])"
    using same_queues(3) [OF sq, of c] k by (auto simp: ep_line_def s1_def fifo_enq k_def)
qed

lemma fifo_dequeue_none: "NrsFifo_Dequeue q = (None, q') \<longleftrightarrow> fifo_Q q = [] \<and> q' = q"
  by (auto simp: sched_simps)

lemma epoch_scan_some:
  "epoch_scan n idx s = (Some m, s') \<Longrightarrow> idx < ep_num s \<Longrightarrow>
     \<exists>c q. c < ep_num s \<and> NrsFifo_Dequeue (ep_q s c) = (Some m, q) \<and> s' = set_epq c q s"
  by (induction n idx s rule: epoch_scan.induct)
    (auto simp: fifo_dequeue_none split: if_splits prod.splits option.splits)

lemma epoch_scan_none:
  "epoch_scan n idx s = (None, s') \<Longrightarrow> idx < ep_num s \<Longrightarrow> s' = s
     \<and> (\<forall>k<n. (\<forall>j\<le>k. (idx + j) mod ep_num s \<noteq> ep_cur s) \<longrightarrow> fifo_Q (ep_q s ((idx + k) mod ep_num s)) = [])"
proof (induction n idx s rule: epoch_scan.induct)
  case (2 n idx s)
  show ?case
  proof (cases "idx = ep_cur s")
    case True
    then show ?thesis using "2.prems" by (auto dest: spec [of _ "0::nat"])
  next
    case False
    then have q: "NrsFifo_Dequeue (ep_q s idx) = (None, ep_q s idx)" "fifo_Q (ep_q s idx) = []"
      using "2.prems" by (auto simp: fifo_dequeue_none split: prod.splits option.splits)
    have IH: "s' = s \<and> (\<forall>k<n. (\<forall>j\<le>k. ((idx + 1) mod ep_num s + j) mod ep_num s \<noteq> ep_cur s)
        \<longrightarrow> fifo_Q (ep_q s (((idx + 1) mod ep_num s + k) mod ep_num s)) = [])"
      using "2.IH" [OF False q(1) [symmetric] refl] "2.prems" q False by simp
    have sh: "((idx + 1) mod ep_num s + j) mod ep_num s = (idx + Suc j) mod ep_num s" for j
      by (simp add: mod_simps)
    have "fifo_Q (ep_q s ((idx + k) mod ep_num s)) = []"
      if "k < Suc n" "\<forall>j\<le>k. (idx + j) mod ep_num s \<noteq> ep_cur s" for k
    proof (cases k)
      case 0
      then show ?thesis using q(2) "2.prems"(2) by simp
    next
      case (Suc k')
      then have "\<forall>j\<le>k'. (idx + Suc j) mod ep_num s \<noteq> ep_cur s" using that(2) by (meson Suc_le_mono)
      then show ?thesis using IH Suc that(1) unfolding sh by simp
    qed
    then show ?thesis using IH by blast
  qed
qed simp

text \<open>The scan from the class after the current one meets every other class
  before it comes back.\<close>

lemma scan_reaches:
  fixes c cur n :: nat
  assumes "c < n" "cur < n" "c \<noteq> cur"
  obtains k where "k < n" "((cur + 1) mod n + k) mod n = c"
    "\<forall>j\<le>k. ((cur + 1) mod n + j) mod n \<noteq> cur"
proof -
  define k where "k = (if cur < c then c - cur - 1 else c + n - cur - 1)"
  have k: "k + 1 < n" "cur + 1 + k = (if cur < c then c else c + n)"
    using assms by (auto simp: k_def)
  have "((cur + 1) mod n + k) mod n = (cur + 1 + k) mod n" by (simp add: mod_simps)
  also have "\<dots> = c" using assms(1) unfolding k(2) by simp
  finally have e: "((cur + 1) mod n + k) mod n = c" .
  have "((cur + 1) mod n + j) mod n \<noteq> cur" if "j \<le> k" for j
  proof -
    have "((cur + 1) mod n + j) mod n = (cur + 1 + j) mod n" by (simp add: mod_simps)
    also have "\<dots> = (if cur + 1 + j < n then cur + 1 + j else cur + 1 + j - n)"
      using that k(1) assms(2) by (simp add: mod_if)
    also have "\<dots> \<noteq> cur" using that k(1) by auto
    finally show ?thesis .
  qed
  then have "\<forall>j\<le>k. ((cur + 1) mod n + j) mod n \<noteq> cur" by blast
  then show thesis using that [of k] e k(1) by simp
qed

lemma dequeue_cases:
  assumes "ep_ok s"
  obtains "NrsEpoch_Dequeue s = (None, s)" "ep_bag s = {#}"
  | m c q where "NrsEpoch_Dequeue s = (Some m, (set_epq c q s)\<lparr>sch_size := sch_size s - 1\<rparr>)"
      "c < ep_num s" "NrsFifo_Dequeue (ep_q s c) = (Some m, q)"
      "fifo_Q (ep_q s (ep_cur s)) \<noteq> [] \<Longrightarrow> c = ep_cur s"
proof (cases "ep_bag s = {#}")
  case True
  then have "NrsEpoch_Dequeue s = (None, s)"
    using assms by (simp add: NrsEpoch_Dequeue_def ep_ok_def)
  with True show thesis using that(1) by simp
next
  case False
  then have sz: "sch_size s \<noteq> 0" using assms by (simp add: ep_ok_def of_nat_u64_eq_0)
  have c: "ep_cur s < ep_num s" "ep_nrs s = ep_cur s" using assms by (simp_all add: ep_ok_def)
  show thesis
  proof (cases "fifo_Q (ep_q s (ep_cur s)) = []")
    case False
    then obtain m q where q: "NrsFifo_Dequeue (ep_q s (ep_cur s)) = (Some m, q)" by (auto simp: sched_simps)
    then have "NrsEpoch_Dequeue s = (Some m, (set_epq (ep_cur s) q s)\<lparr>sch_size := sch_size s - 1\<rparr>)"
      using sz c by (simp add: NrsEpoch_Dequeue_def)
    then show thesis using that(2) q c by blast
  next
    case True
    define r where "r = epoch_scan (ep_num s) ((ep_cur s + 1) mod ep_num s) s"
    have d: "NrsEpoch_Dequeue s = (fst r, (snd r)\<lparr>sch_size := sch_size s - 1\<rparr>)"
    proof -
      have "NrsFifo_Dequeue (ep_q s (ep_nrs s)) = (None, ep_q s (ep_nrs s))"
        using True c by (simp add: fifo_dequeue_none)
      then show ?thesis using sz by (simp add: NrsEpoch_Dequeue_def r_def split: prod.splits)
    qed
    have i: "(ep_cur s + 1) mod ep_num s < ep_num s" using c by simp
    show thesis
    proof (cases "fst r")
      case None
      then have "r = (None, snd r)" by (cases r) simp
      note none = epoch_scan_none [OF this [unfolded r_def] i, folded r_def]
      obtain c0 where c0: "c0 < ep_num s" "fifo_bag (ep_q s c0) \<noteq> {#}"
        using False by (auto simp: ep_bag_empty)
      then have "c0 \<noteq> ep_cur s" using True by (auto simp: fifo_bag_def)
      from scan_reaches [OF c0(1) c(1) this] have "fifo_Q (ep_q s c0) = []" using none by metis
      then show thesis using c0(2) by (simp add: fifo_bag_def)
    next
      case (Some m)
      then have "r = (Some m, snd r)" by (cases r) simp
      from epoch_scan_some [OF this [unfolded r_def] i, folded r_def] obtain k q where
        "k < ep_num s" "NrsFifo_Dequeue (ep_q s k) = (Some m, q)" "snd r = set_epq k q s" by auto
      then show thesis using that(2) [of m k q] d Some True by simp
    qed
  qed
qed

lemma ep_dequeue_ok:
  assumes "ep_ok s" "NrsEpoch_Dequeue s = (Some m, s')"
  shows "ep_ok s'" "ep_bag s = add_mset m (ep_bag s')"
    "ep_line c s = (if GetQueueClass m s = c then [m] else []) @ ep_line c s'"
    "GetQueueClass x s' = GetQueueClass x s"
    "ep_line (ep_cur s) s \<noteq> [] \<Longrightarrow> GetQueueClass m s = ep_cur s"
proof -
  obtain k q where d: "s' = (set_epq k q s)\<lparr>sch_size := sch_size s - 1\<rparr>"
      "k < ep_num s" "NrsFifo_Dequeue (ep_q s k) = (Some m, q)"
      "fifo_Q (ep_q s (ep_cur s)) \<noteq> [] \<Longrightarrow> k = ep_cur s"
    using dequeue_cases [OF assms(1)]
  proof cases
    case 1
    then show thesis using assms(2) by simp
  next
    case (2 m1 c1 q1)
    then show thesis using assms(2) that [of c1 q1] by simp
  qed
  have fok: "fifo_ok (ep_q s k)" using assms(1) d(2) by (simp add: ep_ok_def)
  have ne: "fifo_bag (ep_q s k) \<noteq> {#}" using d(3) by (auto simp: sched_simps fifo_bag_def split: if_splits)
  have q: "fifo_ok q" "fifo_bag (ep_q s k) = add_mset m (fifo_bag q)"
    using fifo_deq [OF fok ne] d(3) by auto
  show b: "ep_bag s = add_mset m (ep_bag s')"
    using ep_bag_set [OF d(2), of q] q(2) by (simp add: d(1))
  have "m \<in># fifo_bag (ep_q s k)" using q(2) by simp
  then have g: "GetQueueClass m s = k" using assms(1) d(2) by (auto simp: ep_ok_def)
  show "GetQueueClass x s' = GetQueueClass x s" by (simp add: d(1))
  show "ep_line c s = (if GetQueueClass m s = c then [m] else []) @ ep_line c s'"
    using g d(2) fifo_deq_line [OF d(3)] by (auto simp: ep_line_def d(1))
  have cl: "\<forall>m\<in>#fifo_bag q. GetQueueClass m s = k" using assms(1) d(2) q(2) by (simp add: ep_ok_def)
  have sz: "sch_size s = of_nat (size (ep_bag s))" "size (ep_bag s) < 2 ^ 64" using assms(1) by (simp_all add: ep_ok_def)
  have "sch_size s' = of_nat (size (ep_bag s'))" "size (ep_bag s') < 2 ^ 64"
    using sz unfolding b by (simp_all add: d(1))
  then show "ep_ok s'" using assms(1) q(1) cl unfolding ep_ok_def by (simp add: d(1))
  show "GetQueueClass m s = ep_cur s" if "ep_line (ep_cur s) s \<noteq> []"
    using that d(4) g by (auto simp: ep_line_def fifo_line_def split: if_splits)
qed

text \<open>For a fixed number of classes and clients, the epoch scheduler meets
  the contract of a scheduler by classes between two expiries.\<close>

definition ep_class :: "nat \<Rightarrow> nat \<Rightarrow> emsg \<Rightarrow> nat" where
  "ep_class n cc m = em_cid m div (cc div n) mod n"

definition ep_inv :: "nat \<Rightarrow> nat \<Rightarrow> nrs_epoch \<Rightarrow> bool" where
  "ep_inv n cc s \<longleftrightarrow> ep_ok s \<and> ep_num s = n \<and> ep_ClientCount s = cc"

lemma class_of: "ep_inv n cc s \<Longrightarrow> GetQueueClass m s = ep_class n cc m"
  by (simp add: ep_inv_def GetQueueClass_def ep_class_def)

lemma ep_enqueue_inv:
  assumes "ep_inv n cc s" "Suc (size (ep_bag s)) < 2 ^ 64" "NrsEpoch_Enqueue clk m s = Inr s'"
  shows "ep_inv n cc s'"
proof -
  have ok: "ep_ok s" "ep_num s = n" "ep_ClientCount s = cc" using assms(1) by (simp_all add: ep_inv_def)
  have sw: "ep_num s2 = ep_num s1 \<and> ep_ClientCount s2 = ep_ClientCount s1"
    if "StartTimer clk s1 = Inr s2" for s1 s2
    using that by (auto simp: StartTimer_def SwitchQueue_def ep_ModTimer_def Let_def split: if_splits sum.splits)
  have "ep_num s' = n" "ep_ClientCount s' = cc"
    using assms(3) ok sw by (auto simp: NrsEpoch_Enqueue_def Let_def split: if_splits)
  with ep_enqueue_ok(1) [OF ok(1) assms(2,3)] show ?thesis by (simp add: ep_inv_def)
qed

lemma ep_dequeue_inv:
  assumes "ep_inv n cc s" "NrsEpoch_Dequeue s = (r, s')"
  shows "ep_inv n cc s'"
proof -
  have ok: "ep_ok s" using assms(1) by (simp add: ep_inv_def)
  from dequeue_cases [OF ok] show ?thesis
  proof cases
    case 1
    then show ?thesis using assms by simp
  next
    case (2 m c q)
    then have "NrsEpoch_Dequeue s = (Some m, s')" using assms(2) by simp
    from ep_dequeue_ok(1) [OF ok this] show ?thesis using 2 assms by (auto simp: ep_inv_def)
  qed
qed

lemma dequeue_none: "ep_ok s \<Longrightarrow> NrsEpoch_Dequeue s = (None, s') \<Longrightarrow> s' = s \<and> ep_bag s = {#}"
  by (cases s rule: dequeue_cases) auto

interpretation epoch: class_scheduler "ep_inv n cc" ep_bag "ep_fits clk" "ep_enq clk" NrsEpoch_Dequeue
    "ep_class n cc" ep_line for n cc clk
proof
  fix s e c s'
  show "ep_inv n cc (ep_enq clk e s) \<and> ep_bag (ep_enq clk e s) = add_mset e (ep_bag s)"
    "ep_line c (ep_enq clk e s) = ep_line c s @ (if ep_class n cc e = c then [e] else [])"
    if i: "ep_inv n cc s" and f: "ep_fits clk e s"
  proof -
    from f obtain s1 where s1: "NrsEpoch_Enqueue (clk e) e s = Inr s1" "Suc (size (ep_bag s)) < 2 ^ 64"
      by (auto simp: ep_fits_def split: sum.splits)
    have ok: "ep_ok s" using i by (simp add: ep_inv_def)
    note e = ep_enqueue_ok [OF ok s1(2) s1(1)]
    show "ep_inv n cc (ep_enq clk e s) \<and> ep_bag (ep_enq clk e s) = add_mset e (ep_bag s)"
      using e(2) ep_enqueue_inv [OF i s1(2,1)] s1(1) by (simp add: ep_enq_def)
    show "ep_line c (ep_enq clk e s) = ep_line c s @ (if ep_class n cc e = c then [e] else [])"
      using e(3) [of c] s1(1) class_of [OF i] by (simp add: ep_enq_def)
  qed
  show "\<exists>s'. NrsEpoch_Dequeue s = (None, s') \<and> ep_inv n cc s' \<and> ep_bag s' = {#}"
    if "ep_inv n cc s" "ep_bag s = {#}"
    using that by (intro exI [of _ s]) (auto simp: NrsEpoch_Dequeue_def ep_inv_def ep_ok_def)
  show "\<exists>e s'. NrsEpoch_Dequeue s = (Some e, s') \<and> ep_inv n cc s' \<and> ep_bag s = add_mset e (ep_bag s')"
    if "ep_inv n cc s" "ep_bag s \<noteq> {#}"
  proof -
    have ok: "ep_ok s" using that(1) by (simp add: ep_inv_def)
    have "\<exists>e s'. NrsEpoch_Dequeue s = (Some e, s')"
      by (rule dequeue_cases [OF ok]) (use that(2) in auto)
    then show ?thesis using ep_dequeue_ok(2) [OF ok] ep_dequeue_inv [OF that(1)] by blast
  qed
  show "ep_line c s = (if ep_class n cc e = c then [e] else []) @ ep_line c s'"
    if "ep_inv n cc s" "NrsEpoch_Dequeue s = (Some e, s')"
    using ep_dequeue_ok(3) [OF _ that(2), of c] that(1) class_of [OF that(1)] by (simp add: ep_inv_def)
  show "ep_line c s' = ep_line c s" if "ep_inv n cc s" "NrsEpoch_Dequeue s = (None, s')"
    using dequeue_none that by (auto simp: ep_inv_def)
qed

section \<open>Runs with expiries\<close>

datatype ep_label = In_at cfs_time emsg | Out emsg | Idle | Expire cfs_time

inductive ep_step :: "nrs_epoch \<Rightarrow> ep_label \<Rightarrow> nrs_epoch \<Rightarrow> bool" where
  Enqueue: "Suc (size (ep_bag s)) < 2 ^ 64 \<Longrightarrow> NrsEpoch_Enqueue clk m s = Inr s' \<Longrightarrow> ep_step s (In_at clk m) s'"
| Dequeue: "NrsEpoch_Dequeue s = (Some m, s') \<Longrightarrow> ep_step s (Out m) s'"
| Nothing: "NrsEpoch_Dequeue s = (None, s') \<Longrightarrow> ep_step s Idle s'"
| Timer: "ep_timer s = Some t \<Longrightarrow> TimeSliceExpire t s = Inr s' \<Longrightarrow> ep_step s (Expire t) s'"

inductive ep_run :: "nrs_epoch \<Rightarrow> ep_label list \<Rightarrow> nrs_epoch \<Rightarrow> bool" where
  Start: "ep_run s [] s"
| Next: "ep_run s ls s1 \<Longrightarrow> ep_step s1 l s2 \<Longrightarrow> ep_run s (ls @ [l]) s2"

inductive_cases ep_stepE: "ep_step s l s'"

fun ep_in :: "ep_label list \<Rightarrow> emsg list" where
  "ep_in [] = []"
| "ep_in (In_at t m # ls) = m # ep_in ls"
| "ep_in (_ # ls) = ep_in ls"

fun ep_out :: "ep_label list \<Rightarrow> emsg list" where
  "ep_out [] = []"
| "ep_out (Out m # ls) = m # ep_out ls"
| "ep_out (_ # ls) = ep_out ls"

lemma ep_in_append [simp]: "ep_in (xs @ ys) = ep_in xs @ ep_in ys"
  by (induction xs rule: ep_in.induct) auto

lemma ep_out_append [simp]: "ep_out (xs @ ys) = ep_out xs @ ep_out ys"
  by (induction xs rule: ep_out.induct) auto

lemma expire_inv:
  assumes "ep_inv n cc s" "TimeSliceExpire t s = Inr s'"
  shows "ep_inv n cc s'"
  using assms expire_ok(1) [of s t s']
  by (auto simp: ep_inv_def TimeSliceExpire_def SwitchQueue_def ep_ModTimer_def Let_def split: if_splits)

lemma ep_run_inv:
  assumes "ep_run s ls s'" "ep_inv n cc s" "ep_bag s = {#}"
  shows "ep_inv n cc s' \<and> mset (ep_in ls) = mset (ep_out ls) + ep_bag s'
    \<and> (\<forall>c. filter (\<lambda>m. ep_class n cc m = c) (ep_in ls) = filter (\<lambda>m. ep_class n cc m = c) (ep_out ls) @ ep_line c s')"
  using assms
proof (induction rule: ep_run.induct)
  case (Start s)
  then show ?case by (auto simp: ep_inv_def ep_bag_empty ep_line_def fifo_bag_def fifo_line_def)
next
  case (Next s ls s1 l s2)
  then have IH: "ep_inv n cc s1" "mset (ep_in ls) = mset (ep_out ls) + ep_bag s1"
    "\<And>c. filter (\<lambda>m. ep_class n cc m = c) (ep_in ls) = filter (\<lambda>m. ep_class n cc m = c) (ep_out ls) @ ep_line c s1"
    by simp_all
  then have ok: "ep_ok s1" by (simp add: ep_inv_def)
  from Next.hyps(2) show ?case
  proof cases
    case (Enqueue clk m)
    then show ?thesis using IH ep_enqueue_ok(2,3) [OF ok Enqueue(2,3)] ep_enqueue_inv [OF IH(1) Enqueue(2,3)]
      by (simp add: class_of [OF IH(1)])
  next
    case (Dequeue m)
    then show ?thesis using IH ep_dequeue_ok(2,3) [OF ok Dequeue(2)] ep_dequeue_inv [OF IH(1) Dequeue(2)]
      by (simp add: class_of [OF IH(1)])
  next
    case Nothing
    then show ?thesis using IH dequeue_none [OF ok] by simp
  next
    case (Timer t)
    then show ?thesis using IH expire_ok(2,3) [OF ok Timer(3)] expire_inv [OF IH(1) Timer(3)] by simp
  qed
qed

lemma Init_inv:
  "NrsEpoch_Init stack clk n cc = Some s \<Longrightarrow> cc div n \<noteq> 0 \<Longrightarrow> ep_inv n cc s \<and> ep_bag s = {#}"
  by (auto simp: NrsEpoch_Init_def ep_inv_def ep_ok_def ep_bag_def split: if_splits)

section \<open>Properties\<close>

text \<open>C29 Whatever the order of requests, dequeues and expiries of the time
  slice: no request is lost or repeated, each class of clients is served in
  the order of arrival, the class whose slice it is goes first while it has
  requests, and the scheduler does not idle while any class has one.\<close>

theorem epoch_serves_classes:
  assumes "NrsEpoch_Init stack clk n cc = Some s0" "cc div n \<noteq> 0" "ep_run s0 ls s"
  shows "filter (\<lambda>m. ep_class n cc m = c) (ep_in ls) = filter (\<lambda>m. ep_class n cc m = c) (ep_out ls) @ ep_line c s
    \<and> mset (ep_in ls) = mset (ep_out ls) + ep_bag s
    \<and> (fst (NrsEpoch_Dequeue s) = None \<longleftrightarrow> mset (ep_in ls) = mset (ep_out ls))
    \<and> (ep_line (ep_cur s) s \<noteq> [] \<longrightarrow> fst (NrsEpoch_Dequeue s) = Some (hd (ep_line (ep_cur s) s)))"
proof -
  have i: "ep_inv n cc s" "mset (ep_in ls) = mset (ep_out ls) + ep_bag s"
    "\<And>c. filter (\<lambda>m. ep_class n cc m = c) (ep_in ls) = filter (\<lambda>m. ep_class n cc m = c) (ep_out ls) @ ep_line c s"
    using ep_run_inv [OF assms(3), of n cc] Init_inv [OF assms(1,2)] by simp_all
  then have ok: "ep_ok s" by (simp add: ep_inv_def)
  have "fst (NrsEpoch_Dequeue s) = Some (hd (ep_line (ep_cur s) s))" if "ep_line (ep_cur s) s \<noteq> []"
    using dequeue_cases [OF ok]
  proof cases
    case 1
    then have "fifo_bag (ep_q s (ep_cur s)) = {#}" using ok by (auto simp: ep_bag_empty ep_ok_def)
    then show ?thesis using that by (simp add: ep_line_def fifo_bag_def fifo_line_def split: if_splits)
  next
    case (2 m k q)
    note d = ep_dequeue_ok [OF ok 2(1)]
    then show ?thesis using d(3) [of "ep_cur s"] d(5) [OF that] 2(1) by simp
  qed
  moreover have "fst (NrsEpoch_Dequeue s) = None \<longleftrightarrow> ep_bag s = {#}"
    using dequeue_cases [OF ok]
  proof cases
    case (2 m k q)
    then show ?thesis using ep_dequeue_ok(2) [OF ok 2(1)] by simp
  qed simp
  ultimately show ?thesis using i by auto
qed

lemma epoch_scan_2: "epoch_scan 2 = epoch_scan (Suc (Suc 0))"
  by (simp add: numeral_2_eq_2)

lemmas epoch_eval = epoch_scan_2 NrsEpoch_Init_def NrsEpoch_Enqueue_def NrsEpoch_Dequeue_def TimeSliceExpire_def
  SwitchQueue_def StartTimer_def ep_ModTimer_def GetQueueClass_def set_epq_def epoch_quota_def
  fifo_defs NrsFifo_new_def

text \<open>The first requests of two classes, for the witnesses.\<close>

abbreviation "req_a \<equiv> \<lparr>em_id = 1, em_cid = 0\<rparr>"
abbreviation "req_b \<equiv> \<lparr>em_id = 2, em_cid = 1\<rparr>"

lemma ep_run_one: "ep_step s l s1 \<Longrightarrow> ep_run s [l] s1"
  using ep_run.Next [OF ep_run.Start] by fastforce

theorem epoch_serves_classes_witness:
  "\<exists>s0 s. NrsEpoch_Init (\<lambda>_. 0) 0 2 2 = Some s0 \<and> ep_run s0 [In_at 10 req_b] s
    \<and> ep_line 1 s = [req_b] \<and> ep_bag s = {#req_b#}"
proof -
  obtain s0 where s0: "NrsEpoch_Init (\<lambda>_. 0) 0 2 2 = Some s0" by (simp add: NrsEpoch_Init_def)
  have "ep_bag s0 = {#}" using Init_inv [OF s0] by simp
  moreover have "\<exists>s. NrsEpoch_Enqueue 10 req_b s0 = Inr s"
    using s0 by (auto simp: epoch_eval)
  ultimately obtain s where "NrsEpoch_Enqueue 10 req_b s0 = Inr s" "ep_bag s0 = {#}" by blast
  then have s: "ep_run s0 [In_at 10 req_b] s" by (intro ep_run_one ep_step.Enqueue) simp_all
  then show ?thesis
    using epoch_serves_classes [OF s0 _ s, of 1] s0 by (auto simp: ep_class_def)
qed

text \<open>The time slices stop for good once a slice ends while nothing is
  queued: the timer is not armed again, the flag that says it was stays set,
  and in every run from there the same class keeps the turn.\<close>

theorem epoch_turn_frozen:
  assumes "ep_on s" "ep_timer s = None" "ep_run s ls s'" "ep_ok s"
  shows "ep_cur s' = ep_cur s \<and> ep_timer s' = None \<and> (\<forall>t. Expire t \<notin> set ls)"
proof -
  have "ep_cur s' = ep_cur s \<and> ep_timer s' = None \<and> ep_on s' \<and> (\<forall>t. Expire t \<notin> set ls)
      \<and> ep_ok s'"
    using assms(3,1,2,4)
  proof (induction rule: ep_run.induct)
    case (Next s ls s1 l s2)
    then have IH: "ep_cur s1 = ep_cur s" "ep_timer s1 = None" "ep_on s1" "\<forall>t. Expire t \<notin> set ls" "ep_ok s1"
      by simp_all
    from Next.hyps(2) show ?case
    proof cases
      case (Enqueue clk m)
      then show ?thesis using IH ep_enqueue_ok(1) [OF IH(5) Enqueue(2,3)]
        by (auto simp: NrsEpoch_Enqueue_def Let_def StartTimer_def set_epq_def split: if_splits)
    next
      case (Dequeue m)
      from dequeue_cases [OF IH(5)] have "ep_cur s2 = ep_cur s1 \<and> ep_timer s2 = ep_timer s1 \<and> ep_on s2 = ep_on s1"
        using Dequeue(2) by cases (auto simp: set_epq_def)
      then show ?thesis using IH Dequeue ep_dequeue_ok(1) [OF IH(5) Dequeue(2)] by simp
    next
      case Nothing
      then show ?thesis using IH dequeue_none [OF IH(5)] by simp
    next
      case (Timer t)
      then show ?thesis using IH(2) by simp
    qed
  qed simp
  then show ?thesis by simp
qed

text \<open>The state is reached: one request is served within its slice, the next
  slice runs out while the queues are empty, and the request that comes then
  does not arm the timer.\<close>

theorem epoch_turn_frozen_witness:
  "\<exists>s0 s s'. NrsEpoch_Init (\<lambda>_. 0) 0 2 2 = Some s0
    \<and> ep_run s0 [In_at 10 req_a, Expire 700000000, Out req_a, Expire 1000000000] s
    \<and> ep_run s [In_at 2000000000 req_b] s' \<and> ep_cur s' = 0 \<and> ep_timer s' = None"
proof -
  obtain s0 where s0: "NrsEpoch_Init (\<lambda>_. 0) 0 2 2 = Some s0" by (simp add: NrsEpoch_Init_def)
  obtain s1 where s1: "NrsEpoch_Enqueue 10 req_a s0 = Inr s1" using s0 by (auto simp: epoch_eval)
  have t1: "ep_timer s1 = Some 700000000" using s0 s1 by (auto simp: epoch_eval)
  obtain s2 where s2: "TimeSliceExpire 700000000 s1 = Inr s2" using s0 s1 by (auto simp: epoch_eval)
  have t2: "ep_timer s2 = Some 1000000000" using s0 s1 s2 by (auto simp: epoch_eval)
  obtain s3 where s3: "NrsEpoch_Dequeue s2 = (Some req_a, s3)" using s0 s1 s2 by (auto simp: epoch_eval)
  have t3: "ep_timer s3 = Some 1000000000" using s0 s1 s2 s3 by (auto simp: epoch_eval)
  obtain s4 where s4: "TimeSliceExpire 1000000000 s3 = Inr s4" using s0 s1 s2 s3 by (auto simp: epoch_eval)
  have t4: "ep_timer s4 = None" "ep_on s4" "ep_cur s4 = 0" using s0 s1 s2 s3 s4 by (auto simp: epoch_eval)
  have b0: "ep_ok s0" "ep_bag s0 = {#}" using Init_inv [OF s0] by (simp_all add: ep_inv_def)
  note e1 = ep_enqueue_ok(1,2) [OF b0(1) _ s1, unfolded b0(2), simplified]
  note e2 = expire_ok(1,2) [OF e1(1) s2]
  note e3 = ep_dequeue_ok(1,2) [OF e2(1) s3]
  note e4 = expire_ok(1,2) [OF e3(1) s4]
  have b4: "ep_bag s4 = {#}" using e1 e2 e3 e4 by simp
  have "ep_run s0 [In_at 10 req_a] s1" using s1 b0(2) by (intro ep_run_one ep_step.Enqueue) simp_all
  from ep_run.Next [OF this ep_step.Timer [OF t1 s2]]
  have "ep_run s0 [In_at 10 req_a, Expire 700000000] s2" by simp
  from ep_run.Next [OF this ep_step.Dequeue [OF s3]]
  have "ep_run s0 [In_at 10 req_a, Expire 700000000, Out req_a] s3" by simp
  from ep_run.Next [OF this ep_step.Timer [OF t3 s4]]
  have r: "ep_run s0 [In_at 10 req_a, Expire 700000000, Out req_a, Expire 1000000000] s4" by simp
  obtain s5 where s5: "NrsEpoch_Enqueue 2000000000 req_b s4 = Inr s5"
    using t4 e4(1) b4 by (auto simp: NrsEpoch_Enqueue_def Let_def StartTimer_def set_epq_def ep_ok_def)
  have r5: "ep_run s4 [In_at 2000000000 req_b] s5"
    using s5 b4 by (intro ep_run_one ep_step.Enqueue) simp_all
  from epoch_turn_frozen [OF t4(2,1) r5 e4(1)] show ?thesis using s0 r r5 t4 by metis
qed

end
