(* ===== verification/NrsFrr.thy ===== *)
theory NrsFrr
  imports NrsFifo NrsRbTree "HOL-Library.Log_Nat"
begin

text \<open>
  The file object based round robin scheduler of src/lustre/nrsfrr.h and
  nrsfrr.cpp: per file and command an io_queue (src/lustre/obd.h) ordered by
  offset, a FIFO of the queues that have work, the queue in service with its
  quantum, and the two pairs of deadline queues.  A file and a command name an
  io_queue; FRR_ABSTRACT_NRS is defined, so the code uses the tree \<open>s\<close> of the
  queue.  The deadline that Enqueue writes into an I/O is kept in the state.
\<close>

section \<open>State\<close>

type_synonym io_key = "u64 \<times> nat"

record fmsg =
  fm_id :: nat
  fm_fid :: u64
  fm_cmd :: nat
  fm_off :: u64
  fm_count :: u64
  fm_deadline_flag :: bool
  fm_dynamic :: bool
  fm_mandatory :: bool
  fm_deadline_1 :: bool
  fm_deadline_2 :: bool

definition fm_key :: "fmsg \<Rightarrow> io_key" where
  "fm_key m = (fm_fid m, fm_cmd m)"

record io_queue =
  ioq_nr :: int
  ioq_inited :: bool
  ioq_queued :: bool
  ioq_work :: bool
  ioq_quantum :: int
  ioq_s :: "fmsg nrs_rbtree"

datatype frr_deadline = DL_ONLY | DL_OFF | DL_2L

record nrs_frr = scheduler_base +
  fr_mode :: frr_deadline
  fr_io :: "io_key \<Rightarrow> io_queue"
  fr_Q :: "io_key nrs_fifo"
  fr_wq :: "io_key option"
  fr_mQ :: "fmsg nrs_fifo"
  fr_dQ :: "fmsg nrs_fifo"
  fr_Q1 :: "fmsg nrs_fifo"
  fr_Q2 :: "fmsg nrs_fifo"
  fr_bw :: u64
  fr_num_serviced :: u64
  fr_num_queued :: u64
  fr_io_queued :: u64
  fr_io_serviced :: u64
  fr_deadline :: "nat \<Rightarrow> cfs_time"
  fr_nr_expired :: u64
  fr_nr_dyn_expired :: u64
  fr_nr_mdr_expired :: u64

definition io_queue_new :: io_queue where
  "io_queue_new = \<lparr>ioq_nr = 0, ioq_inited = False, ioq_queued = False, ioq_work = False,
     ioq_quantum = 0, ioq_s = NrsRbtree_new\<rparr>"

definition NrsFRR_new :: "frr_deadline \<Rightarrow> u64 \<Rightarrow> nrs_frr" where
  "NrsFRR_new mode ReadBandwidth =
     \<lparr>sch_size = 0, sch_throttling = False, fr_mode = mode, fr_io = (\<lambda>_. io_queue_new),
      fr_Q = NrsFifo_new, fr_wq = None, fr_mQ = NrsFifo_new, fr_dQ = NrsFifo_new,
      fr_Q1 = NrsFifo_new, fr_Q2 = NrsFifo_new, fr_bw = ReadBandwidth div 2,
      fr_num_serviced = 0, fr_num_queued = 0, fr_io_queued = 0, fr_io_serviced = 0,
      fr_deadline = (\<lambda>_. 0), fr_nr_expired = 0, fr_nr_dyn_expired = 0, fr_nr_mdr_expired = 0\<rparr>"

abbreviation "FRR_QUANTUM \<equiv> 8 :: int"

datatype frr_fault = Bug_same_offset | Null_deref | Assert_failed | Div_by_zero | Nr_overflow | Not_implemented

type_synonym 'a frr_res = "frr_fault + 'a"

definition FRR_CompareByOffset :: "fmsg \<Rightarrow> fmsg \<Rightarrow> int" where
  "FRR_CompareByOffset a b = (if fm_off a > fm_off b then 1 else - 1)"

text \<open>Which fault a comparison of two requests of a queue stops with: the
  search of the tree meets an equal offset when there is one.\<close>

definition FRR_bug_on :: "fmsg \<Rightarrow> fmsg nrs_rbtree \<Rightarrow> bool" where
  "FRR_bug_on m s \<longleftrightarrow> (\<exists>x \<in> set (nrb_line s). fm_off x = fm_off m)"

section \<open>The float product\<close>

text \<open>\<open>(cfs_time_t) (v * coef)\<close> with the float coef = 1.5: the integer is
  rounded to 24 significant bits, to the nearest and then to even, and so is
  the product; the conversion back drops the fraction.\<close>

definition round_even :: "nat \<Rightarrow> nat \<Rightarrow> nat" where
  "round_even k n =
     (let q = n div 2 ^ k; r = n mod 2 ^ k in
      if 2 * r > 2 ^ k \<or> (2 * r = 2 ^ k \<and> odd q) then q + 1 else q)"

definition float24 :: "nat \<Rightarrow> nat" where
  "float24 n = (let k = floorlog 2 n - 24 in round_even k n * 2 ^ k)"

definition coef_15 :: "u64 \<Rightarrow> cfs_time" where
  "coef_15 v = of_nat (float24 (3 * float24 (unat v)) div 2)"

section \<open>The queues of the files\<close>

abbreviation "fr_tree s q \<equiv> ioq_s (fr_io s q)"

definition set_ioq :: "io_key \<Rightarrow> io_queue \<Rightarrow> nrs_frr \<Rightarrow> nrs_frr" where
  "set_ioq q r s = s\<lparr>fr_io := (fr_io s)(q := r)\<rparr>"

text \<open>The count \<open>nr\<close> of a queue is an int: past 2^31 - 1 the increment is
  undefined in the source, here the fault \<open>Nr_overflow\<close>.\<close>

definition FRR_IoEnqueue :: "io_queue \<Rightarrow> fmsg \<Rightarrow> io_queue frr_res" where
  "FRR_IoEnqueue r m =
     (if FRR_bug_on m (ioq_s r) then Inl Bug_same_offset
      else case NrsRbtree_Enqueue FRR_CompareByOffset m (ioq_s r) of
             None \<Rightarrow> Inl Null_deref
           | Some t \<Rightarrow>
               if ioq_nr r + 1 \<ge> 2 ^ 31 then Inl Nr_overflow
               else Inr (r\<lparr>ioq_nr := ioq_nr r + 1, ioq_s := t\<rparr>))"

definition FRR_IoDequeue :: "io_queue \<Rightarrow> (fmsg option \<times> io_queue) frr_res" where
  "FRR_IoDequeue r =
     (if ioq_nr r - 1 < 0 then Inl Assert_failed
      else case NrsRbtree_Dequeue (ioq_s r) of
             None \<Rightarrow> Inl Null_deref
           | Some (m, t) \<Rightarrow> Inr (m, r\<lparr>ioq_nr := ioq_nr r - 1, ioq_s := t\<rparr>))"

definition GetWorkQueue :: "nrs_frr \<Rightarrow> nrs_frr" where
  "GetWorkQueue s =
     (case fr_wq s of Some _ \<Rightarrow> s
      | None \<Rightarrow>
          (case NrsFifo_Dequeue (fr_Q s) of
             (None, Q) \<Rightarrow> s\<lparr>fr_Q := Q, fr_wq := None\<rparr>
           | (Some q, Q) \<Rightarrow>
               (set_ioq q (fr_io s q\<lparr>ioq_queued := False, ioq_work := True, ioq_quantum := FRR_QUANTUM\<rparr>) s)
                 \<lparr>fr_Q := Q, fr_wq := Some q\<rparr>))"

section \<open>Deadlines\<close>

definition FRR_GetDynamicMaxDeadline :: "nrs_frr \<Rightarrow> cfs_time" where
  "FRR_GetDynamicMaxDeadline s =
     (case NrsFifo_Last (fr_dQ s) of None \<Rightarrow> 0 | Some m \<Rightarrow> fr_deadline s (fm_id m))"

abbreviation "io_deadline s m \<equiv> fr_deadline s (fm_id m)"

definition SetIoDeadline :: "u64 \<Rightarrow> cfs_time \<Rightarrow> cfs_time \<Rightarrow> fmsg \<Rightarrow> nrs_frr \<Rightarrow> nrs_frr frr_res" where
  "SetIoDeadline TimeUnit MDLV clk m s =
     (if \<not> (fr_mode s = DL_2L \<and> fm_deadline_flag m) then Inl Assert_failed
      else if fm_dynamic m then
        (if io_deadline s m \<noteq> 0 then Inl Assert_failed
         else if fr_bw s = 0 then Inl Div_by_zero
         else let dl = coef_15 ((fr_io_queued s + fr_io_serviced s) div fr_bw s * TimeUnit) + clk;
                  max_dl = FRR_GetDynamicMaxDeadline (s\<lparr>fr_deadline := (fr_deadline s)(fm_id m := dl)\<rparr>);
                  dl' = (if max_dl > dl then max_dl + 0 else dl)
              in Inr (s\<lparr>fr_deadline := (fr_deadline s)(fm_id m := dl'), fr_dQ := NrsFifo_Enqueue m (fr_dQ s)\<rparr>))
      else if io_deadline s m = 0 \<or> io_deadline s m \<noteq> MDLV then Inl Assert_failed
      else Inr (s\<lparr>fr_deadline := (fr_deadline s)(fm_id m := io_deadline s m + clk),
                  fr_mQ := NrsFifo_Enqueue m (fr_mQ s)\<rparr>))"

definition IoDeadlineEnqueue :: "u64 \<Rightarrow> cfs_time \<Rightarrow> cfs_time \<Rightarrow> fmsg \<Rightarrow> nrs_frr \<Rightarrow> nrs_frr frr_res" where
  "IoDeadlineEnqueue TimeUnit MDLV clk m s =
     (case fr_mode s of
        DL_OFF \<Rightarrow> Inr s
      | DL_ONLY \<Rightarrow>
          if fm_deadline_1 m then Inr (s\<lparr>fr_Q1 := NrsFifo_Enqueue m (fr_Q1 s)\<rparr>)
          else if \<not> fm_deadline_2 m then Inl Assert_failed
          else Inr (s\<lparr>fr_Q2 := NrsFifo_Enqueue m (fr_Q2 s)\<rparr>)
      | DL_2L \<Rightarrow> SetIoDeadline TimeUnit MDLV clk m s)"

text \<open>The tally of a request that is served because of its deadline; the
  queue is dequeued inside an assertion.\<close>

definition FRR_DequeueA :: "fmsg \<Rightarrow> fmsg nrs_fifo \<Rightarrow> nrs_frr \<Rightarrow> (fmsg nrs_fifo \<times> nrs_frr) frr_res" where
  "FRR_DequeueA m q s =
     (case NrsFifo_Dequeue q of
        (None, _) \<Rightarrow> Inl Assert_failed
      | (Some x, q') \<Rightarrow>
          if x \<noteq> m then Inl Assert_failed
          else Inr (q', s\<lparr>fr_nr_expired := fr_nr_expired s + 1,
            fr_nr_mdr_expired := (if fm_mandatory m then fr_nr_mdr_expired s + 1 else fr_nr_mdr_expired s),
            fr_nr_dyn_expired := (if \<not> fm_mandatory m \<and> fm_dynamic m
              then fr_nr_dyn_expired s + 1 else fr_nr_dyn_expired s)\<rparr>))"

datatype pick = Take_1 | Take_2 | Leave_2 | Take_none

text \<open>Which of the two queues Dequeue2QDeadline serves: \<open>Leave_2\<close> is the
  branch that returns the request of the second queue and leaves it there.
  In the last branch but one the code tests the deadline of the second
  request to serve the first.\<close>

definition pick_2Q :: "bool \<Rightarrow> cfs_time \<Rightarrow> fmsg option \<Rightarrow> fmsg option \<Rightarrow> nrs_frr \<Rightarrow> pick frr_res" where
  "pick_2Q tc current m1 m2 s =
     (case m1 of
        None \<Rightarrow>
          (case m2 of
             None \<Rightarrow> Inr Take_none
           | Some b \<Rightarrow>
               if \<not> tc then Inr Leave_2
               else if \<not> fm_deadline_flag b then Inl Assert_failed
               else if io_deadline s b \<le> current then Inr Take_2 else Inr Take_none)
      | Some a \<Rightarrow>
          (case m2 of
             None \<Rightarrow>
               if \<not> tc then Inr Take_1
               else if io_deadline s a \<le> current then Inr Take_1 else Inr Take_none
           | Some b \<Rightarrow>
               if io_deadline s a > io_deadline s b
               then if \<not> tc \<or> (tc \<and> io_deadline s b \<le> current) then Inr Take_2 else Inr Take_none
               else if \<not> tc \<or> (tc \<and> io_deadline s b \<le> current) then Inr Take_1 else Inr Take_none))"

definition Dequeue2QDeadline ::
    "bool \<Rightarrow> cfs_time \<Rightarrow> (fmsg nrs_fifo \<times> fmsg nrs_fifo) \<Rightarrow> nrs_frr
     \<Rightarrow> (fmsg option \<times> (fmsg nrs_fifo \<times> fmsg nrs_fifo) \<times> nrs_frr) frr_res" where
  "Dequeue2QDeadline tc current qs s =
     (let s1 = fst qs; s2 = snd qs; m1 = NrsFifo_First s1; m2 = NrsFifo_First s2 in
      case pick_2Q tc current m1 m2 s of
        Inl f \<Rightarrow> Inl f
      | Inr Take_none \<Rightarrow> Inr (None, (s1, s2), s)
      | Inr Leave_2 \<Rightarrow> Inr (m2, (s1, s2), s)
      | Inr Take_1 \<Rightarrow> (case FRR_DequeueA (the m1) s1 s of Inl f \<Rightarrow> Inl f | Inr (q, s') \<Rightarrow> Inr (m1, (q, s2), s'))
      | Inr Take_2 \<Rightarrow> (case FRR_DequeueA (the m2) s2 s of Inl f \<Rightarrow> Inl f | Inr (q, s') \<Rightarrow> Inr (m2, (s1, q), s')))"

definition IoDeadlineDequeue :: "cfs_time \<Rightarrow> nrs_frr \<Rightarrow> (fmsg option \<times> nrs_frr) frr_res" where
  "IoDeadlineDequeue clk s =
     (case fr_mode s of
        DL_OFF \<Rightarrow> Inr (None, s)
      | DL_ONLY \<Rightarrow> (case Dequeue2QDeadline False clk (fr_Q1 s, fr_Q2 s) s of
                      Inl f \<Rightarrow> Inl f | Inr (m, (q1, q2), s') \<Rightarrow> Inr (m, s'\<lparr>fr_Q1 := q1, fr_Q2 := q2\<rparr>))
      | DL_2L \<Rightarrow> (case Dequeue2QDeadline True clk (fr_dQ s, fr_mQ s) s of
                      Inl f \<Rightarrow> Inl f | Inr (m, (q1, q2), s') \<Rightarrow> Inr (m, s'\<lparr>fr_dQ := q1, fr_mQ := q2\<rparr>)))"

definition RemoveFromDeadlineQueue :: "fmsg \<Rightarrow> nrs_frr \<Rightarrow> nrs_frr frr_res" where
  "RemoveFromDeadlineQueue m s =
     (if fr_mode s \<noteq> DL_2L then Inr s
      else if fm_mandatory m then Inr (s\<lparr>fr_mQ := NrsFifo_Erase m (fr_mQ s)\<rparr>)
      else if \<not> fm_dynamic m then Inl Assert_failed
      else Inr (s\<lparr>fr_dQ := NrsFifo_Erase m (fr_dQ s)\<rparr>))"

section \<open>Enqueue, Dequeue, Finish\<close>

definition frr_arrive :: "fmsg \<Rightarrow> nrs_frr \<Rightarrow> nrs_frr frr_res" where
  "frr_arrive m s =
     (let q = fm_key m;
          r = (if ioq_inited (fr_io s q) then fr_io s q
               else (fr_io s q)\<lparr>ioq_s := NrsRbtree_new, ioq_inited := True\<rparr>) in
      case FRR_IoEnqueue r m of
        Inl f \<Rightarrow> Inl f
      | Inr r' \<Rightarrow>
          if \<not> ioq_queued r' \<and> fr_wq s \<noteq> Some q
          then Inr ((set_ioq q (r'\<lparr>ioq_queued := True\<rparr>) s)\<lparr>fr_Q := NrsFifo_Enqueue q (fr_Q s)\<rparr>)
          else Inr (set_ioq q r' s))"

definition NrsFRR_Enqueue :: "u64 \<Rightarrow> cfs_time \<Rightarrow> cfs_time \<Rightarrow> fmsg \<Rightarrow> nrs_frr \<Rightarrow> nrs_frr frr_res" where
  "NrsFRR_Enqueue TimeUnit MDLV clk m s =
     (case (if fr_mode s = DL_ONLY then Inr s else frr_arrive m s) of
        Inl f \<Rightarrow> Inl f
      | Inr s1 \<Rightarrow>
          (case IoDeadlineEnqueue TimeUnit MDLV clk m
                  (s1\<lparr>fr_num_queued := fr_num_queued s1 + 1, fr_io_queued := fr_io_queued s1 + fm_count m\<rparr>) of
             Inl f \<Rightarrow> Inl f
           | Inr s2 \<Rightarrow> Inr (s2\<lparr>sch_size := sch_size s2 + 1\<rparr>)))"

definition frr_stat :: "fmsg \<Rightarrow> nrs_frr \<Rightarrow> nrs_frr frr_res" where
  "frr_stat m s =
     (let s1 = s\<lparr>fr_num_queued := fr_num_queued s - 1, fr_num_serviced := fr_num_serviced s + 1,
                 fr_io_queued := fr_io_queued s - fm_count m, fr_io_serviced := fr_io_serviced s + fm_count m,
                 sch_size := sch_size s - 1\<rparr>
      in if sch_size s1 = 0 \<and> fr_mode s1 = DL_2L
            \<and> \<not> (Scheduler_Empty (fr_mQ s1) \<and> Scheduler_Empty (fr_dQ s1) \<and> fr_num_queued s1 = 0)
         then Inl Assert_failed else Inr s1)"

text \<open>A request whose deadline is over leaves its file's queue. When that
  queue becomes empty it leaves Q, but its flag IO_QUEUE_QUEUED stays.\<close>

definition frr_expired :: "fmsg \<Rightarrow> nrs_frr \<Rightarrow> nrs_frr frr_res" where
  "frr_expired m s =
     (let q = fm_key m; r = fr_io s q in
      if \<not> ioq_nr r > 0 then Inl Assert_failed
      else case NrsRbtree_Erase m (ioq_s r) of
             None \<Rightarrow> Inl Null_deref
           | Some t \<Rightarrow>
               let r' = r\<lparr>ioq_s := t, ioq_nr := ioq_nr r - 1\<rparr>;
                   s1 = set_ioq q r' s
               in if ioq_nr r' = 0
                  then Inr (s1\<lparr>fr_wq := (if fr_wq s = Some q then None else fr_wq s),
                               fr_Q := (if ioq_queued r' then NrsFifo_Erase q (fr_Q s) else fr_Q s)\<rparr>)
                  else Inr s1)"

text \<open>The request at the head of the work queue, and what becomes of the
  work queue.\<close>

definition frr_serve :: "io_key \<Rightarrow> nrs_frr \<Rightarrow> (fmsg \<times> nrs_frr) frr_res" where
  "frr_serve w s =
     (case FRR_IoDequeue (fr_io s w) of
        Inl f \<Rightarrow> Inl f
      | Inr (None, _) \<Rightarrow> Inl Assert_failed
      | Inr (Some m, r) \<Rightarrow>
          let r' = r\<lparr>ioq_quantum := ioq_quantum r - 1\<rparr> in
          Inr (m,
            if ioq_nr r' = 0 then (set_ioq w r' s)\<lparr>fr_wq := None\<rparr>
            else if ioq_quantum r' = 0
            then (set_ioq w (r'\<lparr>ioq_work := False, ioq_queued := True\<rparr>) s)
                   \<lparr>fr_Q := NrsFifo_Enqueue w (fr_Q s), fr_wq := None\<rparr>
            else set_ioq w r' s))"

definition NrsFRR_Dequeue :: "cfs_time \<Rightarrow> nrs_frr \<Rightarrow> (fmsg option \<times> nrs_frr) frr_res" where
  "NrsFRR_Dequeue clk s =
     (case IoDeadlineDequeue clk s of
        Inl f \<Rightarrow> Inl f
      | Inr (m, s1) \<Rightarrow>
          if fr_mode s = DL_ONLY then Inr (m, s1)
          else case m of
            Some x \<Rightarrow> (case frr_expired x s1 of
                Inl f \<Rightarrow> Inl f
              | Inr s2 \<Rightarrow> (case frr_stat x s2 of Inl f \<Rightarrow> Inl f | Inr s3 \<Rightarrow> Inr (Some x, s3)))
          | None \<Rightarrow>
              let s2 = GetWorkQueue s1 in
              (case fr_wq s2 of
                 None \<Rightarrow> Inr (None, s2)
               | Some w \<Rightarrow>
                   (case frr_serve w s2 of
                      Inl f \<Rightarrow> Inl f
                    | Inr (x, s3) \<Rightarrow>
                        (case RemoveFromDeadlineQueue x s3 of
                           Inl f \<Rightarrow> Inl f
                         | Inr s4 \<Rightarrow> (case frr_stat x s4 of Inl f \<Rightarrow> Inl f | Inr s5 \<Rightarrow> Inr (Some x, s5))))))"

definition NrsFRR_Requeue :: "fmsg \<Rightarrow> nrs_frr \<Rightarrow> nrs_frr frr_res" where
  "NrsFRR_Requeue m s = Inl Not_implemented"

definition NrsFRR_Erase :: "fmsg \<Rightarrow> nrs_frr \<Rightarrow> nrs_frr frr_res" where
  "NrsFRR_Erase m s = Inl Not_implemented"

definition NrsFRR_Finish :: "fmsg \<Rightarrow> nrs_frr \<Rightarrow> nrs_frr" where
  "NrsFRR_Finish m s = s\<lparr>fr_num_serviced := fr_num_serviced s - 1,
     fr_io_serviced := fr_io_serviced s - fm_count m\<rparr>"

section \<open>The invariant, without deadlines\<close>

definition fr_line :: "io_key \<Rightarrow> nrs_frr \<Rightarrow> fmsg list" where
  "fr_line q s = nrb_line (fr_tree s q)"

definition fr_keys :: "nrs_frr \<Rightarrow> io_key set" where
  "fr_keys s = set (fifo_Q (fr_Q s)) \<union> set_option (fr_wq s)"

definition fr_bag :: "nrs_frr \<Rightarrow> fmsg multiset" where
  "fr_bag s = (\<Sum>q\<in>fr_keys s. mset (fr_line q s))"

text \<open>One queue of a file: its tree, its count, its flags.\<close>

definition ioq_ok :: "io_key \<Rightarrow> nrs_frr \<Rightarrow> bool" where
  "ioq_ok q s \<longleftrightarrow> nrb_ok fm_off (fr_tree s q) \<and> ioq_nr (fr_io s q) = int (length (fr_line q s))
     \<and> (\<forall>m \<in> set (fr_line q s). fm_key m = q) \<and> (ioq_inited (fr_io s q) \<or> fr_line q s = [])
     \<and> (ioq_queued (fr_io s q) \<longleftrightarrow> q \<in> set (fifo_Q (fr_Q s)))
     \<and> (fr_line q s \<noteq> [] \<longleftrightarrow> q \<in> fr_keys s)"

definition frr_core :: "nrs_frr \<Rightarrow> bool" where
  "frr_core s \<longleftrightarrow> fr_mode s = DL_OFF \<and> fifo_ok (fr_Q s) \<and> distinct (fifo_Q (fr_Q s))
     \<and> (\<forall>q. ioq_ok q s) \<and> size (fr_bag s) < 2 ^ 64
     \<and> (\<forall>w. fr_wq s = Some w \<longrightarrow> w \<notin> set (fifo_Q (fr_Q s)) \<and> 1 \<le> ioq_quantum (fr_io s w) \<and> ioq_quantum (fr_io s w) \<le> 8)"

lemma frr_coreI:
  assumes "fr_mode s = DL_OFF" "fifo_ok (fr_Q s)" "distinct (fifo_Q (fr_Q s))" "\<And>q. ioq_ok q s"
    "size (fr_bag s) < 2 ^ 64"
    "\<And>w. fr_wq s = Some w \<Longrightarrow> w \<notin> set (fifo_Q (fr_Q s)) \<and> 1 \<le> ioq_quantum (fr_io s w) \<and> ioq_quantum (fr_io s w) \<le> 8"
  shows "frr_core s"
  unfolding frr_core_def using assms by blast

lemma frr_coreD:
  assumes "frr_core s"
  shows "fr_mode s = DL_OFF" "fifo_ok (fr_Q s)" "distinct (fifo_Q (fr_Q s))" "ioq_ok q s" "size (fr_bag s) < 2 ^ 64"
    "fr_wq s = Some w \<Longrightarrow> w \<notin> set (fifo_Q (fr_Q s))"
    "fr_wq s = Some w \<Longrightarrow> 1 \<le> ioq_quantum (fr_io s w)"
    "fr_wq s = Some w \<Longrightarrow> ioq_quantum (fr_io s w) \<le> 8"
  using assms unfolding frr_core_def by blast+

definition frr_ok :: "nrs_frr \<Rightarrow> bool" where
  "frr_ok s \<longleftrightarrow> frr_core s \<and> sch_size s = of_nat (size (fr_bag s))"

text \<open>A request that the queues can take: the counts, of which \<open>nr\<close> is an
  int, do not overflow, and no request of the same file and command is queued
  with the same offset (the BUG_ON of CompareByOffset).\<close>

definition frr_fits :: "fmsg \<Rightarrow> nrs_frr \<Rightarrow> bool" where
  "frr_fits m s \<longleftrightarrow> Suc (size (fr_bag s)) < 2 ^ 31
     \<and> (\<forall>x \<in> set (fr_line (fm_key m) s). fm_off x \<noteq> fm_off m)"

lemma frr_new_fields [simp]:
  "fr_mode (NrsFRR_new mode bw) = mode" "fr_io (NrsFRR_new mode bw) q = io_queue_new"
  "fr_Q (NrsFRR_new mode bw) = NrsFifo_new" "fr_wq (NrsFRR_new mode bw) = None"
  "sch_size (NrsFRR_new mode bw) = 0" "fifo_Q NrsFifo_new = []"
  by (simp_all add: NrsFRR_new_def NrsFifo_new_def)

lemma frr_ok_new: "frr_ok (NrsFRR_new DL_OFF bw)" "fr_bag (NrsFRR_new DL_OFF bw) = {#}"
proof -
  have k: "fr_keys (NrsFRR_new DL_OFF bw) = {}" by (simp add: fr_keys_def)
  then show b: "fr_bag (NrsFRR_new DL_OFF bw) = {#}" by (simp add: fr_bag_def)
  have "ioq_ok q (NrsFRR_new DL_OFF bw)" for q
    using k by (simp add: ioq_ok_def fr_line_def io_queue_new_def)
  then show "frr_ok (NrsFRR_new DL_OFF bw)" using b by (simp add: frr_ok_def frr_core_def del: split_paired_All)
qed

lemma fr_keys_finite [simp]: "finite (fr_keys s)"
  by (simp add: fr_keys_def)

lemma fr_bag_split:
  assumes "ioq_ok q s"
  shows "fr_bag s = mset (fr_line q s) + (\<Sum>p\<in>fr_keys s - {q}. mset (fr_line p s))"
proof (cases "q \<in> fr_keys s")
  case True
  then show ?thesis unfolding fr_bag_def by (simp add: sum.remove)
next
  case False
  then have "fr_line q s = []" "fr_keys s - {q} = fr_keys s" using assms by (auto simp: ioq_ok_def)
  then show ?thesis unfolding fr_bag_def by simp
qed

text \<open>A step that changes the line of one queue only.\<close>

lemma fr_bag_change:
  assumes "ioq_ok q s" "ioq_ok q s'" "fr_keys s' - {q} = fr_keys s - {q}"
    "\<And>p. p \<noteq> q \<Longrightarrow> fr_line p s' = fr_line p s"
  shows "fr_bag s' + mset (fr_line q s) = fr_bag s + mset (fr_line q s')"
proof -
  have "(\<Sum>p\<in>fr_keys s' - {q}. mset (fr_line p s')) = (\<Sum>p\<in>fr_keys s - {q}. mset (fr_line p s))"
    unfolding assms(3) by (rule sum.cong) (auto simp: assms(4))
  then show ?thesis using fr_bag_split [OF assms(1)] fr_bag_split [OF assms(2)] by (simp add: ac_simps)
qed

lemma size_sum_mset: "finite A \<Longrightarrow> size (\<Sum>a\<in>A. f a :: 'b multiset) = (\<Sum>a\<in>A. size (f a))"
  by (induction A rule: finite_induct) auto

lemma keys_le_bag:
  assumes "\<And>q. ioq_ok q s"
  shows "card (fr_keys s) \<le> size (fr_bag s)"
proof -
  have "1 \<le> size (mset (fr_line q s))" if "q \<in> fr_keys s" for q
    using assms [of q] that by (simp add: ioq_ok_def Suc_le_eq)
  then have "(\<Sum>q\<in>fr_keys s. 1) \<le> (\<Sum>q\<in>fr_keys s. size (mset (fr_line q s)))" by (rule sum_mono)
  then show ?thesis by (simp add: fr_bag_def size_sum_mset)
qed

lemma queue_fits:
  assumes "frr_core s" "q \<notin> set (fifo_Q (fr_Q s))" "q \<in> fr_keys s \<or> Suc (size (fr_bag s)) < 2 ^ 64"
  shows "fifo_fits p (fr_Q s)"
proof -
  have c: "\<And>q. ioq_ok q s" "distinct (fifo_Q (fr_Q s))" "size (fr_bag s) < 2 ^ 64"
    using frr_coreD [OF assms(1)] by blast+
  have l: "length (fifo_Q (fr_Q s)) = card (set (fifo_Q (fr_Q s)))"
    using c(2) by (simp add: distinct_card)
  have "Suc (length (fifo_Q (fr_Q s))) \<le> card (fr_keys s)" if "q \<in> fr_keys s"
  proof -
    have "insert q (set (fifo_Q (fr_Q s))) \<subseteq> fr_keys s" using that by (auto simp: fr_keys_def)
    then have "card (insert q (set (fifo_Q (fr_Q s)))) \<le> card (fr_keys s)" by (rule card_mono [rotated]) simp
    then show ?thesis using assms(2) l by simp
  qed
  moreover have "length (fifo_Q (fr_Q s)) \<le> card (fr_keys s)"
    unfolding l by (rule card_mono) (auto simp: fr_keys_def)
  ultimately show ?thesis
    using assms(3) keys_le_bag [OF c(1)] c(3) by (auto simp: fifo_fits_def fifo_bag_def)
qed

section \<open>Enqueue\<close>

lemma by_offset: "by_rank FRR_CompareByOffset fm_off"
  unfolding by_rank_def FRR_CompareByOffset_def by auto

text \<open>What an io_queue looks like after a request was put into it.\<close>

lemma IoEnqueue_law:
  assumes "nrb_ok fm_off (ioq_s r)" "\<forall>x \<in> set (nrb_line (ioq_s r)). fm_off x \<noteq> fm_off m"
    "Suc (length (nrb_line (ioq_s r))) < 2 ^ 31" "ioq_nr r = int (length (nrb_line (ioq_s r)))"
  obtains t where "FRR_IoEnqueue r m = Inr (r\<lparr>ioq_nr := ioq_nr r + 1, ioq_s := t\<rparr>)"
    "nrb_ok fm_off t" "mset (nrb_line t) = add_mset m (mset (nrb_line (ioq_s r)))"
proof -
  have "nrb_fits m (ioq_s r)" using assms(2,3) by (auto simp: nrb_fits_def nrb_bag_def)
  from nrb_enqueue [OF by_offset assms(1) this] obtain t where
    "NrsRbtree_Enqueue FRR_CompareByOffset m (ioq_s r) = Some t" "nrb_ok fm_off t"
    "nrb_bag t = add_mset m (nrb_bag (ioq_s r))" by blast
  then show thesis using that [of t] assms(2-4) by (simp add: FRR_IoEnqueue_def FRR_bug_on_def nrb_bag_def)
qed

lemma arrive_law:
  assumes "frr_core s" "frr_fits m s"
  obtains s' where "frr_arrive m s = Inr s'" "frr_core s'" "fr_bag s' = add_mset m (fr_bag s)"
    "sch_size s' = sch_size s" "fr_wq s' = fr_wq s"
    "fifo_line (fr_Q s') = fifo_line (fr_Q s) @ (if fm_key m \<in> fr_keys s then [] else [fm_key m])"
    "\<And>w. ioq_quantum (fr_io s' w) = ioq_quantum (fr_io s w)"
proof -
  define q where "q = fm_key m"
  define r where "r = (if ioq_inited (fr_io s q) then fr_io s q
               else (fr_io s q)\<lparr>ioq_s := NrsRbtree_new, ioq_inited := True\<rparr>)"
  have c: "\<And>q. ioq_ok q s" "fifo_ok (fr_Q s)" "distinct (fifo_Q (fr_Q s))" "size (fr_bag s) < 2 ^ 64"
    using frr_coreD [OF assms(1)] by blast+
  have r: "nrb_ok fm_off (ioq_s r)" "nrb_line (ioq_s r) = fr_line q s" "ioq_nr r = ioq_nr (fr_io s q)"
     "ioq_queued r = ioq_queued (fr_io s q)" "ioq_inited r" "ioq_quantum r = ioq_quantum (fr_io s q)"
    using c(1) [of q] by (auto simp: r_def ioq_ok_def fr_line_def)
  have "length (fr_line q s) \<le> size (fr_bag s)" using fr_bag_split [OF c(1) [of q]] by simp
  then have "Suc (length (nrb_line (ioq_s r))) < 2 ^ 31" using assms(2) r(2) by (simp add: frr_fits_def)
  moreover have "\<forall>x \<in> set (nrb_line (ioq_s r)). fm_off x \<noteq> fm_off m"
    using assms(2) r(2) by (simp add: frr_fits_def q_def)
  moreover have "ioq_nr r = int (length (nrb_line (ioq_s r)))"
    using c(1) [of q] r(2,3) by (simp add: ioq_ok_def)
  ultimately obtain t where t: "FRR_IoEnqueue r m = Inr (r\<lparr>ioq_nr := ioq_nr r + 1, ioq_s := t\<rparr>)"
    "nrb_ok fm_off t" "mset (nrb_line t) = add_mset m (mset (nrb_line (ioq_s r)))"
    using IoEnqueue_law [OF r(1)] by blast
  have t2: "set (nrb_line t) = insert m (set (fr_line q s))" "length (nrb_line t) = Suc (length (fr_line q s))"
    using t(3) r(2) by (metis set_mset_mset set_mset_add_mset_insert) (metis t(3) r(2) size_mset size_add_mset)
  define s' where "s' = (if \<not> ioq_queued r \<and> fr_wq s \<noteq> Some q
     then (set_ioq q (r\<lparr>ioq_nr := ioq_nr r + 1, ioq_s := t, ioq_queued := True\<rparr>) s)\<lparr>fr_Q := NrsFifo_Enqueue q (fr_Q s)\<rparr>
     else set_ioq q (r\<lparr>ioq_nr := ioq_nr r + 1, ioq_s := t\<rparr>) s)"
  have e: "frr_arrive m s = Inr s'"
    using t(1) unfolding frr_arrive_def Let_def q_def [symmetric] r_def [symmetric] s'_def by simp
  have qk: "ioq_queued r \<or> fr_wq s = Some q \<longleftrightarrow> q \<in> fr_keys s"
    using c(1) [of q] r(4) by (auto simp: ioq_ok_def fr_keys_def)
  have k: "fr_keys s' = insert q (fr_keys s)"
    using qk by (auto simp: s'_def set_ioq_def fr_keys_def fifo_defs)
  have l: "fr_line p s' = (if p = q then nrb_line t else fr_line p s)" for p
    by (simp add: s'_def set_ioq_def fr_line_def)
  have ok: "ioq_ok p s'" for p
  proof (cases "p = q")
    case True
    have "ioq_queued (fr_io s' q) \<longleftrightarrow> q \<in> set (fifo_Q (fr_Q s'))"
      using c(1) [of q] r(4) by (auto simp: s'_def set_ioq_def fifo_defs ioq_ok_def)
    moreover have "ioq_nr (fr_io s' q) = ioq_nr r + 1" "fr_tree s' q = t" "ioq_inited (fr_io s' q)"
      using r(5) by (simp_all add: s'_def set_ioq_def)
    moreover have "fr_line q s' \<noteq> []" using l t2(2) by auto
    moreover have "fm_key m = q" by (simp add: q_def)
    ultimately show ?thesis using True l c(1) [of q] t(2) t2 r(3) k by (auto simp: ioq_ok_def)
  next
    case False
    then show ?thesis using c(1) [of p] l k
      by (auto simp: ioq_ok_def s'_def set_ioq_def fifo_defs)
  qed
  have "fr_bag s' + mset (fr_line q s) = fr_bag s + mset (fr_line q s')"
    using fr_bag_change [OF c(1) ok, of q] k l by auto
  then have b: "fr_bag s' = add_mset m (fr_bag s)" using t(3) r(2) l by simp
  have fq: "fifo_ok (fr_Q s')" "distinct (fifo_Q (fr_Q s'))"
  proof -
    have "fifo_fits q (fr_Q s)" if "q \<notin> fr_keys s"
      using queue_fits [OF assms(1), of q] that assms(2) by (auto simp: frr_fits_def fr_keys_def)
    then show "fifo_ok (fr_Q s')" using c(2) qk by (auto simp: s'_def set_ioq_def fifo_enq)
    show "distinct (fifo_Q (fr_Q s'))"
      using c(3) qk by (auto simp: s'_def set_ioq_def fifo_defs fr_keys_def)
  qed
  have w: "fr_wq s' = fr_wq s" "sch_size s' = sch_size s" "fr_mode s' = fr_mode s"
    unfolding s'_def set_ioq_def by (cases s; simp)+
  have qu: "ioq_quantum (fr_io s' p) = ioq_quantum (fr_io s p)" for p
    using r(6) by (simp add: s'_def set_ioq_def)
  have "frr_core s'"
  proof (rule frr_coreI)
    show "fr_mode s' = DL_OFF" using frr_coreD(1) [OF assms(1)] w by simp
    show "size (fr_bag s') < 2 ^ 64" using b assms(2) by (simp add: frr_fits_def)
    show "x \<notin> set (fifo_Q (fr_Q s')) \<and> 1 \<le> ioq_quantum (fr_io s' x) \<and> ioq_quantum (fr_io s' x) \<le> 8"
      if "fr_wq s' = Some x" for x
    proof -
      have x: "fr_wq s = Some x" using that w(1) by simp
      note y = frr_coreD(6-8) [OF assms(1) x]
      have "x \<notin> set (fifo_Q (fr_Q s'))" using y(1) x by (auto simp: s'_def set_ioq_def fifo_defs)
      with y show ?thesis unfolding qu by blast
    qed
  qed (rule fq ok)+
  moreover have "fifo_line (fr_Q s') = fifo_line (fr_Q s) @ (if fm_key m \<in> fr_keys s then [] else [fm_key m])"
    using qk unfolding q_def [symmetric] by (auto simp: s'_def set_ioq_def fifo_enq)
  ultimately show thesis using that [OF e] b w qu by blast
qed

section \<open>Dequeue\<close>

lemma GetWorkQueue_law:
  assumes "frr_core s"
  obtains "fr_keys s = {}" "GetWorkQueue s = s" "fr_wq s = None"
  | w s' where "GetWorkQueue s = s'" "frr_core s'" "fr_wq s' = Some w" "fr_bag s' = fr_bag s"
      "sch_size s' = sch_size s" "\<And>q. fr_line q s' = fr_line q s" "fr_keys s' = fr_keys s"
      "s' = s \<or> (fr_wq s = None \<and> fifo_line (fr_Q s) = w # fifo_line (fr_Q s') \<and> ioq_quantum (fr_io s' w) = 8)"
proof (cases "fr_wq s")
  case (Some w)
  then show thesis using that(2) [of s w] assms by (simp add: GetWorkQueue_def)
next
  case None
  note c = frr_coreD [OF assms]
  show thesis
  proof (cases "fifo_Q (fr_Q s)" rule: rev_cases)
    case Nil
    then have "GetWorkQueue s = s" using None by (simp add: GetWorkQueue_def fifo_defs)
    then show thesis using that(1) None Nil by (simp add: fr_keys_def)
  next
    case (snoc xs w)
    define Q where "Q = (fr_Q s)\<lparr>fifo_Q := xs, sch_size := sch_size (fr_Q s) - 1\<rparr>"
    have dq: "NrsFifo_Dequeue (fr_Q s) = (Some w, Q)" using snoc by (simp add: fifo_defs Q_def)
    have "fifo_bag (fr_Q s) \<noteq> {#}" using snoc by (simp add: fifo_bag_def)
    from fifo_deq [OF c(2) this] have Q: "fifo_ok Q" using dq by auto
    define s' where "s' = (set_ioq w (fr_io s w\<lparr>ioq_queued := False, ioq_work := True, ioq_quantum := FRR_QUANTUM\<rparr>) s)
                 \<lparr>fr_Q := Q, fr_wq := Some w\<rparr>"
    have e: "GetWorkQueue s = s'" using None dq by (simp add: GetWorkQueue_def s'_def)
    have k: "fr_keys s' = fr_keys s" using None snoc by (auto simp: s'_def fr_keys_def Q_def)
    have l: "fr_line q s' = fr_line q s" for q by (simp add: s'_def set_ioq_def fr_line_def)
    have b: "fr_bag s' = fr_bag s" by (simp add: fr_bag_def k l)
    have d: "distinct xs" "w \<notin> set xs" using c(3) snoc by simp_all
    have ok: "ioq_ok q s'" for q
      using c(4) [of q] d(2) unfolding ioq_ok_def l k
      by (auto simp: s'_def set_ioq_def fr_line_def Q_def snoc)
    have sz: "sch_size s' = sch_size s" unfolding s'_def set_ioq_def by (cases s) simp
    have "frr_core s'"
    proof (rule frr_coreI)
      show "fr_mode s' = DL_OFF" using c(1) by (simp add: s'_def set_ioq_def)
      show "distinct (fifo_Q (fr_Q s'))" using d by (simp add: s'_def Q_def)
    qed (use Q c(5) b ok d(2) in \<open>auto simp: s'_def set_ioq_def Q_def\<close>)
    then show thesis
      using that(2) [OF e, of w] b sz l k None fifo_deq_line [OF dq] by (simp add: s'_def set_ioq_def)
  qed
qed

lemma IoDequeue_law:
  assumes "nrb_ok fm_off (ioq_s r)" "ioq_nr r = int (length (nrb_line (ioq_s r)))" "nrb_line (ioq_s r) \<noteq> []"
  obtains m t where "FRR_IoDequeue r = Inr (Some m, r\<lparr>ioq_nr := ioq_nr r - 1, ioq_s := t\<rparr>)"
    "nrb_ok fm_off t" "nrb_line (ioq_s r) = m # nrb_line t"
proof -
  have "nrb_bag (ioq_s r) \<noteq> {#}" using assms(3) by (simp add: nrb_bag_def)
  from nrb_dequeue [OF assms(1) this] obtain m t where
    "NrsRbtree_Dequeue (ioq_s r) = Some (Some m, t)" "nrb_ok fm_off t" "nrb_line (ioq_s r) = m # nrb_line t"
    by blast
  then show thesis using that [of m t] assms(2) by (simp add: FRR_IoDequeue_def)
qed

lemma serve_law:
  assumes "frr_core s" "fr_wq s = Some w"
  obtains m s' where "frr_serve w s = Inr (m, s')" "frr_core s'" "fr_line w s = m # fr_line w s'"
    "fr_bag s = add_mset m (fr_bag s')" "sch_size s' = sch_size s" "fm_key m = w"
    "\<And>q. q \<noteq> w \<Longrightarrow> fr_line q s' = fr_line q s"
    "(fr_wq s' = None \<and> fifo_line (fr_Q s') = fifo_line (fr_Q s) \<and> fr_line w s' = [])
     \<or> (fr_wq s' = None \<and> fifo_line (fr_Q s') = fifo_line (fr_Q s) @ [w])
     \<or> (fr_wq s' = Some w \<and> fr_Q s' = fr_Q s \<and> ioq_quantum (fr_io s' w) = ioq_quantum (fr_io s w) - 1)"
proof -
  note c = frr_coreD [OF assms(1)]
  note cw = c(6-8) [OF assms(2)]
  have wk: "w \<in> fr_keys s" using assms(2) by (simp add: fr_keys_def)
  have ne: "fr_line w s \<noteq> []" using c(4) [of w] wk by (simp add: ioq_ok_def)
  have r: "nrb_ok fm_off (fr_tree s w)" "ioq_nr (fr_io s w) = int (length (nrb_line (fr_tree s w)))"
    "nrb_line (fr_tree s w) \<noteq> []" "\<forall>m \<in> set (fr_line w s). fm_key m = w" "\<not> ioq_queued (fr_io s w)"
    using c(4) [of w] ne cw(1) by (simp_all add: ioq_ok_def fr_line_def)
  obtain m t where t: "FRR_IoDequeue (fr_io s w) = Inr (Some m, (fr_io s w)\<lparr>ioq_nr := ioq_nr (fr_io s w) - 1, ioq_s := t\<rparr>)"
    "nrb_ok fm_off t" "nrb_line (fr_tree s w) = m # nrb_line t"
    using IoDequeue_law [OF r(1-3)] .
  define r' where "r' = (fr_io s w)\<lparr>ioq_nr := ioq_nr (fr_io s w) - 1, ioq_s := t, ioq_quantum := ioq_quantum (fr_io s w) - 1\<rparr>"
  define s' where "s' = (if ioq_nr r' = 0 then (set_ioq w r' s)\<lparr>fr_wq := None\<rparr>
            else if ioq_quantum r' = 0
            then (set_ioq w (r'\<lparr>ioq_work := False, ioq_queued := True\<rparr>) s)
                   \<lparr>fr_Q := NrsFifo_Enqueue w (fr_Q s), fr_wq := None\<rparr>
            else set_ioq w r' s)"
  have e: "frr_serve w s = Inr (m, s')"
    unfolding frr_serve_def t(1) Let_def s'_def r'_def by simp
  have nr: "ioq_nr r' = int (length (nrb_line t))" using r(2) t(3) by (simp add: r'_def)
  have l: "fr_line q s' = (if q = w then nrb_line t else fr_line q s)" for q
    by (simp add: s'_def set_ioq_def fr_line_def r'_def)
  have lw: "fr_line w s = m # fr_line w s'" using t(3) l by (simp add: fr_line_def)
  have k: "fr_keys s' - {w} = fr_keys s - {w}" "w \<in> fr_keys s' \<longleftrightarrow> nrb_line t \<noteq> []"
    using assms(2) cw(1) nr by (auto simp: s'_def set_ioq_def fr_keys_def fifo_defs)
  have ok: "ioq_ok q s'" for q
  proof (cases "q = w")
    case True
    have "ioq_queued (fr_io s' w) \<longleftrightarrow> w \<in> set (fifo_Q (fr_Q s'))"
      using r(5) cw(1) by (auto simp: s'_def set_ioq_def fifo_defs r'_def)
    moreover have "ioq_nr (fr_io s' w) = ioq_nr r'" "fr_tree s' w = t" "ioq_inited (fr_io s' w) = ioq_inited (fr_io s w)"
      by (simp_all add: s'_def set_ioq_def r'_def)
    moreover have "\<forall>x \<in> set (nrb_line t). fm_key x = w" using r(4) lw l by simp
    moreover have "ioq_inited (fr_io s w)" using c(4) [of w] ne by (simp add: ioq_ok_def)
    ultimately show ?thesis using True l nr t(2) k(2) by (simp add: ioq_ok_def)
  next
    case False
    then have "q \<in> fr_keys s' \<longleftrightarrow> q \<in> fr_keys s" using k(1) by blast
    then show ?thesis using c(4) [of q] l False
      by (auto simp: ioq_ok_def s'_def set_ioq_def fifo_defs)
  qed
  have "fr_bag s' + mset (fr_line w s) = fr_bag s + mset (fr_line w s')"
    using fr_bag_change [OF c(4) ok k(1)] l by simp
  then have b: "fr_bag s = add_mset m (fr_bag s')" using lw by simp
  have sz: "sch_size s' = sch_size s" "fr_mode s' = fr_mode s"
    unfolding s'_def set_ioq_def by (cases s; simp)+
  have ff: "fifo_fits w (fr_Q s)" using queue_fits [OF assms(1) cw(1)] wk by blast
  have core: "frr_core s'"
  proof (rule frr_coreI)
    show "fr_mode s' = DL_OFF" using sz c(1) by simp
    show "fifo_ok (fr_Q s')" using c(2) ff by (simp add: s'_def set_ioq_def fifo_enq)
    show "distinct (fifo_Q (fr_Q s'))" using c(3) cw(1) by (simp add: s'_def set_ioq_def fifo_defs)
    show "size (fr_bag s') < 2 ^ 64" using c(5) b by simp
    show "x \<notin> set (fifo_Q (fr_Q s')) \<and> 1 \<le> ioq_quantum (fr_io s' x) \<and> ioq_quantum (fr_io s' x) \<le> 8"
      if "fr_wq s' = Some x" for x
    proof -
      have "x = w" "ioq_nr r' \<noteq> 0" "ioq_quantum r' \<noteq> 0"
        using that assms(2) by (auto simp: s'_def set_ioq_def split: if_splits)
      then show ?thesis using cw by (auto simp: s'_def set_ioq_def r'_def)
    qed
  qed (rule ok)
  have out: "(fr_wq s' = None \<and> fifo_line (fr_Q s') = fifo_line (fr_Q s) \<and> fr_line w s' = [])
     \<or> (fr_wq s' = None \<and> fifo_line (fr_Q s') = fifo_line (fr_Q s) @ [w])
     \<or> (fr_wq s' = Some w \<and> fr_Q s' = fr_Q s \<and> ioq_quantum (fr_io s' w) = ioq_quantum (fr_io s w) - 1)"
  proof (cases "ioq_nr r' = 0")
    case True
    then have "fr_line w s' = []" using nr l by simp
    then show ?thesis using True by (simp add: s'_def set_ioq_def)
  next
    case False
    then show ?thesis using assms(2) by (simp add: s'_def set_ioq_def fifo_enq) (simp add: r'_def)
  qed
  have key: "fm_key m = w" using r(4) lw by simp
  show thesis
    using that [OF e core lw b sz(1) key _ out] l by auto
qed

text \<open>The total forms; the clock is irrelevant without deadlines.\<close>

definition frr_enq :: "u64 \<Rightarrow> cfs_time \<Rightarrow> (fmsg \<Rightarrow> cfs_time) \<Rightarrow> fmsg \<Rightarrow> nrs_frr \<Rightarrow> nrs_frr" where
  "frr_enq u mdlv clk m s = (case NrsFRR_Enqueue u mdlv (clk m) m s of Inl _ \<Rightarrow> s | Inr s' \<Rightarrow> s')"

definition frr_deq :: "nrs_frr \<Rightarrow> fmsg option \<times> nrs_frr" where
  "frr_deq s = (case NrsFRR_Dequeue 0 s of Inl _ \<Rightarrow> (None, s) | Inr r \<Rightarrow> r)"

text \<open>The core does not look at the tallies.\<close>

lemma frr_core_same:
  assumes "frr_core s" "fr_mode s' = fr_mode s" "fr_Q s' = fr_Q s" "fr_io s' = fr_io s" "fr_wq s' = fr_wq s"
  shows "frr_core s'" "fr_bag s' = fr_bag s" "fr_line q s' = fr_line q s" "fr_keys s' = fr_keys s"
proof -
  show k: "fr_keys s' = fr_keys s" using assms by (simp add: fr_keys_def)
  show l: "fr_line q s' = fr_line q s" for q using assms by (simp add: fr_line_def)
  show b: "fr_bag s' = fr_bag s" by (simp add: fr_bag_def k l)
  have "ioq_ok q s' \<longleftrightarrow> ioq_ok q s" for q unfolding ioq_ok_def k l using assms by simp
  then show "frr_core s'" using assms b unfolding frr_core_def by metis
qed

lemma enq_frr:
  assumes "frr_ok s" "frr_fits m s"
  obtains s' where "NrsFRR_Enqueue u mdlv clk m s = Inr s'" "frr_ok s'" "fr_bag s' = add_mset m (fr_bag s)"
    "fr_wq s' = fr_wq s" "\<And>w. ioq_quantum (fr_io s' w) = ioq_quantum (fr_io s w)"
    "fifo_line (fr_Q s') = fifo_line (fr_Q s) @ (if fm_key m \<in> fr_keys s then [] else [fm_key m])"
proof -
  have core: "frr_core s" using assms(1) by (simp add: frr_ok_def)
  from arrive_law [OF core assms(2)] obtain s1 where s1: "frr_arrive m s = Inr s1" "frr_core s1"
    "fr_bag s1 = add_mset m (fr_bag s)" "sch_size s1 = sch_size s" "fr_wq s1 = fr_wq s"
    "fifo_line (fr_Q s1) = fifo_line (fr_Q s) @ (if fm_key m \<in> fr_keys s then [] else [fm_key m])"
    "\<And>w. ioq_quantum (fr_io s1 w) = ioq_quantum (fr_io s w)" by metis
  define s' where "s' = s1\<lparr>fr_num_queued := fr_num_queued s1 + 1, fr_io_queued := fr_io_queued s1 + fm_count m,
    sch_size := sch_size s1 + 1\<rparr>"
  have m: "fr_mode s = DL_OFF" "fr_mode s1 = DL_OFF" using frr_coreD(1) core s1(2) by blast+
  then have e: "NrsFRR_Enqueue u mdlv clk m s = Inr s'"
    using s1(1) by (simp add: NrsFRR_Enqueue_def IoDeadlineEnqueue_def s'_def)
  have f: "fr_mode s' = fr_mode s1" "fr_Q s' = fr_Q s1" "fr_io s' = fr_io s1" "fr_wq s' = fr_wq s1"
    unfolding s'_def by (cases s1; simp)+
  note same = frr_core_same [OF s1(2) f]
  have "sch_size s' = of_nat (size (fr_bag s'))"
    using assms(1) s1(3,4) same(2) by (simp add: frr_ok_def s'_def)
  then have "frr_ok s'" using same(1) by (simp add: frr_ok_def)
  then show thesis using that [OF e] same(2) s1(3,5-7) f by simp
qed

lemma deq_frr:
  assumes "frr_ok s"
  obtains "NrsFRR_Dequeue clk s = Inr (None, s)" "fr_keys s = {}" "fr_bag s = {#}"
  | w m s1 s' where "NrsFRR_Dequeue clk s = Inr (Some m, s')" "frr_ok s'" "fr_bag s = add_mset m (fr_bag s')"
      "fm_key m = w" "fr_line w s = m # fr_line w s'" "\<And>q. q \<noteq> w \<Longrightarrow> fr_line q s' = fr_line q s"
      "s1 = s \<or> (fr_wq s = None \<and> fifo_line (fr_Q s) = w # fifo_line (fr_Q s1) \<and> ioq_quantum (fr_io s1 w) = 8)"
      "fr_wq s1 = Some w" "frr_core s1"
      "(fr_wq s' = None \<and> fifo_line (fr_Q s') = fifo_line (fr_Q s1) \<and> fr_line w s' = [])
       \<or> (fr_wq s' = None \<and> fifo_line (fr_Q s') = fifo_line (fr_Q s1) @ [w])
       \<or> (fr_wq s' = Some w \<and> fr_Q s' = fr_Q s1 \<and> ioq_quantum (fr_io s' w) = ioq_quantum (fr_io s1 w) - 1)"
proof -
  have core: "frr_core s" using assms by (simp add: frr_ok_def)
  note m = frr_coreD(1) [OF core]
  then have d: "IoDeadlineDequeue clk s = Inr (None, s)" by (simp add: IoDeadlineDequeue_def)
  from GetWorkQueue_law [OF core] show thesis
  proof cases
    case 1
    then have "NrsFRR_Dequeue clk s = Inr (None, s)"
      using d m by (simp add: NrsFRR_Dequeue_def Let_def)
    then show thesis using that(1) 1 by (simp add: fr_bag_def)
  next
    case (2 w s1)
    obtain x s2 where s2: "frr_serve w s1 = Inr (x, s2)" "frr_core s2"
      "fr_line w s1 = x # fr_line w s2" "fr_bag s1 = add_mset x (fr_bag s2)" "sch_size s2 = sch_size s1" "fm_key x = w"
      "\<And>q. q \<noteq> w \<Longrightarrow> fr_line q s2 = fr_line q s1"
      "(fr_wq s2 = None \<and> fifo_line (fr_Q s2) = fifo_line (fr_Q s1) \<and> fr_line w s2 = [])
       \<or> (fr_wq s2 = None \<and> fifo_line (fr_Q s2) = fifo_line (fr_Q s1) @ [w])
       \<or> (fr_wq s2 = Some w \<and> fr_Q s2 = fr_Q s1 \<and> ioq_quantum (fr_io s2 w) = ioq_quantum (fr_io s1 w) - 1)"
      by (rule serve_law [OF 2(2,3)]) (rule that, assumption+)
    define s' where "s' = s2\<lparr>fr_num_queued := fr_num_queued s2 - 1, fr_num_serviced := fr_num_serviced s2 + 1,
                 fr_io_queued := fr_io_queued s2 - fm_count x, fr_io_serviced := fr_io_serviced s2 + fm_count x,
                 sch_size := sch_size s2 - 1\<rparr>"
    note m2 = frr_coreD(1) [OF s2(2)]
    have st: "frr_stat x s2 = Inr s'" using m2 by (simp add: frr_stat_def Let_def s'_def)
    have rd: "RemoveFromDeadlineQueue x s2 = Inr s2" using m2 by (simp add: RemoveFromDeadlineQueue_def)
    have e: "NrsFRR_Dequeue clk s = Inr (Some x, s')"
      unfolding NrsFRR_Dequeue_def d using m by (simp add: Let_def 2(1,3) s2(1) rd st)
    have f: "fr_mode s' = fr_mode s2" "fr_Q s' = fr_Q s2" "fr_io s' = fr_io s2" "fr_wq s' = fr_wq s2"
      unfolding s'_def by (cases s2; simp)+
    note same = frr_core_same [OF s2(2) f]
    have b: "fr_bag s = add_mset x (fr_bag s')" using 2(4) s2(4) same(2) by simp
    have "sch_size s' = sch_size s - 1" using 2(5) s2(5) by (simp add: s'_def)
    then have "sch_size s' = of_nat (size (fr_bag s'))" using assms b by (simp add: frr_ok_def)
    then have "frr_ok s'" using same(1) by (simp add: frr_ok_def)
    then have ok: "frr_ok s'" .
    have l: "fr_line w s = x # fr_line w s'" "\<And>q. q \<noteq> w \<Longrightarrow> fr_line q s' = fr_line q s"
      using s2(3,7) same(3) 2(6) by simp_all
    have o: "(fr_wq s' = None \<and> fifo_line (fr_Q s') = fifo_line (fr_Q s1) \<and> fr_line w s' = [])
       \<or> (fr_wq s' = None \<and> fifo_line (fr_Q s') = fifo_line (fr_Q s1) @ [w])
       \<or> (fr_wq s' = Some w \<and> fr_Q s' = fr_Q s1 \<and> ioq_quantum (fr_io s' w) = ioq_quantum (fr_io s1 w) - 1)"
      using s2(8) unfolding f same(3) .
    show thesis by (rule that(2) [OF e ok b s2(6) l 2(8,3,2) o])
  qed
qed

interpretation frr: scheduler frr_ok fr_bag frr_fits "frr_enq u mdlv clk" frr_deq for u mdlv clk
proof
  fix s e
  show "frr_ok (frr_enq u mdlv clk e s) \<and> fr_bag (frr_enq u mdlv clk e s) = add_mset e (fr_bag s)"
    if "frr_ok s" "frr_fits e s"
    by (rule enq_frr [OF that, of u mdlv "clk e"]) (simp add: frr_enq_def)
  show "\<exists>s'. frr_deq s = (None, s') \<and> frr_ok s' \<and> fr_bag s' = {#}" if "frr_ok s" "fr_bag s = {#}"
    using deq_frr [OF that(1), of 0]
  proof cases
    case 1
    then show ?thesis using that by (simp add: frr_deq_def)
  qed (use that(2) in simp)
  show "\<exists>e s'. frr_deq s = (Some e, s') \<and> frr_ok s' \<and> fr_bag s = add_mset e (fr_bag s')"
    if "frr_ok s" "fr_bag s \<noteq> {#}"
    using deq_frr [OF that(1), of 0]
  proof cases
    case (2 w m s1 s')
    then show ?thesis by (simp add: frr_deq_def)
  qed (use that(2) in simp)
qed

section \<open>How long a file can wait\<close>

text \<open>An upper bound on the requests of other files served before one of
  the file \<open>q\<close>: what is left of the quantum in service and a whole quantum for
  each queue ahead.\<close>

fun pos_of :: "'a \<Rightarrow> 'a list \<Rightarrow> nat" where
  "pos_of x [] = 0"
| "pos_of x (y # ys) = (if x = y then 0 else Suc (pos_of x ys))"

lemma pos_of_append: "x \<in> set ys \<Longrightarrow> pos_of x (ys @ zs) = pos_of x ys"
  by (induction ys) auto

lemma pos_of_less: "x \<in> set ys \<Longrightarrow> pos_of x ys < length ys"
  by (induction ys) auto

definition frr_wait :: "io_key \<Rightarrow> nrs_frr \<Rightarrow> nat" where
  "frr_wait q s = (case fr_wq s of
     None \<Rightarrow> 8 * pos_of q (fifo_line (fr_Q s))
   | Some w \<Rightarrow> if w = q then 0 else nat (ioq_quantum (fr_io s w)) + 8 * pos_of q (fifo_line (fr_Q s)))"

lemma set_line: "set (fifo_line Q) = set (fifo_Q Q)"
  by (simp add: fifo_line_def)

lemma wait_enq:
  assumes "frr_ok s" "frr_fits m s" "q \<in> fr_keys s"
  shows "frr_wait q (frr_enq u mdlv clk m s) = frr_wait q s \<and> q \<in> fr_keys (frr_enq u mdlv clk m s)"
proof -
  from enq_frr [OF assms(1,2), of u mdlv "clk m"] obtain s' where s': "NrsFRR_Enqueue u mdlv (clk m) m s = Inr s'"
    "fr_wq s' = fr_wq s" "\<And>w. ioq_quantum (fr_io s' w) = ioq_quantum (fr_io s w)"
    "fifo_line (fr_Q s') = fifo_line (fr_Q s) @ (if fm_key m \<in> fr_keys s then [] else [fm_key m])"
    by metis
  have "q \<in> set (fifo_line (fr_Q s)) \<or> fr_wq s = Some q"
    using assms(3) by (auto simp: fr_keys_def set_line)
  then have "frr_wait q s' = frr_wait q s" "q \<in> fr_keys s'"
    using s'(2-4) by (auto simp: frr_wait_def fr_keys_def set_line [symmetric] pos_of_append split: option.splits)
  then show ?thesis using s'(1) by (simp add: frr_enq_def)
qed

lemma wait_deq:
  assumes "frr_ok s" "q \<in> fr_keys s" "frr_deq s = (Some m, s')" "fm_key m \<noteq> q"
  shows "frr_wait q s' < frr_wait q s \<and> q \<in> fr_keys s'"
  using deq_frr [OF assms(1), of 0]
proof cases
  case 1
  then show ?thesis using assms(2) by simp
next
  case (2 w m1 s1 s2)
  have [simp]: "m1 = m" "s2 = s'" using 2(1) assms(3) by (simp_all add: frr_deq_def)
  have wq: "w \<noteq> q" using 2(4) assms(4) by simp
  note c = frr_coreD(6-8) [OF 2(9,8)]
  have q1: "q \<in> set (fifo_line (fr_Q s1))"
    using 2(7) assms(2) wq 2(8) by (auto simp: fr_keys_def set_line [symmetric])
  have w1: "frr_wait q s1 \<le> frr_wait q s"
  proof (cases "s1 = s")
    case False
    then have "fr_wq s = None" "fifo_line (fr_Q s) = w # fifo_line (fr_Q s1)" "ioq_quantum (fr_io s1 w) = 8"
      using 2(7) by simp_all
    then show ?thesis using 2(8) wq by (simp add: frr_wait_def)
  qed simp
  have p: "pos_of q (fifo_line (fr_Q s') ) = pos_of q (fifo_line (fr_Q s1))" "q \<in> fr_keys s'"
    using 2(10) q1 by (auto simp: pos_of_append fr_keys_def set_line [symmetric])
  have "frr_wait q s' < frr_wait q s1"
    using 2(10) 2(8) wq p(1) c(2) by (auto simp: frr_wait_def)
  with w1 p(2) show ?thesis by simp
qed

lemma wait_bound:
  assumes "frr_core s" "q \<in> fr_keys s"
  shows "frr_wait q s \<le> 8 * card (fr_keys s)"
proof -
  define l where "l = fifo_line (fr_Q s)"
  have dl: "distinct l" "set l = set (fifo_Q (fr_Q s))"
    using frr_coreD(3) [OF assms(1)] by (simp_all add: l_def fifo_line_def)
  show ?thesis
  proof (cases "fr_wq s")
    case None
    then have k: "fr_keys s = set l" by (simp add: fr_keys_def dl)
    then have "pos_of q l < card (fr_keys s)" using assms(2) pos_of_less [of q l] distinct_card [OF dl(1)] by simp
    then show ?thesis using None by (simp add: frr_wait_def l_def)
  next
    case (Some w)
    note c = frr_coreD(6-8) [OF assms(1) Some]
    have k: "fr_keys s = insert w (set l)" "w \<notin> set l" using Some c(1) by (simp_all add: fr_keys_def dl)
    then have card: "card (fr_keys s) = Suc (length l)" using distinct_card [OF dl(1)] by simp
    show ?thesis
    proof (cases "w = q")
      case False
      then have "pos_of q l < length l" using assms(2) k(1) by (intro pos_of_less) simp
      then show ?thesis using Some False c(3) card by (simp add: frr_wait_def l_def)
    qed (simp add: frr_wait_def Some)
  qed
qed

lemma served_in_wait:
  assumes "frr_ok s" "q \<in> fr_keys s" "frr.admissible u mdlv clk ops s"
    "run_ops (frr_enq u mdlv clk) frr_deq ops s = (out, s')" "\<forall>m \<in> set out. fm_key m \<noteq> q"
  shows "length (filter ((=) Op_dequeue) ops) \<le> frr_wait q s"
  using assms
proof (induction ops arbitrary: s out)
  case (Cons op ops)
  show ?case
  proof (cases op)
    case (Op_enqueue e)
    then have f: "frr_fits e s" using Cons.prems(3) by simp
    note w = wait_enq [OF Cons.prems(1) f Cons.prems(2), of u mdlv clk]
    show ?thesis
      using Cons.prems Op_enqueue Cons.IH [of "frr_enq u mdlv clk e s" out] frr.enq_law [OF Cons.prems(1) f] w by simp
  next
    case Op_dequeue
    from frr.deq_cases [OF Cons.prems(1)] show ?thesis
    proof cases
      case (1 s1)
      then have "q \<notin> fr_keys s"
        using keys_le_bag [of s] frr_coreD(4) [of s] Cons.prems(1) by (auto simp: frr_ok_def)
      then show ?thesis using Cons.prems(2) by simp
    next
      case (2 e s1)
      obtain out1 where o1: "run_ops (frr_enq u mdlv clk) frr_deq ops s1 = (out1, s')" "out = e # out1"
        using Op_dequeue Cons.prems(4) 2 by (auto split: prod.splits)
      have "frr_wait q s1 < frr_wait q s \<and> q \<in> fr_keys s1"
        using wait_deq [OF Cons.prems(1,2) 2(1)] Cons.prems(5) o1(2) by simp
      moreover have "length (filter ((=) Op_dequeue) ops) \<le> frr_wait q s1"
        using Cons.prems Op_dequeue 2 o1 calculation by (intro Cons.IH) auto
      ultimately show ?thesis using Op_dequeue by simp
    qed
  qed
qed simp

section \<open>Properties\<close>

text \<open>C21 Without deadlines no file starves: a file with queued requests has
  one of them served within eight requests for each file that waits or is in
  service, whatever arrives in between; and no request is lost or served twice.
  This holds after any history and for any arrivals in which no request comes
  while one of the same file and command is queued at the same offset (the code
  stops at a BUG_ON there) and in which fewer than 2^31 requests are queued (the
  count of a queue is an int).\<close>

theorem frr_no_starvation:
  assumes "frr.admissible u mdlv clk ops (NrsFRR_new DL_OFF bw)"
    and "run_ops (frr_enq u mdlv clk) frr_deq ops (NrsFRR_new DL_OFF bw) = (out, s)"
    and "fr_line q s \<noteq> []" "frr.admissible u mdlv clk ops' s"
    and "run_ops (frr_enq u mdlv clk) frr_deq ops' s = (out', s')"
    and "8 * card (fr_keys s) < length (filter ((=) Op_dequeue) ops')"
  shows "mset (enqueued ops) = mset out + fr_bag s \<and> (\<exists>m \<in> set out'. fm_key m = q)"
proof -
  note new = frr_ok_new [of bw]
  have ok: "frr_ok s" and bag: "mset (enqueued ops) = mset out + fr_bag s"
    using frr.conservation [OF new(1) assms(1,2)] new(2) by simp_all
  then have core: "frr_core s" by (simp add: frr_ok_def)
  have q: "q \<in> fr_keys s" using frr_coreD(4) [OF core, of q] assms(3) by (simp add: ioq_ok_def)
  have "\<exists>m \<in> set out'. fm_key m = q"
    using served_in_wait [OF ok q assms(4,5)] wait_bound [OF core q] assms(6) by force
  with bag show ?thesis ..
qed

abbreviation "file_req i f off \<equiv> \<lparr>fm_id = i, fm_fid = f, fm_cmd = 0, fm_off = off, fm_count = 8,
  fm_deadline_flag = False, fm_dynamic = False, fm_mandatory = False, fm_deadline_1 = False, fm_deadline_2 = False\<rparr>"

theorem frr_no_starvation_witness:
  "\<exists>s out' s'. run_ops (frr_enq 1 0 (\<lambda>_. 0)) frr_deq [Op_enqueue (file_req 1 5 0), Op_enqueue (file_req 2 6 0)]
      (NrsFRR_new DL_OFF 4) = ([], s) \<and> run_ops (frr_enq 1 0 (\<lambda>_. 0)) frr_deq (deq_times 17) s = (out', s')
    \<and> (\<exists>m \<in> set out'. fm_key m = (6, 0))"
proof -
  define s0 where "s0 = NrsFRR_new DL_OFF 4"
  define a b where "a = file_req 1 5 0" and "b = file_req 2 6 0"
  have ok0: "frr_ok s0" "fr_bag s0 = {#}" using frr_ok_new [of 4] by (simp_all add: s0_def)
  have key: "fm_key a = (5, 0)" "fm_key b = (6, 0)" by (simp_all add: a_def b_def fm_key_def)
  have k0: "fr_keys s0 = {}" by (simp add: s0_def fr_keys_def)
  have l0: "fr_line q s0 = []" for q using frr_coreD(4) [of s0 q] ok0 k0 by (simp add: frr_ok_def ioq_ok_def)
  have f1: "frr_fits a s0" using ok0(2) l0 by (simp add: frr_fits_def)
  obtain s1 where s1: "NrsFRR_Enqueue 1 0 0 a s0 = Inr s1" "frr_ok s1"
    "fr_bag s1 = {#a#}" "fr_wq s1 = fr_wq s0"
    "fifo_line (fr_Q s1) = fifo_line (fr_Q s0) @ [fm_key a]"
    by (rule enq_frr [OF ok0(1) f1, of 1 0 0]) (rule that, use ok0(2) k0 in simp_all)
  have k1: "fr_keys s1 = {(5, 0)}"
    using s1(4,5) key by (simp add: fr_keys_def set_line [symmetric]) (simp add: s0_def fifo_line_def)
  then have "fr_line (6, 0) s1 = []"
    using frr_coreD(4) [of s1 "(6, 0)"] s1(2) by (simp add: frr_ok_def ioq_ok_def)
  then have f2: "frr_fits b s1" using s1(3) key by (simp add: frr_fits_def)
  obtain s2 where s2: "NrsFRR_Enqueue 1 0 0 b s1 = Inr s2" "frr_ok s2"
    "fr_wq s2 = fr_wq s1" "fifo_line (fr_Q s2) = fifo_line (fr_Q s1) @ [fm_key b]"
    by (rule enq_frr [OF s1(2) f2, of 1 0 0]) (rule that, use k1 key in simp_all)
  have k2: "fr_keys s2 = {(5, 0), (6, 0)}"
    using s2(3,4) s1(4,5) key k1 by (auto simp add: fr_keys_def set_line [symmetric] s0_def)
  then have l2: "fr_line (6, 0) s2 \<noteq> []"
    using frr_coreD(4) [of s2 "(6, 0)"] s2(2) by (simp add: frr_ok_def ioq_ok_def)
  have r: "run_ops (frr_enq 1 0 (\<lambda>_. 0)) frr_deq [Op_enqueue a, Op_enqueue b] (NrsFRR_new DL_OFF 4) = ([], s2)"
    using s1(1) s2(1) by (simp add: frr_enq_def s0_def)
  have adm: "frr.admissible 1 0 (\<lambda>_. 0) [Op_enqueue a, Op_enqueue b] (NrsFRR_new DL_OFF 4)"
    using f1 f2 s1(1) by (simp add: frr_enq_def s0_def)
  obtain out' s' where o: "run_ops (frr_enq 1 0 (\<lambda>_. 0)) frr_deq (deq_times 17) s2 = (out', s')"
    by (cases "run_ops (frr_enq 1 0 (\<lambda>_. 0)) frr_deq (deq_times 17) s2")
  have "8 * card (fr_keys s2) < length (filter ((=) Op_dequeue) (deq_times 17 :: fmsg sched_op list))"
    unfolding k2 by simp
  from frr_no_starvation [OF adm r l2 frr.admissible_deq_times o this] show ?thesis
    using r o unfolding a_def b_def by blast
qed

text \<open>With deadlines a file can be forgotten: when the last queued request of a
  file is served because its deadline is over, the queue leaves the rotation
  but keeps the flag that it is in it, and no later request of the file brings
  it back.\<close>

text \<open>Once the last request of a waiting file has been served for its
  deadline, later requests of that file do not put the file's queue back into
  the rotation.\<close>

theorem frr_expired_queue_lost:
  assumes "frr_expired m s = Inr s1" "ioq_nr (fr_io s (fm_key m)) = 1" "ioq_queued (fr_io s (fm_key m))"
    and "fr_wq s \<noteq> Some (fm_key m)" "fm_key m2 = fm_key m" "frr_arrive m2 s1 = Inr s2"
  shows "fm_key m \<notin> set (fifo_Q (fr_Q s2)) \<and> fr_wq s2 \<noteq> Some (fm_key m) \<and> fr_line (fm_key m) s2 \<noteq> []"
proof -
  define q where "q = fm_key m"
  obtain t where t: "s1 = (set_ioq q ((fr_io s q)\<lparr>ioq_s := t, ioq_nr := 0\<rparr>) s)
      \<lparr>fr_wq := fr_wq s, fr_Q := NrsFifo_Erase q (fr_Q s)\<rparr>"
    using assms(1-4) by (auto simp: frr_expired_def Let_def q_def set_ioq_def split: option.splits)
  have s1: "ioq_queued (fr_io s1 q)" "q \<notin> set (fifo_Q (fr_Q s1))" "fr_wq s1 \<noteq> Some q"
    using assms(3,4) by (simp_all add: t set_ioq_def fifo_defs q_def)
  obtain r r' where r: "FRR_IoEnqueue r m2 = Inr r'" "ioq_queued r = ioq_queued (fr_io s1 q)"
    "(if \<not> ioq_queued r' \<and> fr_wq s1 \<noteq> Some q
          then Inr ((set_ioq q (r'\<lparr>ioq_queued := True\<rparr>) s1)\<lparr>fr_Q := NrsFifo_Enqueue q (fr_Q s1)\<rparr>)
          else Inr (set_ioq q r' s1)) = (Inr s2 :: nrs_frr frr_res)"
    using assms(5,6) unfolding frr_arrive_def Let_def
    by (auto simp: q_def split: sum.splits if_splits)
  obtain t' where t': "r' = r\<lparr>ioq_nr := ioq_nr r + 1, ioq_s := t'\<rparr>"
      "NrsRbtree_Enqueue FRR_CompareByOffset m2 (ioq_s r) = Some t'"
    using r(1) by (auto simp: FRR_IoEnqueue_def split: if_splits option.splits)
  then have s2: "s2 = set_ioq q r' s1" using r(2,3) s1 by simp
  obtain z where z: "rb_insert FRR_CompareByOffset m2 (nrb_tree (ioq_s r)) = Some z" "nrb_tree t' = z"
    using t'(2) by (auto simp: NrsRbtree_Enqueue_def)
  have "m2 \<in># mset (inord (rb_root z))" unfolding insert_mset(1) [OF z(1)] by simp
  then have "m2 \<in># nrb_bag t'" by (simp add: nrb_bag_def nrb_line_def z(2))
  then have "fr_line q s2 \<noteq> []" using t'(1) by (auto simp: s2 fr_line_def set_ioq_def nrb_bag_def)
  then show ?thesis using s1 s2 unfolding q_def [symmetric] by (simp add: set_ioq_def)
qed

lemma expired_example:
  "case frr_arrive (file_req 1 5 0) (NrsFRR_new DL_2L 4) of Inl _ \<Rightarrow> False | Inr s \<Rightarrow>
     ioq_nr (fr_io s (5, 0)) = 1 \<and> ioq_queued (fr_io s (5, 0)) \<and> fr_wq s \<noteq> Some (5, 0) \<and>
     (case frr_expired (file_req 1 5 0) s of Inl _ \<Rightarrow> False | Inr s1 \<Rightarrow>
       (case frr_arrive (file_req 2 5 8) s1 of Inl _ \<Rightarrow> False | Inr s2 \<Rightarrow> True))"
  by code_simp

theorem frr_expired_queue_lost_witness:
  "\<exists>s s1 s2. frr_arrive (file_req 1 5 0) (NrsFRR_new DL_2L 4) = Inr s \<and> frr_expired (file_req 1 5 0) s = Inr s1
    \<and> frr_arrive (file_req 2 5 8) s1 = Inr s2 \<and> (5, 0) \<notin> set (fifo_Q (fr_Q s2)) \<and> fr_line (5, 0) s2 \<noteq> []"
proof -
  obtain s s1 s2 where s: "frr_arrive (file_req 1 5 0) (NrsFRR_new DL_2L 4) = Inr s"
    "frr_expired (file_req 1 5 0) s = Inr s1" "frr_arrive (file_req 2 5 8) s1 = Inr s2"
    "ioq_nr (fr_io s (5, 0)) = 1" "ioq_queued (fr_io s (5, 0))" "fr_wq s \<noteq> Some (5, 0)"
    using expired_example by (auto split: sum.splits)
  then show ?thesis
    using frr_expired_queue_lost [OF s(2) _ _ _ _ s(3)] by (simp add: fm_key_def)
qed

text \<open>Serving by deadline only never lowers the count of queued requests.\<close>

lemma DequeueA_size: "FRR_DequeueA m q s = Inr (q', s') \<Longrightarrow> sch_size s' = sch_size s"
  by (cases s) (auto simp: FRR_DequeueA_def split: prod.splits option.splits if_splits)

lemma Dequeue2Q_size: "Dequeue2QDeadline tc clk qs s = Inr (m, qs', s') \<Longrightarrow> sch_size s' = sch_size s"
  by (auto simp: Dequeue2QDeadline_def Let_def dest: DequeueA_size split: sum.splits pick.splits)

lemma frr_only_keeps_size:
  assumes "fr_mode s = DL_ONLY" "NrsFRR_Dequeue clk s = Inr (r, s')"
  shows "sch_size s' = sch_size s"
proof -
  obtain m q1 q2 s1 where d: "Dequeue2QDeadline False clk (fr_Q1 s, fr_Q2 s) s = Inr (m, (q1, q2), s1)"
    "s' = s1\<lparr>fr_Q1 := q1, fr_Q2 := q2\<rparr>"
    using assms by (auto simp: NrsFRR_Dequeue_def IoDeadlineDequeue_def split: sum.splits)
  then have "sch_size s' = sch_size s1" by (cases s1) simp
  with Dequeue2Q_size [OF d(1)] show ?thesis by simp
qed

end
