(* ===== verification/CfsHash.thy ===== *)
theory CfsHash
  imports NrsFifo
begin

text \<open>
  The hash tables of src/lustre/cfshash.h and cfshash.cpp: buckets of chains,
  four kinds of chain (with a depth count, with a tail pointer), lookups with
  an intent, resizing when the load leaves its bounds, iteration.  The
  program has one thread, and locks are empty macros (lustre.h): they are not
  modelled, and a resize is over before the operation that started it returns.
  The user's methods are the hash function (a parameter), the comparison of
  keys (equality) and the counting of references; the key of an item is a
  field of it.  A table of buckets is an array that a resize shares with its
  successor: buckets are objects named by their index.
\<close>

section \<open>State\<close>

record 'i hhead =
  hh_list :: "'i list"
  hd_depth :: u32
  dh_tail :: "'i option"

record 'i hbucket =
  hsb_count :: u32
  hsb_version :: u32
  hsb_depmax :: int
  hsb_head :: "nat \<Rightarrow> 'i hhead"

text \<open>\<open>hs_rehash_tbl\<close> says that hs_rehash_buckets is not NULL; \<open>hs_ref\<close> are the
  references of the items, \<open>hs_keys\<close> their keys.\<close>

record ('k, 'i) cfs_hash =
  hs_buckets :: "nat \<Rightarrow> 'i hbucket"
  hs_count :: int
  hs_flags :: "16 word"
  hs_iterating :: bool
  hs_exiting :: bool
  hs_cur_bits :: nat
  hs_min_bits :: nat
  hs_max_bits :: nat
  hs_rehash_bits :: nat
  hs_bkt_bits :: nat
  hs_min_theta :: int
  hs_max_theta :: int
  hs_rehash_count :: u32
  hs_iterators :: u32
  hs_refcount :: int
  hs_rehash_tbl :: bool
  hs_ref :: "'i \<Rightarrow> int"
  hs_keys :: "'i \<Rightarrow> 'k"

type_synonym hs_bd = "nat \<times> nat"

datatype hs_fault = Hs_assert | Hs_bug

type_synonym 'a hs_res = "hs_fault + 'a"

definition hbind :: "'a hs_res \<Rightarrow> ('a \<Rightarrow> 'b hs_res) \<Rightarrow> 'b hs_res" where
  "hbind r f = (case r of Inl e \<Rightarrow> Inl e | Inr x \<Rightarrow> f x)"

definition hassert :: "bool \<Rightarrow> 'a hs_res \<Rightarrow> 'a hs_res" where
  "hassert P r = (if P then r else Inl Hs_assert)"

lemma hbind_simps [simp]: "hbind (Inr x) f = f x" "hbind (Inl e) f = Inl e"
  by (simp_all add: hbind_def)

section \<open>Flags\<close>

definition cfs_hash_with_no_lock :: "('k, 'i) cfs_hash \<Rightarrow> bool" where
  "cfs_hash_with_no_lock hs \<longleftrightarrow> hs_flags hs AND push_bit 0 1 \<noteq> 0"
definition cfs_hash_with_no_bktlock :: "('k, 'i) cfs_hash \<Rightarrow> bool" where
  "cfs_hash_with_no_bktlock hs \<longleftrightarrow> hs_flags hs AND push_bit 1 1 \<noteq> 0"
definition cfs_hash_with_rw_bktlock :: "('k, 'i) cfs_hash \<Rightarrow> bool" where
  "cfs_hash_with_rw_bktlock hs \<longleftrightarrow> hs_flags hs AND push_bit 2 1 \<noteq> 0"
definition cfs_hash_with_spin_bktlock :: "('k, 'i) cfs_hash \<Rightarrow> bool" where
  "cfs_hash_with_spin_bktlock hs \<longleftrightarrow> hs_flags hs AND push_bit 3 1 \<noteq> 0"
definition cfs_hash_with_add_tail :: "('k, 'i) cfs_hash \<Rightarrow> bool" where
  "cfs_hash_with_add_tail hs \<longleftrightarrow> hs_flags hs AND push_bit 4 1 \<noteq> 0"
definition cfs_hash_with_no_itemref :: "('k, 'i) cfs_hash \<Rightarrow> bool" where
  "cfs_hash_with_no_itemref hs \<longleftrightarrow> hs_flags hs AND push_bit 5 1 \<noteq> 0"
definition cfs_hash_with_counter :: "('k, 'i) cfs_hash \<Rightarrow> bool" where
  "cfs_hash_with_counter hs \<longleftrightarrow> hs_flags hs AND push_bit 7 1 \<noteq> 0"
definition cfs_hash_with_rehash :: "('k, 'i) cfs_hash \<Rightarrow> bool" where
  "cfs_hash_with_rehash hs \<longleftrightarrow> hs_flags hs AND push_bit 9 1 \<noteq> 0"
definition cfs_hash_with_shrink :: "('k, 'i) cfs_hash \<Rightarrow> bool" where
  "cfs_hash_with_shrink hs \<longleftrightarrow> hs_flags hs AND push_bit 10 1 \<noteq> 0"
definition cfs_hash_with_assert_empty :: "('k, 'i) cfs_hash \<Rightarrow> bool" where
  "cfs_hash_with_assert_empty hs \<longleftrightarrow> hs_flags hs AND push_bit 11 1 \<noteq> 0"
definition cfs_hash_with_depth :: "('k, 'i) cfs_hash \<Rightarrow> bool" where
  "cfs_hash_with_depth hs \<longleftrightarrow> hs_flags hs AND push_bit 12 1 \<noteq> 0"

definition cfs_hash_is_rehashing :: "('k, 'i) cfs_hash \<Rightarrow> bool" where
  "cfs_hash_is_rehashing hs \<longleftrightarrow> hs_rehash_bits hs \<noteq> 0"
definition cfs_hash_is_iterating :: "('k, 'i) cfs_hash \<Rightarrow> bool" where
  "cfs_hash_is_iterating hs \<longleftrightarrow> hs_iterating hs \<or> hs_iterators hs \<noteq> 0"

definition CFS_HASH_NBKT :: "('k, 'i) cfs_hash \<Rightarrow> nat" where
  "CFS_HASH_NBKT hs = 2 ^ (hs_cur_bits hs - hs_bkt_bits hs)"
definition CFS_HASH_RH_NBKT :: "('k, 'i) cfs_hash \<Rightarrow> nat" where
  "CFS_HASH_RH_NBKT hs = 2 ^ (hs_rehash_bits hs - hs_bkt_bits hs)"
definition CFS_HASH_BKT_NHLIST :: "('k, 'i) cfs_hash \<Rightarrow> nat" where
  "CFS_HASH_BKT_NHLIST hs = 2 ^ hs_bkt_bits hs"

section \<open>Chains\<close>

fun hlist_add_behind :: "'i \<Rightarrow> 'i \<Rightarrow> 'i list \<Rightarrow> 'i list" where
  "hlist_add_behind x t [] = []"
| "hlist_add_behind x t (y # ys) = (if y = t then y # x # ys else y # hlist_add_behind x t ys)"

text \<open>Adding to a chain and taking an item off it; the result is the depth, or
  -1 when it is not tracked.\<close>

definition cfs_hash_hh_hnode_add :: "'i \<Rightarrow> 'i hhead \<Rightarrow> int \<times> 'i hhead" where
  "cfs_hash_hh_hnode_add x h = (-1, h\<lparr>hh_list := x # hh_list h\<rparr>)"

definition cfs_hash_hh_hnode_del :: "'i \<Rightarrow> 'i hhead \<Rightarrow> 'i hhead" where
  "cfs_hash_hh_hnode_del x h = h\<lparr>hh_list := remove1 x (hh_list h)\<rparr>"

definition cfs_hash_hd_hnode_add :: "'i \<Rightarrow> 'i hhead \<Rightarrow> int \<times> 'i hhead" where
  "cfs_hash_hd_hnode_add x h =
     (sint (hd_depth h + 1), h\<lparr>hh_list := x # hh_list h, hd_depth := hd_depth h + 1\<rparr>)"

definition cfs_hash_hd_hnode_del :: "'i \<Rightarrow> 'i hhead \<Rightarrow> 'i hhead" where
  "cfs_hash_hd_hnode_del x h = h\<lparr>hh_list := remove1 x (hh_list h), hd_depth := hd_depth h - 1\<rparr>"

text \<open>With a tail pointer; the predecessor of the tail is found through pprev.\<close>

definition dh_add_list :: "'i \<Rightarrow> 'i hhead \<Rightarrow> 'i list" where
  "dh_add_list x h = (case dh_tail h of Some t \<Rightarrow> hlist_add_behind x t (hh_list h) | None \<Rightarrow> x # hh_list h)"

definition dh_del_tail :: "'i \<Rightarrow> 'i hhead \<Rightarrow> 'i option" where
  "dh_del_tail x h =
     (case rev (hh_list h) of
        y # ys \<Rightarrow> if y = x then (case ys of [] \<Rightarrow> None | z # zs \<Rightarrow> Some z) else dh_tail h
      | [] \<Rightarrow> dh_tail h)"

definition cfs_hash_dh_hnode_add :: "'i \<Rightarrow> 'i hhead \<Rightarrow> int \<times> 'i hhead" where
  "cfs_hash_dh_hnode_add x h = (-1, h\<lparr>hh_list := dh_add_list x h, dh_tail := Some x\<rparr>)"

definition cfs_hash_dh_hnode_del :: "'i \<Rightarrow> 'i hhead \<Rightarrow> 'i hhead" where
  "cfs_hash_dh_hnode_del x h = h\<lparr>dh_tail := dh_del_tail x h, hh_list := remove1 x (hh_list h)\<rparr>"

definition cfs_hash_dd_hnode_add :: "'i \<Rightarrow> 'i hhead \<Rightarrow> int \<times> 'i hhead" where
  "cfs_hash_dd_hnode_add x h =
     (sint (hd_depth h + 1), h\<lparr>hh_list := dh_add_list x h, dh_tail := Some x, hd_depth := hd_depth h + 1\<rparr>)"

definition cfs_hash_dd_hnode_del :: "'i \<Rightarrow> 'i hhead \<Rightarrow> 'i hhead" where
  "cfs_hash_dd_hnode_del x h =
     h\<lparr>dh_tail := dh_del_tail x h, hh_list := remove1 x (hh_list h), hd_depth := hd_depth h - 1\<rparr>"

text \<open>cfs_hash_hlist_setup chooses the methods by the flags.\<close>

definition hop_hnode_add :: "('k, 'i) cfs_hash \<Rightarrow> 'i \<Rightarrow> 'i hhead \<Rightarrow> int \<times> 'i hhead" where
  "hop_hnode_add hs =
     (if cfs_hash_with_add_tail hs
      then if cfs_hash_with_depth hs then cfs_hash_dd_hnode_add else cfs_hash_dh_hnode_add
      else if cfs_hash_with_depth hs then cfs_hash_hd_hnode_add else cfs_hash_hh_hnode_add)"

definition hop_hnode_del :: "('k, 'i) cfs_hash \<Rightarrow> 'i \<Rightarrow> 'i hhead \<Rightarrow> 'i hhead" where
  "hop_hnode_del hs =
     (if cfs_hash_with_add_tail hs
      then if cfs_hash_with_depth hs then cfs_hash_dd_hnode_del else cfs_hash_dh_hnode_del
      else if cfs_hash_with_depth hs then cfs_hash_hd_hnode_del else cfs_hash_hh_hnode_del)"

section \<open>Buckets\<close>

definition set_bkt :: "nat \<Rightarrow> 'i hbucket \<Rightarrow> ('k, 'i) cfs_hash \<Rightarrow> ('k, 'i) cfs_hash" where
  "set_bkt b k hs = hs\<lparr>hs_buckets := (hs_buckets hs)(b := k)\<rparr>"

definition hs_chain :: "('k, 'i) cfs_hash \<Rightarrow> hs_bd \<Rightarrow> 'i list" where
  "hs_chain hs bd = hh_list (hsb_head (hs_buckets hs (fst bd)) (snd bd))"

text \<open>The place of a key in a table of \<open>2 ^ bits\<close> chains.\<close>

definition bd_of_key :: "('k \<Rightarrow> u32 \<Rightarrow> u32) \<Rightarrow> nat \<Rightarrow> nat \<Rightarrow> 'k \<Rightarrow> hs_bd" where
  "bd_of_key hf bkt bits key =
     (let index = hf key (mask bits)
      in (unat (index AND mask (bits - bkt)), unat (drop_bit (bits - bkt) index)))"

definition cfs_hash_bd_from_key :: "('k \<Rightarrow> u32 \<Rightarrow> u32) \<Rightarrow> nat \<Rightarrow> 'k \<Rightarrow> ('k, 'i) cfs_hash \<Rightarrow> hs_bd hs_res" where
  "cfs_hash_bd_from_key hf bits key hs =
     hassert (bits = hs_cur_bits hs \<or> bits = hs_rehash_bits hs) (Inr (bd_of_key hf (hs_bkt_bits hs) bits key))"

definition cfs_hash_bd_get :: "('k \<Rightarrow> u32 \<Rightarrow> u32) \<Rightarrow> 'k \<Rightarrow> ('k, 'i) cfs_hash \<Rightarrow> hs_bd hs_res" where
  "cfs_hash_bd_get hf key hs =
     (if \<not> hs_rehash_tbl hs then cfs_hash_bd_from_key hf (hs_cur_bits hs) key hs
      else hassert (hs_rehash_bits hs \<noteq> 0) (cfs_hash_bd_from_key hf (hs_rehash_bits hs) key hs))"

definition next_version :: "u32 \<Rightarrow> u32" where
  "next_version v = (if v + 1 = 0 then v + 2 else v + 1)"

definition cfs_hash_bd_dep_record :: "int \<Rightarrow> 'i hbucket \<Rightarrow> 'i hbucket" where
  "cfs_hash_bd_dep_record dep k = (if dep \<le> hsb_depmax k then k else k\<lparr>hsb_depmax := dep\<rparr>)"

definition cfs_hash_get :: "'i \<Rightarrow> ('k, 'i) cfs_hash \<Rightarrow> ('k, 'i) cfs_hash" where
  "cfs_hash_get x hs = hs\<lparr>hs_ref := (hs_ref hs)(x := hs_ref hs x + 1)\<rparr>"

definition cfs_hash_put_locked :: "'i \<Rightarrow> ('k, 'i) cfs_hash \<Rightarrow> ('k, 'i) cfs_hash" where
  "cfs_hash_put_locked x hs = hs\<lparr>hs_ref := (hs_ref hs)(x := hs_ref hs x - 1)\<rparr>"

text \<open>hop_hnode_add and hop_hnode_del on a bucket, without the counters.\<close>

definition bkt_hnode_add :: "('k, 'i) cfs_hash \<Rightarrow> nat \<Rightarrow> 'i \<Rightarrow> 'i hbucket \<Rightarrow> 'i hbucket" where
  "bkt_hnode_add hs off x k =
     (case hop_hnode_add hs x (hsb_head k off) of
        (rc, hh) \<Rightarrow> cfs_hash_bd_dep_record rc (k\<lparr>hsb_head := (hsb_head k)(off := hh)\<rparr>))"

definition bkt_hnode_del :: "('k, 'i) cfs_hash \<Rightarrow> nat \<Rightarrow> 'i \<Rightarrow> 'i hbucket \<Rightarrow> 'i hbucket" where
  "bkt_hnode_del hs off x k = k\<lparr>hsb_head := (hsb_head k)(off := hop_hnode_del hs x (hsb_head k off))\<rparr>"

definition cfs_hash_bd_add_locked :: "hs_bd \<Rightarrow> 'i \<Rightarrow> ('k, 'i) cfs_hash \<Rightarrow> ('k, 'i) cfs_hash" where
  "cfs_hash_bd_add_locked bd x hs =
     (let k = bkt_hnode_add hs (snd bd) x (hs_buckets hs (fst bd));
          hs1 = set_bkt (fst bd) (k\<lparr>hsb_version := next_version (hsb_version k), hsb_count := hsb_count k + 1\<rparr>) hs;
          hs2 = (if cfs_hash_with_counter hs1 then hs1\<lparr>hs_count := hs_count hs1 + 1\<rparr> else hs1)
      in if \<not> cfs_hash_with_no_itemref hs2 then cfs_hash_get x hs2 else hs2)"

definition cfs_hash_bd_del_locked :: "hs_bd \<Rightarrow> 'i \<Rightarrow> ('k, 'i) cfs_hash \<Rightarrow> ('k, 'i) cfs_hash hs_res" where
  "cfs_hash_bd_del_locked bd x hs =
     (let k = bkt_hnode_del hs (snd bd) x (hs_buckets hs (fst bd)) in
      hassert (hsb_count k > 0)
        (let hs1 = set_bkt (fst bd) (k\<lparr>hsb_count := hsb_count k - 1, hsb_version := next_version (hsb_version k)\<rparr>) hs in
         hbind (if cfs_hash_with_counter hs1
                then hassert (hs_count hs1 > 0) (Inr (hs1\<lparr>hs_count := hs_count hs1 - 1\<rparr>)) else Inr hs1)
           (\<lambda>hs2. Inr (if \<not> cfs_hash_with_no_itemref hs2 then cfs_hash_put_locked x hs2 else hs2))))"

definition cfs_hash_bd_move_locked :: "hs_bd \<Rightarrow> hs_bd \<Rightarrow> 'i \<Rightarrow> ('k, 'i) cfs_hash \<Rightarrow> ('k, 'i) cfs_hash hs_res" where
  "cfs_hash_bd_move_locked bo bn x hs =
     (if bo = bn then Inr hs
      else let hs1 = set_bkt (fst bo) (bkt_hnode_del hs (snd bo) x (hs_buckets hs (fst bo))) hs;
               hs2 = set_bkt (fst bn) (bkt_hnode_add hs1 (snd bn) x (hs_buckets hs1 (fst bn))) hs1;
               ok = hs_buckets hs2 (fst bo)
           in hassert (hsb_count ok > 0)
             (let hs3 = set_bkt (fst bo) (ok\<lparr>hsb_count := hsb_count ok - 1, hsb_version := next_version (hsb_version ok)\<rparr>) hs2;
                  nk = hs_buckets hs3 (fst bn)
              in Inr (set_bkt (fst bn) (nk\<lparr>hsb_count := hsb_count nk + 1, hsb_version := next_version (hsb_version nk)\<rparr>) hs3)))"

section \<open>Lookups with an intent\<close>

text \<open>The intents as their masks: return with a reference, add when absent,
  delete when present.\<close>

record lookup_intent =
  mask_ref :: bool
  mask_add :: bool
  mask_del :: bool

definition IT_PEEK :: lookup_intent where
  "IT_PEEK = \<lparr>mask_ref = False, mask_add = False, mask_del = False\<rparr>"
definition IT_FIND :: lookup_intent where
  "IT_FIND = \<lparr>mask_ref = True, mask_add = False, mask_del = False\<rparr>"
definition IT_ADD :: lookup_intent where
  "IT_ADD = \<lparr>mask_ref = False, mask_add = True, mask_del = False\<rparr>"
definition IT_FINDADD :: lookup_intent where
  "IT_FINDADD = \<lparr>mask_ref = True, mask_add = True, mask_del = False\<rparr>"
definition IT_FINDDEL :: lookup_intent where
  "IT_FINDDEL = \<lparr>mask_ref = False, mask_add = False, mask_del = True\<rparr>"

definition cfs_hash_bd_lookup_intent ::
    "hs_bd \<Rightarrow> 'k \<Rightarrow> 'i option \<Rightarrow> lookup_intent \<Rightarrow> ('k, 'i) cfs_hash \<Rightarrow> ('i option \<times> ('k, 'i) cfs_hash) hs_res" where
  "cfs_hash_bd_lookup_intent bd key hnode it hs =
     (let mtch = (if mask_add it then None else hnode) in
      case find (\<lambda>e. hs_keys hs e = key \<and> (mtch = None \<or> mtch = Some e)) (hs_chain hs bd) of
        Some e \<Rightarrow>
          if mask_del it then hbind (cfs_hash_bd_del_locked bd e hs) (\<lambda>hs1. Inr (Some e, hs1))
          else Inr (Some e, if mask_ref it then cfs_hash_get e hs else hs)
      | None \<Rightarrow>
          if \<not> mask_add it then Inr (None, hs)
          else (case hnode of
                  None \<Rightarrow> Inl Hs_assert
                | Some x \<Rightarrow> Inr (Some x, cfs_hash_bd_add_locked bd x hs)))"

text \<open>The chains a key may be in: one, or two while the table is resized, in
  order of their place.\<close>

definition cfs_hash_bd_order :: "hs_bd \<Rightarrow> hs_bd \<Rightarrow> hs_bd list" where
  "cfs_hash_bd_order bd1 bd2 =
     (if bd1 = bd2 then [bd1]
      else if fst bd1 > fst bd2 \<or> (fst bd1 = fst bd2 \<and> snd bd1 > snd bd2) then [bd2, bd1] else [bd1, bd2])"

definition cfs_hash_dual_bd_get :: "('k \<Rightarrow> u32 \<Rightarrow> u32) \<Rightarrow> 'k \<Rightarrow> ('k, 'i) cfs_hash \<Rightarrow> hs_bd list hs_res" where
  "cfs_hash_dual_bd_get hf key hs =
     hbind (cfs_hash_bd_from_key hf (hs_cur_bits hs) key hs) (\<lambda>bd0.
       if \<not> hs_rehash_tbl hs then Inr [bd0]
       else hassert (hs_rehash_bits hs \<noteq> 0)
              (hbind (cfs_hash_bd_from_key hf (hs_rehash_bits hs) key hs) (\<lambda>bd1. Inr (cfs_hash_bd_order bd0 bd1))))"

fun cfs_hash_multi_bd_lookup ::
    "hs_bd list \<Rightarrow> 'k \<Rightarrow> 'i option \<Rightarrow> lookup_intent \<Rightarrow> ('k, 'i) cfs_hash \<Rightarrow> ('i option \<times> ('k, 'i) cfs_hash) hs_res" where
  "cfs_hash_multi_bd_lookup [] key hnode it hs = Inr (None, hs)"
| "cfs_hash_multi_bd_lookup (bd # bds) key hnode it hs =
     hbind (cfs_hash_bd_lookup_intent bd key hnode it hs) (\<lambda>(r, hs1).
       case r of Some e \<Rightarrow> Inr (Some e, hs1) | None \<Rightarrow> cfs_hash_multi_bd_lookup bds key hnode it hs1)"

definition cfs_hash_multi_bd_lookup_locked :: "hs_bd list \<Rightarrow> 'k \<Rightarrow> ('k, 'i) cfs_hash \<Rightarrow> ('i option \<times> ('k, 'i) cfs_hash) hs_res" where
  "cfs_hash_multi_bd_lookup_locked bds key hs = cfs_hash_multi_bd_lookup bds key None IT_FIND hs"

definition cfs_hash_multi_bd_findadd_locked ::
    "('k \<Rightarrow> u32 \<Rightarrow> u32) \<Rightarrow> hs_bd list \<Rightarrow> 'k \<Rightarrow> 'i \<Rightarrow> bool \<Rightarrow> ('k, 'i) cfs_hash \<Rightarrow> ('i \<times> ('k, 'i) cfs_hash) hs_res" where
  "cfs_hash_multi_bd_findadd_locked hf bds key x noref hs =
     hbind (cfs_hash_multi_bd_lookup bds key None (if noref then IT_PEEK else IT_FIND) hs) (\<lambda>(r, hs1).
       case r of
         Some e \<Rightarrow> Inr (e, hs1)
       | None \<Rightarrow>
           if length bds = 1 then Inr (x, cfs_hash_bd_add_locked (hd bds) x hs1)
           else hbind (cfs_hash_bd_get hf key hs1) (\<lambda>mybd. Inr (x, cfs_hash_bd_add_locked mybd x hs1)))"

definition cfs_hash_multi_bd_finddel_locked ::
    "hs_bd list \<Rightarrow> 'k \<Rightarrow> 'i option \<Rightarrow> ('k, 'i) cfs_hash \<Rightarrow> ('i option \<times> ('k, 'i) cfs_hash) hs_res" where
  "cfs_hash_multi_bd_finddel_locked bds key hnode hs = cfs_hash_multi_bd_lookup bds key hnode IT_FINDDEL hs"

section \<open>Creation and resizing\<close>

definition new_head :: "'i hhead" where
  "new_head = \<lparr>hh_list = [], hd_depth = 0, dh_tail = None\<rparr>"

definition new_bucket :: "'i hbucket" where
  "new_bucket = \<lparr>hsb_count = 0, hsb_version = 1, hsb_depmax = -1, hsb_head = (\<lambda>_. new_head)\<rparr>"

text \<open>The allocations: of the array (\<open>mem None\<close>) and of each bucket.\<close>

definition cfs_hash_buckets_realloc ::
    "(nat option \<Rightarrow> bool) \<Rightarrow> nat \<Rightarrow> nat \<Rightarrow> (nat \<Rightarrow> 'i hbucket) \<Rightarrow> (nat \<Rightarrow> 'i hbucket) option" where
  "cfs_hash_buckets_realloc mem old new bkts =
     (if \<not> mem None \<or> \<not> list_all (\<lambda>i. mem (Some i)) [old..<new] then None
      else Some (\<lambda>i. if old \<le> i \<and> i < new then new_bucket else bkts i))"

text \<open>theta is computed in signed 32 bit arithmetic.\<close>

definition cfs_hash_theta :: "('k, 'i) cfs_hash \<Rightarrow> int" where
  "cfs_hash_theta hs = sint (push_bit 10 (word_of_int (hs_count hs) :: 32 word)) div 2 ^ hs_cur_bits hs"

abbreviation "EOPNOTSUPP \<equiv> 95 :: int"
abbreviation "ESRCH \<equiv> 3 :: int"
abbreviation "EALREADY \<equiv> 114 :: int"
abbreviation "EAGAIN \<equiv> 11 :: int"
abbreviation "ENOMEM \<equiv> 12 :: int"

definition cfs_hash_rehash_bits :: "('k, 'i) cfs_hash \<Rightarrow> int" where
  "cfs_hash_rehash_bits hs =
     (if cfs_hash_with_no_lock hs \<or> \<not> cfs_hash_with_rehash hs then - EOPNOTSUPP
      else if hs_exiting hs then - ESRCH
      else if cfs_hash_is_rehashing hs then - EALREADY
      else if cfs_hash_is_iterating hs then - EAGAIN
      else if hs_cur_bits hs < hs_max_bits hs \<and> cfs_hash_theta hs > hs_max_theta hs then int (hs_cur_bits hs) + 1
      else if \<not> cfs_hash_with_shrink hs then 0
      else if hs_cur_bits hs > hs_min_bits hs \<and> cfs_hash_theta hs < hs_min_theta hs then int (hs_cur_bits hs) - 1
      else 0)"

text \<open>Moving the items of a chain, of the chains of a bucket, of the buckets.
  The loop over a chain saves the successor before an item is moved, and no
  item is moved within its chain: it visits the chain as it was at its start.\<close>

fun rehash_chain :: "('k \<Rightarrow> u32 \<Rightarrow> u32) \<Rightarrow> hs_bd \<Rightarrow> 'i list \<Rightarrow> ('k, 'i) cfs_hash \<Rightarrow> ('k, 'i) cfs_hash hs_res" where
  "rehash_chain hf bd [] hs = Inr hs"
| "rehash_chain hf bd (x # xs) hs =
     hbind (cfs_hash_bd_from_key hf (hs_rehash_bits hs) (hs_keys hs x) hs) (\<lambda>newbd.
       hbind (cfs_hash_bd_move_locked bd newbd x hs) (rehash_chain hf bd xs))"

fun cfs_hash_rehash_bd :: "('k \<Rightarrow> u32 \<Rightarrow> u32) \<Rightarrow> nat \<Rightarrow> nat list \<Rightarrow> ('k, 'i) cfs_hash \<Rightarrow> ('k, 'i) cfs_hash hs_res" where
  "cfs_hash_rehash_bd hf b [] hs = Inr hs"
| "cfs_hash_rehash_bd hf b (off # offs) hs =
     hbind (rehash_chain hf (b, off) (hs_chain hs (b, off)) hs) (cfs_hash_rehash_bd hf b offs)"

fun rehash_buckets :: "('k \<Rightarrow> u32 \<Rightarrow> u32) \<Rightarrow> nat list \<Rightarrow> ('k, 'i) cfs_hash \<Rightarrow> ('k, 'i) cfs_hash hs_res" where
  "rehash_buckets hf [] hs = Inr hs"
| "rehash_buckets hf (b # bs) hs =
     hbind (cfs_hash_rehash_bd hf b [0..<CFS_HASH_BKT_NHLIST hs] hs) (rehash_buckets hf bs)"

text \<open>The buckets beyond the new size are freed.\<close>

definition free_buckets :: "nat \<Rightarrow> (nat \<Rightarrow> 'i hbucket) \<Rightarrow> nat \<Rightarrow> 'i hbucket" where
  "free_buckets n bkts = (\<lambda>i. if i < n then bkts i else new_bucket)"

definition cfs_hash_rehash_worker ::
    "('k \<Rightarrow> u32 \<Rightarrow> u32) \<Rightarrow> (nat option \<Rightarrow> bool) \<Rightarrow> ('k, 'i) cfs_hash \<Rightarrow> (bool \<times> ('k, 'i) cfs_hash) hs_res" where
  "cfs_hash_rehash_worker hf mem hs =
     hassert (cfs_hash_with_rehash hs \<and> cfs_hash_is_rehashing hs)
      (let old = CFS_HASH_NBKT hs; new = CFS_HASH_RH_NBKT hs; theta = cfs_hash_theta hs in
       if old = new then Inr (False, hs\<lparr>hs_rehash_bits := 0\<rparr>)
       else case cfs_hash_buckets_realloc mem old new (hs_buckets hs) of
         None \<Rightarrow> Inr (False, hs\<lparr>hs_rehash_bits := 0\<rparr>)
       | Some bkts \<Rightarrow>
           if theta \<ge> hs_min_theta hs \<and> theta \<le> hs_max_theta hs then Inr (False, hs\<lparr>hs_rehash_bits := 0\<rparr>)
           else hassert (\<not> hs_rehash_tbl hs)
             (let hs1 = hs\<lparr>hs_buckets := bkts, hs_rehash_tbl := True\<rparr> in
              if hs_exiting hs1 \<and> \<not> old < new
              then Inr (True, hs1\<lparr>hs_rehash_tbl := False, hs_rehash_bits := 0\<rparr>)
              else hbind (if hs_exiting hs1 then Inr hs1 else rehash_buckets hf [0..<old] hs1) (\<lambda>hs2.
                Inr (hs_exiting hs1,
                  hs2\<lparr>hs_rehash_count := hs_rehash_count hs2 + 1, hs_buckets := free_buckets new (hs_buckets hs2),
                      hs_rehash_tbl := False, hs_cur_bits := hs_rehash_bits hs2, hs_rehash_bits := 0\<rparr>))))"

definition cfs_hash_rehash ::
    "('k \<Rightarrow> u32 \<Rightarrow> u32) \<Rightarrow> (nat option \<Rightarrow> bool) \<Rightarrow> ('k, 'i) cfs_hash \<Rightarrow> ('k, 'i) cfs_hash hs_res" where
  "cfs_hash_rehash hf mem hs =
     hassert (cfs_hash_with_rehash hs \<and> \<not> cfs_hash_with_no_lock hs)
      (let rc = cfs_hash_rehash_bits hs in
       if rc \<le> 0 then Inr hs
       else hbind (cfs_hash_rehash_worker hf mem (hs\<lparr>hs_rehash_bits := nat rc\<rparr>)) (\<lambda>(_, hs1). Inr hs1))"

definition cfs_hash_maybe_rehash ::
    "('k \<Rightarrow> u32 \<Rightarrow> u32) \<Rightarrow> (nat option \<Rightarrow> bool) \<Rightarrow> ('k, 'i) cfs_hash \<Rightarrow> ('k, 'i) cfs_hash hs_res" where
  "cfs_hash_maybe_rehash hf mem hs = (if cfs_hash_rehash_bits hs > 0 then cfs_hash_rehash hf mem hs else Inr hs)"

definition cfs_hash_create ::
    "(nat option \<Rightarrow> bool) \<Rightarrow> nat \<Rightarrow> nat \<Rightarrow> nat \<Rightarrow> int \<Rightarrow> int \<Rightarrow> ('i \<Rightarrow> 'k) \<Rightarrow> ('i \<Rightarrow> int) \<Rightarrow> 16 word \<Rightarrow> ('k, 'i) cfs_hash option hs_res" where
  "cfs_hash_create mem cur_bits max_bits bkt_bits min_theta max_theta keys refs flags0 =
     (let flags = (if flags0 AND push_bit 9 1 \<noteq> 0 then flags0 OR push_bit 7 1 else flags0);
          hs = \<lparr>hs_buckets = (\<lambda>_. new_bucket), hs_count = 0, hs_flags = flags, hs_iterating = False, hs_exiting = False,
                hs_cur_bits = cur_bits, hs_min_bits = cur_bits, hs_max_bits = max_bits, hs_rehash_bits = 0,
                hs_bkt_bits = bkt_bits, hs_min_theta = 0, hs_max_theta = 0, hs_rehash_count = 0, hs_iterators = 0,
                hs_refcount = 1, hs_rehash_tbl = False, hs_ref = refs, hs_keys = keys\<rparr>
      in hassert (cur_bits > 0 \<and> cur_bits \<ge> bkt_bits \<and> max_bits \<ge> cur_bits \<and> max_bits < 31
             \<and> (\<not> cfs_hash_with_rehash hs \<longrightarrow> cur_bits = max_bits)
             \<and> (cfs_hash_with_rehash hs \<longrightarrow> \<not> cfs_hash_with_no_lock hs))
         (if \<not> cfs_hash_with_no_lock hs \<and> \<not> cfs_hash_with_no_bktlock hs
             \<and> \<not> cfs_hash_with_rw_bktlock hs \<and> \<not> cfs_hash_with_spin_bktlock hs
          then Inl Hs_bug
          else hbind (if cfs_hash_with_rehash hs
                      then hassert (min_theta < max_theta)
                             (Inr (hs\<lparr>hs_min_theta := min_theta mod 65536, hs_max_theta := max_theta mod 65536\<rparr>))
                      else Inr hs)
            (\<lambda>hs1. case cfs_hash_buckets_realloc mem 0 (CFS_HASH_NBKT hs1) (\<lambda>_. new_bucket) of
                None \<Rightarrow> Inr None | Some bkts \<Rightarrow> Inr (Some (hs1\<lparr>hs_buckets := bkts\<rparr>)))))"

section \<open>Operations\<close>

text \<open>hlist_unhashed: the item is on no chain.\<close>

definition hs_hashed :: "('k, 'i) cfs_hash \<Rightarrow> 'i \<Rightarrow> bool" where
  "hs_hashed hs x \<longleftrightarrow>
     (\<exists>b \<in> {0..<CFS_HASH_NBKT hs}. \<exists>off \<in> {0..<CFS_HASH_BKT_NHLIST hs}. x \<in> set (hs_chain hs (b, off)))"

definition cfs_hash_add ::
    "('k \<Rightarrow> u32 \<Rightarrow> u32) \<Rightarrow> (nat option \<Rightarrow> bool) \<Rightarrow> 'k \<Rightarrow> 'i \<Rightarrow> ('k, 'i) cfs_hash \<Rightarrow> ('k, 'i) cfs_hash hs_res" where
  "cfs_hash_add hf mem key x hs =
     hassert (\<not> hs_hashed hs x)
       (hbind (cfs_hash_bd_get hf key hs) (\<lambda>bd. cfs_hash_maybe_rehash hf mem (cfs_hash_bd_add_locked bd x hs)))"

definition cfs_hash_find_or_add ::
    "('k \<Rightarrow> u32 \<Rightarrow> u32) \<Rightarrow> (nat option \<Rightarrow> bool) \<Rightarrow> 'k \<Rightarrow> 'i \<Rightarrow> bool \<Rightarrow> ('k, 'i) cfs_hash \<Rightarrow> ('i \<times> ('k, 'i) cfs_hash) hs_res" where
  "cfs_hash_find_or_add hf mem key x noref hs =
     hassert (\<not> hs_hashed hs x)
       (hbind (cfs_hash_dual_bd_get hf key hs) (\<lambda>bds.
          hbind (cfs_hash_multi_bd_findadd_locked hf bds key x noref hs) (\<lambda>(e, hs1).
            if e = x then hbind (cfs_hash_maybe_rehash hf mem hs1) (\<lambda>hs2. Inr (e, hs2)) else Inr (e, hs1))))"

definition cfs_hash_add_unique ::
    "('k \<Rightarrow> u32 \<Rightarrow> u32) \<Rightarrow> (nat option \<Rightarrow> bool) \<Rightarrow> 'k \<Rightarrow> 'i \<Rightarrow> ('k, 'i) cfs_hash \<Rightarrow> (int \<times> ('k, 'i) cfs_hash) hs_res" where
  "cfs_hash_add_unique hf mem key x hs =
     hbind (cfs_hash_find_or_add hf mem key x True hs) (\<lambda>(e, hs1). Inr (if e \<noteq> x then - EALREADY else 0, hs1))"

definition cfs_hash_findadd_unique ::
    "('k \<Rightarrow> u32 \<Rightarrow> u32) \<Rightarrow> (nat option \<Rightarrow> bool) \<Rightarrow> 'k \<Rightarrow> 'i \<Rightarrow> ('k, 'i) cfs_hash \<Rightarrow> ('i \<times> ('k, 'i) cfs_hash) hs_res" where
  "cfs_hash_findadd_unique hf mem key x hs = cfs_hash_find_or_add hf mem key x False hs"

definition cfs_hash_del ::
    "('k \<Rightarrow> u32 \<Rightarrow> u32) \<Rightarrow> (nat option \<Rightarrow> bool) \<Rightarrow> 'k \<Rightarrow> 'i option \<Rightarrow> ('k, 'i) cfs_hash \<Rightarrow> ('i option \<times> ('k, 'i) cfs_hash) hs_res" where
  "cfs_hash_del hf mem key hnode hs =
     hbind (cfs_hash_dual_bd_get hf key hs) (\<lambda>bds.
       hbind (case hnode of
                Some x \<Rightarrow>
                  if hs_hashed hs x
                  then if length bds = 1
                       then hbind (cfs_hash_bd_del_locked (hd bds) x hs) (\<lambda>hs1. Inr (Some x, hs1))
                       else cfs_hash_multi_bd_finddel_locked bds key (Some x) hs
                  else Inr (Some x, hs)
              | None \<Rightarrow> cfs_hash_multi_bd_finddel_locked bds key None hs)
         (\<lambda>(r, hs1). case r of
            None \<Rightarrow> Inr (None, hs1)
          | Some e \<Rightarrow> hbind (cfs_hash_maybe_rehash hf mem hs1) (\<lambda>hs2. Inr (Some e, hs2))))"

definition cfs_hash_del_key ::
    "('k \<Rightarrow> u32 \<Rightarrow> u32) \<Rightarrow> (nat option \<Rightarrow> bool) \<Rightarrow> 'k \<Rightarrow> ('k, 'i) cfs_hash \<Rightarrow> ('i option \<times> ('k, 'i) cfs_hash) hs_res" where
  "cfs_hash_del_key hf mem key hs = cfs_hash_del hf mem key None hs"

definition cfs_hash_lookup ::
    "('k \<Rightarrow> u32 \<Rightarrow> u32) \<Rightarrow> 'k \<Rightarrow> ('k, 'i) cfs_hash \<Rightarrow> ('i option \<times> ('k, 'i) cfs_hash) hs_res" where
  "cfs_hash_lookup hf key hs =
     hbind (cfs_hash_dual_bd_get hf key hs) (\<lambda>bds. cfs_hash_multi_bd_lookup_locked bds key hs)"

section \<open>Iteration\<close>

definition cfs_hash_rehash_cancel_locked :: "('k, 'i) cfs_hash \<Rightarrow> ('k, 'i) cfs_hash hs_res" where
  "cfs_hash_rehash_cancel_locked hs = hassert (cfs_hash_with_rehash hs \<and> \<not> cfs_hash_with_no_lock hs) (Inr hs)"

definition cfs_hash_for_each_enter :: "('k, 'i) cfs_hash \<Rightarrow> ('k, 'i) cfs_hash hs_res" where
  "cfs_hash_for_each_enter hs =
     hassert (\<not> hs_exiting hs)
       (if \<not> cfs_hash_with_rehash hs then Inr hs
        else let hs1 = hs\<lparr>hs_iterating := True, hs_iterators := hs_iterators hs + 1\<rparr> in
             if cfs_hash_is_rehashing hs1 then cfs_hash_rehash_cancel_locked hs1 else Inr hs1)"

definition cfs_hash_for_each_exit ::
    "('k \<Rightarrow> u32 \<Rightarrow> u32) \<Rightarrow> (nat option \<Rightarrow> bool) \<Rightarrow> ('k, 'i) cfs_hash \<Rightarrow> ('k, 'i) cfs_hash hs_res" where
  "cfs_hash_for_each_exit hf mem hs =
     (if \<not> cfs_hash_with_rehash hs then Inr hs
      else let hs1 = hs\<lparr>hs_iterators := hs_iterators hs - 1\<rparr>;
               bits = cfs_hash_rehash_bits hs1;
               hs2 = (if hs_iterators hs1 = 0 then hs1\<lparr>hs_iterating := False\<rparr> else hs1)
           in if bits > 0 then cfs_hash_rehash hf mem hs2 else Inr hs2)"

text \<open>The loops call \<open>f\<close> on each item with its place; the loop over a chain
  saves the successor, so that \<open>f\<close> may delete the item it is called on.  The
  first result says whether \<open>f\<close> has stopped the iteration.\<close>

type_synonym ('k, 'i, 'd) hs_cb =
  "'i \<Rightarrow> hs_bd \<Rightarrow> ('k, 'i) cfs_hash \<times> 'd \<Rightarrow> (bool \<times> ('k, 'i) cfs_hash \<times> 'd) hs_res"

fun each_chain :: "('k, 'i, 'd) hs_cb \<Rightarrow> hs_bd \<Rightarrow> 'i list \<Rightarrow> u64 \<times> ('k, 'i) cfs_hash \<times> 'd \<Rightarrow> (bool \<times> u64 \<times> ('k, 'i) cfs_hash \<times> 'd) hs_res" where
  "each_chain f bd [] s = Inr (False, s)"
| "each_chain f bd (x # xs) (n, s) =
     hbind (f x bd s) (\<lambda>(stop, s1). if stop then Inr (True, n + 1, s1) else each_chain f bd xs (n + 1, s1))"

fun each_bds :: "('k, 'i, 'd) hs_cb \<Rightarrow> hs_bd list \<Rightarrow> u64 \<times> ('k, 'i) cfs_hash \<times> 'd \<Rightarrow> (bool \<times> u64 \<times> ('k, 'i) cfs_hash \<times> 'd) hs_res" where
  "each_bds f [] s = Inr (False, s)"
| "each_bds f (bd # bds) (n, hs, d) =
     hbind (each_chain f bd (hs_chain hs bd) (n, hs, d)) (\<lambda>(stop, s1). if stop then Inr (True, s1) else each_bds f bds s1)"

definition all_bds :: "('k, 'i) cfs_hash \<Rightarrow> hs_bd list" where
  "all_bds hs = List.product [0..<CFS_HASH_NBKT hs] [0..<CFS_HASH_BKT_NHLIST hs]"

definition cfs_hash_for_each_tight ::
    "('k \<Rightarrow> u32 \<Rightarrow> u32) \<Rightarrow> (nat option \<Rightarrow> bool) \<Rightarrow> ('k, 'i, 'd) hs_cb option \<Rightarrow> 'd \<Rightarrow> ('k, 'i) cfs_hash
       \<Rightarrow> (u64 \<times> ('k, 'i) cfs_hash \<times> 'd) hs_res" where
  "cfs_hash_for_each_tight hf mem f d hs =
     hbind (cfs_hash_for_each_enter hs) (\<lambda>hs1.
       hassert (\<not> cfs_hash_is_rehashing hs1)
        (hbind (case f of
                  None \<Rightarrow> Inr (sum_list (map (\<lambda>b. ucast (hsb_count (hs_buckets hs1 b))) [0..<CFS_HASH_NBKT hs1]), hs1, d)
                | Some f \<Rightarrow> hbind (each_bds f (all_bds hs1) (0, hs1, d)) (\<lambda>(_, s). Inr s))
          (\<lambda>(n, hs2, d2). hbind (cfs_hash_for_each_exit hf mem hs2) (\<lambda>hs3. Inr (n, hs3, d2)))))"

definition cfs_hash_cond_del_locked :: "('i \<Rightarrow> bool) \<Rightarrow> ('k, 'i, unit) hs_cb" where
  "cfs_hash_cond_del_locked c x bd s =
     (if c x then hbind (cfs_hash_bd_del_locked bd x (fst s)) (\<lambda>hs1. Inr (False, hs1, ())) else Inr (False, s))"

definition cfs_hash_cond_del ::
    "('k \<Rightarrow> u32 \<Rightarrow> u32) \<Rightarrow> (nat option \<Rightarrow> bool) \<Rightarrow> ('i \<Rightarrow> bool) \<Rightarrow> ('k, 'i) cfs_hash \<Rightarrow> ('k, 'i) cfs_hash hs_res" where
  "cfs_hash_cond_del hf mem c hs =
     hbind (cfs_hash_for_each_tight hf mem (Some (cfs_hash_cond_del_locked c)) () hs) (\<lambda>(_, hs1, _). Inr hs1)"

definition cfs_hash_peek :: "('k, 'i, bool) hs_cb" where
  "cfs_hash_peek x bd s = Inr (True, fst s, False)"

definition cfs_hash_is_empty ::
    "('k \<Rightarrow> u32 \<Rightarrow> u32) \<Rightarrow> (nat option \<Rightarrow> bool) \<Rightarrow> ('k, 'i) cfs_hash \<Rightarrow> (bool \<times> ('k, 'i) cfs_hash) hs_res" where
  "cfs_hash_is_empty hf mem hs =
     hbind (cfs_hash_for_each_tight hf mem (Some cfs_hash_peek) True hs) (\<lambda>(_, hs1, e). Inr (e, hs1))"

definition cfs_hash_size_get ::
    "('k \<Rightarrow> u32 \<Rightarrow> u32) \<Rightarrow> (nat option \<Rightarrow> bool) \<Rightarrow> ('k, 'i) cfs_hash \<Rightarrow> (u64 \<times> ('k, 'i) cfs_hash) hs_res" where
  "cfs_hash_size_get hf mem hs =
     (if cfs_hash_with_counter hs then Inr (word_of_int (hs_count hs), hs)
      else hbind (cfs_hash_for_each_tight hf mem (None :: ('k, 'i, unit) hs_cb option) () hs) (\<lambda>(n, hs1, _). Inr (n, hs1)))"

section \<open>Changing a key, and the end\<close>

definition cfs_hash_rehash_key ::
    "('k \<Rightarrow> u32 \<Rightarrow> u32) \<Rightarrow> 'k \<Rightarrow> 'k \<Rightarrow> 'i \<Rightarrow> ('k, 'i) cfs_hash \<Rightarrow> ('k, 'i) cfs_hash hs_res" where
  "cfs_hash_rehash_key hf old_key new_key x hs =
     hassert (hs_hashed hs x)
       (hbind (cfs_hash_dual_bd_get hf old_key hs) (\<lambda>old_bds.
        hbind (cfs_hash_bd_get hf new_key hs) (\<lambda>new_bd.
        hbind (if length old_bds = 1 then cfs_hash_bd_move_locked (hd old_bds) new_bd x hs
               else hbind (cfs_hash_multi_bd_finddel_locked old_bds old_key (Some x) hs)
                      (\<lambda>(_, hs1). Inr (cfs_hash_bd_add_locked new_bd x hs1)))
          (\<lambda>hs1. Inr (hs1\<lparr>hs_keys := (hs_keys hs1)(x := new_key)\<rparr>)))))"

fun destroy_chain :: "hs_bd \<Rightarrow> 'i list \<Rightarrow> ('k, 'i) cfs_hash \<Rightarrow> ('k, 'i) cfs_hash hs_res" where
  "destroy_chain bd [] hs = Inr hs"
| "destroy_chain bd (x # xs) hs =
     hassert (\<not> cfs_hash_with_assert_empty hs) (hbind (cfs_hash_bd_del_locked bd x hs) (destroy_chain bd xs))"

fun destroy_bds :: "nat \<Rightarrow> nat list \<Rightarrow> ('k, 'i) cfs_hash \<Rightarrow> ('k, 'i) cfs_hash hs_res" where
  "destroy_bds b [] hs = Inr hs"
| "destroy_bds b (off # offs) hs = hbind (destroy_chain (b, off) (hs_chain hs (b, off)) hs) (destroy_bds b offs)"

fun destroy_buckets :: "nat list \<Rightarrow> ('k, 'i) cfs_hash \<Rightarrow> ('k, 'i) cfs_hash hs_res" where
  "destroy_buckets [] hs = Inr hs"
| "destroy_buckets (b # bs) hs =
     hbind (destroy_bds b [0..<CFS_HASH_BKT_NHLIST hs] hs) (\<lambda>hs1.
       hassert (hsb_count (hs_buckets hs1 b) = 0) (destroy_buckets bs hs1))"

definition cfs_hash_destroy :: "('k, 'i) cfs_hash \<Rightarrow> ('k, 'i) cfs_hash hs_res" where
  "cfs_hash_destroy hs =
     hassert (\<not> hs_exiting hs \<and> \<not> cfs_hash_is_iterating hs)
       (let hs1 = hs\<lparr>hs_exiting := True\<rparr> in
        hbind (if cfs_hash_with_rehash hs1 then cfs_hash_rehash_cancel_locked hs1 else Inr hs1) (\<lambda>hs2.
          hassert (\<not> hs_rehash_tbl hs2)
            (hbind (destroy_buckets [0..<CFS_HASH_NBKT hs2] hs2) (\<lambda>hs3. hassert (hs_count hs3 = 0) (Inr hs3)))))"

definition cfs_hash_getref :: "('k, 'i) cfs_hash \<Rightarrow> ('k, 'i) cfs_hash option" where
  "cfs_hash_getref hs = (if hs_refcount hs \<noteq> 0 then Some (hs\<lparr>hs_refcount := hs_refcount hs + 1\<rparr>) else None)"

definition cfs_hash_putref :: "('k, 'i) cfs_hash \<Rightarrow> ('k, 'i) cfs_hash hs_res" where
  "cfs_hash_putref hs =
     (let hs1 = hs\<lparr>hs_refcount := hs_refcount hs - 1\<rparr> in
      if hs_refcount hs1 = 0 then cfs_hash_destroy hs1 else Inr hs1)"

section \<open>Hash functions\<close>

text \<open>Characters are signed; the u32 hash multiplies in 64 bits.\<close>

definition cfs_hash_djb2_hash :: "string \<Rightarrow> u32 \<Rightarrow> u32" where
  "cfs_hash_djb2_hash key msk = foldl (\<lambda>hash c. hash * 33 + scast (of_char c :: 8 word)) 5381 key AND msk"

definition cfs_hash_u32_hash :: "u32 \<Rightarrow> u32 \<Rightarrow> u32" where
  "cfs_hash_u32_hash key msk = ucast ((ucast key * 0x9e370001 :: u64) AND ucast msk)"

definition cfs_hash_u64_hash :: "u64 \<Rightarrow> u32 \<Rightarrow> u32" where
  "cfs_hash_u64_hash key msk = ucast (key * 0x9e37fffffffc0001) AND msk"

end
