(* ===== verification/NrsTbf.thy ===== *)
theory NrsTbf
  imports BinHeap CfsHash
begin

text \<open>
  The token bucket filter scheduler of src/lustre/nrstbf.h and nrstbf.cpp with
  its job policy.  Clients and rules are objects named by numbers; the client
  hash (src/lustre/cfshash.cpp) is seen through its contract as a list of
  (job, client) entries, with the bucket of a job computed as the code does;
  the binary heap is the one of BinHeap, ordered by the comparison on the
  clients' current fields.  Faults stand for failed assertions, NULL
  dereferences, divisions by zero and a timer armed for a tick that is not in
  the future.  The job name of an I/O is an array in it,
  so it is never NULL.  The statistics files are not modelled.
\<close>

section \<open>Data\<close>

record tmsg =
  tm_id :: nat
  tm_jobid :: string

record tbf_client =
  tc_jobid :: string
  tc_ref :: int
  tc_rule :: "nat option"
  tc_rule_generation :: u64
  tc_rpc_rate :: u64
  tc_nsecs :: u64
  tc_ntoken :: u64
  tc_depth :: u64
  tc_check_time :: u64
  tc_in_heap :: bool
  tc_rule_sequence :: u32
  tc_queue :: "tmsg nrs_fifo"
  tc_backlog_ckpt :: u64

record tbf_rule =
  tr_name :: string
  tr_jobids :: "string list"
  tr_rpc_rate :: u64
  tr_nsecs :: u64
  tr_depth :: u64
  tr_cli_list :: "nat list"
  tr_dependency :: bool
  tr_ref :: int
  tr_generation :: u64
  tr_deprule :: nat
  tr_upper_rate :: u64
  tr_lower_rate :: u64
  tr_speedup :: u64
  tr_last_round :: u64
  tr_lastActiveTime :: u64
  tr_nsecsBacklog :: u64
  tr_checkTime :: u64

text \<open>\<open>tb_cli\<close> and \<open>tb_rule\<close> are the heap objects; the client numbers below
  \<open>tb_ncli\<close> have been allocated.  \<open>th_list\<close> has the newest rule first;
  \<open>th_timer\<close> is the time the timer is armed for; \<open>tb_ptr\<close> is the field ptr of
  the I/O of a message.\<close>

record nrs_tbf = scheduler_base +
  tb_cli :: "nat \<Rightarrow> tbf_client"
  tb_ncli :: nat
  tb_rule :: "nat \<Rightarrow> tbf_rule"
  tb_ptr :: "nat \<Rightarrow> nat option"
  th_list :: "nat list"
  th_rule :: "nat option"
  th_rule_sequence :: u32
  th_timer :: "cfs_time option"
  th_deadline :: u64
  th_binheap :: "nat cfs_binheap"
  th_cli_hash :: "(string \<times> nat) list"
  ntb_lru :: "nat \<Rightarrow> nat list"

text \<open>The parameters of the simulation the scheduler reads.\<close>

record tbf_params =
  TbfDepth :: u64
  Rate :: "nat \<Rightarrow> u64"
  DepIndex :: "nat \<Rightarrow> int"
  UpperRate :: "nat \<Rightarrow> u64"
  LowerRate :: "nat \<Rightarrow> u64"
  Alpha :: u64
  Beta :: u64

abbreviation "NSEC_PER_SEC \<equiv> 1000000000 :: u64"

datatype tbf_fault = Assert_failed | Null_deref | Div_by_zero | Timer_not_in_future

type_synonym 'a tbf_res = "tbf_fault + 'a"

definition bind_res :: "'a tbf_res \<Rightarrow> ('a \<Rightarrow> 'b tbf_res) \<Rightarrow> 'b tbf_res" where
  "bind_res r f = (case r of Inl e \<Rightarrow> Inl e | Inr x \<Rightarrow> f x)"

definition check :: "bool \<Rightarrow> 'a tbf_res \<Rightarrow> 'a tbf_res" where
  "check P r = (if P then r else Inl Assert_failed)"

lemma bind_res_Inr [simp]: "bind_res (Inr x) f = f x" "bind_res (Inl e) f = Inl e"
  by (simp_all add: bind_res_def)

lemma bind_res_eq: "bind_res r f = Inr y \<longleftrightarrow> (\<exists>x. r = Inr x \<and> f x = Inr y)"
  by (cases r) auto

lemma check_eq: "check P r = Inr y \<longleftrightarrow> P \<and> r = Inr y"
  by (simp add: check_def)

definition set_cli :: "nat \<Rightarrow> tbf_client \<Rightarrow> nrs_tbf \<Rightarrow> nrs_tbf" where
  "set_cli i c s = s\<lparr>tb_cli := (tb_cli s)(i := c)\<rparr>"

definition set_rule :: "nat \<Rightarrow> tbf_rule \<Rightarrow> nrs_tbf \<Rightarrow> nrs_tbf" where
  "set_rule r x s = s\<lparr>tb_rule := (tb_rule s)(r := x)\<rparr>"

section \<open>The heap of clients\<close>

text \<open>The time at which the next token of a client is due.\<close>

abbreviation tc_due :: "tbf_client \<Rightarrow> u64" where
  "tc_due c \<equiv> tc_check_time c + tc_nsecs c"

definition tbf_cli_compare :: "(nat \<Rightarrow> tbf_client) \<Rightarrow> nat \<Rightarrow> nat \<Rightarrow> bool" where
  "tbf_cli_compare c i j =
     (if tc_due (c i) < tc_due (c j) then True
      else if tc_due (c i) > tc_due (c j) then False
      else if tc_check_time (c i) < tc_check_time (c j) then True
      else if tc_check_time (c i) > tc_check_time (c j) then False
      else True)"

text \<open>cfs_binheap_relocate and cfs_binheap_remove are called for their
  effect; the result of the heap's assertions is a fault.\<close>

definition tbf_relocate :: "nat \<Rightarrow> nrs_tbf \<Rightarrow> nrs_tbf tbf_res" where
  "tbf_relocate i s =
     (case cfs_binheap_relocate (tbf_cli_compare (tb_cli s)) i (th_binheap s) of
        None \<Rightarrow> Inl Assert_failed
      | Some h \<Rightarrow> Inr (s\<lparr>th_binheap := h\<rparr>))"

section \<open>Rules\<close>

definition nrs_tbf_jobid_list_match :: "string list \<Rightarrow> string \<Rightarrow> bool" where
  "nrs_tbf_jobid_list_match jobid_list jobid = list_ex (\<lambda>j. jobid = j) jobid_list"

definition nrs_tbf_jobid_rule_match :: "tbf_rule \<Rightarrow> tbf_client \<Rightarrow> bool" where
  "nrs_tbf_jobid_rule_match rule cli = nrs_tbf_jobid_list_match (tr_jobids rule) (tc_jobid cli)"

definition nrs_tbf_rule_get :: "nat \<Rightarrow> nrs_tbf \<Rightarrow> nrs_tbf" where
  "nrs_tbf_rule_get r s = set_rule r (tb_rule s r\<lparr>tr_ref := tr_ref (tb_rule s r) + 1\<rparr>) s"

definition nrs_tbf_rule_match :: "tbf_client \<Rightarrow> nrs_tbf \<Rightarrow> (nat \<times> nrs_tbf) tbf_res" where
  "nrs_tbf_rule_match cli s =
     (case find (\<lambda>r. nrs_tbf_jobid_rule_match (tb_rule s r) cli) (th_list s) of
        Some r \<Rightarrow> Inr (r, nrs_tbf_rule_get r s)
      | None \<Rightarrow> (case th_rule s of None \<Rightarrow> Inl Null_deref | Some r \<Rightarrow> Inr (r, nrs_tbf_rule_get r s)))"

definition nrs_tbf_rule_put :: "nat \<Rightarrow> nrs_tbf \<Rightarrow> nrs_tbf tbf_res" where
  "nrs_tbf_rule_put r s =
     (let s1 = set_rule r (tb_rule s r\<lparr>tr_ref := tr_ref (tb_rule s r) - 1\<rparr>) s in
      if tr_ref (tb_rule s1 r) = 0
      then check (tr_cli_list (tb_rule s1 r) = [] \<and> r \<notin> set (th_list s1)) (Inr s1)
      else Inr s1)"

definition nrs_tbf_cli_rule_put :: "nat \<Rightarrow> nrs_tbf \<Rightarrow> nrs_tbf tbf_res" where
  "nrs_tbf_cli_rule_put i s =
     (case tc_rule (tb_cli s i) of
        None \<Rightarrow> Inl Assert_failed
      | Some r \<Rightarrow>
          check (i \<in> set (tr_cli_list (tb_rule s r)))
            (bind_res (nrs_tbf_rule_put r
                (set_rule r (tb_rule s r\<lparr>tr_cli_list := removeAll i (tr_cli_list (tb_rule s r))\<rparr>) s))
              (\<lambda>s1. Inr (set_cli i (tb_cli s1 i\<lparr>tc_rule := None\<rparr>) s1))))"

section \<open>Clients\<close>

definition nrs_tbf_cli_reset_value :: "cfs_time \<Rightarrow> bool \<Rightarrow> nat \<Rightarrow> nrs_tbf \<Rightarrow> nrs_tbf tbf_res" where
  "nrs_tbf_cli_reset_value clk keep i s =
     (case tc_rule (tb_cli s i) of
        None \<Rightarrow> Inl Null_deref
      | Some r \<Rightarrow>
          let rule = tb_rule s r;
              c1 = (tb_cli s i)\<lparr>tc_rpc_rate := tr_rpc_rate rule, tc_nsecs := tr_nsecs rule,
                      tc_depth := tr_depth rule, tc_rule_sequence := th_rule_sequence s,
                      tc_rule_generation := tr_generation rule\<rparr>;
              c2 = (if \<not> keep then c1\<lparr>tc_ntoken := tr_depth rule, tc_check_time := clk\<rparr> else c1);
              s1 = set_cli i c2 s
          in if tc_in_heap c2 then tbf_relocate i s1 else Inr s1)"

definition nrs_tbf_cli_reset :: "cfs_time \<Rightarrow> nat \<Rightarrow> nat \<Rightarrow> nrs_tbf \<Rightarrow> nrs_tbf tbf_res" where
  "nrs_tbf_cli_reset clk r i s =
     bind_res
       (case tc_rule (tb_cli s i) of
          Some r0 \<Rightarrow> if i \<in> set (tr_cli_list (tb_rule s r0))
                    then check (r \<noteq> r0) (nrs_tbf_cli_rule_put i s) else Inr s
        | None \<Rightarrow> Inr s)
       (\<lambda>s1. check (tc_rule (tb_cli s1 i) = None)
          (nrs_tbf_cli_reset_value clk False i
            (set_rule r (tb_rule s1 r\<lparr>tr_cli_list := tr_cli_list (tb_rule s1 r) @ [i]\<rparr>)
              (set_cli i (tb_cli s1 i\<lparr>tc_rule := Some r\<rparr>) s1))))"

definition LUSTRE_JOBID_SIZE :: nat where "LUSTRE_JOBID_SIZE = 32"

text \<open>The client of a message is allocated and filled in; \<open>i\<close> is its
  number.\<close>

definition nrs_tbf_cli_init :: "cfs_time \<Rightarrow> tmsg \<Rightarrow> nrs_tbf \<Rightarrow> (nat \<times> nrs_tbf) tbf_res" where
  "nrs_tbf_cli_init clk m s =
     (let i = tb_ncli s;
          c = \<lparr>tc_jobid = tm_jobid m, tc_ref = 1, tc_rule = None, tc_rule_generation = 0, tc_rpc_rate = 0,
               tc_nsecs = 0, tc_ntoken = 0, tc_depth = 0, tc_check_time = 0, tc_in_heap = False,
               tc_rule_sequence = 0, tc_queue = NrsFifo_new, tc_backlog_ckpt = 0\<rparr>
      in check (length (tm_jobid m) < LUSTRE_JOBID_SIZE)
           (bind_res (nrs_tbf_rule_match c (set_cli i c (s\<lparr>tb_ncli := i + 1\<rparr>)))
             (\<lambda>(r, s1). bind_res (nrs_tbf_cli_reset clk r i s1) (\<lambda>s2. Inr (i, s2)))))"

definition nrs_tbf_cli_fini :: "nat \<Rightarrow> nrs_tbf \<Rightarrow> nrs_tbf tbf_res" where
  "nrs_tbf_cli_fini i s =
     check (Scheduler_Empty (tc_queue (tb_cli s i)) \<and> \<not> tc_in_heap (tb_cli s i) \<and> tc_ref (tb_cli s i) = 0)
       (nrs_tbf_cli_rule_put i s)"

section \<open>The hash of clients\<close>

text \<open>The table has \<open>2 ^ bits\<close> chains in buckets of \<open>2 ^ 10\<close>; the bucket of a job
  is the one of CfsHash.\<close>

abbreviation tbf_jobid_cache_size :: nat where "tbf_jobid_cache_size \<equiv> 8192"
abbreviation NRS_TBF_JOBID_BKT_BITS :: nat where "NRS_TBF_JOBID_BKT_BITS \<equiv> 10"

function hash_order_loop :: "nat \<Rightarrow> nat" where
  "hash_order_loop bits = (if 2 ^ bits < tbf_jobid_cache_size then hash_order_loop (bits + 1) else bits)"
  by pat_completeness auto
termination
proof (relation "measure (\<lambda>bits. 8192 - 2 ^ bits)")
  fix bits :: nat
  assume "2 ^ bits < (8192 :: nat)"
  moreover have "(2 :: nat) ^ bits < 2 ^ (bits + 1)" by simp
  ultimately show "(bits + 1, bits) \<in> measure (\<lambda>bits. 8192 - 2 ^ bits)"
    unfolding in_measure by linarith
qed simp

declare hash_order_loop.simps [simp del]

definition nrs_tbf_jobid_hash_order :: nat where
  "nrs_tbf_jobid_hash_order = hash_order_loop 1"

definition tbf_hash_bits :: nat where
  "tbf_hash_bits = max nrs_tbf_jobid_hash_order NRS_TBF_JOBID_BKT_BITS"

definition tbf_bucket :: "string \<Rightarrow> nat" where
  "tbf_bucket jobid =
     unat (cfs_hash_djb2_hash jobid (mask tbf_hash_bits)
             AND mask (tbf_hash_bits - NRS_TBF_JOBID_BKT_BITS))"

lemma tbf_bucket_place: "tbf_bucket jobid = fst (bd_of_key cfs_hash_djb2_hash NRS_TBF_JOBID_BKT_BITS tbf_hash_bits jobid)"
  by (simp add: tbf_bucket_def bd_of_key_def Let_def)

definition tbf_bucket_count :: "nat \<Rightarrow> nrs_tbf \<Rightarrow> nat" where
  "tbf_bucket_count b s = length (filter (\<lambda>(j, _). tbf_bucket j = b) (th_cli_hash s))"

definition nrs_tbf_jobid_hash_lookup :: "string \<Rightarrow> nrs_tbf \<Rightarrow> nat option \<times> nrs_tbf" where
  "nrs_tbf_jobid_hash_lookup jobid s =
     (case map_of (th_cli_hash s) jobid of
        None \<Rightarrow> (None, s)
      | Some i \<Rightarrow>
          (Some i, (set_cli i (tb_cli s i\<lparr>tc_ref := tc_ref (tb_cli s i) + 1\<rparr>) s)
             \<lparr>ntb_lru := (ntb_lru s)(tbf_bucket jobid := removeAll i (ntb_lru s (tbf_bucket jobid)))\<rparr>))"

definition nrs_tbf_jobid_cli_find :: "tmsg \<Rightarrow> nrs_tbf \<Rightarrow> nat option \<times> nrs_tbf" where
  "nrs_tbf_jobid_cli_find m s = nrs_tbf_jobid_hash_lookup (tm_jobid m) s"

definition nrs_tbf_jobid_cli_findadd :: "nat \<Rightarrow> nrs_tbf \<Rightarrow> nat \<times> nrs_tbf" where
  "nrs_tbf_jobid_cli_findadd i s =
     (let jobid = tc_jobid (tb_cli s i) in
      case nrs_tbf_jobid_hash_lookup jobid s of
        (Some j, s1) \<Rightarrow> (j, s1)
      | (None, s1) \<Rightarrow> (i, s1\<lparr>th_cli_hash := (jobid, i) # th_cli_hash s1\<rparr>))"

text \<open>The purge of the least recently used clients of a bucket that holds
  more than its share; the zombies are collected first and finalised after.\<close>

fun tbf_purge :: "nat \<Rightarrow> nat \<Rightarrow> nat list \<Rightarrow> nrs_tbf \<Rightarrow> (nat list \<times> nrs_tbf) tbf_res" where
  "tbf_purge hw b lru s =
     (if \<not> tbf_bucket_count b s > hw then Inr ([], s)
      else case lru of
        [] \<Rightarrow> Inr ([], s)
      | i # rest \<Rightarrow>
          check (tc_ref (tb_cli s i) = 0)
            (bind_res (tbf_purge hw b rest
                (s\<lparr>th_cli_hash := filter (\<lambda>(_, j). j \<noteq> i) (th_cli_hash s), ntb_lru := (ntb_lru s)(b := rest)\<rparr>))
              (\<lambda>(zombies, s1). Inr (i # zombies, s1))))"

declare tbf_purge.simps [simp del]

fun tbf_fini_all :: "nat list \<Rightarrow> nrs_tbf \<Rightarrow> nrs_tbf tbf_res" where
  "tbf_fini_all [] s = Inr s"
| "tbf_fini_all (i # zs) s = bind_res (nrs_tbf_cli_fini i s) (tbf_fini_all zs)"

definition nrs_tbf_jobid_cli_put :: "nat \<Rightarrow> nrs_tbf \<Rightarrow> nrs_tbf tbf_res" where
  "nrs_tbf_jobid_cli_put i s =
     (let b = tbf_bucket (tc_jobid (tb_cli s i));
          s1 = set_cli i (tb_cli s i\<lparr>tc_ref := tc_ref (tb_cli s i) - 1\<rparr>) s;
          hw = tbf_jobid_cache_size div 2 ^ (tbf_hash_bits - NRS_TBF_JOBID_BKT_BITS)
      in if tc_ref (tb_cli s1 i) \<noteq> 0 then Inr s1
         else check (i \<notin> set (ntb_lru s1 b))
           (let s2 = s1\<lparr>ntb_lru := (ntb_lru s1)(b := ntb_lru s1 b @ [i])\<rparr> in
            bind_res (tbf_purge hw b (ntb_lru s2 b) s2) (\<lambda>(zombies, s3). tbf_fini_all zombies s3)))"

section \<open>Rules with dependency\<close>

definition tbf_new_rate :: "tbf_params \<Rightarrow> u64 \<Rightarrow> tbf_rule \<Rightarrow> tbf_rule \<Rightarrow> tbf_rule tbf_res" where
  "tbf_new_rate P passed deprule rule =
     (if passed > Alpha P * tr_nsecs deprule div 100 \<and> tr_nsecsBacklog deprule < Beta P * tr_nsecs deprule div 100
      then let lr = (if tr_last_round rule = 0 then 1
                     else min (push_bit 1 (tr_last_round rule)) (tr_upper_rate rule - tr_lower_rate rule - tr_speedup rule))
           in Inr (rule\<lparr>tr_last_round := lr, tr_speedup := tr_speedup rule + lr\<rparr>)
      else if tr_last_round rule > 0
      then check (tr_speedup rule \<ge> tr_last_round rule)
             (Inr (rule\<lparr>tr_speedup := tr_speedup rule - tr_last_round rule, tr_last_round := 0\<rparr>))
      else Inr (rule\<lparr>tr_speedup := drop_bit 1 (tr_speedup rule)\<rparr>))"

definition nrs_tbf_update_rule_rate :: "tbf_params \<Rightarrow> cfs_time \<Rightarrow> nat \<Rightarrow> nrs_tbf \<Rightarrow> nrs_tbf tbf_res" where
  "nrs_tbf_update_rule_rate P now i s =
     (case tc_rule (tb_cli s i) of
        None \<Rightarrow> Inl Assert_failed
      | Some r \<Rightarrow>
          let rule = tb_rule s r; deprule = tb_rule s (tr_deprule rule) in
          if \<not> tr_dependency rule then Inr s
          else if now - tr_checkTime rule < tr_nsecs deprule then Inr s
          else let passed = now - tr_lastActiveTime deprule; oldrate = tr_rpc_rate rule in
            bind_res (tbf_new_rate P passed deprule (rule\<lparr>tr_checkTime := now\<rparr>))
              (\<lambda>r1. let rate = min (tr_upper_rate r1) (tr_speedup r1 + tr_lower_rate r1);
                        r2 = r1\<lparr>tr_rpc_rate := rate\<rparr>
                    in if oldrate \<noteq> rate
                       then if rate = 0 then Inl Div_by_zero
                            else nrs_tbf_cli_reset_value now True i
                                   (set_rule r (r2\<lparr>tr_nsecs := NSEC_PER_SEC div rate\<rparr>) s)
                       else Inr (set_rule r r2 s)))"

section \<open>Enqueue, Dequeue, Finish and the timer\<close>

definition tbf_ModTimer :: "cfs_time \<Rightarrow> cfs_time \<Rightarrow> nrs_tbf \<Rightarrow> nrs_tbf tbf_res" where
  "tbf_ModTimer clk expire s =
     (if th_timer s = Some expire then Inr s
      else if \<not> expire > clk then Inl Timer_not_in_future
      else Inr (s\<lparr>th_timer := Some expire\<rparr>))"

text \<open>The timer callback: the throttling ends. The event loop has taken the
  timer out of its queue.\<close>

definition NrsTbfTimerCallback :: "nrs_tbf \<Rightarrow> nrs_tbf" where
  "NrsTbfTimerCallback s = s\<lparr>th_timer := None, sch_throttling := False\<rparr>"

definition tbf_get_client :: "cfs_time \<Rightarrow> tmsg \<Rightarrow> nrs_tbf \<Rightarrow> (nat \<times> nrs_tbf) tbf_res" where
  "tbf_get_client now m s =
     (case nrs_tbf_jobid_cli_find m s of
        (Some i, s1) \<Rightarrow> Inr (i, s1)
      | (None, s1) \<Rightarrow>
          bind_res (nrs_tbf_cli_init now m s1) (\<lambda>(i, s2).
            case nrs_tbf_jobid_cli_findadd i s2 of
              (tmp, s3) \<Rightarrow>
                if tmp \<noteq> i
                then bind_res (nrs_tbf_cli_fini i (set_cli i (tb_cli s3 i\<lparr>tc_ref := tc_ref (tb_cli s3 i) - 1\<rparr>) s3))
                       (\<lambda>s4. Inr (tmp, s4))
                else Inr (i, s3)))"

text \<open>The first request of a client enters it into the heap; \<open>mem\<close> says
  which allocations of the heap succeed.  The result tells whether the
  request was taken (0) or not (-ENOMEM).\<close>

definition tbf_first_request :: "(nat \<Rightarrow> bool) \<Rightarrow> cfs_time \<Rightarrow> nat \<Rightarrow> tmsg \<Rightarrow> nrs_tbf \<Rightarrow> (bool \<times> nrs_tbf) tbf_res" where
  "tbf_first_request mem now i m s0 =
     check (\<not> tc_in_heap (tb_cli s0 i))
      (let s = set_cli i (tb_cli s0 i\<lparr>tc_backlog_ckpt := now\<rparr>) s0 in
       case cfs_binheap_insert (tbf_cli_compare (tb_cli s)) mem (\<lambda>_. True) i (th_binheap s) of
         None \<Rightarrow> Inl Assert_failed
       | Some (rc, h) \<Rightarrow>
           if rc \<noteq> Rc_ok then Inr (False, s\<lparr>th_binheap := h\<rparr>)
           else let c = tb_cli s i;
                    s1 = (set_cli i (c\<lparr>tc_in_heap := True, tc_queue := NrsFifo_Enqueue m (tc_queue c)\<rparr>) s)
                           \<lparr>th_binheap := h\<rparr>;
                    deadline = tc_due c
                in if sch_throttling s1 \<and> \<not> deadline < now \<and> th_deadline s1 > deadline
                   then check (deadline > now)
                     (bind_res (tbf_ModTimer now deadline (s1\<lparr>th_deadline := deadline\<rparr>)) (\<lambda>s2. Inr (True, s2)))
                   else Inr (True, s1))"

definition NrsTbf_Enqueue :: "tbf_params \<Rightarrow> (nat \<Rightarrow> bool) \<Rightarrow> cfs_time \<Rightarrow> tmsg \<Rightarrow> nrs_tbf \<Rightarrow> (bool \<times> nrs_tbf) tbf_res" where
  "NrsTbf_Enqueue P mem now m s =
     bind_res (tbf_get_client now m s) (\<lambda>(i, s1).
     bind_res (nrs_tbf_update_rule_rate P now i s1) (\<lambda>s2.
     bind_res
       (if Scheduler_Empty (tc_queue (tb_cli s2 i)) then tbf_first_request mem now i m s2
        else check (tc_in_heap (tb_cli s2 i))
          (Inr (True, set_cli i (tb_cli s2 i\<lparr>tc_queue := NrsFifo_Enqueue m (tc_queue (tb_cli s2 i))\<rparr>) s2)))
       (\<lambda>(rc, s3). Inr (rc, s3\<lparr>tb_ptr := (tb_ptr s3)(tm_id m := Some i)\<rparr>))))"

text \<open>The tokens of a client at a time.\<close>

definition tbf_tokens :: "cfs_time \<Rightarrow> tbf_client \<Rightarrow> u64" where
  "tbf_tokens now c =
     (let ntoken = (now - tc_check_time c) div tc_nsecs c + tc_ntoken c in
      if ntoken > tc_depth c then tc_depth c else ntoken)"

text \<open>One request of client \<open>i\<close> is taken, for one token.\<close>

definition tbf_take :: "cfs_time \<Rightarrow> nat \<Rightarrow> nat \<Rightarrow> nrs_tbf \<Rightarrow> (tmsg \<times> nrs_tbf) tbf_res" where
  "tbf_take now i r s =
     (let c = tb_cli s i in
      case NrsFifo_Dequeue (tc_queue c) of
        (None, _) \<Rightarrow> Inl Assert_failed
      | (Some m, q) \<Rightarrow>
          check (tb_ptr s (tm_id m) = Some i)
            (let s1 = set_rule r (tb_rule s r\<lparr>tr_nsecsBacklog := now - tc_backlog_ckpt c\<rparr>) s;
                 s2 = set_cli i (c\<lparr>tc_queue := q, tc_ntoken := tbf_tokens now c - 1, tc_check_time := now,
                        tc_backlog_ckpt := now\<rparr>) s1
             in bind_res
               (if Scheduler_Empty q
                then (case cfs_binheap_remove (tbf_cli_compare (tb_cli s2)) i (th_binheap s2) of
                        None \<Rightarrow> Inl Assert_failed
                      | Some h \<Rightarrow> Inr ((set_cli i (tb_cli s2 i\<lparr>tc_in_heap := False\<rparr>) s2)\<lparr>th_binheap := h\<rparr>))
                else tbf_relocate i s2)
               (\<lambda>s3. Inr (m, s3))))"

definition NrsTbf_Dequeue :: "cfs_time \<Rightarrow> nrs_tbf \<Rightarrow> ((nat \<times> tmsg) option \<times> nrs_tbf) tbf_res" where
  "NrsTbf_Dequeue now s =
     (if sch_throttling s then Inr (None, s)
      else case cfs_binheap_root (th_binheap s) of
        None \<Rightarrow> Inr (None, s)
      | Some i \<Rightarrow>
          let c = tb_cli s i; deadline = tc_due c in
          check (tc_in_heap c \<and> now \<ge> tc_check_time c)
          (if tc_nsecs c = 0 then Inl Div_by_zero
           else case tc_rule c of
             None \<Rightarrow> Inl Assert_failed
           | Some r \<Rightarrow>
               let s1 = set_rule r (tb_rule s r\<lparr>tr_lastActiveTime := now\<rparr>) s in
               if tbf_tokens now c > 0
               then bind_res (tbf_take now i r s1) (\<lambda>(m, s2). Inr (Some (i, m), s2))
               else bind_res (tbf_ModTimer now deadline (s1\<lparr>sch_throttling := True, th_deadline := deadline\<rparr>))
                      (\<lambda>s2. Inr (None, s2))))"

definition NrsTbf_Finish :: "tmsg \<Rightarrow> nrs_tbf \<Rightarrow> nrs_tbf tbf_res" where
  "NrsTbf_Finish m s =
     (case tb_ptr s (tm_id m) of
        None \<Rightarrow> Inl Null_deref
      | Some i \<Rightarrow>
          (case tc_rule (tb_cli s i) of
             None \<Rightarrow> Inl Null_deref
           | Some _ \<Rightarrow> bind_res (nrs_tbf_jobid_cli_put i s)
                         (\<lambda>s1. Inr (s1\<lparr>tb_ptr := (tb_ptr s1)(tm_id m := None)\<rparr>))))"

section \<open>Configuration\<close>

definition digit :: "nat \<Rightarrow> char" where
  "digit n = char_of (48 + n)"

fun dec :: "nat \<Rightarrow> string" where
  "dec n = (if n < 10 then [digit n] else dec (n div 10) @ [digit (n mod 10)])"

declare dec.simps [simp del]

definition rule_name :: "nat \<Rightarrow> string" where
  "rule_name i = ''Rule'' @ dec i"

text \<open>The job list of a rule: the default rule has none, rule \<open>i\<close> has the
  job \<open>i - 1\<close>.\<close>

definition nrs_tbf_jobid_rule_init :: "nat \<Rightarrow> string list" where
  "nrs_tbf_jobid_rule_init i = (if i = 0 then [] else [''JOBID.'' @ dec (i - 1)])"

definition nrs_tbf_rule_find :: "string \<Rightarrow> nrs_tbf \<Rightarrow> nat option" where
  "nrs_tbf_rule_find name s = find (\<lambda>r. tr_name (tb_rule s r) = name) (th_list s)"

definition tbf_configure_rule :: "tbf_params \<Rightarrow> nat \<Rightarrow> nrs_tbf \<Rightarrow> nrs_tbf tbf_res" where
  "tbf_configure_rule P i s =
     (if Rate P i = 0 then Inl Div_by_zero
      else let rule = \<lparr>tr_name = rule_name i, tr_jobids = nrs_tbf_jobid_rule_init i,
              tr_rpc_rate = Rate P i, tr_nsecs = NSEC_PER_SEC div Rate P i, tr_depth = TbfDepth P,
              tr_cli_list = [], tr_dependency = False, tr_ref = 1, tr_generation = 0, tr_deprule = 0,
              tr_upper_rate = 0, tr_lower_rate = 0, tr_speedup = 0, tr_last_round = 0,
              tr_lastActiveTime = 0, tr_nsecsBacklog = 0, tr_checkTime = 0\<rparr>;
            s1 = (set_rule i rule s)\<lparr>th_list := i # th_list s, th_rule_sequence := th_rule_sequence s + 1\<rparr>
      in bind_res
          (if i = 0 then check (th_rule s1 = None \<and> DepIndex P i < 0) (Inr (s1\<lparr>th_rule := Some i\<rparr>)) else Inr s1)
          (\<lambda>s2. if DepIndex P i \<ge> 0
             then check (DepIndex P i < int i)
               (let r = rule\<lparr>tr_upper_rate := UpperRate P i, tr_lower_rate := LowerRate P i,
                            tr_rpc_rate := LowerRate P i, tr_dependency := True\<rparr>;
                    s3 = set_rule i r s2
                in case nrs_tbf_rule_find (rule_name (nat (DepIndex P i))) s3 of
                     None \<Rightarrow> Inl Assert_failed
                   | Some d \<Rightarrow>
                       nrs_tbf_rule_put d
                         (set_rule i (r\<lparr>tr_deprule := d\<rparr>) (nrs_tbf_rule_get d s3)))
             else Inr s2))"

fun tbf_configure_loop :: "tbf_params \<Rightarrow> nat list \<Rightarrow> nrs_tbf \<Rightarrow> nrs_tbf tbf_res" where
  "tbf_configure_loop P [] s = Inr s"
| "tbf_configure_loop P (i # is) s = bind_res (tbf_configure_rule P i s) (tbf_configure_loop P is)"

definition nrs_tbf_configure_rules :: "tbf_params \<Rightarrow> nat \<Rightarrow> nrs_tbf \<Rightarrow> nrs_tbf tbf_res" where
  "nrs_tbf_configure_rules P num s = tbf_configure_loop P [0..<num] s"

text \<open>The constructor; the heap is created empty (its growth on demand is in
  BinHeap).\<close>

definition blank_client :: tbf_client where
  "blank_client = \<lparr>tc_jobid = [], tc_ref = 0, tc_rule = None, tc_rule_generation = 0, tc_rpc_rate = 0,
     tc_nsecs = 0, tc_ntoken = 0, tc_depth = 0, tc_check_time = 0, tc_in_heap = False,
     tc_rule_sequence = 0, tc_queue = NrsFifo_new, tc_backlog_ckpt = 0\<rparr>"

definition blank_rule :: tbf_rule where
  "blank_rule = \<lparr>tr_name = [], tr_jobids = [], tr_rpc_rate = 0, tr_nsecs = 0, tr_depth = 0,
     tr_cli_list = [], tr_dependency = False, tr_ref = 0, tr_generation = 0, tr_deprule = 0,
     tr_upper_rate = 0, tr_lower_rate = 0, tr_speedup = 0, tr_last_round = 0,
     tr_lastActiveTime = 0, tr_nsecsBacklog = 0, tr_checkTime = 0\<rparr>"

definition nrs_tbf_start :: "tbf_params \<Rightarrow> nat \<Rightarrow> nrs_tbf tbf_res" where
  "nrs_tbf_start P num =
     nrs_tbf_configure_rules P num
       \<lparr>sch_size = 0, sch_throttling = False, tb_cli = (\<lambda>_. blank_client), tb_ncli = 0,
        tb_rule = (\<lambda>_. blank_rule), tb_ptr = (\<lambda>_. None), th_list = [], th_rule = None, th_rule_sequence = 0,
        th_timer = None, th_deadline = 0, th_binheap = cbh_new, th_cli_hash = [], ntb_lru = (\<lambda>_. [])\<rparr>"

section \<open>Runs\<close>

datatype tbf_op = Tb_enqueue cfs_time tmsg | Tb_dequeue cfs_time | Tb_finish cfs_time tmsg | Tb_timer cfs_time

fun tb_time :: "tbf_op \<Rightarrow> cfs_time" where
  "tb_time (Tb_enqueue t m) = t"
| "tb_time (Tb_dequeue t) = t"
| "tb_time (Tb_finish t m) = t"
| "tb_time (Tb_timer t) = t"

text \<open>One operation; the timer fires at the time it is armed for.  The
  requests served are listed with their client.\<close>

fun tbf_step :: "tbf_params \<Rightarrow> (nat \<Rightarrow> bool) \<Rightarrow> tbf_op \<Rightarrow> nrs_tbf \<Rightarrow> ((nat \<times> tmsg) list \<times> nrs_tbf) tbf_res" where
  "tbf_step P mem (Tb_enqueue t m) s = bind_res (NrsTbf_Enqueue P mem t m s) (\<lambda>(rc, s'). Inr ([], s'))"
| "tbf_step P mem (Tb_dequeue t) s =
     bind_res (NrsTbf_Dequeue t s) (\<lambda>(r, s'). Inr (case r of None \<Rightarrow> [] | Some x \<Rightarrow> [x], s'))"
| "tbf_step P mem (Tb_finish t m) s = bind_res (NrsTbf_Finish m s) (\<lambda>s'. Inr ([], s'))"
| "tbf_step P mem (Tb_timer t) s = check (th_timer s = Some t) (Inr ([], NrsTbfTimerCallback s))"

fun tbf_run :: "tbf_params \<Rightarrow> (nat \<Rightarrow> bool) \<Rightarrow> tbf_op list \<Rightarrow> nrs_tbf \<Rightarrow> ((nat \<times> tmsg) list \<times> nrs_tbf) tbf_res" where
  "tbf_run P mem [] s = Inr ([], s)"
| "tbf_run P mem (op # ops) s =
     bind_res (tbf_step P mem op s) (\<lambda>(out, s1). bind_res (tbf_run P mem ops s1) (\<lambda>(out', s2). Inr (out @ out', s2)))"

lemma set_simps [simp]:
  "tb_cli (set_rule r x s) = tb_cli s" "tb_rule (set_rule r x s) = (tb_rule s)(r := x)"
  "tb_cli (set_cli i c s) = (tb_cli s)(i := c)" "tb_rule (set_cli i c s) = tb_rule s"
  "th_binheap (set_cli i c s) = th_binheap s" "th_binheap (set_rule r x s) = th_binheap s"
  "tb_ncli (set_cli i c s) = tb_ncli s" "tb_ncli (set_rule r x s) = tb_ncli s"
  "th_list (set_cli i c s) = th_list s" "th_list (set_rule r x s) = th_list s"
  "th_cli_hash (set_cli i c s) = th_cli_hash s" "th_cli_hash (set_rule r x s) = th_cli_hash s"
  "sch_throttling (set_cli i c s) = sch_throttling s" "sch_throttling (set_rule r x s) = sch_throttling s"
  "th_timer (set_cli i c s) = th_timer s" "th_timer (set_rule r x s) = th_timer s"
  "th_deadline (set_cli i c s) = th_deadline s" "th_deadline (set_rule r x s) = th_deadline s"
  "ntb_lru (set_cli i c s) = ntb_lru s" "ntb_lru (set_rule r x s) = ntb_lru s"
  "tb_ptr (set_cli i c s) = tb_ptr s" "tb_ptr (set_rule r x s) = tb_ptr s"
  "th_rule (set_cli i c s) = th_rule s" "th_rule (set_rule r x s) = th_rule s"
  "th_rule_sequence (set_cli i c s) = th_rule_sequence s" "th_rule_sequence (set_rule r x s) = th_rule_sequence s"
  by (simp_all add: set_cli_def set_rule_def)

end
