(* ===== verification/TbfLive.thy ===== *)
theory TbfLive
  imports NrsTbf "HOL-Library.Product_Lexorder"
begin

text \<open>
  The invariant of the token bucket filter of NrsTbf (the heap is ordered by
  the due times of the clients and holds exactly those with requests), its
  preservation by every operation, and the progress it gives: a waiting
  request is served or the timer is armed for the time at which one is.
\<close>

section \<open>The invariant\<close>

definition tbf_rank :: "(nat \<Rightarrow> tbf_client) \<Rightarrow> nat \<Rightarrow> nat \<times> nat" where
  "tbf_rank c i = (unat (tc_due (c i)), unat (tc_check_time (c i)))"

lemma tbf_ranked: "ranked (tbf_cli_compare c) (tbf_rank c)"
  by (auto simp: ranked_def tbf_cli_compare_def tbf_rank_def less_eq_prod_def word_less_nat_alt)

definition tb_ready :: "cfs_time \<Rightarrow> tbf_client \<Rightarrow> bool" where
  "tb_ready now c \<longleftrightarrow> 0 < tc_nsecs c \<and> tc_nsecs c \<le> NSEC_PER_SEC \<and> 0 < tc_depth c \<and> tc_depth c < 2147483648
     \<and> tc_ntoken c \<le> tc_depth c \<and> tc_check_time c \<le> now"

definition tb_rule_ok :: "tbf_rule \<Rightarrow> bool" where
  "tb_rule_ok r \<longleftrightarrow> 0 < tr_nsecs r \<and> tr_nsecs r \<le> NSEC_PER_SEC \<and> 0 < tr_depth r \<and> tr_depth r < 2147483648
     \<and> (tr_dependency r \<longrightarrow> tr_upper_rate r \<le> NSEC_PER_SEC)"

text \<open>The clients: those with requests are in the heap, each is bound to a
  rule and has at most a bucket of tokens.\<close>

definition tb_cli_ok :: "cfs_time \<Rightarrow> nrs_tbf \<Rightarrow> nat \<Rightarrow> bool" where
  "tb_cli_ok now s i \<longleftrightarrow> fifo_ok (tc_queue (tb_cli s i))
     \<and> (tc_in_heap (tb_cli s i) \<longleftrightarrow> fifo_Q (tc_queue (tb_cli s i)) \<noteq> [])
     \<and> (tc_in_heap (tb_cli s i) \<longrightarrow> tc_rule (tb_cli s i) \<noteq> None)
     \<and> (case tc_rule (tb_cli s i) of None \<Rightarrow> True
        | Some r \<Rightarrow> tb_ready now (tb_cli s i) \<and> tb_rule_ok (tb_rule s r) \<and> i < tb_ncli s
               \<and> tc_depth (tb_cli s i) = tr_depth (tb_rule s r))"

text \<open>The messages in a queue point to its client.\<close>

definition tb_ptr_ok :: "nrs_tbf \<Rightarrow> bool" where
  "tb_ptr_ok s \<longleftrightarrow> (\<forall>i. \<forall>m \<in> set (fifo_Q (tc_queue (tb_cli s i))). tb_ptr s (tm_id m) = Some i)"

definition tb_inv :: "cfs_time \<Rightarrow> nrs_tbf \<Rightarrow> bool" where
  "tb_inv now s \<longleftrightarrow> cbh_ok (tbf_rank (tb_cli s)) (th_binheap s)
     \<and> (\<forall>i. i \<in># cbh_bag (th_binheap s) \<longleftrightarrow> tc_in_heap (tb_cli s i))
     \<and> (\<forall>i. tb_cli_ok now s i)
     \<and> (\<forall>r \<in> set (th_list s) \<union> set_option (th_rule s). tb_rule_ok (tb_rule s r))
     \<and> (sch_throttling s \<longrightarrow> th_timer s \<noteq> None)"

lemma tb_invD:
  assumes "tb_inv now s"
  shows "cbh_ok (tbf_rank (tb_cli s)) (th_binheap s)" "i \<in># cbh_bag (th_binheap s) \<longleftrightarrow> tc_in_heap (tb_cli s i)"
    "tb_cli_ok now s i" "r \<in> set (th_list s) \<Longrightarrow> tb_rule_ok (tb_rule s r)"
    "th_rule s = Some r \<Longrightarrow> tb_rule_ok (tb_rule s r)" "sch_throttling s \<Longrightarrow> th_timer s \<noteq> None"
  using assms by (auto simp: tb_inv_def)

lemma tb_invI:
  assumes "cbh_ok (tbf_rank (tb_cli s)) (th_binheap s)" "\<And>i. i \<in># cbh_bag (th_binheap s) \<longleftrightarrow> tc_in_heap (tb_cli s i)"
    "\<And>i. tb_cli_ok now s i" "\<And>r. r \<in> set (th_list s) \<or> th_rule s = Some r \<Longrightarrow> tb_rule_ok (tb_rule s r)"
    "sch_throttling s \<Longrightarrow> th_timer s \<noteq> None"
  shows "tb_inv now s"
  using assms by (auto simp: tb_inv_def)

lemma tb_cli_ok_later: "tb_cli_ok now s i \<Longrightarrow> now \<le> now' \<Longrightarrow> tb_cli_ok now' s i"
  by (auto simp: tb_cli_ok_def tb_ready_def split: option.splits)

lemma tb_inv_later: "tb_inv now s \<Longrightarrow> now \<le> now' \<Longrightarrow> tb_inv now' s"
  unfolding tb_inv_def using tb_cli_ok_later by blast

text \<open>Steps that leave the queues, the buckets and the heap alone: reference
  counts, lists, the hash; a client outside the heap may lose its rule.\<close>

definition same_rule :: "tbf_rule \<Rightarrow> tbf_rule \<Rightarrow> bool" where
  "same_rule r r' \<longleftrightarrow> tr_nsecs r' = tr_nsecs r \<and> tr_depth r' = tr_depth r \<and> tr_dependency r' = tr_dependency r
     \<and> tr_upper_rate r' = tr_upper_rate r"

definition quiet_cli :: "tbf_client \<Rightarrow> tbf_client \<Rightarrow> bool" where
  "quiet_cli c c' \<longleftrightarrow> tc_nsecs c' = tc_nsecs c \<and> tc_depth c' = tc_depth c \<and> tc_ntoken c' = tc_ntoken c
     \<and> tc_check_time c' = tc_check_time c \<and> tc_in_heap c' = tc_in_heap c \<and> tc_queue c' = tc_queue c
     \<and> (tc_rule c' = tc_rule c \<or> (tc_rule c' = None \<and> \<not> tc_in_heap c))"

definition quiet :: "nrs_tbf \<Rightarrow> nrs_tbf \<Rightarrow> bool" where
  "quiet s s' \<longleftrightarrow> tb_ncli s \<le> tb_ncli s' \<and> th_binheap s' = th_binheap s \<and> sch_throttling s' = sch_throttling s
     \<and> th_timer s' = th_timer s \<and> th_deadline s' = th_deadline s \<and> tb_ptr s' = tb_ptr s
     \<and> th_list s' = th_list s \<and> th_rule s' = th_rule s
     \<and> (\<forall>r. same_rule (tb_rule s r) (tb_rule s' r)) \<and> (\<forall>i. quiet_cli (tb_cli s i) (tb_cli s' i))"

lemma same_rule_simps [simp]:
  "same_rule r r" "same_rule r (r\<lparr>tr_ref := x\<rparr>)" "same_rule r (r\<lparr>tr_cli_list := l\<rparr>)"
  "same_rule r (r\<lparr>tr_lastActiveTime := t\<rparr>)" "same_rule r (r\<lparr>tr_nsecsBacklog := t\<rparr>)"
  by (simp_all add: same_rule_def)

lemma quiet_cli_simps [simp]:
  "quiet_cli c c" "quiet_cli c (c\<lparr>tc_ref := x\<rparr>)" "quiet_cli c (c\<lparr>tc_backlog_ckpt := y\<rparr>)"
  "\<not> tc_in_heap c \<Longrightarrow> quiet_cli c (c\<lparr>tc_rule := None\<rparr>)"
  by (simp_all add: quiet_cli_def)

lemma same_rule_trans: "same_rule a b \<Longrightarrow> same_rule b c \<Longrightarrow> same_rule a c"
  by (simp add: same_rule_def)

lemma quiet_cli_trans: "quiet_cli a b \<Longrightarrow> quiet_cli b c \<Longrightarrow> quiet_cli a c"
  by (auto simp: quiet_cli_def)

lemma quiet_refl [simp]: "quiet s s"
  by (simp add: quiet_def)

lemma quiet_cli [intro]: "quiet s s1 \<Longrightarrow> quiet_cli (tb_cli s1 j) c \<Longrightarrow> quiet s (set_cli j c s1)"
  using quiet_cli_trans by (fastforce simp: quiet_def)

lemma quiet_rule [intro]: "quiet s s1 \<Longrightarrow> same_rule (tb_rule s1 r) x \<Longrightarrow> quiet s (set_rule r x s1)"
  using same_rule_trans by (fastforce simp: quiet_def)

lemma quiet_other [simp]:
  "quiet s (s1\<lparr>th_cli_hash := ch\<rparr>) = quiet s s1" "quiet s (s1\<lparr>ntb_lru := l\<rparr>) = quiet s s1"
  by (simp_all add: quiet_def)

lemma rule_ok_same: "same_rule r r' \<Longrightarrow> tb_rule_ok r' = tb_rule_ok r"
  by (simp add: same_rule_def tb_rule_ok_def)

lemma quiet_cli_ok:
  assumes "quiet s s'" "tb_cli_ok now s i"
  shows "tb_cli_ok now s' i"
proof -
  have q: "quiet_cli (tb_cli s i) (tb_cli s' i)" "tb_ncli s \<le> tb_ncli s'"
    "\<And>r. tb_rule_ok (tb_rule s' r) = tb_rule_ok (tb_rule s r)"
    "\<And>r. tr_depth (tb_rule s' r) = tr_depth (tb_rule s r)"
    using assms(1) rule_ok_same unfolding quiet_def by (blast, simp, blast, simp add: same_rule_def)
  show ?thesis
    using assms(2) q unfolding tb_cli_ok_def quiet_cli_def
    by (auto simp: tb_ready_def split: option.splits)
qed

lemma quiet_inv:
  assumes "quiet s s'" "tb_inv now s"
  shows "tb_inv now s'"
proof (rule tb_invI)
  note i = tb_invD [OF assms(2)]
  have q: "th_binheap s' = th_binheap s" "\<And>i. quiet_cli (tb_cli s i) (tb_cli s' i)"
    "\<And>r. tb_rule_ok (tb_rule s' r) = tb_rule_ok (tb_rule s r)"
    "th_list s' = th_list s" "th_rule s' = th_rule s" "sch_throttling s' = sch_throttling s" "th_timer s' = th_timer s"
    using assms(1) rule_ok_same unfolding quiet_def by blast+
  show "cbh_ok (tbf_rank (tb_cli s')) (th_binheap s')"
    unfolding q(1) using q(2) by (intro cbh_ok_rank [OF i(1)]) (simp add: tbf_rank_def quiet_cli_def)
  show "j \<in># cbh_bag (th_binheap s') \<longleftrightarrow> tc_in_heap (tb_cli s' j)" for j
    using i(2) [of j] q(1) q(2) [of j] by (simp add: quiet_cli_def)
  show "tb_cli_ok now s' j" for j using quiet_cli_ok [OF assms(1) i(3)] .
  show "tb_rule_ok (tb_rule s' r)" if "r \<in> set (th_list s') \<or> th_rule s' = Some r" for r
    using that q i(4,5) by auto
  show "sch_throttling s' \<Longrightarrow> th_timer s' \<noteq> None" using q i(6) by simp
qed

lemma rule_put_quiet: "nrs_tbf_rule_put r s1 = Inr s2 \<Longrightarrow> quiet s s1 \<Longrightarrow> quiet s s2"
  by (auto simp: nrs_tbf_rule_put_def Let_def check_eq split: if_splits)

lemma rule_put_cli: "nrs_tbf_rule_put r s1 = Inr s2 \<Longrightarrow> tb_cli s2 = tb_cli s1"
  by (auto simp: nrs_tbf_rule_put_def Let_def check_eq split: if_splits)

lemma cli_rule_put_quiet:
  assumes "nrs_tbf_cli_rule_put j s1 = Inr s2" "quiet s s1" "\<not> tc_in_heap (tb_cli s1 j)"
  shows "quiet s s2"
proof -
  obtain r s3 where r: "tc_rule (tb_cli s1 j) = Some r"
    "nrs_tbf_rule_put r (set_rule r (tb_rule s1 r\<lparr>tr_cli_list := removeAll j (tr_cli_list (tb_rule s1 r))\<rparr>) s1) = Inr s3"
    "s2 = set_cli j (tb_cli s3 j\<lparr>tc_rule := None\<rparr>) s3"
    using assms(1) by (auto simp: nrs_tbf_cli_rule_put_def check_eq bind_res_eq split: option.splits)
  have "quiet s s3" using assms(2) by (intro rule_put_quiet [OF r(2)] quiet_rule) simp_all
  moreover have "tb_cli s3 = tb_cli s1" using rule_put_cli [OF r(2)] by simp
  ultimately show ?thesis unfolding r(3) using assms(3) by (intro quiet_cli) simp_all
qed

lemma cli_fini_quiet: "nrs_tbf_cli_fini j s1 = Inr s2 \<Longrightarrow> quiet s s1 \<Longrightarrow> quiet s s2"
  by (auto simp: nrs_tbf_cli_fini_def check_eq dest: cli_rule_put_quiet)

lemma fini_all_quiet: "tbf_fini_all zs s1 = Inr s2 \<Longrightarrow> quiet s s1 \<Longrightarrow> quiet s s2"
  by (induction zs arbitrary: s1) (auto simp: bind_res_eq dest: cli_fini_quiet)

lemma purge_quiet: "tbf_purge hw b lru s1 = Inr (zs, s2) \<Longrightarrow> quiet s s1 \<Longrightarrow> quiet s s2"
proof (induction lru arbitrary: s1 zs)
  case Nil
  then show ?case by (simp add: tbf_purge.simps split: if_splits)
next
  case (Cons j lru)
  from Cons.prems(1) show ?case
    by (subst (asm) tbf_purge.simps)
      (use Cons.prems(2) in \<open>auto simp: check_eq bind_res_eq split: if_splits intro: Cons.IH\<close>)
qed

lemma cli_put_quiet:
  assumes "nrs_tbf_jobid_cli_put j s1 = Inr s2" "quiet s s1"
  shows "quiet s s2"
proof -
  define s3 where "s3 = set_cli j (tb_cli s1 j\<lparr>tc_ref := tc_ref (tb_cli s1 j) - 1\<rparr>) s1"
  have k: "quiet s s3" unfolding s3_def using assms(2) by (intro quiet_cli) auto
  show ?thesis
  proof (cases "tc_ref (tb_cli s3 j) = 0")
    case False
    then show ?thesis
      using assms(1) k unfolding nrs_tbf_jobid_cli_put_def Let_def s3_def [symmetric] by simp
  next
    case True
    obtain b lru hw zs s4 where z: "tbf_purge hw b lru (s3\<lparr>ntb_lru := (ntb_lru s3)(b := lru)\<rparr>) = Inr (zs, s4)"
      "tbf_fini_all zs s4 = Inr s2"
      using assms(1) True unfolding nrs_tbf_jobid_cli_put_def Let_def s3_def [symmetric]
      by (auto simp: check_eq bind_res_eq)
    have "quiet s s4" using purge_quiet [OF z(1)] k by simp
    then show ?thesis using fini_all_quiet [OF z(2)] by simp
  qed
qed

lemma lookup_quiet: "nrs_tbf_jobid_hash_lookup j s1 = (r, s2) \<Longrightarrow> quiet s s1 \<Longrightarrow> quiet s s2"
  by (auto simp: nrs_tbf_jobid_hash_lookup_def split: option.splits intro!: quiet_cli)

lemma rule_match_quiet: "nrs_tbf_rule_match c s1 = Inr (r, s2) \<Longrightarrow> quiet s s1 \<Longrightarrow> quiet s s2"
  by (auto simp: nrs_tbf_rule_match_def nrs_tbf_rule_get_def split: option.splits)

section \<open>The first request of a job\<close>

text \<open>A client whose bucket and place in the heap stay may get another
  queue.\<close>

lemma inv_set_queue:
  assumes "tb_inv now s" "c = tb_cli s j\<lparr>tc_queue := q\<rparr>" "fifo_ok q" "fifo_Q q \<noteq> [] \<longleftrightarrow> tc_in_heap (tb_cli s j)"
  shows "tb_inv now (set_cli j c s)"
proof (rule tb_invI)
  note i = tb_invD [OF assms(1)]
  show "cbh_ok (tbf_rank (tb_cli (set_cli j c s))) (th_binheap (set_cli j c s))"
    by (simp, rule cbh_ok_rank [OF i(1)]) (simp add: tbf_rank_def assms(2))
  show "x \<in># cbh_bag (th_binheap (set_cli j c s)) \<longleftrightarrow> tc_in_heap (tb_cli (set_cli j c s) x)" for x
    using i(2) [of x] assms(2) by simp
  show "tb_cli_ok now (set_cli j c s) x" for x
    using i(3) [of x] assms(2-4) by (cases "x = j") (auto simp: tb_cli_ok_def tb_ready_def split: option.splits)
qed (use tb_invD(4-6) [OF assms(1)] in auto)

lemma inv_ncli:
  assumes "tb_inv now s" "tb_ncli s \<le> n"
  shows "tb_inv now (s\<lparr>tb_ncli := n\<rparr>)"
proof (rule tb_invI)
  show "tb_cli_ok now (s\<lparr>tb_ncli := n\<rparr>) i" for i
    using tb_invD(3) [OF assms(1), of i] assms(2) by (auto simp: tb_cli_ok_def split: option.splits)
qed (use tb_invD [OF assms(1)] in auto)

lemma inv_set_cli:
  assumes "tb_inv now s" "\<not> tc_in_heap (tb_cli s j)" "\<not> tc_in_heap c" "tb_cli_ok now (set_cli j c s) j"
  shows "tb_inv now (set_cli j c s)"
proof (rule tb_invI)
  note i = tb_invD [OF assms(1)]
  have nb: "j \<notin># cbh_bag (th_binheap s)" using i(2) [of j] assms(2) by simp
  show "cbh_ok (tbf_rank (tb_cli (set_cli j c s))) (th_binheap (set_cli j c s))"
    using nb by (simp, intro cbh_ok_rank [OF i(1)]) (auto simp: tbf_rank_def)
  show "x \<in># cbh_bag (th_binheap (set_cli j c s)) \<longleftrightarrow> tc_in_heap (tb_cli (set_cli j c s) x)" for x
    using i(2) [of x] assms(2,3) by simp
  show "tb_cli_ok now (set_cli j c s) x" for x
    using i(3) [of x] assms(4) by (cases "x = j") (auto simp: tb_cli_ok_def split: option.splits)
qed (use tb_invD(4-6) [OF assms(1)] in auto)

lemma inv_set_rule:
  assumes "tb_inv now s" "tb_rule_ok x" "tr_depth x = tr_depth (tb_rule s r)"
  shows "tb_inv now (set_rule r x s)"
proof (rule tb_invI)
  note i = tb_invD [OF assms(1)]
  show "tb_cli_ok now (set_rule r x s) j" for j
    using i(3) [of j] assms(2,3) by (auto simp: tb_cli_ok_def split: option.splits)
qed (use tb_invD [OF assms(1)] assms(2) in auto)

lemma new_fifo [simp]: "fifo_ok NrsFifo_new" "fifo_Q NrsFifo_new = []"
  by (simp_all add: NrsFifo_new_def fifo_ok_def)

lemma fresh_client: "tb_cli_ok now s i \<Longrightarrow> tb_ncli s \<le> i \<Longrightarrow> \<not> tc_in_heap (tb_cli s i)"
  by (auto simp: tb_cli_ok_def split: option.splits)

text \<open>What does not change while a client is looked up: the messages and
  where they wait.\<close>

definition same_queues :: "nrs_tbf \<Rightarrow> nrs_tbf \<Rightarrow> bool" where
  "same_queues s s' \<longleftrightarrow> tb_ptr s' = tb_ptr s \<and> (\<forall>i. fifo_Q (tc_queue (tb_cli s' i)) = fifo_Q (tc_queue (tb_cli s i)))"

lemma quiet_queues: "quiet s s' \<Longrightarrow> same_queues s s'"
  by (simp add: quiet_def quiet_cli_def same_queues_def)

lemma same_queues_trans: "same_queues s s' \<Longrightarrow> same_queues s' s'' \<Longrightarrow> same_queues s s''"
  by (simp add: same_queues_def)

lemma rule_match_cli: "nrs_tbf_rule_match c s1 = Inr (r, s2) \<Longrightarrow> tb_cli s2 = tb_cli s1 \<and> tb_ncli s2 = tb_ncli s1
    \<and> (r \<in> set (th_list s1) \<or> th_rule s1 = Some r)"
  by (auto simp: nrs_tbf_rule_match_def nrs_tbf_rule_get_def find_Some_iff split: option.splits)

lemma cli_init_inv:
  assumes "nrs_tbf_cli_init now m s = Inr (i, s')" "tb_inv now s"
  shows "tb_inv now s' \<and> same_queues s s' \<and> tc_rule (tb_cli s' i) \<noteq> None"
proof -
  define c where "c = \<lparr>tc_jobid = tm_jobid m, tc_ref = 1, tc_rule = None, tc_rule_generation = 0, tc_rpc_rate = 0,
               tc_nsecs = 0, tc_ntoken = 0, tc_depth = 0, tc_check_time = 0, tc_in_heap = False,
               tc_rule_sequence = 0, tc_queue = NrsFifo_new, tc_backlog_ckpt = 0\<rparr>"
  define s0 where "s0 = s\<lparr>tb_ncli := tb_ncli s + 1\<rparr>"
  define s1 where "s1 = set_cli i c s0"
  obtain r s2 where r: "nrs_tbf_rule_match c s1 = Inr (r, s2)" "nrs_tbf_cli_reset now r i s2 = Inr s'" "i = tb_ncli s"
    using assms(1) by (auto simp: nrs_tbf_cli_init_def Let_def check_eq bind_res_eq s1_def s0_def c_def)
  have nh: "\<not> tc_in_heap (tb_cli s i)" using fresh_client [OF tb_invD(3) [OF assms(2)]] r(3) by simp
  have i0: "tb_inv now s0" unfolding s0_def by (rule inv_ncli [OF assms(2)]) simp
  have i1: "tb_inv now s1"
    unfolding s1_def using nh by (intro inv_set_cli [OF i0]) (simp_all add: s0_def c_def tb_cli_ok_def)
  have q2: "quiet s1 s2" using rule_match_quiet [OF r(1)] by simp
  have c2: "tb_cli s2 = tb_cli s1" "r \<in> set (th_list s1) \<or> th_rule s1 = Some r" "tb_ncli s2 = tb_ncli s1"
    using rule_match_cli [OF r(1)] by simp_all
  have i2: "tb_inv now s2" using quiet_inv [OF q2 i1] .
  have "tb_rule_ok (tb_rule s1 r)" using c2(2) tb_invD(4,5) [OF i1] by auto
  moreover have "same_rule (tb_rule s1 r) (tb_rule s2 r)" using q2 by (simp add: quiet_def)
  ultimately have ro: "tb_rule_ok (tb_rule s2 r)" using rule_ok_same by blast
  define x where "x = tb_rule s2 r\<lparr>tr_cli_list := tr_cli_list (tb_rule s2 r) @ [i]\<rparr>"
  have xo: "tb_rule_ok x" "tr_depth x = tr_depth (tb_rule s2 r)" using ro by (simp_all add: x_def tb_rule_ok_def)
  define c' where "c' = (tb_cli s2 i)\<lparr>tc_rule := Some r, tc_rpc_rate := tr_rpc_rate x, tc_nsecs := tr_nsecs x,
     tc_depth := tr_depth x, tc_rule_sequence := th_rule_sequence s2, tc_rule_generation := tr_generation x,
     tc_ntoken := tr_depth x, tc_check_time := now\<rparr>"
  have ci: "tb_cli s2 i = c" using c2(1) by (simp add: s1_def)
  have s': "s' = set_cli i c' (set_rule r x s2)"
    using r(2) ci
    by (simp add: nrs_tbf_cli_reset_def c_def check_def nrs_tbf_cli_reset_value_def Let_def x_def c'_def)
      (simp add: set_cli_def set_rule_def)
  have lt: "i < tb_ncli s2" using c2(3) r(3) by (simp add: s1_def s0_def)
  have "tb_inv now s'"
    unfolding s' using inv_set_rule [OF i2 xo] xo(1) ci lt
    by (intro inv_set_cli) (simp_all add: c_def c'_def tb_cli_ok_def tb_ready_def tb_rule_ok_def)
  moreover have "same_queues s s'"
  proof -
    have "fifo_Q (tc_queue (tb_cli s i)) = []" using nh tb_invD(3) [OF assms(2), of i] by (simp add: tb_cli_ok_def)
    moreover have "tb_ptr s2 = tb_ptr s1" using q2 by (simp add: quiet_def)
    ultimately show ?thesis
      using c2(1) by (simp add: same_queues_def s' s1_def s0_def c'_def c_def)
  qed
  ultimately show ?thesis by (simp add: s' c'_def)
qed

lemma get_client_inv:
  assumes "tbf_get_client now m s = Inr (i, s')" "tb_inv now s"
  shows "tb_inv now s' \<and> same_queues s s'"
proof (cases "nrs_tbf_jobid_cli_find m s")
  case (Pair r s1)
  then have k1: "quiet s s1" by (simp add: nrs_tbf_jobid_cli_find_def lookup_quiet)
  note i1 = quiet_inv [OF k1 assms(2)] and q1 = quiet_queues [OF k1]
  show ?thesis
  proof (cases r)
    case (Some j1)
    then show ?thesis using assms(1) Pair i1 q1 by (simp add: tbf_get_client_def)
  next
    case None
    obtain j1 s3 where s3: "nrs_tbf_cli_init now m s1 = Inr (j1, s3)" "(case nrs_tbf_jobid_cli_findadd j1 s3 of
              (tmp, s3) \<Rightarrow>
                if tmp \<noteq> j1
                then bind_res (nrs_tbf_cli_fini j1 (set_cli j1 (tb_cli s3 j1\<lparr>tc_ref := tc_ref (tb_cli s3 j1) - 1\<rparr>) s3))
                       (\<lambda>s4. Inr (tmp, s4))
                else Inr (j1, s3)) = Inr (i, s')"
      using assms(1) Pair None by (auto simp: tbf_get_client_def bind_res_eq)
    have i3: "tb_inv now s3" "same_queues s s3"
      using cli_init_inv [OF s3(1) i1] same_queues_trans [OF q1] by simp_all
    obtain tmp s4 where f: "nrs_tbf_jobid_cli_findadd j1 s3 = (tmp, s4)" by fastforce
    have k4: "quiet s3 s4"
      using f by (auto simp: nrs_tbf_jobid_cli_findadd_def Let_def split: prod.splits option.splits dest: lookup_quiet [where s = s3])
    then have "quiet s3 (set_cli j1 (tb_cli s4 j1\<lparr>tc_ref := tc_ref (tb_cli s4 j1) - 1\<rparr>) s4)"
      by (intro quiet_cli) auto
    then have "quiet s3 s'"
      using s3(2) f k4 by (auto simp: bind_res_eq split: if_splits dest: cli_fini_quiet)
    then show ?thesis using quiet_inv [OF _ i3(1)] quiet_queues same_queues_trans [OF i3(2)] by blast
  qed
qed

section \<open>A changed rate\<close>

text \<open>A client in the heap whose due time changes is moved to its place.\<close>

lemma relocate_inv:
  assumes "tb_inv now s" "tc_in_heap (tb_cli s i)" "tc_in_heap c" "tb_cli_ok now (set_cli i c s) i"
  shows "\<exists>h. tbf_relocate i (set_cli i c s) = Inr ((set_cli i c s)\<lparr>th_binheap := h\<rparr>)
    \<and> tb_inv now ((set_cli i c s)\<lparr>th_binheap := h\<rparr>)"
proof -
  note inv = tb_invD [OF assms(1)]
  define s1 where "s1 = set_cli i c s"
  have "i \<in># cbh_bag (th_binheap s)" using inv(2) assms(2) by simp
  moreover have "tbf_rank (tb_cli s1) x = tbf_rank (tb_cli s) x" if "x \<noteq> i" for x
    using that by (simp add: tbf_rank_def s1_def)
  ultimately obtain h where h: "cfs_binheap_relocate (tbf_cli_compare (tb_cli s1)) i (th_binheap s) = Some h"
    "cbh_ok (tbf_rank (tb_cli s1)) h" "cbh_bag h = cbh_bag (th_binheap s)"
    using relocate_changed [OF tbf_ranked inv(1)] by blast
  have "tb_inv now (s1\<lparr>th_binheap := h\<rparr>)"
  proof (rule tb_invI)
    show "x \<in># cbh_bag (th_binheap (s1\<lparr>th_binheap := h\<rparr>)) \<longleftrightarrow> tc_in_heap (tb_cli (s1\<lparr>th_binheap := h\<rparr>) x)" for x
      using inv(2) [of x] h(3) assms(2,3) by (simp add: s1_def)
    show "tb_cli_ok now (s1\<lparr>th_binheap := h\<rparr>) x" for x
      using inv(3) [of x] assms(4) by (cases "x = i") (auto simp: tb_cli_ok_def s1_def split: option.splits)
  qed (use h inv(4-6) in \<open>auto simp: s1_def\<close>)
  then show ?thesis using h(1) by (auto simp: tbf_relocate_def s1_def)
qed

lemma new_rate_ok:
  assumes "tbf_new_rate P passed d x = Inr y"
  shows "tr_dependency y = tr_dependency x \<and> tr_upper_rate y = tr_upper_rate x \<and> tr_depth y = tr_depth x
    \<and> tr_nsecs y = tr_nsecs x"
  using assms by (auto simp: tbf_new_rate_def Let_def check_eq split: if_splits)

lemma nsecs_of_rate:
  assumes "rate \<noteq> 0" "rate \<le> NSEC_PER_SEC"
  shows "0 < NSEC_PER_SEC div rate" "NSEC_PER_SEC div rate \<le> NSEC_PER_SEC"
proof -
  have r: "0 < unat rate" "unat rate \<le> 1000000000"
    using assms by (simp_all add: word_le_nat_alt unat_gt_0)
  have u: "unat (NSEC_PER_SEC div rate) = 1000000000 div unat rate" by (simp add: unat_div)
  have "0 < 1000000000 div unat rate" using r by (simp add: div_greater_zero_iff)
  then show "0 < NSEC_PER_SEC div rate" using u by (simp add: word_less_nat_alt)
  show "NSEC_PER_SEC div rate \<le> NSEC_PER_SEC" using u by (simp add: word_le_nat_alt)
qed

lemma update_rate_inv:
  assumes "nrs_tbf_update_rule_rate P now i s = Inr s'" "tb_inv now s"
  shows "tb_inv now s' \<and> same_queues s s' \<and> tc_rule (tb_cli s' i) \<noteq> None"
proof -
  obtain r where r: "tc_rule (tb_cli s i) = Some r"
    using assms(1) by (auto simp: nrs_tbf_update_rule_rate_def split: option.splits)
  have ok: "tb_cli_ok now s i" using tb_invD(3) [OF assms(2)] .
  then have ro: "tb_rule_ok (tb_rule s r)" "tc_depth (tb_cli s i) = tr_depth (tb_rule s r)"
    using r by (simp_all add: tb_cli_ok_def)
  show ?thesis
  proof (cases "\<not> tr_dependency (tb_rule s r) \<or> now - tr_checkTime (tb_rule s r) < tr_nsecs (tb_rule s (tr_deprule (tb_rule s r)))")
    case True
    then have "s' = s" using assms(1) r by (auto simp: nrs_tbf_update_rule_rate_def Let_def split: if_splits)
    then show ?thesis using assms(2) r by (simp add: same_queues_def)
  next
    case False
    obtain r1 where r1: "tbf_new_rate P (now - tr_lastActiveTime (tb_rule s (tr_deprule (tb_rule s r))))
          (tb_rule s (tr_deprule (tb_rule s r))) (tb_rule s r\<lparr>tr_checkTime := now\<rparr>) = Inr r1"
        and e: "(let rate = min (tr_upper_rate r1) (tr_speedup r1 + tr_lower_rate r1);
                        r2 = r1\<lparr>tr_rpc_rate := rate\<rparr>
                    in if tr_rpc_rate (tb_rule s r) \<noteq> rate
                       then if rate = 0 then Inl Div_by_zero
                            else nrs_tbf_cli_reset_value now True i
                                   (set_rule r (r2\<lparr>tr_nsecs := NSEC_PER_SEC div rate\<rparr>) s)
                       else Inr (set_rule r r2 s)) = Inr s'"
      using assms(1) r False by (auto simp: nrs_tbf_update_rule_rate_def Let_def bind_res_eq)
    define rate where "rate = min (tr_upper_rate r1) (tr_speedup r1 + tr_lower_rate r1)"
    note n = new_rate_ok [OF r1]
    have le: "rate \<le> NSEC_PER_SEC"
      using n ro(1) False by (auto simp: rate_def tb_rule_ok_def min_def)
    have o1: "tb_rule_ok (r1\<lparr>tr_rpc_rate := rate\<rparr>)" "tr_depth (r1\<lparr>tr_rpc_rate := rate\<rparr>) = tr_depth (tb_rule s r)"
      using n ro(1) by (simp_all add: tb_rule_ok_def)
    show ?thesis
    proof (cases "tr_rpc_rate (tb_rule s r) = rate")
      case True
      then have "s' = set_rule r (r1\<lparr>tr_rpc_rate := rate\<rparr>) s" using e by (simp add: Let_def rate_def)
      then show ?thesis using inv_set_rule [OF assms(2) o1] r by (simp add: same_queues_def)
    next
      case False
      define x where "x = r1\<lparr>tr_rpc_rate := rate, tr_nsecs := NSEC_PER_SEC div rate\<rparr>"
      have v: "rate \<noteq> 0" "nrs_tbf_cli_reset_value now True i (set_rule r x s) = Inr s'"
        using e False by (auto simp: Let_def rate_def x_def split: if_splits)
      have xo: "tb_rule_ok x" "tr_depth x = tr_depth (tb_rule s r)"
        using o1 nsecs_of_rate [OF v(1) le] by (simp_all add: x_def tb_rule_ok_def)
      note ix = inv_set_rule [OF assms(2) xo]
      define c where "c = (tb_cli s i)\<lparr>tc_rpc_rate := tr_rpc_rate x, tc_nsecs := tr_nsecs x, tc_depth := tr_depth x,
        tc_rule_sequence := th_rule_sequence s, tc_rule_generation := tr_generation x\<rparr>"
      have rv: "(if tc_in_heap c then tbf_relocate i (set_cli i c (set_rule r x s)) else Inr (set_cli i c (set_rule r x s))) = Inr s'"
        using v(2) r unfolding c_def by (simp add: nrs_tbf_cli_reset_value_def Let_def split del: if_split)
      have ck: "tb_cli_ok now (set_cli i c (set_rule r x s)) i"
        using ok r xo ro(2) by (simp add: tb_cli_ok_def c_def tb_ready_def tb_rule_ok_def)
      have hp: "tc_in_heap c = tc_in_heap (tb_cli s i)" "fifo_Q (tc_queue c) = fifo_Q (tc_queue (tb_cli s i))"
        "tc_rule c \<noteq> None"
        using r by (simp_all add: c_def)
      show ?thesis
      proof (cases "tc_in_heap c")
        case True
        obtain h where "s' = (set_cli i c (set_rule r x s))\<lparr>th_binheap := h\<rparr>" "tb_inv now s'"
          using relocate_inv [OF ix _ True ck] rv True hp(1) by auto
        then show ?thesis using hp(2,3) by (simp add: same_queues_def)
      next
        case False
        then have "s' = set_cli i c (set_rule r x s)" using rv by simp
        then show ?thesis using inv_set_cli [OF ix _ False ck] hp False by (simp add: same_queues_def)
      qed
    qed
  qed
qed

section \<open>Enqueue\<close>

text \<open>The queues after an operation that may add the message to one of them.\<close>

definition queues_plus :: "nat \<Rightarrow> tmsg \<Rightarrow> nrs_tbf \<Rightarrow> nrs_tbf \<Rightarrow> bool" where
  "queues_plus i m s s' \<longleftrightarrow> tb_ptr s' = tb_ptr s
     \<and> (\<forall>x y. y \<in> set (fifo_Q (tc_queue (tb_cli s' x))) \<longrightarrow> y \<in> set (fifo_Q (tc_queue (tb_cli s x))) \<or> (x = i \<and> y = m))"

lemma ModTimer_Inr: "tbf_ModTimer clk t s = Inr s' \<Longrightarrow> s' = s\<lparr>th_timer := Some t\<rparr>"
  by (auto simp: tbf_ModTimer_def split: if_splits)

lemma inv_frame:
  assumes "tb_inv now s" "tb_cli s' = tb_cli s" "tb_rule s' = tb_rule s" "tb_ncli s' = tb_ncli s"
    "th_binheap s' = th_binheap s" "th_list s' = th_list s" "th_rule s' = th_rule s"
    "sch_throttling s' \<Longrightarrow> th_timer s' \<noteq> None"
  shows "tb_inv now s'"
  using assms unfolding tb_inv_def tb_cli_ok_def by presburger

lemma inv_timer: "tb_inv now s \<Longrightarrow> tb_inv now (s\<lparr>th_deadline := d, th_timer := Some t\<rparr>)"
  by (erule inv_frame) simp_all

lemma first_request_inv:
  assumes "tbf_first_request mem now i m s0 = Inr (rc, s')" "tb_inv now s0" "tc_rule (tb_cli s0 i) \<noteq> None"
    "fifo_Q (tc_queue (tb_cli s0 i)) = []"
  shows "tb_inv now s' \<and> queues_plus i m s0 s'"
proof -
  define c0 where "c0 = tb_cli s0 i\<lparr>tc_backlog_ckpt := now\<rparr>"
  define s where "s = set_cli i c0 s0"
  have nh: "\<not> tc_in_heap (tb_cli s0 i)" using assms(1) by (simp add: tbf_first_request_def check_eq)
  have q: "quiet s0 s" unfolding s_def c0_def by (intro quiet_cli) simp_all
  note i0 = quiet_inv [OF q assms(2)]
  note inv = tb_invD [OF i0]
  have nb: "i \<notin># cbh_bag (th_binheap s)" using inv(2) [of i] nh by (simp add: s_def c0_def)
  obtain rc0 h where h: "cfs_binheap_insert (tbf_cli_compare (tb_cli s)) mem (\<lambda>_. True) i (th_binheap s) = Some (rc0, h)"
    "cbh_ok (tbf_rank (tb_cli s)) h"
    "rc0 = Rc_ok \<and> cbh_bag h = add_mset i (cbh_bag (th_binheap s)) \<or> rc0 \<noteq> Rc_ok \<and> h = th_binheap s"
    using insert_cases [OF tbf_ranked inv(1) nb, of mem "\<lambda>_. True"] by auto
  define c where "c = c0\<lparr>tc_in_heap := True, tc_queue := NrsFifo_Enqueue m (tc_queue c0)\<rparr>"
  define s1 where "s1 = (set_cli i c s)\<lparr>th_binheap := h\<rparr>"
  have ci: "tb_cli s i = c0" by (simp add: s_def)
  have e: "(if rc0 \<noteq> Rc_ok then Inr (False, s\<lparr>th_binheap := h\<rparr>)
     else if sch_throttling s1 \<and> \<not> tc_due c0 < now \<and> th_deadline s1 > tc_due c0
          then check (tc_due c0 > now)
                 (bind_res (tbf_ModTimer now (tc_due c0) (s1\<lparr>th_deadline := tc_due c0\<rparr>)) (\<lambda>s2. Inr (True, s2)))
          else Inr (True, s1)) = Inr (rc, s')"
    using assms(1) nh
    unfolding tbf_first_request_def Let_def check_eq c0_def [symmetric] s_def [symmetric] h(1) option.case prod.case ci
      c_def [symmetric] s1_def [symmetric] by simp
  show ?thesis
  proof (cases "rc0 = Rc_ok")
    case False
    then have "s' = s" using e h(3) by simp
    then show ?thesis using i0 by (simp add: queues_plus_def s_def c0_def)
  next
    case True
    have b: "cbh_bag h = add_mset i (cbh_bag (th_binheap s))" using h(3) True by simp
    have i1: "tb_inv now s1"
    proof (rule tb_invI)
      show "cbh_ok (tbf_rank (tb_cli s1)) (th_binheap s1)"
        unfolding s1_def by (simp, rule cbh_ok_rank [OF h(2)]) (simp add: tbf_rank_def s_def c_def)
      show "x \<in># cbh_bag (th_binheap s1) \<longleftrightarrow> tc_in_heap (tb_cli s1 x)" for x
        using inv(2) [of x] by (simp add: s1_def b c_def)
      show "tb_cli_ok now s1 x" for x
      proof (cases "x = i")
        case True
        have "fifo_ok (NrsFifo_Enqueue m (tc_queue c0))"
          using inv(3) [of i] assms(4) by (intro fifo_enq(1)) (simp_all add: tb_cli_ok_def s_def c0_def fifo_fits_def fifo_bag_def)
        then show ?thesis
          using True inv(3) [of i] assms(3)
          by (auto simp: tb_cli_ok_def tb_ready_def s1_def s_def c_def c0_def sched_simps split: option.splits)
      next
        case False
        then show ?thesis using inv(3) [of x] by (auto simp: tb_cli_ok_def s1_def split: option.splits)
      qed
    qed (use inv(4-6) in \<open>auto simp: s1_def\<close>)
    have q1: "queues_plus i m s0 s1"
      by (simp add: queues_plus_def s1_def s_def c_def c0_def sched_simps assms(4))
    have "s' = s1 \<or> s' = s1\<lparr>th_deadline := tc_due c0, th_timer := Some (tc_due c0)\<rparr>"
      using e True by (auto simp: check_eq bind_res_eq dest!: ModTimer_Inr split: if_splits)
    then show ?thesis using i1 q1 inv_timer [OF i1] by (elim disjE) (simp_all add: queues_plus_def)
  qed
qed

definition tbf_room :: "nrs_tbf \<Rightarrow> bool" where
  "tbf_room s \<longleftrightarrow> (\<forall>i. length (fifo_Q (tc_queue (tb_cli s i))) + 1 < 2 ^ 64)"

lemma Enqueue_inv:
  assumes "NrsTbf_Enqueue P mem now m s = Inr (rc, s')" "tb_inv now s" "tb_ptr_ok s"
    "tb_ptr s (tm_id m) = None" "tbf_room s"
  shows "tb_inv now s' \<and> tb_ptr_ok s'"
proof -
  obtain i s1 s2 s3 where r: "tbf_get_client now m s = Inr (i, s1)"
    "nrs_tbf_update_rule_rate P now i s1 = Inr s2"
    "(if Scheduler_Empty (tc_queue (tb_cli s2 i)) then tbf_first_request mem now i m s2
        else check (tc_in_heap (tb_cli s2 i))
          (Inr (True, set_cli i (tb_cli s2 i\<lparr>tc_queue := NrsFifo_Enqueue m (tc_queue (tb_cli s2 i))\<rparr>) s2))) = Inr (rc, s3)"
    "s' = s3\<lparr>tb_ptr := (tb_ptr s3)(tm_id m := Some i)\<rparr>"
    using assms(1) by (auto simp: NrsTbf_Enqueue_def bind_res_eq split del: if_split)
  have i1: "tb_inv now s1" "same_queues s s1" using get_client_inv [OF r(1) assms(2)] by simp_all
  have i2: "tb_inv now s2" "same_queues s1 s2" "tc_rule (tb_cli s2 i) \<noteq> None"
    using update_rate_inv [OF r(2) i1(1)] by simp_all
  have q2: "same_queues s s2" using same_queues_trans [OF i1(2) i2(2)] .
  have ok: "tb_cli_ok now s2 i" using tb_invD(3) [OF i2(1)] .
  have i3: "tb_inv now s3 \<and> queues_plus i m s2 s3"
  proof (cases "Scheduler_Empty (tc_queue (tb_cli s2 i))")
    case True
    moreover have "fifo_Q (tc_queue (tb_cli s2 i)) = []"
      using True ok fifo_empty by (auto simp: tb_cli_ok_def fifo_bag_def)
    ultimately show ?thesis using first_request_inv [OF _ i2(1,3)] r(3) by simp
  next
    case False
    define c where "c = tb_cli s2 i\<lparr>tc_queue := NrsFifo_Enqueue m (tc_queue (tb_cli s2 i))\<rparr>"
    have h: "tc_in_heap (tb_cli s2 i)" "s3 = set_cli i c s2"
      using r(3) False by (simp_all add: check_eq c_def)
    have "length (fifo_Q (tc_queue (tb_cli s2 i))) + 1 < 2 ^ 64"
      using assms(5) q2 by (simp add: tbf_room_def same_queues_def)
    then have "fifo_ok (NrsFifo_Enqueue m (tc_queue (tb_cli s2 i)))"
      using ok by (intro fifo_enq(1)) (simp_all add: tb_cli_ok_def fifo_fits_def fifo_bag_def)
    then have "tb_inv now s3"
      unfolding h(2) using ok h(1)
      by (intro inv_set_queue [OF i2(1)]) (auto simp: c_def sched_simps)
    then show ?thesis by (simp add: h(2) queues_plus_def c_def sched_simps)
  qed
  have "tb_ptr_ok s'"
    unfolding tb_ptr_ok_def
  proof (intro allI ballI)
    fix x y
    assume "y \<in> set (fifo_Q (tc_queue (tb_cli s' x)))"
    then have y: "y \<in> set (fifo_Q (tc_queue (tb_cli s x))) \<or> (x = i \<and> y = m)"
      using i3 q2 by (simp add: r(4) queues_plus_def same_queues_def)
    have "tb_ptr s3 = tb_ptr s" using i3 q2 by (simp add: queues_plus_def same_queues_def)
    moreover have "tb_ptr s (tm_id y) = Some x" if "y \<in> set (fifo_Q (tc_queue (tb_cli s x)))"
      using that assms(3) by (simp add: tb_ptr_ok_def)
    ultimately show "tb_ptr s' (tm_id y) = Some x"
      using y assms(4) by (auto simp: r(4))
  qed
  moreover have "tb_inv now s'"
    unfolding r(4) using tb_invD(6) i3 by (intro inv_frame [OF conjunct1 [OF i3]]) auto
  ultimately show ?thesis by simp
qed

section \<open>Dequeue\<close>

lemma inv_rule_time:
  assumes "tb_inv now s" "same_rule (tb_rule s r) x"
  shows "tb_inv now (set_rule r x s)"
  by (rule quiet_inv [OF quiet_rule [OF quiet_refl assms(2)] assms(1)])

text \<open>The tokens of a client in order: they do not wrap.\<close>

lemma tbf_tokens_0:
  assumes "tb_ready now c" "unat now + 2147483648 < 2 ^ 64"
  shows "tbf_tokens now c = 0 \<longleftrightarrow> tc_ntoken c = 0 \<and> unat now < unat (tc_check_time c) + unat (tc_nsecs c)"
    "unat (tc_due c) = unat (tc_check_time c) + unat (tc_nsecs c)"
proof -
  have r: "0 < unat (tc_nsecs c)" "unat (tc_nsecs c) \<le> 1000000000" "unat (tc_depth c) < 2147483648"
    "unat (tc_ntoken c) \<le> unat (tc_depth c)" "unat (tc_check_time c) \<le> unat now" "tc_depth c \<noteq> 0"
    using assms(1) by (auto simp: tb_ready_def word_le_nat_alt word_less_nat_alt)
  show d: "unat (tc_due c) = unat (tc_check_time c) + unat (tc_nsecs c)"
    using r(2,5) assms(2) by (simp add: unat_word_ariths(1))
  have q: "unat ((now - tc_check_time c) div tc_nsecs c) = (unat now - unat (tc_check_time c)) div unat (tc_nsecs c)"
    using r(5) by (simp add: unat_div unat_sub word_le_nat_alt)
  have "(unat now - unat (tc_check_time c)) div unat (tc_nsecs c) \<le> unat now"
    using div_le_dividend [of "unat now - unat (tc_check_time c)" "unat (tc_nsecs c)"] by linarith
  then have t: "unat ((now - tc_check_time c) div tc_nsecs c + tc_ntoken c)
      = (unat now - unat (tc_check_time c)) div unat (tc_nsecs c) + unat (tc_ntoken c)"
    using r(3,4) assms(2) by (simp add: unat_word_ariths(1) q)
  have "tbf_tokens now c = 0 \<longleftrightarrow> (now - tc_check_time c) div tc_nsecs c + tc_ntoken c = 0"
    using r(6) by (auto simp: tbf_tokens_def Let_def)
  also have "\<dots> \<longleftrightarrow> (unat now - unat (tc_check_time c)) div unat (tc_nsecs c) + unat (tc_ntoken c) = 0"
    unfolding t [symmetric] by (simp only: unat_eq_0)
  also have "\<dots> \<longleftrightarrow> tc_ntoken c = 0 \<and> unat now < unat (tc_check_time c) + unat (tc_nsecs c)"
    using r(1,5) by (auto simp: div_eq_0_iff unat_eq_0)
  finally show "tbf_tokens now c = 0 \<longleftrightarrow> tc_ntoken c = 0 \<and> unat now < unat (tc_check_time c) + unat (tc_nsecs c)" .
qed

text \<open>Taking a request of a client with a token.\<close>

lemma tbf_take_ok:
  assumes "tb_inv now s" "tb_ptr_ok s" "tc_in_heap (tb_cli s i)" "tc_rule (tb_cli s i) = Some r"
    "tbf_tokens now (tb_cli s i) \<noteq> 0"
  shows "\<exists>m s'. tbf_take now i r s = Inr (m, s') \<and> tb_inv now s' \<and> tb_ptr_ok s'
    \<and> m \<in> set (fifo_Q (tc_queue (tb_cli s i)))"
proof -
  define c where "c = tb_cli s i"
  note inv = tb_invD [OF assms(1)]
  have ok: "fifo_ok (tc_queue c)" "fifo_Q (tc_queue c) \<noteq> []" "tb_ready now c" "i < tb_ncli s" "tb_rule_ok (tb_rule s r)"
    "tc_depth c = tr_depth (tb_rule s r)"
    using inv(3) [of i] assms(3,4) by (simp_all add: tb_cli_ok_def c_def)
  obtain m q where q: "NrsFifo_Dequeue (tc_queue c) = (Some m, q)" "fifo_ok q"
    "fifo_bag (tc_queue c) = add_mset m (fifo_bag q)"
    using fifo_deq [OF ok(1)] ok(2) by (auto simp: fifo_bag_def)
  have qs: "set (fifo_Q (tc_queue c)) = insert m (set (fifo_Q q))"
    using arg_cong [OF q(3), of set_mset] by (simp add: fifo_bag_def)
  have m: "tb_ptr s (tm_id m) = Some i" using assms(2) qs by (auto simp: tb_ptr_ok_def c_def)
  define x where "x = tb_rule s r\<lparr>tr_nsecsBacklog := now - tc_backlog_ckpt c\<rparr>"
  define s1 where "s1 = set_rule r x s"
  define c2 where "c2 = c\<lparr>tc_queue := q, tc_ntoken := tbf_tokens now c - 1, tc_check_time := now, tc_backlog_ckpt := now\<rparr>"
  define s2 where "s2 = set_cli i c2 s1"
  have i1: "tb_inv now s1" unfolding s1_def x_def by (rule inv_rule_time [OF assms(1)]) simp
  note inv1 = tb_invD [OF i1]
  have "tbf_tokens now c \<le> tc_depth c" by (auto simp: tbf_tokens_def Let_def not_less)
  moreover have "tbf_tokens now c - 1 \<le> tbf_tokens now c"
    using assms(5) by (simp add: c_def word_le_nat_alt unat_minus_one)
  ultimately have rd: "tb_ready now c2" using ok(3) by (auto simp: tb_ready_def c2_def)
  have c2: "tc_rule c2 = Some r" "tc_depth c2 = tc_depth c" "tc_queue c2 = q" "tc_in_heap c2 = tc_in_heap c"
    using assms(4) by (simp_all add: c2_def c_def)
  have xo: "tb_rule_ok x" "tr_depth x = tr_depth (tb_rule s r)" using ok(5) by (simp_all add: x_def tb_rule_ok_def)
  have ptr: "tb_ptr_ok s'" if "tb_ptr s' = tb_ptr s" "\<And>x. tc_queue (tb_cli s' x) = tc_queue (tb_cli s2 x)" for s'
    using assms(2) qs unfolding tb_ptr_ok_def that by (auto simp: s2_def s1_def c2(3) c_def)
  have e: "tbf_take now i r s = bind_res
               (if Scheduler_Empty q
                then (case cfs_binheap_remove (tbf_cli_compare (tb_cli s2)) i (th_binheap s2) of
                        None \<Rightarrow> Inl Assert_failed
                      | Some h \<Rightarrow> Inr ((set_cli i (tb_cli s2 i\<lparr>tc_in_heap := False\<rparr>) s2)\<lparr>th_binheap := h\<rparr>))
                else tbf_relocate i s2)
               (\<lambda>s3. Inr (m, s3))"
    unfolding tbf_take_def Let_def c_def [symmetric] q(1) prod.case option.case x_def [symmetric] s1_def [symmetric]
      c2_def [symmetric] s2_def [symmetric]
    using m by (simp add: check_def)
  show ?thesis
  proof (cases "fifo_Q q = []")
    case False
    then have ne: "\<not> Scheduler_Empty q" using fifo_empty [OF q(2)] by (simp add: fifo_bag_def)
    have "tb_cli_ok now s2 i"
      using rd q(2) False ok(4,6) xo assms(3,4) c2 by (simp add: tb_cli_ok_def s2_def s1_def c_def)
    then obtain h where h: "tbf_relocate i s2 = Inr (s2\<lparr>th_binheap := h\<rparr>)" "tb_inv now (s2\<lparr>th_binheap := h\<rparr>)"
      using relocate_inv [OF i1, of i c2] assms(3) c2(4) by (auto simp: s2_def s1_def c_def)
    have "tb_ptr_ok (s2\<lparr>th_binheap := h\<rparr>)" by (rule ptr) (simp_all add: s2_def s1_def)
    then show ?thesis using e ne h qs by (auto simp: c_def)
  next
    case True
    then have ne: "Scheduler_Empty q" using fifo_empty [OF q(2)] by (simp add: fifo_bag_def)
    have "i \<in># cbh_bag (th_binheap s1)" using inv1(2) assms(3) by (simp add: s1_def)
    moreover have "tbf_rank (tb_cli s2) y = tbf_rank (tb_cli s1) y" if "y \<noteq> i" for y
      using that by (simp add: tbf_rank_def s2_def)
    ultimately obtain h where h: "cfs_binheap_remove (tbf_cli_compare (tb_cli s2)) i (th_binheap s2) = Some h"
      "cbh_ok (tbf_rank (tb_cli s2)) h" "add_mset i (cbh_bag h) = cbh_bag (th_binheap s1)"
      using remove_changed [OF tbf_ranked [of "tb_cli s2"] inv1(1), of i] by (auto simp: s2_def)
    have nb: "i \<notin># cbh_bag h" using cbh_bag_once [OF inv1(1) h(3)] .
    define c3 where "c3 = c2\<lparr>tc_in_heap := False\<rparr>"
    define s3 where "s3 = (set_cli i c3 s1)\<lparr>th_binheap := h\<rparr>"
    have s3: "(set_cli i (tb_cli s2 i\<lparr>tc_in_heap := False\<rparr>) s2)\<lparr>th_binheap := h\<rparr> = s3"
      by (simp add: s3_def s2_def c3_def set_cli_def)
    have "tb_inv now s3"
    proof (rule tb_invI)
      show "cbh_ok (tbf_rank (tb_cli s3)) (th_binheap s3)"
        unfolding s3_def by (simp, rule cbh_ok_rank [OF h(2)]) (simp add: tbf_rank_def s2_def c3_def)
      show "y \<in># cbh_bag (th_binheap s3) \<longleftrightarrow> tc_in_heap (tb_cli s3 y)" for y
        using inv1(2) [of y] h(3) [symmetric] nb by (auto simp: s3_def c3_def s1_def)
      show "tb_cli_ok now s3 y" for y
      proof (cases "y = i")
        case True
        have "tb_ready now c3" using rd by (simp add: c3_def tb_ready_def)
        then show ?thesis
          using True \<open>fifo_Q q = []\<close> q(2) ok(4,6) xo c2 by (simp add: tb_cli_ok_def s3_def s1_def c3_def)
      next
        case False
        then show ?thesis using inv1(3) [of y] by (auto simp: tb_cli_ok_def s3_def s1_def split: option.splits)
      qed
    qed (use inv1(4-6) in \<open>auto simp: s3_def\<close>)
    moreover have "tb_ptr_ok s3"
      by (rule ptr) (simp_all add: s3_def s2_def s1_def c3_def)
    moreover have "tbf_take now i r s = Inr (m, s3)" using e ne h(1) s3 by simp
    ultimately show ?thesis using qs by (auto simp: c_def)
  qed
qed

lemma ready_later: "tb_ready now c \<Longrightarrow> now \<le> now' \<Longrightarrow> tb_ready now' c"
  by (auto simp: tb_ready_def)

text \<open>The client at the root of the heap decides what Dequeue does.\<close>

lemma Dequeue_root:
  assumes "tb_inv now s" "tb_ptr_ok s" "\<not> sch_throttling s" "cfs_binheap_root (th_binheap s) = Some i" "i \<in># cbh_bag (th_binheap s)"
  shows "tb_ready now (tb_cli s i)"
    "tbf_tokens now (tb_cli s i) \<noteq> 0 \<Longrightarrow>
       \<exists>m s'. NrsTbf_Dequeue now s = Inr (Some (i, m), s') \<and> tb_inv now s' \<and> tb_ptr_ok s'
         \<and> m \<in> set (fifo_Q (tc_queue (tb_cli s i)))"
    "tbf_tokens now (tb_cli s i) = 0 \<Longrightarrow>
       \<exists>r x. NrsTbf_Dequeue now s
         = bind_res (tbf_ModTimer now (tc_due (tb_cli s i))
             ((set_rule r x s)\<lparr>sch_throttling := True, th_deadline := tc_due (tb_cli s i)\<rparr>)) (\<lambda>s2. Inr (None, s2))
         \<and> tb_inv now (set_rule r x s)"
proof -
  have h: "tc_in_heap (tb_cli s i)" using tb_invD(2) [OF assms(1), of i] assms(5) by simp
  then obtain r where r: "tc_rule (tb_cli s i) = Some r"
    using tb_invD(3) [OF assms(1), of i] by (auto simp: tb_cli_ok_def)
  show rd: "tb_ready now (tb_cli s i)" using tb_invD(3) [OF assms(1), of i] r by (simp add: tb_cli_ok_def)
  define x where "x = tb_rule s r\<lparr>tr_lastActiveTime := now\<rparr>"
  define s1 where "s1 = set_rule r x s"
  have i1: "tb_inv now s1" unfolding s1_def x_def by (rule inv_rule_time [OF assms(1)]) simp
  have p1: "tb_ptr_ok s1" using assms(2) by (simp add: tb_ptr_ok_def s1_def)
  have c1: "tb_cli s1 = tb_cli s" by (simp add: s1_def)
  have n: "tc_nsecs (tb_cli s i) \<noteq> 0" "now \<ge> tc_check_time (tb_cli s i)" using rd by (auto simp: tb_ready_def)
  have e: "NrsTbf_Dequeue now s = (if tbf_tokens now (tb_cli s i) > 0
               then bind_res (tbf_take now i r s1) (\<lambda>(m, s2). Inr (Some (i, m), s2))
               else bind_res (tbf_ModTimer now (tc_due (tb_cli s i))
                      (s1\<lparr>sch_throttling := True, th_deadline := tc_due (tb_cli s i)\<rparr>))
                      (\<lambda>s2. Inr (None, s2)))"
    unfolding NrsTbf_Dequeue_def Let_def assms(4) option.case r x_def [symmetric] s1_def [symmetric]
    using assms(3) h n by (simp add: check_def)
  show "\<exists>m s'. NrsTbf_Dequeue now s = Inr (Some (i, m), s') \<and> tb_inv now s' \<and> tb_ptr_ok s'
         \<and> m \<in> set (fifo_Q (tc_queue (tb_cli s i)))" if t: "tbf_tokens now (tb_cli s i) \<noteq> 0"
    using tbf_take_ok [OF i1 p1, of i r] h r t e by (auto simp: c1 word_neq_0_conv)
  show "\<exists>r x. NrsTbf_Dequeue now s
         = bind_res (tbf_ModTimer now (tc_due (tb_cli s i))
             ((set_rule r x s)\<lparr>sch_throttling := True, th_deadline := tc_due (tb_cli s i)\<rparr>)) (\<lambda>s2. Inr (None, s2))
         \<and> tb_inv now (set_rule r x s)" if t: "tbf_tokens now (tb_cli s i) = 0"
    using e t i1 unfolding s1_def by auto
qed

lemma waiting_root:
  assumes "tb_inv now s" "fifo_Q (tc_queue (tb_cli s w)) \<noteq> []"
  obtains i where "cfs_binheap_root (th_binheap s) = Some i" "i \<in># cbh_bag (th_binheap s)"
proof -
  have "tc_in_heap (tb_cli s w)" using tb_invD(3) [OF assms(1), of w] assms(2) by (simp add: tb_cli_ok_def)
  then have "w \<in># cbh_bag (th_binheap s)" using tb_invD(2) [OF assms(1)] by simp
  then have "0 < cbh_nelements (th_binheap s)" by (auto simp: cbh_bag_iff)
  then show ?thesis using root_least [OF tb_invD(1) [OF assms(1)]] that by blast
qed

lemma Dequeue_inv:
  assumes "NrsTbf_Dequeue now s = Inr (x, s')" "tb_inv now s" "tb_ptr_ok s"
  shows "tb_inv now s' \<and> tb_ptr_ok s'"
proof (cases "sch_throttling s \<or> cfs_binheap_root (th_binheap s) = None")
  case True
  then have "s' = s" using assms(1) by (elim disjE) (simp_all add: NrsTbf_Dequeue_def split: if_splits)
  then show ?thesis using assms(2,3) by simp
next
  case False
  then obtain i where i: "cfs_binheap_root (th_binheap s) = Some i" "\<not> sch_throttling s" by auto
  then have b: "i \<in># cbh_bag (th_binheap s)"
    using root_least [OF tb_invD(1) [OF assms(2)]] by (fastforce simp: cfs_binheap_root_def cfs_binheap_find_def split: if_splits)
  note d = Dequeue_root [OF assms(2,3) i(2,1) b]
  show ?thesis
  proof (cases "tbf_tokens now (tb_cli s i) = 0")
    case False
    then show ?thesis using d(2) assms(1) by auto
  next
    case True
    then obtain r y where e: "NrsTbf_Dequeue now s
         = bind_res (tbf_ModTimer now (tc_due (tb_cli s i))
             ((set_rule r y s)\<lparr>sch_throttling := True, th_deadline := tc_due (tb_cli s i)\<rparr>)) (\<lambda>s2. Inr (None, s2))"
      "tb_inv now (set_rule r y s)"
      using d(3) by auto
    have "bind_res (tbf_ModTimer now (tc_due (tb_cli s i))
             ((set_rule r y s)\<lparr>sch_throttling := True, th_deadline := tc_due (tb_cli s i)\<rparr>)) (\<lambda>s2. Inr (None, s2))
        = Inr (x, s')"
      unfolding e(1) [symmetric] by (rule assms(1))
    then have "s' = (set_rule r y s)\<lparr>sch_throttling := True, th_deadline := tc_due (tb_cli s i),
         th_timer := Some (tc_due (tb_cli s i))\<rparr>"
      by (auto simp: bind_res_eq dest: ModTimer_Inr)
    then show ?thesis
      using inv_frame [OF e(2), of s'] assms(3) by (simp add: tb_ptr_ok_def)
  qed
qed

text \<open>A waiting request is served, or the timer is armed for a time at which
  one is.\<close>

lemma Dequeue_progress:
  assumes "tb_inv now s" "tb_ptr_ok s" "\<not> sch_throttling s" "fifo_Q (tc_queue (tb_cli s w)) \<noteq> []"
    "unat now < 2 ^ 63"
  shows "(\<exists>i m s'. NrsTbf_Dequeue now s = Inr (Some (i, m), s') \<and> m \<in> set (fifo_Q (tc_queue (tb_cli s i))))
    \<or> (\<exists>s' t i m s''. NrsTbf_Dequeue now s = Inr (None, s') \<and> sch_throttling s' \<and> th_timer s' = Some t
        \<and> unat now < unat t \<and> unat t \<le> unat now + 1000000000
        \<and> NrsTbf_Dequeue t (NrsTbfTimerCallback s') = Inr (Some (i, m), s'')
        \<and> m \<in> set (fifo_Q (tc_queue (tb_cli s i))))"
proof -
  obtain i where i: "cfs_binheap_root (th_binheap s) = Some i" "i \<in># cbh_bag (th_binheap s)"
    using waiting_root [OF assms(1,4)] .
  note d = Dequeue_root [OF assms(1-3) i]
  define c where "c = tb_cli s i"
  have rd: "tb_ready now c" using d(1) by (simp add: c_def)
  show ?thesis
  proof (cases "tbf_tokens now (tb_cli s i) = 0")
    case False
    then show ?thesis using d(2) by blast
  next
    case True
    have u: "unat now + 2147483648 < 2 ^ 64" using assms(5) by simp
    note t = tbf_tokens_0 [OF rd u]
    have t0: "tc_ntoken c = 0" "unat now < unat (tc_due c)" using True t by (simp_all add: c_def)
    have k: "unat (tc_check_time c) \<le> unat now" "unat (tc_nsecs c) \<le> 1000000000"
      using rd by (simp_all add: tb_ready_def word_le_nat_alt)
    then have t1: "unat (tc_due c) \<le> unat now + 1000000000" using t(2) by simp
    obtain r y where e: "NrsTbf_Dequeue now s
         = bind_res (tbf_ModTimer now (tc_due c)
             ((set_rule r y s)\<lparr>sch_throttling := True, th_deadline := tc_due c\<rparr>)) (\<lambda>s2. Inr (None, s2))"
      "tb_inv now (set_rule r y s)"
      using d(3) True unfolding c_def by blast
    define s' where "s' = (set_rule r y s)\<lparr>sch_throttling := True, th_deadline := tc_due c, th_timer := Some (tc_due c)\<rparr>"
    have "tbf_ModTimer now (tc_due c) ((set_rule r y s)\<lparr>sch_throttling := True, th_deadline := tc_due c\<rparr>) = Inr s'"
      using t0(2) by (simp add: tbf_ModTimer_def s'_def word_less_nat_alt)
    then have s': "NrsTbf_Dequeue now s = Inr (None, s')" using e(1) by simp
    define s1 where "s1 = NrsTbfTimerCallback s'"
    have ci: "tb_cli s1 = tb_cli s" "th_binheap s1 = th_binheap s" "tb_ptr s1 = tb_ptr s" "\<not> sch_throttling s1"
      by (simp_all add: s1_def NrsTbfTimerCallback_def s'_def)
    have "tb_inv now s1"
      by (rule inv_frame [OF e(2)]) (simp_all add: s1_def NrsTbfTimerCallback_def s'_def)
    then have i1: "tb_inv (tc_due c) s1" by (rule tb_inv_later) (use t0(2) in \<open>simp add: word_le_nat_alt\<close>)
    have p1: "tb_ptr_ok s1" using assms(2) by (simp add: tb_ptr_ok_def ci)
    have rd1: "tb_ready (tc_due c) c" by (rule ready_later [OF rd]) (use t0(2) in \<open>simp add: word_le_nat_alt\<close>)
    have "unat (tc_due c) + 2147483648 < 2 ^ 64" using t1 assms(5) by simp
    then have "tbf_tokens (tc_due c) (tb_cli s1 i) \<noteq> 0"
      using tbf_tokens_0 [OF rd1] t(2) by (simp add: ci(1) c_def)
    then obtain m s'' where "NrsTbf_Dequeue (tc_due c) s1 = Inr (Some (i, m), s'')"
      "m \<in> set (fifo_Q (tc_queue (tb_cli s i)))"
      using Dequeue_root(2) [OF i1 p1 ci(4)] i ci(1,2) by auto
    moreover have "th_timer s' = Some (tc_due c)" "sch_throttling s'" by (simp_all add: s'_def)
    ultimately show ?thesis using s' t0(2) t1 unfolding s1_def by blast
  qed
qed

section \<open>Runs\<close>

text \<open>The runs of the callers: time does not go back, a message enqueued is
  not one already attached to a client, and a message finished waits in no
  queue.\<close>

fun tbf_fits :: "tbf_op \<Rightarrow> nrs_tbf \<Rightarrow> bool" where
  "tbf_fits (Tb_enqueue t m) s \<longleftrightarrow> tb_ptr s (tm_id m) = None
     \<and> (\<forall>i<tb_ncli s. int (length (fifo_Q (tc_queue (tb_cli s i)))) + 1 < 2 ^ 64)"
| "tbf_fits (Tb_dequeue t) s \<longleftrightarrow> True"
| "tbf_fits (Tb_finish t m) s \<longleftrightarrow>
     (\<forall>i<tb_ncli s. \<forall>m' \<in> set (fifo_Q (tc_queue (tb_cli s i))). tm_id m' \<noteq> tm_id m)"
| "tbf_fits (Tb_timer t) s \<longleftrightarrow> True"

fun tbf_calls :: "tbf_params \<Rightarrow> (nat \<Rightarrow> bool) \<Rightarrow> cfs_time \<Rightarrow> tbf_op list \<Rightarrow> nrs_tbf \<Rightarrow> bool" where
  "tbf_calls P mem now [] s \<longleftrightarrow> True"
| "tbf_calls P mem now (op # ops) s \<longleftrightarrow> now \<le> tb_time op \<and> tbf_fits op s
     \<and> (case tbf_step P mem op s of Inl e \<Rightarrow> True | Inr (out, s') \<Rightarrow> tbf_calls P mem (tb_time op) ops s')"

lemma no_queue_above: "tb_inv now s \<Longrightarrow> \<not> i < tb_ncli s \<Longrightarrow> fifo_Q (tc_queue (tb_cli s i)) = []"
  using tb_invD(3) [of now s i] by (auto simp: tb_cli_ok_def split: option.splits)

lemma Finish_inv:
  assumes "NrsTbf_Finish m s = Inr s'" "tb_inv now s" "tb_ptr_ok s" "tbf_fits (Tb_finish t m) s"
  shows "tb_inv now s' \<and> tb_ptr_ok s'"
proof -
  obtain i s1 where r: "nrs_tbf_jobid_cli_put i s = Inr s1" "s' = s1\<lparr>tb_ptr := (tb_ptr s1)(tm_id m := None)\<rparr>"
    using assms(1) by (auto simp: NrsTbf_Finish_def bind_res_eq split: option.splits)
  have q: "quiet s s1" using cli_put_quiet [OF r(1) quiet_refl] .
  have i1: "tb_inv now s1" using quiet_inv [OF q assms(2)] .
  have n: "tm_id m' \<noteq> tm_id m" if "m' \<in> set (fifo_Q (tc_queue (tb_cli s x)))" for x m'
    using that assms(4) no_queue_above [OF assms(2), of x] by (cases "x < tb_ncli s") auto
  have "tb_ptr_ok s'"
    using assms(3) quiet_queues [OF q] n by (simp add: tb_ptr_ok_def same_queues_def r(2))
  moreover have "tb_inv now s'"
    using inv_frame [OF i1, of s'] tb_invD(6) [OF i1] by (simp add: r(2))
  ultimately show ?thesis by simp
qed

lemma step_inv:
  assumes "tbf_step P mem op s = Inr (out, s')" "tb_inv now s" "tb_ptr_ok s" "now \<le> tb_time op" "tbf_fits op s"
  shows "tb_inv (tb_time op) s' \<and> tb_ptr_ok s'"
proof (cases op)
  case (Tb_enqueue t m)
  have i: "tb_inv t s" using tb_inv_later [OF assms(2)] assms(4) Tb_enqueue by simp
  have "tbf_room s"
    unfolding tbf_room_def
  proof
    show "length (fifo_Q (tc_queue (tb_cli s x))) + 1 < 2 ^ 64" for x
      using assms(5) Tb_enqueue no_queue_above [OF i, of x] by (cases "x < tb_ncli s") force+
  qed
  then show ?thesis
    using assms(1,5) Enqueue_inv [OF _ i assms(3)] Tb_enqueue by (auto simp: bind_res_eq)
next
  case (Tb_dequeue t)
  have i: "tb_inv t s" using tb_inv_later [OF assms(2)] assms(4) Tb_dequeue by simp
  show ?thesis using assms(1) Dequeue_inv [OF _ i assms(3)] Tb_dequeue by (auto simp: bind_res_eq)
next
  case (Tb_finish t m)
  have i: "tb_inv t s" using tb_inv_later [OF assms(2)] assms(4) Tb_finish by simp
  show ?thesis using assms(1,5) Finish_inv [OF _ i assms(3)] Tb_finish by (auto simp: bind_res_eq)
next
  case (Tb_timer t)
  have i: "tb_inv t s" using tb_inv_later [OF assms(2)] assms(4) Tb_timer by simp
  have "s' = NrsTbfTimerCallback s" using assms(1) Tb_timer by (simp add: check_eq)
  then show ?thesis
    using inv_frame [OF i, of s'] assms(3) Tb_timer by (simp add: NrsTbfTimerCallback_def tb_ptr_ok_def)
qed

lemma run_inv:
  assumes "tbf_run P mem ops s = Inr (out, s')" "tb_inv now s" "tb_ptr_ok s" "tbf_calls P mem now ops s"
    "list_all (\<lambda>op. tb_time op \<le> now') ops" "now \<le> now'"
  shows "tb_inv now' s' \<and> tb_ptr_ok s'"
  using assms
proof (induction ops arbitrary: now s out)
  case Nil
  then show ?case using tb_inv_later by auto
next
  case (Cons op ops)
  obtain out1 s1 out2 where r: "tbf_step P mem op s = Inr (out1, s1)" "tbf_run P mem ops s1 = Inr (out2, s')"
    using Cons.prems(1) by (auto simp: bind_res_eq)
  have c: "now \<le> tb_time op" "tbf_fits op s" "tbf_calls P mem (tb_time op) ops s1"
    using Cons.prems(4) r(1) by simp_all
  note i = step_inv [OF r(1) Cons.prems(2,3) c(1,2)]
  show ?case using Cons.IH [OF r(2) _ _ c(3)] i Cons.prems(5) by simp
qed

section \<open>The configured rules\<close>

text \<open>The rates a run is configured with: not above a request per
  nanosecond, a bucket of at least one token.\<close>

definition tbf_sane :: "tbf_params \<Rightarrow> nat \<Rightarrow> bool" where
  "tbf_sane P num \<longleftrightarrow> 0 < TbfDepth P \<and> TbfDepth P < 2147483648
     \<and> (\<forall>i<num. Rate P i \<le> NSEC_PER_SEC \<and> UpperRate P i \<le> NSEC_PER_SEC)"

definition tb_config :: "nrs_tbf \<Rightarrow> bool" where
  "tb_config s \<longleftrightarrow> tb_inv 0 s \<and> (\<forall>i. tb_cli s i = blank_client) \<and> (\<forall>m. tb_ptr s m = None)"

lemma config_ptr: "tb_config s \<Longrightarrow> tb_ptr_ok s"
  by (simp add: tb_config_def tb_ptr_ok_def blank_client_def)

lemma config_rule:
  assumes "tb_config s" "tb_rule_ok x"
  shows "tb_config (set_rule i x s)"
    "tb_config ((set_rule i x s)\<lparr>th_list := i # th_list s, th_rule_sequence := n\<rparr>)"
    "tb_config ((set_rule i x s)\<lparr>th_list := i # th_list s, th_rule_sequence := n, th_rule := Some i\<rparr>)"
proof -
  have b: "\<And>j. tc_rule (tb_cli s j) = None" using assms(1) by (simp add: tb_config_def blank_client_def)
  have i: "tb_inv 0 s" using assms(1) by (simp add: tb_config_def)
  have k: "tb_inv 0 s'" if "tb_cli s' = tb_cli s" "tb_rule s' = (tb_rule s)(i := x)" "th_binheap s' = th_binheap s"
    "th_list s' = th_list s \<or> th_list s' = i # th_list s" "th_rule s' = th_rule s \<or> th_rule s' = Some i"
    "sch_throttling s' = sch_throttling s" "th_timer s' = th_timer s" for s'
    using tb_invD [OF i] assms(2) b that by (intro tb_invI) (auto simp: tb_cli_ok_def)
  show "tb_config (set_rule i x s)"
    "tb_config ((set_rule i x s)\<lparr>th_list := i # th_list s, th_rule_sequence := n\<rparr>)"
    "tb_config ((set_rule i x s)\<lparr>th_list := i # th_list s, th_rule_sequence := n, th_rule := Some i\<rparr>)"
    using assms(1) by (simp_all add: tb_config_def k)
qed

lemma config_quiet:
  assumes "quiet s s'" "tb_cli s' = tb_cli s" "tb_config s"
  shows "tb_config s'"
  using assms quiet_inv [OF assms(1)] by (simp add: tb_config_def quiet_def)

lemma configure_rule:
  assumes "tbf_configure_rule P i s = Inr s'" "tb_config s" "tbf_sane P num" "i < num"
  shows "tb_config s'"
proof -
  define rule where "rule = \<lparr>tr_name = rule_name i, tr_jobids = nrs_tbf_jobid_rule_init i,
              tr_rpc_rate = Rate P i, tr_nsecs = NSEC_PER_SEC div Rate P i, tr_depth = TbfDepth P,
              tr_cli_list = [], tr_dependency = False, tr_ref = 1, tr_generation = 0, tr_deprule = 0,
              tr_upper_rate = 0, tr_lower_rate = 0, tr_speedup = 0, tr_last_round = 0,
              tr_lastActiveTime = 0, tr_nsecsBacklog = 0, tr_checkTime = 0\<rparr>"
  define s1 where "s1 = (set_rule i rule s)\<lparr>th_list := i # th_list s, th_rule_sequence := th_rule_sequence s + 1\<rparr>"
  define r where "r = rule\<lparr>tr_upper_rate := UpperRate P i, tr_lower_rate := LowerRate P i,
                            tr_rpc_rate := LowerRate P i, tr_dependency := True\<rparr>"
  obtain s2 where e: "Rate P i \<noteq> 0"
    "(if i = 0 then check (th_rule s1 = None \<and> DepIndex P i < 0) (Inr (s1\<lparr>th_rule := Some i\<rparr>)) else Inr s1) = Inr s2"
    "(if DepIndex P i \<ge> 0
             then check (DepIndex P i < int i)
               (case nrs_tbf_rule_find (rule_name (nat (DepIndex P i))) (set_rule i r s2) of
                     None \<Rightarrow> Inl Assert_failed
                   | Some d \<Rightarrow>
                       nrs_tbf_rule_put d
                         (set_rule i (r\<lparr>tr_deprule := d\<rparr>) (nrs_tbf_rule_get d (set_rule i r s2))))
             else Inr s2) = Inr s'"
    using assms(1) unfolding tbf_configure_rule_def Let_def rule_def [symmetric] s1_def [symmetric] r_def [symmetric]
    by (auto simp: bind_res_eq simp del: not_le split: if_splits)
  have sane: "Rate P i \<le> NSEC_PER_SEC" "UpperRate P i \<le> NSEC_PER_SEC" "0 < TbfDepth P" "TbfDepth P < 2147483648"
    using assms(3,4) by (simp_all add: tbf_sane_def)
  have ok: "tb_rule_ok rule" "tb_rule_ok r"
    using nsecs_of_rate [OF e(1) sane(1)] sane by (simp_all add: rule_def r_def tb_rule_ok_def)
  have c2: "tb_config s2"
    using e(2) config_rule [OF assms(2) ok(1)] by (auto simp: s1_def check_eq split: if_splits)
  show ?thesis
  proof (cases "DepIndex P i \<ge> 0")
    case False
    then show ?thesis using e(3) c2 by simp
  next
    case True
    then obtain d where d: "nrs_tbf_rule_put d
        (set_rule i (r\<lparr>tr_deprule := d\<rparr>) (nrs_tbf_rule_get d (set_rule i r s2))) = Inr s'"
      using e(3) by (auto simp: check_eq split: option.splits)
    have "quiet (set_rule i r s2) (nrs_tbf_rule_get d (set_rule i r s2))"
      unfolding nrs_tbf_rule_get_def by (rule quiet_rule) simp_all
    then have "tb_config (nrs_tbf_rule_get d (set_rule i r s2))"
      by (rule config_quiet [OF _ _ config_rule(1) [OF c2 ok(2)]]) (simp add: nrs_tbf_rule_get_def)
    then have "tb_config (set_rule i (r\<lparr>tr_deprule := d\<rparr>) (nrs_tbf_rule_get d (set_rule i r s2)))"
      by (rule config_rule(1)) (use ok(2) in \<open>simp add: tb_rule_ok_def\<close>)
    then show ?thesis by (rule config_quiet [OF rule_put_quiet [OF d quiet_refl] rule_put_cli [OF d]])
  qed
qed

lemma configure_loop:
  "tbf_configure_loop P is s = Inr s' \<Longrightarrow> tb_config s \<Longrightarrow> tbf_sane P num \<Longrightarrow> set is \<subseteq> {..<num} \<Longrightarrow> tb_config s'"
  by (induction "is" arbitrary: s) (auto simp: bind_res_eq dest: configure_rule)

lemma start_config:
  assumes "nrs_tbf_start P num = Inr s" "tbf_sane P num"
  shows "tb_config s"
proof -
  define s0 :: nrs_tbf where "s0 = \<lparr>sch_size = 0, sch_throttling = False, tb_cli = (\<lambda>_. blank_client), tb_ncli = 0,
        tb_rule = (\<lambda>_. blank_rule), tb_ptr = (\<lambda>_. None), th_list = [], th_rule = None, th_rule_sequence = 0,
        th_timer = None, th_deadline = 0, th_binheap = cbh_new, th_cli_hash = [], ntb_lru = (\<lambda>_. [])\<rparr>"
  have "tbf_configure_loop P [0..<num] s0 = Inr s"
    using assms(1) by (simp add: nrs_tbf_start_def nrs_tbf_configure_rules_def s0_def)
  moreover have "tb_config s0"
    unfolding tb_config_def
    by (simp add: s0_def, intro tb_invI) (simp_all add: s0_def blank_client_def tb_cli_ok_def cbh_ok_new)
  ultimately show ?thesis by (rule configure_loop [OF _ _ assms(2)]) auto
qed

section \<open>Property\<close>

text \<open>C14 A request that waits in the token bucket filter is not forgotten.
  After any run of the callers on the configured rules, time not going back, a
  throttled scheduler has its timer armed; and if it is not throttled and a
  job has a request waiting, NrsTbf::Dequeue returns a waiting request, or it
  throttles and arms the timer for a time at most a second ahead, and the
  Dequeue after the timer callback at that time returns one.  Neither of
  the two Dequeues fails an assertion of the heap, the filter or the timer.\<close>
theorem tbf_waiting_served:
  assumes "tbf_sane P num" "nrs_tbf_start P num = Inr s0" "tbf_run P mem ops s0 = Inr (out, s)"
    "tbf_calls P mem 0 ops s0" "list_all (\<lambda>op. tb_time op \<le> now) ops" "unat now < 2 ^ 63"
  shows "(sch_throttling s \<longrightarrow> th_timer s \<noteq> None) \<and>
    (\<not> sch_throttling s \<and> fifo_Q (tc_queue (tb_cli s w)) \<noteq> [] \<longrightarrow>
      (\<exists>i m s'. NrsTbf_Dequeue now s = Inr (Some (i, m), s') \<and> m \<in> set (fifo_Q (tc_queue (tb_cli s i))))
      \<or> (\<exists>s' t i m s''. NrsTbf_Dequeue now s = Inr (None, s') \<and> sch_throttling s' \<and> th_timer s' = Some t
          \<and> unat now < unat t \<and> unat t \<le> unat now + 1000000000
          \<and> NrsTbf_Dequeue t (NrsTbfTimerCallback s') = Inr (Some (i, m), s'')
          \<and> m \<in> set (fifo_Q (tc_queue (tb_cli s i)))))"
proof -
  have c: "tb_config s0" using start_config [OF assms(2,1)] .
  have "tb_inv 0 s0" using c by (simp add: tb_config_def)
  then have "tb_inv now s" "tb_ptr_ok s"
    using run_inv [OF assms(3) _ config_ptr [OF c] assms(4,5)] by simp_all
  then show ?thesis using tb_invD(6) Dequeue_progress assms(6) by blast
qed

definition tbf_wit_params :: tbf_params where
  "tbf_wit_params = \<lparr>TbfDepth = 2, Rate = (\<lambda>i. if i = 0 then 1000 else 100), DepIndex = (\<lambda>_. -1),
     UpperRate = (\<lambda>_. 0), LowerRate = (\<lambda>_. 0), Alpha = 0, Beta = 0\<rparr>"

definition tbf_wit_ops :: "tbf_op list" where
  "tbf_wit_ops = [Tb_enqueue 5 \<lparr>tm_id = 1, tm_jobid = ''J''\<rparr>]"

definition tbf_wit_start :: nrs_tbf where
  "tbf_wit_start = projr (nrs_tbf_start tbf_wit_params 1)"

definition tbf_wit_s :: nrs_tbf where
  "tbf_wit_s = snd (projr (tbf_run tbf_wit_params (\<lambda>_. True) tbf_wit_ops tbf_wit_start))"

lemma projr_Inr: "\<not> isl x \<Longrightarrow> x = Inr (projr x)"
  by (cases x) simp_all

lemma tbf_wit_started: "nrs_tbf_start tbf_wit_params 1 = Inr tbf_wit_start"
proof -
  have "\<not> isl (nrs_tbf_start tbf_wit_params 1)" by code_simp
  then show ?thesis using projr_Inr by (simp add: tbf_wit_start_def)
qed

lemma tbf_wit_run:
  "tbf_run tbf_wit_params (\<lambda>_. True) tbf_wit_ops tbf_wit_start = Inr ([], tbf_wit_s)"
  "\<not> sch_throttling tbf_wit_s" "fifo_Q (tc_queue (tb_cli tbf_wit_s 0)) \<noteq> []"
  "tb_ncli tbf_wit_s = 1" "tc_ntoken (tb_cli tbf_wit_s 0) = 2" "tc_rule (tb_cli tbf_wit_s 0) = Some 0"
  "\<not> tr_dependency (tb_rule tbf_wit_s 0)"
proof -
  have a: "case tbf_run tbf_wit_params (\<lambda>_. True) tbf_wit_ops tbf_wit_start of Inl _ \<Rightarrow> False | Inr (out, s) \<Rightarrow> out = []
       \<and> \<not> sch_throttling s \<and> fifo_Q (tc_queue (tb_cli s 0)) \<noteq> [] \<and> tb_ncli s = 1 \<and> tc_ntoken (tb_cli s 0) = 2
       \<and> tc_rule (tb_cli s 0) = Some 0 \<and> \<not> tr_dependency (tb_rule s 0)"
    by code_simp
  show "tbf_run tbf_wit_params (\<lambda>_. True) tbf_wit_ops tbf_wit_start = Inr ([], tbf_wit_s)"
    "\<not> sch_throttling tbf_wit_s" "fifo_Q (tc_queue (tb_cli tbf_wit_s 0)) \<noteq> []"
    "tb_ncli tbf_wit_s = 1" "tc_ntoken (tb_cli tbf_wit_s 0) = 2" "tc_rule (tb_cli tbf_wit_s 0) = Some 0"
    "\<not> tr_dependency (tb_rule tbf_wit_s 0)"
    using a unfolding tbf_wit_s_def by (auto split: sum.splits)
qed

lemma tbf_wit_calls: "tbf_calls tbf_wit_params (\<lambda>_. True) 0 tbf_wit_ops tbf_wit_start"
proof -
  have "tbf_sane tbf_wit_params 1" by (simp add: tbf_sane_def tbf_wit_params_def)
  then have "tb_config tbf_wit_start" using start_config tbf_wit_started by blast
  then show ?thesis
    by (auto simp: tbf_wit_ops_def tb_config_def blank_client_def split: sum.splits)
qed
lemma tbf_waiting_served_witness:
  "(\<exists>i m s'. NrsTbf_Dequeue 10 tbf_wit_s = Inr (Some (i, m), s') \<and> m \<in> set (fifo_Q (tc_queue (tb_cli tbf_wit_s i))))
   \<or> (\<exists>s' t i m s''. NrsTbf_Dequeue 10 tbf_wit_s = Inr (None, s') \<and> sch_throttling s' \<and> th_timer s' = Some t
          \<and> unat (10 :: u64) < unat t \<and> unat t \<le> unat (10 :: u64) + 1000000000
          \<and> NrsTbf_Dequeue t (NrsTbfTimerCallback s') = Inr (Some (i, m), s'')
          \<and> m \<in> set (fifo_Q (tc_queue (tb_cli tbf_wit_s i))))"
proof -
  have "tbf_sane tbf_wit_params 1" by (simp add: tbf_sane_def tbf_wit_params_def)
  moreover have "list_all (\<lambda>op. tb_time op \<le> 10) tbf_wit_ops" by (simp add: tbf_wit_ops_def)
  ultimately show ?thesis
    using tbf_waiting_served [OF _ tbf_wit_started tbf_wit_run(1) tbf_wit_calls, of 10 0] tbf_wit_run(2,3) by simp
qed

end
