(* ===== verification/TbfJobs.thy ===== *)
theory TbfJobs
  imports TbfLive
begin

text \<open>
  Which client of the token bucket filter a job has: the client cache holds at
  most one client per job, the requests of a job wait in the client that the
  cache has for it, and a client that the cache has dropped never comes back.
\<close>

section \<open>The cache and the queues\<close>

text \<open>What of the state matters here: the clients allocated, the cache, and the
  job and the queue of every client.\<close>

definition jobs_view :: "nrs_tbf \<Rightarrow> nat \<times> (string \<times> nat) list \<times> (nat \<Rightarrow> string \<times> tmsg nrs_fifo)" where
  "jobs_view s = (tb_ncli s, th_cli_hash s, \<lambda>i. (tc_jobid (tb_cli s i), tc_queue (tb_cli s i)))"

definition job_queue_ok :: "nat \<Rightarrow> string \<Rightarrow> tmsg nrs_fifo \<Rightarrow> bool" where
  "job_queue_ok n J q \<longleftrightarrow> sch_size q = of_nat (length (fifo_Q q)) \<and> length (fifo_Q q) \<le> n \<and> (\<forall>m\<in>set (fifo_Q q). tm_jobid m = J)"

definition jobs_ok :: "nat \<Rightarrow> nat \<times> (string \<times> nat) list \<times> (nat \<Rightarrow> string \<times> tmsg nrs_fifo) \<Rightarrow> bool" where
  "jobs_ok n = (\<lambda>(N, h, f). distinct (map fst h) \<and> (\<forall>(J, i)\<in>set h. i < N \<and> fst (f i) = J)
     \<and> (\<forall>i. job_queue_ok n (fst (f i)) (snd (f i)) \<and> (fifo_Q (snd (f i)) \<noteq> [] \<longrightarrow> (fst (f i), i) \<in> set h)))"

abbreviation tb_jobs :: "nat \<Rightarrow> nrs_tbf \<Rightarrow> bool" where
  "tb_jobs n s \<equiv> jobs_ok n (jobs_view s)"

text \<open>An entry for an old client in the cache was there before.\<close>

definition cache_back :: "nrs_tbf \<Rightarrow> nrs_tbf \<Rightarrow> bool" where
  "cache_back s s' \<longleftrightarrow> tb_ncli s \<le> tb_ncli s' \<and> (\<forall>x\<in>set (th_cli_hash s'). snd x < tb_ncli s \<longrightarrow> x \<in> set (th_cli_hash s))"

lemma view_fields:
  assumes "jobs_view s' = jobs_view s"
  shows "tb_ncli s' = tb_ncli s" "th_cli_hash s' = th_cli_hash s"
    "tc_jobid (tb_cli s' i) = tc_jobid (tb_cli s i)" "tc_queue (tb_cli s' i) = tc_queue (tb_cli s i)"
proof -
  show "tb_ncli s' = tb_ncli s" "th_cli_hash s' = th_cli_hash s" using assms by (simp_all add: jobs_view_def)
  have "(\<lambda>i. (tc_jobid (tb_cli s' i), tc_queue (tb_cli s' i))) = (\<lambda>i. (tc_jobid (tb_cli s i), tc_queue (tb_cli s i)))"
    using assms by (simp add: jobs_view_def)
  from fun_cong [OF this, of i] show "tc_jobid (tb_cli s' i) = tc_jobid (tb_cli s i)" "tc_queue (tb_cli s' i) = tc_queue (tb_cli s i)"
    by simp_all
qed

lemma view_back: "jobs_view s' = jobs_view s \<Longrightarrow> cache_back s s'"
  by (simp add: cache_back_def view_fields(1,2) [of s' s])

lemma cache_back_trans: "cache_back s s' \<Longrightarrow> cache_back s' s'' \<Longrightarrow> cache_back s s''"
  unfolding cache_back_def by (meson order_less_le_trans order_trans)

lemma view_set_cli [simp]:
  "tc_jobid c = tc_jobid (tb_cli s j) \<Longrightarrow> tc_queue c = tc_queue (tb_cli s j) \<Longrightarrow> jobs_view (set_cli j c s) = jobs_view s"
  by (auto simp: jobs_view_def fun_eq_iff)

lemma view_set_rule [simp]: "jobs_view (set_rule r x s) = jobs_view s"
  by (simp add: jobs_view_def)

lemma view_other [simp]:
  "jobs_view (s\<lparr>th_binheap := h\<rparr>) = jobs_view s" "jobs_view (s\<lparr>th_timer := tm\<rparr>) = jobs_view s"
  "jobs_view (s\<lparr>th_deadline := d\<rparr>) = jobs_view s" "jobs_view (s\<lparr>sch_throttling := b\<rparr>) = jobs_view s"
  "jobs_view (s\<lparr>tb_ptr := p\<rparr>) = jobs_view s" "jobs_view (s\<lparr>ntb_lru := l\<rparr>) = jobs_view s"
  "jobs_view (s\<lparr>th_list := rl\<rparr>) = jobs_view s" "jobs_view (s\<lparr>th_rule := ro\<rparr>) = jobs_view s"
  "jobs_view (s\<lparr>th_rule_sequence := sq\<rparr>) = jobs_view s"
  by (simp_all add: jobs_view_def)

section \<open>Operations that leave the cache and the queues alone\<close>

lemma rule_put_view: "nrs_tbf_rule_put r s = Inr s' \<Longrightarrow> jobs_view s' = jobs_view s"
  by (auto simp: nrs_tbf_rule_put_def Let_def check_eq split: if_splits)

lemma cli_rule_put_view:
  assumes "nrs_tbf_cli_rule_put j s = Inr s'"
  shows "jobs_view s' = jobs_view s"
proof -
  obtain r s1 where r: "nrs_tbf_rule_put r (set_rule r (tb_rule s r\<lparr>tr_cli_list := removeAll j (tr_cli_list (tb_rule s r))\<rparr>) s) = Inr s1"
    "s' = set_cli j (tb_cli s1 j\<lparr>tc_rule := None\<rparr>) s1"
    using assms by (auto simp: nrs_tbf_cli_rule_put_def check_eq bind_res_eq split: option.splits)
  then show ?thesis using rule_put_view [OF r(1)] by simp
qed

lemma relocate_view: "tbf_relocate j s = Inr s' \<Longrightarrow> jobs_view s' = jobs_view s"
  by (auto simp: tbf_relocate_def split: option.splits)

lemma cli_fini_view: "nrs_tbf_cli_fini j s = Inr s' \<Longrightarrow> jobs_view s' = jobs_view s \<and> Scheduler_Empty (tc_queue (tb_cli s j))"
  by (auto simp: nrs_tbf_cli_fini_def check_eq dest: cli_rule_put_view)

lemma fini_all_view:
  "tbf_fini_all zs s = Inr s' \<Longrightarrow> jobs_view s' = jobs_view s \<and> (\<forall>j\<in>set zs. Scheduler_Empty (tc_queue (tb_cli s j)))"
proof (induction zs arbitrary: s)
  case (Cons j zs)
  then obtain s1 where s1: "nrs_tbf_cli_fini j s = Inr s1" "tbf_fini_all zs s1 = Inr s'" by (auto simp: bind_res_eq)
  note f = cli_fini_view [OF s1(1)] and g = Cons.IH [OF s1(2)]
  then show ?case using view_fields(4) [of s1 s] by auto
qed simp

lemma reset_value_view: "nrs_tbf_cli_reset_value clk keep j s = Inr s' \<Longrightarrow> jobs_view s' = jobs_view s"
  by (auto simp: nrs_tbf_cli_reset_value_def Let_def split: option.splits if_splits dest!: relocate_view)

lemma rule_match_view: "nrs_tbf_rule_match c s = Inr (r, s') \<Longrightarrow> jobs_view s' = jobs_view s"
  by (auto simp: nrs_tbf_rule_match_def nrs_tbf_rule_get_def split: option.splits)

lemma cli_reset_view:
  assumes "nrs_tbf_cli_reset clk r j s = Inr s'"
  shows "jobs_view s' = jobs_view s"
proof -
  obtain s3 where s3: "jobs_view s3 = jobs_view s" "nrs_tbf_cli_reset_value clk False j
            (set_rule r (tb_rule s3 r\<lparr>tr_cli_list := tr_cli_list (tb_rule s3 r) @ [j]\<rparr>)
              (set_cli j (tb_cli s3 j\<lparr>tc_rule := Some r\<rparr>) s3)) = Inr s'"
    using assms unfolding nrs_tbf_cli_reset_def
    by (auto simp: bind_res_eq check_eq split: option.splits if_splits dest: cli_rule_put_view)
  then show ?thesis using reset_value_view [OF s3(2)] by simp
qed

lemma lookup_view: "nrs_tbf_jobid_hash_lookup J s = (r, s') \<Longrightarrow> jobs_view s' = jobs_view s \<and> r = map_of (th_cli_hash s) J"
  by (auto simp: nrs_tbf_jobid_hash_lookup_def split: option.splits)

lemma update_rate_view:
  assumes "nrs_tbf_update_rule_rate P now j s = Inr s'"
  shows "jobs_view s' = jobs_view s"
  using assms unfolding nrs_tbf_update_rule_rate_def
  by (auto simp: Let_def bind_res_eq split: option.splits if_splits dest!: reset_value_view)

lemma ModTimer_view: "tbf_ModTimer clk e s = Inr s' \<Longrightarrow> jobs_view s' = jobs_view s"
  by (auto simp: tbf_ModTimer_def split: if_splits)

lemma configure_rule_view:
  assumes "tbf_configure_rule P i s = Inr s'"
  shows "jobs_view s' = jobs_view s"
  using assms unfolding tbf_configure_rule_def
  by (auto simp: Let_def bind_res_eq check_eq nrs_tbf_rule_get_def split: option.splits if_splits dest!: rule_put_view)

lemma configure_view: "tbf_configure_loop P is s = Inr s' \<Longrightarrow> jobs_view s' = jobs_view s"
  by (induction "is" arbitrary: s) (auto simp: bind_res_eq dest!: configure_rule_view)

lemma start_jobs: "nrs_tbf_start P num = Inr s \<Longrightarrow> tb_jobs 0 s"
  unfolding nrs_tbf_start_def nrs_tbf_configure_rules_def
  by (drule configure_view) (simp add: jobs_view_def jobs_ok_def job_queue_ok_def blank_client_def NrsFifo_new_def)

section \<open>Operations on the cache and the queues\<close>

abbreviation job_of :: "nrs_tbf \<Rightarrow> nat \<Rightarrow> string \<times> tmsg nrs_fifo" where
  "job_of s \<equiv> \<lambda>i. (tc_jobid (tb_cli s i), tc_queue (tb_cli s i))"

lemma view_set: "jobs_view (set_cli i c s) = (tb_ncli s, th_cli_hash s, (job_of s)(i := (tc_jobid c, tc_queue c)))"
  by (auto simp: jobs_view_def fun_eq_iff)

lemma queue_later: "job_queue_ok n J q \<Longrightarrow> job_queue_ok (Suc n) J q"
  by (simp add: job_queue_ok_def)

lemma jobs_later: "jobs_ok n v \<Longrightarrow> jobs_ok (Suc n) v"
  by (cases v) (simp add: jobs_ok_def queue_later)

lemma jobs_add:
  assumes "jobs_ok n (N, h, f)" "map_of h J = None"
  shows "jobs_ok n (Suc N, (J, N) # h, f(N := (J, NrsFifo_new)))"
proof -
  have "J \<notin> fst ` set h" using assms(2) by (simp add: map_of_eq_None_iff)
  moreover have "job_queue_ok n J NrsFifo_new" by (simp add: job_queue_ok_def NrsFifo_new_def)
  ultimately show ?thesis using assms(1) by (fastforce simp: jobs_ok_def)
qed

lemma jobs_enq:
  assumes "jobs_ok n (N, h, f)" "(tm_jobid m, i) \<in> set h"
  shows "jobs_ok (Suc n) (N, h, f(i := (fst (f i), NrsFifo_Enqueue m (snd (f i)))))"
proof -
  have i: "fst (f i) = tm_jobid m" using assms by (auto simp: jobs_ok_def)
  have "job_queue_ok n (fst (f i)) (snd (f i))" using assms(1) by (simp add: jobs_ok_def)
  then have "job_queue_ok (Suc n) (fst (f i)) (NrsFifo_Enqueue m (snd (f i)))"
    using i by (auto simp: job_queue_ok_def NrsFifo_Enqueue_def)
  then show ?thesis using jobs_later [OF assms(1)] assms(2) i by (auto simp: jobs_ok_def)
qed

lemma jobs_deq:
  assumes "jobs_ok n (N, h, f)" "NrsFifo_Dequeue (snd (f i)) = (Some m, q)"
  shows "jobs_ok n (N, h, f(i := (fst (f i), q)))" "(tm_jobid m, i) \<in> set h"
proof -
  have q: "fifo_Q (snd (f i)) \<noteq> []" "m = last (fifo_Q (snd (f i)))" "fifo_Q q = butlast (fifo_Q (snd (f i)))" "sch_size q = sch_size (snd (f i)) - 1"
    using assms(2) by (auto simp: NrsFifo_Dequeue_def split: if_splits)
  have o: "job_queue_ok n (fst (f i)) (snd (f i))" and h: "(fst (f i), i) \<in> set h" using assms(1) q(1) by (simp_all add: jobs_ok_def)
  have "tm_jobid m = fst (f i)" using o last_in_set [OF q(1)] q(2) by (simp add: job_queue_ok_def)
  then show "(tm_jobid m, i) \<in> set h" using h by simp
  have "job_queue_ok n (fst (f i)) q"
    using o q by (auto simp: job_queue_ok_def of_nat_diff Suc_le_eq dest: in_set_butlastD)
  then show "jobs_ok n (N, h, f(i := (fst (f i), q)))" using assms(1) h by (auto simp: jobs_ok_def)
qed

lemma jobs_purge:
  assumes "jobs_ok n (N, h, f)" "n < 2 ^ 64" "\<forall>j\<in>set zs. Scheduler_Empty (snd (f j))"
  shows "jobs_ok n (N, filter (\<lambda>(_, j). j \<notin> set zs) h, f)"
proof -
  have "fifo_Q (snd (f j)) = []" if "j \<in> set zs" for j
  proof -
    have "job_queue_ok n (fst (f j)) (snd (f j))" using assms(1) by (simp add: jobs_ok_def)
    then show ?thesis using assms(2,3) that by (auto simp: job_queue_ok_def Scheduler_Empty_def of_nat_u64_eq_0)
  qed
  moreover have "distinct (map fst (filter (\<lambda>(_, j). j \<notin> set zs) h))" using assms(1) by (simp add: jobs_ok_def distinct_map_filter)
  ultimately show ?thesis using assms(1) by (fastforce simp: jobs_ok_def)
qed

lemma cli_init_view:
  assumes "nrs_tbf_cli_init clk m s = Inr (i, s')"
  shows "i = tb_ncli s" "jobs_view s' = (Suc (tb_ncli s), th_cli_hash s, (job_of s)(tb_ncli s := (tm_jobid m, NrsFifo_new)))"
proof -
  obtain c r s1 where s1: "nrs_tbf_rule_match c (set_cli (tb_ncli s) c (s\<lparr>tb_ncli := tb_ncli s + 1\<rparr>)) = Inr (r, s1)"
    "nrs_tbf_cli_reset clk r (tb_ncli s) s1 = Inr s'" "i = tb_ncli s" "tc_jobid c = tm_jobid m" "tc_queue c = NrsFifo_new"
    using assms by (auto simp: nrs_tbf_cli_init_def Let_def check_eq bind_res_eq)
  show "i = tb_ncli s" by (rule s1(3))
  show "jobs_view s' = (Suc (tb_ncli s), th_cli_hash s, (job_of s)(tb_ncli s := (tm_jobid m, NrsFifo_new)))"
    unfolding cli_reset_view [OF s1(2)] rule_match_view [OF s1(1)] by (simp add: view_set s1(4,5))
qed

lemma get_client_jobs:
  assumes "tbf_get_client now m s = Inr (i, s')" "tb_jobs n s"
  shows "tb_jobs n s' \<and> cache_back s s' \<and> (tm_jobid m, i) \<in> set (th_cli_hash s')"
proof (cases "nrs_tbf_jobid_cli_find m s")
  case (Pair r s1)
  then have v1: "jobs_view s1 = jobs_view s" "r = map_of (th_cli_hash s) (tm_jobid m)"
    using lookup_view unfolding nrs_tbf_jobid_cli_find_def by blast+
  note hs = view_fields(1,2) [OF v1(1)]
  show ?thesis
  proof (cases r)
    case (Some j)
    then have "s' = s1" "i = j" using assms(1) Pair by (simp_all add: tbf_get_client_def)
    then show ?thesis using v1 assms(2) view_back [OF v1(1)] hs Some by (simp add: map_of_SomeD)
  next
    case None
    obtain j s3 where s3: "nrs_tbf_cli_init now m s1 = Inr (j, s3)" "(case nrs_tbf_jobid_cli_findadd j s3 of
              (tmp, s3) \<Rightarrow>
                if tmp \<noteq> j
                then bind_res (nrs_tbf_cli_fini j (set_cli j (tb_cli s3 j\<lparr>tc_ref := tc_ref (tb_cli s3 j) - 1\<rparr>) s3))
                       (\<lambda>s4. Inr (tmp, s4))
                else Inr (j, s3)) = Inr (i, s')"
      using assms(1) Pair None by (auto simp: tbf_get_client_def bind_res_eq)
    note ini = cli_init_view [OF s3(1)]
    have f3: "tb_ncli s3 = Suc (tb_ncli s)" "th_cli_hash s3 = th_cli_hash s" "job_of s3 = (job_of s1)(tb_ncli s := (tm_jobid m, NrsFifo_new))"
      using ini(2) hs by (simp_all add: jobs_view_def)
    have jm: "tc_jobid (tb_cli s3 j) = tm_jobid m" using fun_cong [OF f3(3), of j] ini(1) hs by simp
    have no: "map_of (th_cli_hash s) (tm_jobid m) = None" using v1(2) None by simp
    then have "nrs_tbf_jobid_hash_lookup (tm_jobid m) s3 = (None, s3)" using f3(2) by (simp add: nrs_tbf_jobid_hash_lookup_def)
    then have "nrs_tbf_jobid_cli_findadd j s3 = (j, s3\<lparr>th_cli_hash := (tm_jobid m, j) # th_cli_hash s3\<rparr>)"
      using jm by (simp add: nrs_tbf_jobid_cli_findadd_def Let_def)
    then have r: "i = j" "s' = s3\<lparr>th_cli_hash := (tm_jobid m, j) # th_cli_hash s3\<rparr>" using s3(2) by auto
    have j: "j = tb_ncli s" using ini(1) hs by simp
    have "jobs_view s' = (Suc (tb_ncli s), (tm_jobid m, tb_ncli s) # th_cli_hash s, (job_of s)(tb_ncli s := (tm_jobid m, NrsFifo_new)))"
    proof -
      have "job_of s1 = job_of s" using v1(1) by (simp add: jobs_view_def)
      then show ?thesis using f3 r j by (simp add: jobs_view_def)
    qed
    moreover have "jobs_ok n (tb_ncli s, th_cli_hash s, job_of s)" using assms(2) by (simp add: jobs_view_def)
    ultimately have "tb_jobs n s'" using jobs_add [OF _ no] by simp
    moreover have "cache_back s s'" using r(2) f3(1,2) j by (simp add: cache_back_def)
    ultimately show ?thesis using r by simp
  qed
qed

lemma first_request_view:
  assumes "tbf_first_request mem now i m s = Inr (rc, s')"
  shows "jobs_view s' = jobs_view s \<or>
    jobs_view s' = (tb_ncli s, th_cli_hash s, (job_of s)(i := (tc_jobid (tb_cli s i), NrsFifo_Enqueue m (tc_queue (tb_cli s i)))))"
proof -
  define s3 where "s3 = set_cli i (tb_cli s i\<lparr>tc_backlog_ckpt := now\<rparr>) s"
  have v3: "jobs_view s3 = jobs_view s" by (simp add: s3_def)
  have q3: "tc_jobid (tb_cli s3 i) = tc_jobid (tb_cli s i)" "tc_queue (tb_cli s3 i) = tc_queue (tb_cli s i)" by (simp_all add: s3_def)
  define s4 where "s4 = set_cli i (tb_cli s3 i\<lparr>tc_in_heap := True, tc_queue := NrsFifo_Enqueue m (tc_queue (tb_cli s3 i))\<rparr>) s3"
  have v4: "jobs_view s4 = (tb_ncli s, th_cli_hash s, (job_of s)(i := (tc_jobid (tb_cli s i), NrsFifo_Enqueue m (tc_queue (tb_cli s i)))))"
    unfolding s4_def view_set using v3 q3 by (simp add: jobs_view_def)
  have m: "tbf_ModTimer now e (s4\<lparr>th_binheap := h, th_deadline := d\<rparr>) = Inr s2 \<Longrightarrow> jobs_view s2 = jobs_view s4" for e h d s2
    by (drule ModTimer_view) simp
  have "jobs_view s' = jobs_view s3 \<or> jobs_view s' = jobs_view s4"
    using assms unfolding tbf_first_request_def Let_def s3_def [symmetric] s4_def [symmetric]
    by (auto simp: check_eq bind_res_eq split: option.splits if_splits dest: m)
  then show ?thesis using v3 v4 by simp
qed

lemma Enqueue_jobs:
  assumes "NrsTbf_Enqueue P mem now m s = Inr (rc, s')" "tb_jobs n s"
  shows "tb_jobs (Suc n) s' \<and> cache_back s s'"
proof -
  obtain i s1 s2 s3 where s: "tbf_get_client now m s = Inr (i, s1)" "nrs_tbf_update_rule_rate P now i s1 = Inr s2"
    "(if Scheduler_Empty (tc_queue (tb_cli s2 i)) then tbf_first_request mem now i m s2
        else check (tc_in_heap (tb_cli s2 i))
          (Inr (True, set_cli i (tb_cli s2 i\<lparr>tc_queue := NrsFifo_Enqueue m (tc_queue (tb_cli s2 i))\<rparr>) s2))) = Inr (rc, s3)"
    "s' = s3\<lparr>tb_ptr := (tb_ptr s3)(tm_id m := Some i)\<rparr>"
    using assms(1) by (auto simp: NrsTbf_Enqueue_def bind_res_eq)
  note g = get_client_jobs [OF s(1) assms(2)]
  note v2 = update_rate_view [OF s(2)]
  have j2: "jobs_ok n (tb_ncli s2, th_cli_hash s2, job_of s2)" using g v2 by (simp add: jobs_view_def)
  have "(tm_jobid m, i) \<in> set (th_cli_hash s2)" using g view_fields(2) [OF v2] by simp
  note e = jobs_enq [OF j2 this]
  have "jobs_view s3 = jobs_view s2 \<or> jobs_view s3 = (tb_ncli s2, th_cli_hash s2, (job_of s2)(i := (tc_jobid (tb_cli s2 i), NrsFifo_Enqueue m (tc_queue (tb_cli s2 i)))))"
    using s(3) first_request_view [of mem now i m s2 rc s3] by (auto simp: check_eq view_set split: if_splits)
  then have "tb_jobs (Suc n) s3 \<and> cache_back s2 s3"
  proof
    assume v: "jobs_view s3 = jobs_view s2"
    moreover have "tb_jobs n s2" using g v2 by simp
    ultimately show ?thesis using jobs_later view_back [OF v] by simp
  next
    assume v: "jobs_view s3 = (tb_ncli s2, th_cli_hash s2, (job_of s2)(i := (tc_jobid (tb_cli s2 i), NrsFifo_Enqueue m (tc_queue (tb_cli s2 i)))))"
    then have "cache_back s2 s3" by (simp add: cache_back_def jobs_view_def)
    then show ?thesis using v e by simp
  qed
  moreover have "cache_back s s2" using g view_back [OF v2] cache_back_trans by blast
  moreover have "cache_back s3 s'" "jobs_view s' = jobs_view s3" by (simp_all add: s(4) cache_back_def)
  ultimately show ?thesis using cache_back_trans by (metis (no_types))
qed

lemma purge_hash:
  "tbf_purge hw b lru s = Inr (zs, s') \<Longrightarrow> tb_cli s' = tb_cli s \<and> tb_ncli s' = tb_ncli s
     \<and> th_cli_hash s' = filter (\<lambda>(_, j). j \<notin> set zs) (th_cli_hash s)"
proof (induction lru arbitrary: s zs)
  case Nil
  then show ?case by (auto simp: tbf_purge.simps split: if_splits intro!: filter_True [symmetric])
next
  case (Cons i lru)
  show ?case
  proof (cases "tbf_bucket_count b s > hw")
    case False
    then show ?thesis using Cons.prems by (simp add: tbf_purge.simps)
  next
    case True
    obtain zs' where z: "tbf_purge hw b lru (s\<lparr>th_cli_hash := filter (\<lambda>(_, j). j \<noteq> i) (th_cli_hash s), ntb_lru := (ntb_lru s)(b := lru)\<rparr>) = Inr (zs', s')"
      "zs = i # zs'"
      using Cons.prems True by (subst (asm) tbf_purge.simps) (auto simp: check_eq bind_res_eq)
    have "filter (\<lambda>(_, j). j \<notin> set zs') (filter (\<lambda>(_, j). j \<noteq> i) (th_cli_hash s)) = filter (\<lambda>(_, j). j \<notin> set zs) (th_cli_hash s)"
      unfolding filter_filter z(2) by (rule filter_cong [OF refl]) auto
    then show ?thesis using Cons.IH [OF z(1)] by simp
  qed
qed

lemma cli_put_jobs:
  assumes "nrs_tbf_jobid_cli_put i s = Inr s'" "tb_jobs n s" "n < 2 ^ 64"
  shows "tb_jobs n s' \<and> cache_back s s'"
proof -
  define s1 where "s1 = set_cli i (tb_cli s i\<lparr>tc_ref := tc_ref (tb_cli s i) - 1\<rparr>) s"
  have v1: "jobs_view s1 = jobs_view s" by (simp add: s1_def)
  show ?thesis
  proof (cases "tc_ref (tb_cli s1 i) = 0")
    case False
    then have "s' = s1" using assms(1) unfolding nrs_tbf_jobid_cli_put_def Let_def s1_def [symmetric] by simp
    then show ?thesis using v1 view_back [OF v1] assms(2) by simp
  next
    case True
    obtain b lru hw zs s4 where z: "tbf_purge hw b lru (s1\<lparr>ntb_lru := (ntb_lru s1)(b := lru)\<rparr>) = Inr (zs, s4)"
      "tbf_fini_all zs s4 = Inr s'"
      using assms(1) True unfolding nrs_tbf_jobid_cli_put_def Let_def s1_def [symmetric]
      by (auto simp: check_eq bind_res_eq)
    note p = purge_hash [OF z(1), simplified] and f = fini_all_view [OF z(2)]
    have v4: "jobs_view s4 = (tb_ncli s, filter (\<lambda>(_, j). j \<notin> set zs) (th_cli_hash s), job_of s)"
      using p v1 by (simp add: jobs_view_def)
    have q4: "tc_queue (tb_cli s4 j) = tc_queue (tb_cli s j)" for j using p view_fields(4) [OF v1] by simp
    have "\<forall>j\<in>set zs. Scheduler_Empty (tc_queue (tb_cli s4 j))" using f by blast
    then have e: "\<forall>j\<in>set zs. Scheduler_Empty (snd (job_of s j))" unfolding q4 snd_conv .
    have "jobs_ok n (tb_ncli s, th_cli_hash s, job_of s)" using assms(2) by (simp only: jobs_view_def)
    from jobs_purge [OF this assms(3) e] have "tb_jobs n s4" unfolding v4 .
    moreover have "tb_ncli s' = tb_ncli s" "th_cli_hash s' = filter (\<lambda>(_, j). j \<notin> set zs) (th_cli_hash s)"
      using conjunct1 [OF f] v4 by (simp_all add: jobs_view_def)
    then have "cache_back s s'" by (simp add: cache_back_def)
    ultimately show ?thesis using f by simp
  qed
qed

lemma Dequeue_jobs:
  assumes "NrsTbf_Dequeue now s = Inr (r, s')" "tb_jobs n s"
  shows "tb_jobs n s' \<and> cache_back s s' \<and> (\<forall>i m. r = Some (i, m) \<longrightarrow> (tm_jobid m, i) \<in> set (th_cli_hash s))
    \<and> th_cli_hash s' = th_cli_hash s"
proof (cases "sch_throttling s \<or> cfs_binheap_root (th_binheap s) = None")
  case True
  then have "r = None" "s' = s" using assms(1) by (auto simp: NrsTbf_Dequeue_def split: if_splits)
  then show ?thesis using assms(2) view_back by simp
next
  case False
  then obtain j where j: "cfs_binheap_root (th_binheap s) = Some j" by auto
  define c where "c = tb_cli s j"
  obtain x where x: "tc_rule c = Some x" "tc_nsecs c \<noteq> 0" "tc_check_time c \<le> now"
    using assms(1) False j by (auto simp: NrsTbf_Dequeue_def Let_def check_eq c_def split: if_splits option.splits)
  define s1 where "s1 = set_rule x (tb_rule s x\<lparr>tr_lastActiveTime := now\<rparr>) s"
  have v1: "jobs_view s1 = jobs_view s" by (simp add: s1_def)
  show ?thesis
  proof (cases "tbf_tokens now c > 0")
    case False': False
    then have m: "tbf_ModTimer now (tc_due c) (s1\<lparr>sch_throttling := True, th_deadline := tc_due c\<rparr>) = Inr s'" "r = None"
      using assms(1) False j x
      by (auto simp: NrsTbf_Dequeue_def Let_def check_eq c_def [symmetric] s1_def [symmetric] bind_res_eq)
    have "jobs_view s' = jobs_view s" using ModTimer_view [OF m(1)] v1 by simp
    then show ?thesis using assms(2) view_back m(2) view_fields(2) [of s' s] by simp
  next
    case True
    then obtain m where t: "tbf_take now j x s1 = Inr (m, s')" "r = Some (j, m)"
      using assms(1) False j x
      by (auto simp: NrsTbf_Dequeue_def Let_def check_eq c_def [symmetric] s1_def [symmetric] bind_res_eq)
    have c1: "tb_cli s1 j = c" by (simp add: s1_def c_def)
    obtain q where q: "NrsFifo_Dequeue (tc_queue c) = (Some m, q)"
      using t(1) by (auto simp: tbf_take_def Let_def c1 check_eq bind_res_eq split: prod.splits option.splits)
    define s2 where "s2 = set_cli j (c\<lparr>tc_queue := q, tc_ntoken := tbf_tokens now c - 1, tc_check_time := now,
                        tc_backlog_ckpt := now\<rparr>)
       (set_rule x (tb_rule s1 x\<lparr>tr_nsecsBacklog := now - tc_backlog_ckpt c\<rparr>) s1)"
    have e: "bind_res
               (if Scheduler_Empty q
                then (case cfs_binheap_remove (tbf_cli_compare (tb_cli s2)) j (th_binheap s2) of
                        None \<Rightarrow> Inl Assert_failed
                      | Some h \<Rightarrow> Inr ((set_cli j (tb_cli s2 j\<lparr>tc_in_heap := False\<rparr>) s2)\<lparr>th_binheap := h\<rparr>))
                else tbf_relocate j s2)
               (\<lambda>s3. Inr (m, s3)) = Inr (m, s')"
      using t(1) unfolding tbf_take_def Let_def s2_def c1 q by (simp add: check_eq del: set_simps)
    have "jobs_view s' = jobs_view s2"
      using e by (auto simp: bind_res_eq split: if_splits option.splits dest: relocate_view)
    also have "\<dots> = (tb_ncli s, th_cli_hash s, (job_of s)(j := (tc_jobid c, q)))"
      unfolding s2_def view_set by (simp add: s1_def)
    finally have v: "jobs_view s' = (tb_ncli s, th_cli_hash s, (job_of s)(j := (tc_jobid c, q)))" .
    have o: "jobs_ok n (tb_ncli s, th_cli_hash s, job_of s)" using assms(2) by (simp add: jobs_view_def)
    have d: "NrsFifo_Dequeue (snd (job_of s j)) = (Some m, q)" using q by (simp add: c_def)
    show ?thesis using jobs_deq [OF o d] v t(2) by (simp add: cache_back_def c_def) (simp add: jobs_view_def)
  qed
qed

lemma step_jobs:
  assumes "tbf_step P mem op s = Inr (out, s')" "tb_jobs n s" "Suc n < 2 ^ 64"
  shows "tb_jobs (Suc n) s'" "cache_back s s'" "\<forall>(i, m)\<in>set out. (tm_jobid m, i) \<in> set (th_cli_hash s)"
proof -
  have "tb_jobs (Suc n) s' \<and> cache_back s s' \<and> (\<forall>(i, m)\<in>set out. (tm_jobid m, i) \<in> set (th_cli_hash s))"
  proof (cases op)
    case (Tb_enqueue t m)
    then show ?thesis using assms(1,2) Enqueue_jobs by (fastforce simp: bind_res_eq)
  next
    case (Tb_dequeue t)
    then obtain r where r: "NrsTbf_Dequeue t s = Inr (r, s')" "out = (case r of None \<Rightarrow> [] | Some x \<Rightarrow> [x])"
      using assms(1) by (auto simp: bind_res_eq)
    then show ?thesis using Dequeue_jobs [OF r(1) assms(2)] jobs_later by (auto split: option.splits)
  next
    case (Tb_finish t m)
    then have f: "NrsTbf_Finish m s = Inr s'" "out = []" using assms(1) by (auto simp: bind_res_eq)
    obtain j s1 where s1: "nrs_tbf_jobid_cli_put j s = Inr s1" "s' = s1\<lparr>tb_ptr := (tb_ptr s1)(tm_id m := None)\<rparr>"
      using f(1) by (auto simp: NrsTbf_Finish_def bind_res_eq split: option.splits)
    have "tb_jobs n s1 \<and> cache_back s s1" using cli_put_jobs [OF s1(1) assms(2)] assms(3) by simp
    then show ?thesis using s1(2) f(2) jobs_later by (simp add: cache_back_def)
  next
    case (Tb_timer t)
    then have "out = []" "jobs_view s' = jobs_view s"
      using assms(1) by (auto simp: check_eq NrsTbfTimerCallback_def)
    then show ?thesis using assms(2) jobs_later view_back by simp
  qed
  then show "tb_jobs (Suc n) s'" "cache_back s s'" "\<forall>(i, m)\<in>set out. (tm_jobid m, i) \<in> set (th_cli_hash s)" by blast+
qed

section \<open>Runs\<close>

lemma filter_length_mono: "(\<And>x. x \<in> set xs \<Longrightarrow> P x \<Longrightarrow> Q x) \<Longrightarrow> length (filter P xs) \<le> length (filter Q xs)"
  by (induction xs) (auto intro: le_SucI)

lemma run_jobs:
  "tbf_run P mem ops s = Inr (out, s') \<Longrightarrow> tb_jobs n s \<Longrightarrow> n + length ops < 2 ^ 64 \<Longrightarrow>
    tb_jobs (n + length ops) s' \<and> cache_back s s'"
proof (induction ops arbitrary: s out n)
  case (Cons op ops)
  obtain out1 s1 out2 where r: "tbf_step P mem op s = Inr (out1, s1)" "tbf_run P mem ops s1 = Inr (out2, s')"
    using Cons.prems(1) by (auto simp: bind_res_eq)
  have "Suc n < 2 ^ 64" "Suc n + length ops < 2 ^ 64" using Cons.prems(3) by simp_all
  note st = step_jobs [OF r(1) Cons.prems(2) this(1)] and lim = this(2)
  show ?case using Cons.IH [OF r(2) st(1) lim] cache_back_trans [OF st(2)] by simp
qed (simp add: cache_back_def)

text \<open>While the cache keeps client \<open>i\<close> for a job, every request of the job
  that is served is one of client \<open>i\<close>.\<close>

lemma run_one_client:
  "tbf_run P mem ops s = Inr (out, s') \<Longrightarrow> tb_jobs n s \<Longrightarrow> n + length ops < 2 ^ 64 \<Longrightarrow> i < tb_ncli s \<Longrightarrow>
    (J, i) \<in> set (th_cli_hash s') \<Longrightarrow> (j, m) \<in> set out \<Longrightarrow> tm_jobid m = J \<Longrightarrow> j = i"
proof (induction ops arbitrary: s out n)
  case (Cons op ops)
  obtain out1 s1 out2 where r: "tbf_step P mem op s = Inr (out1, s1)" "tbf_run P mem ops s1 = Inr (out2, s')" "out = out1 @ out2"
    using Cons.prems(1) by (auto simp: bind_res_eq)
  have "Suc n < 2 ^ 64" and lim: "Suc n + length ops < 2 ^ 64" using Cons.prems(3) by simp_all
  note st = step_jobs [OF r(1) Cons.prems(2) this(1)]
  have i1: "i < tb_ncli s1" using st(2) Cons.prems(4) by (simp add: cache_back_def)
  show ?case
  proof (cases "(j, m) \<in> set out1")
    case True
    have "(J, i) \<in> set (th_cli_hash s1)" using run_jobs [OF r(2) st(1) lim] i1 Cons.prems(5) by (fastforce simp: cache_back_def)
    then have "(J, i) \<in> set (th_cli_hash s)" using st(2) Cons.prems(4) by (fastforce simp: cache_back_def)
    moreover have "(J, j) \<in> set (th_cli_hash s)" using st(3) True Cons.prems(7) by auto
    moreover have "distinct (map fst (th_cli_hash s))" using Cons.prems(2) by (simp add: jobs_ok_def jobs_view_def)
    ultimately show ?thesis using eq_key_imp_eq_value by metis
  next
    case False
    then show ?thesis using Cons.IH [OF r(2) st(1) lim i1 Cons.prems(5) _ Cons.prems(7)] Cons.prems(6) r(3) by simp
  qed
qed simp

end
