(* ===== verification/TbfRate.thy ===== *)
theory TbfRate
  imports TbfJobs
begin

text \<open>
  What the token bucket filter of NrsTbf promises about rates: which
  operations leave the bucket of a client alone, and how many requests of a
  client are served in a window of time.
\<close>

section \<open>What an operation leaves of a client's bucket\<close>

definition same_bucket :: "tbf_client \<Rightarrow> tbf_client \<Rightarrow> bool" where
  "same_bucket c c' \<longleftrightarrow> tc_nsecs c' = tc_nsecs c \<and> tc_depth c' = tc_depth c \<and> tc_ntoken c' = tc_ntoken c
     \<and> tc_check_time c' = tc_check_time c \<and> (tc_rule c' = tc_rule c \<or> tc_rule c' = None)"

definition bucket_kept :: "nat \<Rightarrow> nrs_tbf \<Rightarrow> nrs_tbf \<Rightarrow> bool" where
  "bucket_kept i s s' \<longleftrightarrow> tb_ncli s \<le> tb_ncli s' \<and> (\<forall>r. tr_dependency (tb_rule s' r) = tr_dependency (tb_rule s r))
     \<and> same_bucket (tb_cli s i) (tb_cli s' i)"

lemma same_bucket_refl [simp]: "same_bucket c c"
  by (simp add: same_bucket_def)

lemma same_bucket_upd [simp]:
  "same_bucket c (c\<lparr>tc_ref := x\<rparr>)" "same_bucket c (c\<lparr>tc_backlog_ckpt := y\<rparr>)"
  "same_bucket c (c\<lparr>tc_queue := q\<rparr>)" "same_bucket c (c\<lparr>tc_in_heap := b, tc_queue := q\<rparr>)"
  "same_bucket c (c\<lparr>tc_rule := None\<rparr>)"
  by (simp_all add: same_bucket_def)

lemma same_bucket_trans: "same_bucket c c' \<Longrightarrow> same_bucket c' c'' \<Longrightarrow> same_bucket c c''"
  by (auto simp: same_bucket_def)

lemma kept_refl [simp]: "bucket_kept i s s"
  by (simp add: bucket_kept_def)

lemma bucket_kept_trans: "bucket_kept i s s' \<Longrightarrow> bucket_kept i s' s'' \<Longrightarrow> bucket_kept i s s''"
  using same_bucket_trans by (fastforce simp: bucket_kept_def)

lemma kept_cli [intro]:
  "bucket_kept i s s1 \<Longrightarrow> (j = i \<Longrightarrow> same_bucket (tb_cli s1 i) c) \<Longrightarrow> bucket_kept i s (set_cli j c s1)"
  using same_bucket_trans by (fastforce simp: bucket_kept_def set_cli_def)

lemma kept_rule [intro]:
  "bucket_kept i s s1 \<Longrightarrow> tr_dependency x = tr_dependency (tb_rule s1 r) \<Longrightarrow> bucket_kept i s (set_rule r x s1)"
  by (auto simp: bucket_kept_def set_rule_def)

lemma kept_other [simp]:
  "bucket_kept i s (s1\<lparr>th_binheap := h\<rparr>) = bucket_kept i s s1" "bucket_kept i s (s1\<lparr>th_timer := tm\<rparr>) = bucket_kept i s s1"
  "bucket_kept i s (s1\<lparr>th_deadline := d\<rparr>) = bucket_kept i s s1" "bucket_kept i s (s1\<lparr>sch_throttling := b\<rparr>) = bucket_kept i s s1"
  "bucket_kept i s (s1\<lparr>tb_ptr := p\<rparr>) = bucket_kept i s s1" "bucket_kept i s (s1\<lparr>th_cli_hash := ch\<rparr>) = bucket_kept i s s1"
  "bucket_kept i s (s1\<lparr>ntb_lru := l\<rparr>) = bucket_kept i s s1"
  by (simp_all add: bucket_kept_def)

lemma rule_put_kept: "nrs_tbf_rule_put r s1 = Inr s2 \<Longrightarrow> bucket_kept i s s1 \<Longrightarrow> bucket_kept i s s2"
  by (auto simp: nrs_tbf_rule_put_def Let_def check_eq split: if_splits)

lemma cli_rule_put_kept:
  assumes "nrs_tbf_cli_rule_put j s1 = Inr s2" "bucket_kept i s s1"
  shows "bucket_kept i s s2"
proof -
  obtain r s3 where r: "tc_rule (tb_cli s1 j) = Some r"
    "nrs_tbf_rule_put r (set_rule r (tb_rule s1 r\<lparr>tr_cli_list := removeAll j (tr_cli_list (tb_rule s1 r))\<rparr>) s1) = Inr s3"
    "s2 = set_cli j (tb_cli s3 j\<lparr>tc_rule := None\<rparr>) s3"
    using assms(1) by (auto simp: nrs_tbf_cli_rule_put_def check_eq bind_res_eq split: option.splits)
  have "bucket_kept i s s3" using assms(2) by (intro rule_put_kept [OF r(2)] kept_rule) simp_all
  then show ?thesis unfolding r(3) by (intro kept_cli) (auto simp: same_bucket_def)
qed

lemma relocate_kept: "tbf_relocate j s1 = Inr s2 \<Longrightarrow> bucket_kept i s s1 \<Longrightarrow> bucket_kept i s s2"
  by (auto simp: tbf_relocate_def split: option.splits)

lemma cli_fini_kept: "nrs_tbf_cli_fini j s1 = Inr s2 \<Longrightarrow> bucket_kept i s s1 \<Longrightarrow> bucket_kept i s s2"
  by (auto simp: nrs_tbf_cli_fini_def check_eq dest: cli_rule_put_kept)

lemma fini_all_kept: "tbf_fini_all zs s1 = Inr s2 \<Longrightarrow> bucket_kept i s s1 \<Longrightarrow> bucket_kept i s s2"
  by (induction zs arbitrary: s1) (auto simp: bind_res_eq dest: cli_fini_kept)

lemma purge_kept: "tbf_purge hw b lru s1 = Inr (zs, s2) \<Longrightarrow> bucket_kept i s s1 \<Longrightarrow> bucket_kept i s s2"
proof (induction lru arbitrary: s1 zs)
  case Nil
  then show ?case by (simp add: tbf_purge.simps split: if_splits)
next
  case (Cons j lru)
  from Cons.prems(1) show ?case
    by (subst (asm) tbf_purge.simps)
      (use Cons.prems(2) in \<open>auto simp: check_eq bind_res_eq split: if_splits intro: Cons.IH\<close>)
qed

lemma cli_put_kept:
  assumes "nrs_tbf_jobid_cli_put j s1 = Inr s2" "bucket_kept i s s1"
  shows "bucket_kept i s s2"
proof -
  define s3 where "s3 = set_cli j (tb_cli s1 j\<lparr>tc_ref := tc_ref (tb_cli s1 j) - 1\<rparr>) s1"
  have k: "bucket_kept i s s3" unfolding s3_def using assms(2) by (intro kept_cli) (auto simp: same_bucket_def)
  show ?thesis
  proof (cases "tc_ref (tb_cli s3 j) = 0")
    case False
    then show ?thesis
      using assms(1) k unfolding nrs_tbf_jobid_cli_put_def Let_def s3_def [symmetric] by simp
  next
    case True
    obtain b lru hw zs s4 where z: "tbf_purge hw b lru (s3\<lparr>ntb_lru := (ntb_lru s3)(b := lru)\<rparr>) = Inr (zs, s4)"
      "tbf_fini_all zs s4 = Inr s2"
      using assms(1) True unfolding nrs_tbf_jobid_cli_put_def Let_def s3_def [symmetric]
      by (auto simp: check_eq bind_res_eq)
    have "bucket_kept i s s4" using purge_kept [OF z(1)] k by simp
    then show ?thesis using fini_all_kept [OF z(2)] by simp
  qed
qed

lemma reset_value_kept:
  assumes "nrs_tbf_cli_reset_value clk keep j s1 = Inr s2" "bucket_kept i s s1" "j \<noteq> i"
  shows "bucket_kept i s s2"
  using assms by (auto simp: nrs_tbf_cli_reset_value_def Let_def split: option.splits if_splits
      intro: relocate_kept)

lemma rule_match_kept: "nrs_tbf_rule_match c s1 = Inr (r, s2) \<Longrightarrow> bucket_kept i s s1 \<Longrightarrow> bucket_kept i s s2"
  by (auto simp: nrs_tbf_rule_match_def nrs_tbf_rule_get_def split: option.splits)

lemma cli_reset_kept:
  assumes "nrs_tbf_cli_reset clk r j s1 = Inr s2" "bucket_kept i s s1" "j \<noteq> i"
  shows "bucket_kept i s s2"
proof -
  obtain s3 where s3: "bucket_kept i s s3" "nrs_tbf_cli_reset_value clk False j
            (set_rule r (tb_rule s3 r\<lparr>tr_cli_list := tr_cli_list (tb_rule s3 r) @ [j]\<rparr>)
              (set_cli j (tb_cli s3 j\<lparr>tc_rule := Some r\<rparr>) s3)) = Inr s2"
    using assms(1,2) unfolding nrs_tbf_cli_reset_def
    by (auto simp: bind_res_eq check_eq split: option.splits if_splits dest: cli_rule_put_kept)
  show ?thesis
    using s3(1) assms(3) by (intro reset_value_kept [OF s3(2)] kept_rule kept_cli) auto
qed

lemma lookup_kept: "nrs_tbf_jobid_hash_lookup j s1 = (r, s2) \<Longrightarrow> bucket_kept i s s1 \<Longrightarrow> bucket_kept i s s2"
  by (auto simp: nrs_tbf_jobid_hash_lookup_def split: option.splits intro!: kept_cli)

lemma cli_init_kept:
  assumes "nrs_tbf_cli_init clk m s1 = Inr (j, s2)" "bucket_kept i s s1" "i < tb_ncli s"
  shows "bucket_kept i s s2 \<and> j = tb_ncli s1 \<and> j \<noteq> i"
proof -
  have ne: "tb_ncli s1 \<noteq> i" using assms(2,3) by (simp add: bucket_kept_def)
  obtain c r s3 where s3: "nrs_tbf_rule_match c (set_cli (tb_ncli s1) c (s1\<lparr>tb_ncli := tb_ncli s1 + 1\<rparr>)) = Inr (r, s3)"
    "nrs_tbf_cli_reset clk r (tb_ncli s1) s3 = Inr s2" "j = tb_ncli s1"
    using assms(1) by (auto simp: nrs_tbf_cli_init_def Let_def check_eq bind_res_eq)
  have "bucket_kept i s (s1\<lparr>tb_ncli := tb_ncli s1 + 1\<rparr>)" using assms(2) by (simp add: bucket_kept_def)
  then have "bucket_kept i s s3" using ne by (intro rule_match_kept [OF s3(1)] kept_cli) auto
  then show ?thesis using cli_reset_kept [OF s3(2) _ ne] s3(3) ne by simp
qed

lemma get_client_kept:
  assumes "tbf_get_client now m s = Inr (j, s2)" "i < tb_ncli s"
  shows "bucket_kept i s s2"
proof (cases "nrs_tbf_jobid_cli_find m s")
  case (Pair r s1)
  then have k1: "bucket_kept i s s1" by (simp add: nrs_tbf_jobid_cli_find_def lookup_kept)
  show ?thesis
  proof (cases r)
    case (Some j1)
    then show ?thesis using assms(1) Pair k1 by (simp add: tbf_get_client_def)
  next
    case None
    obtain j1 s3 where s3: "nrs_tbf_cli_init now m s1 = Inr (j1, s3)" "(case nrs_tbf_jobid_cli_findadd j1 s3 of
              (tmp, s3) \<Rightarrow>
                if tmp \<noteq> j1
                then bind_res (nrs_tbf_cli_fini j1 (set_cli j1 (tb_cli s3 j1\<lparr>tc_ref := tc_ref (tb_cli s3 j1) - 1\<rparr>) s3))
                       (\<lambda>s4. Inr (tmp, s4))
                else Inr (j1, s3)) = Inr (j, s2)"
      using assms(1) Pair None by (auto simp: tbf_get_client_def bind_res_eq)
    have k3: "bucket_kept i s s3" using cli_init_kept [OF s3(1) k1 assms(2)] by simp
    obtain tmp s4 where f: "nrs_tbf_jobid_cli_findadd j1 s3 = (tmp, s4)" by fastforce
    have k4: "bucket_kept i s s4"
      using f k3 by (auto simp: nrs_tbf_jobid_cli_findadd_def Let_def split: prod.splits option.splits dest: lookup_kept)
    then have "bucket_kept i s (set_cli j1 (tb_cli s4 j1\<lparr>tc_ref := tc_ref (tb_cli s4 j1) - 1\<rparr>) s4)"
      by (intro kept_cli) (auto simp: same_bucket_def)
    then show ?thesis
      using s3(2) f k4 by (auto simp: bind_res_eq split: if_splits dest: cli_fini_kept)
  qed
qed

text \<open>A client whose rule has a fixed rate.\<close>

definition steady :: "nat \<Rightarrow> nrs_tbf \<Rightarrow> bool" where
  "steady i s \<longleftrightarrow> i < tb_ncli s
     \<and> (case tc_rule (tb_cli s i) of None \<Rightarrow> True | Some r \<Rightarrow> \<not> tr_dependency (tb_rule s r))"

lemma steady_kept: "bucket_kept i s s' \<Longrightarrow> steady i s \<Longrightarrow> steady i s'"
  by (auto simp: bucket_kept_def steady_def same_bucket_def split: option.splits)

lemma new_rate_dep: "tbf_new_rate P passed d x = Inr y \<Longrightarrow> tr_dependency y = tr_dependency x"
  by (auto simp: tbf_new_rate_def Let_def check_eq split: if_splits)

lemma update_rate_kept:
  assumes "nrs_tbf_update_rule_rate P now j s1 = Inr s2" "steady i s1"
  shows "bucket_kept i s1 s2"
proof -
  obtain r where r: "tc_rule (tb_cli s1 j) = Some r"
    using assms(1) by (auto simp: nrs_tbf_update_rule_rate_def split: option.splits)
  show ?thesis
  proof (cases "tr_dependency (tb_rule s1 r)")
    case False
    then show ?thesis using assms(1) r by (simp add: nrs_tbf_update_rule_rate_def Let_def)
  next
    case True
    then have ji: "j \<noteq> i" using r assms(2) by (auto simp: steady_def)
    show ?thesis
    proof (cases "now - tr_checkTime (tb_rule s1 r) < tr_nsecs (tb_rule s1 (tr_deprule (tb_rule s1 r)))")
      case True
      then show ?thesis using assms(1) r by (simp add: nrs_tbf_update_rule_rate_def Let_def split: if_splits)
    next
      case False
      obtain r1 where r1: "tbf_new_rate P (now - tr_lastActiveTime (tb_rule s1 (tr_deprule (tb_rule s1 r))))
          (tb_rule s1 (tr_deprule (tb_rule s1 r))) (tb_rule s1 r\<lparr>tr_checkTime := now\<rparr>) = Inr r1"
        and e: "(let rate = min (tr_upper_rate r1) (tr_speedup r1 + tr_lower_rate r1);
                        r2 = r1\<lparr>tr_rpc_rate := rate\<rparr>
                    in if tr_rpc_rate (tb_rule s1 r) \<noteq> rate
                       then if rate = 0 then Inl Div_by_zero
                            else nrs_tbf_cli_reset_value now True j
                                   (set_rule r (r2\<lparr>tr_nsecs := NSEC_PER_SEC div rate\<rparr>) s1)
                       else Inr (set_rule r r2 s1)) = Inr s2"
        using assms(1) r True False by (auto simp: nrs_tbf_update_rule_rate_def Let_def bind_res_eq)
      have d: "tr_dependency r1 = tr_dependency (tb_rule s1 r)" using new_rate_dep [OF r1] by simp
      then show ?thesis
        using e ji by (auto simp: Let_def split: if_splits intro!: kept_rule intro: reset_value_kept)
    qed
  qed
qed

lemma ModTimer_kept: "tbf_ModTimer clk e s1 = Inr s2 \<Longrightarrow> bucket_kept i s s1 \<Longrightarrow> bucket_kept i s s2"
  by (auto simp: tbf_ModTimer_def split: if_splits)

lemma ModTimer_kept2:
  "tbf_ModTimer clk e (s1\<lparr>th_binheap := h, th_deadline := d\<rparr>) = Inr s2 \<Longrightarrow> bucket_kept i s s1 \<Longrightarrow> bucket_kept i s s2"
  by (erule ModTimer_kept) simp

lemma first_request_kept:
  assumes "tbf_first_request mem now j m s1 = Inr (rc, s2)" "bucket_kept i s s1"
  shows "bucket_kept i s s2"
proof -
  define s3 where "s3 = set_cli j (tb_cli s1 j\<lparr>tc_backlog_ckpt := now\<rparr>) s1"
  have k3: "bucket_kept i s s3" unfolding s3_def using assms(2) by (intro kept_cli) (auto simp: same_bucket_def)
  define s4 where "s4 = set_cli j (tb_cli s3 j\<lparr>tc_in_heap := True, tc_queue := NrsFifo_Enqueue m (tc_queue (tb_cli s3 j))\<rparr>) s3"
  have k4: "bucket_kept i s s4" unfolding s4_def using k3 by (intro kept_cli) (auto simp: same_bucket_def)
  show ?thesis
    using assms(1) k3 k4 unfolding tbf_first_request_def Let_def s3_def [symmetric] s4_def [symmetric]
    by (auto simp: check_eq bind_res_eq split: option.splits if_splits dest: ModTimer_kept2)
qed

lemma Enqueue_kept:
  assumes "NrsTbf_Enqueue P mem now m s = Inr (rc, s')" "steady i s"
  shows "bucket_kept i s s'"
proof -
  obtain j s1 s2 s3 where s: "tbf_get_client now m s = Inr (j, s1)" "nrs_tbf_update_rule_rate P now j s1 = Inr s2"
    "(if Scheduler_Empty (tc_queue (tb_cli s2 j)) then tbf_first_request mem now j m s2
        else check (tc_in_heap (tb_cli s2 j))
          (Inr (True, set_cli j (tb_cli s2 j\<lparr>tc_queue := NrsFifo_Enqueue m (tc_queue (tb_cli s2 j))\<rparr>) s2))) = Inr (rc, s3)"
    "s' = s3\<lparr>tb_ptr := (tb_ptr s3)(tm_id m := Some j)\<rparr>"
    using assms(1) by (auto simp: NrsTbf_Enqueue_def bind_res_eq)
  have k1: "bucket_kept i s s1" using get_client_kept [OF s(1)] assms(2) by (simp add: steady_def)
  have "bucket_kept i s1 s2" using update_rate_kept [OF s(2) steady_kept [OF k1 assms(2)]] .
  then have k2: "bucket_kept i s s2" using bucket_kept_trans k1 by blast
  have "bucket_kept i s s3"
    using s(3) k2 first_request_kept [of mem now j m s2 rc s3] by (auto simp: check_eq same_bucket_def split: if_splits intro: kept_cli)
  then show ?thesis by (simp add: s(4))
qed

lemma Finish_kept:
  assumes "NrsTbf_Finish m s = Inr s'"
  shows "bucket_kept i s s'"
proof -
  obtain j s1 where "nrs_tbf_jobid_cli_put j s = Inr s1" "s' = s1\<lparr>tb_ptr := (tb_ptr s1)(tm_id m := None)\<rparr>"
    using assms by (auto simp: NrsTbf_Finish_def bind_res_eq split: option.splits)
  then show ?thesis using cli_put_kept [of j s s1 i s] by simp
qed

section \<open>The rate of a client\<close>

lemma tokens_bound:
  "unat (tbf_tokens now c) \<le> unat (tc_depth c)"
  "tc_check_time c \<le> now \<Longrightarrow>
     unat (tbf_tokens now c) \<le> unat (tc_ntoken c) + (unat now - unat (tc_check_time c)) div unat (tc_nsecs c)"
proof -
  define n where "n = (now - tc_check_time c) div tc_nsecs c + tc_ntoken c"
  have t: "tbf_tokens now c = (if n > tc_depth c then tc_depth c else n)"
    by (simp add: tbf_tokens_def n_def Let_def)
  then have u: "unat (tbf_tokens now c) = min (unat n) (unat (tc_depth c))"
    by (simp add: word_less_nat_alt min_def)
  then show "unat (tbf_tokens now c) \<le> unat (tc_depth c)" by simp
  assume le: "tc_check_time c \<le> now"
  have "unat n \<le> unat ((now - tc_check_time c) div tc_nsecs c) + unat (tc_ntoken c)"
    unfolding n_def unat_word_ariths(1) by (rule mod_less_eq_dividend)
  then show "unat (tbf_tokens now c) \<le> unat (tc_ntoken c) + (unat now - unat (tc_check_time c)) div unat (tc_nsecs c)"
    using le by (simp add: u unat_div unat_sub)
qed

text \<open>A Dequeue either serves client \<open>i\<close> for one of its tokens, or leaves
  its bucket alone.\<close>

lemma Dequeue_bucket:
  assumes "NrsTbf_Dequeue now s = Inr (r, s')" "steady i s"
  obtains "bucket_kept i s s'" "\<And>m. r \<noteq> Some (i, m)"
  | m where "r = Some (i, m)" "tc_check_time (tb_cli s i) \<le> now" "0 < unat (tbf_tokens now (tb_cli s i))"
      "unat (tc_ntoken (tb_cli s' i)) = unat (tbf_tokens now (tb_cli s i)) - 1"
      "tc_check_time (tb_cli s' i) = now" "tc_nsecs (tb_cli s' i) = tc_nsecs (tb_cli s i)"
      "tc_depth (tb_cli s' i) = tc_depth (tb_cli s i)" "steady i s'"
proof (cases "sch_throttling s \<or> cfs_binheap_root (th_binheap s) = None")
  case True
  then have "r = None" "s' = s" using assms(1) by (auto simp: NrsTbf_Dequeue_def split: if_splits)
  then show thesis using that(1) by simp
next
  case False
  then obtain j where j: "cfs_binheap_root (th_binheap s) = Some j" by auto
  define c where "c = tb_cli s j"
  obtain x where x: "tc_rule c = Some x" "tc_nsecs c \<noteq> 0" "tc_check_time c \<le> now"
    using assms(1) False j by (auto simp: NrsTbf_Dequeue_def Let_def check_eq c_def split: if_splits option.splits)
  define s1 where "s1 = set_rule x (tb_rule s x\<lparr>tr_lastActiveTime := now\<rparr>) s"
  have k1: "bucket_kept i s s1" unfolding s1_def by (intro kept_rule) simp_all
  show thesis
  proof (cases "tbf_tokens now c > 0")
    case False': False
    then have m: "tbf_ModTimer now (tc_due c) (s1\<lparr>sch_throttling := True, th_deadline := tc_due c\<rparr>) = Inr s'" "r = None"
      using assms(1) False j x
      by (auto simp: NrsTbf_Dequeue_def Let_def check_eq c_def [symmetric] s1_def [symmetric] bind_res_eq)
    have "bucket_kept i s s'" using k1 by (intro ModTimer_kept [OF m(1)]) simp
    then show thesis using that(1) m(2) by simp
  next
    case True
    then obtain m where t: "tbf_take now j x s1 = Inr (m, s')" "r = Some (j, m)"
      using assms(1) False j x
      by (auto simp: NrsTbf_Dequeue_def Let_def check_eq c_def [symmetric] s1_def [symmetric] bind_res_eq)
    obtain q where q: "NrsFifo_Dequeue (tc_queue c) = (Some m, q)"
      using t(1) by (auto simp: tbf_take_def Let_def s1_def c_def check_eq bind_res_eq split: prod.splits option.splits)
    define s2 where "s2 = set_cli j (c\<lparr>tc_queue := q, tc_ntoken := tbf_tokens now c - 1, tc_check_time := now,
                        tc_backlog_ckpt := now\<rparr>)
       (set_rule x (tb_rule s1 x\<lparr>tr_nsecsBacklog := now - tc_backlog_ckpt c\<rparr>) s1)"
    have e: "bind_res
               (if Scheduler_Empty q
                then (case cfs_binheap_remove (tbf_cli_compare (tb_cli s2)) j (th_binheap s2) of
                        None \<Rightarrow> Inl Assert_failed
                      | Some h \<Rightarrow> Inr ((set_cli j (tb_cli s2 j\<lparr>tc_in_heap := False\<rparr>) s2)\<lparr>th_binheap := h\<rparr>))
                else tbf_relocate j s2)
               (\<lambda>s3. Inr (m, s3)) = Inr (m, s')"
    proof -
      have c1: "tb_cli s1 j = c" by (simp add: s1_def c_def)
      show ?thesis
        using t(1) unfolding tbf_take_def Let_def s2_def c1 q by (simp add: check_eq del: set_simps)
    qed
    have c': "tb_cli s' j = (tb_cli s2 j)\<lparr>tc_in_heap := tc_in_heap (tb_cli s' j)\<rparr>" "tb_rule s' = tb_rule s2"
       "tb_ncli s' = tb_ncli s2" "\<And>y. y \<noteq> j \<Longrightarrow> tb_cli s' y = tb_cli s2 y"
      using e by (auto simp: bind_res_eq tbf_relocate_def split: if_splits option.splits)
    have d: "tr_dependency (tb_rule s' y) = tr_dependency (tb_rule s y)" "tb_ncli s' = tb_ncli s" for y
      using c'(2,3) by (simp_all add: s2_def s1_def)
    show thesis
    proof (cases "j = i")
      case False
      then have "tb_cli s' i = tb_cli s i" using c'(4) by (simp add: s2_def s1_def)
      then have "bucket_kept i s s'" using d by (simp add: bucket_kept_def)
      then show thesis using that(1) t(2) False by simp
    next
      case True': True
      have tk: "unat (tbf_tokens now c - 1) = unat (tbf_tokens now c) - 1"
        using True by (intro unat_minus_one) auto
      have ci: "tb_cli s2 i = c\<lparr>tc_queue := q, tc_ntoken := tbf_tokens now c - 1, tc_check_time := now,
                        tc_backlog_ckpt := now\<rparr>" using True' by (simp add: s2_def)
      obtain b where b: "tb_cli s' i = (tb_cli s2 i)\<lparr>tc_in_heap := b\<rparr>"
        using c'(1) unfolding True' by blast
      have "tc_rule (tb_cli s' i) = tc_rule c" "tc_nsecs (tb_cli s' i) = tc_nsecs c"
          "tc_depth (tb_cli s' i) = tc_depth c" "tc_check_time (tb_cli s' i) = now"
          "tc_ntoken (tb_cli s' i) = tbf_tokens now c - 1"
        by (simp_all add: b ci)
      note f = this
      have "steady i s'"
        using assms(2) d f(1) True' by (auto simp: steady_def c_def split: option.splits)
      then show thesis
        using that(2) [of m] t(2) True True' x(3) tk f c_def
        by (simp add: word_greater_zero_iff unat_gt_0)
    qed
  qed
qed

lemma tbf_step_bucket:
  assumes "tbf_step P mem op s = Inr (out, s')" "steady i s"
  obtains "bucket_kept i s s'" "filter (\<lambda>(j, _). j = i) out = []"
  | t m where "op = Tb_dequeue t" "out = [(i, m)]" "tc_check_time (tb_cli s i) \<le> t"
      "0 < unat (tbf_tokens t (tb_cli s i))"
      "unat (tc_ntoken (tb_cli s' i)) = unat (tbf_tokens t (tb_cli s i)) - 1"
      "tc_check_time (tb_cli s' i) = t" "tc_nsecs (tb_cli s' i) = tc_nsecs (tb_cli s i)"
      "tc_depth (tb_cli s' i) = tc_depth (tb_cli s i)" "steady i s'"
proof (cases op)
  case (Tb_enqueue t m)
  then show thesis using assms Enqueue_kept that(1) by (auto simp: bind_res_eq)
next
  case (Tb_dequeue t)
  then obtain r where r: "NrsTbf_Dequeue t s = Inr (r, s')" "out = (case r of None \<Rightarrow> [] | Some x \<Rightarrow> [x])"
    using assms(1) by (auto simp: bind_res_eq)
  show thesis
    using Dequeue_bucket [OF r(1) assms(2)]
  proof cases
    case 1
    then have "filter (\<lambda>(j, _). j = i) out = []" using r(2) by (auto split: option.splits)
    then show thesis using that(1) 1 by simp
  next
    case (2 m)
    then show thesis using that(2) [OF Tb_dequeue, of m] r(2) by simp
  qed
next
  case (Tb_finish t m)
  then show thesis using assms Finish_kept that(1) by (auto simp: bind_res_eq)
next
  case (Tb_timer t)
  then show thesis using assms that(1) by (auto simp: check_eq NrsTbfTimerCallback_def)
qed

abbreviation served_to :: "nat \<Rightarrow> (nat \<times> tmsg) list \<Rightarrow> nat" where
  "served_to i out \<equiv> length (filter (\<lambda>(j, _). j = i) out)"

lemma served_from_tokens:
  assumes "tbf_run P mem ops s = Inr (out, s')" "steady i s" "list_all (\<lambda>op. tb_time op \<le> t1) ops"
    "tc_check_time (tb_cli s i) \<le> t1"
  shows "served_to i out \<le> unat (tc_ntoken (tb_cli s i))
    + (unat t1 - unat (tc_check_time (tb_cli s i))) div unat (tc_nsecs (tb_cli s i))"
  using assms
proof (induction ops arbitrary: s out)
  case (Cons op ops)
  obtain out1 s1 out2 where r: "tbf_step P mem op s = Inr (out1, s1)" "tbf_run P mem ops s1 = Inr (out2, s')"
    "out = out1 @ out2"
    using Cons.prems(1) by (auto simp: bind_res_eq)
  show ?case
    using tbf_step_bucket [OF r(1) Cons.prems(2)]
  proof cases
    case 1
    note IH = Cons.IH [OF r(2) steady_kept [OF 1(1) Cons.prems(2)]]
    have "tc_ntoken (tb_cli s1 i) = tc_ntoken (tb_cli s i)" "tc_check_time (tb_cli s1 i) = tc_check_time (tb_cli s i)"
      "tc_nsecs (tb_cli s1 i) = tc_nsecs (tb_cli s i)"
      using 1(1) by (simp_all add: bucket_kept_def same_bucket_def)
    then show ?thesis using IH Cons.prems(3,4) 1(2) r(3) by simp
  next
    case (2 t m)
    have le: "t \<le> t1" using Cons.prems(3) 2(1) by simp
    have IH: "served_to i out2 \<le> unat (tc_ntoken (tb_cli s1 i)) + (unat t1 - unat t) div unat (tc_nsecs (tb_cli s i))"
      using Cons.IH [OF r(2) 2(9)] Cons.prems(3) le 2(6,7) by simp
    have "unat (tc_check_time (tb_cli s i)) \<le> unat t" "unat t \<le> unat t1"
      using 2(3) le by (simp_all add: word_le_nat_alt)
    then have "(unat t - unat (tc_check_time (tb_cli s i))) div unat (tc_nsecs (tb_cli s i))
        + (unat t1 - unat t) div unat (tc_nsecs (tb_cli s i))
        \<le> (unat t1 - unat (tc_check_time (tb_cli s i))) div unat (tc_nsecs (tb_cli s i))"
      using div_add1_eq [of "unat t - unat (tc_check_time (tb_cli s i))" "unat t1 - unat t"
          "unat (tc_nsecs (tb_cli s i))"] by simp
    then show ?thesis
      using IH 2(2,4,5) tokens_bound(2) [OF 2(3)] r(3) by simp
  qed
qed simp

lemma served_in_window:
  assumes "tbf_run P mem ops s = Inr (out, s')" "steady i s"
    "list_all (\<lambda>op. t0 \<le> tb_time op \<and> tb_time op \<le> t1) ops"
  shows "served_to i out \<le> unat (tc_depth (tb_cli s i)) + (unat t1 - unat t0) div unat (tc_nsecs (tb_cli s i))"
  using assms
proof (induction ops arbitrary: s out)
  case (Cons op ops)
  obtain out1 s1 out2 where r: "tbf_step P mem op s = Inr (out1, s1)" "tbf_run P mem ops s1 = Inr (out2, s')"
    "out = out1 @ out2"
    using Cons.prems(1) by (auto simp: bind_res_eq)
  show ?case
    using tbf_step_bucket [OF r(1) Cons.prems(2)]
  proof cases
    case 1
    note IH = Cons.IH [OF r(2) steady_kept [OF 1(1) Cons.prems(2)]]
    have "tc_depth (tb_cli s1 i) = tc_depth (tb_cli s i)" "tc_nsecs (tb_cli s1 i) = tc_nsecs (tb_cli s i)"
      using 1(1) by (simp_all add: bucket_kept_def same_bucket_def)
    then show ?thesis using IH Cons.prems(3) 1(2) r(3) by simp
  next
    case (2 t m)
    have le: "t0 \<le> t" "t \<le> t1" using Cons.prems(3) 2(1) by simp_all
    have "list_all (\<lambda>op. tb_time op \<le> t1) ops" using Cons.prems(3) by (auto simp: list_all_iff)
    then have "served_to i out2 \<le> unat (tc_ntoken (tb_cli s1 i)) + (unat t1 - unat t) div unat (tc_nsecs (tb_cli s i))"
      using served_from_tokens [OF r(2) 2(9)] le 2(6,7) by simp
    moreover have "(unat t1 - unat t) div unat (tc_nsecs (tb_cli s i)) \<le> (unat t1 - unat t0) div unat (tc_nsecs (tb_cli s i))"
      using le by (intro div_le_mono diff_le_mono2) (simp add: word_le_nat_alt)
    ultimately show ?thesis
      using 2(2,4,5) tokens_bound(1) [of t "tb_cli s i"] r(3) by simp
  qed
qed simp

section \<open>Property\<close>

text \<open>C4 The rate limit, over any run of calls within the time from \<open>t0\<close> to
  \<open>t1\<close>, enqueues, dequeues, finishes and timer callbacks in any order, in any
  state that the scheduler comes to.  A client (the entry of the client
  cache, with the bucket) whose rule does not depend on another is served at most
  its bucket of tokens and one request per tr_nsecs that pass.  The bound
  holds for a job \<open>J\<close> when the cache still has this client for it at the end:
  no request of the job is then served for another client.  A job whose client
  the cache has purged in between starts again with a full bucket, so for it the bound
  holds only per client.\<close>
theorem tbf_rate_limit:
  assumes "nrs_tbf_start P num = Inr s0" "tbf_run P mem0 before s0 = Inr (out0, s)"
    "tbf_run P mem ops s = Inr (served, s')" "length before + length ops < 2 ^ 64"
    "i < tb_ncli s" "tc_rule (tb_cli s i) = Some r" "\<not> tr_dependency (tb_rule s r)"
    "list_all (\<lambda>op. t0 \<le> tb_time op \<and> tb_time op \<le> t1) ops"
  shows "length (filter (\<lambda>(j, m). j = i) served)
      \<le> unat (tc_depth (tb_cli s i)) + (unat t1 - unat t0) div unat (tc_nsecs (tb_cli s i))
    \<and> ((J, i) \<in> set (th_cli_hash s') \<longrightarrow> length (filter (\<lambda>(j, m). tm_jobid m = J) served)
      \<le> unat (tc_depth (tb_cli s i)) + (unat t1 - unat t0) div unat (tc_nsecs (tb_cli s i)))"
proof -
  have w: "served_to i served \<le> unat (tc_depth (tb_cli s i)) + (unat t1 - unat t0) div unat (tc_nsecs (tb_cli s i))"
    using served_in_window [OF assms(3) _ assms(8), of i] assms(5-7) by (simp add: steady_def)
  have "tb_jobs (length before) s" using run_jobs [OF assms(2) start_jobs [OF assms(1)]] assms(4) by simp
  note one = run_one_client [OF assms(3) this assms(4,5)]
  have le: "length (filter (\<lambda>(j, m). tm_jobid m = J) served) \<le> served_to i served" if "(J, i) \<in> set (th_cli_hash s')"
    using one [OF that] by (intro filter_length_mono) auto
  show ?thesis by (intro conjI impI w) (rule order_trans [OF le w])
qed

lemma tbf_wit_serves:
  "\<exists>m s'. tbf_run tbf_wit_params (\<lambda>_. True) [Tb_dequeue 10] tbf_wit_s = Inr ([(0, m)], s')"
proof -
  have c: "tb_config tbf_wit_start"
    using start_config [OF tbf_wit_started] by (simp add: tbf_sane_def tbf_wit_params_def)
  have "list_all (\<lambda>op. tb_time op \<le> 10) tbf_wit_ops" by (simp add: tbf_wit_ops_def)
  moreover have "tb_inv 0 tbf_wit_start" using c by (simp add: tb_config_def)
  ultimately have i: "tb_inv 10 tbf_wit_s" "tb_ptr_ok tbf_wit_s"
    using run_inv [OF tbf_wit_run(1) _ config_ptr [OF c] tbf_wit_calls] by simp_all
  obtain j where j: "cfs_binheap_root (th_binheap tbf_wit_s) = Some j" "j \<in># cbh_bag (th_binheap tbf_wit_s)"
    using waiting_root [OF i(1) tbf_wit_run(3)] .
  have "j = 0"
    using tb_invD(2,3) [OF i(1), of j] j(2) tbf_wit_run(4) by (auto simp: tb_cli_ok_def)
  moreover have "tbf_tokens 10 (tb_cli tbf_wit_s j) \<noteq> 0"
    using tbf_tokens_0(1) [OF Dequeue_root(1) [OF i tbf_wit_run(2) j]] tbf_wit_run(5) calculation by simp
  ultimately show ?thesis
    using Dequeue_root(2) [OF i tbf_wit_run(2) j] by auto
qed

lemma tbf_wit_job:
  assumes "tbf_run tbf_wit_params (\<lambda>_. True) [Tb_dequeue 10] tbf_wit_s = Inr ([(0, m)], s')"
  shows "tm_jobid m = ''J''" "(''J'', 0) \<in> set (th_cli_hash s')"
proof -
  have "case tbf_run tbf_wit_params (\<lambda>_. True) tbf_wit_ops tbf_wit_start of Inl _ \<Rightarrow> False | Inr (out, s) \<Rightarrow> th_cli_hash s = [(''J'', 0)]"
    by code_simp
  then have h: "th_cli_hash tbf_wit_s = [(''J'', 0)]" using tbf_wit_run(1) by simp
  have "tb_jobs 1 tbf_wit_s" using run_jobs [OF tbf_wit_run(1) start_jobs [OF tbf_wit_started]] by (simp add: tbf_wit_ops_def)
  moreover obtain r where "NrsTbf_Dequeue 10 tbf_wit_s = Inr (r, s')" "r = Some (0, m)"
    using assms by (auto simp: bind_res_eq split: option.splits)
  ultimately have "(tm_jobid m, 0) \<in> set (th_cli_hash tbf_wit_s) \<and> th_cli_hash s' = th_cli_hash tbf_wit_s" using Dequeue_jobs by blast
  then show "tm_jobid m = ''J''" "(''J'', 0) \<in> set (th_cli_hash s')" using h by simp_all
qed

lemma tbf_rate_limit_witness:
  "\<exists>m s'. tbf_run tbf_wit_params (\<lambda>_. True) [Tb_dequeue 10] tbf_wit_s = Inr ([(0, m)], s')
     \<and> tm_jobid m = ''J'' \<and> (''J'', 0) \<in> set (th_cli_hash s') \<and> length (filter (\<lambda>(j, m). tm_jobid m = ''J'') [(0, m)]) \<le> unat (tc_depth (tb_cli tbf_wit_s 0)) + (unat (10 :: u64) - unat (10 :: u64)) div unat (tc_nsecs (tb_cli tbf_wit_s 0))"
proof -
  obtain m s' where r: "tbf_run tbf_wit_params (\<lambda>_. True) [Tb_dequeue 10] tbf_wit_s = Inr ([(0, m)], s')"
    using tbf_wit_serves by blast
  have j: "tm_jobid m = ''J''" "(''J'', 0) \<in> set (th_cli_hash s')" using tbf_wit_job [OF r] by blast+
  have "list_all (\<lambda>op. 10 \<le> tb_time op \<and> tb_time op \<le> 10) [Tb_dequeue 10]" by simp
  then show ?thesis
    using tbf_rate_limit [OF tbf_wit_started tbf_wit_run(1) r _ _ tbf_wit_run(6,7), of 10 10 "''J''"] tbf_wit_run(4) r j
    by (auto simp: tbf_wit_ops_def)
qed

end
