(* ===== verification/Pool.thy ===== *)
theory Pool
  imports NrsFifo
begin

text \<open>
  The thread pools of src/lustre/processor.h and processor.cpp: the clients
  and the servers run their requests on the threads of a pool, which takes
  them from a request scheduler.  The scheduler is seen through its virtual
  methods (record \<open>nrs_ops\<close>) and its contract (locale \<open>pool_nrs\<close>); the events
  of the pool are a new task, the manager thread, the end of a task and the
  end of a throttling.  When the manager thread runs is the event loop's
  matter (EventLoop): here it is armed or not.
\<close>

section \<open>The scheduler of a pool\<close>

text \<open>Enqueue returns a non-zero value when it fails; \<open>nrs_Resume\<close> is what a
  scheduler does when its throttling ends.\<close>

record ('q, 'm) nrs_ops =
  nrs_Enqueue :: "'m \<Rightarrow> 'q \<Rightarrow> int \<times> 'q"
  nrs_Dequeue :: "'q \<Rightarrow> 'm option \<times> 'q"
  nrs_Finish :: "'m \<Rightarrow> 'q \<Rightarrow> 'q"
  nrs_Throttling :: "'q \<Rightarrow> bool"
  nrs_Resume :: "'q \<Rightarrow> 'q"

section \<open>State\<close>

datatype pool_state = Pool_Start | Pool_Idle | Pool_Run | Pool_FullLoad | Pool_Last

text \<open>\<open>po_idleQ\<close> are the idle threads, the one to be taken first; \<open>po_busy\<close> the
  threads at work with their message (tld->m); \<open>po_run\<close> says whether the event
  of the manager thread is armed; \<open>po_ext\<close> is the state of a derived class.\<close>

record ('q, 'm, 'z) pool =
  po_nrs :: 'q
  po_idleQ :: "nat list"
  po_idle :: int
  po_num :: int
  po_rnum :: int
  po_counter :: int
  po_state :: pool_state
  po_run :: bool
  po_busy :: "(nat \<times> 'm) list"
  po_ext :: 'z

datatype pool_fault = Assertion | Client_assertion | Enqueue_failed | Not_armed | Not_busy

type_synonym 'a pool_res = "pool_fault + 'a"

definition Processor_new :: "'q \<Rightarrow> 'z \<Rightarrow> ('q, 'm, 'z) pool" where
  "Processor_new q z = \<lparr>po_nrs = q, po_idleQ = [], po_idle = 0, po_num = 0, po_rnum = 0, po_counter = 0,
     po_state = Pool_Start, po_run = False, po_busy = [], po_ext = z\<rparr>"

section \<open>Operations\<close>

definition NextIdleThreadFromPool :: "('q, 'm, 'z) pool \<Rightarrow> nat option \<times> ('q, 'm, 'z) pool" where
  "NextIdleThreadFromPool p =
     (case po_idleQ p of
        [] \<Rightarrow> (None, p)
      | t # ts \<Rightarrow>
          let p1 = p\<lparr>po_idleQ := ts, po_idle := po_idle p - 1\<rparr> in
          (Some t, if po_idle p1 = 0 then p1\<lparr>po_state := Pool_FullLoad\<rparr> else p1))"

definition pool_Signal :: "('q, 'm, 'z) pool \<Rightarrow> ('q, 'm, 'z) pool pool_res" where
  "pool_Signal p = (if po_run p then Inl Assertion else Inr (p\<lparr>po_run := True\<rparr>))"

definition pool_Wakeup :: "('q, 'm, 'z) pool \<Rightarrow> ('q, 'm, 'z) pool pool_res" where
  "pool_Wakeup p =
     (if po_state p = Pool_Idle
      then if \<not> po_idle p > 0 then Inl Assertion
           else (case pool_Signal p of Inl e \<Rightarrow> Inl e | Inr p1 \<Rightarrow> Inr (p1\<lparr>po_state := Pool_Run\<rparr>))
      else Inr p)"

definition Processor_AddNewTask :: "('q, 'm) nrs_ops \<Rightarrow> 'm \<Rightarrow> ('q, 'm, 'z) pool \<Rightarrow> ('q, 'm, 'z) pool pool_res" where
  "Processor_AddNewTask ops m p =
     (case nrs_Enqueue ops m (po_nrs p) of (rc, q) \<Rightarrow>
        if rc \<noteq> 0 then Inl Enqueue_failed
        else let p1 = p\<lparr>po_nrs := q\<rparr> in
          if po_state p1 = Pool_Start \<or> po_state p1 = Pool_Idle then pool_Wakeup p1 else Inr p1)"

definition Processor_TaskCompletion :: "('q, 'm) nrs_ops \<Rightarrow> nat \<Rightarrow> ('q, 'm, 'z) pool \<Rightarrow> ('q, 'm, 'z) pool pool_res" where
  "Processor_TaskCompletion ops t p =
     (case map_of (po_busy p) t of
        None \<Rightarrow> Inl Not_busy
      | Some m \<Rightarrow>
          let p1 = p\<lparr>po_nrs := nrs_Finish ops m (po_nrs p), po_busy := filter (\<lambda>(x, _). x \<noteq> t) (po_busy p)\<rparr>;
              p2 = (if po_idle p1 + 1 > po_num p1 then p1
                    else p1\<lparr>po_idleQ := po_idleQ p1 @ [t], po_idle := po_idle p1 + 1\<rparr>)
          in if po_idle p2 > 0 \<and> po_state p2 = Pool_FullLoad
             then (case pool_Signal p2 of Inl e \<Rightarrow> Inl e | Inr p3 \<Rightarrow> Inr (p3\<lparr>po_state := Pool_Run\<rparr>))
             else Inr p2)"

text \<open>\<open>hook\<close> is what RunOneTask of a derived class does before the thread runs;
  the handler of the request runs on, and ends in TaskCompletion.\<close>

function PoolStateMachine :: "('q, 'm) nrs_ops \<Rightarrow> ('m \<Rightarrow> 'z \<Rightarrow> 'z pool_res) \<Rightarrow> ('q, 'm, 'z) pool \<Rightarrow> ('q, 'm, 'z) pool pool_res" where
  "PoolStateMachine ops hook p =
     (case po_state p of
        Pool_Run \<Rightarrow>
          if nrs_Throttling ops (po_nrs p) then Inr (p\<lparr>po_state := Pool_Idle\<rparr>)
          else (case nrs_Dequeue ops (po_nrs p) of
            (None, q) \<Rightarrow> Inr (p\<lparr>po_nrs := q, po_state := Pool_Idle\<rparr>)
          | (Some m, q) \<Rightarrow>
              (case NextIdleThreadFromPool (p\<lparr>po_nrs := q\<rparr>) of
                 (None, _) \<Rightarrow> Inl Assertion
               | (Some t, p1) \<Rightarrow>
                   (case hook m (po_ext p1) of
                      Inl e \<Rightarrow> Inl e
                    | Inr z \<Rightarrow> PoolStateMachine ops hook (p1\<lparr>po_busy := po_busy p1 @ [(t, m)], po_ext := z\<rparr>))))
      | Pool_Start \<Rightarrow> Inr (p\<lparr>po_state := Pool_Idle\<rparr>)
      | _ \<Rightarrow> Inr p)"
  by pat_completeness auto
termination
  by (relation "measure (\<lambda>(ops, hook, p). length (po_idleQ p))")
    (auto simp: NextIdleThreadFromPool_def Let_def split: list.splits if_splits)

declare PoolStateMachine.simps [simp del]

text \<open>The event of the manager thread: the event loop has taken it out of its
  queue.\<close>

definition ThreadPoolManger :: "('q, 'm) nrs_ops \<Rightarrow> ('m \<Rightarrow> 'z \<Rightarrow> 'z pool_res) \<Rightarrow> ('q, 'm, 'z) pool \<Rightarrow> ('q, 'm, 'z) pool pool_res" where
  "ThreadPoolManger ops hook p =
     (if \<not> po_run p then Inl Not_armed else PoolStateMachine ops hook (p\<lparr>po_run := False\<rparr>))"

definition Processor_Attach :: "int \<Rightarrow> ('q, 'm, 'z) pool \<Rightarrow> ('q, 'm, 'z) pool" where
  "Processor_Attach threads p = p\<lparr>po_rnum := threads, po_num := threads, po_counter := threads\<rparr>"

definition InitThreadPool :: "('q, 'm, 'z) pool \<Rightarrow> ('q, 'm, 'z) pool pool_res" where
  "InitThreadPool p =
     (if \<not> po_num p > 0 then Inl Assertion
      else Inr (p\<lparr>po_idleQ := po_idleQ p @ [0..<nat (po_num p)], po_idle := po_num p\<rparr>))"

definition Processor_Start :: "('q, 'm, 'z) pool \<Rightarrow> ('q, 'm, 'z) pool pool_res" where
  "Processor_Start p =
     (case InitThreadPool p of
        Inl e \<Rightarrow> Inl e
      | Inr p1 \<Rightarrow> if po_run p1 then Inl Assertion else Inr (p1\<lparr>po_run := True\<rparr>))"

function shrink_pool :: "int \<Rightarrow> ('q, 'm, 'z) pool \<Rightarrow> ('q, 'm, 'z) pool" where
  "shrink_pool c p =
     (if po_rnum p > c
      then (case NextIdleThreadFromPool p of
              (None, _) \<Rightarrow> p
            | (Some t, p1) \<Rightarrow> shrink_pool c (p1\<lparr>po_rnum := po_rnum p1 - 1\<rparr>))
      else p)"
  by pat_completeness auto
termination
  by (relation "measure (\<lambda>(c, p). length (po_idleQ p))")
    (auto simp: NextIdleThreadFromPool_def Let_def split: list.splits if_splits)

function grow_pool :: "int \<Rightarrow> ('q, 'm, 'z) pool \<Rightarrow> ('q, 'm, 'z) pool" where
  "grow_pool c p =
     (if po_rnum p < c
      then grow_pool c (p\<lparr>po_idleQ := po_idleQ p @ [nat (po_counter p)], po_counter := po_counter p + 1,
                          po_rnum := po_rnum p + 1, po_idle := po_idle p + 1\<rparr>)
      else p)"
  by pat_completeness auto
termination by (relation "measure (\<lambda>(c, p). nat (c - po_rnum p))") auto

declare shrink_pool.simps [simp del] grow_pool.simps [simp del]

definition AdjustThreadPool :: "int \<Rightarrow> bool \<Rightarrow> ('q, 'm, 'z) pool \<Rightarrow> ('q, 'm, 'z) pool pool_res" where
  "AdjustThreadPool c chk p =
     (if po_num p = c then Inr p
      else let p1 = p\<lparr>po_num := c\<rparr> in
        if po_rnum p1 > c
        then let p2 = shrink_pool c p1 in
             if \<not> po_idle p2 \<ge> 0 then Inl Assertion
             else Inr (if po_idle p2 = 0 then p2\<lparr>po_state := Pool_FullLoad\<rparr> else p2)
        else let p2 = grow_pool c p1 in
             if po_state p2 = Pool_FullLoad \<and> po_idle p2 > 0 \<and> chk
             then (case pool_Signal p2 of Inl e \<Rightarrow> Inl e | Inr p3 \<Rightarrow> Inr (p3\<lparr>po_state := Pool_Run\<rparr>))
             else Inr p2)"

text \<open>The end of a throttling: the timer callback of the scheduler wakes the
  pool.\<close>

definition pool_Resume :: "('q, 'm) nrs_ops \<Rightarrow> ('q, 'm, 'z) pool \<Rightarrow> ('q, 'm, 'z) pool pool_res" where
  "pool_Resume ops p = pool_Wakeup (p\<lparr>po_nrs := nrs_Resume ops (po_nrs p)\<rparr>)"

section \<open>Runs\<close>

datatype 'm pool_ev = Pe_task 'm | Pe_manager | Pe_done nat | Pe_resume

text \<open>One event; the messages completed by it are listed.\<close>

fun pool_step :: "('q, 'm) nrs_ops \<Rightarrow> 'm pool_ev \<Rightarrow> ('q, 'm, unit) pool \<Rightarrow> ('m list \<times> ('q, 'm, unit) pool) pool_res" where
  "pool_step ops (Pe_task m) p = (case Processor_AddNewTask ops m p of Inl e \<Rightarrow> Inl e | Inr p' \<Rightarrow> Inr ([], p'))"
| "pool_step ops Pe_manager p =
     (case ThreadPoolManger ops (\<lambda>_. Inr) p of Inl e \<Rightarrow> Inl e | Inr p' \<Rightarrow> Inr ([], p'))"
| "pool_step ops (Pe_done t) p =
     (case Processor_TaskCompletion ops t p of
        Inl e \<Rightarrow> Inl e
      | Inr p' \<Rightarrow> Inr ((case map_of (po_busy p) t of None \<Rightarrow> [] | Some m \<Rightarrow> [m]), p'))"
| "pool_step ops Pe_resume p = (case pool_Resume ops p of Inl e \<Rightarrow> Inl e | Inr p' \<Rightarrow> Inr ([], p'))"

fun pool_steps :: "('q, 'm) nrs_ops \<Rightarrow> 'm pool_ev list \<Rightarrow> ('q, 'm, unit) pool \<Rightarrow> ('m list \<times> ('q, 'm, unit) pool) pool_res" where
  "pool_steps ops [] p = Inr ([], p)"
| "pool_steps ops (e # es) p =
     (case pool_step ops e p of
        Inl x \<Rightarrow> Inl x
      | Inr (o1, p1) \<Rightarrow> (case pool_steps ops es p1 of Inl x \<Rightarrow> Inl x | Inr (o2, p2) \<Rightarrow> Inr (o1 @ o2, p2)))"

fun pool_tasks :: "'m pool_ev list \<Rightarrow> 'm list" where
  "pool_tasks [] = []"
| "pool_tasks (Pe_task m # es) = m # pool_tasks es"
| "pool_tasks (_ # es) = pool_tasks es"

text \<open>The events that can happen: the manager thread runs when it is armed, a
  task ends on a thread that is at work.\<close>

fun pool_possible :: "'m pool_ev \<Rightarrow> ('q, 'm, 'z) pool \<Rightarrow> bool" where
  "pool_possible Pe_manager p \<longleftrightarrow> po_run p"
| "pool_possible (Pe_done t) p \<longleftrightarrow> t \<in> set (map fst (po_busy p))"
| "pool_possible _ p \<longleftrightarrow> True"

fun pool_trace :: "('q, 'm) nrs_ops \<Rightarrow> 'm pool_ev list \<Rightarrow> ('q, 'm, unit) pool \<Rightarrow> bool" where
  "pool_trace ops [] p \<longleftrightarrow> True"
| "pool_trace ops (e # es) p \<longleftrightarrow> pool_possible e p
     \<and> (case pool_step ops e p of Inl x \<Rightarrow> True | Inr (out, p') \<Rightarrow> pool_trace ops es p')"

text \<open>The pool as Attach and Start leave it.\<close>

definition pool_started :: "'q \<Rightarrow> nat \<Rightarrow> ('q, 'm, unit) pool pool_res" where
  "pool_started q n = Processor_Start (Processor_Attach (int n) (Processor_new q ()))"

section \<open>The contract of the scheduler\<close>

lemma multi_chain:
  fixes a :: "'a multiset"
  assumes "a + b = c + d" "c + e = f + g"
  shows "a + (b + e) = f + (d + g)"
proof -
  have "a + (b + e) = (c + e) + d" using assms(1) by (metis add.assoc add.commute)
  then show ?thesis using assms(2) by (metis add.assoc add.commute)
qed

lemma img_fst: "(a, b) \<in> S \<Longrightarrow> a \<in> fst ` S"
  by force

text \<open>A dequeue that finds nothing has nothing, or starts a throttling.\<close>

locale pool_nrs =
  fixes inv :: "'q \<Rightarrow> bool"
    and bag :: "'q \<Rightarrow> 'm multiset"
    and fits :: "'m \<Rightarrow> 'q \<Rightarrow> bool"
    and ops :: "('q, 'm) nrs_ops"
  assumes enq_law: "inv q \<Longrightarrow> fits m q \<Longrightarrow> \<exists>q'. nrs_Enqueue ops m q = (0, q') \<and> inv q' \<and> bag q' = add_mset m (bag q)"
    and deq_law: "inv q \<Longrightarrow> \<not> nrs_Throttling ops q \<Longrightarrow>
      (\<exists>m q'. nrs_Dequeue ops q = (Some m, q') \<and> inv q' \<and> bag q = add_mset m (bag q'))
      \<or> (\<exists>q'. nrs_Dequeue ops q = (None, q') \<and> inv q' \<and> bag q' = bag q \<and> (bag q = {#} \<or> nrs_Throttling ops q'))"
    and fin_law: "inv q \<Longrightarrow> inv (nrs_Finish ops m q) \<and> bag (nrs_Finish ops m q) = bag q
      \<and> nrs_Throttling ops (nrs_Finish ops m q) = nrs_Throttling ops q"
    and resume_law: "inv q \<Longrightarrow> inv (nrs_Resume ops q) \<and> bag (nrs_Resume ops q) = bag q"
begin

text \<open>The threads are idle or busy, and the manager thread is armed exactly
  in the state Run; \<open>quiet\<close> says that an idle pool has nothing to do.\<close>

definition threads_ok :: "('q, 'm, 'z) pool \<Rightarrow> bool" where
  "threads_ok p \<longleftrightarrow> po_idle p = int (length (po_idleQ p)) \<and> distinct (po_idleQ p @ map fst (po_busy p))
     \<and> po_num p = int (length (po_idleQ p) + length (po_busy p)) \<and> inv (po_nrs p)
     \<and> (po_state p = Pool_FullLoad \<longleftrightarrow> po_idleQ p = [])"

definition pool_ok :: "('q, 'm, 'z) pool \<Rightarrow> bool" where
  "pool_ok p \<longleftrightarrow> threads_ok p \<and> po_state p \<in> {Pool_Idle, Pool_Run, Pool_FullLoad} \<and> po_num p > 0
     \<and> (po_run p \<longleftrightarrow> po_state p = Pool_Run)
     \<and> (po_state p = Pool_Idle \<longrightarrow> bag (po_nrs p) = {#} \<or> nrs_Throttling ops (po_nrs p))"

abbreviation pending :: "('q, 'm, 'z) pool \<Rightarrow> 'm multiset" where
  "pending p \<equiv> bag (po_nrs p) + mset (map snd (po_busy p))"

lemma pool_okD:
  assumes "pool_ok p"
  shows "int (length (po_busy p)) \<le> po_num p" "distinct (map fst (po_busy p))"
    "bag (po_nrs p) \<noteq> {#} \<Longrightarrow> \<not> nrs_Throttling ops (po_nrs p) \<Longrightarrow> int (length (po_busy p)) < po_num p
       \<Longrightarrow> po_state p = Pool_Run \<and> po_run p"
  using assms by (auto simp: pool_ok_def threads_ok_def)

lemma manager_ok:
  assumes "threads_ok p" "\<not> po_run p" "po_state p \<in> {Pool_Run, Pool_FullLoad}" "po_num p > 0"
  shows "\<exists>p'. PoolStateMachine ops (\<lambda>_. Inr) p = Inr p' \<and> pool_ok p' \<and> pending p' = pending p
    \<and> po_num p' = po_num p \<and> \<not> po_run p'"
  using assms
proof (induction "length (po_idleQ p)" arbitrary: p rule: less_induct)
  case less
  show ?case
  proof (cases "po_state p = Pool_Run")
    case False
    then have "PoolStateMachine ops (\<lambda>_. Inr) p = Inr p" "pool_ok p"
      using less.prems by (auto simp: PoolStateMachine.simps pool_ok_def)
    then show ?thesis using less.prems(2) by blast
  next
    case run: True
    then obtain t ts where tq: "po_idleQ p = t # ts" using less.prems(1) by (cases "po_idleQ p") (auto simp: threads_ok_def)
    have iv: "inv (po_nrs p)" using less.prems(1) by (simp add: threads_ok_def)
    show ?thesis
    proof (cases "nrs_Throttling ops (po_nrs p)")
      case True
      then have "PoolStateMachine ops (\<lambda>_. Inr) p = Inr (p\<lparr>po_state := Pool_Idle\<rparr>)"
        by (simp add: PoolStateMachine.simps run)
      moreover have "pool_ok (p\<lparr>po_state := Pool_Idle\<rparr>)"
        using less.prems True run by (simp add: pool_ok_def threads_ok_def)
      ultimately show ?thesis using less.prems(2) by simp
    next
      case thr: False
      consider q where "nrs_Dequeue ops (po_nrs p) = (None, q)" "inv q" "bag q = bag (po_nrs p)"
          "bag (po_nrs p) = {#} \<or> nrs_Throttling ops q"
        | m q where "nrs_Dequeue ops (po_nrs p) = (Some m, q)" "inv q" "bag (po_nrs p) = add_mset m (bag q)"
        using deq_law [OF iv thr] by blast
      then show ?thesis
      proof cases
        case q: (1 q)
        then have "PoolStateMachine ops (\<lambda>_. Inr) p = Inr (p\<lparr>po_nrs := q, po_state := Pool_Idle\<rparr>)"
          using thr by (simp add: PoolStateMachine.simps [of _ _ p] run)
        moreover have "pool_ok (p\<lparr>po_nrs := q, po_state := Pool_Idle\<rparr>)"
          using less.prems q run by (auto simp: pool_ok_def threads_ok_def)
        ultimately show ?thesis using less.prems(2) q(3) by simp
      next
        case q: (2 m q)
        define p1 where "p1 = p\<lparr>po_nrs := q, po_idleQ := ts, po_idle := po_idle p - 1,
          po_state := (if po_idle p - 1 = 0 then Pool_FullLoad else po_state p), po_busy := po_busy p @ [(t, m)]\<rparr>"
        have nx: "NextIdleThreadFromPool (p\<lparr>po_nrs := q\<rparr>)
          = (Some t, p1\<lparr>po_busy := po_busy p\<rparr>)"
          by (simp add: NextIdleThreadFromPool_def tq Let_def p1_def)
        have "PoolStateMachine ops (\<lambda>_. Inr) p = PoolStateMachine ops (\<lambda>_. Inr) p1"
          using q(1) thr nx by (subst PoolStateMachine.simps) (simp add: run p1_def)
        moreover have "\<exists>p'. PoolStateMachine ops (\<lambda>_. Inr) p1 = Inr p' \<and> pool_ok p' \<and> pending p' = pending p1
            \<and> po_num p' = po_num p1 \<and> \<not> po_run p'"
          by (rule less.hyps)
            (use less.prems q(2) tq run in \<open>auto simp: p1_def threads_ok_def split: if_splits\<close>)
        moreover have "pending p1 = pending p" "po_num p1 = po_num p" using q(3) by (simp_all add: p1_def)
        ultimately show ?thesis by simp
      qed
    qed
  qed
qed

lemma wakeup_ok:
  assumes "threads_ok p" "po_state p \<in> {Pool_Idle, Pool_Run, Pool_FullLoad}" "po_num p > 0" "po_run p \<longleftrightarrow> po_state p = Pool_Run"
  shows "\<exists>p'. pool_Wakeup p = Inr p' \<and> pool_ok p' \<and> po_nrs p' = po_nrs p \<and> po_busy p' = po_busy p \<and> po_num p' = po_num p"
  using assms by (auto simp: pool_Wakeup_def pool_Signal_def pool_ok_def threads_ok_def)

fun pool_fits :: "'m pool_ev \<Rightarrow> ('q, 'm, unit) pool \<Rightarrow> bool" where
  "pool_fits (Pe_task m) p \<longleftrightarrow> fits m (po_nrs p)"
| "pool_fits _ p \<longleftrightarrow> True"

lemma completion_ok:
  assumes "pool_ok p" "t \<in> fst ` set (po_busy p)"
  shows "\<exists>m p'. map_of (po_busy p) t = Some m \<and> Processor_TaskCompletion ops t p = Inr p' \<and> pool_ok p'
    \<and> pending p = add_mset m (pending p') \<and> po_num p' = po_num p"
proof -
  have th: "threads_ok p" using assms(1) by (simp add: pool_ok_def)
  have d: "distinct (map fst (po_busy p))" using th by (simp add: threads_ok_def)
  obtain m where m: "map_of (po_busy p) t = Some m" using assms(2) by (meson map_of_eq_None_iff not_None_eq)
  then obtain xs ys where b: "po_busy p = xs @ (t, m) # ys" using map_of_SomeD split_list by fast
  have f: "filter (\<lambda>(x, _). x \<noteq> t) (po_busy p) = xs @ ys"
  proof -
    have "filter (\<lambda>(x, _). x \<noteq> t) xs = xs" "filter (\<lambda>(x, _). x \<noteq> t) ys = ys"
      using d unfolding b by (auto simp: filter_id_conv dest: img_fst)
    then show ?thesis by (simp add: b)
  qed
  have iv: "inv (po_nrs p)" using th by (simp add: threads_ok_def)
  note fin = fin_law [OF iv, of m]
  define p2 where "p2 = p\<lparr>po_nrs := nrs_Finish ops m (po_nrs p), po_busy := xs @ ys,
     po_idleQ := po_idleQ p @ [t], po_idle := po_idle p + 1\<rparr>"
  have n: "\<not> po_idle p + 1 > po_num p" using th b by (simp add: threads_ok_def)
  have e: "Processor_TaskCompletion ops t p =
      (if po_idle p2 > 0 \<and> po_state p2 = Pool_FullLoad
       then (case pool_Signal p2 of Inl e \<Rightarrow> Inl e | Inr p3 \<Rightarrow> Inr (p3\<lparr>po_state := Pool_Run\<rparr>))
       else Inr p2)"
    using n by (simp add: Processor_TaskCompletion_def m Let_def f p2_def)
  show ?thesis
  proof (cases "po_state p = Pool_FullLoad")
    case True
    then have "po_idleQ p = []" "\<not> po_run p" using assms(1) th by (simp_all add: pool_ok_def threads_ok_def)
    then have "Processor_TaskCompletion ops t p = Inr (p2\<lparr>po_run := True, po_state := Pool_Run\<rparr>)"
      using e True th by (simp add: pool_Signal_def p2_def threads_ok_def)
    moreover have "pool_ok (p2\<lparr>po_run := True, po_state := Pool_Run\<rparr>)"
      using assms(1) th fin b by (auto simp: pool_ok_def threads_ok_def p2_def)
    ultimately show ?thesis using m fin b by (simp add: p2_def)
  next
    case False
    then have "Processor_TaskCompletion ops t p = Inr p2" using e by (simp add: p2_def)
    moreover have "pool_ok p2"
      using assms(1) th fin b False by (auto simp: pool_ok_def threads_ok_def p2_def)
    ultimately show ?thesis using m fin b by (simp add: p2_def)
  qed
qed

lemma step_ok:
  assumes "pool_ok p" "pool_possible e p" "pool_fits e p"
  shows "\<exists>out p'. pool_step ops e p = Inr (out, p') \<and> pool_ok p' \<and> po_num p' = po_num p
    \<and> pending p + mset (pool_tasks [e]) = pending p' + mset out"
proof (cases e)
  case (Pe_task m)
  have th: "threads_ok p" using assms(1) by (simp add: pool_ok_def)
  obtain q where q: "nrs_Enqueue ops m (po_nrs p) = (0, q)" "inv q" "bag q = add_mset m (bag (po_nrs p))"
    using enq_law [of "po_nrs p" m] th assms(3) Pe_task by (auto simp: threads_ok_def)
  define p1 where "p1 = p\<lparr>po_nrs := q\<rparr>"
  have "threads_ok p1" using th q(2) by (simp add: threads_ok_def p1_def)
  then obtain p' where w: "pool_Wakeup p1 = Inr p'" "pool_ok p'" "po_nrs p' = q" "po_busy p' = po_busy p" "po_num p' = po_num p"
    using wakeup_ok [of p1] assms(1) by (auto simp: p1_def pool_ok_def)
  have "Processor_AddNewTask ops m p = Inr p'"
    using q(1) w(1) assms(1) by (auto simp: Processor_AddNewTask_def p1_def Let_def pool_Wakeup_def pool_ok_def)
  then show ?thesis using Pe_task w q(3) by simp
next
  case Pe_manager
  then have r: "po_run p" "po_state p = Pool_Run" using assms by (auto simp: pool_ok_def)
  define p1 where "p1 = p\<lparr>po_run := False\<rparr>"
  have "threads_ok p1" "po_num p1 > 0" "po_state p1 = Pool_Run" "\<not> po_run p1" "pending p1 = pending p" "po_num p1 = po_num p"
    using assms(1) r by (simp_all add: pool_ok_def threads_ok_def p1_def)
  then obtain p' where "PoolStateMachine ops (\<lambda>_. Inr) p1 = Inr p'" "pool_ok p'" "pending p' = pending p" "po_num p' = po_num p"
    using manager_ok [of p1] by auto
  then show ?thesis using Pe_manager r by (simp add: ThreadPoolManger_def p1_def)
next
  case (Pe_done t)
  then show ?thesis using completion_ok [OF assms(1), of t] assms(2) by auto
next
  case Pe_resume
  define p1 where "p1 = p\<lparr>po_nrs := nrs_Resume ops (po_nrs p)\<rparr>"
  have th: "threads_ok p" using assms(1) by (simp add: pool_ok_def)
  note rs = resume_law [of "po_nrs p"]
  have "threads_ok p1" using th rs by (simp add: threads_ok_def p1_def)
  then obtain p' where w: "pool_Wakeup p1 = Inr p'" "pool_ok p'" "po_nrs p' = nrs_Resume ops (po_nrs p)" "po_busy p' = po_busy p"
      "po_num p' = po_num p"
    using wakeup_ok [of p1] assms(1) by (auto simp: p1_def pool_ok_def)
  then show ?thesis using Pe_resume rs th by (simp add: pool_Resume_def p1_def threads_ok_def)
qed

lemma pool_tasks_Cons: "mset (pool_tasks (e # es)) = mset (pool_tasks [e]) + mset (pool_tasks es)"
  by (cases e) simp_all

text \<open>With room for \<open>N\<close> messages a run of possible events has no fault.\<close>

lemma run_ok:
  assumes "pool_ok p" "pool_trace ops es p" "\<And>m q. inv q \<Longrightarrow> size (bag q) + 1 < N \<Longrightarrow> fits m q"
    "size (pending p) + length (pool_tasks es) < N"
  shows "\<exists>out p'. pool_steps ops es p = Inr (out, p') \<and> pool_ok p' \<and> po_num p' = po_num p
    \<and> pending p + mset (pool_tasks es) = pending p' + mset out"
  using assms(1,2,4)
proof (induction es arbitrary: p)
  case (Cons e es)
  have k: "inv (po_nrs p)" using Cons.prems(1) by (simp add: pool_ok_def threads_ok_def)
  have "pool_fits e p" using Cons.prems(3) by (cases e) (simp_all add: assms(3) [OF k])
  then obtain o1 p1 where s: "pool_step ops e p = Inr (o1, p1)" "pool_ok p1" "po_num p1 = po_num p"
    "pending p + mset (pool_tasks [e]) = pending p1 + mset o1"
    using step_ok [OF Cons.prems(1), of e] Cons.prems(2) by auto
  have "size (pending p) + length (pool_tasks [e]) = size (pending p1) + length o1"
    using arg_cong [OF s(4), of size] by simp
  moreover have "length (pool_tasks (e # es)) = length (pool_tasks [e]) + length (pool_tasks es)"
    by (cases e) simp_all
  ultimately have "size (pending p1) + length (pool_tasks es) < N" using Cons.prems(3) by simp
  then obtain o2 p2 where r: "pool_steps ops es p1 = Inr (o2, p2)" "pool_ok p2" "po_num p2 = po_num p1"
    "pending p1 + mset (pool_tasks es) = pending p2 + mset o2"
    using Cons.IH [OF s(2)] Cons.prems(2) s(1) by auto
  have "pending p + mset (pool_tasks (e # es)) = pending p2 + mset (o1 @ o2)"
    using multi_chain [OF s(4) r(4)] pool_tasks_Cons [of e es] by simp
  then show ?case using s r by simp
qed simp

text \<open>The pool after Start, once its manager thread has run with nothing
  queued.\<close>

lemma pool_start_ok:
  assumes "inv q" "bag q = {#}" "0 < n"
  shows "\<exists>p0 p. pool_started q n = Inr p0 \<and> pool_step ops Pe_manager p0 = Inr ([], p) \<and> pool_ok p
    \<and> po_num p = int n \<and> pending p = {#}"
proof -
  define p :: "('q, 'm, unit) pool" where "p = \<lparr>po_nrs = q, po_idleQ = [0..<n], po_idle = int n, po_num = int n, po_rnum = int n,
    po_counter = int n, po_state = Pool_Idle, po_run = False, po_busy = [], po_ext = ()\<rparr>"
  have "pool_started q n = Inr (p\<lparr>po_state := Pool_Start, po_run := True\<rparr>)"
    using assms(3) by (simp add: pool_started_def Processor_Start_def InitThreadPool_def Processor_Attach_def
        Processor_new_def p_def)
  moreover have "pool_step ops Pe_manager (p\<lparr>po_state := Pool_Start, po_run := True\<rparr>) = Inr ([], p)"
    by (simp add: ThreadPoolManger_def PoolStateMachine.simps p_def)
  moreover have "pool_ok p" "pending p = {#}"
    using assms by (simp_all add: pool_ok_def threads_ok_def p_def)
  moreover have "po_num p = int n" by (simp add: p_def)
  ultimately show ?thesis by blast
qed

end

section \<open>The schedulers as the pool sees them\<close>

definition scheduler_ops :: "('m \<Rightarrow> 'q \<Rightarrow> 'q) \<Rightarrow> ('q \<Rightarrow> 'm option \<times> 'q) \<Rightarrow> ('q, 'm) nrs_ops" where
  "scheduler_ops enq deq = \<lparr>nrs_Enqueue = \<lambda>m q. (0, enq m q), nrs_Dequeue = deq, nrs_Finish = \<lambda>_ q. q,
     nrs_Throttling = \<lambda>_. False, nrs_Resume = \<lambda>q. q\<rparr>"

lemma scheduler_ops_throttling: "\<not> nrs_Throttling (scheduler_ops enq deq) q"
  by (simp add: scheduler_ops_def)

text \<open>Every scheduler that does not throttle serves a pool.\<close>

sublocale scheduler \<subseteq> pool: pool_nrs inv bag fits "scheduler_ops enq deq"
proof
  show "(\<exists>m q'. nrs_Dequeue (scheduler_ops enq deq) q = (Some m, q') \<and> inv q' \<and> bag q = add_mset m (bag q'))
      \<or> (\<exists>q'. nrs_Dequeue (scheduler_ops enq deq) q = (None, q') \<and> inv q' \<and> bag q' = bag q
            \<and> (bag q = {#} \<or> nrs_Throttling (scheduler_ops enq deq) q'))"
    if "inv q" for q
    using deq_empty [OF that] deq_some [OF that] by (cases "bag q = {#}") (auto simp: scheduler_ops_def)
qed (simp_all add: scheduler_ops_def enq_law)

definition fifo_ops :: "('m nrs_fifo, 'm) nrs_ops" where
  "fifo_ops = scheduler_ops NrsFifo_Enqueue NrsFifo_Dequeue"

section \<open>Properties\<close>

text \<open>C11 A thread pool that serves a FIFO scheduler loses nothing and does not
  sleep on work.  From Start, once the manager thread has run, every sequence
  of events (new tasks, the manager thread when it is armed, ends of tasks on
  threads at work, wakeups) goes without a failed assertion; the tasks given
  to the pool are those done, those on its threads and those queued; never
  more than the \<open>n\<close> threads work; and when a request waits and a thread is
  idle, the manager thread is armed.\<close>
theorem pool_no_lost_wakeup:
  assumes "0 < n" "pool_started NrsFifo_new n = Inr p0" "pool_trace fifo_ops (Pe_manager # es) p0"
    "length (pool_tasks es) < 2 ^ 64"
  shows "\<exists>out p. pool_steps fifo_ops (Pe_manager # es) p0 = Inr (out, p)
    \<and> mset (pool_tasks es) = mset out + mset (map snd (po_busy p)) + mset (fifo_Q (po_nrs p))
    \<and> length (po_busy p) \<le> n \<and> distinct (map fst (po_busy p))
    \<and> (fifo_Q (po_nrs p) \<noteq> [] \<and> length (po_busy p) < n \<longrightarrow> po_state p = Pool_Run \<and> po_run p)"
proof -
  obtain p1 where p1: "pool_step fifo_ops Pe_manager p0 = Inr ([], p1)" "fifo.pool.pool_ok p1" "po_num p1 = int n"
    "fifo.pool.pending p1 = {#}"
    using fifo.pool.pool_start_ok [where q = "NrsFifo_new :: 'a nrs_fifo" and n = n] assms(1,2) unfolding fifo_ops_def
    by (metis fifo_ok_new(1,2) sum.inject(2))
  have "\<exists>out p. pool_steps fifo_ops es p1 = Inr (out, p) \<and> fifo.pool.pool_ok p \<and> po_num p = po_num p1
      \<and> fifo.pool.pending p1 + mset (pool_tasks es) = fifo.pool.pending p + mset out"
    unfolding fifo_ops_def
  proof (rule fifo.pool.run_ok [where N = "2 ^ 64", OF p1(2)])
    show "pool_trace (scheduler_ops NrsFifo_Enqueue NrsFifo_Dequeue) es p1"
      using p1(1) assms(3) by (simp add: fifo_ops_def)
    show "size (fifo.pool.pending p1) + length (pool_tasks es) < 2 ^ 64" unfolding p1(4) using assms(4) by simp
  qed (simp add: fifo_fits_def)
  then obtain out p where r: "pool_steps fifo_ops es p1 = Inr (out, p)" "fifo.pool.pool_ok p" "po_num p = po_num p1"
    "fifo.pool.pending p1 + mset (pool_tasks es) = fifo.pool.pending p + mset out"
    by blast
  have "pool_steps fifo_ops (Pe_manager # es) p0 = Inr (out, p)" using p1(1) r(1) by simp
  moreover have "mset (pool_tasks es) = mset out + mset (map snd (po_busy p)) + mset (fifo_Q (po_nrs p))"
    using r(4) p1(4) by (simp add: fifo_bag_def ac_simps)
  moreover have "length (po_busy p) \<le> n" "distinct (map fst (po_busy p))"
    "fifo_Q (po_nrs p) \<noteq> [] \<and> length (po_busy p) < n \<longrightarrow> po_state p = Pool_Run \<and> po_run p"
    using fifo.pool.pool_okD [OF r(2)] r(3) p1(3) by (simp_all add: fifo_bag_def scheduler_ops_throttling)
  ultimately show ?thesis by blast
qed

lemma pool_no_lost_wakeup_witness:
  "\<exists>p0 out p. pool_started NrsFifo_new 2 = Inr p0
     \<and> pool_steps fifo_ops [Pe_manager, Pe_task (1 :: nat), Pe_manager, Pe_task 2, Pe_task 3, Pe_manager, Pe_done 0] p0 = Inr (out, p)
     \<and> length (po_busy p) \<le> 2"
proof -
  define es where "es = [Pe_task (1 :: nat), Pe_manager, Pe_task 2, Pe_task 3, Pe_manager, Pe_done 0]"
  obtain p0 :: "(nat nrs_fifo, nat, unit) pool" where p0: "pool_started NrsFifo_new 2 = Inr p0"
    by (simp add: pool_started_def Processor_Start_def InitThreadPool_def Processor_Attach_def Processor_new_def)
  have "case pool_started NrsFifo_new 2 of Inl _ \<Rightarrow> False | Inr p \<Rightarrow> pool_trace fifo_ops
      [Pe_manager, Pe_task (1 :: nat), Pe_manager, Pe_task 2, Pe_task 3, Pe_manager, Pe_done 0] p"
    by code_simp
  then have "pool_trace fifo_ops (Pe_manager # es) p0" by (simp add: p0 es_def)
  moreover have "length (pool_tasks es) < 2 ^ 64" by (simp add: es_def)
  ultimately show ?thesis
    using pool_no_lost_wakeup [OF _ p0, of es] p0 unfolding es_def by auto
qed

text \<open>C40 A task that arrives before the first run of the manager thread is
  left behind: that run only leaves the state Start, so the request waits with
  all threads idle and no event armed, until another task arrives.\<close>
theorem pool_start_forgets_task:
  assumes "0 < n" "pool_started NrsFifo_new n = Inr p0"
  shows "\<exists>p. pool_steps fifo_ops [Pe_task m, Pe_manager] p0 = Inr ([], p)
    \<and> fifo_Q (po_nrs p) = [m] \<and> length (po_idleQ p) = n \<and> po_busy p = [] \<and> po_state p = Pool_Idle \<and> \<not> po_run p"
  using assms
  by (auto simp: pool_started_def Processor_Start_def InitThreadPool_def Processor_Attach_def Processor_new_def
      Processor_AddNewTask_def fifo_ops_def scheduler_ops_def pool_Wakeup_def ThreadPoolManger_def
      PoolStateMachine.simps NrsFifo_new_def sched_simps)

lemma pool_start_forgets_task_witness:
  "\<exists>p0 p. pool_started NrsFifo_new 3 = Inr p0 \<and> pool_steps fifo_ops [Pe_task (7 :: nat), Pe_manager] p0 = Inr ([], p)
     \<and> fifo_Q (po_nrs p) = [7] \<and> \<not> po_run p"
proof -
  obtain p0 :: "(nat nrs_fifo, nat, unit) pool" where p0: "pool_started NrsFifo_new 3 = Inr p0"
    by (simp add: pool_started_def Processor_Start_def InitThreadPool_def Processor_Attach_def Processor_new_def)
  then show ?thesis using pool_start_forgets_task [of 3 p0 7] by auto
qed

end
