(* ===== verification/Congest.thy ===== *)
theory Congest
  imports Pool
begin

text \<open>
  The congestion controller of a client, src/lustre/congestcontroller.h and
  congestcontroller.cpp: a thread pool over a FIFO scheduler whose number of
  threads follows the credits the servers grant with their replies, and that
  stops the application when too many requests are queued.  Of the client the
  state of the application and its thread are modelled (Client::SetIoCongestFlag
  and ClearIoCongestFlag, src/lustre/client.cpp).  The statistics are not.
\<close>

section \<open>State\<close>

datatype userstat = User_First | User_OpenFile | User_InitRW | User_WriteStart | User_WriteSleep
  | User_WriteInterval | User_WriteXfer | User_WriteCompletion | User_WriteWaitAllFinish | User_ReadStart
  | User_ReadXfer | User_ReadCompletion | User_CloseFile | User_IoCongest | User_Last

text \<open>The record CSP; \<open>csp_rpc\<close> are the fields dc and rcc of the RPCs sent,
  \<open>cl_user_run\<close> says whether the application's thread is armed.\<close>

record 'm csp =
  csp_depth :: int
  csp_rcc :: int
  csp_uc :: int
  csp_state :: userstat
  csp_congested :: bool
  csp_rpc :: "'m \<Rightarrow> int \<times> int"
  cl_state :: userstat
  cl_oldstate :: userstat
  cl_user_run :: bool

type_synonym 'm congest = "('m nrs_fifo, 'm, 'm csp) pool"

definition CongestController_new :: "userstat \<Rightarrow> 'm congest" where
  "CongestController_new u = Processor_new NrsFifo_new
     \<lparr>csp_depth = 0, csp_rcc = 0, csp_uc = 0, csp_state = User_First, csp_congested = False,
      csp_rpc = (\<lambda>_. (0, 0)), cl_state = u, cl_oldstate = u, cl_user_run = False\<rparr>"

section \<open>Operations\<close>

definition SetIoCongestFlag :: "'m csp \<Rightarrow> (userstat \<times> 'm csp) pool_res" where
  "SetIoCongestFlag z =
     (if cl_state z = User_IoCongest then Inl Client_assertion
      else Inr (cl_state z, z\<lparr>cl_oldstate := cl_state z, cl_state := User_IoCongest\<rparr>))"

text \<open>The condition on the state in the code is always true.\<close>

definition ClearIoCongestFlag :: "userstat \<Rightarrow> 'm csp \<Rightarrow> 'm csp pool_res" where
  "ClearIoCongestFlag s z =
     (if s = User_IoCongest then Inl Client_assertion
      else if s \<noteq> User_WriteCompletion \<or> s \<noteq> User_ReadCompletion
      then if cl_user_run z then Inl Client_assertion else Inr (z\<lparr>cl_state := s, cl_user_run := True\<rparr>)
      else Inr z)"

definition CheckIoCongestion :: "int \<Rightarrow> 'm csp \<Rightarrow> 'm csp pool_res" where
  "CheckIoCongestion cq z =
     (if csp_depth z \<ge> cq \<and> \<not> csp_congested z
      then (case SetIoCongestFlag z of Inl e \<Rightarrow> Inl e
            | Inr (s, z1) \<Rightarrow> Inr (z1\<lparr>csp_state := s, csp_congested := True\<rparr>))
      else if csp_congested z \<and> csp_depth z < cq
      then (case ClearIoCongestFlag (csp_state z) z of Inl e \<Rightarrow> Inl e
            | Inr z1 \<Rightarrow> Inr (z1\<lparr>csp_congested := False\<rparr>))
      else Inr z)"

definition CC_AddNewTask :: "int \<Rightarrow> 'm \<Rightarrow> 'm congest \<Rightarrow> 'm congest pool_res" where
  "CC_AddNewTask cq m p =
     (case CheckIoCongestion cq (po_ext p\<lparr>csp_depth := csp_depth (po_ext p) + 1\<rparr>) of
        Inl e \<Rightarrow> Inl e
      | Inr z \<Rightarrow> Processor_AddNewTask fifo_ops m (p\<lparr>po_ext := z\<rparr>))"

definition CC_RunOneTask :: "int \<Rightarrow> 'm \<Rightarrow> 'm csp \<Rightarrow> 'm csp pool_res" where
  "CC_RunOneTask cq m z =
     (case CheckIoCongestion cq (z\<lparr>csp_uc := csp_uc z + 1, csp_depth := csp_depth z - 1\<rparr>) of
        Inl e \<Rightarrow> Inl e
      | Inr z1 \<Rightarrow> Inr (z1\<lparr>csp_rpc := (csp_rpc z1)(m := (csp_depth z1, csp_rcc z1))\<rparr>))"

text \<open>The end of the task on thread \<open>t\<close>; \<open>c\<close> are the credits in its reply.\<close>

definition CC_TaskCompletion :: "bool \<Rightarrow> nat \<Rightarrow> int \<Rightarrow> 'm congest \<Rightarrow> 'm congest pool_res" where
  "CC_TaskCompletion fix_rcc t c p =
     (case map_of (po_busy p) t of
        None \<Rightarrow> Inl Not_busy
      | Some m \<Rightarrow>
          let z = po_ext p\<lparr>csp_uc := csp_uc (po_ext p) - 1\<rparr>;
              p1 = p\<lparr>po_nrs := nrs_Finish fifo_ops m (po_nrs p),
                     po_busy := filter (\<lambda>(x, _). x \<noteq> t) (po_busy p), po_ext := z\<rparr>
          in if \<not> csp_uc z \<ge> 0 then Inl Assertion
             else (case (if \<not> fix_rcc
                         then (case AdjustThreadPool c False (p1\<lparr>po_ext := z\<lparr>csp_rcc := c\<rparr>\<rparr>) of
                                 Inl e \<Rightarrow> Inl e
                               | Inr p2 \<Rightarrow> if csp_rcc (po_ext p2) = po_num p2 then Inr p2 else Inl Assertion)
                         else Inr p1) of
                Inl e \<Rightarrow> Inl e
              | Inr p2 \<Rightarrow>
                  let p3 = (if po_rnum p2 > po_num p2 then p2\<lparr>po_rnum := po_rnum p2 - 1\<rparr>
                            else p2\<lparr>po_idleQ := po_idleQ p2 @ [t], po_idle := po_idle p2 + 1\<rparr>)
                  in if \<not> po_run p3 \<and> po_idle p3 > 0 \<and> po_state p3 = Pool_FullLoad
                     then (case pool_Signal p3 of Inl e \<Rightarrow> Inl e | Inr p4 \<Rightarrow> Inr (p4\<lparr>po_state := Pool_Run\<rparr>))
                     else Inr p3))"

text \<open>The application's thread runs: in the congested state it does nothing,
  else it goes on to a state of its own.\<close>

definition cl_user_event :: "userstat \<Rightarrow> 'm csp \<Rightarrow> 'm csp" where
  "cl_user_event u z = (let z1 = z\<lparr>cl_user_run := False\<rparr> in
     if cl_state z1 = User_IoCongest then z1 else z1\<lparr>cl_state := u\<rparr>)"

section \<open>Runs\<close>

datatype 'm cc_ev = Ce_task 'm | Ce_manager | Ce_done nat int | Ce_user userstat

fun cc_step :: "int \<Rightarrow> 'm cc_ev \<Rightarrow> 'm congest \<Rightarrow> ('m list \<times> 'm congest) pool_res" where
  "cc_step cq (Ce_task m) p = (case CC_AddNewTask cq m p of Inl e \<Rightarrow> Inl e | Inr p' \<Rightarrow> Inr ([], p'))"
| "cc_step cq Ce_manager p =
     (case ThreadPoolManger fifo_ops (CC_RunOneTask cq) p of Inl e \<Rightarrow> Inl e | Inr p' \<Rightarrow> Inr ([], p'))"
| "cc_step cq (Ce_done t c) p =
     (case CC_TaskCompletion False t c p of
        Inl e \<Rightarrow> Inl e
      | Inr p' \<Rightarrow> Inr ((case map_of (po_busy p) t of None \<Rightarrow> [] | Some m \<Rightarrow> [m]), p'))"
| "cc_step cq (Ce_user u) p = Inr ([], p\<lparr>po_ext := cl_user_event u (po_ext p)\<rparr>)"

fun cc_steps :: "int \<Rightarrow> 'm cc_ev list \<Rightarrow> 'm congest \<Rightarrow> ('m list \<times> 'm congest) pool_res" where
  "cc_steps cq [] p = Inr ([], p)"
| "cc_steps cq (e # es) p =
     (case cc_step cq e p of
        Inl x \<Rightarrow> Inl x
      | Inr (o1, p1) \<Rightarrow> (case cc_steps cq es p1 of Inl x \<Rightarrow> Inl x | Inr (o2, p2) \<Rightarrow> Inr (o1 @ o2, p2)))"

lemma cc_steps_append:
  "cc_steps cq es p = Inr (o1, p1) \<Longrightarrow> cc_steps cq fs p1 = Inr (o2, p2) \<Longrightarrow> cc_steps cq (es @ fs) p = Inr (o1 @ o2, p2)"
  by (induction es arbitrary: p o1) (auto split: sum.splits)

fun cc_tasks :: "'m cc_ev list \<Rightarrow> 'm list" where
  "cc_tasks [] = []"
| "cc_tasks (Ce_task m # es) = m # cc_tasks es"
| "cc_tasks (_ # es) = cc_tasks es"

text \<open>The events that can happen; the servers grant at least one credit
  (Ptlrpc::CalcGrantRCC), and the application does not put itself into the
  congested state.\<close>

fun cc_possible :: "'m cc_ev \<Rightarrow> 'm congest \<Rightarrow> bool" where
  "cc_possible (Ce_task m) p \<longleftrightarrow> True"
| "cc_possible Ce_manager p \<longleftrightarrow> po_run p"
| "cc_possible (Ce_done t c) p \<longleftrightarrow> t \<in> set (map fst (po_busy p)) \<and> c > 0"
| "cc_possible (Ce_user u) p \<longleftrightarrow> u \<noteq> User_IoCongest"

fun cc_trace :: "int \<Rightarrow> 'm cc_ev list \<Rightarrow> 'm congest \<Rightarrow> bool" where
  "cc_trace cq [] p \<longleftrightarrow> True"
| "cc_trace cq (e # es) p \<longleftrightarrow> cc_possible e p
     \<and> (case cc_step cq e p of Inl x \<Rightarrow> True | Inr (out, p') \<Rightarrow> cc_trace cq es p')"

definition cc_started :: "userstat \<Rightarrow> nat \<Rightarrow> 'm congest pool_res" where
  "cc_started u n = Processor_Start (Processor_Attach (int n) (CongestController_new u))"

section \<open>The invariant\<close>

text \<open>The counters are what they count: queued requests, requests in flight,
  threads; the flag tells whether the queue is long; threads in excess of the
  credits are all at work; an idle pool has nothing queued.\<close>

definition cc_ok :: "int \<Rightarrow> 'm congest \<Rightarrow> bool" where
  "cc_ok cq p \<longleftrightarrow> fifo_ok (po_nrs p)
     \<and> csp_depth (po_ext p) = int (length (fifo_Q (po_nrs p)))
     \<and> csp_uc (po_ext p) = int (length (po_busy p))
     \<and> (csp_congested (po_ext p) \<longleftrightarrow> csp_depth (po_ext p) \<ge> cq)
     \<and> po_idle p = int (length (po_idleQ p)) \<and> po_rnum p = int (length (po_idleQ p) + length (po_busy p))
     \<and> po_num p > 0 \<and> (po_rnum p > po_num p \<longrightarrow> po_idleQ p = []) \<and> po_rnum p \<ge> po_num p
     \<and> distinct (po_idleQ p @ map fst (po_busy p))
     \<and> (\<forall>t \<in> set (po_idleQ p @ map fst (po_busy p)). int t < po_counter p) \<and> 0 \<le> po_counter p
     \<and> po_state p \<in> {Pool_Idle, Pool_Run, Pool_FullLoad}
     \<and> (po_state p \<noteq> Pool_FullLoad \<longrightarrow> po_idleQ p \<noteq> [])
     \<and> (po_state p = Pool_Run \<longrightarrow> po_run p) \<and> (po_state p = Pool_Idle \<longrightarrow> \<not> po_run p \<and> fifo_Q (po_nrs p) = [])"

lemma check_cases:
  "CheckIoCongestion cq z = Inl Client_assertion \<or>
   (\<exists>z'. CheckIoCongestion cq z = Inr z' \<and> csp_depth z' = csp_depth z \<and> csp_uc z' = csp_uc z
      \<and> csp_rcc z' = csp_rcc z \<and> (csp_congested z' \<longleftrightarrow> csp_depth z \<ge> cq))"
  by (auto simp: CheckIoCongestion_def SetIoCongestFlag_def ClearIoCongestFlag_def)

definition cc_core :: "int \<Rightarrow> 'm congest \<Rightarrow> bool" where
  "cc_core cq p \<longleftrightarrow> fifo_ok (po_nrs p)
     \<and> csp_depth (po_ext p) = int (length (fifo_Q (po_nrs p)))
     \<and> csp_uc (po_ext p) = int (length (po_busy p))
     \<and> (csp_congested (po_ext p) \<longleftrightarrow> csp_depth (po_ext p) \<ge> cq)
     \<and> po_idle p = int (length (po_idleQ p)) \<and> po_rnum p = int (length (po_idleQ p) + length (po_busy p))
     \<and> po_num p > 0 \<and> (po_rnum p > po_num p \<longrightarrow> po_idleQ p = []) \<and> po_rnum p \<ge> po_num p
     \<and> distinct (po_idleQ p @ map fst (po_busy p))
     \<and> (\<forall>t \<in> set (po_idleQ p @ map fst (po_busy p)). int t < po_counter p) \<and> 0 \<le> po_counter p"

lemma cc_ok_core:
  "cc_ok cq p \<longleftrightarrow> cc_core cq p \<and> po_state p \<in> {Pool_Idle, Pool_Run, Pool_FullLoad}
     \<and> (po_state p \<noteq> Pool_FullLoad \<longrightarrow> po_idleQ p \<noteq> [])
     \<and> (po_state p = Pool_Run \<longrightarrow> po_run p) \<and> (po_state p = Pool_Idle \<longrightarrow> \<not> po_run p \<and> fifo_Q (po_nrs p) = [])"
  by (simp add: cc_ok_def cc_core_def)

lemma cc_coreD:
  assumes "cc_core cq p"
  shows "fifo_ok (po_nrs p)" "po_idle p = int (length (po_idleQ p))" "po_rnum p = int (length (po_idleQ p) + length (po_busy p))"
    "po_num p > 0" "distinct (po_idleQ p @ map fst (po_busy p))" "po_rnum p > po_num p \<longrightarrow> po_idleQ p = []"
    "csp_uc (po_ext p) = int (length (po_busy p))"
    "\<forall>t \<in> set (po_idleQ p @ map fst (po_busy p)). int t < po_counter p" "0 \<le> po_counter p" "po_rnum p \<ge> po_num p"
    "csp_depth (po_ext p) = int (length (fifo_Q (po_nrs p)))" "csp_congested (po_ext p) \<longleftrightarrow> csp_depth (po_ext p) \<ge> cq"
  using assms unfolding cc_core_def by blast+

lemma cc_okD:
  assumes "cc_ok cq p"
  shows "cc_core cq p" "po_state p \<in> {Pool_Idle, Pool_Run, Pool_FullLoad}" "po_state p \<noteq> Pool_FullLoad \<Longrightarrow> po_idleQ p \<noteq> []"
    "po_state p = Pool_Run \<Longrightarrow> po_run p" "po_state p = Pool_Idle \<Longrightarrow> \<not> po_run p" "po_state p = Pool_Idle \<Longrightarrow> fifo_Q (po_nrs p) = []"
  using assms by (simp_all add: cc_ok_core)

lemma cc_core_frame:
  "cc_core cq p \<Longrightarrow> cc_core cq (p\<lparr>po_run := r\<rparr>)" "cc_core cq p \<Longrightarrow> cc_core cq (p\<lparr>po_state := st\<rparr>)"
  by (simp_all add: cc_core_def)

abbreviation cc_pending :: "'m congest \<Rightarrow> 'm multiset" where
  "cc_pending p \<equiv> mset (fifo_Q (po_nrs p)) + mset (map snd (po_busy p))"

lemma fifo_ops_simps [simp]:
  "nrs_Throttling fifo_ops q = False" "nrs_Dequeue fifo_ops = NrsFifo_Dequeue" "nrs_Finish fifo_ops m q = q"
  "nrs_Enqueue fifo_ops m q = (0, NrsFifo_Enqueue m q)"
  by (simp_all add: fifo_ops_def scheduler_ops_def)

lemma fifo_deq_cases:
  assumes "fifo_ok q"
  obtains "NrsFifo_Dequeue q = (None, q)" "fifo_Q q = []"
  | m q' where "NrsFifo_Dequeue q = (Some m, q')" "fifo_ok q'" "fifo_Q q = fifo_Q q' @ [m]"
proof (cases "fifo_Q q = []")
  case True
  then have "NrsFifo_Dequeue q = (None, q)" by (simp add: sched_simps)
  then show ?thesis using that(1) True by blast
next
  case False
  then obtain xs m where x: "fifo_Q q = xs @ [m]" by (meson rev_exhaust)
  obtain e q' where e: "NrsFifo_Dequeue q = (Some e, q')" "fifo_ok q'"
    using fifo_deq [OF assms] False by (auto simp: fifo_bag_def)
  moreover have "e = m" "fifo_Q q' = xs" using e(1) x by (auto simp: sched_simps)
  ultimately show ?thesis using that(2) x by blast
qed

section \<open>The manager thread\<close>

lemma cc_manager:
  assumes "cc_core cq p" "\<not> po_run p" "po_state p \<in> {Pool_Run, Pool_FullLoad}" "po_state p = Pool_Run \<longrightarrow> po_idleQ p \<noteq> []"
  shows "PoolStateMachine fifo_ops (CC_RunOneTask cq) p = Inl Client_assertion \<or>
    (\<exists>p'. PoolStateMachine fifo_ops (CC_RunOneTask cq) p = Inr p' \<and> cc_ok cq p' \<and> cc_pending p' = cc_pending p)"
  using assms
proof (induction "length (po_idleQ p)" arbitrary: p rule: less_induct)
  case less
  show ?case
  proof (cases "po_state p = Pool_Run")
    case False
    then have "PoolStateMachine fifo_ops (CC_RunOneTask cq) p = Inr p" "cc_ok cq p"
      using less.prems by (auto simp: PoolStateMachine.simps cc_ok_core)
    then show ?thesis by blast
  next
    case run: True
    then obtain t ts where tq: "po_idleQ p = t # ts" using less.prems(4) by (cases "po_idleQ p") auto
    have ok: "fifo_ok (po_nrs p)" using less.prems(1) by (simp add: cc_core_def)
    show ?thesis
    proof (cases rule: fifo_deq_cases [OF ok])
      case 1
      then have "PoolStateMachine fifo_ops (CC_RunOneTask cq) p = Inr (p\<lparr>po_nrs := po_nrs p, po_state := Pool_Idle\<rparr>)"
        by (simp add: PoolStateMachine.simps [of _ _ p] run)
      moreover have "cc_ok cq (p\<lparr>po_nrs := po_nrs p, po_state := Pool_Idle\<rparr>)"
        using less.prems 1(2) tq by (simp add: cc_ok_core cc_core_def)
      ultimately show ?thesis by simp
    next
      case (2 m q)
      define p1 where "p1 = p\<lparr>po_nrs := q, po_idleQ := ts, po_idle := po_idle p - 1,
          po_state := (if po_idle p - 1 = 0 then Pool_FullLoad else po_state p)\<rparr>"
      have nx: "NextIdleThreadFromPool (p\<lparr>po_nrs := q\<rparr>) = (Some t, p1)"
        by (simp add: NextIdleThreadFromPool_def tq Let_def p1_def)
      have e: "PoolStateMachine fifo_ops (CC_RunOneTask cq) p =
          (case CC_RunOneTask cq m (po_ext p1) of
             Inl e \<Rightarrow> Inl e
           | Inr z \<Rightarrow> PoolStateMachine fifo_ops (CC_RunOneTask cq) (p1\<lparr>po_busy := po_busy p1 @ [(t, m)], po_ext := z\<rparr>))"
        using 2(1) nx by (subst PoolStateMachine.simps) (simp add: run)
      have p1: "po_ext p1 = po_ext p" "po_busy p1 = po_busy p" by (simp_all add: p1_def)
      consider "CC_RunOneTask cq m (po_ext p) = Inl Client_assertion"
        | z where "CC_RunOneTask cq m (po_ext p) = Inr z" "csp_depth z = csp_depth (po_ext p) - 1"
            "csp_uc z = csp_uc (po_ext p) + 1" "csp_congested z \<longleftrightarrow> csp_depth z \<ge> cq"
        using check_cases [of cq "po_ext p\<lparr>csp_uc := csp_uc (po_ext p) + 1, csp_depth := csp_depth (po_ext p) - 1\<rparr>"]
        unfolding CC_RunOneTask_def by fastforce
      then show ?thesis
      proof cases
        case 1
        then show ?thesis using e p1 by simp
      next
        case z: (2 z)
        define p2 where "p2 = p1\<lparr>po_busy := po_busy p @ [(t, m)], po_ext := z\<rparr>"
        have "PoolStateMachine fifo_ops (CC_RunOneTask cq) p = PoolStateMachine fifo_ops (CC_RunOneTask cq) p2"
          using e z(1) p1 by (simp add: p2_def)
        moreover have "cc_core cq p2"
          using less.prems(1) z tq 2 by (auto simp: cc_core_def p2_def p1_def)
        moreover have "\<not> po_run p2" "po_state p2 \<in> {Pool_Run, Pool_FullLoad}" "po_state p2 = Pool_Run \<longrightarrow> po_idleQ p2 \<noteq> []"
          "length (po_idleQ p2) < length (po_idleQ p)"
          using less.prems run tq by (auto simp: p2_def p1_def cc_core_def split: if_splits)
        moreover have "cc_pending p2 = cc_pending p" using 2(3) by (simp add: p2_def p1_def)
        ultimately show ?thesis using less.hyps [of p2] by simp
      qed
    qed
  qed
qed

section \<open>The number of threads\<close>

lemma shrink_spec:
  assumes "po_idle p = int (length (po_idleQ p))" "k = min (length (po_idleQ p)) (nat (po_rnum p - c))"
  shows "shrink_pool c p = p\<lparr>po_idleQ := drop k (po_idleQ p), po_idle := po_idle p - int k, po_rnum := po_rnum p - int k,
    po_state := (if k > 0 \<and> po_idle p = int k then Pool_FullLoad else po_state p)\<rparr>"
  using assms
proof (induction "length (po_idleQ p)" arbitrary: p k)
  case 0
  then show ?case
    by (subst shrink_pool.simps) (simp add: NextIdleThreadFromPool_def)
next
  case (Suc n)
  then obtain t ts where tq: "po_idleQ p = t # ts" by (cases "po_idleQ p") auto
  show ?case
  proof (cases "po_rnum p > c")
    case False
    then show ?thesis using Suc.prems by (subst shrink_pool.simps) simp
  next
    case True
    define p1 where "p1 = p\<lparr>po_idleQ := ts, po_idle := po_idle p - 1,
      po_state := (if po_idle p - 1 = 0 then Pool_FullLoad else po_state p), po_rnum := po_rnum p - 1\<rparr>"
    have "shrink_pool c p = shrink_pool c p1"
      using True by (subst shrink_pool.simps) (simp add: NextIdleThreadFromPool_def tq Let_def p1_def)
    moreover have k: "k - 1 = min (length (po_idleQ p1)) (nat (po_rnum p1 - c))" "k > 0"
      using Suc.prems(2) True tq by (auto simp: p1_def min_def)
    moreover have "n = length (po_idleQ p1)" "po_idle p1 = int (length (po_idleQ p1))"
      using Suc.hyps(2) Suc.prems(1) tq by (simp_all add: p1_def)
    ultimately have "shrink_pool c p = p1\<lparr>po_idleQ := drop (k - 1) (po_idleQ p1), po_idle := po_idle p1 - int (k - 1),
      po_rnum := po_rnum p1 - int (k - 1),
      po_state := (if k - 1 > 0 \<and> po_idle p1 = int (k - 1) then Pool_FullLoad else po_state p1)\<rparr>"
      using Suc.hyps(1) by metis
    moreover have "drop (k - 1) ts = drop k (po_idleQ p)" using k(2) tq by (cases k) simp_all
    moreover have "k \<le> length (po_idleQ p)" using Suc.prems(2) by simp
    ultimately show ?thesis
      using k(2) Suc.prems(1) tq by (auto simp: p1_def of_nat_diff)
  qed
qed

lemma grow_spec:
  assumes "po_rnum p \<le> c"
  shows "\<exists>new. grow_pool c p = p\<lparr>po_idleQ := po_idleQ p @ new, po_idle := po_idle p + int (length new),
      po_rnum := c, po_counter := po_counter p + int (length new)\<rparr>
    \<and> int (length new) = c - po_rnum p
    \<and> (0 \<le> po_counter p \<longrightarrow> distinct new \<and> (\<forall>t \<in> set new. po_counter p \<le> int t \<and> int t < po_counter p + int (length new)))"
  using assms
proof (induction "nat (c - po_rnum p)" arbitrary: p)
  case 0
  then have "po_rnum p = c" by simp
  then show ?case by (subst grow_pool.simps, intro exI [of _ "[]"]) simp
next
  case (Suc n)
  define p1 where "p1 = p\<lparr>po_idleQ := po_idleQ p @ [nat (po_counter p)], po_counter := po_counter p + 1,
                          po_rnum := po_rnum p + 1, po_idle := po_idle p + 1\<rparr>"
  have g: "grow_pool c p = grow_pool c p1" using Suc.hyps(2) by (subst grow_pool.simps) (simp add: p1_def)
  have "n = nat (c - po_rnum p1)" "po_rnum p1 \<le> c" using Suc.hyps(2) by (simp_all add: p1_def)
  then obtain new where n: "grow_pool c p1 = p1\<lparr>po_idleQ := po_idleQ p1 @ new, po_idle := po_idle p1 + int (length new),
      po_rnum := c, po_counter := po_counter p1 + int (length new)\<rparr>" "int (length new) = c - po_rnum p1"
    "0 \<le> po_counter p1 \<longrightarrow> distinct new \<and> (\<forall>t \<in> set new. po_counter p1 \<le> int t \<and> int t < po_counter p1 + int (length new))"
    using Suc.hyps(1) by blast
  show ?case
    using g n by (intro exI [of _ "nat (po_counter p) # new"]) (force simp: p1_def)
qed

section \<open>Steps\<close>

lemma img_fst_iff: "distinct (map fst b) \<Longrightarrow> t \<in> set (map fst b) \<Longrightarrow>
    \<exists>m xs ys. map_of b t = Some m \<and> b = xs @ (t, m) # ys \<and> filter (\<lambda>(x, _). x \<noteq> t) b = xs @ ys"
proof -
  assume d: "distinct (map fst b)" and t: "t \<in> set (map fst b)"
  obtain m where m: "map_of b t = Some m" using t by (metis map_of_eq_None_iff not_None_eq set_map)
  then obtain xs ys where b: "b = xs @ (t, m) # ys" using map_of_SomeD split_list by fast
  have "filter (\<lambda>(x, _). x \<noteq> t) xs = xs" "filter (\<lambda>(x, _). x \<noteq> t) ys = ys"
    using d unfolding b by (auto simp: filter_id_conv dest: img_fst)
  then have "filter (\<lambda>(x, _). x \<noteq> t) b = xs @ ys" by (simp add: b)
  then show ?thesis using m b by blast
qed

text \<open>The pool while the thread \<open>t\<close> that ends its task is in neither list:
  \<open>cc_core\<close> but for the count of threads.\<close>

definition cc_between :: "int \<Rightarrow> nat \<Rightarrow> 'm congest \<Rightarrow> bool" where
  "cc_between cq t p \<longleftrightarrow> fifo_ok (po_nrs p)
     \<and> csp_depth (po_ext p) = int (length (fifo_Q (po_nrs p)))
     \<and> csp_uc (po_ext p) = int (length (po_busy p))
     \<and> (csp_congested (po_ext p) \<longleftrightarrow> csp_depth (po_ext p) \<ge> cq)
     \<and> po_idle p = int (length (po_idleQ p)) \<and> po_rnum p = int (length (po_idleQ p) + length (po_busy p)) + 1
     \<and> po_num p > 0 \<and> (po_rnum p > po_num p \<longrightarrow> po_idleQ p = []) \<and> po_rnum p \<ge> po_num p
     \<and> distinct (t # po_idleQ p @ map fst (po_busy p))
     \<and> (\<forall>x \<in> set (t # po_idleQ p @ map fst (po_busy p)). int x < po_counter p) \<and> 0 \<le> po_counter p
     \<and> po_state p \<in> {Pool_Idle, Pool_Run, Pool_FullLoad}
     \<and> (po_state p \<noteq> Pool_FullLoad \<longrightarrow> po_idleQ p \<noteq> [])
     \<and> (po_state p = Pool_Run \<longrightarrow> po_run p) \<and> (po_state p = Pool_Idle \<longrightarrow> \<not> po_run p \<and> fifo_Q (po_nrs p) = [])"

lemma cc_betweenD:
  assumes "cc_between cq t p"
  shows "po_idle p = int (length (po_idleQ p))" "po_rnum p = int (length (po_idleQ p) + length (po_busy p)) + 1"
    "distinct (t # po_idleQ p @ map fst (po_busy p))" "\<forall>x \<in> set (t # po_idleQ p @ map fst (po_busy p)). int x < po_counter p"
    "0 \<le> po_counter p" "po_state p \<noteq> Pool_FullLoad \<Longrightarrow> po_idleQ p \<noteq> []" "po_rnum p > po_num p \<longrightarrow> po_idleQ p = []"
    "po_rnum p \<ge> po_num p"
  using assms unfolding cc_between_def by blast+

lemma adjust_between:
  assumes "cc_between cq t p" "c > 0"
  shows "\<exists>p'. AdjustThreadPool c False p = Inr p' \<and> cc_between cq t p' \<and> po_num p' = c
    \<and> po_ext p' = po_ext p \<and> po_nrs p' = po_nrs p \<and> po_busy p' = po_busy p"
proof -
  define p1 where "p1 = p\<lparr>po_num := c\<rparr>"
  consider "po_num p = c" | "po_num p \<noteq> c" "po_rnum p > c" | "po_num p \<noteq> c" "po_rnum p \<le> c" by linarith
  then show ?thesis
  proof cases
    case 1
    then show ?thesis using assms by (simp add: AdjustThreadPool_def)
  next
    case 2
    define k where "k = min (length (po_idleQ p1)) (nat (po_rnum p1 - c))"
    have i: "po_idle p1 = int (length (po_idleQ p1))" using assms(1) by (simp add: cc_between_def p1_def)
    define p2 where "p2 = p1\<lparr>po_idleQ := drop k (po_idleQ p1), po_idle := po_idle p1 - int k, po_rnum := po_rnum p1 - int k,
      po_state := (if po_idle p1 = int k then Pool_FullLoad else po_state p1)\<rparr>"
    have kl: "k \<le> length (po_idleQ p1)" "int k \<le> po_rnum p1 - c" using 2 by (simp_all add: k_def p1_def)
    have "AdjustThreadPool c False p = Inr p2"
      using 2 shrink_spec [OF i k_def] i kl(1)
      by (auto simp: AdjustThreadPool_def Let_def p1_def [symmetric] p2_def) (auto simp: p1_def)
    moreover have "cc_between cq t p2"
    proof -
      note d = cc_betweenD [OF assms(1)]
      have sel: "po_nrs p2 = po_nrs p" "po_ext p2 = po_ext p" "po_busy p2 = po_busy p" "po_idleQ p2 = drop k (po_idleQ p)"
        "po_idle p2 = po_idle p - int k" "po_rnum p2 = po_rnum p - int k" "po_num p2 = c" "po_counter p2 = po_counter p"
        "po_run p2 = po_run p" "po_state p2 = (if po_idle p = int k then Pool_FullLoad else po_state p)"
        by (simp_all add: p2_def p1_def)
      have kp: "k \<le> length (po_idleQ p)" "int k \<le> po_rnum p - c" using kl by (simp_all add: p1_def)
      have ds: "set (drop k (po_idleQ p)) \<subseteq> set (po_idleQ p)" by (rule set_drop_subset)
      have "po_idle p - int k = int (length (drop k (po_idleQ p)))" using kp(1) d(1) by simp
      moreover have "po_rnum p - int k = int (length (drop k (po_idleQ p)) + length (po_busy p)) + 1" using kp(1) d(2) by simp
      moreover have "c < po_rnum p - int k \<longrightarrow> drop k (po_idleQ p) = []" using 2 by (auto simp: k_def p1_def min_def)
      moreover have "c \<le> po_rnum p - int k" using kp(2) by simp
      moreover have "distinct (t # drop k (po_idleQ p) @ map fst (po_busy p))" using d(3) ds by auto
      moreover have "\<forall>x \<in> set (t # drop k (po_idleQ p) @ map fst (po_busy p)). int x < po_counter p" using d(4) ds by auto
      moreover have "(if po_idle p = int k then Pool_FullLoad else po_state p) \<noteq> Pool_FullLoad \<longrightarrow> drop k (po_idleQ p) \<noteq> []"
        using kp(1) d(1) by auto
      moreover have "fifo_ok (po_nrs p)" "csp_depth (po_ext p) = int (length (fifo_Q (po_nrs p)))"
        "csp_uc (po_ext p) = int (length (po_busy p))" "csp_congested (po_ext p) \<longleftrightarrow> csp_depth (po_ext p) \<ge> cq"
        using assms(1) unfolding cc_between_def by blast+
      moreover have "po_state p2 \<in> {Pool_Idle, Pool_Run, Pool_FullLoad}" "po_state p2 = Pool_Run \<longrightarrow> po_run p2"
        "po_state p2 = Pool_Idle \<longrightarrow> \<not> po_run p2 \<and> fifo_Q (po_nrs p2) = []"
        using assms(1) unfolding cc_between_def sel by (simp_all split: if_splits)
      ultimately show ?thesis
        unfolding cc_between_def sel using assms(2) d(5) by (intro conjI) assumption+
    qed
    ultimately show ?thesis by (auto simp: p2_def p1_def)
  next
    case 3
    obtain new where n: "grow_pool c p1 = p1\<lparr>po_idleQ := po_idleQ p1 @ new, po_idle := po_idle p1 + int (length new),
      po_rnum := c, po_counter := po_counter p1 + int (length new)\<rparr>" "int (length new) = c - po_rnum p1"
      "0 \<le> po_counter p1 \<longrightarrow> distinct new \<and> (\<forall>t \<in> set new. po_counter p1 \<le> int t \<and> int t < po_counter p1 + int (length new))"
      using grow_spec [of p1 c] 3 by (auto simp: p1_def)
    have "AdjustThreadPool c False p = Inr (grow_pool c p1)"
      using 3 by (simp add: AdjustThreadPool_def Let_def p1_def)
    moreover have "cc_between cq t (grow_pool c p1)"
    proof -
      have a: "0 \<le> po_counter p" "\<forall>x \<in> set (t # po_idleQ p @ map fst (po_busy p)). int x < po_counter p"
        "distinct (t # po_idleQ p @ map fst (po_busy p))"
        using assms(1) unfolding cc_between_def by blast+
      have nn: "distinct new" "\<forall>x \<in> set new. po_counter p \<le> int x \<and> int x < po_counter p + int (length new)"
        using n(3) a(1) by (simp_all add: p1_def)
      have "x \<notin> set new" if "x \<in> set (t # po_idleQ p @ map fst (po_busy p))" for x
        using a(2) nn(2) that by (meson leD)
      then have "set new \<inter> set (t # po_idleQ p @ map fst (po_busy p)) = {}" by blast
      then have "distinct (t # (po_idleQ p @ new) @ map fst (po_busy p))"
        using a(3) nn(1) by auto
      moreover have "int x < po_counter p + int (length new)" if "x \<in> set (t # po_idleQ p @ map fst (po_busy p))" for x
        using a(2) that by (meson add_increasing2 less_le_trans of_nat_0_le_iff order_refl)
      then have "\<forall>x \<in> set (t # (po_idleQ p @ new) @ map fst (po_busy p)). int x < po_counter p + int (length new)"
        using nn(2) by auto
      moreover have "po_idle p + int (length new) = int (length (po_idleQ p @ new))"
        "c = int (length (po_idleQ p @ new) + length (po_busy p)) + 1"
        using cc_betweenD(1,2) [OF assms(1)] n(2) by (simp_all add: p1_def)
      moreover have "c < c \<longrightarrow> po_idleQ p @ new = []" "c \<le> c" "0 \<le> po_counter p + int (length new)" using a(1) by simp_all
      moreover have "po_state p \<noteq> Pool_FullLoad \<longrightarrow> po_idleQ p @ new \<noteq> []" using cc_betweenD(6) [OF assms(1)] by auto
      moreover have "fifo_ok (po_nrs p)" "csp_depth (po_ext p) = int (length (fifo_Q (po_nrs p)))"
        "csp_uc (po_ext p) = int (length (po_busy p))" "csp_congested (po_ext p) \<longleftrightarrow> csp_depth (po_ext p) \<ge> cq"
        "po_state p \<in> {Pool_Idle, Pool_Run, Pool_FullLoad}" "po_state p = Pool_Run \<longrightarrow> po_run p"
        "po_state p = Pool_Idle \<longrightarrow> \<not> po_run p \<and> fifo_Q (po_nrs p) = []"
        using assms(1) unfolding cc_between_def by blast+
      moreover have sel: "po_nrs p2 = po_nrs p" "po_ext p2 = po_ext p" "po_busy p2 = po_busy p" "po_idleQ p2 = po_idleQ p @ new"
        "po_idle p2 = po_idle p + int (length new)" "po_rnum p2 = c" "po_num p2 = c" "po_counter p2 = po_counter p + int (length new)"
        "po_run p2 = po_run p" "po_state p2 = po_state p" if "p2 = grow_pool c p1" for p2
        unfolding that n(1) by (simp_all add: p1_def)
      ultimately show ?thesis
        unfolding cc_between_def sel [OF refl] using assms(2) by (intro conjI) assumption+
    qed
    ultimately show ?thesis unfolding n(1) by (auto simp: p1_def)
  qed
qed

lemma cc_done:
  assumes "cc_ok cq p" "t \<in> set (map fst (po_busy p))" "c > 0"
  shows "\<exists>m p'. map_of (po_busy p) t = Some m \<and> CC_TaskCompletion False t c p = Inr p' \<and> cc_ok cq p'
    \<and> cc_pending p = add_mset m (cc_pending p')"
proof -
  have "distinct (map fst (po_busy p))" using cc_coreD(5) [OF cc_okD(1) [OF assms(1)]] by simp
  from img_fst_iff [OF this assms(2)]
  obtain m xs ys where b: "map_of (po_busy p) t = Some m" "po_busy p = xs @ (t, m) # ys"
    "filter (\<lambda>(x, _). x \<noteq> t) (po_busy p) = xs @ ys"
    by (elim exE conjE)
  define p1 where "p1 = p\<lparr>po_busy := xs @ ys, po_ext := po_ext p\<lparr>csp_uc := csp_uc (po_ext p) - 1, csp_rcc := c\<rparr>\<rparr>"
  have "cc_between cq t p1"
  proof -
    note d = cc_coreD [OF cc_okD(1) [OF assms(1)]] and o = cc_okD(2-) [OF assms(1)]
    have sel: "po_nrs p1 = po_nrs p" "csp_depth (po_ext p1) = csp_depth (po_ext p)" "csp_uc (po_ext p1) = csp_uc (po_ext p) - 1"
      "csp_congested (po_ext p1) = csp_congested (po_ext p)" "po_busy p1 = xs @ ys" "po_idleQ p1 = po_idleQ p"
      "po_idle p1 = po_idle p" "po_rnum p1 = po_rnum p" "po_num p1 = po_num p" "po_counter p1 = po_counter p"
      "po_run p1 = po_run p" "po_state p1 = po_state p"
      by (simp_all add: p1_def)
    have "csp_uc (po_ext p) - 1 = int (length (xs @ ys))" "po_rnum p = int (length (po_idleQ p) + length (xs @ ys)) + 1"
      using d(3,7) b(2) by simp_all
    moreover have "distinct (t # po_idleQ p @ map fst (xs @ ys))" using d(5) unfolding b(2) by auto
    moreover have "\<forall>x \<in> set (t # po_idleQ p @ map fst (xs @ ys)). int x < po_counter p" using d(8) unfolding b(2) by auto
    ultimately show ?thesis
      unfolding cc_between_def sel using d o by (intro conjI; (assumption | blast))
  qed
  then obtain p2 where p2: "AdjustThreadPool c False p1 = Inr p2" "cc_between cq t p2" "po_num p2 = c"
    "po_ext p2 = po_ext p1" "po_nrs p2 = po_nrs p" "po_busy p2 = xs @ ys"
    using adjust_between [OF _ assms(3), of cq t p1] by (auto simp: p1_def)
  define p3 where "p3 = (if po_rnum p2 > po_num p2 then p2\<lparr>po_rnum := po_rnum p2 - 1\<rparr>
                            else p2\<lparr>po_idleQ := po_idleQ p2 @ [t], po_idle := po_idle p2 + 1\<rparr>)"
  have u: "csp_uc (po_ext p) - 1 \<ge> 0" using assms(1) b(2) by (simp add: cc_ok_def)
  have e: "CC_TaskCompletion False t c p = (if \<not> po_run p3 \<and> po_idle p3 > 0 \<and> po_state p3 = Pool_FullLoad
                     then (case pool_Signal p3 of Inl e \<Rightarrow> Inl e | Inr p4 \<Rightarrow> Inr (p4\<lparr>po_state := Pool_Run\<rparr>))
                     else Inr p3)"
    using p2(1,3,4) u b(1,3) unfolding CC_TaskCompletion_def Let_def p3_def
    by (simp add: p1_def)
  note d = cc_betweenD [OF p2(2)]
  have c3: "cc_core cq p3"
    using p2(2) unfolding cc_between_def cc_core_def p3_def by auto
  have s3: "po_state p3 = po_state p2" "po_run p3 = po_run p2" "po_nrs p3 = po_nrs p" "po_busy p3 = xs @ ys"
    "po_state p2 \<noteq> Pool_FullLoad \<Longrightarrow> po_idleQ p3 \<noteq> []"
    using p2(5,6) d(6) by (simp_all add: p3_def)
  have s2: "po_state p2 \<in> {Pool_Idle, Pool_Run, Pool_FullLoad}"
    "po_state p2 = Pool_Run \<Longrightarrow> po_run p2" "po_state p2 = Pool_Idle \<Longrightarrow> \<not> po_run p2 \<and> fifo_Q (po_nrs p) = []"
    using p2(2,5) unfolding cc_between_def by simp_all
  have "\<exists>p'. CC_TaskCompletion False t c p = Inr p' \<and> cc_ok cq p' \<and> po_nrs p' = po_nrs p \<and> po_busy p' = xs @ ys"
  proof (cases "\<not> po_run p3 \<and> po_idle p3 > 0 \<and> po_state p3 = Pool_FullLoad")
    case True
    define p4 where "p4 = p3\<lparr>po_run := True, po_state := Pool_Run\<rparr>"
    have "cc_core cq p4" unfolding p4_def by (rule cc_core_frame(2) [OF cc_core_frame(1) [OF c3]])
    moreover have "po_idleQ p4 \<noteq> []" using True cc_coreD(2) [OF c3] by (auto simp: p4_def)
    ultimately have "cc_ok cq p4" by (simp add: cc_ok_core) (simp add: p4_def)
    moreover have "CC_TaskCompletion False t c p = Inr p4" using e True by (simp add: pool_Signal_def p4_def)
    ultimately show ?thesis using s3(3,4) by (simp add: p4_def)
  next
    case False
    then have "CC_TaskCompletion False t c p = Inr p3" using e by argo
    moreover have "cc_ok cq p3" unfolding cc_ok_core using c3 s2 s3(1-3,5) by simp
    ultimately show ?thesis using s3(3,4) by simp
  qed
  then show ?thesis using b(1,2) by auto
qed

lemma cc_task:
  assumes "cc_ok cq p" "length (fifo_Q (po_nrs p)) + 1 < 2 ^ 64"
  shows "CC_AddNewTask cq m p = Inl Client_assertion \<or>
    (\<exists>p'. CC_AddNewTask cq m p = Inr p' \<and> cc_ok cq p' \<and> cc_pending p' = add_mset m (cc_pending p))"
proof -
  consider "CC_AddNewTask cq m p = Inl Client_assertion"
    | z where "CC_AddNewTask cq m p = Processor_AddNewTask fifo_ops m (p\<lparr>po_ext := z\<rparr>)" "csp_depth z = csp_depth (po_ext p) + 1"
        "csp_uc z = csp_uc (po_ext p)" "csp_congested z \<longleftrightarrow> csp_depth z \<ge> cq"
    using check_cases [of cq "po_ext p\<lparr>csp_depth := csp_depth (po_ext p) + 1\<rparr>"]
    unfolding CC_AddNewTask_def by fastforce
  then show ?thesis
  proof cases
    case (2 z)
    define p1 where "p1 = p\<lparr>po_ext := z, po_nrs := NrsFifo_Enqueue m (po_nrs p)\<rparr>"
    have "fifo_ok (NrsFifo_Enqueue m (po_nrs p))"
      using assms by (intro fifo_enq(1)) (simp_all add: cc_ok_def fifo_fits_def fifo_bag_def)
    then have c: "cc_core cq p1"
      using assms(1) 2 by (auto simp: cc_ok_core cc_core_def p1_def sched_simps)
    have e: "CC_AddNewTask cq m p = pool_Wakeup p1"
      unfolding 2(1) using assms(1)
      by (auto simp: Processor_AddNewTask_def Let_def p1_def pool_Wakeup_def cc_ok_def)
    have s: "po_state p1 = po_state p" "po_idleQ p1 = po_idleQ p" "po_run p1 = po_run p" by (simp_all add: p1_def)
    have q: "cc_pending p1 = add_mset m (cc_pending p)" by (simp add: p1_def sched_simps)
    show ?thesis
    proof (cases "po_state p = Pool_Idle")
      case True
      then have "po_idle p1 > 0" "\<not> po_run p1"
        using True s cc_okD(3,5) [OF assms(1)] cc_coreD(2) [OF c] by simp_all
      then have "pool_Wakeup p1 = Inr (p1\<lparr>po_run := True, po_state := Pool_Run\<rparr>)"
        using True s by (simp add: pool_Wakeup_def pool_Signal_def)
      moreover have "cc_ok cq (p1\<lparr>po_run := True, po_state := Pool_Run\<rparr>)"
        using cc_core_frame [OF cc_core_frame(1) [OF c]] cc_okD(3) [OF assms(1)] True s by (simp add: cc_ok_core)
      ultimately show ?thesis using e q by simp
    next
      case False
      then have "pool_Wakeup p1 = Inr p1" "cc_ok cq p1"
        using cc_okD(2-4) [OF assms(1)] c s by (simp_all add: pool_Wakeup_def cc_ok_core)
      then show ?thesis using e q by simp
    qed
  qed simp
qed

lemma cc_step_ok:
  assumes "cc_ok cq p" "cc_possible e p" "length (fifo_Q (po_nrs p)) + length (cc_tasks [e]) < 2 ^ 64"
  shows "cc_step cq e p = Inl Client_assertion \<or>
    (\<exists>out p'. cc_step cq e p = Inr (out, p') \<and> cc_ok cq p'
       \<and> cc_pending p + mset (cc_tasks [e]) = cc_pending p' + mset out)"
proof (cases e)
  case (Ce_task m)
  then show ?thesis using cc_task [OF assms(1), of m] assms(3) by auto
next
  case Ce_manager
  define p1 where "p1 = p\<lparr>po_run := False\<rparr>"
  have r: "po_run p" using assms(2) Ce_manager by simp
  have "cc_core cq p1" "\<not> po_run p1" "po_state p1 \<in> {Pool_Run, Pool_FullLoad}" "po_state p1 = Pool_Run \<longrightarrow> po_idleQ p1 \<noteq> []"
    using assms(1) r by (auto simp: cc_ok_core cc_core_def p1_def)
  from cc_manager [OF this] show ?thesis using Ce_manager r by (auto simp: ThreadPoolManger_def p1_def)
next
  case (Ce_done t c)
  then show ?thesis using cc_done [OF assms(1), of t c] assms(2) by auto
next
  case (Ce_user u)
  then show ?thesis using assms(1) by (simp add: cl_user_event_def Let_def cc_ok_def)
qed

lemma cc_steps_ok:
  assumes "cc_ok cq p" "cc_trace cq es p" "size (cc_pending p) + length (cc_tasks es) < 2 ^ 64"
  shows "cc_steps cq es p = Inl Client_assertion \<or>
    (\<exists>out p'. cc_steps cq es p = Inr (out, p') \<and> cc_ok cq p'
       \<and> cc_pending p + mset (cc_tasks es) = cc_pending p' + mset out)"
  using assms
proof (induction es arbitrary: p)
  case (Cons e es)
  have l: "length (cc_tasks (e # es)) = length (cc_tasks [e]) + length (cc_tasks es)"
    "mset (cc_tasks (e # es)) = mset (cc_tasks [e]) + mset (cc_tasks es)"
    by (cases e; simp)+
  show ?case
  proof (cases "cc_step cq e p = Inl Client_assertion")
    case False
    moreover have "length (fifo_Q (po_nrs p)) + length (cc_tasks [e]) < 2 ^ 64"
      using Cons.prems(3) l(1) by simp
    ultimately obtain o1 p1 where s: "cc_step cq e p = Inr (o1, p1)" "cc_ok cq p1"
        "cc_pending p + mset (cc_tasks [e]) = cc_pending p1 + mset o1"
      using cc_step_ok [OF Cons.prems(1), of e] Cons.prems(2,3) l(1) by auto
    have "size (cc_pending p) + length (cc_tasks [e]) = size (cc_pending p1) + length o1"
      using arg_cong [OF s(3), of size] by simp
    then have "size (cc_pending p1) + length (cc_tasks es) < 2 ^ 64" using Cons.prems(3) l(1) by simp
    then consider "cc_steps cq es p1 = Inl Client_assertion"
      | o2 p2 where "cc_steps cq es p1 = Inr (o2, p2)" "cc_ok cq p2"
        "cc_pending p1 + mset (cc_tasks es) = cc_pending p2 + mset o2"
      using Cons.IH [OF s(2)] Cons.prems(2) s(1) by auto
    then show ?thesis
    proof cases
      case 2
      have "cc_pending p + mset (cc_tasks (e # es)) = cc_pending p2 + mset (o1 @ o2)"
        using multi_chain [OF s(3) 2(3)] l(2) by simp
      then show ?thesis using s(1) 2 by simp
    qed (use s(1) in simp)
  qed simp
qed simp

lemma cc_start_ok:
  assumes "0 < n" "0 < cq" "cc_started u n = Inr p0"
  shows "\<exists>p. cc_step cq Ce_manager p0 = Inr ([], p) \<and> cc_ok cq p \<and> cc_pending p = {#}"
proof -
  define p where "p = p0\<lparr>po_state := Pool_Idle, po_run := False\<rparr>"
  have p0: "p0 = \<lparr>po_nrs = NrsFifo_new, po_idleQ = [0..<n], po_idle = int n, po_num = int n, po_rnum = int n,
    po_counter = int n, po_state = Pool_Start, po_run = True, po_busy = [],
    po_ext = \<lparr>csp_depth = 0, csp_rcc = 0, csp_uc = 0, csp_state = User_First, csp_congested = False,
      csp_rpc = (\<lambda>_. (0, 0)), cl_state = u, cl_oldstate = u, cl_user_run = False\<rparr>\<rparr>"
    using assms(1,3) by (simp add: cc_started_def Processor_Start_def InitThreadPool_def Processor_Attach_def
        CongestController_new_def Processor_new_def)
  have "cc_step cq Ce_manager p0 = Inr ([], p)"
    by (simp add: p_def p0 ThreadPoolManger_def PoolStateMachine.simps)
  moreover have "cc_ok cq p" "cc_pending p = {#}"
    using assms(1,2) by (simp_all add: p_def p0 cc_ok_def NrsFifo_new_def fifo_ok_def)
  ultimately show ?thesis by blast
qed

section \<open>Properties\<close>

text \<open>C12 The counters of the congestion controller are what they count.  For
  any possible events from the start of the controller, either the check of
  the client's state fails, or no assertion does and then: every request
  submitted is done, in flight or queued; CSP.depth is the length of the
  queue, CSP.uc the number of requests in flight; the application is held back
  exactly when the queue has reached CQmax; and a thread is free for a request
  only while fewer requests are in flight than the servers have granted.\<close>
theorem congest_counters:
  assumes "0 < n" "0 < cq" "cc_started u n = Inr p0" "cc_trace cq (Ce_manager # es) p0"
    "length (cc_tasks es) < 2 ^ 64"
  shows "cc_steps cq (Ce_manager # es) p0 = Inl Client_assertion \<or>
    (\<exists>out p. cc_steps cq (Ce_manager # es) p0 = Inr (out, p)
       \<and> mset (cc_tasks es) = mset out + mset (map snd (po_busy p)) + mset (fifo_Q (po_nrs p))
       \<and> csp_depth (po_ext p) = int (length (fifo_Q (po_nrs p))) \<and> csp_uc (po_ext p) = int (length (po_busy p))
       \<and> (csp_congested (po_ext p) \<longleftrightarrow> int (length (fifo_Q (po_nrs p))) \<ge> cq)
       \<and> (po_idleQ p \<noteq> [] \<longrightarrow> int (length (po_busy p)) < po_num p))"
proof -
  obtain p1 where p1: "cc_step cq Ce_manager p0 = Inr ([], p1)" "cc_ok cq p1" "cc_pending p1 = {#}"
    using cc_start_ok [OF assms(1-3)] by blast
  have t: "cc_trace cq es p1" using assms(4) p1(1) by simp
  have "size (cc_pending p1) + length (cc_tasks es) < 2 ^ 64" unfolding p1(3) using assms(5) by simp
  from cc_steps_ok [OF p1(2) t this] show ?thesis
  proof (elim disjE exE conjE)
    fix out p
    assume r: "cc_steps cq es p1 = Inr (out, p)" "cc_ok cq p"
      "cc_pending p1 + mset (cc_tasks es) = cc_pending p + mset out"
    note d = cc_coreD [OF cc_okD(1) [OF r(2)]]
    have "mset (cc_tasks es) = mset out + mset (map snd (po_busy p)) + mset (fifo_Q (po_nrs p))"
      using r(3) unfolding p1(3) by (simp add: ac_simps)
    moreover have "po_idleQ p \<noteq> [] \<longrightarrow> int (length (po_busy p)) < po_num p"
      using d(3,6) by (cases "po_idleQ p") auto
    ultimately show ?thesis using r(1) p1(1) d(7,11,12) by simp
  qed (use p1(1) in simp)
qed

lemma congest_counters_witness:
  "\<exists>p0 out p. cc_started User_WriteXfer 2 = Inr p0
     \<and> cc_steps 1 [Ce_manager, Ce_task (1 :: nat), Ce_manager, Ce_user User_WriteXfer, Ce_task 2, Ce_done 0 3] p0 = Inr (out, p)
     \<and> csp_depth (po_ext p) = int (length (fifo_Q (po_nrs p)))"
proof -
  define es where "es = [Ce_task (1 :: nat), Ce_manager, Ce_user User_WriteXfer, Ce_task 2, Ce_done 0 3]"
  have a: "case cc_started User_WriteXfer 2 of Inl _ \<Rightarrow> False | Inr p \<Rightarrow>
      cc_trace 1 [Ce_manager, Ce_task (1 :: nat), Ce_manager, Ce_user User_WriteXfer, Ce_task 2, Ce_done 0 3] p
      \<and> \<not> isl (cc_steps 1 [Ce_manager, Ce_task (1 :: nat), Ce_manager, Ce_user User_WriteXfer, Ce_task 2, Ce_done 0 3] p)"
    by code_simp
  then obtain p0 where p0: "cc_started User_WriteXfer 2 = Inr p0" "cc_trace 1 (Ce_manager # es) p0"
    "\<not> isl (cc_steps 1 (Ce_manager # es) p0)"
    by (auto simp: es_def split: sum.splits)
  moreover have "length (cc_tasks es) < 2 ^ 64" by (simp add: es_def)
  ultimately show ?thesis
    using congest_counters [of 2 1 User_WriteXfer p0 es] unfolding es_def by auto
qed

text \<open>A pool in the state FullLoad with no event armed and nothing at work
  stays so whatever arrives.\<close>

definition cc_stuck :: "'m congest \<Rightarrow> bool" where
  "cc_stuck p \<longleftrightarrow> po_state p = Pool_FullLoad \<and> \<not> po_run p \<and> po_busy p = []
     \<and> csp_congested (po_ext p) \<and> csp_depth (po_ext p) \<ge> 1"

lemma stuck_tasks:
  assumes "cc_stuck p"
  shows "\<exists>p'. cc_steps 1 (map Ce_task ms) p = Inr ([], p') \<and> cc_stuck p' \<and> po_idleQ p' = po_idleQ p
    \<and> fifo_Q (po_nrs p') = rev ms @ fifo_Q (po_nrs p)"
  using assms
proof (induction ms arbitrary: p)
  case (Cons m ms)
  define p1 where "p1 = p\<lparr>po_ext := po_ext p\<lparr>csp_depth := csp_depth (po_ext p) + 1\<rparr>, po_nrs := NrsFifo_Enqueue m (po_nrs p)\<rparr>"
  have "cc_step 1 (Ce_task m) p = Inr ([], p1)"
    using Cons.prems by (simp add: cc_stuck_def CC_AddNewTask_def CheckIoCongestion_def Processor_AddNewTask_def Let_def p1_def)
  moreover have "cc_stuck p1" using Cons.prems by (simp add: cc_stuck_def p1_def)
  ultimately show ?case using Cons.IH [of p1] by (auto simp: p1_def sched_simps)
qed simp

text \<open>C34 The controller can lock up for ever.  With two threads, a request at
  work, one that has just arrived (so that the manager thread is armed) and a
  reply that grants one credit, the idle thread is removed, the pool goes to
  the state FullLoad, the thread that ends its task becomes idle without a
  signal, and the armed event does nothing.  From then on no event is armed,
  no request is at work, and no later request changes that: all stay queued,
  with a thread idle.\<close>
theorem congest_pool_locks_up:
  assumes "cc_started u 2 = Inr p0" "u \<noteq> User_IoCongest"
  shows "\<exists>p. cc_steps 1 ([Ce_manager, Ce_task a, Ce_manager, Ce_user u, Ce_task b, Ce_done 0 1, Ce_manager] @ map Ce_task ms) p0
       = Inr ([a], p)
     \<and> po_idleQ p = [0] \<and> po_busy p = [] \<and> \<not> po_run p \<and> po_state p = Pool_FullLoad \<and> fifo_Q (po_nrs p) = rev ms @ [b]"
proof -
  have p0: "p0 = \<lparr>po_nrs = NrsFifo_new, po_idleQ = [0, 1], po_idle = 2, po_num = 2, po_rnum = 2,
    po_counter = 2, po_state = Pool_Start, po_run = True, po_busy = [],
    po_ext = \<lparr>csp_depth = 0, csp_rcc = 0, csp_uc = 0, csp_state = User_First, csp_congested = False,
      csp_rpc = (\<lambda>_. (0, 0)), cl_state = u, cl_oldstate = u, cl_user_run = False\<rparr>\<rparr>"
    using assms(1) by (simp add: cc_started_def Processor_Start_def InitThreadPool_def Processor_Attach_def
        CongestController_new_def Processor_new_def upt_rec)
  have "\<exists>p. cc_steps 1 [Ce_manager, Ce_task a, Ce_manager, Ce_user u, Ce_task b, Ce_done 0 1, Ce_manager] p0 = Inr ([a], p)
     \<and> cc_stuck p \<and> po_idleQ p = [0] \<and> fifo_Q (po_nrs p) = [b]"
    unfolding p0 using assms(2)
    by (simp add: ThreadPoolManger_def PoolStateMachine.simps CC_AddNewTask_def
        CheckIoCongestion_def SetIoCongestFlag_def ClearIoCongestFlag_def Processor_AddNewTask_def pool_Wakeup_def
        pool_Signal_def Let_def NextIdleThreadFromPool_def CC_RunOneTask_def cl_user_event_def CC_TaskCompletion_def
        AdjustThreadPool_def shrink_pool.simps cc_stuck_def NrsFifo_new_def sched_simps)
  then obtain p where p: "cc_steps 1 [Ce_manager, Ce_task a, Ce_manager, Ce_user u, Ce_task b, Ce_done 0 1, Ce_manager] p0 = Inr ([a], p)"
    "cc_stuck p" "po_idleQ p = [0]" "fifo_Q (po_nrs p) = [b]"
    by blast
  then show ?thesis
    using stuck_tasks [OF p(2), of ms] cc_steps_append [OF p(1)] p(3,4) by (fastforce simp: cc_stuck_def)
qed

lemma congest_pool_locks_up_witness:
  "\<exists>p0 p. cc_started User_WriteXfer 2 = Inr p0
     \<and> cc_steps 1 ([Ce_manager, Ce_task (1 :: nat), Ce_manager, Ce_user User_WriteXfer, Ce_task 2, Ce_done 0 1, Ce_manager]
         @ map Ce_task [3, 4]) p0 = Inr ([1], p)
     \<and> \<not> po_run p \<and> fifo_Q (po_nrs p) = [4, 3, 2]"
proof -
  obtain p0 :: "nat congest" where p0: "cc_started User_WriteXfer 2 = Inr p0"
    by (simp add: cc_started_def Processor_Start_def InitThreadPool_def Processor_Attach_def
        CongestController_new_def Processor_new_def)
  then show ?thesis using congest_pool_locks_up [of User_WriteXfer p0 1 2 "[3, 4]"] by auto
qed

end
