(* ===== verification/CfsHashOk.thy ===== *)
theory CfsHashOk
  imports CfsHash
begin

text \<open>
  The invariant of the hash tables of CfsHash: each item is on the chain of its
  key and on no other, depths, tails and counters are right; its preservation
  by every operation, a resize included; and the map a table with unique keys
  implements.
\<close>

section \<open>Chains\<close>

definition head_ok :: "('k, 'i) cfs_hash \<Rightarrow> 'i hhead \<Rightarrow> bool" where
  "head_ok hs h \<longleftrightarrow> distinct (hh_list h)
     \<and> (cfs_hash_with_depth hs \<longrightarrow> hd_depth h = of_nat (length (hh_list h)))
     \<and> (cfs_hash_with_add_tail hs \<longrightarrow> dh_tail h = (if hh_list h = [] then None else Some (last (hh_list h))))"

lemma add_behind_last: "distinct l \<Longrightarrow> l \<noteq> [] \<Longrightarrow> hlist_add_behind x (last l) l = l @ [x]"
  by (induction l) auto

lemmas hop_defs = hop_hnode_add_def hop_hnode_del_def
  cfs_hash_hh_hnode_add_def cfs_hash_hd_hnode_add_def cfs_hash_dh_hnode_add_def cfs_hash_dd_hnode_add_def
  cfs_hash_hh_hnode_del_def cfs_hash_hd_hnode_del_def cfs_hash_dh_hnode_del_def cfs_hash_dd_hnode_del_def

lemma hop_add:
  assumes "head_ok hs h" "x \<notin> set (hh_list h)"
  shows "head_ok hs (snd (hop_hnode_add hs x h))"
    "set (hh_list (snd (hop_hnode_add hs x h))) = insert x (set (hh_list h))"
    "length (hh_list (snd (hop_hnode_add hs x h))) = Suc (length (hh_list h))"
proof -
  have l: "hh_list (snd (hop_hnode_add hs x h)) = (if cfs_hash_with_add_tail hs then hh_list h @ [x] else x # hh_list h)"
    using assms by (auto simp: hop_defs dh_add_list_def head_ok_def add_behind_last)
  moreover have "cfs_hash_with_depth hs \<Longrightarrow> hd_depth (snd (hop_hnode_add hs x h)) = hd_depth h + 1"
    "cfs_hash_with_add_tail hs \<Longrightarrow> dh_tail (snd (hop_hnode_add hs x h)) = Some x"
    by (simp_all add: hop_defs)
  ultimately show "head_ok hs (snd (hop_hnode_add hs x h))"
    "set (hh_list (snd (hop_hnode_add hs x h))) = insert x (set (hh_list h))"
    "length (hh_list (snd (hop_hnode_add hs x h))) = Suc (length (hh_list h))"
    using assms by (auto simp: head_ok_def add.commute)
qed

lemma del_tail:
  assumes "distinct l" "x \<in> set l" "l = hh_list h" "dh_tail h = Some (last l)"
  shows "dh_del_tail x h = (if remove1 x l = [] then None else Some (last (remove1 x l)))"
proof -
  obtain ys y where l: "l = ys @ [y]" using assms(2) by (metis empty_iff empty_set rev_exhaust)
  show ?thesis
  proof (cases "y = x")
    case True
    then have r: "remove1 x l = ys" using assms(1) l by (simp add: remove1_append)
    show ?thesis
    proof (cases ys rule: rev_cases)
      case Nil
      then show ?thesis using True l r assms(3) by (simp add: dh_del_tail_def)
    next
      case (snoc zs z)
      then show ?thesis using True l r assms(3) [symmetric] by (simp add: dh_del_tail_def)
    qed
  next
    case False
    then have "x \<in> set ys" using assms(2) l by simp
    then have "remove1 x l = remove1 x ys @ [y]" using l by (simp add: remove1_append)
    then show ?thesis using False l assms(3,4) by (simp add: dh_del_tail_def)
  qed
qed

lemma hop_del:
  assumes "head_ok hs h" "x \<in> set (hh_list h)"
  shows "head_ok hs (hop_hnode_del hs x h)"
    "set (hh_list (hop_hnode_del hs x h)) = set (hh_list h) - {x}"
    "Suc (length (hh_list (hop_hnode_del hs x h))) = length (hh_list h)"
proof -
  have l: "hh_list (hop_hnode_del hs x h) = remove1 x (hh_list h)" by (simp add: hop_defs)
  have d: "distinct (hh_list h)" using assms(1) by (simp add: head_ok_def)
  have n: "Suc (length (remove1 x (hh_list h))) = length (hh_list h)"
    using assms(2) length_pos_if_in_set by (fastforce simp: length_remove1)
  show "set (hh_list (hop_hnode_del hs x h)) = set (hh_list h) - {x}"
    "Suc (length (hh_list (hop_hnode_del hs x h))) = length (hh_list h)"
    using d n by (simp_all add: l)
  have "(of_nat (length (hh_list h)) :: u32) = of_nat (length (remove1 x (hh_list h))) + 1"
    unfolding n [symmetric] by simp
  moreover have "cfs_hash_with_add_tail hs \<Longrightarrow> dh_tail (hop_hnode_del hs x h)
      = (if remove1 x (hh_list h) = [] then None else Some (last (remove1 x (hh_list h))))"
  proof -
    assume t: "cfs_hash_with_add_tail hs"
    then have "dh_tail h = Some (last (hh_list h))" using assms by (auto simp: head_ok_def)
    from del_tail [OF d assms(2) refl this] show ?thesis using t by (simp add: hop_defs)
  qed
  moreover have "cfs_hash_with_depth hs \<Longrightarrow> hd_depth (hop_hnode_del hs x h) = hd_depth h - 1"
    by (simp add: hop_defs)
  ultimately show "head_ok hs (hop_hnode_del hs x h)"
    using d assms(1) by (simp add: head_ok_def l)
qed

section \<open>Buckets\<close>

definition bkt_len :: "nat \<Rightarrow> 'i hbucket \<Rightarrow> nat" where
  "bkt_len m k = (\<Sum>off<m. length (hh_list (hsb_head k off)))"

definition bkt_ok :: "('k, 'i) cfs_hash \<Rightarrow> 'i hbucket \<Rightarrow> bool" where
  "bkt_ok hs k \<longleftrightarrow> (\<forall>off < CFS_HASH_BKT_NHLIST hs. head_ok hs (hsb_head k off))
     \<and> hsb_count k = of_nat (bkt_len (CFS_HASH_BKT_NHLIST hs) k)"

definition bkt_add :: "('k, 'i) cfs_hash \<Rightarrow> nat \<Rightarrow> 'i \<Rightarrow> 'i hbucket \<Rightarrow> 'i hbucket" where
  "bkt_add hs off x k0 = (let k = bkt_hnode_add hs off x k0 in
     k\<lparr>hsb_version := next_version (hsb_version k), hsb_count := hsb_count k + 1\<rparr>)"

definition bkt_del :: "('k, 'i) cfs_hash \<Rightarrow> nat \<Rightarrow> 'i \<Rightarrow> 'i hbucket \<Rightarrow> 'i hbucket" where
  "bkt_del hs off x k0 = (let k = bkt_hnode_del hs off x k0 in
     k\<lparr>hsb_count := hsb_count k - 1, hsb_version := next_version (hsb_version k)\<rparr>)"

lemma bkt_len_upd:
  assumes "off < m"
  shows "bkt_len m (k\<lparr>hsb_head := (hsb_head k)(off := h)\<rparr>) + length (hh_list (hsb_head k off))
    = bkt_len m k + length (hh_list h)"
proof -
  have f: "finite {..<m}" "off \<in> {..<m}" using assms by simp_all
  show ?thesis
    unfolding bkt_len_def using sum.remove [OF f] by (simp add: sum.remove [OF f])
qed

lemma bkt_head_simps [simp]:
  "hsb_head (cfs_hash_bd_dep_record d k) = hsb_head k" "hsb_count (cfs_hash_bd_dep_record d k) = hsb_count k"
  "bkt_len m (k\<lparr>hsb_count := c\<rparr>) = bkt_len m k" "bkt_len m (k\<lparr>hsb_version := v\<rparr>) = bkt_len m k"
  "bkt_len m (cfs_hash_bd_dep_record d k) = bkt_len m k"
  by (simp_all add: cfs_hash_bd_dep_record_def bkt_len_def)

lemma bkt_add_simps:
  "hsb_head (bkt_add hs off x k) = (hsb_head k)(off := snd (hop_hnode_add hs x (hsb_head k off)))"
  "hsb_count (bkt_add hs off x k) = hsb_count k + 1"
  "hsb_head (bkt_del hs off x k) = (hsb_head k)(off := hop_hnode_del hs x (hsb_head k off))"
  "hsb_count (bkt_del hs off x k) = hsb_count k - 1"
  by (simp_all add: bkt_add_def bkt_del_def Let_def bkt_hnode_add_def bkt_hnode_del_def split: prod.splits)

lemma bkt_len_head: "hsb_head k' = (hsb_head k)(off := h) \<Longrightarrow> off < m \<Longrightarrow>
    bkt_len m k' + length (hh_list (hsb_head k off)) = bkt_len m k + length (hh_list h)"
  using bkt_len_upd [of off m k h] by (simp add: bkt_len_def)

lemma bkt_add_ok:
  assumes "bkt_ok hs k" "off < CFS_HASH_BKT_NHLIST hs" "x \<notin> set (hh_list (hsb_head k off))"
  shows "bkt_ok hs (bkt_add hs off x k)" "bkt_len (CFS_HASH_BKT_NHLIST hs) (bkt_add hs off x k) = Suc (bkt_len (CFS_HASH_BKT_NHLIST hs) k)"
proof -
  have h: "head_ok hs (hsb_head k off)" using assms(1,2) by (simp add: bkt_ok_def)
  show l: "bkt_len (CFS_HASH_BKT_NHLIST hs) (bkt_add hs off x k) = Suc (bkt_len (CFS_HASH_BKT_NHLIST hs) k)"
    using bkt_len_head [OF bkt_add_simps(1) assms(2), of hs x k] hop_add(3) [OF h assms(3)] by simp
  show "bkt_ok hs (bkt_add hs off x k)"
    using assms(1) hop_add(1) [OF h assms(3)] by (simp add: bkt_ok_def bkt_add_simps l)
qed

lemma bkt_del_ok:
  assumes "bkt_ok hs k" "off < CFS_HASH_BKT_NHLIST hs" "x \<in> set (hh_list (hsb_head k off))"
  shows "bkt_ok hs (bkt_del hs off x k)" "Suc (bkt_len (CFS_HASH_BKT_NHLIST hs) (bkt_del hs off x k)) = bkt_len (CFS_HASH_BKT_NHLIST hs) k"
proof -
  have h: "head_ok hs (hsb_head k off)" using assms(1,2) by (simp add: bkt_ok_def)
  show l: "Suc (bkt_len (CFS_HASH_BKT_NHLIST hs) (bkt_del hs off x k)) = bkt_len (CFS_HASH_BKT_NHLIST hs) k"
    using bkt_len_head [OF bkt_add_simps(3) assms(2), of hs x k] hop_del(3) [OF h assms(3)] by simp
  have "(of_nat (bkt_len (CFS_HASH_BKT_NHLIST hs) k) :: u32) = of_nat (bkt_len (CFS_HASH_BKT_NHLIST hs) (bkt_del hs off x k)) + 1"
    unfolding l [symmetric] by simp
  then show "bkt_ok hs (bkt_del hs off x k)"
    using assms(1) hop_del(1) [OF h assms(3)] by (simp add: bkt_ok_def bkt_add_simps)
qed

section \<open>Tables\<close>

text \<open>The fields no chain operation touches.\<close>

definition same_table :: "('k, 'i) cfs_hash \<Rightarrow> ('k, 'i) cfs_hash \<Rightarrow> bool" where
  "same_table hs hs' \<longleftrightarrow> hs_flags hs' = hs_flags hs \<and> hs_iterating hs' = hs_iterating hs \<and> hs_exiting hs' = hs_exiting hs
     \<and> hs_cur_bits hs' = hs_cur_bits hs \<and> hs_min_bits hs' = hs_min_bits hs \<and> hs_max_bits hs' = hs_max_bits hs
     \<and> hs_rehash_bits hs' = hs_rehash_bits hs \<and> hs_bkt_bits hs' = hs_bkt_bits hs
     \<and> hs_min_theta hs' = hs_min_theta hs \<and> hs_max_theta hs' = hs_max_theta hs \<and> hs_iterators hs' = hs_iterators hs
     \<and> hs_rehash_tbl hs' = hs_rehash_tbl hs \<and> hs_keys hs' = hs_keys hs \<and> hs_refcount hs' = hs_refcount hs"

lemma same_table_trans: "same_table a b \<Longrightarrow> same_table b c \<Longrightarrow> same_table a c"
  by (simp add: same_table_def)

lemmas flag_defs = cfs_hash_with_no_lock_def cfs_hash_with_no_bktlock_def cfs_hash_with_rw_bktlock_def
  cfs_hash_with_spin_bktlock_def cfs_hash_with_add_tail_def cfs_hash_with_no_itemref_def cfs_hash_with_counter_def
  cfs_hash_with_rehash_def cfs_hash_with_shrink_def cfs_hash_with_assert_empty_def cfs_hash_with_depth_def
  cfs_hash_is_rehashing_def cfs_hash_is_iterating_def CFS_HASH_NBKT_def CFS_HASH_RH_NBKT_def CFS_HASH_BKT_NHLIST_def

text \<open>\<open>n\<close> buckets in use: they are right, and an item is on one chain at most.\<close>

definition in_table :: "nat \<Rightarrow> ('k, 'i) cfs_hash \<Rightarrow> hs_bd \<Rightarrow> bool" where
  "in_table n hs bd \<longleftrightarrow> fst bd < n \<and> snd bd < CFS_HASH_BKT_NHLIST hs"

definition table_ok :: "nat \<Rightarrow> ('k, 'i) cfs_hash \<Rightarrow> bool" where
  "table_ok n hs \<longleftrightarrow> (\<forall>b<n. bkt_ok hs (hs_buckets hs b))
     \<and> (\<forall>bd bd' x. in_table n hs bd \<longrightarrow> in_table n hs bd' \<longrightarrow> x \<in> set (hs_chain hs bd) \<longrightarrow> x \<in> set (hs_chain hs bd') \<longrightarrow> bd = bd')"

definition total :: "nat \<Rightarrow> ('k, 'i) cfs_hash \<Rightarrow> nat" where
  "total n hs = (\<Sum>b<n. bkt_len (CFS_HASH_BKT_NHLIST hs) (hs_buckets hs b))"

lemma table_okD:
  assumes "table_ok n hs" "in_table n hs bd" "in_table n hs bd'" "x \<in> set (hs_chain hs bd)" "x \<in> set (hs_chain hs bd')"
  shows "bd = bd'"
  using assms unfolding table_ok_def by blast

lemma bkt_ok_cong:
  "hs_flags hs' = hs_flags hs \<Longrightarrow> hs_bkt_bits hs' = hs_bkt_bits hs \<Longrightarrow> bkt_ok hs' k = bkt_ok hs k"
  by (simp add: bkt_ok_def head_ok_def flag_defs)

lemma nhlist_cong: "hs_bkt_bits hs' = hs_bkt_bits hs \<Longrightarrow> CFS_HASH_BKT_NHLIST hs' = CFS_HASH_BKT_NHLIST hs"
  by (simp add: CFS_HASH_BKT_NHLIST_def)

lemma total_upd:
  assumes "b < n"
  shows "total n (set_bkt b k hs) + bkt_len (CFS_HASH_BKT_NHLIST hs) (hs_buckets hs b)
    = total n hs + bkt_len (CFS_HASH_BKT_NHLIST hs) k"
proof -
  have f: "finite {..<n}" "b \<in> {..<n}" using assms by simp_all
  have e: "CFS_HASH_BKT_NHLIST (set_bkt b k hs) = CFS_HASH_BKT_NHLIST hs" by (simp add: set_bkt_def CFS_HASH_BKT_NHLIST_def)
  show ?thesis
    unfolding total_def e by (simp add: sum.remove [OF f] set_bkt_def)
qed

lemma chain_le_total:
  assumes "in_table n hs bd"
  shows "length (hs_chain hs bd) \<le> bkt_len (CFS_HASH_BKT_NHLIST hs) (hs_buckets hs (fst bd))"
    "bkt_len (CFS_HASH_BKT_NHLIST hs) (hs_buckets hs (fst bd)) \<le> total n hs"
proof -
  show "length (hs_chain hs bd) \<le> bkt_len (CFS_HASH_BKT_NHLIST hs) (hs_buckets hs (fst bd))"
    using assms unfolding bkt_len_def hs_chain_def in_table_def by (intro member_le_sum) auto
  show "bkt_len (CFS_HASH_BKT_NHLIST hs) (hs_buckets hs (fst bd)) \<le> total n hs"
    using assms unfolding total_def in_table_def by (intro member_le_sum) auto
qed

definition raw_add :: "hs_bd \<Rightarrow> 'i \<Rightarrow> ('k, 'i) cfs_hash \<Rightarrow> ('k, 'i) cfs_hash" where
  "raw_add bd x hs = set_bkt (fst bd) (bkt_add hs (snd bd) x (hs_buckets hs (fst bd))) hs"

definition raw_del :: "hs_bd \<Rightarrow> 'i \<Rightarrow> ('k, 'i) cfs_hash \<Rightarrow> ('k, 'i) cfs_hash" where
  "raw_del bd x hs = set_bkt (fst bd) (bkt_del hs (snd bd) x (hs_buckets hs (fst bd))) hs"

lemma raw_frame:
  "same_table hs (raw_add bd x hs)" "same_table hs (raw_del bd x hs)"
  "hs_count (raw_add bd x hs) = hs_count hs" "hs_count (raw_del bd x hs) = hs_count hs"
  "hs_ref (raw_add bd x hs) = hs_ref hs" "hs_ref (raw_del bd x hs) = hs_ref hs"
  "hs_rehash_count (raw_add bd x hs) = hs_rehash_count hs" "hs_rehash_count (raw_del bd x hs) = hs_rehash_count hs"
  by (simp_all add: raw_add_def raw_del_def set_bkt_def same_table_def)

lemma raw_add_ok:
  assumes "table_ok n hs" "in_table n hs bd" "\<And>bd'. in_table n hs bd' \<Longrightarrow> x \<notin> set (hs_chain hs bd')"
  shows "table_ok n (raw_add bd x hs)" "total n (raw_add bd x hs) = Suc (total n hs)"
    "in_table n hs bd' \<Longrightarrow> set (hs_chain (raw_add bd x hs) bd') = (if bd' = bd then insert x (set (hs_chain hs bd')) else set (hs_chain hs bd'))"
proof -
  let ?k = "hs_buckets hs (fst bd)" and ?o = "snd bd"
  have k: "bkt_ok hs ?k" "?o < CFS_HASH_BKT_NHLIST hs" "x \<notin> set (hh_list (hsb_head ?k ?o))"
    using assms(1,2) assms(3) [OF assms(2)] by (auto simp: table_ok_def in_table_def hs_chain_def)
  note a = bkt_add_ok [OF k]
  have c: "set (hs_chain (raw_add bd x hs) bd') = (if bd' = bd then insert x (set (hs_chain hs bd')) else set (hs_chain hs bd'))"
    for bd'
  proof -
    have "head_ok hs (hsb_head ?k ?o)" using k by (simp add: bkt_ok_def)
    from hop_add(2) [OF this k(3)] show ?thesis
      by (cases bd'; cases bd) (auto simp: hs_chain_def raw_add_def set_bkt_def bkt_add_simps)
  qed
  then show "in_table n hs bd' \<Longrightarrow> set (hs_chain (raw_add bd x hs) bd')
      = (if bd' = bd then insert x (set (hs_chain hs bd')) else set (hs_chain hs bd'))" by blast
  have t: "in_table n (raw_add bd x hs) = in_table n hs"
    by (simp add: fun_eq_iff in_table_def raw_add_def set_bkt_def CFS_HASH_BKT_NHLIST_def)
  have b: "bkt_ok (raw_add bd x hs) = bkt_ok hs"
    by (intro ext bkt_ok_cong) (simp_all add: raw_add_def set_bkt_def)
  show "total n (raw_add bd x hs) = Suc (total n hs)"
    using total_upd [of "fst bd" n "bkt_add hs ?o x ?k" hs] a(2) assms(2) by (simp add: raw_add_def in_table_def)
  show "table_ok n (raw_add bd x hs)"
    unfolding table_ok_def t b c
  proof (intro conjI allI impI)
    show "bkt_ok hs (hs_buckets (raw_add bd x hs) b)" if "b < n" for b
      using assms(1) a(1) that by (simp add: raw_add_def set_bkt_def table_ok_def)
  next
    fix bd1 bd2 y
    assume "in_table n hs bd1" "in_table n hs bd2"
      "y \<in> (if bd1 = bd then insert x (set (hs_chain hs bd1)) else set (hs_chain hs bd1))"
      "y \<in> (if bd2 = bd then insert x (set (hs_chain hs bd2)) else set (hs_chain hs bd2))"
    then show "bd1 = bd2"
      using table_okD [OF assms(1), of bd1 bd2 y] assms(3) [of bd1] assms(3) [of bd2]
      by (cases "bd1 = bd"; cases "bd2 = bd"; cases "y = x") simp_all
  qed
qed

lemma raw_del_ok:
  assumes "table_ok n hs" "in_table n hs bd" "x \<in> set (hs_chain hs bd)"
  shows "table_ok n (raw_del bd x hs)" "Suc (total n (raw_del bd x hs)) = total n hs"
    "in_table n hs bd' \<Longrightarrow> set (hs_chain (raw_del bd x hs) bd') = set (hs_chain hs bd') - {x}"
proof -
  let ?k = "hs_buckets hs (fst bd)" and ?o = "snd bd"
  have k: "bkt_ok hs ?k" "?o < CFS_HASH_BKT_NHLIST hs" "x \<in> set (hh_list (hsb_head ?k ?o))"
    using assms by (auto simp: table_ok_def in_table_def hs_chain_def)
  note a = bkt_del_ok [OF k]
  have c: "set (hs_chain (raw_del bd x hs) bd') = set (hs_chain hs bd') - {x}" if "in_table n hs bd'" for bd'
  proof (cases "bd' = bd")
    case True
    have "head_ok hs (hsb_head ?k ?o)" using k by (simp add: bkt_ok_def)
    from hop_del(2) [OF this k(3)] show ?thesis
      using True by (simp add: hs_chain_def raw_del_def set_bkt_def bkt_add_simps)
  next
    case False
    then have "x \<notin> set (hs_chain hs bd')" using table_okD [OF assms(1) that assms(2) _ assms(3)] by blast
    moreover have "hs_chain (raw_del bd x hs) bd' = hs_chain hs bd'"
      using False by (cases bd'; cases bd) (auto simp: hs_chain_def raw_del_def set_bkt_def bkt_add_simps)
    ultimately show ?thesis by simp
  qed
  then show "in_table n hs bd' \<Longrightarrow> set (hs_chain (raw_del bd x hs) bd') = set (hs_chain hs bd') - {x}" by blast
  have t: "in_table n (raw_del bd x hs) = in_table n hs"
    by (simp add: fun_eq_iff in_table_def raw_del_def set_bkt_def CFS_HASH_BKT_NHLIST_def)
  have b: "bkt_ok (raw_del bd x hs) = bkt_ok hs"
    by (intro ext bkt_ok_cong) (simp_all add: raw_del_def set_bkt_def)
  show "Suc (total n (raw_del bd x hs)) = total n hs"
    using total_upd [of "fst bd" n "bkt_del hs ?o x ?k" hs] a(2) assms(2) by (simp add: raw_del_def in_table_def)
  show "table_ok n (raw_del bd x hs)"
    unfolding table_ok_def t b
  proof (intro conjI allI impI)
    show "bkt_ok hs (hs_buckets (raw_del bd x hs) b)" if "b < n" for b
      using assms(1) a(1) that by (simp add: raw_del_def set_bkt_def table_ok_def)
  next
    fix bd1 bd2 y
    assume i: "in_table n hs bd1" "in_table n hs bd2" and y: "y \<in> set (hs_chain (raw_del bd x hs) bd1)"
      "y \<in> set (hs_chain (raw_del bd x hs) bd2)"
    then show "bd1 = bd2"
      using assms(1) unfolding c [OF i(1)] c [OF i(2)] table_ok_def by blast
  qed
qed

end
