(* ===== verification/CfsHashMap.thy ===== *)
theory CfsHashMap
  imports CfsHashOk
begin

text \<open>
  Resizing and the operations of the hash tables: every item stays on the chain
  of its key, and a table with unique keys is a map from keys to items with a
  reference count of each item.
\<close>

section \<open>Items\<close>

definition items :: "nat \<Rightarrow> ('k, 'i) cfs_hash \<Rightarrow> 'i set" where
  "items n hs = {x. \<exists>bd. in_table n hs bd \<and> x \<in> set (hs_chain hs bd)}"

lemma items_UN: "items n hs = (\<Union>bd \<in> {..<n} \<times> {..<CFS_HASH_BKT_NHLIST hs}. set (hs_chain hs bd))"
  by (auto simp: items_def in_table_def)

declare split_paired_All [simp del] split_paired_Ex [simp del]

lemma finite_items [simp]: "finite (items n hs)"
  unfolding items_UN by simp

lemma table_distinct: "table_ok n hs \<Longrightarrow> in_table n hs bd \<Longrightarrow> distinct (hs_chain hs bd)"
  by (simp add: table_ok_def in_table_def bkt_ok_def head_ok_def hs_chain_def)

lemma total_card:
  assumes "table_ok n hs"
  shows "total n hs = card (items n hs)"
proof -
  let ?I = "{..<n} \<times> {..<CFS_HASH_BKT_NHLIST hs}"
  have i: "bd \<in> ?I \<longleftrightarrow> in_table n hs bd" for bd by (cases bd) (simp add: in_table_def)
  have "card (items n hs) = (\<Sum>bd\<in>?I. card (set (hs_chain hs bd)))"
    unfolding items_UN
  proof (rule card_UN_disjoint)
    show "\<forall>bd\<in>?I. \<forall>bd'\<in>?I. bd \<noteq> bd' \<longrightarrow> set (hs_chain hs bd) \<inter> set (hs_chain hs bd') = {}"
    proof (intro ballI impI)
      fix bd bd' assume "bd \<in> ?I" "bd' \<in> ?I" "bd \<noteq> bd'"
      then show "set (hs_chain hs bd) \<inter> set (hs_chain hs bd') = {}"
        using table_okD [OF assms] unfolding i by blast
    qed
  qed simp_all
  also have "\<dots> = (\<Sum>bd\<in>?I. length (hs_chain hs bd))"
    by (rule sum.cong [OF refl]) (simp only: i distinct_card table_distinct [OF assms])
  also have "\<dots> = (\<Sum>b<n. \<Sum>off<CFS_HASH_BKT_NHLIST hs. length (hs_chain hs (b, off)))"
    by (simp add: sum.cartesian_product)
  finally show ?thesis by (simp add: total_def bkt_len_def hs_chain_def)
qed

text \<open>What the well-formedness of the buckets depends on.\<close>

definition same_core :: "('k, 'i) cfs_hash \<Rightarrow> ('k, 'i) cfs_hash \<Rightarrow> bool" where
  "same_core hs hs' \<longleftrightarrow> hs_buckets hs' = hs_buckets hs \<and> hs_flags hs' = hs_flags hs \<and> hs_bkt_bits hs' = hs_bkt_bits hs"

lemma same_core:
  assumes "same_core hs hs'"
  shows "in_table n hs' = in_table n hs" "hs_chain hs' = hs_chain hs" "table_ok n hs' = table_ok n hs"
    "total n hs' = total n hs" "items n hs' = items n hs"
proof -
  have e: "hs_buckets hs' = hs_buckets hs" "CFS_HASH_BKT_NHLIST hs' = CFS_HASH_BKT_NHLIST hs"
    using assms by (simp_all add: same_core_def CFS_HASH_BKT_NHLIST_def)
  have b: "bkt_ok hs' = bkt_ok hs" using assms by (intro ext bkt_ok_cong) (simp_all add: same_core_def)
  show i: "in_table n hs' = in_table n hs" and c: "hs_chain hs' = hs_chain hs"
    by (simp_all add: fun_eq_iff in_table_def hs_chain_def e)
  show "table_ok n hs' = table_ok n hs" "total n hs' = total n hs" "items n hs' = items n hs"
    by (simp_all add: table_ok_def total_def items_def i c b e)
qed

section \<open>The invariant\<close>

definition placed :: "('k \<Rightarrow> u32 \<Rightarrow> u32) \<Rightarrow> nat \<Rightarrow> nat \<Rightarrow> ('k, 'i) cfs_hash \<Rightarrow> bool" where
  "placed hf n bits hs \<longleftrightarrow>
     (\<forall>bd x. in_table n hs bd \<longrightarrow> x \<in> set (hs_chain hs bd) \<longrightarrow> bd = bd_of_key hf (hs_bkt_bits hs) bits (hs_keys hs x))"

definition bits_ok :: "('k, 'i) cfs_hash \<Rightarrow> bool" where
  "bits_ok hs \<longleftrightarrow> 0 < hs_cur_bits hs \<and> hs_bkt_bits hs \<le> hs_min_bits hs \<and> hs_min_bits hs \<le> hs_cur_bits hs
     \<and> hs_cur_bits hs \<le> hs_max_bits hs \<and> hs_max_bits hs < 31 \<and> 0 < hs_min_bits hs
     \<and> (cfs_hash_with_rehash hs \<longrightarrow> cfs_hash_with_counter hs \<and> \<not> cfs_hash_with_no_lock hs)"

definition hs_inv :: "('k \<Rightarrow> u32 \<Rightarrow> u32) \<Rightarrow> ('k, 'i) cfs_hash \<Rightarrow> bool" where
  "hs_inv hf hs \<longleftrightarrow> bits_ok hs \<and> hs_rehash_bits hs = 0 \<and> \<not> hs_rehash_tbl hs
     \<and> table_ok (CFS_HASH_NBKT hs) hs \<and> placed hf (CFS_HASH_NBKT hs) (hs_cur_bits hs) hs
     \<and> (cfs_hash_with_counter hs \<longrightarrow> hs_count hs = int (total (CFS_HASH_NBKT hs) hs))"

lemma hs_invI:
  "bits_ok hs \<Longrightarrow> hs_rehash_bits hs = 0 \<Longrightarrow> \<not> hs_rehash_tbl hs \<Longrightarrow> table_ok (CFS_HASH_NBKT hs) hs
    \<Longrightarrow> placed hf (CFS_HASH_NBKT hs) (hs_cur_bits hs) hs
    \<Longrightarrow> (cfs_hash_with_counter hs \<Longrightarrow> hs_count hs = int (total (CFS_HASH_NBKT hs) hs)) \<Longrightarrow> hs_inv hf hs"
  by (simp add: hs_inv_def)

lemma hs_invD:
  assumes "hs_inv hf hs"
  shows "bits_ok hs" "hs_rehash_bits hs = 0" "\<not> hs_rehash_tbl hs" "table_ok (CFS_HASH_NBKT hs) hs"
    "placed hf (CFS_HASH_NBKT hs) (hs_cur_bits hs) hs"
    "cfs_hash_with_counter hs \<Longrightarrow> hs_count hs = int (total (CFS_HASH_NBKT hs) hs)"
  using assms by (simp_all add: hs_inv_def)

definition hs_items :: "('k, 'i) cfs_hash \<Rightarrow> 'i set" where
  "hs_items hs = items (CFS_HASH_NBKT hs) hs"

text \<open>The fields that neither the chains nor the counters touch.\<close>

definition hs_frame :: "('k, 'i) cfs_hash \<Rightarrow> ('k, 'i) cfs_hash \<Rightarrow> bool" where
  "hs_frame hs hs' \<longleftrightarrow> hs_flags hs' = hs_flags hs \<and> hs_bkt_bits hs' = hs_bkt_bits hs \<and> hs_keys hs' = hs_keys hs
     \<and> hs_min_bits hs' = hs_min_bits hs \<and> hs_max_bits hs' = hs_max_bits hs \<and> hs_exiting hs' = hs_exiting hs
     \<and> hs_min_theta hs' = hs_min_theta hs \<and> hs_max_theta hs' = hs_max_theta hs
     \<and> hs_iterating hs' = hs_iterating hs \<and> hs_iterators hs' = hs_iterators hs"

lemma hs_frame_refl [simp]: "hs_frame hs hs"
  by (simp add: hs_frame_def)

lemma hs_frame_trans: "hs_frame a b \<Longrightarrow> hs_frame b c \<Longrightarrow> hs_frame a c"
  by (simp add: hs_frame_def)

lemma inv_cong:
  assumes "same_core hs hs'" "same_table (hs\<lparr>hs_iterating := i, hs_iterators := n, hs_refcount := r\<rparr>) hs'" "hs_count hs' = hs_count hs"
  shows "hs_inv hf hs' = hs_inv hf hs" "hs_items hs' = hs_items hs"
proof -
  have e: "CFS_HASH_NBKT hs' = CFS_HASH_NBKT hs" "hs_cur_bits hs' = hs_cur_bits hs" "hs_keys hs' = hs_keys hs"
    "hs_rehash_bits hs' = hs_rehash_bits hs" "hs_rehash_tbl hs' = hs_rehash_tbl hs" "bits_ok hs' = bits_ok hs"
    "cfs_hash_with_counter hs' = cfs_hash_with_counter hs" "hs_bkt_bits hs' = hs_bkt_bits hs"
    using assms by (simp_all add: same_table_def flag_defs bits_ok_def)
  show "hs_inv hf hs' = hs_inv hf hs" "hs_items hs' = hs_items hs"
    unfolding hs_inv_def hs_items_def placed_def e same_core [OF assms(1)] assms(3) by simp_all
qed

lemma inv_ref [simp]:
  "hs_inv hf (hs\<lparr>hs_ref := r\<rparr>) = hs_inv hf hs" "hs_items (hs\<lparr>hs_ref := r\<rparr>) = hs_items hs"
  using inv_cong [where hs = hs and hs' = "hs\<lparr>hs_ref := r\<rparr>" and i = "hs_iterating hs" and n = "hs_iterators hs"
      and r = "hs_refcount hs"]
  by (simp_all add: same_core_def same_table_def)

lemma hashed_iff: "hs_hashed hs x \<longleftrightarrow> x \<in> hs_items hs"
  unfolding hs_hashed_def hs_items_def items_def in_table_def
  by (simp only: atLeast0LessThan lessThan_iff Bex_def mem_Collect_eq split_paired_Ex fst_conv snd_conv) blast

text \<open>Of a hash function the tables need that it respects the mask.\<close>

locale hash_fun =
  fixes hf :: "'k \<Rightarrow> u32 \<Rightarrow> u32"
  assumes masked: "hf k m AND m = hf k m"
begin

lemma below: "b \<le> 32 \<Longrightarrow> unat (hf k (mask b)) < 2 ^ b"
proof -
  assume b: "b \<le> 32"
  have "unat (hf k (mask b)) = unat (hf k (mask b) AND mask b)" by (simp add: masked)
  also have "\<dots> = unat (hf k (mask b)) mod 2 ^ b"
    by (simp only: take_bit_eq_mask [symmetric] unsigned_take_bit_eq) (simp only: take_bit_eq_mod)
  finally show ?thesis by (metis mod_less_divisor zero_less_numeral zero_less_power)
qed

end

section \<open>Moving items\<close>

lemma bkt_upd_comm: "k\<lparr>hsb_version := v, hsb_count := c\<rparr> = k\<lparr>hsb_count := c, hsb_version := v\<rparr>"
  by simp

lemma move_locked_eq:
  fixes hs :: "('k, 'i) cfs_hash"
  assumes "bo \<noteq> bn" "hsb_count (hs_buckets hs (fst bo)) > 0"
  shows "cfs_hash_bd_move_locked bo bn x hs = Inr (raw_add bn x (raw_del bo x hs))"
proof -
  have fl: "hop_hnode_add (hs\<lparr>hs_buckets := B\<rparr>) = hop_hnode_add hs" for B
    by (simp add: hop_hnode_add_def flag_defs)
  obtain b off b' off' where bd: "bo = (b, off)" "bn = (b', off')" by (cases bo, cases bn)
  obtain d hh where h: "hop_hnode_add hs x (if b' = b \<and> off' = off then hop_hnode_del hs x (hsb_head (hs_buckets hs b) off)
      else hsb_head (hs_buckets hs b') off') = (d, hh)" by fastforce
  show ?thesis
  proof (cases "b = b'")
    case True
    then have o: "off' \<noteq> off" using assms(1) bd by simp
    then show ?thesis
      using assms(2) True bd h
      by (simp add: cfs_hash_bd_move_locked_def Let_def hassert_def raw_add_def raw_del_def set_bkt_def bkt_add_def bkt_del_def
          bkt_hnode_add_def bkt_hnode_del_def fl cfs_hash_bd_dep_record_def bkt_upd_comm)
  next
    case False
    then show ?thesis
      using assms(2) bd h
      by (simp add: cfs_hash_bd_move_locked_def Let_def hassert_def raw_add_def raw_del_def set_bkt_def bkt_add_def bkt_del_def
          bkt_hnode_add_def bkt_hnode_del_def fl cfs_hash_bd_dep_record_def bkt_upd_comm)
  qed
qed

definition on_chain :: "nat \<Rightarrow> ('k, 'i) cfs_hash \<Rightarrow> 'i \<Rightarrow> hs_bd \<Rightarrow> bool" where
  "on_chain n hs x bd \<longleftrightarrow> in_table n hs bd \<and> x \<in> set (hs_chain hs bd)"

definition new_place :: "('k \<Rightarrow> u32 \<Rightarrow> u32) \<Rightarrow> ('k, 'i) cfs_hash \<Rightarrow> 'i \<Rightarrow> hs_bd" where
  "new_place hf hs x = bd_of_key hf (hs_bkt_bits hs) (hs_rehash_bits hs) (hs_keys hs x)"

text \<open>A resize at work: the items of \<open>A\<close> have been moved to their new place.\<close>

definition movable :: "('k \<Rightarrow> u32 \<Rightarrow> u32) \<Rightarrow> nat \<Rightarrow> ('k, 'i) cfs_hash \<Rightarrow> bool" where
  "movable hf n hs \<longleftrightarrow> table_ok n hs \<and> total n hs < 2 ^ 32 \<and> (\<forall>x. in_table n hs (new_place hf hs x))"

definition moved :: "('k \<Rightarrow> u32 \<Rightarrow> u32) \<Rightarrow> nat \<Rightarrow> 'i set \<Rightarrow> ('k, 'i) cfs_hash \<Rightarrow> ('k, 'i) cfs_hash \<Rightarrow> bool" where
  "moved hf n A hs hs' \<longleftrightarrow> same_table hs hs' \<and> movable hf n hs' \<and> hs_count hs' = hs_count hs \<and> hs_ref hs' = hs_ref hs
     \<and> hs_rehash_count hs' = hs_rehash_count hs \<and> A \<subseteq> items n hs
     \<and> (\<forall>x bd. on_chain n hs' x bd \<longleftrightarrow> (if x \<in> A then bd = new_place hf hs x else on_chain n hs x bd))"

lemma items_on_chain: "x \<in> items n hs \<longleftrightarrow> (\<exists>bd. on_chain n hs x bd)"
  by (simp add: items_def on_chain_def)

lemma same_place:
  assumes "same_table hs hs'"
  shows "new_place hf hs' = new_place hf hs" "in_table n hs' = in_table n hs"
  using assms by (simp_all add: new_place_def same_table_def fun_eq_iff in_table_def CFS_HASH_BKT_NHLIST_def)

lemma moved_refl: "movable hf n hs \<Longrightarrow> moved hf n {} hs hs"
  by (simp add: moved_def same_table_def)

lemma movedD:
  assumes "moved hf n A hs hs'"
  shows "on_chain n hs' x bd \<longleftrightarrow> (if x \<in> A then bd = new_place hf hs x else on_chain n hs x bd)" "A \<subseteq> items n hs"
    "same_table hs hs'" "movable hf n hs'" "hs_count hs' = hs_count hs" "hs_ref hs' = hs_ref hs"
  using assms unfolding moved_def by blast+

lemma moved_items: "moved hf n A hs hs' \<Longrightarrow> items n hs' = items n hs"
proof (rule set_eqI)
  fix x assume m: "moved hf n A hs hs'"
  show "x \<in> items n hs' \<longleftrightarrow> x \<in> items n hs"
  proof (cases "x \<in> A")
    case True
    then have "x \<in> items n hs" "on_chain n hs' x (new_place hf hs x)" using movedD [OF m] by auto
    then show ?thesis unfolding items_on_chain by blast
  next
    case False
    then have "on_chain n hs' x bd \<longleftrightarrow> on_chain n hs x bd" for bd using movedD(1) [OF m] by simp
    then show ?thesis unfolding items_on_chain by blast
  qed
qed

lemma moved_trans:
  assumes "moved hf n A hs hs1" "moved hf n B hs1 hs2"
  shows "moved hf n (A \<union> B) hs hs2"
proof -
  have e: "new_place hf hs1 = new_place hf hs" using assms(1) unfolding moved_def by (intro same_place) blast
  have i: "items n hs1 = items n hs" by (rule moved_items [OF assms(1)])
  show ?thesis
    using assms same_table_trans [of hs hs1 hs2] i unfolding moved_def e by simp
qed

lemma bucket_count_pos:
  assumes "table_ok n hs" "in_table n hs bd" "x \<in> set (hs_chain hs bd)" "total n hs < 2 ^ 32"
  shows "hsb_count (hs_buckets hs (fst bd)) > 0"
proof -
  let ?l = "bkt_len (CFS_HASH_BKT_NHLIST hs) (hs_buckets hs (fst bd))"
  have "0 < length (hs_chain hs bd)" using assms(3) by (cases "hs_chain hs bd") auto
  then have "0 < ?l" "?l < 2 ^ 32" using chain_le_total [OF assms(2)] assms(4) by linarith+
  moreover have "hsb_count (hs_buckets hs (fst bd)) = of_nat ?l"
    using assms(1,2) by (simp add: table_ok_def in_table_def bkt_ok_def)
  ultimately show ?thesis
    by (simp add: word_greater_zero_iff word_of_nat_eq_0_iff) (metis nat_dvd_not_less)
qed

lemma move_one:
  assumes m: "movable hf n hs" and x: "on_chain n hs x bd" and ne: "new_place hf hs x \<noteq> bd"
  shows "\<exists>hs'. cfs_hash_bd_move_locked bd (new_place hf hs x) x hs = Inr hs' \<and> moved hf n {x} hs hs'"
proof -
  let ?np = "new_place hf hs x" and ?d = "raw_del bd x hs"
  have t: "table_ok n hs" "in_table n hs bd" "x \<in> set (hs_chain hs bd)" and np: "in_table n hs ?np" and lt: "total n hs < 2 ^ 32"
    using m x by (simp_all add: movable_def on_chain_def)
  note d = raw_del_ok [OF t]
  have td: "in_table n ?d = in_table n hs" by (rule same_place(2) [OF raw_frame(2)])
  have no: "x \<notin> set (hs_chain ?d bd')" if "in_table n ?d bd'" for bd'
    using d(3) that unfolding td by simp
  note a = raw_add_ok [OF d(1) np [folded td] no]
  have ta: "in_table n (raw_add ?np x ?d) = in_table n hs" using same_place(2) [OF raw_frame(1), of n] td by (rule trans)
  have s: "same_table hs (raw_add ?np x ?d)" using same_table_trans [OF raw_frame(2) raw_frame(1)] .
  have c: "hsb_count (hs_buckets hs (fst bd)) > 0" by (rule bucket_count_pos [OF t lt])
  have "moved hf n {x} hs (raw_add ?np x ?d)"
    unfolding moved_def
  proof (intro conjI allI)
    show "movable hf n (raw_add ?np x ?d)"
      using a(1,2) d(2) lt m s same_place [OF s] by (simp add: movable_def)
    show "on_chain n (raw_add ?np x ?d) y bd' = (if y \<in> {x} then bd' = new_place hf hs y else on_chain n hs y bd')" for y bd'
      using a(3) [of bd'] d(3) [of bd'] np t(2) unfolding on_chain_def ta td
      by (cases "in_table n hs bd'"; cases "bd' = ?np"; cases "y = x") simp_all
  next
    have "x \<in> items n hs" using x unfolding items_on_chain by blast
    then show "{x} \<subseteq> items n hs" by simp
  qed (simp_all only: s raw_frame)
  then show ?thesis using move_locked_eq [OF ne [symmetric] c] by blast
qed

lemma moved_movable: "moved hf n A hs hs' \<Longrightarrow> new_place hf hs' = new_place hf hs \<and> in_table n hs' = in_table n hs"
  using movedD(3) [of hf n A hs hs'] same_place by blast

lemma rehash_chain_moves:
  assumes "movable hf n hs" "distinct xs" "\<And>x. x \<in> set xs \<Longrightarrow> on_chain n hs x bd"
  shows "\<exists>hs' A. rehash_chain hf bd xs hs = Inr hs' \<and> moved hf n A hs hs' \<and> (\<forall>x \<in> set xs. on_chain n hs' x (new_place hf hs x))
    \<and> A \<subseteq> set xs"
  using assms
proof (induction xs arbitrary: hs)
  case Nil
  then show ?case using moved_refl [of hf n hs] by (intro exI [of _ hs] exI [of _ "{}"]) simp
next
  case (Cons x xs)
  have key: "cfs_hash_bd_from_key hf (hs_rehash_bits hs) (hs_keys hs x) hs = Inr (new_place hf hs x)"
    by (simp add: cfs_hash_bd_from_key_def hassert_def new_place_def)
  obtain hs1 B where one: "cfs_hash_bd_move_locked bd (new_place hf hs x) x hs = Inr hs1" "moved hf n B hs hs1"
    "on_chain n hs1 x (new_place hf hs x)" "B \<subseteq> {x}"
  proof (cases "new_place hf hs x = bd")
    case True
    then show ?thesis using that [of hs "{}"] moved_refl [OF Cons.prems(1)] Cons.prems(3) [of x]
      by (simp add: cfs_hash_bd_move_locked_def)
  next
    case False
    then show ?thesis using move_one [OF Cons.prems(1) Cons.prems(3) [of x]] that [of _ "{x}"] movedD(1) [of hf n "{x}" hs _ x]
      by (metis insertI1 list.set_intros(1) order_refl)
  qed
  have e: "new_place hf hs1 = new_place hf hs" using moved_movable [OF one(2)] by blast
  have at: "on_chain n hs1 y bd" if "y \<in> set xs" for y
    using that Cons.prems(2,3) movedD(1) [OF one(2)] one(4) by auto
  obtain hs2 A where two: "rehash_chain hf bd xs hs1 = Inr hs2" "moved hf n A hs1 hs2"
    "\<forall>y \<in> set xs. on_chain n hs2 y (new_place hf hs1 y)" "A \<subseteq> set xs"
    using Cons.IH [OF movedD(4) [OF one(2)] _ at] Cons.prems(2) by auto
  have "on_chain n hs2 x (new_place hf hs x)" using one(3) movedD(1) [OF two(2)] by (simp add: e)
  then show ?case
    using key one two moved_trans [OF one(2) two(2)] e
    by (intro exI [of _ hs2] exI [of _ "B \<union> A"]) auto
qed

text \<open>The items of the chains that the loops have gone through are at their new place.\<close>

definition rehashed :: "('k \<Rightarrow> u32 \<Rightarrow> u32) \<Rightarrow> nat \<Rightarrow> hs_bd set \<Rightarrow> ('k, 'i) cfs_hash \<Rightarrow> ('k, 'i) cfs_hash \<Rightarrow> bool" where
  "rehashed hf n L hs hs' \<longleftrightarrow> (\<exists>A. moved hf n A hs hs')
     \<and> (\<forall>x bd. bd \<in> L \<longrightarrow> on_chain n hs x bd \<longrightarrow> on_chain n hs' x (new_place hf hs x))"

lemma rehashed_trans:
  assumes "rehashed hf n L hs hs1" "rehashed hf n M hs1 hs2"
  shows "rehashed hf n (L \<union> M) hs hs2"
proof -
  obtain A B where m: "moved hf n A hs hs1" "moved hf n B hs1 hs2" using assms by (auto simp: rehashed_def)
  have e: "new_place hf hs1 = new_place hf hs" using moved_movable [OF m(1)] by blast
  have "on_chain n hs2 x (new_place hf hs x)" if "bd \<in> L \<union> M" "on_chain n hs x bd" for x bd
  proof (cases "on_chain n hs1 x (new_place hf hs x)")
    case True
    then show ?thesis using movedD(1) [OF m(2)] by (simp add: e)
  next
    case False
    then have "x \<notin> A" using movedD(1) [OF m(1)] by auto
    then have "on_chain n hs1 x bd" using that(2) movedD(1) [OF m(1)] by simp
    moreover have "bd \<in> M" using that False assms(1) unfolding rehashed_def by blast
    ultimately have "bd \<in> M" "on_chain n hs1 x bd" by simp_all
    then show ?thesis using assms(2) unfolding rehashed_def e by blast
  qed
  then show ?thesis using moved_trans [OF m] unfolding rehashed_def by blast
qed

lemma rehash_bd_moves:
  assumes "movable hf n hs" "b < n" "\<And>off. off \<in> set offs \<Longrightarrow> off < CFS_HASH_BKT_NHLIST hs"
  shows "\<exists>hs'. cfs_hash_rehash_bd hf b offs hs = Inr hs' \<and> rehashed hf n ({b} \<times> set offs) hs hs'"
  using assms
proof (induction offs arbitrary: hs)
  case Nil
  then show ?case using moved_refl [of hf n hs] by (auto simp: rehashed_def)
next
  case (Cons off offs)
  have i: "in_table n hs (b, off)" using Cons.prems by (simp add: in_table_def)
  have "distinct (hs_chain hs (b, off))" using table_distinct [OF _ i] Cons.prems(1) by (simp add: movable_def)
  from rehash_chain_moves [OF Cons.prems(1) this, of "(b, off)"] i
  obtain hs1 A where one: "rehash_chain hf (b, off) (hs_chain hs (b, off)) hs = Inr hs1" "moved hf n A hs hs1"
    "\<forall>x \<in> set (hs_chain hs (b, off)). on_chain n hs1 x (new_place hf hs x)"
    by (auto simp: on_chain_def)
  then have r1: "rehashed hf n {(b, off)} hs hs1" by (auto simp: rehashed_def on_chain_def)
  have "CFS_HASH_BKT_NHLIST hs1 = CFS_HASH_BKT_NHLIST hs"
    using movedD(3) [OF one(2)] by (simp add: same_table_def CFS_HASH_BKT_NHLIST_def)
  then obtain hs2 where two: "cfs_hash_rehash_bd hf b offs hs1 = Inr hs2" "rehashed hf n ({b} \<times> set offs) hs1 hs2"
    using Cons.IH [OF movedD(4) [OF one(2)] Cons.prems(2)] Cons.prems(3) by fastforce
  have "{b} \<times> set (off # offs) = {(b, off)} \<union> {b} \<times> set offs" by auto
  then show ?case using one(1) two(1) rehashed_trans [OF r1 two(2)] by auto
qed

lemma rehash_buckets_moves:
  assumes "movable hf n hs" "\<And>b. b \<in> set bs \<Longrightarrow> b < n"
  shows "\<exists>hs'. rehash_buckets hf bs hs = Inr hs' \<and> rehashed hf n (set bs \<times> {..<CFS_HASH_BKT_NHLIST hs}) hs hs'"
  using assms
proof (induction bs arbitrary: hs)
  case Nil
  then show ?case using moved_refl [of hf n hs] by (auto simp: rehashed_def)
next
  case (Cons b bs)
  obtain hs1 where one: "cfs_hash_rehash_bd hf b [0..<CFS_HASH_BKT_NHLIST hs] hs = Inr hs1"
    "rehashed hf n ({b} \<times> {..<CFS_HASH_BKT_NHLIST hs}) hs hs1"
    using rehash_bd_moves [OF Cons.prems(1), of b "[0..<CFS_HASH_BKT_NHLIST hs]"] Cons.prems(2)
    by (auto simp: atLeast0LessThan)
  then obtain A where m: "moved hf n A hs hs1" by (auto simp: rehashed_def)
  then have "CFS_HASH_BKT_NHLIST hs1 = CFS_HASH_BKT_NHLIST hs"
    using movedD(3) [OF m] by (simp add: same_table_def CFS_HASH_BKT_NHLIST_def)
  then obtain hs2 where two: "rehash_buckets hf bs hs1 = Inr hs2"
    "rehashed hf n (set bs \<times> {..<CFS_HASH_BKT_NHLIST hs}) hs1 hs2"
    using Cons.IH [OF movedD(4) [OF m]] Cons.prems(2) by fastforce
  have "set (b # bs) \<times> {..<CFS_HASH_BKT_NHLIST hs}
      = {b} \<times> {..<CFS_HASH_BKT_NHLIST hs} \<union> set bs \<times> {..<CFS_HASH_BKT_NHLIST hs}" by auto
  then show ?case using one(1) two(1) rehashed_trans [OF one(2) two(2)] by auto
qed

section \<open>A resize\<close>

lemma table_ok_iff:
  "table_ok n hs \<longleftrightarrow> (\<forall>b<n. bkt_ok hs (hs_buckets hs b))
     \<and> (\<forall>x bd bd'. on_chain n hs x bd \<longrightarrow> on_chain n hs x bd' \<longrightarrow> bd = bd')"
  unfolding table_ok_def on_chain_def by blast

lemma placed_iff: "placed hf n bits hs \<longleftrightarrow> (\<forall>x bd. on_chain n hs x bd \<longrightarrow> bd = bd_of_key hf (hs_bkt_bits hs) bits (hs_keys hs x))"
  unfolding placed_def on_chain_def by blast

lemma new_bucket_ok [simp]: "bkt_ok hs new_bucket" "hh_list (hsb_head new_bucket off) = []"
  by (simp_all add: new_bucket_def new_head_def bkt_ok_def head_ok_def bkt_len_def)

lemma same_chains:
  assumes "table_ok n hs" "\<And>b. b < n' \<Longrightarrow> bkt_ok hs' (hs_buckets hs' b)" "\<And>x bd. on_chain n' hs' x bd \<longleftrightarrow> on_chain n hs x bd"
  shows "table_ok n' hs'" "items n' hs' = items n hs" "total n' hs' = total n hs"
proof -
  show t: "table_ok n' hs'" using assms unfolding table_ok_iff by blast
  show i: "items n' hs' = items n hs" by (rule set_eqI) (simp only: items_on_chain assms(3))
  show "total n' hs' = total n hs" by (simp add: total_card [OF t] total_card [OF assms(1)] i)
qed

text \<open>What an operation keeps, whatever it does to the size of the table.\<close>

definition hs_same :: "('k \<Rightarrow> u32 \<Rightarrow> u32) \<Rightarrow> ('k, 'i) cfs_hash \<Rightarrow> ('k, 'i) cfs_hash \<Rightarrow> bool" where
  "hs_same hf hs hs' \<longleftrightarrow> hs_inv hf hs' \<and> hs_items hs' = hs_items hs \<and> hs_ref hs' = hs_ref hs \<and> hs_frame hs hs'"

lemma hs_same_refl: "hs_inv hf hs \<Longrightarrow> hs_same hf hs hs"
  by (simp add: hs_same_def)

lemma bits_facts:
  assumes "bits_ok hs"
  shows "hs_bkt_bits hs \<le> hs_cur_bits hs" "hs_cur_bits hs < 31"
  using assms by (auto simp: bits_ok_def)

context hash_fun
begin

lemma place_range:
  assumes "bkt \<le> bits" "bits \<le> 32"
  shows "fst (bd_of_key hf bkt bits k) < 2 ^ (bits - bkt)" "snd (bd_of_key hf bkt bits k) < 2 ^ bkt"
proof -
  let ?i = "hf k (mask bits)"
  have "unat (?i AND mask (bits - bkt)) = unat ?i mod 2 ^ (bits - bkt)"
    by (simp only: take_bit_eq_mask [symmetric] unsigned_take_bit_eq) (simp only: take_bit_eq_mod)
  then show "fst (bd_of_key hf bkt bits k) < 2 ^ (bits - bkt)" by (simp add: bd_of_key_def Let_def)
  have d: "unat (drop_bit (bits - bkt) ?i) = unat ?i div 2 ^ (bits - bkt)"
    by (simp only: unat_drop_bit_eq) (simp only: drop_bit_eq_div)
  have "unat ?i < 2 ^ (bits - bkt) * 2 ^ bkt"
    using below [OF assms(2), of k] assms(1) by (simp add: power_add [symmetric])
  then show "snd (bd_of_key hf bkt bits k) < 2 ^ bkt"
    by (simp add: bd_of_key_def Let_def d less_mult_imp_div_less mult.commute)
qed

lemma worker_ok:
  assumes i: "hs_inv hf hs" and lt: "total (CFS_HASH_NBKT hs) hs < 2 ^ 32" and w: "cfs_hash_with_rehash hs" "\<not> hs_exiting hs"
    and r: "r = hs_cur_bits hs + 1 \<and> hs_cur_bits hs < hs_max_bits hs \<or> r + 1 = hs_cur_bits hs \<and> hs_min_bits hs < hs_cur_bits hs"
  shows "\<exists>e hs'. cfs_hash_rehash_worker hf mem (hs\<lparr>hs_rehash_bits := r\<rparr>) = Inr (e, hs') \<and> hs_same hf hs hs'
    \<and> ((\<forall>x. mem x) \<longrightarrow> \<not> (hs_min_theta hs \<le> cfs_hash_theta hs \<and> cfs_hash_theta hs \<le> hs_max_theta hs) \<longrightarrow> hs_cur_bits hs' = r)"
proof -
  note inv = hs_invD [OF i]
  define hs0 where "hs0 = hs\<lparr>hs_rehash_bits := r\<rparr>"
  define old where "old = CFS_HASH_NBKT hs"
  define new where "new = (2::nat) ^ (r - hs_bkt_bits hs)"
  define n where "n = max old new"
  have b: "hs_bkt_bits hs \<le> r" "r \<le> 32" "0 < r" "hs_min_bits hs \<le> r" "r \<le> hs_max_bits hs"
    using r inv(1) by (auto simp: bits_ok_def)
  have undo: "hs0\<lparr>hs_rehash_bits := 0\<rparr> = hs" using inv(2) unfolding hs0_def by (cases hs) simp
  have th: "cfs_hash_theta hs0 = cfs_hash_theta hs" "hs_min_theta hs0 = hs_min_theta hs" "hs_max_theta hs0 = hs_max_theta hs"
    by (simp_all add: hs0_def cfs_hash_theta_def)
  have "old \<noteq> new" using r b(1) bits_facts(1) [OF inv(1)] by (auto simp: old_def new_def CFS_HASH_NBKT_def)
  have nbkt: "CFS_HASH_NBKT hs0 = old" "CFS_HASH_RH_NBKT hs0 = new" "hs_buckets hs0 = hs_buckets hs" "hs_exiting hs0 = hs_exiting hs"
    "cfs_hash_with_rehash hs0 \<and> cfs_hash_is_rehashing hs0" "\<not> hs_rehash_tbl hs0"
    using b(3) w(1) inv(3) by (simp_all add: hs0_def old_def new_def CFS_HASH_NBKT_def CFS_HASH_RH_NBKT_def flag_defs)
  show ?thesis
  proof (cases "old = new \<or> cfs_hash_buckets_realloc mem old new (hs_buckets hs) = None
      \<or> cfs_hash_theta hs0 \<ge> hs_min_theta hs0 \<and> cfs_hash_theta hs0 \<le> hs_max_theta hs0")
    case True
    have "cfs_hash_rehash_worker hf mem hs0 = Inr (False, hs)"
      unfolding cfs_hash_rehash_worker_def nbkt Let_def hassert_def undo using True nbkt by (auto split: option.split)
    moreover have "\<not> (\<forall>x. mem x)" if "\<not> (hs_min_theta hs \<le> cfs_hash_theta hs \<and> cfs_hash_theta hs \<le> hs_max_theta hs)"
      using True that \<open>old \<noteq> new\<close> by (auto simp: cfs_hash_buckets_realloc_def list_all_iff th split: if_splits)
    ultimately show ?thesis using hs_same_refl [OF i] unfolding hs0_def by blast
  next
    case False
    then obtain bkts where bk: "cfs_hash_buckets_realloc mem old new (hs_buckets hs) = Some bkts" by auto
    then have bk_eq: "bkts j = (if old \<le> j \<and> j < new then new_bucket else hs_buckets hs j)" for j
      by (auto simp: cfs_hash_buckets_realloc_def split: if_splits)
    define hs1 where "hs1 = hs0\<lparr>hs_buckets := bkts, hs_rehash_tbl := True\<rparr>"
    have f1: "hs_flags hs1 = hs_flags hs" "hs_bkt_bits hs1 = hs_bkt_bits hs" "hs_keys hs1 = hs_keys hs" "hs_rehash_bits hs1 = r"
      "hs_buckets hs1 = bkts" "hs_count hs1 = hs_count hs" "hs_ref hs1 = hs_ref hs"
      by (simp_all add: hs1_def hs0_def)
    have nh: "CFS_HASH_BKT_NHLIST hs1 = CFS_HASH_BKT_NHLIST hs" by (rule nhlist_cong [OF f1(2)])
    have ok1: "bkt_ok hs1 = bkt_ok hs" by (intro ext bkt_ok_cong f1)
    have c1: "on_chain n hs1 x bd \<longleftrightarrow> on_chain old hs x bd" for x bd
      unfolding on_chain_def in_table_def hs_chain_def nh f1 bk_eq n_def by auto
    have "bkt_ok hs1 (hs_buckets hs1 j)" if "j < n" for j
      using inv(4) that unfolding ok1 f1 bk_eq n_def old_def [symmetric] table_ok_def by auto
    note t1 = same_chains [OF inv(4) [folded old_def] this c1]
    have np: "new_place hf hs1 x = bd_of_key hf (hs_bkt_bits hs) r (hs_keys hs x)" for x
      by (simp add: new_place_def f1)
    have npr: "fst (new_place hf hs1 x) < new" "snd (new_place hf hs1 x) < CFS_HASH_BKT_NHLIST hs" for x
      using place_range [OF b(1,2)] unfolding np new_def CFS_HASH_BKT_NHLIST_def by blast+
    have mv: "movable hf n hs1"
      using t1 lt npr unfolding movable_def in_table_def nh old_def n_def by (simp add: less_max_iff_disj)
    have "b \<in> set [0..<old] \<Longrightarrow> b < n" for b by (simp add: n_def)
    from rehash_buckets_moves [of hf n hs1 "[0..<old]", OF mv this] obtain hs2 where two: "rehash_buckets hf [0..<old] hs1 = Inr hs2"
      "rehashed hf n ({0..<old} \<times> {..<CFS_HASH_BKT_NHLIST hs1}) hs1 hs2" by (auto simp only: set_upt)
    then obtain A where m: "moved hf n A hs1 hs2" by (auto simp: rehashed_def)
    have f2: "same_table hs1 hs2" "hs_count hs2 = hs_count hs" "hs_ref hs2 = hs_ref hs" using movedD [OF m] f1 by simp_all
    have t2: "table_ok n hs2" using movedD(4) [OF m] by (simp add: movable_def)
    have i2: "items n hs2 = items old hs" using moved_items [OF m] t1(2) by simp
    have c2: "on_chain n hs2 x bd \<longleftrightarrow> x \<in> items old hs \<and> bd = new_place hf hs1 x" for x bd
    proof -
      have on: "on_chain n hs2 x (new_place hf hs1 x)" if x: "x \<in> items old hs"
      proof -
        obtain bd where o: "on_chain old hs x bd" using x unfolding items_on_chain by blast
        then have "fst bd < old" "snd bd < CFS_HASH_BKT_NHLIST hs1" by (simp_all add: on_chain_def in_table_def nh)
        then have "bd \<in> {0..<old} \<times> {..<CFS_HASH_BKT_NHLIST hs1}" by (simp add: mem_Times_iff)
        moreover have "on_chain n hs1 x bd" by (simp only: c1 o)
        ultimately show ?thesis using two(2) unfolding rehashed_def by blast
      qed
      moreover have "x \<in> items old hs" if "on_chain n hs2 x bd" using that unfolding i2 [symmetric] items_on_chain by blast
      moreover have "bd = bd'" if "on_chain n hs2 x bd" "on_chain n hs2 x bd'" for bd' using t2 that unfolding table_ok_iff by blast
      ultimately show ?thesis by blast
    qed
    define hs3 where "hs3 = hs2\<lparr>hs_rehash_count := hs_rehash_count hs2 + 1, hs_buckets := free_buckets new (hs_buckets hs2),
                      hs_rehash_tbl := False, hs_cur_bits := hs_rehash_bits hs2, hs_rehash_bits := 0\<rparr>"
    have run: "cfs_hash_rehash_worker hf mem hs0 = Inr (False, hs3)"
    proof -
      have "\<not> hs_exiting hs1" using w(2) by (simp add: hs1_def hs0_def)
      then show ?thesis
        unfolding cfs_hash_rehash_worker_def nbkt Let_def hassert_def bk option.case hs3_def hs1_def [symmetric]
        using False nbkt two(1) by auto
    qed
    have f3: "hs_flags hs3 = hs_flags hs" "hs_bkt_bits hs3 = hs_bkt_bits hs" "hs_keys hs3 = hs_keys hs" "hs_cur_bits hs3 = r"
      "hs_rehash_bits hs3 = 0" "\<not> hs_rehash_tbl hs3" "hs_count hs3 = hs_count hs" "hs_ref hs3 = hs_ref hs" "hs_frame hs hs3"
      using f2 f1 by (simp_all add: hs3_def same_table_def hs_frame_def hs1_def hs0_def)
    have n3: "CFS_HASH_NBKT hs3 = new" by (simp add: CFS_HASH_NBKT_def f3 new_def)
    have nh2: "CFS_HASH_BKT_NHLIST hs2 = CFS_HASH_BKT_NHLIST hs" using f2 by (simp add: same_table_def CFS_HASH_BKT_NHLIST_def f1)
    have nh3: "CFS_HASH_BKT_NHLIST hs3 = CFS_HASH_BKT_NHLIST hs" by (rule nhlist_cong [OF f3(2)])
    have c3: "on_chain new hs3 x bd \<longleftrightarrow> on_chain n hs2 x bd" for x bd
    proof -
      have "on_chain new hs3 x bd \<longleftrightarrow> on_chain n hs2 x bd \<and> fst bd < new"
        unfolding on_chain_def in_table_def hs_chain_def nh3 nh2 by (auto simp: hs3_def free_buckets_def n_def)
      then show ?thesis using c2 npr by auto
    qed
    have ok3: "bkt_ok hs3 = bkt_ok hs2" using f2(1) by (intro ext bkt_ok_cong) (simp_all add: f3 f1 same_table_def)
    have "bkt_ok hs3 (hs_buckets hs3 j)" if "j < new" for j
      using t2 that unfolding ok3 table_ok_def by (simp add: hs3_def free_buckets_def n_def)
    note t3 = same_chains [OF t2 this c3]
    have tot: "total new hs3 = total old hs" using total_card [OF t3(1)] total_card [OF inv(4)] t3(2) i2 by (simp add: old_def)
    have "hs_inv hf hs3"
    proof (rule hs_invI)
      show "bits_ok hs3" using inv(1) f3 b by (simp add: bits_ok_def hs_frame_def flag_defs)
      show "placed hf (CFS_HASH_NBKT hs3) (hs_cur_bits hs3) hs3"
        unfolding placed_iff n3 c3 c2 f3 np by blast
      show "hs_count hs3 = int (total (CFS_HASH_NBKT hs3) hs3)" if "cfs_hash_with_counter hs3"
        using inv(6) that unfolding n3 tot f3 old_def by (simp add: flag_defs f3)
    qed (use t3 n3 f3 in simp_all)
    moreover have "hs_items hs3 = hs_items hs" by (simp only: hs_items_def n3 t3(2) i2 old_def)
    ultimately have "hs_same hf hs hs3" using f3 by (simp add: hs_same_def)
    then show ?thesis using run f3(4) unfolding hs0_def by blast
  qed
qed

end

end
