(* ===== verification/CfsHashSpec.thy ===== *)
theory CfsHashSpec
  imports CfsHashMap
begin

text \<open>
  What the hash tables promise: with unique keys a table is a map from keys to
  items, and its operations are those of the map, whatever resizes they make
  on the way and whether the memory for them is found or not.
\<close>

section \<open>Adding and deleting an item\<close>

definition hs_refs :: "('k, 'i) cfs_hash \<Rightarrow> int \<Rightarrow> 'i set \<Rightarrow> ('i \<Rightarrow> int) \<Rightarrow> 'i \<Rightarrow> int" where
  "hs_refs hs d X r = (\<lambda>x. if x \<in> X \<and> \<not> cfs_hash_with_no_itemref hs then r x + d else r x)"

definition hs_place :: "('k \<Rightarrow> u32 \<Rightarrow> u32) \<Rightarrow> ('k, 'i) cfs_hash \<Rightarrow> 'k \<Rightarrow> hs_bd" where
  "hs_place hf hs k = bd_of_key hf (hs_bkt_bits hs) (hs_cur_bits hs) k"

text \<open>The table after an operation with the items \<open>X\<close> and the references \<open>r\<close>.\<close>

definition hs_step :: "('k \<Rightarrow> u32 \<Rightarrow> u32) \<Rightarrow> ('k, 'i) cfs_hash \<Rightarrow> 'i set \<Rightarrow> ('i \<Rightarrow> int) \<Rightarrow> ('k, 'i) cfs_hash \<Rightarrow> bool" where
  "hs_step hf hs X r hs' \<longleftrightarrow> hs_inv hf hs' \<and> hs_frame hs hs' \<and> hs_items hs' = X \<and> hs_ref hs' = r"

lemma hs_stepI: "hs_inv hf hs' \<Longrightarrow> hs_frame hs hs' \<Longrightarrow> hs_items hs' = X \<Longrightarrow> hs_ref hs' = r \<Longrightarrow> hs_step hf hs X r hs'"
  by (simp add: hs_step_def)

lemma on_chain_placed:
  "hs_inv hf hs \<Longrightarrow> on_chain (CFS_HASH_NBKT hs) hs x bd \<Longrightarrow> bd = hs_place hf hs (hs_keys hs x)"
  using hs_invD(5) [of hf hs] unfolding placed_iff hs_place_def by blast

lemma raw_frames:
  "hs_frame hs (raw_add bd x hs)" "hs_frame hs (raw_del bd x hs)" "bits_ok (raw_add bd x hs) = bits_ok hs"
  "bits_ok (raw_del bd x hs) = bits_ok hs" "CFS_HASH_NBKT (raw_add bd x hs) = CFS_HASH_NBKT hs"
  "CFS_HASH_NBKT (raw_del bd x hs) = CFS_HASH_NBKT hs" "in_table n (raw_add bd x hs) = in_table n hs"
  "in_table n (raw_del bd x hs) = in_table n hs"
  by (simp_all add: raw_add_def raw_del_def set_bkt_def hs_frame_def bits_ok_def flag_defs fun_eq_iff in_table_def CFS_HASH_BKT_NHLIST_def)

lemma add_locked_eq:
  "cfs_hash_bd_add_locked bd x hs = (raw_add bd x hs)\<lparr>hs_count := (if cfs_hash_with_counter hs then hs_count hs + 1 else hs_count hs),
     hs_ref := hs_refs hs 1 {x} (hs_ref hs)\<rparr>"
  by (simp add: cfs_hash_bd_add_locked_def Let_def raw_add_def bkt_add_def set_bkt_def flag_defs cfs_hash_get_def hs_refs_def fun_eq_iff)

lemma del_locked_eq:
  assumes "hsb_count (hs_buckets hs (fst bd)) > 0" "cfs_hash_with_counter hs \<Longrightarrow> hs_count hs > 0"
  shows "cfs_hash_bd_del_locked bd x hs = Inr ((raw_del bd x hs)\<lparr>hs_count := (if cfs_hash_with_counter hs then hs_count hs - 1 else hs_count hs),
     hs_ref := hs_refs hs (-1) {x} (hs_ref hs)\<rparr>)"
  using assms
  by (simp add: cfs_hash_bd_del_locked_def Let_def hassert_def raw_del_def bkt_del_def bkt_hnode_del_def set_bkt_def flag_defs
      cfs_hash_put_locked_def hs_refs_def fun_eq_iff)

lemma count_ref_inv:
  assumes "bits_ok hs" "hs_rehash_bits hs = 0" "\<not> hs_rehash_tbl hs" "table_ok (CFS_HASH_NBKT hs) hs"
    "placed hf (CFS_HASH_NBKT hs) (hs_cur_bits hs) hs" "cfs_hash_with_counter hs \<Longrightarrow> c = int (total (CFS_HASH_NBKT hs) hs)"
  shows "hs_inv hf (hs\<lparr>hs_count := c, hs_ref := r\<rparr>)" "hs_items (hs\<lparr>hs_count := c, hs_ref := r\<rparr>) = hs_items hs"
proof -
  have s: "same_core hs (hs\<lparr>hs_count := c, hs_ref := r\<rparr>)" by (simp add: same_core_def)
  have n: "CFS_HASH_NBKT (hs\<lparr>hs_count := c, hs_ref := r\<rparr>) = CFS_HASH_NBKT hs" by (simp add: CFS_HASH_NBKT_def)
  show "hs_items (hs\<lparr>hs_count := c, hs_ref := r\<rparr>) = hs_items hs"
    by (simp add: hs_items_def n same_core [OF s])
  have e: "bits_ok (hs\<lparr>hs_count := c, hs_ref := r\<rparr>) = bits_ok hs"
    "cfs_hash_with_counter (hs\<lparr>hs_count := c, hs_ref := r\<rparr>) = cfs_hash_with_counter hs"
    by (simp_all add: bits_ok_def flag_defs)
  show "hs_inv hf (hs\<lparr>hs_count := c, hs_ref := r\<rparr>)"
  proof (rule hs_invI)
    show "hs_count (hs\<lparr>hs_count := c, hs_ref := r\<rparr>) = int (total (CFS_HASH_NBKT (hs\<lparr>hs_count := c, hs_ref := r\<rparr>)) (hs\<lparr>hs_count := c, hs_ref := r\<rparr>))"
      if "cfs_hash_with_counter (hs\<lparr>hs_count := c, hs_ref := r\<rparr>)"
      using assms(6) that unfolding n same_core [OF s] e by simp
  qed (use assms in \<open>simp_all add: n same_core [OF s] placed_def e\<close>)
qed

lemma frame_count_ref [simp]: "hs_frame hs (hs'\<lparr>hs_count := c, hs_ref := r\<rparr>) = hs_frame hs hs'"
  by (simp add: hs_frame_def)

context hash_fun
begin

lemma place_in_table:
  assumes "hs_inv hf hs"
  shows "in_table (CFS_HASH_NBKT hs) hs (hs_place hf hs k)"
  using place_range bits_facts [OF hs_invD(1) [OF assms]]
  by (simp add: in_table_def hs_place_def CFS_HASH_NBKT_def CFS_HASH_BKT_NHLIST_def)

lemma add_locked_step:
  assumes i: "hs_inv hf hs" and x: "x \<notin> hs_items hs"
  shows "hs_step hf hs (insert x (hs_items hs)) (hs_refs hs 1 {x} (hs_ref hs)) (cfs_hash_bd_add_locked (hs_place hf hs (hs_keys hs x)) x hs)"
proof -
  let ?bd = "hs_place hf hs (hs_keys hs x)" and ?n = "CFS_HASH_NBKT hs"
  let ?a = "raw_add ?bd x hs"
  note inv = hs_invD [OF i]
  have no: "x \<notin> set (hs_chain hs bd)" if "in_table ?n hs bd" for bd
    using x that by (auto simp: hs_items_def items_def)
  note a = raw_add_ok [OF inv(4) place_in_table [OF i] no]
  have o: "on_chain ?n ?a y bd \<longleftrightarrow> on_chain ?n hs y bd \<or> y = x \<and> bd = ?bd" for y bd
    using a(3) [of bd] place_in_table [OF i, of "hs_keys hs x"] unfolding on_chain_def raw_frames by (cases "in_table ?n hs bd") auto
  have f: "hs_keys ?a = hs_keys hs" "hs_cur_bits ?a = hs_cur_bits hs" "hs_bkt_bits ?a = hs_bkt_bits hs"
    "hs_rehash_bits ?a = hs_rehash_bits hs" "hs_rehash_tbl ?a = hs_rehash_tbl hs" "hs_flags ?a = hs_flags hs"
    using raw_frame(1) [of hs ?bd x] by (simp_all add: same_table_def)
  have "placed hf ?n (hs_cur_bits hs) ?a"
    using inv(5) unfolding placed_iff o f by (auto simp: hs_place_def)
  then have c: "hs_inv hf (?a\<lparr>hs_count := c, hs_ref := r\<rparr>) \<and> hs_items (?a\<lparr>hs_count := c, hs_ref := r\<rparr>) = hs_items ?a"
    if "cfs_hash_with_counter hs \<Longrightarrow> c = int (total ?n hs) + 1" for c r
    using count_ref_inv [of ?a hf c r] inv a f that by (simp add: raw_frames flag_defs)
  have "hs_items ?a = insert x (hs_items hs)"
    by (rule set_eqI) (use o in \<open>auto simp: hs_items_def items_on_chain raw_frames\<close>)
  moreover have "cfs_hash_with_counter hs \<Longrightarrow> (if cfs_hash_with_counter hs then hs_count hs + 1 else hs_count hs) = int (total ?n hs) + 1"
    using inv(6) by simp
  ultimately show ?thesis
    unfolding add_locked_eq using c raw_frames(1) by (intro hs_stepI) simp_all
qed

lemma del_locked_step:
  assumes i: "hs_inv hf hs" and lt: "card (hs_items hs) < 2 ^ 32" and x: "x \<in> hs_items hs"
  shows "\<exists>hs'. cfs_hash_bd_del_locked (hs_place hf hs (hs_keys hs x)) x hs = Inr hs'
    \<and> hs_step hf hs (hs_items hs - {x}) (hs_refs hs (-1) {x} (hs_ref hs)) hs'
    \<and> (\<forall>bd. bd \<noteq> hs_place hf hs (hs_keys hs x) \<longrightarrow> hs_chain hs' bd = hs_chain hs bd) \<and> hs_cur_bits hs' = hs_cur_bits hs"
proof -
  let ?bd = "hs_place hf hs (hs_keys hs x)" and ?n = "CFS_HASH_NBKT hs"
  let ?a = "raw_del ?bd x hs"
  note inv = hs_invD [OF i]
  have t: "in_table ?n hs ?bd" "x \<in> set (hs_chain hs ?bd)"
    using x on_chain_placed [OF i] unfolding hs_items_def items_on_chain on_chain_def by blast+
  note a = raw_del_ok [OF inv(4) t]
  have o: "on_chain ?n ?a y bd \<longleftrightarrow> on_chain ?n hs y bd \<and> y \<noteq> x" for y bd
    using a(3) [of bd] unfolding on_chain_def raw_frames by (cases "in_table ?n hs bd") auto
  have f: "hs_keys ?a = hs_keys hs" "hs_cur_bits ?a = hs_cur_bits hs" "hs_bkt_bits ?a = hs_bkt_bits hs"
    "hs_rehash_bits ?a = hs_rehash_bits hs" "hs_rehash_tbl ?a = hs_rehash_tbl hs" "hs_flags ?a = hs_flags hs"
    using raw_frame(2) [of hs ?bd x] by (simp_all add: same_table_def)
  have "placed hf ?n (hs_cur_bits hs) ?a"
    using inv(5) unfolding placed_iff o f by blast
  then have c: "hs_inv hf (?a\<lparr>hs_count := c, hs_ref := r\<rparr>) \<and> hs_items (?a\<lparr>hs_count := c, hs_ref := r\<rparr>) = hs_items ?a"
    if "cfs_hash_with_counter hs \<Longrightarrow> c = int (total ?n hs) - 1" for c r
    using count_ref_inv [of ?a hf c r] inv a(1) a(2) [symmetric] f that by (simp add: raw_frames flag_defs)
  have it: "hs_items ?a = hs_items hs - {x}"
    by (rule set_eqI) (use o in \<open>auto simp: hs_items_def items_on_chain raw_frames\<close>)
  have pos: "hsb_count (hs_buckets hs (fst ?bd)) > 0"
    using bucket_count_pos [OF inv(4) t] lt by (simp add: hs_items_def total_card [OF inv(4)])
  have cnt: "hs_count hs > 0" if "cfs_hash_with_counter hs"
    using inv(6) [OF that] a(2) by simp
  have ch: "hs_chain ?a bd = hs_chain hs bd" if "bd \<noteq> ?bd" for bd
    using that by (cases bd; cases ?bd) (auto simp: hs_chain_def raw_del_def set_bkt_def bkt_add_simps)
  have "cfs_hash_with_counter hs \<Longrightarrow> (if cfs_hash_with_counter hs then hs_count hs - 1 else hs_count hs) = int (total ?n hs) - 1"
    using inv(6) by simp
  note c = c [OF this]
  have "hs_step hf hs (hs_items hs - {x}) (hs_refs hs (-1) {x} (hs_ref hs))
     (?a\<lparr>hs_count := (if cfs_hash_with_counter hs then hs_count hs - 1 else hs_count hs), hs_ref := hs_refs hs (-1) {x} (hs_ref hs)\<rparr>)"
    using c raw_frames(2) it by (intro hs_stepI) simp_all
  moreover have "cfs_hash_bd_del_locked ?bd x hs
      = Inr (?a\<lparr>hs_count := (if cfs_hash_with_counter hs then hs_count hs - 1 else hs_count hs), hs_ref := hs_refs hs (-1) {x} (hs_ref hs)\<rparr>)"
    by (rule del_locked_eq) (use pos cnt in simp_all)
  ultimately show ?thesis using ch f(2) by (auto simp: hs_chain_def)
qed

lemma maybe_rehash_same:
  assumes i: "hs_inv hf hs" and lt: "card (hs_items hs) < 2 ^ 32"
  shows "\<exists>hs'. cfs_hash_maybe_rehash hf mem hs = Inr hs' \<and> hs_same hf hs hs'
    \<and> ((\<forall>x. mem x) \<longrightarrow> cfs_hash_rehash_bits hs > 0 \<longrightarrow> int (hs_cur_bits hs') = cfs_hash_rehash_bits hs)"
proof (cases "cfs_hash_rehash_bits hs > 0")
  case False
  then show ?thesis using hs_same_refl [OF i] by (simp add: cfs_hash_maybe_rehash_def)
next
  case True
  note inv = hs_invD [OF i]
  define r where "r = nat (cfs_hash_rehash_bits hs)"
  have w: "cfs_hash_with_rehash hs" "\<not> cfs_hash_with_no_lock hs" "\<not> hs_exiting hs"
    using True by (auto simp: cfs_hash_rehash_bits_def split: if_splits)
  have "r = hs_cur_bits hs + 1 \<and> hs_cur_bits hs < hs_max_bits hs \<or> r + 1 = hs_cur_bits hs \<and> hs_min_bits hs < hs_cur_bits hs"
    using True by (auto simp: r_def cfs_hash_rehash_bits_def split: if_splits)
  from worker_ok [OF i _ w(1,3) this, of mem] lt obtain e hs' where
    "cfs_hash_rehash_worker hf mem (hs\<lparr>hs_rehash_bits := r\<rparr>) = Inr (e, hs')" "hs_same hf hs hs'"
    "(\<forall>x. mem x) \<longrightarrow> \<not> (hs_min_theta hs \<le> cfs_hash_theta hs \<and> cfs_hash_theta hs \<le> hs_max_theta hs) \<longrightarrow> hs_cur_bits hs' = r"
    by (auto simp: total_card [OF inv(4)] hs_items_def)
  moreover have "\<not> (hs_min_theta hs \<le> cfs_hash_theta hs \<and> cfs_hash_theta hs \<le> hs_max_theta hs)"
    using True by (auto simp: cfs_hash_rehash_bits_def split: if_splits)
  ultimately have "cfs_hash_rehash_worker hf mem (hs\<lparr>hs_rehash_bits := r\<rparr>) = Inr (e, hs')" "hs_same hf hs hs'"
    "(\<forall>x. mem x) \<longrightarrow> hs_cur_bits hs' = r" by blast+
  then show ?thesis
    using True w by (simp add: cfs_hash_maybe_rehash_def cfs_hash_rehash_def hassert_def Let_def r_def)
qed

end

section \<open>The map of a table\<close>

definition hs_rep :: "('k \<Rightarrow> u32 \<Rightarrow> u32) \<Rightarrow> ('k \<rightharpoonup> 'i) \<Rightarrow> ('i \<Rightarrow> int) \<Rightarrow> ('k, 'i) cfs_hash \<Rightarrow> bool" where
  "hs_rep hf m r hs \<longleftrightarrow> hs_inv hf hs \<and> hs_ref hs = r \<and> \<not> hs_exiting hs \<and> \<not> hs_iterating hs \<and> hs_iterators hs = 0
     \<and> (\<forall>k x. m k = Some x \<longleftrightarrow> x \<in> hs_items hs \<and> hs_keys hs x = k)"

lemma hs_repD:
  assumes "hs_rep hf m r hs"
  shows "hs_inv hf hs" "hs_ref hs = r" "\<not> hs_exiting hs" "\<not> hs_iterating hs" "hs_iterators hs = 0"
    "m k = Some x \<longleftrightarrow> x \<in> hs_items hs \<and> hs_keys hs x = k"
  using assms by (simp_all add: hs_rep_def)

lemma rep_step:
  assumes "hs_rep hf m r hs" "hs_step hf hs X r' hs'" "\<And>k x. m' k = Some x \<longleftrightarrow> x \<in> X \<and> hs_keys hs x = k"
  shows "hs_rep hf m' r' hs'"
  using assms by (simp add: hs_rep_def hs_step_def hs_frame_def)

lemma rep_same: "hs_rep hf m r hs \<Longrightarrow> hs_same hf hs hs' \<Longrightarrow> hs_rep hf m r hs'"
  by (simp add: hs_rep_def hs_same_def hs_frame_def)

lemma hs_step_same: "hs_step hf hs X r hs1 \<Longrightarrow> hs_same hf hs1 hs2 \<Longrightarrow> hs_step hf hs X r hs2"
  unfolding hs_step_def hs_same_def using hs_frame_trans by metis

lemma rep_card:
  assumes "hs_rep hf m r hs"
  shows "card (hs_items hs) = card (dom m)" and rep_dom: "dom m = hs_keys hs ` hs_items hs"
proof -
  note m = hs_repD(6) [OF assms]
  have "k \<in> dom m \<longleftrightarrow> k \<in> hs_keys hs ` hs_items hs" for k
  proof -
    have "k \<in> dom m \<longleftrightarrow> (\<exists>x. m k = Some x)" by auto
    also have "\<dots> \<longleftrightarrow> (\<exists>x. x \<in> hs_items hs \<and> hs_keys hs x = k)" by (simp only: m)
    finally show ?thesis by auto
  qed
  then show d: "dom m = hs_keys hs ` hs_items hs" by blast
  have "inj_on (hs_keys hs) (hs_items hs)"
  proof (rule inj_onI)
    fix x y assume a: "x \<in> hs_items hs" "y \<in> hs_items hs" "hs_keys hs x = hs_keys hs y"
    have "m (hs_keys hs x) = Some x" by (intro m [THEN iffD2] conjI a refl)
    moreover have "m (hs_keys hs x) = Some y" by (intro m [THEN iffD2] conjI a a(3) [symmetric])
    ultimately show "x = y" by simp
  qed
  then show "card (hs_items hs) = card (dom m)" by (simp add: card_image d)
qed

lemma find_the:
  assumes "e \<in> set xs" "P e" "\<And>y. y \<in> set xs \<Longrightarrow> P y \<Longrightarrow> y = e"
  shows "find P xs = Some e"
  using assms(1,3)
proof (induction xs)
  case (Cons a xs)
  show ?case
  proof (cases "P a")
    case True
    then have "a = e" using Cons.prems(2) by simp
    then show ?thesis using True by simp
  next
    case False
    then have "e \<in> set xs" using Cons.prems(1) assms(2) by auto
    then show ?thesis using False Cons.IH Cons.prems(2) by simp
  qed
qed simp

lemma find_key:
  assumes "hs_rep hf m r hs" "in_table (CFS_HASH_NBKT hs) hs (hs_place hf hs k)"
  shows "find (\<lambda>e. hs_keys hs e = k) (hs_chain hs (hs_place hf hs k)) = m k"
proof -
  note m = hs_repD(6) [OF assms(1)]
  have on: "x \<in> set (hs_chain hs (hs_place hf hs k)) \<and> hs_keys hs x = k \<longleftrightarrow> x \<in> hs_items hs \<and> hs_keys hs x = k" for x
    using assms(2) on_chain_placed [OF hs_repD(1) [OF assms(1)], of x]
    unfolding hs_items_def items_on_chain on_chain_def by blast
  show ?thesis
  proof (cases "m k")
    case None
    then have "x \<in> set (hs_chain hs (hs_place hf hs k)) \<Longrightarrow> hs_keys hs x \<noteq> k" for x using on [of x] m [of k x] by simp
    then show ?thesis using None by (auto simp: find_None_iff)
  next
    case (Some e)
    then have "e \<in> set (hs_chain hs (hs_place hf hs k)) \<and> hs_keys hs e = k" using on [of e] m [of k e] by blast
    moreover have "y = e" if "y \<in> set (hs_chain hs (hs_place hf hs k))" "hs_keys hs y = k" for y
    proof -
      have "m k = Some y" using on [of y] that m [of k y] by blast
      then show ?thesis using Some by simp
    qed
    ultimately show ?thesis unfolding Some by (intro find_the) blast+
  qed
qed

text \<open>The operations of a client and of the map.\<close>

datatype ('k, 'i) hs_op = Hs_add_unique 'i | Hs_findadd_unique 'i | Hs_lookup 'k | Hs_del_key 'k | Hs_del 'i
  | Hs_cond_del "'i \<Rightarrow> bool" | Hs_is_empty | Hs_size_get

datatype 'i hs_ret = Hs_rc int | Hs_item "'i option" | Hs_flag bool | Hs_size u64 | Hs_void

fun hs_do :: "('k \<Rightarrow> u32 \<Rightarrow> u32) \<Rightarrow> (nat option \<Rightarrow> bool) \<Rightarrow> ('k, 'i) hs_op \<Rightarrow> ('k, 'i) cfs_hash \<Rightarrow> ('i hs_ret \<times> ('k, 'i) cfs_hash) hs_res" where
  "hs_do hf mem (Hs_add_unique x) hs = hbind (cfs_hash_add_unique hf mem (hs_keys hs x) x hs) (\<lambda>(rc, hs1). Inr (Hs_rc rc, hs1))"
| "hs_do hf mem (Hs_findadd_unique x) hs =
     hbind (cfs_hash_findadd_unique hf mem (hs_keys hs x) x hs) (\<lambda>(e, hs1). Inr (Hs_item (Some e), hs1))"
| "hs_do hf mem (Hs_lookup k) hs = hbind (cfs_hash_lookup hf k hs) (\<lambda>(e, hs1). Inr (Hs_item e, hs1))"
| "hs_do hf mem (Hs_del_key k) hs = hbind (cfs_hash_del_key hf mem k hs) (\<lambda>(e, hs1). Inr (Hs_item e, hs1))"
| "hs_do hf mem (Hs_del x) hs = hbind (cfs_hash_del hf mem (hs_keys hs x) (Some x) hs) (\<lambda>(e, hs1). Inr (Hs_item e, hs1))"
| "hs_do hf mem (Hs_cond_del c) hs = hbind (cfs_hash_cond_del hf mem c hs) (\<lambda>hs1. Inr (Hs_void, hs1))"
| "hs_do hf mem Hs_is_empty hs = hbind (cfs_hash_is_empty hf mem hs) (\<lambda>(e, hs1). Inr (Hs_flag e, hs1))"
| "hs_do hf mem Hs_size_get hs = hbind (cfs_hash_size_get hf mem hs) (\<lambda>(n, hs1). Inr (Hs_size n, hs1))"

fun hs_run :: "('k \<Rightarrow> u32 \<Rightarrow> u32) \<Rightarrow> ((nat option \<Rightarrow> bool) \<times> ('k, 'i) hs_op) list \<Rightarrow> ('k, 'i) cfs_hash
    \<Rightarrow> ('i hs_ret list \<times> ('k, 'i) cfs_hash) hs_res" where
  "hs_run hf [] hs = Inr ([], hs)"
| "hs_run hf ((mem, op) # ops) hs =
     hbind (hs_do hf mem op hs) (\<lambda>(r, hs1). hbind (hs_run hf ops hs1) (\<lambda>(rs, hs2). Inr (r # rs, hs2)))"

text \<open>The map counts the references it holds and those it hands out.\<close>

definition add_refs :: "bool \<Rightarrow> int \<Rightarrow> 'i set \<Rightarrow> ('i \<Rightarrow> int) \<Rightarrow> 'i \<Rightarrow> int" where
  "add_refs noref d X r = (\<lambda>x. if x \<in> X \<and> \<not> noref then r x + d else r x)"

fun map_do :: "('i \<Rightarrow> 'k) \<Rightarrow> bool \<Rightarrow> ('k, 'i) hs_op \<Rightarrow> ('k \<rightharpoonup> 'i) \<times> ('i \<Rightarrow> int) \<Rightarrow> ('i hs_ret \<times> ('k \<rightharpoonup> 'i) \<times> ('i \<Rightarrow> int)) hs_res" where
  "map_do key noref (Hs_add_unique x) (m, r) =
     (case m (key x) of
        Some e \<Rightarrow> if e = x then Inl Hs_assert else Inr (Hs_rc (- EALREADY), m, r)
      | None \<Rightarrow> Inr (Hs_rc 0, m(key x \<mapsto> x), add_refs noref 1 {x} r))"
| "map_do key noref (Hs_findadd_unique x) (m, r) =
     (case m (key x) of
        Some e \<Rightarrow> if e = x then Inl Hs_assert else Inr (Hs_item (Some e), m, r(e := r e + 1))
      | None \<Rightarrow> Inr (Hs_item (Some x), m(key x \<mapsto> x), add_refs noref 1 {x} r))"
| "map_do key noref (Hs_lookup k) (m, r) =
     Inr (Hs_item (m k), m, (case m k of Some e \<Rightarrow> r(e := r e + 1) | None \<Rightarrow> r))"
| "map_do key noref (Hs_del_key k) (m, r) =
     Inr (Hs_item (m k), m(k := None), (case m k of Some e \<Rightarrow> add_refs noref (-1) {e} r | None \<Rightarrow> r))"
| "map_do key noref (Hs_del x) (m, r) =
     Inr (Hs_item (Some x), if m (key x) = Some x then (m(key x := None), add_refs noref (-1) {x} r) else (m, r))"
| "map_do key noref (Hs_cond_del c) (m, r) =
     Inr (Hs_void, (\<lambda>k. case m k of Some e \<Rightarrow> if c e then None else Some e | None \<Rightarrow> None),
       add_refs noref (-1) {x. m (key x) = Some x \<and> c x} r)"
| "map_do key noref Hs_is_empty (m, r) = Inr (Hs_flag (dom m = {}), m, r)"
| "map_do key noref Hs_size_get (m, r) = Inr (Hs_size (of_nat (card (dom m))), m, r)"

fun map_run :: "('i \<Rightarrow> 'k) \<Rightarrow> bool \<Rightarrow> ('k, 'i) hs_op list \<Rightarrow> ('k \<rightharpoonup> 'i) \<times> ('i \<Rightarrow> int)
    \<Rightarrow> ('i hs_ret list \<times> ('k \<rightharpoonup> 'i) \<times> ('i \<Rightarrow> int)) hs_res" where
  "map_run key noref [] s = Inr ([], s)"
| "map_run key noref (op # ops) s =
     hbind (map_do key noref op s) (\<lambda>(r, s1). hbind (map_run key noref ops s1) (\<lambda>(rs, s2). Inr (r # rs, s2)))"

text \<open>The two agree on an operation: the same fault, or the same result and tables
  that represent each other.\<close>

definition agrees :: "('k \<Rightarrow> u32 \<Rightarrow> u32) \<Rightarrow> ('k, 'i) cfs_hash \<Rightarrow> ('a \<times> ('k \<rightharpoonup> 'i) \<times> ('i \<Rightarrow> int)) hs_res \<Rightarrow> ('a \<times> ('k, 'i) cfs_hash) hs_res \<Rightarrow> bool" where
  "agrees hf hs a c \<longleftrightarrow> (case a of Inl e \<Rightarrow> c = Inl e
     | Inr (x, m, r) \<Rightarrow> \<exists>hs'. c = Inr (x, hs') \<and> hs_rep hf m r hs' \<and> hs_keys hs' = hs_keys hs \<and> hs_flags hs' = hs_flags hs)"

lemma agreesI: "c = Inr (x, hs') \<Longrightarrow> hs_rep hf m r hs' \<Longrightarrow> hs_frame hs hs' \<Longrightarrow> agrees hf hs (Inr (x, m, r)) c"
  by (auto simp: agrees_def hs_frame_def)

end
