(* ===== verification/CfsHashRefine.thy ===== *)
theory CfsHashRefine
  imports CfsHashSpec
begin

text \<open>
  The refinement of the map by the hash tables, the visits of the iterations,
  and what the tables do not keep of their comments.
\<close>

section \<open>Lookups\<close>

lemma dual_one:
  "hs_inv hf hs \<Longrightarrow> cfs_hash_dual_bd_get hf key hs = Inr [hs_place hf hs key]"
  using hs_invD(3) [of hf hs] by (simp add: cfs_hash_dual_bd_get_def cfs_hash_bd_from_key_def hassert_def hs_place_def)

lemma count_sum:
  assumes "\<And>b. b < n \<Longrightarrow> bkt_ok hs (hs_buckets hs b)" "total n hs < 2 ^ 32"
  shows "sum_list (map (\<lambda>b. ucast (hsb_count (hs_buckets hs b))) [0..<n]) = (of_nat (total n hs) :: u64)"
  using assms
proof (induction n)
  case 0
  then show ?case by (simp add: total_def)
next
  case (Suc n)
  let ?l = "bkt_len (CFS_HASH_BKT_NHLIST hs) (hs_buckets hs n)"
  have t: "total (Suc n) hs = total n hs + ?l" by (simp add: total_def)
  have c: "hsb_count (hs_buckets hs n) = of_nat ?l" using Suc.prems(1) [of n] by (simp add: bkt_ok_def)
  have "?l < 2 ^ 32" using Suc.prems(2) t by linarith
  then have "(ucast (of_nat ?l :: u32) :: u64) = of_nat ?l" by (simp add: unsigned_of_nat take_bit_nat_eq_self)
  then show ?case using Suc t by (simp add: c)
qed

lemma card_less_sub: "card (hs_items hs) < N \<Longrightarrow> A \<subseteq> hs_items hs \<Longrightarrow> card A < N"
  unfolding hs_items_def by (meson card_mono finite_items le_less_trans)

lemma it_masks [simp]:
  "mask_ref IT_FIND" "\<not> mask_add IT_FIND" "\<not> mask_del IT_FIND" "\<not> mask_ref IT_PEEK" "\<not> mask_add IT_PEEK" "\<not> mask_del IT_PEEK"
  "\<not> mask_ref IT_FINDDEL" "\<not> mask_add IT_FINDDEL" "mask_del IT_FINDDEL"
  by (simp_all add: IT_FIND_def IT_PEEK_def IT_FINDDEL_def)

lemma agrees_Inr [simp]: "hs_rep hf m r hs' \<Longrightarrow> hs_frame hs hs' \<Longrightarrow> agrees hf hs (Inr (x, m, r)) (Inr (x, hs'))"
  by (rule agreesI [OF refl])

context hash_fun
begin

lemma intent_look:
  assumes "hs_rep hf m r hs" "\<not> mask_add it" "\<not> mask_del it"
  shows "cfs_hash_bd_lookup_intent (hs_place hf hs k) k None it hs
    = Inr (m k, (case m k of Some e \<Rightarrow> if mask_ref it then cfs_hash_get e hs else hs | None \<Rightarrow> hs))"
  using assms(2,3) find_key [OF assms(1) place_in_table [OF hs_repD(1) [OF assms(1)]], of k]
  by (simp add: cfs_hash_bd_lookup_intent_def split: option.split)

lemma multi_look:
  assumes "hs_rep hf m r hs" "\<not> mask_add it" "\<not> mask_del it"
  shows "cfs_hash_multi_bd_lookup [hs_place hf hs k] k None it hs
    = Inr (m k, (case m k of Some e \<Rightarrow> if mask_ref it then cfs_hash_get e hs else hs | None \<Rightarrow> hs))"
  by (simp add: intent_look [OF assms] split: option.split)

lemma rep_get: "hs_rep hf m r hs \<Longrightarrow> hs_rep hf m (r(x := r x + 1)) (cfs_hash_get x hs)"
  by (simp add: hs_rep_def cfs_hash_get_def)

lemma frame_get [simp]: "hs_frame hs (cfs_hash_get x hs)"
  by (simp add: hs_frame_def cfs_hash_get_def)

lemma lookup_agrees:
  assumes "hs_rep hf m r hs"
  shows "agrees hf hs (map_do (hs_keys hs) noref (Hs_lookup k) (m, r)) (hs_do hf mem (Hs_lookup k) hs)"
proof -
  have l: "cfs_hash_lookup hf k hs = Inr (m k, (case m k of Some e \<Rightarrow> cfs_hash_get e hs | None \<Rightarrow> hs))"
    using multi_look [OF assms, of IT_FIND k]
    by (simp add: cfs_hash_lookup_def dual_one [OF hs_repD(1) [OF assms]] cfs_hash_multi_bd_lookup_locked_def del: cfs_hash_multi_bd_lookup.simps
        split: option.split)
  show ?thesis
    unfolding map_do.simps hs_do.simps l hbind_simps prod.case
    by (rule agreesI [OF refl]) (auto split: option.split intro: assms rep_get)
qed

lemma add_refs_eq: "noref = cfs_hash_with_no_itemref hs \<Longrightarrow> add_refs noref d X r = hs_refs hs d X r"
  by (simp add: add_refs_def hs_refs_def)

lemma card_step:
  assumes "hs_step hf hs X r hs'" "card X < 2 ^ 32"
  shows "\<exists>hs2. cfs_hash_maybe_rehash hf mem hs' = Inr hs2 \<and> hs_step hf hs X r hs2"
  using maybe_rehash_same [of hs' mem] assms hs_step_same [OF assms(1)] unfolding hs_step_def by auto

lemma find_or_add:
  assumes rep: "hs_rep hf m r hs" and lt: "Suc (card (dom m)) < 2 ^ 32"
  shows "m (hs_keys hs x) = Some e \<Longrightarrow> e \<noteq> x \<Longrightarrow>
      cfs_hash_find_or_add hf mem (hs_keys hs x) x noref hs = Inr (e, if noref then hs else cfs_hash_get e hs)"
    "m (hs_keys hs x) = Some x \<Longrightarrow> cfs_hash_find_or_add hf mem (hs_keys hs x) x noref hs = Inl Hs_assert"
    "m (hs_keys hs x) = None \<Longrightarrow> \<exists>hs'. cfs_hash_find_or_add hf mem (hs_keys hs x) x noref hs = Inr (x, hs')
      \<and> hs_step hf hs (insert x (hs_items hs)) (hs_refs hs 1 {x} r) hs'"
proof -
  note i = hs_repD(1) [OF rep]
  have h: "hs_hashed hs x \<longleftrightarrow> m (hs_keys hs x) = Some x" by (simp add: hashed_iff hs_repD(6) [OF rep])
  let ?it = "if noref then IT_PEEK else IT_FIND"
  have look: "cfs_hash_multi_bd_lookup [hs_place hf hs (hs_keys hs x)] (hs_keys hs x) None ?it hs
    = Inr (m (hs_keys hs x), (case m (hs_keys hs x) of Some e \<Rightarrow> if noref then hs else cfs_hash_get e hs | None \<Rightarrow> hs))"
    using multi_look [OF rep, of ?it] by (simp split: option.split del: cfs_hash_multi_bd_lookup.simps)
  note d = cfs_hash_find_or_add_def hassert_def dual_one [OF i] cfs_hash_multi_bd_findadd_locked_def h look
  show "cfs_hash_find_or_add hf mem (hs_keys hs x) x noref hs = Inr (e, if noref then hs else cfs_hash_get e hs)"
    if "m (hs_keys hs x) = Some e" "e \<noteq> x"
    using that by (simp add: d del: cfs_hash_multi_bd_lookup.simps)
  show "cfs_hash_find_or_add hf mem (hs_keys hs x) x noref hs = Inl Hs_assert" if "m (hs_keys hs x) = Some x"
    using that by (simp add: d del: cfs_hash_multi_bd_lookup.simps)
  assume none: "m (hs_keys hs x) = None"
  then have x: "x \<notin> hs_items hs" using hs_repD(6) [OF rep, of "hs_keys hs x" x] by simp
  note s = add_locked_step [OF i x]
  have "card (insert x (hs_items hs)) < 2 ^ 32" using lt rep_card(1) [OF rep] x by (simp add: hs_items_def)
  from card_step [OF s this, of mem] show "\<exists>hs'. cfs_hash_find_or_add hf mem (hs_keys hs x) x noref hs = Inr (x, hs')
      \<and> hs_step hf hs (insert x (hs_items hs)) (hs_refs hs 1 {x} r) hs'"
    using none hs_repD(2) [OF rep] by (auto simp: d simp del: cfs_hash_multi_bd_lookup.simps)
qed

lemma rep_insert:
  assumes "hs_rep hf m r hs" "hs_step hf hs (insert x (hs_items hs)) r' hs'" "m (hs_keys hs x) = None"
  shows "hs_rep hf (m(hs_keys hs x \<mapsto> x)) r' hs'"
proof (rule rep_step [OF assms(1,2)])
  fix k y
  show "(m(hs_keys hs x \<mapsto> x)) k = Some y \<longleftrightarrow> y \<in> insert x (hs_items hs) \<and> hs_keys hs y = k"
    using hs_repD(6) [OF assms(1), of k y] assms(3) by auto
qed

lemma add_unique_agrees:
  assumes rep: "hs_rep hf m r hs" and lt: "Suc (card (dom m)) < 2 ^ 32" and n: "noref = cfs_hash_with_no_itemref hs"
  shows "agrees hf hs (map_do (hs_keys hs) noref (Hs_add_unique x) (m, r)) (hs_do hf mem (Hs_add_unique x) hs)"
    "agrees hf hs (map_do (hs_keys hs) noref (Hs_findadd_unique x) (m, r)) (hs_do hf mem (Hs_findadd_unique x) hs)"
proof -
  note f = find_or_add [OF rep lt]
  consider "m (hs_keys hs x) = Some x" | e where "m (hs_keys hs x) = Some e" "e \<noteq> x" | "m (hs_keys hs x) = None"
    by (cases "m (hs_keys hs x)") auto
  then have "agrees hf hs (map_do (hs_keys hs) noref (Hs_add_unique x) (m, r)) (hs_do hf mem (Hs_add_unique x) hs)
    \<and> agrees hf hs (map_do (hs_keys hs) noref (Hs_findadd_unique x) (m, r)) (hs_do hf mem (Hs_findadd_unique x) hs)"
  proof cases
    case 1
    then show ?thesis
      by (simp add: agrees_def cfs_hash_add_unique_def cfs_hash_findadd_unique_def f(2))
  next
    case 2
    then have "hs_do hf mem (Hs_add_unique x) hs = Inr (Hs_rc (- EALREADY), hs)"
      "hs_do hf mem (Hs_findadd_unique x) hs = Inr (Hs_item (Some e), cfs_hash_get e hs)"
      using f(1) [OF 2] by (simp_all add: cfs_hash_add_unique_def cfs_hash_findadd_unique_def)
    then show ?thesis
      using 2 rep rep_get [OF rep, of e] by simp
  next
    case 3
    obtain h1 where one: "cfs_hash_find_or_add hf mem (hs_keys hs x) x True hs = Inr (x, h1)"
      "hs_step hf hs (insert x (hs_items hs)) (hs_refs hs 1 {x} r) h1" using f(3) [OF 3] by blast
    obtain h2 where two: "cfs_hash_find_or_add hf mem (hs_keys hs x) x False hs = Inr (x, h2)"
      "hs_step hf hs (insert x (hs_items hs)) (hs_refs hs 1 {x} r) h2" using f(3) [OF 3] by blast
    have fr: "hs_frame hs h1" "hs_frame hs h2" using one two by (simp_all add: hs_step_def)
    have "hs_do hf mem (Hs_add_unique x) hs = Inr (Hs_rc 0, h1)"
      "hs_do hf mem (Hs_findadd_unique x) hs = Inr (Hs_item (Some x), h2)"
      using one two by (simp_all add: cfs_hash_add_unique_def cfs_hash_findadd_unique_def)
    then show ?thesis
      using 3 fr rep_insert [OF rep one(2) 3] rep_insert [OF rep two(2) 3]
      by (simp add: add_refs_eq [OF n])
  qed
  then show "agrees hf hs (map_do (hs_keys hs) noref (Hs_add_unique x) (m, r)) (hs_do hf mem (Hs_add_unique x) hs)"
    "agrees hf hs (map_do (hs_keys hs) noref (Hs_findadd_unique x) (m, r)) (hs_do hf mem (Hs_findadd_unique x) hs)"
    by blast+
qed

lemma rep_delete:
  assumes "hs_rep hf m r hs" "hs_step hf hs (hs_items hs - {x}) r' hs'" "m (hs_keys hs x) = Some x"
  shows "hs_rep hf (m(hs_keys hs x := None)) r' hs'"
proof (rule rep_step [OF assms(1,2)])
  fix k y
  show "(m(hs_keys hs x := None)) k = Some y \<longleftrightarrow> y \<in> hs_items hs - {x} \<and> hs_keys hs y = k"
    using hs_repD(6) [OF assms(1), of k y] hs_repD(6) [OF assms(1), of "hs_keys hs x" y] assms(3) by auto
qed

lemma delete_step:
  assumes rep: "hs_rep hf m r hs" and lt: "card (dom m) < 2 ^ 32" and x: "m (hs_keys hs x) = Some x"
  shows "\<exists>h1 h2. cfs_hash_bd_del_locked (hs_place hf hs (hs_keys hs x)) x hs = Inr h1 \<and> cfs_hash_maybe_rehash hf mem h1 = Inr h2
    \<and> hs_step hf hs (hs_items hs - {x}) (hs_refs hs (-1) {x} r) h2"
proof -
  note i = hs_repD(1) [OF rep]
  have lt': "card (hs_items hs) < 2 ^ 32" using lt rep_card(1) [OF rep] by simp
  have "x \<in> hs_items hs" using x hs_repD(6) [OF rep] by simp
  from del_locked_step [OF i lt' this] obtain h1 where d: "cfs_hash_bd_del_locked (hs_place hf hs (hs_keys hs x)) x hs = Inr h1"
    "hs_step hf hs (hs_items hs - {x}) (hs_refs hs (-1) {x} (hs_ref hs)) h1" by blast
  have "card (hs_items hs - {x}) < 2 ^ 32"
    using lt' by (rule card_less_sub) blast
  from card_step [OF d(2) this, of mem] show ?thesis using d(1) hs_repD(2) [OF rep] by auto
qed

lemma del_agrees:
  assumes rep: "hs_rep hf m r hs" and lt: "card (dom m) < 2 ^ 32" and n: "noref = cfs_hash_with_no_itemref hs"
  shows "agrees hf hs (map_do (hs_keys hs) noref (Hs_del_key k) (m, r)) (hs_do hf mem (Hs_del_key k) hs)"
    "agrees hf hs (map_do (hs_keys hs) noref (Hs_del x) (m, r)) (hs_do hf mem (Hs_del x) hs)"
proof -
  note i = hs_repD(1) [OF rep]
  note fk = find_key [OF rep place_in_table [OF i]]
  show "agrees hf hs (map_do (hs_keys hs) noref (Hs_del_key k) (m, r)) (hs_do hf mem (Hs_del_key k) hs)"
  proof (cases "m k")
    case None
    have "hs_do hf mem (Hs_del_key k) hs = Inr (Hs_item None, hs)"
      using None fk [of k] by (simp add: cfs_hash_del_key_def cfs_hash_del_def dual_one [OF i] cfs_hash_multi_bd_finddel_locked_def
          cfs_hash_bd_lookup_intent_def)
    then show ?thesis using None rep by (simp add: fun_upd_idem)
  next
    case (Some e)
    then have k: "hs_keys hs e = k" using hs_repD(6) [OF rep] by blast
    then have "m (hs_keys hs e) = Some e" using Some by simp
    from delete_step [OF rep lt this, of mem] obtain h1 h2 where d:
      "cfs_hash_bd_del_locked (hs_place hf hs k) e hs = Inr h1" "cfs_hash_maybe_rehash hf mem h1 = Inr h2"
      "hs_step hf hs (hs_items hs - {e}) (hs_refs hs (-1) {e} r) h2" unfolding k by blast
    have "hs_do hf mem (Hs_del_key k) hs = Inr (Hs_item (Some e), h2)"
      using Some fk [of k] d by (simp add: cfs_hash_del_key_def cfs_hash_del_def dual_one [OF i] cfs_hash_multi_bd_finddel_locked_def
          cfs_hash_bd_lookup_intent_def)
    moreover have "hs_frame hs h2" using d(3) by (simp add: hs_step_def)
    ultimately show ?thesis
      using Some rep_delete [OF rep d(3)] k by (simp add: add_refs_eq [OF n])
  qed
  have h: "hs_hashed hs x \<longleftrightarrow> m (hs_keys hs x) = Some x" by (simp add: hashed_iff hs_repD(6) [OF rep])
  show "agrees hf hs (map_do (hs_keys hs) noref (Hs_del x) (m, r)) (hs_do hf mem (Hs_del x) hs)"
  proof (cases "m (hs_keys hs x) = Some x")
    case False
    have "card (hs_items hs) < 2 ^ 32" using lt rep_card(1) [OF rep] by simp
    from maybe_rehash_same [OF i this, of mem] obtain h2 where s: "cfs_hash_maybe_rehash hf mem hs = Inr h2" "hs_same hf hs h2" by blast
    have "hs_do hf mem (Hs_del x) hs = Inr (Hs_item (Some x), h2)"
      using False s by (simp add: cfs_hash_del_def dual_one [OF i] h)
    then show ?thesis using False rep_same [OF rep s(2)] s(2) by (simp add: hs_same_def)
  next
    case True
    from delete_step [OF rep lt this, of mem] obtain h1 h2 where d:
      "cfs_hash_bd_del_locked (hs_place hf hs (hs_keys hs x)) x hs = Inr h1" "cfs_hash_maybe_rehash hf mem h1 = Inr h2"
      "hs_step hf hs (hs_items hs - {x}) (hs_refs hs (-1) {x} r) h2" by blast
    have "hs_do hf mem (Hs_del x) hs = Inr (Hs_item (Some x), h2)"
      using True d by (simp add: cfs_hash_del_def dual_one [OF i] h)
    moreover have "hs_frame hs h2" using d(3) by (simp add: hs_step_def)
    ultimately show ?thesis
      using True rep_delete [OF rep d(3) True] by (simp add: add_refs_eq [OF n])
  qed
qed

end

section \<open>Iterations\<close>

definition entered :: "('k, 'i) cfs_hash \<Rightarrow> ('k, 'i) cfs_hash" where
  "entered hs = (if cfs_hash_with_rehash hs then hs\<lparr>hs_iterating := True, hs_iterators := 1\<rparr> else hs)"

lemma enter_eq:
  assumes "hs_rep hf m r hs"
  shows "cfs_hash_for_each_enter hs = Inr (entered hs)" "\<not> cfs_hash_is_rehashing (entered hs)"
  using hs_repD(1-5) [OF assms] hs_invD(2) [OF hs_repD(1) [OF assms]]
  by (auto simp: cfs_hash_for_each_enter_def entered_def hassert_def cfs_hash_is_rehashing_def)

lemma entered_inv:
  "hs_inv hf (entered hs) = hs_inv hf hs" "hs_items (entered hs) = hs_items hs" "hs_ref (entered hs) = hs_ref hs"
  "hs_chain (entered hs) = hs_chain hs" "all_bds (entered hs) = all_bds hs" "hs_keys (entered hs) = hs_keys hs"
  "hs_refs (entered hs) = hs_refs hs" "hs_flags (entered hs) = hs_flags hs" "hs_buckets (entered hs) = hs_buckets hs"
  "CFS_HASH_NBKT (entered hs) = CFS_HASH_NBKT hs" "hs_place hf (entered hs) = hs_place hf hs"
proof -
  have s: "same_core hs (entered hs)" "hs_count (entered hs) = hs_count hs"
    "same_table (hs\<lparr>hs_iterating := hs_iterating (entered hs), hs_iterators := hs_iterators (entered hs), hs_refcount := hs_refcount hs\<rparr>) (entered hs)"
    by (simp_all add: entered_def same_core_def same_table_def)
  show "hs_inv hf (entered hs) = hs_inv hf hs" "hs_items (entered hs) = hs_items hs"
    using inv_cong [OF s(1,3,2)] by simp_all
  show "hs_ref (entered hs) = hs_ref hs"
  "hs_chain (entered hs) = hs_chain hs" "all_bds (entered hs) = all_bds hs" "hs_keys (entered hs) = hs_keys hs"
  "hs_refs (entered hs) = hs_refs hs" "hs_flags (entered hs) = hs_flags hs" "hs_buckets (entered hs) = hs_buckets hs"
  "CFS_HASH_NBKT (entered hs) = CFS_HASH_NBKT hs" "hs_place hf (entered hs) = hs_place hf hs"
    by (simp_all add: entered_def hs_chain_def all_bds_def CFS_HASH_NBKT_def CFS_HASH_BKT_NHLIST_def hs_refs_def
        flag_defs hs_place_def fun_eq_iff)
qed

text \<open>What is left of the iteration after its exit.\<close>

definition left_it :: "('k, 'i) cfs_hash \<Rightarrow> ('k, 'i) cfs_hash" where
  "left_it hs = (if cfs_hash_with_rehash hs then hs\<lparr>hs_iterating := False, hs_iterators := 0\<rparr> else hs)"

lemma exit_eq:
  assumes "hs_frame (entered hs) hs'"
  shows "cfs_hash_for_each_exit hf mem hs' = Inr (left_it hs')"
proof (cases "cfs_hash_with_rehash hs")
  case False
  then have "\<not> cfs_hash_with_rehash hs'" using assms by (simp add: hs_frame_def flag_defs entered_def)
  then show ?thesis by (simp add: cfs_hash_for_each_exit_def left_it_def)
next
  case True
  then have w: "cfs_hash_with_rehash hs'" "hs_iterating hs'" "hs_iterators hs' = 1"
    using assms by (simp_all add: hs_frame_def flag_defs entered_def)
  then have "\<not> cfs_hash_rehash_bits (hs'\<lparr>hs_iterators := hs_iterators hs' - 1\<rparr>) > 0"
    by (simp add: cfs_hash_rehash_bits_def cfs_hash_is_iterating_def)
  then show ?thesis using w by (simp add: cfs_hash_for_each_exit_def left_it_def Let_def)
qed

lemma left_step:
  assumes "hs_rep hf m r hs" "hs_step hf (entered hs) X r' hs'"
  shows "hs_step hf hs X r' (left_it hs')"
proof -
  have s: "same_core hs' (left_it hs')" "hs_count (left_it hs') = hs_count hs'"
    "same_table (hs'\<lparr>hs_iterating := hs_iterating (left_it hs'), hs_iterators := hs_iterators (left_it hs'), hs_refcount := hs_refcount hs'\<rparr>) (left_it hs')"
    by (simp_all add: left_it_def same_core_def same_table_def)
  have "hs_frame hs (left_it hs')"
    using assms(2) hs_repD(4,5) [OF assms(1)]
    by (auto simp: hs_step_def hs_frame_def entered_def left_it_def flag_defs split: if_splits)
  moreover have "hs_ref (left_it hs') = hs_ref hs'" by (simp add: left_it_def)
  ultimately show ?thesis
    using assms(2) inv_cong [OF s(1,3,2)] by (simp add: hs_step_def)
qed

lemma tight_step:
  assumes rep: "hs_rep hf m r hs"
    and run: "each_bds f (all_bds hs) (0, entered hs, d) = Inr (b, n, h1, d1)" and st: "hs_step hf (entered hs) X r' h1"
  shows "\<exists>hs'. cfs_hash_for_each_tight hf mem (Some f) d hs = Inr (n, hs', d1) \<and> hs_step hf hs X r' hs'"
proof -
  have "cfs_hash_for_each_exit hf mem h1 = Inr (left_it h1)"
    using st by (intro exit_eq [where hs = hs]) (simp add: hs_step_def)
  then show ?thesis
    using run left_step [OF rep st] enter_eq [OF rep]
    by (simp add: cfs_hash_for_each_tight_def hassert_def entered_inv)
qed

lemma all_bds_iff: "bd \<in> set (all_bds hs) \<longleftrightarrow> in_table (CFS_HASH_NBKT hs) hs bd"
  by (cases bd) (auto simp: all_bds_def in_table_def)

lemma step_refl: "hs_inv hf hs \<Longrightarrow> hs_step hf hs (hs_items hs) (hs_ref hs) hs"
  by (simp add: hs_step_def)

lemma step_trans:
  "hs_step hf a X r b \<Longrightarrow> hs_step hf b Y r' c \<Longrightarrow> hs_step hf a Y r' c"
  unfolding hs_step_def using hs_frame_trans by blast

lemma refs_union:
  assumes "hs_frame a b" "X \<inter> Y = {}"
  shows "hs_refs b d Y (hs_refs a d X r) = hs_refs a d (X \<union> Y) r"
  using assms by (auto simp: hs_refs_def hs_frame_def flag_defs fun_eq_iff)

context hash_fun
begin

lemma cond_chain:
  assumes "hs_inv hf hs" "card (hs_items hs) < 2 ^ 32" "distinct xs" "\<And>x. x \<in> set xs \<Longrightarrow> x \<in> hs_items hs \<and> hs_place hf hs (hs_keys hs x) = bd"
  shows "\<exists>n' hs'. each_chain (cfs_hash_cond_del_locked c) bd xs (n, hs, ()) = Inr (False, n', hs', ())
    \<and> hs_step hf hs (hs_items hs - {x \<in> set xs. c x}) (hs_refs hs (-1) {x \<in> set xs. c x} (hs_ref hs)) hs'
    \<and> (\<forall>bd'. bd' \<noteq> bd \<longrightarrow> hs_chain hs' bd' = hs_chain hs bd') \<and> hs_cur_bits hs' = hs_cur_bits hs"
  using assms
proof (induction xs arbitrary: hs n)
  case Nil
  then show ?case using step_refl [OF Nil(1)] by (simp add: hs_refs_def)
next
  case (Cons x xs)
  show ?case
  proof (cases "c x")
    case False
    then have e: "{y \<in> set (x # xs). c y} = {y \<in> set xs. c y}" by auto
    show ?thesis
      unfolding e using Cons.IH [of hs "n + 1"] Cons.prems False by (simp add: cfs_hash_cond_del_locked_def)
  next
    case True
    have x: "x \<in> hs_items hs" "hs_place hf hs (hs_keys hs x) = bd" using Cons.prems(4) [of x] by simp_all
    from del_locked_step [OF Cons.prems(1,2) x(1)] obtain h1 where d: "cfs_hash_bd_del_locked bd x hs = Inr h1"
      "hs_step hf hs (hs_items hs - {x}) (hs_refs hs (-1) {x} (hs_ref hs)) h1"
      "\<forall>bd'. bd' \<noteq> bd \<longrightarrow> hs_chain h1 bd' = hs_chain hs bd'" "hs_cur_bits h1 = hs_cur_bits hs" unfolding x(2) by blast
    have f: "hs_inv hf h1" "hs_items h1 = hs_items hs - {x}" "hs_frame hs h1" "hs_ref h1 = hs_refs hs (-1) {x} (hs_ref hs)"
      using d(2) by (simp_all add: hs_step_def)
    have c1: "card (hs_items h1) < 2 ^ 32"
      using Cons.prems(2) unfolding f(2) by (rule card_less_sub) blast
    have p: "hs_place hf h1 (hs_keys h1 y) = hs_place hf hs (hs_keys hs y)" for y
      using f(3) d(4) by (simp add: hs_place_def hs_frame_def)
    have "y \<in> hs_items h1 \<and> hs_place hf h1 (hs_keys h1 y) = bd" if "y \<in> set xs" for y
      using that Cons.prems(3) Cons.prems(4) [of y] unfolding f(2) p by auto
    from Cons.IH [OF f(1) c1 _ this, of "n + 1"] Cons.prems(3) obtain n2 h2 where two:
      "each_chain (cfs_hash_cond_del_locked c) bd xs (n + 1, h1, ()) = Inr (False, n2, h2, ())"
      "hs_step hf h1 (hs_items h1 - {y \<in> set xs. c y}) (hs_refs h1 (-1) {y \<in> set xs. c y} (hs_ref h1)) h2"
      "\<forall>bd'. bd' \<noteq> bd \<longrightarrow> hs_chain h2 bd' = hs_chain h1 bd'" "hs_cur_bits h2 = hs_cur_bits h1" by auto
    have e: "{y \<in> set (x # xs). c y} = {x} \<union> {y \<in> set xs. c y}" using True by auto
    have "{x} \<inter> {y \<in> set xs. c y} = {}" using Cons.prems(3) by auto
    note u = refs_union [OF f(3) this]
    have i: "hs_items h1 - {y \<in> set xs. c y} = hs_items hs - ({x} \<union> {y \<in> set xs. c y})" unfolding f(2) by blast
    have "hs_step hf hs (hs_items hs - {y \<in> set (x # xs). c y}) (hs_refs hs (-1) {y \<in> set (x # xs). c y} (hs_ref hs)) h2"
      using step_trans [OF d(2) two(2)] unfolding e i f(4) u .
    moreover have "cfs_hash_cond_del_locked c x bd (hs, ()) = Inr (False, h1, ())"
      using True d(1) by (simp add: cfs_hash_cond_del_locked_def)
    moreover from this have "each_chain (cfs_hash_cond_del_locked c) bd (x # xs) (n, hs, ()) = Inr (False, n2, h2, ())"
      using two(1) by simp
    moreover have "\<forall>bd'. bd' \<noteq> bd \<longrightarrow> hs_chain h2 bd' = hs_chain hs bd'" "hs_cur_bits h2 = hs_cur_bits hs"
      using d(3,4) two(3,4) by simp_all
    ultimately show ?thesis by blast
  qed
qed

lemma cond_bds:
  assumes "hs_inv hf hs" "card (hs_items hs) < 2 ^ 32" "distinct bds" "\<And>bd. bd \<in> set bds \<Longrightarrow> in_table (CFS_HASH_NBKT hs) hs bd"
    "D = {x \<in> hs_items hs. c x \<and> hs_place hf hs (hs_keys hs x) \<in> set bds}"
  shows "\<exists>n' hs'. each_bds (cfs_hash_cond_del_locked c) bds (n, hs, ()) = Inr (False, n', hs', ())
    \<and> hs_step hf hs (hs_items hs - D) (hs_refs hs (-1) D (hs_ref hs)) hs'"
  using assms
proof (induction bds arbitrary: hs n D)
  case Nil
  then show ?case using step_refl [OF Nil(1)] by (simp add: hs_refs_def)
next
  case (Cons bd bds)
  have t: "in_table (CFS_HASH_NBKT hs) hs bd" using Cons.prems(4) by simp
  note i = hs_invD [OF Cons.prems(1)]
  have on: "x \<in> set (hs_chain hs bd) \<longleftrightarrow> x \<in> hs_items hs \<and> hs_place hf hs (hs_keys hs x) = bd" for x
    using t on_chain_placed [OF Cons.prems(1), of x] unfolding hs_items_def items_on_chain on_chain_def by blast
  have "distinct (hs_chain hs bd)" using table_distinct [OF i(4) t] .
  from cond_chain [OF Cons.prems(1,2) this, where bd = bd and n = n and c = c] on obtain n1 h1 where one:
    "each_chain (cfs_hash_cond_del_locked c) bd (hs_chain hs bd) (n, hs, ()) = Inr (False, n1, h1, ())"
    "hs_step hf hs (hs_items hs - {x \<in> set (hs_chain hs bd). c x}) (hs_refs hs (-1) {x \<in> set (hs_chain hs bd). c x} (hs_ref hs)) h1"
    "hs_cur_bits h1 = hs_cur_bits hs" by auto
  let ?A = "{x \<in> set (hs_chain hs bd). c x}" and ?B = "{x \<in> hs_items h1. c x \<and> hs_place hf h1 (hs_keys h1 x) \<in> set bds}"
  have f: "hs_inv hf h1" "hs_items h1 = hs_items hs - ?A" "hs_frame hs h1" "hs_ref h1 = hs_refs hs (-1) ?A (hs_ref hs)"
    using one(2) by (simp_all add: hs_step_def)
  have p: "hs_place hf h1 (hs_keys h1 y) = hs_place hf hs (hs_keys hs y)" for y
    using f(3) one(3) by (simp add: hs_place_def hs_frame_def)
  have c1: "card (hs_items h1) < 2 ^ 32"
    using Cons.prems(2) unfolding f(2) by (rule card_less_sub) blast
  have tb: "in_table (CFS_HASH_NBKT h1) h1 = in_table (CFS_HASH_NBKT hs) hs"
    using f(3) one(3) by (simp add: fun_eq_iff in_table_def CFS_HASH_NBKT_def CFS_HASH_BKT_NHLIST_def hs_frame_def)
  have "in_table (CFS_HASH_NBKT h1) h1 bd'" if "bd' \<in> set bds" for bd' using that Cons.prems(4) unfolding tb by simp
  from Cons.IH [OF f(1) c1 _ this refl, where n = n1] Cons.prems(3) obtain n2 h2 where two:
    "each_bds (cfs_hash_cond_del_locked c) bds (n1, h1, ()) = Inr (False, n2, h2, ())"
    "hs_step hf h1 (hs_items h1 - ?B) (hs_refs h1 (-1) ?B (hs_ref h1)) h2" by auto
  have D: "D = ?A \<union> ?B" unfolding Cons.prems(5) f(2) p using on by auto
  have disj: "?A \<inter> ?B = {}" unfolding f(2) by blast
  have j: "hs_items h1 - ?B = hs_items hs - D" unfolding D f(2) by blast
  have "hs_step hf hs (hs_items hs - D) (hs_refs hs (-1) D (hs_ref hs)) h2"
    using step_trans [OF one(2) two(2)] unfolding j f(4) refs_union [OF f(3) disj] D [symmetric] .
  then show ?case using one(1) two(1) by simp
qed

lemma cond_del_agrees:
  assumes rep: "hs_rep hf m r hs" and lt: "card (dom m) < 2 ^ 32" and n: "noref = cfs_hash_with_no_itemref hs"
  shows "agrees hf hs (map_do (hs_keys hs) noref (Hs_cond_del c) (m, r)) (hs_do hf mem (Hs_cond_del c) hs)"
proof -
  note i = hs_repD(1) [OF rep]
  let ?h = "entered hs"
  let ?D = "{x \<in> hs_items hs. c x}"
  have D: "{x \<in> hs_items ?h. c x \<and> hs_place hf ?h (hs_keys ?h x) \<in> set (all_bds hs)} = ?D"
    using place_in_table [OF i] by (auto simp: entered_inv all_bds_iff)
  have "card (hs_items ?h) < 2 ^ 32" using lt rep_card(1) [OF rep] by (simp add: entered_inv)
  moreover have "distinct (all_bds hs)" by (simp add: all_bds_def distinct_product)
  moreover have "in_table (CFS_HASH_NBKT ?h) ?h bd" if "bd \<in> set (all_bds hs)" for bd
    using that all_bds_iff [of bd ?h] by (simp add: entered_inv)
  ultimately obtain n1 h1 where one: "each_bds (cfs_hash_cond_del_locked c) (all_bds hs) (0, ?h, ()) = Inr (False, n1, h1, ())"
    "hs_step hf ?h (hs_items ?h - ?D) (hs_refs ?h (-1) ?D (hs_ref ?h)) h1"
    using cond_bds [of ?h "all_bds hs" ?D c 0] i D by (auto simp: entered_inv)
  obtain h2 where two: "cfs_hash_for_each_tight hf mem (Some (cfs_hash_cond_del_locked c)) () hs = Inr (n1, h2, ())"
    "hs_step hf hs (hs_items hs - ?D) (hs_refs hs (-1) ?D (hs_ref hs)) h2"
    using tight_step [OF rep one, of mem] by (auto simp: entered_inv)
  let ?m = "\<lambda>k. case m k of Some e \<Rightarrow> if c e then None else Some e | None \<Rightarrow> None"
  have "?m k = Some x \<longleftrightarrow> x \<in> hs_items hs - ?D \<and> hs_keys hs x = k" for k x
  proof -
    have "?m k = Some x \<longleftrightarrow> m k = Some x \<and> \<not> c x" by (auto split: option.split)
    then show ?thesis using hs_repD(6) [OF rep, of k x] by auto
  qed
  note rep' = rep_step [OF rep two(2) this]
  have e: "{x. m (hs_keys hs x) = Some x \<and> c x} = ?D" using hs_repD(6) [OF rep] by auto
  have "hs_do hf mem (Hs_cond_del c) hs = Inr (Hs_void, h2)"
    using two(1) by (simp add: cfs_hash_cond_del_def)
  then show ?thesis
    using rep' two(2) by (simp add: hs_step_def add_refs_eq [OF n] e hs_repD(2) [OF rep])
qed

lemma peek_bds:
  "\<exists>n'. each_bds cfs_hash_peek bds (n, hs, True) = Inr (\<exists>bd \<in> set bds. hs_chain hs bd \<noteq> [], n', hs, \<forall>bd \<in> set bds. hs_chain hs bd = [])"
proof (induction bds arbitrary: n)
  case (Cons bd bds)
  then show ?case by (cases "hs_chain hs bd") (auto simp: cfs_hash_peek_def)
qed simp

lemma is_empty_agrees:
  assumes rep: "hs_rep hf m r hs"
  shows "agrees hf hs (map_do (hs_keys hs) noref Hs_is_empty (m, r)) (hs_do hf mem Hs_is_empty hs)"
proof -
  obtain n where p: "each_bds cfs_hash_peek (all_bds hs) (0, entered hs, True)
      = Inr (\<exists>bd \<in> set (all_bds hs). hs_chain hs bd \<noteq> [], n, entered hs, \<forall>bd \<in> set (all_bds hs). hs_chain hs bd = [])"
    using peek_bds [of "all_bds hs" 0 "entered hs"] by (auto simp: entered_inv)
  have "hs_step hf (entered hs) (hs_items hs) r (entered hs)"
    using step_refl [of hf "entered hs"] hs_repD(1,2) [OF rep] by (simp add: entered_inv)
  from tight_step [OF rep p this, of mem] obtain h2 where two:
    "cfs_hash_for_each_tight hf mem (Some cfs_hash_peek) True hs = Inr (n, h2, \<forall>bd \<in> set (all_bds hs). hs_chain hs bd = [])"
    "hs_step hf hs (hs_items hs) r h2" by blast
  have "hs_rep hf m r h2" using rep_step [OF rep two(2) hs_repD(6) [OF rep]] .
  moreover have "(\<forall>bd \<in> set (all_bds hs). hs_chain hs bd = []) \<longleftrightarrow> dom m = {}"
  proof -
    have "(\<forall>bd \<in> set (all_bds hs). hs_chain hs bd = []) \<longleftrightarrow> hs_items hs = {}"
    proof
      assume "\<forall>bd \<in> set (all_bds hs). hs_chain hs bd = []"
      then show "hs_items hs = {}" by (auto simp: hs_items_def items_def all_bds_iff)
    next
      assume e: "hs_items hs = {}"
      show "\<forall>bd \<in> set (all_bds hs). hs_chain hs bd = []"
      proof
        fix bd assume "bd \<in> set (all_bds hs)"
        then have "x \<notin> set (hs_chain hs bd)" for x using e by (auto simp: hs_items_def items_def all_bds_iff)
        then show "hs_chain hs bd = []" by (cases "hs_chain hs bd") auto
      qed
    qed
    also have "\<dots> \<longleftrightarrow> card (dom m) = 0" unfolding hs_items_def using card_0_eq [OF finite_items, of "CFS_HASH_NBKT hs" hs]
        rep_card(1) [OF rep, unfolded hs_items_def] by simp
    also have "\<dots> \<longleftrightarrow> dom m = {}"
      using finite_imageI [OF finite_items, of "hs_keys hs" "CFS_HASH_NBKT hs" hs] rep_dom [OF rep] by (simp add: hs_items_def)
    finally show ?thesis .
  qed
  ultimately show ?thesis
    using two by (simp add: cfs_hash_is_empty_def hs_step_def)
qed

lemma size_agrees:
  assumes rep: "hs_rep hf m r hs" and lt: "card (dom m) < 2 ^ 32"
  shows "agrees hf hs (map_do (hs_keys hs) noref Hs_size_get (m, r)) (hs_do hf mem Hs_size_get hs)"
proof -
  note i = hs_invD [OF hs_repD(1) [OF rep]]
  have c: "total (CFS_HASH_NBKT hs) hs = card (dom m)"
    using rep_card(1) [OF rep] by (simp add: total_card [OF i(4)] hs_items_def)
  show ?thesis
  proof (cases "cfs_hash_with_counter hs")
    case True
    then show ?thesis using rep i(6) c by (simp add: cfs_hash_size_get_def)
  next
    case False
    have "\<not> cfs_hash_with_rehash hs" using i(1) False by (simp add: bits_ok_def)
    then have e: "entered hs = hs" by (simp add: entered_def)
    have "sum_list (map (\<lambda>b. ucast (hsb_count (hs_buckets hs b))) [0..<CFS_HASH_NBKT hs]) = (of_nat (card (dom m)) :: u64)"
      using count_sum [of "CFS_HASH_NBKT hs" hs] i(4) lt by (simp add: c table_ok_def)
    moreover have "cfs_hash_for_each_exit hf mem hs = Inr hs"
      using exit_eq [of hs hs hf mem] \<open>\<not> cfs_hash_with_rehash hs\<close> by (simp add: e left_it_def)
    ultimately show ?thesis
      using rep False enter_eq [OF rep] by (simp add: cfs_hash_size_get_def cfs_hash_for_each_tight_def e hassert_def)
  qed
qed

section \<open>Histories\<close>

lemma map_do_dom:
  assumes "map_do key noref op (m, r) = Inr (a, m', r')"
  shows "\<exists>k. dom m' \<subseteq> insert k (dom m)"
proof (cases op)
  case (Hs_add_unique x)
  then show ?thesis using assms by (intro exI [of _ "key x"]) (auto split: option.splits if_splits)
next
  case (Hs_findadd_unique x)
  then show ?thesis using assms by (intro exI [of _ "key x"]) (auto split: option.splits if_splits)
next
  case (Hs_cond_del c)
  then show ?thesis using assms by (auto split: option.splits if_splits)
qed (use assms in \<open>auto split: if_splits\<close>)

lemma do_agrees:
  assumes rep: "hs_rep hf m r hs" and lt: "Suc (card (dom m)) < 2 ^ 32" and n: "noref = cfs_hash_with_no_itemref hs"
  shows "agrees hf hs (map_do (hs_keys hs) noref op (m, r)) (hs_do hf mem op hs)"
proof -
  have l: "card (dom m) < 2 ^ 32" using lt by simp
  note all = lookup_agrees [OF rep] add_unique_agrees [OF rep lt n] del_agrees [OF rep l n] cond_del_agrees [OF rep l n]
    is_empty_agrees [OF rep] size_agrees [OF rep l]
  show ?thesis by (cases op) (simp_all only: all)
qed

lemma run_agrees:
  assumes "hs_rep hf m r hs" "card (dom m) + length ops < 2 ^ 32" "noref = cfs_hash_with_no_itemref hs" "key = hs_keys hs"
  shows "case map_run key noref (map snd ops) (m, r) of
      Inl e \<Rightarrow> hs_run hf ops hs = Inl e
    | Inr (rs, m', r') \<Rightarrow> \<exists>hs'. hs_run hf ops hs = Inr (rs, hs') \<and> hs_rep hf m' r' hs'"
  using assms
proof (induction ops arbitrary: hs m r)
  case Nil
  then show ?case by simp
next
  case (Cons a ops)
  obtain mem op where o: "a = (mem, op)" by (cases a)
  have lt: "Suc (card (dom m)) < 2 ^ 32" using Cons.prems(2) by simp
  note ag = do_agrees [OF Cons.prems(1) lt Cons.prems(3), of op mem]
  show ?case
  proof (cases "map_do key noref op (m, r)")
    case (Inl e)
    then show ?thesis using ag Cons.prems(4) by (simp add: agrees_def o)
  next
    case (Inr x)
    obtain v m1 r1 where x: "x = (v, m1, r1)" by (cases x)
    then obtain h1 where h1: "hs_do hf mem op hs = Inr (v, h1)" "hs_rep hf m1 r1 h1" "hs_keys h1 = hs_keys hs" "hs_flags h1 = hs_flags hs"
      using ag Inr Cons.prems(4) by (auto simp: agrees_def)
    obtain k where k: "dom m1 \<subseteq> insert k (dom m)" using map_do_dom Inr x by metis
    have "finite (dom m)" using rep_dom [OF Cons.prems(1)] by (simp add: hs_items_def)
    then have "card (dom m1) \<le> Suc (card (dom m))"
      using card_mono [OF _ k] card_insert_le_m1 by (metis card_insert_if finite_insert le_SucI order_refl order_trans)
    then have "card (dom m1) + length ops < 2 ^ 32" using Cons.prems(2) by simp
    from Cons.IH [OF h1(2) this] Cons.prems(3,4) h1(3,4)
    have "case map_run key noref (map snd ops) (m1, r1) of
      Inl e \<Rightarrow> hs_run hf ops h1 = Inl e
    | Inr (rs, m', r') \<Rightarrow> \<exists>hs'. hs_run hf ops h1 = Inr (rs, hs') \<and> hs_rep hf m' r' hs'" by (simp add: flag_defs)
    then show ?thesis using Inr x h1(1) o by (auto split: sum.splits)
  qed
qed

end

lemma empty_rep:
  assumes "hs_buckets hs = (\<lambda>_. new_bucket)" "bits_ok hs" "hs_rehash_bits hs = 0" "\<not> hs_rehash_tbl hs" "hs_count hs = 0"
    "\<not> hs_exiting hs" "\<not> hs_iterating hs" "hs_iterators hs = 0"
  shows "hs_rep hf Map.empty (hs_ref hs) hs"
proof -
  have nk: "hs_chain hs bd = []" for bd by (simp add: assms(1) hs_chain_def)
  have o: "\<not> on_chain n hs x bd" for n x bd by (simp add: on_chain_def nk)
  have t: "table_ok n hs" for n unfolding table_ok_iff by (simp add: o assms(1))
  have it: "items n hs = {}" for n by (auto simp: items_on_chain o)
  have "hs_inv hf hs"
    using t assms unfolding hs_inv_def placed_iff by (simp add: o total_card it)
  then show ?thesis using assms by (simp add: hs_rep_def hs_items_def it)
qed

lemma create_rep:
  assumes "cfs_hash_create mem cur_bits max_bits bkt_bits min_theta max_theta keys refs flags = Inr (Some hs)"
  shows "hs_rep hf Map.empty refs hs" "hs_keys hs = keys" "cfs_hash_with_no_itemref hs = (flags AND push_bit 5 1 \<noteq> 0)"
proof -
  define fl where "fl = (if flags AND push_bit 9 1 \<noteq> 0 then flags OR push_bit 7 1 else flags)"
  obtain mn mx where hs: "hs = \<lparr>hs_buckets = (\<lambda>_. new_bucket), hs_count = 0, hs_flags = fl, hs_iterating = False, hs_exiting = False,
                hs_cur_bits = cur_bits, hs_min_bits = cur_bits, hs_max_bits = max_bits, hs_rehash_bits = 0,
                hs_bkt_bits = bkt_bits, hs_min_theta = mn, hs_max_theta = mx, hs_rehash_count = 0, hs_iterators = 0,
                hs_refcount = 1, hs_rehash_tbl = False, hs_ref = refs, hs_keys = keys\<rparr>"
    and b: "cur_bits > 0" "cur_bits \<ge> bkt_bits" "max_bits \<ge> cur_bits" "max_bits < 31" "0 < bkt_bits \<or> bkt_bits = 0"
    and w: "cfs_hash_with_rehash hs \<longrightarrow> \<not> cfs_hash_with_no_lock hs"
    using assms unfolding cfs_hash_create_def Let_def fl_def [symmetric]
    by (auto simp: hassert_def cfs_hash_buckets_realloc_def flag_defs split: if_splits option.splits)
  have c: "cfs_hash_with_rehash hs \<longrightarrow> cfs_hash_with_counter hs"
    by (simp add: hs flag_defs fl_def word_ao_absorbs)
  have "bits_ok hs" using w c b unfolding bits_ok_def by (simp add: hs)
  then have "hs_rep hf Map.empty (hs_ref hs) hs" by (rule empty_rep [rotated]) (simp_all add: hs)
  then show "hs_rep hf Map.empty refs hs" by (simp add: hs)
  show "hs_keys hs = keys" by (simp add: hs)
  show "cfs_hash_with_no_itemref hs = (flags AND push_bit 5 1 \<noteq> 0)"
    by (simp add: hs flag_defs fl_def word_ao_dist bit_eq_iff)
qed

end
