(* ===== verification/CfsHashProps.thy ===== *)
theory CfsHashProps
  imports CfsHashRefine
begin

text \<open>
  The properties of the hash tables, for the three hash functions of the header
  and for any other that respects the mask.
\<close>

section \<open>The hash functions\<close>

interpretation djb2: hash_fun cfs_hash_djb2_hash
  by unfold_locales (simp add: cfs_hash_djb2_hash_def ac_simps)

lemma and_ucast: "(ucast (a AND ucast b) :: u32) = ucast a AND b" for a :: u64
  by (rule bit_word_eqI) (simp add: bit_simps)

interpretation h32: hash_fun cfs_hash_u32_hash
  by unfold_locales (simp only: cfs_hash_u32_hash_def and_ucast and.assoc and.idem)

interpretation h64: hash_fun cfs_hash_u64_hash
  by unfold_locales (simp only: cfs_hash_u64_hash_def and.assoc and.idem)

section \<open>Properties\<close>

text \<open>C8 A table with unique keys is a map: for every hash function that respects
  its mask and every history of unique additions, lookups, deletions by key and
  by item, conditional deletions and size queries, with the memory for resizes
  found or not at each step, the table fails the assertion that the map
  fails, or gives the results of the map, counts the references of the items
  as the map does, and is well-formed: each item on the chain of its key, every
  tail, depth and counter right.\<close>

theorem cfs_hash_refines_map:
  assumes "\<And>k m. hf k m AND m = hf k m"
    and "cfs_hash_create mem cur_bits max_bits bkt_bits min_theta max_theta keys refs flags = Inr (Some hs)"
    and "length ops < 2 ^ 31"
  shows "case map_run keys (flags AND push_bit 5 1 \<noteq> 0) (map snd ops) (Map.empty, refs) of
      Inl e \<Rightarrow> hs_run hf ops hs = Inl e
    | Inr (rs, m, r) \<Rightarrow> \<exists>hs'. hs_run hf ops hs = Inr (rs, hs') \<and> hs_rep hf m r hs'"
proof -
  have h: "hash_fun hf" using assms(1) by (rule hash_fun.intro)
  note c = create_rep [OF assms(2)]
  have "card (dom (Map.empty :: 'a \<rightharpoonup> 'b)) + length ops < 2 ^ 32" using assms(3) by simp
  from hash_fun.run_agrees [OF h c(1) this] c(2,3) show ?thesis by simp
qed

definition wit_mem :: "nat option \<Rightarrow> bool" where
  "wit_mem _ = True"

definition wit_keys :: "nat \<Rightarrow> u32" where
  "wit_keys i = of_nat (i mod 8)"

definition wit_table :: "(u32, nat) cfs_hash" where
  "wit_table = \<lparr>hs_buckets = (\<lambda>_. new_bucket), hs_count = 0, hs_flags = 0x688, hs_iterating = False, hs_exiting = False,
     hs_cur_bits = 1, hs_min_bits = 1, hs_max_bits = 4, hs_rehash_bits = 0, hs_bkt_bits = 1, hs_min_theta = 512, hs_max_theta = 2048,
     hs_rehash_count = 0, hs_iterators = 0, hs_refcount = 1, hs_rehash_tbl = False, hs_ref = (\<lambda>_. 0), hs_keys = wit_keys\<rparr>"

lemma wit_create: "cfs_hash_create wit_mem 1 4 1 512 2048 wit_keys (\<lambda>_. 0) 0x608 = Inr (Some wit_table)"
  by (simp add: cfs_hash_create_def Let_def hassert_def flag_defs cfs_hash_buckets_realloc_def wit_mem_def wit_table_def fun_eq_iff
      list_all_iff)

definition wit_ops :: "((nat option \<Rightarrow> bool) \<times> (u32, nat) hs_op) list" where
  "wit_ops = map (\<lambda>op. (wit_mem, op)) [Hs_add_unique 1, Hs_add_unique 9, Hs_findadd_unique 9, Hs_add_unique 2, Hs_add_unique 3,
     Hs_lookup 2, Hs_del_key 1, Hs_del 3, Hs_lookup 1, Hs_size_get, Hs_is_empty]"

lemma wit_run:
  "map_run wit_keys False (map snd wit_ops) (Map.empty, (\<lambda>_. 0))
   = Inr ([Hs_rc 0, Hs_rc (-114), Hs_item (Some 1), Hs_rc 0, Hs_rc 0, Hs_item (Some 2), Hs_item (Some 1), Hs_item (Some 3),
       Hs_item None, Hs_size 1, Hs_flag False], [2 \<mapsto> 2], (\<lambda>_. 0)(1 := 1, 2 := 2))"
  by (simp add: wit_ops_def wit_keys_def add_refs_def fun_eq_iff)

theorem cfs_hash_refines_map_witness:
  "\<exists>hs'. hs_run cfs_hash_u32_hash wit_ops wit_table
     = Inr ([Hs_rc 0, Hs_rc (-114), Hs_item (Some 1), Hs_rc 0, Hs_rc 0, Hs_item (Some 2), Hs_item (Some 1), Hs_item (Some 3),
       Hs_item None, Hs_size 1, Hs_flag False], hs')
   \<and> hs_rep cfs_hash_u32_hash [2 \<mapsto> 2] ((\<lambda>_. 0)(1 := 1, 2 := 2)) hs'"
  using cfs_hash_refines_map [OF h32.masked wit_create, of wit_ops] wit_run by (simp add: wit_ops_def)

text \<open>C9 A change of size keeps the map, whether the memory for it is found or
  not: no item is lost, repeated or left on a chain that is not its key's in the new
  table.  When the memory is found the table has the size that the load asks for.\<close>

theorem cfs_hash_resizes:
  assumes "\<And>k m. hf k m AND m = hf k m" and "hs_rep hf m r hs" and "card (dom m) < 2 ^ 32"
  shows "\<exists>hs'. cfs_hash_maybe_rehash hf mem hs = Inr hs' \<and> hs_rep hf m r hs'
    \<and> ((\<forall>x. mem x) \<longrightarrow> cfs_hash_rehash_bits hs > 0 \<longrightarrow> int (hs_cur_bits hs') = cfs_hash_rehash_bits hs)"
proof -
  have "hash_fun hf" using assms(1) by (rule hash_fun.intro)
  moreover have "card (hs_items hs) < 2 ^ 32" using rep_card [OF assms(2)] assms(3) by simp
  ultimately obtain hs' where "cfs_hash_maybe_rehash hf mem hs = Inr hs'" "hs_same hf hs hs'"
    "(\<forall>x. mem x) \<longrightarrow> cfs_hash_rehash_bits hs > 0 \<longrightarrow> int (hs_cur_bits hs') = cfs_hash_rehash_bits hs"
    using hash_fun.maybe_rehash_same [OF _ hs_repD(1) [OF assms(2)], of mem] by blast
  then show ?thesis using rep_same [OF assms(2)] by blast
qed

text \<open>An empty table of four chains asks for a smaller size.\<close>

definition wit_wide :: "(u32, nat) cfs_hash" where
  "wit_wide = wit_table\<lparr>hs_cur_bits := 2\<rparr>"

lemma wit_wide_rep: "hs_rep cfs_hash_u32_hash Map.empty (\<lambda>_. 0) wit_wide"
  using empty_rep [of wit_wide cfs_hash_u32_hash] by (simp add: wit_wide_def wit_table_def bits_ok_def flag_defs)

lemma wit_wide_bits: "cfs_hash_rehash_bits wit_wide = 1"
  by (simp add: cfs_hash_rehash_bits_def cfs_hash_theta_def wit_wide_def wit_table_def flag_defs)

text \<open>A table with an item: the one after the history \<open>wit_ops\<close>.\<close>

definition wit_full :: "(u32, nat) cfs_hash" where
  "wit_full = snd (projr (hs_run cfs_hash_u32_hash wit_ops wit_table))"

lemma wit_full_rep: "hs_rep cfs_hash_u32_hash [2 \<mapsto> 2] ((\<lambda>_. 0)(1 := 1, 2 := 2)) wit_full"
proof -
  note c = create_rep [OF wit_create]
  have "card (dom (Map.empty :: u32 \<rightharpoonup> nat)) + length wit_ops < 2 ^ 32" by (simp add: wit_ops_def)
  note a = h32.run_agrees [OF c(1) this c(3) [symmetric] c(2) [symmetric]]
  have "\<exists>rs hs'. hs_run cfs_hash_u32_hash wit_ops wit_table = Inr (rs, hs') \<and> hs_rep cfs_hash_u32_hash [2 \<mapsto> 2] ((\<lambda>_. 0)(1 := 1, 2 := 2)) hs'"
    using a wit_run by fastforce
  then obtain rs hs' where "hs_run cfs_hash_u32_hash wit_ops wit_table = Inr (rs, hs')"
    "hs_rep cfs_hash_u32_hash [2 \<mapsto> 2] ((\<lambda>_. 0)(1 := 1, 2 := 2)) hs'" by blast
  then show ?thesis by (simp add: wit_full_def)
qed

theorem cfs_hash_resizes_witness:
  "(\<exists>hs'. cfs_hash_maybe_rehash cfs_hash_u32_hash wit_mem wit_wide = Inr hs' \<and> hs_rep cfs_hash_u32_hash Map.empty (\<lambda>_. 0) hs'
    \<and> int (hs_cur_bits hs') = 1)
   \<and> (\<exists>hs'. cfs_hash_maybe_rehash cfs_hash_u32_hash wit_mem wit_full = Inr hs'
    \<and> hs_rep cfs_hash_u32_hash [2 \<mapsto> 2] ((\<lambda>_. 0)(1 := 1, 2 := 2)) hs')"
  using cfs_hash_resizes [OF h32.masked wit_wide_rep, of wit_mem] wit_wide_bits
    cfs_hash_resizes [OF h32.masked wit_full_rep, of wit_mem] by (simp add: wit_mem_def) blast

text \<open>A callback that collects the items it is called on.\<close>

definition collect :: "('k, 'i, 'i list) hs_cb" where
  "collect x bd s = Inr (False, fst s, snd s @ [x])"

lemma collect_chain: "each_chain collect bd xs (n, hs, d) = Inr (False, n + of_nat (length xs), hs, d @ xs)"
  by (induction xs arbitrary: n d) (simp_all add: collect_def)

lemma collect_bds:
  "each_bds collect bds (n, hs, d)
     = Inr (False, n + of_nat (length (concat (map (hs_chain hs) bds))), hs, d @ concat (map (hs_chain hs) bds))"
  by (induction bds arbitrary: n d) (simp_all add: collect_chain)

lemma distinct_concat_map:
  assumes "distinct bds" "\<And>b. b \<in> set bds \<Longrightarrow> distinct (f b)"
    "\<And>b c x. b \<in> set bds \<Longrightarrow> c \<in> set bds \<Longrightarrow> x \<in> set (f b) \<Longrightarrow> x \<in> set (f c) \<Longrightarrow> b = c"
  shows "distinct (concat (map f bds))"
  using assms
proof (induction bds)
  case (Cons a bds)
  have "distinct (concat (map f bds))"
  proof (rule Cons.IH)
    show "b = c" if "b \<in> set bds" "c \<in> set bds" "x \<in> set (f b)" "x \<in> set (f c)" for b c x
      using Cons.prems(3) [of b c x] that by simp
  qed (use Cons.prems in simp_all)
  moreover have "set (f a) \<inter> set (f b) = {}" if "b \<in> set bds" for b
    using Cons.prems(3) [of a b] Cons.prems(1) that by auto
  ultimately show ?case using Cons.prems(2) [of a] by auto
qed simp

text \<open>C33 A walk over a table visits each item exactly once and returns the number of
  the items; the table represents the same map after it, with the same
  references.\<close>

theorem cfs_hash_for_each_visits_once:
  assumes "hs_rep hf m r hs"
  shows "\<exists>n hs' xs. cfs_hash_for_each_tight hf mem (Some collect) [] hs = Inr (n, hs', xs)
    \<and> distinct xs \<and> set xs = ran m \<and> n = of_nat (card (dom m)) \<and> hs_rep hf m r hs'"
proof -
  note i = hs_repD(1) [OF assms]
  note t = hs_invD(4) [OF i]
  let ?xs = "concat (map (hs_chain hs) (all_bds hs))"
  have d: "distinct ?xs"
  proof (rule distinct_concat_map)
    show "distinct (all_bds hs)" by (simp add: all_bds_def distinct_product)
  qed (use table_distinct [OF t] table_okD [OF t] in \<open>simp_all add: all_bds_iff\<close>)
  have s: "set ?xs = hs_items hs" by (auto simp: hs_items_def items_def all_bds_iff)
  have "hs_step hf (entered hs) (hs_items hs) r (entered hs)"
    using step_refl [of hf "entered hs"] i hs_repD(2) [OF assms] by (simp add: entered_inv)
  from tight_step [OF assms _ this, of collect "[]" False "of_nat (length ?xs)" ?xs mem] obtain hs' where run: "cfs_hash_for_each_tight hf mem (Some collect) [] hs = Inr (of_nat (length ?xs), hs', ?xs)"
    "hs_step hf hs (hs_items hs) r hs'"
    using collect_bds [of "all_bds hs" 0 "entered hs" "[]"] by (auto simp: entered_inv)
  have "ran m = hs_items hs" using hs_repD(6) [OF assms] by (auto simp: ran_def)
  moreover have "length ?xs = card (dom m)" using distinct_card [OF d] rep_card(1) [OF assms] by (simp only: s)
  moreover have "hs_rep hf m r hs'" by (rule rep_step [OF assms run(2) hs_repD(6) [OF assms]])
  ultimately show ?thesis using run(1) d s by auto
qed

theorem cfs_hash_for_each_visits_once_witness:
  "\<exists>n hs' xs. cfs_hash_for_each_tight cfs_hash_u32_hash wit_mem (Some collect) [] wit_full = Inr (n, hs', xs)
    \<and> distinct xs \<and> set xs = {2} \<and> n = 1 \<and> hs_rep cfs_hash_u32_hash [2 \<mapsto> 2] ((\<lambda>_. 0)(1 := 1, 2 := 2)) hs'"
  using cfs_hash_for_each_visits_once [OF wit_full_rep, of wit_mem] by simp

text \<open>C39 The end of an iteration never resizes the table, whatever its load: the
  flag of the iteration is still set when the new size is computed, so the
  resize that the comment promises after an iteration does not come.\<close>

theorem cfs_hash_exit_never_resizes:
  assumes "cfs_hash_for_each_enter hs = Inr hs1" and "hs_flags hs2 = hs_flags hs1" "hs_iterating hs2 = hs_iterating hs1"
  shows "\<exists>hs3. cfs_hash_for_each_exit hf mem hs2 = Inr hs3 \<and> hs_buckets hs3 = hs_buckets hs2 \<and> hs_cur_bits hs3 = hs_cur_bits hs2
    \<and> hs_rehash_count hs3 = hs_rehash_count hs2"
proof (cases "cfs_hash_with_rehash hs2")
  case False
  then show ?thesis by (simp add: cfs_hash_for_each_exit_def)
next
  case True
  then have "cfs_hash_with_rehash hs"
    using assms by (auto simp: cfs_hash_for_each_enter_def hassert_def flag_defs Let_def cfs_hash_rehash_cancel_locked_def split: if_splits)
  then have it: "hs_iterating hs2"
    using assms by (auto simp: cfs_hash_for_each_enter_def hassert_def Let_def cfs_hash_rehash_cancel_locked_def split: if_splits)
  have "\<not> cfs_hash_rehash_bits (hs2\<lparr>hs_iterators := hs_iterators hs2 - 1\<rparr>) > 0"
    using it by (simp add: cfs_hash_rehash_bits_def cfs_hash_is_iterating_def)
  then show ?thesis using True by (simp add: cfs_hash_for_each_exit_def Let_def)
qed

definition wit_entered :: "(u32, nat) cfs_hash" where
  "wit_entered = wit_wide\<lparr>hs_iterating := True, hs_iterators := 1\<rparr>"

lemma wit_enter: "cfs_hash_for_each_enter wit_wide = Inr wit_entered"
  by (simp add: cfs_hash_for_each_enter_def wit_entered_def wit_wide_def wit_table_def hassert_def flag_defs)

theorem cfs_hash_exit_never_resizes_witness:
  "cfs_hash_rehash_bits wit_wide = 1 \<and> (\<exists>hs3. cfs_hash_for_each_exit cfs_hash_u32_hash wit_mem wit_entered = Inr hs3
    \<and> hs_buckets hs3 = hs_buckets wit_entered \<and> hs_cur_bits hs3 = hs_cur_bits wit_entered
    \<and> hs_rehash_count hs3 = hs_rehash_count wit_entered)"
  using cfs_hash_exit_never_resizes [OF wit_enter refl refl] wit_wide_bits by blast

text \<open>The load of a table is right only below two million items.\<close>

lemma cfs_hash_theta_overflows:
  assumes "0 \<le> hs_count hs" "hs_count hs < 2 ^ 31" "hs_cur_bits hs < 31"
  shows "cfs_hash_theta hs = hs_count hs * 1024 div 2 ^ hs_cur_bits hs \<longleftrightarrow> hs_count hs < 2 ^ 21"
proof -
  define y where "y = hs_count hs * 1024"
  define v where "v = sint (push_bit 10 (word_of_int (hs_count hs) :: 32 word))"
  have v: "v = (y + 2 ^ 31) mod 2 ^ 32 - 2 ^ 31"
  proof -
    have "push_bit 10 (word_of_int (hs_count hs) :: 32 word) = word_of_int y" by (simp add: push_bit_eq_mult y_def)
    then have "v = signed_take_bit 31 y" by (simp add: v_def sint_sbintrunc')
    then show ?thesis by (simp add: signed_take_bit_eq_take_bit_shift take_bit_eq_mod)
  qed
  have th: "cfs_hash_theta hs = v div 2 ^ hs_cur_bits hs" by (simp add: cfs_hash_theta_def v_def)
  show ?thesis
  proof (cases "hs_count hs < 2 ^ 21")
    case True
    then have "v = y" using assms(1) unfolding v y_def by simp
    then show ?thesis using True th by (simp add: y_def)
  next
    case False
    then have "2 ^ 31 \<le> y" by (simp add: y_def)
    define q where "q = (y + 2 ^ 31) div 2 ^ 32"
    define z where "z = (y + 2 ^ 31) mod 2 ^ 32"
    have e: "y + 2147483648 = q * 4294967296 + z" unfolding q_def z_def by simp
    have "z < 4294967296" unfolding z_def by simp
    moreover have "2147483648 \<le> y" using \<open>2 ^ 31 \<le> y\<close> by simp
    ultimately have "1 \<le> q" using e by linarith
    then have "z - 2147483648 + 4294967296 \<le> y" using e by linarith
    then have "v + 2 ^ 32 \<le> y" unfolding v z_def [symmetric] by simp
    moreover have "(2::int) ^ 32 = 2 ^ (32 - hs_cur_bits hs) * 2 ^ hs_cur_bits hs"
      using assms(3) by (simp flip: power_add)
    ultimately have "(v + 2 ^ (32 - hs_cur_bits hs) * 2 ^ hs_cur_bits hs) div 2 ^ hs_cur_bits hs \<le> y div 2 ^ hs_cur_bits hs"
      by (intro zdiv_mono1) simp_all
    then have "v div 2 ^ hs_cur_bits hs + 2 ^ (32 - hs_cur_bits hs) \<le> y div 2 ^ hs_cur_bits hs" by simp
    moreover have "(0::int) < 2 ^ (32 - hs_cur_bits hs)" by simp
    ultimately have "v div 2 ^ hs_cur_bits hs \<noteq> y div 2 ^ hs_cur_bits hs" by linarith
    then show ?thesis using False th by (simp add: y_def)
  qed
qed

end
