(* ===== verification/Spec2Isabelle.thy ===== *)
theory Spec2Isabelle
  imports NrsFifo BinHeap NrsBinHeap RbTree NrsRbTree EventLoop IntervalTree LdlmExtent Ldlm LdlmSafe Elevator ElvKinds Disk Striping FileMap NrsPrio NrsEpoch NrsFrr NrsTbf TbfLive TbfRate Pool Congest CfsHashProps
begin

text \<open>
  Lustre-Simulator (src/lustre) is a discrete event simulator of the Lustre file
  system, one thread of C++: an event loop runs the events of clients, servers,
  networks and disks in the order of their times.  This development models
  the algorithms and state machines it is made of and proves what makes them
  correct.

  \<^bold>\<open>The program and its parts.\<close>  Everything is driven by the event loop (event.cpp,
  timer.cpp), whose run queue is a red-black tree or a binary heap behind the
  abstract class Scheduler (scheduler.cpp).  A client cuts its file I/O for the
  objects of the file (lov.cpp) and sends one request per object and server;
  the requests wait in the client's congestion controller
  (congestcontroller.cpp), a thread pool (processor.cpp) over a FIFO scheduler,
  and at the server in a pool over one of the request schedulers (nrs*.cpp).
  The server takes extent locks (ldlm.cpp over intervaltree.cpp), maps the file to
  blocks (filesystem.cpp) and submits block I/O to a RAID-0 device
  (raid0device.cpp) or a disk (disk.cpp) with an elevator (elevator.cpp,
  elvdeadline.cpp, elvnoop.cpp).  The containers are the program's own: the
  red-black tree (rbtree.cpp), the heaps (heap.cpp, nrsbinheap.cpp), the hash
  tables (cfshash.cpp), the elevator's hash (hash.h).

  \<^bold>\<open>Theories, in the order of their imports.\<close>
  \<^item> Prelude: the integer types of lustre.h at their width, the collections of
    facts, generic lemmas.
  \<^item> SchedIf: scheduler.h and scheduler.cpp; the contracts of a scheduler as the
    locales \<open>scheduler\<close>, \<open>ranked_scheduler\<close>, \<open>fifo_scheduler\<close>, \<open>class_scheduler\<close>.
    Each request scheduler interprets one of them, or is shown not to satisfy it.
  \<^item> NrsFifo (nrsfifo.cpp), NrsPrio (nrsprio.cpp), NrsEpoch (nrsepoch.cpp),
    NrsFrr (nrsfrr.cpp, the io_queue of obd.h), NrsTbf with TbfLive, TbfJobs and
    TbfRate (nrstbf.cpp): the request schedulers.
  \<^item> HeapCore, BinHeap (heap.cpp, heap.h), NrsBinHeap (nrsbinheap.cpp): the sift loops
    once over an array, and the two heaps over their own memory layouts, shown
    to simulate them.
  \<^item> RbTree (rbtree.cpp), NrsRbTree (nrsrbtree.cpp), IntervalTree
    (intervaltree.cpp): trees as datatypes, parent chains as paths; the interval
    tree refines the red-black tree.
  \<^item> EventLoop (event.cpp, timer.cpp): arming, cancelling and running events over
    either run queue (locale \<open>event_queue\<close>).
  \<^item> LdlmExtent, Ldlm, LdlmSafe (ldlm.cpp, ldlm.h): lock modes, the extent policy, the
    queues of a resource, and their safety.
  \<^item> Elevator, ElvKinds, Disk (elevator.cpp, hash.h, elvdeadline.cpp, elvnoop.cpp,
    disk.cpp): merging, sorting and dispatch of block I/O (locale
    \<open>elevator_methods\<close>, interpreted for both elevators), and the disk's thread.
  \<^item> Striping (raid0device.cpp, lov.cpp, struct Layout of event.h), FileMap
    (filesystem.cpp).
  \<^item> Pool (processor.cpp), Congest (congestcontroller.cpp, two operations of
    client.cpp): thread pools over any scheduler (locale \<open>pool_nrs\<close>, a sublocale
    of \<open>scheduler\<close>), and the pool whose size follows the granted credits.
  \<^item> CfsHash, CfsHashOk, CfsHashMap, CfsHashSpec, CfsHashRefine, CfsHashProps
    (cfshash.cpp, cfshash.h): hash tables that resize (locale \<open>hash_fun\<close>,
    interpreted for the three hash functions of the header).

  \<^bold>\<open>How the code appears.\<close>  Structs are records, enums datatypes, machine integers
  words of their width; where a count is a natural number the theory says which
  bound keeps it from wrapping.  Objects that are shared or mutated through
  pointers are named by numbers and kept in a store.  A failed assertion, a NULL
  dereference, a division by zero or a loop that does not end is a value:
  \<open>None\<close>, or a fault of a sum type where there are several.  Virtual methods are
  records of functions.  Definitions carry the names of the code; a name that is not
  in the code is a loop or a block of the function that its map entry names.

  \<^bold>\<open>What the lemmas show.\<close>  For every container: an invariant, its preservation, and
  the exact effect of each operation, allocation failure included.  For every
  request scheduler: no request is lost or served twice, and its order of
  service (arrival, rank, class, time slice, rotation, rate).  For the event loop:
  the clock never goes back and the run queue holds what is armed.  For
  locks: extents granted in conflicting modes never overlap, and the head of the
  queue is granted once nothing is in its way, if the interval tree of its mode has
  a mode (the loop that sets it is compiled out, and then an assertion fails).
  For disks: every request is completed exactly once.  For striping and block
  mapping: the pieces cover each byte exactly once at its place; an empty I/O
  divides by zero, and a preallocated space with too few blocks stops the
  program.  For pools: no task is lost and no thread idles
  while a request waits, except in the cases shown.  For hash tables: a table is a
  map with reference counts whatever resizes happen.  Several theorems
  describe what the code really does where this differs from what it means to do;
  the manifest lists them as findings.

  \<^bold>\<open>Bounds and fuel.\<close>  Loops that end by their shape are recursive functions, with a
  measure where they need one.  The alignment loop of the extent policy and the
  scan of the priority scheduler can run for ever and are partial functions, with
  the condition under which they return proved (\<open>align_loop_ends_iff\<close>,
  \<open>quantum_never_returns\<close>).  The loops that cut, map and dispatch I/O in Striping,
  FileMap, Elevator and Disk are partial functions too, whose value None is a
  failure or no return; the properties of these theories show when they return.
  The fuel of the event loop is its number of rounds; after a break its second loop
  needs one round per armed event.  Times are bounded so that no sum wraps (64
  bits); heap indices by the growth bound, those of NrsBinHeap by the
  \<open>2 ^ 10 + 2 ^ 20 + 2 ^ 30\<close> cells of its array; the queue of a file in NrsFrr and
  hash tables by \<open>2 ^ 31\<close> items.

  \<^bold>\<open>Not modelled.\<close>  Code that only prints, collects statistics, parses parameters or
  builds objects (lustre.cpp, cluster.cpp, stat.cpp, node.cpp, device.cpp,
  netdevice.cpp, the self tests); the benchmark drivers and the request state
  machines of client.cpp, pios.cpp, ost.cpp, osc.cpp, mdt.cpp, mdc.cpp; the
  transport (message.cpp, peer.cpp, nic.cpp, network.cpp, ptlrpc.cpp).  The
  components of the manifest give the reason for each.  Inside the modelled parts:
  the number of nodes that a red-black tree counts but never reads; in NrsTbf the
  statistics record that nrs_tbf_update_rule_rate writes through a pointer that may
  be unset, and the value of th_rule before the first rule is configured, which
  the code leaves uninitialised and the model takes as NULL.  Of the
  third-party code only std::list and the C library are used, by their
  documented meaning; random numbers are arguments.
\<close>

end
